(* ===== verification/Prelude.thy ===== *)
theory Prelude
  imports Main "HOL-Library.Word"
begin

text \<open>
  Shared vocabulary of the development: the faults a C operation can run into, the
  result type every fallible operation returns, its sequencing operator, and the generic
  lemmas on lists, functions and words that several components use.
\<close>

section \<open>Types of the machine\<close>

type_synonym byte = "8 word"
type_synonym u16 = "16 word"
type_synonym u32 = "32 word"
type_synonym u64 = "64 word"

section \<open>Faults and results\<close>

text \<open>
  An operation of the kernel either returns or runs into undefined behaviour or an
  abort: a failed \<^verbatim>\<open>assert\<close>, a \<^verbatim>\<open>FATAL\<close>, a null or dangling dereference, an access
  outside an array, a division by zero, a read of a
  variable that has no value, an \<^verbatim>\<open>int\<close> counter that passes its largest value. Error codes that the code returns are ordinary values, not faults.
\<close>

datatype fault =
    Assert_failed
  | Fatal
  | Null_deref
  | Use_after_free
  | Out_of_bounds
  | Div_by_zero
  | Uninitialized
  | No_return
  | Int_overflow

type_synonym 'a res = "fault + 'a"

definition bindE :: "'a res \<Rightarrow> ('a \<Rightarrow> 'b res) \<Rightarrow> 'b res" where
  "bindE m f = (case m of Inl e \<Rightarrow> Inl e | Inr x \<Rightarrow> f x)"

definition assertE :: "bool \<Rightarrow> unit res" where
  "assertE P = (if P then Inr () else Inl Assert_failed)"

definition derefE :: "'a option \<Rightarrow> 'a res" where
  "derefE p = (case p of None \<Rightarrow> Inl Use_after_free | Some x \<Rightarrow> Inr x)"

definition nonnullE :: "'a option \<Rightarrow> 'a res" where
  "nonnullE p = (case p of None \<Rightarrow> Inl Null_deref | Some x \<Rightarrow> Inr x)"

text \<open>\<^verbatim>\<open>i++\<close> for a variable of type \<^verbatim>\<open>int\<close>, whose overflow is undefined.\<close>

definition inc_int :: "int \<Rightarrow> int res" where
  "inc_int i = (if i < 2 ^ 31 - 1 then Inr (i + 1) else Inl Int_overflow)"

text \<open>\<^verbatim>\<open>a + b\<close> for two values of type \<^verbatim>\<open>int\<close>.\<close>

definition add_int :: "int \<Rightarrow> int \<Rightarrow> int res" where
  "add_int a b = (if - (2 ^ 31) \<le> a + b \<and> a + b < 2 ^ 31 then Inr (a + b) else Inl Int_overflow)"

lemma bindE_simps [simp]:
  "bindE (Inl e) f = Inl e"
  "bindE (Inr x) f = f x"
  by (simp_all add: bindE_def)

lemma bindE_eq_Inr:
  "bindE m f = Inr y \<longleftrightarrow> (\<exists>x. m = Inr x \<and> f x = Inr y)"
  by (cases m) simp_all

lemma bindE_elim: "bindE m f = Inr y \<Longrightarrow> (\<And>x. m = Inr x \<Longrightarrow> f x = Inr y \<Longrightarrow> P) \<Longrightarrow> P"
  by (cases m) simp_all

lemma bindE_elim2:
  "bindE m (\<lambda>(x, y). f x y) = Inr z \<Longrightarrow> (\<And>x y. m = Inr (x, y) \<Longrightarrow> f x y = Inr z \<Longrightarrow> P) \<Longrightarrow> P"
  by (cases m) auto

lemma bindE_assoc:
  "bindE (bindE m f) g = bindE m (\<lambda>x. bindE (f x) g)"
  by (cases m) simp_all

lemma assertE_simps [simp]:
  "P \<Longrightarrow> assertE P = Inr ()"
  "\<not> P \<Longrightarrow> assertE P = Inl Assert_failed"
  by (simp_all add: assertE_def)

lemma assertE_eq_Inr [simp]: "assertE P = Inr u \<longleftrightarrow> P"
  by (simp add: assertE_def)

lemma derefE_simps [simp]:
  "derefE None = Inl Use_after_free"
  "derefE (Some x) = Inr x"
  by (simp_all add: derefE_def)

lemma derefE_eq_Inr [simp]: "derefE p = Inr x \<longleftrightarrow> p = Some x"
  by (cases p) simp_all

lemma nonnullE_simps [simp]:
  "nonnullE None = Inl Null_deref"
  "nonnullE (Some x) = Inr x"
  by (simp_all add: nonnullE_def)

lemma nonnullE_eq_Inr [simp]: "nonnullE p = Inr x \<longleftrightarrow> p = Some x"
  by (cases p) simp_all

lemma inc_int_ok [simp]: "i < 2 ^ 31 - 1 \<Longrightarrow> inc_int i = Inr (i + 1)"
  by (simp add: inc_int_def)

lemma inc_int_eq_Inr: "inc_int i = Inr j \<longleftrightarrow> i < 2 ^ 31 - 1 \<and> j = i + 1"
  by (auto simp: inc_int_def)

lemma add_int_ok [simp]: "- (2 ^ 31) \<le> a + b \<Longrightarrow> a + b < 2 ^ 31 \<Longrightarrow> add_int a b = Inr (a + b)"
  by (simp add: add_int_def)

lemma add_int_eq_Inr: "add_int a b = Inr c \<longleftrightarrow> - (2 ^ 31) \<le> a + b \<and> a + b < 2 ^ 31 \<and> c = a + b"
  by (auto simp: add_int_def)

section \<open>Lists\<close>

lemma distinct_removeAll_split:
  "distinct (xs @ x # ys) \<Longrightarrow> removeAll x (xs @ x # ys) = xs @ ys"
  by (simp add: removeAll_id)

lemma filter_False_if_none: "(\<forall>x \<in> set xs. \<not> P x) \<Longrightarrow> filter P xs = []"
  by (simp add: filter_empty_conv)

end
