(* ===== verification/RList.thy ===== *)
theory RList
  imports Prelude "HOL-Library.Monad_Syntax"
begin

text \<open>
  The resource lists of \<^verbatim>\<open>src/util.h\<close>: circular doubly linked rings of \<^verbatim>\<open>rlnode\<close>s, at the
  level of the pointers. A heap gives the content of every \<^verbatim>\<open>prev\<close> and \<^verbatim>\<open>next\<close> cell; the
  list operations are the splices of the code. The predicate \<open>ring\<close> says that a sentinel
  represents a list, and the last part shows that the operations simulate, on all the
  rings of a heap at once, the list operations by which the kernel components of this
  development keep their queues.
\<close>

section \<open>Nodes and pointers\<close>

datatype 'n rcell = PrevOf 'n | NextOf 'n

type_synonym 'n rheap = "'n rcell \<Rightarrow> 'n"

abbreviation prv :: "'n rheap \<Rightarrow> 'n \<Rightarrow> 'n" where
  "prv h n \<equiv> h (PrevOf n)"

abbreviation nxt :: "'n rheap \<Rightarrow> 'n \<Rightarrow> 'n" where
  "nxt h n \<equiv> h (NextOf n)"

definition rlnode_new :: "'n \<Rightarrow> 'n rheap \<Rightarrow> 'n rheap" where
  "rlnode_new p h = (let h1 = h(NextOf p := p) in h1(PrevOf p := nxt h1 p))"

definition rlnode_init :: "'n \<Rightarrow> 'k \<Rightarrow> ('n \<Rightarrow> 'k) \<Rightarrow> 'n rheap \<Rightarrow> 'n rheap \<times> ('n \<Rightarrow> 'k)" where
  "rlnode_init p ptr key h = (rlnode_new p h, key(p := ptr))"

definition rlnode_swap :: "'n rcell \<Rightarrow> 'n rcell \<Rightarrow> 'n rheap \<Rightarrow> 'n rheap" where
  "rlnode_swap p q h = (let temp = h p; h1 = h(p := h q) in h1(q := temp))"

definition rl_splice :: "'n \<Rightarrow> 'n \<Rightarrow> 'n rheap \<Rightarrow> 'n rheap" where
  "rl_splice a b h =
     (let h1 = rlnode_swap (PrevOf (nxt h a)) (PrevOf (nxt h b)) h
      in rlnode_swap (NextOf a) (NextOf b) h1)"

text \<open>
  \<^verbatim>\<open>rl_splice\<close> returns its second argument; the operations that return a node give it
  together with the new heap.
\<close>

definition rlist_remove :: "'n \<Rightarrow> 'n rheap \<Rightarrow> 'n \<times> 'n rheap" where
  "rlist_remove a h = (a, rl_splice a (prv h a) h)"

definition is_rlist_empty :: "'n \<Rightarrow> 'n rheap \<Rightarrow> bool" where
  "is_rlist_empty a h \<longleftrightarrow> a = nxt h a"

definition rlist_push_front :: "'n \<Rightarrow> 'n \<Rightarrow> 'n rheap \<Rightarrow> 'n rheap" where
  "rlist_push_front l n h = rl_splice l n h"

definition rlist_push_back :: "'n \<Rightarrow> 'n \<Rightarrow> 'n rheap \<Rightarrow> 'n rheap" where
  "rlist_push_back l n h = rl_splice (prv h l) n h"

definition rlist_pop_front :: "'n \<Rightarrow> 'n rheap \<Rightarrow> 'n \<times> 'n rheap" where
  "rlist_pop_front l h = (nxt h l, rl_splice l (nxt h l) h)"

definition rlist_pop_back :: "'n \<Rightarrow> 'n rheap \<Rightarrow> 'n \<times> 'n rheap" where
  "rlist_pop_back l h = (prv h l, rl_splice l (prv h l) h)"

text \<open>
  The loops follow \<^verbatim>\<open>next\<close> pointers; on a heap that is not a ring they need not end, which
  is the result \<open>None\<close>. The counter of \<^verbatim>\<open>rlist_len\<close> is an \<^verbatim>\<open>unsigned int\<close>.
\<close>

partial_function (option) rlist_len_loop ::
  "'n rheap \<Rightarrow> 'n \<Rightarrow> 'n \<Rightarrow> u32 \<Rightarrow> u32 option" where
  "rlist_len_loop h l p count =
     (if p \<noteq> l then rlist_len_loop h l (nxt h p) (count + 1) else Some count)"

definition rlist_len :: "'n \<Rightarrow> 'n rheap \<Rightarrow> u64 option" where
  "rlist_len l h = map_option ucast (rlist_len_loop h l (nxt h l) 0)"

partial_function (option) rlist_equal_loop ::
  "'n rheap \<Rightarrow> ('n \<Rightarrow> 'k) \<Rightarrow> 'n \<Rightarrow> 'n \<Rightarrow> 'n \<Rightarrow> 'n \<Rightarrow> bool option" where
  "rlist_equal_loop h num l1 l2 i1 i2 =
     (if i1 \<noteq> l1 then
        (if i2 = l2 \<or> num i1 \<noteq> num i2 then Some False
         else rlist_equal_loop h num l1 l2 (nxt h i1) (nxt h i2))
      else Some (i2 = l2))"

definition rlist_equal :: "'n \<Rightarrow> 'n \<Rightarrow> ('n \<Rightarrow> 'k) \<Rightarrow> 'n rheap \<Rightarrow> bool option" where
  "rlist_equal l1 l2 num h = rlist_equal_loop h num l1 l2 (nxt h l1) (nxt h l2)"

definition rlist_append :: "'n \<Rightarrow> 'n \<Rightarrow> 'n rheap \<Rightarrow> 'n rheap" where
  "rlist_append ldest lsrc h = snd (rlist_remove lsrc (rlist_push_back ldest lsrc h))"

definition rlist_prepend :: "'n \<Rightarrow> 'n \<Rightarrow> 'n rheap \<Rightarrow> 'n rheap" where
  "rlist_prepend ldest lsrc h = snd (rlist_remove lsrc (rlist_push_front ldest lsrc h))"

partial_function (option) rlist_reverse_loop ::
  "'n \<Rightarrow> 'n \<Rightarrow> 'n rheap \<Rightarrow> 'n rheap option" where
  "rlist_reverse_loop l p h =
     (let h1 = rlnode_swap (PrevOf p) (NextOf p) h; p1 = nxt h1 p
      in if p1 \<noteq> l then rlist_reverse_loop l p1 h1 else Some h1)"

definition rlist_reverse :: "'n \<Rightarrow> 'n rheap \<Rightarrow> 'n rheap option" where
  "rlist_reverse l h = rlist_reverse_loop l l h"

partial_function (option) rlist_find_loop ::
  "'n rheap \<Rightarrow> ('n \<Rightarrow> 'k) \<Rightarrow> 'n \<Rightarrow> 'k \<Rightarrow> 'n option \<Rightarrow> 'n \<Rightarrow> 'n option option" where
  "rlist_find_loop h obj l key fail i =
     (if i \<noteq> l then
        (if obj i = key then Some (Some i) else rlist_find_loop h obj l key fail (nxt h i))
      else Some fail)"

definition rlist_find ::
  "'n \<Rightarrow> 'k \<Rightarrow> 'n option \<Rightarrow> ('n \<Rightarrow> 'k) \<Rightarrow> 'n rheap \<Rightarrow> 'n option option" where
  "rlist_find l key fail obj h = rlist_find_loop h obj l key fail (nxt h l)"

text \<open>
  \<^verbatim>\<open>rlist_select\<close> is passed the predicate as a function on node pointers.
\<close>

partial_function (option) rlist_select_loop ::
  "'n \<Rightarrow> 'n \<Rightarrow> ('n \<Rightarrow> bool) \<Rightarrow> 'n \<Rightarrow> 'n rheap \<Rightarrow> 'n rheap option" where
  "rlist_select_loop lsrc ldest pred i h =
     (if nxt h i \<noteq> lsrc then
        (if pred (nxt h i) then
           (let r = rlist_remove (nxt h i) h
            in rlist_select_loop lsrc ldest pred i (rlist_push_back ldest (fst r) (snd r)))
         else rlist_select_loop lsrc ldest pred (nxt h i) h)
      else Some h)"

definition rlist_select :: "'n \<Rightarrow> 'n \<Rightarrow> ('n \<Rightarrow> bool) \<Rightarrow> 'n rheap \<Rightarrow> 'n rheap option" where
  "rlist_select lsrc ldest pred h = rlist_select_loop lsrc ldest pred lsrc h"

section \<open>Rings\<close>

text \<open>
  \<open>seg h a xs b\<close>: following \<^verbatim>\<open>next\<close> from \<open>a\<close> one meets \<open>xs\<close> and then \<open>b\<close>, and every
  \<^verbatim>\<open>prev\<close> on the way points back. A ring is a segment that returns to its start; read with
  its first node as sentinel, it represents the list of the others.
\<close>

fun seg :: "'n rheap \<Rightarrow> 'n \<Rightarrow> 'n list \<Rightarrow> 'n \<Rightarrow> bool" where
  "seg h a [] b \<longleftrightarrow> nxt h a = b \<and> prv h b = a"
| "seg h a (x # xs) b \<longleftrightarrow> nxt h a = x \<and> prv h x = a \<and> seg h x xs b"

definition ring :: "'n rheap \<Rightarrow> 'n \<Rightarrow> 'n list \<Rightarrow> bool" where
  "ring h a xs \<longleftrightarrow> distinct (a # xs) \<and> seg h a xs a"

lemma seg_append [simp]:
  "seg h a (xs @ y # ys) b \<longleftrightarrow> seg h a xs y \<and> seg h y ys b"
  by (induction xs arbitrary: a) auto

lemma seg_nxt: "seg h a xs b \<Longrightarrow> nxt h a = hd (xs @ [b])"
  by (cases xs) auto

lemma seg_prv_hd: "seg h a xs b \<Longrightarrow> prv h (hd (xs @ [b])) = a"
  by (cases xs) auto

lemma seg_prv: "seg h a xs b \<Longrightarrow> prv h b = last (a # xs)"
  by (induction xs arbitrary: a) auto

lemma seg_cong:
  assumes "seg h a xs b"
    and "\<And>x. x \<in> set (a # xs) \<Longrightarrow> nxt h' x = nxt h x"
    and "\<And>x. x \<in> set (xs @ [b]) \<Longrightarrow> prv h' x = prv h x"
  shows "seg h' a xs b"
  using assms by (induction xs arbitrary: a) auto

text \<open>The tail of a segment can be given another start node.\<close>

lemma seg_reroot:
  assumes "seg h b ys c"
    and "nxt h' a = hd (ys @ [c])" and "prv h' (hd (ys @ [c])) = a"
    and "\<And>x. x \<in> set ys \<Longrightarrow> nxt h' x = nxt h x"
    and "\<And>x. x \<in> set (tl (ys @ [c])) \<Longrightarrow> prv h' x = prv h x"
  shows "seg h' a ys c"
proof (cases ys)
  case Nil
  with assms show ?thesis by simp
next
  case (Cons y ys')
  with assms(1) have "seg h y ys' c" by simp
  then have "seg h' y ys' c"
    by (rule seg_cong) (use assms(4,5) Cons in auto)
  with Cons assms(2,3) show ?thesis by simp
qed

lemma ring_rotate: "ring h a (xs @ b # ys) \<longleftrightarrow> ring h b (ys @ a # xs)"
  by (auto simp: ring_def)

lemma ring_cong:
  assumes "ring h a xs"
    and "\<And>x. x \<in> set (a # xs) \<Longrightarrow> nxt h' x = nxt h x \<and> prv h' x = prv h x"
  shows "ring h' a xs"
  using assms seg_cong [of h a xs a h'] by (auto simp: ring_def)

lemma ring_nxt: "ring h a xs \<Longrightarrow> nxt h a = hd (xs @ [a])"
  by (simp add: ring_def seg_nxt)

lemma ring_prv: "ring h a xs \<Longrightarrow> prv h a = last (a # xs)"
  using seg_prv [of h a xs a] by (simp add: ring_def)

lemma ring_distinct: "ring h a xs \<Longrightarrow> distinct (a # xs)"
  by (simp add: ring_def)

text \<open>What a splice does to every pointer, when the two \<^verbatim>\<open>prev\<close> pointers are consistent.\<close>

lemma rl_splice_nxt:
  "nxt (rl_splice a b h) x = (if x = b then nxt h a else if x = a then nxt h b else nxt h x)"
  by (simp add: rl_splice_def rlnode_swap_def Let_def)

lemma rl_splice_prv:
  "prv (rl_splice a b h) x =
     (if x = nxt h b then prv h (nxt h a) else if x = nxt h a then prv h (nxt h b) else prv h x)"
  by (simp add: rl_splice_def rlnode_swap_def Let_def)

text \<open>
  A splice exchanges the tails of two segments: with the end nodes \<open>c = a\<close>, \<open>d = b\<close> it
  joins two rings, with \<open>c = b\<close>, \<open>d = a\<close> it splits one.
\<close>

lemma rl_splice_segs:
  assumes "seg h a xs c" and "seg h b ys d"
    and "distinct (a # b # xs @ ys)" and "c \<noteq> d" and "{c, d} = {a, b}"
  shows "seg (rl_splice a b h) b xs c" and "seg (rl_splice a b h) a ys d"
proof -
  let ?h = "rl_splice a b h"
  have n: "nxt h a = hd (xs @ [c])" "nxt h b = hd (ys @ [d])"
    using assms(1,2) by (simp_all add: seg_nxt)
  have p: "prv h (hd (xs @ [c])) = a" "prv h (hd (ys @ [d])) = b"
    using assms(1,2) by (simp_all add: seg_prv_hd)
  have ne: "hd (xs @ [c]) \<noteq> hd (ys @ [d])"
    using assms(3,4,5) by (cases xs; cases ys) auto
  have tx: "x \<noteq> hd (xs @ [c]) \<and> x \<noteq> hd (ys @ [d])" if "x \<in> set (tl (xs @ [c]))" for x
    using that assms(3,4,5) by (cases xs; cases ys) auto
  have ty: "x \<noteq> hd (xs @ [c]) \<and> x \<noteq> hd (ys @ [d])" if "x \<in> set (tl (ys @ [d]))" for x
    using that assms(3,4,5) by (cases xs; cases ys) auto
  show "seg ?h b xs c"
    by (rule seg_reroot [OF assms(1)])
       (use n p ne tx assms(3) in \<open>auto simp: rl_splice_nxt rl_splice_prv\<close>)
  show "seg ?h a ys d"
    by (rule seg_reroot [OF assms(2)])
       (use n p ne ty assms(3) in \<open>auto simp: rl_splice_nxt rl_splice_prv\<close>)
qed

lemma rl_splice_join:
  assumes "ring h a xs" and "ring h b ys" and "set (a # xs) \<inter> set (b # ys) = {}"
  shows "ring (rl_splice a b h) a (ys @ b # xs)"
  using assms rl_splice_segs [of h a xs a b ys b] by (auto simp: ring_def)

lemma rl_splice_split:
  assumes "ring h a (xs @ b # ys)"
  shows "ring (rl_splice a b h) a ys" and "ring (rl_splice a b h) b xs"
  using assms rl_splice_segs [of h a xs b b ys a] by (auto simp: ring_def)

lemma rl_splice_self: "rl_splice a a h = h"
  by (simp add: rl_splice_def rlnode_swap_def Let_def)

text \<open>The pointers of a ring stay inside it.\<close>

lemma seg_nxt_in: "seg h a xs b \<Longrightarrow> x \<in> set (a # xs) \<Longrightarrow> nxt h x \<in> set (xs @ [b])"
  by (induction xs arbitrary: a) auto

lemma seg_prv_in: "seg h a xs b \<Longrightarrow> x \<in> set (xs @ [b]) \<Longrightarrow> prv h x \<in> set (a # xs)"
  by (induction xs arbitrary: a) auto

lemma ring_nxt_in: "ring h a xs \<Longrightarrow> x \<in> set (a # xs) \<Longrightarrow> nxt h x \<in> set (a # xs)"
  using seg_nxt_in [of h a xs a x] by (auto simp: ring_def)

lemma ring_prv_in: "ring h a xs \<Longrightarrow> x \<in> set (a # xs) \<Longrightarrow> prv h x \<in> set (a # xs)"
  using seg_prv_in [of h a xs a x] by (auto simp: ring_def)

lemma ring_nxt_prv_start:
  assumes "ring h c zs"
  shows "nxt h (prv h c) = c" and "prv h (nxt h c) = c"
proof -
  show "nxt h (prv h c) = c"
    using assms ring_prv [OF assms] by (cases zs rule: rev_cases) (auto simp: ring_def)
  show "prv h (nxt h c) = c"
    using assms by (cases zs) (auto simp: ring_def)
qed

lemma ring_nxt_prv:
  assumes "ring h a xs" and "x \<in> set (a # xs)"
  shows "nxt h (prv h x) = x" and "prv h (nxt h x) = x"
proof -
  obtain zs where "ring h x zs"
  proof (cases "x = a")
    case True
    with assms(1) that show ?thesis by blast
  next
    case False
    with assms(2) obtain us vs where "xs = us @ x # vs" by (auto dest: split_list)
    with assms(1) that ring_rotate [of h a us x vs] show ?thesis by blast
  qed
  then show "nxt h (prv h x) = x" "prv h (nxt h x) = x"
    by (simp_all add: ring_nxt_prv_start)
qed

text \<open>Rings that hold none of the nodes a splice touches stay as they are.\<close>

lemma rl_splice_frame:
  assumes "ring h c zs" and "nxt h a \<notin> set (c # zs)" and "nxt h b \<notin> set (c # zs)"
    and "a \<notin> set (c # zs)" and "b \<notin> set (c # zs)"
  shows "ring (rl_splice a b h) c zs"
  by (rule ring_cong [OF assms(1)]) (use assms(2-) in \<open>auto simp: rl_splice_nxt rl_splice_prv\<close>)

section \<open>The list operations\<close>

lemma ring_new: "ring (rlnode_new p h) p []"
  by (simp add: rlnode_new_def ring_def Let_def)

lemma ring_is_empty: "ring h l xs \<Longrightarrow> is_rlist_empty l h \<longleftrightarrow> xs = []"
  using ring_nxt [of h l xs] by (cases xs) (auto simp: is_rlist_empty_def ring_def)

lemma ring_push_front:
  assumes "ring h l xs" and "ring h n ys" and "set (l # xs) \<inter> set (n # ys) = {}"
  shows "ring (rlist_push_front l n h) l (ys @ n # xs)"
  using rl_splice_join [OF assms] by (simp add: rlist_push_front_def)

lemma ring_push_back:
  assumes "ring h l xs" and "ring h n ys" and "set (l # xs) \<inter> set (n # ys) = {}"
  shows "ring (rlist_push_back l n h) l (xs @ ys @ [n])"
proof (cases xs rule: rev_cases)
  case Nil
  with assms show ?thesis
    using rl_splice_join [of h l "[]" n ys] ring_prv [of h l xs] by (simp add: rlist_push_back_def)
next
  case (snoc us x)
  have "ring h x (l # us)"
    using assms(1) snoc ring_rotate [of h l us x "[]"] by simp
  then have "ring (rl_splice x n h) x (ys @ n # l # us)"
    by (rule rl_splice_join) (use assms snoc in auto)
  then have "ring (rl_splice x n h) l (us @ x # ys @ [n])"
    using ring_rotate [of _ x "ys @ [n]" l us] by simp
  with snoc assms(1) show ?thesis
    using ring_prv [of h l xs] by (simp add: rlist_push_back_def)
qed

lemma ring_pop_front:
  assumes "ring h l (x # xs)" and "rlist_pop_front l h = (n, h')"
  shows "n = x" and "ring h' l xs" and "ring h' x []"
  using assms rl_splice_split [of h l "[]" x xs] ring_nxt [of h l "x # xs"]
  by (auto simp: rlist_pop_front_def)

lemma ring_remove:
  assumes "ring h l (us @ x # vs)" and "rlist_remove x h = (n, h')"
  shows "n = x" and "ring h' l (us @ vs)" and "ring h' x []"
proof -
  have x: "ring h x (vs @ l # us)"
    using assms(1) ring_rotate [of h l us x vs] by simp
  obtain ws y where ws: "vs @ l # us = ws @ [y]"
    by (metis rev_exhaust append_is_Nil_conv list.discI)
  have p: "prv h x = y"
    using ring_prv [OF x] ws by simp
  show "n = x" and "ring h' x []"
    using assms(2) rl_splice_split(1) [of h x ws y "[]"] x ws p
    by (auto simp: rlist_remove_def)
  have "ring h' y ws"
    using assms(2) rl_splice_split(2) [of h x ws y "[]"] x ws p
    by (auto simp: rlist_remove_def)
  then show "ring h' l (us @ vs)"
    using ws ring_rotate [of h' y vs l "butlast us"] ring_rotate [of h' l us]
    by (cases us rule: rev_cases) (auto simp: append_eq_append_conv2)
qed

text \<open>
  \<^verbatim>\<open>rlist_pop_back\<close> splices the sentinel with its predecessor, which is the split of
  \<open>rl_splice_split\<close> with nothing after the second node: it detaches the sentinel alone.
\<close>

lemma ring_pop_back:
  assumes "ring h l (xs @ [x])" and "rlist_pop_back l h = (n, h')"
  shows "n = x" and "ring h' l []" and "ring h' x xs"
  using assms rl_splice_split [of h l xs x "[]"] ring_prv [of h l "xs @ [x]"]
  by (auto simp: rlist_pop_back_def)

lemma ring_append:
  assumes "ring h d xs" and "ring h s ys" and "set (d # xs) \<inter> set (s # ys) = {}"
  shows "ring (rlist_append d s h) d (xs @ ys)" and "ring (rlist_append d s h) s []"
proof -
  let ?h = "rlist_push_back d s h"
  obtain n h' where r: "rlist_remove s ?h = (n, h')"
    by fastforce
  have "ring ?h d ((xs @ ys) @ s # [])"
    using ring_push_back [OF assms] by simp
  from ring_remove(2,3) [OF this r] r
  show "ring (rlist_append d s h) d (xs @ ys)" "ring (rlist_append d s h) s []"
    by (simp_all add: rlist_append_def)
qed

lemma ring_prepend:
  assumes "ring h d xs" and "ring h s ys" and "set (d # xs) \<inter> set (s # ys) = {}"
  shows "ring (rlist_prepend d s h) d (ys @ xs)" and "ring (rlist_prepend d s h) s []"
proof -
  let ?h = "rlist_push_front d s h"
  obtain n h' where r: "rlist_remove s ?h = (n, h')"
    by fastforce
  from ring_remove(2,3) [OF ring_push_front [OF assms] r] r
  show "ring (rlist_prepend d s h) d (ys @ xs)" "ring (rlist_prepend d s h) s []"
    by (simp_all add: rlist_prepend_def)
qed

section \<open>The loops\<close>

text \<open>
  \<^verbatim>\<open>rlist_len\<close> counts in an \<^verbatim>\<open>unsigned int\<close>: its result is the length modulo \<open>2^32\<close>.
\<close>

lemma rlist_len_loop_seg:
  "seg h a xs l \<Longrightarrow> l \<notin> set xs \<Longrightarrow>
     rlist_len_loop h l (nxt h a) c = Some (c + of_nat (length xs))"
proof (induction xs arbitrary: a c)
  case Nil
  then show ?case by (simp add: rlist_len_loop.simps)
next
  case (Cons x xs)
  then have "rlist_len_loop h l (nxt h x) (c + 1) = Some (c + 1 + of_nat (length xs))"
    by simp
  with Cons.prems show ?case
    by (subst rlist_len_loop.simps) (auto simp: algebra_simps)
qed

lemma ring_len: "ring h l xs \<Longrightarrow> rlist_len l h = Some (ucast (of_nat (length xs) :: u32))"
  using rlist_len_loop_seg [of h l xs l 0] by (simp add: ring_def rlist_len_def)

lemma rlist_equal_loop_seg:
  "seg h a xs l1 \<Longrightarrow> l1 \<notin> set xs \<Longrightarrow> seg h b ys l2 \<Longrightarrow> l2 \<notin> set ys \<Longrightarrow>
     rlist_equal_loop h num l1 l2 (nxt h a) (nxt h b) = Some (map num xs = map num ys)"
proof (induction xs arbitrary: a b ys)
  case Nil
  then show ?case by (cases ys) (auto simp: rlist_equal_loop.simps)
next
  case (Cons x xs)
  show ?case
  proof (cases ys)
    case Nil
    with Cons.prems show ?thesis by (subst rlist_equal_loop.simps) auto
  next
    case ys: (Cons y ys')
    with Cons.prems have "rlist_equal_loop h num l1 l2 (nxt h x) (nxt h y)
        = Some (map num xs = map num ys')"
      by (intro Cons.IH) auto
    with Cons.prems ys show ?thesis by (subst rlist_equal_loop.simps) auto
  qed
qed

lemma ring_equal:
  "ring h l1 xs \<Longrightarrow> ring h l2 ys \<Longrightarrow> rlist_equal l1 l2 num h = Some (map num xs = map num ys)"
  using rlist_equal_loop_seg [of h l1 xs l1 l2 ys l2] by (simp add: ring_def rlist_equal_def)

lemma rlist_find_loop_seg:
  "seg h a xs l \<Longrightarrow> l \<notin> set xs \<Longrightarrow>
     rlist_find_loop h obj l key fail (nxt h a) =
       Some (case find (\<lambda>n. obj n = key) xs of Some n \<Rightarrow> Some n | None \<Rightarrow> fail)"
proof (induction xs arbitrary: a)
  case Nil
  then show ?case by (simp add: rlist_find_loop.simps)
next
  case (Cons x xs)
  then have "rlist_find_loop h obj l key fail (nxt h x) =
       Some (case find (\<lambda>n. obj n = key) xs of Some n \<Rightarrow> Some n | None \<Rightarrow> fail)"
    by simp
  with Cons.prems show ?case by (subst rlist_find_loop.simps) auto
qed

lemma ring_find:
  "ring h l xs \<Longrightarrow> rlist_find l key fail obj h =
     Some (case find (\<lambda>n. obj n = key) xs of Some n \<Rightarrow> Some n | None \<Rightarrow> fail)"
  using rlist_find_loop_seg [of h l xs l] by (simp add: ring_def rlist_find_def)

text \<open>\<^verbatim>\<open>rlist_reverse\<close> exchanges the two pointers of every node it meets.\<close>

definition flip_on :: "'n set \<Rightarrow> 'n rheap \<Rightarrow> 'n rheap" where
  "flip_on A h c = (case c of
      PrevOf n \<Rightarrow> if n \<in> A then nxt h n else prv h n
    | NextOf n \<Rightarrow> if n \<in> A then prv h n else nxt h n)"

lemma flip_on_simps [simp]:
  "nxt (flip_on A h) n = (if n \<in> A then prv h n else nxt h n)"
  "prv (flip_on A h) n = (if n \<in> A then nxt h n else prv h n)"
  by (simp_all add: flip_on_def)

lemma flip_on_empty [simp]: "flip_on {} h = h"
  by (rule ext) (simp add: flip_on_def split: rcell.split)

lemma flip_on_insert:
  "p \<notin> A \<Longrightarrow> flip_on A (rlnode_swap (PrevOf p) (NextOf p) h) = flip_on (insert p A) h"
  by (rule ext) (auto simp: flip_on_def rlnode_swap_def Let_def split: rcell.split)

lemma rlnode_swap_self [simp]:
  "nxt (rlnode_swap (PrevOf p) (NextOf p) h) n = (if n = p then prv h p else nxt h n)"
  "prv (rlnode_swap (PrevOf p) (NextOf p) h) n = (if n = p then nxt h p else prv h n)"
  by (simp_all add: rlnode_swap_def Let_def)

text \<open>The nodes met by following \<^verbatim>\<open>prev\<close>.\<close>

fun prvs :: "'n rheap \<Rightarrow> 'n \<Rightarrow> 'n list \<Rightarrow> 'n \<Rightarrow> bool" where
  "prvs h p [] l \<longleftrightarrow> prv h p = l"
| "prvs h p (x # xs) l \<longleftrightarrow> prv h p = x \<and> prvs h x xs l"

lemma prvs_append [simp]:
  "prvs h p (xs @ y # ys) l \<longleftrightarrow> prvs h p xs y \<and> prvs h y ys l"
  by (induction xs arbitrary: p) auto

lemma seg_prvs: "seg h l xs p \<Longrightarrow> prvs h p (rev xs) l"
  by (induction xs arbitrary: l) auto

lemma prvs_swap:
  "p \<notin> set (x # xs) \<Longrightarrow>
     prvs (rlnode_swap (PrevOf p) (NextOf p) h) x xs l \<longleftrightarrow> prvs h x xs l"
  by (induction xs arbitrary: x) auto

lemma rlist_reverse_loop_prvs:
  "prvs h p xs l \<Longrightarrow> l \<notin> set xs \<Longrightarrow> distinct (p # xs) \<Longrightarrow>
     rlist_reverse_loop l p h = Some (flip_on (set (p # xs)) h)"
proof (induction xs arbitrary: p h)
  case Nil
  then have "rlist_reverse_loop l p h = Some (rlnode_swap (PrevOf p) (NextOf p) h)"
    by (subst rlist_reverse_loop.simps) (simp add: Let_def)
  then show ?case
    using flip_on_insert [of p "{}" h] by simp
next
  case (Cons x xs)
  let ?h = "rlnode_swap (PrevOf p) (NextOf p) h"
  have "rlist_reverse_loop l x ?h = Some (flip_on (set (x # xs)) ?h)"
    using Cons.prems by (intro Cons.IH) (simp_all add: prvs_swap)
  moreover have "flip_on (set (x # xs)) ?h = flip_on (set (p # x # xs)) h"
    using Cons.prems flip_on_insert [of p "set (x # xs)" h] by simp
  moreover have "rlist_reverse_loop l p h = rlist_reverse_loop l x ?h"
    using Cons.prems by (subst rlist_reverse_loop.simps) (auto simp: Let_def)
  ultimately show ?case by simp
qed

lemma seg_flip:
  "seg h a xs b \<Longrightarrow> set (a # b # xs) \<subseteq> A \<Longrightarrow> seg (flip_on A h) b (rev xs) a"
  by (induction xs arbitrary: a) auto

lemma ring_reverse:
  assumes "ring h l xs"
  shows "\<exists>h'. rlist_reverse l h = Some h' \<and> ring h' l (rev xs)"
proof -
  have "rlist_reverse l h = Some (flip_on (set (l # xs)) h)"
    using assms rlist_reverse_loop_prvs [of h l "rev xs" l] seg_prvs [of h l xs l]
    by (simp add: ring_def rlist_reverse_def)
  moreover have "ring (flip_on (set (l # xs)) h) l (rev xs)"
    using assms seg_flip [of h l xs l "set (l # xs)"] by (simp add: ring_def)
  ultimately show ?thesis by blast
qed

text \<open>\<^verbatim>\<open>rlist_select\<close> moves nodes from one ring to another.\<close>

lemma rlist_remove_frame:
  assumes "ring h c zs" and "ring h l xs" and "x \<in> set (l # xs)"
    and "set (c # zs) \<inter> set (l # xs) = {}"
  shows "ring (snd (rlist_remove x h)) c zs"
proof -
  have "nxt h x \<in> set (l # xs)" "prv h x \<in> set (l # xs)" "nxt h (prv h x) = x"
    using ring_nxt_in [OF assms(2,3)] ring_prv_in [OF assms(2,3)] ring_nxt_prv [OF assms(2,3)]
    by simp_all
  with assms show ?thesis
    unfolding rlist_remove_def snd_conv by (intro rl_splice_frame) auto
qed

lemma rlist_push_back_frame:
  assumes "ring h c zs" and "ring h l xs" and "ring h n ys"
    and "set (c # zs) \<inter> set (l # xs) = {}" and "set (c # zs) \<inter> set (n # ys) = {}"
  shows "ring (rlist_push_back l n h) c zs"
proof -
  have "prv h l \<in> set (l # xs)" "nxt h (prv h l) = l" "nxt h n \<in> set (n # ys)"
    using ring_nxt_in [OF assms(3)] ring_prv_in [OF assms(2)] ring_nxt_prv [OF assms(2)]
    by simp_all
  with assms show ?thesis
    unfolding rlist_push_back_def by (intro rl_splice_frame) auto
qed

lemma rlist_push_front_frame:
  assumes "ring h c zs" and "ring h l xs" and "ring h n ys"
    and "set (c # zs) \<inter> set (l # xs) = {}" and "set (c # zs) \<inter> set (n # ys) = {}"
  shows "ring (rlist_push_front l n h) c zs"
proof -
  have "nxt h l \<in> set (l # xs)" "nxt h n \<in> set (n # ys)"
    using ring_nxt_in [OF assms(2)] ring_nxt_in [OF assms(3)] by simp_all
  with assms show ?thesis
    unfolding rlist_push_front_def by (intro rl_splice_frame) auto
qed

lemma rlist_pop_front_frame:
  assumes "ring h c zs" and "ring h l (x # xs)" and "set (c # zs) \<inter> set (l # x # xs) = {}"
  shows "ring (snd (rlist_pop_front l h)) c zs"
proof -
  have "nxt h l = x" "nxt h x \<in> set (l # x # xs)"
    using ring_nxt [OF assms(2)] ring_nxt_in [OF assms(2), of x] by simp_all
  with assms show ?thesis
    unfolding rlist_pop_front_def snd_conv by (intro rl_splice_frame) auto
qed

lemma rlist_select_loop_ring:
  "ring h s (us @ vs) \<Longrightarrow> ring h d ys \<Longrightarrow> set (s # us @ vs) \<inter> set (d # ys) = {} \<Longrightarrow>
     i = last (s # us) \<Longrightarrow>
     \<exists>h'. rlist_select_loop s d pred i h = Some h' \<and>
          ring h' s (us @ filter (\<lambda>n. \<not> pred n) vs) \<and> ring h' d (ys @ filter pred vs)"
proof (induction vs arbitrary: us ys h i)
  case Nil
  then have "nxt h i = s"
    by (cases us rule: rev_cases) (auto simp: ring_def)
  with Nil show ?case by (simp add: rlist_select_loop.simps)
next
  case (Cons v vs)
  then have nxt: "nxt h i = v" and v: "v \<noteq> s"
    by (cases us rule: rev_cases; auto simp: ring_def)+
  show ?case
  proof (cases "pred v")
    case False
    have "\<exists>h'. rlist_select_loop s d pred v h = Some h' \<and>
        ring h' s ((us @ [v]) @ filter (\<lambda>n. \<not> pred n) vs) \<and> ring h' d (ys @ filter pred vs)"
      by (rule Cons.IH) (use Cons.prems in auto)
    with False nxt v show ?thesis by (subst rlist_select_loop.simps) simp
  next
    case True
    obtain n h1 where r: "rlist_remove v h = (n, h1)" by fastforce
    have n: "n = v" and s1: "ring h1 s (us @ vs)" and v1: "ring h1 v []"
      using ring_remove [OF Cons.prems(1) r] by auto
    have d1: "ring h1 d ys"
      using rlist_remove_frame [OF Cons.prems(2,1), of v] r Cons.prems(3) by auto
    let ?h2 = "rlist_push_back d v h1"
    have "ring ?h2 s (us @ vs)"
      by (rule rlist_push_back_frame [OF s1 d1 v1])
         (use Cons.prems(1,3) in \<open>auto dest: ring_distinct\<close>)
    moreover have "ring ?h2 d (ys @ [v])"
      using ring_push_back [OF d1 v1] Cons.prems(3) by auto
    ultimately have "\<exists>h'. rlist_select_loop s d pred i ?h2 = Some h' \<and>
        ring h' s (us @ filter (\<lambda>n. \<not> pred n) vs) \<and> ring h' d ((ys @ [v]) @ filter pred vs)"
      using Cons.prems ring_distinct [OF Cons.prems(1)] by (intro Cons.IH) auto
    with True nxt v r n show ?thesis by (subst rlist_select_loop.simps) simp
  qed
qed

lemma ring_select:
  assumes "ring h s xs" and "ring h d ys" and "set (s # xs) \<inter> set (d # ys) = {}"
  shows "\<exists>h'. rlist_select s d pred h = Some h' \<and>
     ring h' s (filter (\<lambda>n. \<not> pred n) xs) \<and> ring h' d (ys @ filter pred xs)"
  using rlist_select_loop_ring [of h s "[]" xs d ys s pred] assms
  by (simp add: rlist_select_def)

section \<open>All the rings of a heap\<close>

text \<open>
  The kernel keeps many disjoint rings in one heap. \<open>rings h sent st\<close> says that the
  sentinel \<open>sent l\<close> of every list name \<open>l\<close> represents the list \<open>st l\<close> and that no node is
  on two rings; \<open>loose h sent n\<close> that a node that is no sentinel is a singleton.
  The kernel components below model their queues by such list stores; the laws of this
  section are the refinement between the two.
\<close>

definition rings :: "'n rheap \<Rightarrow> ('l \<Rightarrow> 'n) \<Rightarrow> ('l \<Rightarrow> 'n list) \<Rightarrow> bool" where
  "rings h sent st \<longleftrightarrow>
     (\<forall>l. ring h (sent l) (st l)) \<and>
     (\<forall>l l'. l \<noteq> l' \<longrightarrow> set (sent l # st l) \<inter> set (sent l' # st l') = {})"

definition loose :: "'n rheap \<Rightarrow> ('l \<Rightarrow> 'n) \<Rightarrow> 'n \<Rightarrow> bool" where
  "loose h sent n \<longleftrightarrow> ring h n [] \<and> n \<notin> range sent"

lemma ringsD:
  assumes "rings h sent st"
  shows "ring h (sent l) (st l)"
    and "l \<noteq> l' \<Longrightarrow> set (sent l # st l) \<inter> set (sent l' # st l') = {}"
  using assms by (simp_all add: rings_def)

lemma ring_node_unique:
  "ring h a xs \<Longrightarrow> n \<in> set xs \<Longrightarrow> ring h n [] \<Longrightarrow> False"
proof -
  assume a: "ring h a xs" and n: "n \<in> set xs" and s: "ring h n []"
  from n obtain us vs where "xs = us @ n # vs" by (auto dest: split_list)
  with a have "ring h n (vs @ a # us)" using ring_rotate [of h a us n vs] by simp
  with s show False by (cases vs) (auto simp: ring_def)
qed

lemma loose_notin: "rings h sent st \<Longrightarrow> loose h sent n \<Longrightarrow> n \<notin> set (sent l # st l)"
  using ring_node_unique [of h "sent l" "st l" n] by (auto simp: rings_def loose_def)

lemma rings_upd:
  assumes "rings h sent st" and "ring h' (sent l) xs"
    and "\<And>l'. l' \<noteq> l \<Longrightarrow> ring h' (sent l') (st l')"
    and "set xs \<subseteq> set (st l) \<union> A" and "\<And>l'. A \<inter> set (sent l' # st l') = {}"
  shows "rings h' sent (st(l := xs))"
  unfolding rings_def
proof (intro conjI allI impI)
  fix l1 l2
  show "ring h' (sent l1) ((st(l := xs)) l1)"
    using assms(2,3) by simp
  assume "l1 \<noteq> l2"
  then show "set (sent l1 # (st(l := xs)) l1) \<inter> set (sent l2 # (st(l := xs)) l2) = {}"
    using ringsD(2) [OF assms(1), of l1 l2] assms(4) assms(5) [of l1] assms(5) [of l2] by auto
qed

lemma rings_push_back:
  assumes "rings h sent st" and "loose h sent n"
  shows "rings (rlist_push_back (sent l) n h) sent (st(l := st l @ [n]))"
proof (rule rings_upd [OF assms(1), where A = "{n}"])
  have n: "ring h n []" using assms(2) by (simp add: loose_def)
  note out = loose_notin [OF assms]
  show "ring (rlist_push_back (sent l) n h) (sent l) (st l @ [n])"
    using ring_push_back [OF ringsD(1) [OF assms(1)] n, of l] out [of l] by simp
  show "ring (rlist_push_back (sent l) n h) (sent l') (st l')" if "l' \<noteq> l" for l'
    using that out ringsD(2) [OF assms(1), of l' l]
    by (intro rlist_push_back_frame [OF ringsD(1) [OF assms(1)] ringsD(1) [OF assms(1)] n]) auto
qed (use loose_notin [OF assms] in auto)

lemma rings_push_front:
  assumes "rings h sent st" and "loose h sent n"
  shows "rings (rlist_push_front (sent l) n h) sent (st(l := n # st l))"
proof (rule rings_upd [OF assms(1), where A = "{n}"])
  have n: "ring h n []" using assms(2) by (simp add: loose_def)
  note out = loose_notin [OF assms]
  show "ring (rlist_push_front (sent l) n h) (sent l) (n # st l)"
    using ring_push_front [OF ringsD(1) [OF assms(1)] n, of l] out [of l] by simp
  show "ring (rlist_push_front (sent l) n h) (sent l') (st l')" if "l' \<noteq> l" for l'
    using that out ringsD(2) [OF assms(1), of l' l]
    by (intro rlist_push_front_frame [OF ringsD(1) [OF assms(1)] ringsD(1) [OF assms(1)] n]) auto
qed (use loose_notin [OF assms] in auto)

lemma rings_sent_notin: "rings h sent st \<Longrightarrow> x \<in> set (st l) \<Longrightarrow> x \<notin> range sent"
proof
  assume r: "rings h sent st" and x: "x \<in> set (st l)" and "x \<in> range sent"
  then obtain l' where "x = sent l'" by auto
  with r x show False
    using ringsD(2) [OF r, of l l'] ring_distinct [OF ringsD(1) [OF r, of l]] by (cases "l = l'") auto
qed

lemma rings_pop_front:
  assumes "rings h sent st" and "st l = x # xs" and "rlist_pop_front (sent l) h = (y, h')"
  shows "y = x" and "rings h' sent (st(l := xs))" and "loose h' sent x"
proof -
  have r: "ring h (sent l) (x # xs)" using ringsD(1) [OF assms(1), of l] assms(2) by simp
  from ring_pop_front [OF r assms(3)] show "y = x" by simp
  from ring_pop_front [OF r assms(3)] rings_sent_notin [OF assms(1), of x l] assms(2)
  show "loose h' sent x" by (simp add: loose_def)
  show "rings h' sent (st(l := xs))"
  proof (rule rings_upd [OF assms(1), where A = "{}"])
    show "ring h' (sent l) xs" using ring_pop_front [OF r assms(3)] by simp
    show "ring h' (sent l') (st l')" if "l' \<noteq> l" for l'
      using rlist_pop_front_frame [OF ringsD(1) [OF assms(1), of l'] r]
        ringsD(2) [OF assms(1) that] assms(2,3) by simp
  qed (use assms(2) in auto)
qed

lemma rings_remove:
  assumes "rings h sent st" and "x \<in> set (st l)" and "rlist_remove x h = (y, h')"
  shows "y = x" and "rings h' sent (\<lambda>l. removeAll x (st l))" and "loose h' sent x"
proof -
  obtain us vs where l: "st l = us @ x # vs" using assms(2) by (auto dest: split_list)
  have r: "ring h (sent l) (us @ x # vs)" using ringsD(1) [OF assms(1), of l] l by simp
  from ring_remove [OF r assms(3)] show "y = x" by simp
  from ring_remove [OF r assms(3)] rings_sent_notin [OF assms(1,2)]
  show "loose h' sent x" by (simp add: loose_def)
  have "x \<notin> set (st l')" if "l' \<noteq> l" for l'
    using ringsD(2) [OF assms(1) that] assms(2) by auto
  moreover have "removeAll x (st l) = us @ vs"
    using ring_distinct [OF r] l by simp
  ultimately have "(\<lambda>l. removeAll x (st l)) = st(l := us @ vs)"
    by (auto simp: fun_eq_iff removeAll_id)
  moreover have "rings h' sent (st(l := us @ vs))"
  proof (rule rings_upd [OF assms(1), where A = "{}"])
    show "ring h' (sent l) (us @ vs)" using ring_remove [OF r assms(3)] by simp
    show "ring h' (sent l') (st l')" if "l' \<noteq> l" for l'
      using rlist_remove_frame [OF ringsD(1) [OF assms(1), of l'] r, of x]
        ringsD(2) [OF assms(1) that] l assms(3) by simp
  qed (use l in auto)
  ultimately show "rings h' sent (\<lambda>l. removeAll x (st l))" by simp
qed

lemma rings_remove_loose:
  assumes "rings h sent st" and "loose h sent x"
  shows "rlist_remove x h = (x, h)" and "(\<lambda>l. removeAll x (st l)) = st"
  using assms loose_notin [OF assms]
  by (auto simp: loose_def ring_def rlist_remove_def rl_splice_self fun_eq_iff removeAll_id)

lemma loose_push_back:
  assumes "rings h sent st" and "loose h sent n" and "loose h sent m" and "m \<noteq> n"
  shows "loose (rlist_push_back (sent l) n h) sent m"
  using assms rlist_push_back_frame [of h m "[]" "sent l" "st l" n "[]"]
    loose_notin [OF assms(1,3), of l] ringsD(1) [OF assms(1), of l]
  by (auto simp: loose_def)

section \<open>The queue interface\<close>

text \<open>
  What the clients of the lists rely on: \<open>push_back\<close> adds a loose node at the end of a
  list and \<open>pop_front\<close> takes the first one off, leaving it loose. From these laws a list
  is a first-in-first-out queue.
\<close>

locale list_queue =
  fixes rep :: "'h \<Rightarrow> ('l \<Rightarrow> 'n list) \<Rightarrow> bool"
    and free :: "'h \<Rightarrow> 'n \<Rightarrow> bool"
    and push_back :: "'l \<Rightarrow> 'n \<Rightarrow> 'h \<Rightarrow> 'h"
    and pop_front :: "'l \<Rightarrow> 'h \<Rightarrow> 'n \<times> 'h"
  assumes push_back_rep: "rep h st \<Longrightarrow> free h n \<Longrightarrow> rep (push_back l n h) (st(l := st l @ [n]))"
    and push_back_free: "rep h st \<Longrightarrow> free h n \<Longrightarrow> free h m \<Longrightarrow> m \<noteq> n \<Longrightarrow> free (push_back l n h) m"
    and pop_front_rep: "rep h st \<Longrightarrow> st l = x # xs \<Longrightarrow> pop_front l h = (y, h') \<Longrightarrow>
          y = x \<and> rep h' (st(l := xs)) \<and> free h' x"

text \<open>Popping a given number of nodes, with the nodes in the order they come off.\<close>

fun drain :: "('h \<Rightarrow> 'n \<times> 'h) \<Rightarrow> nat \<Rightarrow> 'h \<Rightarrow> 'n list \<times> 'h" where
  "drain pop 0 h = ([], h)"
| "drain pop (Suc k) h = (let (x, h1) = pop h; (xs, h2) = drain pop k h1 in (x # xs, h2))"

context list_queue
begin

lemma push_all_rep:
  "rep h st \<Longrightarrow> distinct ns \<Longrightarrow> (\<forall>n \<in> set ns. free h n) \<Longrightarrow>
     rep (fold (push_back l) ns h) (st(l := st l @ ns))"
proof (induction ns arbitrary: h st)
  case Nil
  then show ?case by (simp add: fun_upd_idem)
next
  case (Cons n ns)
  have "rep (fold (push_back l) ns (push_back l n h))
      ((st(l := st l @ [n]))(l := (st(l := st l @ [n])) l @ ns))"
  proof (rule Cons.IH)
    show "rep (push_back l n h) (st(l := st l @ [n]))"
      using Cons.prems by (intro push_back_rep) auto
    show "\<forall>m \<in> set ns. free (push_back l n h) m"
      using Cons.prems by (auto intro: push_back_free)
  qed (use Cons.prems in simp)
  then show ?case by (simp add: fun_upd_def cong: if_cong)
qed

lemma drain_rep:
  "rep h st \<Longrightarrow> st l = xs @ ys \<Longrightarrow> drain (pop_front l) (length xs) h = (zs, h') \<Longrightarrow>
     zs = xs \<and> rep h' (st(l := ys))"
proof (induction xs arbitrary: h st zs h')
  case Nil
  then show ?case by (auto simp: fun_upd_idem)
next
  case (Cons x xs)
  obtain y h1 where p: "pop_front l h = (y, h1)" by fastforce
  have y: "y = x" and h1: "rep h1 (st(l := xs @ ys))"
    using pop_front_rep [OF Cons.prems(1) _ p] Cons.prems(2) by auto
  obtain zs' h2 where d: "drain (pop_front l) (length xs) h1 = (zs', h2)" by fastforce
  have "zs' = xs \<and> rep h2 ((st(l := xs @ ys))(l := ys))"
    by (rule Cons.IH [OF h1 _ d]) simp
  with Cons.prems(3) p d y show ?case by (auto simp: fun_upd_def cong: if_cong)
qed

lemma fifo:
  assumes "rep h st" and "st l = []" and "distinct ns" and "\<forall>n \<in> set ns. free h n"
    and "drain (pop_front l) (length ns) (fold (push_back l) ns h) = (zs, h')"
  shows "zs = ns \<and> rep h' st"
  using drain_rep [OF push_all_rep [OF assms(1,3,4), of l], of l ns "[]" zs h'] assms(2,5)
  by (simp add: fun_upd_idem)

end

interpretation rlq: list_queue "\<lambda>h st. rings h sent st" "\<lambda>h n. loose h sent n"
    "\<lambda>l n h. rlist_push_back (sent l) n h" "\<lambda>l h. rlist_pop_front (sent l) h"
  for sent :: "'l \<Rightarrow> 'n"
proof unfold_locales
  fix h st n m l x xs y h'
  show "rings h sent st \<Longrightarrow> loose h sent n \<Longrightarrow>
      rings (rlist_push_back (sent l) n h) sent (st(l := st l @ [n]))"
    by (rule rings_push_back)
  show "rings h sent st \<Longrightarrow> loose h sent n \<Longrightarrow> loose h sent m \<Longrightarrow> m \<noteq> n \<Longrightarrow>
      loose (rlist_push_back (sent l) n h) sent m"
    by (rule loose_push_back)
  show "rings h sent st \<Longrightarrow> st l = x # xs \<Longrightarrow> rlist_pop_front (sent l) h = (y, h') \<Longrightarrow>
      y = x \<and> rings h' sent (st(l := xs)) \<and> loose h' sent x"
    by (simp add: rings_pop_front)
qed

section \<open>Properties of the resource lists\<close>

text \<open>The heap of singleton nodes, on which the witnesses build their lists.\<close>

definition single_heap :: "'n rheap" where
  "single_heap c = (case c of PrevOf n \<Rightarrow> n | NextOf n \<Rightarrow> n)"

lemma single_heap_simps [simp]: "nxt single_heap n = n" "prv single_heap n = n"
  by (simp_all add: single_heap_def)

lemma single_heap_rings:
  "inj sent \<Longrightarrow> rings single_heap sent (\<lambda>_. [])"
  by (auto simp: rings_def ring_def dest: injD)

lemma single_heap_loose: "n \<notin> range sent \<Longrightarrow> loose single_heap sent n"
  by (simp add: loose_def ring_def)

lemma example_store:
  fixes sent :: "'l \<Rightarrow> nat"
  assumes "inj sent" and "distinct ns" and "\<forall>l. sent l \<notin> set ns"
  shows "rings (fold (rlist_push_back (sent l)) ns single_heap) sent ((\<lambda>_. [])(l := ns))"
  using rlq.push_all_rep [OF single_heap_rings [OF assms(1)] assms(2), of l] assms(3)
  by (auto intro!: single_heap_loose)

lemma example_ring:
  "distinct ns \<Longrightarrow> 0 \<notin> set ns \<Longrightarrow> ring (fold (rlist_push_back (0::nat)) ns single_heap) 0 ns"
  using ringsD(1) [OF example_store [of "\<lambda>_::unit. 0" ns "()"], of "()"] by (auto simp: inj_def)

text \<open>
  C12: the resource lists are first-in-first-out queues. In a heap of disjoint rings,
  pushing loose nodes at the back of an empty list with \<^verbatim>\<open>rlist_push_back\<close> and popping as
  many with \<^verbatim>\<open>rlist_pop_front\<close> yields exactly these nodes in the order they were pushed,
  and every list of the heap is again what it was.
\<close>

theorem rlist_fifo:
  assumes "rings h sent st" and "st l = []" and "distinct ns"
    and "\<forall>n \<in> set ns. loose h sent n"
    and "drain (rlist_pop_front (sent l)) (length ns) (fold (rlist_push_back (sent l)) ns h) = (zs, h')"
  shows "zs = ns \<and> rings h' sent st"
  using assms by (rule rlq.fifo)

theorem rlist_fifo_witness:
  "fst (drain (rlist_pop_front (0::nat)) 3 (fold (rlist_push_back 0) [5, 2, 7] single_heap)) = [5, 2, 7]"
proof -
  let ?h = "fold (rlist_push_back (0::nat)) [5, 2, 7] single_heap"
  obtain zs h' where d: "drain (rlist_pop_front 0) (length [5, 2, 7::nat]) ?h = (zs, h')"
    by fastforce
  have "zs = [5, 2, 7] \<and> rings h' (\<lambda>_::unit. 0) (\<lambda>_. [])"
    by (rule rlist_fifo [of single_heap "\<lambda>_::unit. 0::nat" "\<lambda>_. []" "()", OF _ _ _ _ d])
       (auto simp: inj_def intro!: single_heap_loose single_heap_rings)
  with d show ?thesis by (simp add: numeral_3_eq_3)
qed

text \<open>
  \<^verbatim>\<open>rlist_remove\<close> takes a node out of whichever list it is on, in place, without being
  told the list: every other list and the order of the remaining nodes are unchanged, and
  the node is left a singleton that can be queued again.
\<close>

theorem rlist_remove_refines:
  assumes "rings h sent st" and "x \<in> set (st l)"
  shows "fst (rlist_remove x h) = x \<and>
     rings (snd (rlist_remove x h)) sent (\<lambda>l. removeAll x (st l)) \<and>
     loose (snd (rlist_remove x h)) sent x"
  using rings_remove [OF assms] by (cases "rlist_remove x h") simp

theorem rlist_remove_refines_witness:
  "rings (snd (rlist_remove 2 (fold (rlist_push_back (0::nat)) [5, 2] single_heap)))
     (\<lambda>_::unit. 0) (\<lambda>_. [5])"
proof -
  have r: "rings (fold (rlist_push_back (0::nat)) [5, 2] single_heap) (\<lambda>_::unit. 0) ((\<lambda>_. [])(() := [5, 2]))"
    using example_store [of "\<lambda>_::unit. 0" "[5, 2]" "()"] by (simp add: inj_def)
  from rlist_remove_refines [OF r, of 2 "()"] show ?thesis by simp
qed

text \<open>
  \<^verbatim>\<open>rlist_select\<close> terminates on disjoint rings and is a stable partition: the nodes
  that satisfy the predicate leave the source and are appended to the destination, both
  in their original order.
\<close>

theorem rlist_select_partitions:
  assumes "ring h s xs" and "ring h d ys" and "set (s # xs) \<inter> set (d # ys) = {}"
  shows "\<exists>h'. rlist_select s d pred h = Some h' \<and>
     ring h' s (filter (\<lambda>n. \<not> pred n) xs) \<and> ring h' d (ys @ filter pred xs)"
  using assms by (rule ring_select)

theorem rlist_select_partitions_witness:
  "\<exists>h'. rlist_select 0 1 even (fold (rlist_push_back (0::nat)) [5, 2] single_heap) = Some h' \<and>
     ring h' 0 [5] \<and> ring h' 1 [2]"
proof -
  let ?sent = "\<lambda>b. if b then 0 else (1::nat)"
  let ?h = "fold (rlist_push_back (0::nat)) [5, 2] single_heap"
  have "inj ?sent" by (auto simp: inj_def)
  then have "rings ?h ?sent ((\<lambda>_. [])(True := [5, 2]))"
    using example_store [of ?sent "[5, 2]" True] by simp
  from ringsD(1) [OF this, of True] ringsD(1) [OF this, of False]
  show ?thesis
    using rlist_select_partitions [of ?h 0 "[5, 2]" 1 "[]" even] by simp
qed

text \<open>
  \<^verbatim>\<open>rlist_pop_back\<close> returns the last node of a list but, since it splices the sentinel
  with its predecessor, it leaves the list empty and the returned node on a ring with all
  the other nodes: popping one node from the back loses the whole list.
\<close>

theorem rlist_pop_back_detaches_all:
  assumes "ring h l (xs @ [x])"
  shows "fst (rlist_pop_back l h) = x \<and> ring (snd (rlist_pop_back l h)) l [] \<and>
     ring (snd (rlist_pop_back l h)) x xs"
  using ring_pop_back [OF assms] by (cases "rlist_pop_back l h") simp

theorem rlist_pop_back_detaches_all_witness:
  "is_rlist_empty 0 (snd (rlist_pop_back 0 (fold (rlist_push_back (0::nat)) [5, 2] single_heap)))"
proof -
  have "ring (fold (rlist_push_back (0::nat)) [5, 2] single_heap) 0 ([5] @ [2])"
    using example_ring [of "[5, 2]"] by simp
  from rlist_pop_back_detaches_all [OF this] show ?thesis
    using ring_is_empty by fastforce
qed

text \<open>
  The loops over a list end and compute what they should: on a ring that represents
  \<open>xs\<close>, \<^verbatim>\<open>rlist_len\<close> is the length in 32 bits, \<^verbatim>\<open>rlist_find\<close> is the first node with the
  key or the fallback, and \<^verbatim>\<open>rlist_reverse\<close> turns the ring into one that represents the
  reverse of \<open>xs\<close>.
\<close>

theorem rlist_loops_correct:
  assumes "ring h l xs"
  shows "rlist_len l h = Some (ucast (of_nat (length xs) :: u32)) \<and>
     rlist_find l key fail obj h =
       Some (case find (\<lambda>n. obj n = key) xs of Some n \<Rightarrow> Some n | None \<Rightarrow> fail) \<and>
     (\<exists>h'. rlist_reverse l h = Some h' \<and> ring h' l (rev xs))"
  by (simp add: ring_len [OF assms] ring_find [OF assms] ring_reverse [OF assms])

theorem rlist_loops_correct_witness:
  "rlist_len 0 (fold (rlist_push_back (0::nat)) [5, 2] single_heap) = Some 2"
proof -
  have "ring (fold (rlist_push_back (0::nat)) [5, 2] single_heap) 0 [5, 2]"
    by (rule example_ring) auto
  from rlist_loops_correct [OF this, THEN conjunct1]
  have "rlist_len 0 (fold (rlist_push_back (0::nat)) [5, 2] single_heap) =
      Some (ucast (of_nat (length [5, 2::nat]) :: u32))" .
  also have "(ucast (of_nat (length [5, 2::nat]) :: u32) :: u64) = 2"
    by code_simp
  finally show ?thesis .
qed

end
