(* ===== verification/Argv.thy ===== *)
theory Argv
  imports Prelude
begin

text \<open>
  Packing a vector of strings into an argument buffer and unpacking it: the helpers of
  \<^verbatim>\<open>src/util.h\<close> and their use in \<^verbatim>\<open>src/tinyoslib.c\<close>, where \<^verbatim>\<open>Execute\<close> ships a program
  pointer and its arguments through \<^verbatim>\<open>Exec\<close>. A string is the memory from its pointer on
  (a list of bytes, with the terminating zero and whatever follows); reading or writing
  past the end of a block is the fault \<open>Out_of_bounds\<close>.
\<close>

section \<open>C strings\<close>

fun strlen :: "byte list \<Rightarrow> nat res" where
  "strlen [] = Inl Out_of_bounds"
| "strlen (c # cs) = (if c = 0 then Inr 0 else bindE (strlen cs) (\<lambda>n. Inr (Suc n)))"

definition cstring :: "byte list \<Rightarrow> byte list" where
  "cstring block = takeWhile (\<lambda>c. c \<noteq> 0) block"

section \<open>Packing\<close>

function argvlen_loop :: "nat \<Rightarrow> byte list list \<Rightarrow> nat \<Rightarrow> u64 \<Rightarrow> u64 res" where
  "argvlen_loop argc argv i l =
     (if i < argc then
        (if i < length argv then
           bindE (strlen (argv ! i)) (\<lambda>n. argvlen_loop argc argv (Suc i) (l + (of_nat n + 1)))
         else Inl Out_of_bounds)
      else Inr l)"
  by pat_completeness auto
termination
  by (relation "measure (\<lambda>(argc, _, i, _). argc - i)") auto

declare argvlen_loop.simps [simp del]

definition argvlen :: "nat \<Rightarrow> byte list list \<Rightarrow> u64 res" where
  "argvlen argc argv = argvlen_loop argc argv 0 0"

text \<open>
  The inner loop of \<^verbatim>\<open>argvpack\<close>, \<^verbatim>\<open>while((*pos++ = *s++)) argl++\<close>: it copies the zero too. The counter
  \<^verbatim>\<open>argl\<close> is an \<^verbatim>\<open>int\<close>.
\<close>

fun pack_string :: "byte list \<Rightarrow> byte list \<Rightarrow> nat \<Rightarrow> int \<Rightarrow> (byte list \<times> nat \<times> int) res" where
  "pack_string [] buf pos argl = Inl Out_of_bounds"
| "pack_string (c # s) buf pos argl =
     (if pos < length buf then
        (if c = 0 then Inr (buf[pos := c], Suc pos, argl)
         else bindE (inc_int argl) (pack_string s (buf[pos := c]) (Suc pos)))
      else Inl Out_of_bounds)"

function argvpack_loop ::
  "nat \<Rightarrow> byte list list \<Rightarrow> nat \<Rightarrow> byte list \<times> nat \<times> int \<Rightarrow> (byte list \<times> u64) res" where
  "argvpack_loop argc argv i bpa =
     (if i < argc then
        (if i < length argv then
           (case bpa of (buf, pos, argl) \<Rightarrow>
              bindE (pack_string (argv ! i) buf pos argl) (argvpack_loop argc argv (Suc i)))
         else Inl Out_of_bounds)
      else (case bpa of (buf, pos, argl) \<Rightarrow> Inr (buf, of_int argl + of_nat argc)))"
  by pat_completeness auto
termination
  by (relation "measure (\<lambda>(argc, _, i, _). argc - i)") auto

declare argvpack_loop.simps [simp del]

text \<open>\<open>argvpack args argc argv\<close>: the buffer after the call and the value returned, a \<^verbatim>\<open>size_t\<close>.\<close>

definition argvpack :: "byte list \<Rightarrow> nat \<Rightarrow> byte list list \<Rightarrow> (byte list \<times> u64) res" where
  "argvpack args argc argv = argvpack_loop argc argv 0 (args, 0, 0)"

section \<open>Unpacking\<close>

function argscount_loop :: "int \<Rightarrow> byte list \<Rightarrow> int \<Rightarrow> int \<Rightarrow> nat res" where
  "argscount_loop argl a i n =
     (if i < argl then
        (if nat i < length a then
           bindE (if a ! nat i = 0 then inc_int n else Inr n) (\<lambda>n'.
           case inc_int i of Inl e \<Rightarrow> Inl e | Inr i' \<Rightarrow> argscount_loop argl a i' n')
         else Inl Out_of_bounds)
      else Inr (nat n))"
  by pat_completeness auto
termination
  by (relation "measure (\<lambda>(argl, _, i, _). nat (argl - i))") (auto simp: inc_int_eq_Inr)

declare argscount_loop.simps [simp del]

text \<open>The counters \<^verbatim>\<open>i\<close> and \<^verbatim>\<open>n\<close> are of type \<^verbatim>\<open>int\<close>, as \<^verbatim>\<open>argl\<close> is; the result is never negative.\<close>

definition argscount :: "int \<Rightarrow> byte list \<Rightarrow> nat res" where
  "argscount argl args = argscount_loop argl args 0 0"

text \<open>
  \<^verbatim>\<open>while(*a++)\<close>: skip to the byte after the next zero. Pointers into the buffer are
  offsets.
\<close>

function skip_string :: "byte list \<Rightarrow> nat \<Rightarrow> nat res" where
  "skip_string buf a =
     (if a < length buf then (if buf ! a = 0 then Inr (Suc a) else skip_string buf (Suc a))
      else Inl Out_of_bounds)"
  by pat_completeness auto
termination
  by (relation "measure (\<lambda>(buf, a). length buf - a)") auto

declare skip_string.simps [simp del]

function argvunpack_loop :: "nat \<Rightarrow> byte list \<Rightarrow> int \<Rightarrow> nat \<Rightarrow> (nat list \<times> nat) res" where
  "argvunpack_loop argc buf i a =
     (if i < int argc then
        bindE (skip_string buf a) (\<lambda>a'.
        case inc_int i of
          Inl e \<Rightarrow> Inl e
        | Inr i' \<Rightarrow> bindE (argvunpack_loop argc buf i' a') (\<lambda>(argv, e). Inr (a # argv, e)))
      else Inr ([], a))"
  by pat_completeness auto
termination
  by (relation "measure (\<lambda>(argc, _, i, _). nat (int argc - i))") (auto simp: inc_int_eq_Inr)

declare argvunpack_loop.simps [simp del]

text \<open>
  \<open>argvunpack argc buf\<close>: the offsets stored in \<^verbatim>\<open>argv\<close> and the first location not
  unpacked. The parameter \<^verbatim>\<open>argl\<close> of the C function is not used by it.
\<close>

definition argvunpack :: "nat \<Rightarrow> byte list \<Rightarrow> (nat list \<times> nat) res" where
  "argvunpack argc args = argvunpack_loop argc args 0 0"

section \<open>Executing a program with arguments\<close>

text \<open>A pointer in memory, least significant byte first.\<close>

definition ptr_bytes :: "u64 \<Rightarrow> byte list" where
  "ptr_bytes p = map (\<lambda>i. ucast (drop_bit (8 * i) p)) [0..<8]"

definition bytes_ptr :: "byte list \<Rightarrow> u64" where
  "bytes_ptr bs = word_rcat (rev bs)"

definition sizeof_ptr :: nat where
  "sizeof_ptr = 8"

text \<open>
  \<^verbatim>\<open>Execute\<close> up to its call of \<^verbatim>\<open>Exec(exec_wrapper, argl, args)\<close>: the length, a \<^verbatim>\<open>size_t\<close>, and the
  buffer that are passed. The \<^verbatim>\<open>argl\<close> bytes of the automatic array start out
  indeterminate (\<open>junk\<close>).
\<close>

definition Execute_args :: "(nat \<Rightarrow> byte list) \<Rightarrow> u64 \<Rightarrow> nat \<Rightarrow> byte list list \<Rightarrow> (u64 \<times> byte list) res" where
  "Execute_args junk prog argc argv =
     bindE (argvlen argc argv) (\<lambda>l.
     let argl = l + of_nat sizeof_ptr; args = junk (unat argl)
     in if unat argl < sizeof_ptr then Inl Out_of_bounds
        else bindE (argvpack (drop sizeof_ptr args) argc argv) (\<lambda>(buf, _).
        Inr (argl, ptr_bytes prog @ buf)))"

text \<open>
  \<^verbatim>\<open>exec_wrapper\<close> up to its call of the program: the program pointer, \<^verbatim>\<open>argc\<close> and the
  strings that \<^verbatim>\<open>argv\<close> points to.
\<close>

definition exec_wrapper :: "int \<Rightarrow> byte list \<Rightarrow> (u64 \<times> nat \<times> byte list list) res" where
  "exec_wrapper argl args =
     (if length args < sizeof_ptr then Inl Out_of_bounds
      else
        (let prog = bytes_ptr (take sizeof_ptr args);
             argl' = sint (of_int (argl - int sizeof_ptr) :: u32); args' = drop sizeof_ptr args
         in bindE (argscount argl' args') (\<lambda>argc.
            bindE (argvunpack argc args') (\<lambda>(offs, _).
            Inr (prog, argc, map (\<lambda>a. cstring (drop a args')) offs)))))"

section \<open>Lemmas\<close>

lemma strlen_cstring: "strlen b = Inr n \<Longrightarrow> 0 \<in> set b \<and> n = length (cstring b)"
  by (induction b arbitrary: n) (auto simp: cstring_def bindE_eq_Inr split: if_splits)

lemma strlen_total: "0 \<in> set b \<Longrightarrow> strlen b = Inr (length (cstring b))"
  by (induction b) (auto simp: cstring_def)

abbreviation terminated :: "byte list list \<Rightarrow> bool" where
  "terminated argv \<equiv> (\<forall>b \<in> set argv. 0 \<in> set b)"

text \<open>The packed image of a vector of strings.\<close>

definition packed :: "byte list list \<Rightarrow> byte list" where
  "packed argv = concat (map (\<lambda>b. cstring b @ [0]) argv)"

lemma packed_simps [simp]:
  "packed [] = []"
  "packed (b # bs) = cstring b @ 0 # packed bs"
  "packed (xs @ ys) = packed xs @ packed ys"
  by (simp_all add: packed_def)

lemma argvlen_loop_eq:
  "i \<le> length argv \<Longrightarrow> terminated argv \<Longrightarrow>
     argvlen_loop (length argv) argv i l = Inr (l + of_nat (length (packed (drop i argv))))"
proof (induction "length argv - i" arbitrary: i l)
  case 0
  then show ?case by (simp add: argvlen_loop.simps)
next
  case (Suc k)
  then have i: "i < length argv" by simp
  have "argvlen_loop (length argv) argv i l =
      argvlen_loop (length argv) argv (Suc i) (l + (of_nat (length (cstring (argv ! i))) + 1))"
    using i Suc.prems by (subst argvlen_loop.simps) (simp add: strlen_total)
  also have "\<dots> = Inr (l + (of_nat (length (cstring (argv ! i))) + 1)
      + of_nat (length (packed (drop (Suc i) argv))))"
    using Suc i by (intro Suc.hyps(1)) auto
  finally show ?case
    using i by (simp add: Cons_nth_drop_Suc [symmetric] algebra_simps)
qed

lemma argvlen_eq:
  "terminated argv \<Longrightarrow> argvlen (length argv) argv = Inr (of_nat (length (packed argv)))"
  by (simp add: argvlen_def argvlen_loop_eq)

lemma list_update_block:
  "pos < length buf \<Longrightarrow> take pos (buf[pos := c]) = take pos buf \<and>
     drop (Suc pos) (buf[pos := c]) = drop (Suc pos) buf \<and> (buf[pos := c]) ! pos = c"
  by simp

lemma pack_string_eq:
  "0 \<in> set s \<Longrightarrow> pos + length (cstring s) < length buf \<Longrightarrow> argl + int (length (cstring s)) < 2 ^ 31 \<Longrightarrow>
     pack_string s buf pos argl =
       Inr (take pos buf @ cstring s @ 0 # drop (pos + length (cstring s) + 1) buf,
            pos + length (cstring s) + 1, argl + int (length (cstring s)))"
proof (induction s arbitrary: buf pos argl)
  case Nil
  then show ?case by simp
next
  case (Cons c s)
  show ?case
  proof (cases "c = 0")
    case True
    with Cons.prems show ?thesis
      by (simp add: cstring_def upd_conv_take_nth_drop)
  next
    case False
    with Cons.prems have "pack_string s (buf[pos := c]) (Suc pos) (argl + 1) =
        Inr (take (Suc pos) (buf[pos := c]) @ cstring s @
               0 # drop (Suc pos + length (cstring s) + 1) (buf[pos := c]),
             Suc pos + length (cstring s) + 1, argl + 1 + int (length (cstring s)))"
      by (intro Cons.IH) (auto simp: cstring_def)
    with False Cons.prems show ?thesis
      by (simp add: cstring_def take_Suc_conv_app_nth)
  qed
qed

lemma argvpack_loop_eq:
  "i \<le> length argv \<Longrightarrow> terminated argv \<Longrightarrow> pos + length (packed (drop i argv)) \<le> length buf \<Longrightarrow>
     argl + int (length (packed (drop i argv))) < 2 ^ 31 \<Longrightarrow>
     argvpack_loop (length argv) argv i (buf, pos, argl) =
       Inr (take pos buf @ packed (drop i argv) @ drop (pos + length (packed (drop i argv))) buf,
            of_int argl + of_nat (length (packed (drop i argv))) + of_nat i)"
proof (induction "length argv - i" arbitrary: i pos buf argl)
  case 0
  then show ?case by (simp add: argvpack_loop.simps)
next
  case (Suc k)
  then have i: "i < length argv" by simp
  let ?s = "cstring (argv ! i)" and ?r = "packed (drop (Suc i) argv)"
  have d: "packed (drop i argv) = ?s @ 0 # ?r"
    using i by (simp add: Cons_nth_drop_Suc [symmetric])
  have len: "pos + length ?s + 1 + length ?r \<le> length buf" "argl + int (length ?s) + int (length ?r) < 2 ^ 31"
    using Suc.prems(3,4) d by simp_all
  let ?buf = "take pos buf @ ?s @ 0 # drop (pos + length ?s + 1) buf"
  have "argvpack_loop (length argv) argv i (buf, pos, argl) =
      argvpack_loop (length argv) argv (Suc i) (?buf, pos + length ?s + 1, argl + int (length ?s))"
    using i Suc.prems(2) len
    by (subst argvpack_loop.simps) (simp add: pack_string_eq)
  also have "\<dots> = Inr (take (pos + length ?s + 1) ?buf @ ?r @
        drop (pos + length ?s + 1 + length ?r) ?buf,
        of_int (argl + int (length ?s)) + of_nat (length ?r) + of_nat (Suc i))"
    using Suc i len by (intro Suc.hyps(1)) auto
  finally show ?case
    using len d by (simp add: ac_simps)
qed

lemma argvpack_eq:
  assumes "terminated argv" and "length (packed argv) \<le> length args" and "length (packed argv) < 2 ^ 31"
  shows "argvpack args (length argv) argv =
     Inr (packed argv @ drop (length (packed argv)) args, of_nat (length (packed argv)))"
  using argvpack_loop_eq [of 0 argv 0 args 0] assms by (simp add: argvpack_def)

lemma argscount_loop_eq:
  "i \<le> l \<Longrightarrow> l \<le> length a \<Longrightarrow> l < 2 ^ 31 \<Longrightarrow> n \<le> i \<Longrightarrow>
     argscount_loop (int l) a (int i) (int n) = Inr (n + count_list (drop i (take l a)) 0)"
proof (induction "l - i" arbitrary: i n)
  case 0
  then show ?case by (simp add: argscount_loop.simps)
next
  case (Suc k)
  then have i: "i < l" "i < length a" by auto
  have "drop i (take l a) = a ! i # drop (Suc i) (take l a)"
    using i by (metis Cons_nth_drop_Suc length_take min_less_iff_conj nth_take)
  moreover have "argscount_loop (int l) a (int (Suc i)) (int (if a ! i = 0 then Suc n else n)) =
      Inr ((if a ! i = 0 then Suc n else n) + count_list (drop (Suc i) (take l a)) 0)"
    using Suc i by (intro Suc.hyps(1)) auto
  ultimately show ?case
    using i Suc.prems by (subst argscount_loop.simps) (auto simp: add.commute)
qed

lemma argscount_eq: "l \<le> length a \<Longrightarrow> l < 2 ^ 31 \<Longrightarrow> argscount (int l) a = Inr (count_list (take l a) 0)"
  using argscount_loop_eq [of 0 l a 0] by (simp add: argscount_def)

lemma count_list_cstring [simp]: "count_list (cstring b) 0 = 0"
  unfolding cstring_def by (induction b) auto

lemma count_list_packed: "count_list (packed argv) 0 = length argv"
  by (induction argv) (auto simp: count_list_append)

lemma argscount_packed:
  "length (packed argv) < 2 ^ 31 \<Longrightarrow> argscount (int (length (packed argv))) (packed argv @ rest) = Inr (length argv)"
  by (simp add: argscount_eq count_list_packed)

lemma packed_length: "length argv \<le> length (packed argv)"
  by (induction argv) simp_all

lemma skip_string_eq:
  "skip_string (pre @ cstring b @ 0 # post) (length pre + k) =
     Inr (length pre + length (cstring b) + 1)" if "k \<le> length (cstring b)"
  using that
proof (induction "length (cstring b) - k" arbitrary: k)
  case 0
  then show ?case by (subst skip_string.simps) (simp add: nth_append)
next
  case (Suc m)
  then have "cstring b ! k \<noteq> 0"
    unfolding cstring_def by (metis (mono_tags, lifting) Suc_neq_Zero diff_is_0_eq' le_neq_implies_less nth_mem set_takeWhileD)
  moreover have "skip_string (pre @ cstring b @ 0 # post) (length pre + Suc k) =
      Inr (length pre + length (cstring b) + 1)"
    using Suc by (intro Suc.hyps(1)) auto
  ultimately show ?case
    using Suc by (subst skip_string.simps) (auto simp: nth_append)
qed

lemma cstring_packed [simp]: "cstring (cstring b @ 0 # xs) = cstring b"
proof -
  have "\<forall>c \<in> set (cstring b). c \<noteq> 0"
    by (auto simp: cstring_def dest: set_takeWhileD)
  then show ?thesis
    unfolding cstring_def [of "cstring b @ 0 # xs"] by (simp add: takeWhile_append2)
qed

lemma argvunpack_loop_packed:
  "k + length argv < 2 ^ 31 \<Longrightarrow>
   \<exists>offs. argvunpack_loop (k + length argv) (pre @ packed argv @ rest) (int k) (length pre) =
       Inr (offs, length pre + length (packed argv)) \<and>
     map (\<lambda>a. cstring (drop a (pre @ packed argv @ rest))) offs = map cstring argv"
proof (induction argv arbitrary: k pre)
  case Nil
  then show ?case by (simp add: argvunpack_loop.simps)
next
  case (Cons b argv)
  let ?buf = "pre @ packed (b # argv) @ rest"
  from Cons.IH [of "Suc k" "pre @ cstring b @ [0]"] Cons.prems obtain offs where
    "argvunpack_loop (k + length (b # argv)) ?buf (int k + 1) (length pre + length (cstring b) + 1) =
       Inr (offs, length pre + length (packed (b # argv)))"
    "map (\<lambda>a. cstring (drop a ?buf)) offs = map cstring argv"
    by (auto simp: add.commute)
  moreover have "skip_string ?buf (length pre) = Inr (length pre + length (cstring b) + 1)"
    using skip_string_eq [of 0 b pre "packed argv @ rest"] by simp
  moreover have "inc_int (int k) = Inr (int k + 1)" using Cons.prems by simp
  ultimately show ?case
    by (intro exI [of _ "length pre # offs"]) (subst argvunpack_loop.simps, simp)
qed

lemma argvunpack_packed:
  assumes "length argv < 2 ^ 31"
  obtains offs where
    "argvunpack (length argv) (packed argv @ rest) = Inr (offs, length (packed argv))"
    "map (\<lambda>a. cstring (drop a (packed argv @ rest))) offs = map cstring argv"
proof -
  have "argvunpack (length argv) b = argvunpack_loop (0 + length argv) b (int 0) (length [])" for b
    by (simp add: argvunpack_def)
  then show ?thesis
    using argvunpack_loop_packed [of 0 argv "[]" rest] assms that by (metis append_Nil add_0 list.size(3))
qed

lemma bytes_ptr_ptr_bytes: "bytes_ptr (ptr_bytes p) = p"
proof (rule bit_word_eqI)
  fix n assume n: "n < LENGTH(64)"
  let ?ws = "ptr_bytes p"
  have k: "n div 8 < 8" using n by simp
  have "bit (bytes_ptr ?ws) n = bit (horner_sum uint (2 ^ LENGTH(8)) ?ws) n"
    using n by (simp add: bytes_ptr_def word_rcat_def bit_simps)
  also have "\<dots> = bit (?ws ! (n div 8)) (n mod 8)"
    using k by (subst bit_horner_sum_uint_exp_iff) (simp add: ptr_bytes_def)
  also have "\<dots> = bit p n"
    using k n by (simp add: ptr_bytes_def bit_simps)
  finally show "bit (bytes_ptr ?ws) n = bit p n" .
qed

lemma length_ptr_bytes [simp]: "length (ptr_bytes p) = sizeof_ptr"
  by (simp add: ptr_bytes_def sizeof_ptr_def)

section \<open>Properties of argument passing\<close>

text \<open>
  C31: \<^verbatim>\<open>argvlen\<close>, \<^verbatim>\<open>argvpack\<close>, \<^verbatim>\<open>argscount\<close> and \<^verbatim>\<open>argvunpack\<close> agree. For any vector of
  terminated strings whose packed image is shorter than \<open>2 ^ 31\<close> bytes, the range of the \<^verbatim>\<open>int\<close> counters of
  the code, and any buffer that is large enough, no counter overflows, packing never leaves the buffer
  and returns the length that \<^verbatim>\<open>argvlen\<close> predicts, the packed bytes hold as many strings
  as were packed, and unpacking yields the same strings and ends exactly behind them.
\<close>

theorem argv_roundtrip:
  assumes "terminated argv" and "length (packed argv) \<le> length args" and "length (packed argv) < 2 ^ 31"
  shows "\<exists>buf offs. argvpack args (length argv) argv = Inr (buf, of_nat (length (packed argv))) \<and>
     argvlen (length argv) argv = Inr (of_nat (length (packed argv))) \<and>
     length buf = length args \<and>
     argscount (int (length (packed argv))) buf = Inr (length argv) \<and>
     argvunpack (length argv) buf = Inr (offs, length (packed argv)) \<and>
     map (\<lambda>a. cstring (drop a buf)) offs = map cstring argv"
proof -
  let ?buf = "packed argv @ drop (length (packed argv)) args"
  have "length argv < 2 ^ 31" using packed_length [of argv] assms(3) by simp
  then obtain offs where
    "argvunpack (length argv) ?buf = Inr (offs, length (packed argv))"
    "map (\<lambda>a. cstring (drop a ?buf)) offs = map cstring argv"
    by (rule argvunpack_packed)
  with assms show ?thesis
    by (intro exI [of _ ?buf] exI [of _ offs]) (simp add: argvpack_eq argvlen_eq argscount_packed)
qed

theorem argv_roundtrip_witness:
  "\<exists>buf offs. argvpack [9, 9, 9, 9] 2 [[1, 0], [0, 7]] = Inr (buf, 3) \<and> argscount 3 buf = Inr 2 \<and>
     argvunpack 2 buf = Inr (offs, 3) \<and> map (\<lambda>a. cstring (drop a buf)) offs = [[1], []]"
proof -
  have "packed [[1, 0], [0, 7]] = [1, 0, 0]"
    by (simp add: cstring_def)
  then have e: "length (packed [[1, 0], [0, 7]]) = 3" "length [[1, 0], [0, 7 :: byte]] = 2" "map cstring [[1, 0], [0, 7]] = [[1], []]"
    by (simp_all add: cstring_def)
  show ?thesis
    using argv_roundtrip [of "[[1, 0], [0, 7]]" "[9, 9, 9, 9]", unfolded e] by auto
qed

lemma sint_small: "n < 2 ^ 31 \<Longrightarrow> sint (of_nat n :: u32) = int n"
  by (simp add: signed_of_nat signed_take_bit_int_eq_self_iff)

text \<open>A length that is passed as an \<^verbatim>\<open>int\<close>.\<close>

lemma sint_ucast: "n < 2 ^ 31 \<Longrightarrow> sint (ucast (of_nat n :: u64) :: u32) = int n"
  using sint_small [of n] by (simp add: unsigned_of_nat take_bit_nat_eq_self)

lemma Execute_args_eq:
  assumes "terminated argv" and "length (packed argv) + sizeof_ptr < 2 ^ 31" and "\<And>n. length (junk n) = n"
  shows "Execute_args junk prog (length argv) argv =
     Inr (of_nat (length (packed argv) + sizeof_ptr), ptr_bytes prog @ packed argv)"
proof -
  let ?n = "length (packed argv) + sizeof_ptr"
  have n: "unat (of_nat ?n :: u64) = ?n"
    using assms(2) by (subst unat_of_nat) (simp add: sizeof_ptr_def)
  have p: "argvpack (drop sizeof_ptr (junk ?n)) (length argv) argv = Inr (packed argv, of_nat (length (packed argv)))"
    using argvpack_eq [of argv "drop sizeof_ptr (junk ?n)"] assms by simp
  have l: "(of_nat (length (packed argv)) + of_nat sizeof_ptr :: u64) = of_nat ?n" by simp
  show ?thesis
    using p unfolding Execute_args_def argvlen_eq [OF assms(1)] bindE_simps Let_def l n by simp
qed

lemma exec_wrapper_eq:
  assumes "length (packed argv) + sizeof_ptr < 2 ^ 31"
  shows "exec_wrapper (int (length (packed argv) + sizeof_ptr)) (ptr_bytes prog @ packed argv) =
     Inr (prog, length argv, map cstring argv)"
proof -
  let ?n = "length (packed argv)"
  have m: "length argv < 2 ^ 31" "?n < 2 ^ 31" using packed_length [of argv] assms by simp_all
  obtain offs where
    "argvunpack (length argv) (packed argv) = Inr (offs, ?n)"
    "map (\<lambda>a. cstring (drop a (packed argv))) offs = map cstring argv"
    using argvunpack_packed [OF m(1), of "[]"] by auto
  moreover have "sint (of_int (int (?n + sizeof_ptr) - int sizeof_ptr) :: u32) = int ?n"
    using sint_small [OF m(2)] by simp
  ultimately show ?thesis
    using argscount_packed [OF m(2), of "[]"] by (simp add: exec_wrapper_def Let_def bytes_ptr_ptr_bytes)
qed

text \<open>
  A program started with \<^verbatim>\<open>Execute\<close> is called with its own arguments. For any
  terminated strings whose image fits an \<^verbatim>\<open>int\<close>, \<^verbatim>\<open>Execute\<close> builds its buffer
  without leaving it, whatever the automatic array held before, and \<^verbatim>\<open>exec_wrapper\<close>, run
  on that buffer by the new process, recovers the same program pointer, argument count
  and strings.
\<close>

theorem execute_exec_wrapper:
  assumes "terminated argv" and "length (packed argv) + sizeof_ptr < 2 ^ 31"
    and "\<And>n. length (junk n) = n"
  shows "\<exists>argl args. Execute_args junk prog (length argv) argv = Inr (argl, args) \<and>
     length args = unat argl \<and>
     exec_wrapper (sint (ucast argl :: u32)) args = Inr (prog, length argv, map cstring argv)"
proof -
  let ?n = "length (packed argv) + sizeof_ptr"
  have w: "unat (of_nat ?n :: u64) = ?n" using assms(2) by (subst unat_of_nat) (simp add: sizeof_ptr_def)
  have "sint (ucast (of_nat ?n :: u64) :: u32) = int ?n" by (rule sint_ucast [OF assms(2)])
  then show ?thesis
    using Execute_args_eq [OF assms] exec_wrapper_eq [OF assms(2)] w by auto
qed

theorem execute_exec_wrapper_witness:
  "\<exists>argl args. Execute_args (\<lambda>n. replicate n 5) 77 2 [[1, 0], [0, 7]] = Inr (argl, args) \<and>
     exec_wrapper (sint (ucast argl :: u32)) args = Inr (77, 2, [[1], []])"
proof -
  have p: "packed [[1, 0], [0, 7]] = [1, 0, 0]"
    by (simp add: cstring_def)
  have "\<exists>argl args. Execute_args (\<lambda>n. replicate n 5) 77 (length [[1, 0], [0, 7 :: byte]])
        [[1, 0], [0, 7]] = Inr (argl, args) \<and> length args = unat argl \<and>
      exec_wrapper (sint (ucast argl :: u32)) args = Inr (77, length [[1, 0], [0, 7 :: byte]], map cstring [[1, 0], [0, 7]])"
    by (rule execute_exec_wrapper) (simp_all add: p sizeof_ptr_def cstring_def)
  then show ?thesis
    by (auto simp: cstring_def numeral_2_eq_2)
qed

end
