(* ===== verification/Exceptions.thy ===== *)
theory Exceptions
  imports Prelude "HOL-Library.Sublist"
begin

text \<open>
  The exception library of \<^verbatim>\<open>src/util.h\<close> and \<^verbatim>\<open>src/util.c\<close>. An exception context is a
  stack of frames, each with a stack of catchers and a stack of finalizers. A handler is
  client code: \<open>exec h e s\<close> is the state after handler \<open>h\<close> log on \<open>s\<close> with argument \<open>e\<close>, and
  whether it called \<^verbatim>\<open>raise_exception\<close>. Raising is a \<^verbatim>\<open>longjmp\<close> to the \<^verbatim>\<open>TRY\<close> of the top
  frame, which abandons the running \<^verbatim>\<open>exception_unwind\<close> and starts a new one.
\<close>

section \<open>Frames\<close>

record 'h exc_frame =
  catchers :: "'h list"
  finalizers :: "'h list"

type_synonym 'h exc_context = "'h exc_frame list"

type_synonym ('h, 's) exec = "'h \<Rightarrow> int \<Rightarrow> 's \<Rightarrow> 's \<times> bool"

text \<open>\<^verbatim>\<open>TRY_WITH\<close> pushes an empty frame, \<^verbatim>\<open>FINALLY\<close> and \<^verbatim>\<open>ON_ERROR\<close> a handler on the top one.\<close>

definition exc_push_frame :: "'h exc_context \<Rightarrow> 'h exc_context" where
  "exc_push_frame ctx = \<lparr>catchers = [], finalizers = []\<rparr> # ctx"

definition finally_block :: "'h \<Rightarrow> 'h exc_context \<Rightarrow> 'h exc_context res" where
  "finally_block h ctx = (case ctx of
     [] \<Rightarrow> Inl Null_deref
   | f # fs \<Rightarrow> Inr (f\<lparr>finalizers := h # finalizers f\<rparr> # fs))"

definition on_error_block :: "'h \<Rightarrow> 'h exc_context \<Rightarrow> 'h exc_context res" where
  "on_error_block h ctx = (case ctx of
     [] \<Rightarrow> Inl Null_deref
   | f # fs \<Rightarrow> Inr (f\<lparr>catchers := h # catchers f\<rparr> # fs))"

section \<open>Unwinding\<close>

text \<open>
  \<open>unwind exec f fs errcode captured s\<close> is \<^verbatim>\<open>exception_unwind\<close> with the top frame \<open>f\<close> above
  \<open>fs\<close>, in the middle of its loops. It ends in the code after a \<^verbatim>\<open>TRY\<close> block, with the
  state and the context at that point. A handler that raises restarts the unwinding of
  its frame with error code 1 and \<^verbatim>\<open>captured\<close> reset; the popped handler does not run
  again. The call of \<^verbatim>\<open>raise_exception\<close> at the end is a jump to the next frame, or no
  effect when there is none.
\<close>

function unwind ::
  "('h, 's) exec \<Rightarrow> 'h exc_frame \<Rightarrow> 'h exc_context \<Rightarrow> int \<Rightarrow> bool \<Rightarrow> 's \<Rightarrow> 's \<times> 'h exc_context" where
  "unwind exec f fs errcode captured s =
     (case catchers f of
        c # cs \<Rightarrow>
          (let (s1, raised) = exec c errcode s; f1 = f\<lparr>catchers := cs\<rparr>
           in if raised then unwind exec f1 fs 1 False s1 else unwind exec f1 fs errcode True s1)
      | [] \<Rightarrow>
         (case finalizers f of
            c # cs \<Rightarrow>
              (let (s1, raised) = exec c errcode s; f1 = f\<lparr>finalizers := cs\<rparr>
               in if raised then unwind exec f1 fs 1 False s1
                  else unwind exec f1 fs errcode captured s1)
          | [] \<Rightarrow>
              (if errcode \<noteq> 0 \<and> \<not> captured then
                 (case fs of [] \<Rightarrow> (s, []) | f1 # fs1 \<Rightarrow> unwind exec f1 fs1 1 False s)
               else (s, fs))))"
  by pat_completeness auto
termination
  by (relation "measures
       [\<lambda>(_, _, fs, _). length fs, \<lambda>(_, f, _). length (catchers f) + length (finalizers f)]") auto

declare unwind.simps [simp del]

definition exception_unwind ::
  "('h, 's) exec \<Rightarrow> 'h exc_context \<Rightarrow> int \<Rightarrow> 's \<Rightarrow> ('s \<times> 'h exc_context) res" where
  "exception_unwind exec ctx errcode s = (case ctx of
     [] \<Rightarrow> Inl Null_deref
   | f # fs \<Rightarrow> Inr (unwind exec f fs errcode False s))"

text \<open>
  \<^verbatim>\<open>raise_exception\<close>: \<open>None\<close> when it returns to its caller, which it does in an empty
  context; otherwise control goes to \<^verbatim>\<open>__exc_try\<close> of the top frame with error code 1.
\<close>

definition exc_try ::
  "('h, 's) exec \<Rightarrow> 'h exc_context \<Rightarrow> int \<Rightarrow> 's \<Rightarrow> ('s \<times> 'h exc_context) option res" where
  "exc_try exec ctx errcode s =
     (if errcode = 0 then Inr None
      else bindE (exception_unwind exec ctx errcode s) (\<lambda>r. Inr (Some r)))"

definition raise_exception ::
  "('h, 's) exec \<Rightarrow> 'h exc_context \<Rightarrow> 's \<Rightarrow> ('s \<times> 'h exc_context) option res" where
  "raise_exception exec ctx s = (case ctx of [] \<Rightarrow> Inr None | _ \<Rightarrow> exc_try exec ctx 1 s)"

text \<open>\<^verbatim>\<open>__exc_exit_try\<close>: the normal end of a \<^verbatim>\<open>TRY\<close> block.\<close>

definition exc_exit_try ::
  "('h, 's) exec \<Rightarrow> 'h exc_context \<Rightarrow> 's \<Rightarrow> ('s \<times> 'h exc_context) res" where
  "exc_exit_try exec ctx s = (case ctx of
     [] \<Rightarrow> Inl Null_deref
   | f # fs \<Rightarrow> exception_unwind exec (f\<lparr>catchers := []\<rparr> # fs) 0 s)"

section \<open>Which handlers run\<close>

text \<open>
  Handlers that leave a trace of themselves, and raise as told by \<open>raises\<close>.
\<close>

definition logging :: "('h \<Rightarrow> bool) \<Rightarrow> ('h, 'h list) exec" where
  "logging raises h e s = (s @ [h], raises h)"

definition handlers :: "'h exc_frame \<Rightarrow> 'h list" where
  "handlers f = catchers f @ finalizers f"

lemma logging_simps [simp]: "logging raises h e s = (s @ [h], raises h)"
  by (simp add: logging_def)

lemma unwind_logs:
  "\<exists>popped. fs = popped @ snd (unwind (logging raises) f fs e cap s) \<and>
     fst (unwind (logging raises) f fs e cap s) = s @ handlers f @ concat (map handlers popped)"
proof (induction "logging raises" f fs e cap s rule: unwind.induct)
  case (1 f fs e cap s)
  show ?case
  proof (cases "catchers f")
    case (Cons c cs)
    with 1 show ?thesis
      by (subst (1 2) unwind.simps) (auto simp: Let_def handlers_def)
  next
    case Nil
    show ?thesis
    proof (cases "finalizers f")
      case (Cons c cs)
      with 1 Nil show ?thesis
        by (subst (1 2) unwind.simps) (auto simp: Let_def handlers_def)
    next
      case fin: Nil
      show ?thesis
      proof (cases "e \<noteq> 0 \<and> \<not> cap \<and> fs \<noteq> []")
        case False
        with Nil fin show ?thesis
          by (intro exI [of _ "[]"], subst (1 2) unwind.simps)
             (auto simp: handlers_def split: list.split)
      next
        case True
        then obtain f1 fs1 where fs: "fs = f1 # fs1" by (cases fs) auto
        with True 1(1) [OF Nil fin _ fs] obtain popped where
          "fs1 = popped @ snd (unwind (logging raises) f1 fs1 1 False s)"
          "fst (unwind (logging raises) f1 fs1 1 False s) = s @ handlers f1 @ concat (map handlers popped)"
          by auto
        with True Nil fin fs show ?thesis
          by (intro exI [of _ "f1 # popped"], subst (1 2) unwind.simps) (auto simp: handlers_def)
      qed
    qed
  qed
qed

text \<open>Without handlers that raise, the catcher nearest to the top captures.\<close>

definition quiet :: "('h, 's) exec \<Rightarrow> bool" where
  "quiet exec \<longleftrightarrow> (\<forall>h e s. \<not> snd (exec h e s))"

lemma unwind_quiet:
  "quiet exec \<Longrightarrow> snd (unwind exec f fs e cap s) =
     (if e = 0 \<or> cap \<or> catchers f \<noteq> [] then fs else tl (dropWhile (\<lambda>g. catchers g = []) fs))"
proof (induction exec f fs e cap s rule: unwind.induct)
  case (1 exec f fs e cap s)
  have q: "exec h e s = (fst (exec h e s), False)" for h
    using 1(6) by (metis prod.collapse quiet_def)
  show ?case
  proof (cases "catchers f")
    case (Cons c cs)
    have "snd (unwind exec (f\<lparr>catchers := cs\<rparr>) fs e True (fst (exec c e s))) = fs"
      using "1.IH"(5) [OF Cons q [symmetric] refl refl] 1(6) by simp
    with Cons q show ?thesis
      by (subst unwind.simps) (simp add: Let_def case_prod_beta split: if_splits, metis snd_conv)
  next
    case Nil
    show ?thesis
    proof (cases "finalizers f")
      case (Cons c cs)
      have "snd (unwind exec (f\<lparr>finalizers := cs\<rparr>) fs e cap (fst (exec c e s))) =
          (if e = 0 \<or> cap then fs else tl (dropWhile (\<lambda>g. catchers g = []) fs))"
        using "1.IH"(3) [OF Nil Cons q [symmetric] refl refl] 1(6) Nil by simp
      moreover have "\<not> snd (exec c e s)" using q by (metis snd_conv)
      ultimately show ?thesis
        using Nil Cons by (subst unwind.simps) (simp add: Let_def case_prod_beta)
    next
      case fin: Nil
      show ?thesis
        using Nil fin "1.IH"(1) [OF Nil fin] 1(6)
        by (subst unwind.simps) (auto split: list.split)
    qed
  qed
qed

section \<open>Properties of the exceptions\<close>

text \<open>
  No handler is lost and none runs twice. Whatever handlers raise while they run,
  \<^verbatim>\<open>exception_unwind\<close> executes all catchers and then all finalizers of the top frame and
  of every further frame it pops, each exactly once and in last-in-first-out order, and
  execution resumes with exactly the frames that were not popped.
\<close>

theorem unwind_runs_each_handler_once:
  assumes "exception_unwind (logging raises) (f # fs) errcode [] = Inr (log, rest)"
  shows "\<exists>popped. fs = popped @ rest \<and> log = concat (map handlers (f # popped))"
proof -
  from assms have "unwind (logging raises) f fs errcode False [] = (log, rest)"
    by (simp add: exception_unwind_def)
  with unwind_logs [of fs raises f errcode False "[]"] show ?thesis by auto
qed

theorem unwind_runs_each_handler_once_witness:
  "\<exists>log rest. exception_unwind (logging (\<lambda>h. h = 2))
       [\<lparr>catchers = [1, 2], finalizers = [3]\<rparr>, \<lparr>catchers = [4::nat], finalizers = []\<rparr>] 1 [] = Inr (log, rest) \<and>
     log = [1, 2, 3, 4] \<and> rest = []"
proof -
  let ?f = "\<lparr>catchers = [1, 2], finalizers = [3]\<rparr>" and ?g = "\<lparr>catchers = [4::nat], finalizers = []\<rparr>"
  have e: "exception_unwind (logging (\<lambda>h. h = 2)) [?f, ?g] 1 [] = Inr ([1, 2, 3, 4], [])"
    by (simp add: exception_unwind_def unwind.simps logging_def)
  from unwind_runs_each_handler_once [OF e]
  show ?thesis using e by (auto simp: handlers_def)
qed

text \<open>
  An exception is captured by the nearest frame with a catcher. If no handler raises,
  \<^verbatim>\<open>raise_exception\<close> in a context whose frames up to \<open>f\<close> have no catcher continues after
  the \<^verbatim>\<open>TRY\<close> block of the first frame that has one, with the frames below it; if no frame
  has one, it continues after the outermost block with an empty context. A normal exit
  pops the top frame only.
\<close>

theorem raise_captured_by_nearest_catcher:
  assumes "quiet exec"
  shows "\<exists>s'. raise_exception exec (f # fs) s =
       Inr (Some (s', tl (dropWhile (\<lambda>g. catchers g = []) (f # fs)))) \<and>
     (\<exists>s''. exc_exit_try exec (f # fs) s = Inr (s'', fs))"
  using assms unwind_quiet [OF assms, of f fs 1 False s]
    unwind_quiet [OF assms, of "f\<lparr>catchers := []\<rparr>" fs 0 False s]
  by (cases "unwind exec f fs 1 False s"; cases "unwind exec (f\<lparr>catchers := []\<rparr>) fs 0 False s")
     (auto simp: raise_exception_def exc_try_def exc_exit_try_def exception_unwind_def)

theorem raise_captured_by_nearest_catcher_witness:
  "\<exists>s'. raise_exception (logging (\<lambda>_. False))
       [\<lparr>catchers = [], finalizers = [3]\<rparr>, \<lparr>catchers = [4::nat], finalizers = []\<rparr>,
        \<lparr>catchers = [], finalizers = [5]\<rparr>] [] = Inr (Some (s', [\<lparr>catchers = [], finalizers = [5]\<rparr>]))"
  using raise_captured_by_nearest_catcher [of "logging (\<lambda>_. False)" "\<lparr>catchers = [], finalizers = [3]\<rparr>"
      "[\<lparr>catchers = [4::nat], finalizers = []\<rparr>, \<lparr>catchers = [], finalizers = [5]\<rparr>]" "[]"]
  by (auto simp: quiet_def)

end
