(* ===== verification/Bios.thy ===== *)
theory Bios
  imports Prelude
begin

text \<open>
  The virtual machine of \<^verbatim>\<open>src/bios.c\<close> and \<^verbatim>\<open>src/bios.h\<close>: cores with their interrupt
  vectors, halting and restarting, timers, the clock, and the serial devices with the
  interrupt controller (PIC) that watches them. POSIX threads, signals and file
  descriptors are outside: a signal is the call of its handler, the results of system
  calls are arguments.
\<close>

section \<open>Cores and devices\<close>

datatype interrupt = ICI | ALARM | SERIAL_RX_READY | SERIAL_TX_READY

definition interrupts :: "interrupt list" where
  "interrupts = [ICI, ALARM, SERIAL_RX_READY, SERIAL_TX_READY]"

definition MAX_CORES :: nat where "MAX_CORES = 32"
definition MAX_TERMINALS :: nat where "MAX_TERMINALS = 4"

text \<open>A handler is the address of a function; its effect is a parameter where it runs.\<close>

type_synonym handler = nat

record core =
  core_id :: nat
  intvec :: "interrupt \<Rightarrow> handler option"
  intpending :: "interrupt \<Rightarrow> bool"
  int_disabled :: bool
  halted :: bool
  timer_sec :: u64
  timer_nsec :: u64
  irq_count :: nat
  irq_raised :: "interrupt \<Rightarrow> nat"
  irq_delivered :: "interrupt \<Rightarrow> nat"

datatype io_direction = IODIR_RX | IODIR_TX

record io_device =
  dev_fd :: int
  iodir :: io_direction
  int_core :: nat
  ready :: bool
  last_int :: u64

record terminal =
  con :: io_device
  kbd :: io_device

record vm =
  CORE :: "nat \<Rightarrow> core"
  ncores :: nat
  halted_list :: "nat list"
  PIC_active :: bool
  pic_signals :: nat
  system_clock :: u64
  TERMS :: "nat \<Rightarrow> terminal"
  nterm :: nat

definition upd_core :: "nat \<Rightarrow> (core \<Rightarrow> core) \<Rightarrow> vm \<Rightarrow> vm" where
  "upd_core c f v = v\<lparr>CORE := (CORE v)(c := f (CORE v c))\<rparr>"

lemma upd_core_simps [simp]:
  "CORE (upd_core c f v) d = (if d = c then f (CORE v c) else CORE v d)"
  "ncores (upd_core c f v) = ncores v"
  "halted_list (upd_core c f v) = halted_list v"
  "system_clock (upd_core c f v) = system_clock v"
  "nterm (upd_core c f v) = nterm v"
  "TERMS (upd_core c f v) = TERMS v"
  by (simp_all add: upd_core_def)

section \<open>Halting and restarting\<close>

text \<open>
  \<^verbatim>\<open>cpu_core_halt\<close> marks the core halted, queues it and then waits until another thread
  has cleared the mark; the call is split there. \<^verbatim>\<open>cpu_core_halt_resume\<close> is the test the
  waiting thread makes whenever it is woken.
\<close>

definition cpu_core_halt_enter :: "nat \<Rightarrow> vm \<Rightarrow> vm res" where
  "cpu_core_halt_enter c v =
     bindE (assertE (\<not> int_disabled (CORE v c))) (\<lambda>_.
     Inr ((upd_core c (\<lambda>k. k\<lparr>halted := True\<rparr>) v)\<lparr>halted_list := c # halted_list v\<rparr>))"

definition cpu_core_halt_resume :: "nat \<Rightarrow> vm \<Rightarrow> bool" where
  "cpu_core_halt_resume c v \<longleftrightarrow> \<not> halted (CORE v c)"

definition core_restart :: "nat \<Rightarrow> vm \<Rightarrow> vm" where
  "core_restart c v =
     (if halted (CORE v c) then
        (upd_core c (\<lambda>k. k\<lparr>halted := False\<rparr>) v)\<lparr>halted_list := removeAll c (halted_list v)\<rparr>
      else v)"

definition cpu_core_restart :: "nat \<Rightarrow> vm \<Rightarrow> vm" where
  "cpu_core_restart c v = core_restart c v"

definition cpu_core_restart_one :: "vm \<Rightarrow> vm" where
  "cpu_core_restart_one v =
     (case halted_list v of
        [] \<Rightarrow> v
      | c # cs \<Rightarrow> core_restart c (v\<lparr>halted_list := cs\<rparr>))"

definition cpu_core_restart_all :: "vm \<Rightarrow> vm" where
  "cpu_core_restart_all v = fold core_restart [0..<ncores v] v"

section \<open>Interrupts\<close>

definition raise_interrupt :: "nat \<Rightarrow> interrupt \<Rightarrow> vm \<Rightarrow> vm" where
  "raise_interrupt c i v =
     cpu_core_restart c
       (upd_core c (\<lambda>k. k\<lparr>intpending := (intpending k)(i := True),
                          irq_raised := (irq_raised k)(i := Suc (irq_raised k i))\<rparr>) v)"

text \<open>
  \<open>run h k\<close> is what handler \<open>h\<close> does to the core it runs on. The loop looks at
  \<^verbatim>\<open>int_disabled\<close> before every interrupt, since a handler may disable interrupts.
\<close>

fun dispatch_loop :: "(handler \<Rightarrow> core \<Rightarrow> core) \<Rightarrow> interrupt list \<Rightarrow> core \<Rightarrow> core" where
  "dispatch_loop run [] k = k"
| "dispatch_loop run (i # is) k =
     (if int_disabled k then k
      else if intpending k i then
        (let k1 = k\<lparr>intpending := (intpending k)(i := False),
                    irq_delivered := (irq_delivered k)(i := Suc (irq_delivered k i))\<rparr>
         in dispatch_loop run is (case intvec k1 i of None \<Rightarrow> k1 | Some h \<Rightarrow> run h k1))
      else dispatch_loop run is k)"

definition dispatch_interrupts :: "(handler \<Rightarrow> core \<Rightarrow> core) \<Rightarrow> core \<Rightarrow> core" where
  "dispatch_interrupts run k = dispatch_loop run interrupts k"

definition sigusr1_handler :: "(handler \<Rightarrow> core \<Rightarrow> core) \<Rightarrow> core \<Rightarrow> core" where
  "sigusr1_handler run k =
     (let k1 = k\<lparr>irq_count := Suc (irq_count k)\<rparr>
      in if int_disabled k1 then k1 else dispatch_interrupts run k1)"

definition cpu_disable_interrupts :: "core \<Rightarrow> core" where
  "cpu_disable_interrupts k =
     (if \<not> int_disabled k then k\<lparr>int_disabled := True\<rparr> else k)"

definition cpu_enable_interrupts :: "(handler \<Rightarrow> core \<Rightarrow> core) \<Rightarrow> core \<Rightarrow> core" where
  "cpu_enable_interrupts run k =
     (if int_disabled k then dispatch_interrupts run (k\<lparr>int_disabled := False\<rparr>) else k)"

definition cpu_interrupt_handler :: "interrupt \<Rightarrow> handler option \<Rightarrow> core \<Rightarrow> core" where
  "cpu_interrupt_handler i h k = k\<lparr>intvec := (intvec k)(i := h)\<rparr>"

definition cpu_ici :: "nat \<Rightarrow> vm \<Rightarrow> vm res" where
  "cpu_ici c v = bindE (assertE (c < ncores v)) (\<lambda>_. Inr (raise_interrupt c ICI v))"

section \<open>Timers and the clock\<close>

text \<open>
  The timer record is the time left on the POSIX timer, in seconds and nanoseconds; the
  argument and the result of the call are in microseconds.
\<close>

definition bios_set_timer :: "u64 \<Rightarrow> core \<Rightarrow> u64 \<times> core" where
  "bios_set_timer usec k =
     (let sec = usec div 1000000; nsec = (usec mod 1000000) * 1000;
          k1 = k\<lparr>timer_sec := sec, timer_nsec := nsec,
                 intpending := (intpending k)(ALARM := False)\<rparr>
      in (1000000 * timer_sec k + timer_nsec k div 1000, k1))"

definition bios_cancel_timer :: "core \<Rightarrow> u64 \<times> core" where
  "bios_cancel_timer k = bios_set_timer 0 k"

definition bios_clock :: "vm \<Rightarrow> u64" where
  "bios_clock v = system_clock v * 1000"

text \<open>\<^verbatim>\<open>get_coarse_time\<close> on the result of \<^verbatim>\<open>clock_gettime\<close>: milliseconds.\<close>

definition get_coarse_time :: "u64 \<Rightarrow> u64 \<Rightarrow> u64" where
  "get_coarse_time tv_sec tv_nsec = tv_nsec div 1000000 + tv_sec * 1000"

section \<open>Serial devices\<close>

text \<open>What a one-byte \<^verbatim>\<open>read\<close> or \<^verbatim>\<open>write\<close> on a descriptor can return.\<close>

datatype io_result = Done byte | End_of_file | Again | Interrupted | Broken_pipe | Other_error

text \<open>
  \<^verbatim>\<open>while((rc=read(...))==-1 && errno==EINTR)\<close>: the first result that is not \<^verbatim>\<open>EINTR\<close>.
\<close>

fun skip_eintr :: "io_result list \<Rightarrow> io_result res" where
  "skip_eintr [] = Inl No_return"
| "skip_eintr (r # rs) = (if r = Interrupted then skip_eintr rs else Inr r)"

text \<open>\<open>interrupt_pic_thread\<close> is recorded as one more signal queued for the PIC thread.\<close>

definition interrupt_pic_thread :: "vm \<Rightarrow> vm" where
  "interrupt_pic_thread v = v\<lparr>pic_signals := Suc (pic_signals v)\<rparr>"

definition io_device_init :: "bool \<Rightarrow> int \<Rightarrow> io_direction \<Rightarrow> vm \<Rightarrow> io_device" where
  "io_device_init io_ready fd dir v =
     \<lparr>dev_fd = fd, iodir = dir, int_core = 0, ready = io_ready, last_int = system_clock v\<rparr>"

definition io_device_read ::
  "io_result list \<Rightarrow> io_device \<Rightarrow> vm \<Rightarrow> (byte option \<times> io_device \<times> vm) res" where
  "io_device_read os d v =
     bindE (assertE (iodir d = IODIR_RX)) (\<lambda>_.
     bindE (skip_eintr os) (\<lambda>rc.
     bindE (assertE (case rc of Done _ \<Rightarrow> True | End_of_file \<Rightarrow> True | Again \<Rightarrow> True | _ \<Rightarrow> False)) (\<lambda>_.
     Inr (case rc of
            Done b \<Rightarrow> (Some b, d, v)
          | _ \<Rightarrow> if ready d then (None, d\<lparr>ready := False\<rparr>, interrupt_pic_thread v)
                 else (None, d, v)))))"

definition io_device_write ::
  "io_result list \<Rightarrow> io_device \<Rightarrow> vm \<Rightarrow> (bool \<times> io_device \<times> vm) res" where
  "io_device_write os d v =
     bindE (assertE (iodir d = IODIR_TX)) (\<lambda>_.
     bindE (skip_eintr os) (\<lambda>rc.
     bindE (assertE (case rc of Done _ \<Rightarrow> True | Again \<Rightarrow> True | Broken_pipe \<Rightarrow> True | _ \<Rightarrow> False)) (\<lambda>_.
     Inr (case rc of
            Done b \<Rightarrow> (True, d, v)
          | _ \<Rightarrow> if ready d then (False, d\<lparr>ready := False\<rparr>, interrupt_pic_thread v)
                 else (False, d, v)))))"

definition bios_read_serial :: "io_result list \<Rightarrow> nat \<Rightarrow> vm \<Rightarrow> (byte option \<times> vm) res" where
  "bios_read_serial os serial v =
     bindE (io_device_read os (kbd (TERMS v serial)) v) (\<lambda>(b, d, v1).
     Inr (b, v1\<lparr>TERMS := (TERMS v1)(serial := (TERMS v1 serial)\<lparr>kbd := d\<rparr>)\<rparr>))"

definition bios_write_serial :: "io_result list \<Rightarrow> nat \<Rightarrow> vm \<Rightarrow> (bool \<times> vm) res" where
  "bios_write_serial os serial v =
     bindE (io_device_write os (con (TERMS v serial)) v) (\<lambda>(ok, d, v1).
     Inr (ok, v1\<lparr>TERMS := (TERMS v1)(serial := (TERMS v1 serial)\<lparr>con := d\<rparr>)\<rparr>))"

definition bios_serial_interrupt_core :: "nat \<Rightarrow> interrupt \<Rightarrow> nat \<Rightarrow> vm \<Rightarrow> vm res" where
  "bios_serial_interrupt_core serial intno coreid v =
     bindE (assertE (serial < nterm v)) (\<lambda>_.
     bindE (assertE (intno = SERIAL_RX_READY \<or> intno = SERIAL_TX_READY)) (\<lambda>_.
     bindE (assertE (coreid < ncores v)) (\<lambda>_.
     let t = TERMS v serial;
         t1 = (if intno = SERIAL_RX_READY then t\<lparr>kbd := (kbd t)\<lparr>int_core := coreid\<rparr>\<rparr>
               else t\<lparr>con := (con t)\<lparr>int_core := coreid\<rparr>\<rparr>)
     in Inr (v\<lparr>TERMS := (TERMS v)(serial := t1)\<rparr>))))"

section \<open>The interrupt controller\<close>

definition SERIAL_TIMEOUT :: u64 where "SERIAL_TIMEOUT = 300"

text \<open>What \<^verbatim>\<open>select\<close> and the signal descriptors report in one round of the PIC loop.\<close>

record pic_input =
  pic_clock :: u64
  select_failed :: bool
  alarms :: "nat list"
  con_writable :: "nat \<Rightarrow> bool"
  kbd_readable :: "nat \<Rightarrow> bool"
  usr1_readable :: bool

definition pic_con :: "pic_input \<Rightarrow> nat \<Rightarrow> vm \<Rightarrow> vm" where
  "pic_con p i v =
     (if con_writable p i \<or> system_clock v - last_int (con (TERMS v i)) > SERIAL_TIMEOUT then
        (let t = TERMS v i;
             t1 = t\<lparr>con := (con t)\<lparr>ready := True, last_int := system_clock v\<rparr>\<rparr>
         in raise_interrupt (int_core (con t1)) SERIAL_TX_READY (v\<lparr>TERMS := (TERMS v)(i := t1)\<rparr>))
      else v)"

definition pic_kbd :: "pic_input \<Rightarrow> nat \<Rightarrow> vm \<Rightarrow> vm" where
  "pic_kbd p i v =
     (if kbd_readable p i \<or> system_clock v - last_int (kbd (TERMS v i)) > SERIAL_TIMEOUT then
        (let t = TERMS v i;
             t1 = t\<lparr>kbd := (kbd t)\<lparr>ready := True, last_int := system_clock v\<rparr>\<rparr>
         in raise_interrupt (int_core (kbd t1)) SERIAL_RX_READY (v\<lparr>TERMS := (TERMS v)(i := t1)\<rparr>))
      else v)"

text \<open>
  One round of the loop of \<^verbatim>\<open>PIC_daemon\<close>: the clock is updated, then (unless \<^verbatim>\<open>select\<close>
  failed) the expired timers raise \<^verbatim>\<open>ALARM\<close> at their cores, the signals that woke the PIC
  are drained, and the terminals are served in order.
\<close>

definition pic_round :: "pic_input \<Rightarrow> vm \<Rightarrow> vm" where
  "pic_round p v =
     (let v1 = v\<lparr>system_clock := pic_clock p\<rparr>
      in if select_failed p then v1
         else
           (let v2 = fold (\<lambda>c. raise_interrupt c ALARM) (alarms p) v1;
                v3 = (if usr1_readable p then v2\<lparr>pic_signals := 0\<rparr> else v2)
            in fold (\<lambda>i. pic_kbd p i \<circ> pic_con p i) [0..<nterm v] v3))"

section \<open>Booting the machine\<close>

text \<open>The initialisation of a core in \<^verbatim>\<open>vm_boot\<close> and then, on its own thread, \<^verbatim>\<open>bootfunc_wrapper\<close>.\<close>

definition boot_core :: "nat \<Rightarrow> core \<Rightarrow> core" where
  "boot_core c k = k\<lparr>core_id := c, halted := False, irq_count := 0,
     irq_delivered := (\<lambda>_. 0), irq_raised := (\<lambda>_. 0)\<rparr>"

definition bootfunc_init :: "core \<Rightarrow> core" where
  "bootfunc_init k = k\<lparr>intvec := (\<lambda>_. None), intpending := (\<lambda>_. False), int_disabled := False\<rparr>"

definition vm_boot :: "nat \<Rightarrow> nat \<Rightarrow> u64 \<Rightarrow> vm \<Rightarrow> vm res" where
  "vm_boot cores serialno now v =
     (if \<not> (cores > 0 \<and> cores \<le> MAX_CORES) then Inl Fatal
      else if ncores v \<noteq> 0 then Inl Fatal
      else if \<not> serialno \<le> MAX_TERMINALS then Inl Fatal
      else
        (let v1 = v\<lparr>PIC_active := True, system_clock := now, halted_list := [], ncores := cores\<rparr>;
             v2 = fold (\<lambda>c. upd_core c (\<lambda>k. bootfunc_init (boot_core c k))) [0..<cores] v1
         in Inr (v2\<lparr>nterm := serialno\<rparr>)))"

section \<open>Lemmas\<close>

text \<open>A core is halted exactly when it is, once, on the list of halted cores.\<close>

definition halt_inv :: "vm \<Rightarrow> bool" where
  "halt_inv v \<longleftrightarrow> distinct (halted_list v) \<and> (\<forall>c. halted (CORE v c) \<longleftrightarrow> c \<in> set (halted_list v))"

lemma halt_inv_enter:
  assumes "halt_inv v" and "\<not> halted (CORE v c)" and "cpu_core_halt_enter c v = Inr v'"
  shows "halt_inv v' \<and> halted_list v' = c # halted_list v"
proof -
  have v': "v' = (upd_core c (\<lambda>k. k\<lparr>halted := True\<rparr>) v)\<lparr>halted_list := c # halted_list v\<rparr>"
    using assms(3) by (simp add: cpu_core_halt_enter_def bindE_eq_Inr)
  have "halted (CORE v' d) = (d = c \<or> halted (CORE v d))" for d
    by (simp add: v')
  with assms(1,2) v' show ?thesis by (auto simp: halt_inv_def)
qed

lemma core_restart_halted:
  "halted (CORE (core_restart c v) d) \<longleftrightarrow> d \<noteq> c \<and> halted (CORE v d)"
  by (auto simp: core_restart_def)

lemma core_restart_list:
  "halt_inv v \<Longrightarrow> halted_list (core_restart c v) = removeAll c (halted_list v)"
  by (auto simp: core_restart_def halt_inv_def removeAll_id)

lemma core_restart_frame [simp]:
  "ncores (core_restart c v) = ncores v"
  "system_clock (core_restart c v) = system_clock v"
  "nterm (core_restart c v) = nterm v"
  "TERMS (core_restart c v) = TERMS v"
  by (simp_all add: core_restart_def)

lemma halt_inv_restart: "halt_inv v \<Longrightarrow> halt_inv (core_restart c v)"
  using core_restart_list [of v c] by (auto simp: halt_inv_def core_restart_halted distinct_removeAll)

lemma halt_inv_restart_one:
  assumes "halt_inv v"
  shows "halt_inv (cpu_core_restart_one v)"
    and "halted_list (cpu_core_restart_one v) = tl (halted_list v)"
  using assms
  by (auto simp: cpu_core_restart_one_def halt_inv_def core_restart_def removeAll_id
      split: list.splits if_splits)

lemma fold_core_restart:
  "halt_inv v \<Longrightarrow> halt_inv (fold core_restart cs v) \<and>
     halted_list (fold core_restart cs v) = filter (\<lambda>c. c \<notin> set cs) (halted_list v)"
proof (induction cs arbitrary: v)
  case Nil
  then show ?case by simp
next
  case (Cons c cs)
  then show ?case
    using core_restart_list [of v c] halt_inv_restart [of v c]
    by (auto simp: removeAll_filter_not_eq intro!: filter_cong)
qed

lemma restart_all_running:
  "halt_inv v \<Longrightarrow> d < ncores v \<Longrightarrow> cpu_core_halt_resume d (cpu_core_restart_all v)"
  using fold_core_restart [of v "[0..<ncores v]"]
  by (auto simp: cpu_core_restart_all_def cpu_core_halt_resume_def halt_inv_def)

lemma halt_inv_restart_all: "halt_inv v \<Longrightarrow> halt_inv (cpu_core_restart_all v)"
  using fold_core_restart [of v "[0..<ncores v]"] by (simp add: cpu_core_restart_all_def)

lemma halt_inv_pending:
  "halt_inv v \<Longrightarrow> (\<And>k. halted (f k) = halted k) \<Longrightarrow> halt_inv (upd_core c f v)"
  by (simp add: halt_inv_def)

lemma halt_inv_raise: "halt_inv v \<Longrightarrow> halt_inv (raise_interrupt c i v)"
  unfolding raise_interrupt_def cpu_core_restart_def
  by (intro halt_inv_restart halt_inv_pending) auto

lemma halt_inv_terms [simp]:
  "halt_inv (v\<lparr>TERMS := t\<rparr>) = halt_inv v"
  "halt_inv (v\<lparr>system_clock := n\<rparr>) = halt_inv v"
  "halt_inv (v\<lparr>pic_signals := m\<rparr>) = halt_inv v"
  by (simp_all add: halt_inv_def)

lemma halt_inv_fold:
  "(\<And>x v. halt_inv v \<Longrightarrow> halt_inv (f x v)) \<Longrightarrow> halt_inv v \<Longrightarrow> halt_inv (fold f xs v)"
  by (induction xs arbitrary: v) auto

lemma halt_inv_pic: "halt_inv v \<Longrightarrow> halt_inv (pic_round p v)"
  unfolding pic_round_def Let_def
  by (auto intro!: halt_inv_fold simp: halt_inv_raise pic_con_def pic_kbd_def Let_def)

text \<open>Handlers that keep to their own business do not touch the interrupt state.\<close>

definition handlers_frame :: "(handler \<Rightarrow> core \<Rightarrow> core) \<Rightarrow> bool" where
  "handlers_frame run \<longleftrightarrow> (\<forall>h k. int_disabled (run h k) = int_disabled k \<and>
     intpending (run h k) = intpending k \<and> irq_delivered (run h k) = irq_delivered k)"

lemma dispatch_loop_delivers:
  "handlers_frame run \<Longrightarrow> \<not> int_disabled k \<Longrightarrow> distinct is \<Longrightarrow>
     intpending (dispatch_loop run is k) i = (intpending k i \<and> i \<notin> set is) \<and>
     irq_delivered (dispatch_loop run is k) i =
       irq_delivered k i + (if intpending k i \<and> i \<in> set is then 1 else 0)"
proof (induction run "is" k rule: dispatch_loop.induct)
  case (1 run k)
  then show ?case by simp
next
  case (2 run j "is" k)
  then show ?case
    by (auto simp: Let_def handlers_frame_def split: option.split)
qed

lemma interrupts_all: "i \<in> set interrupts" "distinct interrupts"
  by (cases i) (simp_all add: interrupts_def)

lemma word_mult_div_small:
  fixes x :: u64
  assumes "x < 1000000"
  shows "x * 1000 div 1000 = x"
proof -
  have "unat x < 1000000"
    using assms by (simp add: word_less_nat_alt)
  then have "unat (x * 1000) = unat x * 1000"
    by (simp add: unat_word_ariths)
  then show ?thesis
    by (simp add: word_arith_nat_div)
qed

section \<open>Properties of the machine\<close>

text \<open>
  C33: the list of halted cores stays exact. Halting a running core, restarting one core,
  some core or all cores, raising an interrupt and a whole round of the interrupt
  controller keep every halted core on the list exactly once and no other;
  \<^verbatim>\<open>cpu_core_restart_one\<close> wakes the most recently halted core when there is one, and
  \<^verbatim>\<open>cpu_core_restart_all\<close> leaves no core of the machine halted.
\<close>

theorem halted_list_exact:
  assumes "halt_inv v"
  shows "halt_inv (cpu_core_restart c v) \<and> halt_inv (cpu_core_restart_one v) \<and>
     halt_inv (raise_interrupt c i v) \<and> halt_inv (pic_round p v) \<and>
     halt_inv (cpu_core_restart_all v) \<and>
     (\<not> halted (CORE v c) \<longrightarrow> cpu_core_halt_enter c v = Inr v' \<longrightarrow> halt_inv v') \<and>
     halted_list (cpu_core_restart_one v) = tl (halted_list v) \<and>
     (d < ncores v \<longrightarrow> cpu_core_halt_resume d (cpu_core_restart_all v))"
  using assms halt_inv_enter [of v c v']
  by (auto simp: halt_inv_restart cpu_core_restart_def halt_inv_restart_one halt_inv_raise
      halt_inv_pic halt_inv_restart_all restart_all_running)

definition example_vm :: vm where
  "example_vm = \<lparr>CORE = (\<lambda>c. \<lparr>core_id = c, intvec = (\<lambda>_. None), intpending = (\<lambda>_. False),
       int_disabled = False, halted = c = 1, timer_sec = 0, timer_nsec = 0, irq_count = 0,
       irq_raised = (\<lambda>_. 0), irq_delivered = (\<lambda>_. 0)\<rparr>),
     ncores = 2, halted_list = [1], PIC_active = True, pic_signals = 0, system_clock = 0,
     TERMS = (\<lambda>_. \<lparr>con = \<lparr>dev_fd = 0, iodir = IODIR_TX, int_core = 0, ready = True, last_int = 0\<rparr>,
                  kbd = \<lparr>dev_fd = 0, iodir = IODIR_RX, int_core = 0, ready = True, last_int = 0\<rparr>\<rparr>),
     nterm = 1\<rparr>"

theorem halted_list_exact_witness:
  "halt_inv example_vm \<and> halted_list (cpu_core_restart_one example_vm) = []"
proof -
  have h: "halt_inv example_vm"
    by (simp add: halt_inv_def example_vm_def)
  with halted_list_exact [OF h] show ?thesis
    by (simp add: example_vm_def)
qed

text \<open>
  No interrupt is lost while interrupts are disabled. A raised interrupt stays
  pending and \<^verbatim>\<open>sigusr1_handler\<close> delivers nothing; \<^verbatim>\<open>cpu_enable_interrupts\<close> then delivers
  every pending interrupt exactly once and leaves none pending, provided the handlers do
  not themselves touch the interrupt state.
\<close>

theorem enable_delivers_pending:
  assumes "handlers_frame run" and "int_disabled k"
  shows "intpending (sigusr1_handler run k) = intpending k \<and>
     irq_delivered (sigusr1_handler run k) = irq_delivered k \<and>
     \<not> intpending (cpu_enable_interrupts run k) i \<and>
     irq_delivered (cpu_enable_interrupts run k) i =
       irq_delivered k i + (if intpending k i then 1 else 0)"
  using assms dispatch_loop_delivers [OF assms(1), of "k\<lparr>int_disabled := False\<rparr>" interrupts i]
  by (simp add: sigusr1_handler_def Let_def cpu_enable_interrupts_def dispatch_interrupts_def
      interrupts_all)

theorem enable_delivers_pending_witness:
  "irq_delivered (cpu_enable_interrupts (\<lambda>_ k. k)
      ((CORE (raise_interrupt 0 ALARM example_vm) 0)\<lparr>int_disabled := True\<rparr>)) ALARM = 1"
  using enable_delivers_pending [of "\<lambda>_ k. k"
      "(CORE (raise_interrupt 0 ALARM example_vm) 0)\<lparr>int_disabled := True\<rparr>" ALARM]
  by (simp add: handlers_frame_def raise_interrupt_def example_vm_def cpu_core_restart_def
      core_restart_def)

text \<open>
  The timer keeps the time it is armed with. For every 64-bit duration the split into
  seconds and nanoseconds and back is exact, and arming or cancelling a timer discards an
  \<^verbatim>\<open>ALARM\<close> that was still pending.
\<close>

theorem timer_roundtrip:
  "fst (bios_set_timer t' (snd (bios_set_timer usec k))) = usec \<and>
   \<not> intpending (snd (bios_set_timer usec k)) ALARM"
proof -
  have "usec mod 1000000 < 1000000"
    by (simp add: word_mod_less_divisor)
  then have "1000000 * (usec div 1000000) + usec mod 1000000 * 1000 div 1000 = usec"
    by (simp only: word_mult_div_small mult_div_mod_eq)
  then show ?thesis
    by (simp add: bios_set_timer_def Let_def)
qed

end
