(* ===== verification/Sched.thy ===== *)
theory Sched
  imports Bios
begin

text \<open>
  The scheduler of \<^verbatim>\<open>src/kernel_sched.c\<close> and \<^verbatim>\<open>src/kernel_sched.h\<close>: thread control blocks,
  the multilevel feedback queues, the list of threads with a timeout, and the operations
  on them. Every operation here runs in the code with preemption off and
  \<^verbatim>\<open>sched_spinlock\<close> held, so it is one atomic step on the scheduler state. A context
  switch is two steps, as in the code: \<open>yield_switch\<close> up to \<^verbatim>\<open>cpu_swap_context\<close>, run by the
  thread that leaves, and \<open>gain\<close>, run by the thread that enters. The queues are the list
  stores that the rings of \<^verbatim>\<open>RList\<close> implement.
\<close>

section \<open>Thread control blocks\<close>

datatype thread_state = INIT | READY | RUNNING | STOPPED | EXITED

datatype thread_phase = CTX_CLEAN | CTX_DIRTY

datatype thread_type = IDLE_THREAD | NORMAL_THREAD

datatype sched_cause =
    SCHED_QUANTUM | SCHED_IO | SCHED_MUTEX | SCHED_PIPE | SCHED_POLL | SCHED_IDLE | SCHED_USER

text \<open>
  The address of a TCB: the idle thread inside the control block of a core, or a block
  from \<^verbatim>\<open>allocate_thread\<close>.
\<close>

datatype tcbp = Idle nat | Thr nat

record tcb =
  owner_pcb :: "nat option"
  owner_ptcb :: "nat option"
  ttype :: thread_type
  tstate :: thread_state
  tphase :: thread_phase
  priority :: u32
  mutex_contention :: bool
  prev_priority :: u32
  thread_func :: nat
  wakeup_time :: u64
  tprev :: "tcbp option"
  tnext :: "tcbp option"

definition NO_TIMEOUT :: u64 where "NO_TIMEOUT = - 1"
definition QUANTUM :: u64 where "QUANTUM = 10000"
definition MFQ_QUEUES :: nat where "MFQ_QUEUES = 15"
definition MFQ_TIMESLICES :: u32 where "MFQ_TIMESLICES = 5"

section \<open>The scheduler state\<close>

record sched =
  vm :: vm
  tcbs :: "tcbp \<Rightarrow> tcb option"
  SCHED :: "nat \<Rightarrow> tcbp list"
  TIMEOUT_LIST :: "tcbp list"
  timeslices :: u32
  active_threads :: u32
  current_thread :: "nat \<Rightarrow> tcbp"

definition get_tcb :: "tcbp \<Rightarrow> sched \<Rightarrow> tcb res" where
  "get_tcb t s = derefE (tcbs s t)"

definition upd_tcb :: "tcbp \<Rightarrow> (tcb \<Rightarrow> tcb) \<Rightarrow> sched \<Rightarrow> sched" where
  "upd_tcb t f s = s\<lparr>tcbs := (tcbs s)(t := map_option f (tcbs s t))\<rparr>"

lemma upd_tcb_simps [simp]:
  "tcbs (upd_tcb t f s) u = (if u = t then map_option f (tcbs s t) else tcbs s u)"
  "SCHED (upd_tcb t f s) = SCHED s"
  "TIMEOUT_LIST (upd_tcb t f s) = TIMEOUT_LIST s"
  "timeslices (upd_tcb t f s) = timeslices s"
  "active_threads (upd_tcb t f s) = active_threads s"
  "current_thread (upd_tcb t f s) = current_thread s"
  "vm (upd_tcb t f s) = vm s"
  by (simp_all add: upd_tcb_def)

section \<open>Creating and releasing threads\<close>

text \<open>
  \<^verbatim>\<open>spawn_thread\<close>; \<open>a\<close> is the address that \<^verbatim>\<open>aligned_alloc\<close> returned. The block is not
  cleared, so \<^verbatim>\<open>owner_ptcb\<close>, \<^verbatim>\<open>prev_priority\<close>, \<^verbatim>\<open>prev\<close> and \<^verbatim>\<open>next\<close> keep what the memory held
  (\<open>old\<close>).
\<close>

definition spawn_thread :: "nat \<Rightarrow> tcb \<Rightarrow> nat option \<Rightarrow> nat \<Rightarrow> sched \<Rightarrow> tcbp \<times> sched" where
  "spawn_thread a old pcb func s =
     (Thr a, s\<lparr>tcbs := (tcbs s)(Thr a \<mapsto> old\<lparr>owner_pcb := pcb, ttype := NORMAL_THREAD, tstate := INIT,
         tphase := CTX_CLEAN, thread_func := func, wakeup_time := NO_TIMEOUT, priority := 0,
         mutex_contention := False\<rparr>), active_threads := active_threads s + 1\<rparr>)"

definition release_TCB :: "tcbp \<Rightarrow> sched \<Rightarrow> sched" where
  "release_TCB t s = s\<lparr>tcbs := (tcbs s)(t := None), active_threads := active_threads s - 1\<rparr>"

section \<open>The queues\<close>

text \<open>
  The loop of \<^verbatim>\<open>sched_register_timeout\<close>: skip earlier entries and insert before the first
  one that wakes up later.
\<close>

fun timeout_insert :: "sched \<Rightarrow> u64 \<Rightarrow> tcbp \<Rightarrow> tcbp list \<Rightarrow> tcbp list res" where
  "timeout_insert s w t [] = Inr [t]"
| "timeout_insert s w t (n # ns) =
     bindE (get_tcb n s) (\<lambda>k.
     if w < wakeup_time k then Inr (t # n # ns)
     else bindE (timeout_insert s w t ns) (\<lambda>ns'. Inr (n # ns')))"

definition sched_register_timeout :: "tcbp \<Rightarrow> u64 \<Rightarrow> sched \<Rightarrow> sched res" where
  "sched_register_timeout t timeout s =
     (if timeout \<noteq> NO_TIMEOUT then
        (let w = bios_clock (vm s) + timeout;
             s1 = upd_tcb t (\<lambda>k. k\<lparr>wakeup_time := w\<rparr>) s
         in bindE (timeout_insert s1 w t (TIMEOUT_LIST s1)) (\<lambda>l. Inr (s1\<lparr>TIMEOUT_LIST := l\<rparr>)))
      else Inr s)"

definition sched_queue_add :: "tcbp \<Rightarrow> sched \<Rightarrow> sched res" where
  "sched_queue_add t s =
     bindE (get_tcb t s) (\<lambda>k.
     let i = unat (priority k) in
     if i < MFQ_QUEUES then
       Inr (s\<lparr>SCHED := (SCHED s)(i := SCHED s i @ [t]), vm := cpu_core_restart_one (vm s)\<rparr>)
     else Inl Out_of_bounds)"

text \<open>Whether the \<^verbatim>\<open>sched_node\<close> of a thread is on a ring, and taking it off.\<close>

definition on_a_list :: "tcbp \<Rightarrow> sched \<Rightarrow> bool" where
  "on_a_list t s \<longleftrightarrow> t \<in> set (TIMEOUT_LIST s) \<or> (\<exists>i \<in> set [0..<MFQ_QUEUES]. t \<in> set (SCHED s i))"

definition remove_node :: "tcbp \<Rightarrow> sched \<Rightarrow> sched" where
  "remove_node t s = s\<lparr>TIMEOUT_LIST := removeAll t (TIMEOUT_LIST s),
     SCHED := (\<lambda>i. removeAll t (SCHED s i))\<rparr>"

definition sched_make_ready :: "tcbp \<Rightarrow> sched \<Rightarrow> sched res" where
  "sched_make_ready t s =
     bindE (get_tcb t s) (\<lambda>k.
     bindE (assertE (tstate k = STOPPED \<or> tstate k = INIT)) (\<lambda>_.
     bindE (if wakeup_time k \<noteq> NO_TIMEOUT then
              bindE (assertE (on_a_list t s \<and> tstate k = STOPPED)) (\<lambda>_.
              Inr (upd_tcb t (\<lambda>k. k\<lparr>wakeup_time := NO_TIMEOUT\<rparr>) (remove_node t s)))
            else Inr s) (\<lambda>s1.
     let s2 = upd_tcb t (\<lambda>k. k\<lparr>tstate := READY\<rparr>) s1 in
     if tphase k = CTX_CLEAN then sched_queue_add t s2 else Inr s2)))"

text \<open>
  The loop over the timeout list at the head of \<^verbatim>\<open>sched_queue_select\<close>. Every round takes
  the first thread off the list; the length of the list is the fuel, and running out of
  it with a due thread left would be a loop that does not end.
\<close>

fun wake_expired :: "nat \<Rightarrow> u64 \<Rightarrow> sched \<Rightarrow> sched res" where
  "wake_expired fuel curtime s =
     (case TIMEOUT_LIST s of
        [] \<Rightarrow> Inr s
      | t # _ \<Rightarrow>
          bindE (get_tcb t s) (\<lambda>k.
          if wakeup_time k > curtime then Inr s
          else (case fuel of
                  0 \<Rightarrow> Inl No_return
                | Suc f \<Rightarrow> bindE (sched_make_ready t s) (wake_expired f curtime))))"

declare wake_expired.simps [simp del]

definition first_nonempty :: "sched \<Rightarrow> nat option" where
  "first_nonempty s = find (\<lambda>i. SCHED s i \<noteq> []) [0..<MFQ_QUEUES]"

definition pop_queue :: "sched \<Rightarrow> tcbp option \<times> sched" where
  "pop_queue s =
     (case first_nonempty s of
        None \<Rightarrow> (None, s)
      | Some i \<Rightarrow> (Some (hd (SCHED s i)), s\<lparr>SCHED := (SCHED s)(i := tl (SCHED s i))\<rparr>))"

definition sched_queue_select :: "sched \<Rightarrow> (tcbp option \<times> sched) res" where
  "sched_queue_select s =
     bindE (wake_expired (length (TIMEOUT_LIST s)) (bios_clock (vm s)) s) (\<lambda>s1. Inr (pop_queue s1))"

text \<open>\<^verbatim>\<open>sched_boost\<close>: the head of every queue but the first moves one queue up.\<close>

definition boost_one :: "nat \<Rightarrow> sched \<Rightarrow> sched" where
  "boost_one i s =
     (case SCHED s (Suc i) of
        [] \<Rightarrow> s
      | t # ts \<Rightarrow>
          (let s1 = s\<lparr>SCHED := (SCHED s)(Suc i := ts)\<rparr>;
               s2 = upd_tcb t (\<lambda>k. k\<lparr>priority := priority k - 1\<rparr>) s1
           in s2\<lparr>SCHED := (SCHED s2)(i := SCHED s2 i @ [t])\<rparr>))"

definition sched_boost :: "sched \<Rightarrow> sched" where
  "sched_boost s = fold boost_one [0..<MFQ_QUEUES - 1] s"

section \<open>Waking up, sleeping, switching\<close>

definition wakeup :: "tcbp \<Rightarrow> sched \<Rightarrow> (bool \<times> sched) res" where
  "wakeup t s =
     bindE (get_tcb t s) (\<lambda>k.
     if tstate k = STOPPED \<or> tstate k = INIT then
       bindE (sched_make_ready t s) (\<lambda>s1. Inr (True, s1))
     else Inr (False, s))"

text \<open>
  \<^verbatim>\<open>sleep_releasing\<close> up to the call of \<^verbatim>\<open>yield\<close>; releasing the mutex argument is the
  caller's part.
\<close>

definition sleep_enter :: "nat \<Rightarrow> thread_state \<Rightarrow> u64 \<Rightarrow> sched \<Rightarrow> sched res" where
  "sleep_enter c st timeout s =
     bindE (assertE (st = STOPPED \<or> st = EXITED)) (\<lambda>_.
     let t = current_thread s c;
         s1 = upd_tcb t (\<lambda>k. k\<lparr>tstate := st\<rparr>) s
     in if st \<noteq> EXITED then sched_register_timeout t timeout s1 else Inr s1)"

text \<open>The adjustment of the dynamic priority in \<^verbatim>\<open>yield\<close>, with its fall-through cases.\<close>

definition restore_fairness :: "sched_cause \<Rightarrow> tcb \<Rightarrow> tcb" where
  "restore_fairness cause k =
     (if mutex_contention k \<and> cause \<noteq> SCHED_MUTEX
      then k\<lparr>priority := prev_priority k, prev_priority := 0, mutex_contention := False\<rparr> else k)"

definition lower_priority :: "tcb \<Rightarrow> tcb" where
  "lower_priority k =
     (if unat (priority k) < MFQ_QUEUES - 1 then k\<lparr>priority := priority k + 1\<rparr> else k)"

definition adjust_priority :: "sched_cause \<Rightarrow> tcb \<Rightarrow> tcb" where
  "adjust_priority cause k =
     (case cause of
        SCHED_MUTEX \<Rightarrow>
          lower_priority (if \<not> mutex_contention k
                          then k\<lparr>prev_priority := priority k, mutex_contention := True\<rparr> else k)
      | SCHED_QUANTUM \<Rightarrow> lower_priority k
      | SCHED_USER \<Rightarrow> (if priority k > 0 then k\<lparr>priority := priority k - 1\<rparr> else k)
      | SCHED_PIPE \<Rightarrow> (if priority k > 0 then k\<lparr>priority := priority k - 1\<rparr> else k)
      | SCHED_IO \<Rightarrow> (if priority k > 0 then k\<lparr>priority := priority k - 1\<rparr> else k)
      | _ \<Rightarrow> k)"

text \<open>
  The switch over the state: whether the current thread could go on. In the other states the assertion fails.
\<close>

definition current_ready :: "thread_state \<Rightarrow> bool res" where
  "current_ready st =
     (case st of RUNNING \<Rightarrow> Inr True | READY \<Rightarrow> Inr True
               | STOPPED \<Rightarrow> Inr False | EXITED \<Rightarrow> Inr False | INIT \<Rightarrow> Inl Assert_failed)"

definition set_core_timer :: "nat \<Rightarrow> u64 \<Rightarrow> sched \<Rightarrow> sched" where
  "set_core_timer c usec s = s\<lparr>vm := upd_core c (\<lambda>k. snd (bios_set_timer usec k)) (vm s)\<rparr>"

text \<open>
  \<^verbatim>\<open>yield\<close> on core \<open>c\<close> up to the switch of contexts. The thread that leaves is still
  \<^verbatim>\<open>CTX_DIRTY\<close>; the thread that enters is \<open>current_thread s' c\<close>.
\<close>

definition yield_switch :: "nat \<Rightarrow> sched_cause \<Rightarrow> sched \<Rightarrow> sched res" where
  "yield_switch c cause s =
     (let s0 = set_core_timer c 0 s; current = current_thread s0 c in
     bindE (get_tcb current s0) (\<lambda>k0.
     let k = adjust_priority cause (restore_fairness cause k0) in
     bindE (current_ready (tstate k)) (\<lambda>cur_ready.
     let s1 = upd_tcb current (\<lambda>_. k\<lparr>tstate := (if tstate k = RUNNING then READY else tstate k)\<rparr>) s0;
         s2 = (if timeslices s1 \<ge> MFQ_TIMESLICES then sched_boost (s1\<lparr>timeslices := 0\<rparr>) else s1)
     in bindE (sched_queue_select s2) (\<lambda>(sel, s3).
     let nxt_t = (case sel of Some t \<Rightarrow> t | None \<Rightarrow> if cur_ready then current else Idle c);
         s4 = upd_tcb current (\<lambda>k. k\<lparr>tnext := Some nxt_t\<rparr>) s3;
         s5 = upd_tcb nxt_t (\<lambda>k. k\<lparr>tprev := Some current\<rparr>) s4
     in Inr (s5\<lparr>current_thread := (current_thread s5)(c := nxt_t)\<rparr>)))))"

text \<open>\<^verbatim>\<open>gain\<close>, run by the thread that was switched to.\<close>

definition gain :: "nat \<Rightarrow> sched \<Rightarrow> sched res" where
  "gain c s =
     (let s0 = s\<lparr>timeslices := timeslices s + 1\<rparr>; current = current_thread s0 c in
     bindE (get_tcb current s0) (\<lambda>kc.
     bindE (nonnullE (tprev kc)) (\<lambda>prev.
     let s1 = upd_tcb current (\<lambda>k. k\<lparr>tstate := RUNNING, tphase := CTX_DIRTY\<rparr>) s0 in
     bindE (if current \<noteq> prev then
              (let s2 = upd_tcb prev (\<lambda>k. k\<lparr>tphase := CTX_CLEAN\<rparr>) s1 in
               bindE (get_tcb prev s2) (\<lambda>kp.
               case tstate kp of
                 READY \<Rightarrow> if ttype kp \<noteq> IDLE_THREAD then sched_queue_add prev s2 else Inr s2
               | EXITED \<Rightarrow> Inr (release_TCB prev s2)
               | STOPPED \<Rightarrow> Inr s2
               | _ \<Rightarrow> Inl Assert_failed))
            else Inr s1) (\<lambda>s3.
     Inr (set_core_timer c (QUANTUM * ucast (priority kc + 1)) s3)))))"

section \<open>Initialisation and the idle thread\<close>

definition initialize_scheduler :: "sched \<Rightarrow> sched" where
  "initialize_scheduler s =
     s\<lparr>SCHED := (\<lambda>i. if i < MFQ_QUEUES then [] else SCHED s i), TIMEOUT_LIST := []\<rparr>"

text \<open>
  \<^verbatim>\<open>run_scheduler\<close> up to the start of the idle thread; \<open>pcb0\<close> is the result of \<^verbatim>\<open>get_pcb(0)\<close>
  and \<open>alarm_h\<close>, \<open>ici_h\<close> are the addresses of the two handlers.
\<close>

definition run_scheduler_init :: "nat \<Rightarrow> nat option \<Rightarrow> handler \<Rightarrow> handler \<Rightarrow> sched \<Rightarrow> sched" where
  "run_scheduler_init c pcb0 alarm_h ici_h s =
     (let s1 = upd_tcb (Idle c) (\<lambda>k. k\<lparr>owner_pcb := pcb0, ttype := IDLE_THREAD, tstate := RUNNING,
                 tphase := CTX_DIRTY, wakeup_time := NO_TIMEOUT\<rparr>)
               (s\<lparr>current_thread := (current_thread s)(c := Idle c)\<rparr>)
      in s1\<lparr>vm := upd_core c (cpu_interrupt_handler ICI (Some ici_h) \<circ>
                             cpu_interrupt_handler ALARM (Some alarm_h)) (vm s1)\<rparr>)"

text \<open>The test of the idle loop, and what the idle thread does when it leaves the loop.\<close>

definition idle_continues :: "sched \<Rightarrow> bool" where
  "idle_continues s \<longleftrightarrow> active_threads s > 0"

definition idle_exit :: "nat \<Rightarrow> sched \<Rightarrow> sched" where
  "idle_exit c s = (let s1 = set_core_timer c 0 s in s1\<lparr>vm := cpu_core_restart_all (vm s1)\<rparr>)"

section \<open>The invariant of the scheduler\<close>

definition schedulable :: "tcb \<Rightarrow> bool" where
  "schedulable k \<longleftrightarrow> tstate k = READY \<and> tphase k = CTX_CLEAN \<and> ttype k = NORMAL_THREAD"

definition on_core :: "tcbp \<Rightarrow> sched \<Rightarrow> bool" where
  "on_core t s \<longleftrightarrow> (\<exists>c. current_thread s c = t)"

definition wk :: "sched \<Rightarrow> tcbp \<Rightarrow> u64" where
  "wk s t = (case tcbs s t of None \<Rightarrow> 0 | Some k \<Rightarrow> wakeup_time k)"

text \<open>
  Every thread has a queue it may be put on, and a pending timeout only while stopped;
  idle threads never sleep.
\<close>

definition tcb_ok :: "tcb \<Rightarrow> bool" where
  "tcb_ok k \<longleftrightarrow> unat (priority k) < MFQ_QUEUES \<and>
     (mutex_contention k \<longrightarrow> unat (prev_priority k) < MFQ_QUEUES) \<and>
     (wakeup_time k \<noteq> NO_TIMEOUT \<longrightarrow> tstate k = STOPPED) \<and>
     (tstate k = RUNNING \<longrightarrow> tphase k = CTX_DIRTY) \<and>
     (ttype k = IDLE_THREAD \<longrightarrow> tstate k = READY \<or> tstate k = RUNNING)"

text \<open>
  The queue of priority \<open>i\<close> holds, once each, exactly the threads of that priority that are
  ready, have their context saved and are not on a core; the timeout list holds, once
  each and by wake-up time, exactly the threads with a pending timeout.
\<close>

definition sched_inv :: "sched \<Rightarrow> bool" where
  "sched_inv s \<longleftrightarrow>
     (\<forall>t k. tcbs s t = Some k \<longrightarrow> tcb_ok k) \<and>
     (\<forall>i t. t \<in> set (SCHED s i) \<longleftrightarrow>
        (\<exists>k. tcbs s t = Some k \<and> schedulable k \<and> unat (priority k) = i \<and> \<not> on_core t s)) \<and>
     (\<forall>i. distinct (SCHED s i)) \<and>
     (\<forall>t. t \<in> set (TIMEOUT_LIST s) \<longleftrightarrow> (\<exists>k. tcbs s t = Some k \<and> wakeup_time k \<noteq> NO_TIMEOUT)) \<and>
     distinct (TIMEOUT_LIST s) \<and> sorted_wrt (\<lambda>a b. wk s a \<le> wk s b) (TIMEOUT_LIST s) \<and>
     (\<forall>t k. on_core t s \<longrightarrow> tcbs s t = Some k \<longrightarrow> tphase k = CTX_DIRTY \<or> tstate k = READY)"

lemma sched_invI:
  assumes "\<And>t k. tcbs s t = Some k \<Longrightarrow> tcb_ok k"
    and "\<And>i t. t \<in> set (SCHED s i) \<longleftrightarrow>
        (\<exists>k. tcbs s t = Some k \<and> schedulable k \<and> unat (priority k) = i \<and> \<not> on_core t s)"
    and "\<And>i. distinct (SCHED s i)"
    and "\<And>t. t \<in> set (TIMEOUT_LIST s) \<longleftrightarrow> (\<exists>k. tcbs s t = Some k \<and> wakeup_time k \<noteq> NO_TIMEOUT)"
    and "distinct (TIMEOUT_LIST s)" and "sorted_wrt (\<lambda>a b. wk s a \<le> wk s b) (TIMEOUT_LIST s)"
    and "\<And>t k. on_core t s \<Longrightarrow> tcbs s t = Some k \<Longrightarrow> tphase k = CTX_DIRTY \<or> tstate k = READY"
  shows "sched_inv s"
  unfolding sched_inv_def using assms by blast

lemma sched_invD:
  assumes "sched_inv s"
  shows "tcbs s t = Some k \<Longrightarrow> tcb_ok k"
    and "t \<in> set (SCHED s i) \<longleftrightarrow>
        (\<exists>k. tcbs s t = Some k \<and> schedulable k \<and> unat (priority k) = i \<and> \<not> on_core t s)"
    and "distinct (SCHED s i)"
    and "t \<in> set (TIMEOUT_LIST s) \<longleftrightarrow> (\<exists>k. tcbs s t = Some k \<and> wakeup_time k \<noteq> NO_TIMEOUT)"
    and "distinct (TIMEOUT_LIST s)" and "sorted_wrt (\<lambda>a b. wk s a \<le> wk s b) (TIMEOUT_LIST s)"
    and "on_core t s \<Longrightarrow> tcbs s t = Some k \<Longrightarrow> tphase k = CTX_DIRTY \<or> tstate k = READY"
  using assms unfolding sched_inv_def by blast+

text \<open>The parts of the state the invariant does not look at.\<close>

lemma sched_inv_frame [simp]:
  "sched_inv (s\<lparr>vm := v\<rparr>) = sched_inv s"
  "sched_inv (s\<lparr>timeslices := n\<rparr>) = sched_inv s"
  "sched_inv (s\<lparr>active_threads := n\<rparr>) = sched_inv s"
  by (simp_all add: sched_inv_def on_core_def wk_def)

lemma set_core_timer_simps [simp]:
  "tcbs (set_core_timer c u s) = tcbs s"
  "SCHED (set_core_timer c u s) = SCHED s"
  "TIMEOUT_LIST (set_core_timer c u s) = TIMEOUT_LIST s"
  "timeslices (set_core_timer c u s) = timeslices s"
  "current_thread (set_core_timer c u s) = current_thread s"
  "active_threads (set_core_timer c u s) = active_threads s"
  "sched_inv (set_core_timer c u s) = sched_inv s"
  "system_clock (vm (set_core_timer c u s)) = system_clock (vm s)"
  by (simp_all add: set_core_timer_def)

lemma not_schedulable_simps [simp]:
  "\<not> schedulable (k\<lparr>tstate := RUNNING\<rparr>)" "\<not> schedulable (k\<lparr>tphase := CTX_DIRTY\<rparr>)"
  "\<not> schedulable (k\<lparr>tstate := STOPPED\<rparr>)" "\<not> schedulable (k\<lparr>tstate := EXITED\<rparr>)"
  "\<not> schedulable (k\<lparr>tstate := RUNNING, tphase := p\<rparr>)"
  by (simp_all add: schedulable_def)

lemma clock_restart_one [simp]: "system_clock (cpu_core_restart_one v) = system_clock v"
  by (simp add: cpu_core_restart_one_def split: list.split)

section \<open>Making threads ready\<close>

text \<open>Under the invariant \<^verbatim>\<open>sched_make_ready\<close> never fails, and this is its result.\<close>

definition made_ready :: "tcbp \<Rightarrow> tcb \<Rightarrow> sched \<Rightarrow> sched" where
  "made_ready t k s =
     s\<lparr>tcbs := (tcbs s)(t \<mapsto> k\<lparr>wakeup_time := NO_TIMEOUT, tstate := READY\<rparr>),
       TIMEOUT_LIST := removeAll t (TIMEOUT_LIST s),
       SCHED := (if tphase k = CTX_CLEAN
                 then (SCHED s)(unat (priority k) := SCHED s (unat (priority k)) @ [t]) else SCHED s),
       vm := (if tphase k = CTX_CLEAN then cpu_core_restart_one (vm s) else vm s)\<rparr>"

lemma made_ready_simps [simp]:
  "tcbs (made_ready t k s) u =
     (if u = t then Some (k\<lparr>wakeup_time := NO_TIMEOUT, tstate := READY\<rparr>) else tcbs s u)"
  "TIMEOUT_LIST (made_ready t k s) = removeAll t (TIMEOUT_LIST s)"
  "SCHED (made_ready t k s) i =
     (if tphase k = CTX_CLEAN \<and> i = unat (priority k) then SCHED s i @ [t] else SCHED s i)"
  "current_thread (made_ready t k s) = current_thread s"
  "timeslices (made_ready t k s) = timeslices s"
  "active_threads (made_ready t k s) = active_threads s"
  "system_clock (vm (made_ready t k s)) = system_clock (vm s)"
  "on_core u (made_ready t k s) = on_core u s"
  by (auto simp: made_ready_def on_core_def)

lemma keep_wakeup:
  "wakeup_time k = w \<Longrightarrow> k\<lparr>wakeup_time := w, tstate := st\<rparr> = k\<lparr>tstate := st\<rparr>"
  by (cases k) simp

lemma sched_make_ready_eq:
  assumes inv: "sched_inv s" and k: "tcbs s t = Some k" and st: "tstate k = STOPPED \<or> tstate k = INIT"
  shows "sched_make_ready t s = Inr (made_ready t k s)"
proof -
  have prio: "unat (priority k) < MFQ_QUEUES"
    using sched_invD(1) [OF inv k] by (simp add: tcb_ok_def)
  have noq: "t \<notin> set (SCHED s i)" for i
    using sched_invD(2) [OF inv, of t i] k st by (auto simp: schedulable_def)
  then have sch: "(\<lambda>i. removeAll t (SCHED s i)) = SCHED s"
    by (simp add: removeAll_id fun_eq_iff)
  show ?thesis
  proof (cases "wakeup_time k = NO_TIMEOUT")
    case True
    then have "t \<notin> set (TIMEOUT_LIST s)"
      using sched_invD(4) [OF inv, of t] k by simp
    with True k st prio show ?thesis
      by (simp add: sched_make_ready_def get_tcb_def made_ready_def sched_queue_add_def removeAll_id
          upd_tcb_def Let_def keep_wakeup)
  next
    case False
    then have "on_a_list t s" "tstate k = STOPPED"
      using sched_invD(4) [OF inv, of t] sched_invD(1) [OF inv k] k
      by (auto simp: on_a_list_def tcb_ok_def)
    with False k prio sch show ?thesis
      by (simp add: sched_make_ready_def get_tcb_def made_ready_def sched_queue_add_def
          upd_tcb_def Let_def remove_node_def)
  qed
qed

lemma made_ready_wk: "u \<noteq> t \<Longrightarrow> wk (made_ready t k s) u = wk s u"
  by (simp add: wk_def)

lemma sched_inv_made_ready:
  assumes inv: "sched_inv s" and k: "tcbs s t = Some k" and st: "tstate k = STOPPED \<or> tstate k = INIT"
  shows "sched_inv (made_ready t k s)"
proof (rule sched_invI)
  let ?s = "made_ready t k s"
  note D = sched_invD [OF inv]
  have t: "\<not> on_core t s" if "tphase k = CTX_CLEAN"
    using D(7) [OF _ k] st that by auto
  have ty: "ttype k = NORMAL_THREAD"
    using D(1) [OF k] st by (cases "ttype k") (auto simp: tcb_ok_def)
  have noq: "t \<notin> set (SCHED s i)" for i
    using D(2) [of t i] k st by (auto simp: schedulable_def)
  show "tcb_ok k'" if "tcbs ?s u = Some k'" for u k'
    using that D(1) [of u k'] D(1) [OF k] by (auto simp: tcb_ok_def split: if_splits)
  show "u \<in> set (SCHED ?s i) \<longleftrightarrow>
      (\<exists>k. tcbs ?s u = Some k \<and> schedulable k \<and> unat (priority k) = i \<and> \<not> on_core u ?s)" for i u
    using D(2) [of u i] noq t ty st
    by (cases "u = t") (auto simp: schedulable_def)
  show "distinct (SCHED ?s i)" for i
    using D(3) [of i] noq by auto
  show "u \<in> set (TIMEOUT_LIST ?s) \<longleftrightarrow> (\<exists>k. tcbs ?s u = Some k \<and> wakeup_time k \<noteq> NO_TIMEOUT)" for u
    using D(4) [of u] by auto
  show "distinct (TIMEOUT_LIST ?s)"
    using D(5) by (simp add: distinct_removeAll)
  have "sorted_wrt (\<lambda>a b. wk s a \<le> wk s b) (removeAll t (TIMEOUT_LIST s))"
    using D(6) by (simp add: removeAll_filter_not_eq sorted_wrt_filter)
  then have "sorted_wrt (\<lambda>a b. wk ?s a \<le> wk ?s b) (removeAll t (TIMEOUT_LIST s))"
    by (rule sorted_wrt_mono_rel [rotated]) (auto simp: made_ready_wk)
  then show "sorted_wrt (\<lambda>a b. wk ?s a \<le> wk ?s b) (TIMEOUT_LIST ?s)"
    by simp
  show "tphase k' = CTX_DIRTY \<or> tstate k' = READY" if "on_core u ?s" "tcbs ?s u = Some k'" for u k'
    using that D(7) [of u k'] by (auto split: if_splits)
qed

lemma wk_head_min:
  "sched_inv s \<Longrightarrow> TIMEOUT_LIST s = t # ts \<Longrightarrow> u \<in> set (TIMEOUT_LIST s) \<Longrightarrow> wk s t \<le> wk s u"
  using sched_invD(6) [of s] by auto

lemma wk_simp: "tcbs s t = Some k \<Longrightarrow> wk s t = wakeup_time k"
  by (simp add: wk_def)

text \<open>
  The loop of \<^verbatim>\<open>sched_queue_select\<close> wakes exactly the threads whose time has come.
\<close>

definition due :: "u64 \<Rightarrow> sched \<Rightarrow> tcbp \<Rightarrow> bool" where
  "due now s t \<longleftrightarrow> t \<in> set (TIMEOUT_LIST s) \<and> wk s t \<le> now"

definition wake_result :: "u64 \<Rightarrow> sched \<Rightarrow> sched \<Rightarrow> bool" where
  "wake_result now s s' \<longleftrightarrow>
     sched_inv s' \<and> current_thread s' = current_thread s \<and> timeslices s' = timeslices s \<and>
     (\<forall>t \<in> set (TIMEOUT_LIST s'). now < wk s' t) \<and>
     (\<forall>u. tcbs s' u = (if due now s u
        then map_option (\<lambda>k. k\<lparr>wakeup_time := NO_TIMEOUT, tstate := READY\<rparr>) (tcbs s u)
        else tcbs s u))"

lemma wake_expired_ok:
  "sched_inv s \<Longrightarrow> length (TIMEOUT_LIST s) \<le> fuel \<Longrightarrow>
     \<exists>s'. wake_expired fuel now s = Inr s' \<and> wake_result now s s'"
proof (induction fuel arbitrary: s)
  case 0
  then show ?case by (simp add: wake_expired.simps wake_result_def due_def)
next
  case (Suc fuel)
  show ?case
  proof (cases "TIMEOUT_LIST s")
    case Nil
    with Suc.prems show ?thesis by (simp add: wake_expired.simps wake_result_def due_def)
  next
    case (Cons t ts)
    then obtain k where k: "tcbs s t = Some k" "wakeup_time k \<noteq> NO_TIMEOUT"
      using sched_invD(4) [OF Suc.prems(1), of t] by auto
    then have st: "tstate k = STOPPED"
      using sched_invD(1) [OF Suc.prems(1) k(1)] by (simp add: tcb_ok_def)
    show ?thesis
    proof (cases "now < wakeup_time k")
      case True
      have late: "now < wk s u" if "u \<in> set (TIMEOUT_LIST s)" for u
        using wk_head_min [OF Suc.prems(1) Cons that] True k by (simp add: wk_simp)
      then have "\<not> due now s u" for u
        by (auto simp: due_def not_le)
      with late Suc.prems(1) have "wake_result now s s"
        by (simp add: wake_result_def)
      moreover have "wake_expired (Suc fuel) now s = Inr s"
        using True Cons k by (subst wake_expired.simps) (simp add: get_tcb_def)
      ultimately show ?thesis by blast
    next
      case False
      let ?s = "made_ready t k s"
      have inv: "sched_inv ?s"
        using sched_inv_made_ready [OF Suc.prems(1) k(1)] st by simp
      have "length (TIMEOUT_LIST ?s) \<le> fuel"
        using Suc.prems(2) Cons by (auto intro: order_trans [OF length_removeAll_less_eq])
      with Suc.IH [OF inv] obtain s' where
        s': "wake_expired fuel now ?s = Inr s'" "wake_result now ?s s'" by blast
      have "due now ?s u \<longleftrightarrow> u \<noteq> t \<and> due now s u" for u
        by (cases "u = t") (auto simp: due_def made_ready_wk)
      moreover have "due now s t"
        using False Cons k(1) by (simp add: due_def wk_simp)
      ultimately have "wake_result now s s'"
        using s'(2) k(1) by (auto simp: wake_result_def)
      moreover have "wake_expired (Suc fuel) now s = Inr s'"
        using False Cons k(1) st s'(1) sched_make_ready_eq [OF Suc.prems(1) k(1)]
        by (subst wake_expired.simps) (simp add: get_tcb_def)
      ultimately show ?thesis by blast
    qed
  qed
qed

lemma first_nonempty_Some:
  "first_nonempty s = Some i \<longleftrightarrow>
     i < MFQ_QUEUES \<and> SCHED s i \<noteq> [] \<and> (\<forall>j < i. SCHED s j = [])"
  unfolding first_nonempty_def find_Some_iff by (auto simp: less_le_trans)

lemma first_nonempty_None:
  "first_nonempty s = None \<longleftrightarrow> (\<forall>j < MFQ_QUEUES. SCHED s j = [])"
  unfolding first_nonempty_def find_None_iff by auto

section \<open>Changing one thread\<close>

lemma on_core_upd [simp]: "on_core u (upd_tcb t f s) = on_core u s"
  by (simp add: on_core_def)

text \<open>
  A thread whose context is dirty can change everything but its phase and its timeout.
\<close>

lemma sched_inv_upd_dirty:
  assumes inv: "sched_inv s" and k: "tcbs s t = Some k" "tphase k = CTX_DIRTY"
    and f: "tphase (f k) = CTX_DIRTY" "tcb_ok (f k)" "wakeup_time (f k) = wakeup_time k"
  shows "sched_inv (upd_tcb t f s)"
proof (rule sched_invI)
  let ?s = "upd_tcb t f s"
  note D = sched_invD [OF inv]
  have w: "wk ?s u = wk s u" for u
    using k f by (simp add: wk_def)
  show "tcb_ok k'" if "tcbs ?s u = Some k'" for u k'
    using that D(1) [of u k'] k f by (auto split: if_splits)
  show "u \<in> set (SCHED ?s i) \<longleftrightarrow>
      (\<exists>k. tcbs ?s u = Some k \<and> schedulable k \<and> unat (priority k) = i \<and> \<not> on_core u ?s)" for i u
    using D(2) [of u i] k f by (cases "u = t") (auto simp: schedulable_def)
  show "distinct (SCHED ?s i)" for i using D(3) by simp
  show "u \<in> set (TIMEOUT_LIST ?s) \<longleftrightarrow> (\<exists>k. tcbs ?s u = Some k \<and> wakeup_time k \<noteq> NO_TIMEOUT)" for u
    using D(4) [of u] k f by (cases "u = t") auto
  show "distinct (TIMEOUT_LIST ?s)" using D(5) by simp
  show "sorted_wrt (\<lambda>a b. wk ?s a \<le> wk ?s b) (TIMEOUT_LIST ?s)" using D(6) by (simp add: w)
  show "tphase k' = CTX_DIRTY \<or> tstate k' = READY" if "on_core u ?s" "tcbs ?s u = Some k'" for u k'
    using that D(7) [of u k'] k f by (auto split: if_splits)
qed

text \<open>The links to the previous and the next context are not part of the invariant.\<close>

lemma sched_inv_upd_links:
  assumes inv: "sched_inv s"
    and f: "\<And>k. tcb_ok (f k) = tcb_ok k" "\<And>k. schedulable (f k) = schedulable k"
      "\<And>k. priority (f k) = priority k" "\<And>k. wakeup_time (f k) = wakeup_time k"
      "\<And>k. tphase (f k) = tphase k" "\<And>k. tstate (f k) = tstate k"
  shows "sched_inv (upd_tcb t f s)"
proof (rule sched_invI)
  let ?s = "upd_tcb t f s"
  note D = sched_invD [OF inv]
  have w: "wk ?s u = wk s u" for u
    using f by (simp add: wk_def split: option.split)
  show "tcb_ok k'" if "tcbs ?s u = Some k'" for u k'
    using that D(1) f by (auto split: if_splits)
  show "u \<in> set (SCHED ?s i) \<longleftrightarrow>
      (\<exists>k. tcbs ?s u = Some k \<and> schedulable k \<and> unat (priority k) = i \<and> \<not> on_core u ?s)" for i u
    using D(2) [of u i] f by (cases "u = t") auto
  show "distinct (SCHED ?s i)" for i using D(3) by simp
  show "u \<in> set (TIMEOUT_LIST ?s) \<longleftrightarrow> (\<exists>k. tcbs ?s u = Some k \<and> wakeup_time k \<noteq> NO_TIMEOUT)" for u
    using D(4) [of u] f by (cases "u = t") auto
  show "distinct (TIMEOUT_LIST ?s)" using D(5) by simp
  show "sorted_wrt (\<lambda>a b. wk ?s a \<le> wk ?s b) (TIMEOUT_LIST ?s)" using D(6) by (simp add: w)
  show "tphase k' = CTX_DIRTY \<or> tstate k' = READY" if "on_core u ?s" "tcbs ?s u = Some k'" for u k'
    using that D(7) [of u] f by (cases "u = t") auto
qed

lemma sched_inv_tnext: "sched_inv s \<Longrightarrow> sched_inv (upd_tcb t (\<lambda>k. k\<lparr>tnext := x\<rparr>) s)"
  by (rule sched_inv_upd_links) (auto simp: tcb_ok_def schedulable_def)

lemma sched_inv_tprev: "sched_inv s \<Longrightarrow> sched_inv (upd_tcb t (\<lambda>k. k\<lparr>tprev := x\<rparr>) s)"
  by (rule sched_inv_upd_links) (auto simp: tcb_ok_def schedulable_def)

section \<open>Priorities\<close>

lemma unat_inc: "unat (p :: u32) < n \<Longrightarrow> n \<le> 2 ^ 32 - 1 \<Longrightarrow> unat (p + 1) = unat p + 1"
  by (simp add: unat_word_ariths)

lemma unat_dec: "(p :: u32) > 0 \<Longrightarrow> unat (p - 1) = unat p - 1"
  by (simp add: unat_minus_one word_gt_0)

lemma lower_priority_view:
  "unat (priority k) < MFQ_QUEUES \<Longrightarrow> unat (priority (lower_priority k)) < MFQ_QUEUES"
  by (auto simp: lower_priority_def MFQ_QUEUES_def unat_inc [of _ 14])

lemma lower_priority_frame [simp]:
  "mutex_contention (lower_priority k) = mutex_contention k"
  "prev_priority (lower_priority k) = prev_priority k"
  "wakeup_time (lower_priority k) = wakeup_time k"
  "tstate (lower_priority k) = tstate k" "tphase (lower_priority k) = tphase k"
  "ttype (lower_priority k) = ttype k"
  by (simp_all add: lower_priority_def)

lemma restore_fairness_frame [simp]:
  "wakeup_time (restore_fairness c k) = wakeup_time k"
  "tstate (restore_fairness c k) = tstate k" "tphase (restore_fairness c k) = tphase k"
  "ttype (restore_fairness c k) = ttype k"
  by (simp_all add: restore_fairness_def)

lemma adjust_priority_frame [simp]:
  "wakeup_time (adjust_priority c k) = wakeup_time k"
  "tstate (adjust_priority c k) = tstate k" "tphase (adjust_priority c k) = tphase k"
  "ttype (adjust_priority c k) = ttype k"
  by (simp_all add: adjust_priority_def split: sched_cause.split)

lemma restore_fairness_ok: "tcb_ok k \<Longrightarrow> tcb_ok (restore_fairness c k)"
  by (auto simp: restore_fairness_def tcb_ok_def)

lemma less_queues_dec: "(p :: u32) > 0 \<Longrightarrow> unat p < n \<Longrightarrow> unat (p - 1) < n"
  by (simp add: unat_dec)

lemma adjust_priority_ok: "tcb_ok k \<Longrightarrow> tcb_ok (adjust_priority c k)"
  using lower_priority_view [of k] lower_priority_view [of "k\<lparr>prev_priority := priority k, mutex_contention := True\<rparr>"]
  by (auto simp: adjust_priority_def tcb_ok_def less_queues_dec split: sched_cause.split)

lemma boost_one_inv:
  assumes inv: "sched_inv s" and i: "Suc i < MFQ_QUEUES"
  shows "sched_inv (boost_one i s)"
proof (cases "SCHED s (Suc i)")
  case Nil
  with inv show ?thesis by (simp add: boost_one_def)
next
  case (Cons t ts)
  note D = sched_invD [OF inv]
  obtain k where k: "tcbs s t = Some k" "schedulable k" "unat (priority k) = Suc i" "\<not> on_core t s"
    using D(2) [of t "Suc i"] Cons by auto
  have pr: "unat (priority k - 1) = i"
    using k(3) by (subst unat_dec) (auto simp: word_gt_0)
  have t: "t \<notin> set ts" "t \<notin> set (SCHED s j)" if "j \<noteq> Suc i" for j
    using D(3) [of "Suc i"] D(2) [of t j] Cons k that by auto
  let ?s = "boost_one i s"
  have f: "tcbs ?s = (tcbs s)(t \<mapsto> k\<lparr>priority := priority k - 1\<rparr>)"
      "SCHED ?s = (SCHED s)(Suc i := ts, i := SCHED s i @ [t])"
      "TIMEOUT_LIST ?s = TIMEOUT_LIST s" "current_thread ?s = current_thread s"
    using Cons k(1) by (simp_all add: boost_one_def Let_def upd_tcb_def)
  have oc: "on_core u ?s = on_core u s" for u
    using f(4) by (simp add: on_core_def)
  have w: "wk ?s u = wk s u" for u
    using f(1) k(1) by (simp add: wk_def)
  show ?thesis
  proof (rule sched_invI)
    show "tcb_ok k'" if "tcbs ?s u = Some k'" for u k'
      using that D(1) [of u k'] D(1) [OF k(1)] i pr by (auto simp: f tcb_ok_def split: if_splits)
    show "u \<in> set (SCHED ?s j) \<longleftrightarrow>
        (\<exists>k. tcbs ?s u = Some k \<and> schedulable k \<and> unat (priority k) = j \<and> \<not> on_core u ?s)" for j u
      using D(2) [of u j] Cons k t [of j] t [of i] pr
      by (cases "u = t"; cases "j = i"; cases "j = Suc i") (auto simp: f oc schedulable_def)
    show "distinct (SCHED ?s j)" for j
      using D(3) [of j] D(3) [of "Suc i"] Cons t [of i] by (auto simp: f)
    show "u \<in> set (TIMEOUT_LIST ?s) \<longleftrightarrow> (\<exists>k. tcbs ?s u = Some k \<and> wakeup_time k \<noteq> NO_TIMEOUT)" for u
      using D(4) [of u] k(1) by (auto simp: f)
    show "distinct (TIMEOUT_LIST ?s)" using D(5) by (simp add: f)
    show "sorted_wrt (\<lambda>a b. wk ?s a \<le> wk ?s b) (TIMEOUT_LIST ?s)" using D(6) by (simp add: f w)
    show "tphase k' = CTX_DIRTY \<or> tstate k' = READY" if "on_core u ?s" "tcbs ?s u = Some k'" for u k'
      using that D(7) [of u k'] k(4) by (auto simp: f oc split: if_splits)
  qed
qed

text \<open>What a boost does to a single thread: at most its priority changes.\<close>

lemma boost_one_tcb:
  "tcbs (boost_one i s) t =
     (if SCHED s (Suc i) \<noteq> [] \<and> t = hd (SCHED s (Suc i))
      then map_option (\<lambda>k. k\<lparr>priority := priority k - 1\<rparr>) (tcbs s t) else tcbs s t)"
  by (simp add: boost_one_def Let_def split: list.split)

lemma boost_one_frame [simp]:
  "current_thread (boost_one i s) = current_thread s"
  "timeslices (boost_one i s) = timeslices s"
  "TIMEOUT_LIST (boost_one i s) = TIMEOUT_LIST s"
  by (simp_all add: boost_one_def Let_def split: list.split)

lemma fold_boost_inv:
  "sched_inv s \<Longrightarrow> \<forall>i \<in> set is. Suc i < MFQ_QUEUES \<Longrightarrow> sched_inv (fold boost_one is s)"
  by (induction "is" arbitrary: s) (auto simp: boost_one_inv)

lemma fold_boost_frame:
  "current_thread (fold boost_one is s) = current_thread s"
  "timeslices (fold boost_one is s) = timeslices s"
  "TIMEOUT_LIST (fold boost_one is s) = TIMEOUT_LIST s"
  by (induction "is" arbitrary: s) auto

lemma sched_boost_inv: "sched_inv s \<Longrightarrow> sched_inv (sched_boost s)"
  unfolding sched_boost_def by (rule fold_boost_inv) (auto simp: MFQ_QUEUES_def)

text \<open>Threads that are not schedulable are not touched by a boost.\<close>

lemma fold_boost_unqueued:
  "sched_inv s \<Longrightarrow> \<forall>i \<in> set is. Suc i < MFQ_QUEUES \<Longrightarrow> tcbs s t = Some k \<Longrightarrow>
     \<not> (schedulable k \<and> \<not> on_core t s) \<Longrightarrow> tcbs (fold boost_one is s) t = Some k"
proof (induction "is" arbitrary: s)
  case Nil
  then show ?case by simp
next
  case (Cons i "is")
  have "t \<notin> set (SCHED s (Suc i))"
    using sched_invD(2) [OF Cons.prems(1), of t "Suc i"] Cons.prems(3,4) by auto
  then have "tcbs (boost_one i s) t = Some k"
    using Cons.prems(3) by (auto simp: boost_one_tcb)
  moreover have "on_core t (boost_one i s) = on_core t s"
    by (simp add: on_core_def)
  ultimately show ?case
    using Cons.prems by (auto intro!: Cons.IH boost_one_inv)
qed


section \<open>The switch of contexts\<close>

lemma sched_inv_switch:
  assumes inv: "sched_inv s" and cur: "tcbs s (current_thread s c) = Some kc" "tphase kc = CTX_DIRTY"
    and nxt: "tcbs s n = Some kn" "tphase kn = CTX_DIRTY \<or> tstate kn = READY"
    and q: "\<And>i. q i = removeAll n (SCHED s i)"
  shows "sched_inv (s\<lparr>SCHED := q, current_thread := (current_thread s)(c := n)\<rparr>)"
proof (rule sched_invI)
  let ?s = "s\<lparr>SCHED := q, current_thread := (current_thread s)(c := n)\<rparr>"
  note D = sched_invD [OF inv]
  have n: "on_core n ?s" by (auto simp: on_core_def)
  have down: "on_core u ?s \<Longrightarrow> u \<noteq> n \<Longrightarrow> on_core u s" for u
    by (auto simp: on_core_def split: if_splits)
  have up: "on_core u s \<Longrightarrow> u \<noteq> current_thread s c \<Longrightarrow> on_core u ?s" for u
    by (auto simp: on_core_def)
  have wk: "wk ?s u = wk s u" for u by (simp add: wk_def)
  show "tcb_ok k'" if "tcbs ?s u = Some k'" for u k' using that D(1) by simp
  show "u \<in> set (SCHED ?s i) \<longleftrightarrow>
      (\<exists>k. tcbs ?s u = Some k \<and> schedulable k \<and> unat (priority k) = i \<and> \<not> on_core u ?s)" for i u
  proof (cases "u = n \<or> u = current_thread s c")
    case True
    have "u \<notin> set (SCHED s i)" if "u = current_thread s c"
      using that cur D(2) [of u i] by (auto simp: schedulable_def)
    with True cur n show ?thesis by (auto simp: q schedulable_def)
  next
    case False
    then have "on_core u ?s \<longleftrightarrow> on_core u s" using down up by blast
    with False D(2) [of u i] show ?thesis by (simp add: q)
  qed
  show "distinct (SCHED ?s i)" for i using D(3) [of i] by (simp add: q distinct_removeAll)
  show "u \<in> set (TIMEOUT_LIST ?s) \<longleftrightarrow> (\<exists>k. tcbs ?s u = Some k \<and> wakeup_time k \<noteq> NO_TIMEOUT)" for u
    using D(4) [of u] by simp
  show "distinct (TIMEOUT_LIST ?s)" using D(5) by simp
  show "sorted_wrt (\<lambda>a b. wk ?s a \<le> wk ?s b) (TIMEOUT_LIST ?s)" using D(6) by (simp add: wk)
  show "tphase k' = CTX_DIRTY \<or> tstate k' = READY" if "on_core u ?s" "tcbs ?s u = Some k'" for u k'
    using that D(7) [of u k'] down [of u] nxt by (cases "u = n") auto
qed

text \<open>What a pop takes off the queues: the head of the first one that is not empty.\<close>

lemma pop_queue_cases:
  obtains "pop_queue s = (None, s)" "\<forall>j < MFQ_QUEUES. SCHED s j = []"
  | i t ts where "pop_queue s = (Some t, s\<lparr>SCHED := (SCHED s)(i := ts)\<rparr>)" "i < MFQ_QUEUES"
      "SCHED s i = t # ts" "\<forall>j < i. SCHED s j = []"
proof (cases "first_nonempty s")
  case None
  then have "pop_queue s = (None, s)" by (simp add: pop_queue_def)
  with None that(1) show ?thesis by (simp add: first_nonempty_None)
next
  case (Some i)
  then have i: "i < MFQ_QUEUES" "SCHED s i \<noteq> []" "\<forall>j < i. SCHED s j = []"
    by (simp_all add: first_nonempty_Some)
  then obtain t ts where "SCHED s i = t # ts" by (cases "SCHED s i") auto
  with i Some that(2) [of t i ts] show ?thesis by (simp add: pop_queue_def)
qed

lemma queues_without_head:
  assumes "sched_inv s" "SCHED s i = t # ts"
  shows "((SCHED s)(i := ts)) j = removeAll t (SCHED s j)"
proof -
  note D = sched_invD [OF assms(1)]
  have "t \<notin> set ts" using D(3) [of i] assms(2) by simp
  moreover have "t \<notin> set (SCHED s j)" if "j \<noteq> i"
    using D(2) [of t j] D(2) [of t i] assms(2) that by auto
  ultimately show ?thesis using assms(2) by (auto simp: removeAll_id)
qed

text \<open>
  The state between \<^verbatim>\<open>cpu_swap_context\<close> and \<open>gain\<close>: the thread that left is still dirty and
  no longer on the core, unless it is the one that goes on.
\<close>

definition swapped :: "nat \<Rightarrow> tcbp \<Rightarrow> sched \<Rightarrow> bool" where
  "swapped c old s \<longleftrightarrow> sched_inv s \<and>
     (\<exists>kc. tcbs s (current_thread s c) = Some kc \<and> tprev kc = Some old \<and>
           (tstate kc = READY \<or> tstate kc = RUNNING)) \<and>
     (current_thread s c \<noteq> old \<longrightarrow> \<not> on_core old s \<and>
        (\<exists>ko. tcbs s old = Some ko \<and> tphase ko = CTX_DIRTY \<and>
              (tstate ko = READY \<or> tstate ko = STOPPED \<or> tstate ko = EXITED)))"

text \<open>The result of \<open>gain\<close>, from the block \<open>ko\<close> of the thread that left.\<close>

definition retired :: "tcbp \<Rightarrow> tcb \<Rightarrow> sched \<Rightarrow> sched" where
  "retired t k s =
     (case tstate k of
        EXITED \<Rightarrow> release_TCB t s
      | READY \<Rightarrow>
          if ttype k \<noteq> IDLE_THREAD then
            s\<lparr>tcbs := (tcbs s)(t \<mapsto> k\<lparr>tphase := CTX_CLEAN\<rparr>),
              SCHED := (SCHED s)(unat (priority k) := SCHED s (unat (priority k)) @ [t]),
              vm := cpu_core_restart_one (vm s)\<rparr>
          else s\<lparr>tcbs := (tcbs s)(t \<mapsto> k\<lparr>tphase := CTX_CLEAN\<rparr>)\<rparr>
      | _ \<Rightarrow> s\<lparr>tcbs := (tcbs s)(t \<mapsto> k\<lparr>tphase := CTX_CLEAN\<rparr>)\<rparr>)"

lemma retired_frame [simp]:
  "current_thread (retired t k s) = current_thread s"
  "timeslices (retired t k s) = timeslices s"
  "TIMEOUT_LIST (retired t k s) = TIMEOUT_LIST s"
  "on_core u (retired t k s) = on_core u s"
  "u \<noteq> t \<Longrightarrow> tcbs (retired t k s) u = tcbs s u"
  "tcbs (retired t k s) t = (if tstate k = EXITED then None else Some (k\<lparr>tphase := CTX_CLEAN\<rparr>))"
  "SCHED (retired t k s) i =
     (if tstate k = READY \<and> ttype k \<noteq> IDLE_THREAD \<and> i = unat (priority k)
      then SCHED s i @ [t] else SCHED s i)"
  by (auto simp: retired_def release_TCB_def on_core_def split: thread_state.split)

lemma sched_inv_retired:
  assumes inv: "sched_inv s" and k: "tcbs s t = Some k" "tphase k = CTX_DIRTY"
    and st: "tstate k = READY \<or> tstate k = STOPPED \<or> tstate k = EXITED" and oc: "\<not> on_core t s"
  shows "sched_inv (retired t k s)"
proof (rule sched_invI)
  let ?s = "retired t k s"
  note D = sched_invD [OF inv]
  have noq: "t \<notin> set (SCHED s i)" for i
    using D(2) [of t i] k by (auto simp: schedulable_def)
  have kok: "tcb_ok k" using D(1) k by blast
  have w: "wk ?s u = wk s u" if "u \<in> set (TIMEOUT_LIST s)" for u
    using that D(4) [of u] k kok by (cases "u = t") (auto simp: wk_def tcb_ok_def)
  show "tcb_ok k'" if "tcbs ?s u = Some k'" for u k'
    using that D(1) [of u k'] kok st by (cases "u = t") (auto simp: tcb_ok_def split: if_splits)
  show "u \<in> set (SCHED ?s i) \<longleftrightarrow>
      (\<exists>k. tcbs ?s u = Some k \<and> schedulable k \<and> unat (priority k) = i \<and> \<not> on_core u ?s)" for i u
  proof (cases "u = t")
    case True
    then show ?thesis using noq [of i] oc st
      by (cases "ttype k") (auto simp: schedulable_def)
  next
    case False
    then show ?thesis using D(2) [of u i] by auto
  qed
  show "distinct (SCHED ?s i)" for i using D(3) [of i] noq [of i] by auto
  show "u \<in> set (TIMEOUT_LIST ?s) \<longleftrightarrow> (\<exists>k. tcbs ?s u = Some k \<and> wakeup_time k \<noteq> NO_TIMEOUT)" for u
    using D(4) [of u] k kok by (cases "u = t") (auto simp: tcb_ok_def)
  show "distinct (TIMEOUT_LIST ?s)" using D(5) by simp
  have "sorted_wrt (\<lambda>a b. wk ?s a \<le> wk ?s b) (TIMEOUT_LIST s)"
    using D(6) by (rule sorted_wrt_mono_rel [rotated]) (simp add: w)
  then show "sorted_wrt (\<lambda>a b. wk ?s a \<le> wk ?s b) (TIMEOUT_LIST ?s)" by simp
  show "tphase k' = CTX_DIRTY \<or> tstate k' = READY" if "on_core u ?s" "tcbs ?s u = Some k'" for u k'
    using that D(7) [of u k'] oc by (cases "u = t") auto
qed


lemma sched_inv_run_current:
  assumes inv: "sched_inv s" and k: "tcbs s t = Some k" and oc: "on_core t s"
    and st: "tstate k = READY \<or> tstate k = RUNNING"
  shows "sched_inv (upd_tcb t (\<lambda>k. k\<lparr>tstate := RUNNING, tphase := CTX_DIRTY\<rparr>) s)"
proof (rule sched_invI)
  let ?s = "upd_tcb t (\<lambda>k. k\<lparr>tstate := RUNNING, tphase := CTX_DIRTY\<rparr>) s"
  note D = sched_invD [OF inv]
  have kok: "tcb_ok k" using D(1) k by blast
  have w: "wk ?s u = wk s u" for u using k by (simp add: wk_def)
  have "wakeup_time k = NO_TIMEOUT" using kok st by (auto simp: tcb_ok_def)
  then have "tcb_ok (k\<lparr>tstate := RUNNING, tphase := CTX_DIRTY\<rparr>)"
    using kok st by (simp add: tcb_ok_def)
  then show "tcb_ok k'" if "tcbs ?s u = Some k'" for u k'
    using that D(1) [of u k'] k by (cases "u = t") auto
  show "u \<in> set (SCHED ?s i) \<longleftrightarrow>
      (\<exists>k. tcbs ?s u = Some k \<and> schedulable k \<and> unat (priority k) = i \<and> \<not> on_core u ?s)" for i u
    using D(2) [of u i] k oc by (cases "u = t") auto
  show "distinct (SCHED ?s i)" for i using D(3) [of i] by simp
  show "u \<in> set (TIMEOUT_LIST ?s) \<longleftrightarrow> (\<exists>k. tcbs ?s u = Some k \<and> wakeup_time k \<noteq> NO_TIMEOUT)" for u
    using D(4) [of u] k by (cases "u = t") auto
  show "distinct (TIMEOUT_LIST ?s)" using D(5) by simp
  show "sorted_wrt (\<lambda>a b. wk ?s a \<le> wk ?s b) (TIMEOUT_LIST ?s)" using D(6) by (simp add: w)
  show "tphase k' = CTX_DIRTY \<or> tstate k' = READY" if "on_core u ?s" "tcbs ?s u = Some k'" for u k'
    using that D(7) [of u k'] by (cases "u = t") auto
qed

text \<open>Once the switch is made, \<open>gain\<close> cannot fail, and these are its effects.\<close>

definition gained :: "nat \<Rightarrow> tcbp \<Rightarrow> sched \<Rightarrow> sched \<Rightarrow> bool" where
  "gained c old s s' \<longleftrightarrow>
     sched_inv s' \<and> current_thread s' = current_thread s \<and> timeslices s' = timeslices s + 1 \<and>
     TIMEOUT_LIST s' = TIMEOUT_LIST s \<and>
     tcbs s' (current_thread s c) =
       map_option (\<lambda>k. k\<lparr>tstate := RUNNING, tphase := CTX_DIRTY\<rparr>) (tcbs s (current_thread s c)) \<and>
     (old \<noteq> current_thread s c \<longrightarrow>
        tcbs s' old = (case tcbs s old of None \<Rightarrow> None | Some k \<Rightarrow>
          if tstate k = EXITED then None else Some (k\<lparr>tphase := CTX_CLEAN\<rparr>))) \<and>
     (\<forall>u. u \<noteq> old \<longrightarrow> u \<noteq> current_thread s c \<longrightarrow> tcbs s' u = tcbs s u)"

lemma gain_ok:
  assumes sw: "swapped c old s"
  shows "\<exists>s'. gain c s = Inr s' \<and> gained c old s s'"
proof -
  let ?n = "current_thread s c" and ?s0 = "s\<lparr>timeslices := timeslices s + 1\<rparr>"
  let ?run = "\<lambda>k. k\<lparr>tstate := RUNNING, tphase := CTX_DIRTY\<rparr>"
  let ?s1 = "upd_tcb ?n ?run ?s0"
  from sw obtain kc where inv: "sched_inv s" and kc: "tcbs s ?n = Some kc" "tprev kc = Some old"
      "tstate kc = READY \<or> tstate kc = RUNNING"
    by (auto simp: swapped_def)
  have inv1: "sched_inv ?s1"
    using inv kc by (intro sched_inv_run_current [of _ _ kc]) (auto simp: on_core_def)
  show ?thesis
  proof (cases "old = ?n")
    case True
    with kc inv1 show ?thesis
      by (auto simp: gain_def get_tcb_def gained_def Let_def)
  next
    case False
    then obtain ko where ko: "tcbs s old = Some ko" "tphase ko = CTX_DIRTY"
        "tstate ko = READY \<or> tstate ko = STOPPED \<or> tstate ko = EXITED" "\<not> on_core old s"
      using sw by (auto simp: swapped_def)
    have prio: "unat (priority ko) < MFQ_QUEUES"
      using sched_invD(1) [OF inv ko(1)] by (simp add: tcb_ok_def)
    have "sched_inv (retired old ko ?s1)"
      using ko False by (intro sched_inv_retired inv1) (auto simp: on_core_def)
    moreover have "gain c s = Inr (set_core_timer c (QUANTUM * ucast (priority kc + 1)) (retired old ko ?s1))"
      using kc ko False prio
      by (cases "tstate ko")
         (auto simp: gain_def get_tcb_def Let_def retired_def sched_queue_add_def upd_tcb_def release_TCB_def)
    ultimately show ?thesis
      using kc ko False by (auto simp: gained_def)
  qed
qed

text \<open>The step up to the switch.\<close>

definition yield_ready :: "nat \<Rightarrow> sched \<Rightarrow> bool" where
  "yield_ready c s \<longleftrightarrow> sched_inv s \<and>
     (\<exists>k. tcbs s (current_thread s c) = Some k \<and> tphase k = CTX_DIRTY \<and> tstate k \<noteq> INIT) \<and>
     (\<forall>c'. c' \<noteq> c \<longrightarrow> current_thread s c' \<noteq> current_thread s c \<and> current_thread s c' \<noteq> Idle c) \<and>
     (\<exists>k. tcbs s (Idle c) = Some k \<and> ttype k = IDLE_THREAD)"

lemma wake_result_keeps:
  assumes "wake_result now s s'" "tcbs s t = Some k"
  obtains k' where "tcbs s' t = Some k'" "tphase k' = tphase k" "ttype k' = ttype k"
    "tstate k' = tstate k \<or> tstate k' = READY"
proof (cases "due now s t")
  case True
  with assms that show ?thesis by (auto simp: wake_result_def)
next
  case False
  with assms have "tcbs s' t = Some k" by (simp add: wake_result_def)
  with that show ?thesis by blast
qed

lemma idle_tcb:
  "sched_inv s \<Longrightarrow> tcbs s t = Some k \<Longrightarrow> ttype k = IDLE_THREAD \<Longrightarrow>
     tphase k = CTX_DIRTY \<or> tstate k = READY"
  using sched_invD(1) [of s t k] by (auto simp: tcb_ok_def)


text \<open>The block of the leaving thread after the two switches of \<^verbatim>\<open>yield\<close>.\<close>

definition leaving :: "sched_cause \<Rightarrow> tcb \<Rightarrow> tcb" where
  "leaving cause k = (adjust_priority cause (restore_fairness cause k))
     \<lparr>tstate := (if tstate k = RUNNING then READY else tstate k)\<rparr>"

lemma leaving_frame [simp]:
  "tphase (leaving cause k) = tphase k" "wakeup_time (leaving cause k) = wakeup_time k"
  "ttype (leaving cause k) = ttype k"
  "tstate (leaving cause k) = (if tstate k = RUNNING then READY else tstate k)"
  by (simp_all add: leaving_def)

lemma leaving_ok:
  assumes "tcb_ok k" "tphase k = CTX_DIRTY"
  shows "tcb_ok (leaving cause k)"
  using adjust_priority_ok [OF restore_fairness_ok [OF assms(1)], of cause cause] assms(2)
  by (auto simp: leaving_def tcb_ok_def)

definition after_priority :: "nat \<Rightarrow> sched_cause \<Rightarrow> sched \<Rightarrow> sched" where
  "after_priority c cause s =
     (let s1 = upd_tcb (current_thread s c) (leaving cause) (set_core_timer c 0 s)
      in if timeslices s1 \<ge> MFQ_TIMESLICES then sched_boost (s1\<lparr>timeslices := 0\<rparr>) else s1)"

lemma sched_boost_frame [simp]:
  "current_thread (sched_boost s) = current_thread s"
  "TIMEOUT_LIST (sched_boost s) = TIMEOUT_LIST s"
  by (simp_all add: sched_boost_def fold_boost_frame)

lemma sched_boost_dirty:
  assumes "sched_inv s" "tcbs s t = Some k" "tphase k = CTX_DIRTY"
  shows "tcbs (sched_boost s) t = Some k"
  unfolding sched_boost_def
  using assms by (intro fold_boost_unqueued) (auto simp: MFQ_QUEUES_def schedulable_def)

lemma boost_one_keeps:
  "tcbs s t = Some k \<Longrightarrow> \<exists>p. tcbs (boost_one i s) t = Some (k\<lparr>priority := p\<rparr>)"
  by (cases k) (auto simp: boost_one_tcb)

lemma sched_boost_keeps:
  "tcbs s t = Some k \<Longrightarrow> \<exists>p. tcbs (sched_boost s) t = Some (k\<lparr>priority := p\<rparr>)"
proof -
  have "tcbs s t = Some k \<Longrightarrow> \<exists>p. tcbs (fold boost_one is s) t = Some (k\<lparr>priority := p\<rparr>)" for "is" s k
  proof (induction "is" arbitrary: s k)
    case Nil
    then show ?case by (cases k) auto
  next
    case (Cons i "is")
    from boost_one_keeps [OF Cons.prems] obtain p where
      "tcbs (boost_one i s) t = Some (k\<lparr>priority := p\<rparr>)" ..
    from Cons.IH [OF this] show ?case by simp
  qed
  then show "tcbs s t = Some k \<Longrightarrow> ?thesis" by (simp add: sched_boost_def)
qed

lemma after_priority_ok:
  fixes cause :: sched_cause
  assumes y: "yield_ready c s"
    and k: "tcbs s (current_thread s c) = Some k"
  shows "sched_inv (after_priority c cause s)"
    and "current_thread (after_priority c cause s) = current_thread s"
    and "tcbs (after_priority c cause s) (current_thread s c) = Some (leaving cause k)"
proof -
  let ?t = "current_thread s c"
  let ?s1 = "upd_tcb ?t (leaving cause) (set_core_timer c 0 s)"
  have inv: "sched_inv s" and dirty: "tphase k = CTX_DIRTY"
    using y k by (auto simp: yield_ready_def)
  have inv1: "sched_inv ?s1"
    using inv k dirty leaving_ok [OF sched_invD(1) [OF inv k]]
    by (intro sched_inv_upd_dirty [of _ _ k]) simp_all
  show "sched_inv (after_priority c cause s)"
    using inv1 by (simp add: after_priority_def Let_def sched_boost_inv)
  show "current_thread (after_priority c cause s) = current_thread s"
    by (simp add: after_priority_def Let_def)
  have "tcbs (sched_boost (?s1\<lparr>timeslices := 0\<rparr>)) ?t = Some (leaving cause k)"
    using inv1 k dirty by (intro sched_boost_dirty) simp_all
  then show "tcbs (after_priority c cause s) ?t = Some (leaving cause k)"
    using k by (simp add: after_priority_def Let_def)
qed

lemma after_priority_keeps:
  assumes "tcbs s t = Some k" "t \<noteq> current_thread s c"
  shows "\<exists>p. tcbs (after_priority c cause s) t = Some (k\<lparr>priority := p\<rparr>)"
proof -
  let ?s1 = "upd_tcb (current_thread s c) (leaving cause) (set_core_timer c 0 s)"
  have "tcbs (?s1\<lparr>timeslices := 0\<rparr>) t = Some k" using assms by simp
  from sched_boost_keeps [OF this] have "\<exists>p. tcbs (sched_boost (?s1\<lparr>timeslices := 0\<rparr>)) t = Some (k\<lparr>priority := p\<rparr>)" .
  moreover have "\<exists>p. k = k\<lparr>priority := p\<rparr>" by (rule exI [of _ "priority k"]) simp
  ultimately show ?thesis using assms
    unfolding after_priority_def Let_def by (simp split: if_split)
qed

definition enter_thread :: "nat \<Rightarrow> tcbp \<Rightarrow> tcbp \<Rightarrow> sched \<Rightarrow> sched" where
  "enter_thread c old n s =
     (let s5 = upd_tcb n (\<lambda>k. k\<lparr>tprev := Some old\<rparr>) (upd_tcb old (\<lambda>k. k\<lparr>tnext := Some n\<rparr>) s)
      in s5\<lparr>current_thread := (current_thread s5)(c := n)\<rparr>)"

lemma yield_switch_eq:
  assumes k: "tcbs s (current_thread s c) = Some k" and st: "tstate k \<noteq> INIT"
  shows "yield_switch c cause s =
     bindE (sched_queue_select (after_priority c cause s)) (\<lambda>(sel, s3).
       Inr (enter_thread c (current_thread s c)
         (case sel of Some t \<Rightarrow> t
          | None \<Rightarrow> if tstate k = RUNNING \<or> tstate k = READY then current_thread s c else Idle c) s3))"
proof -
  have cr: "current_ready (tstate k) = Inr (tstate k = RUNNING \<or> tstate k = READY)"
    using st by (cases "tstate k") (auto simp: current_ready_def)
  have up: "upd_tcb (current_thread s c) (leaving cause) (set_core_timer c 0 s) =
      upd_tcb (current_thread s c) (\<lambda>_. (adjust_priority cause (restore_fairness cause k))
        \<lparr>tstate := (if tstate k = RUNNING then READY else tstate k)\<rparr>) (set_core_timer c 0 s)"
    using k by (simp add: upd_tcb_def leaving_def)
  show ?thesis
    using k cr
    by (simp add: yield_switch_def get_tcb_def after_priority_def enter_thread_def Let_def up
        cong: option.case_cong)
qed

lemma select_ok:
  assumes inv: "sched_inv s"
  obtains s1 where "wake_expired (length (TIMEOUT_LIST s)) (bios_clock (vm s)) s = Inr s1"
    "wake_result (bios_clock (vm s)) s s1" "sched_queue_select s = Inr (pop_queue s1)"
  using wake_expired_ok [OF inv order_refl, of "bios_clock (vm s)"]
  by (auto simp: sched_queue_select_def)

text \<open>
  What the switch leaves in place: the scheduler invariant, and the entering thread linked
  back to the one that left.
\<close>

lemma swapped_enter:
  assumes inv: "sched_inv s" and old: "tcbs s (current_thread s c) = Some ko" "tphase ko = CTX_DIRTY"
      "tstate ko = READY \<or> tstate ko = STOPPED \<or> tstate ko = EXITED"
    and uniq: "\<forall>c'. c' \<noteq> c \<longrightarrow> current_thread s c' \<noteq> current_thread s c"
    and n: "tcbs s n = Some kn" "tstate kn = READY \<or> tstate kn = RUNNING"
      "tphase kn = CTX_DIRTY \<or> tstate kn = READY"
    and q: "\<And>i. q i = removeAll n (SCHED s i)"
  shows "swapped c (current_thread s c) (enter_thread c (current_thread s c) n (s\<lparr>SCHED := q\<rparr>))"
proof -
  let ?o = "current_thread s c"
  let ?s1 = "s\<lparr>SCHED := q, current_thread := (current_thread s)(c := n)\<rparr>"
  let ?s2 = "upd_tcb n (\<lambda>k. k\<lparr>tprev := Some ?o\<rparr>) (upd_tcb ?o (\<lambda>k. k\<lparr>tnext := Some n\<rparr>) ?s1)"
  have eq: "enter_thread c ?o n (s\<lparr>SCHED := q\<rparr>) = ?s2"
    by (simp add: enter_thread_def upd_tcb_def)
  have "sched_inv ?s1"
    using inv old(1,2) n(1,3) q by (rule sched_inv_switch)
  then have "sched_inv ?s2"
    by (intro sched_inv_tprev sched_inv_tnext)
  moreover have "\<not> on_core ?o ?s2" if "n \<noteq> ?o"
    using that uniq by (auto simp: on_core_def)
  ultimately show ?thesis
    unfolding eq using old n by (auto simp: swapped_def)
qed

text \<open>
  The whole of \<^verbatim>\<open>yield\<close> up to the switch: it never fails, whatever the cause, and \<open>gain\<close> can
  take over.
\<close>

lemma yield_switch_ok:
  assumes y: "yield_ready c s"
  shows "\<exists>s'. yield_switch c cause s = Inr s' \<and> swapped c (current_thread s c) s'"
proof -
  let ?o = "current_thread s c" and ?a = "after_priority c cause s"
  from y obtain k where inv: "sched_inv s" and k: "tcbs s ?o = Some k" "tphase k = CTX_DIRTY"
      "tstate k \<noteq> INIT"
    and uniq: "\<forall>c'. c' \<noteq> c \<longrightarrow> current_thread s c' \<noteq> ?o \<and> current_thread s c' \<noteq> Idle c"
    by (auto simp: yield_ready_def)
  from y obtain ki where ki: "tcbs s (Idle c) = Some ki" "ttype ki = IDLE_THREAD"
    by (auto simp: yield_ready_def)
  note A = after_priority_ok [OF y k(1), of cause]
  obtain s1 where s1: "wake_result (bios_clock (vm ?a)) ?a s1" "sched_queue_select ?a = Inr (pop_queue s1)"
    using select_ok [OF A(1)] by blast
  have inv1: "sched_inv s1" and ct: "current_thread s1 = current_thread s"
    using s1(1) A(2) by (simp_all add: wake_result_def)
  from wake_result_keeps [OF s1(1) A(3)]
  obtain ko where ko': "tcbs s1 ?o = Some ko" "tphase ko = tphase (leaving cause k)"
      "tstate ko = tstate (leaving cause k) \<or> tstate ko = READY" by blast
  have ko: "tcbs s1 ?o = Some ko" "tphase ko = CTX_DIRTY"
      "tstate ko = READY \<or> tstate ko = STOPPED \<or> tstate ko = EXITED"
      "tstate k = RUNNING \<or> tstate k = READY \<Longrightarrow> tstate ko = READY"
    using ko' k(2,3) by (cases "tstate k"; auto)+
  have notin: "removeAll u (SCHED s1 i) = SCHED s1 i" if "tcbs s1 u = Some ku"
      "tphase ku = CTX_DIRTY \<or> ttype ku = IDLE_THREAD" for u ku i
    using that sched_invD(2) [OF inv1, of u i] by (auto simp: removeAll_id schedulable_def)
  have uq: "\<forall>c'. c' \<noteq> c \<longrightarrow> current_thread s1 c' \<noteq> current_thread s1 c"
    using uniq ct by simp
  have go: "swapped c ?o (enter_thread c ?o n (s1\<lparr>SCHED := q\<rparr>))"
    if "tcbs s1 n = Some kn" "tstate kn = READY \<or> tstate kn = RUNNING"
      "tphase kn = CTX_DIRTY \<or> tstate kn = READY" "\<And>i. q i = removeAll n (SCHED s1 i)" for n kn q
    using swapped_enter [OF inv1, of c ko n kn q] ko uq that by (simp add: ct)
  have sel: "yield_switch c cause s = Inr (enter_thread c ?o
      (case fst (pop_queue s1) of Some t \<Rightarrow> t
       | None \<Rightarrow> if tstate k = RUNNING \<or> tstate k = READY then ?o else Idle c) (snd (pop_queue s1)))"
    using yield_switch_eq [OF k(1,3)] s1(2) by (simp add: case_prod_unfold)
  show ?thesis
  proof (cases rule: pop_queue_cases [of s1])
    case 1
    show ?thesis
    proof (cases "tstate k = RUNNING \<or> tstate k = READY")
      case True
      then show ?thesis using sel 1 go [of ?o ko "SCHED s1"] ko notin [of ?o ko] by auto
    next
      case False
      have "Idle c \<noteq> ?o"
        using False ki k sched_invD(1) [OF inv k(1)] by (auto simp: tcb_ok_def)
      then obtain p where "tcbs ?a (Idle c) = Some (ki\<lparr>priority := p\<rparr>)"
        using after_priority_keeps [OF ki(1)] by blast
      then obtain ka where ka: "tcbs ?a (Idle c) = Some ka" "ttype ka = IDLE_THREAD"
        using ki by simp
      then obtain kn where kn: "tcbs s1 (Idle c) = Some kn" "ttype kn = IDLE_THREAD"
        using wake_result_keeps [OF s1(1)] by metis
      then have "tstate kn = READY \<or> tstate kn = RUNNING"
        using sched_invD(1) [OF inv1] by (auto simp: tcb_ok_def)
      then show ?thesis
        using sel 1 False go [of "Idle c" kn "SCHED s1"] kn idle_tcb [OF inv1 kn] notin [of "Idle c" kn]
        by auto
    qed
  next
    case (2 i t ts)
    then obtain kt where "tcbs s1 t = Some kt" "schedulable kt"
      using sched_invD(2) [OF inv1, of t i] by auto
    then show ?thesis
      using sel 2 go [of t kt "(SCHED s1)(i := ts)"] queues_without_head [OF inv1 2(3)]
      by (auto simp: schedulable_def)
  qed
qed


section \<open>Going to sleep\<close>

lemma timeout_insert_eq:
  "\<forall>u \<in> set l. tcbs s u \<noteq> None \<Longrightarrow> timeout_insert s w t l =
     Inr (takeWhile (\<lambda>u. wk s u \<le> w) l @ t # dropWhile (\<lambda>u. wk s u \<le> w) l)"
  by (induction l) (auto simp: get_tcb_def wk_def not_le)

lemma sorted_insert_point:
  assumes "sorted_wrt (\<lambda>a b. f a \<le> (f b :: 'b :: linorder)) l"
  shows "sorted_wrt (\<lambda>a b. f a \<le> f b) (takeWhile (\<lambda>u. f u \<le> f t) l @ t # dropWhile (\<lambda>u. f u \<le> f t) l)"
  using assms
proof (induction l)
  case Nil
  then show ?case by simp
next
  case (Cons a l)
  show ?case
  proof (cases "f a \<le> f t")
    case True
    have "f a \<le> f u" if "u \<in> set (takeWhile (\<lambda>u. f u \<le> f t) l) \<union> set (dropWhile (\<lambda>u. f u \<le> f t) l)" for u
      using that Cons.prems by (auto dest: set_takeWhileD set_dropWhileD)
    with True Cons show ?thesis by auto
  next
    case False
    have "f t \<le> f u" if "u \<in> set l" for u
      using False Cons.prems that by (meson linear list.set_intros(1) order_trans sorted_wrt.simps(2))
    with False Cons.prems show ?thesis by auto
  qed
qed

text \<open>The state a sleeping thread leaves behind.\<close>

definition slept :: "tcbp \<Rightarrow> tcb \<Rightarrow> u64 \<Rightarrow> sched \<Rightarrow> sched" where
  "slept t k w s =
     (let s1 = s\<lparr>tcbs := (tcbs s)(t \<mapsto> k\<lparr>tstate := STOPPED, wakeup_time := w\<rparr>)\<rparr>
      in if w = NO_TIMEOUT then s1
         else s1\<lparr>TIMEOUT_LIST := takeWhile (\<lambda>u. wk s1 u \<le> w) (TIMEOUT_LIST s) @ t #
                   dropWhile (\<lambda>u. wk s1 u \<le> w) (TIMEOUT_LIST s)\<rparr>)"

definition deadline :: "u64 \<Rightarrow> sched \<Rightarrow> u64" where
  "deadline timeout s = (if timeout = NO_TIMEOUT then NO_TIMEOUT else bios_clock (vm s) + timeout)"

lemma slept_simps [simp]:
  "tcbs (slept t k w s) = (tcbs s)(t \<mapsto> k\<lparr>tstate := STOPPED, wakeup_time := w\<rparr>)"
  "SCHED (slept t k w s) = SCHED s" "current_thread (slept t k w s) = current_thread s"
  "vm (slept t k w s) = vm s" "timeslices (slept t k w s) = timeslices s"
  by (simp_all add: slept_def Let_def)

lemma set_slept: "set (TIMEOUT_LIST (slept t k w s)) =
    (if w = NO_TIMEOUT then set (TIMEOUT_LIST s) else insert t (set (TIMEOUT_LIST s)))"
proof -
  have "set (takeWhile P l) \<union> set (dropWhile P l) = set l" for P and l :: "tcbp list"
    by (metis set_append takeWhile_dropWhile_id)
  then show ?thesis by (auto simp: slept_def Let_def)
qed

lemma sleep_enter_eq:
  assumes inv: "sched_inv s" and k: "tcbs s (current_thread s c) = Some k" "tstate k = RUNNING"
    and nw: "timeout \<noteq> NO_TIMEOUT \<Longrightarrow> bios_clock (vm s) + timeout \<noteq> NO_TIMEOUT"
  shows "sleep_enter c STOPPED timeout s = Inr (slept (current_thread s c) k (deadline timeout s) s)"
proof -
  have w: "wakeup_time k = NO_TIMEOUT"
    using sched_invD(1) [OF inv k(1)] k(2) by (auto simp: tcb_ok_def)
  let ?t = "current_thread s c"
  show ?thesis
  proof (cases "timeout = NO_TIMEOUT")
    case True
    have "k\<lparr>tstate := STOPPED, wakeup_time := NO_TIMEOUT\<rparr> = k\<lparr>tstate := STOPPED\<rparr>"
      using w by (cases k) simp
    with True k show ?thesis
      by (simp add: sleep_enter_def Let_def sched_register_timeout_def slept_def deadline_def upd_tcb_def)
  next
    case False
    let ?w = "bios_clock (vm s) + timeout"
    let ?s1 = "s\<lparr>tcbs := (tcbs s)(?t \<mapsto> k\<lparr>tstate := STOPPED, wakeup_time := ?w\<rparr>)\<rparr>"
    have "\<forall>u \<in> set (TIMEOUT_LIST s). tcbs ?s1 u \<noteq> None"
      using sched_invD(4) [OF inv] by auto
    with False k nw show ?thesis
      by (simp add: sleep_enter_def Let_def sched_register_timeout_def slept_def deadline_def upd_tcb_def
          timeout_insert_eq)
  qed
qed

lemma sched_inv_slept:
  assumes inv: "sched_inv s" and k: "tcbs s t = Some k" "tstate k = RUNNING" "ttype k = NORMAL_THREAD"
  shows "sched_inv (slept t k w s)"
proof (rule sched_invI)
  let ?s = "slept t k w s"
  note D = sched_invD [OF inv]
  have kok: "tcb_ok k" using D(1) k by blast
  then have dirty: "tphase k = CTX_DIRTY" "wakeup_time k = NO_TIMEOUT"
    using k by (auto simp: tcb_ok_def)
  then have tl: "t \<notin> set (TIMEOUT_LIST s)" using D(4) [of t] k by simp
  have wk: "wk ?s u = wk s u" if "u \<in> set (TIMEOUT_LIST s)" for u
    using that tl by (auto simp: wk_def)
  have oc: "on_core u ?s = on_core u s" for u by (simp add: on_core_def)
  have "tcb_ok (k\<lparr>tstate := STOPPED, wakeup_time := w\<rparr>)"
    using kok k by (auto simp: tcb_ok_def)
  then show "tcb_ok k'" if "tcbs ?s u = Some k'" for u k'
    using that D(1) [of u k'] by (cases "u = t") auto
  show "u \<in> set (SCHED ?s i) \<longleftrightarrow>
      (\<exists>k. tcbs ?s u = Some k \<and> schedulable k \<and> unat (priority k) = i \<and> \<not> on_core u ?s)" for i u
    using D(2) [of u i] k by (cases "u = t") (auto simp: oc schedulable_def)
  show "distinct (SCHED ?s i)" for i using D(3) [of i] by simp
  show "u \<in> set (TIMEOUT_LIST ?s) \<longleftrightarrow> (\<exists>k. tcbs ?s u = Some k \<and> wakeup_time k \<noteq> NO_TIMEOUT)" for u
    using D(4) [of u] tl by (cases "u = t") (auto simp: set_slept)
  have "distinct (takeWhile P (TIMEOUT_LIST s) @ t # dropWhile P (TIMEOUT_LIST s))" for P
    using D(5) tl distinct_append [of "takeWhile P (TIMEOUT_LIST s)" "dropWhile P (TIMEOUT_LIST s)"]
    by (auto dest: set_takeWhileD set_dropWhileD)
  then show "distinct (TIMEOUT_LIST ?s)" using D(5) by (simp add: slept_def Let_def)
  have srt: "sorted_wrt (\<lambda>a b. wk ?s a \<le> wk ?s b) (TIMEOUT_LIST s)"
    using D(6) by (rule sorted_wrt_mono_rel [rotated]) (simp add: wk)
  have wt: "wk ?s t = w" by (simp add: wk_def)
  have w1: "wk (s\<lparr>tcbs := (tcbs s)(t \<mapsto> k\<lparr>tstate := STOPPED, wakeup_time := w\<rparr>)\<rparr>) = wk ?s"
    by (simp add: wk_def fun_eq_iff)
  show "sorted_wrt (\<lambda>a b. wk ?s a \<le> wk ?s b) (TIMEOUT_LIST ?s)"
  proof (cases "w = NO_TIMEOUT")
    case True
    then have "TIMEOUT_LIST ?s = TIMEOUT_LIST s" by (simp add: slept_def Let_def)
    with srt show ?thesis by simp
  next
    case False
    then have "TIMEOUT_LIST ?s = takeWhile (\<lambda>u. wk ?s u \<le> wk ?s t) (TIMEOUT_LIST s) @ t #
        dropWhile (\<lambda>u. wk ?s u \<le> wk ?s t) (TIMEOUT_LIST s)"
      unfolding wt by (subst slept_def) (simp add: Let_def w1)
    with sorted_insert_point [OF srt, of t] show ?thesis by simp
  qed
  show "tphase k' = CTX_DIRTY \<or> tstate k' = READY" if "on_core u ?s" "tcbs ?s u = Some k'" for u k'
    using that D(7) [of u k'] dirty by (cases "u = t") (auto simp: oc)
qed


section \<open>Creating threads\<close>

lemma sched_inv_spawn:
  assumes inv: "sched_inv s" and a: "tcbs s (Thr a) = None" "\<not> on_core (Thr a) s"
    and sp: "spawn_thread a old pcb func s = (t, s')"
  shows "sched_inv s'"
proof (rule sched_invI)
  note D = sched_invD [OF inv]
  let ?k = "old\<lparr>owner_pcb := pcb, ttype := NORMAL_THREAD, tstate := INIT, tphase := CTX_CLEAN,
     thread_func := func, wakeup_time := NO_TIMEOUT, priority := 0, mutex_contention := False\<rparr>"
  have s': "tcbs s' = (tcbs s)(Thr a \<mapsto> ?k)" "SCHED s' = SCHED s" "TIMEOUT_LIST s' = TIMEOUT_LIST s"
      "current_thread s' = current_thread s"
    using sp by (auto simp: spawn_thread_def)
  have oc: "on_core u s' = on_core u s" for u by (simp add: on_core_def s')
  have wk: "wk s' u = wk s u" if "u \<in> set (TIMEOUT_LIST s)" for u
    using that D(4) [of u] a by (auto simp: wk_def s')
  have "tcb_ok ?k" by (simp add: tcb_ok_def MFQ_QUEUES_def)
  then show "tcb_ok k'" if "tcbs s' u = Some k'" for u k'
    using that D(1) [of u k'] by (cases "u = Thr a") (auto simp: s')
  show "u \<in> set (SCHED s' i) \<longleftrightarrow>
      (\<exists>k. tcbs s' u = Some k \<and> schedulable k \<and> unat (priority k) = i \<and> \<not> on_core u s')" for i u
    using D(2) [of u i] a by (cases "u = Thr a") (auto simp: s' oc schedulable_def)
  show "distinct (SCHED s' i)" for i using D(3) [of i] by (simp add: s')
  show "u \<in> set (TIMEOUT_LIST s') \<longleftrightarrow> (\<exists>k. tcbs s' u = Some k \<and> wakeup_time k \<noteq> NO_TIMEOUT)" for u
    using D(4) [of u] a by (cases "u = Thr a") (auto simp: s')
  show "distinct (TIMEOUT_LIST s')" using D(5) by (simp add: s')
  have "sorted_wrt (\<lambda>a b. wk s' a \<le> wk s' b) (TIMEOUT_LIST s)"
    using D(6) by (rule sorted_wrt_mono_rel [rotated]) (simp add: wk)
  then show "sorted_wrt (\<lambda>a b. wk s' a \<le> wk s' b) (TIMEOUT_LIST s')" by (simp add: s')
  show "tphase k' = CTX_DIRTY \<or> tstate k' = READY" if "on_core u s'" "tcbs s' u = Some k'" for u k'
    using that D(7) [of u k'] a by (cases "u = Thr a") (auto simp: s' oc)
qed

section \<open>The boost in closed form\<close>

text \<open>The queues after the first \<open>n\<close> rounds of the loop of \<^verbatim>\<open>sched_boost\<close>.\<close>

definition boosted :: "nat \<Rightarrow> (nat \<Rightarrow> tcbp list) \<Rightarrow> nat \<Rightarrow> tcbp list" where
  "boosted n q i =
     (if 0 < i \<and> i \<le> n then tl (q i) else q i) @ (if i < n then take 1 (q (Suc i)) else [])"

lemma boost_one_SCHED:
  "SCHED (boost_one i s) = (SCHED s)(Suc i := tl (SCHED s (Suc i)), i := SCHED s i @ take 1 (SCHED s (Suc i)))"
  by (auto simp: boost_one_def Let_def fun_eq_iff split: list.split)

lemma fold_boost_SCHED: "SCHED (fold boost_one [0..<n] s) = boosted n (SCHED s)"
proof (induction n)
  case 0
  then show ?case by (simp add: boosted_def fun_eq_iff)
next
  case (Suc n)
  then show ?case
    by (simp add: boost_one_SCHED) (auto simp: boosted_def fun_eq_iff le_Suc_eq)
qed


section \<open>An example state\<close>

text \<open>
  Core 0 runs thread 4 and core 1 its idle thread; thread 2 waits in the queue of priority 3
  and thread 3 sleeps until time 5000, which has passed.
\<close>

definition example_tcb :: "thread_type \<Rightarrow> thread_state \<Rightarrow> thread_phase \<Rightarrow> u32 \<Rightarrow> u64 \<Rightarrow> tcb" where
  "example_tcb ty st ph p w = \<lparr>owner_pcb = None, owner_ptcb = None, ttype = ty, tstate = st,
     tphase = ph, priority = p, mutex_contention = False, prev_priority = 0, thread_func = 0,
     wakeup_time = w, tprev = None, tnext = None\<rparr>"

definition example_sched :: sched where
  "example_sched = \<lparr>vm = example_vm\<lparr>system_clock := 10\<rparr>,
     tcbs = [Idle 0 \<mapsto> example_tcb IDLE_THREAD READY CTX_CLEAN 0 NO_TIMEOUT,
             Idle 1 \<mapsto> example_tcb IDLE_THREAD RUNNING CTX_DIRTY 0 NO_TIMEOUT,
             Thr 4 \<mapsto> example_tcb NORMAL_THREAD RUNNING CTX_DIRTY 0 NO_TIMEOUT,
             Thr 2 \<mapsto> example_tcb NORMAL_THREAD READY CTX_CLEAN 3 NO_TIMEOUT,
             Thr 3 \<mapsto> example_tcb NORMAL_THREAD STOPPED CTX_CLEAN 1 5000],
     SCHED = (\<lambda>_. [])(3 := [Thr 2]), TIMEOUT_LIST = [Thr 3], timeslices = 0, active_threads = 3,
     current_thread = (\<lambda>c. if c = 0 then Thr 4 else Idle c)\<rparr>"

lemma example_tcb_sel [simp]:
  "ttype (example_tcb ty st ph p w) = ty" "tstate (example_tcb ty st ph p w) = st"
  "tphase (example_tcb ty st ph p w) = ph" "priority (example_tcb ty st ph p w) = p"
  "wakeup_time (example_tcb ty st ph p w) = w" "mutex_contention (example_tcb ty st ph p w) = False"
  by (simp_all add: example_tcb_def)

lemma example_sched_sel [simp]:
  "SCHED example_sched = (\<lambda>_. [])(3 := [Thr 2])" "TIMEOUT_LIST example_sched = [Thr 3]"
  "current_thread example_sched = (\<lambda>c. if c = 0 then Thr 4 else Idle c)"
  "tcbs example_sched (Thr 4) = Some (example_tcb NORMAL_THREAD RUNNING CTX_DIRTY 0 NO_TIMEOUT)"
  "tcbs example_sched (Thr 2) = Some (example_tcb NORMAL_THREAD READY CTX_CLEAN 3 NO_TIMEOUT)"
  "tcbs example_sched (Thr 3) = Some (example_tcb NORMAL_THREAD STOPPED CTX_CLEAN 1 5000)"
  "tcbs example_sched (Idle 0) = Some (example_tcb IDLE_THREAD READY CTX_CLEAN 0 NO_TIMEOUT)"
  "bios_clock (vm example_sched) = 10000"
  by (simp_all add: example_sched_def bios_clock_def)

lemma example_tcbs:
  "tcbs example_sched t = Some k \<longleftrightarrow>
     t = Idle 0 \<and> k = example_tcb IDLE_THREAD READY CTX_CLEAN 0 NO_TIMEOUT \<or>
     t = Idle 1 \<and> k = example_tcb IDLE_THREAD RUNNING CTX_DIRTY 0 NO_TIMEOUT \<or>
     t = Thr 4 \<and> k = example_tcb NORMAL_THREAD RUNNING CTX_DIRTY 0 NO_TIMEOUT \<or>
     t = Thr 2 \<and> k = example_tcb NORMAL_THREAD READY CTX_CLEAN 3 NO_TIMEOUT \<or>
     t = Thr 3 \<and> k = example_tcb NORMAL_THREAD STOPPED CTX_CLEAN 1 5000"
  by (auto simp: example_sched_def split: if_splits)

lemma example_on_core: "on_core t example_sched \<longleftrightarrow> t = Thr 4 \<or> (\<exists>c > 0. t = Idle c)"
  by (auto simp: on_core_def)

lemma example_inv: "sched_inv example_sched"
proof (rule sched_invI)
  show "tcb_ok k" if "tcbs example_sched t = Some k" for t k
    using that by (auto simp: example_tcbs tcb_ok_def MFQ_QUEUES_def)
  show "t \<in> set (SCHED example_sched i) \<longleftrightarrow> (\<exists>k. tcbs example_sched t = Some k \<and> schedulable k \<and>
      unat (priority k) = i \<and> \<not> on_core t example_sched)" for i t
    by (auto simp: example_tcbs schedulable_def example_on_core)
  show "t \<in> set (TIMEOUT_LIST example_sched) \<longleftrightarrow>
      (\<exists>k. tcbs example_sched t = Some k \<and> wakeup_time k \<noteq> NO_TIMEOUT)" for t
    by (auto simp: example_tcbs NO_TIMEOUT_def)
  show "tphase k = CTX_DIRTY \<or> tstate k = READY"
    if "on_core t example_sched" "tcbs example_sched t = Some k" for t k
    using that by (auto simp: example_tcbs example_on_core)
qed simp_all

lemma example_yield_ready: "yield_ready 0 example_sched"
  by (simp add: yield_ready_def example_inv)

section \<open>The scheduler's properties\<close>

text \<open>
  \<^verbatim>\<open>wakeup\<close> keeps the scheduler consistent and answers whether it woke the thread: a
  stopped or new thread becomes ready, loses its timeout, and, once its context is saved, is
  the last of the queue of its priority; any other thread, and every other thread, is as
  before. None of the assertions of \<^verbatim>\<open>sched_make_ready\<close> fails.
\<close>

theorem wakeup_correct:
  assumes "sched_inv s" and "tcbs s t = Some k"
  shows "\<exists>r s'. wakeup t s = Inr (r, s') \<and> sched_inv s' \<and>
     r = (tstate k = STOPPED \<or> tstate k = INIT) \<and> (\<not> r \<longrightarrow> s' = s) \<and>
     (\<forall>u. u \<noteq> t \<longrightarrow> tcbs s' u = tcbs s u) \<and>
     (r \<longrightarrow> tcbs s' t = Some (k\<lparr>wakeup_time := NO_TIMEOUT, tstate := READY\<rparr>) \<and>
        t \<notin> set (TIMEOUT_LIST s') \<and>
        (tphase k = CTX_CLEAN \<longrightarrow>
           SCHED s' (unat (priority k)) = SCHED s (unat (priority k)) @ [t]))"
proof (cases "tstate k = STOPPED \<or> tstate k = INIT")
  case True
  then have "wakeup t s = Inr (True, made_ready t k s)"
    using assms by (simp add: wakeup_def get_tcb_def sched_make_ready_eq)
  with True show ?thesis
    using sched_inv_made_ready [OF assms True]
    by (intro exI [of _ True] exI [of _ "made_ready t k s"]) simp
next
  case False
  then have "wakeup t s = Inr (False, s)"
    using assms by (simp add: wakeup_def get_tcb_def)
  with False assms(1) show ?thesis
    by (intro exI [of _ False] exI [of _ s]) simp
qed

theorem wakeup_correct_witness:
  "\<exists>s'. wakeup (Thr 3) example_sched = Inr (True, s') \<and> sched_inv s' \<and> SCHED s' 1 = [Thr 3]"
  using wakeup_correct [OF example_inv, of "Thr 3"] by auto

text \<open>
  \<^verbatim>\<open>sched_queue_select\<close> wakes exactly the threads whose deadline has passed, and then
  takes the first thread of the non-empty queue of best priority; it returns nothing only
  when no thread at all is ready to run.
\<close>

theorem select_best_thread:
  assumes "sched_inv s"
  shows "\<exists>sel s1 s2. sched_queue_select s = Inr (sel, s2) \<and>
     wake_result (bios_clock (vm s)) s s1 \<and> tcbs s2 = tcbs s1 \<and>
     (case sel of
        None \<Rightarrow> s2 = s1 \<and>
          (\<forall>u k. tcbs s1 u = Some k \<longrightarrow> \<not> (schedulable k \<and> \<not> on_core u s1))
      | Some t \<Rightarrow> \<exists>k. tcbs s1 t = Some k \<and> schedulable k \<and> \<not> on_core t s1 \<and>
          SCHED s1 (unat (priority k)) = t # SCHED s2 (unat (priority k)) \<and>
          (\<forall>u ku. tcbs s1 u = Some ku \<longrightarrow> schedulable ku \<longrightarrow> \<not> on_core u s1 \<longrightarrow>
             priority k \<le> priority ku))"
proof -
  obtain s1 where s1: "wake_result (bios_clock (vm s)) s s1" "sched_queue_select s = Inr (pop_queue s1)"
    using select_ok [OF assms] by blast
  then have inv1: "sched_inv s1" by (simp add: wake_result_def)
  note D = sched_invD [OF inv1]
  have listed: "u \<in> set (SCHED s1 (unat (priority k)))" "unat (priority k) < MFQ_QUEUES"
    if "tcbs s1 u = Some k" "schedulable k" "\<not> on_core u s1" for u k
    using that D(1,2) by (auto simp: tcb_ok_def)
  show ?thesis
  proof (cases rule: pop_queue_cases [of s1])
    case 1
    then have "\<forall>u k. tcbs s1 u = Some k \<longrightarrow> \<not> (schedulable k \<and> \<not> on_core u s1)"
      using listed by fastforce
    with 1 s1 show ?thesis by (intro exI [of _ None] exI [of _ s1]) auto
  next
    case (2 i t ts)
    then obtain k where k: "tcbs s1 t = Some k" "schedulable k" "unat (priority k) = i" "\<not> on_core t s1"
      using D(2) [of t i] by auto
    have "priority k \<le> priority ku"
      if "tcbs s1 u = Some ku" "schedulable ku" "\<not> on_core u s1" for u ku
      using listed(1) [OF that] 2(4) k(3) by (auto simp: word_le_nat_alt not_less [symmetric])
    with 2 k s1 show ?thesis
      by (intro exI [of _ "Some t"] exI [of _ s1] exI [of _ "s1\<lparr>SCHED := (SCHED s1)(i := ts)\<rparr>"]) auto
  qed
qed

theorem select_best_thread_witness:
  "\<exists>sel s2. sched_queue_select example_sched = Inr (sel, s2)"
  using select_best_thread [OF example_inv] by blast

text \<open>
  C5: a context switch. Whatever the cause of \<^verbatim>\<open>yield\<close> and whatever the state of the
  queues, the switch and the following \<open>gain\<close> succeed without failing an assertion or
  indexing \<^verbatim>\<open>SCHED\<close> out of bounds; afterwards the scheduler is consistent, the core runs a
  thread in state \<^verbatim>\<open>RUNNING\<close>, the other cores are undisturbed, and a thread that had exited
  is gone.
\<close>

theorem context_switch_correct:
  assumes "yield_ready c s"
  shows "\<exists>s1 s2. yield_switch c cause s = Inr s1 \<and> gain c s1 = Inr s2 \<and> sched_inv s1 \<and> sched_inv s2 \<and>
     (\<exists>k. tcbs s2 (current_thread s2 c) = Some k \<and> tstate k = RUNNING \<and> tphase k = CTX_DIRTY) \<and>
     (current_thread s2 c \<noteq> current_thread s c \<longrightarrow>
        \<not> on_core (current_thread s c) s2 \<and>
        (\<forall>k. tcbs s2 (current_thread s c) = Some k \<longrightarrow> tphase k = CTX_CLEAN \<and> tstate k \<noteq> EXITED))"
proof -
  from yield_switch_ok [OF assms] obtain s1 where
    s1: "yield_switch c cause s = Inr s1" "swapped c (current_thread s c) s1" by blast
  from gain_ok [OF s1(2)] obtain s2 where
    s2: "gain c s1 = Inr s2" "gained c (current_thread s c) s1 s2" by blast
  have ct: "current_thread s2 = current_thread s1" "on_core u s2 = on_core u s1" for u
    using s2(2) by (simp_all add: gained_def on_core_def)
  have "\<exists>k. tcbs s2 (current_thread s2 c) = Some k \<and> tstate k = RUNNING \<and> tphase k = CTX_DIRTY"
  proof -
    obtain kc where "tcbs s1 (current_thread s1 c) = Some kc"
      using s1(2) by (auto simp: swapped_def)
    with s2(2) show ?thesis by (simp add: gained_def)
  qed
  moreover have "\<not> on_core (current_thread s c) s2 \<and>
        (\<forall>k. tcbs s2 (current_thread s c) = Some k \<longrightarrow> tphase k = CTX_CLEAN \<and> tstate k \<noteq> EXITED)"
    if "current_thread s2 c \<noteq> current_thread s c"
  proof -
    let ?o = "current_thread s c"
    have o: "current_thread s1 c \<noteq> ?o" using that ct by simp
    then obtain ko where ko: "tcbs s1 ?o = Some ko" "\<not> on_core ?o s1"
      using s1(2) by (auto simp: swapped_def)
    have "tcbs s2 ?o = (if tstate ko = EXITED then None else Some (ko\<lparr>tphase := CTX_CLEAN\<rparr>))"
      using s2(2) o ko(1) by (simp add: gained_def)
    with ko(2) ct(2) show ?thesis by (cases "tstate ko = EXITED") auto
  qed
  ultimately show ?thesis
    using s1 s2 by (auto simp: swapped_def gained_def)
qed

theorem context_switch_correct_witness:
  "\<exists>s1 s2. yield_switch 0 SCHED_QUANTUM example_sched = Inr s1 \<and> gain 0 s1 = Inr s2 \<and> sched_inv s2"
  using context_switch_correct [OF example_yield_ready, of SCHED_QUANTUM] by blast

text \<open>
  Going to sleep. A running thread that sleeps for a time is stopped, is entered into the
  list of timeouts after every thread that wakes up no later and before every thread that
  wakes up later, and the scheduler stays consistent.
\<close>

theorem sleep_enter_correct:
  assumes "sched_inv s" and "tcbs s (current_thread s c) = Some k"
    and "tstate k = RUNNING" and "ttype k = NORMAL_THREAD"
    and "timeout \<noteq> NO_TIMEOUT" and "bios_clock (vm s) + timeout \<noteq> NO_TIMEOUT"
  shows "\<exists>s' before after. sleep_enter c STOPPED timeout s = Inr s' \<and> sched_inv s' \<and>
     tcbs s' (current_thread s c) =
       Some (k\<lparr>tstate := STOPPED, wakeup_time := bios_clock (vm s) + timeout\<rparr>) \<and>
     TIMEOUT_LIST s = before @ after \<and> TIMEOUT_LIST s' = before @ current_thread s c # after \<and>
     (\<forall>u \<in> set before. wk s' u \<le> bios_clock (vm s) + timeout) \<and>
     (\<forall>u \<in> set after. bios_clock (vm s) + timeout < wk s' u)"
proof -
  let ?t = "current_thread s c" and ?w = "bios_clock (vm s) + timeout"
  let ?s = "slept ?t k ?w s"
  have inv: "sched_inv ?s" using assms by (intro sched_inv_slept)
  have eq: "sleep_enter c STOPPED timeout s = Inr ?s"
    using sleep_enter_eq [OF assms(1-3)] assms(5,6) by (simp add: deadline_def)
  have w1: "wk (s\<lparr>tcbs := (tcbs s)(?t \<mapsto> k\<lparr>tstate := STOPPED, wakeup_time := ?w\<rparr>)\<rparr>) = wk ?s"
    by (simp add: wk_def fun_eq_iff)
  let ?b = "takeWhile (\<lambda>u. wk ?s u \<le> ?w) (TIMEOUT_LIST s)"
  let ?a = "dropWhile (\<lambda>u. wk ?s u \<le> ?w) (TIMEOUT_LIST s)"
  have l: "TIMEOUT_LIST ?s = ?b @ ?t # ?a"
    using assms(6) by (subst slept_def) (simp add: Let_def w1)
  have srt: "sorted_wrt (\<lambda>a b. wk ?s a \<le> wk ?s b) ?a"
    using sched_invD(6) [OF inv] unfolding l by (simp add: sorted_wrt_append)
  have "?w < wk ?s u" if "u \<in> set ?a" for u
  proof (cases ?a)
    case Nil
    with that show ?thesis by simp
  next
    case (Cons v vs)
    then have "\<not> wk ?s v \<le> ?w"
      using hd_dropWhile [of "\<lambda>u. wk ?s u \<le> ?w" "TIMEOUT_LIST s"] by simp
    moreover have "wk ?s v \<le> wk ?s u" using that srt unfolding Cons by auto
    ultimately show ?thesis by simp
  qed
  moreover have "wk ?s u \<le> ?w" if "u \<in> set ?b" for u
    using that by (auto dest: set_takeWhileD)
  moreover have "TIMEOUT_LIST s = ?b @ ?a" by simp
  ultimately show ?thesis using eq inv l
    by (intro exI [of _ ?s] exI [of _ ?b] exI [of _ ?a]) simp
qed

theorem sleep_enter_correct_witness:
  "\<exists>s' before after. sleep_enter 0 STOPPED 500 example_sched = Inr s' \<and> sched_inv s' \<and>
     [Thr 3] = before @ after \<and> TIMEOUT_LIST s' = before @ Thr 4 # after"
  using sleep_enter_correct [OF example_inv, of 0 "example_tcb NORMAL_THREAD RUNNING CTX_DIRTY 0 NO_TIMEOUT" 500]
  by (auto simp: NO_TIMEOUT_def)

text \<open>
  One boost moves the head of every queue but the best one to the end of the queue
  above it, all at once: no thread moves by more than one queue.
\<close>

theorem sched_boost_closed_form:
  "SCHED (sched_boost s) i =
     (if i = 0 \<or> MFQ_QUEUES \<le> i then SCHED s i else tl (SCHED s i)) @
     (if i < MFQ_QUEUES - 1 then take 1 (SCHED s (Suc i)) else [])"
  unfolding sched_boost_def fold_boost_SCHED by (auto simp: boosted_def MFQ_QUEUES_def)

end
