(* ===== verification/Cc.thy ===== *)
theory Cc
  imports Sched
begin

text \<open>
  Concurrency control, \<^verbatim>\<open>src/kernel_cc.c\<close> and \<^verbatim>\<open>src/kernel_cc.h\<close>: the spinning mutex,
  condition variables with their rings of waiters, preemption, and the kernel semaphore
  that is implemented as a monitor. An operation that runs under a \<^verbatim>\<open>waitset_lock\<close> or under
  \<^verbatim>\<open>kernel_mutex\<close> is one step; a wait is two, one up to the call of \<^verbatim>\<open>yield\<close> and one after
  it.
\<close>

section \<open>State\<close>

text \<open>
  The condition variables of the kernel, by the object they are a field of, and those of
  user programs.
\<close>

datatype cvname =
    Kernel_sem_cv
  | Child_exit nat
  | Ptcb_waiting nat
  | Ptcb_join nat
  | Pipe_has_space nat
  | Pipe_has_data nat
  | Server_requests nat
  | Connected_cv nat
  | Serial_rx nat
  | User_cv nat

text \<open>\<^verbatim>\<open>struct __cv_waiter\<close>, without its ring node.\<close>

record waiter =
  wthread :: tcbp
  signalled :: bool
  removed :: bool

text \<open>
  The ring of a condition variable is the list of its waiters from \<^verbatim>\<open>waitset\<close> on; the empty
  list stands for \<^verbatim>\<open>NULL\<close>. A waiter lives on the stack of its thread, at an address.
\<close>

record cc =
  sch :: sched
  waitset :: "cvname \<Rightarrow> nat list"
  waiters :: "nat \<Rightarrow> waiter option"
  mutexes :: "nat \<Rightarrow> bool"
  kernel_sem :: int
  preemption :: "nat \<Rightarrow> bool"

definition set_waiter :: "nat \<Rightarrow> (waiter \<Rightarrow> waiter) \<Rightarrow> cc \<Rightarrow> cc" where
  "set_waiter w f s = s\<lparr>waiters := (waiters s)(w := map_option f (waiters s w))\<rparr>"

section \<open>Mutexes\<close>

text \<open>
  \<^verbatim>\<open>__atomic_test_and_set\<close> gives the old value. The inner loop of \<^verbatim>\<open>Mutex_Lock\<close> counts down
  \<open>spin\<close> while the lock is taken and yields at zero, when preemption is on.
\<close>

definition MUTEX_SPINS :: nat where "MUTEX_SPINS = 1000"

definition test_and_set :: "nat \<Rightarrow> cc \<Rightarrow> bool \<times> cc" where
  "test_and_set m s = (mutexes s m, s\<lparr>mutexes := (mutexes s)(m := True)\<rparr>)"

datatype spin_pc = Test_and_set | Spin nat | Yielding | Acquired

definition mutex_lock_step :: "nat \<Rightarrow> nat \<Rightarrow> spin_pc \<Rightarrow> cc \<Rightarrow> spin_pc \<times> cc" where
  "mutex_lock_step c m pc s =
     (case pc of
        Test_and_set \<Rightarrow> (let (old, s1) = test_and_set m s
                         in (if old then Spin MUTEX_SPINS else Acquired, s1))
      | Spin n \<Rightarrow>
          (if mutexes s m then
             (if n > 0 then (Spin (n - 1), s)
              else (if preemption s c then Yielding else Spin MUTEX_SPINS, s))
           else (Test_and_set, s))
      | Yielding \<Rightarrow> (Spin MUTEX_SPINS, s)
      | Acquired \<Rightarrow> (Acquired, s))"

definition Mutex_Unlock :: "nat \<Rightarrow> cc \<Rightarrow> cc" where
  "Mutex_Unlock m s = s\<lparr>mutexes := (mutexes s)(m := False)\<rparr>"

section \<open>Condition variables\<close>

definition remove_from_ring :: "cvname \<Rightarrow> nat \<Rightarrow> cc \<Rightarrow> cc" where
  "remove_from_ring cv w s = s\<lparr>waitset := (waitset s)(cv := removeAll w (waitset s cv))\<rparr>"

text \<open>
  \<^verbatim>\<open>cv_wait\<close> up to the call of \<^verbatim>\<open>yield\<close> in \<^verbatim>\<open>sleep_releasing\<close>; \<open>w\<close> is the address of the
  automatic variable \<^verbatim>\<open>waiter\<close>; unlocking the mutex argument is the caller's part.
\<close>

definition cv_wait_enter :: "nat \<Rightarrow> nat \<Rightarrow> cvname \<Rightarrow> u64 \<Rightarrow> cc \<Rightarrow> cc res" where
  "cv_wait_enter c w cv timeout s =
     (let s1 = s\<lparr>waiters := (waiters s)(w \<mapsto> \<lparr>wthread = current_thread (sch s) c,
                              signalled = False, removed = False\<rparr>),
                 waitset := (waitset s)(cv := waitset s cv @ [w])\<rparr>
      in bindE (sleep_enter c STOPPED timeout (sch s1)) (\<lambda>sc. Inr (s1\<lparr>sch := sc\<rparr>)))"

text \<open>\<^verbatim>\<open>cv_wait\<close> from where \<^verbatim>\<open>sleep_releasing\<close> returns, up to re-locking the mutex.\<close>

definition cv_wait_resume :: "nat \<Rightarrow> cvname \<Rightarrow> cc \<Rightarrow> (bool \<times> cc) res" where
  "cv_wait_resume w cv s =
     bindE (derefE (waiters s w)) (\<lambda>r.
     bindE (if \<not> removed r then
              bindE (assertE (\<not> signalled r)) (\<lambda>_. Inr (remove_from_ring cv w s))
            else Inr s) (\<lambda>s1.
     Inr (signalled r, s1\<lparr>waiters := (waiters s1)(w := None)\<rparr>)))"

text \<open>
  \<^verbatim>\<open>cv_signal\<close>: the loop goes down the ring until a wake-up succeeds. The ring is not
  changed by \<^verbatim>\<open>wakeup\<close>, so the recursion is on it.
\<close>

fun cv_signal_loop :: "cvname \<Rightarrow> nat list \<Rightarrow> cc \<Rightarrow> cc res" where
  "cv_signal_loop cv [] s = Inr s"
| "cv_signal_loop cv (w # ws) s =
     bindE (derefE (waiters s w)) (\<lambda>r.
     let s1 = set_waiter w (\<lambda>r. r\<lparr>removed := True\<rparr>) (s\<lparr>waitset := (waitset s)(cv := ws)\<rparr>)
     in bindE (wakeup (wthread r) (sch s1)) (\<lambda>(woken, sc).
        let s2 = s1\<lparr>sch := sc\<rparr>
        in if woken then Inr (set_waiter w (\<lambda>r. r\<lparr>signalled := True\<rparr>) s2)
           else cv_signal_loop cv ws s2))"

definition cv_signal :: "cvname \<Rightarrow> cc \<Rightarrow> cc res" where
  "cv_signal cv s = cv_signal_loop cv (waitset s cv) s"

definition Cond_Signal :: "cvname \<Rightarrow> cc \<Rightarrow> cc res" where
  "Cond_Signal cv s = cv_signal cv s"

text \<open>The loop of \<^verbatim>\<open>Cond_Broadcast\<close>; every round takes a waiter off the ring.\<close>

fun broadcast_loop :: "nat \<Rightarrow> cvname \<Rightarrow> cc \<Rightarrow> cc res" where
  "broadcast_loop fuel cv s =
     (if waitset s cv = [] then Inr s
      else (case fuel of
              0 \<Rightarrow> Inl No_return
            | Suc f \<Rightarrow> bindE (cv_signal cv s) (broadcast_loop f cv)))"

declare broadcast_loop.simps [simp del]

definition Cond_Broadcast :: "cvname \<Rightarrow> cc \<Rightarrow> cc res" where
  "Cond_Broadcast cv s = broadcast_loop (length (waitset s cv)) cv s"

text \<open>\<^verbatim>\<open>Cond_Wait\<close> and \<^verbatim>\<open>Cond_TimedWait\<close>, up to the switch: the mutex is released on the way.\<close>

definition Cond_TimedWait_enter :: "nat \<Rightarrow> nat \<Rightarrow> nat \<Rightarrow> cvname \<Rightarrow> u64 \<Rightarrow> cc \<Rightarrow> cc res" where
  "Cond_TimedWait_enter c w m cv timeout s =
     cv_wait_enter c w cv (timeout * 1000) (Mutex_Unlock m s)"

definition Cond_Wait_enter :: "nat \<Rightarrow> nat \<Rightarrow> nat \<Rightarrow> cvname \<Rightarrow> cc \<Rightarrow> cc res" where
  "Cond_Wait_enter c w m cv s = cv_wait_enter c w cv NO_TIMEOUT (Mutex_Unlock m s)"

section \<open>Preemption\<close>

definition set_core_preemption ::
  "(handler \<Rightarrow> core \<Rightarrow> core) \<Rightarrow> nat \<Rightarrow> bool \<Rightarrow> cc \<Rightarrow> bool \<times> cc" where
  "set_core_preemption run c preempt s =
     (let on_cpu = (\<lambda>f s. s\<lparr>sch := (sch s)\<lparr>vm := upd_core c f (vm (sch s))\<rparr>\<rparr>);
          old = preemption s c
      in if preempt then
           (old, on_cpu (cpu_enable_interrupts run) (s\<lparr>preemption := (preemption s)(c := True)\<rparr>))
         else
           (let s1 = on_cpu cpu_disable_interrupts s
            in (old, s1\<lparr>preemption := (preemption s1)(c := False)\<rparr>)))"

definition get_core_preemption :: "nat \<Rightarrow> cc \<Rightarrow> bool" where
  "get_core_preemption c s = preemption s c"

section \<open>The kernel lock\<close>

text \<open>
  One round of \<^verbatim>\<open>while(kernel_sem<=0) Cond_Wait(...)\<close> followed by \<^verbatim>\<open>kernel_sem--\<close>: either
  the semaphore is taken, or the caller goes to sleep on \<^verbatim>\<open>kernel_sem_cv\<close>.
\<close>

definition kernel_lock_round :: "nat \<Rightarrow> nat \<Rightarrow> cc \<Rightarrow> (bool \<times> cc) res" where
  "kernel_lock_round c w s =
     (if kernel_sem s \<le> 0 then
        bindE (cv_wait_enter c w Kernel_sem_cv NO_TIMEOUT s) (\<lambda>s1. Inr (False, s1))
      else Inr (True, s\<lparr>kernel_sem := kernel_sem s - 1\<rparr>))"

definition kernel_unlock :: "cc \<Rightarrow> cc res" where
  "kernel_unlock s = Cond_Signal Kernel_sem_cv (s\<lparr>kernel_sem := kernel_sem s + 1\<rparr>)"

text \<open>\<^verbatim>\<open>kernel_wait_wchan\<close> up to the switch; what follows is \<open>cv_wait_resume\<close> and the rounds above.\<close>

definition kernel_wait_enter :: "nat \<Rightarrow> nat \<Rightarrow> cvname \<Rightarrow> u64 \<Rightarrow> cc \<Rightarrow> cc res" where
  "kernel_wait_enter c w cv timeout s = bindE (kernel_unlock s) (cv_wait_enter c w cv timeout)"

definition kernel_signal :: "cvname \<Rightarrow> cc \<Rightarrow> cc res" where
  "kernel_signal cv s = Cond_Signal cv s"

definition kernel_broadcast :: "cvname \<Rightarrow> cc \<Rightarrow> cc res" where
  "kernel_broadcast cv s = Cond_Broadcast cv s"

definition kernel_sleep_enter :: "nat \<Rightarrow> thread_state \<Rightarrow> cc \<Rightarrow> cc res" where
  "kernel_sleep_enter c newstate s =
     bindE (kernel_unlock s) (\<lambda>s1.
     bindE (sleep_enter c newstate NO_TIMEOUT (sch s1)) (\<lambda>sc. Inr (s1\<lparr>sch := sc\<rparr>)))"


section \<open>The invariant of the rings of waiters\<close>

text \<open>
  A waiter is on a ring exactly until it is removed, on one ring only and once; it is
  signalled only when removed; its thread exists, and no thread waits twice.
\<close>

definition cc_inv :: "cc \<Rightarrow> bool" where
  "cc_inv s \<longleftrightarrow> sched_inv (sch s) \<and>
     (\<forall>cv. distinct (waitset s cv)) \<and>
     (\<forall>cv cv' w. w \<in> set (waitset s cv) \<longrightarrow> w \<in> set (waitset s cv') \<longrightarrow> cv = cv') \<and>
     (\<forall>cv w. w \<in> set (waitset s cv) \<longrightarrow> (\<exists>r. waiters s w = Some r \<and> \<not> removed r)) \<and>
     (\<forall>w r. waiters s w = Some r \<longrightarrow>
        (signalled r \<longrightarrow> removed r) \<and> tcbs (sch s) (wthread r) \<noteq> None \<and>
        (removed r \<longrightarrow> (\<forall>cv. w \<notin> set (waitset s cv)))) \<and>
     (\<forall>w w' r r'. waiters s w = Some r \<longrightarrow> waiters s w' = Some r' \<longrightarrow> wthread r = wthread r' \<longrightarrow> w = w')"

lemma cc_invD:
  assumes "cc_inv s"
  shows "sched_inv (sch s)" and "distinct (waitset s cv)"
    and "w \<in> set (waitset s cv) \<Longrightarrow> w \<in> set (waitset s cv') \<Longrightarrow> cv = cv'"
    and "w \<in> set (waitset s cv) \<Longrightarrow> \<exists>r. waiters s w = Some r \<and> \<not> removed r"
    and "waiters s w = Some r \<Longrightarrow> signalled r \<Longrightarrow> removed r"
    and "waiters s w = Some r \<Longrightarrow> tcbs (sch s) (wthread r) \<noteq> None"
    and "waiters s w = Some r \<Longrightarrow> removed r \<Longrightarrow> w \<notin> set (waitset s cv)"
    and "waiters s w = Some r \<Longrightarrow> waiters s w' = Some r' \<Longrightarrow> wthread r = wthread r' \<Longrightarrow> w = w'"
  using assms unfolding cc_inv_def by blast+

lemma cc_invI:
  assumes "sched_inv (sch s)" and "\<And>cv. distinct (waitset s cv)"
    and "\<And>cv cv' w. w \<in> set (waitset s cv) \<Longrightarrow> w \<in> set (waitset s cv') \<Longrightarrow> cv = cv'"
    and "\<And>cv w. w \<in> set (waitset s cv) \<Longrightarrow> \<exists>r. waiters s w = Some r \<and> \<not> removed r"
    and "\<And>w r. waiters s w = Some r \<Longrightarrow> signalled r \<Longrightarrow> removed r"
    and "\<And>w r. waiters s w = Some r \<Longrightarrow> tcbs (sch s) (wthread r) \<noteq> None"
    and "\<And>w r cv. waiters s w = Some r \<Longrightarrow> removed r \<Longrightarrow> w \<notin> set (waitset s cv)"
    and "\<And>w w' r r'. waiters s w = Some r \<Longrightarrow> waiters s w' = Some r' \<Longrightarrow> wthread r = wthread r' \<Longrightarrow> w = w'"
  shows "cc_inv s"
  unfolding cc_inv_def using assms by blast

lemma cc_inv_frame [simp]:
  "cc_inv (s\<lparr>mutexes := m\<rparr>) = cc_inv s" "cc_inv (s\<lparr>kernel_sem := n\<rparr>) = cc_inv s"
  "cc_inv (s\<lparr>preemption := p\<rparr>) = cc_inv s"
  by (simp_all add: cc_inv_def)

definition thread_of :: "cc \<Rightarrow> nat \<Rightarrow> tcbp option" where
  "thread_of s w = map_option wthread (waiters s w)"

text \<open>A waiter whose thread has not been woken by anything yet.\<close>

definition asleep :: "cc \<Rightarrow> nat \<Rightarrow> bool" where
  "asleep s w \<longleftrightarrow> (\<exists>r k. waiters s w = Some r \<and> tcbs (sch s) (wthread r) = Some k \<and>
     (tstate k = STOPPED \<or> tstate k = INIT))"

section \<open>What a signal does\<close>

text \<open>
  \<open>woken cv ws s s'\<close>: the waiters \<open>ws\<close> at the head of the ring of \<open>cv\<close> have been taken off;
  those that were asleep have been signalled and their threads made ready, and nothing else
  has changed for other waiters, threads and conditions.
\<close>

definition woken :: "cvname \<Rightarrow> nat list \<Rightarrow> cc \<Rightarrow> cc \<Rightarrow> bool" where
  "woken cv ws s s' \<longleftrightarrow> cc_inv s' \<and>
     mutexes s' = mutexes s \<and> kernel_sem s' = kernel_sem s \<and> preemption s' = preemption s \<and>
     current_thread (sch s') = current_thread (sch s) \<and>
     waitset s cv = ws @ waitset s' cv \<and> (\<forall>c. c \<noteq> cv \<longrightarrow> waitset s' c = waitset s c) \<and>
     (\<forall>w. waiters s' w = (if w \<in> set ws
        then map_option (\<lambda>r. r\<lparr>removed := True, signalled := asleep s w\<rparr>) (waiters s w)
        else waiters s w)) \<and>
     (\<forall>t. tcbs (sch s') t = (if \<exists>w \<in> set ws. thread_of s w = Some t \<and> asleep s w
        then map_option (\<lambda>k. k\<lparr>wakeup_time := NO_TIMEOUT, tstate := READY\<rparr>) (tcbs (sch s) t)
        else tcbs (sch s) t))"

lemma woken_nil: "cc_inv s \<Longrightarrow> woken cv [] s s"
  by (simp add: woken_def)

lemma thread_of_woken: "woken cv ws s s' \<Longrightarrow> thread_of s' w = thread_of s w"
  by (auto simp: woken_def thread_of_def option.map_comp o_def intro: option.map_cong)

lemma thread_of_inj:
  "cc_inv s \<Longrightarrow> thread_of s w = Some t \<Longrightarrow> thread_of s w' = Some t \<Longrightarrow> w = w'"
  using cc_invD(8) [of s w _ w'] by (auto simp: thread_of_def)

lemma asleep_woken:
  assumes "cc_inv s" "woken cv ws s s'" "w \<notin> set ws"
  shows "asleep s' w = asleep s w"
proof (cases "waiters s w")
  case None
  with assms(2,3) show ?thesis by (simp add: asleep_def woken_def)
next
  case (Some r)
  then have "\<not> (\<exists>v \<in> set ws. thread_of s v = Some (wthread r) \<and> asleep s v)"
    using thread_of_inj [OF assms(1), of w "wthread r"] assms(3) by (auto simp: thread_of_def)
  with assms(2) have "tcbs (sch s') (wthread r) = tcbs (sch s) (wthread r)"
    by (auto simp: woken_def split: if_splits)
  moreover have "waiters s' w = Some r"
    using assms(2,3) Some by (simp add: woken_def)
  ultimately show ?thesis using Some by (simp add: asleep_def)
qed

lemma woken_trans:
  assumes inv: "cc_inv s" and a: "woken cv a s s1" and b: "woken cv b s1 s2"
  shows "woken cv (a @ b) s s2"
proof -
  have ws: "waitset s cv = a @ b @ waitset s2 cv"
    using a b by (simp add: woken_def)
  have "distinct (a @ b)"
    using cc_invD(2) [OF inv, of cv] ws by auto
  then have dis: "w \<in> set b \<Longrightarrow> w \<notin> set a" for w by auto
  have as: "asleep s1 w = asleep s w" if "w \<in> set b" for w
    using asleep_woken [OF inv a dis [OF that]] .
  have w: "waiters s2 w = (if w \<in> set (a @ b)
        then map_option (\<lambda>r. r\<lparr>removed := True, signalled := asleep s w\<rparr>) (waiters s w)
        else waiters s w)" for w
    using a b dis [of w] as [of w] by (auto simp: woken_def)
  have excl: "\<not> (\<exists>w \<in> set a. thread_of s w = Some t \<and> asleep s w)"
    if "w \<in> set b" "thread_of s w = Some t" for t w
    using that dis thread_of_inj [OF inv, of w t] by blast
  have t: "tcbs (sch s2) t = (if \<exists>w \<in> set (a @ b). thread_of s w = Some t \<and> asleep s w
        then map_option (\<lambda>k. k\<lparr>wakeup_time := NO_TIMEOUT, tstate := READY\<rparr>) (tcbs (sch s) t)
        else tcbs (sch s) t)" for t
  proof (cases "\<exists>w \<in> set b. thread_of s w = Some t \<and> asleep s w")
    case True
    then have "tcbs (sch s1) t = tcbs (sch s) t"
      using a excl by (auto simp: woken_def)
    with True b as show ?thesis
      by (auto simp: woken_def thread_of_woken [OF a])
  next
    case False
    then have "tcbs (sch s2) t = tcbs (sch s1) t"
      using b as by (auto simp: woken_def thread_of_woken [OF a])
    with False a show ?thesis by (auto simp: woken_def)
  qed
  show ?thesis
    using a b ws w t unfolding woken_def by simp
qed


text \<open>One round of the loop of \<^verbatim>\<open>cv_signal\<close>.\<close>

definition take_waiter :: "cvname \<Rightarrow> nat list \<Rightarrow> nat \<Rightarrow> cc \<Rightarrow> cc" where
  "take_waiter cv ws w s =
     set_waiter w (\<lambda>r. r\<lparr>removed := True\<rparr>) (s\<lparr>waitset := (waitset s)(cv := ws)\<rparr>)"

lemma set_waiter_simps [simp]:
  "sch (set_waiter w f s) = sch s" "waitset (set_waiter w f s) = waitset s"
  "waiters (set_waiter w f s) v = (if v = w then map_option f (waiters s w) else waiters s v)"
  "mutexes (set_waiter w f s) = mutexes s" "kernel_sem (set_waiter w f s) = kernel_sem s"
  "preemption (set_waiter w f s) = preemption s"
  by (simp_all add: set_waiter_def)

lemma take_waiter_simps [simp]:
  "sch (take_waiter cv ws w s) = sch s"
  "waitset (take_waiter cv ws w s) = (waitset s)(cv := ws)"
  "waiters (take_waiter cv ws w s) v =
     (if v = w then map_option (\<lambda>r. r\<lparr>removed := True\<rparr>) (waiters s w) else waiters s v)"
  "mutexes (take_waiter cv ws w s) = mutexes s" "kernel_sem (take_waiter cv ws w s) = kernel_sem s"
  "preemption (take_waiter cv ws w s) = preemption s"
  by (simp_all add: take_waiter_def)

text \<open>The invariant only needs the threads to stay and the scheduler's own invariant.\<close>

lemma cc_inv_take:
  assumes inv: "cc_inv s" and ws: "waitset s cv = w # ws" and r: "waiters s w = Some r"
    and sc: "sched_inv sc" "\<And>t. tcbs (sch s) t \<noteq> None \<Longrightarrow> tcbs sc t \<noteq> None"
    and s': "sch s' = sc" "waitset s' = (waitset s)(cv := ws)"
      "waiters s' = (waiters s)(w \<mapsto> r\<lparr>removed := True, signalled := b\<rparr>)"
  shows "cc_inv s'"
proof (rule cc_invI)
  note D = cc_invD [OF inv]
  have w: "w \<notin> set ws" "\<And>c. c \<noteq> cv \<Longrightarrow> w \<notin> set (waitset s c)"
    using D(2) [of cv] D(3) [of w cv] ws by auto
  have sub: "v \<in> set (waitset s' c) \<Longrightarrow> v \<in> set (waitset s c) \<and> v \<noteq> w" for v c
    using ws w by (auto simp: s' split: if_splits)
  show "sched_inv (sch s')" using sc s' by simp
  show "distinct (waitset s' c)" for c using D(2) [of c] D(2) [of cv] ws by (auto simp: s')
  show "c = c'" if "v \<in> set (waitset s' c)" "v \<in> set (waitset s' c')" for c c' v
    using that sub D(3) by blast
  show "\<exists>r. waiters s' v = Some r \<and> \<not> removed r" if "v \<in> set (waitset s' c)" for c v
    using sub [OF that] D(4) [of v c] by (simp add: s')
  show "removed x" if "waiters s' v = Some x" "signalled x" for v x
    using that D(5) [of v x] by (cases "v = w") (auto simp: s')
  show "tcbs (sch s') (wthread x) \<noteq> None" if "waiters s' v = Some x" for v x
    using that D(6) [of v x] D(6) [OF r] sc(2) by (cases "v = w") (auto simp: s')
  show "v \<notin> set (waitset s' c)" if "waiters s' v = Some x" "removed x" for v x c
    using that D(7) [of v x c] sub [of v c] by (cases "v = w") (auto simp: s')
  show "v = v'" if "waiters s' v = Some x" "waiters s' v' = Some x'" "wthread x = wthread x'" for v v' x x'
  proof -
    have old: "\<exists>y. waiters s u = Some y \<and> wthread y = wthread z" if "waiters s' u = Some z" for u z
      using that r by (cases "u = w") (auto simp: s')
    from old [OF that(1)] old [OF that(2)] that(3) show ?thesis using D(8) by metis
  qed
qed

lemma signal_round:
  assumes inv: "cc_inv s" and ws: "waitset s cv = w # ws"
  obtains r woke sc where "waiters s w = Some r"
    "wakeup (wthread r) (sch (take_waiter cv ws w s)) = Inr (woke, sc)" "woke = asleep s w"
    "woken cv [w] s (if woke then set_waiter w (\<lambda>r. r\<lparr>signalled := True\<rparr>)
        ((take_waiter cv ws w s)\<lparr>sch := sc\<rparr>) else (take_waiter cv ws w s)\<lparr>sch := sc\<rparr>)"
proof -
  note D = cc_invD [OF inv]
  obtain r where r: "waiters s w = Some r" "\<not> removed r"
    using D(4) [of w cv] ws by auto
  then have ns: "\<not> signalled r" using D(5) by blast
  have eqF: "r\<lparr>removed := True, signalled := False\<rparr> = r\<lparr>removed := True\<rparr>"
    using ns by (cases r) simp
  obtain k where k: "tcbs (sch s) (wthread r) = Some k"
    using D(6) [OF r(1)] by blast
  have as: "asleep s w \<longleftrightarrow> tstate k = STOPPED \<or> tstate k = INIT"
    using r k by (simp add: asleep_def)
  show ?thesis
  proof (cases "asleep s w")
    case True
    let ?sc = "made_ready (wthread r) k (sch s)"
    let ?s' = "set_waiter w (\<lambda>r. r\<lparr>signalled := True\<rparr>) ((take_waiter cv ws w s)\<lparr>sch := ?sc\<rparr>)"
    have wk: "wakeup (wthread r) (sch (take_waiter cv ws w s)) = Inr (True, ?sc)"
      using k as True sched_make_ready_eq [OF D(1) k] by (simp add: wakeup_def get_tcb_def)
    have "cc_inv ?s'"
      using sched_inv_made_ready [OF D(1) k] as True r
      by (intro cc_inv_take [OF inv ws r(1), of ?sc _ True])
         (auto simp: fun_eq_iff set_waiter_def take_waiter_def)
    then have "woken cv [w] s ?s'"
      using ws r k True by (auto simp: woken_def thread_of_def)
    with that [OF r(1) wk] True show ?thesis by simp
  next
    case False
    let ?s' = "(take_waiter cv ws w s)\<lparr>sch := sch s\<rparr>"
    have wk: "wakeup (wthread r) (sch (take_waiter cv ws w s)) = Inr (False, sch s)"
      using k as False by (simp add: wakeup_def get_tcb_def)
    have "cc_inv ?s'"
      using D(1) r eqF
      by (intro cc_inv_take [OF inv ws r(1), of "sch s" _ False])
         (auto simp: fun_eq_iff set_waiter_def take_waiter_def)
    then have "woken cv [w] s ?s'"
      using ws r False eqF by (auto simp: woken_def)
    with that [OF r(1) wk] False show ?thesis by simp
  qed
qed

text \<open>The waiters that a signal takes off: those found awake, and the first one asleep.\<close>

definition signal_span :: "cc \<Rightarrow> nat list \<Rightarrow> nat list" where
  "signal_span s ws = takeWhile (\<lambda>w. \<not> asleep s w) ws @ take 1 (dropWhile (\<lambda>w. \<not> asleep s w) ws)"

lemma signal_span_Cons:
  "signal_span s (w # ws) = (if asleep s w then [w] else w # signal_span s ws)"
  by (simp add: signal_span_def)

lemma signal_span_cong:
  "(\<And>w. w \<in> set ws \<Longrightarrow> asleep s w = asleep s' w) \<Longrightarrow> signal_span s ws = signal_span s' ws"
  by (induction ws) (auto simp: signal_span_Cons signal_span_def)

lemma cv_signal_ok:
  "cc_inv s \<Longrightarrow> \<exists>s'. cv_signal cv s = Inr s' \<and> woken cv (signal_span s (waitset s cv)) s s'"
proof (induction "waitset s cv" arbitrary: s)
  case Nil
  then show ?case by (simp add: cv_signal_def signal_span_def woken_nil [of s cv] flip: Nil(1))
next
  case (Cons w ws)
  note ws = Cons.hyps(2) [symmetric]
  obtain r woke sc where r: "waiters s w = Some r"
    "wakeup (wthread r) (sch (take_waiter cv ws w s)) = Inr (woke, sc)" "woke = asleep s w"
    "woken cv [w] s (if woke then set_waiter w (\<lambda>r. r\<lparr>signalled := True\<rparr>)
        ((take_waiter cv ws w s)\<lparr>sch := sc\<rparr>) else (take_waiter cv ws w s)\<lparr>sch := sc\<rparr>)"
    using signal_round [OF Cons.prems ws] by blast
  show ?case
  proof (cases woke)
    case True
    then have "cv_signal cv s = Inr (set_waiter w (\<lambda>r. r\<lparr>signalled := True\<rparr>)
        ((take_waiter cv ws w s)\<lparr>sch := sc\<rparr>))"
      using r ws by (simp add: cv_signal_def take_waiter_def)
    with True r ws show ?thesis by (simp add: signal_span_Cons)
  next
    case False
    let ?s1 = "(take_waiter cv ws w s)\<lparr>sch := sc\<rparr>"
    have w1: "woken cv [w] s ?s1" using r False by simp
    then have inv1: "cc_inv ?s1" and ws1: "waitset ?s1 cv = ws"
      by (simp_all add: woken_def)
    from Cons.hyps(1) [of ?s1] ws1 inv1 obtain s' where
      s': "cv_signal cv ?s1 = Inr s'" "woken cv (signal_span ?s1 ws) ?s1 s'" by auto
    have "w \<notin> set ws" using cc_invD(2) [OF Cons.prems, of cv] ws by simp
    then have "asleep ?s1 v = asleep s v" if "v \<in> set ws" for v
      using that by (intro asleep_woken [OF Cons.prems w1]) auto
    then have "signal_span ?s1 ws = signal_span s ws" by (rule signal_span_cong)
    with woken_trans [OF Cons.prems w1 s'(2)]
    have "woken cv (w # signal_span s ws) s s'" by simp
    moreover have "cv_signal cv s = Inr s'"
      using r False ws s'(1) ws1 by (simp add: cv_signal_def take_waiter_def)
    ultimately show ?thesis using False r ws by (simp add: signal_span_Cons)
  qed
qed

lemma broadcast_ok:
  "cc_inv s \<Longrightarrow> length (waitset s cv) \<le> fuel \<Longrightarrow>
     \<exists>s'. broadcast_loop fuel cv s = Inr s' \<and> woken cv (waitset s cv) s s'"
proof (induction fuel arbitrary: s)
  case 0
  then show ?case using woken_nil [of s cv] by (simp add: broadcast_loop.simps)
next
  case (Suc fuel)
  show ?case
  proof (cases "waitset s cv")
    case Nil
    with Suc.prems show ?thesis using woken_nil [of s cv] by (simp add: broadcast_loop.simps)
  next
    case (Cons w ws)
    let ?a = "signal_span s (waitset s cv)"
    obtain s1 where s1: "cv_signal cv s = Inr s1" "woken cv ?a s s1"
      using cv_signal_ok [OF Suc.prems(1)] by blast
    then have ws1: "waitset s cv = ?a @ waitset s1 cv" and inv1: "cc_inv s1"
      by (simp_all add: woken_def)
    have "?a \<noteq> []" using Cons by (simp add: signal_span_Cons)
    then have "length (waitset s1 cv) \<le> fuel"
      using Suc.prems(2) arg_cong [OF ws1, of length] by (cases ?a) auto
    from Suc.IH [OF inv1 this] obtain s' where
      s': "broadcast_loop fuel cv s1 = Inr s'" "woken cv (waitset s1 cv) s1 s'" by blast
    have "woken cv (waitset s cv) s s'"
      using woken_trans [OF Suc.prems(1) s1(2) s'(2)] ws1 by simp
    moreover have "broadcast_loop (Suc fuel) cv s = Inr s'"
      using Cons s1 s' by (simp add: broadcast_loop.simps)
    ultimately show ?thesis by blast
  qed
qed


section \<open>Waiting\<close>

lemma sleep_tcbs:
  "sleep_enter c st timeout s = Inr s' \<Longrightarrow> tcbs s t \<noteq> None \<Longrightarrow> tcbs s' t \<noteq> None"
  by (auto simp: sleep_enter_def sched_register_timeout_def Let_def bindE_eq_Inr assertE_def split: if_splits)

definition can_sleep :: "nat \<Rightarrow> u64 \<Rightarrow> sched \<Rightarrow> bool" where
  "can_sleep c timeout s \<longleftrightarrow>
     (\<exists>k. tcbs s (current_thread s c) = Some k \<and> tstate k = RUNNING \<and> ttype k = NORMAL_THREAD) \<and>
     (timeout \<noteq> NO_TIMEOUT \<longrightarrow> bios_clock (vm s) + timeout \<noteq> NO_TIMEOUT)"

lemma cv_wait_enter_ok:
  assumes inv: "cc_inv s" and run: "can_sleep c timeout (sch s)"
    and fresh: "waiters s w = None" "\<And>v. thread_of s v \<noteq> Some (current_thread (sch s) c)"
  shows "\<exists>s'. cv_wait_enter c w cv timeout s = Inr s' \<and> cc_inv s' \<and> asleep s' w \<and>
     waitset s' = (waitset s)(cv := waitset s cv @ [w]) \<and>
     thread_of s' w = Some (current_thread (sch s) c) \<and>
     (\<forall>v. v \<noteq> w \<longrightarrow> waiters s' v = waiters s v) \<and> kernel_sem s' = kernel_sem s"
proof -
  note D = cc_invD [OF inv]
  let ?t = "current_thread (sch s) c"
  from run obtain k where k: "tcbs (sch s) ?t = Some k" "tstate k = RUNNING" "ttype k = NORMAL_THREAD"
    and nw: "timeout \<noteq> NO_TIMEOUT \<Longrightarrow> bios_clock (vm (sch s)) + timeout \<noteq> NO_TIMEOUT"
    by (auto simp: can_sleep_def)
  let ?sc = "slept ?t k (deadline timeout (sch s)) (sch s)"
  let ?r = "\<lparr>wthread = ?t, signalled = False, removed = False\<rparr>"
  let ?s = "s\<lparr>waiters := (waiters s)(w \<mapsto> ?r), waitset := (waitset s)(cv := waitset s cv @ [w]), sch := ?sc\<rparr>"
  have eq: "cv_wait_enter c w cv timeout s = Inr ?s"
    using sleep_enter_eq [OF D(1) k(1,2) nw] by (simp add: cv_wait_enter_def Let_def)
  have w: "w \<notin> set (waitset s c')" for c'
    using D(4) [of w c'] fresh(1) by auto
  have inset: "v \<in> set (waitset ?s c') \<longleftrightarrow> v \<in> set (waitset s c') \<or> v = w \<and> c' = cv" for v c'
    by auto
  have th: "wthread r \<noteq> ?t" if "waiters s v = Some r" for v r
    using fresh(2) [of v] that by (auto simp: thread_of_def)
  have "cc_inv ?s"
  proof (rule cc_invI)
    show "sched_inv (sch ?s)" using sched_inv_slept [OF D(1) k] by simp
    show "distinct (waitset ?s c')" for c' using D(2) [of c'] w by auto
    show "c1 = c2" if "v \<in> set (waitset ?s c1)" "v \<in> set (waitset ?s c2)" for c1 c2 v
      using that D(3) w unfolding inset by blast
    show "\<exists>r. waiters ?s v = Some r \<and> \<not> removed r" if "v \<in> set (waitset ?s c')" for c' v
      using that D(4) [of v c'] unfolding inset by (cases "v = w") auto
    show "removed r" if "waiters ?s v = Some r" "signalled r" for v r
      using that D(5) [of v r] by (cases "v = w") auto
    show "tcbs (sch ?s) (wthread r) \<noteq> None" if "waiters ?s v = Some r" for v r
      using that D(6) [of v r] k(1) by (cases "v = w") auto
    show "v \<notin> set (waitset ?s c')" if "waiters ?s v = Some r" "removed r" for v r c'
      using that D(7) [of v r c'] unfolding inset by (cases "v = w") auto
    show "v = v'" if "waiters ?s v = Some r" "waiters ?s v' = Some r'" "wthread r = wthread r'" for v v' r r'
    proof (cases "v = w \<or> v' = w")
      case True
      with that th [of v r] th [of v' r'] show ?thesis
        by (cases "v = w"; cases "v' = w") auto
    next
      case False
      with that D(8) [of v r v' r'] show ?thesis by simp
    qed
  qed
  with eq k show ?thesis by (auto simp: asleep_def thread_of_def)
qed

lemma cv_wait_resume_ok:
  assumes inv: "cc_inv s" and r: "waiters s w = Some r" and on: "\<not> removed r \<Longrightarrow> w \<in> set (waitset s cv)"
  shows "\<exists>s'. cv_wait_resume w cv s = Inr (signalled r, s') \<and> cc_inv s' \<and> sch s' = sch s \<and>
     waitset s' = (waitset s)(cv := removeAll w (waitset s cv)) \<and> waiters s' = (waiters s)(w := None)"
proof -
  note D = cc_invD [OF inv]
  let ?s = "s\<lparr>waitset := (waitset s)(cv := removeAll w (waitset s cv)), waiters := (waiters s)(w := None)\<rparr>"
  have "removeAll w (waitset s cv) = waitset s cv" if "removed r"
    using D(7) [OF r that] by (simp add: removeAll_id)
  then have eq: "cv_wait_resume w cv s = Inr (signalled r, ?s)"
    using r D(5) [OF r]
    by (cases "removed r"; cases "signalled r")
       (simp_all add: cv_wait_resume_def remove_from_ring_def assertE_def fun_upd_idem)
  have sub: "v \<in> set (waitset ?s c) \<Longrightarrow> v \<in> set (waitset s c) \<and> v \<noteq> w" for v c
    using on D(7) [OF r] D(3) [of w c cv] by (cases "removed r") (auto split: if_splits)
  have "cc_inv ?s"
  proof (rule cc_invI)
    show "sched_inv (sch ?s)" using D(1) by simp
    show "distinct (waitset ?s c)" for c using D(2) [of c] by (auto simp: distinct_removeAll)
    show "c1 = c2" if "v \<in> set (waitset ?s c1)" "v \<in> set (waitset ?s c2)" for c1 c2 v
      using that sub D(3) by blast
    show "\<exists>r. waiters ?s v = Some r \<and> \<not> removed r" if "v \<in> set (waitset ?s c)" for c v
      using sub [OF that] D(4) by auto
    show "removed x" if "waiters ?s v = Some x" "signalled x" for v x
      using that D(5) by (auto split: if_splits)
    show "tcbs (sch ?s) (wthread x) \<noteq> None" if "waiters ?s v = Some x" for v x
      using that D(6) by (auto split: if_splits)
    show "v \<notin> set (waitset ?s c)" if "waiters ?s v = Some x" "removed x" for v x c
    proof -
      have "waiters s v = Some x" using that(1) by (simp split: if_splits)
      then have "v \<notin> set (waitset s c)" using D(7) that(2) by blast
      then show ?thesis using sub by blast
    qed
    show "v = v'" if "waiters ?s v = Some x" "waiters ?s v' = Some x'" "wthread x = wthread x'" for v v' x x'
    proof -
      have "waiters s v = Some x" "waiters s v' = Some x'"
        using that(1,2) by (auto split: if_splits)
      with that(3) show ?thesis using D(8) by metis
    qed
  qed
  with eq show ?thesis by auto
qed

section \<open>The kernel lock as a monitor\<close>

lemma cv_signal_sem: "cv_signal cv s = Inr s' \<Longrightarrow> kernel_sem s' = kernel_sem s"
proof -
  have "cv_signal_loop cv ws s = Inr s' \<Longrightarrow> kernel_sem s' = kernel_sem s" for ws s
    by (induction cv ws s rule: cv_signal_loop.induct)
       (auto simp: bindE_eq_Inr Let_def split: if_splits)
  then show "cv_signal cv s = Inr s' \<Longrightarrow> ?thesis" by (simp add: cv_signal_def)
qed

lemma cv_wait_enter_sem: "cv_wait_enter c w cv timeout s = Inr s' \<Longrightarrow> kernel_sem s' = kernel_sem s"
  by (auto simp: cv_wait_enter_def Let_def bindE_eq_Inr)

lemma cv_wait_resume_sem: "cv_wait_resume w cv s = Inr (b, s') \<Longrightarrow> kernel_sem s' = kernel_sem s"
  by (auto simp: cv_wait_resume_def bindE_eq_Inr remove_from_ring_def split: if_splits)

lemma kernel_unlock_sem: "kernel_unlock s = Inr s' \<Longrightarrow> kernel_sem s' = kernel_sem s + 1"
  using cv_signal_sem by (auto simp: kernel_unlock_def Cond_Signal_def)

lemma kernel_wait_enter_sem:
  "kernel_wait_enter c w cv timeout s = Inr s' \<Longrightarrow> kernel_sem s' = kernel_sem s + 1"
  by (auto simp: kernel_wait_enter_def bindE_eq_Inr dest!: kernel_unlock_sem cv_wait_enter_sem)

lemma kernel_lock_round_sem:
  "kernel_lock_round c w s = Inr (True, s') \<Longrightarrow> kernel_sem s > 0 \<and> kernel_sem s' = kernel_sem s - 1"
  "kernel_lock_round c w s = Inr (False, s') \<Longrightarrow> kernel_sem s' = kernel_sem s"
  by (auto simp: kernel_lock_round_def bindE_eq_Inr dest!: cv_wait_enter_sem split: if_splits)

text \<open>
  Where a thread is with respect to the kernel lock: outside, in the loop that takes the
  semaphore, asleep in that loop, inside the kernel, or waiting for a condition of the kernel.
\<close>

datatype kernel_pc = Outside | Locking | Queued nat | Inside | Waiting nat cvname

inductive kernel_step :: "(tcbp \<Rightarrow> kernel_pc) \<times> cc \<Rightarrow> (tcbp \<Rightarrow> kernel_pc) \<times> cc \<Rightarrow> bool" where
  call: "pc t = Outside \<Longrightarrow> kernel_step (pc, s) (pc(t := Locking), s)"
| take: "pc t = Locking \<Longrightarrow> current_thread (sch s) c = t \<Longrightarrow> kernel_lock_round c w s = Inr (True, s') \<Longrightarrow>
     kernel_step (pc, s) (pc(t := Inside), s')"
| sleep: "pc t = Locking \<Longrightarrow> current_thread (sch s) c = t \<Longrightarrow> kernel_lock_round c w s = Inr (False, s') \<Longrightarrow>
     kernel_step (pc, s) (pc(t := Queued w), s')"
| wake: "pc t = Queued w \<Longrightarrow> cv_wait_resume w Kernel_sem_cv s = Inr (b, s') \<Longrightarrow>
     kernel_step (pc, s) (pc(t := Locking), s')"
| wait: "pc t = Inside \<Longrightarrow> current_thread (sch s) c = t \<Longrightarrow> kernel_wait_enter c w cv timeout s = Inr s' \<Longrightarrow>
     kernel_step (pc, s) (pc(t := Waiting w cv), s')"
| resume: "pc t = Waiting w cv \<Longrightarrow> cv_wait_resume w cv s = Inr (b, s') \<Longrightarrow>
     kernel_step (pc, s) (pc(t := Locking), s')"
| signal: "pc t = Inside \<Longrightarrow> kernel_signal cv s = Inr s' \<Longrightarrow> kernel_step (pc, s) (pc, s')"
| leave: "pc t = Inside \<Longrightarrow> kernel_unlock s = Inr s' \<Longrightarrow> kernel_step (pc, s) (pc(t := Outside), s')"
| schedule: "kernel_step (pc, s) (pc, s\<lparr>sch := sc\<rparr>)"

text \<open>The semaphore counts the threads inside the kernel down from one.\<close>

definition lock_inv :: "(tcbp \<Rightarrow> kernel_pc) \<times> cc \<Rightarrow> bool" where
  "lock_inv = (\<lambda>(pc, s). (kernel_sem s = 1 \<and> (\<forall>t. pc t \<noteq> Inside)) \<or>
     (kernel_sem s = 0 \<and> (\<exists>t. pc t = Inside \<and> (\<forall>u. pc u = Inside \<longrightarrow> u = t))))"

lemma lock_inv_enter:
  assumes "lock_inv (pc, s)" "kernel_sem s > 0" "kernel_sem s' = kernel_sem s - 1"
  shows "lock_inv (pc(t := Inside), s')"
  using assms by (auto simp: lock_inv_def)

lemma lock_inv_leave:
  assumes "lock_inv (pc, s)" "pc t = Inside" "p \<noteq> Inside" "kernel_sem s' = kernel_sem s + 1"
  shows "lock_inv (pc(t := p), s')"
  using assms by (auto simp: lock_inv_def)

lemma lock_inv_other:
  assumes "lock_inv (pc, s)" "pc t \<noteq> Inside" "p \<noteq> Inside" "kernel_sem s' = kernel_sem s"
  shows "lock_inv (pc(t := p), s')"
  using assms by (auto simp: lock_inv_def)

lemma lock_inv_step: "kernel_step x y \<Longrightarrow> lock_inv x \<Longrightarrow> lock_inv y"
proof (induction rule: kernel_step.induct)
  case (take pc t s c w s')
  then show ?case using kernel_lock_round_sem(1) by (blast intro: lock_inv_enter)
next
  case (sleep pc t s c w s')
  then show ?case using kernel_lock_round_sem(2) by (auto intro: lock_inv_other)
next
  case (wait pc t s c w cv timeout s')
  then show ?case using kernel_wait_enter_sem by (auto intro: lock_inv_leave)
next
  case (leave pc t s s')
  then show ?case using kernel_unlock_sem by (auto intro: lock_inv_leave)
next
  case (signal pc t cv s s')
  then show ?case using cv_signal_sem by (auto simp: lock_inv_def kernel_signal_def Cond_Signal_def)
next
  case (schedule pc s sc)
  then show ?case by (simp add: lock_inv_def)
qed (auto intro: lock_inv_other dest: cv_wait_resume_sem)


section \<open>Mutual exclusion of the spinning mutex\<close>

text \<open>
  Any number of threads, each in its own call of \<^verbatim>\<open>Mutex_Lock\<close> on some core, interleaved one
  step at a time; \<^verbatim>\<open>None\<close> is a thread that does not want the mutex.
\<close>

inductive mutex_step :: "nat \<Rightarrow> (nat \<Rightarrow> spin_pc option) \<times> cc \<Rightarrow> (nat \<Rightarrow> spin_pc option) \<times> cc \<Rightarrow> bool"
  for m where
  start: "pcs t = None \<Longrightarrow> mutex_step m (pcs, s) (pcs(t \<mapsto> Test_and_set), s)"
| run: "pcs t = Some pc \<Longrightarrow> mutex_lock_step c m pc s = (pc', s') \<Longrightarrow>
     mutex_step m (pcs, s) (pcs(t \<mapsto> pc'), s')"
| release: "pcs t = Some Acquired \<Longrightarrow> mutex_step m (pcs, s) (pcs(t := None), Mutex_Unlock m s)"

definition mutex_inv :: "nat \<Rightarrow> (nat \<Rightarrow> spin_pc option) \<times> cc \<Rightarrow> bool" where
  "mutex_inv m = (\<lambda>(pcs, s). (mutexes s m \<longleftrightarrow> (\<exists>t. pcs t = Some Acquired)) \<and>
     (\<forall>t u. pcs t = Some Acquired \<longrightarrow> pcs u = Some Acquired \<longrightarrow> t = u))"

lemma mutex_lock_step_cases:
  assumes "mutex_lock_step c m pc s = (pc', s')"
  shows "(pc = Acquired \<and> pc' = Acquired \<and> s' = s) \<or> (pc \<noteq> Acquired \<and> pc' \<noteq> Acquired \<and> mutexes s' m = mutexes s m) \<or>
     (pc = Test_and_set \<and> pc' = Acquired \<and> \<not> mutexes s m \<and> mutexes s' m)"
  using assms by (cases pc) (auto simp: mutex_lock_step_def test_and_set_def split: if_splits)

lemma mutex_inv_step: "mutex_step m x y \<Longrightarrow> mutex_inv m x \<Longrightarrow> mutex_inv m y"
proof (induction rule: mutex_step.induct)
  case (run pcs t pc c s pc' s')
  from mutex_lock_step_cases [OF run.hyps(2)] show ?case
  proof (elim disjE)
    assume "pc = Acquired \<and> pc' = Acquired \<and> s' = s"
    with run show ?thesis by (simp add: fun_upd_idem)
  next
    assume h: "pc \<noteq> Acquired \<and> pc' \<noteq> Acquired \<and> mutexes s' m = mutexes s m"
    then have "(pcs(t \<mapsto> pc')) u = Some Acquired \<longleftrightarrow> pcs u = Some Acquired" for u
      using run.hyps(1) by simp
    with h run.prems show ?thesis by (simp add: mutex_inv_def)
  next
    assume "pc = Test_and_set \<and> pc' = Acquired \<and> \<not> mutexes s m \<and> mutexes s' m"
    with run.prems show ?thesis by (auto simp: mutex_inv_def)
  qed
next
  case (start pcs t s)
  then have "(pcs(t \<mapsto> Test_and_set)) u = Some Acquired \<longleftrightarrow> pcs u = Some Acquired" for u
    by simp
  with start.prems show ?case by (simp add: mutex_inv_def)
next
  case (release pcs t s)
  then have "(pcs(t := None)) u \<noteq> Some Acquired" for u
    by (auto simp: mutex_inv_def)
  then show ?case by (simp add: mutex_inv_def Mutex_Unlock_def)
qed

section \<open>An example state\<close>

definition example_cc :: cc where
  "example_cc = \<lparr>sch = example_sched, waitset = (\<lambda>_. [])(Child_exit 0 := [7]),
     waiters = [7 \<mapsto> \<lparr>wthread = Thr 3, signalled = False, removed = False\<rparr>],
     mutexes = (\<lambda>_. False), kernel_sem = 1, preemption = (\<lambda>_. True)\<rparr>"

lemma example_cc_sel [simp]:
  "sch example_cc = example_sched" "waitset example_cc = (\<lambda>_. [])(Child_exit 0 := [7])"
  "waiters example_cc = [7 \<mapsto> \<lparr>wthread = Thr 3, signalled = False, removed = False\<rparr>]"
  "kernel_sem example_cc = 1" "mutexes example_cc m = False"
  by (simp_all add: example_cc_def)

lemma example_cc_inv: "cc_inv example_cc"
  by (rule cc_invI) (auto simp: example_inv split: if_splits)

lemma example_can_sleep: "can_sleep 0 NO_TIMEOUT (sch example_cc)"
  by (auto simp: can_sleep_def)

section \<open>The properties of the concurrency control\<close>

text \<open>
  C1: the kernel lock is a lock. In every interleaving of system calls that enter, wait
  inside, signal and leave the kernel, with any scheduling in between, at most one thread is
  inside the kernel, and when none is, the semaphore is free: it cannot be lost by a wait, a
  timeout or a wake-up.
\<close>

theorem kernel_lock_exclusive:
  assumes "kernel_step\<^sup>*\<^sup>* (\<lambda>_. Outside, s0) (pc, s)" and "kernel_sem s0 = 1"
  shows "(pc t = Inside \<and> pc u = Inside \<longrightarrow> t = u) \<and> ((\<forall>t. pc t \<noteq> Inside) \<longrightarrow> kernel_sem s = 1)"
proof -
  have "lock_inv (\<lambda>_. Outside, s0)" using assms(2) by (simp add: lock_inv_def)
  with assms(1) have "lock_inv (pc, s)"
    by (induction rule: rtranclp_induct) (auto intro: lock_inv_step)
  then show ?thesis by (auto simp: lock_inv_def)
qed

theorem kernel_lock_exclusive_witness:
  "{t. ((\<lambda>_. Outside)(current_thread example_sched 0 := Inside)) t = Inside} \<subseteq> {current_thread example_sched 0}"
proof -
  let ?t = "current_thread example_sched 0"
  let ?p0 = "\<lambda>_. Outside" and ?p1 = "(\<lambda>_. Outside)(?t := Locking)" and ?p2 = "(\<lambda>_. Outside)(?t := Inside)"
  let ?s = "example_cc\<lparr>kernel_sem := 0\<rparr>"
  have "kernel_step (?p0, example_cc) (?p1, example_cc)" by (rule kernel_step.call) simp
  moreover have "kernel_step (?p1, example_cc) (?p1(?t := Inside), ?s)"
    by (rule kernel_step.take [of _ _ _ 0 8]) (simp_all add: kernel_lock_round_def)
  then have "kernel_step (?p1, example_cc) (?p2, ?s)" by simp
  ultimately have run: "kernel_step\<^sup>*\<^sup>* (?p0, example_cc) (?p2, ?s)"
    by (meson converse_rtranclp_into_rtranclp r_into_rtranclp)
  show ?thesis
  proof (rule subsetI)
    fix t assume "t \<in> {t. ?p2 t = Inside}"
    then have "?p2 t = Inside" by (rule CollectD)
    moreover have "?p2 ?t = Inside" by (rule fun_upd_same)
    ultimately have "t = ?t"
      by (rule kernel_lock_exclusive [OF run example_cc_sel(4), THEN conjunct1, THEN mp, OF conjI])
    then show "t \<in> {?t}" by (simp only: singleton_iff)
  qed
qed

text \<open>
  \<^verbatim>\<open>Cond_Signal\<close> wakes the first waiter that is still asleep, and only that one: the
  waiters before it, which a timeout or another wake-up has reached first, are taken off the
  ring without being signalled, and no signal is spent on them.
\<close>

theorem signal_wakes_first_sleeper:
  assumes "cc_inv s" and "waitset s cv = awake @ w # rest"
    and "\<forall>v \<in> set awake. \<not> asleep s v" and "asleep s w"
  shows "\<exists>s' t k. Cond_Signal cv s = Inr s' \<and> cc_inv s' \<and> waitset s' cv = rest \<and>
     (\<forall>c. c \<noteq> cv \<longrightarrow> waitset s' c = waitset s c) \<and>
     thread_of s w = Some t \<and> tcbs (sch s') t = Some k \<and> tstate k = READY \<and>
     (\<forall>u. u \<noteq> t \<longrightarrow> tcbs (sch s') u = tcbs (sch s) u) \<and>
     (\<forall>v r. waiters s' v = Some r \<longrightarrow> v = w \<longrightarrow> signalled r \<and> removed r) \<and>
     (\<forall>v r. waiters s' v = Some r \<longrightarrow> v \<in> set awake \<longrightarrow> \<not> signalled r \<and> removed r)"
proof -
  have span: "signal_span s (waitset s cv) = awake @ [w]"
    unfolding assms(2) using assms(3,4) by (simp add: signal_span_def)
  obtain s' where s': "cv_signal cv s = Inr s'" "woken cv (awake @ [w]) s s'"
    using cv_signal_ok [OF assms(1), of cv] span by auto
  obtain r k where r: "waiters s w = Some r" "tcbs (sch s) (wthread r) = Some k"
    using assms(4) by (auto simp: asleep_def)
  have w: "w \<notin> set awake" using assms(3,4) by auto
  have th: "(\<exists>v \<in> set (awake @ [w]). thread_of s v = Some u \<and> asleep s v) \<longleftrightarrow> u = wthread r" for u
    using assms(3,4) r by (auto simp: thread_of_def)
  have t: "tcbs (sch s') u = (if u = wthread r then
      map_option (\<lambda>k. k\<lparr>wakeup_time := NO_TIMEOUT, tstate := READY\<rparr>) (tcbs (sch s) u) else tcbs (sch s) u)" for u
    using s'(2) unfolding woken_def th by blast
  have ws: "waiters s' v = (if v \<in> set (awake @ [w])
        then map_option (\<lambda>r. r\<lparr>removed := True, signalled := asleep s v\<rparr>) (waiters s v)
        else waiters s v)" for v
    using s'(2) unfolding woken_def by blast
  have "\<forall>v r. waiters s' v = Some r \<longrightarrow> v = w \<longrightarrow> signalled r \<and> removed r"
    using assms(4) by (auto simp: ws)
  moreover have "\<forall>v r. waiters s' v = Some r \<longrightarrow> v \<in> set awake \<longrightarrow> \<not> signalled r \<and> removed r"
    using assms(3) by (auto simp: ws)
  moreover have "cc_inv s'" "waitset s' cv = rest" "\<forall>c. c \<noteq> cv \<longrightarrow> waitset s' c = waitset s c"
    using s'(2) assms(2) by (simp_all add: woken_def)
  moreover have "Cond_Signal cv s = Inr s'" using s'(1) by (simp add: Cond_Signal_def)
  moreover have "thread_of s w = Some (wthread r)" using r by (simp add: thread_of_def)
  ultimately show ?thesis using t r(2) by auto
qed

theorem signal_wakes_first_sleeper_witness:
  "\<exists>s' t k. Cond_Signal (Child_exit 0) example_cc = Inr s' \<and> cc_inv s' \<and> waitset s' (Child_exit 0) = [] \<and>
     thread_of example_cc 7 = Some t \<and> tcbs (sch s') t = Some k \<and> tstate k = READY"
  using signal_wakes_first_sleeper [OF example_cc_inv, of "Child_exit 0" "[]" 7 "[]"]
  by (auto simp: asleep_def)

text \<open>
  \<^verbatim>\<open>Cond_Broadcast\<close> ends, empties the ring, makes the thread of every waiter that was
  still asleep ready, and marks as signalled exactly those waiters.
\<close>

theorem broadcast_wakes_all:
  assumes "cc_inv s"
  shows "\<exists>s'. Cond_Broadcast cv s = Inr s' \<and> cc_inv s' \<and> waitset s' cv = [] \<and>
     (\<forall>c. c \<noteq> cv \<longrightarrow> waitset s' c = waitset s c) \<and>
     (\<forall>w \<in> set (waitset s cv). waiters s' w =
        map_option (\<lambda>r. r\<lparr>removed := True, signalled := asleep s w\<rparr>) (waiters s w)) \<and>
     (\<forall>t. tcbs (sch s') t = (if \<exists>w \<in> set (waitset s cv). thread_of s w = Some t \<and> asleep s w
        then map_option (\<lambda>k. k\<lparr>wakeup_time := NO_TIMEOUT, tstate := READY\<rparr>) (tcbs (sch s) t)
        else tcbs (sch s) t))"
proof -
  obtain s' where s': "broadcast_loop (length (waitset s cv)) cv s = Inr s'" "woken cv (waitset s cv) s s'"
    using broadcast_ok [OF assms order_refl] by blast
  then show ?thesis
    by (intro exI [of _ s']) (simp add: Cond_Broadcast_def woken_def)
qed

theorem broadcast_wakes_all_witness:
  "\<exists>s'. Cond_Broadcast (Child_exit 0) example_cc = Inr s' \<and> cc_inv s' \<and> waitset s' (Child_exit 0) = []"
  using broadcast_wakes_all [OF example_cc_inv] by blast

text \<open>
  A wait that is signalled. A running thread that waits on a condition where nobody else
  is asleep is woken by the next signal; its wait then returns 1, and no trace of the waiter is
  left.
\<close>

theorem signalled_wait_returns_true:
  assumes "cc_inv s" and "can_sleep c timeout (sch s)" and "waiters s w = None"
    and "\<forall>v. thread_of s v \<noteq> Some (current_thread (sch s) c)"
    and "\<forall>v \<in> set (waitset s cv). \<not> asleep s v"
  shows "\<exists>s1 s2 s3. cv_wait_enter c w cv timeout s = Inr s1 \<and> cv_signal cv s1 = Inr s2 \<and>
     cv_wait_resume w cv s2 = Inr (True, s3) \<and> cc_inv s3 \<and> waitset s3 cv = [] \<and> waiters s3 w = None \<and>
     (\<exists>k. tcbs (sch s3) (current_thread (sch s) c) = Some k \<and> tstate k = READY)"
proof -
  let ?t = "current_thread (sch s) c"
  obtain s1 where s1: "cv_wait_enter c w cv timeout s = Inr s1" "cc_inv s1" "asleep s1 w"
      "waitset s1 = (waitset s)(cv := waitset s cv @ [w])" "thread_of s1 w = Some ?t"
    using cv_wait_enter_ok [OF assms(1-3), of cv] assms(4) by blast
  let ?a = "takeWhile (\<lambda>v. \<not> asleep s1 v) (waitset s cv)"
  let ?d = "dropWhile (\<lambda>v. \<not> asleep s1 v) (waitset s cv)"
  have "\<not> asleep s1 v" if "v \<in> set (waitset s cv)" for v
  proof -
    have vw: "v \<noteq> w" using that assms(3) cc_invD(4) [OF assms(1)] by force
    from cc_invD(4) [OF assms(1) that] obtain r where r: "waiters s v = Some r" by blast
    then have "wthread r \<noteq> ?t" using assms(4) by (auto simp: thread_of_def)
    moreover have "waiters s1 = (waiters s)(w \<mapsto> \<lparr>wthread = ?t, signalled = False, removed = False\<rparr>)"
      using s1(1) by (auto simp: cv_wait_enter_def Let_def bindE_eq_Inr)
    moreover have "tcbs (sch s1) u = tcbs (sch s) u" if "u \<noteq> ?t" for u
      using s1(1) that
      by (auto simp: cv_wait_enter_def Let_def bindE_eq_Inr sleep_enter_def sched_register_timeout_def
          split: if_splits)
    ultimately show ?thesis
      using assms(5) that r vw unfolding asleep_def by auto
  qed
  then have span: "signal_span s1 (waitset s1 cv) = waitset s1 cv"
    using s1(3) by (simp add: s1(4) signal_span_def)
  obtain s2 where s2: "cv_signal cv s1 = Inr s2" "woken cv (waitset s1 cv) s1 s2"
    using cv_signal_ok [OF s1(2), of cv] span by auto
  obtain r where r: "waiters s1 w = Some r" "wthread r = ?t" using s1(5) by (auto simp: thread_of_def)
  have w1: "w \<in> set (waitset s1 cv)" using s1(4) by simp
  have r2: "waiters s2 w = Some (r\<lparr>removed := True, signalled := True\<rparr>)"
    using s2(2) r(1) w1 s1(3) by (simp add: woken_def)
  have inv2: "cc_inv s2" "waitset s2 cv = []" using s2(2) by (simp_all add: woken_def)
  obtain s3 where s3: "cv_wait_resume w cv s2 = Inr (True, s3)" "cc_inv s3" "sch s3 = sch s2"
      "waitset s3 = (waitset s2)(cv := removeAll w (waitset s2 cv))" "waiters s3 = (waiters s2)(w := None)"
    using cv_wait_resume_ok [OF inv2(1) r2, of cv] by auto
  obtain k where k: "tcbs (sch s1) ?t = Some k" using cc_invD(6) [OF s1(2) r(1)] r(2) by auto
  have "tcbs (sch s2) ?t = map_option (\<lambda>k. k\<lparr>wakeup_time := NO_TIMEOUT, tstate := READY\<rparr>) (tcbs (sch s1) ?t)"
    using s2(2) w1 s1(3,5) unfolding woken_def by auto
  with s1 s2 s3 k inv2 show ?thesis by auto
qed

theorem signalled_wait_returns_true_witness:
  "\<exists>s1 s2 s3. cv_wait_enter 0 8 Kernel_sem_cv NO_TIMEOUT example_cc = Inr s1 \<and>
     cv_signal Kernel_sem_cv s1 = Inr s2 \<and> cv_wait_resume 8 Kernel_sem_cv s2 = Inr (True, s3) \<and> cc_inv s3"
proof -
  have "\<forall>v. thread_of example_cc v \<noteq> Some (current_thread (sch example_cc) 0)"
    by (simp add: thread_of_def)
  with signalled_wait_returns_true [OF example_cc_inv example_can_sleep, of 8 Kernel_sem_cv]
  show ?thesis by auto
qed

text \<open>
  C9: \<^verbatim>\<open>Mutex_Lock\<close> and \<^verbatim>\<open>Mutex_Unlock\<close> give mutual exclusion, for any number of threads on
  any cores, spinning or yielding in any interleaving.
\<close>

theorem mutex_exclusive:
  assumes "(mutex_step m)\<^sup>*\<^sup>* (\<lambda>_. None, s0) (pcs, s)" and "\<not> mutexes s0 m"
  shows "pcs t = Some Acquired \<and> pcs u = Some Acquired \<longrightarrow> t = u"
proof -
  have "mutex_inv m (\<lambda>_. None, s0)" using assms(2) by (simp add: mutex_inv_def)
  with assms(1) have "mutex_inv m (pcs, s)"
    by (induction rule: rtranclp_induct) (auto intro: mutex_inv_step)
  then show ?thesis by (auto simp: mutex_inv_def)
qed

lemma two_steps: "r x y \<Longrightarrow> r y z \<Longrightarrow> r\<^sup>*\<^sup>* x z"
  by (meson converse_rtranclp_into_rtranclp r_into_rtranclp)

theorem mutex_exclusive_witness:
  "{t. [1 \<mapsto> Acquired] t = Some Acquired} \<subseteq> {1 :: nat}"
proof -
  let ?p0 = "\<lambda>_::nat. None :: spin_pc option" and ?p1 = "[(1::nat) \<mapsto> Test_and_set]" and ?p2 = "[(1::nat) \<mapsto> Acquired]"
  let ?s = "snd (test_and_set 0 example_cc)"
  have a: "mutex_step 0 (?p0, example_cc) (?p1, example_cc)"
    by (rule mutex_step.start) simp
  have "mutex_step 0 (?p1, example_cc) (?p1(1 \<mapsto> Acquired), ?s)"
    by (rule mutex_step.run [of _ _ Test_and_set 0]) (simp_all add: mutex_lock_step_def test_and_set_def)
  then have b: "mutex_step 0 (?p1, example_cc) (?p2, ?s)" by simp
  have m: "\<not> mutexes example_cc 0" by simp
  show ?thesis
  proof (rule subsetI)
    fix t assume "t \<in> {t. ?p2 t = Some Acquired}"
    then have "?p2 t = Some Acquired" by (rule CollectD)
    moreover have "?p2 1 = Some Acquired" by simp
    ultimately have "t = 1"
      by (rule mutex_exclusive [OF two_steps [of "mutex_step 0", OF a b] m, THEN mp, OF conjI])
    then show "t \<in> {1}" by (simp only: singleton_iff)
  qed
qed

end
