(* ===== verification/KState.thy ===== *)
theory KState
  imports Cc
begin

text \<open>
  The state of the kernel: the process table, the process threads, the file table, the
  devices, pipes, sockets, connection requests and information streams, over the state of
  concurrency control and the scheduler. The objects of \<^verbatim>\<open>malloc\<close> live at addresses; a freed
  address is never used again, so that an access to freed memory is a fault of the model.
  Structures are those of \<^verbatim>\<open>src/kernel_proc.h\<close>, \<^verbatim>\<open>src/kernel_streams.h\<close>,
  \<^verbatim>\<open>src/kernel_pipe.h\<close>, \<^verbatim>\<open>src/kernel_dev.h\<close> and \<^verbatim>\<open>src/kernel_socket.c\<close>.
\<close>

section \<open>Constants\<close>

definition MAX_PROC :: nat where "MAX_PROC = 65536"
definition MAX_FILEID :: nat where "MAX_FILEID = 16"
definition MAX_FILES :: nat where "MAX_FILES = MAX_PROC"
definition BUFF_SIZE :: nat where "BUFF_SIZE = 16384"
definition MAX_PORT :: nat where "MAX_PORT = 1023"
definition NOPROC :: int where "NOPROC = -1"
definition NOFILE :: int where "NOFILE = -1"
definition PROCINFO_MAX_ARGS_SIZE :: nat where "PROCINFO_MAX_ARGS_SIZE = 128"

section \<open>Processes and their threads\<close>

datatype pid_state = FREE | ALIVE | ZOMBIE

text \<open>
  A pointer to a PCB is its index in \<^verbatim>\<open>PT\<close>. The intrusive lists hold the indices of the
  processes, or the addresses of the threads, whose nodes are on them.
\<close>

record pcb =
  pstate :: pid_state
  parent :: "nat option"
  exitval :: int
  main_thread :: "nat option"
  children_list :: "nat list"
  exited_list :: "nat list"
  FIDT :: "nat \<Rightarrow> nat option"
  ptcb_list :: "nat list"
  thread_count :: u64

text \<open>
  The argument block of a thread: none, memory of the kernel that holds a copy of the bytes, or
  an address that the user gave.
\<close>

datatype argptr = No_args | Owned "byte list" | User_args nat

record ptcb =
  powner :: nat
  pthread :: "tcbp option"
  pexitval :: int
  waiting_threads :: int
  detached :: bool
  main_task :: "nat option"
  argl :: int
  args :: argptr

section \<open>Files and devices\<close>

datatype device_type = DEV_NULL | DEV_SERIAL

text \<open>
  A stream object is a pointer to one of these structures; a \<^verbatim>\<open>file_ops\<close> table is named by its
  variable.
\<close>

datatype streamobj =
    Null_object
  | Serial_dcb nat
  | Pipe_obj nat
  | Scb_obj nat
  | Info_obj nat

datatype file_ops = Nulldev_fops | Serial_fops | Reader_ops | Writer_ops | Socket_ops | Info_ops

record fcb =
  refcount :: u32
  streamobj :: streamobj
  streamfunc :: "file_ops option"

section \<open>Pipes, sockets and information streams\<close>

record pipecb =
  buffer :: "nat \<Rightarrow> byte"
  write_p :: u32
  read_p :: u32
  available_space :: u32
  reader_closed :: bool
  writer_closed :: bool

datatype socket_type = UNBOUND | LISTENER | PEER

text \<open>
  A socket control block. The two halves of the union are kept apart; the code tells them apart
  by the type.
\<close>

record scb =
  srefcount :: int
  port :: nat
  stype :: socket_type
  req_queue :: "nat list"
  peer :: "nat option"
  send :: "nat option"
  receive :: "nat option"
  sfid :: int

record conn_req =
  csocket :: nat
  accepted :: bool

record procinfo =
  info_pid :: int
  info_ppid :: int
  info_alive :: bool
  info_thread_count :: u64
  info_main_task :: "nat option"
  info_argl :: int
  info_args :: "byte list"

record infocb =
  info_table :: "procinfo list"
  info_index :: u32

section \<open>The kernel\<close>

text \<open>
  \<open>malloc_ok n\<close> says whether the request that would get address \<open>n\<close> succeeds. \<open>kbd_input\<close> and
  \<open>con_output\<close> are the results of the coming reads and writes of the serial devices.
  \<open>env_yield\<close> is what other threads do to the scheduling state while a thread that holds the
  kernel lock has yielded; they cannot enter the kernel, so the rest of the state is as
  before.
\<close>

record kernel =
  cc :: cc
  PT :: "nat \<Rightarrow> pcb"
  pcb_freelist :: "nat option"
  process_count :: u32
  ptcbs :: "nat \<Rightarrow> ptcb option"
  FT :: "nat \<Rightarrow> fcb"
  FCB_freelist :: "nat list"
  pipes :: "nat \<Rightarrow> pipecb option"
  scbs :: "nat \<Rightarrow> scb option"
  conn_reqs :: "nat \<Rightarrow> conn_req option"
  infos :: "nat \<Rightarrow> infocb option"
  PortMap :: "nat \<Rightarrow> nat option"
  devnum :: "device_type \<Rightarrow> nat"
  next_addr :: nat
  malloc_ok :: "nat \<Rightarrow> bool"
  kbd_input :: "nat \<Rightarrow> io_result list list"
  con_output :: "nat \<Rightarrow> io_result list list"
  env_yield :: "cc \<Rightarrow> cc"

section \<open>Access\<close>

definition upd_pcb :: "nat \<Rightarrow> (pcb \<Rightarrow> pcb) \<Rightarrow> kernel \<Rightarrow> kernel" where
  "upd_pcb p f k = k\<lparr>PT := (PT k)(p := f (PT k p))\<rparr>"

definition upd_fcb :: "nat \<Rightarrow> (fcb \<Rightarrow> fcb) \<Rightarrow> kernel \<Rightarrow> kernel" where
  "upd_fcb n f k = k\<lparr>FT := (FT k)(n := f (FT k n))\<rparr>"

definition upd_ptcb :: "nat \<Rightarrow> (ptcb \<Rightarrow> ptcb) \<Rightarrow> kernel \<Rightarrow> kernel" where
  "upd_ptcb a f k = k\<lparr>ptcbs := (ptcbs k)(a := map_option f (ptcbs k a))\<rparr>"

definition upd_pipe :: "nat \<Rightarrow> (pipecb \<Rightarrow> pipecb) \<Rightarrow> kernel \<Rightarrow> kernel" where
  "upd_pipe a f k = k\<lparr>pipes := (pipes k)(a := map_option f (pipes k a))\<rparr>"

definition upd_scb :: "nat \<Rightarrow> (scb \<Rightarrow> scb) \<Rightarrow> kernel \<Rightarrow> kernel" where
  "upd_scb a f k = k\<lparr>scbs := (scbs k)(a := map_option f (scbs k a))\<rparr>"

definition upd_conn :: "nat \<Rightarrow> (conn_req \<Rightarrow> conn_req) \<Rightarrow> kernel \<Rightarrow> kernel" where
  "upd_conn a f k = k\<lparr>conn_reqs := (conn_reqs k)(a := map_option f (conn_reqs k a))\<rparr>"

text \<open>Each update touches one table only.\<close>

lemma upd_pcb_simps [simp]:
  "PT (upd_pcb p f k) = (PT k)(p := f (PT k p))"
  "cc (upd_pcb p f k) = cc k"
  "pcb_freelist (upd_pcb p f k) = pcb_freelist k"
  "process_count (upd_pcb p f k) = process_count k"
  "ptcbs (upd_pcb p f k) = ptcbs k"
  "FT (upd_pcb p f k) = FT k"
  "FCB_freelist (upd_pcb p f k) = FCB_freelist k"
  "pipes (upd_pcb p f k) = pipes k"
  "scbs (upd_pcb p f k) = scbs k"
  "conn_reqs (upd_pcb p f k) = conn_reqs k"
  "infos (upd_pcb p f k) = infos k"
  "PortMap (upd_pcb p f k) = PortMap k"
  "devnum (upd_pcb p f k) = devnum k"
  "next_addr (upd_pcb p f k) = next_addr k"
  "malloc_ok (upd_pcb p f k) = malloc_ok k"
  "kbd_input (upd_pcb p f k) = kbd_input k"
  "con_output (upd_pcb p f k) = con_output k"
  "env_yield (upd_pcb p f k) = env_yield k"
  by (simp_all add: upd_pcb_def)

lemma upd_fcb_simps [simp]:
  "FT (upd_fcb p f k) = (FT k)(p := f (FT k p))"
  "cc (upd_fcb p f k) = cc k"
  "PT (upd_fcb p f k) = PT k"
  "pcb_freelist (upd_fcb p f k) = pcb_freelist k"
  "process_count (upd_fcb p f k) = process_count k"
  "ptcbs (upd_fcb p f k) = ptcbs k"
  "FCB_freelist (upd_fcb p f k) = FCB_freelist k"
  "pipes (upd_fcb p f k) = pipes k"
  "scbs (upd_fcb p f k) = scbs k"
  "conn_reqs (upd_fcb p f k) = conn_reqs k"
  "infos (upd_fcb p f k) = infos k"
  "PortMap (upd_fcb p f k) = PortMap k"
  "devnum (upd_fcb p f k) = devnum k"
  "next_addr (upd_fcb p f k) = next_addr k"
  "malloc_ok (upd_fcb p f k) = malloc_ok k"
  "kbd_input (upd_fcb p f k) = kbd_input k"
  "con_output (upd_fcb p f k) = con_output k"
  "env_yield (upd_fcb p f k) = env_yield k"
  by (simp_all add: upd_fcb_def)

lemma upd_ptcb_simps [simp]:
  "ptcbs (upd_ptcb p f k) = (ptcbs k)(p := map_option f (ptcbs k p))"
  "cc (upd_ptcb p f k) = cc k"
  "PT (upd_ptcb p f k) = PT k"
  "pcb_freelist (upd_ptcb p f k) = pcb_freelist k"
  "process_count (upd_ptcb p f k) = process_count k"
  "FT (upd_ptcb p f k) = FT k"
  "FCB_freelist (upd_ptcb p f k) = FCB_freelist k"
  "pipes (upd_ptcb p f k) = pipes k"
  "scbs (upd_ptcb p f k) = scbs k"
  "conn_reqs (upd_ptcb p f k) = conn_reqs k"
  "infos (upd_ptcb p f k) = infos k"
  "PortMap (upd_ptcb p f k) = PortMap k"
  "devnum (upd_ptcb p f k) = devnum k"
  "next_addr (upd_ptcb p f k) = next_addr k"
  "malloc_ok (upd_ptcb p f k) = malloc_ok k"
  "kbd_input (upd_ptcb p f k) = kbd_input k"
  "con_output (upd_ptcb p f k) = con_output k"
  "env_yield (upd_ptcb p f k) = env_yield k"
  by (simp_all add: upd_ptcb_def)

lemma upd_pipe_simps [simp]:
  "pipes (upd_pipe p f k) = (pipes k)(p := map_option f (pipes k p))"
  "cc (upd_pipe p f k) = cc k"
  "PT (upd_pipe p f k) = PT k"
  "pcb_freelist (upd_pipe p f k) = pcb_freelist k"
  "process_count (upd_pipe p f k) = process_count k"
  "ptcbs (upd_pipe p f k) = ptcbs k"
  "FT (upd_pipe p f k) = FT k"
  "FCB_freelist (upd_pipe p f k) = FCB_freelist k"
  "scbs (upd_pipe p f k) = scbs k"
  "conn_reqs (upd_pipe p f k) = conn_reqs k"
  "infos (upd_pipe p f k) = infos k"
  "PortMap (upd_pipe p f k) = PortMap k"
  "devnum (upd_pipe p f k) = devnum k"
  "next_addr (upd_pipe p f k) = next_addr k"
  "malloc_ok (upd_pipe p f k) = malloc_ok k"
  "kbd_input (upd_pipe p f k) = kbd_input k"
  "con_output (upd_pipe p f k) = con_output k"
  "env_yield (upd_pipe p f k) = env_yield k"
  by (simp_all add: upd_pipe_def)

lemma upd_scb_simps [simp]:
  "scbs (upd_scb p f k) = (scbs k)(p := map_option f (scbs k p))"
  "cc (upd_scb p f k) = cc k"
  "PT (upd_scb p f k) = PT k"
  "pcb_freelist (upd_scb p f k) = pcb_freelist k"
  "process_count (upd_scb p f k) = process_count k"
  "ptcbs (upd_scb p f k) = ptcbs k"
  "FT (upd_scb p f k) = FT k"
  "FCB_freelist (upd_scb p f k) = FCB_freelist k"
  "pipes (upd_scb p f k) = pipes k"
  "conn_reqs (upd_scb p f k) = conn_reqs k"
  "infos (upd_scb p f k) = infos k"
  "PortMap (upd_scb p f k) = PortMap k"
  "devnum (upd_scb p f k) = devnum k"
  "next_addr (upd_scb p f k) = next_addr k"
  "malloc_ok (upd_scb p f k) = malloc_ok k"
  "kbd_input (upd_scb p f k) = kbd_input k"
  "con_output (upd_scb p f k) = con_output k"
  "env_yield (upd_scb p f k) = env_yield k"
  by (simp_all add: upd_scb_def)

lemma upd_conn_simps [simp]:
  "conn_reqs (upd_conn p f k) = (conn_reqs k)(p := map_option f (conn_reqs k p))"
  "cc (upd_conn p f k) = cc k"
  "PT (upd_conn p f k) = PT k"
  "pcb_freelist (upd_conn p f k) = pcb_freelist k"
  "process_count (upd_conn p f k) = process_count k"
  "ptcbs (upd_conn p f k) = ptcbs k"
  "FT (upd_conn p f k) = FT k"
  "FCB_freelist (upd_conn p f k) = FCB_freelist k"
  "pipes (upd_conn p f k) = pipes k"
  "scbs (upd_conn p f k) = scbs k"
  "infos (upd_conn p f k) = infos k"
  "PortMap (upd_conn p f k) = PortMap k"
  "devnum (upd_conn p f k) = devnum k"
  "next_addr (upd_conn p f k) = next_addr k"
  "malloc_ok (upd_conn p f k) = malloc_ok k"
  "kbd_input (upd_conn p f k) = kbd_input k"
  "con_output (upd_conn p f k) = con_output k"
  "env_yield (upd_conn p f k) = env_yield k"
  by (simp_all add: upd_conn_def)

text \<open>\<open>malloc\<close> gives the next address, or nothing when memory is exhausted.\<close>

definition malloc :: "kernel \<Rightarrow> nat option \<times> kernel" where
  "malloc k = (if malloc_ok k (next_addr k) then Some (next_addr k) else None,
     k\<lparr>next_addr := next_addr k + 1\<rparr>)"

text \<open>\<^verbatim>\<open>CURTHREAD\<close>, \<^verbatim>\<open>CURPROC\<close> and \<^verbatim>\<open>CURPTHREAD\<close> on core \<open>c\<close>.\<close>

definition CURTHREAD :: "nat \<Rightarrow> kernel \<Rightarrow> tcbp" where
  "CURTHREAD c k = current_thread (sch (cc k)) c"

definition tcb_of :: "tcbp \<Rightarrow> kernel \<Rightarrow> tcb option" where
  "tcb_of t k = tcbs (sch (cc k)) t"

definition CURPROC :: "nat \<Rightarrow> kernel \<Rightarrow> nat res" where
  "CURPROC c k = bindE (derefE (tcb_of (CURTHREAD c k) k)) (\<lambda>t. nonnullE (owner_pcb t))"

definition CURPTHREAD :: "nat \<Rightarrow> kernel \<Rightarrow> nat res" where
  "CURPTHREAD c k = bindE (derefE (tcb_of (CURTHREAD c k) k)) (\<lambda>t. nonnullE (owner_ptcb t))"

section \<open>Calls of concurrency control\<close>

definition on_cc :: "(cc \<Rightarrow> cc res) \<Rightarrow> kernel \<Rightarrow> kernel res" where
  "on_cc f k = bindE (f (cc k)) (\<lambda>s. Inr (k\<lparr>cc := s\<rparr>))"

lemma on_cc_eq: "on_cc f k = Inr k' \<longleftrightarrow> (\<exists>s. f (cc k) = Inr s \<and> k' = k\<lparr>cc := s\<rparr>)"
  by (auto simp: on_cc_def bindE_eq_Inr)

lemma on_cc_broadcast:
  assumes "cc_inv (cc k)"
  obtains s where "on_cc (Cond_Broadcast cv) k = Inr (k\<lparr>cc := s\<rparr>)" "woken cv (waitset (cc k) cv) (cc k) s"
  using broadcast_ok [OF assms order_refl, of cv] by (auto simp: on_cc_def Cond_Broadcast_def)

lemma on_cc_signal:
  assumes "cc_inv (cc k)"
  obtains s where "on_cc (Cond_Signal cv) k = Inr (k\<lparr>cc := s\<rparr>)"
    "woken cv (signal_span (cc k) (waitset (cc k) cv)) (cc k) s"
  using cv_signal_ok [OF assms, of cv] by (auto simp: on_cc_def Cond_Signal_def)

lemma wokenD:
  assumes "woken cv ws s s'"
  shows "cc_inv s'" and "waitset s cv = ws @ waitset s' cv"
    and "c \<noteq> cv \<Longrightarrow> waitset s' c = waitset s c" and "kernel_sem s' = kernel_sem s"
    and "current_thread (sch s') = current_thread (sch s)"
  using assms by (simp_all add: woken_def)

text \<open>
  A system call may come to a \<^verbatim>\<open>kernel_wait\<close>. It then gives up the kernel lock, and when the
  thread runs again and has the lock, the call goes on at the point \<open>'p\<close> with the result of
  the wait. Until then other calls run.
\<close>

datatype ('a, 'p) outcome = Done 'a | Wait cvname sched_cause u64 'p

end
