(* ===== verification/Pipe.thy ===== *)
theory Pipe
  imports KState
begin

text \<open>
  Pipes, \<^verbatim>\<open>src/kernel_pipe.c\<close>: a ring buffer of \<^verbatim>\<open>BUFF_SIZE\<close> bytes with 32-bit indices, two
  conditions and two flags. The buffer of the caller is the list of bytes that a read
  stores, in order, or the memory at the address that a write was given. A call that waits
  goes on, when it is woken, by testing its condition again.
\<close>

section \<open>Reading\<close>

text \<open>
  The loop that copies out: the first argument is the number of rounds left before \<open>i\<close> reaches
  its limit. The result is the new \<open>read_p\<close>, \<open>bytes_read\<close> and what was stored in \<^verbatim>\<open>buf\<close>.
\<close>

fun pipe_read_loop :: "nat \<Rightarrow> u32 \<Rightarrow> pipecb \<Rightarrow> u32 \<Rightarrow> u32 \<Rightarrow> u32 \<times> u32 \<times> byte list" where
  "pipe_read_loop 0 sz p rp n = (rp, n, [])"
| "pipe_read_loop (Suc r) sz p rp n =
     (let b = buffer p (unat rp); n' = n + 1; rp' = (rp + 1) mod of_nat BUFF_SIZE
      in if n' = sz then (rp', n', [b])
         else (let (rp2, m, bs) = pipe_read_loop r sz p rp' n' in (rp2, m, b # bs)))"

definition pipe_read :: "nat \<Rightarrow> u32 \<Rightarrow> kernel \<Rightarrow> ((int \<times> byte list, unit) outcome \<times> kernel) res" where
  "pipe_read a sz k =
     bindE (derefE (pipes k a)) (\<lambda>p.
     if read_p p = write_p p \<and> available_space p = of_nat BUFF_SIZE then
       (if writer_closed p then Inr (Done (0, []), k)
        else Inr (Wait (Pipe_has_data a) SCHED_PIPE NO_TIMEOUT (), k))
     else
       (let (rp, n, bs) = pipe_read_loop (unat (of_nat BUFF_SIZE - available_space p)) sz p (read_p p) 0
        in if n \<noteq> 0 then
             bindE (on_cc (Cond_Broadcast (Pipe_has_space a))
                 (upd_pipe a (\<lambda>p. p\<lparr>read_p := rp, available_space := available_space p + n\<rparr>) k)) (\<lambda>k1.
             Inr (Done (int (unat n), bs), k1))
           else Inr (Done (-1, bs), k)))"

section \<open>Writing\<close>

fun pipe_write_loop :: "nat \<Rightarrow> u32 \<Rightarrow> (nat \<Rightarrow> byte) \<Rightarrow> nat \<Rightarrow> (nat \<Rightarrow> byte) \<Rightarrow> u32 \<Rightarrow> u32 \<Rightarrow> (nat \<Rightarrow> byte) \<times> u32 \<times> u32" where
  "pipe_write_loop 0 sz buf i b wp n = (b, wp, n)"
| "pipe_write_loop (Suc r) sz buf i b wp n =
     (let b' = b(unat wp := buf i); n' = n + 1; wp' = (wp + 1) mod of_nat BUFF_SIZE
      in if n' = sz then (b', wp', n') else pipe_write_loop r sz buf (Suc i) b' wp' n')"

text \<open>\<^verbatim>\<open>pipe_write\<close> from its \<^verbatim>\<open>while\<close> loop on, which is also where it goes on after a wait.\<close>

definition pipe_write_resume ::
  "nat \<Rightarrow> (nat \<Rightarrow> byte) \<Rightarrow> u32 \<Rightarrow> kernel \<Rightarrow> ((int, unit) outcome \<times> kernel) res" where
  "pipe_write_resume a buf sz k =
     bindE (derefE (pipes k a)) (\<lambda>p.
     if read_p p = write_p p \<and> available_space p = 0 then
       Inr (Wait (Pipe_has_space a) SCHED_PIPE NO_TIMEOUT (), k)
     else
       (let (b, wp, n) = pipe_write_loop (unat (available_space p)) sz buf 0 (buffer p) (write_p p) 0;
            k1 = upd_pipe a (\<lambda>p. p\<lparr>buffer := b\<rparr>) k
        in if n > 0 then
             bindE (on_cc (Cond_Broadcast (Pipe_has_data a))
                 (upd_pipe a (\<lambda>p. p\<lparr>write_p := wp, available_space := available_space p - n\<rparr>) k1)) (\<lambda>k2.
             Inr (Done (int (unat n)), k2))
           else Inr (Done (-1), k1)))"

definition pipe_write ::
  "nat \<Rightarrow> (nat \<Rightarrow> byte) \<Rightarrow> u32 \<Rightarrow> kernel \<Rightarrow> ((int, unit) outcome \<times> kernel) res" where
  "pipe_write a buf sz k =
     bindE (derefE (pipes k a)) (\<lambda>p.
     if reader_closed p then Inr (Done (-1), k) else pipe_write_resume a buf sz k)"

section \<open>Closing and creating\<close>

definition writer_close :: "nat option \<Rightarrow> kernel \<Rightarrow> (int \<times> kernel) res" where
  "writer_close this k =
     (case this of
        None \<Rightarrow> Inr (-1, k)
      | Some a \<Rightarrow>
          bindE (derefE (pipes k a)) (\<lambda>p.
          if \<not> writer_closed p then
            bindE (on_cc (Cond_Broadcast (Pipe_has_data a)) (upd_pipe a (\<lambda>p. p\<lparr>writer_closed := True\<rparr>) k))
              (\<lambda>k1. Inr (0, k1))
          else Inr (0, k)))"

definition free_pipe :: "nat \<Rightarrow> kernel \<Rightarrow> kernel" where
  "free_pipe a k = k\<lparr>pipes := (pipes k)(a := None)\<rparr>"

definition reader_close :: "nat option \<Rightarrow> kernel \<Rightarrow> (int \<times> kernel) res" where
  "reader_close this k =
     (case this of
        None \<Rightarrow> Inr (-1, k)
      | Some a \<Rightarrow>
          bindE (derefE (pipes k a)) (\<lambda>p.
          if \<not> reader_closed p then
            bindE (on_cc (Cond_Broadcast (Pipe_has_space a)) (upd_pipe a (\<lambda>p. p\<lparr>reader_closed := True\<rparr>) k))
              (\<lambda>k1. bindE (writer_close this k1) (\<lambda>(_, k2). Inr (0, free_pipe a k2)))
          else Inr (0, k)))"

text \<open>\<^verbatim>\<open>get_pipe\<close>; the block is cleared by \<^verbatim>\<open>memset\<close>.\<close>

definition get_pipe :: "kernel \<Rightarrow> nat option \<times> kernel" where
  "get_pipe k =
     (case malloc k of
        (None, k1) \<Rightarrow> (None, k1)
      | (Some a, k1) \<Rightarrow> (Some a, k1\<lparr>pipes := (pipes k1)(a \<mapsto> \<lparr>buffer = (\<lambda>_. 0), write_p = 0, read_p = 0,
            available_space = of_nat BUFF_SIZE, reader_closed = False, writer_closed = False\<rparr>)\<rparr>))"

section \<open>The ring buffer as a queue of bytes\<close>

definition used :: "pipecb \<Rightarrow> nat" where
  "used p = BUFF_SIZE - unat (available_space p)"

definition pipe_inv :: "pipecb \<Rightarrow> bool" where
  "pipe_inv p \<longleftrightarrow> unat (read_p p) < BUFF_SIZE \<and> unat (available_space p) \<le> BUFF_SIZE \<and>
     unat (write_p p) = (unat (read_p p) + used p) mod BUFF_SIZE"

definition ring_bytes :: "(nat \<Rightarrow> byte) \<Rightarrow> nat \<Rightarrow> nat \<Rightarrow> byte list" where
  "ring_bytes b r n = map (\<lambda>i. b ((r + i) mod BUFF_SIZE)) [0..<n]"

text \<open>What has been written to the pipe and not yet read.\<close>

definition contents :: "pipecb \<Rightarrow> byte list" where
  "contents p = ring_bytes (buffer p) (unat (read_p p)) (used p)"

lemma length_ring_bytes [simp]: "length (ring_bytes b r n) = n"
  by (simp add: ring_bytes_def)

lemma ring_bytes_Suc: "ring_bytes b r (Suc n) = b (r mod BUFF_SIZE) # ring_bytes b (Suc r) n"
  by (simp add: ring_bytes_def map_upt_Suc del: upt_Suc)

lemma ring_bytes_mod [simp]: "ring_bytes b (r mod BUFF_SIZE) n = ring_bytes b r n"
  by (simp add: ring_bytes_def mod_add_left_eq)

lemma ring_bytes_append: "ring_bytes b r (m + n) = ring_bytes b r m @ ring_bytes b (r + m) n"
proof -
  have "[0..<m + n] = [0..<m] @ map (\<lambda>i. m + i) [0..<n]"
    by (simp add: upt_add_eq_append [of 0 m n] map_add_upt add.commute)
  then show ?thesis by (simp add: ring_bytes_def add.assoc)
qed

lemma BUFF_SIZE_word [simp]: "unat (of_nat BUFF_SIZE :: u32) = BUFF_SIZE"
  by (simp add: BUFF_SIZE_def)

lemma BUFF_SIZE_pos [simp]: "0 < BUFF_SIZE"
  by (simp add: BUFF_SIZE_def)

lemma unat_next: "unat (x :: u32) < BUFF_SIZE \<Longrightarrow> unat ((x + 1) mod of_nat BUFF_SIZE) = Suc (unat x) mod BUFF_SIZE"
  by (simp add: unat_mod_distrib unat_word_ariths BUFF_SIZE_def)

lemma unat_used: "unat (available_space p) \<le> BUFF_SIZE \<Longrightarrow> unat (of_nat BUFF_SIZE - available_space p) = used p"
  by (simp add: used_def unat_sub word_le_nat_alt)

text \<open>
  The copy loop takes \<open>min\<close> of the requested size and the bytes there are; a request for 0 bytes
  takes them all, because the loop tests the size after the first byte.
\<close>

definition span_of :: "u32 \<Rightarrow> nat \<Rightarrow> nat" where
  "span_of sz r = (if sz = 0 then r else min (unat sz) r)"


lemma span_of_le: "span_of sz r \<le> r"
  by (simp add: span_of_def)

lemma unat_plus_one: "unat (n :: u32) + 1 < 2 ^ 32 \<Longrightarrow> unat (n + 1) = unat n + 1"
  by (simp add: unat_word_ariths)

text \<open>How many more bytes are copied when \<open>n\<close> have been, with \<open>r\<close> rounds left.\<close>

definition left_of :: "u32 \<Rightarrow> u32 \<Rightarrow> nat \<Rightarrow> nat" where
  "left_of sz n r = (if sz = 0 then r else min (unat sz - unat n) r)"

lemma left_of_step:
  assumes "unat n + Suc r < 2 ^ 32" "sz = 0 \<or> unat n < unat sz"
  shows "n + 1 = sz \<Longrightarrow> left_of sz n (Suc r) = 1"
    and "n + 1 \<noteq> sz \<Longrightarrow> left_of sz n (Suc r) = Suc (left_of sz (n + 1) r)"
    and "n + 1 \<noteq> sz \<Longrightarrow> sz = 0 \<or> unat (n + 1) < unat sz"
proof -
  have n1: "unat (n + 1) = Suc (unat n)" using assms(1) unat_plus_one [of n] by simp
  have nz: "n + 1 \<noteq> 0"
  proof
    assume "n + 1 = 0"
    then have "unat (n + 1) = 0" by simp
    with n1 show False by simp
  qed
  show "n + 1 = sz \<Longrightarrow> left_of sz n (Suc r) = 1"
    using n1 nz by (auto simp: left_of_def)
  have lt: "Suc (unat n) < unat sz" if "n + 1 \<noteq> sz" "sz \<noteq> 0"
  proof -
    have "unat sz \<noteq> unat (n + 1)" using that by (metis word_unat_eq_iff)
    then show ?thesis using assms(2) that n1 by simp
  qed
  show "n + 1 \<noteq> sz \<Longrightarrow> left_of sz n (Suc r) = Suc (left_of sz (n + 1) r)"
    using lt n1 by (cases "sz = 0") (simp_all add: left_of_def)
  show "n + 1 \<noteq> sz \<Longrightarrow> sz = 0 \<or> unat (n + 1) < unat sz"
    using lt n1 by (cases "sz = 0") simp_all
qed

lemma pipe_read_loop_ok:
  "pipe_read_loop r sz p rp n = (rp', n', bs) \<Longrightarrow> unat rp < BUFF_SIZE \<Longrightarrow> unat n + r < 2 ^ 32 \<Longrightarrow>
     sz = 0 \<or> unat n < unat sz \<Longrightarrow>
     unat rp' = (unat rp + left_of sz n r) mod BUFF_SIZE \<and> unat n' = unat n + left_of sz n r \<and>
     bs = ring_bytes (buffer p) (unat rp) (left_of sz n r)"
proof (induction r sz p rp n arbitrary: rp' n' bs rule: pipe_read_loop.induct)
  case (1 sz p rp n)
  then show ?case by (auto simp: left_of_def ring_bytes_def)
next
  case (2 r sz p rp n)
  note L = left_of_step [OF 2(4,5)]
  let ?rp = "(rp + 1) mod of_nat BUFF_SIZE"
  have n1: "unat (n + 1) = Suc (unat n)" using 2(4) unat_plus_one [of n] by simp
  have rp1: "unat ?rp = Suc (unat rp) mod BUFF_SIZE" using 2(3) by (rule unat_next)
  show ?case
  proof (cases "n + 1 = sz")
    case True
    with 2(2,3) L(1) n1 rp1 show ?thesis
      by (auto simp: Let_def ring_bytes_Suc) (simp_all add: ring_bytes_def)
  next
    case False
    obtain rp2 m bs2 where rec: "pipe_read_loop r sz p ?rp (n + 1) = (rp2, m, bs2)"
      by (metis prod_cases3)
    with 2(2) False have res: "rp' = rp2" "n' = m" "bs = buffer p (unat rp) # bs2"
      by (simp_all add: Let_def)
    have "unat rp2 = (unat ?rp + left_of sz (n + 1) r) mod BUFF_SIZE \<and>
        unat m = unat (n + 1) + left_of sz (n + 1) r \<and>
        bs2 = ring_bytes (buffer p) (unat ?rp) (left_of sz (n + 1) r)"
      by (rule 2(1) [OF refl refl refl False rec]) (use 2(4) n1 rp1 L(3) False in simp_all)
    with 2(3) res n1 rp1 L(2) [OF False] show ?thesis
      by (simp add: ring_bytes_Suc mod_add_left_eq)
  qed
qed

lemma ring_pos_neq: "i < j \<Longrightarrow> j < i + BUFF_SIZE \<Longrightarrow> (r + i) mod BUFF_SIZE \<noteq> (r + j) mod BUFF_SIZE"
proof
  assume a: "i < j" "j < i + BUFF_SIZE" "(r + i) mod BUFF_SIZE = (r + j) mod BUFF_SIZE"
  then have "BUFF_SIZE dvd (r + j) - (r + i)"
    using mod_eq_dvd_iff_nat [of "r + i" "r + j" BUFF_SIZE] by simp
  with a show False by (auto dest: dvd_imp_le)
qed

lemma pipe_write_loop_ok:
  "pipe_write_loop r sz buf i b wp n = (b', wp', n') \<Longrightarrow> unat wp < BUFF_SIZE \<Longrightarrow> r \<le> BUFF_SIZE \<Longrightarrow>
     unat n + r < 2 ^ 32 \<Longrightarrow> sz = 0 \<or> unat n < unat sz \<Longrightarrow>
     unat wp' = (unat wp + left_of sz n r) mod BUFF_SIZE \<and> unat n' = unat n + left_of sz n r \<and>
     ring_bytes b' (unat wp) (left_of sz n r) = map buf [i..<i + left_of sz n r] \<and>
     (\<forall>x. (\<forall>j < left_of sz n r. x \<noteq> (unat wp + j) mod BUFF_SIZE) \<longrightarrow> b' x = b x)"
proof (induction r sz buf i b wp n arbitrary: b' wp' n' rule: pipe_write_loop.induct)
  case (1 sz buf i b wp n)
  then show ?case by (auto simp: left_of_def ring_bytes_def)
next
  case (2 r sz buf i b wp n)
  note L = left_of_step [OF 2(5,6)]
  let ?wp = "(wp + 1) mod of_nat BUFF_SIZE" and ?b = "b(unat wp := buf i)"
  have n1: "unat (n + 1) = Suc (unat n)" using 2(5) unat_plus_one [of n] by simp
  have wp1: "unat ?wp = Suc (unat wp) mod BUFF_SIZE" using 2(3) by (rule unat_next)
  show ?case
  proof (cases "n + 1 = sz")
    case True
    with 2(2) have res: "b' = ?b" "wp' = ?wp" "n' = n + 1" by (simp_all add: Let_def)
    show ?thesis using 2(3) n1 wp1 L(1) [OF True]
      by (simp add: res ring_bytes_def)
  next
    case False
    let ?m = "left_of sz (n + 1) r"
    have rec: "pipe_write_loop r sz buf (Suc i) ?b ?wp (n + 1) = (b', wp', n')"
      using 2(2) False by (simp add: Let_def)
    have ih: "unat wp' = (unat ?wp + ?m) mod BUFF_SIZE" "unat n' = unat (n + 1) + ?m"
        "ring_bytes b' (unat ?wp) ?m = map buf [Suc i..<Suc i + ?m]"
        "\<forall>x. (\<forall>j < ?m. x \<noteq> (unat ?wp + j) mod BUFF_SIZE) \<longrightarrow> b' x = ?b x"
      using 2(1) [OF refl refl refl False rec] 2(4,5) n1 wp1 L(3) [OF False] by simp_all
    have pos: "(unat ?wp + j) mod BUFF_SIZE = (unat wp + Suc j) mod BUFF_SIZE" for j
      by (simp add: wp1 mod_add_left_eq)
    have m: "?m < BUFF_SIZE" using 2(4) by (auto simp: left_of_def)
    have "unat wp \<noteq> (unat wp + Suc j) mod BUFF_SIZE" if "j < ?m" for j
      using ring_pos_neq [of 0 "Suc j" "unat wp"] that m 2(3) by simp
    then have first: "b' (unat wp) = buf i"
      using ih(4) by (simp add: pos)
    have "ring_bytes b' (unat wp) (Suc ?m) = map buf [i..<i + Suc ?m]"
      using first ih(3) 2(3) by (simp add: ring_bytes_Suc wp1 upt_conv_Cons del: upt_Suc)
    moreover have "b' x = b x" if "\<forall>j < Suc ?m. x \<noteq> (unat wp + j) mod BUFF_SIZE" for x
    proof -
      have "x \<noteq> unat wp" using that 2(3) by (metis add.right_neutral mod_less zero_less_Suc)
      moreover have "\<forall>j < ?m. x \<noteq> (unat ?wp + j) mod BUFF_SIZE" using that by (auto simp: pos)
      ultimately show ?thesis using ih(4) by simp
    qed
    ultimately show ?thesis
      using ih(1,2) n1 L(2) [OF False] by (simp add: wp1 mod_add_left_eq)
  qed
qed

section \<open>The effect of reads and writes on the queue\<close>

lemma empty_iff:
  "pipe_inv p \<Longrightarrow> read_p p = write_p p \<and> available_space p = of_nat BUFF_SIZE \<longleftrightarrow> contents p = []"
proof -
  assume inv: "pipe_inv p"
  have "contents p = [] \<longleftrightarrow> used p = 0"
    using length_ring_bytes [of "buffer p" "unat (read_p p)" "used p"] by (auto simp: contents_def ring_bytes_def)
  moreover have "used p = 0 \<longleftrightarrow> available_space p = of_nat BUFF_SIZE"
    using inv by (auto simp: used_def pipe_inv_def word_unat_eq_iff)
  moreover have "read_p p = write_p p" if "used p = 0"
    using inv that by (simp add: pipe_inv_def word_unat_eq_iff)
  ultimately show ?thesis by auto
qed

lemma length_contents [simp]: "length (contents p) = used p"
  by (simp add: contents_def)

lemma left_of_0: "left_of sz 0 r = span_of sz r"
  by (simp add: left_of_def span_of_def)

lemma take_data:
  assumes inv: "pipe_inv p"
    and loop: "pipe_read_loop (unat (of_nat BUFF_SIZE - available_space p)) sz p (read_p p) 0 = (rp, n, bs)"
  defines "p' \<equiv> p\<lparr>read_p := rp, available_space := available_space p + n\<rparr>"
  shows "pipe_inv p'" and "contents p = bs @ contents p'" and "unat n = span_of sz (used p)"
    and "length bs = unat n"
proof -
  let ?m = "span_of sz (used p)"
  note I = inv [unfolded pipe_inv_def]
  have u: "unat (of_nat BUFF_SIZE - available_space p) = used p" using I by (simp add: unat_used)
  have m: "?m \<le> used p" "used p \<le> BUFF_SIZE" by (simp_all add: span_of_le used_def)
  have fits: "unat (0 :: u32) + used p < 2 ^ 32" using m by (simp add: BUFF_SIZE_def)
  have sz: "sz = 0 \<or> unat (0 :: u32) < unat sz" by (simp add: unat_gt_0)
  have L: "unat rp = (unat (read_p p) + ?m) mod BUFF_SIZE" "unat n = ?m"
      "bs = ring_bytes (buffer p) (unat (read_p p)) ?m"
    using pipe_read_loop_ok [OF loop [unfolded u], unfolded left_of_0] I m fits sz by simp_all
  show "unat n = span_of sz (used p)" by (rule L(2))
  show "length bs = unat n" using L by simp
  have av: "unat (available_space p + n) = unat (available_space p) + ?m"
  proof -
    have "?m \<le> BUFF_SIZE - unat (available_space p)" using m by (simp add: used_def)
    moreover have "unat (available_space p) \<le> BUFF_SIZE" using I by simp
    ultimately have "unat (available_space p) + ?m < 2 ^ 32" by (simp add: BUFF_SIZE_def)
    then show ?thesis using L(2) by (simp add: unat_word_ariths)
  qed
  have us: "used p' = used p - ?m" using m I by (simp add: p'_def used_def av)
  have "?m + (used p - ?m) = used p" using m by simp
  then show "contents p = bs @ contents p'"
    using ring_bytes_append [of "buffer p" "unat (read_p p)" ?m "used p - ?m"] L
    by (simp add: contents_def us) (simp add: p'_def)
  show "pipe_inv p'"
    unfolding pipe_inv_def us using I L av m
    by (auto simp: p'_def used_def mod_add_left_eq)
qed

lemma put_data:
  assumes inv: "pipe_inv p"
    and loop: "pipe_write_loop (unat (available_space p)) sz buf 0 (buffer p) (write_p p) 0 = (b, wp, n)"
  defines "p' \<equiv> p\<lparr>buffer := b, write_p := wp, available_space := available_space p - n\<rparr>"
  shows "pipe_inv p'" and "contents p' = contents p @ map buf [0..<unat n]"
    and "unat n = span_of sz (unat (available_space p))"
proof -
  let ?a = "unat (available_space p)" and ?r = "unat (read_p p)"
  let ?m = "span_of sz ?a"
  note I = inv [unfolded pipe_inv_def]
  have m: "?m \<le> ?a" "?a + used p = BUFF_SIZE" using I by (simp_all add: span_of_le used_def)
  have w: "unat (write_p p) < BUFF_SIZE" using I by simp
  have fits: "unat (0 :: u32) + ?a < 2 ^ 32" using I by (simp add: BUFF_SIZE_def)
  have sz: "sz = 0 \<or> unat (0 :: u32) < unat sz" by (simp add: unat_gt_0)
  have L: "unat wp = (unat (write_p p) + ?m) mod BUFF_SIZE" "unat n = ?m"
      "ring_bytes b (unat (write_p p)) ?m = map buf [0..<?m]"
      "\<forall>x. (\<forall>j < ?m. x \<noteq> (unat (write_p p) + j) mod BUFF_SIZE) \<longrightarrow> b x = buffer p x"
    using pipe_write_loop_ok [OF loop w _ fits sz, unfolded left_of_0] I by simp_all
  show n: "unat n = span_of sz ?a" by (rule L(2))
  have "n \<le> available_space p" using m n by (simp add: word_le_nat_alt)
  then have av: "unat (available_space p - n) = ?a - ?m" using n by (simp add: unat_sub)
  have us: "used p' = used p + ?m" using m by (simp add: p'_def used_def av)
  have "b ((?r + i) mod BUFF_SIZE) = buffer p ((?r + i) mod BUFF_SIZE)" if i: "i < used p" for i
  proof -
    have "(?r + i) mod BUFF_SIZE \<noteq> (unat (write_p p) + j) mod BUFF_SIZE" if "j < ?m" for j
    proof -
      have "(unat (write_p p) + j) mod BUFF_SIZE = (?r + (used p + j)) mod BUFF_SIZE"
        using I by (simp add: mod_add_left_eq add.assoc)
      moreover have "(?r + i) mod BUFF_SIZE \<noteq> (?r + (used p + j)) mod BUFF_SIZE"
        using i that m by (intro ring_pos_neq) simp_all
      ultimately show ?thesis by simp
    qed
    then show ?thesis using L(4) by blast
  qed
  then have old: "ring_bytes b ?r (used p) = contents p"
    by (simp add: contents_def ring_bytes_def)
  have new: "ring_bytes b (?r + used p) ?m = map buf [0..<?m]"
    using L(3) I by simp
  have "contents p' = ring_bytes b ?r (used p + ?m)"
    by (simp add: contents_def us) (simp add: p'_def)
  then show "contents p' = contents p @ map buf [0..<unat n]"
    using old new n by (simp add: ring_bytes_append)
  show "pipe_inv p'"
    unfolding pipe_inv_def us using I L(1) av le_trans [OF diff_le_self, of ?a BUFF_SIZE ?m]
    by (simp add: p'_def mod_add_left_eq add.assoc)
qed

lemma span_of_pos: "0 < r \<Longrightarrow> 0 < span_of sz r"
  by (simp add: span_of_def unat_gt_0)

text \<open>A read or a write that goes through, with its effect on the other tables of the kernel.\<close>

lemma pipe_read_Done:
  assumes p: "pipes k a = Some p" "pipe_inv p" and ne: "contents p \<noteq> []" and inv: "cc_inv (cc k)"
  shows "\<exists>s p' bs. pipe_read a sz k = Inr (Done (int (length bs), bs), k\<lparr>cc := s, pipes := (pipes k)(a \<mapsto> p')\<rparr>) \<and>
     woken (Pipe_has_space a) (waitset (cc k) (Pipe_has_space a)) (cc k) s \<and> pipe_inv p' \<and>
     contents p = bs @ contents p' \<and> length bs = span_of sz (used p) \<and>
     reader_closed p' = reader_closed p \<and> writer_closed p' = writer_closed p"
proof -
  obtain rp n bs where loop:
    "pipe_read_loop (unat (of_nat BUFF_SIZE - available_space p)) sz p (read_p p) 0 = (rp, n, bs)"
    by (metis prod_cases3)
  let ?p = "p\<lparr>read_p := rp, available_space := available_space p + n\<rparr>"
  note T = take_data [OF p(2) loop]
  have ne': "\<not> (read_p p = write_p p \<and> available_space p = of_nat BUFF_SIZE)"
    using empty_iff [OF p(2)] ne by simp
  have "0 < used p" using ne length_contents [of p] by (cases "contents p") auto
  then have "n \<noteq> 0" using T(3) span_of_pos [of "used p" sz] by auto
  let ?k = "upd_pipe a (\<lambda>p. p\<lparr>read_p := rp, available_space := available_space p + n\<rparr>) k"
  obtain s where s: "on_cc (Cond_Broadcast (Pipe_has_space a)) ?k = Inr (?k\<lparr>cc := s\<rparr>)"
      "woken (Pipe_has_space a) (waitset (cc k) (Pipe_has_space a)) (cc k) s"
    using on_cc_broadcast [of ?k "Pipe_has_space a"] inv by auto
  have "pipe_read a sz k = Inr (Done (int (length bs), bs), k\<lparr>cc := s, pipes := (pipes k)(a \<mapsto> ?p)\<rparr>)"
    using p(1) ne' loop \<open>n \<noteq> 0\<close> s(1) T(4) by (auto simp: pipe_read_def Let_def upd_pipe_def)
  with T s(2) show ?thesis by (intro exI [of _ s] exI [of _ ?p] exI [of _ bs]) simp
qed

lemma pipe_write_Done:
  assumes p: "pipes k a = Some p" "pipe_inv p" and ne: "used p < BUFF_SIZE" and inv: "cc_inv (cc k)"
  shows "\<exists>s p' n. pipe_write_resume a buf sz k = Inr (Done (int n), k\<lparr>cc := s, pipes := (pipes k)(a \<mapsto> p')\<rparr>) \<and>
     woken (Pipe_has_data a) (waitset (cc k) (Pipe_has_data a)) (cc k) s \<and> pipe_inv p' \<and>
     contents p' = contents p @ map buf [0..<n] \<and> n = span_of sz (BUFF_SIZE - used p) \<and>
     reader_closed p' = reader_closed p \<and> writer_closed p' = writer_closed p"
proof -
  obtain b wp n where loop:
    "pipe_write_loop (unat (available_space p)) sz buf 0 (buffer p) (write_p p) 0 = (b, wp, n)"
    by (metis prod_cases3)
  let ?p = "p\<lparr>buffer := b, write_p := wp, available_space := available_space p - n\<rparr>"
  note T = put_data [OF p(2) loop]
  have av: "unat (available_space p) = BUFF_SIZE - used p"
    using p(2) by (simp add: used_def pipe_inv_def)
  then have "0 < unat (available_space p)" using ne by simp
  then have nz: "\<not> (read_p p = write_p p \<and> available_space p = 0)" "0 < n"
    using T(3) span_of_pos [of "unat (available_space p)" sz] by (auto simp: word_gt_0 unat_gt_0)
  let ?k = "upd_pipe a (\<lambda>p. p\<lparr>write_p := wp, available_space := available_space p - n\<rparr>)
      (upd_pipe a (\<lambda>p. p\<lparr>buffer := b\<rparr>) k)"
  obtain s where s: "on_cc (Cond_Broadcast (Pipe_has_data a)) ?k = Inr (?k\<lparr>cc := s\<rparr>)"
      "woken (Pipe_has_data a) (waitset (cc k) (Pipe_has_data a)) (cc k) s"
    using on_cc_broadcast [of ?k "Pipe_has_data a"] inv by auto
  have "pipe_write_resume a buf sz k = Inr (Done (int (unat n)), k\<lparr>cc := s, pipes := (pipes k)(a \<mapsto> ?p)\<rparr>)"
    using p(1) nz loop s(1) by (auto simp: pipe_write_resume_def Let_def upd_pipe_def)
  with T s(2) av show ?thesis by (intro exI [of _ s] exI [of _ ?p] exI [of _ "unat n"]) simp
qed

section \<open>Interleaved readers and writers\<close>

text \<open>
  Any number of calls on one pipe, in any order, with what has been written and read so far;
  a call that waits is a step of its own, and so is anything else that happens in the kernel.
\<close>

inductive pipe_step :: "nat \<Rightarrow> kernel \<times> byte list \<times> byte list \<Rightarrow> kernel \<times> byte list \<times> byte list \<Rightarrow> bool" for a where
  get: "pipe_read a sz k = Inr (Done (n, bs), k') \<Longrightarrow> pipe_step a (k, w, r) (k', w, r @ bs)"
| read_wait: "pipe_read a sz k = Inr (Wait cv c t (), k') \<Longrightarrow> pipe_step a (k, w, r) (k', w, r)"
| put: "pipe_write a buf sz k = Inr (Done n, k') \<Longrightarrow>
     pipe_step a (k, w, r) (k', w @ map buf [0..<nat n], r)"
| write_wait: "pipe_write a buf sz k = Inr (Wait cv c t (), k') \<Longrightarrow> pipe_step a (k, w, r) (k', w, r)"
| go_on: "pipe_write_resume a buf sz k = Inr (Done n, k') \<Longrightarrow>
     pipe_step a (k, w, r) (k', w @ map buf [0..<nat n], r)"
| go_on_wait: "pipe_write_resume a buf sz k = Inr (Wait cv c t (), k') \<Longrightarrow> pipe_step a (k, w, r) (k', w, r)"
| close_write: "writer_close (Some a) k = Inr (n, k') \<Longrightarrow> pipe_step a (k, w, r) (k', w, r)"
| other: "pipes k' a = pipes k a \<Longrightarrow> pipe_step a (k, w, r) (k', w, r)"

definition fifo_inv :: "nat \<Rightarrow> kernel \<times> byte list \<times> byte list \<Rightarrow> bool" where
  "fifo_inv a = (\<lambda>(k, w, r). \<exists>p. pipes k a = Some p \<and> pipe_inv p \<and> w = r @ contents p)"

lemma pipe_read_fifo:
  assumes "pipe_read a sz k = Inr (out, k')" "pipes k a = Some p" "pipe_inv p"
  shows "\<exists>p'. pipes k' a = Some p' \<and> pipe_inv p' \<and>
     (case out of Done (n, bs) \<Rightarrow> contents p = bs @ contents p' | Wait _ _ _ _ \<Rightarrow> contents p' = contents p)"
proof (cases "read_p p = write_p p \<and> available_space p = of_nat BUFF_SIZE")
  case True
  with assms empty_iff [OF assms(3)] show ?thesis
    by (auto simp: pipe_read_def split: if_splits)
next
  case False
  obtain rp n bs where loop:
    "pipe_read_loop (unat (of_nat BUFF_SIZE - available_space p)) sz p (read_p p) 0 = (rp, n, bs)"
    by (metis prod_cases3)
  note T = take_data [OF assms(3) loop]
  show ?thesis
  proof (cases "n = 0")
    case True
    with False assms loop T show ?thesis by (auto simp: pipe_read_def Let_def)
  next
    case nz: False
    with False assms loop T show ?thesis
      by (auto simp: pipe_read_def Let_def bindE_eq_Inr on_cc_eq)
  qed
qed

lemma pipe_write_fifo:
  assumes "pipe_write_resume a buf sz k = Inr (out, k')" "pipes k a = Some p" "pipe_inv p"
  shows "\<exists>p'. pipes k' a = Some p' \<and> pipe_inv p' \<and>
     (case out of Done n \<Rightarrow> contents p' = contents p @ map buf [0..<nat n]
      | Wait _ _ _ _ \<Rightarrow> contents p' = contents p)"
proof (cases "read_p p = write_p p \<and> available_space p = 0")
  case True
  with assms show ?thesis by (auto simp: pipe_write_resume_def)
next
  case False
  obtain b wp n where loop:
    "pipe_write_loop (unat (available_space p)) sz buf 0 (buffer p) (write_p p) 0 = (b, wp, n)"
    by (metis prod_cases3)
  note T = put_data [OF assms(3) loop]
  show ?thesis
  proof (cases "0 < n")
    case True
    with False assms loop T show ?thesis
      by (auto simp: pipe_write_resume_def Let_def bindE_eq_Inr on_cc_eq)
  next
    case nz: False
    then have "n = 0" by (simp add: word_gt_0)
    then have "unat (available_space p) = 0"
      using T(3) span_of_pos [of "unat (available_space p)" sz] by (cases "unat (available_space p) = 0") auto
    then have "available_space p = 0" by (simp add: unat_eq_zero)
    then have "write_p p = read_p p"
      using assms(3) by (simp add: pipe_inv_def used_def word_unat_eq_iff)
    with False \<open>available_space p = 0\<close> show ?thesis by simp
  qed
qed

lemma writer_close_fifo:
  assumes "writer_close (Some a) k = Inr (n, k')" "pipes k a = Some p" "pipe_inv p"
  shows "\<exists>p'. pipes k' a = Some p' \<and> pipe_inv p' \<and> contents p' = contents p"
proof -
  have "pipe_inv (p\<lparr>writer_closed := True\<rparr>)" "contents (p\<lparr>writer_closed := True\<rparr>) = contents p"
    using assms(3) by (simp_all add: pipe_inv_def used_def contents_def)
  with assms show ?thesis
    by (auto simp: writer_close_def bindE_eq_Inr on_cc_eq split: if_splits)
qed

lemma fifo_step: "pipe_step a x y \<Longrightarrow> fifo_inv a x \<Longrightarrow> fifo_inv a y"
proof (induction rule: pipe_step.induct)
  case (get sz k n bs k' w r)
  then show ?case by (force simp: fifo_inv_def dest: pipe_read_fifo)
next
  case (read_wait sz k cv c t k' w r)
  then show ?case by (force simp: fifo_inv_def dest: pipe_read_fifo)
next
  case (put buf sz k n k' w r)
  then show ?case
    by (force simp: fifo_inv_def pipe_write_def split: if_splits dest: pipe_write_fifo)
next
  case (write_wait buf sz k cv c t k' w r)
  then show ?case
    by (force simp: fifo_inv_def pipe_write_def split: if_splits dest: pipe_write_fifo)
next
  case (go_on buf sz k n k' w r)
  then show ?case by (force simp: fifo_inv_def dest: pipe_write_fifo)
next
  case (go_on_wait buf sz k cv c t k' w r)
  then show ?case by (force simp: fifo_inv_def dest: pipe_write_fifo)
next
  case (close_write k n k' w r)
  then show ?case by (force simp: fifo_inv_def dest: writer_close_fifo)
next
  case (other k' k w r)
  then show ?case by (simp add: fifo_inv_def)
qed


section \<open>An example\<close>

definition example_pcb :: pcb where
  "example_pcb = \<lparr>pstate = FREE, parent = None, exitval = 0, main_thread = None, children_list = [],
     exited_list = [], FIDT = (\<lambda>_. None), ptcb_list = [], thread_count = 0\<rparr>"

definition example_kernel :: kernel where
  "example_kernel = \<lparr>cc = example_cc, PT = (\<lambda>_. example_pcb), pcb_freelist = None, process_count = 0,
     ptcbs = (\<lambda>_. None), FT = (\<lambda>_. \<lparr>refcount = 0, streamobj = Null_object, streamfunc = None\<rparr>),
     FCB_freelist = [], pipes = (\<lambda>_. None), scbs = (\<lambda>_. None), conn_reqs = (\<lambda>_. None),
     infos = (\<lambda>_. None), PortMap = (\<lambda>_. None), devnum = (\<lambda>_. 1), next_addr = 1,
     malloc_ok = (\<lambda>_. True), kbd_input = (\<lambda>_. []), con_output = (\<lambda>_. []), env_yield = (\<lambda>s. s)\<rparr>"

text \<open>A pipe that has wrapped around: two bytes at the end of the buffer and one at its start.\<close>

definition example_pipe :: pipecb where
  "example_pipe = \<lparr>buffer = (\<lambda>i. if i = 16382 then 10 else if i = 16383 then 11 else if i = 0 then 12 else 0),
     write_p = 1, read_p = 16382, available_space = 16381, reader_closed = False, writer_closed = False\<rparr>"

definition piped_kernel :: kernel where
  "piped_kernel = example_kernel\<lparr>pipes := [5 \<mapsto> example_pipe]\<rparr>"

lemma piped_sel [simp]:
  "cc piped_kernel = example_cc" "pipes piped_kernel = [5 \<mapsto> example_pipe]"
  by (simp_all add: piped_kernel_def example_kernel_def)

lemma example_pipe_flags [simp]: "\<not> reader_closed example_pipe" "\<not> writer_closed example_pipe"
  by (simp_all add: example_pipe_def)

lemma example_pipe_inv: "pipe_inv example_pipe"
  by (simp add: pipe_inv_def example_pipe_def used_def BUFF_SIZE_def)

lemma example_contents: "contents example_pipe = [10, 11, 12]"
proof -
  have "used example_pipe = 3" by (simp add: example_pipe_def used_def BUFF_SIZE_def)
  then show ?thesis
    by (simp add: contents_def ring_bytes_def BUFF_SIZE_def upt_rec) (simp add: example_pipe_def)
qed

section \<open>The properties of pipes\<close>

text \<open>
  C4: a pipe is a first-in-first-out channel of bytes. In every interleaving of reads, writes,
  waits and closing of the writer's end, whatever the sizes and wherever the ring buffer wraps
  around, the bytes read so far followed by the bytes in the buffer are the bytes written so
  far: none is lost, duplicated or reordered.
\<close>

theorem pipe_is_fifo:
  assumes "(pipe_step a)\<^sup>*\<^sup>* (k0, [], []) (k, w, r)"
    and "pipes k0 a = Some p0" and "pipe_inv p0" and "contents p0 = []"
  shows "\<exists>p. pipes k a = Some p \<and> pipe_inv p \<and> w = r @ contents p"
proof -
  have "fifo_inv a (k0, [], [])" using assms by (simp add: fifo_inv_def)
  with assms(1) have "fifo_inv a (k, w, r)"
    by (induction rule: rtranclp_induct) (auto intro: fifo_step)
  then show ?thesis by (simp add: fifo_inv_def)
qed

lemma pipe_read_effect:
  assumes "cc_inv (cc k)" and "pipes k a = Some p" and "pipe_inv p" and "sz \<noteq> 0"
  defines "n \<equiv> min (unat sz) (length (contents p))"
  shows "if contents p = [] then
       pipe_read a sz k = Inr (if writer_closed p then Done (0, [])
                               else Wait (Pipe_has_data a) SCHED_PIPE NO_TIMEOUT (), k)
     else \<exists>s p'. 0 < n \<and>
       pipe_read a sz k = Inr (Done (int n, take n (contents p)), k\<lparr>cc := s, pipes := (pipes k)(a \<mapsto> p')\<rparr>) \<and>
       pipe_inv p' \<and> contents p' = drop n (contents p) \<and> cc_inv s \<and> waitset s (Pipe_has_space a) = []"
proof (cases "contents p = []")
  case True
  then show ?thesis using assms(2) empty_iff [OF assms(3)] by (simp add: pipe_read_def)
next
  case False
  obtain s p' bs where r: "pipe_read a sz k = Inr (Done (int (length bs), bs), k\<lparr>cc := s, pipes := (pipes k)(a \<mapsto> p')\<rparr>)"
      "woken (Pipe_has_space a) (waitset (cc k) (Pipe_has_space a)) (cc k) s" "pipe_inv p'"
      "contents p = bs @ contents p'" "length bs = span_of sz (used p)"
    using pipe_read_Done [OF assms(2,3) False assms(1), of sz] by blast
  have n: "length bs = n" using r(5) assms(4) by (simp add: span_of_def n_def)
  have "0 < unat sz" using assms(4) by (simp add: unat_gt_0)
  moreover have "0 < used p" using False length_contents [of p] by (cases "contents p") auto
  ultimately have pos: "0 < n" by (simp add: n_def)
  have bs: "take n (contents p) = bs" "drop n (contents p) = contents p'"
    by (simp_all add: r(4) n [symmetric])
  have "pipe_read a sz k = Inr (Done (int n, take n (contents p)), k\<lparr>cc := s, pipes := (pipes k)(a \<mapsto> p')\<rparr>)"
    using r(1) by (simp only: bs(1) n)
  moreover have "waitset s (Pipe_has_space a) = []" using wokenD(2) [OF r(2)] by simp
  ultimately show ?thesis
    unfolding if_not_P [OF False] using pos r(3) bs(2) [symmetric] wokenD(1) [OF r(2)] by blast
qed

text \<open>
  \<^verbatim>\<open>pipe_read\<close> with a size above 0. From a pipe that holds bytes it takes the oldest ones, as
  many as asked for or as there are, at least one, keeps the rest, and wakes every
  writer that waits for space. From an empty pipe it returns 0 if the writer's end is closed,
  and otherwise waits for data and has no other effect.
\<close>

theorem pipe_read_correct:
  assumes "cc_inv (cc k)" and "pipes k a = Some p" and "pipe_inv p" and "sz \<noteq> 0"
  defines "n \<equiv> min (unat sz) (length (contents p))"
  shows "if contents p = [] then
       pipe_read a sz k = Inr (if writer_closed p then Done (0, [])
                               else Wait (Pipe_has_data a) SCHED_PIPE NO_TIMEOUT (), k)
     else \<exists>s p'. 0 < n \<and>
       pipe_read a sz k = Inr (Done (int n, take n (contents p)), k\<lparr>cc := s, pipes := (pipes k)(a \<mapsto> p')\<rparr>) \<and>
       pipe_inv p' \<and> contents p' = drop n (contents p) \<and> cc_inv s \<and> waitset s (Pipe_has_space a) = []"
  unfolding n_def by (rule pipe_read_effect [OF assms(1-4)])

theorem pipe_read_correct_witness:
  "\<exists>s p'. pipe_read 5 2 piped_kernel = Inr (Done (2, [10, 11]), piped_kernel\<lparr>cc := s, pipes := [5 \<mapsto> p']\<rparr>) \<and>
     contents p' = [12]"
proof -
  have "\<exists>s p'. pipe_read 5 2 piped_kernel =
      Inr (Done (int 2, [10, 11]), piped_kernel\<lparr>cc := s, pipes := [5 \<mapsto> p']\<rparr>) \<and> contents p' = [12]"
    using pipe_read_correct [of piped_kernel 5 example_pipe 2, OF _ _ example_pipe_inv]
    by (simp add: example_contents example_cc_inv) blast
  then show ?thesis by simp
qed

lemma pipe_write_effect:
  assumes "cc_inv (cc k)" and "pipes k a = Some p" and "pipe_inv p" and "sz \<noteq> 0" and "\<not> reader_closed p"
  defines "n \<equiv> min (unat sz) (BUFF_SIZE - length (contents p))"
  shows "if length (contents p) = BUFF_SIZE then
       pipe_write a buf sz k = Inr (Wait (Pipe_has_space a) SCHED_PIPE NO_TIMEOUT (), k)
     else \<exists>s p'. 0 < n \<and>
       pipe_write a buf sz k = Inr (Done (int n), k\<lparr>cc := s, pipes := (pipes k)(a \<mapsto> p')\<rparr>) \<and>
       pipe_inv p' \<and> contents p' = contents p @ map buf [0..<n] \<and> cc_inv s \<and> waitset s (Pipe_has_data a) = []"
proof (cases "used p = BUFF_SIZE")
  case True
  then have "unat (available_space p) = 0"
    using assms(3) BUFF_SIZE_pos unfolding used_def pipe_inv_def by linarith
  then have av: "available_space p = 0" by (simp add: unat_eq_zero)
  have "unat (write_p p) = unat (read_p p)" using assms(3) True by (simp add: pipe_inv_def)
  then have "read_p p = write_p p" by (metis word_unat_eq_iff)
  with av True assms(2,5) show ?thesis by (simp add: pipe_write_def pipe_write_resume_def)
next
  case False
  have lt: "used p < BUFF_SIZE" using False by (simp add: used_def)
  obtain s p' m where w: "pipe_write_resume a buf sz k = Inr (Done (int m), k\<lparr>cc := s, pipes := (pipes k)(a \<mapsto> p')\<rparr>)"
      "woken (Pipe_has_data a) (waitset (cc k) (Pipe_has_data a)) (cc k) s" "pipe_inv p'"
      "contents p' = contents p @ map buf [0..<m]" "m = span_of sz (BUFF_SIZE - used p)"
    using pipe_write_Done [OF assms(2,3) lt assms(1), of buf sz] by blast
  have m: "m = n" using w(5) assms(4) by (simp add: span_of_def n_def)
  have pos: "0 < n" using lt assms(4) by (simp add: n_def unat_gt_0)
  have "pipe_write a buf sz k = Inr (Done (int n), k\<lparr>cc := s, pipes := (pipes k)(a \<mapsto> p')\<rparr>)"
    using assms(2,5) w(1) unfolding m by (simp add: pipe_write_def)
  moreover have "waitset s (Pipe_has_data a) = []" using wokenD(2) [OF w(2)] by simp
  moreover have ne: "length (contents p) \<noteq> BUFF_SIZE" using False by simp
  ultimately show ?thesis
    unfolding if_not_P [OF ne] using pos w(3) w(4) [unfolded m] wokenD(1) [OF w(2)] by blast
qed

text \<open>
  \<^verbatim>\<open>pipe_write\<close> with a size above 0, while the reader's end is open. If the buffer is full it
  waits for space and has no other effect. Otherwise it appends bytes of the caller to the
  pipe, as many as were given or as there is space for, at least one, and wakes every reader
  that waits for data.
\<close>

theorem pipe_write_correct:
  assumes "cc_inv (cc k)" and "pipes k a = Some p" and "pipe_inv p" and "sz \<noteq> 0" and "\<not> reader_closed p"
  defines "n \<equiv> min (unat sz) (BUFF_SIZE - length (contents p))"
  shows "if length (contents p) = BUFF_SIZE then
       pipe_write a buf sz k = Inr (Wait (Pipe_has_space a) SCHED_PIPE NO_TIMEOUT (), k)
     else \<exists>s p'. 0 < n \<and>
       pipe_write a buf sz k = Inr (Done (int n), k\<lparr>cc := s, pipes := (pipes k)(a \<mapsto> p')\<rparr>) \<and>
       pipe_inv p' \<and> contents p' = contents p @ map buf [0..<n] \<and> cc_inv s \<and> waitset s (Pipe_has_data a) = []"
  unfolding n_def by (rule pipe_write_effect [OF assms(1-5)])

theorem pipe_write_correct_witness:
  "\<exists>s p'. pipe_write 5 (\<lambda>_. 20) 2 piped_kernel =
       Inr (Done 2, piped_kernel\<lparr>cc := s, pipes := [5 \<mapsto> p']\<rparr>) \<and> contents p' = [10, 11, 12, 20, 20]"
proof -
  have n: "min (unat (2 :: u32)) (BUFF_SIZE - 3) = 2" by (simp add: BUFF_SIZE_def)
  have "\<exists>s p'. pipe_write 5 (\<lambda>_. 20) 2 piped_kernel =
       Inr (Done (int 2), piped_kernel\<lparr>cc := s, pipes := [5 \<mapsto> p']\<rparr>) \<and>
       contents p' = contents example_pipe @ map (\<lambda>_. 20) [0..<2]"
    using pipe_write_correct [of piped_kernel 5 example_pipe 2, OF _ _ example_pipe_inv] n
    by (simp add: example_contents example_cc_inv BUFF_SIZE_def) blast
  then show ?thesis by (simp add: example_contents upt_rec)
qed

text \<open>
  C34: closing the reader's end frees the pipe under its writer. \<^verbatim>\<open>reader_close\<close> wakes everybody
  who waits on the pipe and returns 0, but the writer's stream still points to the block: a
  later write, which should return -1, a close of the writer's end and the resumption of a
  writer that was waiting all access freed memory.
\<close>

theorem reader_close_frees_under_writer:
  assumes "cc_inv (cc k)" and "pipes k a = Some p" and "\<not> reader_closed p"
  shows "\<exists>k'. reader_close (Some a) k = Inr (0, k') \<and> cc_inv (cc k') \<and>
     waitset (cc k') (Pipe_has_space a) = [] \<and> pipe_write a buf sz k' = Inl Use_after_free \<and>
     pipe_write_resume a buf sz k' = Inl Use_after_free \<and> writer_close (Some a) k' = Inl Use_after_free"
proof -
  let ?k1 = "upd_pipe a (\<lambda>p. p\<lparr>reader_closed := True\<rparr>) k"
  obtain s1 where s1: "on_cc (Cond_Broadcast (Pipe_has_space a)) ?k1 = Inr (?k1\<lparr>cc := s1\<rparr>)"
      "woken (Pipe_has_space a) (waitset (cc k) (Pipe_has_space a)) (cc k) s1"
    using on_cc_broadcast [of ?k1 "Pipe_has_space a"] assms(1) by auto
  have e1: "waitset s1 (Pipe_has_space a) = []" using wokenD(2) [OF s1(2)] by simp
  obtain k2 where k2: "writer_close (Some a) (?k1\<lparr>cc := s1\<rparr>) = Inr (0, k2)" "cc_inv (cc k2)"
      "waitset (cc k2) (Pipe_has_space a) = []"
  proof (cases "writer_closed p")
    case True
    then have "writer_close (Some a) (?k1\<lparr>cc := s1\<rparr>) = Inr (0, ?k1\<lparr>cc := s1\<rparr>)"
      using assms(2) by (simp add: writer_close_def)
    with that show ?thesis using e1 wokenD(1) [OF s1(2)] by simp
  next
    case False
    let ?k2 = "upd_pipe a (\<lambda>p. p\<lparr>writer_closed := True\<rparr>) (?k1\<lparr>cc := s1\<rparr>)"
    obtain s2 where s2: "on_cc (Cond_Broadcast (Pipe_has_data a)) ?k2 = Inr (?k2\<lparr>cc := s2\<rparr>)"
        "woken (Pipe_has_data a) (waitset s1 (Pipe_has_data a)) s1 s2"
      using on_cc_broadcast [of ?k2 "Pipe_has_data a"] wokenD(1) [OF s1(2)] by auto
    then have "writer_close (Some a) (?k1\<lparr>cc := s1\<rparr>) = Inr (0, ?k2\<lparr>cc := s2\<rparr>)"
      using False assms(2) by (simp add: writer_close_def)
    with that show ?thesis using e1 wokenD(1,3) [OF s2(2)] by simp
  qed
  have "reader_close (Some a) k = Inr (0, free_pipe a k2)"
    using assms s1(1) k2(1) by (simp add: reader_close_def)
  with k2 show ?thesis
    by (simp add: free_pipe_def pipe_write_def pipe_write_resume_def writer_close_def)
qed

theorem reader_close_frees_under_writer_witness:
  "\<exists>k'. reader_close (Some 5) piped_kernel = Inr (0, k') \<and> pipe_write 5 (\<lambda>_. 0) 1 k' = Inl Use_after_free"
  using reader_close_frees_under_writer [of piped_kernel 5 example_pipe "\<lambda>_. 0" 1]
  by (simp add: example_cc_inv) blast

text \<open>
  A read or a write of size 0 runs past the caller's buffer: the copy loop tests the size
  only after a byte, so a read of size 0 stores everything the pipe holds, and a write of
  size 0 fills all the free space from the memory at \<^verbatim>\<open>buf\<close>.
\<close>

theorem zero_size_overruns:
  assumes "cc_inv (cc k)" and "pipes k a = Some p" and "pipe_inv p" and "\<not> reader_closed p"
  shows "(contents p \<noteq> [] \<longrightarrow> (\<exists>k'. pipe_read a 0 k = Inr (Done (int (length (contents p)), contents p), k'))) \<and>
     (length (contents p) < BUFF_SIZE \<longrightarrow>
        (\<exists>k'. pipe_write a buf 0 k = Inr (Done (int (BUFF_SIZE - length (contents p))), k')))"
proof (intro conjI impI)
  assume "contents p \<noteq> []"
  from pipe_read_Done [OF assms(2,3) this assms(1), of 0]
  obtain s p' bs where r: "pipe_read a 0 k = Inr (Done (int (length bs), bs), k\<lparr>cc := s, pipes := (pipes k)(a \<mapsto> p')\<rparr>)"
      "contents p = bs @ contents p'" "length bs = used p"
    by (auto simp: span_of_def)
  then have "length (bs @ contents p') = length bs" using length_contents [of p] by metis
  then have "contents p' = []" by (simp del: length_contents)
  with r(2) have "bs = contents p" by simp
  with r(1) show "\<exists>k'. pipe_read a 0 k = Inr (Done (int (length (contents p)), contents p), k')" by auto
next
  assume "length (contents p) < BUFF_SIZE"
  then have "used p < BUFF_SIZE" by simp
  from pipe_write_Done [OF assms(2,3) this assms(1), of buf 0]
  show "\<exists>k'. pipe_write a buf 0 k = Inr (Done (int (BUFF_SIZE - length (contents p))), k')"
    using assms(2,4) by (auto simp: span_of_def pipe_write_def)
qed

theorem zero_size_overruns_witness:
  "\<exists>k'. pipe_read 5 0 piped_kernel = Inr (Done (3, [10, 11, 12]), k')"
  using zero_size_overruns [of piped_kernel 5 example_pipe]
  by (simp add: example_cc_inv example_pipe_inv example_contents)

theorem pipe_is_fifo_witness:
  "\<exists>p. pipes (snd (get_pipe piped_kernel)) 1 = Some p \<and> pipe_inv p \<and> ([] :: byte list) = [] @ contents p"
proof (rule pipe_is_fifo [of 1 "snd (get_pipe piped_kernel)" _ "[]" "[]"])
  let ?p = "\<lparr>buffer = (\<lambda>_. 0), write_p = 0, read_p = 0, available_space = of_nat BUFF_SIZE,
     reader_closed = False, writer_closed = False\<rparr>"
  show "pipes (snd (get_pipe piped_kernel)) 1 = Some ?p"
    by (simp add: get_pipe_def malloc_def piped_kernel_def example_kernel_def)
  show "pipe_inv ?p" "contents ?p = []"
    by (simp_all add: pipe_inv_def used_def contents_def ring_bytes_def)
qed simp

end
