(* ===== verification/Files.thy ===== *)
theory Files
  imports Pipe
begin

text \<open>
  The file table of \<^verbatim>\<open>src/kernel_streams.c\<close>: file control blocks with their free list and
  reference counts, and the file descriptors of a process. The invariant says that the
  reference count of a block is the number of descriptors, over all processes, that point to
  it, plus the calls that hold it.
\<close>

section \<open>File control blocks\<close>

definition initialize_files :: "kernel \<Rightarrow> kernel" where
  "initialize_files k =
     k\<lparr>FCB_freelist := [0..<MAX_FILES],
       FT := (\<lambda>i. if i < MAX_FILES then (FT k i)\<lparr>refcount := 0\<rparr> else FT k i)\<rparr>"

definition acquire_FCB :: "kernel \<Rightarrow> nat option \<times> kernel" where
  "acquire_FCB k =
     (case FCB_freelist k of
        [] \<Rightarrow> (None, k)
      | f # fs \<Rightarrow> (Some f, upd_fcb f (\<lambda>b. b\<lparr>refcount := 0\<rparr>) (k\<lparr>FCB_freelist := fs\<rparr>)))"

definition release_FCB :: "nat \<Rightarrow> kernel \<Rightarrow> kernel" where
  "release_FCB f k = k\<lparr>FCB_freelist := FCB_freelist k @ [f]\<rparr>"

definition FCB_incref :: "nat \<Rightarrow> kernel \<Rightarrow> kernel" where
  "FCB_incref f k = upd_fcb f (\<lambda>b. b\<lparr>refcount := refcount b + 1\<rparr>) k"

section \<open>Reserving descriptors\<close>

text \<open>The search for \<open>num\<close> unused descriptors; it stops when \<open>f\<close> reaches \<^verbatim>\<open>MAX_FILEID\<close>.\<close>

fun find_fids :: "nat \<Rightarrow> nat \<Rightarrow> (nat \<Rightarrow> nat option) \<Rightarrow> nat list" where
  "find_fids 0 f fidt = []"
| "find_fids (Suc n) f fidt =
     (case find (\<lambda>i. fidt i = None) [f..<MAX_FILEID] of
        None \<Rightarrow> []
      | Some i \<Rightarrow> i # find_fids n (Suc i) fidt)"

fun acquire_FCBs :: "nat \<Rightarrow> kernel \<Rightarrow> nat list \<times> kernel" where
  "acquire_FCBs 0 k = ([], k)"
| "acquire_FCBs (Suc n) k =
     (case acquire_FCB k of
        (None, k1) \<Rightarrow> ([], k1)
      | (Some f, k1) \<Rightarrow> (let (fs, k2) = acquire_FCBs n k1 in (f # fs, k2)))"

definition set_fid :: "nat \<Rightarrow> nat \<Rightarrow> nat option \<Rightarrow> kernel \<Rightarrow> kernel" where
  "set_fid p i x k = upd_pcb p (\<lambda>b. b\<lparr>FIDT := (FIDT b)(i := x)\<rparr>) k"

definition install_fid :: "nat \<Rightarrow> nat \<times> nat \<Rightarrow> kernel \<Rightarrow> kernel" where
  "install_fid p = (\<lambda>(i, f) k. FCB_incref f (set_fid p i (Some f) k))"

text \<open>\<^verbatim>\<open>FCB_reserve\<close> returns the two arrays it fills, or nothing when it returns 0.\<close>

definition FCB_reserve :: "nat \<Rightarrow> nat \<Rightarrow> kernel \<Rightarrow> ((nat list \<times> nat list) option \<times> kernel) res" where
  "FCB_reserve c num k =
     bindE (CURPROC c k) (\<lambda>p.
     let fids = find_fids num 0 (FIDT (PT k p)) in
     if length fids < num then Inr (None, k)
     else (let (fcbs, k1) = acquire_FCBs num k in
       if length fcbs < num then Inr (None, fold release_FCB (rev fcbs) k1)
       else Inr (Some (fids, fcbs), fold (install_fid p) (zip fids fcbs) k1)))"

definition unreserve_fid :: "nat \<Rightarrow> nat \<times> nat \<Rightarrow> kernel res \<Rightarrow> kernel res" where
  "unreserve_fid p = (\<lambda>(i, f) r. bindE r (\<lambda>k.
     bindE (assertE (FIDT (PT k p) i = Some f)) (\<lambda>_. Inr (release_FCB f (set_fid p i None k)))))"

definition FCB_unreserve :: "nat \<Rightarrow> nat list \<Rightarrow> nat list \<Rightarrow> kernel \<Rightarrow> kernel res" where
  "FCB_unreserve c fids fcbs k =
     bindE (CURPROC c k) (\<lambda>p. fold (unreserve_fid p) (zip fids fcbs) (Inr k))"

definition get_fcb :: "nat \<Rightarrow> int \<Rightarrow> kernel \<Rightarrow> nat option res" where
  "get_fcb c fid k =
     (if fid < 0 \<or> fid \<ge> int MAX_FILEID then Inr None
      else bindE (CURPROC c k) (\<lambda>p. Inr (FIDT (PT k p) (nat fid))))"

section \<open>Reference counts\<close>

definition fid_slots :: "(nat \<times> nat) set" where
  "fid_slots = {..<MAX_PROC} \<times> {..<MAX_FILEID}"

definition fid_at :: "kernel \<Rightarrow> nat \<times> nat \<Rightarrow> nat option" where
  "fid_at k = (\<lambda>(p, i). FIDT (PT k p) i)"

definition refs :: "kernel \<Rightarrow> nat \<Rightarrow> nat" where
  "refs k f = card {s \<in> fid_slots. fid_at k s = Some f}"

text \<open>
  \<open>held f\<close> counts the calls that use block \<open>f\<close> at the moment, such as a \<^verbatim>\<open>Read\<close> that waits; the
  blocks in \<open>P\<close> have just been acquired and have no reference yet.
\<close>

definition files_upto :: "nat set \<Rightarrow> (nat \<Rightarrow> nat) \<Rightarrow> kernel \<Rightarrow> bool" where
  "files_upto P held k \<longleftrightarrow>
     distinct (FCB_freelist k) \<and> set (FCB_freelist k) \<subseteq> {..<MAX_FILES} \<and> P \<subseteq> {..<MAX_FILES} \<and>
     (\<forall>s \<in> fid_slots. \<forall>f. fid_at k s = Some f \<longrightarrow> f < MAX_FILES) \<and>
     (\<forall>f < MAX_FILES. if f \<in> set (FCB_freelist k) then refs k f + held f = 0 \<and> f \<notin> P
        else (f \<in> P \<longleftrightarrow> refs k f + held f = 0) \<and> unat (refcount (FT k f)) = refs k f + held f)"

abbreviation files_inv :: "(nat \<Rightarrow> nat) \<Rightarrow> kernel \<Rightarrow> bool" where
  "files_inv \<equiv> files_upto {}"

lemma finite_slots [simp]: "finite fid_slots"
  by (simp add: fid_slots_def)

lemma card_slots: "card fid_slots = 2 ^ 20"
  by (simp add: fid_slots_def MAX_PROC_def MAX_FILEID_def)

lemma refs_bound: "refs k f \<le> 2 ^ 20"
  unfolding refs_def card_slots [symmetric] by (intro card_mono) auto

lemma refs_cong: "(\<And>s. s \<in> fid_slots \<Longrightarrow> fid_at k s = fid_at k' s) \<Longrightarrow> refs k f = refs k' f"
  unfolding refs_def by (metis (mono_tags, lifting))

lemma files_uptoD:
  assumes "files_upto P held k"
  shows "distinct (FCB_freelist k)" and "f \<in> set (FCB_freelist k) \<Longrightarrow> f < MAX_FILES"
    and "s \<in> fid_slots \<Longrightarrow> fid_at k s = Some f \<Longrightarrow> f < MAX_FILES"
    and "f \<in> set (FCB_freelist k) \<Longrightarrow> refs k f + held f = 0 \<and> f \<notin> P"
    and "f < MAX_FILES \<Longrightarrow> f \<notin> set (FCB_freelist k) \<Longrightarrow>
      (f \<in> P \<longleftrightarrow> refs k f + held f = 0) \<and> unat (refcount (FT k f)) = refs k f + held f"
    and "f \<in> P \<Longrightarrow> f < MAX_FILES"
  using assms unfolding files_upto_def by (auto split: if_splits)

lemma files_uptoI:
  assumes "distinct (FCB_freelist k)" and "\<And>f. f \<in> set (FCB_freelist k) \<Longrightarrow> f < MAX_FILES"
    and "\<And>f. f \<in> P \<Longrightarrow> f < MAX_FILES"
    and "\<And>s f. s \<in> fid_slots \<Longrightarrow> fid_at k s = Some f \<Longrightarrow> f < MAX_FILES"
    and "\<And>f. f \<in> set (FCB_freelist k) \<Longrightarrow> refs k f + held f = 0 \<and> f \<notin> P"
    and "\<And>f. f < MAX_FILES \<Longrightarrow> f \<notin> set (FCB_freelist k) \<Longrightarrow>
      (f \<in> P \<longleftrightarrow> refs k f + held f = 0) \<and> unat (refcount (FT k f)) = refs k f + held f"
  shows "files_upto P held k"
  using assms unfolding files_upto_def by auto

text \<open>The invariant depends on three tables only.\<close>

lemma files_upto_cong:
  assumes "FCB_freelist k' = FCB_freelist k" "\<And>f. refcount (FT k' f) = refcount (FT k f)"
    "\<And>p. FIDT (PT k' p) = FIDT (PT k p)"
  shows "files_upto P held k' = files_upto P held k"
proof -
  have a: "fid_at k' = fid_at k" using assms(3) by (simp add: fid_at_def fun_eq_iff)
  then have "refs k' f = refs k f" for f by (simp add: refs_def)
  with a show ?thesis using assms(1,2) by (simp add: files_upto_def)
qed

text \<open>Changing one descriptor.\<close>

lemma refs_set_fid:
  assumes "(p, i) \<in> fid_slots"
  shows "refs (set_fid p i x k) f + (if fid_at k (p, i) = Some f then 1 else 0) =
    refs k f + (if x = Some f then 1 else 0)"
proof -
  let ?S = "{s \<in> fid_slots. s \<noteq> (p, i) \<and> fid_at k s = Some f}"
  have fid: "fid_at (set_fid p i x k) s = (if s = (p, i) then x else fid_at k s)" for s
    by (cases s) (auto simp: fid_at_def set_fid_def)
  have fin: "finite ?S" "(p, i) \<notin> ?S" by (simp_all add: rev_finite_subset [OF finite_slots])
  have "{s \<in> fid_slots. fid_at (set_fid p i x k) s = Some f} = (if x = Some f then insert (p, i) ?S else ?S)"
    using assms by (auto simp: fid)
  then have a: "refs (set_fid p i x k) f = card ?S + (if x = Some f then 1 else 0)"
    using fin by (simp add: refs_def)
  have "{s \<in> fid_slots. fid_at k s = Some f} = (if fid_at k (p, i) = Some f then insert (p, i) ?S else ?S)"
    using assms by auto
  then have "refs k f = card ?S + (if fid_at k (p, i) = Some f then 1 else 0)"
    using fin by (simp add: refs_def)
  with a show ?thesis by simp
qed

lemma set_fid_frame [simp]:
  "FCB_freelist (set_fid p i x k) = FCB_freelist k" "FT (set_fid p i x k) = FT k"
  "cc (set_fid p i x k) = cc k" "FIDT (PT (set_fid p i x k) q) j =
     (if q = p \<and> j = i then x else FIDT (PT k q) j)"
  "next_addr (set_fid p i x k) = next_addr k" "malloc_ok (set_fid p i x k) = malloc_ok k"
  by (simp_all add: set_fid_def)

lemma fid_at_set_fid [simp]:
  "fid_at (set_fid p i x k) s = (if s = (p, i) then x else fid_at k s)"
  by (cases s) (auto simp: fid_at_def)


section \<open>Acquiring, installing and releasing\<close>

lemma acquire_FCB_upto:
  assumes inv: "files_upto P held k" and a: "acquire_FCB k = (Some f, k1)"
  shows "files_upto (insert f P) held k1" "f \<notin> P" "FCB_freelist k = f # FCB_freelist k1"
    "PT k1 = PT k" "cc k1 = cc k"
proof -
  note D = files_uptoD [OF inv]
  obtain fs where fl: "FCB_freelist k = f # fs" and k1: "k1 = upd_fcb f (\<lambda>b. b\<lparr>refcount := 0\<rparr>) (k\<lparr>FCB_freelist := fs\<rparr>)"
    using a by (auto simp: acquire_FCB_def split: list.splits)
  have refs: "refs k1 g = refs k g" for g by (rule refs_cong) (simp add: k1 fid_at_def split: prod.split)
  have e: "FCB_freelist k1 = fs" "refcount (FT k1 g) = (if g = f then 0 else refcount (FT k g))" for g
    by (simp_all add: k1)
  have f: "refs k f + held f = 0" "f \<notin> P" "f < MAX_FILES" "f \<notin> set fs"
    using D(4) [of f] D(2) [of f] D(1) fl by auto
  show "files_upto (insert f P) held k1"
  proof (rule files_uptoI)
    show "distinct (FCB_freelist k1)" using D(1) fl by (simp add: e)
    show "g < MAX_FILES" if "g \<in> set (FCB_freelist k1)" for g using that D(2) fl by (simp add: e)
    show "g < MAX_FILES" if "g \<in> insert f P" for g using that D(6) f(3) by auto
    show "g < MAX_FILES" if "s \<in> fid_slots" "fid_at k1 s = Some g" for s g
      using that D(3) [of s g] by (simp add: k1 fid_at_def split: prod.splits)
    show "refs k1 g + held g = 0 \<and> g \<notin> insert f P" if "g \<in> set (FCB_freelist k1)" for g
      using that D(4) [of g] fl f(4) by (auto simp: e refs)
    show "(g \<in> insert f P \<longleftrightarrow> refs k1 g + held g = 0) \<and> unat (refcount (FT k1 g)) = refs k1 g + held g"
      if "g < MAX_FILES" "g \<notin> set (FCB_freelist k1)" for g
      using that D(5) [of g] fl f by (cases "g = f") (simp_all add: e refs)
  qed
  show "f \<notin> P" "FCB_freelist k = f # FCB_freelist k1" "PT k1 = PT k" "cc k1 = cc k"
    using f fl by (simp_all add: k1)
qed

lemma release_FCB_upto:
  assumes inv: "files_upto (insert f P) held k" and f: "f \<notin> P"
  shows "files_upto P held (release_FCB f k)"
proof (rule files_uptoI)
  note D = files_uptoD [OF inv]
  let ?k = "release_FCB f k"
  have refs: "refs ?k g = refs k g" for g by (rule refs_cong) (simp add: release_FCB_def fid_at_def)
  have e: "FCB_freelist ?k = FCB_freelist k @ [f]" "FT ?k = FT k" by (simp_all add: release_FCB_def)
  have nf: "f \<notin> set (FCB_freelist k)" "f < MAX_FILES" using D(4) [of f] D(6) [of f] by auto
  then have zero: "refs k f + held f = 0" using D(5) [of f] by simp
  show "distinct (FCB_freelist ?k)" using D(1) nf by (simp add: e)
  show "g < MAX_FILES" if "g \<in> set (FCB_freelist ?k)" for g
    using that D(2) nf by (auto simp: e)
  show "g < MAX_FILES" if "g \<in> P" for g using that D(6) by simp
  show "g < MAX_FILES" if "s \<in> fid_slots" "fid_at ?k s = Some g" for s g
    using that D(3) [of s g] by (simp add: release_FCB_def fid_at_def)
  show "refs ?k g + held g = 0 \<and> g \<notin> P" if "g \<in> set (FCB_freelist ?k)" for g
    using that D(4) [of g] f zero by (auto simp: refs e)
  show "(g \<in> P \<longleftrightarrow> refs ?k g + held g = 0) \<and> unat (refcount (FT ?k g)) = refs ?k g + held g"
    if "g < MAX_FILES" "g \<notin> set (FCB_freelist ?k)" for g
    using that D(5) [of g] by (auto simp: refs e)
qed

lemma install_fid_upto:
  assumes inv: "files_upto (insert f P) held k" and f: "f \<notin> P"
    and slot: "(p, i) \<in> fid_slots" "fid_at k (p, i) = None"
  shows "files_upto P held (install_fid p (i, f) k)"
proof (rule files_uptoI)
  note D = files_uptoD [OF inv]
  let ?k = "install_fid p (i, f) k"
  have nf: "f \<notin> set (FCB_freelist k)" "f < MAX_FILES" using D(4) [of f] D(6) [of f] by auto
  have k: "FCB_freelist ?k = FCB_freelist k"
      "refcount (FT ?k g) = (if g = f then refcount (FT k g) + 1 else refcount (FT k g))" for g
    by (simp_all add: install_fid_def FCB_incref_def)
  have fid: "fid_at ?k s = fid_at (set_fid p i (Some f) k) s" for s
    by (cases s) (simp add: install_fid_def FCB_incref_def fid_at_def)
  have refs: "refs ?k g = refs k g + (if g = f then 1 else 0)" for g
    using refs_set_fid [OF slot(1), of "Some f" k g] slot(2) refs_cong [of ?k "set_fid p i (Some f) k" g] fid
    by simp
  have zero: "refs k f + held f = 0" "unat (refcount (FT k f)) = 0" using D(5) [of f] nf by simp_all
  show "distinct (FCB_freelist ?k)" using D(1) by (simp add: k)
  show "g < MAX_FILES" if "g \<in> set (FCB_freelist ?k)" for g using that D(2) by (simp add: k)
  show "g < MAX_FILES" if "g \<in> P" for g using that D(6) by simp
  show "g < MAX_FILES" if "s \<in> fid_slots" "fid_at ?k s = Some g" for s g
    using that D(3) [of s g] nf by (auto simp: fid split: if_splits)
  show "refs ?k g + held g = 0 \<and> g \<notin> P" if "g \<in> set (FCB_freelist ?k)" for g
    using that D(4) [of g] nf by (auto simp: refs k)
  show "(g \<in> P \<longleftrightarrow> refs ?k g + held g = 0) \<and> unat (refcount (FT ?k g)) = refs ?k g + held g"
    if "g < MAX_FILES" "g \<notin> set (FCB_freelist ?k)" for g
  proof (cases "g = f")
    case True
    with zero f show ?thesis by (simp add: refs k unat_eq_zero)
  next
    case False
    with that D(5) [of g] show ?thesis by (simp add: refs k)
  qed
qed

lemma find_fids_props:
  assumes "find_fids n f fidt = fids"
  shows "length fids \<le> n" and "distinct fids" and "\<forall>i \<in> set fids. f \<le> i \<and> i < MAX_FILEID \<and> fidt i = None"
proof -
  have "length (find_fids n f fidt) \<le> n \<and> sorted_wrt (<) (find_fids n f fidt) \<and>
     (\<forall>i \<in> set (find_fids n f fidt). f \<le> i \<and> i < MAX_FILEID \<and> fidt i = None)"
  proof (induction n f fidt rule: find_fids.induct)
    case (1 f fidt)
    then show ?case by simp
  next
    case (2 n f fidt)
    show ?case
    proof (cases "find (\<lambda>i. fidt i = None) [f..<MAX_FILEID]")
      case None
      then show ?thesis by simp
    next
      case (Some i)
      then have "f \<le> i \<and> i < MAX_FILEID \<and> fidt i = None"
        by (auto simp: find_Some_iff)
      with 2 [OF Some] Some show ?thesis by (auto simp: less_eq_Suc_le)
    qed
  qed
  with assms show "length fids \<le> n" "\<forall>i \<in> set fids. f \<le> i \<and> i < MAX_FILEID \<and> fidt i = None"
    by auto
  from assms \<open>_ \<and> _ \<and> _\<close> show "distinct fids"
    by (auto simp: strict_sorted_iff)
qed

text \<open>The search comes back short only when there are not enough unused descriptors.\<close>

lemma find_fids_short:
  "length (find_fids n f fidt) < n \<Longrightarrow>
     set (find_fids n f fidt) = {i. f \<le> i \<and> i < MAX_FILEID \<and> fidt i = None}"
proof (induction n f fidt rule: find_fids.induct)
  case (1 f fidt)
  then show ?case by simp
next
  case (2 n f fidt)
  show ?case
  proof (cases "find (\<lambda>i. fidt i = None) [f..<MAX_FILEID]")
    case None
    then have "\<forall>i. f \<le> i \<and> i < MAX_FILEID \<longrightarrow> fidt i \<noteq> None" by (auto simp: find_None_iff)
    with None show ?thesis by auto
  next
    case (Some i)
    then obtain j where j: "j < MAX_FILEID - f" "i = f + j" "fidt i = None" "\<forall>l < j. fidt (f + l) \<noteq> None"
      by (auto simp: find_Some_iff)
    have "set (find_fids n (Suc i) fidt) = {i'. Suc i \<le> i' \<and> i' < MAX_FILEID \<and> fidt i' = None}"
      using 2(1) [OF Some] 2(2) Some by simp
    moreover have "Suc i \<le> i'" if "f \<le> i'" "fidt i' = None" "i' \<noteq> i" for i'
    proof -
      have "i \<le> i'" using j(2,4) that(1,2) by (metis le_iff_add nat_add_left_cancel_le not_le)
      with that(3) show ?thesis by simp
    qed
    ultimately show ?thesis using Some j by auto
  qed
qed


section \<open>The effect of a reservation\<close>

lemma acquire_FCBs_upto:
  "files_upto P held k \<Longrightarrow> acquire_FCBs n k = (fs, k1) \<Longrightarrow>
     files_upto (P \<union> set fs) held k1 \<and> set fs \<inter> P = {} \<and> distinct fs \<and>
     FCB_freelist k = fs @ FCB_freelist k1 \<and> length fs = min n (length (FCB_freelist k)) \<and>
     PT k1 = PT k \<and> cc k1 = cc k"
proof (induction n k arbitrary: P fs k1 rule: acquire_FCBs.induct)
  case (1 k)
  then show ?case by simp
next
  case (2 n k)
  obtain x k2 where a: "acquire_FCB k = (x, k2)" by (cases "acquire_FCB k")
  show ?case
  proof (cases x)
    case None
    with a have "FCB_freelist k = []" "k2 = k" by (auto simp: acquire_FCB_def split: list.splits)
    with None a 2(2,3) show ?thesis by simp
  next
    case (Some f)
    obtain gs k3 where r: "acquire_FCBs n k2 = (gs, k3)" by (cases "acquire_FCBs n k2")
    have a': "acquire_FCB k = (Some f, k2)" using a Some by simp
    note A = acquire_FCB_upto [OF 2(2) a']
    have eq: "fs = f # gs" "k1 = k3" using 2(3) a Some r by simp_all
    have I: "files_upto (insert f P \<union> set gs) held k3" "set gs \<inter> insert f P = {}" "distinct gs"
        "FCB_freelist k2 = gs @ FCB_freelist k3" "length gs = min n (length (FCB_freelist k2))"
        "PT k3 = PT k2" "cc k3 = cc k2"
      using 2(1) [OF a [symmetric] Some A(1) r] by blast+
    have P: "insert f P \<union> set gs = P \<union> set fs" using eq by simp
    have "set fs \<inter> P = {}" "distinct fs" using I(2,3) A(2) eq by auto
    moreover have "FCB_freelist k = fs @ FCB_freelist k1" by (simp add: eq A(3) I(4))
    moreover have "length fs = min (Suc n) (length (FCB_freelist k))" by (simp add: eq A(3) I(5))
    ultimately show ?thesis using I(1,6,7) A(4,5) unfolding P eq(2) by simp
  qed
qed

lemma release_all_upto:
  "files_upto (P \<union> set fs) held k \<Longrightarrow> distinct fs \<Longrightarrow> set fs \<inter> P = {} \<Longrightarrow>
     files_upto P held (fold release_FCB fs k) \<and>
     FCB_freelist (fold release_FCB fs k) = FCB_freelist k @ fs \<and>
     PT (fold release_FCB fs k) = PT k \<and> cc (fold release_FCB fs k) = cc k"
proof (induction fs arbitrary: k)
  case Nil
  then show ?case by simp
next
  case (Cons f fs)
  have "files_upto (insert f (P \<union> set fs)) held k" using Cons.prems(1) by simp
  then have "files_upto (P \<union> set fs) held (release_FCB f k)"
    using Cons.prems(2,3) by (intro release_FCB_upto) auto
  from Cons.IH [OF this] Cons.prems show ?case by (simp add: release_FCB_def)
qed

lemma install_fid_frame [simp]:
  "FCB_freelist (install_fid p x k) = FCB_freelist k" "cc (install_fid p x k) = cc k"
  "next_addr (install_fid p x k) = next_addr k" "malloc_ok (install_fid p x k) = malloc_ok k"
  "FIDT (PT (install_fid p (i, f) k) q) j = (if q = p \<and> j = i then Some f else FIDT (PT k q) j)"
  by (cases x; simp add: install_fid_def FCB_incref_def)+

lemma install_all_upto:
  "files_upto (P \<union> set fs) held k \<Longrightarrow> distinct fs \<Longrightarrow> set fs \<inter> P = {} \<Longrightarrow> p < MAX_PROC \<Longrightarrow>
     length is = length fs \<Longrightarrow> distinct is \<Longrightarrow> \<forall>i \<in> set is. i < MAX_FILEID \<and> FIDT (PT k p) i = None \<Longrightarrow>
     files_upto P held (fold (install_fid p) (zip is fs) k) \<and>
     (\<forall>q j. FIDT (PT (fold (install_fid p) (zip is fs) k) q) j =
        (if q = p \<and> j \<in> set is then map_of (zip is fs) j else FIDT (PT k q) j)) \<and>
     FCB_freelist (fold (install_fid p) (zip is fs) k) = FCB_freelist k \<and>
     cc (fold (install_fid p) (zip is fs) k) = cc k"
proof (induction fs arbitrary: k "is")
  case Nil
  then show ?case by simp
next
  case (Cons f fs)
  then obtain i js where ij: "is = i # js" by (cases "is") auto
  let ?k = "install_fid p (i, f) k"
  have "files_upto (insert f (P \<union> set fs)) held k" using Cons.prems(1) by simp
  then have k1: "files_upto (P \<union> set fs) held ?k"
    using Cons.prems by (intro install_fid_upto) (auto simp: ij fid_slots_def fid_at_def)
  have fresh: "\<forall>j \<in> set js. j < MAX_FILEID \<and> FIDT (PT ?k p) j = None"
    using Cons.prems(6,7) by (auto simp: ij)
  from Cons.IH [OF k1 _ _ _ _ _ fresh] Cons.prems
  show ?case by (auto simp: ij)
qed

section \<open>What the file table leaves alone\<close>

text \<open>
  \<open>files_only k k'\<close>: the two states differ at most in the free list, in reference counts and in
  file descriptors.
\<close>

definition files_only :: "kernel \<Rightarrow> kernel \<Rightarrow> bool" where
  "files_only k k' \<longleftrightarrow> (\<exists>fl rc fids. k' = k\<lparr>FCB_freelist := fl, FT := (\<lambda>f. (FT k f)\<lparr>refcount := rc f\<rparr>),
     PT := (\<lambda>q. (PT k q)\<lparr>FIDT := fids q\<rparr>)\<rparr>)"

lemma files_only_sel:
  assumes "files_only k k'"
  shows "cc k' = cc k" "pcb_freelist k' = pcb_freelist k" "process_count k' = process_count k"
    "ptcbs k' = ptcbs k" "pipes k' = pipes k" "scbs k' = scbs k" "conn_reqs k' = conn_reqs k"
    "infos k' = infos k" "PortMap k' = PortMap k" "devnum k' = devnum k" "next_addr k' = next_addr k"
    "malloc_ok k' = malloc_ok k" "kbd_input k' = kbd_input k" "con_output k' = con_output k"
    "env_yield k' = env_yield k" "streamobj (FT k' f) = streamobj (FT k f)"
    "streamfunc (FT k' f) = streamfunc (FT k f)" "pstate (PT k' q) = pstate (PT k q)"
    "parent (PT k' q) = parent (PT k q)" "main_thread (PT k' q) = main_thread (PT k q)"
    "children_list (PT k' q) = children_list (PT k q)" "exited_list (PT k' q) = exited_list (PT k q)"
    "ptcb_list (PT k' q) = ptcb_list (PT k q)" "thread_count (PT k' q) = thread_count (PT k q)"
    "exitval (PT k' q) = exitval (PT k q)"
  using assms by (auto simp: files_only_def)

lemma files_onlyI:
  assumes "k' = k\<lparr>FCB_freelist := fl, FT := ft, PT := pt\<rparr>" "\<And>f. ft f = (FT k f)\<lparr>refcount := refcount (ft f)\<rparr>"
    "\<And>q. pt q = (PT k q)\<lparr>FIDT := FIDT (pt q)\<rparr>"
  shows "files_only k k'"
proof -
  have a: "(\<lambda>f. (FT k f)\<lparr>refcount := refcount (ft f)\<rparr>) = ft" by (rule ext) (rule assms(2) [symmetric])
  have b: "(\<lambda>q. (PT k q)\<lparr>FIDT := FIDT (pt q)\<rparr>) = pt" by (rule ext) (rule assms(3) [symmetric])
  show ?thesis
    unfolding files_only_def
    by (rule exI [of _ fl], rule exI [of _ "\<lambda>f. refcount (ft f)"], rule exI [of _ "\<lambda>q. FIDT (pt q)"])
       (simp only: a b assms(1))
qed

lemma files_only_refl [simp]: "files_only k k"
  by (rule files_onlyI [where fl = "FCB_freelist k" and ft = "FT k" and pt = "PT k"]) simp_all

lemma files_only_trans:
  assumes "files_only k k1" "files_only k1 k2"
  shows "files_only k k2"
proof -
  obtain fl rc fids where a: "k1 = k\<lparr>FCB_freelist := fl, FT := (\<lambda>f. (FT k f)\<lparr>refcount := rc f\<rparr>),
     PT := (\<lambda>q. (PT k q)\<lparr>FIDT := fids q\<rparr>)\<rparr>"
    using assms(1) unfolding files_only_def by blast
  obtain fl2 rc2 fids2 where b: "k2 = k1\<lparr>FCB_freelist := fl2, FT := (\<lambda>f. (FT k1 f)\<lparr>refcount := rc2 f\<rparr>),
     PT := (\<lambda>q. (PT k1 q)\<lparr>FIDT := fids2 q\<rparr>)\<rparr>"
    using assms(2) unfolding files_only_def by blast
  have "k2 = k\<lparr>FCB_freelist := fl2, FT := (\<lambda>f. (FT k f)\<lparr>refcount := rc2 f\<rparr>),
     PT := (\<lambda>q. (PT k q)\<lparr>FIDT := fids2 q\<rparr>)\<rparr>"
    unfolding b a by simp
  then show ?thesis unfolding files_only_def by blast
qed

lemma files_only_acquire: "acquire_FCB k = (x, k') \<Longrightarrow> files_only k k'"
  by (rule files_onlyI [where fl = "FCB_freelist k'" and ft = "FT k'" and pt = "PT k"])
     (auto simp: acquire_FCB_def upd_fcb_def split: list.splits)

lemma files_only_release: "files_only k (release_FCB f k)"
  by (rule files_onlyI [where fl = "FCB_freelist k @ [f]" and ft = "FT k" and pt = "PT k"])
     (simp_all add: release_FCB_def)

lemma files_only_incref: "files_only k (FCB_incref f k)"
  by (rule files_onlyI [where fl = "FCB_freelist k" and ft = "FT (FCB_incref f k)" and pt = "PT k"])
     (simp_all add: FCB_incref_def upd_fcb_def)

lemma files_only_set_fid: "files_only k (set_fid p i x k)"
  by (rule files_onlyI [where fl = "FCB_freelist k" and ft = "FT k" and pt = "PT (set_fid p i x k)"])
     (simp_all add: set_fid_def upd_pcb_def)

lemma files_only_install: "files_only k (install_fid p x k)"
  by (cases x) (auto simp: install_fid_def intro: files_only_trans files_only_incref files_only_set_fid)

lemma files_only_fold: "(\<And>x k. files_only k (g x k)) \<Longrightarrow> files_only k (fold g xs k)"
  by (induction xs arbitrary: k) (auto intro: files_only_trans)

lemma files_only_acquire_all: "acquire_FCBs n k = (fs, k') \<Longrightarrow> files_only k k'"
  by (induction n k arbitrary: fs k' rule: acquire_FCBs.induct)
     (auto split: option.splits prod.splits dest!: files_only_acquire intro: files_only_trans)

lemma files_only_reserve: "FCB_reserve c num k = Inr (r, k') \<Longrightarrow> files_only k k'"
  by (auto simp: FCB_reserve_def bindE_eq_Inr Let_def split: if_splits prod.splits
      dest!: files_only_acquire_all
      intro: files_only_trans files_only_fold files_only_release files_only_install)

section \<open>The reservation as a whole\<close>

lemma FCB_reserve_props:
  assumes "files_inv held k" and "CURPROC c k = Inr p" and "p < MAX_PROC"
  shows "\<exists>r k'. FCB_reserve c num k = Inr (r, k') \<and> files_inv held k' \<and> cc k' = cc k \<and>
     (r = None \<longleftrightarrow> card {i. i < MAX_FILEID \<and> FIDT (PT k p) i = None} < num \<or> length (FCB_freelist k) < num) \<and>
     (case r of
        None \<Rightarrow> (\<forall>q. FIDT (PT k' q) = FIDT (PT k q)) \<and> set (FCB_freelist k') = set (FCB_freelist k)
      | Some (fids, fcbs) \<Rightarrow>
          length fids = num \<and> length fcbs = num \<and> distinct fids \<and> distinct fcbs \<and>
          (\<forall>i \<in> set fids. i < MAX_FILEID \<and> FIDT (PT k p) i = None) \<and>
          FCB_freelist k = fcbs @ FCB_freelist k' \<and>
          (\<forall>q j. FIDT (PT k' q) j =
             (if q = p \<and> j \<in> set fids then map_of (zip fids fcbs) j else FIDT (PT k q) j)))"
proof -
  let ?fids = "find_fids num 0 (FIDT (PT k p))"
  note F = find_fids_props [OF refl, of num 0 "FIDT (PT k p)"]
  show ?thesis
  proof (cases "length ?fids < num")
    case True
    have "{i. i < MAX_FILEID \<and> FIDT (PT k p) i = None} = set ?fids"
      using find_fids_short [OF True] by simp
    then have "card {i. i < MAX_FILEID \<and> FIDT (PT k p) i = None} < num"
      using True distinct_card [OF F(2)] by simp
    with True assms show ?thesis
      by (intro exI [of _ None] exI [of _ k]) (simp add: FCB_reserve_def Let_def)
  next
    case enough: False
    then have len: "length ?fids = num" using F(1) by simp
    have "set ?fids \<subseteq> {i. i < MAX_FILEID \<and> FIDT (PT k p) i = None}" using F(3) by auto
    then have "num \<le> card {i. i < MAX_FILEID \<and> FIDT (PT k p) i = None}"
      using card_mono [of "{i. i < MAX_FILEID \<and> FIDT (PT k p) i = None}" "set ?fids"] distinct_card [OF F(2)] len
      by simp
    then have many: "\<not> card {i. i < MAX_FILEID \<and> FIDT (PT k p) i = None} < num" by simp
    obtain fcbs k1 where a: "acquire_FCBs num k = (fcbs, k1)" by (cases "acquire_FCBs num k")
    have A: "files_upto ({} \<union> set fcbs) held k1" "distinct fcbs" "FCB_freelist k = fcbs @ FCB_freelist k1"
        "length fcbs = min num (length (FCB_freelist k))" "PT k1 = PT k" "cc k1 = cc k"
      using acquire_FCBs_upto [OF assms(1) a] by blast+
    show ?thesis
    proof (cases "length fcbs < num")
      case True
      let ?k = "fold release_FCB (rev fcbs) k1"
      have R: "files_inv held ?k" "FCB_freelist ?k = FCB_freelist k1 @ rev fcbs" "PT ?k = PT k1" "cc ?k = cc k1"
        using release_all_upto [of "{}" "rev fcbs" held k1] A(1,2) by simp_all
      have "length (FCB_freelist k) < num" using True A(4) by simp
      moreover have "FCB_reserve c num k = Inr (None, ?k)"
        using assms(2) enough a True by (simp add: FCB_reserve_def Let_def)
      moreover have "set (FCB_freelist ?k) = set (FCB_freelist k)" by (auto simp: R(2) A(3))
      ultimately show ?thesis
        using R(1,3,4) A(5,6) by (intro exI [of _ None] exI [of _ ?k]) simp
    next
      case False
      let ?k = "fold (install_fid p) (zip ?fids fcbs) k1"
      have lf: "length fcbs = num" using False A(4) by simp
      have I: "files_inv held ?k" "\<forall>q j. FIDT (PT ?k q) j =
          (if q = p \<and> j \<in> set ?fids then map_of (zip ?fids fcbs) j else FIDT (PT k1 q) j)"
          "FCB_freelist ?k = FCB_freelist k1" "cc ?k = cc k1"
        using install_all_upto [OF A(1,2) _ assms(3), of ?fids] F len lf A(5) by simp_all
      have "FCB_reserve c num k = Inr (Some (?fids, fcbs), ?k)"
        using assms(2) len lf a by (simp add: FCB_reserve_def Let_def)
      moreover have "\<not> length (FCB_freelist k) < num" using A(4) lf by simp
      moreover have "\<forall>i \<in> set ?fids. i < MAX_FILEID \<and> FIDT (PT k p) i = None" using F(3) by blast
      ultimately show ?thesis
        using I A(2,3,5,6) many F(2) len lf
        by (intro exI [of _ "Some (?fids, fcbs)"] exI [of _ ?k] conjI)
           (simp_all only: option.case prod.case I A(3,5,6) option.distinct simp_thms)
    qed
  qed
qed


section \<open>The properties of the file table\<close>

text \<open>
  \<^verbatim>\<open>FCB_reserve\<close> is all or nothing. It succeeds exactly when the process has enough unused
  descriptors and the free list enough blocks; then it installs distinct, unused descriptors
  for distinct blocks that were free, each with a reference count of one, and changes no other
  descriptor. Otherwise no descriptor changes and the same blocks are free. The reference
  counts stay exact.
\<close>

theorem FCB_reserve_correct:
  assumes "files_inv held k" and "CURPROC c k = Inr p" and "p < MAX_PROC"
  shows "\<exists>r k'. FCB_reserve c num k = Inr (r, k') \<and> files_inv held k' \<and> cc k' = cc k \<and>
     (r = None \<longleftrightarrow> card {i. i < MAX_FILEID \<and> FIDT (PT k p) i = None} < num \<or> length (FCB_freelist k) < num) \<and>
     (case r of
        None \<Rightarrow> (\<forall>q. FIDT (PT k' q) = FIDT (PT k q)) \<and> set (FCB_freelist k') = set (FCB_freelist k)
      | Some (fids, fcbs) \<Rightarrow>
          length fids = num \<and> length fcbs = num \<and> distinct fids \<and> distinct fcbs \<and>
          (\<forall>i \<in> set fids. i < MAX_FILEID \<and> FIDT (PT k p) i = None) \<and>
          FCB_freelist k = fcbs @ FCB_freelist k' \<and>
          (\<forall>q j. FIDT (PT k' q) j =
             (if q = p \<and> j \<in> set fids then map_of (zip fids fcbs) j else FIDT (PT k q) j)))"
  by (rule FCB_reserve_props [OF assms])

text \<open>A process whose descriptor 0 points to the only block in use.\<close>

definition files_kernel :: kernel where
  "files_kernel = piped_kernel\<lparr>FCB_freelist := [1..<MAX_FILES],
     FT := (\<lambda>_. \<lparr>refcount = 1, streamobj = Null_object, streamfunc = Some Nulldev_fops\<rparr>),
     PT := (\<lambda>p. if p = 2 then example_pcb\<lparr>pstate := ALIVE, FIDT := [0 \<mapsto> 0]\<rparr> else example_pcb),
     cc := example_cc\<lparr>sch := upd_tcb (Thr 4) (\<lambda>t. t\<lparr>owner_pcb := Some 2\<rparr>) example_sched\<rparr>\<rparr>"

lemma files_kernel_inv: "files_inv (\<lambda>_. 0) files_kernel"
proof (rule files_uptoI)
  have at: "fid_at files_kernel s = (if s = (2, 0) then Some 0 else None)" for s
    by (cases s) (auto simp: fid_at_def files_kernel_def example_pcb_def)
  have "{s \<in> fid_slots. fid_at files_kernel s = Some f} = (if f = 0 then {(2, 0)} else {})" for f
    by (auto simp: at fid_slots_def MAX_PROC_def MAX_FILEID_def)
  then have refs: "refs files_kernel f = (if f = 0 then 1 else 0)" for f
    by (simp add: refs_def)
  have fl: "FCB_freelist files_kernel = [1..<MAX_FILES]" by (simp add: files_kernel_def)
  show "distinct (FCB_freelist files_kernel)" by (simp add: fl)
  show "f < MAX_FILES" if "f \<in> set (FCB_freelist files_kernel)" for f using that by (simp add: fl)
  show "f < MAX_FILES" if "s \<in> fid_slots" "fid_at files_kernel s = Some f" for s f
    using that by (simp add: at MAX_FILES_def MAX_PROC_def split: if_splits)
  show "refs files_kernel f + 0 = 0 \<and> f \<notin> {}" if "f \<in> set (FCB_freelist files_kernel)" for f
    using that by (simp add: fl refs)
  show "(f \<in> {} \<longleftrightarrow> refs files_kernel f + 0 = 0) \<and> unat (refcount (FT files_kernel f)) = refs files_kernel f + 0"
    if "f < MAX_FILES" "f \<notin> set (FCB_freelist files_kernel)" for f
    using that by (auto simp: fl refs) (simp add: files_kernel_def)
qed simp

lemma files_kernel_proc: "CURPROC 0 files_kernel = Inr 2"
  by (simp add: CURPROC_def tcb_of_def CURTHREAD_def files_kernel_def)

theorem FCB_reserve_correct_witness:
  "\<exists>r k'. FCB_reserve 0 2 files_kernel = Inr (r, k') \<and> files_inv (\<lambda>_. 0) k'"
  using FCB_reserve_correct [OF files_kernel_inv files_kernel_proc, of 2] by (auto simp: MAX_PROC_def)

end
