(* ===== verification/Dev.thy ===== *)
theory Dev
  imports Files
begin

text \<open>
  The device drivers and the device table, \<^verbatim>\<open>src/kernel_dev.c\<close>: the null device and the serial
  devices, which read by interrupts and write by polling.
\<close>

section \<open>The null device\<close>

text \<open>The functions return the size as an \<^verbatim>\<open>int\<close>.\<close>

definition nulldev_read :: "u32 \<Rightarrow> int \<times> byte list" where
  "nulldev_read sz = (sint sz, replicate (unat sz) 0)"

definition nulldev_write :: "u32 \<Rightarrow> int" where
  "nulldev_write sz = sint sz"

definition nulldev_close :: int where "nulldev_close = 0"

definition nulldev_open :: streamobj where "nulldev_open = Null_object"

section \<open>Serial devices\<close>

text \<open>The handler wakes the readers of all terminals; its preemption is off already.\<close>

fun rx_broadcasts :: "nat list \<Rightarrow> cc \<Rightarrow> cc res" where
  "rx_broadcasts [] s = Inr s"
| "rx_broadcasts (i # is) s = bindE (Cond_Broadcast (Serial_rx i) s) (rx_broadcasts is)"

definition serial_rx_handler :: "(handler \<Rightarrow> core \<Rightarrow> core) \<Rightarrow> nat \<Rightarrow> cc \<Rightarrow> cc res" where
  "serial_rx_handler run c s =
     (let (pre, s1) = set_core_preemption run c False s
      in bindE (rx_broadcasts [0..<nterm (vm (sch s1))] s1) (\<lambda>s2.
         Inr (if pre then snd (set_core_preemption run c True s2) else s2)))"

text \<open>One call of \<^verbatim>\<open>bios_read_serial\<close> or \<^verbatim>\<open>bios_write_serial\<close>, with the next results of the device.\<close>

definition set_vm :: "vm \<Rightarrow> kernel \<Rightarrow> kernel" where
  "set_vm v k = k\<lparr>cc := (cc k)\<lparr>sch := (sch (cc k))\<lparr>vm := v\<rparr>\<rparr>\<rparr>"

definition read_port :: "nat \<Rightarrow> kernel \<Rightarrow> (byte option \<times> kernel) res" where
  "read_port d k =
     bindE (bios_read_serial (case kbd_input k d of [] \<Rightarrow> [Again] | os # _ \<Rightarrow> os) d (vm (sch (cc k)))) (\<lambda>(b, v).
     Inr (b, (set_vm v k)\<lparr>kbd_input := (kbd_input k)(d := tl (kbd_input k d))\<rparr>))"

definition write_port :: "nat \<Rightarrow> kernel \<Rightarrow> (bool \<times> kernel) res" where
  "write_port d k =
     bindE (bios_write_serial (case con_output k d of [] \<Rightarrow> [Again] | os # _ \<Rightarrow> os) d (vm (sch (cc k)))) (\<lambda>(b, v).
     Inr (b, (set_vm v k)\<lparr>con_output := (con_output k)(d := tl (con_output k d))\<rparr>))"

text \<open>
  The loop of \<^verbatim>\<open>serial_read\<close>; the first argument is \<open>size - count\<close> and \<open>acc\<close> the bytes stored. It
  waits only while nothing has been read, and goes on at its head with \<open>acc\<close> still empty.
\<close>

fun serial_read_loop :: "nat \<Rightarrow> nat \<Rightarrow> byte list \<Rightarrow> kernel \<Rightarrow> ((int \<times> byte list, unit) outcome \<times> kernel) res" where
  "serial_read_loop 0 d acc k = Inr (Done (int (length acc), acc), k)"
| "serial_read_loop (Suc r) d acc k =
     bindE (read_port d k) (\<lambda>(b, k1).
     case b of
       Some x \<Rightarrow> serial_read_loop r d (acc @ [x]) k1
     | None \<Rightarrow> if acc = [] then Inr (Wait (Serial_rx d) SCHED_IO NO_TIMEOUT (), k1)
               else Inr (Done (int (length acc), acc), k1))"

definition set_preempt :: "(handler \<Rightarrow> core \<Rightarrow> core) \<Rightarrow> nat \<Rightarrow> bool \<Rightarrow> kernel \<Rightarrow> kernel" where
  "set_preempt run c b k = k\<lparr>cc := snd (set_core_preemption run c b (cc k))\<rparr>"

text \<open>\<^verbatim>\<open>serial_read\<close> from the loop on, which is where it goes on after a wait.\<close>

definition serial_read_resume ::
  "(handler \<Rightarrow> core \<Rightarrow> core) \<Rightarrow> nat \<Rightarrow> nat \<Rightarrow> u32 \<Rightarrow> kernel \<Rightarrow> ((int \<times> byte list, unit) outcome \<times> kernel) res" where
  "serial_read_resume run c d sz k =
     bindE (serial_read_loop (unat sz) d [] k) (\<lambda>(out, k1).
     Inr (out, case out of Done _ \<Rightarrow> set_preempt run c True k1 | _ \<Rightarrow> k1))"

definition serial_read ::
  "(handler \<Rightarrow> core \<Rightarrow> core) \<Rightarrow> nat \<Rightarrow> nat \<Rightarrow> u32 \<Rightarrow> kernel \<Rightarrow> ((int \<times> byte list, unit) outcome \<times> kernel) res" where
  "serial_read run c d sz k = serial_read_resume run c d sz (set_preempt run c False k)"

text \<open>
  \<^verbatim>\<open>serial_write\<close> polls, and yields the core while it holds the kernel lock. When the device is not
  ready for any of the attempts that \<open>con_output\<close> describes, the loop does not end.
\<close>

definition yield_kernel :: "kernel \<Rightarrow> kernel" where
  "yield_kernel k = k\<lparr>cc := env_yield k (cc k)\<rparr>"

fun serial_write_loop :: "nat \<Rightarrow> nat \<Rightarrow> (nat \<Rightarrow> byte) \<Rightarrow> nat \<Rightarrow> nat \<Rightarrow> kernel \<Rightarrow> ((int \<times> byte list) \<times> kernel) res" where
  "serial_write_loop fuel d buf sz count k =
     (if count < sz then
        (case fuel of
           0 \<Rightarrow> Inl No_return
         | Suc f \<Rightarrow>
             bindE (write_port d k) (\<lambda>(ok, k1).
             if ok then serial_write_loop f d buf sz (Suc count) k1
             else if count = 0 then serial_write_loop f d buf sz count (yield_kernel k1)
             else Inr ((int count, map buf [0..<count]), k1)))
      else Inr ((int count, map buf [0..<count]), k))"

declare serial_write_loop.simps [simp del]

definition serial_write :: "nat \<Rightarrow> (nat \<Rightarrow> byte) \<Rightarrow> u32 \<Rightarrow> kernel \<Rightarrow> ((int \<times> byte list) \<times> kernel) res" where
  "serial_write d buf sz k = serial_write_loop (Suc (length (con_output k d))) d buf (unat sz) 0 k"

definition serial_close :: int where "serial_close = 0"

definition serial_open :: "nat \<Rightarrow> kernel \<Rightarrow> streamobj res" where
  "serial_open term k =
     bindE (assertE (term < nterm (vm (sch (cc k))))) (\<lambda>_. Inr (Serial_dcb term))"

section \<open>The device table\<close>

definition initialize_devices :: "nat \<Rightarrow> handler \<Rightarrow> handler \<Rightarrow> kernel \<Rightarrow> kernel" where
  "initialize_devices c rx tx k =
     (let ports = nterm (vm (sch (cc k)));
          k1 = k\<lparr>devnum := (\<lambda>t. case t of DEV_NULL \<Rightarrow> 1 | DEV_SERIAL \<Rightarrow> ports),
                 cc := (cc k)\<lparr>waitset := (\<lambda>cv. case cv of Serial_rx i \<Rightarrow>
                    if i < ports then [] else waitset (cc k) cv | _ \<Rightarrow> waitset (cc k) cv)\<rparr>\<rparr>
      in set_vm (upd_core c (cpu_interrupt_handler SERIAL_TX_READY (Some tx) \<circ>
            cpu_interrupt_handler SERIAL_RX_READY (Some rx)) (vm (sch (cc k1)))) k1)"

definition device_open :: "device_type \<Rightarrow> nat \<Rightarrow> kernel \<Rightarrow> (streamobj \<times> file_ops) option res" where
  "device_open major minor k =
     (if minor \<ge> devnum k major then Inr None
      else case major of
        DEV_NULL \<Rightarrow> Inr (Some (nulldev_open, Nulldev_fops))
      | DEV_SERIAL \<Rightarrow> bindE (serial_open minor k) (\<lambda>obj. Inr (Some (obj, Serial_fops))))"

definition device_no :: "device_type \<Rightarrow> kernel \<Rightarrow> nat" where
  "device_no major k = devnum k major"

section \<open>What a serial read sees\<close>

definition rx_port :: "nat \<Rightarrow> kernel \<Rightarrow> bool" where
  "rx_port d k \<longleftrightarrow> iodir (kbd (TERMS (vm (sch (cc k))) d)) = IODIR_RX"

lemma set_vm_sel [simp]:
  "vm (sch (cc (set_vm v k))) = v" "kbd_input (set_vm v k) = kbd_input k" "pipes (set_vm v k) = pipes k"
  by (simp_all add: set_vm_def)

lemma read_port_byte:
  assumes "rx_port d k" "kbd_input k d = os # rest" "skip_eintr os = Inr (io_result.Done x)"
  shows "\<exists>k1. read_port d k = Inr (Some x, k1) \<and> rx_port d k1 \<and> kbd_input k1 d = rest"
  using assms by (auto simp: read_port_def bios_read_serial_def io_device_read_def rx_port_def)

lemma read_port_none:
  assumes "rx_port d k" "kbd_input k d = os # rest" "skip_eintr os = Inr Again"
  shows "\<exists>k1. read_port d k = Inr (None, k1) \<and> rx_port d k1 \<and> kbd_input k1 d = rest"
  using assms
  by (auto simp: read_port_def bios_read_serial_def io_device_read_def rx_port_def interrupt_pic_thread_def)

text \<open>The device has the bytes \<open>xs\<close>, each perhaps after some interrupted calls, and then no more.\<close>

definition port_has :: "nat \<Rightarrow> byte list \<Rightarrow> kernel \<Rightarrow> bool" where
  "port_has d xs k \<longleftrightarrow> rx_port d k \<and> (\<exists>oss os rest. kbd_input k d = oss @ os # rest \<and>
     map skip_eintr oss = map (\<lambda>x. Inr (io_result.Done x)) xs \<and> skip_eintr os = Inr Again)"

lemma serial_read_loop_ok:
  "port_has d xs k \<Longrightarrow>
     \<exists>k'. serial_read_loop r d acc k =
        Inr (if r \<noteq> 0 \<and> xs = [] \<and> acc = [] then Wait (Serial_rx d) SCHED_IO NO_TIMEOUT ()
             else Done (int (length (acc @ take r xs)), acc @ take r xs), k')"
proof (induction r arbitrary: xs acc k)
  case 0
  then show ?case by simp
next
  case (Suc r)
  from Suc.prems obtain oss os rest where p: "rx_port d k" "kbd_input k d = oss @ os # rest"
      "map skip_eintr oss = map (\<lambda>x. Inr (io_result.Done x)) xs" "skip_eintr os = Inr Again"
    by (auto simp: port_has_def)
  show ?case
  proof (cases xs)
    case Nil
    then obtain k1 where "read_port d k = Inr (None, k1)"
      using p read_port_none [of d k os rest] by auto
    with Nil show ?thesis by simp
  next
    case (Cons x ys)
    then obtain o1 oss1 where o: "oss = o1 # oss1" "skip_eintr o1 = Inr (io_result.Done x)"
        "map skip_eintr oss1 = map (\<lambda>x. Inr (io_result.Done x)) ys"
      using p(3) by (cases oss) auto
    obtain k1 where k1: "read_port d k = Inr (Some x, k1)" "rx_port d k1" "kbd_input k1 d = oss1 @ os # rest"
      using read_port_byte [of d k o1 "oss1 @ os # rest" x] p(1,2) o by auto
    then have "port_has d ys k1" using o(3) p(4) by (auto simp: port_has_def)
    from Suc.IH [OF this, of "acc @ [x]"] k1 Cons show ?thesis by simp
  qed
qed

section \<open>The property of serial devices\<close>

text \<open>
  \<^verbatim>\<open>serial_read\<close> gives the bytes that the device has, in their order, as many as asked for
  or as there are; it waits for the receive interrupt only when the device has none, and
  interrupted calls of the device lose nothing.
\<close>

theorem serial_read_correct:
  assumes "port_has d xs k" and "sz \<noteq> 0"
  shows "\<exists>k'. serial_read_resume run c d sz k =
     Inr (if xs = [] then Wait (Serial_rx d) SCHED_IO NO_TIMEOUT ()
          else Done (int (min (unat sz) (length xs)), take (unat sz) xs), k')"
proof -
  have "unat sz \<noteq> 0" using assms(2) by (simp add: unat_gt_0)
  with serial_read_loop_ok [OF assms(1), of "unat sz" "[]"]
  show ?thesis by (auto simp: serial_read_resume_def min.commute)
qed

definition typed_kernel :: kernel where
  "typed_kernel = example_kernel\<lparr>kbd_input := (\<lambda>_. [[Interrupted, io_result.Done 97], [io_result.Done 98], [Again]]),
     cc := example_cc\<lparr>sch := example_sched\<lparr>vm := example_vm\<lparr>TERMS := (\<lambda>_. \<lparr>con = io_device_init True 4 IODIR_TX example_vm,
        kbd = io_device_init True 3 IODIR_RX example_vm\<rparr>)\<rparr>\<rparr>\<rparr>\<rparr>"

theorem serial_read_correct_witness:
  "\<exists>k'. serial_read_resume (\<lambda>_ k. k) 0 0 5 typed_kernel = Inr (Done (2, [97, 98]), k')"
proof -
  have "port_has 0 [97, 98] typed_kernel"
    unfolding port_has_def
    by (intro conjI exI [of _ "[[Interrupted, io_result.Done 97], [io_result.Done 98]]"] exI [of _ "[Again]"] exI [of _ "[]"])
       (simp_all add: typed_kernel_def rx_port_def io_device_init_def)
  from serial_read_correct [OF this, of 5 "\<lambda>_ k. k" 0] show ?thesis by simp
qed

end
