(* ===== verification/Socket.thy ===== *)
theory Socket
  imports Files
begin

text \<open>
  Sockets, \<^verbatim>\<open>src/kernel_socket.c\<close>: listeners bound to ports, connection requests with a timeout,
  and peers joined by two pipes. The type of a socket says which half of its union is in use.
\<close>

section \<open>Streams\<close>

text \<open>The cast of a stream object to \<^verbatim>\<open>SCB*\<close>; another kind of object is not a socket block.\<close>

definition as_scb :: "streamobj \<Rightarrow> nat res" where
  "as_scb obj = (case obj of Scb_obj a \<Rightarrow> Inr a | Null_object \<Rightarrow> Inl Null_deref | _ \<Rightarrow> Inl Out_of_bounds)"

text \<open>A read or a write goes to a pipe, if at all; \<open>None\<close> is the result \<open>-1\<close> without a pipe.\<close>

definition socket_read_pipe :: "nat \<Rightarrow> kernel \<Rightarrow> (int + nat) res" where
  "socket_read_pipe a k =
     bindE (derefE (scbs k a)) (\<lambda>s.
     if stype s = PEER \<and> peer s \<noteq> None then
       Inr (case receive s of Some p \<Rightarrow> Inr p | None \<Rightarrow> Inl 0)
     else Inr (Inl (-1)))"

definition socket_read :: "nat \<Rightarrow> u32 \<Rightarrow> kernel \<Rightarrow> ((int \<times> byte list, nat) outcome \<times> kernel) res" where
  "socket_read a sz k =
     bindE (socket_read_pipe a k) (\<lambda>r. case r of
       Inl n \<Rightarrow> Inr (Done (n, []), k)
     | Inr p \<Rightarrow> bindE (pipe_read p sz k) (\<lambda>(out, k1).
         Inr (case out of Done x \<Rightarrow> Done x | Wait cv cause t _ \<Rightarrow> Wait cv cause t p, k1)))"

definition socket_write_pipe :: "nat \<Rightarrow> kernel \<Rightarrow> nat option res" where
  "socket_write_pipe a k =
     bindE (derefE (scbs k a)) (\<lambda>s.
     Inr (if stype s = PEER \<and> peer s \<noteq> None then send s else None))"

definition socket_write :: "nat \<Rightarrow> (nat \<Rightarrow> byte) \<Rightarrow> u32 \<Rightarrow> kernel \<Rightarrow> ((int, nat) outcome \<times> kernel) res" where
  "socket_write a buf sz k =
     bindE (socket_write_pipe a k) (\<lambda>r. case r of
       None \<Rightarrow> Inr (Done (-1), k)
     | Some p \<Rightarrow> bindE (pipe_write p buf sz k) (\<lambda>(out, k1).
         Inr (case out of Done x \<Rightarrow> Done x | Wait cv cause t _ \<Rightarrow> Wait cv cause t p, k1)))"

section \<open>Shutdown and close\<close>

datatype shutdown_mode = SHUTDOWN_NONE | SHUTDOWN_READ | SHUTDOWN_WRITE | SHUTDOWN_BOTH

text \<open>The socket behind a descriptor that has the socket operations, if there is one.\<close>

definition socket_of_fid :: "nat \<Rightarrow> int \<Rightarrow> kernel \<Rightarrow> nat option res" where
  "socket_of_fid c sock k =
     bindE (get_fcb c sock k) (\<lambda>f. case f of
       None \<Rightarrow> Inr None
     | Some f \<Rightarrow> if streamfunc (FT k f) = Some Socket_ops
                 then bindE (as_scb (streamobj (FT k f))) (\<lambda>a. Inr (Some a)) else Inr None)"

definition shutdown_read :: "nat \<Rightarrow> kernel \<Rightarrow> kernel res" where
  "shutdown_read a k =
     bindE (derefE (scbs k a)) (\<lambda>s. case receive s of
       None \<Rightarrow> Inr k
     | Some p \<Rightarrow>
         bindE (reader_close (Some p) k) (\<lambda>(_, k1).
         bindE (nonnullE (peer s)) (\<lambda>b.
         bindE (derefE (scbs k1 b)) (\<lambda>_.
         Inr (upd_scb b (\<lambda>s. s\<lparr>send := None\<rparr>) (upd_scb a (\<lambda>s. s\<lparr>receive := None\<rparr>) k1))))))"

definition shutdown_write :: "nat \<Rightarrow> kernel \<Rightarrow> kernel res" where
  "shutdown_write a k =
     bindE (derefE (scbs k a)) (\<lambda>s. case send s of
       None \<Rightarrow> Inr k
     | Some p \<Rightarrow> bindE (writer_close (Some p) k) (\<lambda>(_, k1). Inr (upd_scb a (\<lambda>s. s\<lparr>send := None\<rparr>) k1)))"

definition shutdown_socket :: "nat \<Rightarrow> shutdown_mode \<Rightarrow> kernel \<Rightarrow> (int \<times> kernel) res" where
  "shutdown_socket a how k =
     bindE (derefE (scbs k a)) (\<lambda>s.
     if stype s = PEER \<and> peer s \<noteq> None then
       bindE (if how = SHUTDOWN_READ \<or> how = SHUTDOWN_BOTH then shutdown_read a k else Inr k) (\<lambda>k1.
       bindE (if how = SHUTDOWN_WRITE \<or> how = SHUTDOWN_BOTH then shutdown_write a k1 else Inr k1) (\<lambda>k2.
       Inr (0, k2)))
     else Inr (-1, k))"

definition sys_ShutDown :: "nat \<Rightarrow> int \<Rightarrow> shutdown_mode \<Rightarrow> kernel \<Rightarrow> (int \<times> kernel) res" where
  "sys_ShutDown c sock how k =
     (if 0 \<le> sock \<and> sock \<le> int MAX_FILEID - 1 \<and> how \<noteq> SHUTDOWN_NONE then
        bindE (socket_of_fid c sock k) (\<lambda>a. case a of
          None \<Rightarrow> Inr (-1, k)
        | Some a \<Rightarrow> shutdown_socket a how k)
      else Inr (-1, k))"

definition free_scb :: "nat \<Rightarrow> kernel \<Rightarrow> kernel" where
  "free_scb a k = k\<lparr>scbs := (scbs k)(a := None)\<rparr>"

text \<open>
  \<^verbatim>\<open>socket_close\<close>. The listener yields after it has woken who waits for a request; what other
  threads do meanwhile is \<open>env_yield\<close>.
\<close>

definition close_listener :: "nat \<Rightarrow> scb \<Rightarrow> kernel \<Rightarrow> kernel res" where
  "close_listener a s k =
     bindE (on_cc (Cond_Broadcast (Server_requests a)) (upd_scb a (\<lambda>s. s\<lparr>srefcount := 0\<rparr>) k)) (\<lambda>k1.
     let k2 = k1\<lparr>cc := env_yield k1 (cc k1)\<rparr>
     in Inr (if PortMap k2 (port s) = Some a then k2\<lparr>PortMap := (PortMap k2)(port s := None)\<rparr> else k2))"

definition close_peer :: "nat \<Rightarrow> nat \<Rightarrow> scb \<Rightarrow> kernel \<Rightarrow> kernel res" where
  "close_peer c a s k =
     bindE (sys_ShutDown c (sfid s) SHUTDOWN_BOTH k) (\<lambda>(_, k1).
     bindE (derefE (scbs k1 a)) (\<lambda>s1.
     bindE (nonnullE (peer s1)) (\<lambda>b.
     bindE (derefE (scbs k1 b)) (\<lambda>_. Inr (upd_scb b (\<lambda>s. s\<lparr>receive := None\<rparr>) k1)))))"

definition socket_close :: "nat \<Rightarrow> nat \<Rightarrow> kernel \<Rightarrow> (int \<times> kernel) res" where
  "socket_close c a k =
     bindE (derefE (scbs k a)) (\<lambda>s.
     if srefcount s \<le> 1 then
       bindE (case stype s of
                LISTENER \<Rightarrow> close_listener a s k
              | PEER \<Rightarrow> close_peer c a s k
              | UNBOUND \<Rightarrow> Inr k) (\<lambda>k1. Inr (0, free_scb a k1))
     else Inr (-1, k))"

section \<open>Creating sockets and listening\<close>

definition create_pipe :: "nat \<Rightarrow> kernel \<Rightarrow> kernel res" where
  "create_pipe a k =
     (let (rcv, k1) = get_pipe k; (snd_p, k2) = get_pipe k1;
          k3 = upd_scb a (\<lambda>s. s\<lparr>send := snd_p, receive := rcv\<rparr>) k2
      in bindE (derefE (scbs k3 a)) (\<lambda>s.
         bindE (nonnullE (peer s)) (\<lambda>b.
         bindE (derefE (scbs k3 b)) (\<lambda>_.
         Inr (upd_scb b (\<lambda>s. s\<lparr>send := rcv, receive := snd_p\<rparr>) k3)))))"

definition sys_Socket :: "nat \<Rightarrow> int \<Rightarrow> kernel \<Rightarrow> (int \<times> kernel) res" where
  "sys_Socket c prt k =
     (if prt < 0 \<or> prt > int MAX_PORT then Inr (NOFILE, k)
      else bindE (FCB_reserve c 1 k) (\<lambda>(r, k1). case r of
        None \<Rightarrow> Inr (NOFILE, k1)
      | Some (fids, fcbs) \<Rightarrow>
         (let fid = hd fids; f = hd fcbs in
          case malloc k1 of
            (None, k2) \<Rightarrow> Inr (NOFILE, k2)
          | (Some a, k2) \<Rightarrow>
             (let s = \<lparr>srefcount = 0, port = (if prt \<noteq> 0 then nat prt else 0), stype = UNBOUND, req_queue = [],
                       peer = None, send = None, receive = None, sfid = (if prt \<noteq> 0 then int fid else 0)\<rparr>;
                  k3 = k2\<lparr>scbs := (scbs k2)(a \<mapsto> s)\<rparr>
              in Inr (int fid, upd_fcb f (\<lambda>b. b\<lparr>streamobj := Scb_obj a, streamfunc := Some Socket_ops\<rparr>) k3)))))"

text \<open>\<^verbatim>\<open>COND_INIT\<close> empties the ring of the condition.\<close>

definition cond_init :: "cvname \<Rightarrow> kernel \<Rightarrow> kernel" where
  "cond_init cv k = k\<lparr>cc := (cc k)\<lparr>waitset := (waitset (cc k))(cv := [])\<rparr>\<rparr>"

definition sys_Listen :: "nat \<Rightarrow> int \<Rightarrow> kernel \<Rightarrow> (int \<times> kernel) res" where
  "sys_Listen c sock k =
     (if 0 \<le> sock \<and> sock \<le> int MAX_FILEID - 1 then
        bindE (socket_of_fid c sock k) (\<lambda>a. case a of
          None \<Rightarrow> Inr (-1, k)
        | Some a \<Rightarrow>
            bindE (derefE (scbs k a)) (\<lambda>s.
            if port s \<noteq> 0 \<and> PortMap k (port s) = None \<and> srefcount s = 0 then
              (let k1 = upd_scb a (\<lambda>s. s\<lparr>req_queue := [], srefcount := srefcount s + 1, stype := LISTENER\<rparr>)
                          (cond_init (Server_requests a) k)
               in Inr (0, k1\<lparr>PortMap := (PortMap k1)(port s \<mapsto> a)\<rparr>))
            else Inr (-1, k)))
      else Inr (-1, k))"

section \<open>Connecting\<close>

text \<open>
  \<^verbatim>\<open>sys_Accept\<close> from the point where it takes a request off the queue. The sentinel of an empty
  queue has a null object.
\<close>

definition accept_request :: "nat \<Rightarrow> nat \<Rightarrow> kernel \<Rightarrow> (int \<times> kernel) res" where
  "accept_request c l k =
     bindE (derefE (scbs k l)) (\<lambda>ls. case req_queue ls of
       [] \<Rightarrow> Inl Null_deref
     | q # qs \<Rightarrow>
        (let k1 = upd_scb l (\<lambda>s. s\<lparr>req_queue := qs\<rparr>) k in
         bindE (derefE (conn_reqs k1 q)) (\<lambda>req.
         let cl = csocket req in
         bindE (derefE (scbs k1 cl)) (\<lambda>_.
         bindE (sys_Socket c (int (port ls)) (upd_scb cl (\<lambda>s. s\<lparr>srefcount := 1\<rparr>) k1)) (\<lambda>(fid, k2).
         if fid = NOFILE then
           bindE (on_cc (Cond_Signal (Connected_cv q)) k2) (\<lambda>k3. Inr (NOFILE, k3))
         else
           bindE (get_fcb c fid k2) (\<lambda>f.
           bindE (nonnullE f) (\<lambda>f.
           bindE (as_scb (streamobj (FT k2 f))) (\<lambda>sv.
           let k3 = upd_scb sv (\<lambda>s. s\<lparr>srefcount := 1, stype := PEER, peer := Some cl\<rparr>)
                      (upd_scb cl (\<lambda>s. s\<lparr>stype := PEER, peer := Some sv\<rparr>) k2)
           in bindE (create_pipe sv k3) (\<lambda>k4.
              bindE (on_cc (Cond_Signal (Connected_cv q)) (upd_conn q (\<lambda>r. r\<lparr>accepted := True\<rparr>) k4)) (\<lambda>k5.
              Inr (fid, k5)))))))))))"

text \<open>The checks of \<^verbatim>\<open>sys_Accept\<close>: the listener, or nothing for \<^verbatim>\<open>NOFILE\<close>.\<close>

definition accept_listener :: "nat \<Rightarrow> int \<Rightarrow> kernel \<Rightarrow> nat option res" where
  "accept_listener c lsock k =
     (if lsock < 0 \<or> lsock > int MAX_FILEID - 1 then Inr None
      else bindE (socket_of_fid c lsock k) (\<lambda>a. case a of
        None \<Rightarrow> Inr None
      | Some l \<Rightarrow> bindE (derefE (scbs k l)) (\<lambda>s.
          Inr (if stype s \<noteq> LISTENER \<or> PortMap k (port s) = None then None else Some l))))"

definition sys_Accept :: "nat \<Rightarrow> int \<Rightarrow> kernel \<Rightarrow> ((int, nat) outcome \<times> kernel) res" where
  "sys_Accept c lsock k =
     bindE (accept_listener c lsock k) (\<lambda>l. case l of
       None \<Rightarrow> Inr (Done NOFILE, k)
     | Some l \<Rightarrow>
         bindE (derefE (scbs k l)) (\<lambda>s.
         if req_queue s = [] then Inr (Wait (Server_requests l) SCHED_PIPE NO_TIMEOUT l, k)
         else bindE (accept_request c l k) (\<lambda>(fid, k1). Inr (Done fid, k1))))"

text \<open>Where \<^verbatim>\<open>sys_Accept\<close> goes on after its wait; the result of the wait is not used.\<close>

definition sys_Accept_resume :: "nat \<Rightarrow> nat \<Rightarrow> kernel \<Rightarrow> (int \<times> kernel) res" where
  "sys_Accept_resume c l k =
     bindE (derefE (scbs k l)) (\<lambda>s.
     if srefcount s = 0 then Inr (NOFILE, k) else accept_request c l k)"

definition MILLISEC :: "u64 \<Rightarrow> u64" where "MILLISEC v = 1000 * v"

text \<open>The loop of \<^verbatim>\<open>sys_Connect\<close>: one test, and what follows a wait that returned \<open>flag\<close>.\<close>

definition connect_loop :: "nat \<Rightarrow> u64 \<Rightarrow> kernel \<Rightarrow> ((int, nat) outcome \<times> kernel) res" where
  "connect_loop q timeout k =
     bindE (derefE (conn_reqs k q)) (\<lambda>r.
     Inr (if accepted r then Done 0 else Wait (Connected_cv q) SCHED_USER (MILLISEC timeout) q, k))"

definition sys_Connect_resume :: "nat \<Rightarrow> u64 \<Rightarrow> bool \<Rightarrow> kernel \<Rightarrow> ((int, nat) outcome \<times> kernel) res" where
  "sys_Connect_resume q timeout flag k =
     bindE (derefE (conn_reqs k q)) (\<lambda>r.
     if flag \<and> \<not> accepted r then Inr (Done (-1), k)
     else if \<not> flag then Inr (Done (-1), k)
     else connect_loop q timeout k)"

definition sys_Connect :: "nat \<Rightarrow> int \<Rightarrow> int \<Rightarrow> u64 \<Rightarrow> kernel \<Rightarrow> ((int, nat) outcome \<times> kernel) res" where
  "sys_Connect c sock prt timeout k =
     (if sock < 0 \<or> sock > int MAX_FILEID - 1 then Inr (Done (-1), k)
      else if prt < 0 \<or> prt > int MAX_PORT then Inr (Done (-1), k)
      else case PortMap k (nat prt) of
        None \<Rightarrow> Inr (Done (-1), k)
      | Some l \<Rightarrow>
         bindE (derefE (scbs k l)) (\<lambda>ls.
         if stype ls \<noteq> LISTENER then Inr (Done (-1), k)
         else bindE (get_fcb c sock k) (\<lambda>f. case f of
           None \<Rightarrow> Inr (Done (-1), k)
         | Some f \<Rightarrow>
             bindE (as_scb (streamobj (FT k f))) (\<lambda>a.
             bindE (derefE (scbs k a)) (\<lambda>s.
             if stype s \<noteq> UNBOUND then Inr (Done (-1), k)
             else case malloc k of
               (None, k1) \<Rightarrow> Inr (Done (-1), k1)
             | (Some q, k1) \<Rightarrow>
                (let k2 = k1\<lparr>conn_reqs := (conn_reqs k1)(q \<mapsto> \<lparr>csocket = a, accepted = False\<rparr>)\<rparr>;
                     k3 = upd_scb l (\<lambda>s. s\<lparr>req_queue := req_queue s @ [q]\<rparr>) k2
                 in bindE (on_cc (Cond_Signal (Server_requests l)) k3) (connect_loop q timeout)))))))"


section \<open>Lemmas\<close>

lemma CURPROC_cong: "cc k' = cc k \<Longrightarrow> CURPROC c k' = CURPROC c k"
  by (simp add: CURPROC_def CURTHREAD_def tcb_of_def)

definition has_room :: "nat \<Rightarrow> kernel \<Rightarrow> bool" where
  "has_room p k \<longleftrightarrow> (\<exists>i < MAX_FILEID. FIDT (PT k p) i = None) \<and> FCB_freelist k \<noteq> []"

lemma reserve_one:
  assumes "files_inv held k" "CURPROC c k = Inr p" "p < MAX_PROC" "has_room p k"
  obtains i f k' where "FCB_reserve c 1 k = Inr (Some ([i], [f]), k')" "files_only k k'" "files_inv held k'"
    "i < MAX_FILEID" "FIDT (PT k p) i = None" "FCB_freelist k = f # FCB_freelist k'"
    "\<forall>q j. FIDT (PT k' q) j = (if q = p \<and> j = i then Some f else FIDT (PT k q) j)"
proof -
  obtain r k' where r: "FCB_reserve c 1 k = Inr (r, k')" "files_inv held k'"
      "r = None \<longleftrightarrow> card {i. i < MAX_FILEID \<and> FIDT (PT k p) i = None} < 1 \<or> length (FCB_freelist k) < 1"
    and s: "\<And>fids fcbs. r = Some (fids, fcbs) \<Longrightarrow> length fids = 1 \<and> length fcbs = 1 \<and>
          (\<forall>i \<in> set fids. i < MAX_FILEID \<and> FIDT (PT k p) i = None) \<and> FCB_freelist k = fcbs @ FCB_freelist k' \<and>
          (\<forall>q j. FIDT (PT k' q) j =
             (if q = p \<and> j \<in> set fids then map_of (zip fids fcbs) j else FIDT (PT k q) j))"
    using FCB_reserve_props [OF assms(1-3), of 1] by force
  have "finite {i. i < MAX_FILEID \<and> FIDT (PT k p) i = None}" by simp
  moreover have "{i. i < MAX_FILEID \<and> FIDT (PT k p) i = None} \<noteq> {}" using assms(4) by (auto simp: has_room_def)
  ultimately have "0 < card {i. i < MAX_FILEID \<and> FIDT (PT k p) i = None}"
    unfolding card_gt_0_iff by blast
  then have "\<not> card {i. i < MAX_FILEID \<and> FIDT (PT k p) i = None} < 1" by linarith
  moreover have "\<not> length (FCB_freelist k) < 1" using assms(4) by (simp add: has_room_def Suc_le_eq)
  ultimately have "r \<noteq> None" unfolding r(3) by blast
  then obtain fids fcbs where x: "r = Some (fids, fcbs)" by auto
  from s [OF x] obtain i f where "fids = [i]" "fcbs = [f]"
    by (auto simp: length_Suc_conv)
  with that [of i f k'] r(1,2) x s [OF x] files_only_reserve [OF r(1)] show ?thesis by auto
qed

text \<open>Fresh addresses: nothing lives at or above the next address.\<close>

definition fresh_above :: "kernel \<Rightarrow> bool" where
  "fresh_above k \<longleftrightarrow> (\<forall>a \<ge> next_addr k. scbs k a = None \<and> pipes k a = None)"

definition new_scb :: "nat \<Rightarrow> nat \<Rightarrow> scb" where
  "new_scb prt fid = \<lparr>srefcount = 0, port = prt, stype = UNBOUND, req_queue = [], peer = None, send = None,
     receive = None, sfid = (if prt \<noteq> 0 then int fid else 0)\<rparr>"

lemma sys_Socket_ok:
  assumes "files_inv held k" "CURPROC c k = Inr p" "p < MAX_PROC" "has_room p k"
    and "prt \<le> MAX_PORT" "malloc_ok k (next_addr k)"
  obtains i f k' where "sys_Socket c (int prt) k = Inr (int i, k')" "files_inv held k'"
    "i < MAX_FILEID" "FIDT (PT k p) i = None"
    "scbs k' = (scbs k)(next_addr k \<mapsto> new_scb prt i)" "next_addr k' = Suc (next_addr k)"
    "malloc_ok k' = malloc_ok k" "pipes k' = pipes k" "conn_reqs k' = conn_reqs k" "cc k' = cc k"
    "PortMap k' = PortMap k" "env_yield k' = env_yield k"
    "\<forall>q j. FIDT (PT k' q) j = (if q = p \<and> j = i then Some f else FIDT (PT k q) j)"
    "streamobj (FT k' f) = Scb_obj (next_addr k)" "streamfunc (FT k' f) = Some Socket_ops"
    "FCB_freelist k = f # FCB_freelist k'"
    "\<forall>g. g \<noteq> f \<longrightarrow> streamobj (FT k' g) = streamobj (FT k g) \<and> streamfunc (FT k' g) = streamfunc (FT k g)"
proof -
  obtain i f k1 where r: "FCB_reserve c 1 k = Inr (Some ([i], [f]), k1)" "files_only k k1" "files_inv held k1"
    "i < MAX_FILEID" "FIDT (PT k p) i = None" "FCB_freelist k = f # FCB_freelist k1"
    "\<forall>q j. FIDT (PT k1 q) j = (if q = p \<and> j = i then Some f else FIDT (PT k q) j)"
    by (rule reserve_one [OF assms(1-4)]) (rule that; assumption)
  note S = files_only_sel [OF r(2)]
  let ?k2 = "k1\<lparr>next_addr := Suc (next_addr k), scbs := (scbs k)(next_addr k \<mapsto> new_scb prt i)\<rparr>"
  let ?k = "upd_fcb f (\<lambda>b. b\<lparr>streamobj := Scb_obj (next_addr k), streamfunc := Some Socket_ops\<rparr>) ?k2"
  have "files_inv held ?k = files_inv held k1" by (rule files_upto_cong) simp_all
  with r(3) have inv: "files_inv held ?k" by simp
  have "sys_Socket c (int prt) k = Inr (int i, ?k)"
    using assms(5,6) r(1) S by (simp add: sys_Socket_def malloc_def Let_def new_scb_def)
  moreover have "scbs ?k = (scbs k)(next_addr k \<mapsto> new_scb prt i)" "next_addr ?k = Suc (next_addr k)" by simp_all
  moreover have "malloc_ok ?k = malloc_ok k" "pipes ?k = pipes k" "conn_reqs ?k = conn_reqs k"
      "cc ?k = cc k" "PortMap ?k = PortMap k" "env_yield ?k = env_yield k"
    by (simp_all add: S)
  moreover have "\<forall>q j. FIDT (PT ?k q) j = (if q = p \<and> j = i then Some f else FIDT (PT k q) j)"
    using r(7) by simp
  moreover have "streamobj (FT ?k f) = Scb_obj (next_addr k)" "streamfunc (FT ?k f) = Some Socket_ops" by simp_all
  moreover have "FCB_freelist k = f # FCB_freelist ?k" using r(6) by simp
  moreover have "\<forall>g. g \<noteq> f \<longrightarrow> streamobj (FT ?k g) = streamobj (FT k g) \<and> streamfunc (FT ?k g) = streamfunc (FT k g)"
    by (simp add: S)
  ultimately show ?thesis using that [OF _ inv r(4,5)] by blast
qed


section \<open>Joined peers\<close>

text \<open>Two sockets that are each other's peer, with one pipe in each direction.\<close>

definition joined :: "nat \<Rightarrow> nat \<Rightarrow> nat \<Rightarrow> nat \<Rightarrow> kernel \<Rightarrow> bool" where
  "joined a b ab ba k \<longleftrightarrow> a \<noteq> b \<and> ab \<noteq> ba \<and> (\<exists>sa sb pa pb.
     scbs k a = Some sa \<and> scbs k b = Some sb \<and> stype sa = PEER \<and> stype sb = PEER \<and>
     peer sa = Some b \<and> peer sb = Some a \<and> send sa = Some ab \<and> receive sb = Some ab \<and>
     send sb = Some ba \<and> receive sa = Some ba \<and> pipes k ab = Some pa \<and> pipes k ba = Some pb \<and>
     pipe_inv pa \<and> pipe_inv pb)"

definition empty_pipe :: pipecb where
  "empty_pipe = \<lparr>buffer = (\<lambda>_. 0), write_p = 0, read_p = 0, available_space = of_nat BUFF_SIZE,
     reader_closed = False, writer_closed = False\<rparr>"

lemma empty_pipe_props [simp]:
  "pipe_inv empty_pipe" "contents empty_pipe = []" "\<not> reader_closed empty_pipe" "\<not> writer_closed empty_pipe"
  by (simp_all add: empty_pipe_def pipe_inv_def used_def contents_def ring_bytes_def)

lemma get_pipe_ok:
  "malloc_ok k (next_addr k) \<Longrightarrow> get_pipe k = (Some (next_addr k),
     k\<lparr>next_addr := Suc (next_addr k), pipes := (pipes k)(next_addr k \<mapsto> empty_pipe)\<rparr>)"
  by (simp add: get_pipe_def malloc_def empty_pipe_def)

lemma create_pipe_ok:
  assumes "malloc_ok k (next_addr k)" "malloc_ok k (Suc (next_addr k))"
    and "scbs k a = Some sa" "peer sa = Some b" "scbs k b = Some sb" "a \<noteq> b"
  shows "create_pipe a k = Inr (k\<lparr>next_addr := next_addr k + 2,
     pipes := (pipes k)(next_addr k \<mapsto> empty_pipe, Suc (next_addr k) \<mapsto> empty_pipe),
     scbs := (scbs k)(a \<mapsto> sa\<lparr>send := Some (Suc (next_addr k)), receive := Some (next_addr k)\<rparr>,
                      b \<mapsto> sb\<lparr>send := Some (next_addr k), receive := Some (Suc (next_addr k))\<rparr>)\<rparr>)"
  using assms by (simp add: create_pipe_def get_pipe_ok Let_def upd_scb_def)

text \<open>What \<^verbatim>\<open>Accept\<close> needs to serve the request \<open>q\<close> of client \<open>cl\<close>.\<close>

definition can_accept :: "nat \<Rightarrow> nat \<Rightarrow> nat \<Rightarrow> nat \<Rightarrow> nat \<Rightarrow> kernel \<Rightarrow> bool" where
  "can_accept c p l q cl k \<longleftrightarrow> cc_inv (cc k) \<and> CURPROC c k = Inr p \<and> p < MAX_PROC \<and> has_room p k \<and>
     fresh_above k \<and> (\<forall>n < 3. malloc_ok k (next_addr k + n)) \<and>
     (\<exists>ls. scbs k l = Some ls \<and> port ls \<le> MAX_PORT \<and> (\<exists>qs. req_queue ls = q # qs)) \<and>
     (\<exists>r. conn_reqs k q = Some r \<and> csocket r = cl) \<and> scbs k cl \<noteq> None"

lemma accept_request_ok:
  assumes inv: "files_inv held k" and can: "can_accept c p l q cl k"
  obtains i f s k' where "accept_request c l k = Inr (int i, k')" "files_inv held k'"
    "i < MAX_FILEID" "FIDT (PT k p) i = None" "FIDT (PT k' p) i = Some f"
    "streamobj (FT k' f) = Scb_obj (next_addr k)" "streamfunc (FT k' f) = Some Socket_ops"
    "joined (next_addr k) cl (next_addr k + 2) (next_addr k + 1) k'"
    "pipes k' (next_addr k + 1) = Some empty_pipe" "pipes k' (next_addr k + 2) = Some empty_pipe"
    "\<exists>r. conn_reqs k' q = Some r \<and> accepted r" "cc k' = s"
    "woken (Connected_cv q) (signal_span (cc k) (waitset (cc k) (Connected_cv q))) (cc k) s"
proof -
  let ?sv = "next_addr k"
  from can obtain ls qs r cs where c: "cc_inv (cc k)" "CURPROC c k = Inr p" "p < MAX_PROC" "has_room p k"
      "fresh_above k" "\<forall>n < 3. malloc_ok k (next_addr k + n)" "scbs k l = Some ls" "port ls \<le> MAX_PORT"
      "req_queue ls = q # qs" "conn_reqs k q = Some r" "csocket r = cl" "scbs k cl = Some cs"
    by (auto simp: can_accept_def)
  let ?k1 = "upd_scb l (\<lambda>s. s\<lparr>req_queue := qs\<rparr>) k"
  let ?k1' = "upd_scb cl (\<lambda>s. s\<lparr>srefcount := 1\<rparr>) ?k1"
  obtain cs1 where cs1: "scbs ?k1' cl = Some cs1" using c(7,12) by (cases "cl = l") auto
  have sv: "scbs ?k1' ?sv = None" "?sv \<noteq> cl" using c(5,7,12) by (auto simp: fresh_above_def)
  have m: "malloc_ok k ?sv" "malloc_ok k (Suc ?sv)" "malloc_ok k (Suc (Suc ?sv))"
    using c(6) by (auto dest: spec [of _ 0] spec [of _ 1] spec [of _ 2])
  have inv1: "files_inv held ?k1'" using inv files_upto_cong [of ?k1' k "{}" held] by simp
  have cur: "CURPROC c ?k1' = Inr p" using c(2) CURPROC_cong [of ?k1' k c] by simp
  have room: "has_room p ?k1'" using c(4) by (simp add: has_room_def)
  have m1: "malloc_ok ?k1' (next_addr ?k1')" using m by simp
  obtain i f k2 where k2: "sys_Socket c (int (port ls)) ?k1' = Inr (int i, k2)" "files_inv held k2"
    "i < MAX_FILEID" "FIDT (PT ?k1' p) i = None"
    "scbs k2 = (scbs ?k1')(next_addr ?k1' \<mapsto> new_scb (port ls) i)" "next_addr k2 = Suc (next_addr ?k1')"
    "malloc_ok k2 = malloc_ok ?k1'" "pipes k2 = pipes ?k1'" "conn_reqs k2 = conn_reqs ?k1'" "cc k2 = cc ?k1'"
    "PortMap k2 = PortMap ?k1'" "env_yield k2 = env_yield ?k1'"
    "\<forall>q j. FIDT (PT k2 q) j = (if q = p \<and> j = i then Some f else FIDT (PT ?k1' q) j)"
    "streamobj (FT k2 f) = Scb_obj (next_addr ?k1')" "streamfunc (FT k2 f) = Some Socket_ops"
    by (rule sys_Socket_ok [OF inv1 cur c(3) room c(8) m1]) (rule that; assumption)
  have getf: "get_fcb c (int i) k2 = Inr (Some f)"
    using k2(3,10,13) c(2) CURPROC_cong [of k2 k c] by (simp add: get_fcb_def)
  have notno: "int i \<noteq> NOFILE" by (simp add: NOFILE_def)
  let ?sa = "(new_scb (port ls) i)\<lparr>srefcount := 1, stype := PEER, peer := Some cl\<rparr>"
  let ?sb = "cs1\<lparr>stype := PEER, peer := Some ?sv\<rparr>"
  let ?k3 = "upd_scb ?sv (\<lambda>s. s\<lparr>srefcount := 1, stype := PEER, peer := Some cl\<rparr>)
                      (upd_scb cl (\<lambda>s. s\<lparr>stype := PEER, peer := Some ?sv\<rparr>) k2)"
  have s3: "scbs ?k3 ?sv = Some ?sa" "scbs ?k3 cl = Some ?sb"
  proof -
    have "cl \<noteq> next_addr ?k1'" using sv(2) by simp
    then have "scbs k2 cl = scbs ?k1' cl" unfolding k2(5) by (simp only: fun_upd_apply if_False)
    then have "scbs k2 cl = Some cs1" using cs1 by (simp only:)
    moreover have "scbs k2 ?sv = Some (new_scb (port ls) i)" unfolding k2(5) by simp
    ultimately show "scbs ?k3 ?sv = Some ?sa" "scbs ?k3 cl = Some ?sb" using sv(2) by simp_all
  qed
  have n3: "next_addr ?k3 = Suc ?sv" "malloc_ok ?k3 = malloc_ok k" using k2(6,7) by simp_all
  let ?k4 = "?k3\<lparr>next_addr := next_addr ?k3 + 2,
     pipes := (pipes ?k3)(next_addr ?k3 \<mapsto> empty_pipe, Suc (next_addr ?k3) \<mapsto> empty_pipe),
     scbs := (scbs ?k3)(?sv \<mapsto> ?sa\<lparr>send := Some (Suc (next_addr ?k3)), receive := Some (next_addr ?k3)\<rparr>,
                      cl \<mapsto> ?sb\<lparr>send := Some (next_addr ?k3), receive := Some (Suc (next_addr ?k3))\<rparr>)\<rparr>"
  have k4: "create_pipe ?sv ?k3 = Inr ?k4"
    using m sv(2) s3 n3 by (intro create_pipe_ok) simp_all
  let ?k4' = "upd_conn q (\<lambda>r. r\<lparr>accepted := True\<rparr>) ?k4"
  have cc4: "cc ?k4' = cc k" using k2(10) by simp
  obtain s where s: "on_cc (Cond_Signal (Connected_cv q)) ?k4' = Inr (?k4'\<lparr>cc := s\<rparr>)"
      "woken (Connected_cv q) (signal_span (cc k) (waitset (cc k) (Connected_cv q))) (cc k) s"
    using on_cc_signal [of ?k4' "Connected_cv q"] c(1) unfolding cc4 by blast
  let ?k' = "?k4'\<lparr>cc := s\<rparr>"
  have res: "accept_request c l k = Inr (int i, ?k')"
    using c(7,9,10,11,12) k2(1,14) getf notno k4 s(1)
    by (simp add: accept_request_def Let_def as_scb_def)
  have "files_inv held ?k'" using k2(2) files_upto_cong [of ?k' k2 "{}" held] by simp
  moreover have "joined ?sv cl (?sv + 2) (?sv + 1) ?k'"
    using sv(2) n3(1) by (auto simp: joined_def)
  moreover have "pipes ?k' (?sv + 1) = Some empty_pipe" "pipes ?k' (?sv + 2) = Some empty_pipe"
    using n3(1) by simp_all
  moreover have "\<exists>r. conn_reqs ?k' q = Some r \<and> accepted r" using c(10) k2(9) by simp
  moreover have "FIDT (PT ?k' p) i = Some f" using k2(13) by simp
  moreover have "streamobj (FT ?k' f) = Scb_obj ?sv" "streamfunc (FT ?k' f) = Some Socket_ops"
    using k2(14,15) by simp_all
  moreover have "FIDT (PT k p) i = None" using k2(4) by simp
  moreover have "cc ?k' = s" by simp
  ultimately show ?thesis using that [OF res] k2(3) s(2) by blast
qed


lemma joined_write:
  assumes "joined a b ab ba k"
  shows "socket_write a buf sz k = bindE (pipe_write ab buf sz k) (\<lambda>(out, k1).
         Inr (case out of Done x \<Rightarrow> Done x | Wait cv cause t _ \<Rightarrow> Wait cv cause t ab, k1))"
    and "socket_read b sz k = bindE (pipe_read ab sz k) (\<lambda>(out, k1).
         Inr (case out of Done x \<Rightarrow> Done x | Wait cv cause t _ \<Rightarrow> Wait cv cause t ab, k1))"
  using assms by (auto simp: joined_def socket_write_def socket_write_pipe_def socket_read_def socket_read_pipe_def)

lemma joined_sym: "joined a b ab ba k \<Longrightarrow> joined b a ba ab k"
  by (auto simp: joined_def)

lemma joined_pipes: "joined a b ab ba k \<Longrightarrow> pipe_inv p \<Longrightarrow> joined a b ab ba (k\<lparr>cc := s, pipes := (pipes k)(ab \<mapsto> p)\<rparr>)"
  by (auto simp: joined_def)

lemma joinedE:
  assumes "joined a b ab ba k"
  obtains sa sb pa pb where "a \<noteq> b" "ab \<noteq> ba" "scbs k a = Some sa" "scbs k b = Some sb" "stype sa = PEER"
    "stype sb = PEER" "peer sa = Some b" "peer sb = Some a" "send sa = Some ab" "receive sb = Some ab"
    "send sb = Some ba" "receive sa = Some ba" "pipes k ab = Some pa" "pipes k ba = Some pb"
    "pipe_inv pa" "pipe_inv pb"
  using assms by (auto simp: joined_def)

lemma broadcast_keeps_inv:
  assumes "cc_inv (cc k)"
  shows "\<exists>s. on_cc (Cond_Broadcast cv) k = Inr (k\<lparr>cc := s\<rparr>) \<and> cc_inv s"
proof -
  obtain s where "on_cc (Cond_Broadcast cv) k = Inr (k\<lparr>cc := s\<rparr>)" "woken cv (waitset (cc k) cv) (cc k) s"
    by (rule on_cc_broadcast [OF assms])
  with wokenD(1) [OF this(2)] show ?thesis by blast
qed

lemma reader_close_ok:
  assumes "cc_inv (cc k)" "pipes k a = Some p" "\<not> reader_closed p"
  shows "\<exists>s. reader_close (Some a) k = Inr (0, k\<lparr>cc := s, pipes := (pipes k)(a := None)\<rparr>) \<and> cc_inv s"
proof -
  let ?k1 = "upd_pipe a (\<lambda>p. p\<lparr>reader_closed := True\<rparr>) k"
  have inv1: "cc_inv (cc ?k1)" using assms(1) by simp
  obtain s1 where s1: "on_cc (Cond_Broadcast (Pipe_has_space a)) ?k1 = Inr (?k1\<lparr>cc := s1\<rparr>)" "cc_inv s1"
    using broadcast_keeps_inv [OF inv1] by blast
  show ?thesis
  proof (cases "writer_closed p")
    case True
    then have "reader_close (Some a) k = Inr (0, free_pipe a (?k1\<lparr>cc := s1\<rparr>))"
      using assms s1 by (simp add: reader_close_def writer_close_def)
    moreover have "free_pipe a (?k1\<lparr>cc := s1\<rparr>) = k\<lparr>cc := s1, pipes := (pipes k)(a := None)\<rparr>"
      by (simp add: free_pipe_def upd_pipe_def)
    ultimately show ?thesis using s1(2) by auto
  next
    case False
    let ?k2 = "upd_pipe a (\<lambda>p. p\<lparr>writer_closed := True\<rparr>) (?k1\<lparr>cc := s1\<rparr>)"
    have inv2: "cc_inv (cc ?k2)" using s1(2) by simp
    obtain s2 where s2: "on_cc (Cond_Broadcast (Pipe_has_data a)) ?k2 = Inr (?k2\<lparr>cc := s2\<rparr>)" "cc_inv s2"
      using broadcast_keeps_inv [OF inv2] by blast
    then have "reader_close (Some a) k = Inr (0, free_pipe a (?k2\<lparr>cc := s2\<rparr>))"
      using assms s1 False by (simp add: reader_close_def writer_close_def)
    moreover have "free_pipe a (?k2\<lparr>cc := s2\<rparr>) = k\<lparr>cc := s2, pipes := (pipes k)(a := None)\<rparr>"
      by (simp add: free_pipe_def upd_pipe_def)
    ultimately show ?thesis using s2(2) by auto
  qed
qed

lemma writer_close_ok:
  assumes "cc_inv (cc k)" "pipes k a = Some p" "\<not> writer_closed p"
  shows "\<exists>s. writer_close (Some a) k =
     Inr (0, k\<lparr>cc := s, pipes := (pipes k)(a \<mapsto> p\<lparr>writer_closed := True\<rparr>)\<rparr>) \<and> cc_inv s \<and>
     waitset s (Pipe_has_data a) = []"
proof -
  let ?k1 = "upd_pipe a (\<lambda>p. p\<lparr>writer_closed := True\<rparr>) k"
  obtain s1 where s1: "on_cc (Cond_Broadcast (Pipe_has_data a)) ?k1 = Inr (?k1\<lparr>cc := s1\<rparr>)"
      "woken (Pipe_has_data a) (waitset (cc k) (Pipe_has_data a)) (cc k) s1"
    using on_cc_broadcast [of ?k1 "Pipe_has_data a"] assms(1) by auto
  then have "writer_close (Some a) k = Inr (0, ?k1\<lparr>cc := s1\<rparr>)"
    using assms by (simp add: writer_close_def)
  moreover have "?k1\<lparr>cc := s1\<rparr> = k\<lparr>cc := s1, pipes := (pipes k)(a \<mapsto> p\<lparr>writer_closed := True\<rparr>)\<rparr>"
    using assms(2) by (simp add: upd_pipe_def)
  moreover have "waitset s1 (Pipe_has_data a) = []" using wokenD(2) [OF s1(2)] by simp
  ultimately show ?thesis using wokenD(1) [OF s1(2)] by auto
qed

section \<open>An example\<close>

text \<open>Two joined sockets at 10 and 11, with pipes at 20 and 21; the process of core 0 is process 2.\<close>

definition peer_scb :: "nat \<Rightarrow> nat \<Rightarrow> nat \<Rightarrow> int \<Rightarrow> scb" where
  "peer_scb b out inp fid = \<lparr>srefcount = 1, port = 5, stype = PEER, req_queue = [], peer = Some b,
     send = Some out, receive = Some inp, sfid = fid\<rparr>"

definition socket_kernel :: kernel where
  "socket_kernel = files_kernel\<lparr>scbs := [10 \<mapsto> peer_scb 11 20 21 3, 11 \<mapsto> peer_scb 10 21 20 4],
     pipes := [20 \<mapsto> empty_pipe, 21 \<mapsto> empty_pipe], next_addr := 30\<rparr>"

lemma socket_kernel_joined: "joined 10 11 20 21 socket_kernel"
  by (simp add: joined_def socket_kernel_def peer_scb_def)

lemma example_cc_owner_inv:
  "cc_inv (example_cc\<lparr>sch := upd_tcb (Thr 4) (\<lambda>t. t\<lparr>owner_pcb := Some p\<rparr>) example_sched\<rparr>)"
proof (rule cc_invI)
  have "sched_inv (upd_tcb (Thr 4) (\<lambda>t. t\<lparr>owner_pcb := Some p\<rparr>) example_sched)"
    by (rule sched_inv_upd_links) (auto simp: example_inv tcb_ok_def schedulable_def)
  then show "sched_inv (sch (example_cc\<lparr>sch := upd_tcb (Thr 4) (\<lambda>t. t\<lparr>owner_pcb := Some p\<rparr>) example_sched\<rparr>))"
    by simp
qed (auto split: if_splits)

lemma socket_kernel_sel [simp]:
  "cc socket_kernel = example_cc\<lparr>sch := upd_tcb (Thr 4) (\<lambda>t. t\<lparr>owner_pcb := Some 2\<rparr>) example_sched\<rparr>"
  "pipes socket_kernel = [20 \<mapsto> empty_pipe, 21 \<mapsto> empty_pipe]"
  "scbs socket_kernel = [10 \<mapsto> peer_scb 11 20 21 3, 11 \<mapsto> peer_scb 10 21 20 4]"
  by (simp_all add: socket_kernel_def files_kernel_def)

lemma socket_kernel_cc_inv: "cc_inv (cc socket_kernel)"
  by (simp add: example_cc_owner_inv)

section \<open>The properties of sockets\<close>

text \<open>
  C16: accepting a connection. When the listener serves a request and there are a descriptor, a
  block and memory, \<^verbatim>\<open>Accept\<close> gives a new descriptor whose socket and the client's socket are
  each other's peers, joined by two new, empty pipes, one in each direction; the
  request is marked as accepted, the client that waits for it is woken, and the reference
  counts of the files stay exact.
\<close>

theorem accept_joins_peers:
  assumes "files_inv held k" and "can_accept c p l q cl k" and "PortMap k (port (the (scbs k l))) \<noteq> None"
    and "stype (the (scbs k l)) = LISTENER" and "0 \<le> lsock" and "lsock < int MAX_FILEID"
    and "socket_of_fid c lsock k = Inr (Some l)"
  shows "\<exists>i f k'. sys_Accept c lsock k = Inr (Done (int i), k') \<and> files_inv held k' \<and> cc_inv (cc k') \<and>
     i < MAX_FILEID \<and> FIDT (PT k p) i = None \<and> FIDT (PT k' p) i = Some f \<and>
     streamobj (FT k' f) = Scb_obj (next_addr k) \<and> streamfunc (FT k' f) = Some Socket_ops \<and>
     joined (next_addr k) cl (next_addr k + 2) (next_addr k + 1) k' \<and>
     pipes k' (next_addr k + 1) = Some empty_pipe \<and> pipes k' (next_addr k + 2) = Some empty_pipe \<and>
     (\<exists>r. conn_reqs k' q = Some r \<and> accepted r) \<and>
     woken (Connected_cv q) (signal_span (cc k) (waitset (cc k) (Connected_cv q))) (cc k) (cc k')"
proof -
  obtain i f s k' where r: "accept_request c l k = Inr (int i, k')" "files_inv held k'"
    "i < MAX_FILEID" "FIDT (PT k p) i = None" "FIDT (PT k' p) i = Some f"
    "streamobj (FT k' f) = Scb_obj (next_addr k)" "streamfunc (FT k' f) = Some Socket_ops"
    "joined (next_addr k) cl (next_addr k + 2) (next_addr k + 1) k'"
    "pipes k' (next_addr k + 1) = Some empty_pipe" "pipes k' (next_addr k + 2) = Some empty_pipe"
    "\<exists>r. conn_reqs k' q = Some r \<and> accepted r" "cc k' = s"
    "woken (Connected_cv q) (signal_span (cc k) (waitset (cc k) (Connected_cv q))) (cc k) s"
    by (rule accept_request_ok [OF assms(1,2)]) (rule that; assumption)
  obtain ls qs where ls: "scbs k l = Some ls" "req_queue ls = q # qs"
    using assms(2) by (auto simp: can_accept_def)
  have "accept_listener c lsock k = Inr (Some l)"
    using assms(3-7) ls by (simp add: accept_listener_def)
  then have "sys_Accept c lsock k = Inr (Done (int i), k')"
    using ls r(1) by (simp add: sys_Accept_def)
  with r wokenD(1) [OF r(13)] show ?thesis by blast
qed

text \<open>A listener at 12 on port 5, behind descriptor 0, with a request at 9 from the socket at 13.\<close>

definition listen_kernel :: kernel where
  "listen_kernel = files_kernel\<lparr>
     FT := (\<lambda>_. \<lparr>refcount = 1, streamobj = Scb_obj 12, streamfunc = Some Socket_ops\<rparr>),
     scbs := [12 \<mapsto> (new_scb 5 0)\<lparr>srefcount := 1, stype := LISTENER, req_queue := [9]\<rparr>, 13 \<mapsto> new_scb 5 1],
     conn_reqs := [9 \<mapsto> \<lparr>csocket = 13, accepted = False\<rparr>], PortMap := [5 \<mapsto> 12],
     pipes := (\<lambda>_. None), next_addr := 30\<rparr>"

lemma listen_kernel_inv: "files_inv (\<lambda>_. 0) listen_kernel"
proof -
  have "files_inv (\<lambda>_. 0) listen_kernel = files_inv (\<lambda>_. 0) files_kernel"
    by (rule files_upto_cong) (simp_all add: listen_kernel_def files_kernel_def)
  then show ?thesis using files_kernel_inv by simp
qed

lemma listen_kernel_proc: "CURPROC 0 listen_kernel = Inr 2"
proof -
  have "CURPROC 0 listen_kernel = CURPROC 0 files_kernel"
    by (rule CURPROC_cong) (simp add: listen_kernel_def)
  then show ?thesis by (simp add: files_kernel_proc)
qed

lemma listen_kernel_can: "can_accept 0 2 12 9 13 listen_kernel"
proof -
  have "cc listen_kernel = cc socket_kernel" by (simp add: listen_kernel_def files_kernel_def)
  then have "cc_inv (cc listen_kernel)" using socket_kernel_cc_inv by simp
  moreover have "has_room 2 listen_kernel"
    unfolding has_room_def by (intro conjI exI [of _ 1])
      (simp_all add: listen_kernel_def files_kernel_def MAX_FILEID_def MAX_FILES_def MAX_PROC_def)
  moreover have "fresh_above listen_kernel" by (simp add: fresh_above_def listen_kernel_def)
  ultimately show ?thesis
    unfolding can_accept_def using listen_kernel_proc
    by (simp add: MAX_PROC_def)
       (simp add: listen_kernel_def new_scb_def MAX_PORT_def files_kernel_def piped_kernel_def example_kernel_def)
qed

theorem accept_joins_peers_witness:
  "\<exists>i k'. sys_Accept 0 0 listen_kernel = Inr (Done (int i), k') \<and> joined 30 13 32 31 k'"
proof -
  have "socket_of_fid 0 0 listen_kernel = Inr (Some 12)"
    unfolding socket_of_fid_def get_fcb_def using listen_kernel_proc
    by (simp add: MAX_FILEID_def) (simp add: listen_kernel_def files_kernel_def as_scb_def)
  moreover have "scbs listen_kernel 12 = Some ((new_scb 5 0)\<lparr>srefcount := 1, stype := LISTENER, req_queue := [9]\<rparr>)"
      "PortMap listen_kernel 5 = Some 12" "next_addr listen_kernel = 30"
    by (simp_all add: listen_kernel_def)
  ultimately show ?thesis
    using accept_joins_peers [OF listen_kernel_inv listen_kernel_can, of 0]
    by (simp add: MAX_FILEID_def new_scb_def) blast
qed

text \<open>
  C17: connected sockets carry bytes. What one peer writes is what the other reads: on an empty
  direction, a write of \<open>sz\<close> bytes followed by a read at the other end gives back the same bytes
  in order, up to the sizes and the capacity of the pipe, and the sockets stay joined.
\<close>

theorem peers_exchange:
  assumes "cc_inv (cc k)" and "joined a b ab ba k" and "pipes k ab = Some p" and "contents p = []"
    and "\<not> reader_closed p" and "sz \<noteq> 0" and "rsz \<noteq> 0"
  defines "n \<equiv> min (unat sz) BUFF_SIZE"
  shows "\<exists>k1 k2. socket_write a buf sz k = Inr (Done (int n), k1) \<and>
     socket_read b rsz k1 = Inr (Done (int (min (unat rsz) n), map buf [0..<min (unat rsz) n]), k2) \<and>
     joined a b ab ba k1 \<and> joined a b ab ba k2 \<and> cc_inv (cc k2)"
proof -
  have pinv: "pipe_inv p" using assms(2,3) by (auto simp: joined_def)
  have n: "min (unat sz) (BUFF_SIZE - length (contents p)) = n" by (simp add: assms(4) n_def)
  have ne: "length (contents p) \<noteq> BUFF_SIZE" using BUFF_SIZE_pos by (simp add: assms(4) del: length_contents)
  obtain s p' where w: "pipe_write ab buf sz k = Inr (Done (int n), k\<lparr>cc := s, pipes := (pipes k)(ab \<mapsto> p')\<rparr>)"
      "0 < n" "pipe_inv p'" "contents p' = map buf [0..<n]" "cc_inv s"
    using pipe_write_effect [OF assms(1,3) pinv assms(6,5), of buf]
    unfolding n if_not_P [OF ne] unfolding assms(4) append_Nil by blast
  let ?k1 = "k\<lparr>cc := s, pipes := (pipes k)(ab \<mapsto> p')\<rparr>"
  have j1: "joined a b ab ba ?k1" by (rule joined_pipes [OF assms(2) w(3)])
  have p1: "pipes ?k1 ab = Some p'" "cc_inv (cc ?k1)" using w(5) by simp_all
  have ne': "contents p' \<noteq> []" using w(2,4) by simp
  have len: "length (contents p') = n" by (simp add: w(4) del: length_contents)
  obtain s2 p2 where r: "pipe_read ab rsz ?k1 = Inr (Done (int (min (unat rsz) n), take (min (unat rsz) n) (contents p')),
        ?k1\<lparr>cc := s2, pipes := (pipes ?k1)(ab \<mapsto> p2)\<rparr>)" "pipe_inv p2" "cc_inv s2"
    using pipe_read_effect [OF p1(2,1) w(3) assms(7)] unfolding if_not_P [OF ne'] len by blast
  have "take (min (unat rsz) n) (contents p') = map buf [0..<min (unat rsz) n]"
    unfolding w(4) by (simp add: take_map)
  moreover have "joined a b ab ba (?k1\<lparr>cc := s2, pipes := (pipes ?k1)(ab \<mapsto> p2)\<rparr>)"
    by (rule joined_pipes [OF j1 r(2)])
  ultimately show ?thesis
    using w(1) r(1,3) j1 by (auto simp: joined_write(1) [OF assms(2)] joined_write(2) [OF j1])
qed

theorem peers_exchange_witness:
  "\<exists>k1 k2. socket_write 10 (\<lambda>i. of_nat i) 4 socket_kernel = Inr (Done 4, k1) \<and>
     socket_read 11 3 k1 = Inr (Done (3, [0, 1, 2]), k2)"
proof -
  have n: "min (unat (4 :: u32)) BUFF_SIZE = 4" by (simp add: BUFF_SIZE_def)
  have "[0..<3] = [0, 1, 2 :: nat]" by (simp add: upt_rec)
  with peers_exchange [OF socket_kernel_cc_inv socket_kernel_joined, of empty_pipe 4 3 "\<lambda>i. of_nat i"]
  show ?thesis unfolding n by auto
qed


text \<open>
  A port has one listener. \<^verbatim>\<open>Listen\<close> succeeds exactly on a legal descriptor of a socket that
  is bound to a port nobody listens on and that is not initialised yet; then the port belongs
  to that socket, and any further \<^verbatim>\<open>Listen\<close> for the port fails, through whatever socket. A
  failing call changes nothing.
\<close>

theorem listen_is_exclusive:
  assumes "0 \<le> sock" and "sock < int MAX_FILEID" and "socket_of_fid c sock k = Inr (Some a)"
    and "scbs k a = Some s"
  shows "\<exists>r k'. sys_Listen c sock k = Inr (r, k') \<and>
     (r = 0 \<longleftrightarrow> port s \<noteq> 0 \<and> PortMap k (port s) = None \<and> srefcount s = 0) \<and> (r \<noteq> 0 \<longrightarrow> r = -1 \<and> k' = k) \<and>
     (r = 0 \<longrightarrow> PortMap k' = (PortMap k)(port s \<mapsto> a) \<and>
        (\<exists>s'. scbs k' a = Some s' \<and> stype s' = LISTENER \<and> req_queue s' = [] \<and> port s' = port s) \<and>
        (\<forall>sock' b t. 0 \<le> sock' \<longrightarrow> sock' < int MAX_FILEID \<longrightarrow> socket_of_fid c sock' k' = Inr (Some b) \<longrightarrow>
           scbs k' b = Some t \<longrightarrow> port t = port s \<longrightarrow> sys_Listen c sock' k' = Inr (-1, k')))"
proof (cases "port s \<noteq> 0 \<and> PortMap k (port s) = None \<and> srefcount s = 0")
  case True
  let ?k1 = "upd_scb a (\<lambda>s. s\<lparr>req_queue := [], srefcount := srefcount s + 1, stype := LISTENER\<rparr>)
      (cond_init (Server_requests a) k)"
  define K where "K = ?k1\<lparr>PortMap := (PortMap ?k1)(port s \<mapsto> a)\<rparr>"
  have k: "PortMap K = (PortMap k)(port s \<mapsto> a)" by (simp add: cond_init_def K_def)
  have sa: "scbs K a = Some (s\<lparr>req_queue := [], srefcount := srefcount s + 1, stype := LISTENER\<rparr>)"
    using assms(4) by (simp add: cond_init_def K_def)
  have "sys_Listen c sock k = Inr (0, K)"
    using True assms by (simp add: sys_Listen_def K_def)
  moreover have "sys_Listen c sock' K = Inr (-1, K)"
    if "0 \<le> sock'" "sock' < int MAX_FILEID" "socket_of_fid c sock' K = Inr (Some b)"
      "scbs K b = Some t" "port t = port s" for sock' b t
    using that k by (simp add: sys_Listen_def)
  ultimately show ?thesis using True sa k
    by (intro exI [of _ 0] exI [of _ K]) simp
next
  case False
  with assms have "sys_Listen c sock k = Inr (-1, k)" by (auto simp: sys_Listen_def)
  with False show ?thesis by (intro exI [of _ "-1"] exI [of _ k]) simp
qed

theorem listen_is_exclusive_witness:
  "sys_Listen 0 0 listen_kernel = Inr (-1, listen_kernel)"
proof -
  have "socket_of_fid 0 0 listen_kernel = Inr (Some 12)"
    unfolding socket_of_fid_def get_fcb_def using listen_kernel_proc
    by (simp add: MAX_FILEID_def) (simp add: listen_kernel_def files_kernel_def as_scb_def)
  moreover have "scbs listen_kernel 12 = Some ((new_scb 5 0)\<lparr>srefcount := 1, stype := LISTENER, req_queue := [9]\<rparr>)"
    by (simp add: listen_kernel_def)
  moreover have "PortMap listen_kernel 5 = Some 12" by (simp add: listen_kernel_def)
  ultimately show ?thesis
    using listen_is_exclusive [of 0 0 listen_kernel 12] by (auto simp: MAX_FILEID_def new_scb_def)
qed

text \<open>
  Shutting down one direction of a connected socket. After \<^verbatim>\<open>SHUTDOWN_READ\<close> the peer's writes
  return -1, and the socket's own reads return 0, the end of data (the manual in
  \<^verbatim>\<open>tinyos.h\<close> says -1). After \<^verbatim>\<open>SHUTDOWN_WRITE\<close> the socket's own writes return -1, and the
  peer, whose waiting readers are woken, reads the buffered bytes and then 0.
\<close>

theorem shutdown_one_direction:
  assumes "cc_inv (cc k)" and "joined a b ab ba k" and "pipes k ab = Some p" and "pipes k ba = Some q"
    and "\<not> writer_closed p" and "\<not> reader_closed q" and "sz \<noteq> 0"
  shows "\<exists>k1 k2. shutdown_socket a SHUTDOWN_READ k = Inr (0, k1) \<and>
       socket_write b buf sz k1 = Inr (Done (-1), k1) \<and> socket_read a sz k1 = Inr (Done (0, []), k1) \<and>
     shutdown_socket a SHUTDOWN_WRITE k = Inr (0, k2) \<and>
       socket_write a buf sz k2 = Inr (Done (-1), k2) \<and> waitset (cc k2) (Pipe_has_data ab) = [] \<and>
       (\<exists>k3. socket_read b sz k2 = Inr (Done (int (min (unat sz) (length (contents p))),
                take (min (unat sz) (length (contents p))) (contents p)), k3))"
proof -
  obtain sa sb where j: "a \<noteq> b" "ab \<noteq> ba" "scbs k a = Some sa" "scbs k b = Some sb" "stype sa = PEER"
    "stype sb = PEER" "peer sa = Some b" "peer sb = Some a" "send sa = Some ab" "receive sb = Some ab"
    "send sb = Some ba" "receive sa = Some ba" and pinv: "pipe_inv p"
    using assms(2,3) by (auto simp: joined_def)
  obtain s1 where s1: "reader_close (Some ba) k = Inr (0, k\<lparr>cc := s1, pipes := (pipes k)(ba := None)\<rparr>)"
    using reader_close_ok [OF assms(1,4,6)] by blast
  let ?k1 = "upd_scb b (\<lambda>s. s\<lparr>send := None\<rparr>) (upd_scb a (\<lambda>s. s\<lparr>receive := None\<rparr>)
      (k\<lparr>cc := s1, pipes := (pipes k)(ba := None)\<rparr>))"
  have r1: "shutdown_socket a SHUTDOWN_READ k = Inr (0, ?k1)"
    using j s1 by (simp add: shutdown_socket_def shutdown_read_def)
  have w1: "socket_write b buf sz ?k1 = Inr (Done (-1), ?k1)" "socket_read a sz ?k1 = Inr (Done (0, []), ?k1)"
    using j by (simp_all add: socket_write_def socket_write_pipe_def socket_read_def socket_read_pipe_def)
  obtain s2 where s2: "writer_close (Some ab) k =
      Inr (0, k\<lparr>cc := s2, pipes := (pipes k)(ab \<mapsto> p\<lparr>writer_closed := True\<rparr>)\<rparr>)"
      "cc_inv s2" "waitset s2 (Pipe_has_data ab) = []"
    using writer_close_ok [OF assms(1,3,5)] by blast
  let ?p = "p\<lparr>writer_closed := True\<rparr>"
  let ?k2 = "upd_scb a (\<lambda>s. s\<lparr>send := None\<rparr>) (k\<lparr>cc := s2, pipes := (pipes k)(ab \<mapsto> ?p)\<rparr>)"
  have r2: "shutdown_socket a SHUTDOWN_WRITE k = Inr (0, ?k2)"
    using j s2(1) by (simp add: shutdown_socket_def shutdown_write_def)
  have w2: "socket_write a buf sz ?k2 = Inr (Done (-1), ?k2)"
    using j by (simp add: socket_write_def socket_write_pipe_def)
  have pq: "pipe_inv ?p" "contents ?p = contents p"
    using pinv by (simp_all add: pipe_inv_def used_def contents_def)
  let ?n = "min (unat sz) (length (contents p))"
  have e: "cc_inv (cc ?k2)" "pipes ?k2 ab = Some ?p" using s2(2) by simp_all
  have "\<exists>k3. pipe_read ab sz ?k2 = Inr (Done (int ?n, take ?n (contents p)), k3)"
  proof (cases "contents p = []")
    case True
    then have "contents ?p = []" by (simp only: pq(2))
    with pipe_read_effect [OF e(1,2) pq(1) assms(7)] have "pipe_read ab sz ?k2 = Inr (Done (0, []), ?k2)" by simp
    then show ?thesis by (simp add: True del: length_contents)
  next
    case False
    then have ne: "contents ?p \<noteq> []" by (simp only: pq(2) not_False_eq_True)
    show ?thesis
      using pipe_read_effect [OF e(1,2) pq(1) assms(7)] unfolding if_not_P [OF ne] unfolding pq(2) by blast
  qed
  then obtain k3 where "pipe_read ab sz ?k2 = Inr (Done (int ?n, take ?n (contents p)), k3)" by blast
  then have "socket_read b sz ?k2 = Inr (Done (int ?n, take ?n (contents p)), k3)"
    using j by (simp add: socket_read_def socket_read_pipe_def del: length_contents)
  moreover have "waitset (cc ?k2) (Pipe_has_data ab) = []" using s2(3) by simp
  ultimately show ?thesis using r1 w1 r2 w2 by blast
qed

theorem shutdown_one_direction_witness:
  "\<exists>k1. shutdown_socket 10 SHUTDOWN_READ socket_kernel = Inr (0, k1) \<and>
     socket_write 11 (\<lambda>_. 0) 1 k1 = Inr (Done (-1), k1)"
  using shutdown_one_direction [OF socket_kernel_cc_inv socket_kernel_joined, of empty_pipe empty_pipe 1 "\<lambda>_. 0"]
  by auto

text \<open>
  Closing one of two connected sockets does not shut the connection down. \<^verbatim>\<open>Close\<close> clears the
  descriptor before the close operation runs, so its \<^verbatim>\<open>ShutDown\<close> on that descriptor finds
  nothing and no pipe is closed: the peer's writes still succeed, into a pipe that nobody can
  read. The socket block is freed while the peer still points to it, so that closing the peer
  accesses freed memory.
\<close>

theorem close_leaves_peer_dangling:
  assumes "cc_inv (cc k)" and "joined a b ab ba k" and "scbs k a = Some sa" and "scbs k b = Some sb"
    and "srefcount sa = 1" and "srefcount sb = 1" and "pipes k ba = Some q" and "\<not> reader_closed q"
    and "length (contents q) < BUFF_SIZE" and "sz \<noteq> 0"
    and "\<forall>k'. cc k' = cc k \<longrightarrow> PT k' = PT k \<longrightarrow>
        get_fcb c (sfid sa) k' = Inr None \<and> get_fcb c (sfid sb) k' = Inr None"
  shows "\<exists>k'. socket_close c a k = Inr (0, k') \<and> scbs k' a = None \<and>
     (\<exists>n k2. 0 < n \<and> socket_write b buf sz k' = Inr (Done n, k2)) \<and>
     socket_close c b k' = Inl Use_after_free"
proof -
  have j: "a \<noteq> b" "ab \<noteq> ba" "stype sa = PEER" "stype sb = PEER" "peer sa = Some b" "peer sb = Some a"
    "send sb = Some ba" and qinv: "pipe_inv q"
    using assms(2,3,4,7) by (auto simp: joined_def)
  have sd: "sys_ShutDown c (sfid s) SHUTDOWN_BOTH k' = Inr (-1, k')"
    if "cc k' = cc k" "PT k' = PT k" "s = sa \<or> s = sb" for k' s
    using that assms(11) by (auto simp: sys_ShutDown_def socket_of_fid_def)
  let ?k' = "free_scb a (upd_scb b (\<lambda>s. s\<lparr>receive := None\<rparr>) k)"
  have close_a: "socket_close c a k = Inr (0, ?k')"
    using assms(3,4,5) j sd [of k sa] by (simp add: socket_close_def close_peer_def)
  have k': "cc ?k' = cc k" "PT ?k' = PT k" "scbs ?k' a = None" "pipes ?k' = pipes k"
      "scbs ?k' b = Some (sb\<lparr>receive := None\<rparr>)"
    using assms(4) j(1) by (simp_all add: free_scb_def)
  have "sys_ShutDown c (sfid sb) SHUTDOWN_BOTH ?k' = Inr (-1, ?k')"
    using sd [of ?k' sb] k'(1,2) by blast
  then have "socket_close c b ?k' = Inl Use_after_free"
    using k'(3,5) assms(6) j by (simp add: socket_close_def close_peer_def)
  moreover have "\<exists>n k2. 0 < n \<and> socket_write b buf sz ?k' = Inr (Done n, k2)"
  proof -
    have p: "pipes ?k' ba = Some q" "cc_inv (cc ?k')" using assms(1,7) k' by simp_all
    have ne: "length (contents q) \<noteq> BUFF_SIZE" using assms(9) by simp
    obtain s p' where w: "0 < min (unat sz) (BUFF_SIZE - length (contents q))"
       "pipe_write ba buf sz ?k' = Inr (Done (int (min (unat sz) (BUFF_SIZE - length (contents q)))),
          ?k'\<lparr>cc := s, pipes := (pipes ?k')(ba \<mapsto> p')\<rparr>)"
      using pipe_write_effect [OF p(2,1) qinv assms(10,8), of buf] unfolding if_not_P [OF ne] by blast
    then have "socket_write b buf sz ?k' = Inr (Done (int (min (unat sz) (BUFF_SIZE - length (contents q)))),
          ?k'\<lparr>cc := s, pipes := (pipes ?k')(ba \<mapsto> p')\<rparr>)"
      using k'(5) j by (simp add: socket_write_def socket_write_pipe_def del: length_contents)
    moreover have "0 < int (min (unat sz) (BUFF_SIZE - length (contents q)))" using w(1) by linarith
    ultimately show ?thesis by blast
  qed
  ultimately show ?thesis using close_a k'(3) by blast
qed

theorem close_leaves_peer_dangling_witness:
  "\<exists>k'. socket_close 0 10 socket_kernel = Inr (0, k') \<and> socket_close 0 11 k' = Inl Use_after_free"
proof -
  have "get_fcb 0 3 k' = Inr None \<and> get_fcb 0 4 k' = Inr None"
    if "cc k' = cc socket_kernel" "PT k' = PT socket_kernel" for k'
  proof -
    have "CURPROC 0 k' = CURPROC 0 files_kernel"
      by (rule CURPROC_cong) (simp add: that(1) files_kernel_def)
    with that(2) show ?thesis
      by (simp add: get_fcb_def MAX_FILEID_def files_kernel_proc) (simp add: socket_kernel_def files_kernel_def)
  qed
  with close_leaves_peer_dangling [OF socket_kernel_cc_inv socket_kernel_joined, of "peer_scb 11 20 21 3"
      "peer_scb 10 21 20 4" empty_pipe 1 0 "\<lambda>_. 0"]
  show ?thesis by (simp add: peer_scb_def del: length_contents) blast
qed

end
