(* ===== verification/Streams.thy ===== *)
theory Streams
  imports Dev Socket
begin

text \<open>
  The stream layer: the tables of \<^verbatim>\<open>file_ops\<close> and the system calls of
  \<^verbatim>\<open>src/kernel_streams.c\<close> and \<^verbatim>\<open>sys_Pipe\<close>, which go through them, and the read and close
  operations of information streams from \<^verbatim>\<open>src/kernel_proc.c\<close>. A read or write that waits
  keeps its reference to the file control block.
\<close>

section \<open>Information streams\<close>

text \<open>\<^verbatim>\<open>sizeof(procinfo)\<close> with 8-byte alignment of \<^verbatim>\<open>thread_count\<close> and \<^verbatim>\<open>main_task\<close>.\<close>

definition sizeof_procinfo :: nat where "sizeof_procinfo = 168"

text \<open>What a read stores: bytes, or one record of a process.\<close>

datatype rdata = Bytes "byte list" | Info_record procinfo

definition info_read :: "nat \<Rightarrow> u32 \<Rightarrow> kernel \<Rightarrow> ((int \<times> rdata) \<times> kernel) res" where
  "info_read a sz k =
     bindE (derefE (infos k a)) (\<lambda>i.
     if unat sz \<noteq> sizeof_procinfo then Inr ((-1, Bytes []), k)
     else if info_index i \<noteq> - 1 then
       (if unat (info_index i) < length (info_table i) then
          Inr ((int (unat sz), Info_record (info_table i ! unat (info_index i))),
               k\<lparr>infos := (infos k)(a \<mapsto> i\<lparr>info_index := info_index i - 1\<rparr>)\<rparr>)
        else Inl Out_of_bounds)
     else Inr ((0, Bytes []), k))"

definition info_close :: "nat \<Rightarrow> kernel \<Rightarrow> (int \<times> kernel) res" where
  "info_close a k = bindE (derefE (infos k a)) (\<lambda>_. Inr (0, k\<lparr>infos := (infos k)(a := None)\<rparr>))"

section \<open>Dispatch\<close>

text \<open>Where a read or a write that waits goes on.\<close>

datatype stream_pc = In_pipe nat | In_serial nat

definition map_wait :: "('p \<Rightarrow> 'q) \<Rightarrow> ('a \<Rightarrow> 'b) \<Rightarrow> ('a, 'p) outcome \<Rightarrow> ('b, 'q) outcome" where
  "map_wait f g out = (case out of Done x \<Rightarrow> Done (g x) | Wait cv cause t p \<Rightarrow> Wait cv cause t (f p))"

lemma map_wait_simps [simp]:
  "map_wait f g (Done x) = Done (g x)" "map_wait f g (Wait cv cause t p) = Wait cv cause t (f p)"
  by (simp_all add: map_wait_def)

definition has_read :: "file_ops \<Rightarrow> bool" where
  "has_read ops \<longleftrightarrow> ops \<noteq> Writer_ops"

definition has_write :: "file_ops \<Rightarrow> bool" where
  "has_write ops \<longleftrightarrow> ops \<noteq> Reader_ops \<and> ops \<noteq> Info_ops"

definition pipe_of :: "streamobj \<Rightarrow> nat res" where
  "pipe_of obj = (case obj of Pipe_obj a \<Rightarrow> Inr a | Null_object \<Rightarrow> Inl Null_deref | _ \<Rightarrow> Inl Out_of_bounds)"

definition serial_of :: "streamobj \<Rightarrow> nat res" where
  "serial_of obj = (case obj of Serial_dcb d \<Rightarrow> Inr d | Null_object \<Rightarrow> Inl Null_deref | _ \<Rightarrow> Inl Out_of_bounds)"

definition info_of :: "streamobj \<Rightarrow> nat res" where
  "info_of obj = (case obj of Info_obj a \<Rightarrow> Inr a | Null_object \<Rightarrow> Inl Null_deref | _ \<Rightarrow> Inl Out_of_bounds)"

definition bytes_read :: "int \<times> byte list \<Rightarrow> int \<times> rdata" where
  "bytes_read = (\<lambda>(n, bs). (n, Bytes bs))"

definition stream_read :: "(handler \<Rightarrow> core \<Rightarrow> core) \<Rightarrow> nat \<Rightarrow> file_ops \<Rightarrow> streamobj \<Rightarrow> u32 \<Rightarrow> kernel \<Rightarrow>
    ((int \<times> rdata, stream_pc) outcome \<times> kernel) res" where
  "stream_read run c ops obj sz k =
     (case ops of
        Nulldev_fops \<Rightarrow> Inr (Done (bytes_read (nulldev_read sz)), k)
      | Serial_fops \<Rightarrow> bindE (serial_of obj) (\<lambda>d. bindE (serial_read run c d sz k) (\<lambda>(out, k1).
          Inr (map_wait (\<lambda>_. In_serial d) bytes_read out, k1)))
      | Reader_ops \<Rightarrow> bindE (pipe_of obj) (\<lambda>a. bindE (pipe_read a sz k) (\<lambda>(out, k1).
          Inr (map_wait (\<lambda>_. In_pipe a) bytes_read out, k1)))
      | Writer_ops \<Rightarrow> Inr (Done (-1, Bytes []), k)
      | Socket_ops \<Rightarrow> bindE (as_scb obj) (\<lambda>a. bindE (socket_read a sz k) (\<lambda>(out, k1).
          Inr (map_wait In_pipe bytes_read out, k1)))
      | Info_ops \<Rightarrow> bindE (info_of obj) (\<lambda>a. bindE (info_read a sz k) (\<lambda>(r, k1). Inr (Done r, k1))))"

definition stream_read_resume :: "(handler \<Rightarrow> core \<Rightarrow> core) \<Rightarrow> nat \<Rightarrow> stream_pc \<Rightarrow> u32 \<Rightarrow> kernel \<Rightarrow>
    ((int \<times> rdata, stream_pc) outcome \<times> kernel) res" where
  "stream_read_resume run c pc sz k =
     (case pc of
        In_pipe a \<Rightarrow> bindE (pipe_read a sz k) (\<lambda>(out, k1). Inr (map_wait (\<lambda>_. pc) bytes_read out, k1))
      | In_serial d \<Rightarrow> bindE (serial_read_resume run c d sz k) (\<lambda>(out, k1).
          Inr (map_wait (\<lambda>_. pc) bytes_read out, k1)))"

definition stream_write :: "file_ops \<Rightarrow> streamobj \<Rightarrow> (nat \<Rightarrow> byte) \<Rightarrow> u32 \<Rightarrow> kernel \<Rightarrow>
    ((int, stream_pc) outcome \<times> kernel) res" where
  "stream_write ops obj buf sz k =
     (case ops of
        Nulldev_fops \<Rightarrow> Inr (Done (nulldev_write sz), k)
      | Serial_fops \<Rightarrow> bindE (serial_of obj) (\<lambda>d. bindE (serial_write d buf sz k) (\<lambda>((n, _), k1).
          Inr (Done n, k1)))
      | Writer_ops \<Rightarrow> bindE (pipe_of obj) (\<lambda>a. bindE (pipe_write a buf sz k) (\<lambda>(out, k1).
          Inr (map_wait (\<lambda>_. In_pipe a) id out, k1)))
      | Socket_ops \<Rightarrow> bindE (as_scb obj) (\<lambda>a. bindE (socket_write a buf sz k) (\<lambda>(out, k1).
          Inr (map_wait In_pipe id out, k1)))
      | _ \<Rightarrow> Inr (Done (-1), k))"

definition stream_write_resume :: "stream_pc \<Rightarrow> (nat \<Rightarrow> byte) \<Rightarrow> u32 \<Rightarrow> kernel \<Rightarrow>
    ((int, stream_pc) outcome \<times> kernel) res" where
  "stream_write_resume pc buf sz k =
     (case pc of
        In_pipe a \<Rightarrow> bindE (pipe_write_resume a buf sz k) (\<lambda>(out, k1). Inr (map_wait (\<lambda>_. pc) id out, k1))
      | In_serial d \<Rightarrow> bindE (serial_write d buf sz k) (\<lambda>((n, _), k1). Inr (Done n, k1)))"

text \<open>The pointer that a close operation of a pipe gets may be null.\<close>

definition pipe_or_null :: "streamobj \<Rightarrow> nat option res" where
  "pipe_or_null obj = (case obj of Null_object \<Rightarrow> Inr None | _ \<Rightarrow> bindE (pipe_of obj) (\<lambda>a. Inr (Some a)))"

definition stream_close :: "nat \<Rightarrow> file_ops \<Rightarrow> streamobj \<Rightarrow> kernel \<Rightarrow> (int \<times> kernel) res" where
  "stream_close c ops obj k =
     (case ops of
        Nulldev_fops \<Rightarrow> Inr (nulldev_close, k)
      | Serial_fops \<Rightarrow> Inr (serial_close, k)
      | Reader_ops \<Rightarrow> bindE (pipe_or_null obj) (\<lambda>a. reader_close a k)
      | Writer_ops \<Rightarrow> bindE (pipe_or_null obj) (\<lambda>a. writer_close a k)
      | Socket_ops \<Rightarrow> bindE (as_scb obj) (\<lambda>a. socket_close c a k)
      | Info_ops \<Rightarrow> bindE (info_of obj) (\<lambda>a. info_close a k))"

definition FCB_decref :: "nat \<Rightarrow> nat \<Rightarrow> kernel \<Rightarrow> (int \<times> kernel) res" where
  "FCB_decref c f k =
     (let k1 = upd_fcb f (\<lambda>b. b\<lparr>refcount := refcount b - 1\<rparr>) k in
      if refcount (FT k1 f) = 0 then
        bindE (nonnullE (streamfunc (FT k1 f))) (\<lambda>ops.
        bindE (stream_close c ops (streamobj (FT k1 f)) k1) (\<lambda>(n, k2). Inr (n, release_FCB f k2)))
      else Inr (0, k1))"

section \<open>Reading and writing\<close>

text \<open>The end of \<^verbatim>\<open>sys_Read\<close> and \<^verbatim>\<open>sys_Write\<close>: the reference is dropped once the operation returns.\<close>

definition drop_ref :: "nat \<Rightarrow> nat \<Rightarrow> ('a, stream_pc) outcome \<times> kernel \<Rightarrow>
    (('a, nat \<times> stream_pc) outcome \<times> kernel) res" where
  "drop_ref c f = (\<lambda>(out, k). case out of
     Done x \<Rightarrow> bindE (FCB_decref c f k) (\<lambda>(_, k1). Inr (Done x, k1))
   | Wait cv cause t pc \<Rightarrow> Inr (Wait cv cause t (f, pc), k))"

definition sys_Read :: "(handler \<Rightarrow> core \<Rightarrow> core) \<Rightarrow> nat \<Rightarrow> int \<Rightarrow> u32 \<Rightarrow> kernel \<Rightarrow>
    ((int \<times> rdata, nat \<times> stream_pc) outcome \<times> kernel) res" where
  "sys_Read run c fd sz k =
     bindE (get_fcb c fd k) (\<lambda>x. case x of
       None \<Rightarrow> Inr (Done (-1, Bytes []), k)
     | Some f \<Rightarrow>
        (let obj = streamobj (FT k f); k1 = FCB_incref f k in
         bindE (nonnullE (streamfunc (FT k f))) (\<lambda>ops.
         bindE (if has_read ops then stream_read run c ops obj sz k1 else Inr (Done (-1, Bytes []), k1))
           (drop_ref c f))))"

definition sys_Read_resume :: "(handler \<Rightarrow> core \<Rightarrow> core) \<Rightarrow> nat \<Rightarrow> nat \<times> stream_pc \<Rightarrow> u32 \<Rightarrow> kernel \<Rightarrow>
    ((int \<times> rdata, nat \<times> stream_pc) outcome \<times> kernel) res" where
  "sys_Read_resume run c = (\<lambda>(f, pc) sz k. bindE (stream_read_resume run c pc sz k) (drop_ref c f))"

definition sys_Write :: "nat \<Rightarrow> int \<Rightarrow> (nat \<Rightarrow> byte) \<Rightarrow> u32 \<Rightarrow> kernel \<Rightarrow>
    ((int, nat \<times> stream_pc) outcome \<times> kernel) res" where
  "sys_Write c fd buf sz k =
     bindE (get_fcb c fd k) (\<lambda>x. case x of
       None \<Rightarrow> Inr (Done (-1), k)
     | Some f \<Rightarrow>
        (let obj = streamobj (FT k f); k1 = FCB_incref f k in
         bindE (nonnullE (streamfunc (FT k f))) (\<lambda>ops.
         bindE (if has_write ops then stream_write ops obj buf sz k1 else Inr (Done (-1), k1))
           (drop_ref c f))))"

definition sys_Write_resume :: "nat \<Rightarrow> nat \<times> stream_pc \<Rightarrow> (nat \<Rightarrow> byte) \<Rightarrow> u32 \<Rightarrow> kernel \<Rightarrow>
    ((int, nat \<times> stream_pc) outcome \<times> kernel) res" where
  "sys_Write_resume c = (\<lambda>(f, pc) buf sz k. bindE (stream_write_resume pc buf sz k) (drop_ref c f))"

section \<open>Closing and duplicating descriptors\<close>

definition sys_Close :: "nat \<Rightarrow> int \<Rightarrow> kernel \<Rightarrow> (int \<times> kernel) res" where
  "sys_Close c fd k =
     (let retcode = (if 0 \<le> fd \<and> fd < int MAX_FILEID then 0 else -1) in
      bindE (get_fcb c fd k) (\<lambda>x. case x of
        None \<Rightarrow> Inr (retcode, k)
      | Some f \<Rightarrow> bindE (CURPROC c k) (\<lambda>p. FCB_decref c f (set_fid p (nat fd) None k))))"

definition sys_Dup2 :: "nat \<Rightarrow> int \<Rightarrow> int \<Rightarrow> kernel \<Rightarrow> (int \<times> kernel) res" where
  "sys_Dup2 c oldfd newfd k =
     (if oldfd < 0 \<or> newfd < 0 \<or> oldfd \<ge> int MAX_FILEID \<or> newfd \<ge> int MAX_FILEID then Inr (-1, k)
      else bindE (get_fcb c oldfd k) (\<lambda>old. bindE (get_fcb c newfd k) (\<lambda>new.
        case old of
          None \<Rightarrow> Inr (-1, k)
        | Some f \<Rightarrow>
            if old \<noteq> new then
              bindE (case new of None \<Rightarrow> Inr (0, k) | Some g \<Rightarrow> FCB_decref c g k) (\<lambda>(_, k1).
              bindE (CURPROC c (FCB_incref f k1)) (\<lambda>p.
              Inr (0, set_fid p (nat newfd) (Some f) (FCB_incref f k1))))
            else Inr (0, k))))"

section \<open>Opening\<close>

definition sys_GetTerminalDevices :: "kernel \<Rightarrow> nat" where
  "sys_GetTerminalDevices k = device_no DEV_SERIAL k"

definition open_stream :: "nat \<Rightarrow> device_type \<Rightarrow> nat \<Rightarrow> kernel \<Rightarrow> (int \<times> kernel) res" where
  "open_stream c major minor k =
     bindE (FCB_reserve c 1 k) (\<lambda>(r, k1). case r of
       None \<Rightarrow> Inr (NOFILE, k1)
     | Some (fids, fcbs) \<Rightarrow>
         bindE (device_open major minor k1) (\<lambda>d. case d of
           None \<Rightarrow> bindE (FCB_unreserve c fids fcbs k1) (\<lambda>k2. Inr (NOFILE, k2))
         | Some (obj, ops) \<Rightarrow>
             Inr (int (hd fids), upd_fcb (hd fcbs) (\<lambda>b. b\<lparr>streamobj := obj, streamfunc := Some ops\<rparr>) k1)))"

definition sys_OpenNull :: "nat \<Rightarrow> kernel \<Rightarrow> (int \<times> kernel) res" where
  "sys_OpenNull c k = open_stream c DEV_NULL 0 k"

definition sys_OpenTerminal :: "nat \<Rightarrow> nat \<Rightarrow> kernel \<Rightarrow> (int \<times> kernel) res" where
  "sys_OpenTerminal c termno k = open_stream c DEV_SERIAL termno k"

text \<open>\<^verbatim>\<open>sys_Pipe\<close> gives the two ends; \<^verbatim>\<open>pcb->pipe\<close>, which nothing reads, is left out but for its access.\<close>

definition sys_Pipe :: "nat \<Rightarrow> kernel \<Rightarrow> ((int \<times> int) option \<times> kernel) res" where
  "sys_Pipe c k =
     bindE (FCB_reserve c 2 k) (\<lambda>(r, k1). case r of
       None \<Rightarrow> Inr (None, k1)
     | Some (fids, fcbs) \<Rightarrow>
         (let (p, k2) = get_pipe k1 in
          bindE (nonnullE p) (\<lambda>a.
          let k3 = upd_fcb (fcbs ! 0) (\<lambda>b. b\<lparr>streamobj := Pipe_obj a, streamfunc := Some Reader_ops\<rparr>) k2;
              k4 = upd_fcb (fcbs ! 1) (\<lambda>b. b\<lparr>streamobj := Pipe_obj a, streamfunc := Some Writer_ops\<rparr>) k3
          in Inr (Some (int (fids ! 0), int (fids ! 1)), k4))))"

end
