(* ===== verification/Refcount.thy ===== *)
theory Refcount
  imports Streams
begin

text \<open>
  The reference counts of the file table under the system calls of streams. The operations of
  the streams themselves leave the table alone; what the calls do to it is an increment, a
  decrement or the change of one descriptor.
\<close>

section \<open>Operations that leave the file table alone\<close>

text \<open>They leave the process table alone as well.\<close>

named_theorems stream_frame

definition same_files :: "kernel \<Rightarrow> kernel \<Rightarrow> bool" where
  "same_files k k' \<longleftrightarrow> FT k' = FT k \<and> FCB_freelist k' = FCB_freelist k \<and> PT k' = PT k \<and>
     pcb_freelist k' = pcb_freelist k \<and> process_count k' = process_count k \<and> ptcbs k' = ptcbs k"

lemma same_filesD:
  assumes "same_files k k'"
  shows "FT k' = FT k" "FCB_freelist k' = FCB_freelist k" "PT k' = PT k"
    "pcb_freelist k' = pcb_freelist k" "process_count k' = process_count k" "ptcbs k' = ptcbs k"
  using assms by (simp_all add: same_files_def)

lemma same_files_refl [simp]: "same_files k k"
  by (simp add: same_files_def)

lemma same_files_trans [trans]: "same_files k k1 \<Longrightarrow> same_files k1 k2 \<Longrightarrow> same_files k k2"
  by (simp add: same_files_def)

lemma same_files_upto: "same_files k k' \<Longrightarrow> files_upto P held k' = files_upto P held k"
  by (rule files_upto_cong) (simp_all add: same_files_def)

text \<open>
  The contract between the system calls and an operation in a table of \<^verbatim>\<open>file_ops\<close>: whatever it
  does to its stream, it does not touch the file table.
\<close>

locale stream_op =
  fixes act :: "kernel \<Rightarrow> ('a \<times> kernel) res"
  assumes frame: "act k = Inr (x, k') \<Longrightarrow> same_files k k'"
begin

lemma keeps_upto: "act k = Inr (x, k') \<Longrightarrow> files_upto P held k' = files_upto P held k"
  by (rule same_files_upto) (rule frame)

lemma keeps_block: "act k = Inr (x, k') \<Longrightarrow> FT k' f = FT k f"
  using frame by (simp add: same_files_def)

end

lemma on_cc_frame [stream_frame]: "on_cc g k = Inr k' \<Longrightarrow> same_files k k'"
  by (auto simp: on_cc_eq same_files_def)

lemma pipe_read_frame [stream_frame]: "pipe_read a sz k = Inr (x, k') \<Longrightarrow> same_files k k'"
  by (auto simp: pipe_read_def bindE_eq_Inr on_cc_eq Let_def same_files_def split: if_splits prod.splits)

lemma pipe_write_frame [stream_frame]:
  "pipe_write_resume a buf sz k = Inr (x, k') \<Longrightarrow> same_files k k'"
  "pipe_write a buf sz k = Inr (x, k') \<Longrightarrow> same_files k k'"
  by (auto simp: pipe_write_def pipe_write_resume_def bindE_eq_Inr on_cc_eq Let_def same_files_def
      split: if_splits prod.splits)

lemma pipe_close_frame [stream_frame]:
  "writer_close p k = Inr (n, k') \<Longrightarrow> same_files k k'"
  "reader_close p k = Inr (n, k') \<Longrightarrow> same_files k k'"
  by (auto simp: writer_close_def reader_close_def free_pipe_def bindE_eq_Inr on_cc_eq same_files_def
      split: option.splits if_splits)

lemma port_frame [stream_frame]:
  "read_port d k = Inr (x, k') \<Longrightarrow> same_files k k'"
  "write_port d k = Inr (y, k') \<Longrightarrow> same_files k k'"
  by (auto simp: read_port_def write_port_def set_vm_def bindE_eq_Inr same_files_def)

lemma serial_read_loop_frame: "serial_read_loop n d acc k = Inr (x, k') \<Longrightarrow> same_files k k'"
proof (induction n arbitrary: acc k)
  case 0
  then show ?case by simp
next
  case (Suc r)
  from Suc.prems obtain b k1 where p: "read_port d k = Inr (b, k1)"
    by (auto simp: bindE_eq_Inr)
  show ?case
  proof (cases b)
    case None
    with Suc.prems p show ?thesis by (auto split: if_splits dest: port_frame)
  next
    case (Some y)
    with Suc.prems p have "serial_read_loop r d (acc @ [y]) k1 = Inr (x, k')" by simp
    from Suc.IH [OF this] p show ?thesis by (blast intro: same_files_trans dest: port_frame)
  qed
qed

lemma serial_read_frame [stream_frame]:
  "serial_read_resume run c d sz k = Inr (x, k') \<Longrightarrow> same_files k k'"
  "serial_read run c d sz k = Inr (x, k') \<Longrightarrow> same_files k k'"
proof -
  have pre: "same_files k (set_preempt run c b k1) = same_files k k1" for k k1 b
    by (simp add: set_preempt_def same_files_def)
  show a: "same_files k k'" if r: "serial_read_resume run c d sz k = Inr (x, k')" for k
  proof -
    obtain out k1 where l: "serial_read_loop (unat sz) d [] k = Inr (out, k1)"
        "k' = (case out of outcome.Done _ \<Rightarrow> set_preempt run c True k1 | _ \<Rightarrow> k1)"
      using r by (auto simp: serial_read_resume_def bindE_eq_Inr)
    from serial_read_loop_frame [OF l(1)] l(2) show ?thesis
      by (cases out) (simp_all add: pre)
  qed
  show "same_files k k'" if "serial_read run c d sz k = Inr (x, k')"
    using a [OF that [unfolded serial_read_def]] by (simp add: set_preempt_def same_files_def)
qed

lemma serial_write_loop_frame: "serial_write_loop n d buf sz i k = Inr (x, k') \<Longrightarrow> same_files k k'"
proof (induction n arbitrary: i k)
  case 0
  then show ?case by (simp add: serial_write_loop.simps [of 0] split: if_splits)
next
  case (Suc n)
  show ?case
  proof (cases "i < sz")
    case False
    with Suc.prems show ?thesis by (simp add: serial_write_loop.simps [of "Suc n"])
  next
    case True
    then obtain ok k1 where w: "write_port d k = Inr (ok, k1)"
        "(if ok then serial_write_loop n d buf sz (Suc i) k1
          else if i = 0 then serial_write_loop n d buf sz i (yield_kernel k1)
          else Inr ((int i, map buf [0..<i]), k1)) = Inr (x, k')"
      using Suc.prems by (auto simp: serial_write_loop.simps [of "Suc n"] bindE_eq_Inr)
    have f: "same_files k k1" using w(1) by (rule port_frame)
    have "same_files k1 k'"
    proof (cases ok)
      case True
      with w(2) show ?thesis by (auto intro: Suc.IH)
    next
      case False
      have y: "same_files k1 (yield_kernel k1)" by (simp add: yield_kernel_def same_files_def)
      from False w(2) show ?thesis
        by (cases "i = 0") (auto dest!: Suc.IH intro: same_files_trans [OF y])
    qed
    with f show ?thesis by (rule same_files_trans)
  qed
qed

lemma serial_write_frame [stream_frame]: "serial_write d buf sz k = Inr (x, k') \<Longrightarrow> same_files k k'"
  unfolding serial_write_def by (rule serial_write_loop_frame)

lemma socket_rw_frame [stream_frame]:
  "socket_read a sz k = Inr (x, k') \<Longrightarrow> same_files k k'"
  "socket_write a buf sz k = Inr (y, k') \<Longrightarrow> same_files k k'"
proof -
  assume "socket_read a sz k = Inr (x, k')"
  moreover from this obtain r where "socket_read_pipe a k = Inr r"
    by (auto simp: socket_read_def bindE_eq_Inr)
  ultimately show "same_files k k'"
    by (cases r) (auto simp: socket_read_def bindE_eq_Inr intro: pipe_read_frame)
next
  assume "socket_write a buf sz k = Inr (y, k')"
  moreover from this obtain r where "socket_write_pipe a k = Inr r"
    by (auto simp: socket_write_def bindE_eq_Inr)
  ultimately show "same_files k k'"
    by (cases r) (auto simp: socket_write_def bindE_eq_Inr intro: pipe_write_frame)
qed

lemma upd_scb_frame [simp]: "same_files k (upd_scb a g k1) = same_files k k1"
  by (simp add: same_files_def)

lemma shutdown_frame [stream_frame]:
  "shutdown_read a k = Inr k' \<Longrightarrow> same_files k k'"
  "shutdown_write a k = Inr k' \<Longrightarrow> same_files k k'"
proof -
  assume r: "shutdown_read a k = Inr k'"
  then obtain s where s: "scbs k a = Some s" by (auto simp: shutdown_read_def bindE_eq_Inr)
  show "same_files k k'"
  proof (cases "receive s")
    case (Some p)
    with r s obtain n k1 b where "reader_close (Some p) k = Inr (n, k1)"
        "k' = upd_scb b (\<lambda>s. s\<lparr>send := None\<rparr>) (upd_scb a (\<lambda>s. s\<lparr>receive := None\<rparr>) k1)"
      by (auto simp: shutdown_read_def bindE_eq_Inr)
    then show ?thesis by (simp add: pipe_close_frame)
  qed (use r s in \<open>simp add: shutdown_read_def\<close>)
next
  assume w: "shutdown_write a k = Inr k'"
  then obtain s where s: "scbs k a = Some s" by (auto simp: shutdown_write_def bindE_eq_Inr)
  show "same_files k k'"
  proof (cases "send s")
    case (Some p)
    with w s obtain n k1 where "writer_close (Some p) k = Inr (n, k1)"
        "k' = upd_scb a (\<lambda>s. s\<lparr>send := None\<rparr>) k1"
      by (auto simp: shutdown_write_def bindE_eq_Inr)
    then show ?thesis by (simp add: pipe_close_frame)
  qed (use w s in \<open>simp add: shutdown_write_def\<close>)
qed

lemma shutdown_socket_frame [stream_frame]:
  assumes "shutdown_socket a how k = Inr (n, k')"
  shows "same_files k k'"
proof -
  obtain s :: scb where s: "(if stype s = PEER \<and> peer s \<noteq> None then
       bindE (if how = SHUTDOWN_READ \<or> how = SHUTDOWN_BOTH then shutdown_read a k else Inr k) (\<lambda>k1.
       bindE (if how = SHUTDOWN_WRITE \<or> how = SHUTDOWN_BOTH then shutdown_write a k1 else Inr k1) (\<lambda>k2.
       Inr (0, k2)))
     else Inr (-1, k)) = Inr (n, k')"
    using assms [unfolded shutdown_socket_def] by (rule bindE_elim) (rule that; assumption)
  show ?thesis
  proof (cases "stype s = PEER \<and> peer s \<noteq> None")
    case True
    from s [unfolded if_P [OF True]] obtain k1
      where r: "(if how = SHUTDOWN_READ \<or> how = SHUTDOWN_BOTH then shutdown_read a k else Inr k) = Inr k1"
        and "bindE (if how = SHUTDOWN_WRITE \<or> how = SHUTDOWN_BOTH then shutdown_write a k1 else Inr k1) (\<lambda>k2.
          Inr (0, k2)) = Inr (n, k')"
      by (rule bindE_elim)
    from this(2) obtain k2
      where w: "(if how = SHUTDOWN_WRITE \<or> how = SHUTDOWN_BOTH then shutdown_write a k1 else Inr k1) = Inr k2"
        and e: "Inr (0, k2) = (Inr (n, k') :: (int \<times> kernel) res)"
      by (rule bindE_elim)
    have "same_files k k1" using r by (cases "how = SHUTDOWN_READ \<or> how = SHUTDOWN_BOTH") (simp_all add: shutdown_frame)
    moreover have "same_files k1 k2" using w by (cases "how = SHUTDOWN_WRITE \<or> how = SHUTDOWN_BOTH") (simp_all add: shutdown_frame)
    ultimately show ?thesis using e by (auto intro: same_files_trans)
  next
    case False
    from s [unfolded if_not_P [OF False]] show ?thesis by simp
  qed
qed

lemma sys_ShutDown_frame [stream_frame]:
  assumes "sys_ShutDown c sock how k = Inr (n, k')"
  shows "same_files k k'"
proof (cases "0 \<le> sock \<and> sock \<le> int MAX_FILEID - 1 \<and> how \<noteq> SHUTDOWN_NONE")
  case True
  from assms [unfolded sys_ShutDown_def if_P [OF True]] obtain x
    where "(case x of None \<Rightarrow> Inr (-1, k) | Some a \<Rightarrow> shutdown_socket a how k) = Inr (n, k')"
    by (rule bindE_elim)
  then show ?thesis by (cases x) (simp_all add: shutdown_socket_frame)
next
  case False
  from assms [unfolded sys_ShutDown_def if_not_P [OF False]] show ?thesis by simp
qed

lemma close_listener_frame:
  assumes "close_listener a s k = Inr k'"
  shows "same_files k k'"
proof -
  obtain k1 where k1: "on_cc (Cond_Broadcast (Server_requests a)) (upd_scb a (\<lambda>s. s\<lparr>srefcount := 0\<rparr>) k) = Inr k1"
      "(let k2 = k1\<lparr>cc := env_yield k1 (cc k1)\<rparr>
        in Inr (if PortMap k2 (port s) = Some a then k2\<lparr>PortMap := (PortMap k2)(port s := None)\<rparr> else k2)) =
       (Inr k' :: kernel res)"
    using assms [unfolded close_listener_def] by (rule bindE_elim)
  define k0 where "k0 = upd_scb a (\<lambda>s. s\<lparr>srefcount := 0\<rparr>) k"
  have "same_files k0 k1" using k1(1) unfolding k0_def [symmetric] by (rule on_cc_frame)
  moreover have "same_files k k0" by (simp add: k0_def)
  moreover have "FT k' = FT k1 \<and> FCB_freelist k' = FCB_freelist k1 \<and> PT k' = PT k1 \<and>
      pcb_freelist k' = pcb_freelist k1 \<and> process_count k' = process_count k1 \<and> ptcbs k' = ptcbs k1"
    using k1(2) by (cases "PortMap k1 (port s) = Some a") (simp_all add: Let_def, auto)
  ultimately show ?thesis by (simp add: same_files_def)
qed

lemma close_peer_frame:
  assumes "close_peer c a s k = Inr k'"
  shows "same_files k k'"
proof -
  obtain x where x: "sys_ShutDown c (sfid s) SHUTDOWN_BOTH k = Inr x"
      "(\<lambda>(_, k1). bindE (derefE (scbs k1 a)) (\<lambda>s1. bindE (nonnullE (peer s1)) (\<lambda>b.
        bindE (derefE (scbs k1 b)) (\<lambda>_. Inr (upd_scb b (\<lambda>s. s\<lparr>receive := None\<rparr>) k1))))) x = Inr k'"
    using assms [unfolded close_peer_def] by (rule bindE_elim)
  obtain n k1 where n: "x = (n, k1)" by (cases x)
  with x(2) obtain b where "k' = upd_scb b (\<lambda>s. s\<lparr>receive := None\<rparr>) k1"
    by (auto simp: bindE_eq_Inr)
  with sys_ShutDown_frame x(1) n show ?thesis by simp
qed

lemma socket_close_frame [stream_frame]:
  assumes "socket_close c a k = Inr (n, k')"
  shows "same_files k k'"
proof -
  have fr: "same_files k (free_scb a k1) = same_files k k1" for k1 by (simp add: free_scb_def same_files_def)
  obtain s where s: "scbs k a = Some s" using assms by (auto simp: socket_close_def bindE_eq_Inr)
  show ?thesis
  proof (cases "srefcount s \<le> 1")
    case True
    with assms s obtain k1 where k1: "k' = free_scb a k1" "(case stype s of
                LISTENER \<Rightarrow> close_listener a s k | PEER \<Rightarrow> close_peer c a s k | UNBOUND \<Rightarrow> Inr k) = Inr k1"
      by (auto simp: socket_close_def bindE_eq_Inr)
    then have "same_files k k1"
      by (cases "stype s") (simp_all add: close_listener_frame close_peer_frame)
    with k1(1) show ?thesis by (simp add: fr)
  qed (use assms s in \<open>simp add: socket_close_def\<close>)
qed

lemma info_frame [stream_frame]:
  "info_read a sz k = Inr (x, k') \<Longrightarrow> same_files k k'"
  "info_close a k = Inr (n, k') \<Longrightarrow> same_files k k'"
  by (auto simp: info_read_def info_close_def bindE_eq_Inr same_files_def split: if_splits)

lemma stream_read_frame: "stream_read run c ops obj sz k = Inr (x, k') \<Longrightarrow> same_files k k'"
  by (cases ops) (auto simp: stream_read_def bindE_eq_Inr dest: stream_frame)

lemma stream_read_resume_frame: "stream_read_resume run c pc sz k = Inr (x, k') \<Longrightarrow> same_files k k'"
  by (cases pc) (auto simp: stream_read_resume_def bindE_eq_Inr dest: stream_frame)

lemma stream_write_frame: "stream_write ops obj buf sz k = Inr (x, k') \<Longrightarrow> same_files k k'"
  by (cases ops) (auto simp: stream_write_def bindE_eq_Inr dest: stream_frame)

lemma stream_write_resume_frame: "stream_write_resume pc buf sz k = Inr (x, k') \<Longrightarrow> same_files k k'"
  by (cases pc) (auto simp: stream_write_resume_def bindE_eq_Inr dest: stream_frame)

lemma stream_close_frame: "stream_close c ops obj k = Inr (x, k') \<Longrightarrow> same_files k k'"
  by (cases ops) (auto simp: stream_close_def bindE_eq_Inr dest: stream_frame)

text \<open>The close operations keep the contract; reads and writes follow below.\<close>

interpretation cl: stream_op "stream_close c ops obj" for c ops obj
  by unfold_locales (rule stream_close_frame)

section \<open>Taking and dropping a reference\<close>

lemma incref_upto:
  assumes inv: "files_inv held k" and f: "f < MAX_FILES" "f \<notin> set (FCB_freelist k)" and h: "held f < 2 ^ 31"
  shows "files_inv (held(f := Suc (held f))) (FCB_incref f k)"
proof (rule files_uptoI)
  note D = files_uptoD [OF inv]
  let ?k = "FCB_incref f k"
  have refs: "refs ?k g = refs k g" for g by (rule refs_cong) (simp add: FCB_incref_def fid_at_def)
  have e: "FCB_freelist ?k = FCB_freelist k"
      "refcount (FT ?k g) = (if g = f then refcount (FT k f) + 1 else refcount (FT k g))" for g
    by (simp_all add: FCB_incref_def)
  show "distinct (FCB_freelist ?k)" using D(1) by (simp add: e)
  show "g < MAX_FILES" if "g \<in> set (FCB_freelist ?k)" for g using that D(2) by (simp add: e)
  show "g < MAX_FILES" if "s \<in> fid_slots" "fid_at ?k s = Some g" for s g
    using that D(3) [of s g] by (simp add: FCB_incref_def fid_at_def split: prod.splits)
  show "refs ?k g + (held(f := Suc (held f))) g = 0 \<and> g \<notin> {}" if "g \<in> set (FCB_freelist ?k)" for g
    using that D(4) [of g] f by (auto simp: e refs)
  have u: "unat (refcount (FT k f)) = refs k f + held f" using D(5) [of f] f by simp
  then have "unat (refcount (FT k f) + 1) = Suc (refs k f + held f)"
    using h refs_bound [of k f] by (subst unat_word_ariths) simp
  then show "(g \<in> {} \<longleftrightarrow> refs ?k g + (held(f := Suc (held f))) g = 0) \<and>
      unat (refcount (FT ?k g)) = refs ?k g + (held(f := Suc (held f))) g"
    if "g < MAX_FILES" "g \<notin> set (FCB_freelist ?k)" for g
    using that D(5) [of g] by (simp add: e refs)
qed simp

text \<open>Dropping the reference of a call; the block is acquired but unused when it was the last one.\<close>

lemma decref_upto:
  assumes inv: "files_inv (held(f := Suc (held f))) k" and f: "f < MAX_FILES"
    and k1: "k1 = upd_fcb f (\<lambda>b. b\<lparr>refcount := refcount b - 1\<rparr>) k"
  shows "files_upto (if refcount (FT k1 f) = 0 then {f} else {}) held k1"
    and "refcount (FT k1 f) = 0 \<longleftrightarrow> refs k f + held f = 0"
proof -
  note D = files_uptoD [OF inv]
  have refs: "refs k1 g = refs k g" for g by (rule refs_cong) (simp add: k1 fid_at_def)
  have nf: "f \<notin> set (FCB_freelist k)" using D(4) [of f] by auto
  have u: "unat (refcount (FT k f)) = Suc (refs k f + held f)" using D(5) [of f] f nf by simp
  then have "refcount (FT k f) \<noteq> 0" by auto
  then have u1: "unat (refcount (FT k1 f)) = refs k f + held f"
    using u by (simp add: k1 unat_minus_one)
  then show zero: "refcount (FT k1 f) = 0 \<longleftrightarrow> refs k f + held f = 0"
    by (metis unat_0 unat_eq_zero)
  have e: "FCB_freelist k1 = FCB_freelist k" "g \<noteq> f \<Longrightarrow> refcount (FT k1 g) = refcount (FT k g)" for g
    by (simp_all add: k1)
  show "files_upto (if refcount (FT k1 f) = 0 then {f} else {}) held k1"
  proof (rule files_uptoI)
    show "distinct (FCB_freelist k1)" using D(1) by (simp add: e)
    show "g < MAX_FILES" if "g \<in> set (FCB_freelist k1)" for g using that D(2) by (simp add: e)
    show "g < MAX_FILES" if "s \<in> fid_slots" "fid_at k1 s = Some g" for s g
      using that D(3) [of s g] by (simp add: k1 fid_at_def split: prod.splits)
    show "g < MAX_FILES" if "g \<in> (if refcount (FT k1 f) = 0 then {f} else {})" for g
      using that f by (simp split: if_splits)
    show "refs k1 g + held g = 0 \<and> g \<notin> (if refcount (FT k1 f) = 0 then {f} else {})"
      if "g \<in> set (FCB_freelist k1)" for g
      using that D(4) [of g] nf by (cases "g = f") (auto simp: e refs)
    show "(g \<in> (if refcount (FT k1 f) = 0 then {f} else {}) \<longleftrightarrow> refs k1 g + held g = 0) \<and>
        unat (refcount (FT k1 g)) = refs k1 g + held g"
      if "g < MAX_FILES" "g \<notin> set (FCB_freelist k1)" for g
      using that D(5) [of g] zero u1 by (cases "g = f") (auto simp: e refs)
  qed
qed

lemma FCB_decref_inv:
  assumes inv: "files_inv (held(f := Suc (held f))) k" and f: "f < MAX_FILES"
    and d: "FCB_decref c f k = Inr (n, k')"
  shows "files_inv held k'" and "FIDT (PT k' q) = FIDT (PT k q)"
proof -
  define k1 where k1: "k1 = upd_fcb f (\<lambda>b. b\<lparr>refcount := refcount b - 1\<rparr>) k"
  note U = decref_upto [OF inv f k1]
  have "files_inv held k' \<and> FIDT (PT k' q) = FIDT (PT k q)"
  proof (cases "refcount (FT k1 f) = 0")
    case True
    with d obtain ops k2 where c: "stream_close c ops (streamobj (FT k1 f)) k1 = Inr (n, k2)" "k' = release_FCB f k2"
      unfolding FCB_decref_def Let_def k1 [symmetric] by (auto simp: bindE_eq_Inr)
    have "files_upto {f} held k2" using U(1) True cl.keeps_upto [OF c(1)] by simp
    then have "files_inv held k'" using c(2) by (auto intro: release_FCB_upto)
    moreover have "PT k' = PT k" using same_filesD [OF stream_close_frame [OF c(1)]] c(2)
      by (simp add: release_FCB_def k1)
    ultimately show ?thesis by simp
  next
    case False
    with d have "k' = k1" unfolding FCB_decref_def Let_def k1 [symmetric] by simp
    with U(1) False show ?thesis by (simp add: k1)
  qed
  then show "files_inv held k'" "FIDT (PT k' q) = FIDT (PT k q)" by simp_all
qed

lemma FCB_decref_tables:
  assumes "FCB_decref c f k = Inr (n, k')"
  shows "PT k' = PT k" "pcb_freelist k' = pcb_freelist k" "process_count k' = process_count k" "ptcbs k' = ptcbs k"
proof -
  define k1 where k1: "k1 = upd_fcb f (\<lambda>b. b\<lparr>refcount := refcount b - 1\<rparr>) k"
  have "PT k' = PT k \<and> pcb_freelist k' = pcb_freelist k \<and> process_count k' = process_count k \<and> ptcbs k' = ptcbs k"
  proof (cases "refcount (FT k1 f) = 0")
    case True
    with assms obtain ops k2 where c: "stream_close c ops (streamobj (FT k1 f)) k1 = Inr (n, k2)" "k' = release_FCB f k2"
      unfolding FCB_decref_def Let_def k1 [symmetric] by (auto simp: bindE_eq_Inr)
    from same_filesD [OF stream_close_frame [OF c(1)]] c(2) show ?thesis by (simp add: release_FCB_def k1)
  next
    case False
    with assms have "k' = k1" unfolding FCB_decref_def Let_def k1 [symmetric] by simp
    then show ?thesis by (simp add: k1)
  qed
  then show "PT k' = PT k" "pcb_freelist k' = pcb_freelist k" "process_count k' = process_count k" "ptcbs k' = ptcbs k"
    by simp_all
qed

text \<open>Taking a descriptor away gives its reference to the call that does it, and putting one in takes it back.\<close>

lemma clear_fid_inv:
  assumes inv: "files_inv held k" and slot: "(p, i) \<in> fid_slots" and f: "fid_at k (p, i) = Some f"
  shows "files_inv (held(f := Suc (held f))) (set_fid p i None k)"
proof (rule files_uptoI)
  note D = files_uptoD [OF inv]
  let ?k = "set_fid p i None k"
  have refs: "refs k g = refs ?k g + (if g = f then 1 else 0)" for g
    using refs_set_fid [OF slot, of None k g] f by (simp split: if_splits)
  show "distinct (FCB_freelist ?k)" using D(1) by simp
  show "g < MAX_FILES" if "g \<in> set (FCB_freelist ?k)" for g using that D(2) by simp
  show "g < MAX_FILES" if "s \<in> fid_slots" "fid_at ?k s = Some g" for s g
    using that D(3) [of s g] by (simp split: if_splits)
  show "refs ?k g + (held(f := Suc (held f))) g = 0 \<and> g \<notin> {}" if "g \<in> set (FCB_freelist ?k)" for g
    using that D(4) [of g] refs [of g] by (auto split: if_splits)
  show "(g \<in> {} \<longleftrightarrow> refs ?k g + (held(f := Suc (held f))) g = 0) \<and>
      unat (refcount (FT ?k g)) = refs ?k g + (held(f := Suc (held f))) g"
    if "g < MAX_FILES" "g \<notin> set (FCB_freelist ?k)" for g
    using that D(5) [of g] refs [of g] by (auto split: if_splits)
qed simp

lemma set_fid_inv:
  assumes inv: "files_inv (held(f := Suc (held f))) k" and slot: "(p, i) \<in> fid_slots"
    and none: "fid_at k (p, i) = None" and f: "f < MAX_FILES"
  shows "files_inv held (set_fid p i (Some f) k)"
proof (rule files_uptoI)
  note D = files_uptoD [OF inv]
  let ?k = "set_fid p i (Some f) k"
  have refs: "refs ?k g = refs k g + (if g = f then 1 else 0)" for g
    using refs_set_fid [OF slot, of "Some f" k g] none by (simp split: if_splits)
  show "distinct (FCB_freelist ?k)" using D(1) by simp
  show "g < MAX_FILES" if "g \<in> set (FCB_freelist ?k)" for g using that D(2) by simp
  show "g < MAX_FILES" if "s \<in> fid_slots" "fid_at ?k s = Some g" for s g
    using that D(3) [of s g] f by (auto split: if_splits)
  show "refs ?k g + held g = 0 \<and> g \<notin> {}" if "g \<in> set (FCB_freelist ?k)" for g
    using that D(4) [of g] refs [of g] by (auto split: if_splits)
  show "(g \<in> {} \<longleftrightarrow> refs ?k g + held g = 0) \<and> unat (refcount (FT ?k g)) = refs ?k g + held g"
    if "g < MAX_FILES" "g \<notin> set (FCB_freelist ?k)" for g
    using that D(5) [of g] refs [of g] by (auto split: if_splits)
qed simp

section \<open>The system calls\<close>

lemma slot_block:
  assumes "files_inv held k" "(p, i) \<in> fid_slots" "fid_at k (p, i) = Some f"
  shows "f < MAX_FILES" "f \<notin> set (FCB_freelist k)" "0 < refs k f"
proof -
  note D = files_uptoD [OF assms(1)]
  show "f < MAX_FILES" using D(3) assms(2,3) by blast
  have "(p, i) \<in> {s \<in> fid_slots. fid_at k s = Some f}" using assms(2,3) by simp
  moreover have "finite {s \<in> fid_slots. fid_at k s = Some f}" by (simp add: rev_finite_subset [OF finite_slots])
  ultimately show "0 < refs k f" unfolding refs_def card_gt_0_iff by blast
  with D(4) [of f] show "f \<notin> set (FCB_freelist k)" by auto
qed

lemma get_fcb_Some:
  assumes "get_fcb c fd k = Inr (Some f)" "CURPROC c k = Inr p" "p < MAX_PROC"
  shows "0 \<le> fd" "nat fd < MAX_FILEID" "(p, nat fd) \<in> fid_slots" "fid_at k (p, nat fd) = Some f"
  using assms by (auto simp: get_fcb_def fid_slots_def fid_at_def split: if_splits)

lemma sys_Close_inv:
  assumes inv: "files_inv held k" and p: "CURPROC c k = Inr p" "p < MAX_PROC"
    and cl: "sys_Close c fd k = Inr (n, k')"
  shows "files_inv held k'"
    and "FIDT (PT k' q) i = (if q = p \<and> int i = fd \<and> i < MAX_FILEID then None else FIDT (PT k q) i)"
proof -
  obtain x where x: "get_fcb c fd k = Inr x"
    using p by (cases "fd < 0 \<or> int MAX_FILEID \<le> fd") (auto simp: get_fcb_def)
  have "files_inv held k' \<and>
      FIDT (PT k' q) i = (if q = p \<and> int i = fd \<and> i < MAX_FILEID then None else FIDT (PT k q) i)"
  proof (cases x)
    case None
    with cl x have "k' = k" by (auto simp: sys_Close_def Let_def)
    moreover have "FIDT (PT k p) i = None" if "int i = fd" "i < MAX_FILEID"
      using that x None p by (auto simp: get_fcb_def split: if_splits)
    ultimately show ?thesis using inv by simp
  next
    case (Some f)
    note G = get_fcb_Some [OF x [unfolded Some] p]
    have d: "FCB_decref c f (set_fid p (nat fd) None k) = Inr (n, k')"
      using cl x p(1) by (simp add: sys_Close_def Let_def Some)
    note D = FCB_decref_inv [OF clear_fid_inv [OF inv G(3,4)] slot_block(1) [OF inv G(3,4)] d]
    have "int i = fd \<and> i < MAX_FILEID \<longleftrightarrow> i = nat fd" using G(1,2) by auto
    with D show ?thesis by simp
  qed
  then show "files_inv held k'"
    "FIDT (PT k' q) i = (if q = p \<and> int i = fd \<and> i < MAX_FILEID then None else FIDT (PT k q) i)"
    by simp_all
qed

text \<open>Dropping the reference of a descriptor that is still in place, as \<^verbatim>\<open>Dup2\<close> and \<^verbatim>\<open>Exit\<close> do.\<close>

lemma decref_slot_inv:
  assumes inv: "files_inv held k" and slot: "(p, i) \<in> fid_slots" "fid_at k (p, i) = Some g"
    and d: "FCB_decref c g k = Inr (n, k1)"
  shows "files_inv held (set_fid p i None k1)" and "FIDT (PT k1 q) = FIDT (PT k q)"
proof -
  define j where j: "j = upd_fcb g (\<lambda>b. b\<lparr>refcount := refcount b - 1\<rparr>) k"
  define j0 where j0: "j0 = upd_fcb g (\<lambda>b. b\<lparr>refcount := refcount b - 1\<rparr>) (set_fid p i None k)"
  note B = slot_block [OF inv slot]
  note U = decref_upto [OF clear_fid_inv [OF inv slot] B(1) j0]
  have eq: "refcount (FT j0 f) = refcount (FT j f)" "FCB_freelist j0 = FCB_freelist j" for f
    by (simp_all add: j j0)
  have "files_inv held (set_fid p i None k1) \<and> (\<forall>q. FIDT (PT k1 q) = FIDT (PT k q))"
  proof (cases "refcount (FT j g) = 0")
    case True
    with d obtain ops k2 where c: "stream_close c ops (streamobj (FT j g)) j = Inr (n, k2)" "k1 = release_FCB g k2"
      unfolding FCB_decref_def Let_def j [symmetric] by (auto simp: bindE_eq_Inr)
    note F = same_filesD [OF stream_close_frame [OF c(1)]]
    have "files_upto {g} held j0" using U(1) True eq by simp
    then have "files_inv held (release_FCB g j0)" by (auto intro: release_FCB_upto)
    moreover have "files_inv held (set_fid p i None k1) = files_inv held (release_FCB g j0)"
      by (rule files_upto_cong) (auto simp: c(2) release_FCB_def F eq fun_eq_iff, auto simp: j j0)
    ultimately show ?thesis by (simp add: c(2) release_FCB_def F j)
  next
    case False
    with d have k1: "k1 = j" unfolding FCB_decref_def Let_def j [symmetric] by simp
    have "files_inv held j0" using U(1) False eq by simp
    moreover have "files_inv held (set_fid p i None k1) = files_inv held j0"
      by (rule files_upto_cong) (auto simp: k1 eq fun_eq_iff, auto simp: j j0)
    ultimately show ?thesis by (simp add: k1 j)
  qed
  then show "files_inv held (set_fid p i None k1)" "FIDT (PT k1 q) = FIDT (PT k q)" by simp_all
qed

text \<open>Storing a block that is in use in an empty descriptor, with one more reference.\<close>

lemma share_inv:
  assumes inv: "files_inv held (set_fid p i None k)" and slot: "(p, i) \<in> fid_slots"
    and f: "f < MAX_FILES" "f \<notin> set (FCB_freelist k)" "held f < 2 ^ 31"
  shows "files_inv held (set_fid p i (Some f) (FCB_incref f k))"
proof -
  have "f \<notin> set (FCB_freelist (set_fid p i None k))" using f(2) by simp
  from incref_upto [OF inv f(1) this f(3)]
  have "files_inv (held(f := Suc (held f))) (FCB_incref f (set_fid p i None k))" .
  moreover have "fid_at (FCB_incref f (set_fid p i None k)) (p, i) = None"
    by (simp add: fid_at_def FCB_incref_def)
  ultimately have "files_inv held (set_fid p i (Some f) (FCB_incref f (set_fid p i None k)))"
    using slot f(1) by (intro set_fid_inv)
  moreover have "files_inv held (set_fid p i (Some f) (FCB_incref f k)) =
      files_inv held (set_fid p i (Some f) (FCB_incref f (set_fid p i None k)))"
    by (rule files_upto_cong) (auto simp: FCB_incref_def fun_eq_iff)
  ultimately show ?thesis by simp
qed

lemma sys_Dup2_inv:
  assumes inv: "files_inv held k" and p: "CURPROC c k = Inr p" "p < MAX_PROC" and h: "\<And>f. held f < 2 ^ 31"
    and d: "sys_Dup2 c oldfd newfd k = Inr (n, k')" and p': "CURPROC c k' = Inr p"
  shows "files_inv held k'"
    and "n = 0 \<or> n = -1"
    and "n = 0 \<Longrightarrow> FIDT (PT k p) (nat oldfd) \<noteq> None \<and>
        FIDT (PT k' q) i = (if q = p \<and> int i = newfd then FIDT (PT k p) (nat oldfd) else FIDT (PT k q) i)"
    and "n = -1 \<Longrightarrow> k' = k"
proof -
  define P where "P \<longleftrightarrow> files_inv held k' \<and> (n = 0 \<or> n = -1) \<and>
    (n = 0 \<longrightarrow> FIDT (PT k p) (nat oldfd) \<noteq> None \<and>
        FIDT (PT k' q) i = (if q = p \<and> int i = newfd then FIDT (PT k p) (nat oldfd) else FIDT (PT k q) i)) \<and>
    (n = -1 \<longrightarrow> k' = k)"
  have fail: P if "n = -1" "k' = k" using that inv by (simp add: P_def)
  have P
  proof (cases "oldfd < 0 \<or> newfd < 0 \<or> oldfd \<ge> int MAX_FILEID \<or> newfd \<ge> int MAX_FILEID")
    case True
    with d have "n = -1" "k' = k" by (auto simp: sys_Dup2_def)
    then show ?thesis by (rule fail)
  next
    case False
    define old new where "old = FIDT (PT k p) (nat oldfd)" and "new = FIDT (PT k p) (nat newfd)"
    have g: "get_fcb c oldfd k = Inr old" "get_fcb c newfd k = Inr new"
      using False p(1) by (auto simp: get_fcb_def old_def new_def)
    have slot: "(p, nat newfd) \<in> fid_slots" "(p, nat oldfd) \<in> fid_slots" using False p(2) by (auto simp: fid_slots_def)
    have ifd: "int i = newfd \<longleftrightarrow> i = nat newfd" using False by auto
    show ?thesis
    proof (cases old)
      case None
      with d False g have "n = -1" "k' = k" by (auto simp: sys_Dup2_def)
      then show ?thesis by (rule fail)
    next
      case (Some f)
      note G = get_fcb_Some [OF g(1) [unfolded Some] p]
      note B = slot_block [OF inv G(3,4)]
      show ?thesis
      proof (cases "old = new")
        case True
        with d False g Some have "n = 0" "k' = k" by (auto simp: sys_Dup2_def)
        moreover have "FIDT (PT k p) (nat oldfd) = Some f" "FIDT (PT k p) (nat newfd) = Some f"
          using Some True by (simp_all add: old_def new_def)
        ultimately show ?thesis using inv ifd by (simp add: P_def)
      next
        case ne: False
        obtain m k1 where k1: "(case new of None \<Rightarrow> Inr (0, k) | Some g \<Rightarrow> FCB_decref c g k) = Inr (m, k1)"
            "n = 0" "\<exists>p'. CURPROC c (FCB_incref f k1) = Inr p' \<and> k' = set_fid p' (nat newfd) (Some f) (FCB_incref f k1)"
          using d False g Some ne by (auto simp: sys_Dup2_def bindE_eq_Inr)
        have k': "k' = set_fid p (nat newfd) (Some f) (FCB_incref f k1)"
          using k1(3) p' by (auto simp: CURPROC_cong [of "set_fid _ _ _ _"])
        have I: "files_inv held (set_fid p (nat newfd) None k1)" "FIDT (PT k1 q) = FIDT (PT k q)" for q
        proof -
          have "files_inv held (set_fid p (nat newfd) None k1) \<and> (\<forall>q. FIDT (PT k1 q) = FIDT (PT k q))"
          proof (cases new)
            case None
            then have "k1 = k" using k1(1) by simp
            moreover have "files_inv held (set_fid p (nat newfd) None k) = files_inv held k"
              using None by (intro files_upto_cong) (auto simp: new_def fun_eq_iff)
            ultimately show ?thesis using inv by simp
          next
            case (Some g')
            then have "fid_at k (p, nat newfd) = Some g'" "FCB_decref c g' k = Inr (m, k1)"
              using k1(1) by (simp_all add: new_def fid_at_def)
            from decref_slot_inv [OF inv slot(1) this] show ?thesis by simp
          qed
          then show "files_inv held (set_fid p (nat newfd) None k1)" "FIDT (PT k1 q) = FIDT (PT k q)" by simp_all
        qed
        have "fid_at (set_fid p (nat newfd) None k1) (p, nat oldfd) = Some f"
          using ne Some I(2) [of p] by (auto simp: fid_at_def old_def new_def)
        from slot_block [OF I(1) slot(2) this] have "f < MAX_FILES" "f \<notin> set (FCB_freelist k1)" by simp_all
        from share_inv [OF I(1) slot(1) this h] have "files_inv held k'" by (simp add: k')
        moreover have "FIDT (PT k' q) i = (if q = p \<and> i = nat newfd then Some f else FIDT (PT k q) i)"
          by (simp add: k' FCB_incref_def I(2))
        ultimately show ?thesis using k1(2) Some ifd by (simp add: P_def old_def)
      qed
    qed
  qed
  then show "files_inv held k'" "n = 0 \<or> n = -1"
    "n = 0 \<Longrightarrow> FIDT (PT k p) (nat oldfd) \<noteq> None \<and>
        FIDT (PT k' q) i = (if q = p \<and> int i = newfd then FIDT (PT k p) (nat oldfd) else FIDT (PT k q) i)"
    "n = -1 \<Longrightarrow> k' = k"
    by (simp_all add: P_def)
qed

text \<open>
  A call that waits keeps its reference; \<open>counts_after\<close> says what the counts are when a read or a
  write returns or waits.
\<close>

definition counts_after :: "(nat \<Rightarrow> nat) \<Rightarrow> ('a, nat \<times> 'p) outcome \<Rightarrow> kernel \<Rightarrow> bool" where
  "counts_after held out k \<longleftrightarrow> (case out of
     Done _ \<Rightarrow> files_inv held k
   | Wait _ _ _ (f, _) \<Rightarrow> f < MAX_FILES \<and> files_inv (held(f := Suc (held f))) k)"

lemma drop_ref_inv:
  assumes inv: "files_inv (held(f := Suc (held f))) k" and f: "f < MAX_FILES"
    and d: "drop_ref c f (out, k) = Inr (out', k')"
  shows "counts_after held out' k'" and "FIDT (PT k' q) = FIDT (PT k q)"
    and "(case out' of Done _ \<Rightarrow> True | Wait _ _ _ (g, _) \<Rightarrow> g = f)"
proof -
  have "counts_after held out' k' \<and> FIDT (PT k' q) = FIDT (PT k q) \<and>
      (case out' of Done _ \<Rightarrow> True | Wait _ _ _ (g, _) \<Rightarrow> g = f)"
  proof (cases out)
    case (Done x)
    with d obtain n where "FCB_decref c f k = Inr (n, k')" "out' = outcome.Done x"
      by (auto simp: drop_ref_def bindE_eq_Inr)
    with FCB_decref_inv [OF inv f] show ?thesis by (simp add: counts_after_def)
  next
    case (Wait cv cause t pc)
    with d inv f show ?thesis by (auto simp: drop_ref_def counts_after_def)
  qed
  then show "counts_after held out' k'" "FIDT (PT k' q) = FIDT (PT k q)"
    "(case out' of Done _ \<Rightarrow> True | Wait _ _ _ (g, _) \<Rightarrow> g = f)" by simp_all
qed

text \<open>The bracket that \<^verbatim>\<open>Read\<close> and \<^verbatim>\<open>Write\<close> put around an operation that keeps the contract.\<close>

locale bracketed_op = stream_op act for act :: "kernel \<Rightarrow> (('a, stream_pc) outcome \<times> kernel) res"
begin

lemma bracket_inv:
  assumes inv: "files_inv held k" and slot: "(p, i) \<in> fid_slots" "fid_at k (p, i) = Some f"
    and h: "held f < 2 ^ 31" and r: "bindE (act (FCB_incref f k)) (drop_ref c f) = Inr (out, k')"
  shows "counts_after held out k'"
proof -
  note B = slot_block [OF inv slot]
  have I: "files_inv (held(f := Suc (held f))) (FCB_incref f k)" by (rule incref_upto [OF inv B(1,2) h])
  obtain x where x: "act (FCB_incref f k) = Inr x" "drop_ref c f x = Inr (out, k')"
    using r by (rule bindE_elim)
  obtain o1 k1 where o: "x = (o1, k1)" by (cases x)
  have "files_inv (held(f := Suc (held f))) k1" using I keeps_upto [OF x(1) [unfolded o]] by simp
  from drop_ref_inv [OF this B(1) x(2) [unfolded o]] show ?thesis by simp
qed

lemma resume_inv:
  assumes inv: "files_inv (held(f := Suc (held f))) k" and f: "f < MAX_FILES"
    and r: "bindE (act k) (drop_ref c f) = Inr (out, k')"
  shows "counts_after held out k'" and "(case out of Done _ \<Rightarrow> True | Wait _ _ _ (g, _) \<Rightarrow> g = f)"
proof -
  obtain x where x: "act k = Inr x" "drop_ref c f x = Inr (out, k')"
    using r by (rule bindE_elim)
  obtain o1 k1 where o: "x = (o1, k1)" by (cases x)
  have "files_inv (held(f := Suc (held f))) k1" using inv keeps_upto [OF x(1) [unfolded o]] by simp
  from drop_ref_inv [OF this f x(2) [unfolded o]]
  show "counts_after held out k'" "(case out of Done _ \<Rightarrow> True | Wait _ _ _ (g, _) \<Rightarrow> g = f)" by simp_all
qed

end

interpretation rd: bracketed_op "stream_read run c ops obj sz" for run c ops obj sz
  by unfold_locales (rule stream_read_frame)

interpretation rd_resume: bracketed_op "stream_read_resume run c pc sz" for run c pc sz
  by unfold_locales (rule stream_read_resume_frame)

interpretation wr: bracketed_op "stream_write ops obj buf sz" for ops obj buf sz
  by unfold_locales (rule stream_write_frame)

interpretation wr_resume: bracketed_op "stream_write_resume pc buf sz" for pc buf sz
  by unfold_locales (rule stream_write_resume_frame)

text \<open>The missing operation of a table returns at once.\<close>

interpretation no_op: bracketed_op "\<lambda>k. Inr (outcome.Done x, k)" for x
  by unfold_locales simp

lemma sys_Read_inv:
  assumes inv: "files_inv held k" and p: "CURPROC c k = Inr p" "p < MAX_PROC" and h: "\<And>f. held f < 2 ^ 31"
    and r: "sys_Read run c fd sz k = Inr (out, k')"
  shows "counts_after held out k'"
proof -
  obtain x where x: "get_fcb c fd k = Inr x" using r by (auto simp: sys_Read_def bindE_eq_Inr)
  show ?thesis
  proof (cases x)
    case None
    with r x have "out = outcome.Done (-1, Bytes [])" "k' = k" by (simp_all add: sys_Read_def)
    with inv show ?thesis by (simp add: counts_after_def)
  next
    case (Some f)
    note G = get_fcb_Some [OF x [unfolded Some] p]
    from r x Some obtain ops where b: "bindE (if has_read ops then stream_read run c ops (streamobj (FT k f)) sz (FCB_incref f k)
        else Inr (outcome.Done (-1, Bytes []), FCB_incref f k)) (drop_ref c f) = Inr (out, k')"
      by (auto simp: sys_Read_def Let_def bindE_eq_Inr [of "nonnullE _"])
    show ?thesis
      by (cases "has_read ops"; rule rd.bracket_inv [OF inv G(3,4) h] no_op.bracket_inv [OF inv G(3,4) h];
          use b in simp)
  qed
qed

lemma sys_Write_inv:
  assumes inv: "files_inv held k" and p: "CURPROC c k = Inr p" "p < MAX_PROC" and h: "\<And>f. held f < 2 ^ 31"
    and r: "sys_Write c fd buf sz k = Inr (out, k')"
  shows "counts_after held out k'"
proof -
  obtain x where x: "get_fcb c fd k = Inr x" using r by (auto simp: sys_Write_def bindE_eq_Inr)
  show ?thesis
  proof (cases x)
    case None
    with r x have "out = outcome.Done (-1)" "k' = k" by (simp_all add: sys_Write_def)
    with inv show ?thesis by (simp add: counts_after_def)
  next
    case (Some f)
    note G = get_fcb_Some [OF x [unfolded Some] p]
    from r x Some obtain ops where b: "bindE (if has_write ops then stream_write ops (streamobj (FT k f)) buf sz (FCB_incref f k)
        else Inr (outcome.Done (-1), FCB_incref f k)) (drop_ref c f) = Inr (out, k')"
      by (auto simp: sys_Write_def Let_def bindE_eq_Inr [of "nonnullE _"])
    show ?thesis
      by (cases "has_write ops"; rule wr.bracket_inv [OF inv G(3,4) h] no_op.bracket_inv [OF inv G(3,4) h];
          use b in simp)
  qed
qed

lemma sys_resume_inv:
  assumes "files_inv (held(f := Suc (held f))) k" "f < MAX_FILES"
  shows "sys_Read_resume run c (f, pc) sz k = Inr (out, k') \<Longrightarrow> counts_after held out k' \<and>
      (case out of Done _ \<Rightarrow> True | Wait _ _ _ (g, _) \<Rightarrow> g = f)"
    and "sys_Write_resume c (f, pc) buf sz k = Inr (out', k') \<Longrightarrow> counts_after held out' k' \<and>
      (case out' of Done _ \<Rightarrow> True | Wait _ _ _ (g, _) \<Rightarrow> g = f)"
  unfolding sys_Read_resume_def sys_Write_resume_def prod.case
  by (rule conjI; rule rd_resume.resume_inv [OF assms]; assumption)
     (rule conjI; rule wr_resume.resume_inv [OF assms]; assumption)

section \<open>Opening\<close>

lemma reserve_inv:
  assumes "files_inv held k" "CURPROC c k = Inr p" "p < MAX_PROC" "FCB_reserve c n k = Inr (r, k')"
  shows "files_inv held k'"
  using FCB_reserve_props [OF assms(1-3), of n] assms(4) by auto

lemma upd_fcb_inv:
  assumes "files_inv held k" "\<And>b. refcount (g b) = refcount b"
  shows "files_inv held (upd_fcb f g k)"
proof -
  have "files_inv held (upd_fcb f g k) = files_inv held k" by (rule files_upto_cong) (simp_all add: assms(2))
  with assms(1) show ?thesis by simp
qed

text \<open>Giving back a descriptor that nobody else has seen.\<close>

lemma unreserve_inv:
  assumes inv: "files_inv held k" and slot: "(p, i) \<in> fid_slots" "fid_at k (p, i) = Some f"
    and one: "refs k f = 1" "held f = 0"
  shows "files_inv held (release_FCB f (set_fid p i None k))"
proof (rule files_uptoI)
  note D = files_uptoD [OF inv]
  let ?k = "release_FCB f (set_fid p i None k)"
  note B = slot_block [OF inv slot]
  have "refs ?k g = refs (set_fid p i None k) g" for g by (rule refs_cong) (simp add: release_FCB_def fid_at_def)
  then have refs: "refs k g = refs ?k g + (if g = f then 1 else 0)" for g
    using refs_set_fid [OF slot(1), of None k g] slot(2) by (simp split: if_splits)
  have at: "fid_at ?k s = (if s = (p, i) then None else fid_at k s)" for s
    using fid_at_set_fid [of p i None k s] by (simp add: release_FCB_def fid_at_def split: prod.splits)
  have e: "FCB_freelist ?k = FCB_freelist k @ [f]" "FT ?k = FT k" by (simp_all add: release_FCB_def)
  show "distinct (FCB_freelist ?k)" using D(1) B(2) by (simp add: e)
  show "g < MAX_FILES" if "g \<in> set (FCB_freelist ?k)" for g using that D(2) B(1) by (auto simp: e)
  show "g < MAX_FILES" if "s \<in> fid_slots" "fid_at ?k s = Some g" for s g
    using that D(3) [of s g] by (simp add: at split: if_splits)
  show "refs ?k g + held g = 0 \<and> g \<notin> {}" if "g \<in> set (FCB_freelist ?k)" for g
    using that D(4) [of g] refs [of g] one by (auto simp: e split: if_splits)
  show "(g \<in> {} \<longleftrightarrow> refs ?k g + held g = 0) \<and> unat (refcount (FT ?k g)) = refs ?k g + held g"
    if "g < MAX_FILES" "g \<notin> set (FCB_freelist ?k)" for g
    using that D(5) [of g] refs [of g] by (auto simp: e split: if_splits)
qed simp

text \<open>What a successful reservation of one descriptor gives.\<close>

lemma reserved_one:
  assumes inv: "files_inv held k" and p: "CURPROC c k = Inr p" "p < MAX_PROC"
    and r: "FCB_reserve c 1 k = Inr (Some (fids, fcbs), k1)"
  obtains i f where "fids = [i]" "fcbs = [f]" "i < MAX_FILEID" "FIDT (PT k p) i = None" "f \<in> set (FCB_freelist k)"
    "files_inv held k1" "cc k1 = cc k" "\<And>q j. FIDT (PT k1 q) j = (if q = p \<and> j = i then Some f else FIDT (PT k q) j)"
proof -
  have P: "files_inv held k1" "cc k1 = cc k" "length fids = 1" "length fcbs = 1"
      "\<forall>i \<in> set fids. i < MAX_FILEID \<and> FIDT (PT k p) i = None" "FCB_freelist k = fcbs @ FCB_freelist k1"
      "\<forall>q j. FIDT (PT k1 q) j = (if q = p \<and> j \<in> set fids then map_of (zip fids fcbs) j else FIDT (PT k q) j)"
    using FCB_reserve_props [OF inv p, of 1] r by auto
  from P(3,4) obtain i f where "fids = [i]" "fcbs = [f]" by (auto simp: length_Suc_conv)
  with P that [of i f] show ?thesis by simp
qed

lemma reserved_refs:
  assumes inv: "files_inv held k" and "p < MAX_PROC" "i < MAX_FILEID" "FIDT (PT k p) i = None" "f \<in> set (FCB_freelist k)"
    and "\<And>q j. FIDT (PT k1 q) j = (if q = p \<and> j = i then Some f else FIDT (PT k q) j)"
  shows "refs k1 f = 1" and "held f = 0"
proof -
  have "(p, i) \<in> fid_slots" "fid_at k (p, i) = None" using assms by (auto simp: fid_slots_def fid_at_def)
  with refs_set_fid [of p i "Some f" k f] have "refs (set_fid p i (Some f) k) f = refs k f + 1" by simp
  moreover have "refs k1 f = refs (set_fid p i (Some f) k) f"
    using assms(6) by (intro refs_cong) (auto simp: fid_at_def)
  moreover have "refs k f + held f = 0" using files_uptoD(4) [OF inv assms(5)] by simp
  ultimately show "refs k1 f = 1" "held f = 0" by simp_all
qed

lemma open_stream_inv:
  assumes inv: "files_inv held k" and p: "CURPROC c k = Inr p" "p < MAX_PROC"
    and r: "open_stream c major minor k = Inr (n, k')"
  shows "files_inv held k'"
proof -
  obtain x where x: "FCB_reserve c 1 k = Inr x" "(\<lambda>(r, k1). case r of
       None \<Rightarrow> Inr (NOFILE, k1)
     | Some (fids, fcbs) \<Rightarrow>
         bindE (device_open major minor k1) (\<lambda>d. case d of
           None \<Rightarrow> bindE (FCB_unreserve c fids fcbs k1) (\<lambda>k2. Inr (NOFILE, k2))
         | Some (obj, ops) \<Rightarrow>
             Inr (int (hd fids), upd_fcb (hd fcbs) (\<lambda>b. b\<lparr>streamobj := obj, streamfunc := Some ops\<rparr>) k1))) x = Inr (n, k')"
    using r [unfolded open_stream_def] by (rule bindE_elim)
  obtain y k1 where y: "x = (y, k1)" by (cases x)
  show ?thesis
  proof (cases y)
    case None
    with x y reserve_inv [OF inv p] show ?thesis by simp
  next
    case (Some z)
    then obtain fids fcbs where z: "y = Some (fids, fcbs)" by (cases z) auto
    from x(1) obtain i f where R: "fids = [i]" "fcbs = [f]" "i < MAX_FILEID" "FIDT (PT k p) i = None"
        "f \<in> set (FCB_freelist k)" "files_inv held k1" "cc k1 = cc k"
        "\<And>q j. FIDT (PT k1 q) j = (if q = p \<and> j = i then Some f else FIDT (PT k q) j)"
      unfolding y z by (rule reserved_one [OF inv p]) (rule that; assumption)
    from x(2) obtain d where d: "device_open major minor k1 = Inr d" "(case d of
           None \<Rightarrow> bindE (FCB_unreserve c fids fcbs k1) (\<lambda>k2. Inr (NOFILE, k2))
         | Some (obj, ops) \<Rightarrow>
             Inr (int (hd fids), upd_fcb (hd fcbs) (\<lambda>b. b\<lparr>streamobj := obj, streamfunc := Some ops\<rparr>) k1)) = Inr (n, k')"
      unfolding y z prod.case option.case by (rule bindE_elim)
    show ?thesis
    proof (cases d)
      case None
      have at: "fid_at k1 (p, i) = Some f" using R(8) by (simp add: fid_at_def)
      have slot: "(p, i) \<in> fid_slots" using p R(3) by (simp add: fid_slots_def)
      have "FCB_unreserve c fids fcbs k1 = Inr (release_FCB f (set_fid p i None k1))"
        using p(1) R(8) by (simp add: FCB_unreserve_def CURPROC_cong [OF R(7)] R(1,2) unreserve_fid_def)
      with d(2) None have "k' = release_FCB f (set_fid p i None k1)" by simp
      then show ?thesis
        using unreserve_inv [OF R(6) slot at] reserved_refs [OF inv p(2) R(3,4,5,8)] by simp
    next
      case (Some w)
      with d(2) R(6) show ?thesis by (cases w) (auto intro: upd_fcb_inv)
    qed
  qed
qed

lemma get_pipe_frame: "get_pipe k = (x, k') \<Longrightarrow> same_files k k' \<and> cc k' = cc k"
  by (auto simp: get_pipe_def malloc_def same_files_def split: option.splits if_splits prod.splits)

lemma sys_Pipe_inv:
  assumes inv: "files_inv held k" and p: "CURPROC c k = Inr p" "p < MAX_PROC"
    and r: "sys_Pipe c k = Inr (x, k')"
  shows "files_inv held k'"
proof -
  obtain y k1 where y: "FCB_reserve c 2 k = Inr (y, k1)" using r by (auto simp: sys_Pipe_def bindE_eq_Inr)
  have I: "files_inv held k1" by (rule reserve_inv [OF inv p y])
  show ?thesis
  proof (cases y)
    case None
    with r y I show ?thesis by (simp add: sys_Pipe_def)
  next
    case (Some z)
    obtain fids fcbs where z: "z = (fids, fcbs)" by (cases z)
    obtain q k2 where g: "get_pipe k1 = (q, k2)" by (cases "get_pipe k1")
    from r y Some z g obtain a where k': "k' = upd_fcb (fcbs ! 1) (\<lambda>b. b\<lparr>streamobj := Pipe_obj a, streamfunc := Some Writer_ops\<rparr>)
        (upd_fcb (fcbs ! 0) (\<lambda>b. b\<lparr>streamobj := Pipe_obj a, streamfunc := Some Reader_ops\<rparr>) k2)"
      by (auto simp: sys_Pipe_def bindE_eq_Inr Let_def)
    have "files_inv held k2" using I same_files_upto get_pipe_frame [OF g] by blast
    then show ?thesis unfolding k' by (intro upd_fcb_inv) simp_all
  qed
qed

lemma sys_Socket_inv:
  assumes inv: "files_inv held k" and p: "CURPROC c k = Inr p" "p < MAX_PROC"
    and r: "sys_Socket c prt k = Inr (n, k')"
  shows "files_inv held k'" and "cc k' = cc k"
proof -
  have "files_inv held k' \<and> cc k' = cc k"
  proof (cases "prt < 0 \<or> prt > int MAX_PORT")
    case True
    with r inv show ?thesis by (auto simp: sys_Socket_def)
  next
    case False
    then obtain y k1 where y: "FCB_reserve c 1 k = Inr (y, k1)" using r by (auto simp: sys_Socket_def bindE_eq_Inr)
    have I: "files_inv held k1" by (rule reserve_inv [OF inv p y])
    have c: "cc k1 = cc k" by (rule files_only_sel(1) [OF files_only_reserve [OF y]])
    obtain m k2 where m: "malloc k1 = (m, k2)" by (cases "malloc k1")
    then have k2: "k2 = k1\<lparr>next_addr := next_addr k1 + 1\<rparr>" by (simp add: malloc_def)
    have I2: "files_inv held (k2\<lparr>scbs := s\<rparr>) \<and> files_inv held k2" for s
    proof -
      have "files_inv held (k2\<lparr>scbs := s\<rparr>) = files_inv held k1" "files_inv held k2 = files_inv held k1"
        by (rule files_upto_cong; simp add: k2)+
      with I show ?thesis by simp
    qed
    show ?thesis
    proof (cases y)
      case None
      with r y False I c show ?thesis by (simp add: sys_Socket_def)
    next
      case (Some z)
      with r y False m I2 c k2 show ?thesis
        by (cases m; cases z) (auto simp: sys_Socket_def Let_def intro!: upd_fcb_inv)
    qed
  qed
  then show "files_inv held k'" "cc k' = cc k" by simp_all
qed

lemma upd_conn_frame [simp]: "same_files k (upd_conn q g k1) = same_files k k1"
  by (simp add: same_files_def)

lemma create_pipe_frame: "create_pipe a k = Inr k' \<Longrightarrow> same_files k k'"
proof -
  assume r: "create_pipe a k = Inr k'"
  obtain x k1 where 1: "get_pipe k = (x, k1)" by (cases "get_pipe k")
  obtain y k2 where 2: "get_pipe k1 = (y, k2)" by (cases "get_pipe k1")
  from r 1 2 obtain b where "k' = upd_scb b (\<lambda>s. s\<lparr>send := x, receive := y\<rparr>)
      (upd_scb a (\<lambda>s. s\<lparr>send := y, receive := x\<rparr>) k2)"
    by (auto simp: create_pipe_def Let_def bindE_eq_Inr)
  moreover have "same_files k k2" using get_pipe_frame [OF 1] get_pipe_frame [OF 2] same_files_trans by blast
  ultimately show ?thesis by simp
qed

text \<open>What \<^verbatim>\<open>Accept\<close> does after it has made the new socket leaves the file table alone.\<close>

lemma accept_request_split:
  assumes "accept_request c l k = Inr (n, k')"
  obtains prt k0 fid k2 where "same_files k k0" "cc k0 = cc k"
    "sys_Socket c prt k0 = Inr (fid, k2)" "same_files k2 k'"
proof -
  from assms [unfolded accept_request_def] obtain ls :: scb where l: "(case req_queue ls of
       [] \<Rightarrow> Inl Null_deref
     | q # qs \<Rightarrow>
        (let k1 = upd_scb l (\<lambda>s. s\<lparr>req_queue := qs\<rparr>) k in
         bindE (derefE (conn_reqs k1 q)) (\<lambda>req.
         let cl = csocket req in
         bindE (derefE (scbs k1 cl)) (\<lambda>_.
         bindE (sys_Socket c (int (port ls)) (upd_scb cl (\<lambda>s. s\<lparr>srefcount := 1\<rparr>) k1)) (\<lambda>(fid, k2).
         if fid = NOFILE then
           bindE (on_cc (Cond_Signal (Connected_cv q)) k2) (\<lambda>k3. Inr (NOFILE, k3))
         else
           bindE (get_fcb c fid k2) (\<lambda>f.
           bindE (nonnullE f) (\<lambda>f.
           bindE (as_scb (streamobj (FT k2 f))) (\<lambda>sv.
           let k3 = upd_scb sv (\<lambda>s. s\<lparr>srefcount := 1, stype := PEER, peer := Some cl\<rparr>)
                      (upd_scb cl (\<lambda>s. s\<lparr>stype := PEER, peer := Some sv\<rparr>) k2)
           in bindE (create_pipe sv k3) (\<lambda>k4.
              bindE (on_cc (Cond_Signal (Connected_cv q)) (upd_conn q (\<lambda>r. r\<lparr>accepted := True\<rparr>) k4)) (\<lambda>k5.
              Inr (fid, k5))))))))))) = Inr (n, k')"
    by (rule bindE_elim) (rule that; assumption)
  then obtain q qs where q: "req_queue ls = q # qs" by (cases "req_queue ls") simp_all
  define k1 where "k1 = upd_scb l (\<lambda>s. s\<lparr>req_queue := qs\<rparr>) k"
  from l obtain cl fid k2 where s: "sys_Socket c (int (port ls)) (upd_scb cl (\<lambda>s. s\<lparr>srefcount := 1\<rparr>) k1) = Inr (fid, k2)"
    and rest: "(if fid = NOFILE then
           bindE (on_cc (Cond_Signal (Connected_cv q)) k2) (\<lambda>k3. Inr (NOFILE, k3))
         else
           bindE (get_fcb c fid k2) (\<lambda>f.
           bindE (nonnullE f) (\<lambda>f.
           bindE (as_scb (streamobj (FT k2 f))) (\<lambda>sv.
           let k3 = upd_scb sv (\<lambda>s. s\<lparr>srefcount := 1, stype := PEER, peer := Some cl\<rparr>)
                      (upd_scb cl (\<lambda>s. s\<lparr>stype := PEER, peer := Some sv\<rparr>) k2)
           in bindE (create_pipe sv k3) (\<lambda>k4.
              bindE (on_cc (Cond_Signal (Connected_cv q)) (upd_conn q (\<lambda>r. r\<lparr>accepted := True\<rparr>) k4)) (\<lambda>k5.
              Inr (fid, k5))))))) = Inr (n, k')"
    unfolding q list.case Let_def k1_def [symmetric]
    by (elim bindE_elim) (simp add: k1_def split: prod.splits)
  have "same_files k2 k'"
  proof (cases "fid = NOFILE")
    case True
    with rest obtain k3 where "on_cc (Cond_Signal (Connected_cv q)) k2 = Inr k3" "k' = k3"
      by (auto simp: bindE_eq_Inr)
    then show ?thesis by (simp add: on_cc_frame)
  next
    case False
    with rest obtain sv k4 where c: "create_pipe sv (upd_scb sv (\<lambda>s. s\<lparr>srefcount := 1, stype := PEER, peer := Some cl\<rparr>)
          (upd_scb cl (\<lambda>s. s\<lparr>stype := PEER, peer := Some sv\<rparr>) k2)) = Inr k4"
        "on_cc (Cond_Signal (Connected_cv q)) (upd_conn q (\<lambda>r. r\<lparr>accepted := True\<rparr>) k4) = Inr k'"
      by (auto simp: bindE_eq_Inr Let_def)
    define k3 where "k3 = upd_scb sv (\<lambda>s. s\<lparr>srefcount := 1, stype := PEER, peer := Some cl\<rparr>)
          (upd_scb cl (\<lambda>s. s\<lparr>stype := PEER, peer := Some sv\<rparr>) k2)"
    define k4' where "k4' = upd_conn q (\<lambda>r. r\<lparr>accepted := True\<rparr>) k4"
    have "same_files k2 k3" by (simp add: k3_def)
    moreover have "same_files k3 k4" using c(1) unfolding k3_def [symmetric] by (rule create_pipe_frame)
    moreover have "same_files k4 k4'" by (simp add: k4'_def)
    moreover have "same_files k4' k'" using c(2) unfolding k4'_def [symmetric] by (rule on_cc_frame)
    ultimately show ?thesis by (simp add: same_files_def)
  qed
  with s that [of "upd_scb cl (\<lambda>s. s\<lparr>srefcount := 1\<rparr>) k1" "int (port ls)" fid k2] show ?thesis by (simp add: k1_def)
qed

lemma accept_request_inv:
  assumes inv: "files_inv held k" and p: "CURPROC c k = Inr p" "p < MAX_PROC"
    and r: "accept_request c l k = Inr (n, k')"
  shows "files_inv held k'"
proof -
  from r obtain prt k0 fid k2 where s: "same_files k k0" "cc k0 = cc k"
      "sys_Socket c prt k0 = Inr (fid, k2)" "same_files k2 k'"
    by (rule accept_request_split)
  have "files_inv held k0" using inv same_files_upto [OF s(1)] by simp
  moreover have "CURPROC c k0 = Inr p" using p(1) CURPROC_cong [OF s(2)] by simp
  ultimately have "files_inv held k2" using sys_Socket_inv(1) p(2) s(3) by blast
  with same_files_upto [OF s(4)] show ?thesis by simp
qed

lemma sys_Accept_inv:
  assumes "files_inv held k" "CURPROC c k = Inr p" "p < MAX_PROC"
  shows "sys_Accept c lsock k = Inr (out, k') \<Longrightarrow> files_inv held k'"
    and "sys_Accept_resume c l k = Inr (n, k') \<Longrightarrow> files_inv held k'"
proof -
  show "files_inv held k'" if r: "sys_Accept_resume c l k = Inr (n, k')"
  proof -
    obtain s where s: "scbs k l = Some s" using r by (auto simp: sys_Accept_resume_def bindE_eq_Inr)
    show ?thesis using r s assms accept_request_inv [OF assms]
      by (cases "srefcount s = 0") (auto simp: sys_Accept_resume_def)
  qed
  show "files_inv held k'" if r: "sys_Accept c lsock k = Inr (out, k')"
  proof -
    obtain x where x: "accept_listener c lsock k = Inr x" using r by (auto simp: sys_Accept_def bindE_eq_Inr)
    show ?thesis
    proof (cases x)
      case None
      with r x assms show ?thesis by (simp add: sys_Accept_def)
    next
      case (Some l)
      with r x obtain s where s: "scbs k l = Some s" by (auto simp: sys_Accept_def bindE_eq_Inr)
      show ?thesis
      proof (cases "req_queue s = []")
        case True
        with r x Some s assms show ?thesis by (simp add: sys_Accept_def)
      next
        case False
        with r x Some s obtain n where "accept_request c l k = Inr (n, k')"
          by (auto simp: sys_Accept_def bindE_eq_Inr)
        then show ?thesis by (rule accept_request_inv [OF assms])
      qed
    qed
  qed
qed

lemma sys_Listen_frame [stream_frame]: "sys_Listen c sock k = Inr (n, k') \<Longrightarrow> same_files k k'"
proof (cases "0 \<le> sock \<and> sock \<le> int MAX_FILEID - 1")
  case True
  assume "sys_Listen c sock k = Inr (n, k')"
  from this [unfolded sys_Listen_def if_P [OF True]] obtain x where
    "(case x of None \<Rightarrow> Inr (-1, k) | Some a \<Rightarrow> bindE (derefE (scbs k a)) (\<lambda>s.
            if port s \<noteq> 0 \<and> PortMap k (port s) = None \<and> srefcount s = 0 then
              (let k1 = upd_scb a (\<lambda>s. s\<lparr>req_queue := [], srefcount := srefcount s + 1, stype := LISTENER\<rparr>)
                          (cond_init (Server_requests a) k)
               in Inr (0, k1\<lparr>PortMap := (PortMap k1)(port s \<mapsto> a)\<rparr>))
            else Inr (-1, k))) = Inr (n, k')"
    by (rule bindE_elim)
  then show ?thesis
    by (cases x) (auto simp: bindE_eq_Inr Let_def cond_init_def same_files_def split: if_split_asm)
next
  case False
  assume "sys_Listen c sock k = Inr (n, k')"
  from this [unfolded sys_Listen_def if_not_P [OF False]] show ?thesis by simp
qed

lemma connect_loop_frame: "connect_loop q t k = Inr (out, k') \<Longrightarrow> k' = k"
  by (auto simp: connect_loop_def bindE_eq_Inr)

lemma sys_Connect_resume_frame [stream_frame]: "sys_Connect_resume q t flag k = Inr (out, k') \<Longrightarrow> same_files k k'"
  by (auto simp: sys_Connect_resume_def bindE_eq_Inr split: if_split_asm dest: connect_loop_frame)

end
