(* ===== verification/Proc.thy ===== *)
theory Proc
  imports Refcount
begin

text \<open>
  The process table and the system calls on processes, \<^verbatim>\<open>src/kernel_proc.c\<close>, with the creation
  of process threads. A PCB pointer is an index of \<^verbatim>\<open>PT\<close>; the free list runs through the field
  \<open>parent\<close>. A node of \<open>children_list\<close> or \<open>exited_list\<close> is the index of the process it is in.
\<close>

section \<open>The process table\<close>

definition get_pcb :: "nat \<Rightarrow> kernel \<Rightarrow> nat option" where
  "get_pcb pid k = (if pstate (PT k pid) = FREE then None else Some pid)"

definition get_pid :: "nat option \<Rightarrow> int" where
  "get_pid p = (case p of None \<Rightarrow> NOPROC | Some i \<Rightarrow> int i)"

definition initialize_PCB :: "nat \<Rightarrow> kernel \<Rightarrow> kernel" where
  "initialize_PCB p k =
     cond_init (Child_exit p) (upd_pcb p (\<lambda>b. b\<lparr>pstate := FREE,
       FIDT := (\<lambda>i. if i < MAX_FILEID then None else FIDT b i),
       children_list := [], exited_list := [], ptcb_list := []\<rparr>)
       (k\<lparr>cc := Mutex_Unlock p (cc k)\<rparr>))"

text \<open>The mutex \<^verbatim>\<open>thread_mx\<close> of process \<open>p\<close> is the mutex \<open>p\<close>; \<^verbatim>\<open>MUTEX_INIT\<close> is its unlocked value.\<close>

definition push_free :: "nat \<Rightarrow> kernel \<Rightarrow> kernel" where
  "push_free p k = (upd_pcb p (\<lambda>b. b\<lparr>parent := pcb_freelist k\<rparr>) k)\<lparr>pcb_freelist := Some p\<rparr>"

definition acquire_PCB :: "kernel \<Rightarrow> nat option \<times> kernel" where
  "acquire_PCB k =
     (case pcb_freelist k of
        None \<Rightarrow> (None, k)
      | Some p \<Rightarrow>
          (let k1 = upd_pcb p (\<lambda>b. b\<lparr>pstate := ALIVE\<rparr>) k
           in (Some p, k1\<lparr>pcb_freelist := parent (PT k1 p), process_count := process_count k1 + 1\<rparr>)))"

definition release_PCB :: "nat \<Rightarrow> kernel \<Rightarrow> kernel" where
  "release_PCB p k =
     (let k1 = upd_pcb p (\<lambda>b. b\<lparr>pstate := FREE, parent := pcb_freelist k\<rparr>) k
      in k1\<lparr>pcb_freelist := Some p, process_count := process_count k1 - 1\<rparr>)"

section \<open>Creating a process\<close>

text \<open>\<^verbatim>\<open>Create_PTCB\<close>; without memory, \<^verbatim>\<open>CHECK\<close> aborts.\<close>

definition Create_PTCB :: "nat \<Rightarrow> kernel \<Rightarrow> (nat \<times> kernel) res" where
  "Create_PTCB p k =
     (case malloc k of
        (None, _) \<Rightarrow> Inl Fatal
      | (Some a, k1) \<Rightarrow>
          Inr (a, cond_init (Ptcb_join a) (cond_init (Ptcb_waiting a)
            (k1\<lparr>ptcbs := (ptcbs k1)(a \<mapsto> \<lparr>powner = p, pthread = None, pexitval = 0, waiting_threads = 0,
               detached = False, main_task = None, argl = 0, args = No_args\<rparr>)\<rparr>))))"

text \<open>
  The functions that \<^verbatim>\<open>spawn_thread\<close> is given. \<open>old\<close> is what the memory of the new TCB held before.
\<close>

definition START_MAIN_THREAD :: nat where "START_MAIN_THREAD = 0"
definition START_THREAD_FUNC :: nat where "START_THREAD_FUNC = 1"

definition spawn :: "tcb \<Rightarrow> nat \<Rightarrow> nat \<Rightarrow> kernel \<Rightarrow> (tcbp \<times> kernel) res" where
  "spawn old p func k =
     (case malloc k of
        (None, _) \<Rightarrow> Inl Fatal
      | (Some a, k1) \<Rightarrow>
          (let (t, s) = spawn_thread a old (Some p) func (sch (cc k1))
           in Inr (t, k1\<lparr>cc := (cc k1)\<lparr>sch := s\<rparr>\<rparr>)))"

definition on_sch :: "(sched \<Rightarrow> ('a \<times> sched) res) \<Rightarrow> kernel \<Rightarrow> ('a \<times> kernel) res" where
  "on_sch f k = bindE (f (sch (cc k))) (\<lambda>(x, s). Inr (x, k\<lparr>cc := (cc k)\<lparr>sch := s\<rparr>\<rparr>))"

definition set_owner_ptcb :: "tcbp \<Rightarrow> nat \<Rightarrow> kernel \<Rightarrow> kernel" where
  "set_owner_ptcb t a k =
     k\<lparr>cc := (cc k)\<lparr>sch := upd_tcb t (\<lambda>x. x\<lparr>owner_ptcb := Some a\<rparr>) (sch (cc k))\<rparr>\<rparr>"

text \<open>The file descriptors of the parent, shared with the child.\<close>

definition inherit_fid :: "nat \<Rightarrow> nat \<Rightarrow> nat \<Rightarrow> kernel \<Rightarrow> kernel" where
  "inherit_fid par p i k =
     (let k1 = set_fid p i (FIDT (PT k par) i) k
      in case FIDT (PT k1 p) i of None \<Rightarrow> k1 | Some f \<Rightarrow> FCB_incref f k1)"

definition adopt :: "nat \<Rightarrow> nat \<Rightarrow> kernel \<Rightarrow> kernel" where
  "adopt c p k =
     upd_pcb c (\<lambda>b. b\<lparr>children_list := p # children_list b\<rparr>) (upd_pcb p (\<lambda>b. b\<lparr>parent := Some c\<rparr>) k)"

text \<open>
  The copy of the arguments. \<^verbatim>\<open>malloc(argl)\<close> of a negative size, or without memory, is null, and
  \<^verbatim>\<open>memcpy\<close> then stores to a null pointer.
\<close>

definition copy_args :: "int \<Rightarrow> (nat \<Rightarrow> byte) option \<Rightarrow> kernel \<Rightarrow> (argptr \<times> kernel) res" where
  "copy_args n buf k =
     (case buf of
        None \<Rightarrow> Inr (No_args, k)
      | Some b \<Rightarrow>
          (case malloc k of
             (None, _) \<Rightarrow> Inl Null_deref
           | (Some _, k1) \<Rightarrow> if n < 0 then Inl Null_deref else Inr (Owned (map b [0..<nat n]), k1)))"

text \<open>\<^verbatim>\<open>sys_Exec\<close> from the creation of the PTCB on, for the new process \<open>p\<close>.\<close>

definition exec_thread :: "tcb \<Rightarrow> nat \<Rightarrow> nat option \<Rightarrow> int \<Rightarrow> (nat \<Rightarrow> byte) option \<Rightarrow> kernel \<Rightarrow> kernel res" where
  "exec_thread old p call n buf k =
     bindE (Create_PTCB p k) (\<lambda>(a, k1).
     bindE (copy_args n buf k1) (\<lambda>(x, k2).
     let k3 = upd_ptcb a (\<lambda>t. t\<lparr>main_task := call, argl := n, detached := True, args := x\<rparr>)
                (upd_pcb p (\<lambda>b. b\<lparr>main_thread := Some a\<rparr>) k2)
     in if call \<noteq> None then
          bindE (spawn old p START_MAIN_THREAD k3) (\<lambda>(t, k4).
          let k5 = set_owner_ptcb t a (upd_pcb p (\<lambda>b. b\<lparr>thread_count := 1\<rparr>)
                     (upd_ptcb a (\<lambda>x. x\<lparr>pthread := Some t\<rparr>) k4))
          in bindE (on_sch (wakeup t) k5) (\<lambda>(_, k6). Inr k6))
        else Inr k3))"

definition exec_parent :: "nat \<Rightarrow> nat \<Rightarrow> kernel \<Rightarrow> kernel res" where
  "exec_parent c p k =
     (if p \<le> 1 then Inr (upd_pcb p (\<lambda>b. b\<lparr>parent := None\<rparr>) k)
      else bindE (CURPROC c k) (\<lambda>par.
        Inr (fold (inherit_fid par p) [0..<MAX_FILEID] (adopt par p k))))"

definition sys_Exec :: "tcb \<Rightarrow> nat \<Rightarrow> nat option \<Rightarrow> int \<Rightarrow> (nat \<Rightarrow> byte) option \<Rightarrow> kernel \<Rightarrow> (int \<times> kernel) res" where
  "sys_Exec old c call n buf k =
     (case acquire_PCB k of
        (None, k1) \<Rightarrow> Inr (get_pid None, k1)
      | (Some p, k1) \<Rightarrow>
          bindE (exec_parent c p k1) (\<lambda>k2.
          bindE (exec_thread old p call n buf k2) (\<lambda>k3. Inr (get_pid (Some p), k3))))"

section \<open>Entering the kernel\<close>

text \<open>
  The function that the macro \<^verbatim>\<open>SYSCALL\<close> of \<^verbatim>\<open>src/kernel_sys.c\<close> makes for a call that does not wait: nothing if the caller
  went to sleep at the kernel lock, and else the result of the call. \<open>w\<close> is where the caller's
  waiter would be.
\<close>

definition SYSCALL :: "nat \<Rightarrow> nat \<Rightarrow> (kernel \<Rightarrow> ('a \<times> kernel) res) \<Rightarrow> kernel \<Rightarrow> ('a option \<times> kernel) res" where
  "SYSCALL c w call k =
     bindE (kernel_lock_round c w (cc k)) (\<lambda>(locked, s).
     if \<not> locked then Inr (None, k\<lparr>cc := s\<rparr>)
     else bindE (call (k\<lparr>cc := s\<rparr>)) (\<lambda>(x, k1).
       bindE (on_cc kernel_unlock k1) (\<lambda>k2. Inr (Some x, k2))))"

text \<open>\<^verbatim>\<open>Exec\<close> cannot sleep when processes are initialized, as no thread runs yet.\<close>

definition initialize_processes :: "tcb \<Rightarrow> nat \<Rightarrow> nat \<Rightarrow> kernel \<Rightarrow> kernel res" where
  "initialize_processes old c w k =
     (let k1 = fold initialize_PCB [0..<MAX_PROC] k;
          k2 = fold push_free (rev [0..<MAX_PROC]) (k1\<lparr>pcb_freelist := None\<rparr>)
      in bindE (SYSCALL c w (sys_Exec old c None 0 None) (k2\<lparr>process_count := 0\<rparr>)) (\<lambda>(pid, k3).
         case pid of
           None \<Rightarrow> Inl Null_deref
         | Some p \<Rightarrow> if p \<noteq> 0 then Inl Fatal else Inr k3))"

section \<open>Process ids\<close>

definition sys_GetPid :: "nat \<Rightarrow> kernel \<Rightarrow> int res" where
  "sys_GetPid c k = bindE (CURPROC c k) (\<lambda>p. Inr (get_pid (Some p)))"

definition sys_GetPPid :: "nat \<Rightarrow> kernel \<Rightarrow> int res" where
  "sys_GetPPid c k = bindE (CURPROC c k) (\<lambda>p. Inr (get_pid (parent (PT k p))))"

section \<open>Waiting for children\<close>

text \<open>\<^verbatim>\<open>rlist_remove\<close> takes the nodes of \<open>p\<close> out of whichever lists they are on.\<close>

definition unlink_child :: "nat \<Rightarrow> kernel \<Rightarrow> kernel" where
  "unlink_child p k = k\<lparr>PT := (\<lambda>q. (PT k q)\<lparr>children_list := removeAll p (children_list (PT k q)),
     exited_list := removeAll p (exited_list (PT k q))\<rparr>)\<rparr>"

text \<open>The result is the exit value, which is stored if the caller gave a place for it.\<close>

definition cleanup_zombie :: "nat \<Rightarrow> kernel \<Rightarrow> int \<times> kernel" where
  "cleanup_zombie p k = (exitval (PT k p), release_PCB p (unlink_child p k))"

text \<open>What a call of \<^verbatim>\<open>WaitChild\<close> returns: a process id, and the exit value if it reaped a child.\<close>

type_synonym wait_result = "int \<times> int option"

definition reap :: "nat \<Rightarrow> kernel \<Rightarrow> wait_result \<times> kernel" where
  "reap child k = (let (v, k1) = cleanup_zombie child k in ((get_pid (Some child), Some v), k1))"

text \<open>The loop of \<^verbatim>\<open>wait_for_specific_child\<close> and what follows it.\<close>

definition wait_specific_loop :: "nat \<Rightarrow> nat \<Rightarrow> kernel \<Rightarrow> ((wait_result, nat \<times> nat option) outcome \<times> kernel) res" where
  "wait_specific_loop par child k =
     (if pstate (PT k child) = ALIVE then
        Inr (Wait (Child_exit par) SCHED_USER NO_TIMEOUT (par, Some child), k)
      else (let (r, k1) = reap child k in Inr (Done r, k1)))"

definition wait_for_specific_child :: "nat \<Rightarrow> int \<Rightarrow> kernel \<Rightarrow> ((wait_result, nat \<times> nat option) outcome \<times> kernel) res" where
  "wait_for_specific_child c cpid k =
     (if cpid < 0 \<or> cpid \<ge> int MAX_PROC then Inr (Done (NOPROC, None), k)
      else bindE (CURPROC c k) (\<lambda>par.
        case get_pcb (nat cpid) k of
          None \<Rightarrow> Inr (Done (NOPROC, None), k)
        | Some child \<Rightarrow>
            if parent (PT k child) \<noteq> Some par then Inr (Done (NOPROC, None), k)
            else wait_specific_loop par child k))"

definition wait_any_loop :: "nat \<Rightarrow> kernel \<Rightarrow> ((wait_result, nat \<times> nat option) outcome \<times> kernel) res" where
  "wait_any_loop par k =
     (case exited_list (PT k par) of
        [] \<Rightarrow> Inr (Wait (Child_exit par) SCHED_USER NO_TIMEOUT (par, None), k)
      | child # _ \<Rightarrow>
          bindE (assertE (pstate (PT k child) = ZOMBIE)) (\<lambda>_.
          let (r, k1) = reap child k in Inr (Done r, k1)))"

definition wait_for_any_child :: "nat \<Rightarrow> kernel \<Rightarrow> ((wait_result, nat \<times> nat option) outcome \<times> kernel) res" where
  "wait_for_any_child c k =
     bindE (CURPROC c k) (\<lambda>par.
     if children_list (PT k par) = [] then Inr (Done (NOPROC, None), k)
     else wait_any_loop par k)"

definition sys_WaitChild :: "nat \<Rightarrow> int \<Rightarrow> kernel \<Rightarrow> ((wait_result, nat \<times> nat option) outcome \<times> kernel) res" where
  "sys_WaitChild c cpid k =
     (if cpid \<noteq> NOPROC then wait_for_specific_child c cpid k else wait_for_any_child c k)"

text \<open>Where a call that waited goes on.\<close>

definition sys_WaitChild_resume :: "nat \<times> nat option \<Rightarrow> kernel \<Rightarrow> ((wait_result, nat \<times> nat option) outcome \<times> kernel) res" where
  "sys_WaitChild_resume = (\<lambda>(par, child) k. case child of
     Some q \<Rightarrow> wait_specific_loop par q k | None \<Rightarrow> wait_any_loop par k)"

section \<open>Exit\<close>

text \<open>\<^verbatim>\<open>kernel_broadcast\<close> and the final \<^verbatim>\<open>kernel_sleep\<close>, up to the switch to another thread.\<close>

definition k_broadcast :: "cvname \<Rightarrow> kernel \<Rightarrow> kernel res" where
  "k_broadcast cv k = on_cc (kernel_broadcast cv) k"

definition k_sleep :: "nat \<Rightarrow> kernel \<Rightarrow> kernel res" where
  "k_sleep c k = on_cc (kernel_sleep_enter c EXITED) k"

definition free_args :: "nat \<Rightarrow> kernel \<Rightarrow> kernel res" where
  "free_args p k =
     bindE (nonnullE (main_thread (PT k p))) (\<lambda>a.
     bindE (derefE (ptcbs k a)) (\<lambda>t.
     Inr (if args t \<noteq> No_args then upd_ptcb a (\<lambda>t. t\<lparr>args := No_args\<rparr>) k else k)))"

text \<open>One round of the loop over \<^verbatim>\<open>FIDT\<close>.\<close>

definition close_fid :: "nat \<Rightarrow> nat \<Rightarrow> nat \<Rightarrow> kernel res \<Rightarrow> kernel res" where
  "close_fid c p i r = bindE r (\<lambda>k.
     case FIDT (PT k p) i of
       None \<Rightarrow> Inr k
     | Some f \<Rightarrow> bindE (FCB_decref c f k) (\<lambda>(_, k1). Inr (set_fid p i None k1)))"

definition close_all :: "nat \<Rightarrow> nat \<Rightarrow> kernel \<Rightarrow> kernel res" where
  "close_all c p k = fold (close_fid c p) [0..<MAX_FILEID] (Inr k)"

text \<open>The loop that gives the children away; the first argument is the list of the children left.\<close>

fun reparent_loop :: "nat list \<Rightarrow> nat \<Rightarrow> nat option \<Rightarrow> kernel \<Rightarrow> kernel res" where
  "reparent_loop [] p init k = Inr k"
| "reparent_loop (q # qs) p init k =
     (let k1 = upd_pcb q (\<lambda>b. b\<lparr>parent := init\<rparr>) (upd_pcb p (\<lambda>b. b\<lparr>children_list := qs\<rparr>) k)
      in bindE (nonnullE init) (\<lambda>i.
         reparent_loop qs p init (upd_pcb i (\<lambda>b. b\<lparr>children_list := q # children_list b\<rparr>) k1)))"

definition give_exited :: "nat \<Rightarrow> nat option \<Rightarrow> kernel \<Rightarrow> kernel res" where
  "give_exited p init k =
     (if exited_list (PT k p) = [] then Inr k
      else bindE (nonnullE init) (\<lambda>i.
        let xs = exited_list (PT k p);
            k1 = upd_pcb p (\<lambda>b. b\<lparr>exited_list := []\<rparr>) (upd_pcb i (\<lambda>b. b\<lparr>exited_list := exited_list b @ xs\<rparr>) k)
        in k_broadcast (Child_exit i) k1))"

definition tell_parent :: "nat \<Rightarrow> kernel \<Rightarrow> kernel res" where
  "tell_parent p k =
     (case parent (PT k p) of
        None \<Rightarrow> Inr k
      | Some q \<Rightarrow> k_broadcast (Child_exit q) (upd_pcb q (\<lambda>b. b\<lparr>exited_list := p # exited_list b\<rparr>) k))"

definition become_zombie :: "nat \<Rightarrow> int \<Rightarrow> kernel \<Rightarrow> kernel res" where
  "become_zombie p v k =
     bindE (nonnullE (main_thread (PT k p))) (\<lambda>a.
     Inr (upd_pcb p (\<lambda>b. b\<lparr>main_thread := None, pstate := ZOMBIE, exitval := v\<rparr>)
           (k\<lparr>ptcbs := (ptcbs k)(a := None)\<rparr>)))"

text \<open>\<^verbatim>\<open>sys_Exit\<close> after the wait of the initial process.\<close>

definition exit_process :: "nat \<Rightarrow> int \<Rightarrow> kernel \<Rightarrow> kernel res" where
  "exit_process c v k =
     bindE (CURPROC c k) (\<lambda>p.
     bindE (free_args p k) (\<lambda>k1.
     bindE (close_all c p k1) (\<lambda>k2.
     let init = get_pcb 1 k2 in
     bindE (reparent_loop (children_list (PT k2 p)) p init k2) (\<lambda>k3.
     bindE (give_exited p init k3) (\<lambda>k4.
     bindE (tell_parent p k4) (\<lambda>k5.
     bindE (become_zombie p v k5) (k_sleep c)))))))"

text \<open>
  The loop of the initial process: it reaps until there is no child left, or waits. A round that
  does not wait takes a process out of the table, so \<open>process_count\<close> rounds are enough.
\<close>

fun exit_loop :: "nat \<Rightarrow> nat \<Rightarrow> int \<Rightarrow> (wait_result, nat \<times> nat option) outcome \<times> kernel \<Rightarrow>
    ((unit, nat \<times> nat option) outcome \<times> kernel) res" where
  "exit_loop n c v (Wait cv cause t pc, k) = Inr (Wait cv cause t pc, k)"
| "exit_loop n c v (Done (pid, _), k) =
     (if pid = NOPROC then bindE (exit_process c v k) (\<lambda>k1. Inr (Done (), k1))
      else case n of
        0 \<Rightarrow> Inl No_return
      | Suc m \<Rightarrow> bindE (sys_WaitChild c NOPROC k) (exit_loop m c v))"

definition sys_Exit :: "nat \<Rightarrow> int \<Rightarrow> kernel \<Rightarrow> ((unit, nat \<times> nat option) outcome \<times> kernel) res" where
  "sys_Exit c v k =
     bindE (sys_GetPid c k) (\<lambda>pid.
     if pid = 1 then bindE (sys_WaitChild c NOPROC k) (exit_loop (unat (process_count k)) c v)
     else bindE (exit_process c v k) (\<lambda>k1. Inr (Done (), k1)))"

definition sys_Exit_resume :: "nat \<Rightarrow> int \<Rightarrow> nat \<times> nat option \<Rightarrow> kernel \<Rightarrow>
    ((unit, nat \<times> nat option) outcome \<times> kernel) res" where
  "sys_Exit_resume c v pc k =
     bindE (sys_WaitChild_resume pc k) (exit_loop (unat (process_count k)) c v)"

section \<open>Information streams\<close>

text \<open>
  The copy of the arguments into the 128 bytes of the record: \<^verbatim>\<open>memcpy\<close> of \<open>n\<close> bytes. A longer
  argument is stored past the end of the array. What lies at an address that the user gave is \<open>user\<close>.
\<close>

definition info_args_of :: "(nat \<Rightarrow> byte list) \<Rightarrow> argptr \<Rightarrow> int \<Rightarrow> byte list res" where
  "info_args_of user x n =
     (if n < 0 \<or> n > int PROCINFO_MAX_ARGS_SIZE then Inl Out_of_bounds
      else case x of
        No_args \<Rightarrow> if n = 0 then Inr (replicate PROCINFO_MAX_ARGS_SIZE 0) else Inl Null_deref
      | Owned bs \<Rightarrow> if length bs < nat n then Inl Out_of_bounds
          else Inr (take (nat n) bs @ replicate (PROCINFO_MAX_ARGS_SIZE - nat n) 0)
      | User_args a \<Rightarrow> Inr (take (nat n) (user a) @ replicate (PROCINFO_MAX_ARGS_SIZE - nat n) 0))"

definition info_of_pcb :: "(nat \<Rightarrow> byte list) \<Rightarrow> nat \<Rightarrow> kernel \<Rightarrow> procinfo res" where
  "info_of_pcb user i k =
     (let b = PT k i in
      bindE (nonnullE (main_thread b)) (\<lambda>a.
      bindE (derefE (ptcbs k a)) (\<lambda>t.
      bindE (info_args_of user (args t) (argl t)) (\<lambda>bs.
      Inr \<lparr>info_pid = int i, info_ppid = (case parent b of None \<Rightarrow> 0 | Some q \<Rightarrow> int q),
           info_alive = (pstate b = ALIVE), info_thread_count = thread_count b,
           info_main_task = main_task t, info_argl = argl t, info_args = bs\<rparr>))))"

text \<open>The loop over the process table; \<open>acc\<close> is the part of the table filled so far.\<close>

fun info_loop :: "(nat \<Rightarrow> byte list) \<Rightarrow> nat list \<Rightarrow> nat \<Rightarrow> procinfo list \<Rightarrow> kernel \<Rightarrow> procinfo list res" where
  "info_loop user [] count acc k = Inr acc"
| "info_loop user (i # is) count acc k =
     (if length acc = count \<or> length acc > unat (process_count k) then Inr acc
      else if pstate (PT k i) \<noteq> FREE then
        bindE (info_of_pcb user i k) (\<lambda>x. info_loop user is count (acc @ [x]) k)
      else info_loop user is count acc k)"

text \<open>
  \<^verbatim>\<open>sys_OpenInfo\<close>; the table has one cell per process, of which the loop fills \<open>index\<close>.
  \<open>blank\<close> is a cell as \<^verbatim>\<open>memset\<close> leaves it.
\<close>

definition blank :: procinfo where
  "blank = \<lparr>info_pid = 0, info_ppid = 0, info_alive = False, info_thread_count = 0, info_main_task = None,
     info_argl = 0, info_args = replicate PROCINFO_MAX_ARGS_SIZE 0\<rparr>"

definition sys_OpenInfo :: "(nat \<Rightarrow> byte list) \<Rightarrow> nat \<Rightarrow> kernel \<Rightarrow> (int \<times> kernel) res" where
  "sys_OpenInfo user c k =
     bindE (FCB_reserve c 1 k) (\<lambda>(r, k1). case r of
       None \<Rightarrow> Inr (NOFILE, k1)
     | Some (fids, fcbs) \<Rightarrow>
         (let count = unat (process_count k1) in
          case malloc k1 of
            (None, k2) \<Rightarrow> Inr (NOFILE, k2)
          | (Some a, k2) \<Rightarrow>
             (case malloc k2 of
                (None, k3) \<Rightarrow> Inr (NOFILE, k3)
              | (Some _, k3) \<Rightarrow>
                  bindE (info_loop user [0..<MAX_PROC] count [] k3) (\<lambda>tab.
                  let info = \<lparr>info_table = tab @ replicate (count - length tab) blank,
                              info_index = of_nat (length tab)\<rparr>
                  in Inr (int (hd fids), upd_fcb (hd fcbs)
                       (\<lambda>b. b\<lparr>streamobj := Info_obj a, streamfunc := Some Info_ops\<rparr>)
                       (k3\<lparr>infos := (infos k3)(a \<mapsto> info)\<rparr>))))))"

end
