(* ===== verification/ProcTree.thy ===== *)
theory ProcTree
  imports Proc
begin

text \<open>
  The process table is well formed: the free list runs through the free blocks, the count of
  processes is right, and parents and lists of children agree. \<^verbatim>\<open>Exec\<close>, \<^verbatim>\<open>WaitChild\<close> and \<^verbatim>\<open>Exit\<close>
  keep this.
\<close>

section \<open>The invariant\<close>

definition live :: "kernel \<Rightarrow> nat \<Rightarrow> bool" where
  "live k p \<longleftrightarrow> p < MAX_PROC \<and> pstate (PT k p) \<noteq> FREE"

text \<open>The free list is linked through \<open>parent\<close>.\<close>

fun free_chain :: "kernel \<Rightarrow> nat option \<Rightarrow> nat list \<Rightarrow> bool" where
  "free_chain k h [] \<longleftrightarrow> h = None"
| "free_chain k h (p # ps) \<longleftrightarrow> h = Some p \<and> free_chain k (parent (PT k p)) ps"

definition free_pcbs :: "kernel \<Rightarrow> nat list \<Rightarrow> bool" where
  "free_pcbs k ps \<longleftrightarrow> free_chain k (pcb_freelist k) ps \<and> distinct ps"

definition tree_inv :: "kernel \<Rightarrow> bool" where
  "tree_inv k \<longleftrightarrow>
     (\<forall>p q. q \<in> set (children_list (PT k p)) \<longleftrightarrow> live k q \<and> parent (PT k q) = Some p) \<and>
     (\<forall>p q. live k q \<longrightarrow> parent (PT k q) = Some p \<longrightarrow> p < MAX_PROC \<and> p \<noteq> q \<and> pstate (PT k p) = ALIVE) \<and>
     (\<forall>q. live k q \<longrightarrow> (parent (PT k q) = None \<longleftrightarrow> q \<le> 1)) \<and>
     (\<forall>p. distinct (children_list (PT k p)) \<and> distinct (exited_list (PT k p))) \<and>
     (\<forall>p. set (exited_list (PT k p)) = {q \<in> set (children_list (PT k p)). pstate (PT k q) = ZOMBIE}) \<and>
     (\<exists>ps. free_pcbs k ps \<and> set ps = {p. p < MAX_PROC \<and> pstate (PT k p) = FREE}) \<and>
     unat (process_count k) = card {p. live k p}"

lemma tree_invD:
  assumes "tree_inv k"
  shows "q \<in> set (children_list (PT k p)) \<longleftrightarrow> live k q \<and> parent (PT k q) = Some p"
    and "live k q \<Longrightarrow> parent (PT k q) = Some p \<Longrightarrow> p < MAX_PROC \<and> p \<noteq> q \<and> pstate (PT k p) = ALIVE"
    and "live k q \<Longrightarrow> parent (PT k q) = None \<longleftrightarrow> q \<le> 1"
    and "distinct (children_list (PT k p))" and "distinct (exited_list (PT k p))"
    and "set (exited_list (PT k p)) = {q \<in> set (children_list (PT k p)). pstate (PT k q) = ZOMBIE}"
    and "\<exists>ps. free_pcbs k ps \<and> set ps = {p. p < MAX_PROC \<and> pstate (PT k p) = FREE}"
    and "unat (process_count k) = card {p. live k p}"
  using assms unfolding tree_inv_def by (blast, blast, blast, blast, blast, blast, blast, blast)

lemma tree_invI:
  assumes "\<And>p q. q \<in> set (children_list (PT k p)) \<longleftrightarrow> live k q \<and> parent (PT k q) = Some p"
    and "\<And>p q. live k q \<Longrightarrow> parent (PT k q) = Some p \<Longrightarrow> p < MAX_PROC \<and> p \<noteq> q \<and> pstate (PT k p) = ALIVE"
    and "\<And>q. live k q \<Longrightarrow> parent (PT k q) = None \<longleftrightarrow> q \<le> 1"
    and "\<And>p. distinct (children_list (PT k p))" and "\<And>p. distinct (exited_list (PT k p))"
    and "\<And>p. set (exited_list (PT k p)) = {q \<in> set (children_list (PT k p)). pstate (PT k q) = ZOMBIE}"
    and "\<exists>ps. free_pcbs k ps \<and> set ps = {p. p < MAX_PROC \<and> pstate (PT k p) = FREE}"
    and "unat (process_count k) = card {p. live k p}"
  shows "tree_inv k"
  unfolding tree_inv_def using assms by blast

lemma finite_live [simp]: "finite {p. live k p}"
  by (rule finite_subset [of _ "{..<MAX_PROC}"]) (auto simp: live_def)

lemma live_count: "card {p. live k p} \<le> MAX_PROC"
proof -
  have "card {p. live k p} \<le> card {..<MAX_PROC}" by (rule card_mono) (auto simp: live_def)
  then show ?thesis by simp
qed

text \<open>What the invariant depends on.\<close>

definition same_tree :: "kernel \<Rightarrow> kernel \<Rightarrow> bool" where
  "same_tree k k' \<longleftrightarrow> (\<forall>p. pstate (PT k' p) = pstate (PT k p) \<and> parent (PT k' p) = parent (PT k p) \<and>
     children_list (PT k' p) = children_list (PT k p) \<and> exited_list (PT k' p) = exited_list (PT k p)) \<and>
     pcb_freelist k' = pcb_freelist k \<and> process_count k' = process_count k"

lemma same_tree_refl [simp]: "same_tree k k"
  by (simp add: same_tree_def)

lemma same_tree_trans [trans]: "same_tree k k1 \<Longrightarrow> same_tree k1 k2 \<Longrightarrow> same_tree k k2"
  by (simp add: same_tree_def)

lemma free_chain_cong:
  "(\<And>p. p \<in> set ps \<Longrightarrow> parent (PT k' p) = parent (PT k p)) \<Longrightarrow> free_chain k' h ps = free_chain k h ps"
  by (induction ps arbitrary: h) auto

lemma same_tree_inv:
  assumes "same_tree k k'"
  shows "tree_inv k' = tree_inv k"
proof -
  have l: "live k' = live k" using assms by (simp add: same_tree_def live_def fun_eq_iff)
  have f: "free_pcbs k' = free_pcbs k"
  proof (rule ext)
    fix ps
    have "free_chain k' (pcb_freelist k) ps = free_chain k (pcb_freelist k) ps"
      using assms by (intro free_chain_cong) (simp add: same_tree_def)
    then show "free_pcbs k' ps = free_pcbs k ps" using assms by (simp add: free_pcbs_def same_tree_def)
  qed
  show ?thesis unfolding tree_inv_def l f using assms by (simp add: same_tree_def)
qed

lemma same_files_tree: "same_files k k' \<Longrightarrow> same_tree k k'"
  by (simp add: same_files_def same_tree_def)

section \<open>The free list as an allocator\<close>

text \<open>
  Both the process table and the file table give out blocks from a free list. The contract of
  such an allocator over the list of what is free, and what follows from it for its clients: a
  block is never given twice, and giving it back undoes its acquisition.
\<close>

locale allocator =
  fixes is_free :: "'s \<Rightarrow> 'b list \<Rightarrow> bool"
    and acquire :: "'s \<Rightarrow> 'b option \<times> 's"
    and release :: "'b \<Rightarrow> 's \<Rightarrow> 's"
  assumes free_distinct: "is_free s bs \<Longrightarrow> distinct bs"
    and acquire_none: "is_free s [] \<Longrightarrow> acquire s = (None, s)"
    and acquire_first: "is_free s (b # bs) \<Longrightarrow> \<exists>s'. acquire s = (Some b, s') \<and> is_free s' bs"
    and release_any: "is_free s bs \<Longrightarrow> b \<notin> set bs \<Longrightarrow> \<exists>cs. is_free (release b s) cs \<and> set cs = insert b (set bs)"
begin

fun acquire_many :: "nat \<Rightarrow> 's \<Rightarrow> 'b list \<times> 's" where
  "acquire_many 0 s = ([], s)"
| "acquire_many (Suc n) s =
     (case acquire s of
        (None, s1) \<Rightarrow> ([], s1)
      | (Some b, s1) \<Rightarrow> (let (bs, s2) = acquire_many n s1 in (b # bs, s2)))"

lemma acquired_fresh:
  assumes "is_free s bs" "acquire s = (Some b, s')"
  obtains cs where "bs = b # cs" "is_free s' cs" "b \<notin> set cs"
proof (cases bs)
  case Nil
  with assms acquire_none [of s] show ?thesis by simp
next
  case (Cons x cs)
  with assms acquire_first [of s x cs] free_distinct [of s bs] that show ?thesis by auto
qed

lemma acquire_many_prefix:
  "is_free s bs \<Longrightarrow> acquire_many n s = (xs, s') \<Longrightarrow> bs = xs @ drop n bs \<and> is_free s' (drop n bs)"
proof (induction n arbitrary: s bs xs s')
  case 0
  then show ?case by simp
next
  case (Suc n)
  show ?case
  proof (cases bs)
    case Nil
    with Suc.prems acquire_none [of s] show ?thesis by simp
  next
    case (Cons b cs)
    obtain s1 where a: "acquire s = (Some b, s1)" "is_free s1 cs"
      using acquire_first Suc.prems(1) Cons by blast
    obtain ys s2 where r: "acquire_many n s1 = (ys, s2)" by (cases "acquire_many n s1")
    have x: "xs = b # ys" "s' = s2" using Suc.prems(2) a r by simp_all
    from Suc.IH [OF a(2) r] show ?thesis by (simp add: x Cons)
  qed
qed

lemma acquire_many_distinct:
  assumes "is_free s bs" "acquire_many n s = (xs, s')"
  shows "distinct xs" and "length xs = min n (length bs)"
proof -
  have e: "bs = xs @ drop n bs" using acquire_many_prefix [OF assms] by blast
  then have "distinct (xs @ drop n bs)" using free_distinct [OF assms(1)] by simp
  then show "distinct xs" by simp
  have "length bs = length xs + length (drop n bs)" using e by (metis length_append)
  then show "length xs = min n (length bs)" by simp
qed

lemma release_acquired:
  assumes "is_free s bs" "acquire s = (Some b, s')"
  shows "\<exists>cs. is_free (release b s') cs \<and> set cs = set bs"
proof -
  from assms obtain cs where "bs = b # cs" "is_free s' cs" "b \<notin> set cs" by (rule acquired_fresh)
  with release_any [of s' cs b] show ?thesis by auto
qed

end

lemma free_chain_upd:
  "p \<notin> set ps \<Longrightarrow> free_chain (upd_pcb p f k) h ps = free_chain k h ps"
  by (rule free_chain_cong) auto

lemma free_chain_fields [simp]:
  "free_chain (k\<lparr>pcb_freelist := x, process_count := n\<rparr>) h ps = free_chain k h ps"
  by (rule free_chain_cong) simp

interpretation pcb_alloc: allocator free_pcbs acquire_PCB release_PCB
proof
  show "distinct bs" if "free_pcbs s bs" for s bs using that by (simp add: free_pcbs_def)
  show "acquire_PCB s = (None, s)" if "free_pcbs s []" for s
    using that by (simp add: free_pcbs_def acquire_PCB_def)
  show "\<exists>s'. acquire_PCB s = (Some b, s') \<and> free_pcbs s' bs" if "free_pcbs s (b # bs)" for s b bs
    using that by (auto simp: free_pcbs_def acquire_PCB_def Let_def free_chain_upd)
  show "\<exists>cs. free_pcbs (release_PCB b s) cs \<and> set cs = insert b (set bs)"
    if "free_pcbs s bs" "b \<notin> set bs" for s bs b
    using that by (intro exI [of _ "b # bs"]) (auto simp: free_pcbs_def release_PCB_def Let_def free_chain_upd)
qed

definition free_fcbs :: "kernel \<Rightarrow> nat list \<Rightarrow> bool" where
  "free_fcbs k fs \<longleftrightarrow> FCB_freelist k = fs \<and> distinct fs"

interpretation fcb_alloc: allocator free_fcbs acquire_FCB release_FCB
proof
  show "distinct bs" if "free_fcbs s bs" for s bs using that by (simp add: free_fcbs_def)
  show "acquire_FCB s = (None, s)" if "free_fcbs s []" for s
    using that by (simp add: free_fcbs_def acquire_FCB_def)
  show "\<exists>s'. acquire_FCB s = (Some b, s') \<and> free_fcbs s' bs" if "free_fcbs s (b # bs)" for s b bs
    using that by (auto simp: free_fcbs_def acquire_FCB_def)
  show "\<exists>cs. free_fcbs (release_FCB b s) cs \<and> set cs = insert b (set bs)"
    if "free_fcbs s bs" "b \<notin> set bs" for s bs b
    using that by (intro exI [of _ "bs @ [b]"]) (auto simp: free_fcbs_def release_FCB_def)
qed

section \<open>A new process\<close>

lemma acquired_pcb:
  assumes inv: "tree_inv k" and a: "acquire_PCB k = (Some p, k1)"
  shows "p < MAX_PROC" "pstate (PT k p) = FREE" "k1 = k\<lparr>PT := (PT k)(p := (PT k p)\<lparr>pstate := ALIVE\<rparr>),
      pcb_freelist := parent (PT k p), process_count := process_count k + 1\<rparr>"
    and "\<exists>ps. free_pcbs k1 ps \<and> set ps = {q. q < MAX_PROC \<and> pstate (PT k q) = FREE} - {p}"
proof -
  obtain ps where ps: "free_pcbs k ps" "set ps = {p. p < MAX_PROC \<and> pstate (PT k p) = FREE}"
    using tree_invD(7) [OF inv] by blast
  obtain cs where cs: "ps = p # cs" "free_pcbs k1 cs" "p \<notin> set cs"
    using ps(1) a by (rule pcb_alloc.acquired_fresh)
  from cs(1) ps(2) have "p \<in> {p. p < MAX_PROC \<and> pstate (PT k p) = FREE}" by (metis list.set_intros(1))
  then show "p < MAX_PROC" "pstate (PT k p) = FREE" by simp_all
  show "k1 = k\<lparr>PT := (PT k)(p := (PT k p)\<lparr>pstate := ALIVE\<rparr>),
      pcb_freelist := parent (PT k p), process_count := process_count k + 1\<rparr>"
    using a by (auto simp: acquire_PCB_def Let_def upd_pcb_def split: option.splits)
  have "set cs = {q. q < MAX_PROC \<and> pstate (PT k q) = FREE} - {p}"
    using cs(1,3) ps(2) by auto
  with cs(2) show "\<exists>ps. free_pcbs k1 ps \<and> set ps = {q. q < MAX_PROC \<and> pstate (PT k q) = FREE} - {p}" by blast
qed

lemma dead_childless:
  assumes inv: "tree_inv k" and d: "pstate (PT k p) \<noteq> ALIVE"
  shows "children_list (PT k p) = []" and "exited_list (PT k p) = []"
proof -
  have "q \<notin> set (children_list (PT k p))" for q
    using tree_invD(1,2) [OF inv, of q p] d by auto
  then show c: "children_list (PT k p) = []" by (cases "children_list (PT k p)") auto
  then show "exited_list (PT k p) = []" using tree_invD(6) [OF inv, of p] by simp
qed

text \<open>The new process gets the parent \<open>x\<close>, and the parent the child.\<close>

lemma acquired_linked_inv:
  assumes inv: "tree_inv k" and a: "acquire_PCB k = (Some p, k1)"
    and x: "case x of None \<Rightarrow> p \<le> 1 | Some c \<Rightarrow> 1 < p \<and> c < MAX_PROC \<and> pstate (PT k c) = ALIVE"
    and k2: "k2 = (case x of None \<Rightarrow> upd_pcb p (\<lambda>b. b\<lparr>parent := None\<rparr>) k1 | Some c \<Rightarrow> adopt c p k1)"
  shows "tree_inv k2"
proof (rule tree_invI)
  note D = tree_invD [OF inv]
  note A = acquired_pcb [OF inv a]
  have xp: "x \<noteq> Some p" using x A(2) by auto
  have f: "pstate (PT k2 q) = (if q = p then ALIVE else pstate (PT k q))"
      "parent (PT k2 q) = (if q = p then x else parent (PT k q))"
      "children_list (PT k2 q) = (if x = Some q then p # children_list (PT k q) else children_list (PT k q))"
      "exited_list (PT k2 q) = exited_list (PT k q)" for q
    using xp by (auto simp: k2 A(3) adopt_def upd_pcb_def split: option.splits)
  have live: "live k2 q \<longleftrightarrow> live k q \<or> q = p" "\<not> live k p" for q
    using A(1,2) by (auto simp: live_def f)
  have pc: "p \<notin> set (children_list (PT k q))" for q using D(1) [of p q] live(2) by simp
  have pne: "parent (PT k q) \<noteq> Some p" if "live k q" for q
    using D(2) [OF that, of p] A(2) by auto
  show "q \<in> set (children_list (PT k2 c)) \<longleftrightarrow> live k2 q \<and> parent (PT k2 q) = Some c" for c q
    using D(1) [of q c] pc live by (auto simp: f)
  show "c < MAX_PROC \<and> c \<noteq> q \<and> pstate (PT k2 c) = ALIVE" if "live k2 q" "parent (PT k2 q) = Some c" for c q
    using that D(2) [of q c] live x xp A(1) by (auto simp: f split: if_splits)
  show "parent (PT k2 q) = None \<longleftrightarrow> q \<le> 1" if "live k2 q" for q
    using that D(3) [of q] live x by (auto simp: f split: if_splits option.splits)
  show "distinct (children_list (PT k2 q))" for q using D(4) [of q] pc by (simp add: f)
  show "distinct (exited_list (PT k2 q))" for q using D(5) [of q] by (simp add: f)
  show "set (exited_list (PT k2 q)) = {r \<in> set (children_list (PT k2 q)). pstate (PT k2 r) = ZOMBIE}" for q
    using D(6) [of q] pc [of q] by (auto simp: f)
  obtain ps where ps: "free_pcbs k1 ps" "set ps = {q. q < MAX_PROC \<and> pstate (PT k q) = FREE} - {p}"
    using A(4) by blast
  have "free_pcbs k2 ps"
  proof -
    have "free_chain k2 (pcb_freelist k1) ps = free_chain k1 (pcb_freelist k1) ps"
      using ps(2) by (intro free_chain_cong) (auto simp: f A(3))
    moreover have "pcb_freelist k2 = pcb_freelist k1" by (simp add: k2 adopt_def split: option.splits)
    ultimately show ?thesis using ps(1) by (simp add: free_pcbs_def)
  qed
  moreover have "set ps = {q. q < MAX_PROC \<and> pstate (PT k2 q) = FREE}" using ps(2) by (auto simp: f)
  ultimately show "\<exists>ps. free_pcbs k2 ps \<and> set ps = {q. q < MAX_PROC \<and> pstate (PT k2 q) = FREE}" by blast
  have "{q. live k2 q} = insert p {q. live k q}" using live by auto
  then have "card {q. live k2 q} = Suc (card {q. live k q})" using live(2) by simp
  moreover have "process_count k2 = process_count k + 1" by (simp add: k2 A(3) adopt_def split: option.splits)
  moreover have "unat (process_count k + 1) = Suc (unat (process_count k))"
    using D(8) live_count [of k] by (subst unat_word_ariths) (simp add: MAX_PROC_def)
  ultimately show "unat (process_count k2) = card {q. live k2 q}" using D(8) by simp
qed

section \<open>Reaping a zombie\<close>

lemma reap_inv:
  assumes inv: "tree_inv k" and z: "p < MAX_PROC" "pstate (PT k p) = ZOMBIE"
  shows "tree_inv (release_PCB p (unlink_child p k))"
proof -
  define j where "j = release_PCB p (unlink_child p k)"
  have "tree_inv j"
  proof (rule tree_invI)
    note D = tree_invD [OF inv]
    have f: "pstate (PT j q) = (if q = p then FREE else pstate (PT k q))"
        "q \<noteq> p \<Longrightarrow> parent (PT j q) = parent (PT k q)"
        "children_list (PT j q) = removeAll p (children_list (PT k q))"
        "exited_list (PT j q) = removeAll p (exited_list (PT k q))"
        "process_count j = process_count k - 1" for q
      by (simp_all add: j_def release_PCB_def unlink_child_def Let_def)
    have live: "live j q \<longleftrightarrow> live k q \<and> q \<noteq> p" "live k p" for q
      using z by (auto simp: live_def f)
    have pne: "parent (PT k q) \<noteq> Some p" if "live k q" for q
      using D(2) [OF that, of p] z(2) by auto
    show "q \<in> set (children_list (PT j c)) \<longleftrightarrow> live j q \<and> parent (PT j q) = Some c" for c q
      by (cases "q = p") (simp_all add: f(3) live(1) D(1) f(2))
    show "c < MAX_PROC \<and> c \<noteq> q \<and> pstate (PT j c) = ALIVE" if "live j q" "parent (PT j q) = Some c" for c q
      using that D(2) [of q c] live pne [of q] by (auto simp: f)
    show "parent (PT j q) = None \<longleftrightarrow> q \<le> 1" if "live j q" for q
      using that D(3) [of q] live by (auto simp: f)
    show "distinct (children_list (PT j q))" for q using D(4) [of q] by (simp add: f distinct_removeAll)
    show "distinct (exited_list (PT j q))" for q using D(5) [of q] by (simp add: f distinct_removeAll)
    show "set (exited_list (PT j q)) = {r \<in> set (children_list (PT j q)). pstate (PT j r) = ZOMBIE}" for q
      using D(6) [of q] by (auto simp: f)
    obtain ps where ps: "free_pcbs k ps" "set ps = {q. q < MAX_PROC \<and> pstate (PT k q) = FREE}"
      using D(7) by blast
    have "free_pcbs (unlink_child p k) ps"
      using ps(1) free_chain_cong [of ps "unlink_child p k" k] by (simp add: free_pcbs_def unlink_child_def)
    moreover have "p \<notin> set ps" using ps(2) z(2) by simp
    ultimately obtain cs where cs: "free_pcbs j cs" "set cs = insert p (set ps)"
      unfolding j_def using pcb_alloc.release_any by blast
    moreover have "set cs = {q. q < MAX_PROC \<and> pstate (PT j q) = FREE}"
      using cs(2) ps(2) z(1) by (auto simp: f)
    ultimately show "\<exists>ps. free_pcbs j ps \<and> set ps = {q. q < MAX_PROC \<and> pstate (PT j q) = FREE}" by blast
    have e: "{q. live j q} = {q. live k q} - {p}" using live by auto
    have "card {q. live k q} > 0" using live(2) by (auto simp: card_gt_0_iff)
    moreover have "process_count k \<noteq> 0" using D(8) calculation by auto
    ultimately show "unat (process_count j) = card {q. live j q}"
      using D(8) live(2) by (simp add: f(5) e unat_minus_one)
  qed
  then show ?thesis by (simp add: j_def)
qed

section \<open>Exec\<close>

lemma same_tree_upd_pcb:
  assumes "\<And>b. pstate (g b) = pstate b \<and> parent (g b) = parent b \<and> children_list (g b) = children_list b \<and>
     exited_list (g b) = exited_list b"
  shows "same_tree k (upd_pcb p g k1) = same_tree k k1"
proof -
  have "same_tree k1 (upd_pcb p g k1)" "same_tree (upd_pcb p g k1) k1" by (simp_all add: same_tree_def assms)
  then show ?thesis by (blast intro: same_tree_trans)
qed

lemma same_tree_set_fid [simp]: "same_tree k (set_fid p i x k1) = same_tree k k1"
  unfolding set_fid_def by (rule same_tree_upd_pcb) simp

lemma same_tree_incref [simp]: "same_tree k (FCB_incref f k1) = same_tree k k1"
  by (simp add: same_tree_def FCB_incref_def)

lemma same_tree_upd_ptcb [simp]: "same_tree k (upd_ptcb a g k1) = same_tree k k1"
  by (simp add: same_tree_def)

lemma same_tree_cc [simp]: "same_tree k (k1\<lparr>cc := s\<rparr>) = same_tree k k1"
  by (simp add: same_tree_def)

lemma same_tree_inherit: "same_tree k (inherit_fid par p i k)"
  by (simp add: inherit_fid_def Let_def split: option.splits)

lemma same_tree_fold: "(\<And>x k. same_tree k (g x k)) \<Longrightarrow> same_tree k (fold g xs k)"
  by (induction xs arbitrary: k) (auto intro: same_tree_trans)

lemma Create_PTCB_eq:
  assumes "Create_PTCB p k = Inr (a, k')"
  shows "k' = k\<lparr>next_addr := next_addr k + 1, ptcbs := (ptcbs k)(a \<mapsto> \<lparr>powner = p, pthread = None, pexitval = 0,
      waiting_threads = 0, detached = False, main_task = None, argl = 0, args = No_args\<rparr>),
      cc := (cc k)\<lparr>waitset := (waitset (cc k))(Ptcb_waiting a := [], Ptcb_join a := [])\<rparr>\<rparr>"
    and "a = next_addr k" and "malloc_ok k a"
  using assms by (auto simp: Create_PTCB_def malloc_def cond_init_def split: if_splits)

lemma copy_args_eq: "copy_args n buf k = Inr (x, k') \<Longrightarrow> k' = k \<or> k' = k\<lparr>next_addr := next_addr k + 1\<rparr>"
  by (auto simp: copy_args_def malloc_def split: option.splits if_splits)

lemma spawn_eq:
  assumes "spawn old p func k = Inr (t, k')"
  shows "k' = k\<lparr>next_addr := next_addr k + 1, cc := (cc k)\<lparr>sch := snd (spawn_thread (next_addr k) old (Some p) func (sch (cc k)))\<rparr>\<rparr>"
    and "t = Thr (next_addr k)"
  using assms by (auto simp: spawn_def malloc_def spawn_thread_def split: if_splits)

lemma exec_thread_tree:
  assumes "exec_thread old p call n buf k = Inr k'"
  shows "same_tree k k'"
proof -
  from assms obtain a k1 x k2 where 1: "Create_PTCB p k = Inr (a, k1)" "copy_args n buf k1 = Inr (x, k2)"
    and r: "(let k3 = upd_ptcb a (\<lambda>t. t\<lparr>main_task := call, argl := n, detached := True, args := x\<rparr>)
                (upd_pcb p (\<lambda>b. b\<lparr>main_thread := Some a\<rparr>) k2)
     in if call \<noteq> None then
          bindE (spawn old p START_MAIN_THREAD k3) (\<lambda>(t, k4).
          let k5 = set_owner_ptcb t a (upd_pcb p (\<lambda>b. b\<lparr>thread_count := 1\<rparr>)
                     (upd_ptcb a (\<lambda>x. x\<lparr>pthread := Some t\<rparr>) k4))
          in bindE (on_sch (wakeup t) k5) (\<lambda>(_, k6). Inr k6))
        else Inr k3) = Inr k'"
    unfolding exec_thread_def by (elim bindE_elim2) (rule that; assumption)
  define k3 where "k3 = upd_ptcb a (\<lambda>t. t\<lparr>main_task := call, argl := n, detached := True, args := x\<rparr>)
                (upd_pcb p (\<lambda>b. b\<lparr>main_thread := Some a\<rparr>) k2)"
  have "same_tree k k1" using Create_PTCB_eq(1) [OF 1(1)] by (simp add: same_tree_def)
  moreover have "same_tree k1 k2" using copy_args_eq [OF 1(2)] by (auto simp: same_tree_def)
  moreover have "same_tree k2 k3" by (simp add: k3_def same_tree_upd_pcb)
  moreover have "same_tree k3 k'"
  proof (cases call)
    case None
    with r show ?thesis by (simp add: k3_def)
  next
    case (Some f)
    from r [unfolded Let_def k3_def [symmetric]] Some obtain t k4 where s: "spawn old p START_MAIN_THREAD k3 = Inr (t, k4)"
      and w: "bindE (on_sch (wakeup t) (set_owner_ptcb t a (upd_pcb p (\<lambda>b. b\<lparr>thread_count := 1\<rparr>)
                     (upd_ptcb a (\<lambda>x. x\<lparr>pthread := Some t\<rparr>) k4)))) (\<lambda>(_, k6). Inr k6) = Inr k'"
      by (auto elim!: bindE_elim)
    define k5 where "k5 = set_owner_ptcb t a (upd_pcb p (\<lambda>b. b\<lparr>thread_count := 1\<rparr>)
                     (upd_ptcb a (\<lambda>x. x\<lparr>pthread := Some t\<rparr>) k4))"
    have "same_tree k3 k4" using spawn_eq(1) [OF s] by (simp add: same_tree_def)
    moreover have "same_tree k4 k5" by (simp add: k5_def set_owner_ptcb_def same_tree_upd_pcb)
    moreover have "same_tree k5 k'"
      using w [folded k5_def] by (auto simp: on_sch_def elim!: bindE_elim)
    ultimately show ?thesis by (blast intro: same_tree_trans)
  qed
  ultimately show ?thesis by (blast intro: same_tree_trans)
qed

lemma sys_Exec_inv:
  assumes inv: "tree_inv k" and p: "\<And>par. CURPROC c k = Inr par \<Longrightarrow> par < MAX_PROC \<and> pstate (PT k par) = ALIVE"
    and r: "sys_Exec old c call n buf k = Inr (pid, k')"
  shows "tree_inv k'"
proof (cases "acquire_PCB k")
  case (Pair y k1)
  show ?thesis
  proof (cases y)
    case None
    with r Pair have "k' = k1" by (simp add: sys_Exec_def)
    moreover have "k1 = k" using Pair None by (auto simp: acquire_PCB_def Let_def split: option.splits)
    ultimately show ?thesis using inv by simp
  next
    case (Some p')
    then have a: "acquire_PCB k = (Some p', k1)" using Pair by simp
    from r a obtain k2 where e: "exec_parent c p' k1 = Inr k2" "exec_thread old p' call n buf k2 = Inr k'"
      by (auto simp: sys_Exec_def elim!: bindE_elim)
    have cc: "cc k1 = cc k" using acquired_pcb(3) [OF inv a] by simp
    have "tree_inv k2"
    proof (cases "p' \<le> 1")
      case True
      with e(1) have "k2 = upd_pcb p' (\<lambda>b. b\<lparr>parent := None\<rparr>) k1" by (simp add: exec_parent_def)
      with True show ?thesis by (intro acquired_linked_inv [OF inv a, of None]) simp_all
    next
      case False
      with e(1) obtain par where par: "CURPROC c k = Inr par"
          and k2: "k2 = fold (inherit_fid par p') [0..<MAX_FILEID] (adopt par p' k1)"
        using CURPROC_cong [OF cc] by (auto simp: exec_parent_def elim!: bindE_elim)
      have "tree_inv (adopt par p' k1)"
        using False p [OF par] by (intro acquired_linked_inv [OF inv a, of "Some par"]) simp_all
      moreover have "same_tree (adopt par p' k1) k2" unfolding k2 by (rule same_tree_fold) (rule same_tree_inherit)
      ultimately show ?thesis using same_tree_inv by blast
    qed
    then show ?thesis using same_tree_inv [OF exec_thread_tree [OF e(2)]] by simp
  qed
qed

section \<open>WaitChild\<close>

lemma wait_loops_inv:
  assumes inv: "tree_inv k"
  shows "wait_any_loop par k = Inr (out, k') \<Longrightarrow> tree_inv k'"
    and "live k child \<Longrightarrow> wait_specific_loop par child k = Inr (out, k') \<Longrightarrow> tree_inv k'"
proof -
  show "tree_inv k'" if r: "wait_any_loop par k = Inr (out, k')"
  proof (cases "exited_list (PT k par)")
    case Nil
    with r inv show ?thesis by (simp add: wait_any_loop_def)
  next
    case (Cons q qs)
    then have "q \<in> set (exited_list (PT k par))" by simp
    then have "live k q" "pstate (PT k q) = ZOMBIE" using tree_invD(1,6) [OF inv] by auto
    moreover have "k' = release_PCB q (unlink_child q k)"
      using r Cons by (auto simp: wait_any_loop_def reap_def cleanup_zombie_def elim!: bindE_elim)
    ultimately show ?thesis using reap_inv [OF inv, of q] by (simp add: live_def)
  qed
  show "tree_inv k'" if "live k child" "wait_specific_loop par child k = Inr (out, k')"
  proof (cases "pstate (PT k child) = ALIVE")
    case True
    with that inv show ?thesis by (simp add: wait_specific_loop_def)
  next
    case False
    with that(1) have "child < MAX_PROC" "pstate (PT k child) = ZOMBIE"
      by (auto simp: live_def) (metis pid_state.exhaust)
    moreover have "k' = release_PCB child (unlink_child child k)"
      using that(2) False by (simp add: wait_specific_loop_def reap_def cleanup_zombie_def Let_def)
    ultimately show ?thesis using reap_inv [OF inv] by simp
  qed
qed

lemma sys_WaitChild_inv:
  assumes inv: "tree_inv k" and r: "sys_WaitChild c cpid k = Inr (out, k')"
  shows "tree_inv k'"
proof (cases "cpid = NOPROC")
  case True
  with r obtain par where "CURPROC c k = Inr par" "k' = k \<or> wait_any_loop par k = Inr (out, k')"
    by (auto simp: sys_WaitChild_def wait_for_any_child_def elim!: bindE_elim split: if_splits)
  then show ?thesis using inv wait_loops_inv(1) [OF inv] by blast
next
  case False
  note r' = r [unfolded sys_WaitChild_def if_P [OF False] wait_for_specific_child_def]
  show ?thesis
  proof (cases "cpid < 0 \<or> cpid \<ge> int MAX_PROC")
    case True
    from r' [unfolded if_P [OF True]] inv show ?thesis by simp
  next
    case ok: False
    from r' [unfolded if_not_P [OF ok]] obtain par
      where p: "(case get_pcb (nat cpid) k of None \<Rightarrow> Inr (outcome.Done (NOPROC, None), k)
        | Some child \<Rightarrow> if parent (PT k child) \<noteq> Some par then Inr (outcome.Done (NOPROC, None), k)
            else wait_specific_loop par child k) = Inr (out, k')"
      by (rule bindE_elim) (rule that; assumption)
    show ?thesis
    proof (cases "get_pcb (nat cpid) k")
      case None
      with p inv show ?thesis by simp
    next
      case (Some child)
      then have "live k child" using ok by (auto simp: get_pcb_def live_def split: if_splits)
      with p Some inv wait_loops_inv(2) [OF inv, of child par out k'] show ?thesis
        by (cases "parent (PT k child) = Some par") simp_all
    qed
  qed
qed

section \<open>Exit\<close>

lemma fold_close_fault: "fold (close_fid c p) is (Inl e) = Inl e"
  by (induction "is") (simp_all add: close_fid_def)

lemma close_fid_props:
  assumes "close_fid c p i (Inr k) = Inr k'"
  shows "same_tree k k'" and "ptcbs k' = ptcbs k" and "main_thread (PT k' q) = main_thread (PT k q)"
    and "FIDT (PT k' q) j = (if q = p \<and> j = i then None else FIDT (PT k q) j)"
    and "files_inv held k \<Longrightarrow> p < MAX_PROC \<Longrightarrow> i < MAX_FILEID \<Longrightarrow> files_inv held k'"
proof -
  have "same_tree k k' \<and> ptcbs k' = ptcbs k \<and> main_thread (PT k' q) = main_thread (PT k q) \<and>
      FIDT (PT k' q) j = (if q = p \<and> j = i then None else FIDT (PT k q) j) \<and>
      (files_inv held k \<longrightarrow> p < MAX_PROC \<longrightarrow> i < MAX_FILEID \<longrightarrow> files_inv held k')"
  proof (cases "FIDT (PT k p) i")
    case None
    with assms have "k' = k" by (simp add: close_fid_def)
    with None show ?thesis by simp
  next
    case (Some f)
    with assms obtain n k1 where d: "FCB_decref c f k = Inr (n, k1)" "k' = set_fid p i None k1"
      by (auto simp: close_fid_def elim!: bindE_elim2)
    note T = FCB_decref_tables [OF d(1)]
    have "same_tree k k1" by (simp add: same_tree_def T)
    moreover have "files_inv held k'" if "files_inv held k" "p < MAX_PROC" "i < MAX_FILEID"
      unfolding d(2) using that Some
      by (intro decref_slot_inv(1) [OF _ _ _ d(1)]) (auto simp: fid_slots_def fid_at_def)
    ultimately show ?thesis by (simp add: d(2) T) (simp add: set_fid_def T)
  qed
  then show "same_tree k k'" "ptcbs k' = ptcbs k" "main_thread (PT k' q) = main_thread (PT k q)"
    "FIDT (PT k' q) j = (if q = p \<and> j = i then None else FIDT (PT k q) j)"
    "files_inv held k \<Longrightarrow> p < MAX_PROC \<Longrightarrow> i < MAX_FILEID \<Longrightarrow> files_inv held k'"
    by simp_all
qed

lemma close_fids_props:
  "fold (close_fid c p) is (Inr k) = Inr k' \<Longrightarrow> \<forall>i \<in> set is. i < MAX_FILEID \<Longrightarrow>
     same_tree k k' \<and> ptcbs k' = ptcbs k \<and> (\<forall>q. main_thread (PT k' q) = main_thread (PT k q)) \<and>
     (\<forall>q j. FIDT (PT k' q) j = (if q = p \<and> j \<in> set is then None else FIDT (PT k q) j)) \<and>
     (files_inv held k \<longrightarrow> p < MAX_PROC \<longrightarrow> files_inv held k')"
proof (induction "is" arbitrary: k)
  case Nil
  then show ?case by simp
next
  case (Cons i "is")
  obtain k1 where k1: "close_fid c p i (Inr k) = Inr k1"
    using Cons.prems(1) by (cases "close_fid c p i (Inr k)") (simp_all add: fold_close_fault)
  note P = close_fid_props [OF k1]
  have I: "same_tree k1 k'" "ptcbs k' = ptcbs k1" "\<forall>q. main_thread (PT k' q) = main_thread (PT k1 q)"
      "\<forall>q j. FIDT (PT k' q) j = (if q = p \<and> j \<in> set is then None else FIDT (PT k1 q) j)"
      "files_inv held k1 \<longrightarrow> p < MAX_PROC \<longrightarrow> files_inv held k'"
    using Cons.IH [of k1] Cons.prems k1 by simp_all
  have "same_tree k k'" using P(1) I(1) by (rule same_tree_trans)
  with I(2-5) P(2-5) Cons.prems(2) show ?case by auto
qed

lemma close_all_props:
  assumes "close_all c p k = Inr k'"
  shows "same_tree k k'" "ptcbs k' = ptcbs k" "main_thread (PT k' q) = main_thread (PT k q)"
    "FIDT (PT k' q) j = (if q = p \<and> j < MAX_FILEID then None else FIDT (PT k q) j)"
    "files_inv held k \<Longrightarrow> p < MAX_PROC \<Longrightarrow> files_inv held k'"
  using close_fids_props [of c p "[0..<MAX_FILEID]" k k' held] assms by (auto simp: close_all_def)

text \<open>The loop that gives the children to the initial process, in closed form.\<close>

lemma reparent_loop_props:
  "reparent_loop qs p (Some i) k = Inr k' \<Longrightarrow> i \<noteq> p \<Longrightarrow> i \<notin> set qs \<Longrightarrow> p \<notin> set qs \<Longrightarrow> children_list (PT k p) = qs \<Longrightarrow>
     (\<forall>r. PT k' r = (PT k r)\<lparr>parent := (if r \<in> set qs then Some i else parent (PT k r)),
        children_list := (if r = p then [] else if r = i then rev qs @ children_list (PT k i) else children_list (PT k r))\<rparr>) \<and>
     (\<exists>pt. k' = k\<lparr>PT := pt\<rparr>)"
proof (induction qs arbitrary: k)
  case Nil
  then show ?case by (auto intro: exI [of _ "PT k"])
next
  case (Cons q qs)
  define k1 where "k1 = upd_pcb i (\<lambda>b. b\<lparr>children_list := q # children_list b\<rparr>)
      (upd_pcb q (\<lambda>b. b\<lparr>parent := Some i\<rparr>) (upd_pcb p (\<lambda>b. b\<lparr>children_list := qs\<rparr>) k))"
  have r: "reparent_loop qs p (Some i) k1 = Inr k'" using Cons.prems(1) by (simp add: k1_def Let_def)
  have f: "PT k1 r = (PT k r)\<lparr>parent := (if r = q then Some i else parent (PT k r)),
      children_list := (if r = p then qs else if r = i then q # children_list (PT k i) else children_list (PT k r))\<rparr>" for r
    using Cons.prems(2-4) by (auto simp: k1_def)
  have IH: "\<forall>r. PT k' r = (PT k1 r)\<lparr>parent := (if r \<in> set qs then Some i else parent (PT k1 r)),
        children_list := (if r = p then [] else if r = i then rev qs @ children_list (PT k1 i) else children_list (PT k1 r))\<rparr>"
      "\<exists>pt. k' = k1\<lparr>PT := pt\<rparr>"
    using Cons.IH [OF r Cons.prems(2)] Cons.prems(3,4) f by simp_all
  have "PT k' r = (PT k r)\<lparr>parent := (if r \<in> set (q # qs) then Some i else parent (PT k r)),
        children_list := (if r = p then [] else if r = i then rev (q # qs) @ children_list (PT k i) else children_list (PT k r))\<rparr>" for r
    using IH(1) Cons.prems(2) by (simp add: f)
  moreover have "\<exists>pt. k' = k\<lparr>PT := pt\<rparr>" using IH(2) by (auto simp: k1_def upd_pcb_def)
  ultimately show ?case by blast
qed

lemma give_exited_props:
  assumes "give_exited p init k = Inr k'"
  shows "exited_list (PT k p) = [] \<and> k' = k \<or> exited_list (PT k p) \<noteq> [] \<and> (\<exists>i s. init = Some i \<and> k' = (upd_pcb p (\<lambda>b. b\<lparr>exited_list := []\<rparr>)
      (upd_pcb i (\<lambda>b. b\<lparr>exited_list := exited_list b @ exited_list (PT k p)\<rparr>) k))\<lparr>cc := s\<rparr>)"
  using assms by (auto simp: give_exited_def Let_def k_broadcast_def on_cc_def split: if_splits elim!: bindE_elim)

lemma tell_parent_props:
  assumes "tell_parent p k = Inr k'"
  shows "parent (PT k p) = None \<and> k' = k \<or> (\<exists>q s. parent (PT k p) = Some q \<and>
      k' = (upd_pcb q (\<lambda>b. b\<lparr>exited_list := p # exited_list b\<rparr>) k)\<lparr>cc := s\<rparr>)"
  using assms by (cases "parent (PT k p)") (auto simp: tell_parent_def k_broadcast_def on_cc_def elim!: bindE_elim)

text \<open>What \<^verbatim>\<open>Exit\<close> does to the process table.\<close>

definition exited :: "nat \<Rightarrow> int \<Rightarrow> kernel \<Rightarrow> kernel \<Rightarrow> bool" where
  "exited p v k k' \<longleftrightarrow>
     (\<forall>r. pstate (PT k' r) = (if r = p then ZOMBIE else pstate (PT k r)) \<and>
          parent (PT k' r) = (if r \<in> set (children_list (PT k p)) then Some 1 else parent (PT k r)) \<and>
          children_list (PT k' r) = (if r = p then []
            else if r = 1 then rev (children_list (PT k p)) @ children_list (PT k 1) else children_list (PT k r)) \<and>
          exited_list (PT k' r) = (if r = p then [] else (if parent (PT k p) = Some r then [p] else []) @
            exited_list (PT k r) @ (if r = 1 then exited_list (PT k p) else []))) \<and>
     exitval (PT k' p) = v \<and> main_thread (PT k' p) = None \<and>
     pcb_freelist k' = pcb_freelist k \<and> process_count k' = process_count k"

lemma exit_process_exited:
  assumes inv: "tree_inv k" and p: "CURPROC c k = Inr p" "live k p" "p = 1 \<Longrightarrow> children_list (PT k 1) = []"
    and r: "exit_process c v k = Inr k'"
  shows "exited p v k k'"
    and "FIDT (PT k' q) j = (if q = p \<and> j < MAX_FILEID then None else FIDT (PT k q) j)"
    and "files_inv held k \<Longrightarrow> files_inv held k'"
proof -
  note D = tree_invD [OF inv]
  obtain k1 k2 k3 k4 k5 k6 where s: "free_args p k = Inr k1" "close_all c p k1 = Inr k2"
      "reparent_loop (children_list (PT k2 p)) p (get_pcb 1 k2) k2 = Inr k3" "give_exited p (get_pcb 1 k2) k3 = Inr k4"
      "tell_parent p k4 = Inr k5" "become_zombie p v k5 = Inr k6" "k_sleep c k6 = Inr k'"
    using r p(1) unfolding exit_process_def Let_def by (auto elim!: bindE_elim)
  have s1: "PT k1 = PT k" "pcb_freelist k1 = pcb_freelist k" "process_count k1 = process_count k"
      "FT k1 = FT k" "FCB_freelist k1 = FCB_freelist k"
    using s(1) by (auto simp: free_args_def elim!: bindE_elim split: if_splits)
  note C = close_all_props [OF s(2)]
  have t2: "same_tree k k2" using C(1) by (simp add: same_tree_def s1)
  define qs where "qs = children_list (PT k p)"
  have qs: "children_list (PT k2 p) = qs" using t2 by (simp add: same_tree_def qs_def)
  have pq: "p \<notin> set qs" "1 \<notin> set qs"
    using D(1) [of p p] D(2) [of p p] D(1) [of 1 p] D(3) [of 1] by (auto simp: qs_def)
  have nil: "qs = [] \<Longrightarrow> exited_list (PT k p) = []" using D(6) [of p] by (simp add: qs_def)
  have init: "qs \<noteq> [] \<Longrightarrow> get_pcb 1 k2 = Some 1"
    using s(3) qs by (cases qs) (auto simp: get_pcb_def elim!: bindE_elim split: if_splits)
  have one: "qs \<noteq> [] \<Longrightarrow> p \<noteq> 1" using p(3) by (auto simp: qs_def)
  have k3: "(\<forall>r. PT k3 r = (PT k2 r)\<lparr>parent := (if r \<in> set qs then Some 1 else parent (PT k2 r)),
        children_list := (if r = p then [] else if r = 1 then rev qs @ children_list (PT k2 1) else children_list (PT k2 r))\<rparr>) \<and>
     (\<exists>pt. k3 = k2\<lparr>PT := pt\<rparr>)"
  proof (cases "qs = []")
    case True
    with s(3) qs have "k3 = k2" by simp
    with True qs show ?thesis by (auto intro: exI [of _ "PT k2"])
  next
    case False
    from reparent_loop_props [OF s(3) [unfolded init [OF False] qs]] one [OF False] pq qs show ?thesis by simp
  qed
  then obtain pt where pt: "k3 = k2\<lparr>PT := pt\<rparr>" by blast
  have e3: "exited_list (PT k3 r) = exited_list (PT k r)" for r using k3 t2 by (simp add: same_tree_def)
  have k4: "\<exists>s. k4 = k3\<lparr>PT := PT k4, cc := s\<rparr> \<and> (\<forall>r. PT k4 r = (PT k3 r)\<lparr>exited_list :=
      (if r = p then [] else exited_list (PT k r) @ (if r = 1 then exited_list (PT k p) else []))\<rparr>)"
  proof (cases "exited_list (PT k p) = []")
    case True
    with give_exited_props [OF s(4)] e3 [of p] have "k4 = k3" by simp
    then show ?thesis using True e3 by (intro exI [of _ "cc k3"]) auto
  next
    case False
    then have ne: "qs \<noteq> []" using nil by blast
    from give_exited_props [OF s(4)] e3 [of p] False init [OF ne] obtain s' where
      "k4 = (upd_pcb p (\<lambda>b. b\<lparr>exited_list := []\<rparr>)
      (upd_pcb 1 (\<lambda>b. b\<lparr>exited_list := exited_list b @ exited_list (PT k p)\<rparr>) k3))\<lparr>cc := s'\<rparr>" by auto
    then show ?thesis using one [OF ne] e3 by (intro exI [of _ s']) (auto simp: upd_pcb_def)
  qed
  have par: "parent (PT k4 p) = parent (PT k p)" using k4 k3 pq(1) t2 by (auto simp: same_tree_def)
  have pp: "parent (PT k p) \<noteq> Some p" using D(2) [OF p(2), of p] by blast
  have k5: "\<exists>s. k5 = k4\<lparr>PT := PT k5, cc := s\<rparr> \<and> (\<forall>r. PT k5 r = (PT k4 r)\<lparr>exited_list :=
      (if parent (PT k p) = Some r then [p] else []) @ exited_list (PT k4 r)\<rparr>)"
  proof (cases "parent (PT k p)")
    case None
    with tell_parent_props [OF s(5)] par have "k5 = k4" by simp
    with None show ?thesis by (intro exI [of _ "cc k4"]) auto
  next
    case (Some q)
    with tell_parent_props [OF s(5)] par obtain s' where
      "k5 = (upd_pcb q (\<lambda>b. b\<lparr>exited_list := p # exited_list b\<rparr>) k4)\<lparr>cc := s'\<rparr>" by auto
    with Some show ?thesis by (intro exI [of _ s']) (auto simp: upd_pcb_def)
  qed
  obtain a s' where k': "k' = upd_pcb p (\<lambda>b. b\<lparr>main_thread := None, pstate := ZOMBIE, exitval := v\<rparr>)
      (k5\<lparr>ptcbs := (ptcbs k5)(a := None)\<rparr>)\<lparr>cc := s'\<rparr>"
    using s(6,7) by (auto simp: become_zombie_def k_sleep_def on_cc_def elim!: bindE_elim)
  have P: "PT k' r = (PT k2 r)\<lparr>
      parent := (if r \<in> set qs then Some 1 else parent (PT k2 r)),
      children_list := (if r = p then [] else if r = 1 then rev qs @ children_list (PT k2 1) else children_list (PT k2 r)),
      exited_list := (if r = p then [] else (if parent (PT k p) = Some r then [p] else []) @
            exited_list (PT k r) @ (if r = 1 then exited_list (PT k p) else [])),
      main_thread := (if r = p then None else main_thread (PT k2 r)),
      pstate := (if r = p then ZOMBIE else pstate (PT k2 r)),
      exitval := (if r = p then v else exitval (PT k2 r))\<rparr>" for r
    using k3 k4 k5 pp by (auto simp: k')
  have G: "pcb_freelist k' = pcb_freelist k2" "process_count k' = process_count k2"
      "FT k' = FT k2" "FCB_freelist k' = FCB_freelist k2"
    using k4 k5 by (auto simp: k' pt) (metis kernel.select_convs kernel.surjective kernel.update_convs)+
  show "exited p v k k'"
    unfolding exited_def using P G(1,2) t2 by (simp add: same_tree_def qs_def)
  have F: "FIDT (PT k' q) = FIDT (PT k2 q)" for q by (simp add: P)
  then show "FIDT (PT k' q) j = (if q = p \<and> j < MAX_FILEID then None else FIDT (PT k q) j)"
    using C(4) [of q j] s1 by simp
  assume f: "files_inv held k"
  have "files_inv held k1 = files_inv held k" by (rule files_upto_cong) (simp_all add: s1)
  with f C(5) p(2) have "files_inv held k2" by (simp add: live_def)
  moreover have "files_inv held k' = files_inv held k2" by (rule files_upto_cong) (simp_all add: F G)
  ultimately show "files_inv held k'" by simp
qed

lemma exited_inv:
  assumes inv: "tree_inv k" and p: "live k p" "pstate (PT k p) = ALIVE" "p = 1 \<Longrightarrow> children_list (PT k 1) = []"
    and init: "children_list (PT k p) \<noteq> [] \<Longrightarrow> pstate (PT k 1) = ALIVE"
    and e: "exited p v k k'"
  shows "tree_inv k'"
proof (rule tree_invI)
  note D = tree_invD [OF inv]
  define qs where "qs = children_list (PT k p)"
  have f: "pstate (PT k' r) = (if r = p then ZOMBIE else pstate (PT k r))"
      "parent (PT k' r) = (if r \<in> set qs then Some 1 else parent (PT k r))"
      "children_list (PT k' r) = (if r = p then [] else if r = 1 then rev qs @ children_list (PT k 1) else children_list (PT k r))"
      "exited_list (PT k' r) = (if r = p then [] else (if parent (PT k p) = Some r then [p] else []) @
            exited_list (PT k r) @ (if r = 1 then exited_list (PT k p) else []))"
      "pcb_freelist k' = pcb_freelist k" "process_count k' = process_count k" for r
    using e by (simp_all add: exited_def qs_def)
  have live: "live k' r = live k r" for r using p(1) by (simp add: live_def f)
  have qs: "q \<in> set qs \<longleftrightarrow> live k q \<and> parent (PT k q) = Some p" for q using D(1) [of q p] by (simp add: qs_def)
  have qs1: "q \<in> set qs \<Longrightarrow> q \<noteq> 1 \<and> q \<noteq> p \<and> 1 < q" for q using qs [of q] D(2) [of q p] D(3) [of q] by force
  have one: "qs \<noteq> [] \<Longrightarrow> p \<noteq> 1 \<and> pstate (PT k 1) = ALIVE" using p(3) init by (auto simp: qs_def)
  have pnq: "p \<notin> set qs" using qs1 by blast
  have pp: "parent (PT k p) \<noteq> Some p" using D(2) [OF p(1), of p] by blast
  show "q \<in> set (children_list (PT k' c)) \<longleftrightarrow> live k' q \<and> parent (PT k' q) = Some c" for c q
  proof (cases "q \<in> set qs")
    case True
    then have "qs \<noteq> []" by auto
    with True one qs D(1) [of q c] show ?thesis by (auto simp: f live)
  next
    case False
    with qs [of q] D(1) [of q c] show ?thesis by (auto simp: f live)
  qed
  show "c < MAX_PROC \<and> c \<noteq> q \<and> pstate (PT k' c) = ALIVE" if "live k' q" "parent (PT k' q) = Some c" for c q
  proof (cases "q \<in> set qs")
    case True
    then have "qs \<noteq> []" by auto
    with one True that(2) qs1 [OF True] show ?thesis by (auto simp: f MAX_PROC_def)
  next
    case False
    with that have "parent (PT k q) = Some c" "live k q" by (simp_all add: f live)
    moreover from this False qs [of q] have "c \<noteq> p" by auto
    ultimately show ?thesis using D(2) [of q c] by (simp add: f)
  qed
  show "parent (PT k' q) = None \<longleftrightarrow> q \<le> 1" if "live k' q" for q
    using that D(3) [of q] qs1 [of q] by (auto simp: f live)
  have dq: "distinct qs" using D(4) by (simp add: qs_def)
  have "set qs \<inter> set (children_list (PT k 1)) = {}" if "p \<noteq> 1" using qs D(1) [of _ 1] that by auto
  then show "distinct (children_list (PT k' q))" for q using D(4) [of q] dq by (auto simp: f)
  have ex: "set (exited_list (PT k r)) \<subseteq> set (children_list (PT k r))" for r using D(6) [of r] by auto
  have pex: "p \<notin> set (exited_list (PT k r))" for r using D(6) [of r] p(2) by auto
  show "distinct (exited_list (PT k' q))" for q
  proof -
    have "set (exited_list (PT k 1)) \<inter> set (exited_list (PT k p)) = {}" if "p \<noteq> 1"
      using ex [of 1] ex [of p] D(1) [of _ 1] D(1) [of _ p] that by fastforce
    then show ?thesis using D(5) [of q] D(5) [of p] pex by (auto simp: f)
  qed
  show "set (exited_list (PT k' q)) = {r \<in> set (children_list (PT k' q)). pstate (PT k' r) = ZOMBIE}" for q
  proof (cases "q = p")
    case True
    then show ?thesis by (simp add: f)
  next
    case False
    have a: "set (exited_list (PT k q)) = {r \<in> set (children_list (PT k q)). pstate (PT k r) = ZOMBIE}" by (rule D(6))
    have b: "set (exited_list (PT k p)) = {r \<in> set qs. pstate (PT k r) = ZOMBIE}" unfolding qs_def by (rule D(6))
    have c: "p \<in> set (children_list (PT k q)) \<longleftrightarrow> parent (PT k p) = Some q" using D(1) [of p q] p(1) by simp
    have "set (exited_list (PT k' q)) = (if parent (PT k p) = Some q then {p} else {}) \<union>
        {r \<in> set (children_list (PT k q)). pstate (PT k r) = ZOMBIE} \<union> (if q = 1 then {r \<in> set qs. pstate (PT k r) = ZOMBIE} else {})"
      using False by (auto simp: f a b)
    also have "\<dots> = {r \<in> set (children_list (PT k' q)). pstate (PT k' r) = ZOMBIE}"
      using False c pnq by (auto simp: f)
    finally show ?thesis .
  qed
  obtain ps where ps: "free_pcbs k ps" "set ps = {q. q < MAX_PROC \<and> pstate (PT k q) = FREE}" using D(7) by blast
  have "free_chain k' (pcb_freelist k) ps = free_chain k (pcb_freelist k) ps"
  proof (rule free_chain_cong)
    fix r assume "r \<in> set ps"
    then have "\<not> live k r" using ps(2) by (simp add: live_def)
    then show "parent (PT k' r) = parent (PT k r)" using qs [of r] by (simp add: f)
  qed
  then have "free_pcbs k' ps" using ps(1) by (simp add: free_pcbs_def f)
  moreover have "set ps = {q. q < MAX_PROC \<and> pstate (PT k' q) = FREE}" using ps(2) p(1) by (auto simp: f live_def)
  ultimately show "\<exists>ps. free_pcbs k' ps \<and> set ps = {q. q < MAX_PROC \<and> pstate (PT k' q) = FREE}" by blast
  show "unat (process_count k') = card {q. live k' q}" using D(8) by (simp add: f live)
qed

section \<open>Descriptors of processes\<close>

text \<open>A process that is not alive has no descriptors.\<close>

definition fids_inv :: "kernel \<Rightarrow> bool" where
  "fids_inv k \<longleftrightarrow> (\<forall>p < MAX_PROC. \<forall>i < MAX_FILEID. pstate (PT k p) \<noteq> ALIVE \<longrightarrow> FIDT (PT k p) i = None)"

lemma fids_invD: "fids_inv k \<Longrightarrow> p < MAX_PROC \<Longrightarrow> i < MAX_FILEID \<Longrightarrow> pstate (PT k p) \<noteq> ALIVE \<Longrightarrow> FIDT (PT k p) i = None"
  by (simp add: fids_inv_def)

lemma inherit_fid_FIDT:
  "FIDT (PT (inherit_fid par p i k) q) j = (if q = p \<and> j = i then FIDT (PT k par) i else FIDT (PT k q) j)"
  by (auto simp: inherit_fid_def Let_def FCB_incref_def split: option.split)

lemma inherit_fids_FIDT:
  "distinct is \<Longrightarrow> par \<noteq> p \<Longrightarrow> FIDT (PT (fold (inherit_fid par p) is k) q) j =
     (if q = p \<and> j \<in> set is then FIDT (PT k par) j else FIDT (PT k q) j)"
  by (induction "is" arbitrary: k) (auto simp: inherit_fid_FIDT)

lemma inherit_fid_inv:
  assumes inv: "files_inv held k" and p: "p < MAX_PROC" "par < MAX_PROC" "i < MAX_FILEID"
    and none: "FIDT (PT k p) i = None" and h: "\<And>f. held f < 2 ^ 31"
  shows "files_inv held (inherit_fid par p i k)"
proof -
  have "files_inv held (set_fid p i None k) = files_inv held k"
    using none by (intro files_upto_cong) (auto simp: fun_eq_iff)
  then have inv0: "files_inv held (set_fid p i None k)" using inv by simp
  show ?thesis
  proof (cases "FIDT (PT k par) i")
    case None
    then show ?thesis using inv0 by (simp add: inherit_fid_def Let_def)
  next
    case (Some f)
    then have at: "fid_at k (par, i) = Some f" "(par, i) \<in> fid_slots" "(p, i) \<in> fid_slots"
      using p by (simp_all add: fid_at_def fid_slots_def)
    note B = slot_block [OF inv at(2,1)]
    from share_inv [OF inv0 at(3) B(1,2) h]
    have "files_inv held (set_fid p i (Some f) (FCB_incref f k))" .
    moreover have "files_inv held (inherit_fid par p i k) = files_inv held (set_fid p i (Some f) (FCB_incref f k))"
      by (rule files_upto_cong) (simp_all add: inherit_fid_def Let_def Some FCB_incref_def fun_eq_iff)
    ultimately show ?thesis by simp
  qed
qed

lemma inherit_fids_inv:
  "files_inv held k \<Longrightarrow> distinct is \<Longrightarrow> p \<noteq> par \<Longrightarrow> \<forall>i \<in> set is. i < MAX_FILEID \<and> FIDT (PT k p) i = None \<Longrightarrow>
     p < MAX_PROC \<Longrightarrow> par < MAX_PROC \<Longrightarrow> (\<And>f. held f < 2 ^ 31) \<Longrightarrow>
     files_inv held (fold (inherit_fid par p) is k)"
proof (induction "is" arbitrary: k)
  case Nil
  then show ?case by simp
next
  case (Cons i "is")
  have "files_inv held (inherit_fid par p i k)" using Cons.prems by (intro inherit_fid_inv) simp_all
  then show ?case using Cons by (simp add: inherit_fid_FIDT)
qed

text \<open>The creation of the first thread changes no table of files.\<close>

lemma exec_thread_files:
  assumes "exec_thread old p call n buf k = Inr k'"
  shows "FT k' = FT k" "FCB_freelist k' = FCB_freelist k" "FIDT (PT k' q) = FIDT (PT k q)"
proof -
  have "FT k' = FT k \<and> FCB_freelist k' = FCB_freelist k \<and> FIDT (PT k' q) = FIDT (PT k q)"
    using assms unfolding exec_thread_def Let_def
    by (elim bindE_elim2)
       (auto dest!: Create_PTCB_eq(1) copy_args_eq spawn_eq(1) simp: set_owner_ptcb_def on_sch_def
        elim!: bindE_elim bindE_elim2 split: if_splits)
  then show "FT k' = FT k" "FCB_freelist k' = FCB_freelist k" "FIDT (PT k' q) = FIDT (PT k q)" by simp_all
qed

lemma sys_Exec_effect:
  assumes tree: "tree_inv k" and fids: "fids_inv k" and files: "files_inv held k" and h: "\<And>f. held f < 2 ^ 31"
    and par: "CURPROC c k = Inr par" "par < MAX_PROC" "pstate (PT k par) = ALIVE"
    and a: "acquire_PCB k = (Some p, k1)" and r: "sys_Exec old c call n buf k = Inr (pid, k')"
  shows "pid = int p" "p < MAX_PROC" "pstate (PT k p) = FREE" "pstate (PT k' p) = ALIVE" "files_inv held k'" "fids_inv k'"
    and "1 < p \<Longrightarrow> parent (PT k' p) = Some par \<and> children_list (PT k' par) = p # children_list (PT k par)"
    and "i < MAX_FILEID \<Longrightarrow> FIDT (PT k' p) i = (if 1 < p then FIDT (PT k par) i else None)"
    and "q \<noteq> p \<Longrightarrow> FIDT (PT k' q) = FIDT (PT k q) \<and> pstate (PT k' q) = pstate (PT k q)"
proof -
  note A = acquired_pcb [OF tree a]
  from r a obtain k2 where e: "exec_parent c p k1 = Inr k2" "exec_thread old p call n buf k2 = Inr k'" "pid = int p"
    by (auto simp: sys_Exec_def get_pid_def elim!: bindE_elim)
  have cc: "cc k1 = cc k" using A(3) by simp
  have pp: "p \<noteq> par" using A(2) par(3) by auto
  define k1' where "k1' = (if p \<le> 1 then upd_pcb p (\<lambda>b. b\<lparr>parent := None\<rparr>) k1 else adopt par p k1)"
  have k2: "k2 = (if p \<le> 1 then k1' else fold (inherit_fid par p) [0..<MAX_FILEID] k1')"
    using e(1) par(1) CURPROC_cong [OF cc] by (auto simp: exec_parent_def k1'_def split: if_splits)
  have f1: "FIDT (PT k1' q) = FIDT (PT k q)" "FT k1' = FT k" "FCB_freelist k1' = FCB_freelist k"
      "pstate (PT k1' q) = (if q = p then ALIVE else pstate (PT k q))" for q
    by (auto simp: k1'_def A(3) adopt_def)
  have t2: "same_tree k1' k2" unfolding k2 by (simp add: same_tree_fold same_tree_inherit)
  have t: "same_tree k1' k'" using t2 exec_thread_tree [OF e(2)] by (rule same_tree_trans)
  note F = exec_thread_files [OF e(2)]
  have none: "FIDT (PT k p) i = None" if "i < MAX_FILEID" for i using fids_invD [OF fids A(1) that] A(2) by simp
  have F2: "FIDT (PT k2 q) j = (if 1 < p \<and> q = p \<and> j < MAX_FILEID then FIDT (PT k par) j else FIDT (PT k q) j)" for q j
    using pp by (auto simp: k2 inherit_fids_FIDT f1)
  have "files_inv held k1' = files_inv held k" by (rule files_upto_cong) (simp_all add: f1)
  then have I1: "files_inv held k1'" using files by simp
  have I2: "files_inv held k2"
  proof (cases "p \<le> 1")
    case False
    have "files_inv held (fold (inherit_fid par p) [0..<MAX_FILEID] k1')"
      using I1 pp none A(1) par(2) h by (intro inherit_fids_inv) (simp_all add: f1)
    with False k2 show ?thesis by simp
  qed (use I1 k2 in simp)
  have "files_inv held k' = files_inv held k2" by (rule files_upto_cong) (simp_all add: F)
  with I2 show "files_inv held k'" by simp
  show "pid = int p" "p < MAX_PROC" "pstate (PT k p) = FREE" using e(3) A by simp_all
  show al: "pstate (PT k' p) = ALIVE" using t f1(4) [of p] by (simp add: same_tree_def)
  show "parent (PT k' p) = Some par \<and> children_list (PT k' par) = p # children_list (PT k par)" if "1 < p"
    using that t pp by (simp add: same_tree_def k1'_def adopt_def A(3))
  show "FIDT (PT k' p) i = (if 1 < p then FIDT (PT k par) i else None)" if "i < MAX_FILEID"
    using that F(3) [of p] F2 [of p i] none by simp
  show "FIDT (PT k' q) = FIDT (PT k q) \<and> pstate (PT k' q) = pstate (PT k q)" if "q \<noteq> p" for q
    using that F(3) [of q] F2 [of q] t f1(4) [of q] by (auto simp: same_tree_def fun_eq_iff)
  show "fids_inv k'" unfolding fids_inv_def
  proof (intro allI impI)
    fix q i assume "q < MAX_PROC" "i < MAX_FILEID" "pstate (PT k' q) \<noteq> ALIVE"
    moreover from this al have "q \<noteq> p" by auto
    ultimately show "FIDT (PT k' q) i = None"
      using fids_invD [OF fids, of q i] F(3) [of q] F2 [of q i] t f1(4) [of q] by (simp add: same_tree_def)
  qed
qed

end
