(* ===== verification/ProcSpec.thy ===== *)
theory ProcSpec
  imports ProcTree
begin

text \<open>
  What processes promise: the process tree in every interleaving of the system calls, what
  \<^verbatim>\<open>Exec\<close> hands to a child, what a parent learns of an exit, and where the code breaks.
\<close>

section \<open>The first process\<close>

lemma initialize_PCBs:
  "pstate (PT (fold initialize_PCB [0..<n] k) p) = (if p < n then FREE else pstate (PT k p))"
  "children_list (PT (fold initialize_PCB [0..<n] k) p) = (if p < n then [] else children_list (PT k p))"
  "exited_list (PT (fold initialize_PCB [0..<n] k) p) = (if p < n then [] else exited_list (PT k p))"
  "FIDT (PT (fold initialize_PCB [0..<n] k) p) i = (if p < n \<and> i < MAX_FILEID then None else FIDT (PT k p) i)"
  by (induction n) (auto simp: initialize_PCB_def cond_init_def less_Suc_eq)

lemma push_free_chain:
  "distinct ps \<Longrightarrow> free_chain (fold push_free (rev ps) (k\<lparr>pcb_freelist := None\<rparr>))
     (pcb_freelist (fold push_free (rev ps) (k\<lparr>pcb_freelist := None\<rparr>))) ps"
proof (induction ps)
  case Nil
  then show ?case by simp
next
  case (Cons p ps)
  define j where "j = fold push_free (rev ps) (k\<lparr>pcb_freelist := None\<rparr>)"
  have "free_chain (push_free p j) (pcb_freelist j) ps = free_chain j (pcb_freelist j) ps"
    using Cons.prems by (intro free_chain_cong) (auto simp: push_free_def)
  moreover have "pcb_freelist (push_free p j) = Some p" "parent (PT (push_free p j) p) = pcb_freelist j"
    by (simp_all add: push_free_def)
  ultimately show ?case using Cons by (simp add: j_def [symmetric])
qed

lemma push_free_frame:
  "pstate (PT (fold push_free ps k) p) = pstate (PT k p)"
  "children_list (PT (fold push_free ps k) p) = children_list (PT k p)"
  "exited_list (PT (fold push_free ps k) p) = exited_list (PT k p)"
  by (induction ps arbitrary: k) (simp_all add: push_free_def)

text \<open>There is nothing outside the process table.\<close>

definition nothing_outside :: "kernel \<Rightarrow> bool" where
  "nothing_outside k \<longleftrightarrow> (\<forall>p \<ge> MAX_PROC. children_list (PT k p) = [] \<and> exited_list (PT k p) = [])"

lemma empty_tree_inv:
  assumes out: "nothing_outside k"
  shows "tree_inv ((fold push_free (rev [0..<MAX_PROC]) (fold initialize_PCB [0..<MAX_PROC] k\<lparr>pcb_freelist := None\<rparr>))\<lparr>process_count := 0\<rparr>)"
proof -
  define k1 where "k1 = fold initialize_PCB [0..<MAX_PROC] k"
  define j where "j = (fold push_free (rev [0..<MAX_PROC]) (k1\<lparr>pcb_freelist := None\<rparr>))\<lparr>process_count := 0\<rparr>"
  have f: "pstate (PT j p) = (if p < MAX_PROC then FREE else pstate (PT k p))"
      "children_list (PT j p) = []" "exited_list (PT j p) = []" for p
    using out by (simp_all add: j_def push_free_frame k1_def initialize_PCBs nothing_outside_def)
  have live: "\<not> live j p" for p by (simp add: live_def f)
  have ch: "free_pcbs j [0..<MAX_PROC]"
  proof -
    define i where "i = fold push_free (rev [0..<MAX_PROC]) (k1\<lparr>pcb_freelist := None\<rparr>)"
    have "free_chain i (pcb_freelist i) [0..<MAX_PROC]"
      unfolding i_def by (rule push_free_chain) simp
    moreover have "j = i\<lparr>process_count := 0\<rparr>" by (simp add: j_def i_def)
    moreover have "free_chain (i\<lparr>process_count := 0\<rparr>) (pcb_freelist i) ps = free_chain i (pcb_freelist i) ps" for ps
      by (rule free_chain_cong) simp
    ultimately show ?thesis by (simp add: free_pcbs_def)
  qed
  have "tree_inv j"
  proof (rule tree_invI)
    show "\<exists>ps. free_pcbs j ps \<and> set ps = {p. p < MAX_PROC \<and> pstate (PT j p) = FREE}"
      using ch by (intro exI [of _ "[0..<MAX_PROC]"]) (auto simp: f)
    show "unat (process_count j) = card {p. live j p}" by (simp add: live) (simp add: j_def)
  qed (simp_all add: live f)
  then show ?thesis by (simp add: j_def k1_def)
qed

section \<open>The exit of the initial process\<close>

lemma wait_loop_cc:
  "wait_any_loop par k = Inr (out, k') \<Longrightarrow> cc k' = cc k"
  "wait_specific_loop par q k = Inr (out, k') \<Longrightarrow> cc k' = cc k"
  by (auto simp: wait_any_loop_def wait_specific_loop_def reap_def cleanup_zombie_def release_PCB_def
      unlink_child_def Let_def elim!: bindE_elim split: list.splits if_splits)

lemma wait_any_alive:
  assumes "wait_any_loop par k = Inr (out, k')" "pstate (PT k p) = ALIVE"
  shows "pstate (PT k' p) = ALIVE"
  using assms by (auto simp: wait_any_loop_def reap_def cleanup_zombie_def release_PCB_def
      unlink_child_def Let_def elim!: bindE_elim split: list.splits if_splits)

text \<open>A call that waits for any child and returns \<^verbatim>\<open>NOPROC\<close> has found no children.\<close>

lemma wait_any_cases:
  assumes "CURPROC c k = Inr par" "sys_WaitChild c NOPROC k = Inr (out, k')"
  shows "children_list (PT k par) = [] \<and> out = outcome.Done (NOPROC, None) \<and> k' = k \<or>
    children_list (PT k par) \<noteq> [] \<and> wait_any_loop par k = Inr (out, k')"
  using assms by (auto simp: sys_WaitChild_def wait_for_any_child_def split: if_splits)

lemma wait_any_result:
  assumes "wait_any_loop par k = Inr (outcome.Done (pid, v), k')"
  obtains q where "pid = int q" "q \<in> set (exited_list (PT k par))" "pstate (PT k q) = ZOMBIE"
    "v = Some (exitval (PT k q))" "k' = release_PCB q (unlink_child q k)"
  using assms by (cases "exited_list (PT k par)")
    (auto simp: wait_any_loop_def reap_def cleanup_zombie_def get_pid_def elim!: bindE_elim)

text \<open>\<open>reaped k k'\<close>: from \<open>k\<close> to \<open>k'\<close> zombies may have been reaped; files and descriptors are as they were.\<close>

definition reaped :: "kernel \<Rightarrow> kernel \<Rightarrow> bool" where
  "reaped k k' \<longleftrightarrow> FT k' = FT k \<and> FCB_freelist k' = FCB_freelist k \<and>
     (\<forall>q. FIDT (PT k' q) = FIDT (PT k q) \<and> (pstate (PT k' q) = ALIVE \<longleftrightarrow> pstate (PT k q) = ALIVE))"

lemma reaped_refl [simp]: "reaped k k"
  by (simp add: reaped_def)

lemma reaped_trans [trans]: "reaped k k1 \<Longrightarrow> reaped k1 k2 \<Longrightarrow> reaped k k2"
  by (simp add: reaped_def)

lemma wait_loops_reaped:
  "wait_any_loop par k = Inr (out, k') \<Longrightarrow> reaped k k'"
  "wait_specific_loop par q k = Inr (out, k') \<Longrightarrow> reaped k k'"
  by (auto simp: wait_any_loop_def wait_specific_loop_def reap_def cleanup_zombie_def release_PCB_def
      unlink_child_def reaped_def Let_def elim!: bindE_elim split: list.splits if_splits)

lemma sys_WaitChild_reaped: "sys_WaitChild c cpid k = Inr (out, k') \<Longrightarrow> reaped k k'"
  by (auto simp: sys_WaitChild_def wait_for_any_child_def wait_for_specific_child_def
      elim!: bindE_elim split: if_splits option.splits dest: wait_loops_reaped)

text \<open>
  \<open>ends c v k k'\<close>: after some reaping the process on core \<open>c\<close> goes on to wait, or does all of
  \<open>exit_process\<close>; if it is the initial process, it has no children left then.
\<close>

definition ends :: "nat \<Rightarrow> int \<Rightarrow> kernel \<Rightarrow> kernel \<Rightarrow> bool" where
  "ends c v k k' \<longleftrightarrow> (\<exists>k1 q. reaped k k1 \<and> tree_inv k1 \<and> CURPROC c k1 = Inr q \<and> live k1 q \<and>
     pstate (PT k1 q) = ALIVE \<and> pstate (PT k1 1) = ALIVE \<and> (q = 1 \<longrightarrow> children_list (PT k1 1) = []) \<and>
     exit_process c v k1 = Inr k') \<or> reaped k k' \<and> tree_inv k'"

lemma ends_reaped: "reaped k k1 \<Longrightarrow> ends c v k1 k' \<Longrightarrow> ends c v k k'"
  unfolding ends_def using reaped_trans by blast

lemma ends_inv:
  assumes "ends c v k k'"
  shows "tree_inv k'"
proof -
  consider k1 q where "tree_inv k1" "CURPROC c k1 = Inr q" "live k1 q" "pstate (PT k1 q) = ALIVE" "pstate (PT k1 1) = ALIVE"
      "q = 1 \<longrightarrow> children_list (PT k1 1) = []" "exit_process c v k1 = Inr k'"
    | "tree_inv k'"
    using assms unfolding ends_def by blast
  then show ?thesis
  proof cases
    case 1
    have "exited q v k1 k'" using 1(6) by (intro exit_process_exited(1) [OF 1(1-3) _ 1(7)]) simp
    then show ?thesis by (rule exited_inv [OF 1(1,3,4), rotated 2]) (use 1(5,6) in auto)
  qed
qed

lemma init_ends:
  assumes "tree_inv k" "CURPROC c k = Inr 1" "pstate (PT k 1) = ALIVE" "children_list (PT k 1) = []" "exit_process c v k = Inr k'"
  shows "ends c v k k'"
proof -
  have "live k 1" using assms(3) by (simp add: live_def MAX_PROC_def)
  then show ?thesis unfolding ends_def using assms reaped_refl [of k] by blast
qed

lemma exit_loop_ends:
  "tree_inv k \<Longrightarrow> CURPROC c k = Inr 1 \<Longrightarrow> pstate (PT k 1) = ALIVE \<Longrightarrow>
     (\<And>v. out = outcome.Done (NOPROC, v) \<Longrightarrow> children_list (PT k 1) = []) \<Longrightarrow>
     exit_loop n c v (out, k) = Inr (out', k') \<Longrightarrow> ends c v k k'"
proof (induction n arbitrary: out k)
  case n: 0
  show ?case
  proof (cases out)
    case (Wait cv cause t pc)
    with n show ?thesis by (auto simp: ends_def)
  next
    case (Done x)
    obtain pid w where x: "x = (pid, w)" by (cases x)
    with Done n have pid: "pid = NOPROC" and e: "exit_process c v k = Inr k'"
      by (auto split: if_splits elim!: bindE_elim)
    have ch: "children_list (PT k 1) = []" using n(4) Done x pid by blast
    from init_ends [OF n(1-3) ch e] show ?thesis .
  qed
next
  case (Suc m)
  show ?case
  proof (cases out)
    case (Wait cv cause t pc)
    with Suc show ?thesis by (auto simp: ends_def)
  next
    case (Done x)
    obtain pid w where x: "x = (pid, w)" by (cases x)
    show ?thesis
    proof (cases "pid = NOPROC")
      case True
      with Suc.prems(5) Done x have e: "exit_process c v k = Inr k'" by (auto elim!: bindE_elim)
      have ch: "children_list (PT k 1) = []" using Suc.prems(4) Done x True by blast
      from init_ends [OF Suc.prems(1-3) ch e] show ?thesis .
    next
      case False
      with Suc.prems(5) Done x obtain o2 k2 where w: "sys_WaitChild c NOPROC k = Inr (o2, k2)"
          "exit_loop m c v (o2, k2) = Inr (out', k')"
        by (auto elim!: bindE_elim)
      have W: "children_list (PT k 1) = [] \<and> o2 = outcome.Done (NOPROC, None) \<and> k2 = k \<or>
          children_list (PT k 1) \<noteq> [] \<and> wait_any_loop 1 k = Inr (o2, k2)"
        by (rule wait_any_cases [OF Suc.prems(2) w(1)])
      have "tree_inv k2" by (rule sys_WaitChild_inv [OF Suc.prems(1) w(1)])
      moreover have "CURPROC c k2 = Inr 1"
        using W Suc.prems(2) CURPROC_cong [of k2 k c] wait_loop_cc(1) by auto
      moreover have "pstate (PT k2 1) = ALIVE" using W Suc.prems(3) wait_any_alive by auto
      moreover have "children_list (PT k2 1) = []" if "o2 = outcome.Done (NOPROC, u)" for u
        using W that by (auto simp: NOPROC_def elim!: wait_any_result)
      ultimately have "ends c v k2 k'" using w(2) by (rule Suc.IH) blast
      with sys_WaitChild_reaped [OF w(1)] show ?thesis by (rule ends_reaped)
    qed
  qed
qed

lemma sys_Exit_ends:
  assumes inv: "tree_inv k" and p: "CURPROC c k = Inr p" "live k p" "pstate (PT k p) = ALIVE" "pstate (PT k 1) = ALIVE"
    and r: "sys_Exit c v k = Inr (out, k')"
  shows "ends c v k k'"
proof (cases "p = 1")
  case True
  with r p(1) obtain o2 k2 where w: "sys_WaitChild c NOPROC k = Inr (o2, k2)"
      "exit_loop (unat (process_count k)) c v (o2, k2) = Inr (out, k')"
    by (auto simp: sys_Exit_def sys_GetPid_def get_pid_def elim!: bindE_elim)
  have c1: "CURPROC c k = Inr 1" using p(1) True by simp
  have W: "children_list (PT k 1) = [] \<and> o2 = outcome.Done (NOPROC, None) \<and> k2 = k \<or>
          children_list (PT k 1) \<noteq> [] \<and> wait_any_loop 1 k = Inr (o2, k2)"
    by (rule wait_any_cases [OF c1 w(1)])
  have "tree_inv k2" by (rule sys_WaitChild_inv [OF inv w(1)])
  moreover have "CURPROC c k2 = Inr 1" using W c1 CURPROC_cong [of k2 k c] wait_loop_cc(1) by auto
  moreover have "pstate (PT k2 1) = ALIVE" using W p(4) wait_any_alive by auto
  moreover have "children_list (PT k2 1) = []" if "o2 = outcome.Done (NOPROC, u)" for u
    using W that by (auto simp: NOPROC_def elim!: wait_any_result)
  ultimately have "ends c v k2 k'" using w(2) by (rule exit_loop_ends) blast
  with sys_WaitChild_reaped [OF w(1)] show ?thesis by (rule ends_reaped)
next
  case False
  with r p(1) have e: "exit_process c v k = Inr k'"
    by (auto simp: sys_Exit_def sys_GetPid_def get_pid_def elim!: bindE_elim)
  have "q = 1 \<longrightarrow> children_list (PT k 1) = []" if "q = p" for q using that False by simp
  with inv p e show ?thesis unfolding ends_def using reaped_refl [of k] by blast
qed

lemma sys_Exit_resume_ends:
  assumes inv: "tree_inv k" and p: "CURPROC c k = Inr 1" "pstate (PT k 1) = ALIVE"
    and r: "sys_Exit_resume c v (1, None) k = Inr (out, k')"
  shows "ends c v k k'"
proof -
  obtain o2 k2 where w: "wait_any_loop 1 k = Inr (o2, k2)" "exit_loop (unat (process_count k)) c v (o2, k2) = Inr (out, k')"
    using r by (auto simp: sys_Exit_resume_def sys_WaitChild_resume_def elim!: bindE_elim)
  have "tree_inv k2" by (rule wait_loops_inv(1) [OF inv w(1)])
  moreover have "CURPROC c k2 = Inr 1" using p(1) CURPROC_cong [OF wait_loop_cc(1) [OF w(1)]] by simp
  moreover have "pstate (PT k2 1) = ALIVE" by (rule wait_any_alive [OF w(1) p(2)])
  moreover have "children_list (PT k2 1) = []" if "o2 = outcome.Done (NOPROC, u)" for u
    using w(1) that by (auto simp: NOPROC_def elim!: wait_any_result)
  ultimately have "ends c v k2 k'" using w(2) by (rule exit_loop_ends) blast
  with wait_loops_reaped(1) [OF w(1)] show ?thesis by (rule ends_reaped)
qed

section \<open>Interleavings\<close>

text \<open>
  Calls of processes on any core, whole or from where they waited. The rest of the kernel, in
  particular the scheduler, may do anything that keeps out of the process tree. \<^verbatim>\<open>Exec\<close> and \<^verbatim>\<open>Exit\<close>
  come from a process that is alive. The label of a step tells the waits that resume, with the child they wait for, and
  the exits from other steps.
\<close>

datatype event = Plain_call | Resume_wait "nat option" | Exit_call

inductive proc_step :: "event \<Rightarrow> kernel \<Rightarrow> kernel \<Rightarrow> bool" where
  exec: "(\<And>par. CURPROC c k = Inr par \<Longrightarrow> par < MAX_PROC \<and> pstate (PT k par) = ALIVE) \<Longrightarrow>
     sys_Exec old c call n buf k = Inr (pid, k') \<Longrightarrow> proc_step Plain_call k k'"
| wait: "sys_WaitChild c cpid k = Inr (out, k') \<Longrightarrow> proc_step Plain_call k k'"
| wait_on: "sys_WaitChild_resume (par, child) k = Inr (out, k') \<Longrightarrow> proc_step (Resume_wait child) k k'"
| exit: "CURPROC c k = Inr p \<Longrightarrow> live k p \<Longrightarrow> pstate (PT k p) = ALIVE \<Longrightarrow>
     sys_Exit c v k = Inr (r, k') \<Longrightarrow> proc_step Exit_call k k'"
| exit_on: "CURPROC c k = Inr 1 \<Longrightarrow> sys_Exit_resume c v (1, None) k = Inr (r, k') \<Longrightarrow> proc_step Exit_call k k'"
| other: "same_tree k k' \<Longrightarrow> proc_step Plain_call k k'"

text \<open>
  The code does not look whether a child that a wait has slept for is still there: another
  thread that waits for the same child may have reaped it, and then the wait that resumes reaps it again (C38). It does not
  look either whether the initial process, which inherits the children of others, is still
  there. A step is regular when it does not run into one of these. The first takes two threads that wait for the same
  child, or a process that exits while one of its threads waits; as to the second, the \<^verbatim>\<open>Exit\<close> of the initial
  process waits for all others.
\<close>

definition regular :: "event \<Rightarrow> kernel \<Rightarrow> bool" where
  "regular e k = (case e of
     Plain_call \<Rightarrow> True
   | Resume_wait child \<Rightarrow> (case child of None \<Rightarrow> True | Some q \<Rightarrow> live k q)
   | Exit_call \<Rightarrow> pstate (PT k 1) = ALIVE)"

definition regular_step :: "kernel \<Rightarrow> kernel \<Rightarrow> bool" where
  "regular_step k k' \<longleftrightarrow> (\<exists>e. proc_step e k k' \<and> regular e k)"

lemma proc_step_inv: "proc_step e k k' \<Longrightarrow> tree_inv k \<Longrightarrow> regular e k \<Longrightarrow> tree_inv k'"
proof (induction rule: proc_step.induct)
  case (exec c k old call n buf pid k')
  from sys_Exec_inv [OF exec(3) exec(1) exec(2)] show ?case .
next
  case (wait c cpid k out k')
  from sys_WaitChild_inv [OF wait(2,1)] show ?case .
next
  case (wait_on par child k out k')
  show ?case
  proof (cases child)
    case None
    with wait_on(1) show ?thesis
      using wait_loops_inv(1) [OF wait_on(2)] by (simp add: sys_WaitChild_resume_def)
  next
    case (Some q)
    with wait_on(1,3) show ?thesis
      using wait_loops_inv(2) [OF wait_on(2), of q par out k'] by (simp add: sys_WaitChild_resume_def regular_def)
  qed
next
  case (exit c k p v r k')
  have init: "pstate (PT k 1) = ALIVE" using exit(6) by (simp add: regular_def)
  from ends_inv [OF sys_Exit_ends [OF exit(5,1-3) init exit(4)]] show ?case .
next
  case (exit_on c k v r k')
  have init: "pstate (PT k 1) = ALIVE" using exit_on(4) by (simp add: regular_def)
  from ends_inv [OF sys_Exit_resume_ends [OF exit_on(3,1) init exit_on(2)]] show ?case .
next
  case (other k k')
  then show ?case by (simp add: same_tree_inv)
qed

lemma proc_steps_inv: "regular_step\<^sup>*\<^sup>* k k' \<Longrightarrow> tree_inv k \<Longrightarrow> tree_inv k'"
  by (induction rule: rtranclp_induct) (auto simp: regular_step_def intro: proc_step_inv)

section \<open>An exit succeeds\<close>

lemma broadcast_total:
  assumes "cc_inv (cc k)"
  obtains s where "k_broadcast cv k = Inr (k\<lparr>cc := s\<rparr>)" "cc_inv s"
proof -
  obtain s where "on_cc (Cond_Broadcast cv) k = Inr (k\<lparr>cc := s\<rparr>)" "woken cv (waitset (cc k) cv) (cc k) s"
    by (rule on_cc_broadcast [OF assms])
  with wokenD(1) that show ?thesis by (auto simp: k_broadcast_def on_cc_def kernel_broadcast_def)
qed

lemma sleep_total:
  assumes "cc_inv (cc k)"
  shows "\<exists>s. k_sleep c k = Inr (k\<lparr>cc := s\<rparr>)"
proof -
  obtain s where "cv_signal Kernel_sem_cv ((cc k)\<lparr>kernel_sem := kernel_sem (cc k) + 1\<rparr>) = Inr s"
    using cv_signal_ok [of "(cc k)\<lparr>kernel_sem := kernel_sem (cc k) + 1\<rparr>" Kernel_sem_cv] assms by auto
  then show ?thesis
    by (auto simp: k_sleep_def on_cc_def kernel_sleep_enter_def kernel_unlock_def Cond_Signal_def sleep_enter_def Let_def)
qed

lemma close_none:
  "\<forall>i \<in> set is. FIDT (PT k p) i = None \<Longrightarrow> fold (close_fid c p) is (Inr k) = Inr k"
  by (induction "is") (simp_all add: close_fid_def)

text \<open>Without open descriptors and children nothing can go wrong.\<close>

lemma exit_process_total:
  assumes cc: "cc_inv (cc k)" and p: "CURPROC c k = Inr p" "main_thread (PT k p) = Some a" "ptcbs k a = Some t"
    and none: "\<And>i. i < MAX_FILEID \<Longrightarrow> FIDT (PT k p) i = None" and ch: "children_list (PT k p) = []" "exited_list (PT k p) = []"
  shows "\<exists>k'. exit_process c v k = Inr k'"
proof -
  define k1 where "k1 = (if args t \<noteq> No_args then upd_ptcb a (\<lambda>t. t\<lparr>args := No_args\<rparr>) k else k)"
  have k1: "free_args p k = Inr k1" using p by (simp add: free_args_def k1_def)
  have f: "PT k1 = PT k" "cc k1 = cc k" by (simp_all add: k1_def)
  have k2: "close_all c p k1 = Inr k1" using none by (simp add: close_all_def close_none f)
  have k4: "give_exited p (get_pcb 1 k1) k1 = Inr k1" using ch by (simp add: give_exited_def f)
  have "\<exists>k5. tell_parent p k1 = Inr k5 \<and> main_thread (PT k5 p) = Some a \<and> cc_inv (cc k5)"
  proof (cases "parent (PT k1 p)")
    case None
    then show ?thesis using p cc by (simp add: tell_parent_def f)
  next
    case (Some q)
    define j where "j = upd_pcb q (\<lambda>b. b\<lparr>exited_list := p # exited_list b\<rparr>) k1"
    have "cc_inv (cc j)" using cc by (simp add: j_def f)
    then obtain s where "k_broadcast (Child_exit q) j = Inr (j\<lparr>cc := s\<rparr>)" "cc_inv s" by (rule broadcast_total)
    then show ?thesis using Some p(2) by (cases "p = q") (simp_all add: tell_parent_def j_def f)
  qed
  then obtain k5 where k5: "tell_parent p k1 = Inr k5" "main_thread (PT k5 p) = Some a" "cc_inv (cc k5)" by blast
  then obtain k6 where k6: "become_zombie p v k5 = Inr k6" "cc_inv (cc k6)" by (simp add: become_zombie_def)
  from sleep_total [OF k6(2)] obtain s where "k_sleep c k6 = Inr (k6\<lparr>cc := s\<rparr>)" by blast
  then show ?thesis using p(1) k1 k2 k4 k5 k6 ch by (simp add: exit_process_def Let_def f)
qed

section \<open>An example\<close>

text \<open>
  Process 2 is a child of the initial process and runs on core 0; \<open>z\<close> is the state of its child 3,
  or \<open>FREE\<close> if it has none. Nobody has open files.
\<close>

definition some_ptcb :: ptcb where
  "some_ptcb = \<lparr>powner = 2, pthread = Some (Thr 4), pexitval = 0, waiting_threads = 0, detached = True,
     main_task = Some 7, argl = 2, args = Owned [65, 0]\<rparr>"

definition procs_kernel :: "pid_state \<Rightarrow> kernel" where
  "procs_kernel z = files_kernel\<lparr>PT := (\<lambda>p.
     if p = 0 then example_pcb\<lparr>pstate := ALIVE, main_thread := Some 9\<rparr>
     else if p = 1 then example_pcb\<lparr>pstate := ALIVE, main_thread := Some 9, children_list := [2]\<rparr>
     else if p = 2 then example_pcb\<lparr>pstate := ALIVE, parent := Some 1, main_thread := Some 9,
       children_list := (if z = FREE then [] else [3]), exited_list := (if z = ZOMBIE then [3] else [])\<rparr>
     else if p = 3 \<and> z \<noteq> FREE then example_pcb\<lparr>pstate := z, parent := Some 2, exitval := 42,
       main_thread := (if z = ALIVE then Some 9 else None)\<rparr>
     else if Suc p < MAX_PROC then example_pcb\<lparr>parent := Some (Suc p)\<rparr> else example_pcb),
   pcb_freelist := Some (if z = FREE then 3 else 4), process_count := (if z = FREE then 3 else 4),
   ptcbs := [9 \<mapsto> some_ptcb], FCB_freelist := [0..<MAX_FILES]\<rparr>"

lemma procs_sel:
  "pstate (PT (procs_kernel z) p) = (if p \<le> 2 then ALIVE else if p = 3 then z else FREE)"
  "children_list (PT (procs_kernel z) p) = (if p = 1 then [2] else if p = 2 \<and> z \<noteq> FREE then [3] else [])"
  "exited_list (PT (procs_kernel z) p) = (if p = 2 \<and> z = ZOMBIE then [3] else [])"
  "FIDT (PT (procs_kernel z) p) i = None" "ptcbs (procs_kernel z) = [9 \<mapsto> some_ptcb]"
  "pcb_freelist (procs_kernel z) = Some (if z = FREE then 3 else 4)"
  "process_count (procs_kernel z) = (if z = FREE then 3 else 4)" "cc (procs_kernel z) = cc files_kernel"
  "malloc_ok (procs_kernel z) n" "FCB_freelist (procs_kernel z) = [0..<MAX_FILES]"
  "exitval (PT (procs_kernel z) 3) = (if z = FREE then 0 else 42)"
  by (auto simp: procs_kernel_def example_pcb_def files_kernel_def piped_kernel_def example_kernel_def)

lemma procs_parent:
  "parent (PT (procs_kernel z) p) = (if p \<le> 1 then None else if p = 2 then Some 1 else if p = 3 \<and> z \<noteq> FREE then Some 2
     else if Suc p < MAX_PROC then Some (Suc p) else None)"
  by (auto simp: procs_kernel_def example_pcb_def)

lemma procs_main:
  "main_thread (PT (procs_kernel z) p) = (if p \<le> 2 \<or> p = 3 \<and> z = ALIVE then Some 9 else None)"
  by (auto simp: procs_kernel_def example_pcb_def)

lemma procs_live: "live (procs_kernel z) p \<longleftrightarrow> p \<le> 2 \<or> p = 3 \<and> z \<noteq> FREE"
  by (auto simp: live_def procs_sel MAX_PROC_def)

lemma procs_proc: "CURPROC c (procs_kernel z) = CURPROC c files_kernel" "CURPROC 0 (procs_kernel z) = Inr 2"
  using CURPROC_cong [of "procs_kernel z" files_kernel] by (simp_all add: procs_sel files_kernel_proc)

lemma upward_chain:
  assumes "\<And>p. m \<le> p \<Longrightarrow> p < n \<Longrightarrow> parent (PT k p) = (if Suc p < n then Some (Suc p) else None)" "m < n"
  shows "free_chain k (Some m) [m..<n]"
  using assms
proof (induction "n - m" arbitrary: m)
  case 0
  then show ?case by simp
next
  case (Suc d)
  have e: "[m..<n] = m # [Suc m..<n]" using Suc.prems(2) by (rule upt_conv_Cons)
  show ?case
  proof (cases "Suc m < n")
    case True
    then have "free_chain k (Some (Suc m)) [Suc m..<n]" using Suc by simp
    with True Suc.prems show ?thesis by (simp add: e)
  next
    case False
    with Suc.prems show ?thesis by (simp add: e)
  qed
qed

lemma procs_inv: "tree_inv (procs_kernel z)"
proof (rule tree_invI)
  let ?k = "procs_kernel z"
  define m where "m = (if z = FREE then 3 else 4 :: nat)"
  have "free_chain ?k (Some m) [m..<MAX_PROC]"
    by (rule upward_chain) (auto simp: procs_parent m_def MAX_PROC_def split: if_splits)
  then have "free_pcbs ?k [m..<MAX_PROC]" by (simp add: free_pcbs_def procs_sel m_def)
  moreover have "set [m..<MAX_PROC] = {p. p < MAX_PROC \<and> pstate (PT ?k p) = FREE}"
    by (auto simp: procs_sel m_def split: if_splits)
  ultimately show "\<exists>ps. free_pcbs ?k ps \<and> set ps = {p. p < MAX_PROC \<and> pstate (PT ?k p) = FREE}" by blast
  have "{p. live ?k p} = (if z = FREE then {0, 1, 2} else {0, 1, 2, 3})" by (auto simp: procs_live)
  then show "unat (process_count ?k) = card {p. live ?k p}" by (simp add: procs_sel)
  show "q \<in> set (children_list (PT ?k p)) \<longleftrightarrow> live ?k q \<and> parent (PT ?k q) = Some p" for p q
    by (auto simp: procs_sel procs_live procs_parent split: if_splits)
  show "p < MAX_PROC \<and> p \<noteq> q \<and> pstate (PT ?k p) = ALIVE" if "live ?k q" "parent (PT ?k q) = Some p" for p q
    using that by (auto simp: procs_sel procs_live procs_parent MAX_PROC_def split: if_splits)
  show "parent (PT ?k q) = None \<longleftrightarrow> q \<le> 1" if "live ?k q" for q
    using that by (auto simp: procs_live procs_parent MAX_PROC_def)
  show "set (exited_list (PT ?k p)) = {q \<in> set (children_list (PT ?k p)). pstate (PT ?k q) = ZOMBIE}" for p
    by (auto simp: procs_sel split: if_splits)
qed (simp_all add: procs_sel)

lemma procs_files: "files_inv (\<lambda>_. 0) (procs_kernel z)"
proof (rule files_uptoI)
  have "refs (procs_kernel z) f = 0" for f by (simp add: refs_def fid_at_def procs_sel split: prod.splits)
  then show "refs (procs_kernel z) f + 0 = 0 \<and> f \<notin> {}" for f by simp
qed (auto simp: procs_sel fid_at_def split: prod.splits)

lemma procs_fids: "fids_inv (procs_kernel z)"
  by (simp add: fids_inv_def procs_sel)

lemma procs_cc: "cc_inv (cc (procs_kernel z))"
  by (simp add: procs_sel files_kernel_def example_cc_owner_inv)

section \<open>The properties of processes\<close>

text \<open>
  C3: the process table stays well formed. In the interleavings of \<^verbatim>\<open>Exec\<close>, \<^verbatim>\<open>WaitChild\<close> and
  \<^verbatim>\<open>Exit\<close> of live processes on any core, with waits that resume in any order, in which no wait resumes after another
  thread has reaped its child (C38 shows what happens then) and no process exits after the initial one: a process is on the
  list of children of
  exactly its parent, which is alive; the list of exited children of a process holds its zombies,
  each once; the free list holds the free blocks, each once; and \<^verbatim>\<open>process_count\<close> is the number
  of the others.
\<close>

theorem process_table_well_formed:
  assumes "tree_inv k" and "regular_step\<^sup>*\<^sup>* k k'"
  shows "(q \<in> set (children_list (PT k' p)) \<longleftrightarrow> live k' q \<and> parent (PT k' q) = Some p) \<and>
    (live k' q \<and> parent (PT k' q) = Some p \<longrightarrow> pstate (PT k' p) = ALIVE) \<and>
    distinct (exited_list (PT k' p)) \<and>
    set (exited_list (PT k' p)) = {r \<in> set (children_list (PT k' p)). pstate (PT k' r) = ZOMBIE} \<and>
    (\<exists>ps. free_chain k' (pcb_freelist k') ps \<and> distinct ps \<and> set ps = {r. r < MAX_PROC \<and> pstate (PT k' r) = FREE}) \<and>
    unat (process_count k') = card {r. live k' r}"
proof -
  have "tree_inv k'" by (rule proc_steps_inv [OF assms(2,1)])
  note D = tree_invD [OF this]
  show ?thesis
  proof (intro conjI)
    show "q \<in> set (children_list (PT k' p)) \<longleftrightarrow> live k' q \<and> parent (PT k' q) = Some p" by (rule D(1))
    show "live k' q \<and> parent (PT k' q) = Some p \<longrightarrow> pstate (PT k' p) = ALIVE" using D(2) by blast
    show "\<exists>ps. free_chain k' (pcb_freelist k') ps \<and> distinct ps \<and> set ps = {r. r < MAX_PROC \<and> pstate (PT k' r) = FREE}"
      using D(7) by (simp add: free_pcbs_def)
  qed (rule D)+
qed

theorem process_table_well_formed_witness:
  "\<exists>k'. regular_step\<^sup>*\<^sup>* (procs_kernel ZOMBIE) k' \<and> pstate (PT k' 3) = FREE \<and> unat (process_count k') = card {r. live k' r}"
proof -
  define k where "k = procs_kernel ZOMBIE"
  have inv: "tree_inv k" by (simp add: k_def procs_inv)
  have c: "CURPROC 0 k = Inr 2" by (simp add: k_def procs_proc files_kernel_proc)
  have e: "exited_list (PT k 2) = [3]" "children_list (PT k 2) = [3]" "pstate (PT k 3) = ZOMBIE"
    by (simp_all add: k_def procs_sel)
  define k' where "k' = release_PCB 3 (unlink_child 3 k)"
  have "sys_WaitChild 0 NOPROC k = Inr (outcome.Done (3, Some (exitval (PT k 3))), k')"
    using c e by (simp add: sys_WaitChild_def wait_for_any_child_def wait_any_loop_def reap_def cleanup_zombie_def
        Let_def get_pid_def k'_def)
  then have "proc_step Plain_call k k'" by (rule proc_step.wait)
  then have "regular_step k k'" by (auto simp: regular_step_def regular_def)
  then have s: "regular_step\<^sup>*\<^sup>* k k'" by (rule r_into_rtranclp)
  have "pstate (PT k' 3) = FREE" by (simp add: k'_def release_PCB_def Let_def)
  with s process_table_well_formed [OF inv s] show ?thesis unfolding k_def by blast
qed

text \<open>
  C13: what \<^verbatim>\<open>Exec\<close> makes. If a block is free, the call returns its pid; the new process is alive,
  is the first child of the caller, shares all its descriptors, and no other process changes its
  state or its descriptors. The process table and the reference counts of files stay exact. The
  first two processes have no parent and no descriptors.
\<close>

theorem exec_shares_descriptors:
  assumes "tree_inv k" and "fids_inv k" and "files_inv held k" and "\<forall>f. held f < 2 ^ 31"
    and "CURPROC c k = Inr par" "par < MAX_PROC" "pstate (PT k par) = ALIVE"
    and "pcb_freelist k = Some p" and "sys_Exec old c call n buf k = Inr (pid, k')"
  shows "pid = int p \<and> pstate (PT k p) = FREE \<and> pstate (PT k' p) = ALIVE \<and>
    tree_inv k' \<and> files_inv held k' \<and> fids_inv k' \<and>
    (1 < p \<longrightarrow> parent (PT k' p) = Some par \<and> children_list (PT k' par) = p # children_list (PT k par)) \<and>
    (\<forall>i < MAX_FILEID. FIDT (PT k' p) i = (if 1 < p then FIDT (PT k par) i else None)) \<and>
    (\<forall>q. q \<noteq> p \<longrightarrow> FIDT (PT k' q) = FIDT (PT k q) \<and> pstate (PT k' q) = pstate (PT k q))"
proof -
  obtain k1 where a: "acquire_PCB k = (Some p, k1)" using assms(8) by (simp add: acquire_PCB_def Let_def)
  have h: "held f < 2 ^ 31" for f using assms(4) by blast
  note E = sys_Exec_effect [OF assms(1-3) h assms(5-7) a assms(9)]
  have "tree_inv k'" using assms(5-7) by (intro sys_Exec_inv [OF assms(1) _ assms(9)]) simp
  with E show ?thesis by blast
qed

lemma exec_idle: "\<exists>k'. sys_Exec old 0 None 0 None (procs_kernel FREE) = Inr (3, k')"
proof -
  define k where "k = procs_kernel FREE"
  have m: "malloc_ok k n" "pcb_freelist k = Some 3" "CURPROC 0 k = Inr 2" "cc k = cc files_kernel" for n
    by (simp_all add: k_def procs_sel procs_proc files_kernel_proc)
  obtain k1 where a: "acquire_PCB k = (Some 3, k1)" "cc k1 = cc k" "malloc_ok k1 = malloc_ok k"
    using m(2) by (simp add: acquire_PCB_def Let_def)
  obtain k2 where e: "exec_parent 0 3 k1 = Inr k2" "malloc_ok k2 = malloc_ok k1"
  proof -
    have i: "malloc_ok (inherit_fid par p i k) = malloc_ok k" for par p i k
      by (simp add: inherit_fid_def Let_def FCB_incref_def split: option.split)
    have "malloc_ok (fold (inherit_fid par p) is k) = malloc_ok k" for par p "is" k
      by (induction "is" arbitrary: k) (simp_all add: i)
    with that show ?thesis
      using m(3) CURPROC_cong [OF a(2)] by (simp add: exec_parent_def adopt_def)
  qed
  have "\<exists>k3. exec_thread old 3 None 0 None k2 = Inr k3"
    using m(1) a(3) e(2) by (simp add: exec_thread_def Create_PTCB_def malloc_def copy_args_def Let_def)
  then show ?thesis using a(1) e(1) by (auto simp: sys_Exec_def k_def [symmetric] get_pid_def)
qed

theorem exec_shares_descriptors_witness:
  "\<exists>k'. sys_Exec (example_tcb NORMAL_THREAD INIT CTX_CLEAN 0 0) 0 None 0 None (procs_kernel FREE) = Inr (3, k') \<and>
     pstate (PT k' 3) = ALIVE \<and> parent (PT k' 3) = Some 2 \<and> files_inv (\<lambda>_. 0) k'"
proof -
  obtain k' where e: "sys_Exec (example_tcb NORMAL_THREAD INIT CTX_CLEAN 0 0) 0 None 0 None (procs_kernel FREE) = Inr (3, k')"
    using exec_idle by blast
  have h: "\<forall>f. (\<lambda>_. 0 :: nat) f < 2 ^ 31" by simp
  have c: "2 < MAX_PROC" "pstate (PT (procs_kernel FREE) 2) = ALIVE" "pcb_freelist (procs_kernel FREE) = Some 3"
    by (simp_all add: procs_sel MAX_PROC_def)
  have "pstate (PT k' 3) = ALIVE" "parent (PT k' 3) = Some 2" "files_inv (\<lambda>_. 0) k'"
    using exec_shares_descriptors [OF procs_inv procs_fids procs_files h procs_proc(2) c e] by simp_all
  with e show ?thesis by blast
qed

text \<open>\<open>quiet k k'\<close>: between the two states no call has touched processes, whatever threads have run.\<close>

definition quiet :: "kernel \<Rightarrow> kernel \<Rightarrow> bool" where
  "quiet k k' \<longleftrightarrow> same_tree k k' \<and> (\<forall>p. exitval (PT k' p) = exitval (PT k p))"

text \<open>
  C14: a parent learns how its child ended. When a process with a parent exits, its descriptors
  are closed, its children belong to the initial process from then on, and its zombies are the
  initial process's to reap. The parent's next \<^verbatim>\<open>WaitChild\<close> for it, or for any child, returns its
  pid and its exit value, and the pid is free again.
\<close>

theorem exit_then_wait:
  assumes "tree_inv k" and "CURPROC c k = Inr p" "live k p" "1 < p" and "parent (PT k p) = Some q"
    and "sys_Exit c v k = Inr (out, k1)" and "quiet k1 k2" and "CURPROC d k2 = Inr q"
  shows "(\<forall>i < MAX_FILEID. FIDT (PT k1 p) i = None) \<and>
    (\<forall>r \<in> set (children_list (PT k p)). parent (PT k1 r) = Some 1) \<and>
    (\<exists>k3. sys_WaitChild d (int p) k2 = Inr (outcome.Done (int p, Some v), k3) \<and>
          sys_WaitChild d NOPROC k2 = Inr (outcome.Done (int p, Some v), k3) \<and>
          get_pcb p k3 = None \<and> pcb_freelist k3 = Some p)"
proof -
  have e: "exit_process c v k = Inr k1"
    using assms(2,4,6) by (auto simp: sys_Exit_def sys_GetPid_def get_pid_def elim!: bindE_elim)
  have p1: "p = 1 \<Longrightarrow> children_list (PT k 1) = []" using assms(4) by simp
  note X = exit_process_exited [OF assms(1-3) p1 e]
  have pc: "p \<notin> set (children_list (PT k p))" using tree_invD(1,2) [OF assms(1), of p p] assms(3) by auto
  have pm: "p < MAX_PROC" "q \<noteq> p" using assms(3,5) tree_invD(2) [OF assms(1,3)] by (auto simp: live_def)
  have f1: "pstate (PT k1 p) = ZOMBIE" "parent (PT k1 p) = Some q" "exitval (PT k1 p) = v"
      "\<exists>xs. exited_list (PT k1 q) = p # xs"
    using X(1) pc pm(2) assms(5) by (auto simp: exited_def)
  then have f: "pstate (PT k2 p) = ZOMBIE" "parent (PT k2 p) = Some q" "exitval (PT k2 p) = v"
      "\<exists>xs. exited_list (PT k2 q) = p # xs"
    using assms(7) by (simp_all add: quiet_def same_tree_def)
  have ch: "children_list (PT k2 q) \<noteq> []"
  proof -
    have "p \<in> set (children_list (PT k q))" using tree_invD(1) [OF assms(1), of p q] assms(3,5) by simp
    then have "children_list (PT k1 q) \<noteq> []" using X(1) pm(2) by (auto simp: exited_def)
    then show ?thesis using assms(7) by (simp add: quiet_def same_tree_def)
  qed
  define k3 where "k3 = release_PCB p (unlink_child p k2)"
  have r: "reap p k2 = ((int p, Some v), k3)"
    using f(3) by (simp add: reap_def cleanup_zombie_def k3_def get_pid_def)
  have "sys_WaitChild d (int p) k2 = Inr (outcome.Done (int p, Some v), k3)"
    using f(1,2) pm r assms(8)
    by (simp add: sys_WaitChild_def NOPROC_def wait_for_specific_child_def get_pcb_def wait_specific_loop_def)
  moreover have "sys_WaitChild d NOPROC k2 = Inr (outcome.Done (int p, Some v), k3)"
    using f(1,4) ch r assms(8) by (auto simp: sys_WaitChild_def wait_for_any_child_def wait_any_loop_def)
  moreover have "get_pcb p k3 = None" "pcb_freelist k3 = Some p"
    by (simp_all add: k3_def get_pcb_def release_PCB_def Let_def)
  moreover have "\<forall>i < MAX_FILEID. FIDT (PT k1 p) i = None" using X(2) [of p] by simp
  moreover have "\<forall>r \<in> set (children_list (PT k p)). parent (PT k1 r) = Some 1" using X(1) by (simp add: exited_def)
  ultimately show ?thesis by blast
qed

text \<open>The scheduler then runs the parent, process 1, on core 0.\<close>

definition run_parent :: "kernel \<Rightarrow> kernel" where
  "run_parent k = k\<lparr>cc := example_cc\<lparr>sch := upd_tcb (Thr 4) (\<lambda>t. t\<lparr>owner_pcb := Some 1\<rparr>) example_sched\<rparr>\<rparr>"

theorem exit_then_wait_witness:
  "\<exists>k1 k3. sys_Exit 0 5 (procs_kernel FREE) = Inr (outcome.Done (), k1) \<and>
     sys_WaitChild 0 2 (run_parent k1) = Inr (outcome.Done (2, Some 5), k3) \<and> get_pcb 2 k3 = None"
proof -
  let ?k = "procs_kernel FREE"
  have "\<exists>k1. exit_process 0 5 ?k = Inr k1"
    by (rule exit_process_total [OF procs_cc procs_proc(2), where a = 9 and t = some_ptcb])
       (simp_all add: procs_sel procs_main)
  then obtain k1 where e: "exit_process 0 5 ?k = Inr k1" by blast
  have x: "sys_Exit 0 5 ?k = Inr (outcome.Done (), k1)"
    using e procs_proc(2) [of FREE] by (simp add: sys_Exit_def sys_GetPid_def get_pid_def)
  have l: "live ?k 2" "parent (PT ?k 2) = Some 1" "(1::nat) < 2" by (simp_all add: procs_live procs_parent)
  have q: "quiet k1 (run_parent k1)" by (simp add: quiet_def run_parent_def same_tree_def)
  have d: "CURPROC 0 (run_parent k1) = Inr 1"
    by (simp add: run_parent_def CURPROC_def tcb_of_def CURTHREAD_def)
  obtain k3 where "sys_WaitChild 0 (int 2) (run_parent k1) = Inr (outcome.Done (int 2, Some 5), k3)" "get_pcb 2 k3 = None"
    using exit_then_wait [OF procs_inv procs_proc(2) l(1,3,2) x q d] by blast
  with x show ?thesis by auto
qed

text \<open>
  C38: two threads that wait for the same child break the process table. Both wake up when the
  child exits; the first reaps it, and the second, which does not look whether the child is still
  there, releases its block again. The free list then leads from the block to itself, and the next
  two processes get the same block.
\<close>

theorem double_wait_gives_pcb_twice:
  assumes "pstate (PT k p) = ZOMBIE"
    and "sys_WaitChild_resume (q, Some p) k = Inr (out1, k1)" and "sys_WaitChild_resume (q, Some p) k1 = Inr (out2, k2)"
  shows "out1 = outcome.Done (int p, Some (exitval (PT k p))) \<and> out2 = out1 \<and>
    (\<exists>k3 k4. acquire_PCB k2 = (Some p, k3) \<and> acquire_PCB k3 = (Some p, k4)) \<and> \<not> tree_inv k2"
proof -
  have r: "reap p j = ((int p, Some (exitval (PT j p))), release_PCB p (unlink_child p j))" for j
    by (simp add: reap_def cleanup_zombie_def get_pid_def)
  have k1: "out1 = outcome.Done (int p, Some (exitval (PT k p)))" "k1 = release_PCB p (unlink_child p k)"
    using assms(1,2) by (simp_all add: sys_WaitChild_resume_def wait_specific_loop_def r)
  have f1: "pstate (PT k1 p) = FREE" "exitval (PT k1 p) = exitval (PT k p)" "pcb_freelist k1 = Some p"
    by (simp_all add: k1(2) release_PCB_def unlink_child_def Let_def)
  have k2: "out2 = out1" "k2 = release_PCB p (unlink_child p k1)"
    using assms(3) f1 k1(1) by (simp_all add: sys_WaitChild_resume_def wait_specific_loop_def r)
  have f2: "pcb_freelist k2 = Some p" "parent (PT k2 p) = Some p"
    using f1(3) by (simp_all add: k2(2) release_PCB_def unlink_child_def Let_def)
  obtain k3 where a: "acquire_PCB k2 = (Some p, k3)" "pcb_freelist k3 = Some p"
    using f2 by (simp add: acquire_PCB_def Let_def)
  then obtain k4 where b: "acquire_PCB k3 = (Some p, k4)" by (simp add: acquire_PCB_def Let_def)
  have "\<not> tree_inv k2"
  proof
    assume "tree_inv k2"
    then obtain ps where ps: "free_pcbs k2 ps" using tree_invD(7) by blast
    then obtain cs where "free_pcbs k3 cs" "p \<notin> set cs"
      using a(1) by (rule pcb_alloc.acquired_fresh)
    then show False using a(2) by (cases cs) (auto simp: free_pcbs_def)
  qed
  with k1(1) k2(1) a(1) b show ?thesis by blast
qed

theorem double_wait_gives_pcb_twice_witness:
  "\<exists>k1 k2. sys_WaitChild_resume (2, Some 3) (procs_kernel ZOMBIE) = Inr (outcome.Done (3, Some 42), k1) \<and>
     sys_WaitChild_resume (2, Some 3) k1 = Inr (outcome.Done (3, Some 42), k2) \<and> \<not> tree_inv k2"
proof -
  let ?k = "procs_kernel ZOMBIE"
  have z: "pstate (PT ?k 3) = ZOMBIE" "exitval (PT ?k 3) = 42" by (simp_all add: procs_sel)
  have step: "\<exists>out j'. sys_WaitChild_resume (2, Some 3) j = Inr (out, j')" if "pstate (PT j 3) \<noteq> ALIVE" for j
    using that by (simp add: sys_WaitChild_resume_def wait_specific_loop_def reap_def cleanup_zombie_def Let_def)
  obtain o1 k1 where 1: "sys_WaitChild_resume (2, Some 3) ?k = Inr (o1, k1)" using step z by fastforce
  then have "k1 = release_PCB 3 (unlink_child 3 ?k)"
    using z(1) by (simp add: sys_WaitChild_resume_def wait_specific_loop_def reap_def cleanup_zombie_def Let_def)
  then have "pstate (PT k1 3) = FREE" by (simp add: release_PCB_def Let_def)
  then obtain o2 k2 where 2: "sys_WaitChild_resume (2, Some 3) k1 = Inr (o2, k2)" using step by fastforce
  have "o1 = outcome.Done (int 3, Some (exitval (PT ?k 3)))" "o2 = o1" "\<not> tree_inv k2"
    using double_wait_gives_pcb_twice [OF z(1) 1 2] by blast+
  with 1 2 z(2) show ?thesis by auto
qed

section \<open>Information streams\<close>

text \<open>The loop of \<^verbatim>\<open>OpenInfo\<close> fills one cell for every process, as there are \<^verbatim>\<open>process_count\<close> of them.\<close>

lemma info_loop_length:
  "info_loop user is count acc k = Inr tab \<Longrightarrow> length acc \<le> count \<Longrightarrow> count \<le> unat (process_count k) \<Longrightarrow>
     length tab = min count (length acc + length (filter (\<lambda>i. pstate (PT k i) \<noteq> FREE) is))"
proof (induction "is" arbitrary: acc)
  case Nil
  then show ?case by simp
next
  case (Cons i "is")
  show ?case
  proof (cases "length acc = count")
    case True
    with Cons.prems show ?thesis by simp
  next
    case False
    then have lt: "length acc < count" using Cons.prems(2) by simp
    then have go: "\<not> (length acc = count \<or> length acc > unat (process_count k))" using Cons.prems(3) by auto
    show ?thesis
    proof (cases "pstate (PT k i) = FREE")
      case True
      with Cons.prems(1) go have "info_loop user is count acc k = Inr tab" by simp
      from Cons.IH [OF this Cons.prems(2,3)] True show ?thesis by simp
    next
      case False
      with Cons.prems(1) go obtain x where "info_loop user is count (acc @ [x]) k = Inr tab"
        by (auto elim!: bindE_elim)
      from Cons.IH [OF this] lt Cons.prems(3) False show ?thesis by simp
    qed
  qed
qed

lemma live_filter: "length (filter (\<lambda>i. pstate (PT k i) \<noteq> FREE) [0..<MAX_PROC]) = card {p. live k p}"
proof -
  have "set (filter (\<lambda>i. pstate (PT k i) \<noteq> FREE) [0..<MAX_PROC]) = {p. live k p}" by (auto simp: live_def)
  moreover have "distinct (filter (\<lambda>i. pstate (PT k i) \<noteq> FREE) [0..<MAX_PROC])" by simp
  ultimately show ?thesis by (metis distinct_card)
qed

text \<open>The state after a successful \<^verbatim>\<open>OpenInfo\<close>.\<close>

lemma sys_OpenInfo_effect:
  assumes inv: "files_inv held k" and p: "CURPROC c k = Inr p" "p < MAX_PROC"
    and r: "sys_OpenInfo user c k = Inr (fd, k')" "fd \<noteq> NOFILE"
  obtains i f a tab k3 where "fd = int i" "i < MAX_FILEID" "FIDT (PT k' p) i = Some f" "CURPROC c k' = Inr p"
    "streamobj (FT k' f) = Info_obj a" "streamfunc (FT k' f) = Some Info_ops"
    "infos k' a = Some \<lparr>info_table = tab @ replicate (unat (process_count k) - length tab) blank,
                         info_index = of_nat (length tab)\<rparr>"
    "info_loop user [0..<MAX_PROC] (unat (process_count k)) [] k3 = Inr tab" "same_tree k k3"
    "process_count k3 = process_count k" "\<forall>i. info_of_pcb user i k3 = info_of_pcb user i k"
proof -
  obtain y k1 where y: "FCB_reserve c 1 k = Inr (y, k1)" using r by (auto simp: sys_OpenInfo_def elim!: bindE_elim2)
  then obtain fids fcbs where z: "y = Some (fids, fcbs)" using r by (cases y) (auto simp: sys_OpenInfo_def)
  from y obtain i f where R: "fids = [i]" "fcbs = [f]" "i < MAX_FILEID" "FIDT (PT k p) i = None"
        "f \<in> set (FCB_freelist k)" "files_inv held k1" "cc k1 = cc k"
        "\<And>q j. FIDT (PT k1 q) j = (if q = p \<and> j = i then Some f else FIDT (PT k q) j)"
    unfolding z by (rule reserved_one [OF inv p]) (rule that; assumption)
  note S = files_only_sel [OF files_only_reserve [OF y]]
  obtain a k2 where m1: "malloc k1 = (Some a, k2)"
    using r y z by (cases "malloc k1") (auto simp: sys_OpenInfo_def Let_def split: option.splits)
  obtain b k3 where m2: "malloc k2 = (Some b, k3)"
    using r y z m1 by (cases "malloc k2") (auto simp: sys_OpenInfo_def Let_def split: option.splits)
  have k3: "k3 = k1\<lparr>next_addr := next_addr k1 + 2\<rparr>" using m1 m2 by (auto simp: malloc_def)
  have count: "process_count k1 = process_count k" by (rule S)
  from r y z m1 m2 R obtain tab where t: "info_loop user [0..<MAX_PROC] (unat (process_count k)) [] k3 = Inr tab"
      "fd = int i" "k' = upd_fcb f (\<lambda>b. b\<lparr>streamobj := Info_obj a, streamfunc := Some Info_ops\<rparr>)
        (k3\<lparr>infos := (infos k3)(a \<mapsto> \<lparr>info_table = tab @ replicate (unat (process_count k) - length tab) blank,
                              info_index = of_nat (length tab)\<rparr>)\<rparr>)"
    by (auto simp: sys_OpenInfo_def Let_def count elim!: bindE_elim)
  have "same_tree k k3" by (simp add: k3 same_tree_def S)
  moreover have "CURPROC c k' = Inr p" using p(1) CURPROC_cong [of k' k c] by (simp add: t(3) k3 R(7))
  moreover have "FIDT (PT k' p) i = Some f" by (simp add: t(3) k3 R(8))
  moreover have "streamobj (FT k' f) = Info_obj a" "streamfunc (FT k' f) = Some Info_ops"
      "infos k' a = Some \<lparr>info_table = tab @ replicate (unat (process_count k) - length tab) blank,
                         info_index = of_nat (length tab)\<rparr>" by (simp_all add: t(3))
  moreover have "process_count k3 = process_count k" by (simp add: k3 count)
  moreover have "\<forall>i. info_of_pcb user i k3 = info_of_pcb user i k" by (simp add: info_of_pcb_def Let_def k3 S)
  ultimately show ?thesis using that t(1,2) R(3) by blast
qed

text \<open>
  C39: the first read of an information stream is past the end of its table. \<^verbatim>\<open>OpenInfo\<close> sets the index
  to the number of cells that it filled, which is the number of cells there are, and \<^verbatim>\<open>Read\<close> takes
  the cell at the index before it counts down.
\<close>

theorem open_info_reads_past_table:
  assumes "tree_inv k" and "files_inv held k" and "CURPROC c k = Inr p" "p < MAX_PROC"
    and "sys_OpenInfo user c k = Inr (fd, k')" "fd \<noteq> NOFILE"
  shows "sys_Read run c fd (of_nat sizeof_procinfo) k' = Inl Out_of_bounds"
proof -
  from assms(5,6) obtain i f a tab k3 where E: "fd = int i" "i < MAX_FILEID" "FIDT (PT k' p) i = Some f" "CURPROC c k' = Inr p"
    "streamobj (FT k' f) = Info_obj a" "streamfunc (FT k' f) = Some Info_ops"
    "infos k' a = Some \<lparr>info_table = tab @ replicate (unat (process_count k) - length tab) blank,
                         info_index = of_nat (length tab)\<rparr>"
    "info_loop user [0..<MAX_PROC] (unat (process_count k)) [] k3 = Inr tab" "same_tree k k3"
    "process_count k3 = process_count k"
    by (rule sys_OpenInfo_effect [OF assms(2-4)]) (rule that; assumption)
  have "tree_inv k3" using assms(1) same_tree_inv [OF E(9)] by simp
  note D = tree_invD(8) [OF this]
  have len: "length tab = unat (process_count k)"
    using info_loop_length [OF E(8)] D E(10) by (simp add: live_filter)
  then have small: "length tab \<le> 65536" using D E(10) live_count [of k3] by (simp add: MAX_PROC_def)
  have idx: "unat (of_nat (length tab) :: u32) = length tab"
    using small by (simp add: unat_of_nat)
  have "unat (- 1 :: u32) = 4294967295" by (simp add: unsigned_minus_1_eq_mask mask_eq_exp_minus_1)
  then have no: "(of_nat (length tab) :: u32) \<noteq> - 1" using idx small by auto
  have size: "unat (of_nat sizeof_procinfo :: u32) = sizeof_procinfo" by (simp add: sizeof_procinfo_def)
  have "info_read a (of_nat sizeof_procinfo) (FCB_incref f k') = Inl Out_of_bounds"
    using idx no size by (simp add: info_read_def E(7) FCB_incref_def len)
  then show ?thesis
    using E(1-6) by (simp add: sys_Read_def get_fcb_def Let_def has_read_def stream_read_def info_of_def)
qed

lemma info_loop_total:
  "\<forall>i \<in> set is. pstate (PT k i) \<noteq> FREE \<longrightarrow> (\<exists>x. info_of_pcb user i k = Inr x) \<Longrightarrow>
     \<exists>tab. info_loop user is count acc k = Inr tab"
  by (induction "is" arbitrary: acc) fastforce+

lemma open_info_runs: "\<exists>i k'. sys_OpenInfo user 0 (procs_kernel FREE) = Inr (int i, k')"
proof -
  define k where "k = procs_kernel FREE"
  have c: "CURPROC 0 k = Inr 2" "(2::nat) < MAX_PROC" unfolding k_def by (rule procs_proc, simp add: MAX_PROC_def)
  have inv: "files_inv (\<lambda>_. 0) k" unfolding k_def by (rule procs_files)
  have room: "has_room 2 k" by (auto simp: k_def has_room_def procs_sel MAX_FILEID_def MAX_FILES_def MAX_PROC_def intro: exI [of _ 0])
  obtain i f k1 where r: "FCB_reserve 0 1 k = Inr (Some ([i], [f]), k1)" "files_only k k1"
    by (rule reserve_one [OF inv c room]) (rule that; assumption)
  note S = files_only_sel [OF r(2)]
  define k3 where "k3 = k1\<lparr>next_addr := Suc (Suc (next_addr k1))\<rparr>"
  have f: "malloc_ok k1 n" "ptcbs k3 = [9 \<mapsto> some_ptcb]" "PT k3 = PT k1" "process_count k3 = 3" "process_count k1 = 3" for n
    by (simp_all add: S k_def procs_sel k3_def)
  have "\<exists>x. info_of_pcb user i k3 = Inr x" if "pstate (PT k3 i) \<noteq> FREE" for i
  proof -
    have "i \<le> 2" using that by (simp add: f(3) S k_def procs_sel split: if_splits)
    then have "main_thread (PT k3 i) = Some 9" by (simp add: f(3) S k_def procs_main)
    then show ?thesis
      by (simp add: info_of_pcb_def Let_def f(2) some_ptcb_def info_args_of_def PROCINFO_MAX_ARGS_SIZE_def)
  qed
  then obtain tab where "info_loop user [0..<MAX_PROC] (unat (process_count k1)) [] k3 = Inr tab"
    using info_loop_total [of "[0..<MAX_PROC]" k3 user "unat (process_count k1)" "[]"] by blast
  then show ?thesis
    using r(1) f(1) unfolding k_def [symmetric]
    by (simp add: sys_OpenInfo_def malloc_def Let_def k3_def)
qed

theorem open_info_reads_past_table_witness:
  "\<exists>i k'. sys_OpenInfo (\<lambda>_. []) 0 (procs_kernel FREE) = Inr (int i, k') \<and>
     sys_Read (\<lambda>_ x. x) 0 (int i) (of_nat sizeof_procinfo) k' = Inl Out_of_bounds"
proof -
  obtain i k' where o: "sys_OpenInfo (\<lambda>_. []) 0 (procs_kernel FREE) = Inr (int i, k')"
    using open_info_runs by blast
  have "int i \<noteq> NOFILE" "(2::nat) < MAX_PROC" by (simp_all add: NOFILE_def MAX_PROC_def)
  from open_info_reads_past_table [OF procs_inv procs_files procs_proc(2) this(2) o this(1)] o show ?thesis by blast
qed

end
