(* ===== verification/Threads.thy ===== *)
theory Threads
  imports ProcSpec
begin

text \<open>
  The threads of a process, \<^verbatim>\<open>src/kernel_threads.c\<close>: creation, join, detach and exit. A \<^verbatim>\<open>Tid_t\<close> is a
  pointer to a TCB, or null. A join waits on the condition \<open>Ptcb_join\<close>, an exiting thread that
  nobody has joined on \<open>Ptcb_waiting\<close>.
\<close>

section \<open>The operations\<close>

text \<open>
  The mutex \<^verbatim>\<open>thread_mx\<close> is taken inside the kernel only and given back before any wait; a call
  that finds it taken would spin with the kernel locked.
\<close>

definition lock_threads :: "nat \<Rightarrow> kernel \<Rightarrow> kernel res" where
  "lock_threads p k =
     (let (taken, s) = test_and_set p (cc k) in if taken then Inl No_return else Inr (k\<lparr>cc := s\<rparr>))"

definition unlock_threads :: "nat \<Rightarrow> kernel \<Rightarrow> kernel" where
  "unlock_threads p k = k\<lparr>cc := Mutex_Unlock p (cc k)\<rparr>"

definition free_ptcb :: "nat \<Rightarrow> kernel \<Rightarrow> kernel" where
  "free_ptcb a k = k\<lparr>ptcbs := (ptcbs k)(a := None)\<rparr>"

definition sys_CreateThread :: "tcb \<Rightarrow> nat \<Rightarrow> nat option \<Rightarrow> int \<Rightarrow> argptr \<Rightarrow> kernel \<Rightarrow> (tcbp option \<times> kernel) res" where
  "sys_CreateThread old c task n arg k =
     bindE (CURPROC c k) (\<lambda>p.
     bindE (Create_PTCB p k) (\<lambda>(a, k1).
     let k2 = upd_ptcb a (\<lambda>t. t\<lparr>main_task := task, argl := n, args := arg\<rparr>) k1
     in if task \<noteq> None then
          bindE (spawn old p START_THREAD_FUNC k2) (\<lambda>(t, k3).
          let k4 = set_owner_ptcb t a (upd_ptcb a (\<lambda>x. x\<lparr>pthread := Some t\<rparr>) k3)
          in bindE (lock_threads p k4) (\<lambda>k5.
          let k6 = unlock_threads p (upd_pcb p (\<lambda>b. b\<lparr>thread_count := thread_count b + 1\<rparr>)
                     (upd_pcb p (\<lambda>b. b\<lparr>ptcb_list := ptcb_list b @ [a]\<rparr>) k5))
          in bindE (on_sch (wakeup t) k6) (\<lambda>(_, k7). Inr (Some t, k7))))
        else Inr (None, free_ptcb a k2)))"

definition sys_ThreadSelf :: "nat \<Rightarrow> kernel \<Rightarrow> tcbp option" where
  "sys_ThreadSelf c k = Some (CURTHREAD c k)"

text \<open>The thread of the main PTCB of process \<open>p\<close>.\<close>

definition main_tid :: "nat \<Rightarrow> kernel \<Rightarrow> tcbp option res" where
  "main_tid p k = bindE (nonnullE (main_thread (PT k p))) (\<lambda>a. bindE (derefE (ptcbs k a)) (\<lambda>t. Inr (pthread t)))"

text \<open>The result of a join: the return code, and the exit value when it is stored.\<close>

definition sys_ThreadJoin :: "nat \<Rightarrow> tcbp option \<Rightarrow> kernel \<Rightarrow> ((int \<times> int option, nat \<times> nat) outcome \<times> kernel) res" where
  "sys_ThreadJoin c tid k =
     (case tid of
        None \<Rightarrow> Inr (Done (-1, None), k)
      | Some t \<Rightarrow>
          bindE (CURPROC c k) (\<lambda>p.
          bindE (derefE (tcb_of t k)) (\<lambda>x.
          if owner_pcb x \<noteq> Some p \<or> t = CURTHREAD c k then Inr (Done (-1, None), k)
          else bindE (main_tid p k) (\<lambda>m.
          if Some t = m then Inr (Done (-1, None), k)
          else bindE (nonnullE (owner_ptcb x)) (\<lambda>a.
          bindE (derefE (ptcbs k a)) (\<lambda>pt.
          if detached pt \<and> Some t \<noteq> m then Inr (Done (-1, None), k)
          else bindE (on_cc (Cond_Broadcast (Ptcb_waiting a))
                 (upd_ptcb a (\<lambda>x. x\<lparr>waiting_threads := waiting_threads x + 1\<rparr>) k)) (\<lambda>k1.
               Inr (Wait (Ptcb_join a) SCHED_USER NO_TIMEOUT (p, a), k1))))))))"

definition unlink_ptcb :: "nat \<Rightarrow> kernel \<Rightarrow> kernel" where
  "unlink_ptcb a k = k\<lparr>PT := (\<lambda>q. (PT k q)\<lparr>ptcb_list := removeAll a (ptcb_list (PT k q))\<rparr>)\<rparr>"

text \<open>\<^verbatim>\<open>sys_ThreadJoin\<close> after its wait; there is no loop around the wait.\<close>

definition sys_ThreadJoin_resume :: "nat \<Rightarrow> nat \<times> nat \<Rightarrow> kernel \<Rightarrow> ((int \<times> int option) \<times> kernel) res" where
  "sys_ThreadJoin_resume c = (\<lambda>(p, a) k.
     bindE (derefE (ptcbs k a)) (\<lambda>pt.
     let k1 = upd_ptcb a (\<lambda>x. x\<lparr>waiting_threads := waiting_threads x - 1\<rparr>) k
     in if waiting_threads pt - 1 = 0 then
          bindE (CURPROC c k1) (\<lambda>cur.
          bindE (lock_threads cur k1) (\<lambda>k2.
          Inr ((0, Some (pexitval pt)),
               unlock_threads cur (free_ptcb a (unlink_ptcb a
                 (upd_pcb p (\<lambda>b. b\<lparr>thread_count := thread_count b - 1\<rparr>) k2))))))
        else Inr ((0, Some (pexitval pt)), k1)))"

definition sys_ThreadDetach :: "tcbp option \<Rightarrow> kernel \<Rightarrow> (int \<times> kernel) res" where
  "sys_ThreadDetach tid k =
     (case tid of
        None \<Rightarrow> Inr (-1, k)
      | Some t \<Rightarrow>
          bindE (derefE (tcb_of t k)) (\<lambda>x.
          if tstate x = EXITED then Inr (-1, k)
          else bindE (nonnullE (owner_ptcb x)) (\<lambda>a.
            bindE (derefE (ptcbs k a)) (\<lambda>pt.
            let k1 = upd_ptcb a (\<lambda>x. x\<lparr>detached := True\<rparr>) k
            in if waiting_threads pt > 0 then
                 bindE (on_cc (Cond_Broadcast (Ptcb_join a)) k1) (\<lambda>k2. Inr (0, k2))
               else Inr (0, k1)))))"

section \<open>Exit of a thread\<close>

text \<open>
  \<open>Returned\<close>: the main thread comes back from \<^verbatim>\<open>ThreadExit\<close>. \<open>Gone\<close>: the thread has given up
  its core for good. A call that waits does so in a join of the main thread, or for somebody to
  join it.
\<close>

datatype exit_result = Returned | Gone
datatype exit_pc = In_join nat nat | For_join nat

text \<open>
  The loop of the main thread. A join that does not wait has changed nothing, and the loop picks
  the same thread again; \<open>n\<close> bounds the rounds.
\<close>

fun join_all :: "nat \<Rightarrow> nat \<Rightarrow> nat \<Rightarrow> kernel \<Rightarrow> ((exit_result, exit_pc) outcome \<times> kernel) res" where
  "join_all n c p k =
     (case ptcb_list (PT k p) of
        [] \<Rightarrow> Inr (Done Returned, k)
      | a # _ \<Rightarrow>
          (case n of
             0 \<Rightarrow> Inl No_return
           | Suc m \<Rightarrow>
               bindE (derefE (ptcbs k a)) (\<lambda>t.
               bindE (sys_ThreadJoin c (pthread t) k) (\<lambda>(out, k1). case out of
                 Done _ \<Rightarrow> join_all m c p k1
               | Wait cv cause tm (q, b) \<Rightarrow> Inr (Wait cv cause tm (In_join q b), k1)))))"

declare join_all.simps [simp del]

definition leave_detached :: "nat \<Rightarrow> nat \<Rightarrow> nat \<Rightarrow> kernel \<Rightarrow> kernel res" where
  "leave_detached c p a k =
     k_sleep c (free_ptcb a (unlink_ptcb a (upd_pcb p (\<lambda>b. b\<lparr>thread_count := thread_count b - 1\<rparr>) k)))"

text \<open>The end of \<^verbatim>\<open>sys_ThreadExit\<close> for a thread that somebody has joined.\<close>

definition leave_joined :: "nat \<Rightarrow> kernel \<Rightarrow> ((exit_result, exit_pc) outcome \<times> kernel) res" where
  "leave_joined c k =
     bindE (sys_ThreadDetach (Some (CURTHREAD c k)) k) (\<lambda>(_, k1).
     bindE (k_sleep c k1) (\<lambda>k2. Inr (Done Gone, k2)))"

definition sys_ThreadExit :: "nat \<Rightarrow> nat \<Rightarrow> int \<Rightarrow> kernel \<Rightarrow> ((exit_result, exit_pc) outcome \<times> kernel) res" where
  "sys_ThreadExit n c v k =
     bindE (CURPROC c k) (\<lambda>p.
     bindE (CURPTHREAD c k) (\<lambda>a.
     bindE (main_tid p k) (\<lambda>m.
     if Some (CURTHREAD c k) = m then join_all n c p k
     else bindE (derefE (ptcbs k a)) (\<lambda>pt.
       let k1 = upd_ptcb a (\<lambda>x. x\<lparr>pexitval := v\<rparr>) k
       in if detached pt then bindE (leave_detached c p a k1) (\<lambda>k2. Inr (Done Gone, k2))
          else if waiting_threads pt = 0 then Inr (Wait (Ptcb_waiting a) SCHED_USER NO_TIMEOUT (For_join a), k1)
          else leave_joined c k1))))"

definition sys_ThreadExit_resume :: "nat \<Rightarrow> nat \<Rightarrow> exit_pc \<Rightarrow> kernel \<Rightarrow> ((exit_result, exit_pc) outcome \<times> kernel) res" where
  "sys_ThreadExit_resume n c pc k =
     (case pc of
        In_join p a \<Rightarrow> bindE (sys_ThreadJoin_resume c (p, a) k) (\<lambda>(_, k1). join_all n c p k1)
      | For_join a \<Rightarrow> leave_joined c k)"

text \<open>
  What the first function of a thread calls: the task with its arguments, and afterwards
  \<^verbatim>\<open>ThreadExit\<close> with the value that the task returned.
\<close>

definition start_thread_func :: "nat \<Rightarrow> kernel \<Rightarrow> (nat \<times> int \<times> argptr) res" where
  "start_thread_func c k =
     bindE (CURPTHREAD c k) (\<lambda>a. bindE (derefE (ptcbs k a)) (\<lambda>t.
     bindE (nonnullE (main_task t)) (\<lambda>f. Inr (f, argl t, args t))))"

section \<open>What a join returns\<close>

lemma sys_ThreadJoin_waits:
  assumes "sys_ThreadJoin d tid k = Inr (Wait cv cause tm (p, a), k')"
  obtains t x pt where "tid = Some t" "tcb_of t k = Some x" "owner_ptcb x = Some a" "cv = Ptcb_join a"
    "CURPROC d k = Inr p" "ptcbs k a = Some pt" "\<not> detached pt"
    "ptcbs k' a = Some (pt\<lparr>waiting_threads := waiting_threads pt + 1\<rparr>)"
  using assms by (cases tid)
    (auto simp: sys_ThreadJoin_def on_cc_eq elim!: bindE_elim split: if_splits)

lemma sys_ThreadJoin_resume_effect:
  assumes "sys_ThreadJoin_resume d (p, a) k = Inr (r, k')"
  obtains pt where "ptcbs k a = Some pt" "r = (0, Some (pexitval pt))"
    "waiting_threads pt = 1 \<Longrightarrow> ptcbs k' a = None \<and> (\<forall>q. a \<notin> set (ptcb_list (PT k' q))) \<and>
       thread_count (PT k' p) = thread_count (PT k p) - 1"
    "waiting_threads pt \<noteq> 1 \<Longrightarrow> ptcbs k' a = Some (pt\<lparr>waiting_threads := waiting_threads pt - 1\<rparr>)"
proof -
  from assms obtain pt where pt: "ptcbs k a = Some pt"
    by (auto simp: sys_ThreadJoin_resume_def elim!: bindE_elim)
  show ?thesis
  proof (rule that [OF pt])
    show "r = (0, Some (pexitval pt))"
      using assms pt by (auto simp: sys_ThreadJoin_resume_def Let_def elim!: bindE_elim split: if_splits)
  next
    assume "waiting_threads pt = 1"
    with assms pt show "ptcbs k' a = None \<and> (\<forall>q. a \<notin> set (ptcb_list (PT k' q))) \<and>
       thread_count (PT k' p) = thread_count (PT k p) - 1"
      by (auto simp: sys_ThreadJoin_resume_def Let_def unlock_threads_def free_ptcb_def unlink_ptcb_def
          lock_threads_def test_and_set_def elim!: bindE_elim split: if_splits)
  next
    assume "waiting_threads pt \<noteq> 1"
    with assms pt show "ptcbs k' a = Some (pt\<lparr>waiting_threads := waiting_threads pt - 1\<rparr>)"
      by (auto simp: sys_ThreadJoin_resume_def Let_def)
  qed
qed

lemma leave_joined_effect:
  assumes "leave_joined c k = Inr (out, k')" "CURPTHREAD c k = Inr a" "ptcbs k a = Some pt"
  shows "out = Done Gone \<and> (\<exists>b. ptcbs k' a = Some (pt\<lparr>detached := b\<rparr>))"
proof -
  obtain x where x: "tcb_of (CURTHREAD c k) k = Some x" "owner_ptcb x = Some a"
    using assms(2) by (auto simp: CURPTHREAD_def elim!: bindE_elim)
  have id: "pt = pt\<lparr>detached := detached pt\<rparr>" by simp
  show ?thesis
  proof (cases "tstate x = EXITED")
    case True
    with assms(1,3) x have "out = Done Gone" "ptcbs k' a = Some pt"
      by (auto simp: leave_joined_def sys_ThreadDetach_def k_sleep_def on_cc_eq elim!: bindE_elim)
    with id show ?thesis by metis
  next
    case False
    with assms(1,3) x have "out = Done Gone" "ptcbs k' a = Some (pt\<lparr>detached := True\<rparr>)"
      by (auto simp: leave_joined_def sys_ThreadDetach_def k_sleep_def on_cc_eq Let_def
          elim!: bindE_elim bindE_elim2 split: if_splits)
    then show ?thesis by blast
  qed
qed

lemma sys_ThreadExit_waits:
  assumes "sys_ThreadExit n c v k = Inr (Wait cv cause tm (For_join a), k')"
  obtains pt where "cv = Ptcb_waiting a" "CURPTHREAD c k = Inr a" "ptcbs k a = Some pt" "waiting_threads pt = 0"
    "ptcbs k' a = Some (pt\<lparr>pexitval := v\<rparr>)"
proof -
  have j: "join_all n c p k \<noteq> Inr (Wait cv cause tm (For_join a), k')" for p k
  proof (induction n arbitrary: k)
    case 0
    show ?case by (simp add: join_all.simps [of 0] split: list.splits)
  next
    case (Suc n)
    show ?case using Suc
      by (auto simp: join_all.simps [of "Suc n"] elim!: bindE_elim bindE_elim2 split: list.splits outcome.splits)
  qed
  with assms show ?thesis using that
    by (auto simp: sys_ThreadExit_def Let_def leave_joined_def elim!: bindE_elim bindE_elim2 split: if_splits)
qed

text \<open>
  \<open>joined_by a m k k'\<close>: from \<open>k\<close> to \<open>k'\<close>, \<open>m\<close> calls of \<^verbatim>\<open>ThreadJoin\<close> have come to wait for the thread of \<open>a\<close>,
  and nothing else has touched its PTCB. \<open>returned a p rs k k'\<close>: joins of process \<open>p\<close> that waited have
  come back with the results \<open>rs\<close>.
\<close>

inductive joined_by :: "nat \<Rightarrow> nat \<Rightarrow> kernel \<Rightarrow> kernel \<Rightarrow> bool" where
  nobody: "ptcbs k' a = ptcbs k a \<Longrightarrow> joined_by a 0 k k'"
| join: "joined_by a m k k1 \<Longrightarrow> sys_ThreadJoin d tid k1 = Inr (Wait cv cause tm (p, a), k2) \<Longrightarrow>
     ptcbs k' a = ptcbs k2 a \<Longrightarrow> joined_by a (Suc m) k k'"

inductive returned :: "nat \<Rightarrow> (int \<times> int option) list \<Rightarrow> kernel \<Rightarrow> kernel \<Rightarrow> bool" where
  start: "ptcbs k' a = ptcbs k a \<Longrightarrow> returned a [] k k'"
| resume: "returned a rs k k1 \<Longrightarrow> sys_ThreadJoin_resume d (p, a) k1 = Inr (r, k2) \<Longrightarrow>
     ptcbs k' a = ptcbs k2 a \<Longrightarrow> returned a (r # rs) k k'"

lemma joined_by_count:
  "joined_by a m k k' \<Longrightarrow> ptcbs k a = Some pt \<Longrightarrow>
     ptcbs k' a = Some (pt\<lparr>waiting_threads := waiting_threads pt + int m\<rparr>)"
proof (induction rule: joined_by.induct)
  case (nobody k' a k)
  then show ?case by simp
next
  case (join a m k k1 d tid cv cause tm p k2 k')
  then have "ptcbs k1 a = Some (pt\<lparr>waiting_threads := waiting_threads pt + int m\<rparr>)" by simp
  with join(2,3) show ?case by (auto elim!: sys_ThreadJoin_waits)
qed

lemma returned_results:
  "returned a rs k k' \<Longrightarrow> ptcbs k a = Some pt \<Longrightarrow> 0 < waiting_threads pt \<Longrightarrow> int (length rs) \<le> waiting_threads pt \<Longrightarrow>
     (\<forall>r \<in> set rs. r = (0, Some (pexitval pt))) \<and>
     ptcbs k' a = (if int (length rs) = waiting_threads pt then None
                   else Some (pt\<lparr>waiting_threads := waiting_threads pt - int (length rs)\<rparr>))"
proof (induction rule: returned.induct)
  case (start k' a k)
  then show ?case by simp
next
  case (resume a rs k k1 d p r k2 k')
  then have IH: "\<forall>r \<in> set rs. r = (0, Some (pexitval pt))"
      "ptcbs k1 a = Some (pt\<lparr>waiting_threads := waiting_threads pt - int (length rs)\<rparr>)" by auto
  from resume(2) show ?case
  proof (rule sys_ThreadJoin_resume_effect)
    fix pt1
    assume J: "ptcbs k1 a = Some pt1" "r = (0, Some (pexitval pt1))"
      "waiting_threads pt1 = 1 \<Longrightarrow> ptcbs k2 a = None \<and> (\<forall>q. a \<notin> set (ptcb_list (PT k2 q))) \<and>
         thread_count (PT k2 p) = thread_count (PT k1 p) - 1"
      "waiting_threads pt1 \<noteq> 1 \<Longrightarrow> ptcbs k2 a = Some (pt1\<lparr>waiting_threads := waiting_threads pt1 - 1\<rparr>)"
    with IH resume(3) show ?case by auto
  qed
qed

section \<open>An example\<close>

text \<open>
  Process 2 has its main thread 3, which sleeps, thread 4 on core 0 and thread 2 on core 1; their
  PTCBs are 9, 10 and 11. Thread 4 is detached if \<open>d\<close> is set.
\<close>

definition member :: "nat \<Rightarrow> tcb \<Rightarrow> tcb" where
  "member a t = t\<lparr>owner_pcb := Some 2, owner_ptcb := Some a\<rparr>"

definition threads_cc :: cc where
  "threads_cc = example_cc\<lparr>waitset := (\<lambda>_. []), waiters := (\<lambda>_. None), sch := example_sched\<lparr>
     tcbs := (\<lambda>t. if t = Thr 4 then Some (member 10 (example_tcb NORMAL_THREAD RUNNING CTX_DIRTY 0 NO_TIMEOUT))
       else if t = Thr 2 then Some (member 11 (example_tcb NORMAL_THREAD RUNNING CTX_DIRTY 0 NO_TIMEOUT))
       else if t = Thr 3 then Some (member 9 (example_tcb NORMAL_THREAD STOPPED CTX_CLEAN 0 NO_TIMEOUT)) else None),
     SCHED := (\<lambda>_. []), TIMEOUT_LIST := [],
     current_thread := (\<lambda>c. if c = 0 then Thr 4 else if c = 1 then Thr 2 else Idle c)\<rparr>\<rparr>"

definition threads_ptcbs :: "bool \<Rightarrow> nat \<Rightarrow> ptcb option" where
  "threads_ptcbs d = [9 \<mapsto> some_ptcb\<lparr>pthread := Some (Thr 3)\<rparr>,
     10 \<mapsto> some_ptcb\<lparr>pthread := Some (Thr 4), detached := d\<rparr>,
     11 \<mapsto> some_ptcb\<lparr>pthread := Some (Thr 2), detached := False\<rparr>]"

definition threads_kernel :: "bool \<Rightarrow> kernel" where
  "threads_kernel d = (procs_kernel FREE)\<lparr>cc := threads_cc, ptcbs := threads_ptcbs d,
     PT := (\<lambda>p. if p = 2 then (PT (procs_kernel FREE) 2)\<lparr>ptcb_list := [10, 11], thread_count := 3\<rparr>
                else PT (procs_kernel FREE) p)\<rparr>"

text \<open>The threads run again, as before on their cores.\<close>

definition run_threads :: "kernel \<Rightarrow> kernel" where
  "run_threads k = k\<lparr>cc := threads_cc\<rparr>"

lemma threads_sel [simp]:
  "cc (threads_kernel d) = threads_cc" "ptcbs (threads_kernel d) = threads_ptcbs d"
  "main_thread (PT (threads_kernel d) 2) = Some 9" "ptcb_list (PT (threads_kernel d) 2) = [10, 11]"
  by (simp_all add: threads_kernel_def procs_main)

lemma threads_run [simp]:
  "cc (run_threads k) = threads_cc" "ptcbs (run_threads k) = ptcbs k" "PT (run_threads k) = PT k"
  by (simp_all add: run_threads_def)

lemma threads_cur [simp]:
  "cc k = threads_cc \<Longrightarrow> CURTHREAD 0 k = Thr 4" "cc k = threads_cc \<Longrightarrow> CURTHREAD 1 k = Thr 2"
  "cc k = threads_cc \<Longrightarrow> CURPROC 0 k = Inr 2" "cc k = threads_cc \<Longrightarrow> CURPROC 1 k = Inr 2"
  "cc k = threads_cc \<Longrightarrow> CURPTHREAD 0 k = Inr 10" "cc k = threads_cc \<Longrightarrow> CURPTHREAD 1 k = Inr 11"
  by (simp_all add: CURTHREAD_def CURPROC_def CURPTHREAD_def tcb_of_def threads_cc_def member_def)

lemmas threads_cur_Suc [simp] = threads_cur(2,4,6) [unfolded One_nat_def]

lemma threads_tcb:
  "cc k = threads_cc \<Longrightarrow> tcb_of (Thr 4) k = Some (member 10 (example_tcb NORMAL_THREAD RUNNING CTX_DIRTY 0 NO_TIMEOUT))"
  "cc k = threads_cc \<Longrightarrow> tcb_of (Thr 3) k = Some (member 9 (example_tcb NORMAL_THREAD STOPPED CTX_CLEAN 0 NO_TIMEOUT))"
  by (simp_all add: tcb_of_def threads_cc_def)

lemma member_sel [simp]:
  "owner_pcb (member a t) = Some 2" "owner_ptcb (member a t) = Some a" "tstate (member a t) = tstate t"
  by (simp_all add: member_def)

lemma threads_main: "cc k = threads_cc \<Longrightarrow> main_thread (PT k 2) = Some 9 \<Longrightarrow> ptcbs k 9 = threads_ptcbs d 9 \<Longrightarrow>
    main_tid 2 k = Inr (Some (Thr 3))"
  by (simp add: main_tid_def threads_ptcbs_def)

lemma threads_waitset [simp]: "waitset threads_cc cv = []" "mutexes threads_cc m = False"
  by (simp_all add: threads_cc_def)

lemma threads_broadcast: "cc k = threads_cc \<Longrightarrow> on_cc (Cond_Broadcast cv) k = Inr k"
  by (simp add: on_cc_def Cond_Broadcast_def broadcast_loop.simps [of 0])

lemma threads_sleep: "cc k = threads_cc \<Longrightarrow> \<exists>s. k_sleep c k = Inr (k\<lparr>cc := s\<rparr>)"
  by (auto simp: k_sleep_def on_cc_def kernel_sleep_enter_def kernel_unlock_def Cond_Signal_def cv_signal_def
      sleep_enter_def Let_def)

lemma threads_join:
  assumes "cc k = threads_cc" "main_thread (PT k 2) = Some 9" "ptcbs k 9 = threads_ptcbs d 9" "ptcbs k 10 = Some pt" "\<not> detached pt"
  shows "sys_ThreadJoin 1 (Some (Thr 4)) k =
    Inr (Wait (Ptcb_join 10) SCHED_USER NO_TIMEOUT (2, 10), upd_ptcb 10 (\<lambda>x. x\<lparr>waiting_threads := waiting_threads x + 1\<rparr>) k)"
  using assms by (simp add: sys_ThreadJoin_def threads_main threads_tcb threads_broadcast)

lemma threads_detach:
  "cc k = threads_cc \<Longrightarrow> ptcbs k 10 = Some pt \<Longrightarrow>
     sys_ThreadDetach (Some (Thr 4)) k = Inr (0, upd_ptcb 10 (\<lambda>x. x\<lparr>detached := True\<rparr>) k)"
  by (simp add: sys_ThreadDetach_def threads_tcb Let_def threads_broadcast)

lemma threads_leave:
  assumes "cc k = threads_cc" "ptcbs k 10 = Some pt"
  shows "\<exists>k'. leave_joined 0 k = Inr (Done Gone, k')"
proof -
  obtain s where "k_sleep 0 (upd_ptcb 10 (\<lambda>x. x\<lparr>detached := True\<rparr>) k) = Inr (upd_ptcb 10 (\<lambda>x. x\<lparr>detached := True\<rparr>) k\<lparr>cc := s\<rparr>)"
    using threads_sleep [of "upd_ptcb 10 (\<lambda>x. x\<lparr>detached := True\<rparr>) k" 0] assms(1) by auto
  with assms show ?thesis by (simp add: leave_joined_def threads_detach)
qed

lemma threads_back:
  assumes "cc k = threads_cc" "ptcbs k 10 = Some pt"
  shows "\<exists>k'. sys_ThreadJoin_resume 1 (2, 10) k = Inr ((0, Some (pexitval pt)), k') \<and>
    ptcbs k' 9 = ptcbs k 9 \<and> main_thread (PT k' 2) = main_thread (PT k 2)"
  using assms by (simp add: sys_ThreadJoin_resume_def Let_def lock_threads_def test_and_set_def
      unlock_threads_def free_ptcb_def unlink_ptcb_def)

section \<open>The properties of threads\<close>

text \<open>
  \<open>exits a v m k out k'\<close>: from \<open>k\<close> to \<open>k'\<close> the thread of \<open>a\<close> exits with \<open>v\<close> and \<open>m\<close> threads come to wait for it. Either all of
  them come first, and the exit wakes them; or the exit comes first and waits, and goes on when they have come. \<open>out\<close> is
  what the exit returns.
\<close>

inductive exits :: "nat \<Rightarrow> int \<Rightarrow> nat \<Rightarrow> kernel \<Rightarrow> (exit_result, exit_pc) outcome \<Rightarrow> kernel \<Rightarrow> bool" where
  joined_first: "joined_by a m k k1 \<Longrightarrow>
     CURPROC e k1 = Inr p \<Longrightarrow> CURPTHREAD e k1 = Inr a \<Longrightarrow> main_tid p k1 = Inr t \<Longrightarrow> t \<noteq> Some (CURTHREAD e k1) \<Longrightarrow>
     sys_ThreadExit n e v k1 = Inr (out, k') \<Longrightarrow> exits a v m k out k'"
| exited_first: "sys_ThreadExit n c v k = Inr (Wait cv cause tm (For_join a), k1) \<Longrightarrow> joined_by a m k1 k2 \<Longrightarrow>
     CURPTHREAD e k2 = Inr a \<Longrightarrow> sys_ThreadExit_resume n e (For_join a) k2 = Inr (out, k') \<Longrightarrow> exits a v m k out k'"

lemma joined_not_detached:
  "joined_by a m k k' \<Longrightarrow> 0 < m \<Longrightarrow> ptcbs k a = Some pt \<Longrightarrow> \<not> detached pt"
proof (induction rule: joined_by.induct)
  case (join a m k k1 d tid cv cause tm p k2 k')
  have "ptcbs k1 a = Some (pt\<lparr>waiting_threads := waiting_threads pt + int m\<rparr>)"
    by (rule joined_by_count [OF join(1,6)])
  with join(2) show ?case by (auto elim!: sys_ThreadJoin_waits)
qed simp

lemma exits_effect:
  assumes "exits a v m k out k'" and "0 < m" and "ptcbs k a = Some pt" "waiting_threads pt = 0"
  shows "out = Done Gone \<and> (\<exists>b. ptcbs k' a = Some (pt\<lparr>pexitval := v, waiting_threads := int m, detached := b\<rparr>))"
  using assms(1)
proof cases
  case (joined_first k1 e p t n)
  have J: "ptcbs k1 a = Some (pt\<lparr>waiting_threads := int m\<rparr>)"
    using joined_by_count [OF joined_first(1) assms(3)] assms(4) by simp
  let ?k = "upd_ptcb a (\<lambda>x. x\<lparr>pexitval := v\<rparr>) k1"
  have "\<not> detached pt" by (rule joined_not_detached [OF joined_first(1) assms(2,3)])
  then have l: "leave_joined e ?k = Inr (out, k')"
    using joined_first(2-6) J assms(2) by (simp add: sys_ThreadExit_def Let_def)
  have "ptcbs ?k a = Some (pt\<lparr>waiting_threads := int m, pexitval := v\<rparr>)" using J by simp
  moreover have "CURPTHREAD e ?k = Inr a" using joined_first(3) by (simp add: CURPTHREAD_def CURTHREAD_def tcb_of_def)
  ultimately show ?thesis using leave_joined_effect [OF l] by auto
next
  case (exited_first n c cv cause tm k1 k2 e)
  from exited_first(1) have k1: "ptcbs k1 a = Some (pt\<lparr>pexitval := v\<rparr>)"
    by (rule sys_ThreadExit_waits) (use assms(3) in simp)
  note J = joined_by_count [OF exited_first(2) k1]
  show ?thesis
    using leave_joined_effect [OF _ exited_first(3) J] exited_first(4) assms(4) by (auto simp: sys_ThreadExit_resume_def)
qed

text \<open>
  C15: joining returns the exit value to everybody. A thread that nobody has joined exits with \<open>v\<close>, and \<open>m > 0\<close>
  threads join it: all of them before it exits, or all of them after, while it waits for somebody
  to do so. In both orders it leaves for good, and the threads that joined it
  come back in any order. Every one of them gets 0 and \<open>v\<close>; the PTCB is there until the last of
  them has come back, and is free then.
\<close>

theorem join_gets_exit_value:
  assumes "ptcbs k a = Some pt" "waiting_threads pt = 0"
    and "exits a v m k out k1" "0 < m"
    and "returned a rs k1 k2" "length rs \<le> m"
  shows "out = Done Gone \<and> (\<forall>r \<in> set rs. r = (0, Some v)) \<and> (ptcbs k2 a = None \<longleftrightarrow> length rs = m)"
proof -
  obtain b where L: "out = Done Gone" "ptcbs k1 a = Some (pt\<lparr>pexitval := v, waiting_threads := int m, detached := b\<rparr>)"
    using exits_effect [OF assms(3,4,1,2)] by blast
  from returned_results [OF assms(5) L(2)] assms(4,6) L(1) show ?thesis by auto
qed

text \<open>The two orders in the example: thread 4 exits with 42 and waits, or thread 2 joins it first.\<close>

lemma exited_first_example:
  "\<exists>k1 k2 k3. sys_ThreadExit 3 0 42 (threads_kernel False) = Inr (Wait (Ptcb_waiting 10) SCHED_USER NO_TIMEOUT (For_join 10), k1) \<and>
     joined_by 10 1 k1 k2 \<and> sys_ThreadExit_resume 3 0 (For_join 10) k2 = Inr (Done Gone, k3) \<and> CURPTHREAD 0 k2 = Inr 10 \<and>
     ptcbs k3 10 \<noteq> None"
proof -
  define k where "k = threads_kernel False"
  have k: "cc k = threads_cc" "main_thread (PT k 2) = Some 9" "ptcbs k = threads_ptcbs False"
    by (simp_all add: k_def)
  note m = threads_main [OF k(1,2), of False]
  obtain k1 where e: "sys_ThreadExit 3 0 42 k = Inr (Wait (Ptcb_waiting 10) SCHED_USER NO_TIMEOUT (For_join 10), k1)"
      "cc k1 = threads_cc" "PT k1 = PT k" "ptcbs k1 9 = threads_ptcbs False 9" "ptcbs k1 10 = Some (some_ptcb\<lparr>pthread := Some (Thr 4), detached := False, pexitval := 42\<rparr>)"
    using k m by (simp add: sys_ThreadExit_def threads_ptcbs_def some_ptcb_def)
  define k2 where "k2 = upd_ptcb 10 (\<lambda>x. x\<lparr>waiting_threads := waiting_threads x + 1\<rparr>) k1"
  have "sys_ThreadJoin 1 (Some (Thr 4)) k1 = Inr (Wait (Ptcb_join 10) SCHED_USER NO_TIMEOUT (2, 10), k2)"
    unfolding k2_def by (rule threads_join [OF e(2) _ e(4,5)]) (simp_all add: e k)
  then have j: "joined_by 10 1 k1 k2"
    using joined_by.join [OF joined_by.nobody [of k1 10 k1]] by simp
  have k2: "cc k2 = threads_cc" "\<exists>pt. ptcbs k2 10 = Some pt" by (simp_all add: k2_def e)
  then obtain k3 where x: "sys_ThreadExit_resume 3 0 (For_join 10) k2 = Inr (Done Gone, k3)"
    using threads_leave by (auto simp: sys_ThreadExit_resume_def)
  have "leave_joined 0 k2 = Inr (Done Gone, k3)" using x by (simp add: sys_ThreadExit_resume_def)
  then have "ptcbs k3 10 \<noteq> None" using leave_joined_effect k2 by fastforce
  moreover have "CURPTHREAD 0 k2 = Inr 10" using k2(1) by (rule threads_cur)
  ultimately show ?thesis using e(1) j x unfolding k_def by blast
qed

lemma joined_first_example:
  "\<exists>k1 k2. sys_ThreadJoin 1 (Some (Thr 4)) (threads_kernel False) = Inr (Wait (Ptcb_join 10) SCHED_USER NO_TIMEOUT (2, 10), k1) \<and>
     sys_ThreadExit 3 0 42 k1 = Inr (Done Gone, k2) \<and> main_tid 2 k1 = Inr (Some (Thr 3)) \<and> cc k1 = threads_cc \<and> ptcbs k2 10 \<noteq> None"
proof -
  define k where "k = threads_kernel False"
  have k: "cc k = threads_cc" "main_thread (PT k 2) = Some 9" "ptcbs k = threads_ptcbs False"
    by (simp_all add: k_def)
  obtain pt where pt: "ptcbs k 10 = Some pt" "waiting_threads pt = 0" "\<not> detached pt"
    by (simp add: k threads_ptcbs_def some_ptcb_def)
  define k1 where "k1 = upd_ptcb 10 (\<lambda>x. x\<lparr>waiting_threads := waiting_threads x + 1\<rparr>) k"
  have j: "sys_ThreadJoin 1 (Some (Thr 4)) k = Inr (Wait (Ptcb_join 10) SCHED_USER NO_TIMEOUT (2, 10), k1)"
    unfolding k1_def by (rule threads_join [OF k(1,2) _ pt(1,3), of False]) (simp add: k)
  have c: "cc k1 = threads_cc" "main_tid 2 k1 = Inr (Some (Thr 3))" "ptcbs k1 10 = Some (pt\<lparr>waiting_threads := 1\<rparr>)"
    using threads_main [of k1 False] pt by (simp_all add: k1_def k)
  define k1' where "k1' = upd_ptcb 10 (\<lambda>x. x\<lparr>pexitval := 42\<rparr>) k1"
  have c': "cc k1' = threads_cc" "ptcbs k1' 10 = Some (pt\<lparr>waiting_threads := 1, pexitval := 42\<rparr>)" using c by (simp_all add: k1'_def)
  obtain k2 where l: "leave_joined 0 k1' = Inr (Done Gone, k2)" using threads_leave [OF c'] by blast
  have "sys_ThreadExit 3 0 42 k1 = Inr (Done Gone, k2)"
    using l c pt(3) by (simp add: sys_ThreadExit_def Let_def k1'_def)
  moreover have "ptcbs k2 10 \<noteq> None" using leave_joined_effect [OF l _ c'(2)] c'(1) by auto
  ultimately show ?thesis using j c(1,2) unfolding k_def by blast
qed

theorem join_gets_exit_value_witness:
  "\<exists>k1 k2 k3 k4. exits 10 42 1 (threads_kernel False) (Done Gone) k1 \<and> returned 10 [(0, Some 42)] k1 k2 \<and> ptcbs k2 10 = None \<and>
     (\<exists>k0. sys_ThreadJoin 1 (Some (Thr 4)) (threads_kernel False) = Inr (Wait (Ptcb_join 10) SCHED_USER NO_TIMEOUT (2, 10), k0) \<and>
       sys_ThreadExit 3 0 42 k0 = Inr (Done Gone, k3)) \<and> returned 10 [(0, Some 42)] k3 k4 \<and> ptcbs k4 10 = None"
proof -
  let ?k = "threads_kernel False"
  obtain pt where pt: "ptcbs ?k 10 = Some pt" "waiting_threads pt = 0" by (simp add: threads_ptcbs_def some_ptcb_def)
  have home: "\<exists>k4. returned 10 [(0, Some 42)] k3 k4 \<and> ptcbs k4 10 = None"
    if x: "exits 10 42 1 ?k (Done Gone) k3" and n: "ptcbs k3 10 \<noteq> None" for k3
  proof -
    obtain r k4 where b: "sys_ThreadJoin_resume 1 (2, 10) (run_threads k3) = Inr (r, k4)"
      using threads_back [of "run_threads k3"] n by auto
    have R: "returned 10 [r] k3 k4" by (rule returned.resume [OF returned.start b]) simp_all
    have "r = (0, Some 42) \<and> ptcbs k4 10 = None" using join_gets_exit_value [OF pt x _ R] by simp
    with R show ?thesis by auto
  qed
  obtain k1 where x1: "exits 10 42 1 ?k (Done Gone) k1" "ptcbs k1 10 \<noteq> None"
    using exited_first_example exits.exited_first by blast
  obtain k0 k3 where x2: "sys_ThreadJoin 1 (Some (Thr 4)) ?k = Inr (Wait (Ptcb_join 10) SCHED_USER NO_TIMEOUT (2, 10), k0)"
      "sys_ThreadExit 3 0 42 k0 = Inr (Done Gone, k3)" "main_tid 2 k0 = Inr (Some (Thr 3))" "cc k0 = threads_cc" "ptcbs k3 10 \<noteq> None"
    using joined_first_example by blast
  have "joined_by 10 1 ?k k0" using joined_by.join [OF joined_by.nobody [of ?k 10 ?k] x2(1)] by simp
  then have "exits 10 42 1 ?k (Done Gone) k3"
    using x2(2-4) by (intro exits.joined_first [of 10 1 ?k k0 0 2 "Some (Thr 3)"]) simp_all
  from home [OF this x2(5)] home [OF x1] x1(1) x2(1,2) show ?thesis by blast
qed

text \<open>
  Detaching a thread that is being joined breaks it. The joiner wakes up and returns 0 as if
  the thread had ended, with an exit value that the thread never gave, and as the last joiner it frees the PTCB, which the thread
  uses when it does exit.
\<close>

theorem detach_frees_joined_thread:
  assumes "ptcbs k a = Some pt" "waiting_threads pt = 0"
    and "sys_ThreadJoin d (Some t) k = Inr (Wait cv cause tm (p, a), k1)"
    and "tcb_of t k2 = Some x" "owner_ptcb x = Some a" "ptcbs k2 a = ptcbs k1 a"
    and "sys_ThreadDetach (Some t) k2 = Inr (0, k3)"
    and "ptcbs k4 a = ptcbs k3 a" "sys_ThreadJoin_resume d (p, a) k4 = Inr (r, k5)"
    and "ptcbs k6 a = ptcbs k5 a" "CURPROC c k6 = Inr q" "CURPTHREAD c k6 = Inr a" "main_tid q k6 = Inr m" "m \<noteq> Some (CURTHREAD c k6)"
  shows "r = (0, Some (pexitval pt)) \<and> sys_ThreadExit n c v k6 = Inl Use_after_free"
proof -
  from assms(3) have k1: "ptcbs k1 a = Some (pt\<lparr>waiting_threads := 1\<rparr>)"
    by (rule sys_ThreadJoin_waits) (use assms(1,2) in simp)
  have k3: "ptcbs k3 a = Some (pt\<lparr>waiting_threads := 1, detached := True\<rparr>)"
    using assms(4-7) k1 by (auto simp: sys_ThreadDetach_def on_cc_eq Let_def elim!: bindE_elim split: if_splits)
  from assms(9) have "r = (0, Some (pexitval pt)) \<and> ptcbs k5 a = None"
    by (rule sys_ThreadJoin_resume_effect) (use k3 assms(8) in auto)
  with assms(10-14) show ?thesis by (auto simp: sys_ThreadExit_def)
qed

theorem detach_frees_joined_thread_witness:
  "\<exists>k1 k3 k5. sys_ThreadJoin 1 (Some (Thr 4)) (threads_kernel False) = Inr (Wait (Ptcb_join 10) SCHED_USER NO_TIMEOUT (2, 10), k1) \<and>
     sys_ThreadDetach (Some (Thr 4)) k1 = Inr (0, k3) \<and> sys_ThreadJoin_resume 1 (2, 10) k3 = Inr ((0, Some 0), k5) \<and>
     sys_ThreadExit 3 0 42 (run_threads k5) = Inl Use_after_free"
proof -
  define k where "k = threads_kernel False"
  have k: "cc k = threads_cc" "main_thread (PT k 2) = Some 9" "ptcbs k = threads_ptcbs False"
    by (simp_all add: k_def)
  obtain pt where pt: "ptcbs k 10 = Some pt" "waiting_threads pt = 0" "\<not> detached pt" "pexitval pt = 0"
    by (simp add: k threads_ptcbs_def some_ptcb_def)
  define k1 where "k1 = upd_ptcb 10 (\<lambda>x. x\<lparr>waiting_threads := waiting_threads x + 1\<rparr>) k"
  have j: "sys_ThreadJoin 1 (Some (Thr 4)) k = Inr (Wait (Ptcb_join 10) SCHED_USER NO_TIMEOUT (2, 10), k1)"
    unfolding k1_def by (rule threads_join [OF k(1,2) _ pt(1,3), of False]) (simp add: k)
  define k3 where "k3 = upd_ptcb 10 (\<lambda>x. x\<lparr>detached := True\<rparr>) k1"
  have c: "cc k1 = threads_cc" "ptcbs k1 10 \<noteq> None" using pt(1) by (simp_all add: k1_def k)
  note t = threads_tcb(1) [OF c(1)]
  have d: "sys_ThreadDetach (Some (Thr 4)) k1 = Inr (0, k3)"
    using threads_detach [OF c(1)] c(2) by (auto simp: k3_def)
  have "cc k3 = threads_cc" "ptcbs k3 10 = Some (pt\<lparr>waiting_threads := waiting_threads pt + 1, detached := True\<rparr>)"
    using pt(1) by (simp_all add: k3_def k1_def k)
  from threads_back [OF this] obtain k5 where b: "sys_ThreadJoin_resume 1 (2, 10) k3 = Inr ((0, Some 0), k5)"
      "ptcbs k5 9 = ptcbs k3 9" "main_thread (PT k5 2) = main_thread (PT k3 2)"
    using pt(4) by auto
  have m: "main_tid 2 (run_threads k5) = Inr (Some (Thr 3))"
    by (rule threads_main [of _ False]) (simp_all add: b k3_def k1_def k)
  have "sys_ThreadExit 3 0 42 (run_threads k5) = Inl Use_after_free"
    using detach_frees_joined_thread [OF pt(1,2) j t _ _ d _ b(1) _ _ _ m, of 0] by simp
  with j d b(1) show ?thesis unfolding k_def by blast
qed

lemma join_all_spins:
  assumes "ptcb_list (PT k p) = a # as" "ptcbs k a = Some pt"
    and "sys_ThreadJoin c (pthread pt) k = Inr (Done r, k)"
  shows "join_all n c p k = Inl No_return"
  using assms by (induction n) (simp_all add: join_all.simps [of 0] join_all.simps [of "Suc _"] split: prod.split)

text \<open>
  C40: the main thread of a process never returns from \<^verbatim>\<open>ThreadExit\<close> when the first of the other
  threads is detached: its join fails at once and the loop tries it again, with the kernel locked.
\<close>

theorem main_exit_spins:
  assumes "CURPROC c k = Inr p" "CURPTHREAD c k = Inr b" "main_tid p k = Inr (Some (CURTHREAD c k))"
    and "ptcb_list (PT k p) = a # as" "ptcbs k a = Some pt" "detached pt" "pthread pt = Some t"
    and "tcb_of t k = Some x" "owner_pcb x = Some p" "owner_ptcb x = Some a"
  shows "sys_ThreadExit n c v k = Inl No_return"
proof -
  have "\<exists>r. sys_ThreadJoin c (pthread pt) k = Inr (Done r, k)"
    using assms by (simp add: sys_ThreadJoin_def)
  then obtain r where "sys_ThreadJoin c (pthread pt) k = Inr (Done r, k)" ..
  from join_all_spins [OF assms(4,5) this] assms(1-3) show ?thesis
    by (simp add: sys_ThreadExit_def)
qed

text \<open>Thread 4 is now the main thread, and thread 2 is detached.\<close>

definition main_kernel :: kernel where
  "main_kernel = (threads_kernel True)\<lparr>
     PT := (\<lambda>p. (PT (threads_kernel True) p)\<lparr>main_thread := Some 10, ptcb_list := [11]\<rparr>),
     ptcbs := (threads_ptcbs True)(11 \<mapsto> some_ptcb\<lparr>pthread := Some (Thr 2), detached := True\<rparr>)\<rparr>"

theorem main_exit_spins_witness: "sys_ThreadExit 1000 0 0 main_kernel = Inl No_return"
proof -
  have k: "cc main_kernel = threads_cc" "ptcb_list (PT main_kernel 2) = [11]"
      "ptcbs main_kernel 11 = Some (some_ptcb\<lparr>pthread := Some (Thr 2), detached := True\<rparr>)"
    by (simp_all add: main_kernel_def)
  have m: "main_tid 2 main_kernel = Inr (Some (CURTHREAD 0 main_kernel))"
    by (simp add: main_tid_def k(1)) (simp add: main_kernel_def threads_ptcbs_def)
  have t: "tcb_of (Thr 2) main_kernel = Some (member 11 (example_tcb NORMAL_THREAD RUNNING CTX_DIRTY 0 NO_TIMEOUT))"
    by (simp add: tcb_of_def k(1)) (simp add: threads_cc_def)
  show ?thesis
    using main_exit_spins [OF _ _ m k(2,3) _ _ t, of 10 1000 0] k(1) by simp
qed

end
