(* ===== verification/Syscalls.thy ===== *)
theory Syscalls
  imports Threads
begin

text \<open>
  The system calls together. In every interleaving of the calls on streams, processes and threads
  the reference count of every file control block is the number of descriptors that point to it
  and of the calls in progress that use it, and its object has the type that its operations
  expect.
\<close>

section \<open>Types of streams\<close>

text \<open>
  The operations of a stream get their object as a \<^verbatim>\<open>void*\<close> and use it as what it should be.
\<close>

definition right_type :: "file_ops \<Rightarrow> streamobj \<Rightarrow> bool" where
  "right_type ops obj = (case ops of
     Nulldev_fops \<Rightarrow> obj = Null_object
   | Serial_fops \<Rightarrow> (case obj of Serial_dcb _ \<Rightarrow> True | _ \<Rightarrow> False)
   | Reader_ops \<Rightarrow> (case obj of Pipe_obj _ \<Rightarrow> True | _ \<Rightarrow> False)
   | Writer_ops \<Rightarrow> (case obj of Pipe_obj _ \<Rightarrow> True | _ \<Rightarrow> False)
   | Socket_ops \<Rightarrow> (case obj of Scb_obj _ \<Rightarrow> True | _ \<Rightarrow> False)
   | Info_ops \<Rightarrow> (case obj of Info_obj _ \<Rightarrow> True | _ \<Rightarrow> False))"

definition typed :: "kernel \<Rightarrow> bool" where
  "typed k \<longleftrightarrow> (\<forall>f ops. streamfunc (FT k f) = Some ops \<longrightarrow> right_type ops (streamobj (FT k f)))"

section \<open>What a call of one process changes\<close>

text \<open>
  \<open>touches p k k'\<close>: the process tree is as before, descriptors have changed in process \<open>p\<close> only, and a
  block that has got a new stream has got one of the right type.
\<close>

definition touches :: "nat \<Rightarrow> kernel \<Rightarrow> kernel \<Rightarrow> bool" where
  "touches p k k' \<longleftrightarrow> same_tree k k' \<and> (\<forall>q. q \<noteq> p \<longrightarrow> FIDT (PT k' q) = FIDT (PT k q)) \<and>
     (\<forall>f. streamobj (FT k' f) = streamobj (FT k f) \<and> streamfunc (FT k' f) = streamfunc (FT k f) \<or>
          (\<exists>ops. streamfunc (FT k' f) = Some ops \<and> right_type ops (streamobj (FT k' f))))"

lemma touches_refl [simp]: "touches p k k"
  by (simp add: touches_def)

lemma touches_trans [trans]: "touches p k k1 \<Longrightarrow> touches p k1 k2 \<Longrightarrow> touches p k k2"
proof -
  assume a: "touches p k k1" and b: "touches p k1 k2"
  have "streamobj (FT k2 f) = streamobj (FT k f) \<and> streamfunc (FT k2 f) = streamfunc (FT k f) \<or>
      (\<exists>ops. streamfunc (FT k2 f) = Some ops \<and> right_type ops (streamobj (FT k2 f)))" for f
    using a b unfolding touches_def by (cases "streamobj (FT k2 f) = streamobj (FT k1 f) \<and> streamfunc (FT k2 f) = streamfunc (FT k1 f)") force+
  with a b show ?thesis unfolding touches_def by (auto intro: same_tree_trans)
qed

lemma touches_same_files [intro]: "same_files k k' \<Longrightarrow> touches p k k'"
  using same_files_tree [of k k'] by (simp add: touches_def same_filesD)

lemma touches_tables:
  "PT k' = PT k \<Longrightarrow> FT k' = FT k \<Longrightarrow> pcb_freelist k' = pcb_freelist k \<Longrightarrow> process_count k' = process_count k \<Longrightarrow> touches p k k'"
  by (simp add: touches_def same_tree_def)

lemma touches_set_fid: "touches p k (set_fid p i x k)"
  by (simp add: touches_def same_tree_def set_fid_def)

lemma touches_count: "touches p k (upd_fcb f (\<lambda>b. b\<lparr>refcount := g b\<rparr>) k)"
  by (simp add: touches_def same_tree_def)

lemma touches_incref: "touches p k (FCB_incref f k)"
  unfolding FCB_incref_def by (rule touches_count)

lemma touches_release: "touches p k (release_FCB f k)"
  by (rule touches_tables) (simp_all add: release_FCB_def)

lemma touches_retype: "right_type ops obj \<Longrightarrow> touches p k (upd_fcb f (\<lambda>b. b\<lparr>streamobj := obj, streamfunc := Some ops\<rparr>) k)"
  by (simp add: touches_def same_tree_def)

lemma touches_FCB_decref: "FCB_decref c f k = Inr (n, k') \<Longrightarrow> touches p k k'"
proof -
  assume d: "FCB_decref c f k = Inr (n, k')"
  define k1 where "k1 = upd_fcb f (\<lambda>b. b\<lparr>refcount := refcount b - 1\<rparr>) k"
  have 1: "touches p k k1" unfolding k1_def by (rule touches_count)
  show ?thesis
  proof (cases "refcount (FT k1 f) = 0")
    case True
    with d obtain ops k2 where c: "stream_close c ops (streamobj (FT k1 f)) k1 = Inr (n, k2)" "k' = release_FCB f k2"
      by (auto simp: FCB_decref_def Let_def k1_def [symmetric] elim!: bindE_elim bindE_elim2)
    have "touches p k1 k2" using stream_close_frame [OF c(1)] by (rule touches_same_files)
    with 1 have "touches p k k2" by (rule touches_trans)
    then show ?thesis unfolding c(2) using touches_release by (rule touches_trans)
  next
    case False
    with d 1 show ?thesis by (simp add: FCB_decref_def Let_def k1_def [symmetric])
  qed
qed

lemma install_FIDT: "q \<noteq> p \<Longrightarrow> FIDT (PT (fold (install_fid p) xs k) q) = FIDT (PT k q)"
  by (induction xs arbitrary: k) (auto simp: install_fid_def FCB_incref_def set_fid_def split: prod.split)

lemma acquire_FCB_PT: "acquire_FCB k = (x, k') \<Longrightarrow> PT k' = PT k"
  by (auto simp: acquire_FCB_def split: list.splits)

lemma acquire_FCBs_PT: "acquire_FCBs n k = (fs, k') \<Longrightarrow> PT k' = PT k"
proof (induction n arbitrary: k fs)
  case (Suc n)
  obtain x k1 where 1: "acquire_FCB k = (x, k1)" by (cases "acquire_FCB k")
  obtain gs k2 where 2: "acquire_FCBs n k1 = (gs, k2)" by (cases "acquire_FCBs n k1")
  from Suc.IH [of k1] Suc.prems 1 2 acquire_FCB_PT [OF 1] show ?case by (cases x) auto
qed simp

lemma release_PT: "PT (fold release_FCB fs k) = PT k"
  by (induction fs arbitrary: k) (simp_all add: release_FCB_def)

lemma files_only_tree: "files_only k k' \<Longrightarrow> same_tree k k'"
  by (simp add: same_tree_def files_only_sel)

lemma touches_FCB_reserve:
  assumes "CURPROC c k = Inr p" "FCB_reserve c n k = Inr (r, k')"
  shows "touches p k k'"
proof -
  note S = files_only_reserve [OF assms(2)]
  have "FIDT (PT k' q) = FIDT (PT k q)" if "q \<noteq> p" for q
  proof (cases "length (find_fids n 0 (FIDT (PT k p))) < n")
    case True
    with assms show ?thesis by (simp add: FCB_reserve_def Let_def)
  next
    case False
    obtain fcbs k1 where a: "acquire_FCBs n k = (fcbs, k1)" by (cases "acquire_FCBs n k")
    with False assms that show ?thesis
      using acquire_FCBs_PT [OF a]
      by (cases "length fcbs < n") (auto simp: FCB_reserve_def Let_def install_FIDT release_PT)
  qed
  with S show ?thesis by (simp add: touches_def files_only_sel [OF S] files_only_tree)
qed

lemma touches_typed:
  assumes t: "touches p k k'" and "typed k"
  shows "typed k'"
  unfolding typed_def
proof (intro allI impI)
  fix f ops assume "streamfunc (FT k' f) = Some ops"
  with assms show "right_type ops (streamobj (FT k' f))" by (auto simp: touches_def typed_def dest!: spec [of _ f])
qed

lemma touches_inv:
  assumes t: "touches p k k'" and al: "pstate (PT k p) = ALIVE"
  shows "tree_inv k \<Longrightarrow> tree_inv k'" and "fids_inv k \<Longrightarrow> fids_inv k'" and "typed k \<Longrightarrow> typed k'"
proof -
  show "tree_inv k \<Longrightarrow> tree_inv k'" using t same_tree_inv by (auto simp: touches_def)
  show "typed k \<Longrightarrow> typed k'" by (rule touches_typed [OF t])
  show "fids_inv k'" if "fids_inv k"
    unfolding fids_inv_def
  proof (intro allI impI)
    fix q i assume q: "q < MAX_PROC" "i < MAX_FILEID" "pstate (PT k' q) \<noteq> ALIVE"
    with t al have "q \<noteq> p" "pstate (PT k q) \<noteq> ALIVE" by (auto simp: touches_def same_tree_def)
    with t that q show "FIDT (PT k' q) i = None" by (simp add: touches_def fids_inv_def)
  qed
qed

section \<open>Each call touches its own process only\<close>

lemma drop_ref_touches:
  "drop_ref c f (out, k) = Inr (out', k') \<Longrightarrow> touches p k k'"
  by (cases out) (auto simp: drop_ref_def elim!: bindE_elim2 intro: touches_FCB_decref)

context bracketed_op begin

lemma bracket_touches:
  assumes "bindE (act k) (drop_ref c f) = Inr (out, k')"
  shows "touches p k k'"
proof -
  obtain o1 k1 where x: "act k = Inr (o1, k1)" "drop_ref c f (o1, k1) = Inr (out, k')"
    using assms by (elim bindE_elim) auto
  have "touches p k k1" using frame [OF x(1)] by (rule touches_same_files)
  with drop_ref_touches [OF x(2)] show ?thesis using touches_trans by blast
qed

end

lemma sys_resume_touches:
  "sys_Read_resume run c (f, pc) sz k = Inr (out, k') \<Longrightarrow> touches p k k'"
  "sys_Write_resume c (f, pc) buf sz k = Inr (out', k') \<Longrightarrow> touches p k k'"
  unfolding sys_Read_resume_def sys_Write_resume_def prod.case
  by (rule rd_resume.bracket_touches, assumption) (rule wr_resume.bracket_touches, assumption)

lemma sys_Read_touches:
  assumes "sys_Read run c fd sz k = Inr (out, k')"
  shows "touches p k k'"
proof -
  obtain x where x: "get_fcb c fd k = Inr x" using assms by (auto simp: sys_Read_def elim!: bindE_elim)
  show ?thesis
  proof (cases x)
    case None
    with assms x show ?thesis by (simp add: sys_Read_def)
  next
    case (Some f)
    with assms x obtain ops where b: "bindE (if has_read ops then stream_read run c ops (streamobj (FT k f)) sz (FCB_incref f k)
        else Inr (outcome.Done (-1, Bytes []), FCB_incref f k)) (drop_ref c f) = Inr (out, k')"
      by (auto simp: sys_Read_def Let_def bindE_eq_Inr [of "nonnullE _"])
    have "touches p (FCB_incref f k) k'"
      by (cases "has_read ops"; rule rd.bracket_touches no_op.bracket_touches; use b in simp)
    with touches_incref show ?thesis by (rule touches_trans)
  qed
qed

lemma sys_Write_touches:
  assumes "sys_Write c fd buf sz k = Inr (out, k')"
  shows "touches p k k'"
proof -
  obtain x where x: "get_fcb c fd k = Inr x" using assms by (auto simp: sys_Write_def elim!: bindE_elim)
  show ?thesis
  proof (cases x)
    case None
    with assms x show ?thesis by (simp add: sys_Write_def)
  next
    case (Some f)
    with assms x obtain ops where b: "bindE (if has_write ops then stream_write ops (streamobj (FT k f)) buf sz (FCB_incref f k)
        else Inr (outcome.Done (-1), FCB_incref f k)) (drop_ref c f) = Inr (out, k')"
      by (auto simp: sys_Write_def Let_def bindE_eq_Inr [of "nonnullE _"])
    have "touches p (FCB_incref f k) k'"
      by (cases "has_write ops"; rule wr.bracket_touches no_op.bracket_touches; use b in simp)
    with touches_incref show ?thesis by (rule touches_trans)
  qed
qed

lemma sys_Close_touches:
  assumes "sys_Close c fd k = Inr (n, k')" "CURPROC c k = Inr p"
  shows "touches p k k'"
proof -
  obtain x where x: "get_fcb c fd k = Inr x" using assms by (auto simp: sys_Close_def Let_def elim!: bindE_elim)
  show ?thesis
  proof (cases x)
    case None
    with assms x show ?thesis by (simp add: sys_Close_def Let_def)
  next
    case (Some f)
    with assms x have "FCB_decref c f (set_fid p (nat fd) None k) = Inr (n, k')" by (simp add: sys_Close_def Let_def)
    from touches_trans [OF touches_set_fid touches_FCB_decref [OF this]] show ?thesis .
  qed
qed

lemma sys_Dup2_touches:
  assumes d: "sys_Dup2 c oldfd newfd k = Inr (n, k')" and p: "CURPROC c k' = Inr p"
  shows "touches p k k'"
proof (cases "oldfd < 0 \<or> newfd < 0 \<or> oldfd \<ge> int MAX_FILEID \<or> newfd \<ge> int MAX_FILEID")
  case True
  with d show ?thesis by (simp add: sys_Dup2_def)
next
  case False
  with d obtain old new where x: "get_fcb c oldfd k = Inr old" "get_fcb c newfd k = Inr new"
    unfolding sys_Dup2_def by (auto elim!: bindE_elim)
  show ?thesis
  proof (cases "old = None \<or> old = new")
    case True
    with d x False show ?thesis by (auto simp: sys_Dup2_def split: option.splits)
  next
    case f: False
    then obtain f where o: "old = Some f" "Some f \<noteq> new" by auto
    from d x False o obtain j q where k1: "(case new of None \<Rightarrow> Inr (0, k) | Some g \<Rightarrow> FCB_decref c g k) = Inr j"
        "CURPROC c (FCB_incref f (snd j)) = Inr q" "k' = set_fid q (nat newfd) (Some f) (FCB_incref f (snd j))"
      by (auto simp: sys_Dup2_def elim!: bindE_elim2 bindE_elim)
    have q: "q = p" using p k1(2,3) CURPROC_cong [of k' "FCB_incref f (snd j)" c] by (simp add: set_fid_def)
    have "touches p k (snd j)" using k1(1) by (cases j; cases new) (auto intro: touches_FCB_decref)
    also have "touches p (snd j) (FCB_incref f (snd j))" by (rule touches_incref)
    also have "touches p (FCB_incref f (snd j)) k'" unfolding k1(3) q by (rule touches_set_fid)
    finally show ?thesis .
  qed
qed

lemma device_open_type: "device_open major minor k = Inr (Some (obj, ops)) \<Longrightarrow> right_type ops obj"
  by (auto simp: device_open_def right_type_def nulldev_open_def serial_open_def split: if_splits device_type.splits elim!: bindE_elim)

lemma unreserve_touches:
  "fold (unreserve_fid p) xs (Inr k) = Inr k' \<Longrightarrow> touches p k k'"
proof (induction xs arbitrary: k)
  case (Cons x xs)
  obtain i f where x: "x = (i, f)" by (cases x)
  have fault: "fold (unreserve_fid p) ys (Inl e) = Inl e" for ys e
    by (induction ys) (simp_all add: unreserve_fid_def split: prod.split)
  have step: "unreserve_fid p x (Inr k) = (if FIDT (PT k p) i = Some f then Inr (release_FCB f (set_fid p i None k)) else Inl Assert_failed)"
    by (simp add: x unreserve_fid_def)
  define k1 where "k1 = release_FCB f (set_fid p i None k)"
  have 1: "touches p k k1"
    unfolding k1_def using touches_set_fid touches_release by (rule touches_trans)
  have "fold (unreserve_fid p) xs (Inr k1) = Inr k'"
    using Cons.prems by (cases "FIDT (PT k p) i = Some f") (simp_all add: step fault k1_def)
  from touches_trans [OF 1 Cons.IH [OF this]] show ?case .
qed simp

lemma open_stream_touches:
  assumes r: "open_stream c major minor k = Inr (n, k')" and p: "CURPROC c k = Inr p"
  shows "touches p k k'"
proof -
  obtain y k1 where y: "FCB_reserve c 1 k = Inr (y, k1)" using r by (auto simp: open_stream_def elim!: bindE_elim2)
  note T = touches_FCB_reserve [OF p y]
  have cur: "CURPROC c k1 = Inr p" using p CURPROC_cong [OF files_only_sel(1) [OF files_only_reserve [OF y]]] by simp
  show ?thesis
  proof (cases y)
    case None
    with r y T show ?thesis by (simp add: open_stream_def)
  next
    case (Some z)
    obtain fids fcbs where z: "z = (fids, fcbs)" by (cases z)
    from r y Some z obtain d where d: "device_open major minor k1 = Inr d" "(case d of
           None \<Rightarrow> bindE (FCB_unreserve c fids fcbs k1) (\<lambda>k2. Inr (NOFILE, k2))
         | Some (obj, ops) \<Rightarrow>
             Inr (int (hd fids), upd_fcb (hd fcbs) (\<lambda>b. b\<lparr>streamobj := obj, streamfunc := Some ops\<rparr>) k1)) = Inr (n, k')"
      by (auto simp: open_stream_def elim: bindE_elim)
    show ?thesis
    proof (cases d)
      case None
      with d(2) cur have "fold (unreserve_fid p) (zip fids fcbs) (Inr k1) = Inr k'"
        by (auto simp: FCB_unreserve_def elim!: bindE_elim)
      from touches_trans [OF T unreserve_touches [OF this]] show ?thesis .
    next
      case (Some w)
      obtain obj ops where w: "w = (obj, ops)" by (cases w)
      have t: "right_type ops obj" using d(1) Some w by (simp add: device_open_type)
      have k': "k' = upd_fcb (hd fcbs) (\<lambda>b. b\<lparr>streamobj := obj, streamfunc := Some ops\<rparr>) k1" using d(2) Some w by simp
      show ?thesis unfolding k' using T touches_retype [OF t] by (rule touches_trans)
    qed
  qed
qed

lemma sys_Pipe_touches:
  assumes r: "sys_Pipe c k = Inr (x, k')" and p: "CURPROC c k = Inr p"
  shows "touches p k k'"
proof -
  obtain y k1 where y: "FCB_reserve c 2 k = Inr (y, k1)" using r by (auto simp: sys_Pipe_def elim!: bindE_elim2)
  note T = touches_FCB_reserve [OF p y]
  show ?thesis
  proof (cases y)
    case None
    with r y T show ?thesis by (simp add: sys_Pipe_def)
  next
    case (Some z)
    obtain fids fcbs where z: "z = (fids, fcbs)" by (cases z)
    obtain q k2 where g: "get_pipe k1 = (q, k2)" by (cases "get_pipe k1")
    from r y Some z g obtain a where k': "k' = upd_fcb (fcbs ! 1) (\<lambda>b. b\<lparr>streamobj := Pipe_obj a, streamfunc := Some Writer_ops\<rparr>)
        (upd_fcb (fcbs ! 0) (\<lambda>b. b\<lparr>streamobj := Pipe_obj a, streamfunc := Some Reader_ops\<rparr>) k2)"
      by (auto simp: sys_Pipe_def Let_def elim!: bindE_elim)
    note T
    also have "touches p k1 k2" using get_pipe_frame [OF g] by blast
    also have "touches p k2 (upd_fcb (fcbs ! 0) (\<lambda>b. b\<lparr>streamobj := Pipe_obj a, streamfunc := Some Reader_ops\<rparr>) k2)"
      by (rule touches_retype) (simp add: right_type_def)
    also have "touches p \<dots> k'"
      unfolding k' by (rule touches_retype) (simp add: right_type_def)
    finally show ?thesis .
  qed
qed

lemma sys_Socket_touches:
  assumes r: "sys_Socket c prt k = Inr (n, k')" and p: "CURPROC c k = Inr p"
  shows "touches p k k'"
proof (cases "prt < 0 \<or> prt > int MAX_PORT")
  case True
  with r show ?thesis by (auto simp: sys_Socket_def)
next
  case False
  then obtain y k1 where y: "FCB_reserve c 1 k = Inr (y, k1)" using r by (auto simp: sys_Socket_def elim!: bindE_elim2)
  note T = touches_FCB_reserve [OF p y]
  obtain m k2 where m: "malloc k1 = (m, k2)" by (cases "malloc k1")
  have m2: "touches p k1 (k2\<lparr>scbs := s\<rparr>)" "touches p k1 k2" for s
    using m by (auto simp: malloc_def intro!: touches_tables)
  show ?thesis
  proof (cases "y = None \<or> m = None")
    case True
    with r y False m have "k' = k1 \<or> k' = k2" by (cases y) (auto simp: sys_Socket_def Let_def)
    with T touches_trans [OF T m2(2)] show ?thesis by blast
  next
    case False2: False
    then obtain fids fcbs a where z: "y = Some (fids, fcbs)" "m = Some a" by auto
    from r y False m z have
      "\<exists>s. k' = upd_fcb (hd fcbs) (\<lambda>b. b\<lparr>streamobj := Scb_obj a, streamfunc := Some Socket_ops\<rparr>) (k2\<lparr>scbs := s\<rparr>)"
      by (auto simp: sys_Socket_def Let_def)
    then obtain s where
      "k' = upd_fcb (hd fcbs) (\<lambda>b. b\<lparr>streamobj := Scb_obj a, streamfunc := Some Socket_ops\<rparr>) (k2\<lparr>scbs := s\<rparr>)" by blast
    moreover have "touches p (k2\<lparr>scbs := s\<rparr>) (upd_fcb (hd fcbs) (\<lambda>b. b\<lparr>streamobj := Scb_obj a, streamfunc := Some Socket_ops\<rparr>) (k2\<lparr>scbs := s\<rparr>))"
      by (rule touches_retype) (simp add: right_type_def)
    ultimately show ?thesis using touches_trans [OF touches_trans [OF T m2(1)]] by metis
  qed
qed

lemma accept_request_touches:
  assumes r: "accept_request c l k = Inr (n, k')" and p: "CURPROC c k = Inr p"
  shows "touches p k k'"
proof -
  from r obtain prt k0 fid k2 where s: "same_files k k0" "cc k0 = cc k"
      "sys_Socket c prt k0 = Inr (fid, k2)" "same_files k2 k'"
    by (rule accept_request_split)
  have "CURPROC c k0 = Inr p" using p CURPROC_cong [OF s(2)] by simp
  note S = sys_Socket_touches [OF s(3) this]
  from touches_trans [OF touches_same_files [OF s(1)] touches_trans [OF S touches_same_files [OF s(4)]]] show ?thesis .
qed

lemma sys_Accept_touches:
  assumes p: "CURPROC c k = Inr p"
  shows "sys_Accept c lsock k = Inr (out, k') \<Longrightarrow> touches p k k'"
    and "sys_Accept_resume c l k = Inr (n, k') \<Longrightarrow> touches p k k'"
proof -
  show "touches p k k'" if "sys_Accept_resume c l k = Inr (n, k')"
    using that accept_request_touches [OF _ p]
    by (auto simp: sys_Accept_resume_def elim!: bindE_elim split: if_split_asm)
  show "touches p k k'" if r: "sys_Accept c lsock k = Inr (out, k')"
  proof -
    obtain x where x: "accept_listener c lsock k = Inr x" using r by (auto simp: sys_Accept_def elim!: bindE_elim)
    show ?thesis
    proof (cases x)
      case None
      with r x show ?thesis by (simp add: sys_Accept_def)
    next
      case (Some l)
      with r x obtain s where s: "scbs k l = Some s" by (auto simp: sys_Accept_def elim!: bindE_elim)
      show ?thesis
      proof (cases "req_queue s = []")
        case True
        with r x Some s show ?thesis by (simp add: sys_Accept_def)
      next
        case False
        with r x Some s obtain n where "accept_request c l k = Inr (n, k')"
          by (auto simp: sys_Accept_def elim!: bindE_elim2)
        then show ?thesis using p by (rule accept_request_touches)
      qed
    qed
  qed
qed

lemma sys_Connect_frame:
  assumes "sys_Connect c sock prt t k = Inr (out, k')"
  shows "same_files k k'"
proof (cases "sock < 0 \<or> sock > int MAX_FILEID - 1 \<or> prt < 0 \<or> prt > int MAX_PORT \<or> PortMap k (nat prt) = None")
  case True
  with assms show ?thesis by (auto simp: sys_Connect_def split: if_split_asm)
next
  case False
  then obtain l where l: "PortMap k (nat prt) = Some l" by auto
  from assms False l obtain ls :: scb where ls: "scbs k l = Some ls" by (auto simp: sys_Connect_def elim!: bindE_elim)
  show ?thesis
  proof (cases "stype ls = LISTENER")
    case False2: False
    with assms False l ls show ?thesis by (auto simp: sys_Connect_def)
  next
    case True
    with assms False l ls obtain x where x: "get_fcb c sock k = Inr x" by (auto simp: sys_Connect_def elim!: bindE_elim)
    show ?thesis
    proof (cases x)
      case None
      with assms False l ls True x show ?thesis by (auto simp: sys_Connect_def)
    next
      case (Some f)
      with assms False l ls True x obtain a and s :: scb where a: "as_scb (streamobj (FT k f)) = Inr a" "scbs k a = Some s"
        by (auto simp: sys_Connect_def elim!: bindE_elim)
      obtain m k1 where m: "malloc k = (m, k1)" by (cases "malloc k")
      have k1: "same_files k (k1\<lparr>conn_reqs := r\<rparr>)" "same_files k k1" for r using m by (auto simp: malloc_def same_files_def)
      show ?thesis
      proof (cases "stype s = UNBOUND \<and> m \<noteq> None")
        case False2: False
        with assms False l ls True x Some a m k1 show ?thesis by (cases m) (auto simp: sys_Connect_def split: if_split_asm)
      next
        case True2: True
        then obtain q where "m = Some q" by auto
        then obtain r k4 where
          "on_cc (Cond_Signal (Server_requests l)) (upd_scb l (\<lambda>s. s\<lparr>req_queue := req_queue s @ [q]\<rparr>) (k1\<lparr>conn_reqs := r\<rparr>)) = Inr k4"
          "connect_loop q t k4 = Inr (out, k')"
          using assms False l ls True x Some a m True2
          by (auto simp: sys_Connect_def Let_def elim!: bindE_elim)
        then have "same_files (upd_scb l (\<lambda>s. s\<lparr>req_queue := req_queue s @ [q]\<rparr>) (k1\<lparr>conn_reqs := r\<rparr>)) k'"
          using on_cc_frame connect_loop_frame by blast
        moreover have "same_files k (upd_scb l (\<lambda>s. s\<lparr>req_queue := req_queue s @ [q]\<rparr>) (k1\<lparr>conn_reqs := r\<rparr>))"
          using k1(1) by simp
        ultimately show ?thesis using same_files_trans by blast
      qed
    qed
  qed
qed

section \<open>Information streams\<close>

lemma sys_OpenInfo_cases:
  assumes r: "sys_OpenInfo user c k = Inr (n, k')"
  obtains y k1 where "FCB_reserve c 1 k = Inr (y, k1)"
    "\<exists>m i. k' = k1\<lparr>next_addr := m, infos := i\<rparr> \<or>
       (\<exists>f a. k' = upd_fcb f (\<lambda>b. b\<lparr>streamobj := Info_obj a, streamfunc := Some Info_ops\<rparr>) (k1\<lparr>next_addr := m, infos := i\<rparr>))"
proof -
  obtain y k1 where y: "FCB_reserve c 1 k = Inr (y, k1)" using r by (auto simp: sys_OpenInfo_def elim!: bindE_elim2)
  have id: "k1 = k1\<lparr>next_addr := next_addr k1, infos := infos k1\<rparr>" by simp
  show ?thesis
  proof (cases y)
    case None
    with r y have "k' = k1" by (simp add: sys_OpenInfo_def)
    with id show ?thesis using that [OF y] by blast
  next
    case (Some z)
    obtain fids fcbs where z: "z = (fids, fcbs)" by (cases z)
    let ?k2 = "k1\<lparr>next_addr := next_addr k1 + 1\<rparr>"
    let ?k3 = "k1\<lparr>next_addr := next_addr k1 + 2\<rparr>"
    have id2: "?k2 = k1\<lparr>next_addr := next_addr k1 + 1, infos := infos k1\<rparr>" "?k3 = k1\<lparr>next_addr := next_addr k1 + 2, infos := infos k1\<rparr>"
      by simp_all
    have "k' = ?k2 \<or> k' = ?k3 \<or> (\<exists>i. k' = upd_fcb (hd fcbs) (\<lambda>b. b\<lparr>streamobj := Info_obj (next_addr k1), streamfunc := Some Info_ops\<rparr>)
        (k1\<lparr>next_addr := next_addr k1 + 2, infos := i\<rparr>))"
      using r y Some z
      by (auto simp: sys_OpenInfo_def malloc_def Let_def elim!: bindE_elim split: if_split_asm)
    then show ?thesis using that [OF y] id2 by metis
  qed
qed

lemma sys_OpenInfo_touches:
  assumes r: "sys_OpenInfo user c k = Inr (n, k')" and p: "CURPROC c k = Inr p"
  shows "touches p k k'"
proof -
  from r obtain y k1 where y: "FCB_reserve c 1 k = Inr (y, k1)" and
    k': "\<exists>m i. k' = k1\<lparr>next_addr := m, infos := i\<rparr> \<or>
       (\<exists>f a. k' = upd_fcb f (\<lambda>b. b\<lparr>streamobj := Info_obj a, streamfunc := Some Info_ops\<rparr>) (k1\<lparr>next_addr := m, infos := i\<rparr>))"
    by (rule sys_OpenInfo_cases)
  note T = touches_FCB_reserve [OF p y]
  have a: "touches p k (k1\<lparr>next_addr := m, infos := i\<rparr>)" for m i
    using T by (rule touches_trans) (rule touches_tables; simp)
  have b: "touches p j (upd_fcb f (\<lambda>b. b\<lparr>streamobj := Info_obj a, streamfunc := Some Info_ops\<rparr>) j)" for j f a
    by (rule touches_retype) (simp add: right_type_def)
  from k' consider m i where "k' = k1\<lparr>next_addr := m, infos := i\<rparr>"
    | f a m i where "k' = upd_fcb f (\<lambda>b. b\<lparr>streamobj := Info_obj a, streamfunc := Some Info_ops\<rparr>) (k1\<lparr>next_addr := m, infos := i\<rparr>)"
    by blast
  then show ?thesis
  proof cases
    case 1
    with a show ?thesis by simp
  next
    case 2
    show ?thesis unfolding 2 using a b by (rule touches_trans)
  qed
qed

lemma sys_OpenInfo_inv:
  assumes inv: "files_inv held k" and p: "CURPROC c k = Inr p" "p < MAX_PROC" and r: "sys_OpenInfo user c k = Inr (n, k')"
  shows "files_inv held k'"
proof -
  from r obtain y k1 where y: "FCB_reserve c 1 k = Inr (y, k1)" and
    k': "\<exists>m i. k' = k1\<lparr>next_addr := m, infos := i\<rparr> \<or>
       (\<exists>f a. k' = upd_fcb f (\<lambda>b. b\<lparr>streamobj := Info_obj a, streamfunc := Some Info_ops\<rparr>) (k1\<lparr>next_addr := m, infos := i\<rparr>))"
    by (rule sys_OpenInfo_cases)
  have "files_inv held (k1\<lparr>next_addr := m, infos := i\<rparr>) = files_inv held k1" for m i by (rule files_upto_cong) simp_all
  with reserve_inv [OF inv p y] have I: "files_inv held (k1\<lparr>next_addr := m, infos := i\<rparr>)" for m i by blast
  have "files_inv held (upd_fcb f (\<lambda>b. b\<lparr>streamobj := Info_obj a, streamfunc := Some Info_ops\<rparr>) (k1\<lparr>next_addr := m, infos := i\<rparr>))" for f a m i
    by (rule upd_fcb_inv [OF I]) simp
  with I k' show ?thesis by blast
qed

section \<open>Calls that leave files and processes alone\<close>

definition apart :: "kernel \<Rightarrow> kernel \<Rightarrow> bool" where
  "apart k k' \<longleftrightarrow> same_tree k k' \<and> FT k' = FT k \<and> FCB_freelist k' = FCB_freelist k \<and>
     (\<forall>q. FIDT (PT k' q) = FIDT (PT k q))"

lemma apart_refl [simp]: "apart k k"
  by (simp add: apart_def)

lemma apart_trans [trans]: "apart k k1 \<Longrightarrow> apart k1 k2 \<Longrightarrow> apart k k2"
  unfolding apart_def by (auto intro: same_tree_trans)

lemma apart_same_files: "same_files k k' \<Longrightarrow> apart k k'"
  using same_files_tree [of k k'] by (simp add: apart_def same_filesD)

lemma apart_upd [simp]:
  "apart k (k1\<lparr>cc := s\<rparr>) = apart k k1" "apart k (k1\<lparr>ptcbs := x\<rparr>) = apart k k1" "apart k (k1\<lparr>next_addr := n\<rparr>) = apart k k1"
  "apart k (upd_ptcb a g k1) = apart k k1" "apart k (unlink_ptcb a k1) = apart k k1"
  "apart k (upd_pcb p (\<lambda>b. b\<lparr>thread_count := h b\<rparr>) k1) = apart k k1" "apart k (upd_pcb p (\<lambda>b. b\<lparr>ptcb_list := l b\<rparr>) k1) = apart k k1"
  "apart k (free_ptcb a k1) = apart k k1" "apart k (unlock_threads p k1) = apart k k1" "apart k (set_owner_ptcb t a k1) = apart k k1"
  by (auto simp: apart_def same_tree_def unlink_ptcb_def free_ptcb_def unlock_threads_def set_owner_ptcb_def)

lemma lock_threads_apart: "lock_threads p k1 = Inr k2 \<Longrightarrow> apart k k2 = apart k k1"
  by (auto simp: lock_threads_def Let_def split: prod.splits if_split_asm)

lemma on_cc_apart: "on_cc g k1 = Inr k2 \<Longrightarrow> apart k k2 = apart k k1"
  by (auto simp: on_cc_eq)

lemma on_sch_apart: "on_sch g k1 = Inr (x, k2) \<Longrightarrow> apart k k2 = apart k k1"
  by (auto simp: on_sch_def elim!: bindE_elim bindE_elim2)

lemma sys_CreateThread_apart:
  "sys_CreateThread old c task n arg k = Inr (t, k') \<Longrightarrow> apart k k'"
  by (auto simp: sys_CreateThread_def Let_def lock_threads_apart on_sch_apart
      dest!: Create_PTCB_eq(1) spawn_eq(1) elim!: bindE_elim2 bindE_elim split: if_split_asm)

lemma sys_ThreadJoin_apart:
  "sys_ThreadJoin c tid k = Inr (out, k') \<Longrightarrow> apart k k'"
  by (cases tid) (auto simp: sys_ThreadJoin_def on_cc_apart elim!: bindE_elim split: if_split_asm)

lemma sys_ThreadJoin_resume_apart:
  "sys_ThreadJoin_resume c (p, a) k = Inr (r, k') \<Longrightarrow> apart k k'"
  by (auto simp: sys_ThreadJoin_resume_def Let_def lock_threads_apart elim!: bindE_elim split: if_split_asm)

lemma sys_ThreadDetach_apart:
  "sys_ThreadDetach tid k = Inr (n, k') \<Longrightarrow> apart k k'"
  by (cases tid) (auto simp: sys_ThreadDetach_def Let_def on_cc_apart elim!: bindE_elim split: if_split_asm)

lemma k_sleep_apart: "k_sleep c k1 = Inr k2 \<Longrightarrow> apart k k2 = apart k k1"
  by (auto simp: k_sleep_def on_cc_apart)

lemma join_all_apart: "join_all n c p k = Inr (out, k') \<Longrightarrow> apart k k'"
proof (induction n arbitrary: k)
  case 0
  then show ?case by (auto simp: join_all.simps [of 0] split: list.splits)
next
  case (Suc n)
  show ?case
  proof (cases "ptcb_list (PT k p)")
    case Nil
    with Suc.prems show ?thesis by (simp add: join_all.simps [of "Suc n"])
  next
    case (Cons a as)
    with Suc.prems have "bindE (derefE (ptcbs k a)) (\<lambda>t. bindE (sys_ThreadJoin c (pthread t) k) (\<lambda>(out, k1). case out of
        Done _ \<Rightarrow> join_all n c p k1 | Wait cv cause tm (q, b) \<Rightarrow> Inr (Wait cv cause tm (In_join q b), k1))) = Inr (out, k')"
      by (simp add: join_all.simps [of "Suc n"])
    then obtain t :: ptcb where "bindE (sys_ThreadJoin c (pthread t) k) (\<lambda>(out, k1). case out of
        Done _ \<Rightarrow> join_all n c p k1 | Wait cv cause tm (q, b) \<Rightarrow> Inr (Wait cv cause tm (In_join q b), k1)) = Inr (out, k')"
      by (rule bindE_elim)
    then obtain o1 k1 where j: "sys_ThreadJoin c (pthread t) k = Inr (o1, k1)"
      "(case o1 of Done _ \<Rightarrow> join_all n c p k1 | Wait cv cause tm (q, b) \<Rightarrow> Inr (Wait cv cause tm (In_join q b), k1)) = Inr (out, k')"
      by (rule bindE_elim2)
    note J = sys_ThreadJoin_apart [OF j(1)]
    show ?thesis
    proof (cases o1)
      case (Done x)
      with j(2) have "join_all n c p k1 = Inr (out, k')" by simp
      from apart_trans [OF J Suc.IH [OF this]] show ?thesis .
    next
      case (Wait cv cause tm pc)
      with j(2) J show ?thesis by (cases pc) simp
    qed
  qed
qed

lemma leave_joined_apart: "leave_joined c k = Inr (out, k') \<Longrightarrow> apart k k'"
  by (auto simp: leave_joined_def k_sleep_apart elim!: bindE_elim2 bindE_elim dest: sys_ThreadDetach_apart)

lemma sys_ThreadExit_apart:
  assumes "sys_ThreadExit n c v k = Inr (out, k')"
  shows "apart k k'"
proof -
  obtain p a m where h: "CURPROC c k = Inr p" "CURPTHREAD c k = Inr a" "main_tid p k = Inr m"
    using assms by (auto simp: sys_ThreadExit_def elim!: bindE_elim)
  show ?thesis
  proof (cases "Some (CURTHREAD c k) = m")
    case True
    with assms h show ?thesis by (auto simp: sys_ThreadExit_def intro: join_all_apart)
  next
    case False
    define k1 where "k1 = upd_ptcb a (\<lambda>x. x\<lparr>pexitval := v\<rparr>) k"
    have k1: "apart k k1" by (simp add: k1_def)
    from assms h False obtain pt where pt: "ptcbs k a = Some pt" by (auto simp: sys_ThreadExit_def elim!: bindE_elim)
    have "apart k1 k'"
      using assms h False pt leave_joined_apart
      by (auto simp: sys_ThreadExit_def Let_def k1_def [symmetric] leave_detached_def k_sleep_apart elim!: bindE_elim
          split: if_split_asm)
    with k1 show ?thesis by (rule apart_trans)
  qed
qed

lemma sys_ThreadExit_resume_apart:
  assumes "sys_ThreadExit_resume n c pc k = Inr (out, k')"
  shows "apart k k'"
proof (cases pc)
  case (For_join a)
  with assms show ?thesis by (auto simp: sys_ThreadExit_resume_def intro: leave_joined_apart)
next
  case (In_join p a)
  with assms obtain r k1 where "sys_ThreadJoin_resume c (p, a) k = Inr (r, k1)" "join_all n c p k1 = Inr (out, k')"
    by (auto simp: sys_ThreadExit_resume_def elim!: bindE_elim2)
  from apart_trans [OF sys_ThreadJoin_resume_apart [OF this(1)] join_all_apart [OF this(2)]] show ?thesis .
qed

section \<open>The invariant of the system\<close>

text \<open>
  \<open>ws\<close> lists the blocks that calls in progress use, once for each such call. The count of a
  block has 32 bits; it is exact while fewer than \<open>2 ^ 31\<close> calls are in progress.
\<close>

definition system_ok :: "nat list \<Rightarrow> kernel \<Rightarrow> bool" where
  "system_ok ws k \<longleftrightarrow> tree_inv k \<and> fids_inv k \<and> files_inv (count_list ws) k \<and> typed k \<and> set ws \<subseteq> {..<MAX_FILES}"

lemma count_list_Nil: "count_list [] = (\<lambda>_. 0)"
  by (simp add: fun_eq_iff)

lemma count_small: "length ws < 2 ^ 31 \<Longrightarrow> count_list ws f < 2 ^ 31"
  using count_le_length [of ws f] by linarith

lemma apart_ok:
  assumes a: "apart k k'"
  shows "system_ok ws k' = system_ok ws k"
proof -
  have "files_inv (count_list ws) k' = files_inv (count_list ws) k"
    using a by (intro files_upto_cong) (auto simp: apart_def)
  moreover have "fids_inv k' = fids_inv k" using a by (simp add: fids_inv_def apart_def same_tree_def)
  moreover have "typed k' = typed k" using a by (simp add: typed_def apart_def)
  moreover have "tree_inv k' = tree_inv k" using a same_tree_inv by (simp add: apart_def)
  ultimately show ?thesis by (simp add: system_ok_def)
qed

lemma touches_ok:
  assumes "system_ok ws k" "touches p k k'" "pstate (PT k p) = ALIVE" "files_inv (count_list vs) k'" "set vs \<subseteq> {..<MAX_FILES}"
  shows "system_ok vs k'"
  using assms touches_inv [OF assms(2,3)] by (simp add: system_ok_def)

lemma sys_Exec_ok:
  assumes ok: "system_ok ws k" and n: "length ws < 2 ^ 31"
    and p: "CURPROC c k = Inr p" "p < MAX_PROC" "pstate (PT k p) = ALIVE"
    and r: "sys_Exec old c call n buf k = Inr (pid, k')"
  shows "system_ok ws k'"
proof (cases "pcb_freelist k")
  case None
  with r have "k' = k" by (simp add: sys_Exec_def acquire_PCB_def)
  with ok show ?thesis by simp
next
  case (Some q)
  then obtain k1 where a: "acquire_PCB k = (Some q, k1)" by (simp add: acquire_PCB_def Let_def)
  have I: "tree_inv k" "fids_inv k" "files_inv (count_list ws) k" "typed k" "set ws \<subseteq> {..<MAX_FILES}"
    using ok by (simp_all add: system_ok_def)
  note E = sys_Exec_effect(5,6) [OF I(1-3) count_small [OF n] p a r]
  have T: "tree_inv k'" by (rule sys_Exec_inv [OF I(1) _ r]) (use p in simp)
  from r a obtain k2 where e: "exec_parent c q k1 = Inr k2" "exec_thread old q call n buf k2 = Inr k'"
    by (auto simp: sys_Exec_def elim!: bindE_elim)
  have inh: "streamobj (FT (fold (inherit_fid par q) is j) f) = streamobj (FT j f) \<and>
      streamfunc (FT (fold (inherit_fid par q) is j) f) = streamfunc (FT j f)" for par "is" j f
    by (induction "is" arbitrary: j) (auto simp: inherit_fid_def FCB_incref_def set_fid_def Let_def split: option.split)
  have "streamobj (FT k2 f) = streamobj (FT k1 f) \<and> streamfunc (FT k2 f) = streamfunc (FT k1 f)" for f
    using e(1) inh by (auto simp: exec_parent_def adopt_def elim!: bindE_elim split: if_split_asm)
  moreover have "FT k1 = FT k" using a by (auto simp: acquire_PCB_def Let_def split: option.splits)
  ultimately have "typed k'" using I(4) exec_thread_files(1) [OF e(2)] by (simp add: typed_def)
  with T E I(5) show ?thesis by (simp add: system_ok_def)
qed

lemma reaped_ok:
  assumes "reaped k k'" "tree_inv k'" "system_ok ws k"
  shows "system_ok ws k'"
proof -
  have "files_inv (count_list ws) k' = files_inv (count_list ws) k"
    using assms(1) by (intro files_upto_cong) (auto simp: reaped_def)
  with assms show ?thesis by (simp add: system_ok_def fids_inv_def typed_def reaped_def)
qed

lemma exit_process_typed:
  assumes "exit_process c v k = Inr k'" "typed k"
  shows "typed k'"
proof -
  obtain p k1 k2 k3 k4 k5 k6 where s: "free_args p k = Inr k1" "close_all c p k1 = Inr k2"
      "reparent_loop (children_list (PT k2 p)) p (get_pcb 1 k2) k2 = Inr k3" "give_exited p (get_pcb 1 k2) k3 = Inr k4"
      "tell_parent p k4 = Inr k5" "become_zombie p v k5 = Inr k6" "k_sleep c k6 = Inr k'"
    using assms(1) unfolding exit_process_def Let_def by (auto elim!: bindE_elim)
  have "FT k1 = FT k" using s(1) by (auto simp: free_args_def elim!: bindE_elim split: if_splits)
  then have t1: "typed k1" using assms(2) by (simp add: typed_def)
  have fault: "fold (close_fid c p) is (Inl e) = Inl e" for "is" e by (induction "is") (simp_all add: close_fid_def)
  have "typed j'" if "fold (close_fid c p) is (Inr j) = Inr j'" "typed j" for "is" j j'
    using that
  proof (induction "is" arbitrary: j)
    case (Cons i "is")
    then obtain j1 where j1: "close_fid c p i (Inr j) = Inr j1" "fold (close_fid c p) is (Inr j1) = Inr j'"
      by (cases "close_fid c p i (Inr j)") (simp_all add: fault)
    have "touches p j j1"
      using j1(1) by (auto simp: close_fid_def elim!: bindE_elim2 split: option.splits
          intro: touches_trans [OF touches_FCB_decref touches_set_fid])
    then have "typed j1"
      using Cons.prems(2) by (rule touches_typed)
    with Cons.IH j1(2) show ?case by blast
  qed simp
  then have t2: "typed k2" using s(2) t1 by (simp add: close_all_def)
  have r: "reparent_loop qs p init j = Inr j' \<Longrightarrow> FT j' = FT j" for qs init j j'
    by (induction qs arbitrary: j) (auto simp: Let_def elim!: bindE_elim)
  have "FT k3 = FT k2" using r [OF s(3)] .
  moreover have "FT k4 = FT k3" using give_exited_props [OF s(4)] by auto
  moreover have "FT k5 = FT k4" using tell_parent_props [OF s(5)] by auto
  moreover have "FT k' = FT k5" using s(6,7) by (auto simp: become_zombie_def k_sleep_def on_cc_eq elim!: bindE_elim)
  ultimately show ?thesis using t2 by (simp add: typed_def)
qed

lemma ends_ok:
  assumes e: "ends c v k k'" and ok: "system_ok ws k"
  shows "system_ok ws k'"
proof -
  consider k1 q where "reaped k k1" "tree_inv k1" "CURPROC c k1 = Inr q" "live k1 q"
      "q = 1 \<longrightarrow> children_list (PT k1 1) = []" "exit_process c v k1 = Inr k'"
    | "reaped k k'" "tree_inv k'"
    using e unfolding ends_def by blast
  then show ?thesis
  proof cases
    case 1
    note K = reaped_ok [OF 1(1,2) ok, unfolded system_ok_def]
    have c: "q = 1 \<Longrightarrow> children_list (PT k1 1) = []" using 1(5) by blast
    note X = exit_process_exited [OF 1(2-4) c 1(6)]
    have q: "q < MAX_PROC" using 1(4) by (simp add: live_def)
    have "fids_inv k'"
      unfolding fids_inv_def
    proof (intro allI impI)
      fix r i assume r: "r < MAX_PROC" "i < MAX_FILEID" "pstate (PT k' r) \<noteq> ALIVE"
      show "FIDT (PT k' r) i = None"
      proof (cases "r = q")
        case True
        with X(2) r show ?thesis by simp
      next
        case False
        with X(1) r have "pstate (PT k1 r) \<noteq> ALIVE" by (simp add: exited_def)
        with X(2) [of r i] False r K show ?thesis by (simp add: fids_inv_def)
      qed
    qed
    moreover have "files_inv (count_list ws) k'" using X(3) K by blast
    moreover have "typed k'" using exit_process_typed [OF 1(6)] K by blast
    ultimately show ?thesis using ends_inv [OF e] ok by (simp add: system_ok_def)
  next
    case 2
    with reaped_ok ok show ?thesis by blast
  qed
qed

text \<open>The block that a call uses while it waits.\<close>

definition in_use :: "('a, nat \<times> 'p) outcome \<Rightarrow> nat list" where
  "in_use out = (case out of Done _ \<Rightarrow> [] | Wait _ _ _ (f, _) \<Rightarrow> [f])"

text \<open>Process \<open>p\<close>, which is alive, makes a call on core \<open>c\<close>.\<close>

definition caller :: "nat \<Rightarrow> nat \<Rightarrow> kernel \<Rightarrow> bool" where
  "caller c p k \<longleftrightarrow> CURPROC c k = Inr p \<and> p < MAX_PROC \<and> pstate (PT k p) = ALIVE"

text \<open>
  Every system call, whole or from where it waited. The list holds the file control blocks in use by the reads and writes that
  wait, and a call that takes a reference comes while there are fewer than \<open>2 ^ 31\<close> of them. The label is that
  of \<open>proc_step\<close>.
\<close>

inductive sys_step :: "event \<Rightarrow> nat list \<times> kernel \<Rightarrow> nat list \<times> kernel \<Rightarrow> bool" where
  read: "caller c p k \<Longrightarrow> length ws < 2 ^ 31 \<Longrightarrow> sys_Read run c fd sz k = Inr (rout, k') \<Longrightarrow>
     sys_step Plain_call (ws, k) (in_use rout @ ws, k')"
| writes: "caller c p k \<Longrightarrow> length ws < 2 ^ 31 \<Longrightarrow> sys_Write c fd buf sz k = Inr (wout, k') \<Longrightarrow>
     sys_step Plain_call (ws, k) (in_use wout @ ws, k')"
| read_on: "caller c p k \<Longrightarrow> sys_Read_resume run c (f, pc) sz k = Inr (rout, k') \<Longrightarrow>
     sys_step Plain_call (us @ f # vs, k) (us @ in_use rout @ vs, k')"
| write_on: "caller c p k \<Longrightarrow> sys_Write_resume c (f, pc) buf sz k = Inr (wout, k') \<Longrightarrow>
     sys_step Plain_call (us @ f # vs, k) (us @ in_use wout @ vs, k')"
| close: "caller c p k \<Longrightarrow> sys_Close c fd k = Inr (n, k') \<Longrightarrow> sys_step Plain_call (ws, k) (ws, k')"
| dup2: "caller c p k \<Longrightarrow> length ws < 2 ^ 31 \<Longrightarrow> sys_Dup2 c oldfd newfd k = Inr (n, k') \<Longrightarrow> CURPROC c k' = Inr p \<Longrightarrow>
     sys_step Plain_call (ws, k) (ws, k')"
| open_dev: "caller c p k \<Longrightarrow> sys_OpenNull c k = Inr (n, k') \<or> sys_OpenTerminal c t k = Inr (n, k') \<Longrightarrow>
     sys_step Plain_call (ws, k) (ws, k')"
| pipe: "caller c p k \<Longrightarrow> sys_Pipe c k = Inr (x, k') \<Longrightarrow> sys_step Plain_call (ws, k) (ws, k')"
| open_info: "caller c p k \<Longrightarrow> sys_OpenInfo user c k = Inr (n, k') \<Longrightarrow> sys_step Plain_call (ws, k) (ws, k')"
| socket: "caller c p k \<Longrightarrow> sys_Socket c prt k = Inr (n, k') \<Longrightarrow> sys_step Plain_call (ws, k) (ws, k')"
| listen: "sys_Listen c fd k = Inr (n, k') \<Longrightarrow> sys_step Plain_call (ws, k) (ws, k')"
| accept: "caller c p k \<Longrightarrow> sys_Accept c fd k = Inr (out, k') \<Longrightarrow> sys_step Plain_call (ws, k) (ws, k')"
| accept_on: "caller c p k \<Longrightarrow> sys_Accept_resume c l k = Inr (n, k') \<Longrightarrow> sys_step Plain_call (ws, k) (ws, k')"
| connect: "sys_Connect c fd prt tmo k = Inr (out, k') \<Longrightarrow> sys_step Plain_call (ws, k) (ws, k')"
| connect_on: "sys_Connect_resume q tmo flag k = Inr (out, k') \<Longrightarrow> sys_step Plain_call (ws, k) (ws, k')"
| shut_down: "sys_ShutDown c fd how k = Inr (n, k') \<Longrightarrow> sys_step Plain_call (ws, k) (ws, k')"
| exec: "caller c p k \<Longrightarrow> length ws < 2 ^ 31 \<Longrightarrow> sys_Exec old c call n buf k = Inr (pid, k') \<Longrightarrow> sys_step Plain_call (ws, k) (ws, k')"
| wait_child: "sys_WaitChild c cpid k = Inr (wout', k') \<Longrightarrow> sys_step Plain_call (ws, k) (ws, k')"
| wait_child_on: "sys_WaitChild_resume (par, child) k = Inr (wout', k') \<Longrightarrow> sys_step (Resume_wait child) (ws, k) (ws, k')"
| exit: "caller c p k \<Longrightarrow> sys_Exit c v k = Inr (r, k') \<Longrightarrow> sys_step Exit_call (ws, k) (ws, k')"
| exit_on: "CURPROC c k = Inr 1 \<Longrightarrow> sys_Exit_resume c v (1, None) k = Inr (r, k') \<Longrightarrow> sys_step Exit_call (ws, k) (ws, k')"
| create_thread: "sys_CreateThread old c task n arg k = Inr (tid, k') \<Longrightarrow> sys_step Plain_call (ws, k) (ws, k')"
| join: "sys_ThreadJoin c tid k = Inr (jout, k') \<Longrightarrow> sys_step Plain_call (ws, k) (ws, k')"
| join_on: "sys_ThreadJoin_resume c (q, a) k = Inr (jr, k') \<Longrightarrow> sys_step Plain_call (ws, k) (ws, k')"
| detach: "sys_ThreadDetach tid k = Inr (n, k') \<Longrightarrow> sys_step Plain_call (ws, k) (ws, k')"
| thread_exit: "sys_ThreadExit m c v k = Inr (xout, k') \<Longrightarrow> sys_step Plain_call (ws, k) (ws, k')"
| thread_exit_on: "sys_ThreadExit_resume m c xpc k = Inr (xout, k') \<Longrightarrow> sys_step Plain_call (ws, k) (ws, k')"
| other: "apart k k' \<Longrightarrow> sys_step Plain_call (ws, k) (ws, k')"

text \<open>Steps that do not run into one of the two cases that the code overlooks (\<open>regular\<close> in \<open>ProcSpec\<close>).\<close>

definition regular_call :: "nat list \<times> kernel \<Rightarrow> nat list \<times> kernel \<Rightarrow> bool" where
  "regular_call s s' \<longleftrightarrow> (\<exists>e. sys_step e s s' \<and> regular e (snd s))"

lemma counts_after_in_use:
  assumes "counts_after (count_list ws) out k'"
  shows "files_inv (count_list (in_use out @ ws)) k'" and "set (in_use out) \<subseteq> {..<MAX_FILES}"
proof -
  have "files_inv (count_list (in_use out @ ws)) k' \<and> set (in_use out) \<subseteq> {..<MAX_FILES}"
  proof (cases out)
    case (Done x)
    with assms show ?thesis by (simp add: counts_after_def in_use_def)
  next
    case (Wait cv cause t pc)
    obtain f q where pc: "pc = (f, q)" by (cases pc)
    have "count_list (f # ws) = (count_list ws)(f := Suc (count_list ws f))" by auto
    with assms Wait pc show ?thesis by (simp add: counts_after_def in_use_def)
  qed
  then show "files_inv (count_list (in_use out @ ws)) k'" "set (in_use out) \<subseteq> {..<MAX_FILES}" by simp_all
qed

lemma begun_ok:
  assumes ok: "system_ok ws k" and p: "pstate (PT k p) = ALIVE" and t: "touches p k k'" and c: "counts_after (count_list ws) out k'"
  shows "system_ok (in_use out @ ws) k'"
proof (rule touches_ok [OF ok t p counts_after_in_use(1) [OF c]])
  show "set (in_use out @ ws) \<subseteq> {..<MAX_FILES}"
    using counts_after_in_use(2) [OF c] ok by (simp add: system_ok_def)
qed

lemma count_list_middle: "count_list (us @ f # vs) = (count_list (us @ vs))(f := Suc (count_list (us @ vs) f))"
  by auto

lemma resumed_ok:
  assumes ok: "system_ok (us @ f # vs) k" and p: "pstate (PT k p) = ALIVE" and t: "touches p k k'"
    and c: "f < MAX_FILES \<Longrightarrow> files_inv ((count_list (us @ vs))(f := Suc (count_list (us @ vs) f))) k \<Longrightarrow>
      counts_after (count_list (us @ vs)) out k'"
  shows "system_ok (us @ in_use out @ vs) k'"
proof -
  have f: "f < MAX_FILES" "set us \<subseteq> {..<MAX_FILES}" "set vs \<subseteq> {..<MAX_FILES}" using ok by (simp_all add: system_ok_def)
  have "files_inv ((count_list (us @ vs))(f := Suc (count_list (us @ vs) f))) k"
    using ok by (simp add: system_ok_def count_list_middle del: count_list_append)
  note A = counts_after_in_use [OF c [OF f(1) this]]
  have "count_list (us @ in_use out @ vs) = count_list (in_use out @ us @ vs)" by (simp add: fun_eq_iff)
  with A(1) have "files_inv (count_list (us @ in_use out @ vs)) k'" by simp
  with A(2) f show ?thesis by (intro touches_ok [OF ok t p]) simp_all
qed

lemma called_ok:
  assumes ok: "system_ok ws k" and p: "caller c p k" and t: "touches p k k'"
    and f: "files_inv (count_list ws) k \<Longrightarrow> CURPROC c k = Inr p \<Longrightarrow> p < MAX_PROC \<Longrightarrow> files_inv (count_list ws) k'"
  shows "system_ok ws k'"
  using assms by (intro touches_ok [OF ok t]) (simp_all add: system_ok_def caller_def)

lemma callerD: "caller c p k \<Longrightarrow> CURPROC c k = Inr p" "caller c p k \<Longrightarrow> p < MAX_PROC" "caller c p k \<Longrightarrow> pstate (PT k p) = ALIVE"
  by (simp_all add: caller_def)

lemma sys_step_ok:
  "sys_step e s s' \<Longrightarrow> system_ok (fst s) (snd s) \<Longrightarrow> regular e (snd s) \<Longrightarrow> system_ok (fst s') (snd s')"
proof (induction rule: sys_step.induct)
  case (read c p k ws run fd sz rout k')
  note R = read [unfolded fst_conv snd_conv]
  have f: "files_inv (count_list ws) k" using R(4) by (simp add: system_ok_def)
  note c = sys_Read_inv [OF f callerD(1,2) [OF R(1)] count_small [OF R(2)] R(3)]
  from begun_ok [OF R(4) callerD(3) [OF R(1)] sys_Read_touches [OF R(3)] c] show ?case by simp
next
  case (writes c p k ws fd buf sz wout k')
  note R = writes [unfolded fst_conv snd_conv]
  have f: "files_inv (count_list ws) k" using R(4) by (simp add: system_ok_def)
  note c = sys_Write_inv [OF f callerD(1,2) [OF R(1)] count_small [OF R(2)] R(3)]
  from begun_ok [OF R(4) callerD(3) [OF R(1)] sys_Write_touches [OF R(3)] c] show ?case by simp
next
  case (read_on c p k run f pc sz rout k' us vs)
  note R = read_on [unfolded fst_conv snd_conv]
  have "counts_after (count_list (us @ vs)) rout k'"
    if "f < MAX_FILES" "files_inv ((count_list (us @ vs))(f := Suc (count_list (us @ vs) f))) k"
    using sys_resume_inv(1) [OF that(2,1) R(2)] by blast
  from resumed_ok [OF R(3) callerD(3) [OF R(1)] sys_resume_touches(1) [OF R(2)] this] show ?case by simp
next
  case (write_on c p k f pc buf sz wout k' us vs)
  note R = write_on [unfolded fst_conv snd_conv]
  have "counts_after (count_list (us @ vs)) wout k'"
    if "f < MAX_FILES" "files_inv ((count_list (us @ vs))(f := Suc (count_list (us @ vs) f))) k"
    using sys_resume_inv(2) [OF that(2,1) R(2)] by blast
  from resumed_ok [OF R(3) callerD(3) [OF R(1)] sys_resume_touches(2) [OF R(2)] this] show ?case by simp
next
  case (close c p k fd n k' ws)
  note R = close [unfolded fst_conv snd_conv]
  from called_ok [OF R(3,1) sys_Close_touches [OF R(2) callerD(1) [OF R(1)]]] sys_Close_inv(1) R(2)
  show ?case unfolding fst_conv snd_conv by blast
next
  case (dup2 c p k ws oldfd newfd n k')
  note R = dup2 [unfolded fst_conv snd_conv]
  have h: "count_list ws f < 2 ^ 31" for f by (rule count_small [OF R(2)])
  have "files_inv (count_list ws) k'" if "files_inv (count_list ws) k"
    by (rule sys_Dup2_inv(1) [OF that callerD(1,2) [OF R(1)] h R(3,4)])
  from called_ok [OF R(5,1) sys_Dup2_touches [OF R(3,4)] this] show ?case by simp
next
  case (open_dev c p k n k' t ws)
  note R = open_dev [unfolded fst_conv snd_conv]
  from R obtain major minor where "open_stream c major minor k = Inr (n, k')" by (auto simp: sys_OpenNull_def sys_OpenTerminal_def)
  with called_ok [OF R(3,1) open_stream_touches [OF _ callerD(1) [OF R(1)]]] open_stream_inv show ?case unfolding fst_conv snd_conv by blast
next
  case (pipe c p k x k' ws)
  note R = pipe [unfolded fst_conv snd_conv]
  with called_ok [OF R(3,1) sys_Pipe_touches [OF _ callerD(1) [OF R(1)]]] sys_Pipe_inv show ?case unfolding fst_conv snd_conv by blast
next
  case (open_info c p k user n k' ws)
  note R = open_info [unfolded fst_conv snd_conv]
  with called_ok [OF R(3,1) sys_OpenInfo_touches [OF _ callerD(1) [OF R(1)]]] sys_OpenInfo_inv show ?case unfolding fst_conv snd_conv by blast
next
  case (socket c p k prt n k' ws)
  note R = socket [unfolded fst_conv snd_conv]
  with called_ok [OF R(3,1) sys_Socket_touches [OF _ callerD(1) [OF R(1)]]] sys_Socket_inv(1) show ?case unfolding fst_conv snd_conv by blast
next
  case (accept c p k fd out k' ws)
  note R = accept [unfolded fst_conv snd_conv]
  with called_ok [OF R(3,1) sys_Accept_touches(1) [OF callerD(1) [OF R(1)]]] sys_Accept_inv(1) show ?case unfolding fst_conv snd_conv by blast
next
  case (accept_on c p k l n k' ws)
  note R = accept_on [unfolded fst_conv snd_conv]
  with called_ok [OF R(3,1) sys_Accept_touches(2) [OF callerD(1) [OF R(1)]]] sys_Accept_inv(2) show ?case unfolding fst_conv snd_conv by blast
next
  case (exec c p k ws old call n buf pid k')
  note R = exec [unfolded fst_conv snd_conv]
  from sys_Exec_ok [OF R(4,2) callerD [OF R(1)] R(3)] show ?case by simp
next
  case (wait_child c cpid k out k' ws)
  note R = wait_child [unfolded fst_conv snd_conv]
  from R have "tree_inv k'" using sys_WaitChild_inv by (auto simp: system_ok_def)
  from reaped_ok [OF sys_WaitChild_reaped [OF R(1)] this R(2)] show ?case by simp
next
  case (wait_child_on par child k out k' ws)
  note R = wait_child_on [unfolded fst_conv snd_conv]
  have t: "tree_inv k" using R(2) by (simp add: system_ok_def)
  have "tree_inv k' \<and> reaped k k'"
    using R(1,3) wait_loops_inv [OF t] wait_loops_reaped
    by (cases child) (auto simp: sys_WaitChild_resume_def regular_def)
  with reaped_ok R(2) show ?case unfolding fst_conv snd_conv by blast
next
  case (exit c p k v r k' ws)
  note R = exit [unfolded fst_conv snd_conv]
  have t: "tree_inv k" using R(3) by (simp add: system_ok_def)
  have l: "live k p" and i: "pstate (PT k 1) = ALIVE" using R(1,4) by (simp_all add: caller_def live_def regular_def)
  from ends_ok [OF sys_Exit_ends [OF t callerD(1) [OF R(1)] l callerD(3) [OF R(1)] i R(2)] R(3)] show ?case by simp
next
  case (exit_on c k v r k' ws)
  note R = exit_on [unfolded fst_conv snd_conv]
  have t: "tree_inv k" and i: "pstate (PT k 1) = ALIVE" using R(3,4) by (simp_all add: system_ok_def regular_def)
  from ends_ok [OF sys_Exit_resume_ends [OF t R(1) i R(2)] R(3)] show ?case by simp
qed (auto simp: apart_ok dest: sys_CreateThread_apart sys_ThreadJoin_apart sys_ThreadJoin_resume_apart sys_ThreadDetach_apart
    sys_ThreadExit_apart sys_ThreadExit_resume_apart apart_same_files [OF sys_Listen_frame] apart_same_files [OF sys_Connect_frame]
    apart_same_files [OF sys_Connect_resume_frame] apart_same_files [OF sys_ShutDown_frame])

lemma sys_steps_ok:
  "regular_call\<^sup>*\<^sup>* s s' \<Longrightarrow> system_ok (fst s) (snd s) \<Longrightarrow> system_ok (fst s') (snd s')"
  by (induction rule: rtranclp_induct) (auto simp: regular_call_def intro: sys_step_ok)

section \<open>An example\<close>

lemma procs_ok: "system_ok [] (procs_kernel z)"
proof -
  have "typed (procs_kernel z)"
    by (simp add: typed_def procs_kernel_def files_kernel_def right_type_def)
  moreover have "files_inv (count_list []) (procs_kernel z)" unfolding count_list_Nil by (rule procs_files)
  ultimately show ?thesis using procs_inv procs_fids by (simp add: system_ok_def)
qed

text \<open>Process 2 opens the null device and gets block \<open>f\<close> for it.\<close>

lemma procs_open:
  obtains i f k' where "sys_OpenNull 0 (procs_kernel FREE) = Inr (int i, k')" "i < MAX_FILEID"
    "FIDT (PT k' 2) i = Some f" "f < MAX_FILES" "regular_call\<^sup>*\<^sup>* ([], procs_kernel FREE) ([], k')"
    "streamfunc (FT k' f) = Some Nulldev_fops"
proof -
  define k where "k = procs_kernel FREE"
  have c: "CURPROC 0 k = Inr 2" "(2::nat) < MAX_PROC" unfolding k_def by (rule procs_proc, simp add: MAX_PROC_def)
  have inv: "files_inv (\<lambda>_. 0) k" unfolding k_def by (rule procs_files)
  have room: "has_room 2 k" by (auto simp: k_def has_room_def procs_sel MAX_FILEID_def MAX_FILES_def MAX_PROC_def intro: exI [of _ 0])
  obtain i f k1 where r: "FCB_reserve 0 1 k = Inr (Some ([i], [f]), k1)" "files_only k k1" "i < MAX_FILEID"
      "FCB_freelist k = f # FCB_freelist k1" "\<forall>q j. FIDT (PT k1 q) j = (if q = 2 \<and> j = i then Some f else FIDT (PT k q) j)"
    by (rule reserve_one [OF inv c room]) (rule that; assumption)
  define k' where "k' = upd_fcb f (\<lambda>b. b\<lparr>streamobj := Null_object, streamfunc := Some Nulldev_fops\<rparr>) k1"
  have "devnum k1 DEV_NULL = 1" using files_only_sel(10) [OF r(2)]
    by (simp add: k_def procs_kernel_def files_kernel_def piped_kernel_def example_kernel_def)
  then have o: "sys_OpenNull 0 k = Inr (int i, k')"
    using r(1) by (simp add: sys_OpenNull_def open_stream_def device_open_def nulldev_open_def k'_def)
  have "caller 0 2 k" using c by (simp add: caller_def k_def procs_sel)
  with o have "sys_step Plain_call ([], k) ([], k')" by (blast intro: sys_step.open_dev)
  then have "regular_call ([], k) ([], k')" by (auto simp: regular_call_def regular_def)
  then have "regular_call\<^sup>*\<^sup>* ([], k) ([], k')" by (rule r_into_rtranclp)
  moreover have "f < MAX_FILES" using files_uptoD(2) [OF inv, of f] r(4) by simp
  ultimately show ?thesis using that [of i k' f] o r(3,5) by (simp add: k_def k'_def)
qed

section \<open>The properties of the system calls\<close>

text \<open>
  C2: reference counts are exact. In the interleavings of the system calls of live processes, with calls that wait
  and resume in any order on any core, fewer than \<open>2 ^ 31\<close> of them at a time, in which no wait for a child resumes after another
  thread has reaped the child (C38 shows what happens then) and no process exits after the initial one: a file control
  block is free exactly when no descriptor of any
  process points to it and no call in progress uses it; the count of a block that is not free is the number of these
  descriptors and calls; and a process that is not alive has no descriptors.
\<close>

theorem refcounts_exact:
  assumes "system_ok ws k" and "regular_call\<^sup>*\<^sup>* (ws, k) (ws', k')" and "f < MAX_FILES"
  shows "(f \<in> set (FCB_freelist k') \<longleftrightarrow> refs k' f = 0 \<and> f \<notin> set ws') \<and>
    (f \<in> set (FCB_freelist k') \<or> unat (refcount (FT k' f)) = refs k' f + count_list ws' f) \<and>
    distinct (FCB_freelist k') \<and> fids_inv k'"
proof -
  have ok: "system_ok ws' k'" using sys_steps_ok [OF assms(2)] assms(1) by simp
  then have inv: "files_inv (count_list ws') k'" "fids_inv k'" by (simp_all add: system_ok_def)
  have "f \<in> set (FCB_freelist k') \<Longrightarrow> refs k' f = 0 \<and> f \<notin> set ws'"
    using files_uptoD(4) [OF inv(1)] by (auto simp: count_list_0_iff)
  moreover have "f \<notin> set (FCB_freelist k') \<Longrightarrow> \<not> (refs k' f = 0 \<and> f \<notin> set ws') \<and>
      unat (refcount (FT k' f)) = refs k' f + count_list ws' f"
    using files_uptoD(5) [OF inv(1) assms(3)] by (auto simp: count_list_0_iff)
  ultimately show ?thesis using files_uptoD(1) [OF inv(1)] inv(2) by blast
qed

theorem refcounts_exact_witness:
  "\<exists>i f k'. sys_OpenNull 0 (procs_kernel FREE) = Inr (int i, k') \<and> FIDT (PT k' 2) i = Some f \<and>
     f \<notin> set (FCB_freelist k') \<and> unat (refcount (FT k' f)) = refs k' f"
proof -
  obtain i f k' where o: "sys_OpenNull 0 (procs_kernel FREE) = Inr (int i, k')" "i < MAX_FILEID"
    "FIDT (PT k' 2) i = Some f" "f < MAX_FILES" "regular_call\<^sup>*\<^sup>* ([], procs_kernel FREE) ([], k')"
    by (rule procs_open)
  note R = refcounts_exact [OF procs_ok o(5,4)]
  have "(2, i) \<in> {s \<in> fid_slots. fid_at k' s = Some f}"
    using o(2,3) by (simp add: fid_slots_def fid_at_def MAX_PROC_def)
  then have "refs k' f \<noteq> 0" unfolding refs_def by (auto simp: card_eq_0_iff)
  with R o show ?thesis by auto
qed

text \<open>
  C8: the pointer that a stream operation gets points to what the operation expects. In every state
  that the system calls reach in the interleavings of C2, those in which no wait for a child resumes after another thread has
  reaped the child and no process exits after the initial one, the object of a block has the type of its \<^verbatim>\<open>file_ops\<close>, so the
  casts of the pipe, socket, serial and information operations all succeed.
\<close>

theorem streams_have_right_type:
  assumes "system_ok ws k" and "regular_call\<^sup>*\<^sup>* (ws, k) (ws', k')" and "streamfunc (FT k' f) = Some ops"
  shows "(case ops of
      Nulldev_fops \<Rightarrow> streamobj (FT k' f) = Null_object
    | Serial_fops \<Rightarrow> (\<exists>d. serial_of (streamobj (FT k' f)) = Inr d)
    | Reader_ops \<Rightarrow> (\<exists>a. pipe_of (streamobj (FT k' f)) = Inr a)
    | Writer_ops \<Rightarrow> (\<exists>a. pipe_of (streamobj (FT k' f)) = Inr a)
    | Socket_ops \<Rightarrow> (\<exists>a. as_scb (streamobj (FT k' f)) = Inr a)
    | Info_ops \<Rightarrow> (\<exists>a. info_of (streamobj (FT k' f)) = Inr a))"
proof -
  have "typed k'" using sys_steps_ok [OF assms(2)] assms(1) by (simp add: system_ok_def)
  with assms(3) have "right_type ops (streamobj (FT k' f))" by (simp add: typed_def)
  then show ?thesis
    by (cases ops; cases "streamobj (FT k' f)") (simp_all add: right_type_def pipe_of_def serial_of_def as_scb_def info_of_def)
qed

theorem streams_have_right_type_witness:
  "\<exists>i f k'. sys_OpenNull 0 (procs_kernel FREE) = Inr (int i, k') \<and> FIDT (PT k' 2) i = Some f \<and> streamobj (FT k' f) = Null_object"
proof -
  obtain i f k' where o: "sys_OpenNull 0 (procs_kernel FREE) = Inr (int i, k')" "FIDT (PT k' 2) i = Some f"
    "regular_call\<^sup>*\<^sup>* ([], procs_kernel FREE) ([], k')" "streamfunc (FT k' f) = Some Nulldev_fops"
    by (rule procs_open)
  from streams_have_right_type [OF procs_ok o(3,4)] o(1,2) show ?thesis by auto
qed

end
