(* ===== verification/Boot.thy ===== *)
theory Boot
  imports Syscalls
begin

text \<open>
  The start of the kernel, \<^verbatim>\<open>src/kernel_init.c\<close>. The barrier
  that the cores wait at, \<^verbatim>\<open>cpu_core_barrier_sync\<close>, orders the start of core 0 before the schedulers
  of the others and changes nothing.
\<close>

section \<open>Starting the system\<close>

record boot_rec =
  init_task :: "nat option"
  boot_argl :: int
  boot_args :: "(nat \<Rightarrow> byte) option"

text \<open>
  The part of core 0. \<open>old\<close> is what the memory of new TCBs held, \<open>rx\<close> and \<open>tx\<close> are the handlers of the serial
  devices. \<^verbatim>\<open>Exec\<close> cannot sleep, as no thread runs yet.
\<close>

definition boot_core0 :: "tcb \<Rightarrow> nat \<Rightarrow> handler \<Rightarrow> handler \<Rightarrow> boot_rec \<Rightarrow> kernel \<Rightarrow> kernel res" where
  "boot_core0 old w rx tx b k =
     bindE (initialize_processes old 0 w k) (\<lambda>k1.
     let k2 = initialize_files (initialize_devices 0 rx tx k1);
         k3 = k2\<lparr>cc := (cc k2)\<lparr>sch := initialize_scheduler (sch (cc k2))\<rparr>\<rparr>
     in bindE (SYSCALL 0 w (sys_Exec old 0 (init_task b) (boot_argl b) (boot_args b)) k3) (\<lambda>(pid, k4).
        case pid of
          None \<Rightarrow> Inl Null_deref
        | Some p \<Rightarrow> if p \<noteq> 1 then Inl Fatal else Inr k4))"

text \<open>The start of core \<open>c\<close>, up to the idle thread. \<open>alarm_h\<close> and \<open>ici_h\<close> are the handlers of the scheduler.\<close>

definition boot_tinyos_kernel :: "tcb \<Rightarrow> nat \<Rightarrow> handler \<Rightarrow> handler \<Rightarrow> handler \<Rightarrow> handler \<Rightarrow> boot_rec \<Rightarrow> nat \<Rightarrow> kernel \<Rightarrow> kernel res" where
  "boot_tinyos_kernel old w rx tx alarm_h ici_h b c k =
     bindE (if c = 0 then boot_core0 old w rx tx b k else Inr k) (\<lambda>k1.
     Inr (k1\<lparr>cc := (cc k1)\<lparr>sch := run_scheduler_init c (get_pcb 0 k1) alarm_h ici_h (sch (cc k1))\<rparr>\<rparr>))"

section \<open>The first two processes\<close>

text \<open>\<^verbatim>\<open>Exec\<close> of a process without a parent.\<close>

lemma first_exec:
  assumes inv: "tree_inv k" and r: "sys_Exec old c call n buf k = Inr (int p, k')" and p: "p \<le> 1"
  shows "tree_inv k'" and "FT k' = FT k" and "FCB_freelist k' = FCB_freelist k" and "FIDT (PT k' q) = FIDT (PT k q)"
    and "pstate (PT k' q) = (if q = p then ALIVE else pstate (PT k q))"
proof -
  obtain k1 where a: "acquire_PCB k = (Some p, k1)"
    using r by (auto simp: sys_Exec_def get_pid_def NOPROC_def split: prod.splits option.splits elim!: bindE_elim)
  note A = acquired_pcb(3) [OF inv a]
  define k2 where "k2 = upd_pcb p (\<lambda>b. b\<lparr>parent := None\<rparr>) k1"
  from r a p have x: "exec_thread old p call n buf k2 = Inr k'"
    by (auto simp: sys_Exec_def exec_parent_def k2_def elim!: bindE_elim)
  have "tree_inv k2" using p k2_def by (intro acquired_linked_inv [OF inv a, of None]) simp_all
  then show "tree_inv k'" using same_tree_inv [OF exec_thread_tree [OF x]] by simp
  note F = exec_thread_files [OF x]
  show "FT k' = FT k" "FCB_freelist k' = FCB_freelist k" "FIDT (PT k' q) = FIDT (PT k q)"
    using F by (simp_all add: k2_def A)
  show "pstate (PT k' q) = (if q = p then ALIVE else pstate (PT k q))"
    using exec_thread_tree [OF x] by (simp add: same_tree_def k2_def A)
qed

lemma push_free_files:
  "FT (fold push_free ps k) = FT k" "FIDT (PT (fold push_free ps k) q) = FIDT (PT k q)"
  by (induction ps arbitrary: k) (simp_all add: push_free_def)

lemma initialize_PCBs_FT: "FT (fold initialize_PCB ps k) = FT k"
  by (induction ps arbitrary: k) (simp_all add: initialize_PCB_def cond_init_def)

lemma initialize_processes_files:
  assumes out: "nothing_outside k" and r: "initialize_processes old c w k = Inr k'"
  shows "FT k' = FT k" and "p < MAX_PROC \<Longrightarrow> i < MAX_FILEID \<Longrightarrow> FIDT (PT k' p) i = None"
proof -
  define k1 where "k1 = fold initialize_PCB [0..<MAX_PROC] k"
  define j0 where "j0 = (fold push_free (rev [0..<MAX_PROC]) (k1\<lparr>pcb_freelist := None\<rparr>))\<lparr>process_count := 0\<rparr>"
  from r have "bindE (SYSCALL c w (sys_Exec old c None 0 None) j0) (\<lambda>(pid, k2).
      case pid of None \<Rightarrow> Inl Null_deref | Some p \<Rightarrow> if p \<noteq> 0 then Inl Fatal else Inr k2) = Inr k'"
    by (simp add: initialize_processes_def Let_def k1_def [symmetric] j0_def [symmetric])
  then obtain s k2 where e: "sys_Exec old c None 0 None (j0\<lparr>cc := s\<rparr>) = Inr (int 0, k2)" and u: "on_cc kernel_unlock k2 = Inr k'"
    by (auto simp: SYSCALL_def elim!: bindE_elim2 bindE_elim split: option.splits if_split_asm)
  define j where "j = j0\<lparr>cc := s\<rparr>"
  have "tree_inv j0" unfolding j0_def k1_def by (rule empty_tree_inv [OF out])
  then have j: "tree_inv j" using same_tree_inv [of j0 j] by (simp add: same_tree_def j_def)
  note E = first_exec [OF j e [folded j_def]]
  have A: "apart k2 k'" using on_cc_apart [OF u, of k2] by simp
  show "FT k' = FT k" using E(2) A by (simp add: apart_def j_def j0_def push_free_files k1_def initialize_PCBs_FT)
  show "FIDT (PT k' p) i = None" if "p < MAX_PROC" "i < MAX_FILEID"
    using E(4) [of p] A that by (simp add: apart_def j_def j0_def push_free_files k1_def initialize_PCBs)
qed

lemma initialize_processes_tree:
  assumes out: "nothing_outside k" and r: "initialize_processes old c w k = Inr k'"
  shows "tree_inv k'" and "p < MAX_PROC \<Longrightarrow> pstate (PT k' p) = (if p = 0 then ALIVE else FREE)"
proof -
  define k1 where "k1 = fold initialize_PCB [0..<MAX_PROC] k"
  define j0 where "j0 = (fold push_free (rev [0..<MAX_PROC]) (k1\<lparr>pcb_freelist := None\<rparr>))\<lparr>process_count := 0\<rparr>"
  from r have "bindE (SYSCALL c w (sys_Exec old c None 0 None) j0) (\<lambda>(pid, k2).
      case pid of None \<Rightarrow> Inl Null_deref | Some p \<Rightarrow> if p \<noteq> 0 then Inl Fatal else Inr k2) = Inr k'"
    by (simp add: initialize_processes_def Let_def k1_def [symmetric] j0_def [symmetric])
  then obtain s k2 where e: "sys_Exec old c None 0 None (j0\<lparr>cc := s\<rparr>) = Inr (int 0, k2)" and u: "on_cc kernel_unlock k2 = Inr k'"
    by (auto simp: SYSCALL_def elim!: bindE_elim2 bindE_elim split: option.splits if_split_asm)
  define j where "j = j0\<lparr>cc := s\<rparr>"
  have "tree_inv j0" unfolding j0_def k1_def by (rule empty_tree_inv [OF out])
  then have j: "tree_inv j" using same_tree_inv [of j0 j] by (simp add: same_tree_def j_def)
  note E = first_exec [OF j e [folded j_def]]
  have A: "apart k2 k'" using on_cc_apart [OF u, of k2] by simp
  show "tree_inv k'" using E(1) A same_tree_inv [of k2 k'] by (simp add: apart_def)
  show "p < MAX_PROC \<Longrightarrow> pstate (PT k' p) = (if p = 0 then ALIVE else FREE)"
    using E(5) [of p] A by (simp add: apart_def same_tree_def j_def j0_def push_free_frame k1_def initialize_PCBs)
qed

lemma initialize_devices_tables [simp]:
  "PT (initialize_devices c rx tx k) = PT k" "FT (initialize_devices c rx tx k) = FT k"
  "pcb_freelist (initialize_devices c rx tx k) = pcb_freelist k" "process_count (initialize_devices c rx tx k) = process_count k"
  by (simp_all add: initialize_devices_def Let_def set_vm_def)

lemma initialize_files_inv:
  assumes "\<And>p i. p < MAX_PROC \<Longrightarrow> i < MAX_FILEID \<Longrightarrow> FIDT (PT k p) i = None"
  shows "files_inv (\<lambda>_. 0) (initialize_files k)"
proof (rule files_uptoI)
  have none: "fid_at (initialize_files k) s \<noteq> Some f" if "s \<in> fid_slots" for s f
    using that assms by (cases s) (auto simp: fid_at_def fid_slots_def initialize_files_def)
  then have "{s \<in> fid_slots. fid_at (initialize_files k) s = Some f} = {}" for f by blast
  then have "refs (initialize_files k) f = 0" for f by (simp add: refs_def)
  then show "refs (initialize_files k) f + 0 = 0 \<and> f \<notin> {}" for f by simp
  show "f < MAX_FILES" if "s \<in> fid_slots" "fid_at (initialize_files k) s = Some f" for s f
    using none that by blast
qed (auto simp: initialize_files_def)

section \<open>An example\<close>

text \<open>\<open>ready n k\<close>: the allocator gives memory, the semaphore of the kernel is \<open>n\<close>, and nobody waits for it.\<close>

definition ready :: "int \<Rightarrow> kernel \<Rightarrow> bool" where
  "ready n k \<longleftrightarrow> malloc_ok k = (\<lambda>_. True) \<and> kernel_sem (cc k) = n \<and> waitset (cc k) Kernel_sem_cv = []"

lemma ready_initialize_PCBs: "ready n k \<Longrightarrow> ready n (fold initialize_PCB ps k)"
  by (induction ps arbitrary: k) (simp_all add: initialize_PCB_def cond_init_def ready_def Mutex_Unlock_def)

lemma ready_push_free: "ready n k \<Longrightarrow> ready n (fold push_free ps k)"
  by (induction ps arbitrary: k) (simp_all add: push_free_def ready_def)

lemma push_free_heads:
  "pcb_freelist (fold push_free (rev (p # q # ps)) k) = Some p" "p \<noteq> q \<Longrightarrow> parent (PT (fold push_free (rev (p # q # ps)) k) p) = Some q"
  by (simp_all add: push_free_def)

lemma exec_runs:
  assumes a: "acquire_PCB k = (Some p, k1)" and p: "p \<le> 1" and k: "ready m k"
  shows "\<exists>k'. sys_Exec old c call n None k = Inr (int p, k') \<and> ready m k' \<and> pcb_freelist k' = pcb_freelist k1"
proof -
  define k2 where "k2 = upd_pcb p (\<lambda>b. b\<lparr>parent := None\<rparr>) k1"
  have k2: "ready m k2" "pcb_freelist k2 = pcb_freelist k1"
    using a k by (auto simp: k2_def ready_def acquire_PCB_def Let_def split: option.splits)
  have "\<exists>k'. exec_thread old p call n None k2 = Inr k' \<and> ready m k'"
  proof (cases call)
    case None
    with k2 show ?thesis
      by (simp add: exec_thread_def Create_PTCB_def malloc_def copy_args_def ready_def cond_init_def Let_def)
  next
    case (Some f)
    with k2 show ?thesis
      by (simp add: exec_thread_def Create_PTCB_def malloc_def copy_args_def ready_def cond_init_def Let_def
          spawn_def spawn_thread_def set_owner_ptcb_def on_sch_def wakeup_def get_tcb_def sched_make_ready_def
          sched_queue_add_def upd_tcb_def MFQ_QUEUES_def)
  qed
  then obtain k' where x: "exec_thread old p call n None k2 = Inr k'" "ready m k'" by blast
  have "pcb_freelist k' = pcb_freelist k1" using exec_thread_tree [OF x(1)] k2(2) by (simp add: same_tree_def)
  then show ?thesis using a p x by (auto simp: sys_Exec_def exec_parent_def get_pid_def k2_def)
qed

text \<open>\<^verbatim>\<open>Exec\<close> with the kernel lock, which is free before and after.\<close>

lemma SYSCALL_exec_runs:
  assumes k: "ready 1 k" and p: "pcb_freelist k = Some p" "p \<le> 1"
  shows "\<exists>k'. SYSCALL 0 w (sys_Exec old 0 call n None) k = Inr (Some (int p), k') \<and> ready 1 k' \<and>
    pcb_freelist k' = parent (PT k p)"
proof -
  define s where "s = (cc k)\<lparr>kernel_sem := kernel_sem (cc k) - 1\<rparr>"
  have l: "kernel_lock_round 0 w (cc k) = Inr (True, s)" using k by (simp add: kernel_lock_round_def ready_def s_def)
  have r: "ready 0 (k\<lparr>cc := s\<rparr>)" using k by (simp add: ready_def s_def)
  obtain k1 where a: "acquire_PCB (k\<lparr>cc := s\<rparr>) = (Some p, k1)" "pcb_freelist k1 = parent (PT k p)"
    using p(1) by (simp add: acquire_PCB_def Let_def)
  obtain k4 where x: "sys_Exec old 0 call n None (k\<lparr>cc := s\<rparr>) = Inr (int p, k4)" "ready 0 k4" "pcb_freelist k4 = parent (PT k p)"
    using exec_runs [OF a(1) p(2) r, of old 0 call n] a(2) by auto
  then have "\<exists>k5. on_cc kernel_unlock k4 = Inr k5 \<and> ready 1 k5 \<and> pcb_freelist k5 = parent (PT k p)"
    by (simp add: on_cc_def kernel_unlock_def Cond_Signal_def cv_signal_def ready_def)
  with l x(1) show ?thesis by (auto simp: SYSCALL_def)
qed

lemma boot_runs:
  assumes k: "ready 1 k" and b: "boot_args b = None"
  shows "\<exists>k'. boot_tinyos_kernel old w rx tx alarm_h ici_h b 0 k = Inr k'"
proof -
  define k1 where "k1 = fold initialize_PCB [0..<MAX_PROC] k"
  define j where "j = (fold push_free (rev [0..<MAX_PROC]) (k1\<lparr>pcb_freelist := None\<rparr>))\<lparr>process_count := 0\<rparr>"
  have "ready 1 (k1\<lparr>pcb_freelist := None\<rparr>)" using ready_initialize_PCBs [OF k] by (simp add: k1_def ready_def)
  then have rj: "ready 1 j" using ready_push_free by (simp add: j_def ready_def)
  have u: "[0..<MAX_PROC] = 0 # 1 # [2..<MAX_PROC]"
  proof -
    have "[0..<MAX_PROC] = 0 # [Suc 0..<MAX_PROC]" by (rule upt_conv_Cons) (simp add: MAX_PROC_def)
    also have "[Suc 0..<MAX_PROC] = Suc 0 # [Suc (Suc 0)..<MAX_PROC]" by (rule upt_conv_Cons) (simp add: MAX_PROC_def)
    finally show ?thesis by (simp only: One_nat_def numeral_2_eq_2)
  qed
  have h: "pcb_freelist j = Some 0" "parent (PT j 0) = Some 1"
    unfolding j_def u using push_free_heads [of 0 1] by simp_all
  obtain k2 where e: "SYSCALL 0 w (sys_Exec old 0 None 0 None) j = Inr (Some 0, k2)" "ready 1 k2" "pcb_freelist k2 = Some 1"
    using SYSCALL_exec_runs [OF rj h(1), of w old None 0] h(2) by auto
  have 1: "initialize_processes old 0 w k = Inr k2"
    using e(1) by (simp add: initialize_processes_def Let_def k1_def [symmetric] j_def [symmetric])
  define k3 where "k3 = initialize_files (initialize_devices 0 rx tx k2)\<lparr>cc := (cc (initialize_files (initialize_devices 0 rx tx k2)))
      \<lparr>sch := initialize_scheduler (sch (cc (initialize_files (initialize_devices 0 rx tx k2))))\<rparr>\<rparr>"
  have k3: "ready 1 k3" "pcb_freelist k3 = Some 1"
    using e(2,3) by (simp_all add: k3_def ready_def initialize_files_def initialize_devices_def Let_def set_vm_def)
  obtain k5 where "SYSCALL 0 w (sys_Exec old 0 (init_task b) (boot_argl b) (boot_args b)) k3 = Inr (Some 1, k5)"
    using SYSCALL_exec_runs [OF k3, of w old "init_task b" "boot_argl b"] b by auto
  then have "boot_core0 old w rx tx b k = Inr k5"
    unfolding k3_def by (simp add: boot_core0_def 1 Let_def)
  then show ?thesis by (simp add: boot_tinyos_kernel_def)
qed

text \<open>
  C18: the system starts in order. When the boot of core 0 succeeds, from memory that is zero as
  the loader leaves it, the idle process 0 and the initial process 1 are alive and all other blocks are
  free, every file control block is free, and the invariant of the system calls holds.
\<close>

theorem boot_system_ok:
  assumes "nothing_outside k" and "\<forall>f. streamfunc (FT k f) = None"
    and "boot_tinyos_kernel old w rx tx alarm_h ici_h b 0 k = Inr k'"
  shows "system_ok [] k' \<and> FCB_freelist k' = [0..<MAX_FILES] \<and> get_pcb 0 k' = Some 0 \<and> get_pcb 1 k' = Some 1 \<and>
    {p. live k' p} = {0, 1}"
proof -
  from assms(3) obtain k1 k5 where 1: "initialize_processes old 0 w k = Inr k1"
    and k': "k' = k5\<lparr>cc := (cc k5)\<lparr>sch := run_scheduler_init 0 (get_pcb 0 k5) alarm_h ici_h (sch (cc k5))\<rparr>\<rparr>"
    and r: "boot_core0 old w rx tx b k = Inr k5"
    unfolding boot_tinyos_kernel_def by (auto simp: boot_core0_def elim!: bindE_elim)
  define k2 where "k2 = initialize_files (initialize_devices 0 rx tx k1)"
  define k3 where "k3 = k2\<lparr>cc := (cc k2)\<lparr>sch := initialize_scheduler (sch (cc k2))\<rparr>\<rparr>"
  from r 1 obtain s k4 where 4: "sys_Exec old 0 (init_task b) (boot_argl b) (boot_args b) (k3\<lparr>cc := s\<rparr>) = Inr (1, k4)"
      "on_cc kernel_unlock k4 = Inr k5"
    by (auto simp: boot_core0_def Let_def k2_def [symmetric] k3_def [symmetric] SYSCALL_def
        elim!: bindE_elim bindE_elim2 split: option.splits if_split_asm)
  note I = initialize_processes_tree [OF assms(1) 1] and F = initialize_processes_files [OF assms(1) 1]
  have t: "tree_inv (k3\<lparr>cc := s\<rparr>)"
    using same_tree_inv [of k1 "k3\<lparr>cc := s\<rparr>"] I(1) by (simp add: same_tree_def k3_def k2_def initialize_files_def)
  have e: "sys_Exec old 0 (init_task b) (boot_argl b) (boot_args b) (k3\<lparr>cc := s\<rparr>) = Inr (int 1, k4)" using 4(1) by simp
  note E = first_exec [OF t e]
  have a: "apart k4 k'" using on_cc_apart [OF 4(2), of k4] by (simp add: k')
  have "files_inv (\<lambda>_. 0) k2" unfolding k2_def by (rule initialize_files_inv) (simp add: F(2))
  moreover have "files_inv (\<lambda>_. 0) k4 = files_inv (\<lambda>_. 0) k2"
    using E by (intro files_upto_cong) (simp_all add: k3_def)
  ultimately have f: "files_inv (count_list []) k4" by (simp add: count_list_Nil)
  have none: "FIDT (PT k4 p) i = None" if "p < MAX_PROC" "i < MAX_FILEID" for p i
    using E(4) [of p] F(2) [OF that] by (simp add: k3_def k2_def initialize_files_def)
  have ty: "typed k4" using E(2) assms(2) F(1) by (simp add: typed_def k3_def k2_def initialize_files_def)
  have ok4: "system_ok [] k4" using E(1) f none ty by (simp add: system_ok_def fids_inv_def)
  have st: "pstate (PT k4 p) = (if p \<le> 1 then ALIVE else FREE)" if "p < MAX_PROC" for p
    using E(5) [of p] I(2) [OF that] by (auto simp: k3_def k2_def initialize_files_def)
  have fl: "FCB_freelist k4 = [0..<MAX_FILES]" using E(3) by (simp add: k3_def k2_def initialize_files_def)
  have "{p. live k' p} = {0, 1}"
    using a st by (auto simp: live_def apart_def same_tree_def MAX_PROC_def split: if_splits)
  moreover have "get_pcb 0 k' = Some 0" "get_pcb 1 k' = Some 1"
    using a st [of 0] st [of 1] by (simp_all add: get_pcb_def apart_def same_tree_def MAX_PROC_def)
  ultimately show ?thesis using apart_ok [OF a] ok4 fl a by (simp add: apart_def)
qed

theorem boot_system_ok_witness:
  "\<exists>k'. boot_tinyos_kernel (example_tcb NORMAL_THREAD INIT CTX_CLEAN 0 0) 0 1 2 3 4 \<lparr>init_task = Some 7, boot_argl = 0, boot_args = None\<rparr>
       0 example_kernel = Inr k' \<and> system_ok [] k' \<and> {p. live k' p} = {0, 1}"
proof -
  have k: "nothing_outside example_kernel" "\<forall>f. streamfunc (FT example_kernel f) = None"
    by (simp_all add: nothing_outside_def example_kernel_def example_pcb_def)
  have "ready 1 example_kernel" by (simp add: ready_def example_kernel_def)
  then obtain k' where "boot_tinyos_kernel (example_tcb NORMAL_THREAD INIT CTX_CLEAN 0 0) 0 1 2 3 4
      \<lparr>init_task = Some 7, boot_argl = 0, boot_args = None\<rparr> 0 example_kernel = Inr k'"
    using boot_runs by fastforce
  with boot_system_ok [OF k this] show ?thesis by blast
qed

end
