(* ===== verification/Symposium.thy ===== *)
theory Symposium
  imports Prelude "HOL-Library.Word"
begin

text \<open>
  The dining philosophers of \<^verbatim>\<open>src/symposium.c\<close> and \<^verbatim>\<open>src/symposium.h\<close>: a monitor with one condition per
  philosopher. What a philosopher does with the mutex \<^verbatim>\<open>mx\<close> locked is one step; \<^verbatim>\<open>Cond_Wait\<close> ends a step,
  and the next one of that philosopher comes after a \<^verbatim>\<open>Cond_Signal\<close> of its condition. Printing is left out.
\<close>

section \<open>The table\<close>

datatype PHIL = NOTHERE | THINKING | HUNGRY | EATING

record symposium_t =
  symp_N :: nat
  symp_bites :: nat
  fmin :: int
  fmax :: int

definition FBASE :: int where "FBASE = 35"
definition FGAP :: int where "FGAP = 10"

text \<open>\<open>log_phi x\<close> is the integer part of the logarithm of \<open>x\<close> to the base of the golden ratio.\<close>

definition adjust_symposium :: "(nat \<Rightarrow> int) \<Rightarrow> symposium_t \<Rightarrow> int \<Rightarrow> int \<Rightarrow> symposium_t" where
  "adjust_symposium log_phi s dBASE dGAP =
     (let f = FBASE + dBASE - log_phi (2 * symp_N s * symp_bites s) in s\<lparr>fmin := f, fmax := f + FGAP + dGAP\<rparr>)"

text \<open>
  The value \<open>lrand\<close> of the random generator, which is not negative, is an argument; the remainder
  of C has the sign of its left operand, and the machine stops at a division by zero.
\<close>

definition fiborand :: "nat \<Rightarrow> int \<Rightarrow> int \<Rightarrow> int res" where
  "fiborand lrand lo hi =
     (if hi - lo + 1 = 0 then Inl Div_by_zero else Inr (int lrand mod \<bar>hi - lo + 1\<bar> + lo))"

fun fibo :: "nat \<Rightarrow> 32 word" where
  "fibo n = (if n < 2 then of_nat n else fibo (n - 1) + fibo (n - 2))"

declare fibo.simps [simp del]

text \<open>The neighbours of a philosopher, in the arithmetic of \<^verbatim>\<open>int\<close>.\<close>

definition LEFT :: "nat \<Rightarrow> nat \<Rightarrow> nat res" where
  "LEFT i n = bindE (add_int (int i) 1) (\<lambda>s. if n = 0 then Inl Div_by_zero else Inr (nat (s mod int n)))"

definition RIGHT :: "nat \<Rightarrow> nat \<Rightarrow> nat res" where
  "RIGHT i n = bindE (add_int (int i) (int n)) (\<lambda>s. bindE (add_int s (- 1)) (\<lambda>t.
     if n = 0 then Inl Div_by_zero else Inr (nat (t mod int n))))"

text \<open>\<open>hungry i\<close>: philosopher \<open>i\<close> sleeps on its condition.\<close>

record SymposiumTable =
  state :: "nat \<Rightarrow> PHIL"
  hungry :: "nat \<Rightarrow> bool"

definition SymposiumTable_init :: SymposiumTable where
  "SymposiumTable_init = \<lparr>state = (\<lambda>_. NOTHERE), hungry = (\<lambda>_. False)\<rparr>"

definition set_state :: "nat \<Rightarrow> PHIL \<Rightarrow> SymposiumTable \<Rightarrow> SymposiumTable" where
  "set_state i x S = S\<lparr>state := (state S)(i := x)\<rparr>"

definition trytoeat :: "nat \<Rightarrow> nat \<Rightarrow> SymposiumTable \<Rightarrow> SymposiumTable res" where
  "trytoeat n i S =
     (if state S i = HUNGRY then
        bindE (LEFT i n) (\<lambda>l.
        if state S l = EATING then Inr S
        else bindE (RIGHT i n) (\<lambda>r.
          if state S r = EATING then Inr S
          else Inr ((set_state i EATING S)\<lparr>hungry := (hungry S)(i := False)\<rparr>)))
      else Inr S)"

section \<open>A philosopher\<close>

text \<open>Where a philosopher is; the number counts the bites that it has had.\<close>

datatype phil_pc = Arriving | Thinking nat | Waiting nat | Eating nat | Left

text \<open>The test of the loop around \<^verbatim>\<open>Cond_Wait\<close>, and the assertion after it.\<close>

definition wait_loop :: "nat \<Rightarrow> nat \<Rightarrow> SymposiumTable \<Rightarrow> (phil_pc \<times> SymposiumTable) res" where
  "wait_loop i j S =
     (if state S i = HUNGRY then Inr (Waiting j, S\<lparr>hungry := (hungry S)(i := True)\<rparr>)
      else bindE (assertE (state S i = EATING)) (\<lambda>_. Inr (Eating j, S)))"

definition SymposiumTable_philosopher ::
  "nat \<Rightarrow> nat \<Rightarrow> nat \<Rightarrow> phil_pc \<Rightarrow> SymposiumTable \<Rightarrow> (phil_pc \<times> SymposiumTable) res" where
  "SymposiumTable_philosopher n b i pc S =
     (case pc of
        Arriving \<Rightarrow> Inr (Thinking 0, set_state i THINKING S)
      | Thinking j \<Rightarrow>
          if j < b then bindE (trytoeat n i (set_state i HUNGRY S)) (wait_loop i j)
          else Inr (Left, set_state i NOTHERE S)
      | Waiting j \<Rightarrow> wait_loop i j S
      | Eating j \<Rightarrow>
          bindE (LEFT i n) (\<lambda>l. bindE (trytoeat n l (set_state i THINKING S)) (\<lambda>S1.
          bindE (RIGHT i n) (\<lambda>r. bindE (trytoeat n r S1) (\<lambda>S2. Inr (Thinking (Suc j), S2)))))
      | Left \<Rightarrow> Inr (Left, S))"

text \<open>One of the \<open>n\<close> philosophers that has not left and is not asleep takes a step.\<close>

inductive sym_step :: "nat \<Rightarrow> nat \<Rightarrow> (nat \<Rightarrow> phil_pc) \<times> SymposiumTable \<Rightarrow> (nat \<Rightarrow> phil_pc) \<times> SymposiumTable \<Rightarrow> bool"
  for n b where
  step: "i < n \<Longrightarrow> pcs i \<noteq> Left \<Longrightarrow> \<not> hungry S i \<Longrightarrow>
     SymposiumTable_philosopher n b i (pcs i) S = Inr (pc, S') \<Longrightarrow> sym_step n b (pcs, S) (pcs(i := pc), S')"

definition sym_start :: "(nat \<Rightarrow> phil_pc) \<times> SymposiumTable" where
  "sym_start = (\<lambda>_. Arriving, SymposiumTable_init)"

section \<open>Neighbours\<close>

text \<open>
  The neighbours as indices, and what \<^verbatim>\<open>trytoeat\<close> does when no sum overflows. For tables of at most
  \<open>2 ^ 30\<close> philosophers none does.
\<close>

definition left_of :: "nat \<Rightarrow> nat \<Rightarrow> nat" where "left_of i n = (i + 1) mod n"
definition right_of :: "nat \<Rightarrow> nat \<Rightarrow> nat" where "right_of i n = (i + n - 1) mod n"

definition served :: "nat \<Rightarrow> nat \<Rightarrow> SymposiumTable \<Rightarrow> SymposiumTable" where
  "served n i S =
     (if state S i = HUNGRY \<and> state S (left_of i n) \<noteq> EATING \<and> state S (right_of i n) \<noteq> EATING
      then (set_state i EATING S)\<lparr>hungry := (hungry S)(i := False)\<rparr> else S)"

lemma LEFT_Inr: "LEFT i n = Inr l \<Longrightarrow> l = left_of i n"
  by (auto simp: LEFT_def add_int_eq_Inr left_of_def nat_mod_distrib nat_add_distrib split: if_splits elim!: bindE_elim)

lemma RIGHT_Inr: "RIGHT i n = Inr r \<Longrightarrow> r = right_of i n"
  by (auto simp: RIGHT_def add_int_eq_Inr right_of_def nat_mod_distrib nat_diff_distrib' nat_add_distrib
      split: if_splits elim!: bindE_elim)

lemma trytoeat_Inr: "trytoeat n i S = Inr T \<Longrightarrow> T = served n i S"
  by (auto simp: trytoeat_def served_def dest!: LEFT_Inr RIGHT_Inr split: if_splits elim!: bindE_elim)

lemma LEFT_eq: "i < n \<Longrightarrow> n \<le> 2 ^ 30 \<Longrightarrow> LEFT i n = Inr (left_of i n)"
  by (simp add: LEFT_def left_of_def nat_mod_distrib nat_add_distrib)

lemma RIGHT_eq: "i < n \<Longrightarrow> n \<le> 2 ^ 30 \<Longrightarrow> RIGHT i n = Inr (right_of i n)"
  by (simp add: RIGHT_def right_of_def nat_mod_distrib nat_diff_distrib' nat_add_distrib)

lemma trytoeat_eq: "i < n \<Longrightarrow> n \<le> 2 ^ 30 \<Longrightarrow> trytoeat n i S = Inr (served n i S)"
  by (simp add: trytoeat_def served_def LEFT_eq RIGHT_eq)

lemma left_less [simp]: "0 < n \<Longrightarrow> left_of i n < n" and right_less [simp]: "0 < n \<Longrightarrow> right_of i n < n"
  by (simp_all add: left_of_def right_of_def)

lemma left_right [simp]: "i < n \<Longrightarrow> left_of (right_of i n) n = i"
proof -
  assume i: "i < n"
  have "left_of (right_of i n) n = (i + n - 1 + 1) mod n" unfolding left_of_def right_of_def by (rule mod_add_left_eq)
  also have "\<dots> = i" using i by simp
  finally show ?thesis .
qed

lemma right_left [simp]: "i < n \<Longrightarrow> right_of (left_of i n) n = i"
proof (cases "Suc i = n")
  case True
  have "right_of 0 (Suc i) = i" by (simp add: right_of_def)
  with True show ?thesis by (simp add: left_of_def)
next
  case False
  assume "i < n"
  with False show ?thesis by (simp add: left_of_def right_of_def)
qed

lemma left_inj: "i < n \<Longrightarrow> j < n \<Longrightarrow> left_of i n = j \<longleftrightarrow> i = right_of j n"
  by auto

section \<open>The invariant\<close>

definition pc_ok :: "phil_pc \<Rightarrow> PHIL \<Rightarrow> bool \<Rightarrow> bool" where
  "pc_ok pc x asleep = (case pc of
     Arriving \<Rightarrow> x = NOTHERE \<and> \<not> asleep
   | Thinking j \<Rightarrow> x = THINKING \<and> \<not> asleep
   | Waiting j \<Rightarrow> x = HUNGRY \<and> asleep \<or> x = EATING \<and> \<not> asleep
   | Eating j \<Rightarrow> x = EATING \<and> \<not> asleep
   | Left \<Rightarrow> x = NOTHERE \<and> \<not> asleep)"

text \<open>
  No two neighbours eat, and a philosopher that is hungry has a neighbour that eats. At a table
  for one, the philosopher is its own neighbour.
\<close>

definition spaced :: "nat \<Rightarrow> (nat \<Rightarrow> PHIL) \<Rightarrow> bool" where
  "spaced n st \<longleftrightarrow> (\<forall>i < n. st i = EATING \<longrightarrow> left_of i n = i \<or> st (left_of i n) \<noteq> EATING)"

definition fed_except :: "nat set \<Rightarrow> nat \<Rightarrow> (nat \<Rightarrow> PHIL) \<Rightarrow> bool" where
  "fed_except X n st \<longleftrightarrow> (\<forall>i < n. i \<notin> X \<longrightarrow> st i = HUNGRY \<longrightarrow> st (left_of i n) = EATING \<or> st (right_of i n) = EATING)"

definition sym_inv :: "nat \<Rightarrow> (nat \<Rightarrow> phil_pc) \<times> SymposiumTable \<Rightarrow> bool" where
  "sym_inv n = (\<lambda>(pcs, S). (\<forall>i < n. pc_ok (pcs i) (state S i) (hungry S i)) \<and>
     spaced n (state S) \<and> fed_except {} n (state S))"

lemma spacedD: "spaced n st \<Longrightarrow> i < n \<Longrightarrow> st i = EATING \<Longrightarrow> left_of i n = i \<or> st (left_of i n) \<noteq> EATING"
  by (simp add: spaced_def)

text \<open>What \<^verbatim>\<open>served\<close> does to the three facts.\<close>

lemma served_state: "state (served n i S) k =
   (if k = i \<and> state S i = HUNGRY \<and> state S (left_of i n) \<noteq> EATING \<and> state S (right_of i n) \<noteq> EATING then EATING else state S k)"
  by (simp add: served_def set_state_def)

lemma served_spaced:
  assumes "spaced n (state S)" "i < n"
  shows "spaced n (state (served n i S))"
  unfolding spaced_def
proof (intro allI impI)
  fix k assume k: "k < n" "state (served n i S) k = EATING"
  show "left_of k n = k \<or> state (served n i S) (left_of k n) \<noteq> EATING"
  proof (cases "k = i")
    case True
    then show ?thesis using spacedD [OF assms(1) k(1)] k(2) by (auto simp: served_state split: if_splits)
  next
    case False
    have r: "left_of k n = i \<Longrightarrow> k = right_of i n" using k(1) by auto
    show ?thesis using spacedD [OF assms(1) k(1)] k(2) False r by (auto simp: served_state split: if_splits)
  qed
qed

lemma served_fed:
  assumes "fed_except (insert i X) n (state S)"
  shows "fed_except X n (state (served n i S))"
  unfolding fed_except_def
proof (intro allI impI)
  fix k assume k: "k < n" "k \<notin> X" "state (served n i S) k = HUNGRY"
  have mono: "state S m = EATING \<Longrightarrow> state (served n i S) m = EATING" for m by (simp add: served_state)
  have h: "state S k = HUNGRY" using k(3) by (auto simp: served_state split: if_splits)
  show "state (served n i S) (left_of k n) = EATING \<or> state (served n i S) (right_of k n) = EATING"
  proof (cases "k = i")
    case True
    with k(3) h have "state S (left_of k n) = EATING \<or> state S (right_of k n) = EATING"
      by (auto simp: served_state split: if_splits)
    with mono show ?thesis by blast
  next
    case False
    with assms k(1,2) h mono show ?thesis unfolding fed_except_def by blast
  qed
qed

lemma served_pc:
  "pc_ok pc (state S k) (hungry S k) \<Longrightarrow> pc_ok pc (state (served n i S) k) (hungry (served n i S) k)"
  by (cases pc) (auto simp: served_def set_state_def pc_ok_def)

text \<open>A philosopher that changes between states other than \<open>EATING\<close> and \<open>HUNGRY\<close> does not matter to the others.\<close>

lemma set_state_simps [simp]:
  "state (set_state i x S) = (state S)(i := x)" "hungry (set_state i x S) = hungry S"
  by (simp_all add: set_state_def)

lemma set_spaced: "spaced n st \<Longrightarrow> x \<noteq> EATING \<Longrightarrow> spaced n (st(i := x))"
  by (auto simp: spaced_def)

lemma set_fed:
  "fed_except X n st \<Longrightarrow> st i \<noteq> EATING \<Longrightarrow> x = HUNGRY \<Longrightarrow> fed_except (insert i X) n (st(i := x))"
  "fed_except X n st \<Longrightarrow> st i \<noteq> EATING \<Longrightarrow> x \<noteq> HUNGRY \<Longrightarrow> fed_except X n (st(i := x))"
  by (auto simp: fed_except_def)

lemma stop_eating_fed:
  assumes "fed_except {} n st" "i < n"
  shows "fed_except {left_of i n, right_of i n} n (st(i := THINKING))"
  unfolding fed_except_def
proof (intro allI impI)
  fix k assume k: "k < n" "k \<notin> {left_of i n, right_of i n}" "(st(i := THINKING)) k = HUNGRY"
  then have "left_of k n \<noteq> i" "right_of k n \<noteq> i" "k \<noteq> i" using assms(2) by auto
  with assms(1) k show "(st(i := THINKING)) (left_of k n) = EATING \<or> (st(i := THINKING)) (right_of k n) = EATING"
    by (auto simp: fed_except_def split: if_splits)
qed

lemma sym_step_inv:
  assumes "sym_step n b s s'" "sym_inv n s"
  shows "sym_inv n s'"
  using assms
proof (induction rule: sym_step.induct)
  case (step i pcs S pc S')
  have n: "0 < n" using step(1) by simp
  from step(5) have I: "\<forall>k < n. pc_ok (pcs k) (state S k) (hungry S k)" "spaced n (state S)" "fed_except {} n (state S)"
    by (simp_all add: sym_inv_def)
  note ii = I(1) [rule_format, OF step(1)]
  have goal: "sym_inv n (pcs(i := pc), S')" if "pc_ok pc (state S' i) (hungry S' i)"
    "\<And>k. k < n \<Longrightarrow> k \<noteq> i \<Longrightarrow> pc_ok (pcs k) (state S' k) (hungry S' k)" "spaced n (state S')" "fed_except {} n (state S')"
    using that by (simp add: sym_inv_def)
  show ?case
  proof (cases "pcs i")
    case Arriving
    with step(4) have S': "pc = Thinking 0" "S' = set_state i THINKING S" by (simp_all add: SymposiumTable_philosopher_def)
    show ?thesis
      using I ii Arriving by (intro goal) (auto simp: S' pc_ok_def intro: set_spaced set_fed)
  next
    case (Thinking j)
    show ?thesis
    proof (cases "j < b")
      case True
      define T where "T = served n i (set_state i HUNGRY S)"
      from step(4) Thinking True have w: "wait_loop i j T = Inr (pc, S')"
        by (auto simp: SymposiumTable_philosopher_def T_def dest!: trytoeat_Inr elim!: bindE_elim)
      have st: "state S' = state T" "pc_ok pc (state S' i) (hungry S' i)" "k \<noteq> i \<Longrightarrow> hungry S' k = hungry T k" for k
        using w step(3) by (auto simp: wait_loop_def pc_ok_def T_def served_def set_state_def split: if_splits elim!: bindE_elim)
      show ?thesis
      proof (rule goal [OF st(2)])
        show "pc_ok (pcs k) (state S' k) (hungry S' k)" if "k < n" "k \<noteq> i" for k
        proof -
          have "pc_ok (pcs k) (state T k) (hungry T k)"
            unfolding T_def by (rule served_pc) (use I(1) that in simp)
          then show ?thesis using st that by simp
        qed
        show "spaced n (state S')" unfolding st(1) T_def
          using I(2) step(1) by (intro served_spaced) (simp_all add: set_spaced)
        show "fed_except {} n (state S')" unfolding st(1) T_def
          using I(3) ii Thinking by (intro served_fed) (auto simp: pc_ok_def intro: set_fed)
      qed
    next
      case False
      with step(4) Thinking have S': "pc = Left" "S' = set_state i NOTHERE S" by (simp_all add: SymposiumTable_philosopher_def)
      show ?thesis
        using I ii Thinking by (intro goal) (auto simp: S' pc_ok_def intro: set_spaced set_fed)
    qed
  next
    case (Waiting j)
    with ii step(3) have e: "state S i = EATING" by (auto simp: pc_ok_def)
    with step(4) Waiting have S': "pc = Eating j" "S' = S"
      by (simp_all add: SymposiumTable_philosopher_def wait_loop_def)
    show ?thesis using I e step(3) by (intro goal) (auto simp: S' pc_ok_def)
  next
    case (Eating j)
    with step(4) have S': "pc = Thinking (Suc j)"
        "S' = served n (right_of i n) (served n (left_of i n) (set_state i THINKING S))"
      by (auto simp: SymposiumTable_philosopher_def dest!: trytoeat_Inr LEFT_Inr RIGHT_Inr elim!: bindE_elim)
    show ?thesis
    proof (rule goal)
      have "pc_ok (Thinking (Suc j)) (state (set_state i THINKING S) i) (hungry (set_state i THINKING S) i)"
        using step(3) by (simp add: pc_ok_def)
      then show "pc_ok pc (state S' i) (hungry S' i)" unfolding S' by (intro served_pc)
      show "pc_ok (pcs k) (state S' k) (hungry S' k)" if "k < n" "k \<noteq> i" for k
        unfolding S' using I(1) that by (intro served_pc) simp
      show "spaced n (state S')" unfolding S' using I(2) n by (intro served_spaced) (simp_all add: set_spaced)
      have "fed_except (insert (left_of i n) (insert (right_of i n) {})) n (state (set_state i THINKING S))"
        using stop_eating_fed [OF I(3) step(1)] by simp
      then show "fed_except {} n (state S')" unfolding S' by (intro served_fed)
    qed
  next
    case Left
    with step(2) show ?thesis by simp
  qed
qed

lemma sym_start_inv: "sym_inv n sym_start"
  by (simp add: sym_inv_def sym_start_def SymposiumTable_init_def pc_ok_def spaced_def fed_except_def)

lemma sym_steps_inv: "(sym_step n b)\<^sup>*\<^sup>* s s' \<Longrightarrow> sym_inv n s \<Longrightarrow> sym_inv n s'"
  by (induction rule: rtranclp_induct) (auto intro: sym_step_inv)

section \<open>Progress\<close>

definition rank :: "nat \<Rightarrow> phil_pc \<Rightarrow> nat" where
  "rank b pc = (case pc of
     Arriving \<Rightarrow> 3 * b + 2
   | Thinking j \<Rightarrow> 3 * (b - j) + 1
   | Waiting j \<Rightarrow> 3 * (b - j)
   | Eating j \<Rightarrow> 3 * (b - j) - 1
   | Left \<Rightarrow> 0)"

text \<open>The bites of a philosopher that waits or eats are not over.\<close>

definition bites_ok :: "nat \<Rightarrow> phil_pc \<Rightarrow> bool" where
  "bites_ok b pc = (case pc of Waiting j \<Rightarrow> j < b | Eating j \<Rightarrow> j < b | Thinking j \<Rightarrow> j \<le> b | _ \<Rightarrow> True)"

definition total_rank :: "nat \<Rightarrow> nat \<Rightarrow> (nat \<Rightarrow> phil_pc) \<Rightarrow> nat" where
  "total_rank n b pcs = (\<Sum>i < n. rank b (pcs i))"

lemma philosopher_rank:
  assumes "SymposiumTable_philosopher n b i pc S = Inr (pc', S')" "pc \<noteq> Left" "bites_ok b pc"
    and "pc_ok pc (state S i) (hungry S i)" "\<not> hungry S i"
  shows "rank b pc' < rank b pc" and "bites_ok b pc'"
proof -
  have "rank b pc' < rank b pc \<and> bites_ok b pc'"
  proof (cases pc)
    case (Thinking j)
    show ?thesis
    proof (cases "j < b")
      case True
      with assms(1) Thinking show ?thesis
        by (auto simp: SymposiumTable_philosopher_def wait_loop_def rank_def bites_ok_def split: if_splits elim!: bindE_elim)
    next
      case False
      with assms(1) Thinking show ?thesis by (auto simp: SymposiumTable_philosopher_def rank_def bites_ok_def)
    qed
  next
    case (Waiting j)
    with assms have "state S i = EATING" by (auto simp: pc_ok_def)
    with assms(1,3) Waiting show ?thesis
      by (auto simp: SymposiumTable_philosopher_def wait_loop_def rank_def bites_ok_def)
  next
    case (Eating j)
    with assms(1,3) show ?thesis by (auto simp: SymposiumTable_philosopher_def rank_def bites_ok_def elim!: bindE_elim)
  qed (use assms in \<open>auto simp: SymposiumTable_philosopher_def rank_def bites_ok_def\<close>)
  then show "rank b pc' < rank b pc" "bites_ok b pc'" by simp_all
qed

lemma sym_step_rank:
  assumes "sym_step n b s s'" "sym_inv n s" "\<forall>i < n. bites_ok b (fst s i)"
  shows "total_rank n b (fst s') < total_rank n b (fst s)" and "\<forall>i < n. bites_ok b (fst s' i)"
proof -
  from assms obtain i pcs S pc S' where s: "s = (pcs, S)" "s' = (pcs(i := pc), S')" "i < n" "pcs i \<noteq> Left" "\<not> hungry S i"
      "SymposiumTable_philosopher n b i (pcs i) S = Inr (pc, S')"
    by (auto elim: sym_step.cases)
  have "pc_ok (pcs i) (state S i) (hungry S i)" using assms(2) s(1,3) by (simp add: sym_inv_def)
  note R = philosopher_rank [OF s(6,4) _ this s(5)]
  have b: "bites_ok b (pcs i)" using assms(3) s by simp
  have "total_rank n b (pcs(i := pc)) < total_rank n b pcs"
    unfolding total_rank_def
    by (rule sum_strict_mono_ex1) (use R(1) [OF b] s(3) in \<open>auto intro: bexI [of _ i]\<close>)
  then show "total_rank n b (fst s') < total_rank n b (fst s)" by (simp add: s)
  show "\<forall>i < n. bites_ok b (fst s' i)" using assms(3) R(2) [OF b] by (auto simp: s)
qed

lemma sym_run_rank:
  "(sym_step n b ^^ m) s s' \<Longrightarrow> sym_inv n s \<Longrightarrow> \<forall>i < n. bites_ok b (fst s i) \<Longrightarrow>
     sym_inv n s' \<and> (\<forall>i < n. bites_ok b (fst s' i)) \<and> m + total_rank n b (fst s') \<le> total_rank n b (fst s)"
proof (induction m arbitrary: s')
  case 0
  then show ?case by simp
next
  case (Suc m)
  then obtain t where t: "(sym_step n b ^^ m) s t" "sym_step n b t s'" by auto
  with Suc have I: "sym_inv n t" "\<forall>i < n. bites_ok b (fst t i)" "m + total_rank n b (fst t) \<le> total_rank n b (fst s)"
    by blast+
  from sym_step_inv [OF t(2) I(1)] sym_step_rank [OF t(2) I(1,2)] I(3) show ?case by force
qed

text \<open>
  A philosopher that is not asleep can go on, without a failing assertion. A sum overflows only at a table of
  more than \<open>2 ^ 30\<close> philosophers.
\<close>

lemma trytoeat_cases:
  "i < n \<Longrightarrow> trytoeat n i S = Inr (served n i S) \<or> 2 ^ 30 < n \<and> trytoeat n i S = Inl Int_overflow"
  using trytoeat_eq [of i n S] trytoeat_Inr [of n i S]
  by (cases "n \<le> 2 ^ 30") (auto simp: trytoeat_def LEFT_def RIGHT_def add_int_def)

lemma neighbour_cases:
  "0 < n \<Longrightarrow> LEFT i n = Inr (left_of i n) \<or> LEFT i n = Inl Int_overflow"
  "0 < n \<Longrightarrow> RIGHT i n = Inr (right_of i n) \<or> RIGHT i n = Inl Int_overflow"
  using LEFT_Inr [of i n] RIGHT_Inr [of i n] by (auto simp: LEFT_def RIGHT_def add_int_def)

lemma eats_goes_on:
  assumes "i < n"
  shows "(\<exists>pc' S'. SymposiumTable_philosopher n b i (Eating j) S = Inr (pc', S')) \<or>
    2 ^ 30 < n \<and> SymposiumTable_philosopher n b i (Eating j) S = Inl Int_overflow"
proof (cases "n \<le> 2 ^ 30")
  case True
  with assms show ?thesis by (simp add: SymposiumTable_philosopher_def LEFT_eq RIGHT_eq trytoeat_eq)
next
  case False
  let ?T = "set_state i THINKING S"
  have lr: "left_of i n < n" "right_of i n < n" using assms by simp_all
  show ?thesis
    using False neighbour_cases [of n i] assms trytoeat_cases [OF lr(1), of ?T] trytoeat_cases [OF lr(2), of "served n (left_of i n) ?T"]
    by (auto simp: SymposiumTable_philosopher_def)
qed

lemma philosopher_cases:
  assumes "pc_ok pc (state S i) (hungry S i)" "\<not> hungry S i" and "i < n"
  shows "(\<exists>pc' S'. SymposiumTable_philosopher n b i pc S = Inr (pc', S')) \<or>
    2 ^ 30 < n \<and> SymposiumTable_philosopher n b i pc S = Inl Int_overflow"
proof (cases pc)
  case (Thinking j)
  let ?T = "served n i (set_state i HUNGRY S)"
  have "state ?T i = HUNGRY \<or> state ?T i = EATING" by (auto simp: served_state)
  then have "\<exists>pc' S'. wait_loop i j ?T = Inr (pc', S')" by (auto simp: wait_loop_def)
  with Thinking show ?thesis using trytoeat_cases [OF assms(3), of "set_state i HUNGRY S"]
    by (auto simp: SymposiumTable_philosopher_def)
next
  case (Eating j)
  then show ?thesis using eats_goes_on [OF assms(3)] by simp
qed (use assms in \<open>auto simp: SymposiumTable_philosopher_def wait_loop_def pc_ok_def\<close>)

lemma sym_progress:
  assumes inv: "sym_inv n (pcs, S)" and i: "i < n" "pcs i \<noteq> Left" and n: "n \<le> 2 ^ 30"
  shows "\<exists>s'. sym_step n b (pcs, S) s'"
proof -
  have I: "\<And>k. k < n \<Longrightarrow> pc_ok (pcs k) (state S k) (hungry S k)" "fed_except {} n (state S)"
    using inv by (simp_all add: sym_inv_def)
  obtain k where k: "k < n" "pcs k \<noteq> Left" "\<not> hungry S k"
  proof (cases "hungry S i")
    case True
    then have "state S i = HUNGRY" using I(1) [OF i(1)] by (auto simp: pc_ok_def split: phil_pc.splits)
    with I(2) i have "state S (left_of i n) = EATING \<or> state S (right_of i n) = EATING" by (simp add: fed_except_def)
    moreover have "left_of i n < n" "right_of i n < n" using i(1) by simp_all
    ultimately obtain k where k: "k < n" "state S k = EATING" by blast
    with I(1) [OF k(1)] that show ?thesis by (auto simp: pc_ok_def split: phil_pc.splits)
  qed (use i that in auto)
  from philosopher_cases [OF I(1) [OF k(1)] k(3,1)] n obtain pc' S' where
    "SymposiumTable_philosopher n b k (pcs k) S = Inr (pc', S')" by force
  from sym_step.step [OF k(1), of pcs, OF k(2,3) this] show ?thesis ..
qed

section \<open>An example\<close>

text \<open>Two philosophers, one bite: the first one eats and the second one waits.\<close>

definition example_phils :: "nat \<Rightarrow> phil_pc" where
  "example_phils = (\<lambda>_. Arriving)(0 := Thinking 0, 0 := Eating 0, 1 := Thinking 0, 1 := Waiting 0)"

definition example_table :: SymposiumTable where
  "example_table = \<lparr>state = (\<lambda>_. NOTHERE)(0 := THINKING, 0 := HUNGRY, 0 := EATING, 1 := THINKING, 1 := HUNGRY),
     hungry = (\<lambda>_. False)(0 := False, 1 := True)\<rparr>"

lemma sym_stepI:
  "i < n \<Longrightarrow> pcs i \<noteq> Left \<Longrightarrow> \<not> hungry S i \<Longrightarrow> SymposiumTable_philosopher n b i (pcs i) S = Inr (pc, S') \<Longrightarrow>
     x = (pcs(i := pc), S') \<Longrightarrow> sym_step n b (pcs, S) x"
  by (simp add: sym_step.step)

lemma example_run: "(sym_step 2 1 ^^ 4) sym_start (example_phils, example_table)"
proof -
  let ?p1 = "(\<lambda>_. Arriving)(0 := Thinking 0)" and ?s1 = "set_state 0 THINKING SymposiumTable_init"
  let ?p2 = "?p1(0 := Eating 0)" and ?s2 = "served 2 0 (set_state 0 HUNGRY ?s1)"
  let ?p3 = "?p2(1 := Thinking 0)" and ?s3 = "set_state 1 THINKING ?s2"
  have s: "?s2 = \<lparr>state = (\<lambda>_. NOTHERE)(0 := THINKING, 0 := HUNGRY, 0 := EATING), hungry = (\<lambda>_. False)(0 := False)\<rparr>"
    by (simp add: served_def set_state_def SymposiumTable_init_def left_of_def right_of_def)
  have 1: "sym_step 2 1 sym_start (?p1, ?s1)"
    unfolding sym_start_def by (rule sym_stepI [of 0]) (simp_all add: SymposiumTable_philosopher_def SymposiumTable_init_def)
  have 2: "sym_step 2 1 (?p1, ?s1) (?p2, ?s2)"
    by (rule sym_stepI [of 0]) (simp_all add: SymposiumTable_philosopher_def wait_loop_def trytoeat_eq s, simp add: SymposiumTable_init_def)
  have 3: "sym_step 2 1 (?p2, ?s2) (?p3, ?s3)"
    by (rule sym_stepI [of 1]) (simp_all add: SymposiumTable_philosopher_def s)
  have 4: "sym_step 2 1 (?p3, ?s3) (example_phils, example_table)"
    unfolding s
    by (rule sym_stepI [of 1]) (simp_all add: SymposiumTable_philosopher_def wait_loop_def trytoeat_eq set_state_def served_def left_of_def right_of_def
      example_phils_def example_table_def)
  have "(sym_step 2 1 ^^ Suc (Suc (Suc (Suc 0)))) sym_start (example_phils, example_table)"
    using 1 2 3 4 by (auto intro!: relcomppI)
  then show ?thesis by (simp add: eval_nat_numeral)
qed

section \<open>The properties of the symposium\<close>

text \<open>
  C10: no two neighbours eat at the same time, at every table, in every interleaving; a philosopher that
  sleeps is hungry and has a neighbour that eats; and one that does not sleep goes on: the assertion after the wait
  holds, and at a table of at most \<open>2 ^ 30\<close> philosophers no sum of indices overflows.
\<close>

theorem neighbours_never_eat:
  assumes "(sym_step n b)\<^sup>*\<^sup>* sym_start (pcs, S)" and "i < n" "1 < n"
  shows "\<not> (state S i = EATING \<and> state S (left_of i n) = EATING) \<and>
    (hungry S i \<longrightarrow> state S i = HUNGRY \<and> (state S (left_of i n) = EATING \<or> state S (right_of i n) = EATING)) \<and>
    (hungry S i \<or> (\<exists>pc' S'. SymposiumTable_philosopher n b i (pcs i) S = Inr (pc', S')) \<or>
      2 ^ 30 < n \<and> SymposiumTable_philosopher n b i (pcs i) S = Inl Int_overflow)"
proof -
  have "sym_inv n (pcs, S)" using sym_steps_inv [OF assms(1) sym_start_inv] .
  then have I: "pc_ok (pcs i) (state S i) (hungry S i)" "spaced n (state S)" "fed_except {} n (state S)"
    using assms(2) by (simp_all add: sym_inv_def)
  have "left_of i n \<noteq> i"
  proof (cases "Suc i = n")
    case True
    with assms(3) show ?thesis by (simp add: left_of_def)
  next
    case False
    with assms(2) show ?thesis by (simp add: left_of_def)
  qed
  then have "\<not> (state S i = EATING \<and> state S (left_of i n) = EATING)" using spacedD [OF I(2) assms(2)] by blast
  moreover have h: "hungry S i \<Longrightarrow> state S i = HUNGRY" using I(1) by (auto simp: pc_ok_def split: phil_pc.splits)
  moreover have "hungry S i \<Longrightarrow> state S (left_of i n) = EATING \<or> state S (right_of i n) = EATING"
    using h I(3) assms(2) by (simp add: fed_except_def)
  ultimately show ?thesis using philosopher_cases [OF I(1) _ assms(2)] by blast
qed

theorem neighbours_never_eat_witness:
  "hungry example_table 1 \<and> state example_table (left_of 1 2) = EATING \<and> \<not> (state example_table 1 = EATING \<and> state example_table (left_of 1 2) = EATING)"
proof -
  have "(sym_step 2 1)\<^sup>*\<^sup>* sym_start (example_phils, example_table)" using example_run by (rule relpowp_imp_rtranclp)
  from neighbours_never_eat [OF this, of 1] show ?thesis by (simp add: example_table_def left_of_def right_of_def)
qed

text \<open>
  Every symposium ends. No run has more than \<open>n * (3 * b + 2)\<close> steps, and as long as a
  philosopher of at most \<open>2 ^ 30\<close> is there some philosopher can take a step, so that all of them leave after their bites:
  no deadlock, and no lost wake-up.
\<close>

theorem symposium_ends:
  assumes "(sym_step n b ^^ m) sym_start (pcs, S)"
  shows "m \<le> n * (3 * b + 2) \<and> ((\<forall>i < n. pcs i = Left) \<or> (\<exists>s'. sym_step n b (pcs, S) s') \<or> 2 ^ 30 < n)"
proof -
  have b: "\<forall>i < n. bites_ok b (fst sym_start i)" by (simp add: sym_start_def bites_ok_def)
  note R = sym_run_rank [OF assms sym_start_inv b]
  have "total_rank n b (fst sym_start) = n * (3 * b + 2)" by (simp add: total_rank_def sym_start_def rank_def)
  with R have "m \<le> n * (3 * b + 2)" by simp
  moreover have "(\<forall>i < n. pcs i = Left) \<or> (\<exists>s'. sym_step n b (pcs, S) s') \<or> 2 ^ 30 < n"
    using R sym_progress by (metis fst_conv not_le_imp_less)
  ultimately show ?thesis by blast
qed

theorem symposium_ends_witness: "(4::nat) \<le> 2 * (3 * 1 + 2) \<and> (\<exists>s'. sym_step 2 1 (example_phils, example_table) s')"
proof -
  have "\<not> (\<forall>i < 2. example_phils i = Left)" by (auto simp: example_phils_def)
  with symposium_ends [OF example_run] show ?thesis by auto
qed

end
