(* ===== verification/Programs.thy ===== *)
theory Programs
  imports Prelude "HOL-Library.Word"
begin

text \<open>
  The programs of \<^verbatim>\<open>src/tinyos_shell.c\<close>: the table of commands and its search, the filters that copy
  their standard input to their standard output, and the towers of Hanoi. A program is a function
  from the bytes that it reads to the bytes that it writes; a string of the shell is a \<^typ>\<open>string\<close>
  without its terminating zero.
\<close>

section \<open>Numbers and characters\<close>

definition bytes :: "string \<Rightarrow> byte list" where "bytes s = map of_char s"

definition isspace :: "char \<Rightarrow> bool" where
  "isspace c \<longleftrightarrow> (let n = of_char c :: nat in n = 32 \<or> 9 \<le> n \<and> n \<le> 13)"

fun atoi_digits :: "string \<Rightarrow> nat \<Rightarrow> nat" where
  "atoi_digits [] v = v"
| "atoi_digits (c # cs) v =
     (let n = of_char c :: nat in if 48 \<le> n \<and> n \<le> 57 then atoi_digits cs (10 * v + (n - 48)) else v)"

text \<open>\<^verbatim>\<open>atoi\<close> is \<^verbatim>\<open>strtol\<close>, which stops at the bounds of a \<^verbatim>\<open>long\<close>, cut to an \<^verbatim>\<open>int\<close>.\<close>

definition atoi :: "string \<Rightarrow> int" where
  "atoi s =
     (let s1 = dropWhile isspace s;
          v = (if s1 \<noteq> [] \<and> hd s1 = CHR ''-'' then - int (atoi_digits (tl s1) 0)
               else if s1 \<noteq> [] \<and> hd s1 = CHR ''+'' then int (atoi_digits (tl s1) 0)
               else int (atoi_digits s1 0))
      in sint (of_int (max (- (2 ^ 63)) (min (2 ^ 63 - 1) v)) :: u32))"

text \<open>The decimal digits of a number, and the field widths of \<^verbatim>\<open>printf\<close>.\<close>

fun decimal :: "nat \<Rightarrow> string" where
  "decimal n = (if n < 10 then [char_of (48 + n)] else decimal (n div 10) @ [char_of (48 + n mod 10)])"

declare decimal.simps [simp del]

definition pad_left :: "nat \<Rightarrow> string \<Rightarrow> string" where
  "pad_left w s = replicate (w - length s) CHR '' '' @ s"

section \<open>The table of commands\<close>

datatype program =
    HelpMessage | ListPrograms | SystemInfo | RunTerm | Shell | Repeat | Fibonacci | Capitalize | LowerCase
  | WordCount | LineEnum | More | Symposium_proc | Symposium_thr | Hanoi | RemoteServer | RemoteClient | Echo | Time

record command =
  cmdname :: string
  prog :: program
  nargs :: nat
  help_text :: string

definition COMMANDS :: "command list" where
  "COMMANDS =
     [\<lparr>cmdname = ''help'', prog = HelpMessage, nargs = 0, help_text = ''A help message.''\<rparr>,
      \<lparr>cmdname = ''ls'', prog = ListPrograms, nargs = 0, help_text = ''List available programs programs.''\<rparr>,
      \<lparr>cmdname = ''sysinfo'', prog = SystemInfo, nargs = 0, help_text = ''Print some basic info about the current system.''\<rparr>,
      \<lparr>cmdname = ''runterm'', prog = RunTerm, nargs = 2,
        help_text = ''runterm <term> <prog>  <args...> : execute '' @ [char_of (39 :: nat)] @ ''<prog> <args...>'' @ [char_of (39 :: nat)] @ '' on terminal <term>.''\<rparr>,
      \<lparr>cmdname = ''sh'', prog = Shell, nargs = 0, help_text = ''Run a shell.''\<rparr>,
      \<lparr>cmdname = ''repeat'', prog = Repeat, nargs = 2,
        help_text = ''repeat <n> <prog> <args...>: execute '' @ [char_of (39 :: nat)] @ ''<prog> <args...>'' @ [char_of (39 :: nat)] @ '' <n> times.''\<rparr>,
      \<lparr>cmdname = ''fibo'', prog = Fibonacci, nargs = 1, help_text = ''Compute a fibonacci number.''\<rparr>,
      \<lparr>cmdname = ''cap'', prog = Capitalize, nargs = 0, help_text = ''Copy stdin to stdout, capitalizing all letters''\<rparr>,
      \<lparr>cmdname = ''lcase'', prog = LowerCase, nargs = 0, help_text = ''Copy stdin to stdout, lower-casing all letters''\<rparr>,
      \<lparr>cmdname = ''wc'', prog = WordCount, nargs = 0, help_text = ''Count and print lines, words and chars of stdin''\<rparr>,
      \<lparr>cmdname = ''lenum'', prog = LineEnum, nargs = 0, help_text = ''Copy stdin to stdout, adding line numbers''\<rparr>,
      \<lparr>cmdname = ''more'', prog = More, nargs = 0, help_text = ''more [<n>] (default: <n>=20). Read the input <n> lines at a time.''\<rparr>,
      \<lparr>cmdname = ''symposium'', prog = Symposium_proc, nargs = 2,
        help_text = ''Dining Philosophers(processes): symposium  <philosophers> <bites>''\<rparr>,
      \<lparr>cmdname = ''symp_thr'', prog = Symposium_thr, nargs = 2,
        help_text = ''Dining Philosophers(threads): symp_thr  <philosophers> <bites>''\<rparr>,
      \<lparr>cmdname = ''hanoi'', prog = Hanoi, nargs = 1, help_text = ''The towers of Hanoi.''\<rparr>,
      \<lparr>cmdname = ''rserver'', prog = RemoteServer, nargs = 0, help_text = ''A server for remote execution.''\<rparr>,
      \<lparr>cmdname = ''rcli'', prog = RemoteClient, nargs = 1, help_text = ''Remote client: rcli <cmd> [<args...>].''\<rparr>,
      \<lparr>cmdname = ''echo'', prog = Echo, nargs = 0, help_text = ''echo [<args...>], send the <args...> to stdout''\<rparr>,
      \<lparr>cmdname = ''time'', prog = Time, nargs = 0, help_text = ''time <cmd...>, time the <cmd...>''\<rparr>]"

text \<open>
  The table ends with an entry whose name is null. \<^verbatim>\<open>c++\<close> in the condition of \<^verbatim>\<open>programs\<close> also steps over
  this entry.
\<close>

fun programs_from :: "command list \<Rightarrow> int \<Rightarrow> int" where
  "programs_from [] c = c + 1"
| "programs_from (x # xs) c = programs_from xs (c + 1)"

definition programs :: int where "programs = programs_from COMMANDS 0"

fun getprog_from :: "command list \<Rightarrow> int \<Rightarrow> string \<Rightarrow> int" where
  "getprog_from [] c name = -1"
| "getprog_from (x # xs) c name = (if cmdname x = name then c else getprog_from xs (c + 1) name)"

definition getprog_byname :: "string \<Rightarrow> int" where
  "getprog_byname name = getprog_from COMMANDS 0 name"

lemma getprog_from_cases:
  "getprog_from cs i name = -1 \<and> name \<notin> cmdname ` set cs \<or>
   (\<exists>j. j < length cs \<and> getprog_from cs i name = i + int j \<and> cmdname (cs ! j) = name \<and> (\<forall>l < j. cmdname (cs ! l) \<noteq> name))"
proof (induction cs arbitrary: i)
  case Nil
  then show ?case by simp
next
  case (Cons x xs)
  show ?case
  proof (cases "cmdname x = name")
    case True
    then show ?thesis by (intro disjI2 exI [of _ 0]) simp
  next
    case False
    from Cons.IH [of "i + 1"] consider
        "getprog_from xs (i + 1) name = -1" "name \<notin> cmdname ` set xs"
      | j where "j < length xs" "getprog_from xs (i + 1) name = i + 1 + int j" "cmdname (xs ! j) = name"
          "\<forall>l < j. cmdname (xs ! l) \<noteq> name" by blast
    then show ?thesis
    proof cases
      case 1
      with False show ?thesis by auto
    next
      case (2 j)
      have "\<forall>l < Suc j. cmdname ((x # xs) ! l) \<noteq> name"
        using 2(4) False by (auto simp: less_Suc_eq_0_disj)
      with 2 False show ?thesis by (intro disjI2 exI [of _ "Suc j"]) simp
    qed
  qed
qed

section \<open>The filters\<close>

text \<open>
  The loop of a filter is \<^verbatim>\<open>while((c=fgetc(fin))!=EOF)\<close>. The variable has type \<^verbatim>\<open>char\<close>, which is signed, so
  that it is equal to \<^verbatim>\<open>EOF\<close>, which is -1, at the end of the input, and also after the byte 255.
\<close>

definition is_EOF :: "byte \<Rightarrow> bool" where "is_EOF c \<longleftrightarrow> sint c = -1"

definition newline :: byte where "newline = 10"

definition isblank :: "byte \<Rightarrow> bool" where "isblank c \<longleftrightarrow> c = 32 \<or> c = 9"

definition toupper :: "byte \<Rightarrow> byte" where
  "toupper c = (if 97 \<le> c \<and> c \<le> 122 then c - 32 else c)"

definition tolower :: "byte \<Rightarrow> byte" where
  "tolower c = (if 65 \<le> c \<and> c \<le> 90 then c + 32 else c)"

fun Capitalize_loop :: "byte list \<Rightarrow> byte list" where
  "Capitalize_loop [] = []"
| "Capitalize_loop (c # cs) = (if is_EOF c then [] else toupper c # Capitalize_loop cs)"

fun LowerCase_loop :: "byte list \<Rightarrow> byte list" where
  "LowerCase_loop [] = []"
| "LowerCase_loop (c # cs) = (if is_EOF c then [] else tolower c # LowerCase_loop cs)"

definition line_label :: "u64 \<Rightarrow> byte list" where
  "line_label n = bytes (pad_left 6 (decimal (unat n)) @ '': '')"

fun LineEnum_loop :: "bool \<Rightarrow> u64 \<Rightarrow> byte list \<Rightarrow> byte list" where
  "LineEnum_loop atend count [] = []"
| "LineEnum_loop atend count (c # cs) =
     (if is_EOF c then []
      else (let count' = (if atend then count + 1 else count);
                atend' = (if c = newline then True else if atend then False else atend)
            in (if atend then line_label count' else []) @ c # LineEnum_loop atend' count' cs))"

definition LineEnum_out :: "byte list \<Rightarrow> byte list" where
  "LineEnum_out inp = LineEnum_loop True 0 inp"

text \<open>
  What \<^verbatim>\<open>More\<close> reads from the keyboard after a prompt is not used. The remainder is taken in \<^verbatim>\<open>size_t\<close>.
\<close>

fun More_loop :: "u64 \<Rightarrow> bool \<Rightarrow> u64 \<Rightarrow> byte list \<Rightarrow> byte list res" where
  "More_loop page atend count [] = Inr []"
| "More_loop page atend count (c # cs) =
     (if is_EOF c then Inr []
      else if atend \<and> page = 0 then Inl Div_by_zero
      else (let count' = (if atend then count + 1 else count);
                atend' = (if c = newline then True else if atend then False else atend);
                prompt = (if atend \<and> count' mod page = 0 then bytes ''press enter to continue:'' else [])
            in bindE (More_loop page atend' count' cs) (\<lambda>out. Inr (prompt @ c # out))))"

definition More_out :: "string list \<Rightarrow> byte list \<Rightarrow> byte list res" where
  "More_out argv inp =
     (let page = (if length argv \<ge> 2 then atoi (argv ! 1) else 25) in More_loop (of_int page) True 0 inp)"

text \<open>\<open>WordCount_loop wspace (nline, nword, nchar) input\<close>\<close>

fun WordCount_loop :: "bool \<Rightarrow> u64 \<times> u64 \<times> u64 \<Rightarrow> byte list \<Rightarrow> u64 \<times> u64 \<times> u64" where
  "WordCount_loop wspace n [] = n"
| "WordCount_loop wspace (nline, nword, nchar) (c # cs) =
     (if is_EOF c then (nline, nword, nchar)
      else (let start = wspace \<and> \<not> isblank c;
                w1 = (if start then False else wspace);
                w2 = (if c = newline then True else w1);
                w3 = (if isblank c then True else w2)
            in WordCount_loop w3 (if c = newline then nline + 1 else nline, if start then nword + 1 else nword, nchar + 1) cs))"

definition WordCount_result :: "byte list \<Rightarrow> u64 \<times> u64 \<times> u64" where
  "WordCount_result inp = WordCount_loop True (0, 0, 0) inp"

section \<open>Echo and the towers of Hanoi\<close>

text \<open>\<open>argv ! 1\<close> is what the code prints, whatever \<open>i\<close> is.\<close>

fun Echo_loop :: "nat \<Rightarrow> nat \<Rightarrow> string list \<Rightarrow> string" where
  "Echo_loop 0 i argv = [char_of (10 :: nat)]"
| "Echo_loop (Suc n) i argv = (if i > 1 then '' '' else []) @ argv ! 1 @ Echo_loop n (Suc i) argv"

definition Echo_out :: "string list \<Rightarrow> string" where
  "Echo_out argv = Echo_loop (length argv - 1) 1 argv"

text \<open>The moves that \<^verbatim>\<open>hanoi\<close> prints, as pairs of tiles.\<close>

fun hanoi :: "nat \<Rightarrow> nat \<Rightarrow> nat \<Rightarrow> nat \<Rightarrow> (nat \<times> nat) list" where
  "hanoi n a b c = (if n = 0 then [] else hanoi (n - 1) a c b @ [(a, b)] @ hanoi (n - 1) c b a)"

declare hanoi.simps [simp del]

text \<open>\<^verbatim>\<open>Hanoi\<close>: the exit value, and the moves.\<close>

definition Hanoi_run :: "string list \<Rightarrow> int \<times> (nat \<times> nat) list" where
  "Hanoi_run argv =
     (if length argv \<le> 1 then (-1, [])
      else (let n = atoi (argv ! 1) in
        if n < 1 \<or> n > 15 then (n, []) else (0, hanoi (nat n) 1 2 3)))"

section \<open>What the filters compute\<close>

lemma is_EOF_iff: "is_EOF c \<longleftrightarrow> c = 255"
proof -
  have "is_EOF c \<longleftrightarrow> sint c = sint (- 1 :: byte)" by (simp add: is_EOF_def)
  also have "\<dots> \<longleftrightarrow> c = - 1" by (auto intro: signed_word_eqI)
  moreover have "(255 :: byte) = - 1" by (simp add: eq_neg_iff_add_eq_0)
  ultimately show ?thesis by metis
qed

lemma Capitalize_stops: "255 \<notin> set xs \<Longrightarrow> Capitalize_loop (xs @ 255 # ys) = map toupper xs"
  and LowerCase_stops: "255 \<notin> set xs \<Longrightarrow> LowerCase_loop (xs @ 255 # ys) = map tolower xs"
  and LineEnum_stops: "255 \<notin> set xs \<Longrightarrow> LineEnum_loop e n (xs @ 255 # ys) = LineEnum_loop e n xs"
  and More_stops: "255 \<notin> set xs \<Longrightarrow> More_loop page e n (xs @ 255 # ys) = More_loop page e n xs"
  by (induction xs arbitrary: e n) (simp_all add: is_EOF_iff Let_def)

lemma WordCount_stops: "255 \<notin> set xs \<Longrightarrow> WordCount_loop w (l, n, m) (xs @ 255 # ys) = WordCount_loop w (l, n, m) xs"
  by (induction xs arbitrary: w l n m) (simp_all add: is_EOF_iff Let_def)

lemma Capitalize_all: "255 \<notin> set xs \<Longrightarrow> Capitalize_loop xs = map toupper xs"
  and LowerCase_all: "255 \<notin> set xs \<Longrightarrow> LowerCase_loop xs = map tolower xs"
  by (induction xs) (simp_all add: is_EOF_iff)

text \<open>The lines of a text, each with its newline; the last one may have none.\<close>

fun lines_of :: "byte list \<Rightarrow> byte list list" where
  "lines_of [] = []"
| "lines_of (c # cs) =
     (if c = newline then [c] # lines_of cs
      else (case lines_of cs of [] \<Rightarrow> [[c]] | l # ls \<Rightarrow> (c # l) # ls))"

lemma concat_lines_of [simp]: "concat (lines_of xs) = xs"
  by (induction xs) (auto split: list.split)

fun before_lines :: "(nat \<Rightarrow> byte list) \<Rightarrow> nat \<Rightarrow> byte list list \<Rightarrow> byte list" where
  "before_lines f i [] = []"
| "before_lines f i (l # ls) = f i @ l @ before_lines f (Suc i) ls"

lemma LineEnum_loop_lines:
  assumes "255 \<notin> set xs"
  defines "f \<equiv> \<lambda>i. line_label (of_nat i)"
  shows "LineEnum_loop True (of_nat i) xs = before_lines f (Suc i) (lines_of xs)"
    and "LineEnum_loop False (of_nat i) xs = (case lines_of xs of [] \<Rightarrow> [] | l # ls \<Rightarrow> l @ before_lines f (Suc i) ls)"
  using assms(1)
proof (induction xs arbitrary: i)
  case (Cons c cs)
  { case 1
    with Cons.IH(1) [of "Suc i"] Cons.IH(2) [of "Suc i"] show ?case
      by (simp add: is_EOF_iff f_def add.commute split: list.split) }
  { case 2
    with Cons.IH(1) [of i] Cons.IH(2) [of i] show ?case by (simp add: is_EOF_iff f_def split: list.split) }
qed simp_all

lemma More_loop_lines:
  assumes "255 \<notin> set xs" "page \<noteq> 0"
  defines "f \<equiv> \<lambda>i. if (of_nat i :: u64) mod page = 0 then bytes ''press enter to continue:'' else []"
  shows "More_loop page True (of_nat i) xs = Inr (before_lines f (Suc i) (lines_of xs))"
    and "More_loop page False (of_nat i) xs =
      Inr (case lines_of xs of [] \<Rightarrow> [] | l # ls \<Rightarrow> l @ before_lines f (Suc i) ls)"
  using assms(1)
proof (induction xs arbitrary: i)
  case (Cons c cs)
  { case 1
    with Cons.IH(1) [of "Suc i"] Cons.IH(2) [of "Suc i"] assms(2) show ?case
      by (simp add: is_EOF_iff f_def add.commute split: list.split) }
  { case 2
    with Cons.IH(1) [of i] Cons.IH(2) [of i] show ?case by (simp add: is_EOF_iff f_def split: list.split) }
qed simp_all

text \<open>The positions where \<^verbatim>\<open>WordCount\<close> counts a word.\<close>

definition word_starts :: "bool \<Rightarrow> byte list \<Rightarrow> nat set" where
  "word_starts w xs =
     {i. i < length xs \<and> \<not> isblank (xs ! i) \<and> (if i = 0 then w else isblank (xs ! (i - 1)) \<or> xs ! (i - 1) = newline)}"

lemma finite_word_starts [simp]: "finite (word_starts w xs)"
  by (rule finite_subset [of _ "{..<length xs}"]) (auto simp: word_starts_def)

lemma card_word_starts_Cons:
  "card (word_starts w (c # cs)) =
     (if w \<and> \<not> isblank c then 1 else 0) + card (word_starts (isblank c \<or> c = newline) cs)"
proof -
  have "word_starts w (c # cs) = (if w \<and> \<not> isblank c then {0} else {}) \<union> Suc ` word_starts (isblank c \<or> c = newline) cs"
  proof (rule set_eqI)
    fix i
    show "i \<in> word_starts w (c # cs) \<longleftrightarrow>
        i \<in> (if w \<and> \<not> isblank c then {0} else {}) \<union> Suc ` word_starts (isblank c \<or> c = newline) cs"
    proof (cases i)
      case (Suc j)
      then show ?thesis by (cases j) (auto simp: word_starts_def)
    qed (auto simp: word_starts_def)
  qed
  moreover have "card (Suc ` word_starts (isblank c \<or> c = newline) cs) = card (word_starts (isblank c \<or> c = newline) cs)"
    by (rule card_image) simp
  ultimately show ?thesis by (auto simp: card_insert_if)
qed

lemma WordCount_loop_eq:
  "255 \<notin> set xs \<Longrightarrow> WordCount_loop w (l, n, m) xs =
     (l + of_nat (count_list xs newline), n + of_nat (card (word_starts w xs)), m + of_nat (length xs))"
proof (induction xs arbitrary: w l n m)
  case Nil
  then show ?case by (simp add: word_starts_def)
next
  case (Cons c cs)
  let ?w = "isblank c \<or> c = newline"
  have "WordCount_loop w (l, n, m) (c # cs) =
      WordCount_loop ?w (if c = newline then l + 1 else l, if w \<and> \<not> isblank c then n + 1 else n, m + 1) cs"
    using Cons.prems by (cases w; cases "isblank c"; cases "c = newline") (simp_all add: is_EOF_iff)
  also have "\<dots> = (l + of_nat (count_list (c # cs) newline), n + of_nat (card (word_starts w (c # cs))), m + of_nat (length (c # cs)))"
    using Cons by (simp add: card_word_starts_Cons add.commute add.left_commute)
  finally show ?case .
qed

section \<open>The towers of Hanoi\<close>

text \<open>Towers are lists of disks with the top first; a disk must not be put on a smaller one.\<close>

definition hanoi_move :: "nat \<times> nat \<Rightarrow> (nat \<Rightarrow> nat list) \<Rightarrow> (nat \<Rightarrow> nat list) option" where
  "hanoi_move = (\<lambda>(a, b) t. case t a of
     [] \<Rightarrow> None
   | d # ds \<Rightarrow> if t b = [] \<or> d < hd (t b) then Some (t(a := ds, b := d # t b)) else None)"

fun hanoi_moves :: "(nat \<times> nat) list \<Rightarrow> (nat \<Rightarrow> nat list) \<Rightarrow> (nat \<Rightarrow> nat list) option" where
  "hanoi_moves [] t = Some t"
| "hanoi_moves (m # ms) t = Option.bind (hanoi_move m t) (hanoi_moves ms)"

lemma hanoi_moves_append: "hanoi_moves (xs @ ys) t = Option.bind (hanoi_moves xs t) (hanoi_moves ys)"
proof (induction xs arbitrary: t)
  case (Cons m xs)
  then show ?case by (cases "hanoi_move m t") simp_all
qed simp

lemma hanoi_legal:
  assumes "distinct [a, b, c]" and "t a = [1..<Suc n] @ xs" and "\<forall>d \<in> set xs \<union> set (t b) \<union> set (t c). n < d"
  shows "hanoi_moves (hanoi n a b c) t = Some (t(a := xs, b := [1..<Suc n] @ t b))"
  using assms
proof (induction n arbitrary: a b c t xs)
  case 0
  then have "t(a := xs) = t" "b \<noteq> a" by auto
  then show ?case by (simp add: hanoi.simps fun_upd_idem)
next
  case (Suc n)
  have up: "[1..<Suc (Suc n)] = [1..<Suc n] @ [Suc n]" by simp
  let ?t1 = "t(a := Suc n # xs, c := [1..<Suc n] @ t c)"
  let ?t2 = "?t1(a := xs, b := Suc n # t b)"
  have d: "a \<noteq> b" "a \<noteq> c" "b \<noteq> c" using Suc.prems(1) by auto
  have big: "\<forall>d \<in> set xs \<union> set (t b) \<union> set (t c). Suc n < d" by (rule Suc.prems(3))
  have hs: "hanoi (Suc n) a b c = hanoi n a c b @ (a, b) # hanoi n c b a" by (simp add: hanoi.simps [of "Suc n"])
  have 1: "hanoi_moves (hanoi n a c b) t = Some ?t1"
  proof (rule Suc.IH)
    show "distinct [a, c, b]" using d by simp
    show "t a = [1..<Suc n] @ Suc n # xs" using Suc.prems(2) unfolding up by (simp del: upt_Suc)
    show "\<forall>e \<in> set (Suc n # xs) \<union> set (t c) \<union> set (t b). n < e" using big by (auto intro: Suc_lessD)
  qed
  have "t b = [] \<or> Suc n < hd (t b)" using big by (cases "t b") auto
  then have 2: "hanoi_move (a, b) ?t1 = Some ?t2" using d by (simp add: hanoi_move_def)
  have 3: "hanoi_moves (hanoi n c b a) ?t2 = Some (?t2(c := t c, b := [1..<Suc n] @ ?t2 b))"
  proof (rule Suc.IH)
    show "distinct [c, b, a]" using d by simp
    show "?t2 c = [1..<Suc n] @ t c" using d by (simp del: upt_Suc)
    show "\<forall>e \<in> set (t c) \<union> set (?t2 b) \<union> set (?t2 a). n < e" using big d by (auto intro: Suc_lessD)
  qed
  have "hanoi_moves (hanoi (Suc n) a b c) t = Some (?t2(c := t c, b := [1..<Suc n] @ ?t2 b))"
    by (simp only: hs hanoi_moves_append hanoi_moves.simps 1 2 3 Option.bind.bind_lunit)
  also have "?t2(c := t c, b := [1..<Suc n] @ ?t2 b) = t(a := xs, b := [1..<Suc (Suc n)] @ t b)"
    unfolding up using d by (auto simp del: upt_Suc)
  finally show ?case .
qed

lemma length_hanoi: "length (hanoi n a b c) = 2 ^ n - 1"
proof (induction n arbitrary: a b c)
  case (Suc n)
  have "1 \<le> (2 :: nat) ^ n" by simp
  then show ?case by (subst hanoi.simps) (simp add: Suc)
qed (simp add: hanoi.simps)

lemma Echo_loop_eq:
  "1 < i \<Longrightarrow> Echo_loop n i argv = concat (replicate n ('' '' @ argv ! 1)) @ [char_of (10 :: nat)]"
  by (induction n arbitrary: i) simp_all

section \<open>Properties of the programs\<close>

text \<open>
  The search in the table of commands gives the first entry with the name, and -1 exactly for a
  name that no entry has.
\<close>

theorem getprog_byname_correct:
  "getprog_byname name = -1 \<and> name \<notin> cmdname ` set COMMANDS \<or>
   (\<exists>j. j < length COMMANDS \<and> getprog_byname name = int j \<and> cmdname (COMMANDS ! j) = name \<and>
        (\<forall>l < j. cmdname (COMMANDS ! l) \<noteq> name))"
  using getprog_from_cases [of COMMANDS 0 name] by (simp add: getprog_byname_def)

text \<open>
  The filters \<^verbatim>\<open>cap\<close>, \<^verbatim>\<open>lcase\<close>, \<^verbatim>\<open>lenum\<close> and \<^verbatim>\<open>wc\<close> do to a text without the byte 255 what they are
  for, and lose everything from the first byte 255 on: \<^verbatim>\<open>lenum\<close> writes a number before each line, and
  \<^verbatim>\<open>wc\<close> counts newlines, bytes, and the positions where a word starts; a newline after a
  separator counts as the start of a word.
\<close>

theorem filters_correct:
  assumes "255 \<notin> set xs" and "inp = xs \<or> inp = xs @ 255 # ys"
  shows "Capitalize_loop inp = map toupper xs \<and> LowerCase_loop inp = map tolower xs \<and>
    LineEnum_out inp = before_lines (\<lambda>i. line_label (of_nat i)) 1 (lines_of xs) \<and>
    WordCount_result inp = (of_nat (count_list xs newline), of_nat (card (word_starts True xs)), of_nat (length xs))"
proof -
  have "LineEnum_out inp = LineEnum_loop True 0 xs" "WordCount_result inp = WordCount_loop True (0, 0, 0) xs"
      "Capitalize_loop inp = map toupper xs" "LowerCase_loop inp = map tolower xs"
    using assms by (auto simp: LineEnum_out_def WordCount_result_def LineEnum_stops WordCount_stops
        Capitalize_stops LowerCase_stops Capitalize_all LowerCase_all)
  with LineEnum_loop_lines(1) [OF assms(1), of 0] WordCount_loop_eq [OF assms(1), of True 0 0 0]
  show ?thesis by simp
qed

theorem filters_correct_witness:
  "Capitalize_loop [97, 255, 98] = map toupper [97] \<and> LineEnum_out [97, 255, 98] = before_lines (\<lambda>i. line_label (of_nat i)) 1 (lines_of [97])"
  using filters_correct [of "[97]" "[97, 255, 98]" "[98]"] by simp

text \<open>
  \<^verbatim>\<open>more n\<close> writes a prompt before each \<open>n\<close>-th line and leaves the text as it is; with a page of 0
  lines and any input it stops with a division by zero.
\<close>

theorem more_pages:
  assumes "255 \<notin> set xs" and "page = (if length argv \<ge> 2 then of_int (atoi (argv ! 1)) else 25 :: u64)"
  shows "More_out argv xs =
    (if xs \<noteq> [] \<and> page = 0 then Inl Div_by_zero
     else Inr (before_lines (\<lambda>i. if (of_nat i :: u64) mod page = 0 then bytes ''press enter to continue:'' else []) 1 (lines_of xs)))"
proof -
  have "More_out argv xs = More_loop page True 0 xs" by (simp add: More_out_def assms(2))
  moreover have "xs \<noteq> [] \<Longrightarrow> More_loop 0 True 0 xs = Inl Div_by_zero"
    using assms(1) by (cases xs) (simp_all add: is_EOF_iff)
  moreover have "page \<noteq> 0 \<Longrightarrow> More_loop page True 0 xs =
      Inr (before_lines (\<lambda>i. if (of_nat i :: u64) mod page = 0 then bytes ''press enter to continue:'' else []) 1 (lines_of xs))"
    using More_loop_lines(1) [OF assms(1), of page 0] by simp
  ultimately show ?thesis by (cases xs) auto
qed

theorem more_pages_witness:
  "More_out [''more'', ''0''] [97] = Inl Div_by_zero"
proof -
  have "(0 :: u64) = (if length [''more'', ''0''] \<ge> 2 then of_int (atoi ([''more'', ''0''] ! 1)) else 25)"
    by (simp add: atoi_def isspace_def)
  from more_pages [OF _ this, of "[97]"] show ?thesis by simp
qed

text \<open>
  With an argument \<open>n\<close> between 1 and 15, \<^verbatim>\<open>hanoi\<close> prints \<open>2 ^ n - 1\<close> moves, each of which is legal,
  that bring all disks from tile 1 to tile 2. For other arguments there are no moves and the
  exit value is the argument.
\<close>

theorem Hanoi_correct:
  assumes "2 \<le> length argv"
  defines "n \<equiv> atoi (argv ! 1)"
  shows "if 1 \<le> n \<and> n \<le> 15 then
      fst (Hanoi_run argv) = 0 \<and> length (snd (Hanoi_run argv)) = 2 ^ nat n - 1 \<and>
      hanoi_moves (snd (Hanoi_run argv)) ((\<lambda>_. [])(1 := [1..<Suc (nat n)])) = Some ((\<lambda>_. [])(2 := [1..<Suc (nat n)]))
    else Hanoi_run argv = (n, [])"
proof (cases "1 \<le> n \<and> n \<le> 15")
  case True
  then have "Hanoi_run argv = (0, hanoi (nat n) 1 2 3)" using assms(1) by (simp add: Hanoi_run_def Let_def n_def)
  moreover have "hanoi_moves (hanoi (nat n) 1 2 3) ((\<lambda>_. [])(1 := [1..<Suc (nat n)])) =
      Some (((\<lambda>_. [])(1 := [1..<Suc (nat n)]))(1 := [], 2 := [1..<Suc (nat n)] @ []))"
    using hanoi_legal [of 1 2 3 "(\<lambda>_. [])(1 := [1..<Suc (nat n)])" "nat n" "[]"] by (simp del: upt_Suc)
  moreover have "(\<lambda>_. [])(1 := [], 2 := ds) = (\<lambda>_ :: nat. [])(2 := ds)" for ds :: "nat list" by auto
  ultimately show ?thesis using True by (simp add: length_hanoi del: upt_Suc)
qed (use assms in \<open>auto simp: Hanoi_run_def Let_def\<close>)

theorem Hanoi_correct_witness:
  "length (snd (Hanoi_run [''hanoi'', ''3''])) = 7"
proof -
  have "atoi ([''hanoi'', ''3''] ! 1) = 3" by (simp add: atoi_def isspace_def)
  with Hanoi_correct [of "[''hanoi'', ''3'']"] show ?thesis by simp
qed

text \<open>
  \<^verbatim>\<open>echo\<close> writes its first argument once for each argument that it has, and not the arguments.
\<close>

theorem Echo_repeats_first:
  assumes "argv = cmd # arg # args"
  shows "Echo_out argv = arg @ concat (replicate (length args) ('' '' @ arg)) @ [char_of (10 :: nat)]"
  by (simp add: Echo_out_def assms Echo_loop_eq)

theorem Echo_repeats_first_witness:
  "Echo_out [''echo'', ''a'', ''b''] = ''a a'' @ [char_of (10 :: nat)]"
  using Echo_repeats_first [of "[''echo'', ''a'', ''b'']" "''echo''" "''a''" "[''b'']"] by simp

end
