(* ===== verification/Shell.thy ===== *)
theory Shell
  imports Programs
begin

text \<open>
  How the shell of \<^verbatim>\<open>src/tinyos_shell.c\<close> understands a line: \<^verbatim>\<open>strtok_r\<close> breaks it into words, and
  \<^verbatim>\<open>process_line\<close> splits the words at \<^verbatim>\<open>|\<close> into the fragments of a pipeline, with two arrays that hold
  the length and the start of each fragment, and looks up their programs.
\<close>

section \<open>Breaking up a line\<close>

definition is_sep :: "char \<Rightarrow> bool" where
  "is_sep c \<longleftrightarrow> c = CHR '' '' \<or> c = CHR 0x0A \<or> c = CHR 0x09"

text \<open>
  \<^verbatim>\<open>strtok_r\<close>: the next token, and what is left; the separator that ends the token is overwritten
  with a zero and is not looked at again.
\<close>

definition strtok :: "string \<Rightarrow> (string \<times> string) option" where
  "strtok s = (case dropWhile is_sep s of
     [] \<Rightarrow> None
   | c # cs \<Rightarrow> Some (c # takeWhile (\<lambda>x. \<not> is_sep x) cs, drop 1 (dropWhile (\<lambda>x. \<not> is_sep x) cs)))"

definition ARGN :: nat where "ARGN = 128"

fun break_up :: "nat \<Rightarrow> string \<Rightarrow> string list" where
  "break_up 0 s = []"
| "break_up (Suc n) s = (case strtok s of None \<Rightarrow> [] | Some (t, rest) \<Rightarrow> t # break_up n rest)"

section \<open>The fragments of a pipeline\<close>

text \<open>
  \<open>Vargc\<close> and \<open>Vargv\<close> are arrays of \<^verbatim>\<open>argc\<close> cells without a value at first; a pointer into \<^verbatim>\<open>argv\<close> is an
  offset.
\<close>

record fragments =
  Vargc :: "nat option list"
  Vargv :: "nat option list"
  frag :: nat

definition put :: "nat \<Rightarrow> 'a \<Rightarrow> 'a option list \<Rightarrow> 'a option list res" where
  "put i x xs = (if i < length xs then Inr (xs[i := Some x]) else Inl Out_of_bounds)"

definition fetch :: "nat \<Rightarrow> 'a option list \<Rightarrow> 'a res" where
  "fetch i xs =
     (if i < length xs then (case xs ! i of None \<Rightarrow> Inl Uninitialized | Some x \<Rightarrow> Inr x) else Inl Out_of_bounds)"

definition split_step :: "string list \<Rightarrow> nat \<Rightarrow> fragments \<Rightarrow> fragments res" where
  "split_step argv i s =
     (if argv ! i \<noteq> ''|'' then
        bindE (fetch (frag s) (Vargc s)) (\<lambda>n.
        bindE (put (frag s) (n + 1) (Vargc s)) (\<lambda>vc.
        if n + 1 = 1 then
          bindE (put (frag s) i (Vargv s)) (\<lambda>vv. Inr (s\<lparr>Vargc := vc, Vargv := vv\<rparr>))
        else Inr (s\<lparr>Vargc := vc\<rparr>)))
      else
        bindE (put (frag s + 1) 0 (Vargc s)) (\<lambda>vc. Inr (s\<lparr>Vargc := vc, frag := frag s + 1\<rparr>)))"

fun split_loop :: "nat \<Rightarrow> string list \<Rightarrow> nat \<Rightarrow> fragments \<Rightarrow> fragments res" where
  "split_loop 0 argv i s = Inr s"
| "split_loop (Suc n) argv i s = bindE (split_step argv i s) (split_loop n argv (Suc i))"

definition split_line :: "string list \<Rightarrow> fragments res" where
  "split_line argv =
     (let argc = length argv in
      bindE (put 0 0 (replicate argc None)) (\<lambda>vc.
      bindE (split_loop argc argv 0 \<lparr>Vargc = vc, Vargv = replicate argc None, frag = 0\<rparr>) (\<lambda>s.
      Inr (s\<lparr>frag := frag s + 1\<rparr>))))"

text \<open>
  The check of the fragments: nothing if one is empty or has no program, else for each fragment the
  index of its command and its arguments.
\<close>

fun check_loop :: "nat \<Rightarrow> string list \<Rightarrow> fragments \<Rightarrow> nat \<Rightarrow> (int \<times> string list) list option res" where
  "check_loop 0 argv s i = Inr (Some [])"
| "check_loop (Suc n) argv s i =
     bindE (fetch i (Vargc s)) (\<lambda>ac.
     if ac = 0 then Inr None
     else bindE (fetch i (Vargv s)) (\<lambda>av.
       let c = getprog_byname (argv ! av)
       in if c = -1 then Inr None
          else bindE (check_loop n argv s (Suc i)) (\<lambda>rest.
            Inr (map_option (\<lambda>fs. (c, take ac (drop av argv)) # fs) rest))))"

definition parse_pipeline :: "string list \<Rightarrow> (int \<times> string list) list option res" where
  "parse_pipeline argv = bindE (split_line argv) (\<lambda>s. check_loop (frag s) argv s 0)"

section \<open>A line of the shell\<close>

definition process_builtin :: "string list \<Rightarrow> bool" where
  "process_builtin argv \<longleftrightarrow> argv ! 0 = ''?''"

datatype line_action =
    Skip
  | Leave int
  | Builtin
  | Complain
  | Run "(int \<times> string list) list"

definition Shell_line :: "int \<Rightarrow> string \<Rightarrow> line_action res" where
  "Shell_line exitval cmdline =
     (let argv = break_up (ARGN - 1) cmdline in
      if length argv = 0 then Inr Skip
      else if argv ! 0 = ''exit'' then Inr (Leave (if length argv \<ge> 2 then atoi (argv ! 1) else exitval))
      else if process_builtin argv then Inr Builtin
      else bindE (parse_pipeline argv) (\<lambda>fs. Inr (case fs of None \<Rightarrow> Complain | Some x \<Rightarrow> Run x)))"

section \<open>Reference definitions\<close>

text \<open>The words of a line: the maximal runs of characters that are no separators.\<close>

fun words_from :: "string \<Rightarrow> string \<Rightarrow> string list" where
  "words_from w [] = (if w = [] then [] else [w])"
| "words_from w (c # cs) =
     (if is_sep c then (if w = [] then [] else [w]) @ words_from [] cs else words_from (w @ [c]) cs)"

text \<open>The fragments between the bars.\<close>

fun pieces :: "string list \<Rightarrow> string list list" where
  "pieces [] = [[]]"
| "pieces (x # xs) = (if x = ''|'' then [] # pieces xs else (x # hd (pieces xs)) # tl (pieces xs))"

definition pipeline_spec :: "string list \<Rightarrow> (int \<times> string list) list option" where
  "pipeline_spec argv =
     (if \<forall>f \<in> set (pieces argv). f \<noteq> [] \<and> getprog_byname (hd f) \<noteq> -1
      then Some (map (\<lambda>f. (getprog_byname (hd f), f)) (pieces argv)) else None)"

section \<open>The words of a line\<close>

lemma words_from_word:
  "words_from w s = (if w @ takeWhile (\<lambda>x. \<not> is_sep x) s = [] then words_from [] (drop 1 s)
     else (w @ takeWhile (\<lambda>x. \<not> is_sep x) s) # words_from [] (drop 1 (dropWhile (\<lambda>x. \<not> is_sep x) s)))"
proof (induction s arbitrary: w)
  case (Cons c s)
  show ?case
  proof (cases "is_sep c")
    case False
    with Cons.IH [of "w @ [c]"] show ?thesis by simp
  qed simp
qed simp

lemma words_skip: "words_from [] s = words_from [] (dropWhile is_sep s)"
  by (induction s) simp_all

lemma break_up_words: "break_up n s = take n (words_from [] s)"
proof (induction n arbitrary: s)
  case (Suc n)
  show ?case
  proof (cases "dropWhile is_sep s")
    case Nil
    then have "words_from [] s = []" "strtok s = None" using words_skip [of s] by (simp_all only: strtok_def list.case words_from.simps refl if_True)
    then show ?thesis by simp
  next
    case (Cons c cs)
    then have "\<not> is_sep c" using hd_dropWhile [of is_sep s] by simp
    then show ?thesis
      using Cons by (simp add: strtok_def words_skip [of s] words_from_word [of "[c]"] Suc)
  qed
qed simp

section \<open>The loop that splits\<close>

lemma pieces_not_Nil [simp]: "pieces xs \<noteq> []"
  by (induction xs) simp_all

lemma pieces_bar: "pieces (xs @ [''|'']) = pieces xs @ [[]]"
proof (induction xs)
  case (Cons x xs)
  then show ?case by (cases "pieces xs") simp_all
qed simp

lemma pieces_word: "w \<noteq> ''|'' \<Longrightarrow> pieces (xs @ [w]) = butlast (pieces xs) @ [last (pieces xs) @ [w]]"
proof (induction xs)
  case (Cons x xs)
  then show ?case by (cases "pieces xs"; cases "tl (pieces xs)") auto
qed simp

lemma length_pieces: "length (pieces xs) = Suc (count_list xs ''|'')"
proof (induction xs)
  case (Cons x xs)
  have "length (hd (pieces xs) # tl (pieces xs)) = length (pieces xs)" by (cases "pieces xs") simp_all
  with Cons show ?case by (cases "x = ''|''") simp_all
qed simp

text \<open>What the arrays hold after the first \<open>i\<close> words.\<close>

definition split_inv :: "string list \<Rightarrow> nat \<Rightarrow> fragments \<Rightarrow> bool" where
  "split_inv argv i s \<longleftrightarrow>
     (let fs = pieces (take i argv) in
      length (Vargc s) = length argv \<and> length (Vargv s) = length argv \<and> length fs \<le> length argv \<and>
      Suc (frag s) = length fs \<and>
      (\<forall>j < length fs. Vargc s ! j = Some (length (fs ! j)) \<and>
        (fs ! j \<noteq> [] \<longrightarrow> (\<exists>a. Vargv s ! j = Some a \<and> take (length (fs ! j)) (drop a argv) = fs ! j \<and>
           (j = frag s \<longrightarrow> a + length (fs ! j) = i)))))"

lemma split_step_ok:
  assumes inv: "split_inv argv i s" and i: "i < length argv" and n: "count_list (take (Suc i) argv) ''|'' < length argv"
  shows "\<exists>s'. split_step argv i s = Inr s' \<and> split_inv argv (Suc i) s'"
proof -
  obtain gs l where fs: "pieces (take i argv) = gs @ [l]" by (cases "pieces (take i argv)" rule: rev_cases) simp_all
  note D = inv [unfolded split_inv_def Let_def fs]
  have I: "length (Vargc s) = length argv" "length (Vargv s) = length argv" "length gs < length argv" "frag s = length gs"
    using D by simp_all
  have A: "Vargc s ! j = Some (length ((gs @ [l]) ! j)) \<and> ((gs @ [l]) ! j \<noteq> [] \<longrightarrow>
      (\<exists>a. Vargv s ! j = Some a \<and> take (length ((gs @ [l]) ! j)) (drop a argv) = (gs @ [l]) ! j \<and>
         (j = frag s \<longrightarrow> a + length ((gs @ [l]) ! j) = i)))" if "j \<le> length gs" for j
    using D that by (metis le_imp_less_Suc length_append_singleton)
  have G: "Vargc s ! j = Some (length (gs ! j)) \<and>
      (gs ! j \<noteq> [] \<longrightarrow> (\<exists>a. Vargv s ! j = Some a \<and> take (length (gs ! j)) (drop a argv) = gs ! j))" if "j < length gs" for j
    using A [of j] that by (auto simp: nth_append)
  have L: "Vargc s ! length gs = Some (length l)"
      "l \<noteq> [] \<Longrightarrow> \<exists>a. Vargv s ! length gs = Some a \<and> take (length l) (drop a argv) = l \<and> a + length l = i"
    using A [of "length gs"] I(4) by simp_all
  have t: "take (Suc i) argv = take i argv @ [argv ! i]" using i by (rule take_Suc_conv_app_nth)
  show ?thesis
  proof (cases "argv ! i = ''|''")
    case True
    have m: "Suc (length gs) < length argv"
      using n length_pieces [of "take (Suc i) argv"] True by (simp add: t pieces_bar fs)
    with True I have "split_step argv i s = Inr (s\<lparr>Vargc := (Vargc s)[Suc (length gs) := Some 0], frag := Suc (length gs)\<rparr>)"
      by (simp add: split_step_def put_def)
    moreover have "split_inv argv (Suc i) (s\<lparr>Vargc := (Vargc s)[Suc (length gs) := Some 0], frag := Suc (length gs)\<rparr>)"
      using m I G L True by (auto simp: split_inv_def t pieces_bar fs nth_append less_Suc_eq nth_list_update)
    ultimately show ?thesis by blast
  next
    case False
    have fs': "pieces (take (Suc i) argv) = gs @ [l @ [argv ! i]]" using False by (simp add: t pieces_word fs)
    let ?vc = "(Vargc s)[length gs := Some (Suc (length l))]"
    show ?thesis
    proof (cases "l = []")
      case True
      have "split_step argv i s = Inr (s\<lparr>Vargc := ?vc, Vargv := (Vargv s)[length gs := Some i]\<rparr>)"
        using False True I L(1) by (simp add: split_step_def put_def fetch_def)
      moreover have "take (Suc 0) (drop i argv) = [argv ! i]" using i by (simp add: Cons_nth_drop_Suc [symmetric])
      then have "split_inv argv (Suc i) (s\<lparr>Vargc := ?vc, Vargv := (Vargv s)[length gs := Some i]\<rparr>)"
        using I G L True by (auto simp: split_inv_def fs' nth_append less_Suc_eq nth_list_update)
      ultimately show ?thesis by blast
    next
      case nonempty: False
      then obtain a where a: "Vargv s ! length gs = Some a" "take (length l) (drop a argv) = l" "a + length l = i"
        using L(2) by blast
      have "split_step argv i s = Inr (s\<lparr>Vargc := ?vc\<rparr>)"
        using False nonempty I L(1) by (simp add: split_step_def put_def fetch_def)
      moreover have "take (Suc (length l)) (drop a argv) = l @ [argv ! i]"
        using a i by (simp add: take_Suc_conv_app_nth)
      then have "split_inv argv (Suc i) (s\<lparr>Vargc := ?vc\<rparr>)"
        using I G L a by (auto simp: split_inv_def fs' nth_append less_Suc_eq nth_list_update)
      ultimately show ?thesis by blast
    qed
  qed
qed

lemma count_list_take_mono: "i \<le> j \<Longrightarrow> count_list (take i xs) x \<le> count_list (take j xs) x"
proof -
  assume "i \<le> j"
  then have "take j xs = take i xs @ take (j - i) (drop i xs)" by (simp add: take_drop [symmetric] flip: take_add)
  then show ?thesis by simp
qed

lemma split_loop_ok:
  "split_inv argv i s \<Longrightarrow> i + n \<le> length argv \<Longrightarrow> count_list (take (i + n) argv) ''|'' < length argv \<Longrightarrow>
     \<exists>s'. split_loop n argv i s = Inr s' \<and> split_inv argv (i + n) s'"
proof (induction n arbitrary: i s)
  case (Suc n)
  have "count_list (take (Suc i) argv) ''|'' < length argv"
    using Suc.prems(3) count_list_take_mono [of "Suc i" "i + Suc n" argv "''|''"] by simp
  then obtain s1 where "split_step argv i s = Inr s1" "split_inv argv (Suc i) s1"
    using split_step_ok [OF Suc.prems(1)] Suc.prems(2) by auto
  with Suc.IH [of "Suc i" s1] Suc.prems show ?case by simp
qed simp

lemma split_loop_snoc: "split_loop (Suc n) argv i s = bindE (split_loop n argv i s) (split_step argv (i + n))"
proof (induction n arbitrary: i s)
  case 0
  then show ?case by (simp add: bindE_def split: sum.split)
next
  case (Suc n)
  have "split_loop (Suc (Suc n)) argv i s = bindE (split_step argv i s) (split_loop (Suc n) argv (Suc i))" by simp
  also have "\<dots> = bindE (split_step argv i s) (\<lambda>t. bindE (split_loop n argv (Suc i) t) (split_step argv (Suc i + n)))"
    using Suc by presburger
  finally show ?case by (simp add: bindE_assoc)
qed

lemma split_start:
  assumes "argv \<noteq> []"
  shows "split_inv argv 0 \<lparr>Vargc = (replicate (length argv) None)[0 := Some 0], Vargv = replicate (length argv) None, frag = 0\<rparr>"
  using assms by (simp add: split_inv_def Suc_le_eq)

lemma split_line_ok:
  assumes "\<exists>w \<in> set argv. w \<noteq> ''|''"
  obtains s where "split_line argv = Inr (s\<lparr>frag := length (pieces argv)\<rparr>)" "split_inv argv (length argv) s"
proof -
  have n: "argv \<noteq> []" using assms by auto
  have "count_list argv ''|'' < length argv"
  proof -
    obtain w where w: "w \<in> set argv" "w \<noteq> ''|''" using assms by blast
    have "length (filter ((=) ''|'') argv) < length argv" by (rule length_filter_less [OF w(1)]) (use w(2) in simp)
    then show ?thesis by (simp only: count_list_eq_length_filter)
  qed
  with split_loop_ok [OF split_start [OF n], of "length argv"] obtain s where
    s: "split_loop (length argv) argv 0 \<lparr>Vargc = (replicate (length argv) None)[0 := Some 0], Vargv = replicate (length argv) None, frag = 0\<rparr> = Inr s"
      "split_inv argv (length argv) s" by auto
  have "Suc (frag s) = length (pieces argv)" using s(2) by (simp add: split_inv_def Let_def)
  with s n that show ?thesis by (simp add: split_line_def put_def)
qed

lemma split_line_bars:
  assumes "\<forall>w \<in> set argv. w = ''|''"
  shows "split_line argv = Inl Out_of_bounds"
proof (cases argv)
  case Nil
  then show ?thesis by (simp add: split_line_def put_def)
next
  case (Cons w ws)
  define m where "m = length ws"
  have n: "argv \<noteq> []" "length argv = Suc m" using Cons by (simp_all add: m_def)
  have c: "count_list (take m argv) ''|'' = m"
  proof -
    have "filter ((=) ''|'') (take m argv) = take m argv" by (rule filter_True) (use assms in \<open>auto dest: in_set_takeD\<close>)
    then show ?thesis using n(2) by (simp add: count_list_eq_length_filter)
  qed
  obtain s where s: "split_loop m argv 0 \<lparr>Vargc = (replicate (length argv) None)[0 := Some 0], Vargv = replicate (length argv) None, frag = 0\<rparr> = Inr s"
      "split_inv argv m s"
    using split_loop_ok [OF split_start [OF n(1)], of m] n(2) c by auto
  have "frag s = m" "length (Vargc s) = Suc m"
    using s(2) length_pieces [of "take m argv"] c n(2) by (simp_all add: split_inv_def Let_def)
  moreover have "argv ! m = ''|''" using assms n(2) by simp
  ultimately have "split_step argv m s = Inl Out_of_bounds" by (simp add: split_step_def put_def)
  with s(1) n split_loop_snoc [of m argv 0] show ?thesis by (simp add: split_line_def put_def del: split_loop.simps)
qed

lemma check_loop_eq:
  assumes "split_inv argv i s" and "n + j = length (pieces (take i argv))"
  shows "check_loop n argv (s\<lparr>frag := m\<rparr>) j =
    Inr (if \<forall>f \<in> set (drop j (pieces (take i argv))). f \<noteq> [] \<and> getprog_byname (hd f) \<noteq> -1
         then Some (map (\<lambda>f. (getprog_byname (hd f), f)) (drop j (pieces (take i argv)))) else None)"
  using assms(2)
proof (induction n arbitrary: j)
  case (Suc n)
  let ?fs = "pieces (take i argv)"
  have j: "j < length ?fs" using Suc.prems by simp
  then have d: "drop j ?fs = ?fs ! j # drop (Suc j) ?fs" by (simp add: Cons_nth_drop_Suc)
  have v: "length (Vargc s) = length argv" "length (Vargv s) = length argv" "length ?fs \<le> length argv"
    using assms(1) by (simp_all add: split_inv_def Let_def)
  have f: "fetch j (Vargc (s\<lparr>frag := m\<rparr>)) = Inr (length (?fs ! j))"
    using assms(1) j v by (auto simp: split_inv_def Let_def fetch_def)
  show ?case
  proof (cases "?fs ! j = []")
    case True
    with f d show ?thesis by simp
  next
    case False
    then obtain a where a: "Vargv s ! j = Some a" "take (length (?fs ! j)) (drop a argv) = ?fs ! j"
      using assms(1) j by (auto simp: split_inv_def Let_def)
    have "hd (take (length (?fs ! j)) (drop a argv)) = argv ! a"
      using False a(2) by (metis drop_eq_Nil hd_drop_conv_nth hd_take length_greater_0_conv linorder_not_less take_Nil)
    then have "argv ! a = hd (?fs ! j)" using a(2) by simp
    with a f d False Suc.IH [of "Suc j"] Suc.prems j v show ?thesis by (simp add: fetch_def Let_def)
  qed
qed simp

lemma parse_pipeline_eq:
  "parse_pipeline argv = (if set argv \<subseteq> {''|''} then Inl Out_of_bounds else Inr (pipeline_spec argv))"
proof (cases "\<forall>w \<in> set argv. w = ''|''")
  case True
  then have "set argv \<subseteq> {''|''}" by blast
  with True show ?thesis by (simp add: parse_pipeline_def split_line_bars)
next
  case False
  then obtain s where s: "split_line argv = Inr (s\<lparr>frag := length (pieces argv)\<rparr>)" "split_inv argv (length argv) s"
    using split_line_ok [of argv] by blast
  have "check_loop (length (pieces argv)) argv (s\<lparr>frag := length (pieces argv)\<rparr>) 0 = Inr (pipeline_spec argv)"
    using check_loop_eq [OF s(2), of "length (pieces argv)" 0] by (simp add: pipeline_spec_def)
  moreover have "\<not> set argv \<subseteq> {''|''}" using False by blast
  ultimately show ?thesis using s(1) by (simp add: parse_pipeline_def del: subset_singleton_iff)
qed

section \<open>Properties of the shell\<close>

text \<open>
  C19: what the shell does with a line is what the reference says: the first 127 words of the line decide;
  the word \<open>exit\<close> leaves with the number after it, the bars separate the fragments, and a pipeline is
  run if each fragment begins with the name of a program. But a line of bars only makes the loop
  write past the end of its array.
\<close>

theorem Shell_line_correct:
  "Shell_line v line =
     (let argv = take 127 (words_from [] line) in
      if argv = [] then Inr Skip
      else if hd argv = ''exit'' then Inr (Leave (if length argv \<ge> 2 then atoi (argv ! 1) else v))
      else if hd argv = ''?'' then Inr Builtin
      else if set argv \<subseteq> {''|''} then Inl Out_of_bounds
      else Inr (case pipeline_spec argv of None \<Rightarrow> Complain | Some fs \<Rightarrow> Run fs))"
proof -
  have "break_up (ARGN - 1) line = take 127 (words_from [] line)" by (simp add: break_up_words ARGN_def)
  then show ?thesis
    by (cases "take 127 (words_from [] line)") (simp_all add: Shell_line_def Let_def process_builtin_def parse_pipeline_eq)
qed

end
