(* ===== verification/Pipeline.thy ===== *)
theory Pipeline
  imports Shell Syscalls Argv
begin

text \<open>
  The end of \<^verbatim>\<open>process_line\<close> of \<^verbatim>\<open>src/tinyos_shell.c\<close>: the shell connects the fragments of a line with pipes
  and starts a process for each, with the system calls of the kernel. The children run only after
  the shell waits for them; until then no other call changes descriptors of the shell.
\<close>

section \<open>Starting the processes\<close>

text \<open>
  What \<^verbatim>\<open>Execute\<close> gets from outside: the memory of the new TCB and of the array of arguments, the
  addresses of the programs, and the number of the task \<^verbatim>\<open>exec_wrapper\<close>.
\<close>

record exec_env =
  old_tcb :: tcb
  junk_bytes :: "nat \<Rightarrow> byte list"
  prog_ptr :: "int \<Rightarrow> u64"
  wrapper :: nat

definition c_strings :: "string list \<Rightarrow> byte list list" where
  "c_strings argv = map (\<lambda>s. bytes s @ [0]) argv"

text \<open>\<^verbatim>\<open>Exec\<close> takes the length as an \<^verbatim>\<open>int\<close>.\<close>

definition Execute :: "exec_env \<Rightarrow> nat \<Rightarrow> int \<Rightarrow> string list \<Rightarrow> kernel \<Rightarrow> (int \<times> kernel) res" where
  "Execute e c cmd argv k =
     bindE (Execute_args (junk_bytes e) (prog_ptr e cmd) (length argv) (c_strings argv)) (\<lambda>(n, args).
     sys_Exec (old_tcb e) c (Some (wrapper e)) (sint (ucast n :: u32)) (Some (\<lambda>i. args ! i)) k)"

definition savefid :: "nat \<Rightarrow> int \<Rightarrow> kernel \<Rightarrow> (int \<times> kernel) res" where
  "savefid c fsaved k =
     bindE (sys_OpenNull c k) (\<lambda>(savior, k1).
     bindE (assertE (savior \<noteq> NOFILE)) (\<lambda>_.
     bindE (sys_Dup2 c fsaved savior k1) (\<lambda>(_, k2). Inr (savior, k2))))"

text \<open>
  What comes before and after \<^verbatim>\<open>Execute\<close> in the loop. The variable \<open>pipe\<close> keeps its value when \<^verbatim>\<open>Pipe\<close> fails,
  and has none at first.
\<close>

definition redirect_out :: "nat \<Rightarrow> int \<Rightarrow> bool \<Rightarrow> (int \<times> int) option \<Rightarrow> kernel \<Rightarrow> ((int \<times> int) option \<times> kernel) res" where
  "redirect_out c saveout piped pipe k =
     (if piped then
        bindE (sys_Pipe c k) (\<lambda>(x, k1).
        let pipe' = (case x of None \<Rightarrow> pipe | Some _ \<Rightarrow> x) in
        case pipe' of
          None \<Rightarrow> Inl Uninitialized
        | Some (r, w) \<Rightarrow>
            bindE (sys_Dup2 c w 1 k1) (\<lambda>(_, k2).
            bindE (sys_Close c w k2) (\<lambda>(_, k3). Inr (pipe', k3))))
      else
        bindE (sys_Dup2 c saveout 1 k) (\<lambda>(_, k1).
        bindE (sys_Close c saveout k1) (\<lambda>(_, k2). Inr (pipe, k2))))"

definition redirect_in :: "nat \<Rightarrow> int \<Rightarrow> bool \<Rightarrow> (int \<times> int) option \<Rightarrow> kernel \<Rightarrow> kernel res" where
  "redirect_in c savein piped pipe k =
     (if piped then
        (case pipe of
           None \<Rightarrow> Inl Uninitialized
         | Some (r, w) \<Rightarrow>
             bindE (sys_Dup2 c r 0 k) (\<lambda>(_, k1).
             bindE (sys_Close c r k1) (\<lambda>(_, k2). Inr k2)))
      else
        bindE (sys_Dup2 c savein 0 k) (\<lambda>(_, k1).
        bindE (sys_Close c savein k1) (\<lambda>(_, k2). Inr k2)))"

fun pipeline_loop :: "exec_env \<Rightarrow> nat \<Rightarrow> int \<Rightarrow> int \<Rightarrow> (int \<times> int) option \<Rightarrow> (int \<times> string list) list \<Rightarrow> kernel \<Rightarrow>
    (int list \<times> kernel) res" where
  "pipeline_loop e c savein saveout pipe [] k = Inr ([], k)"
| "pipeline_loop e c savein saveout pipe ((cmd, argv) # fs) k =
     bindE (redirect_out c saveout (fs \<noteq> []) pipe k) (\<lambda>(pipe', k1).
     bindE (Execute e c cmd argv k1) (\<lambda>(child, k2).
     bindE (redirect_in c savein (fs \<noteq> []) pipe' k2) (\<lambda>k3.
     bindE (pipeline_loop e c savein saveout pipe' fs k3) (\<lambda>(children, k4). Inr (child # children, k4)))))"

definition start_pipeline :: "exec_env \<Rightarrow> nat \<Rightarrow> (int \<times> string list) list \<Rightarrow> kernel \<Rightarrow> (int list \<times> kernel) res" where
  "start_pipeline e c fs k =
     bindE (savefid c 0 k) (\<lambda>(savein, k1).
     bindE (savefid c 1 k1) (\<lambda>(saveout, k2). pipeline_loop e c savein saveout None fs k2))"

section \<open>The descriptors of all processes\<close>

definition fds :: "kernel \<Rightarrow> nat \<Rightarrow> nat \<Rightarrow> nat option" where
  "fds k q i = (if i < MAX_FILEID then FIDT (PT k q) i else None)"

text \<open>
  The shell, process \<open>p\<close> on core \<open>c\<close>, with room for \<open>n\<close> file control blocks and \<open>m\<close> processes. New
  addresses are fresh for the running thread.
\<close>

definition desk :: "(nat \<Rightarrow> nat) \<Rightarrow> nat \<Rightarrow> nat \<Rightarrow> nat \<Rightarrow> nat \<Rightarrow> kernel \<Rightarrow> bool" where
  "desk held c p n m k \<longleftrightarrow>
     tree_inv k \<and> fids_inv k \<and> files_inv held k \<and> (\<forall>f. held f < 2 ^ 31) \<and> caller c p k \<and>
     pstate (PT k 0) \<noteq> FREE \<and> pstate (PT k 1) \<noteq> FREE \<and>
     (\<forall>a. malloc_ok k a) \<and> 0 < devnum k DEV_NULL \<and> (\<forall>a. CURTHREAD c k = Thr a \<longrightarrow> a < next_addr k) \<and>
     n \<le> length (FCB_freelist k) \<and> m \<le> card {q. q < MAX_PROC \<and> pstate (PT k q) = FREE}"

lemma deskD:
  assumes "desk held c p n m k"
  shows "tree_inv k" "fids_inv k" "files_inv held k" "held f < 2 ^ 31" "CURPROC c k = Inr p" "p < MAX_PROC"
    "pstate (PT k p) = ALIVE" "pstate (PT k 0) \<noteq> FREE" "pstate (PT k 1) \<noteq> FREE" "malloc_ok k a" "0 < devnum k DEV_NULL"
    "CURTHREAD c k = Thr b \<Longrightarrow> b < next_addr k" "n \<le> length (FCB_freelist k)"
    "m \<le> card {q. q < MAX_PROC \<and> pstate (PT k q) = FREE}"
  using assms by (simp_all add: desk_def caller_def)

lemma fid_at_fds: "i < MAX_FILEID \<Longrightarrow> fid_at k (q, i) = fds k q i"
  by (simp add: fid_at_def fds_def)

lemma fds_bound: "fds k q i = Some f \<Longrightarrow> i < MAX_FILEID"
  by (simp add: fds_def split: if_splits)

lemma refs_two:
  assumes "fds k q i = Some f" "fds k q' i' = Some f" "(q, i) \<noteq> (q', i')" "q < MAX_PROC" "q' < MAX_PROC"
  shows "2 \<le> refs k f"
proof -
  have "{(q, i), (q', i')} \<subseteq> {s \<in> fid_slots. fid_at k s = Some f}"
    using assms fds_bound [OF assms(1)] fds_bound [OF assms(2)] by (auto simp: fid_slots_def fid_at_fds)
  from card_mono [OF _ this] assms(3) show ?thesis unfolding refs_def by (simp add: rev_finite_subset [OF finite_slots])
qed

lemma fds_dead: "fids_inv k \<Longrightarrow> q < MAX_PROC \<Longrightarrow> pstate (PT k q) \<noteq> ALIVE \<Longrightarrow> fds k q i = None"
  by (simp add: fds_def fids_invD)

lemma free_unused:
  assumes "files_inv held k" "f \<in> set (FCB_freelist k)" "q < MAX_PROC"
  shows "fds k q i \<noteq> Some f"
proof
  assume "fds k q i = Some f"
  then have "(q, i) \<in> fid_slots" "fid_at k (q, i) = Some f" using assms(3) fds_bound by (auto simp: fid_slots_def fid_at_fds)
  from slot_block(2) [OF assms(1) this] assms(2) show False by simp
qed

text \<open>A call on descriptors of the shell leaves the rest as it is.\<close>

definition calm :: "kernel \<Rightarrow> kernel \<Rightarrow> bool" where
  "calm k k' \<longleftrightarrow> same_tree k k' \<and> cc k' = cc k \<and> malloc_ok k' = malloc_ok k \<and> devnum k' = devnum k \<and> next_addr k \<le> next_addr k'"

lemma calm_files_only: "files_only k k' \<Longrightarrow> calm k k'"
  by (simp add: calm_def same_tree_def files_only_sel)

lemma calm_trans: "calm k k1 \<Longrightarrow> calm k1 k2 \<Longrightarrow> calm k k2"
  by (auto simp: calm_def intro: same_tree_trans)

lemma desk_calm:
  assumes d: "desk held c p n m k" and f: "calm k k'" and i: "files_inv held k'"
    and q: "\<And>q. q \<noteq> p \<Longrightarrow> fds k' q = fds k q" and n: "n' \<le> length (FCB_freelist k')"
  shows "desk held c p n' m k'"
proof -
  note D = deskD [OF d]
  have t: "same_tree k k'" and cc: "cc k' = cc k" using f by (simp_all add: calm_def)
  have st: "pstate (PT k' r) = pstate (PT k r)" for r using t by (simp add: same_tree_def)
  have "tree_inv k'" using same_tree_inv [OF t] D(1) by blast
  moreover have "fids_inv k'"
    unfolding fids_inv_def
  proof (intro allI impI)
    fix r i assume r: "r < MAX_PROC" "i < MAX_FILEID" "pstate (PT k' r) \<noteq> ALIVE"
    then have "r \<noteq> p" using D(7) by (auto simp: st)
    then have "fds k' r i = None" using q fds_dead [OF D(2) r(1)] r(3) by (simp add: st)
    with r(2) show "FIDT (PT k' r) i = None" by (simp add: fds_def)
  qed
  moreover have "\<forall>a. CURTHREAD c k' = Thr a \<longrightarrow> a < next_addr k'"
    using D(12) f by (auto simp: calm_def CURTHREAD_def intro: less_le_trans)
  ultimately show ?thesis
    using d i n CURPROC_cong [OF cc] f by (simp add: desk_def caller_def st calm_def)
qed

lemmas desk_files_only = desk_calm [OF _ calm_files_only]

text \<open>The stream of a block, and the blocks that some descriptor points to.\<close>

definition stream :: "kernel \<Rightarrow> nat \<Rightarrow> streamobj \<times> file_ops option" where
  "stream k f = (streamobj (FT k f), streamfunc (FT k f))"

definition in_table :: "kernel \<Rightarrow> nat \<Rightarrow> bool" where
  "in_table k f \<longleftrightarrow> (\<exists>q < MAX_PROC. \<exists>i. fds k q i = Some f)"

lemma stream_files_only: "files_only k k' \<Longrightarrow> stream k' = stream k"
  by (auto simp: stream_def files_only_sel)

lemma free_not_in_table: "files_inv held k \<Longrightarrow> f \<in> set (FCB_freelist k) \<Longrightarrow> \<not> in_table k f"
  using free_unused by (auto simp: in_table_def)

section \<open>Each call of the shell\<close>

lemma find_fids_cong: "(\<And>i. i < MAX_FILEID \<Longrightarrow> (g i = None) = (h i = None)) \<Longrightarrow> find_fids n a g = find_fids n a h"
proof (induction n arbitrary: a)
  case (Suc n)
  have "find (\<lambda>i. g i = None) [a..<MAX_FILEID] = find (\<lambda>i. h i = None) [a..<MAX_FILEID]"
    by (rule find_cong) (simp_all add: Suc.prems)
  with Suc show ?case by (simp split: option.split)
qed simp

lemma decref_shared:
  assumes inv: "files_inv held k" and slot: "(p, i) \<in> fid_slots" "fid_at k (p, i) = Some f" and two: "2 \<le> refs k f"
  shows "FCB_decref c f k = Inr (0, upd_fcb f (\<lambda>b. b\<lparr>refcount := refcount b - 1\<rparr>) k)"
proof -
  note B = slot_block [OF inv slot]
  have "unat (refcount (FT k f)) = refs k f + held f" using files_uptoD(5) [OF inv B(1,2)] by simp
  then have "refcount (FT k f) \<noteq> 1" using two by auto
  then have "refcount (FT k f) - 1 \<noteq> 0" by simp
  then show ?thesis by (simp add: FCB_decref_def Let_def)
qed

lemma files_only_refcount: "files_only k (upd_fcb f (\<lambda>b. b\<lparr>refcount := g b\<rparr>) k)"
  by (rule files_onlyI [where fl = "FCB_freelist k" and ft = "FT (upd_fcb f (\<lambda>b. b\<lparr>refcount := g b\<rparr>) k)" and pt = "PT k"])
     (simp_all add: upd_fcb_def)

lemma close_step:
  assumes d: "desk held c p n m k" and f: "fds k p i = Some f" and two: "2 \<le> refs k f"
  shows "\<exists>k'. sys_Close c (int i) k = Inr (0, k') \<and> desk held c p n m k' \<and> files_only k k' \<and>
    fds k' = (fds k)(p := (fds k p)(i := None))"
proof -
  note D = deskD [OF d]
  have i: "i < MAX_FILEID" using f by (rule fds_bound)
  define k' where "k' = upd_fcb f (\<lambda>b. b\<lparr>refcount := refcount b - 1\<rparr>) (set_fid p i None k)"
  have g: "get_fcb c (int i) k = Inr (Some f)" using D(5) i f by (simp add: get_fcb_def fds_def)
  have "refs k f = refs (set_fid p i None k) f + 1"
    using refs_set_fid [of p i None k f] D(6) i f by (simp add: fid_slots_def fid_at_fds)
  then have r: "1 \<le> refs (set_fid p i None k) f" using two by simp
  have cl: "files_inv (held(f := Suc (held f))) (set_fid p i None k)"
    by (rule clear_fid_inv [OF D(3)]) (use D(6) i f in \<open>simp_all add: fid_slots_def fid_at_fds\<close>)
  have fm: "f < MAX_FILES" "f \<notin> set (FCB_freelist k)"
    using slot_block [OF D(3), of p i f] D(6) i f by (simp_all add: fid_slots_def fid_at_fds)
  have "refcount (FT k f) - 1 \<noteq> 0"
    using decref_upto(2) [OF cl fm(1) refl] r by simp
  then have "FCB_decref c f (set_fid p i None k) = Inr (0, k')" by (simp add: FCB_decref_def Let_def k'_def)
  then have s: "sys_Close c (int i) k = Inr (0, k')" using g D(5) i by (simp add: sys_Close_def Let_def)
  have o: "files_only k k'" unfolding k'_def by (rule files_only_trans [OF files_only_set_fid files_only_refcount])
  have fl: "FCB_freelist k' = FCB_freelist k" by (simp add: k'_def)
  have v: "fds k' = (fds k)(p := (fds k p)(i := None))" by (auto simp: fun_eq_iff fds_def k'_def)
  have "desk held c p n m k'"
    by (rule desk_files_only [OF d o sys_Close_inv(1) [OF D(3,5,6) s]]) (use D(13) in \<open>simp_all add: v fl\<close>)
  with s o v show ?thesis by blast
qed

lemma decref_ok:
  assumes inv: "files_inv held k" and slot: "(p, i) \<in> fid_slots" "fid_at k (p, i) = Some g"
    and g: "2 \<le> refs k g \<or> streamfunc (FT k g) = Some Nulldev_fops"
  shows "\<exists>m k1. FCB_decref c g k = Inr (m, k1) \<and> files_only k k1 \<and> length (FCB_freelist k) \<le> length (FCB_freelist k1)"
proof (cases "2 \<le> refs k g")
  case True
  from decref_shared [OF inv slot this] show ?thesis
    using files_only_refcount by auto
next
  case False
  with g have n: "streamfunc (FT k g) = Some Nulldev_fops" by blast
  define k1 where "k1 = upd_fcb g (\<lambda>b. b\<lparr>refcount := refcount b - 1\<rparr>) k"
  have o: "files_only k k1" unfolding k1_def by (rule files_only_refcount)
  have "FCB_decref c g k = Inr (if refcount (FT k1 g) = 0 then (nulldev_close, release_FCB g k1) else (0, k1))"
    using n by (simp add: FCB_decref_def Let_def k1_def stream_close_def)
  moreover have "files_only k (release_FCB g k1)" by (rule files_only_trans [OF o files_only_release])
  moreover have "length (FCB_freelist k) \<le> length (FCB_freelist (release_FCB g k1))" by (simp add: release_FCB_def k1_def)
  moreover have "FCB_freelist k1 = FCB_freelist k" by (simp add: k1_def)
  ultimately show ?thesis using o by (cases "refcount (FT k1 g) = 0") auto
qed

lemma dup2_step:
  assumes d: "desk held c p n m k" and f: "fds k p i = Some f" and j: "j < MAX_FILEID"
    and g: "\<And>g. fds k p j = Some g \<Longrightarrow> g = f \<or> 2 \<le> refs k g \<or> streamfunc (FT k g) = Some Nulldev_fops"
  shows "\<exists>k'. sys_Dup2 c (int i) (int j) k = Inr (0, k') \<and> desk held c p n m k' \<and> files_only k k' \<and>
    fds k' = (fds k)(p := (fds k p)(j := Some f))"
proof -
  note D = deskD [OF d]
  have i: "i < MAX_FILEID" using f by (rule fds_bound)
  have old: "get_fcb c (int i) k = Inr (Some f)" and new: "get_fcb c (int j) k = Inr (fds k p j)"
    using D(5) i j f by (simp_all add: get_fcb_def fds_def)
  show ?thesis
  proof (cases "fds k p j = Some f")
    case True
    then have "sys_Dup2 c (int i) (int j) k = Inr (0, k)" using old new i j by (simp add: sys_Dup2_def)
    with True d show ?thesis by (intro exI [of _ k]) (simp add: fun_upd_idem)
  next
    case False
    obtain r k1 where k1: "(case fds k p j of None \<Rightarrow> Inr (0, k) | Some g \<Rightarrow> FCB_decref c g k) = Inr (r, k1)"
        "files_only k k1" "length (FCB_freelist k) \<le> length (FCB_freelist k1)"
    proof (cases "fds k p j")
      case None
      with that [of 0 k] show ?thesis by simp
    next
      case (Some b)
      have "2 \<le> refs k b \<or> streamfunc (FT k b) = Some Nulldev_fops" using g [OF Some] False Some by auto
      from decref_ok [OF D(3) _ _ this, of p j c] D(6) j Some that show ?thesis
        by (auto simp: fid_slots_def fid_at_fds)
    qed
    define k' where "k' = set_fid p j (Some f) (FCB_incref f k1)"
    have o: "files_only k k'"
      unfolding k'_def by (rule files_only_trans [OF k1(2) files_only_trans [OF files_only_incref files_only_set_fid]])
    have "CURPROC c (FCB_incref f k1) = Inr p"
      using CURPROC_cong [of "FCB_incref f k1" k] files_only_sel(1) [OF k1(2)] D(5) by (simp add: FCB_incref_def)
    then have s: "sys_Dup2 c (int i) (int j) k = Inr (0, k')"
      using old new i j False k1(1) by (simp add: sys_Dup2_def k'_def)
    have "CURPROC c k' = Inr p" using CURPROC_cong [OF files_only_sel(1) [OF o]] D(5) by simp
    note I = sys_Dup2_inv [OF D(3,5,6,4) s this]
    have v: "fds k' = (fds k)(p := (fds k p)(j := Some f))"
      using I(3) f i j by (auto simp: fun_eq_iff fds_def)
    have fl: "FCB_freelist k' = FCB_freelist k1" by (simp add: k'_def FCB_incref_def)
    have "desk held c p n m k'"
      by (rule desk_files_only [OF d o I(1)]) (use D(13) k1(3) in \<open>simp_all add: v fl\<close>)
    with s o v show ?thesis by blast
  qed
qed

lemma reserve_exact:
  assumes d: "desk held c p n m k" and num: "num \<le> n" and l: "length (find_fids num 0 (fds k p)) = num"
  obtains fcbs k1 where "FCB_reserve c num k = Inr (Some (find_fids num 0 (fds k p), fcbs), k1)" "files_only k k1"
    "files_inv held k1" "FCB_freelist k = fcbs @ FCB_freelist k1" "length fcbs = num" "distinct fcbs"
    "\<And>q j. FIDT (PT k1 q) j = (if q = p \<and> j \<in> set (find_fids num 0 (fds k p)) then map_of (zip (find_fids num 0 (fds k p)) fcbs) j
       else FIDT (PT k q) j)"
proof -
  note D = deskD [OF d]
  have e: "find_fids num 0 (FIDT (PT k p)) = find_fids num 0 (fds k p)" by (rule find_fids_cong) (simp add: fds_def)
  let ?fids = "find_fids num 0 (fds k p)"
  note F = find_fids_props [OF refl, of num 0 "FIDT (PT k p)", unfolded e]
  obtain r k1 where R: "FCB_reserve c num k = Inr (r, k1)" "files_inv held k1"
      "r = None \<longleftrightarrow> card {i. i < MAX_FILEID \<and> FIDT (PT k p) i = None} < num \<or> length (FCB_freelist k) < num"
      "case r of
        None \<Rightarrow> (\<forall>q. FIDT (PT k1 q) = FIDT (PT k q)) \<and> set (FCB_freelist k1) = set (FCB_freelist k)
      | Some (fids, fcbs) \<Rightarrow>
          length fids = num \<and> length fcbs = num \<and> distinct fids \<and> distinct fcbs \<and>
          (\<forall>i \<in> set fids. i < MAX_FILEID \<and> FIDT (PT k p) i = None) \<and>
          FCB_freelist k = fcbs @ FCB_freelist k1 \<and>
          (\<forall>q j. FIDT (PT k1 q) j =
             (if q = p \<and> j \<in> set fids then map_of (zip fids fcbs) j else FIDT (PT k q) j))"
    using FCB_reserve_props [OF D(3,5,6), of num] by blast
  have "card (set ?fids) \<le> card {i. i < MAX_FILEID \<and> FIDT (PT k p) i = None}"
    by (rule card_mono) (use F(3) in auto)
  then have "num \<le> card {i. i < MAX_FILEID \<and> FIDT (PT k p) i = None}" using distinct_card [OF F(2)] l by simp
  then have "r \<noteq> None" using R(3) num D(13) by simp
  then obtain fids fcbs where r: "r = Some (fids, fcbs)" by auto
  have "fids = ?fids"
    using R(1) D(5) by (auto simp: r FCB_reserve_def Let_def e split: if_splits prod.splits)
  with R r files_only_reserve [OF R(1)] that [of fcbs k1] show ?thesis by simp
qed

lemma savefid_step:
  assumes d: "desk held c p (Suc n) m k" and f: "fds k p x = Some f" and i: "find_fids 1 0 (fds k p) = [i]"
  shows "\<exists>k'. savefid c (int x) k = Inr (int i, k') \<and> desk held c p n m k' \<and> calm k k' \<and>
    fds k' = (fds k)(p := (fds k p)(i := Some f)) \<and> (\<forall>b. in_table k b \<longrightarrow> stream k' b = stream k b)"
proof -
  note D = deskD [OF d]
  obtain fcbs k1 where R: "FCB_reserve c 1 k = Inr (Some ([i], fcbs), k1)" "files_only k k1" "files_inv held k1"
      "FCB_freelist k = fcbs @ FCB_freelist k1" "length fcbs = 1" "distinct fcbs"
      "\<And>q j. FIDT (PT k1 q) j = (if q = p \<and> j \<in> set [i] then map_of (zip [i] fcbs) j else FIDT (PT k q) j)"
    by (rule reserve_exact [OF d, of 1, unfolded i]) (simp_all add: that)
  then obtain b where b: "fcbs = [b]" by (auto simp: length_Suc_conv)
  define k2 where "k2 = upd_fcb b (\<lambda>y. y\<lparr>streamobj := Null_object, streamfunc := Some Nulldev_fops\<rparr>) k1"
  have ifd: "i < MAX_FILEID" "fds k p i = None" using find_fids_props(3) [OF i] by simp_all
  have op: "sys_OpenNull c k = Inr (int i, k2)"
    using R(1) D(11) files_only_sel(10) [OF R(2)]
    by (simp add: sys_OpenNull_def open_stream_def device_open_def nulldev_open_def k2_def b)
  have c2: "calm k k2" using calm_files_only [OF R(2)] by (simp add: calm_def k2_def same_tree_def)
  have v2: "fds k2 = (fds k)(p := (fds k p)(i := Some b))"
    using R(7) ifd(1) by (auto simp: fun_eq_iff fds_def k2_def b)
  have fl: "FCB_freelist k2 = FCB_freelist k1" "files_inv held k2" using R(3) by (simp_all add: k2_def upd_fcb_inv)
  have d2: "desk held c p n m k2"
    by (rule desk_calm [OF d c2 fl(2)]) (use R(4,5) D(13) in \<open>simp_all add: v2 fl\<close>)
  have "fds k2 p x = Some f" using f ifd by (auto simp: v2)
  moreover have "streamfunc (FT k2 b) = Some Nulldev_fops" by (simp add: k2_def)
  ultimately obtain k3 where 3: "sys_Dup2 c (int x) (int i) k2 = Inr (0, k3)" "desk held c p n m k3" "files_only k2 k3"
      "fds k3 = (fds k2)(p := (fds k2 p)(i := Some f))"
    using dup2_step [OF d2 _ ifd(1), of x f] by (auto simp: v2)
  have "savefid c (int x) k = Inr (int i, k3)" using op 3(1) by (simp add: savefid_def NOFILE_def)
  moreover have "fds k3 = (fds k)(p := (fds k p)(i := Some f))" by (simp add: 3(4) v2)
  moreover have "stream k3 y = stream k y" if "in_table k y" for y
  proof -
    have "y \<noteq> b" using that free_not_in_table [OF D(3), of b] R(4) b by auto
    then show ?thesis
      using stream_files_only [OF 3(3)] stream_files_only [OF R(2)] by (simp add: stream_def k2_def fun_eq_iff)
  qed
  ultimately show ?thesis using 3(2) calm_trans [OF c2 calm_files_only [OF 3(3)]] by blast
qed

definition fresh_pipe :: pipecb where
  "fresh_pipe = \<lparr>buffer = (\<lambda>_. 0), write_p = 0, read_p = 0, available_space = of_nat BUFF_SIZE,
     reader_closed = False, writer_closed = False\<rparr>"

lemma pipe_step_fds:
  assumes d: "desk held c p (Suc (Suc n)) m k" and ij: "find_fids 2 0 (fds k p) = [i, j]"
  shows "\<exists>r w k'. sys_Pipe c k = Inr (Some (int i, int j), k') \<and> desk held c p n m k' \<and> calm k k' \<and>
    r \<noteq> w \<and> \<not> in_table k r \<and> \<not> in_table k w \<and> i \<noteq> j \<and>
    fds k' = (fds k)(p := (fds k p)(i := Some r, j := Some w)) \<and>
    stream k' = (stream k)(r := (Pipe_obj (next_addr k), Some Reader_ops), w := (Pipe_obj (next_addr k), Some Writer_ops)) \<and>
    next_addr k' = Suc (next_addr k) \<and> pipes k' = (pipes k)(next_addr k \<mapsto> fresh_pipe)"
proof -
  note D = deskD [OF d]
  have ne: "i \<noteq> j" "i < MAX_FILEID" "j < MAX_FILEID" using find_fids_props(2,3) [OF ij] by auto
  obtain fcbs k1 where R: "FCB_reserve c 2 k = Inr (Some ([i, j], fcbs), k1)" "files_only k k1" "files_inv held k1"
      "FCB_freelist k = fcbs @ FCB_freelist k1" "length fcbs = 2" "distinct fcbs"
      "\<And>q l. FIDT (PT k1 q) l = (if q = p \<and> l \<in> set [i, j] then map_of (zip [i, j] fcbs) l else FIDT (PT k q) l)"
    by (rule reserve_exact [OF d, of 2, unfolded ij]) (simp_all add: that)
  then obtain r w where b: "fcbs = [r, w]" by (auto simp: length_Suc_conv numeral_2_eq_2)
  then have rw: "r \<noteq> w" using R(6) by simp
  note S = files_only_sel [OF R(2)]
  define a where "a = next_addr k"
  define k2 where "k2 = k1\<lparr>next_addr := Suc a, pipes := (pipes k1)(a \<mapsto> fresh_pipe)\<rparr>"
  define k' where "k' = upd_fcb w (\<lambda>y. y\<lparr>streamobj := Pipe_obj a, streamfunc := Some Writer_ops\<rparr>)
     (upd_fcb r (\<lambda>y. y\<lparr>streamobj := Pipe_obj a, streamfunc := Some Reader_ops\<rparr>) k2)"
  have "get_pipe k1 = (Some a, k2)"
    using D(10) by (simp add: get_pipe_def malloc_def S a_def k2_def fresh_pipe_def)
  then have s: "sys_Pipe c k = Inr (Some (int i, int j), k')"
    using R(1) by (simp add: sys_Pipe_def b k'_def Let_def)
  have c: "calm k k'" using calm_files_only [OF R(2)] by (simp add: calm_def k'_def k2_def same_tree_def a_def)
  have v: "fds k' = (fds k)(p := (fds k p)(i := Some r, j := Some w))"
    using R(7) ne by (auto simp: fun_eq_iff fds_def k'_def k2_def b)
  have "files_inv held k2 = files_inv held k1" by (rule files_upto_cong) (simp_all add: k2_def)
  then have fl: "FCB_freelist k' = FCB_freelist k1" "files_inv held k'" using R(3) by (simp_all add: k'_def k2_def upd_fcb_inv)
  have "desk held c p n m k'"
    by (rule desk_calm [OF d c fl(2)]) (use R(4,5) D(13) in \<open>simp_all add: v fl b\<close>)
  moreover have "\<not> in_table k r" "\<not> in_table k w" using free_not_in_table [OF D(3)] R(4) b by auto
  moreover have "stream k' = (stream k)(r := (Pipe_obj a, Some Reader_ops), w := (Pipe_obj a, Some Writer_ops))"
    using rw by (auto simp: fun_eq_iff stream_def k'_def k2_def S)
  moreover have "pipes k' = (pipes k)(a \<mapsto> fresh_pipe)" "next_addr k' = Suc a" by (simp_all add: k'_def k2_def S)
  ultimately show ?thesis using s c v rw ne unfolding a_def by blast
qed

text \<open>The devices and the serial ports of the machine.\<close>

definition ports :: "kernel \<Rightarrow> (device_type \<Rightarrow> nat) \<times> nat" where
  "ports k = (devnum k, nterm (vm (sch (cc k))))"

lemma calm_ports: "calm k k' \<Longrightarrow> ports k' = ports k"
  by (simp add: calm_def ports_def)

lemma restart_one_nterm: "nterm (cpu_core_restart_one v) = nterm v"
  by (simp add: cpu_core_restart_one_def split: list.split)

lemma exec_thread_total:
  assumes mem: "\<And>a. malloc_ok k a" and n: "0 \<le> n"
  shows "\<exists>k'. exec_thread old p (Some call) n (Some buf) k = Inr k' \<and> malloc_ok k' = malloc_ok k \<and> devnum k' = devnum k \<and>
    next_addr k \<le> next_addr k' \<and> current_thread (sch (cc k')) = current_thread (sch (cc k)) \<and>
    nterm (vm (sch (cc k'))) = nterm (vm (sch (cc k))) \<and>
    (\<forall>t. (\<forall>a. t = Thr a \<longrightarrow> a < next_addr k) \<longrightarrow> tcbs (sch (cc k')) t = tcbs (sch (cc k)) t)"
  using assms
  by (simp add: exec_thread_def Create_PTCB_def malloc_def copy_args_def cond_init_def Let_def spawn_def spawn_thread_def
      set_owner_ptcb_def on_sch_def wakeup_def get_tcb_def sched_make_ready_def sched_queue_add_def upd_tcb_def MFQ_QUEUES_def restart_one_nterm)

lemma inherit_fids_frame:
  "cc (fold (inherit_fid par p) is k) = cc k \<and> malloc_ok (fold (inherit_fid par p) is k) = malloc_ok k \<and>
   devnum (fold (inherit_fid par p) is k) = devnum k \<and> next_addr (fold (inherit_fid par p) is k) = next_addr k \<and>
   stream (fold (inherit_fid par p) is k) = stream k"
proof (induction "is" arbitrary: k)
  case (Cons i "is")
  have "cc (inherit_fid par p i k) = cc k \<and> malloc_ok (inherit_fid par p i k) = malloc_ok k \<and>
      devnum (inherit_fid par p i k) = devnum k \<and> next_addr (inherit_fid par p i k) = next_addr k \<and>
      stream (inherit_fid par p i k) = stream k"
    by (intro conjI ext) (simp_all add: inherit_fid_def Let_def FCB_incref_def stream_def set_fid_def split: option.split)
  with Cons show ?case by simp
qed simp

lemma exec_step:
  assumes d: "desk held c p n (Suc m) k" and len: "0 \<le> len"
  shows "\<exists>q k'. sys_Exec old c (Some call) len (Some buf) k = Inr (int q, k') \<and> 1 < q \<and> q \<noteq> p \<and> q < MAX_PROC \<and>
    pstate (PT k q) = FREE \<and> pstate (PT k' q) = ALIVE \<and> (\<forall>r. r \<noteq> q \<longrightarrow> pstate (PT k' r) = pstate (PT k r)) \<and>
    desk held c p n m k' \<and> fds k' = (fds k)(q := fds k p) \<and> stream k' = stream k \<and> next_addr k \<le> next_addr k' \<and> ports k' = ports k"
proof -
  note D = deskD [OF d]
  obtain ps where ps: "free_pcbs k ps" "set ps = {q. q < MAX_PROC \<and> pstate (PT k q) = FREE}" using tree_invD(7) [OF D(1)] by blast
  have "{q. q < MAX_PROC \<and> pstate (PT k q) = FREE} \<noteq> {}"
  proof
    assume e: "{q. q < MAX_PROC \<and> pstate (PT k q) = FREE} = {}"
    have "card {q. q < MAX_PROC \<and> pstate (PT k q) = FREE} = 0" unfolding e by (rule card.empty)
    with D(14) show False by linarith
  qed
  then have "ps \<noteq> []" unfolding ps(2) [symmetric] by simp
  then obtain q where q: "pcb_freelist k = Some q" using ps(1) by (cases ps) (simp_all add: free_pcbs_def)
  obtain k1 where a: "acquire_PCB k = (Some q, k1)" using q by (simp add: acquire_PCB_def Let_def)
  note A = acquired_pcb [OF D(1) a]
  have q1: "1 < q" using A(2) D(8,9) by (cases "q = 0"; cases "q = 1") auto
  have qp: "q \<noteq> p" using A(2) D(7) by auto
  have k1: "cc k1 = cc k" "malloc_ok k1 = malloc_ok k" "devnum k1 = devnum k" "next_addr k1 = next_addr k" "stream k1 = stream k"
    by (simp_all add: A(3) stream_def fun_eq_iff)
  define k2 where "k2 = fold (inherit_fid p q) [0..<MAX_FILEID] (adopt p q k1)"
  have e: "exec_parent c q k1 = Inr k2" using q1 D(5) CURPROC_cong [OF k1(1)] by (simp add: exec_parent_def k2_def)
  have k2: "cc k2 = cc k" "malloc_ok k2 = malloc_ok k" "devnum k2 = devnum k" "next_addr k2 = next_addr k" "stream k2 = stream k"
    using inherit_fids_frame [of p q "[0..<MAX_FILEID]" "adopt p q k1"] k1
    by (simp_all add: k2_def adopt_def stream_def fun_eq_iff)
  obtain k' where x: "exec_thread old q (Some call) len (Some buf) k2 = Inr k'" "malloc_ok k' = malloc_ok k" "devnum k' = devnum k"
      "next_addr k \<le> next_addr k'" "current_thread (sch (cc k')) = current_thread (sch (cc k))"
      "nterm (vm (sch (cc k'))) = nterm (vm (sch (cc k)))"
      "\<And>t. (\<And>a. t = Thr a \<Longrightarrow> a < next_addr k) \<Longrightarrow> tcbs (sch (cc k')) t = tcbs (sch (cc k)) t"
    using exec_thread_total [of k2 len old q call buf] len D(10) unfolding k2 by blast
  have s: "sys_Exec old c (Some call) len (Some buf) k = Inr (int q, k')"
    using a e x(1) by (simp add: sys_Exec_def get_pid_def)
  note E = sys_Exec_effect [OF D(1-7) a s]
  have t: "CURTHREAD c k' = CURTHREAD c k" by (simp add: CURTHREAD_def x(5))
  have "tcb_of (CURTHREAD c k') k' = tcb_of (CURTHREAD c k) k"
    unfolding t tcb_of_def by (rule x(7)) (rule D(12))
  then have cur: "CURPROC c k' = Inr p" using D(5) by (simp add: CURPROC_def)
  have st: "pstate (PT k' r) = pstate (PT k r)" if "r \<noteq> q" for r using E(9) [OF that] by blast
  have v: "fds k' = (fds k)(q := fds k p)"
    using E(8,9) q1 by (auto simp: fun_eq_iff fds_def)
  have "tree_inv k'" by (rule sys_Exec_inv [OF D(1) _ s]) (use D(5-7) in simp)
  moreover have "m \<le> card {r. r < MAX_PROC \<and> pstate (PT k' r) = FREE}"
  proof -
    have "{r. r < MAX_PROC \<and> pstate (PT k' r) = FREE} = {r. r < MAX_PROC \<and> pstate (PT k r) = FREE} - {q}"
    proof (rule set_eqI)
      fix x
      show "x \<in> {r. r < MAX_PROC \<and> pstate (PT k' r) = FREE} \<longleftrightarrow> x \<in> {r. r < MAX_PROC \<and> pstate (PT k r) = FREE} - {q}"
        by (cases "x = q") (simp_all add: st E(4))
    qed
    then show ?thesis using D(14) A(1,2) by (simp add: card_Diff_singleton_if)
  qed
  moreover have "FCB_freelist k' = FCB_freelist k"
  proof -
    have "FCB_freelist (fold (inherit_fid p q) is j) = FCB_freelist j" for "is" j
      by (induction "is" arbitrary: j) (simp_all add: inherit_fid_def Let_def FCB_incref_def split: option.split)
    then show ?thesis using exec_thread_files(2) [OF x(1)] by (simp add: k2_def adopt_def A(3))
  qed
  ultimately have "desk held c p n m k'"
    using d E(5,6) st [of p] st [of 0] st [of 1] qp q1 cur x(2-4) t
    by (auto simp: desk_def caller_def intro: less_le_trans)
  moreover have "stream k' = stream k" using exec_thread_files(1) [OF x(1)] k2(5) by (simp add: stream_def fun_eq_iff)
  moreover have "ports k' = ports k" using x(3,6) by (simp add: ports_def)
  ultimately show ?thesis using s q1 qp A(1,2) E(4) st v x(4) by blast
qed

text \<open>\<^verbatim>\<open>Dup2\<close> from \<open>i\<close> to \<open>j\<close>, and \<^verbatim>\<open>Close\<close> of \<open>i\<close>.\<close>

lemma move_step:
  assumes d: "desk held c p n m k" and f: "fds k p i = Some f" and j: "j < MAX_FILEID" "i \<noteq> j"
    and g: "fds k p j = Some g" "g = f \<or> 2 \<le> refs k g"
  shows "\<exists>k1 k2. sys_Dup2 c (int i) (int j) k = Inr (0, k1) \<and> sys_Close c (int i) k1 = Inr (0, k2) \<and>
    desk held c p n m k2 \<and> files_only k k2 \<and> fds k2 = (fds k)(p := (fds k p)(j := Some f, i := None))"
proof -
  obtain k1 where 1: "sys_Dup2 c (int i) (int j) k = Inr (0, k1)" "desk held c p n m k1" "files_only k k1"
      "fds k1 = (fds k)(p := (fds k p)(j := Some f))"
    using dup2_step [OF d f j(1)] g by auto
  have a: "fds k1 p i = Some f" "fds k1 p j = Some f" using f j(2) by (simp_all add: 1(4))
  have "2 \<le> refs k1 f" using refs_two [OF a] j(2) deskD(6) [OF d] by simp
  from close_step [OF 1(2) a(1) this] obtain k2 where 2: "sys_Close c (int i) k1 = Inr (0, k2)" "desk held c p n m k2"
      "files_only k1 k2" "fds k2 = (fds k1)(p := (fds k1 p)(i := None))" by blast
  have "fds k2 = (fds k)(p := (fds k p)(j := Some f, i := None))" by (simp add: 2(4) 1(4))
  with 1 2 files_only_trans [OF 1(3) 2(3)] show ?thesis by blast
qed

definition fits :: "string list \<Rightarrow> bool" where
  "fits argv \<longleftrightarrow> length (packed (c_strings argv)) + sizeof_ptr < 2 ^ 31"

lemma Execute_step:
  assumes d: "desk held c p n (Suc m) k" and junk: "\<And>l. length (junk_bytes e l) = l" and fit: "fits argv"
  shows "\<exists>q k'. Execute e c cmd argv k = Inr (int q, k') \<and> 1 < q \<and> q \<noteq> p \<and> q < MAX_PROC \<and>
    pstate (PT k q) = FREE \<and> pstate (PT k' q) = ALIVE \<and> (\<forall>r. r \<noteq> q \<longrightarrow> pstate (PT k' r) = pstate (PT k r)) \<and>
    desk held c p n m k' \<and> fds k' = (fds k)(q := fds k p) \<and> stream k' = stream k \<and> next_addr k \<le> next_addr k' \<and> ports k' = ports k"
proof -
  define l where "l = length (packed (c_strings argv)) + sizeof_ptr"
  have l: "l < 2 ^ 31" using fit by (simp add: fits_def l_def)
  have "terminated (c_strings argv)" by (auto simp: c_strings_def)
  then have a: "Execute_args (junk_bytes e) (prog_ptr e cmd) (length argv) (c_strings argv) =
      Inr (of_nat l, ptr_bytes (prog_ptr e cmd) @ packed (c_strings argv))"
    using Execute_args_eq [of "c_strings argv" "junk_bytes e" "prog_ptr e cmd"] junk l by (simp add: l_def c_strings_def)
  from sint_ucast [OF l] a exec_step [OF d, of "int l"] show ?thesis by (simp add: Execute_def)
qed

section \<open>What Execute leaves for the new process\<close>

lemma malloc_frame: "malloc k = (r, k') \<Longrightarrow> PT k' = PT k \<and> ptcbs k' = ptcbs k"
  by (auto simp: malloc_def split: if_splits)

lemma spawn_frame: "spawn old p f k = Inr (t, k') \<Longrightarrow> PT k' = PT k \<and> ptcbs k' = ptcbs k"
  by (auto simp: spawn_def Let_def split: option.splits prod.splits dest: malloc_frame)

lemma exec_thread_args:
  assumes "exec_thread old p (Some w) n (Some b) k = Inr k'" and "0 \<le> n"
  shows "\<exists>a t. main_thread (PT k' p) = Some a \<and> ptcbs k' a = Some t \<and> main_task t = Some w \<and> argl t = n \<and> args t = Owned (map b [0..<nat n])"
proof -
  obtain a k1 where 1: "Create_PTCB p k = Inr (a, k1)" using assms(1) by (auto simp: exec_thread_def elim!: bindE_elim2)
  then obtain t where t: "ptcbs k1 a = Some t"
    by (auto simp: Create_PTCB_def cond_init_def split: option.splits prod.splits)
  obtain k2 where 2: "copy_args n (Some b) k1 = Inr (Owned (map b [0..<nat n]), k2)" "ptcbs k2 = ptcbs k1"
    using assms 1 malloc_frame [of k1]
    by (auto simp: exec_thread_def copy_args_def split: option.splits prod.splits)
  define k3 where "k3 = upd_ptcb a (\<lambda>t. t\<lparr>main_task := Some w, argl := n, detached := True, args := Owned (map b [0..<nat n])\<rparr>)
                (upd_pcb p (\<lambda>b. b\<lparr>main_thread := Some a\<rparr>) k2)"
  obtain th k4 where 4: "spawn old p START_MAIN_THREAD k3 = Inr (th, k4)"
    using assms(1) 1 2(1) by (auto simp: exec_thread_def k3_def Let_def elim!: bindE_elim2)
  define k5 where "k5 = set_owner_ptcb th a (upd_pcb p (\<lambda>b. b\<lparr>thread_count := 1\<rparr>) (upd_ptcb a (\<lambda>x. x\<lparr>pthread := Some th\<rparr>) k4))"
  obtain y where 5: "on_sch (wakeup th) k5 = Inr (y, k')"
    using assms(1) 1 2(1) 4 by (auto simp: exec_thread_def k3_def [symmetric] k5_def [symmetric] Let_def elim!: bindE_elim)
  have "PT k' = PT k5" "ptcbs k' = ptcbs k5" using 5 by (auto simp: on_sch_def elim!: bindE_elim)
  moreover have "main_thread (PT k5 p) = Some a" "ptcbs k5 a = Some (t\<lparr>main_task := Some w, argl := n, detached := True,
      args := Owned (map b [0..<nat n]), pthread := Some th\<rparr>)"
    using spawn_frame [OF 4] t 2(2) by (simp_all add: k5_def k3_def set_owner_ptcb_def upd_pcb_def upd_ptcb_def)
  ultimately show ?thesis by simp
qed

lemma sys_Exec_args:
  assumes "sys_Exec old c (Some w) n (Some b) k = Inr (int q, k')" and "0 \<le> n"
  shows "\<exists>a t. main_thread (PT k' q) = Some a \<and> ptcbs k' a = Some t \<and> main_task t = Some w \<and> argl t = n \<and> args t = Owned (map b [0..<nat n])"
proof -
  obtain p k1 k2 where "exec_thread old p (Some w) n (Some b) k2 = Inr k'" "p = q"
    using assms(1) by (auto simp: sys_Exec_def get_pid_def NOPROC_def elim!: bindE_elim split: prod.splits option.splits)
  then show ?thesis using exec_thread_args assms(2) by blast
qed

text \<open>
  The main thread of process \<open>q\<close> is to call \<^verbatim>\<open>exec_wrapper\<close>, and that calls the program \<open>cmd\<close> with the strings
  \<open>strs\<close>.
\<close>

definition runs :: "exec_env \<Rightarrow> nat \<Rightarrow> kernel \<Rightarrow> int \<Rightarrow> byte list list \<Rightarrow> bool" where
  "runs e q k cmd strs \<longleftrightarrow> (\<exists>a t bs. main_thread (PT k q) = Some a \<and> ptcbs k a = Some t \<and>
     main_task t = Some (wrapper e) \<and> args t = Owned bs \<and>
     exec_wrapper (argl t) bs = Inr (prog_ptr e cmd, length strs, strs))"

lemma Execute_runs:
  assumes x: "Execute e c cmd argv k = Inr (int q, k')" and junk: "\<And>l. length (junk_bytes e l) = l" and fit: "fits argv"
  shows "runs e q k' cmd (map cstring (c_strings argv))"
proof -
  let ?s = "c_strings argv"
  let ?l = "length (packed ?s) + sizeof_ptr"
  let ?b = "ptr_bytes (prog_ptr e cmd) @ packed ?s"
  have l: "?l < 2 ^ 31" using fit by (simp add: fits_def)
  have "terminated ?s" by (auto simp: c_strings_def)
  then have "Execute_args (junk_bytes e) (prog_ptr e cmd) (length argv) ?s = Inr (of_nat ?l, ?b)"
    using Execute_args_eq [of ?s "junk_bytes e" "prog_ptr e cmd"] junk l by (simp add: c_strings_def)
  with sint_ucast [OF l] have "sys_Exec (old_tcb e) c (Some (wrapper e)) (int ?l) (Some (\<lambda>i. ?b ! i)) k = Inr (int q, k')"
    using x by (simp add: Execute_def)
  from sys_Exec_args [OF this] obtain a t where t: "main_thread (PT k' q) = Some a" "ptcbs k' a = Some t"
    "main_task t = Some (wrapper e)" "argl t = int ?l" "args t = Owned (map (\<lambda>i. ?b ! i) [0..<nat (int ?l)])" by auto
  have n: "nat (int ?l) = length ?b" by (simp only: nat_int length_append length_ptr_bytes add.commute)
  have b: "map (\<lambda>i. ?b ! i) [0..<nat (int ?l)] = ?b" unfolding n by (rule map_nth)
  show ?thesis
    unfolding runs_def using t(1-3) t(5) [unfolded b] exec_wrapper_eq [OF l, of "prog_ptr e cmd"]
    by (intro exI [of _ a] exI [of _ t] exI [of _ ?b]) (simp add: t(4))
qed

section \<open>The rounds of the loop\<close>

text \<open>
  The descriptors of the shell before it starts are \<open>base\<close>, with \<open>in0\<close> and \<open>out\<close> as standard input and output. Two
  unused descriptors \<open>si\<close> and \<open>so\<close> save them, and each pipe gets the descriptors \<open>rd\<close> and \<open>wr\<close>.
\<close>

record layout =
  base :: "nat \<Rightarrow> nat option"
  in0 :: nat
  out :: nat
  si :: nat
  so :: nat
  rd :: nat
  wr :: nat

definition layout_ok :: "layout \<Rightarrow> bool" where
  "layout_ok l \<longleftrightarrow> base l 0 = Some (in0 l) \<and> base l 1 = Some (out l) \<and>
     base l (si l) = None \<and> base l (so l) = None \<and> base l (rd l) = None \<and> base l (wr l) = None \<and>
     distinct [0, 1, si l, so l, rd l, wr l] \<and> (\<forall>i \<in> {si l, so l, rd l, wr l}. i < MAX_FILEID)"

definition saved :: "layout \<Rightarrow> nat \<Rightarrow> nat \<Rightarrow> nat \<Rightarrow> nat option" where
  "saved l x y = (base l)(0 := Some x, 1 := Some y, si l := Some (in0 l), so l := Some (out l))"

text \<open>
  The descriptors that the children get: \<open>x\<close> is the input of the first one, and each pipe is given by
  its two blocks and its address.
\<close>

fun wired :: "layout \<Rightarrow> nat \<Rightarrow> (nat \<times> nat \<times> nat) list \<Rightarrow> (nat \<Rightarrow> nat option) list" where
  "wired l x [] = [(saved l x (out l))(so l := None)]"
| "wired l x ((r, w, a) # ps) = (saved l x w)(rd l := Some r) # wired l r ps"

definition elsewhere :: "nat \<Rightarrow> kernel \<Rightarrow> nat \<Rightarrow> bool" where
  "elsewhere p k b \<longleftrightarrow> (\<exists>q i. q \<noteq> p \<and> q < MAX_PROC \<and> fds k q i = Some b)"

lemma elsewhere_refs: "fds k p i = Some b \<Longrightarrow> elsewhere p k b \<Longrightarrow> p < MAX_PROC \<Longrightarrow> 2 \<le> refs k b"
  unfolding elsewhere_def using refs_two by blast

lemma elsewhere_exec:
  assumes "elsewhere p k b" "fids_inv k" "pstate (PT k q) = FREE"
    and "\<And>r. r \<noteq> p \<Longrightarrow> fds k1 r = fds k r" and "\<And>r. r \<noteq> q \<Longrightarrow> fds k2 r = fds k1 r"
  shows "elsewhere p k2 b"
proof -
  from assms(1) obtain r i where r: "r \<noteq> p" "r < MAX_PROC" "fds k r i = Some b" by (auto simp: elsewhere_def)
  have "r \<noteq> q" using fds_dead [OF assms(2) r(2), of i] assms(3) r(3) by auto
  then have "fds k2 r i = Some b" using r(1,3) assms(4,5) by simp
  with r(1,2) show ?thesis by (auto simp: elsewhere_def)
qed

lemma saved_simps:
  assumes "layout_ok l"
  shows "saved l x y 0 = Some x" "saved l x y (Suc 0) = Some y" "saved l x y (si l) = Some (in0 l)" "saved l x y (so l) = Some (out l)"
    "saved l x y (rd l) = None" "saved l x y (wr l) = None"
    "si l \<noteq> 0" "si l \<noteq> Suc 0" "so l \<noteq> 0" "so l \<noteq> Suc 0" "rd l \<noteq> 0" "rd l \<noteq> Suc 0" "wr l \<noteq> 0" "wr l \<noteq> Suc 0" "si l \<noteq> so l" "si l \<noteq> rd l"
    "si l \<noteq> wr l" "so l \<noteq> rd l" "so l \<noteq> wr l" "rd l \<noteq> wr l"
    "si l < MAX_FILEID" "so l < MAX_FILEID" "rd l < MAX_FILEID" "wr l < MAX_FILEID"
proof -
  note D = assms [unfolded layout_ok_def]
  show ne: "si l \<noteq> 0" "si l \<noteq> Suc 0" "so l \<noteq> 0" "so l \<noteq> Suc 0" "rd l \<noteq> 0" "rd l \<noteq> Suc 0" "wr l \<noteq> 0" "wr l \<noteq> Suc 0"
    "si l \<noteq> so l" "si l \<noteq> rd l" "si l \<noteq> wr l" "so l \<noteq> rd l" "so l \<noteq> wr l" "rd l \<noteq> wr l"
    using D by auto
  show "si l < MAX_FILEID" "so l < MAX_FILEID" "rd l < MAX_FILEID" "wr l < MAX_FILEID" using D by simp_all
  show "saved l x y 0 = Some x" "saved l x y (Suc 0) = Some y" "saved l x y (si l) = Some (in0 l)" "saved l x y (so l) = Some (out l)"
    "saved l x y (rd l) = None" "saved l x y (wr l) = None"
    using ne ne [symmetric] D by (simp_all add: saved_def)
qed

lemma saved_update:
  assumes "layout_ok l"
  shows "(saved l x y)(1 := Some z) = saved l x z" "(saved l x y)(0 := Some z) = saved l z y"
  using saved_simps(7-10) [OF assms] by (auto simp: saved_def fun_eq_iff)

lemma zero_one_fid: "0 < MAX_FILEID" "1 < MAX_FILEID"
  by (simp_all add: MAX_FILEID_def)

lemma last_round:
  assumes d: "desk held c p n (Suc m) k" and l: "layout_ok l" and v: "fds k p = saved l x y"
    and x: "x = in0 l \<or> elsewhere p k x" and y: "y = out l \<or> elsewhere p k y"
    and e: "\<And>l. length (junk_bytes e l) = l" "fits argv"
  shows "\<exists>q k'. pipeline_loop e c (int (si l)) (int (so l)) pipe [(cmd, argv)] k = Inr ([int q], k') \<and>
    1 < q \<and> q \<noteq> p \<and> q < MAX_PROC \<and> pstate (PT k q) = FREE \<and> desk held c p n m k' \<and>
    fds k' = (fds k)(p := base l, q := (saved l x (out l))(so l := None)) \<and> stream k' = stream k"
proof -
  note S = saved_simps [OF l]
  have p: "p < MAX_PROC" by (rule deskD(6) [OF d])
  have a: "fds k p (so l) = Some (out l)" "fds k p 1 = Some y" "so l \<noteq> 1" by (simp_all add: v S)
  have "y = out l \<or> 2 \<le> refs k y" using y elsewhere_refs [OF a(2) _ p] by blast
  from move_step [OF d a(1) zero_one_fid(2) a(3,2) this] obtain k1 k2 where
    1: "sys_Dup2 c (int (so l)) (int 1) k = Inr (0, k1)" "sys_Close c (int (so l)) k1 = Inr (0, k2)"
      "desk held c p n (Suc m) k2" "files_only k k2" "fds k2 = (fds k)(p := (fds k p)(1 := Some (out l), so l := None))"
    by blast
  have v2: "fds k2 p = (saved l x (out l))(so l := None)" by (simp only: 1(5) fun_upd_same v saved_update(1) [OF l])
  have out: "redirect_out c (int (so l)) False pipe k = Inr (pipe, k2)" using 1(1,2) by (simp add: redirect_out_def)
  obtain q k3 where 3: "Execute e c cmd argv k2 = Inr (int q, k3)" "1 < q" "q \<noteq> p" "q < MAX_PROC" "pstate (PT k2 q) = FREE"
      "desk held c p n m k3" "fds k3 = (fds k2)(q := fds k2 p)" "stream k3 = stream k2"
    using Execute_step [OF 1(3) e] by blast
  have v3: "fds k3 p = (saved l x (out l))(so l := None)" using 3(3) by (simp add: 3(7) v2)
  have f: "pstate (PT k q) = FREE" using 3(5) files_only_sel(18) [OF 1(4)] by simp
  have "elsewhere p k3 b" if "elsewhere p k b" for b
    by (rule elsewhere_exec [OF that deskD(2) [OF d] f, of k2]) (simp_all add: 1(5) 3(7))
  then have xx: "x = in0 l \<or> elsewhere p k3 x" using x by blast
  have a': "fds k3 p (si l) = Some (in0 l)" "fds k3 p 0 = Some x" "si l \<noteq> 0" by (simp_all add: v3 S)
  have "x = in0 l \<or> 2 \<le> refs k3 x" using xx elsewhere_refs [OF a'(2) _ p] by blast
  from move_step [OF 3(6) a'(1) zero_one_fid(1) a'(3,2) this] obtain k4 k5 where
    4: "sys_Dup2 c (int (si l)) (int 0) k3 = Inr (0, k4)" "sys_Close c (int (si l)) k4 = Inr (0, k5)"
      "desk held c p n m k5" "files_only k3 k5" "fds k5 = (fds k3)(p := (fds k3 p)(0 := Some (in0 l), si l := None))"
    by blast
  have "redirect_in c (int (si l)) False pipe k3 = Inr k5" using 4(1,2) by (simp add: redirect_in_def)
  then have r: "pipeline_loop e c (int (si l)) (int (so l)) pipe [(cmd, argv)] k = Inr ([int q], k5)"
    using out 3(1) by simp
  have "(fds k3 p)(0 := Some (in0 l), si l := None) = base l"
    using l S by (auto simp: v3 saved_def fun_eq_iff layout_ok_def)
  then have 5: "fds k5 p = base l" by (simp add: 4(5))
  have "fds k5 q = fds k3 q" using 3(3) by (simp add: 4(5))
  then have 6: "fds k5 q = (saved l x (out l))(so l := None)" by (simp only: 3(7) fun_upd_same v2)
  have "fds k5 = (fds k)(p := base l, q := (saved l x (out l))(so l := None))"
  proof (rule ext)
    fix s
    consider (q) "s = q" | (p) "s = p" | (other) "s \<noteq> q" "s \<noteq> p" by blast
    then show "fds k5 s = ((fds k)(p := base l, q := (saved l x (out l))(so l := None))) s"
    proof cases
      case other
      then show ?thesis by (simp add: 4(5) 3(7) 1(5))
    qed (use 3(3) 5 6 in simp_all)
  qed
  moreover have "stream k5 = stream k"
    using stream_files_only [OF 4(4)] stream_files_only [OF 1(4)] 3(8) by simp
  ultimately show ?thesis using r 3(2,3,4) f 4(3) by blast
qed

lemma next_round:
  assumes d: "desk held c p (Suc (Suc n)) (Suc m) k" and l: "layout_ok l" and v: "fds k p = saved l x y"
    and fd: "find_fids 2 0 (saved l x y) = [rd l, wr l]"
    and x: "x = in0 l \<or> elsewhere p k x" and y: "y = out l \<or> elsewhere p k y"
    and e: "\<And>l. length (junk_bytes e l) = l" "fits argv" and fs: "fs \<noteq> []"
  shows "\<exists>q r w k'. pipeline_loop e c (int (si l)) (int (so l)) pipe ((cmd, argv) # fs) k =
      bindE (pipeline_loop e c (int (si l)) (int (so l)) (Some (int (rd l), int (wr l))) fs k') (\<lambda>(qs, k4). Inr (int q # qs, k4)) \<and>
    1 < q \<and> q \<noteq> p \<and> q < MAX_PROC \<and> pstate (PT k q) = FREE \<and> pstate (PT k' q) = ALIVE \<and>
    (\<forall>s. s \<noteq> q \<longrightarrow> pstate (PT k' s) = pstate (PT k s)) \<and> desk held c p n m k' \<and>
    fds k' = (fds k)(p := saved l r w, q := (saved l x w)(rd l := Some r)) \<and> r \<noteq> w \<and> \<not> in_table k r \<and> \<not> in_table k w \<and>
    stream k' = (stream k)(r := (Pipe_obj (next_addr k), Some Reader_ops), w := (Pipe_obj (next_addr k), Some Writer_ops)) \<and>
    next_addr k < next_addr k'"
proof -
  note S = saved_simps [OF l]
  have p: "p < MAX_PROC" by (rule deskD(6) [OF d])
  obtain r w k0 where 0: "sys_Pipe c k = Inr (Some (int (rd l), int (wr l)), k0)" "desk held c p n (Suc m) k0" "calm k k0"
      "r \<noteq> w" "\<not> in_table k r" "\<not> in_table k w" "fds k0 = (fds k)(p := (fds k p)(rd l := Some r, wr l := Some w))"
      "stream k0 = (stream k)(r := (Pipe_obj (next_addr k), Some Reader_ops), w := (Pipe_obj (next_addr k), Some Writer_ops))"
      "next_addr k0 = Suc (next_addr k)"
    using pipe_step_fds [OF d, of "rd l" "wr l"] fd v by auto
  have st0: "pstate (PT k0 s) = pstate (PT k s)" for s using 0(3) by (simp add: calm_def same_tree_def)
  have v0: "fds k0 p = (saved l x y)(rd l := Some r, wr l := Some w)" by (simp add: 0(7) v)
  have a: "fds k0 p (wr l) = Some w" "fds k0 p 1 = Some y" "wr l \<noteq> 1" using S by (auto simp: v0)
  have "elsewhere p k0 b" if "elsewhere p k b" for b using that by (auto simp: elsewhere_def 0(7))
  then have "y = out l \<or> elsewhere p k0 y" using y by blast
  moreover have "fds k0 p (so l) = Some (out l)" using S by (auto simp: v0)
  ultimately have "2 \<le> refs k0 y"
    using elsewhere_refs [OF a(2) _ p] refs_two [of k0 p 1 y p "so l"] a(2) S p by auto
  then have "y = w \<or> 2 \<le> refs k0 y" ..
  from move_step [OF 0(2) a(1) zero_one_fid(2) a(3,2) this] obtain k1 k2 where
    1: "sys_Dup2 c (int (wr l)) (int 1) k0 = Inr (0, k1)" "sys_Close c (int (wr l)) k1 = Inr (0, k2)"
      "desk held c p n (Suc m) k2" "files_only k0 k2" "fds k2 = (fds k0)(p := (fds k0 p)(1 := Some w, wr l := None))"
    by blast
  have "fds k2 p = (saved l x y)(rd l := Some r, wr l := Some w, 1 := Some w, wr l := None)" by (simp add: 1(5) v0)
  also have "\<dots> = ((saved l x y)(1 := Some w))(rd l := Some r)" using S by (auto simp: fun_eq_iff)
  finally have v2: "fds k2 p = (saved l x w)(rd l := Some r)" unfolding saved_update(1) [OF l] .
  have out: "redirect_out c (int (so l)) True pipe k = Inr (Some (int (rd l), int (wr l)), k2)"
    using 0(1) 1(1,2) by (simp add: redirect_out_def Let_def)
  obtain q k3 where 3: "Execute e c cmd argv k2 = Inr (int q, k3)" "1 < q" "q \<noteq> p" "q < MAX_PROC" "pstate (PT k2 q) = FREE"
      "pstate (PT k3 q) = ALIVE" "\<forall>s. s \<noteq> q \<longrightarrow> pstate (PT k3 s) = pstate (PT k2 s)"
      "desk held c p n m k3" "fds k3 = (fds k2)(q := fds k2 p)" "stream k3 = stream k2" "next_addr k2 \<le> next_addr k3"
    using Execute_step [OF 1(3) e] by blast
  have v3: "fds k3 p = (saved l x w)(rd l := Some r)" using 3(3) by (simp add: 3(9) v2)
  have f: "pstate (PT k q) = FREE" using 3(5) files_only_sel(18) [OF 1(4)] st0 by simp
  have "elsewhere p k3 b" if "elsewhere p k b" for b
    by (rule elsewhere_exec [OF that deskD(2) [OF d] f, of k2]) (simp_all add: 1(5) 0(7) 3(9))
  then have xx: "x = in0 l \<or> elsewhere p k3 x" using x by blast
  have a': "fds k3 p (rd l) = Some r" "fds k3 p 0 = Some x" "rd l \<noteq> 0" "fds k3 p (si l) = Some (in0 l)" using S by (auto simp: v3)
  have "2 \<le> refs k3 x"
    using xx elsewhere_refs [OF a'(2) _ p] refs_two [of k3 p 0 x p "si l"] a' S p by auto
  then have "x = r \<or> 2 \<le> refs k3 x" ..
  from move_step [OF 3(8) a'(1) zero_one_fid(1) a'(3,2) this] obtain k4 k5 where
    4: "sys_Dup2 c (int (rd l)) (int 0) k3 = Inr (0, k4)" "sys_Close c (int (rd l)) k4 = Inr (0, k5)"
      "desk held c p n m k5" "files_only k3 k5" "fds k5 = (fds k3)(p := (fds k3 p)(0 := Some r, rd l := None))"
    by blast
  have "(fds k3 p)(0 := Some r, rd l := None) = (saved l x w)(rd l := Some r, 0 := Some r, rd l := None)" by (simp add: v3)
  also have "\<dots> = (saved l x w)(0 := Some r)" using S by (auto simp: fun_eq_iff)
  finally have "(fds k3 p)(0 := Some r, rd l := None) = saved l r w" unfolding saved_update(2) [OF l] .
  then have 5: "fds k5 p = saved l r w" by (simp add: 4(5))
  have "fds k5 q = fds k3 q" using 3(3) by (simp add: 4(5))
  then have 6: "fds k5 q = (saved l x w)(rd l := Some r)" by (simp only: 3(9) fun_upd_same v2)
  have v5: "fds k5 = (fds k)(p := saved l r w, q := (saved l x w)(rd l := Some r))"
  proof (rule ext)
    fix s
    consider (q) "s = q" | (p) "s = p" | (other) "s \<noteq> q" "s \<noteq> p" by blast
    then show "fds k5 s = ((fds k)(p := saved l r w, q := (saved l x w)(rd l := Some r))) s"
    proof cases
      case other
      then show ?thesis by (simp add: 4(5) 3(9) 1(5) 0(7))
    qed (use 3(3) 5 6 in simp_all)
  qed
  have "redirect_in c (int (si l)) True (Some (int (rd l), int (wr l))) k3 = Inr k5"
    using 4(1,2) by (simp add: redirect_in_def)
  then have "pipeline_loop e c (int (si l)) (int (so l)) pipe ((cmd, argv) # fs) k =
      bindE (pipeline_loop e c (int (si l)) (int (so l)) (Some (int (rd l), int (wr l))) fs k5) (\<lambda>(qs, k4). Inr (int q # qs, k4))"
    using out 3(1) fs by simp
  moreover have "stream k5 = stream k0"
    using stream_files_only [OF 4(4)] stream_files_only [OF 1(4)] 3(10) by simp
  moreover have "next_addr k < next_addr k5"
    using files_only_sel(11) [OF 4(4)] files_only_sel(11) [OF 1(4)] 3(11) 0(9) by simp
  moreover have "pstate (PT k5 q) = ALIVE" "\<And>s. s \<noteq> q \<Longrightarrow> pstate (PT k5 s) = pstate (PT k s)"
    using files_only_sel(18) [OF 4(4)] files_only_sel(18) [OF 1(4)] 3(6,7) st0 by simp_all
  ultimately show ?thesis using 3(2,3,4) f 4(3) v5 0(4,5,6,8) by metis
qed

section \<open>The whole loop\<close>

definition blocks :: "(nat \<times> nat \<times> nat) list \<Rightarrow> nat list" where
  "blocks ps = concat (map (\<lambda>(r, w, a). [r, w]) ps)"

lemma blocks_simps [simp]: "blocks [] = []" "blocks ((r, w, a) # ps) = r # w # blocks ps"
  by (simp_all add: blocks_def)

text \<open>The pipes \<open>ps\<close> are new in \<open>k\<close>, are different from each other, and have their two ends in \<open>k'\<close>.\<close>

definition new_pipes :: "kernel \<Rightarrow> (nat \<times> nat \<times> nat) list \<Rightarrow> kernel \<Rightarrow> bool" where
  "new_pipes k ps k' \<longleftrightarrow> distinct (blocks ps) \<and> (\<forall>b \<in> set (blocks ps). \<not> in_table k b) \<and>
     distinct (map (\<lambda>(r, w, a). a) ps) \<and>
     (\<forall>(r, w, a) \<in> set ps. next_addr k \<le> a \<and>
        stream k' r = (Pipe_obj a, Some Reader_ops) \<and> stream k' w = (Pipe_obj a, Some Writer_ops))"

lemma round_keeps_blocks:
  assumes inv: "fids_inv k" "p < MAX_PROC" and l: "layout_ok l" and v: "fds k p = saved l x y"
    and x: "x = in0 l \<or> elsewhere p k x" and y: "y = out l \<or> elsewhere p k y"
    and q: "pstate (PT k q) = FREE" "q \<noteq> p" and v': "fds k' = (fds k)(p := saved l r w, q := z)"
    and b: "in_table k b"
  shows "in_table k' b"
proof -
  have e: "in_table k' c" if c: "elsewhere p k c" for c
  proof -
    obtain s i where s: "s \<noteq> p" "s < MAX_PROC" "fds k s i = Some c" using c by (auto simp: elsewhere_def)
    have "s \<noteq> q" using fds_dead [OF inv(1) s(2), of i] q(1) s(3) by auto
    with s have "fds k' s i = Some c" by (simp add: v')
    with s(2) show ?thesis by (auto simp: in_table_def)
  qed
  note S = saved_simps [OF l]
  have old: "in_table k' (in0 l)" "in_table k' (out l)"
  proof -
    have "fds k' p = saved l r w" using q(2) by (simp add: v')
    then have "fds k' p (si l) = Some (in0 l)" "fds k' p (so l) = Some (out l)" by (simp_all add: S)
    with inv(2) show "in_table k' (in0 l)" "in_table k' (out l)" unfolding in_table_def by blast+
  qed
  from b obtain s i where s: "s < MAX_PROC" "fds k s i = Some b" by (auto simp: in_table_def)
  show ?thesis
  proof (cases "s = p")
    case False
    with s have "elsewhere p k b" by (auto simp: elsewhere_def)
    then show ?thesis by (rule e)
  next
    case True
    then have i: "saved l x y i = Some b" using s v by simp
    consider "i = 0" | "i = 1" | "i \<noteq> 0" "i \<noteq> 1" by blast
    then show ?thesis
    proof cases
      case 1
      with i S(1) x e old(1) show ?thesis by auto
    next
      case 2
      with i S(2) y e old(2) show ?thesis by auto
    next
      case 3
      then have "saved l r w i = saved l x y i" by (simp add: saved_def)
      with i v' q(2) have "fds k' p i = Some b" by simp
      with inv(2) show ?thesis by (auto simp: in_table_def)
    qed
  qed
qed

lemma pipeline_loop_wired:
  assumes "desk held c p (2 * length fs) (length fs) k" and "layout_ok l" and "fds k p = saved l x y"
    and "find_fids 2 0 (saved l x y) = [rd l, wr l]" and "x = in0 l \<or> elsewhere p k x" and "y = out l \<or> elsewhere p k y"
    and "\<And>l. length (junk_bytes e l) = l" and "\<And>f. f \<in> set fs \<Longrightarrow> fits (snd f)" and "fs \<noteq> []"
  shows "\<exists>qs ps k'. pipeline_loop e c (int (si l)) (int (so l)) pipe fs k = Inr (map int qs, k') \<and>
    length qs = length fs \<and> Suc (length ps) = length fs \<and> distinct qs \<and>
    (\<forall>q \<in> set qs. 1 < q \<and> q \<noteq> p \<and> q < MAX_PROC \<and> pstate (PT k q) = FREE) \<and>
    fds k' p = base l \<and> map (fds k') qs = wired l x ps \<and> (\<forall>s. s \<noteq> p \<longrightarrow> s \<notin> set qs \<longrightarrow> fds k' s = fds k s) \<and>
    new_pipes k ps k' \<and> (\<forall>b. in_table k b \<longrightarrow> stream k' b = stream k b)"
  using assms
proof (induction fs arbitrary: k x y pipe)
  case Nil
  then show ?case by simp
next
  case (Cons f fs)
  obtain cmd argv where f: "f = (cmd, argv)" by (cases f)
  note l = Cons.prems(2) and junk = Cons.prems(7)
  have fit: "fits argv" using Cons.prems(8) [of f] f by simp
  have p: "p < MAX_PROC" by (rule deskD(6) [OF Cons.prems(1)])
  note S = saved_simps [OF l]
  show ?case
  proof (cases "fs = []")
    case True
    then have "desk held c p 2 (Suc 0) k" using Cons.prems(1) by (simp add: eval_nat_numeral)
    from last_round [OF this l Cons.prems(3,5,6) junk fit, of pipe cmd]
    obtain q k' where "pipeline_loop e c (int (si l)) (int (so l)) pipe (f # fs) k = Inr ([int q], k')"
      "1 < q" "q \<noteq> p" "q < MAX_PROC" "pstate (PT k q) = FREE"
      "fds k' = (fds k)(p := base l, q := (saved l x (out l))(so l := None))" "stream k' = stream k"
      unfolding f True by blast
    then show ?thesis
      by (intro exI [of _ "[q]"] exI [of _ "[]"] exI [of _ k']) (simp add: True new_pipes_def)
  next
    case False
    have d: "desk held c p (Suc (Suc (2 * length fs))) (Suc (length fs)) k" using Cons.prems(1) by simp
    obtain q r w k1 where 1: "pipeline_loop e c (int (si l)) (int (so l)) pipe (f # fs) k =
        bindE (pipeline_loop e c (int (si l)) (int (so l)) (Some (int (rd l), int (wr l))) fs k1) (\<lambda>(qs, k4). Inr (int q # qs, k4))"
      "1 < q" "q \<noteq> p" "q < MAX_PROC" "pstate (PT k q) = FREE" "pstate (PT k1 q) = ALIVE"
      "\<forall>s. s \<noteq> q \<longrightarrow> pstate (PT k1 s) = pstate (PT k s)" "desk held c p (2 * length fs) (length fs) k1"
      "fds k1 = (fds k)(p := saved l r w, q := (saved l x w)(rd l := Some r))" "r \<noteq> w" "\<not> in_table k r" "\<not> in_table k w"
      "stream k1 = (stream k)(r := (Pipe_obj (next_addr k), Some Reader_ops), w := (Pipe_obj (next_addr k), Some Writer_ops))"
      "next_addr k < next_addr k1"
      using next_round [OF d l Cons.prems(3,4,5,6) junk fit False, of pipe cmd] unfolding f by blast
    have qq: "fds k1 q = (saved l x w)(rd l := Some r)" "fds k1 p = saved l r w" using 1(3) by (simp_all add: 1(9))
    have "elsewhere p k1 r" "elsewhere p k1 w"
      unfolding elsewhere_def using qq(1) 1(3,4) S by (metis fun_upd_same, metis fun_upd_other)
    moreover have "find_fids 2 0 (saved l r w) = [rd l, wr l]"
    proof -
      have "find_fids 2 0 (saved l r w) = find_fids 2 0 (saved l x y)" by (rule find_fids_cong) (auto simp: saved_def)
      with Cons.prems(4) show ?thesis by simp
    qed
    ultimately obtain qs ps k' where I: "pipeline_loop e c (int (si l)) (int (so l)) (Some (int (rd l), int (wr l))) fs k1 = Inr (map int qs, k')"
      "length qs = length fs" "Suc (length ps) = length fs" "distinct qs"
      "\<forall>q \<in> set qs. 1 < q \<and> q \<noteq> p \<and> q < MAX_PROC \<and> pstate (PT k1 q) = FREE"
      "fds k' p = base l" "map (fds k') qs = wired l r ps" "\<forall>s. s \<noteq> p \<longrightarrow> s \<notin> set qs \<longrightarrow> fds k' s = fds k1 s"
      "new_pipes k1 ps k'" "\<forall>b. in_table k1 b \<longrightarrow> stream k' b = stream k1 b"
      using Cons.IH [OF 1(8) l qq(2) _ _ _ junk _ False, of "Some (int (rd l), int (wr l))"] Cons.prems(8) by auto
    have qqs: "q \<notin> set qs" using I(5) 1(6) by auto
    have keep: "in_table k1 b" if "in_table k b" for b
      by (rule round_keeps_blocks [OF deskD(2) [OF Cons.prems(1)] p l Cons.prems(3,5,6) 1(5,3,9) that])
    have tab: "in_table k1 r" "in_table k1 w" using \<open>elsewhere p k1 r\<close> \<open>elsewhere p k1 w\<close> by (auto simp: elsewhere_def in_table_def)
    have "new_pipes k ((r, w, next_addr k) # ps) k'"
      using I(9,10) tab keep 1(10-14) unfolding new_pipes_def by fastforce
    moreover have "stream k' b = stream k b" if "in_table k b" for b
      using I(10) keep [OF that] that 1(11,12,13) by auto
    moreover have "fds k' s = fds k s" if "s \<noteq> p" "s \<noteq> q" "s \<notin> set qs" for s using I(8) that by (simp add: 1(9))
    moreover have "fds k' q = (saved l x w)(rd l := Some r)" using I(8) qqs 1(3) qq(1) by simp
    moreover have "\<forall>s \<in> set qs. pstate (PT k s) = FREE" using I(5) 1(7) qqs by metis
    ultimately show ?thesis
      using I(1-7) 1(1-5) qqs
      by (intro exI [of _ "q # qs"] exI [of _ "(r, w, next_addr k) # ps"] exI [of _ k']) simp
  qed
qed

section \<open>Who holds the ends of the pipes\<close>

lemma wired_ends:
  assumes l: "layout_ok l" and i: "i \<le> length ps"
  shows "(wired l x ps ! i) 0 = Some (if i = 0 then x else fst (ps ! (i - 1)))"
    and "(wired l x ps ! i) 1 = Some (if i = length ps then out l else fst (snd (ps ! i)))"
proof -
  note S = saved_simps [OF l]
  have "(wired l x ps ! i) 0 = Some (if i = 0 then x else fst (ps ! (i - 1))) \<and>
      (wired l x ps ! i) 1 = Some (if i = length ps then out l else fst (snd (ps ! i)))"
    using i
  proof (induction ps arbitrary: x i)
    case Nil
    then show ?case using S(1,2,9,10) by (auto simp: fun_upd_def)
  next
    case (Cons t ps)
    obtain r w a where t: "t = (r, w, a)" by (cases t)
    show ?case
    proof (cases i)
      case 0
      then show ?thesis using S(1,2,11,12) by (auto simp: t fun_upd_def)
    next
      case (Suc n)
      with Cons.IH [of n r] Cons.prems show ?thesis by (cases n) (simp_all add: t)
    qed
  qed
  then show "(wired l x ps ! i) 0 = Some (if i = 0 then x else fst (ps ! (i - 1)))"
    "(wired l x ps ! i) 1 = Some (if i = length ps then out l else fst (snd (ps ! i)))" by simp_all
qed

lemma length_wired [simp]: "length (wired l x ps) = Suc (length ps)"
  by (induction ps arbitrary: x) auto

lemma saved_block:
  assumes l: "layout_ok l" and b: "\<And>j. base l j \<noteq> Some b"
  shows "saved l x y j = Some b \<longleftrightarrow> j = 0 \<and> x = b \<or> j = 1 \<and> y = b"
proof -
  have "in0 l \<noteq> b" "out l \<noteq> b" using b [of 0] b [of 1] l by (auto simp: layout_ok_def)
  then show ?thesis using b [of j] saved_simps(7-10) [OF l] by (auto simp: saved_def)
qed

lemma wired_input:
  assumes l: "layout_ok l" and b: "\<And>j. base l j \<noteq> Some x" "x \<notin> set (blocks ps)" and i: "i \<le> length ps"
  shows "(wired l x ps ! i) j = Some x \<longleftrightarrow> i = 0 \<and> j = 0"
proof -
  have none: "(wired l z ps ! i) j \<noteq> Some x" if "z \<noteq> x" "x \<notin> set (blocks ps)" "i \<le> length ps" for z ps i
    using that
  proof (induction ps arbitrary: z i)
    case Nil
    have "out l \<noteq> x" using b(1) [of 1] l by (auto simp: layout_ok_def)
    with Nil show ?case by (auto simp: saved_block [OF l b(1)])
  next
    case (Cons t ps)
    obtain r w a where t: "t = (r, w, a)" by (cases t)
    with Cons show ?case by (cases i) (auto simp: saved_block [OF l b(1)])
  qed
  show ?thesis
  proof (cases ps)
    case Nil
    have "out l \<noteq> x" using b(1) [of 1] l by (auto simp: layout_ok_def)
    with Nil i show ?thesis using saved_simps(9) [OF l] by (auto simp: saved_block [OF l b(1)])
  next
    case (Cons t qs)
    obtain r w a where t: "t = (r, w, a)" by (cases t)
    have "r \<noteq> x" "w \<noteq> x" "x \<notin> set (blocks qs)" using b(2) by (auto simp: Cons t)
    with none [of r qs "i - 1"] i show ?thesis using saved_simps(11) [OF l]
      by (cases i) (auto simp: Cons t saved_block [OF l b(1)])
  qed
qed

lemma wired_holders:
  assumes l: "layout_ok l" and b: "\<And>b j. b \<in> set (blocks ps) \<Longrightarrow> base l j \<noteq> Some b" "x \<notin> set (blocks ps)" "distinct (blocks ps)"
    and i: "i < length ps" "m \<le> length ps" and t: "ps ! i = (r, w, a)"
  shows "(wired l x ps ! m) j = Some w \<longleftrightarrow> m = i \<and> j = 1"
    and "(wired l x ps ! m) j = Some r \<longleftrightarrow> m = i \<and> j = rd l \<or> m = Suc i \<and> j = 0"
proof -
  note S = saved_simps [OF l]
  have "((wired l x ps ! m) j = Some w \<longleftrightarrow> m = i \<and> j = 1) \<and>
      ((wired l x ps ! m) j = Some r \<longleftrightarrow> m = i \<and> j = rd l \<or> m = Suc i \<and> j = 0)"
    using b i t
  proof (induction ps arbitrary: x i m)
    case Nil
    then show ?case by simp
  next
    case (Cons p0 ps)
    obtain r0 w0 a0 where p0: "p0 = (r0, w0, a0)" by (cases p0)
    have B: "\<And>j. base l j \<noteq> Some r0" "\<And>j. base l j \<noteq> Some w0" "r0 \<notin> set (blocks ps)" "w0 \<notin> set (blocks ps)" "r0 \<noteq> w0"
        "x \<noteq> r0" "x \<noteq> w0" "x \<notin> set (blocks ps)" "distinct (blocks ps)"
        "\<And>b j. b \<in> set (blocks ps) \<Longrightarrow> base l j \<noteq> Some b"
      using Cons.prems(1-3) by (auto simp: p0)
    have other: "(wired l z ps ! n) j \<noteq> Some w0" if "z \<noteq> w0" "n \<le> length ps" for z n
    proof -
      have "out l \<noteq> w0" using B(2) [of 1] l by (auto simp: layout_ok_def)
      then show ?thesis using that B(4)
      proof (induction ps arbitrary: z n)
        case Nil
        then show ?case by (auto simp: saved_block [OF l B(2)])
      next
        case (Cons t ps)
        obtain r w a where t: "t = (r, w, a)" by (cases t)
        with Cons show ?case by (cases n) (auto simp: saved_block [OF l B(2)])
      qed
    qed
    show ?case
    proof (cases i)
      case 0
      then have e: "r = r0" "w = w0" using Cons.prems(6) by (simp_all add: p0)
      show ?thesis
      proof (cases m)
        case 0
        with \<open>i = 0\<close> e show ?thesis using B(5,6,7) S(11,12)
          by (auto simp: p0 saved_block [OF l B(1)] saved_block [OF l B(2)])
      next
        case (Suc n)
        with \<open>i = 0\<close> e Cons.prems(5) show ?thesis
          using wired_input [OF l B(1,3), of n j] other [OF B(5), of n] by (simp add: p0)
      qed
    next
      case (Suc n)
      have ps: "ps ! n = (r, w, a)" "n < length ps" using Cons.prems(4,6) Suc by simp_all
      have "r \<in> set (blocks ps)" "w \<in> set (blocks ps)"
        using nth_mem [OF ps(2)] ps(1) by (force simp: blocks_def)+
      then have R: "\<And>j. base l j \<noteq> Some r" "\<And>j. base l j \<noteq> Some w" "r \<noteq> x" "w \<noteq> x" "r \<noteq> r0" "r \<noteq> w0" "w \<noteq> r0" "w \<noteq> w0"
        using B by auto
      show ?thesis
      proof (cases m)
        case 0
        with Suc R show ?thesis by (auto simp: p0 saved_block [OF l R(1)] saved_block [OF l R(2)])
      next
        case (Suc m')
        with \<open>i = Suc n\<close> Cons.IH [OF B(10,3,9) ps(2) _ ps(1), of m'] Cons.prems(5) show ?thesis by (simp add: p0)
      qed
    qed
  qed
  then show "(wired l x ps ! m) j = Some w \<longleftrightarrow> m = i \<and> j = 1"
    and "(wired l x ps ! m) j = Some r \<longleftrightarrow> m = i \<and> j = rd l \<or> m = Suc i \<and> j = 0" by simp_all
qed

section \<open>Starting a pipeline\<close>

definition unused :: "(nat \<Rightarrow> nat option) \<Rightarrow> nat set" where
  "unused g = {i. i < MAX_FILEID \<and> g i = None}"

lemma finite_unused [simp]: "finite (unused g)"
  by (simp add: unused_def)

lemma find_fids_enough: "n \<le> card (unused g) \<Longrightarrow> length (find_fids n 0 g) = n"
proof (rule ccontr)
  assume n: "n \<le> card (unused g)" and "length (find_fids n 0 g) \<noteq> n"
  then have "length (find_fids n 0 g) < n" using find_fids_props(1) [OF refl, of n 0 g] by simp
  from find_fids_short [OF this] this show False
    using n distinct_card [OF find_fids_props(2) [OF refl, of n 0 g]] by (simp add: unused_def)
qed

lemma card_unused_upd: "i \<in> unused g \<Longrightarrow> card (unused (g(i := Some f))) = card (unused g) - 1"
proof -
  assume "i \<in> unused g"
  moreover have "unused (g(i := Some f)) = unused g - {i}" by (auto simp: unused_def)
  ultimately show ?thesis by simp
qed

lemma find_one:
  assumes "Suc n \<le> card (unused g)"
  obtains i where "find_fids 1 0 g = [i]" "i \<in> unused g" "n \<le> card (unused (g(i := Some f)))"
proof -
  obtain i where i: "find_fids 1 0 g = [i]" using find_fids_enough [of 1 g] assms by (auto simp: length_Suc_conv)
  then have "i \<in> unused g" using find_fids_props(3) [OF i] by (simp add: unused_def)
  with i that card_unused_upd [OF this] assms show ?thesis by simp
qed

lemma open_ne: "g i = Some f \<Longrightarrow> g j = None \<Longrightarrow> j \<noteq> i"
  by auto

lemma start_pipeline_wired:
  assumes d: "desk held c p (2 * length fs + 2) (length fs) k" and fs: "fs \<noteq> []"
    and b: "fds k p 0 = Some i0" "fds k p 1 = Some o0" and free: "4 \<le> card (unused (fds k p))"
    and junk: "\<And>l. length (junk_bytes e l) = l" and fit: "\<And>f. f \<in> set fs \<Longrightarrow> fits (snd f)"
  obtains l qs ps k2 k' where "start_pipeline e c fs k = Inr (map int qs, k')" "layout_ok l" "base l = fds k p" "in0 l = i0" "out l = o0"
    "length qs = length fs" "Suc (length ps) = length fs" "distinct qs" "\<forall>q \<in> set qs. q \<noteq> p \<and> q < MAX_PROC \<and> pstate (PT k q) = FREE"
    "fds k' p = fds k p" "map (fds k') qs = wired l i0 ps" "\<forall>s. s \<noteq> p \<longrightarrow> s \<notin> set qs \<longrightarrow> fds k' s = fds k s"
    "new_pipes k2 ps k'" "\<forall>b. in_table k b \<longrightarrow> in_table k2 b" "p < MAX_PROC"
proof -
  have p: "p < MAX_PROC" by (rule deskD(6) [OF d])
  obtain s1 where 1: "find_fids 1 0 (fds k p) = [s1]" "s1 \<in> unused (fds k p)" "3 \<le> card (unused ((fds k p)(s1 := Some i0)))"
    using find_one [of 3 "fds k p" i0] free by auto
  from savefid_step [OF _ b(1) 1(1), of held c "2 * length fs + 1" "length fs"] d obtain k1 where
    k1: "savefid c 0 k = Inr (int s1, k1)" "desk held c p (2 * length fs + 1) (length fs) k1" "calm k k1"
      "fds k1 = (fds k)(p := (fds k p)(s1 := Some i0))" by auto
  have o1: "fds k1 p 1 = Some o0" using b(2) 1(2) by (auto simp: k1(4) unused_def)
  obtain s2 where 2: "find_fids 1 0 (fds k1 p) = [s2]" "s2 \<in> unused (fds k1 p)" "2 \<le> card (unused ((fds k1 p)(s2 := Some o0)))"
    using find_one [of 2 "fds k1 p" o0] 1(3) by (auto simp: k1(4))
  from savefid_step [OF _ o1 2(1), of held c "2 * length fs" "length fs"] k1(2) obtain k2 where
    k2: "savefid c 1 k1 = Inr (int s2, k2)" "desk held c p (2 * length fs) (length fs) k2" "calm k1 k2"
      "fds k2 = (fds k1)(p := (fds k1 p)(s2 := Some o0))" by auto
  obtain r w where 3: "find_fids 2 0 (fds k2 p) = [r, w]"
    using find_fids_enough [of 2 "fds k2 p"] 2(3) by (auto simp: k2(4) length_Suc_conv numeral_2_eq_2)
  define l where "l = \<lparr>base = fds k p, in0 = i0, out = o0, si = s1, so = s2, rd = r, wr = w\<rparr>"
  have v2: "fds k2 p = (fds k p)(s1 := Some i0, s2 := Some o0)" by (simp add: k2(4) k1(4))
  have n: "fds k p s1 = None" "s1 < MAX_FILEID" "fds k p s2 = None" "s2 \<noteq> s1" "s2 < MAX_FILEID"
    using 1(2) 2(2) by (auto simp: unused_def k1(4) split: if_splits)
  have rw: "r \<noteq> w" "r < MAX_FILEID" "w < MAX_FILEID" "fds k2 p r = None" "fds k2 p w = None"
    using find_fids_props(2,3) [OF 3] by auto
  then have rw': "fds k p r = None" "fds k p w = None" "r \<noteq> s1" "r \<noteq> s2" "w \<noteq> s1" "w \<noteq> s2"
    by (auto simp: v2 split: if_splits)
  have z: "s1 \<noteq> 0" "s1 \<noteq> 1" "s2 \<noteq> 0" "s2 \<noteq> 1" "r \<noteq> 0" "r \<noteq> 1" "w \<noteq> 0" "w \<noteq> 1"
    by (rule open_ne [where g = "fds k p"], rule b, rule n rw')+
  have "distinct [0, 1, s1, s2, r, w]" using z n(4) rw(1) rw'(3-6) by auto
  then have lo: "layout_ok l" using b n rw(2,3) rw'(1,2) by (simp add: l_def layout_ok_def)
  have s: "saved l i0 o0 = fds k2 p" using b n by (auto simp: l_def saved_def v2 fun_eq_iff)
  have f2: "find_fids 2 0 (saved l i0 o0) = [rd l, wr l]" using 3 s by (simp add: l_def)
  obtain qs ps k' where L: "pipeline_loop e c (int (si l)) (int (so l)) None fs k2 = Inr (map int qs, k')"
    "length qs = length fs" "Suc (length ps) = length fs" "distinct qs"
    "\<forall>q \<in> set qs. 1 < q \<and> q \<noteq> p \<and> q < MAX_PROC \<and> pstate (PT k2 q) = FREE"
    "fds k' p = base l" "map (fds k') qs = wired l i0 ps" "\<forall>s. s \<noteq> p \<longrightarrow> s \<notin> set qs \<longrightarrow> fds k' s = fds k2 s" "new_pipes k2 ps k'"
    using pipeline_loop_wired [OF k2(2) lo s [symmetric] f2 _ _ junk fit fs, of None] by (auto simp: l_def)
  have "start_pipeline e c fs k = Inr (map int qs, k')"
    using k1(1) k2(1) L(1) by (simp add: start_pipeline_def l_def)
  moreover have "\<forall>q \<in> set qs. q \<noteq> p \<and> q < MAX_PROC \<and> pstate (PT k q) = FREE"
    using L(5) k1(3) k2(3) by (simp add: calm_def same_tree_def)
  moreover have "\<forall>s. s \<noteq> p \<longrightarrow> s \<notin> set qs \<longrightarrow> fds k' s = fds k s" using L(8) by (simp add: k2(4) k1(4))
  moreover have "\<forall>b. in_table k b \<longrightarrow> in_table k2 b"
  proof (intro allI impI)
    fix b
    assume "in_table k b"
    then obtain q j where q: "q < MAX_PROC" "fds k q j = Some b" by (auto simp: in_table_def)
    have "fds k2 q j = Some b" using q(2) n by (cases "q = p") (auto simp: v2, simp add: k2(4) k1(4))
    with q(1) show "in_table k2 b" by (auto simp: in_table_def)
  qed
  ultimately show ?thesis using that [of qs k' l ps k2] lo L p by (simp add: l_def)
qed

section \<open>The property of pipelines\<close>

text \<open>
  C7: the shell connects the fragments of a line. From a shell whose standard streams are open and
  that has four unused descriptors, with room in the tables, every process is started. The standard input of the first one and the
  standard output of the last one are those of the shell; between neighbours there is a new pipe,
  from the standard output of the one to the standard input of the next. The descriptors of the shell are as
  before. Nobody but the writer has the write end of a pipe, so its reader sees the end of the
  data when the writer has ended. But the writer has the read end of its own pipe too, and so does
  not see that the reader has ended.
\<close>

theorem pipeline_wired:
  assumes "desk held c p (2 * length fs + 2) (length fs) k" and "fs \<noteq> []"
    and "fds k p 0 \<noteq> None" "fds k p 1 \<noteq> None" and "4 \<le> card (unused (fds k p))"
    and "\<And>l. length (junk_bytes e l) = l" and "\<And>f. f \<in> set fs \<Longrightarrow> fits (snd f)"
  shows "\<exists>qs ps rd k'. start_pipeline e c fs k = Inr (map int qs, k') \<and>
    length qs = length fs \<and> Suc (length ps) = length fs \<and> distinct qs \<and>
    (\<forall>q \<in> set qs. q < MAX_PROC \<and> pstate (PT k q) = FREE) \<and> fds k' p = fds k p \<and>
    (\<forall>i < length fs.
       fds k' (qs ! i) 0 = (if i = 0 then fds k p 0 else Some (fst (ps ! (i - 1)))) \<and>
       fds k' (qs ! i) 1 = (if Suc i = length fs then fds k p 1 else Some (fst (snd (ps ! i))))) \<and>
    distinct (map (\<lambda>(r, w, a). a) ps) \<and>
    (\<forall>i < length ps. \<forall>r w a. ps ! i = (r, w, a) \<longrightarrow>
       stream k' r = (Pipe_obj a, Some Reader_ops) \<and> stream k' w = (Pipe_obj a, Some Writer_ops) \<and>
       (\<forall>q < MAX_PROC. \<forall>j. (fds k' q j = Some w \<longleftrightarrow> q = qs ! i \<and> j = 1) \<and>
          (fds k' q j = Some r \<longleftrightarrow> q = qs ! i \<and> j = rd \<or> q = qs ! Suc i \<and> j = 0)))"
proof -
  obtain i0 o0 where b: "fds k p 0 = Some i0" "fds k p 1 = Some o0" using assms(3,4) by auto
  obtain l qs ps k2 k' where W: "start_pipeline e c fs k = Inr (map int qs, k')" "layout_ok l" "base l = fds k p" "in0 l = i0" "out l = o0"
    "length qs = length fs" "Suc (length ps) = length fs" "distinct qs" "\<forall>q \<in> set qs. q \<noteq> p \<and> q < MAX_PROC \<and> pstate (PT k q) = FREE"
    "fds k' p = fds k p" "map (fds k') qs = wired l i0 ps" "\<forall>s. s \<noteq> p \<longrightarrow> s \<notin> set qs \<longrightarrow> fds k' s = fds k s"
    "new_pipes k2 ps k'" "\<forall>b. in_table k b \<longrightarrow> in_table k2 b" "p < MAX_PROC"
    by (rule start_pipeline_wired [OF assms(1,2) b assms(5,6)], erule assms(7), rule that) assumption+
  have at: "fds k' (qs ! i) = wired l i0 ps ! i" if "i < length fs" for i
    using W(6,11) that by (metis nth_map)
  have new: "\<not> in_table k b" if "b \<in> set (blocks ps)" for b using W(13,14) that by (auto simp: new_pipes_def)
  have B: "base l j \<noteq> Some b" if "b \<in> set (blocks ps)" for b j
    using new [OF that] W(15) unfolding W(3) in_table_def by blast
  have x: "i0 \<notin> set (blocks ps)" using B [of i0 0] b(1) unfolding W(3) by auto
  have dist: "distinct (blocks ps)" using W(13) by (simp add: new_pipes_def)
  have holders: "(fds k' q j = Some w \<longleftrightarrow> q = qs ! i \<and> j = 1) \<and> (fds k' q j = Some r \<longleftrightarrow> q = qs ! i \<and> j = rd l \<or> q = qs ! Suc i \<and> j = 0)"
    if i: "i < length ps" "ps ! i = (r, w, a)" and q: "q < MAX_PROC" for i r w a q j
  proof (cases "q \<in> set qs")
    case True
    then obtain m where m: "m < length qs" "q = qs ! m" by (auto simp: in_set_conv_nth)
    have e: "q = qs ! n \<longleftrightarrow> m = n" if "n < length qs" for n using m that nth_eq_iff_index_eq [OF W(8)] by auto
    have "fds k' q = wired l i0 ps ! m" using at [of m] m W(6) by simp
    moreover have "m \<le> length ps" using m(1) W(6,7) by simp
    ultimately show ?thesis
      using wired_holders [OF W(2) B x dist i(1) _ i(2), of m j] e [of i] e [of "Suc i"] i(1) W(6,7) by simp
  next
    case False
    have "r \<in> set (blocks ps)" "w \<in> set (blocks ps)" using nth_mem [OF i(1)] i(2) by (force simp: blocks_def)+
    then have "\<not> in_table k r" "\<not> in_table k w" using new by simp_all
    moreover have "fds k' q = fds k q" using False W(10,12) by (cases "q = p") simp_all
    moreover have "q \<noteq> qs ! i" "q \<noteq> qs ! Suc i" using False i(1) W(6,7) nth_mem [of i qs] nth_mem [of "Suc i" qs] by auto
    ultimately show ?thesis using q by (auto simp: in_table_def)
  qed
  have ends: "fds k' (qs ! i) 0 = (if i = 0 then fds k p 0 else Some (fst (ps ! (i - 1)))) \<and>
       fds k' (qs ! i) 1 = (if Suc i = length fs then fds k p 1 else Some (fst (snd (ps ! i))))" if "i < length fs" for i
    using at [OF that] wired_ends [OF W(2), of i ps i0] that W(5,7) b by auto
  have pipes: "stream k' r = (Pipe_obj a, Some Reader_ops) \<and> stream k' w = (Pipe_obj a, Some Writer_ops)"
    if "i < length ps" "ps ! i = (r, w, a)" for i r w a
    using W(13) nth_mem [OF that(1)] that(2) by (auto simp: new_pipes_def)
  show ?thesis
  proof (intro exI conjI)
    show "start_pipeline e c fs k = Inr (map int qs, k')" by (rule W(1))
    show "length qs = length fs" "Suc (length ps) = length fs" "distinct qs" "fds k' p = fds k p" by fact+
    show "\<forall>q \<in> set qs. q < MAX_PROC \<and> pstate (PT k q) = FREE" using W(9) by blast
    show "distinct (map (\<lambda>(r, w, a). a) ps)" using W(13) by (simp add: new_pipes_def)
    show "\<forall>i < length fs.
       fds k' (qs ! i) 0 = (if i = 0 then fds k p 0 else Some (fst (ps ! (i - 1)))) \<and>
       fds k' (qs ! i) 1 = (if Suc i = length fs then fds k p 1 else Some (fst (snd (ps ! i))))"
      using ends by blast
    show "\<forall>i < length ps. \<forall>r w a. ps ! i = (r, w, a) \<longrightarrow>
       stream k' r = (Pipe_obj a, Some Reader_ops) \<and> stream k' w = (Pipe_obj a, Some Writer_ops) \<and>
       (\<forall>q < MAX_PROC. \<forall>j. (fds k' q j = Some w \<longleftrightarrow> q = qs ! i \<and> j = 1) \<and>
          (fds k' q j = Some r \<longleftrightarrow> q = qs ! i \<and> j = rd l \<or> q = qs ! Suc i \<and> j = 0))"
      using pipes holders by blast
  qed
qed

text \<open>Process 2, with one block for its first \<open>n\<close> descriptors.\<close>

definition shell_kernel :: "nat \<Rightarrow> kernel" where
  "shell_kernel n = (let k = procs_kernel FREE in k\<lparr>
     PT := (PT k)(2 := (PT k 2)\<lparr>FIDT := (\<lambda>i. if i < n then Some 0 else None)\<rparr>),
     FT := (\<lambda>_. \<lparr>refcount = of_nat n, streamobj = Null_object, streamfunc = Some Nulldev_fops\<rparr>),
     FCB_freelist := [(if n = 0 then 0 else 1)..<MAX_FILES], next_addr := 10\<rparr>)"

lemma shell_fid: "FIDT (PT (shell_kernel n) p) i = (if p = 2 \<and> i < n then Some 0 else None)"
  by (auto simp: shell_kernel_def Let_def procs_sel)

lemma shell_fds: "n \<le> MAX_FILEID \<Longrightarrow> fds (shell_kernel n) 2 = (\<lambda>i. if i < n then Some 0 else None)"
  by (auto simp: fds_def fun_eq_iff shell_fid)

lemma shell_tree: "same_tree (procs_kernel FREE) (shell_kernel n)"
  by (simp add: same_tree_def shell_kernel_def Let_def)

lemma shell_files:
  assumes n: "n \<le> MAX_FILEID"
  shows "files_inv (\<lambda>_. 0) (shell_kernel n)"
proof (rule files_uptoI)
  let ?k = "shell_kernel n"
  have at: "fid_at ?k s = (if s \<in> {2} \<times> {..<n} then Some 0 else None)" for s
    by (cases s) (auto simp: fid_at_def shell_fid)
  have "{s \<in> fid_slots. fid_at ?k s = Some f} = (if f = 0 then {2} \<times> {..<n} else {})" for f
    using n by (auto simp: at fid_slots_def MAX_PROC_def)
  then have refs: "refs ?k f = (if f = 0 then n else 0)" for f by (simp add: refs_def card_cartesian_product)
  have fl: "FCB_freelist ?k = [(if n = 0 then 0 else 1)..<MAX_FILES]" by (simp add: shell_kernel_def Let_def)
  show "distinct (FCB_freelist ?k)" by (simp add: fl)
  show "f < MAX_FILES" if "f \<in> set (FCB_freelist ?k)" for f using that by (simp add: fl)
  show "f < MAX_FILES" if "s \<in> fid_slots" "fid_at ?k s = Some f" for s f
    using that by (simp add: at MAX_FILES_def MAX_PROC_def split: if_splits)
  show "refs ?k f + 0 = 0 \<and> f \<notin> {}" if "f \<in> set (FCB_freelist ?k)" for f
    using that by (simp add: fl refs split: if_splits)
  show "(f \<in> {} \<longleftrightarrow> refs ?k f + 0 = 0) \<and> unat (refcount (FT ?k f)) = refs ?k f + 0"
    if "f < MAX_FILES" "f \<notin> set (FCB_freelist ?k)" for f
  proof -
    have "f = 0" "n \<noteq> 0" using that by (auto simp: fl split: if_splits)
    moreover have "unat (of_nat n :: u32) = n" using n by (simp add: unat_of_nat MAX_FILEID_def)
    moreover have "refcount (FT ?k f) = of_nat n" by (simp add: shell_kernel_def Let_def)
    ultimately show ?thesis by (simp add: refs)
  qed
qed simp

lemma shell_free: "{q. q < MAX_PROC \<and> pstate (PT (shell_kernel n) q) = FREE} = {3..<MAX_PROC}"
  by (auto simp: shell_kernel_def Let_def procs_sel)

lemma shell_desk:
  assumes n: "n \<le> MAX_FILEID"
  shows "desk (\<lambda>_. 0) 0 2 6 2 (shell_kernel n)"
proof -
  let ?k = "shell_kernel n"
  have cc: "cc ?k = cc (procs_kernel FREE)" by (simp add: shell_kernel_def Let_def)
  have "tree_inv ?k" using procs_inv same_tree_inv [OF shell_tree] by simp
  moreover have "pstate (PT ?k q) = ALIVE" if "q \<le> 2" for q
    using that by (simp add: shell_kernel_def Let_def procs_sel)
  moreover have "fids_inv ?k"
    using \<open>2 \<le> 2 \<Longrightarrow> pstate (PT ?k 2) = ALIVE\<close> by (simp add: fids_inv_def shell_fid)
  moreover have "CURPROC 0 ?k = Inr 2" using CURPROC_cong [OF cc] procs_proc(2) by simp
  moreover have "CURTHREAD 0 ?k = Thr 4"
    by (simp add: CURTHREAD_def cc procs_sel files_kernel_def)
  moreover have "malloc_ok ?k a" "0 < devnum ?k DEV_NULL" "next_addr ?k = 10" for a
    by (simp_all add: shell_kernel_def Let_def procs_sel) (simp add: procs_kernel_def files_kernel_def piped_kernel_def example_kernel_def)
  moreover have "FCB_freelist ?k = [(if n = 0 then 0 else 1)..<MAX_FILES]" by (simp add: shell_kernel_def Let_def)
  ultimately show ?thesis
    using shell_files [OF n] shell_free by (simp add: desk_def caller_def MAX_PROC_def MAX_FILES_def)
qed

theorem pipeline_wired_witness:
  "\<exists>q1 q2 r w a k'. start_pipeline \<lparr>old_tcb = example_tcb NORMAL_THREAD INIT CTX_CLEAN 0 0, junk_bytes = (\<lambda>n. replicate n 0),
       prog_ptr = of_int, wrapper = 3\<rparr> 0 [(0, [''ls'']), (1, [''more''])] (shell_kernel 2) = Inr ([int q1, int q2], k') \<and>
     fds k' q1 0 = Some 0 \<and> fds k' q1 1 = Some w \<and> fds k' q2 0 = Some r \<and> fds k' q2 1 = Some 0 \<and>
     stream k' r = (Pipe_obj a, Some Reader_ops) \<and> stream k' w = (Pipe_obj a, Some Writer_ops)"
proof -
  let ?e = "\<lparr>old_tcb = example_tcb NORMAL_THREAD INIT CTX_CLEAN 0 0, junk_bytes = (\<lambda>n. replicate n 0), prog_ptr = of_int, wrapper = 3\<rparr>"
  let ?fs = "[(0 :: int, [''ls'']), (1, [''more''])]"
  have sf: "fds (shell_kernel 2) 2 = (\<lambda>i. if i < 2 then Some 0 else None)" by (rule shell_fds) (simp add: MAX_FILEID_def)
  have u: "4 \<le> card (unused (fds (shell_kernel 2) 2))"
  proof -
    have "unused (fds (shell_kernel 2) 2) = {2..<MAX_FILEID}" by (auto simp: unused_def sf)
    then show ?thesis by (simp add: MAX_FILEID_def)
  qed
  have l: "length ?fs = 2" by simp
  have d: "desk (\<lambda>_. 0) 0 2 (2 * length ?fs + 2) (length ?fs) (shell_kernel 2)" unfolding l using shell_desk [of 2] by (simp add: MAX_FILEID_def)
  have o: "?fs \<noteq> []" "fds (shell_kernel 2) 2 0 \<noteq> None" "fds (shell_kernel 2) 2 1 \<noteq> None" by (simp_all add: sf)
  have j: "length (junk_bytes ?e n) = n" for n by simp
  have f: "fits (snd f)" if "f \<in> set ?fs" for f using that by (auto simp: fits_def c_strings_def sizeof_ptr_def cstring_def bytes_def of_char_def)
  obtain qs ps rd k' where r: "start_pipeline ?e 0 ?fs (shell_kernel 2) = Inr (map int qs, k')" "length qs = 2" "Suc (length ps) = 2"
    "\<forall>i < 2. fds k' (qs ! i) 0 = (if i = 0 then fds (shell_kernel 2) 2 0 else Some (fst (ps ! (i - 1)))) \<and>
       fds k' (qs ! i) 1 = (if Suc i = 2 then fds (shell_kernel 2) 2 1 else Some (fst (snd (ps ! i))))"
    "\<forall>i < length ps. \<forall>r w a. ps ! i = (r, w, a) \<longrightarrow>
       stream k' r = (Pipe_obj a, Some Reader_ops) \<and> stream k' w = (Pipe_obj a, Some Writer_ops)"
    using pipeline_wired [OF d o u j f] unfolding l by blast
  obtain q1 q2 where qs: "qs = [q1, q2]" using r(2) by (auto simp: length_Suc_conv numeral_2_eq_2)
  have "length ps = Suc 0" using r(3) by simp
  then obtain r0 w0 a0 where ps: "ps = [(r0, w0, a0)]" unfolding length_Suc_conv by fastforce
  have "fds k' q1 0 = Some 0 \<and> fds k' q1 1 = Some w0" "fds k' q2 0 = Some r0 \<and> fds k' q2 1 = Some 0"
    using r(4) [THEN spec, of 0] r(4) [THEN spec, of 1] by (simp_all add: sf qs ps)
  moreover have "stream k' r0 = (Pipe_obj a0, Some Reader_ops) \<and> stream k' w0 = (Pipe_obj a0, Some Writer_ops)"
    using r(5) by (simp add: ps)
  ultimately show ?thesis using r(1) by (simp only: qs list.map) blast
qed

end
