(* ===== verification/Remote.thy ===== *)
theory Remote
  imports Streams Argv Programs
begin

text \<open>
  The messages of the remote server of \<^verbatim>\<open>src/tinyos_shell.c\<close>. A client sends the length of its packed
  arguments and then the arguments; a thread of the server receives them and unpacks them. Both loop until
  all bytes have gone through the socket, whose \<^verbatim>\<open>Read\<close> and \<^verbatim>\<open>Write\<close> take and give as many as there are.
\<close>

section \<open>Programs that make system calls\<close>

text \<open>
  A program up to its next call, and what it does with the result. A write
  takes its bytes from memory.
\<close>

datatype 'a act =
    Return 'a
  | Fail fault
  | Exits int
  | Read_call int u32 "int \<times> byte list \<Rightarrow> 'a act"
  | Write_call int "nat \<Rightarrow> byte" u32 "int \<Rightarrow> 'a act"
  | ShutDown_call int shutdown_mode "int \<Rightarrow> 'a act"

primrec bindA :: "'a act \<Rightarrow> ('a \<Rightarrow> 'b act) \<Rightarrow> 'b act" where
  "bindA (Return x) g = g x"
| "bindA (Fail e) g = Fail e"
| "bindA (Exits n) g = Exits n"
| "bindA (Read_call fd sz f) g = Read_call fd sz (\<lambda>x. bindA (f x) g)"
| "bindA (Write_call fd buf sz f) g = Write_call fd buf sz (\<lambda>x. bindA (f x) g)"
| "bindA (ShutDown_call fd how f) g = ShutDown_call fd how (\<lambda>x. bindA (f x) g)"

definition liftA :: "'a res \<Rightarrow> 'a act" where
  "liftA r = (case r of Inl e \<Rightarrow> Fail e | Inr x \<Rightarrow> Return x)"

lemma liftA_simps [simp]: "liftA (Inl e) = Fail e" "liftA (Inr x) = Return x"
  by (simp_all add: liftA_def)

section \<open>Sending and receiving a message\<close>

text \<open>
  The loop of \<^verbatim>\<open>recv_message\<close>. The buffer has room for \<open>cap\<close> bytes, and \<open>buf\<close> is what it holds up to \<open>count\<close>; \<^verbatim>\<open>Read\<close>
  stores behind that.
\<close>

function recv_loop :: "int \<Rightarrow> nat \<Rightarrow> nat \<Rightarrow> nat \<Rightarrow> byte list \<Rightarrow> (bool \<times> byte list) act" where
  "recv_loop sock cap len count buf =
     (if count < len then
        Read_call sock (of_nat (len - count)) (\<lambda>(rc, bs).
          if length (buf @ bs) > cap then Fail Out_of_bounds
          else if rc < 1 then Return (count = len, buf) else recv_loop sock cap len (count + nat rc) (buf @ bs))
      else Return (count = len, buf))"
  by pat_completeness auto
termination by (relation "measure (\<lambda>(sock, cap, len, count, buf). len - count)") auto

declare recv_loop.simps [simp del]

definition recv_message :: "int \<Rightarrow> nat \<Rightarrow> nat \<Rightarrow> (bool \<times> byte list) act" where
  "recv_message sock cap len = recv_loop sock cap len 0 []"

function send_loop :: "int \<Rightarrow> byte list \<Rightarrow> nat \<Rightarrow> nat \<Rightarrow> nat act" where
  "send_loop sock buf len count =
     (if count < len then
        Write_call sock (\<lambda>i. buf ! (count + i)) (of_nat (len - count)) (\<lambda>rc.
          if rc < 1 then Return count else send_loop sock buf len (count + nat rc))
      else Return count)"
  by pat_completeness auto
termination by (relation "measure (\<lambda>(sock, buf, len, count). len - count)") auto

declare send_loop.simps [simp del]

definition send_message :: "int \<Rightarrow> byte list \<Rightarrow> nat \<Rightarrow> unit act" where
  "send_message sock buf len =
     bindA (send_loop sock buf len 0) (\<lambda>count. if count \<noteq> len then Exits 1 else Return ())"

section \<open>A request\<close>

text \<open>An \<^verbatim>\<open>int\<close> in memory, least significant byte first.\<close>

definition int_bytes :: "u32 \<Rightarrow> byte list" where
  "int_bytes w = map (\<lambda>i. ucast (drop_bit (8 * i) w)) [0..<4]"

definition bytes_int :: "byte list \<Rightarrow> u32" where
  "bytes_int bs = word_rcat (rev bs)"

definition sizeof_int :: nat where
  "sizeof_int = 4"

text \<open>
  \<^verbatim>\<open>RemoteClient\<close> from the point where it is connected to the point where it has sent its request;
  \<open>argv\<close> are its arguments without its own name.
\<close>

definition client_request :: "int \<Rightarrow> (nat \<Rightarrow> byte list) \<Rightarrow> byte list list \<Rightarrow> unit act" where
  "client_request sock junk argv =
     bindA (liftA (argvlen (length argv) argv)) (\<lambda>l.
     let w = ucast l :: u32; argl = sint w in
     if argl < 0 then Fail Out_of_bounds
     else bindA (liftA (argvpack (junk (nat argl)) (length argv) argv)) (\<lambda>(args, _).
       bindA (send_message sock (int_bytes w) sizeof_int) (\<lambda>_.
       bindA (send_message sock args (nat argl)) (\<lambda>_.
       ShutDown_call sock SHUTDOWN_WRITE (\<lambda>_. Return ())))))"

text \<open>
  \<^verbatim>\<open>rsrv_client\<close> up to its call of \<^verbatim>\<open>Execute\<close>: the strings that it passes, or nothing when it could
  not receive the request.
\<close>

definition process_name :: "byte list" where
  "process_name = bytes ''rsrv_process'' @ [0]"

definition unpack_request :: "int \<Rightarrow> int \<Rightarrow> byte list \<Rightarrow> byte list list option act" where
  "unpack_request sock len body =
     bindA (liftA (argscount len body)) (\<lambda>argc.
     bindA (liftA (argvunpack argc body)) (\<lambda>(offs, _).
     Return (Some (process_name # (bytes (decimal (nat sock)) @ [0]) # map (\<lambda>a. cstring (drop a body) @ [0]) offs))))"

text \<open>The buffers are the variable \<^verbatim>\<open>argl\<close> and the array \<^verbatim>\<open>args[argl]\<close>.\<close>

definition rsrv_request :: "int \<Rightarrow> byte list list option act" where
  "rsrv_request sock =
     bindA (recv_message sock sizeof_int sizeof_int) (\<lambda>(got, hdr).
     if \<not> got then Return None
     else let argl = sint (bytes_int hdr) in
       if \<not> (argl > 0 \<and> argl \<le> 2048) then Fail Assert_failed
       else bindA (recv_message sock (nat argl) (nat argl)) (\<lambda>(got, body).
         if \<not> got then Return None else unpack_request sock argl body))"

section \<open>Client and server at the two ends of a stream\<close>

text \<open>
  The state is the program of the client, the program of the server, each with the place where its call
  waits, if it does, and the state \<open>'s\<close> of the stream between them. \<open>wr\<close>, \<open>rd\<close> and \<open>shut\<close> are the operations of
  the stream, and \<open>others\<close> is what the rest of the system may do. The number of a step is 1 if a call returns.
\<close>

inductive talk for cfd sfd :: int
  and wr :: "'pc option \<Rightarrow> (nat \<Rightarrow> byte) \<Rightarrow> u32 \<Rightarrow> 's \<Rightarrow> ((int, 'pc) outcome \<times> 's) res"
  and rd :: "'pc option \<Rightarrow> u32 \<Rightarrow> 's \<Rightarrow> ((int \<times> byte list, 'pc) outcome \<times> 's) res"
  and shut :: "shutdown_mode \<Rightarrow> 's \<Rightarrow> (int \<times> 's) res"
  and others :: "'s \<Rightarrow> 's \<Rightarrow> bool"
where
  writes: "wr r buf sz s = Inr (Done n, s') \<Longrightarrow>
     talk cfd sfd wr rd shut others 1 ((Write_call cfd buf sz f, r), S, s) ((f n, None), S, s')"
| write_waits: "wr r buf sz s = Inr (Wait cv cause t pc, s') \<Longrightarrow>
     talk cfd sfd wr rd shut others 0 ((Write_call cfd buf sz f, r), S, s) ((Write_call cfd buf sz f, Some pc), S, s')"
| write_fails: "wr r buf sz s = Inl e \<Longrightarrow>
     talk cfd sfd wr rd shut others 1 ((Write_call cfd buf sz f, r), S, s) ((Fail e, None), S, s)"
| shuts: "shut how s = Inr (n, s') \<Longrightarrow>
     talk cfd sfd wr rd shut others 1 ((ShutDown_call cfd how f, r), S, s) ((f n, None), S, s')"
| shut_fails: "shut how s = Inl e \<Longrightarrow>
     talk cfd sfd wr rd shut others 1 ((ShutDown_call cfd how f, r), S, s) ((Fail e, None), S, s)"
| reads: "rd r sz s = Inr (Done x, s') \<Longrightarrow>
     talk cfd sfd wr rd shut others 1 (C, (Read_call sfd sz g, r), s) (C, (g x, None), s')"
| read_waits: "rd r sz s = Inr (Wait cv cause t pc, s') \<Longrightarrow>
     talk cfd sfd wr rd shut others 0 (C, (Read_call sfd sz g, r), s) (C, (Read_call sfd sz g, Some pc), s')"
| read_fails: "rd r sz s = Inl e \<Longrightarrow>
     talk cfd sfd wr rd shut others 1 (C, (Read_call sfd sz g, r), s) (C, (Fail e, None), s)"
| elsewhere: "others s s' \<Longrightarrow> talk cfd sfd wr rd shut others 0 (C, S, s) (C, S, s')"

inductive talks for cfd sfd wr rd shut others where
  start: "talks cfd sfd wr rd shut others (0 :: nat) x x"
| go: "talks cfd sfd wr rd shut others n x y \<Longrightarrow> talk cfd sfd wr rd shut others d y z \<Longrightarrow>
     talks cfd sfd wr rd shut others (n + d) x z"

text \<open>The operations of connected sockets: \<open>a\<close> writes and \<open>b\<close> reads.\<close>

definition socket_wr :: "nat \<Rightarrow> nat option \<Rightarrow> (nat \<Rightarrow> byte) \<Rightarrow> u32 \<Rightarrow> kernel \<Rightarrow> ((int, nat) outcome \<times> kernel) res" where
  "socket_wr a r buf sz k = (case r of
     None \<Rightarrow> socket_write a buf sz k
   | Some p \<Rightarrow> bindE (pipe_write_resume p buf sz k) (\<lambda>(out, k1). Inr (map_wait (\<lambda>_. p) id out, k1)))"

definition socket_rd :: "nat \<Rightarrow> nat option \<Rightarrow> u32 \<Rightarrow> kernel \<Rightarrow> ((int \<times> byte list, nat) outcome \<times> kernel) res" where
  "socket_rd b r sz k = (case r of
     None \<Rightarrow> socket_read b sz k
   | Some p \<Rightarrow> bindE (pipe_read p sz k) (\<lambda>(out, k1). Inr (map_wait (\<lambda>_. p) id out, k1)))"

text \<open>The rest of the system leaves the sockets and the pipe from \<open>a\<close> to \<open>b\<close> alone.\<close>

definition apart_from :: "nat \<Rightarrow> nat \<Rightarrow> nat \<Rightarrow> kernel \<Rightarrow> kernel \<Rightarrow> bool" where
  "apart_from a b ab k k' \<longleftrightarrow> cc_inv (cc k') \<and> scbs k' a = scbs k a \<and> scbs k' b = scbs k b \<and> pipes k' ab = pipes k ab"

section \<open>The loops, byte by byte\<close>

text \<open>The programs after \<open>c\<close> bytes of the header \<open>h\<close> and of \<open>body\<close> have been sent, or received.\<close>

definition client_tail :: "int \<Rightarrow> byte list \<Rightarrow> nat \<Rightarrow> unit act" where
  "client_tail fd body c =
     bindA (send_loop fd body (length body) c) (\<lambda>count. bindA (if count \<noteq> length body then Exits 1 else Return ())
       (\<lambda>_. ShutDown_call fd SHUTDOWN_WRITE (\<lambda>_. Return ())))"

definition client_at :: "int \<Rightarrow> byte list \<Rightarrow> byte list \<Rightarrow> nat \<Rightarrow> unit act" where
  "client_at fd h body c =
     (if c < length h then
        bindA (send_loop fd h (length h) c) (\<lambda>count. bindA (if count \<noteq> length h then Exits 1 else Return ())
          (\<lambda>_. client_tail fd body 0))
      else client_tail fd body (c - length h))"

lemma bindA_assoc [simp]: "bindA (bindA m f) g = bindA m (\<lambda>x. bindA (f x) g)"
  by (induction m) simp_all

lemma send_loop_step:
  assumes "c < length buf" "length buf < 2 ^ 32"
  obtains mem sz f where "send_loop fd buf (length buf) c = Write_call fd mem sz f" "unat sz = length buf - c"
    "\<And>m. 0 < m \<Longrightarrow> m \<le> length buf - c \<Longrightarrow> f (int m) = send_loop fd buf (length buf) (c + m)"
    "\<And>m. m \<le> length buf - c \<Longrightarrow> map mem [0..<m] = take m (drop c buf)"
proof
  show "send_loop fd buf (length buf) c = Write_call fd (\<lambda>i. buf ! (c + i)) (of_nat (length buf - c))
      (\<lambda>rc. if rc < 1 then Return c else send_loop fd buf (length buf) (c + nat rc))"
    using assms(1) by (subst send_loop.simps) simp
  show "unat (of_nat (length buf - c) :: u32) = length buf - c" using assms by (simp add: unat_of_nat del: of_nat_diff)
  show "map (\<lambda>i. buf ! (c + i)) [0..<m] = take m (drop c buf)" if "m \<le> length buf - c" for m
    using that by (intro nth_equalityI) simp_all
qed simp

lemma send_loop_end [simp]: "send_loop fd buf n n = Return n"
  by (simp add: send_loop.simps)

lemma client_at_step:
  assumes "c < length (h @ body)" "length (h @ body) < 2 ^ 32"
  obtains mem sz f where "client_at fd h body c = Write_call fd mem sz f" "sz \<noteq> 0"
    "\<And>m. 0 < m \<Longrightarrow> m \<le> unat sz \<Longrightarrow> c + m \<le> length (h @ body) \<and> f (int m) = client_at fd h body (c + m)"
    "\<And>m. m \<le> unat sz \<Longrightarrow> map mem [0..<m] = take m (drop c (h @ body))"
proof (cases "c < length h")
  case True
  have "length h < 2 ^ 32" using assms(2) by simp
  then obtain mem sz f where L: "send_loop fd h (length h) c = Write_call fd mem sz f" "unat sz = length h - c"
    "\<And>m. 0 < m \<Longrightarrow> m \<le> length h - c \<Longrightarrow> f (int m) = send_loop fd h (length h) (c + m)"
    "\<And>m. m \<le> length h - c \<Longrightarrow> map mem [0..<m] = take m (drop c h)"
    using send_loop_step [OF True] by blast
  have "sz \<noteq> 0" using L(2) True by auto
  show ?thesis
  proof (rule that)
    show "client_at fd h body c = Write_call fd mem sz (\<lambda>x. bindA (f x) (\<lambda>count.
        bindA (if count \<noteq> length h then Exits 1 else Return ()) (\<lambda>_. client_tail fd body 0)))"
      using True by (simp add: client_at_def L(1))
    show "c + m \<le> length (h @ body) \<and> bindA (f (int m)) (\<lambda>count.
        bindA (if count \<noteq> length h then Exits 1 else Return ()) (\<lambda>_. client_tail fd body 0)) = client_at fd h body (c + m)"
      if "0 < m" "m \<le> unat sz" for m
      using that True by (cases "c + m = length h") (auto simp: L(2,3) client_at_def)
    show "map mem [0..<m] = take m (drop c (h @ body))" if "m \<le> unat sz" for m
      using that True by (simp add: L(2,4))
  qed (rule \<open>sz \<noteq> 0\<close>)
next
  case False
  let ?c = "c - length h"
  have "?c < length body" "length body < 2 ^ 32" using assms False by auto
  then obtain mem sz f where L: "send_loop fd body (length body) ?c = Write_call fd mem sz f" "unat sz = length body - ?c"
    "\<And>m. 0 < m \<Longrightarrow> m \<le> length body - ?c \<Longrightarrow> f (int m) = send_loop fd body (length body) (?c + m)"
    "\<And>m. m \<le> length body - ?c \<Longrightarrow> map mem [0..<m] = take m (drop ?c body)"
    using send_loop_step by blast
  have "sz \<noteq> 0" using L(2) \<open>?c < length body\<close> by auto
  show ?thesis
  proof (rule that)
    show "client_at fd h body c = Write_call fd mem sz (\<lambda>x. bindA (f x) (\<lambda>count.
        bindA (if count \<noteq> length body then Exits 1 else Return ()) (\<lambda>_. ShutDown_call fd SHUTDOWN_WRITE (\<lambda>_. Return ()))))"
      using False by (simp add: client_at_def client_tail_def L(1))
    show "c + m \<le> length (h @ body) \<and> bindA (f (int m)) (\<lambda>count. bindA (if count \<noteq> length body then Exits 1 else Return ())
        (\<lambda>_. ShutDown_call fd SHUTDOWN_WRITE (\<lambda>_. Return ()))) = client_at fd h body (c + m)"
      if "0 < m" "m \<le> unat sz" for m
      using that False by (auto simp: L(2,3) client_at_def client_tail_def)
    show "map mem [0..<m] = take m (drop c (h @ body))" if "m \<le> unat sz" for m
      using that False by (simp add: L(2,4))
  qed (rule \<open>sz \<noteq> 0\<close>)
qed

lemma client_at_end: "client_at fd h body (length (h @ body)) = ShutDown_call fd SHUTDOWN_WRITE (\<lambda>_. Return ())"
  by (simp add: client_at_def client_tail_def)

definition server_tail :: "int \<Rightarrow> byte list \<Rightarrow> nat \<Rightarrow> byte list list option act" where
  "server_tail fd body g =
     bindA (recv_loop fd (length body) (length body) g (take g body)) (\<lambda>(got, body').
       if \<not> got then Return None else unpack_request fd (int (length body)) body')"

definition server_at :: "int \<Rightarrow> byte list \<Rightarrow> byte list \<Rightarrow> nat \<Rightarrow> byte list list option act" where
  "server_at fd h body g =
     (if g < length h then
        bindA (recv_loop fd (length h) (length h) g (take g h)) (\<lambda>(got, hdr).
          if \<not> got then Return None
          else let argl = sint (bytes_int hdr) in
            if \<not> (argl > 0 \<and> argl \<le> 2048) then Fail Assert_failed
            else bindA (recv_message fd (nat argl) (nat argl)) (\<lambda>(got, body).
              if \<not> got then Return None else unpack_request fd argl body))
      else server_tail fd body (g - length h))"

lemma recv_loop_step:
  assumes "c < len" "len < 2 ^ 32" "length buf = c"
  obtains sz f where "recv_loop fd len len c buf = Read_call fd sz f" "unat sz = len - c"
    "\<And>bs. bs \<noteq> [] \<Longrightarrow> length bs \<le> len - c \<Longrightarrow> f (int (length bs), bs) = recv_loop fd len len (c + length bs) (buf @ bs)"
proof
  show "recv_loop fd len len c buf = Read_call fd (of_nat (len - c)) (\<lambda>(rc, bs).
      if length (buf @ bs) > len then Fail Out_of_bounds
      else if rc < 1 then Return (c = len, buf) else recv_loop fd len len (c + nat rc) (buf @ bs))"
    using assms(1) by (subst recv_loop.simps) simp
  show "unat (of_nat (len - c) :: u32) = len - c" using assms by (simp add: unat_of_nat del: of_nat_diff)
qed (use assms in \<open>auto simp: Suc_le_eq\<close>)

lemma recv_loop_end [simp]: "recv_loop fd cap n n buf = Return (True, buf)"
  by (simp add: recv_loop.simps)

lemma take_more: "take (c + length bs) xs = take c xs @ bs" if "bs = take (length bs) (drop c xs)"
  using that by (simp add: take_add)

lemma server_at_step:
  assumes "g < length (h @ body)" "length (h @ body) < 2 ^ 32" "sint (bytes_int h) = int (length body)"
    "0 < length body" "length body \<le> 2048"
  obtains sz f where "server_at fd h body g = Read_call fd sz f" "sz \<noteq> 0"
    "\<And>bs. bs \<noteq> [] \<Longrightarrow> length bs \<le> unat sz \<Longrightarrow> bs = take (length bs) (drop g (h @ body)) \<Longrightarrow>
       g + length bs \<le> length (h @ body) \<and> f (int (length bs), bs) = server_at fd h body (g + length bs)"
proof (cases "g < length h")
  case True
  let ?k = "\<lambda>(got, hdr). if \<not> got then Return None
     else let argl = sint (bytes_int hdr) in
       if \<not> (argl > 0 \<and> argl \<le> 2048) then Fail Assert_failed
       else bindA (recv_message fd (nat argl) (nat argl)) (\<lambda>(got, body).
         if \<not> got then Return None else unpack_request fd argl body)"
  have "length h < 2 ^ 32" using assms(2) by simp
  then obtain sz f where L: "recv_loop fd (length h) (length h) g (take g h) = Read_call fd sz f" "unat sz = length h - g"
    "\<And>bs. bs \<noteq> [] \<Longrightarrow> length bs \<le> length h - g \<Longrightarrow> f (int (length bs), bs) = recv_loop fd (length h) (length h) (g + length bs) (take g h @ bs)"
    using recv_loop_step [OF True, of "take g h"] True by auto
  have k: "?k (True, h) = server_tail fd body 0"
    using assms(3-5) by (simp add: server_tail_def recv_message_def split_def cong: if_cong)
  show ?thesis
  proof (rule that)
    show "server_at fd h body g = Read_call fd sz (\<lambda>x. bindA (f x) ?k)" using True by (simp add: server_at_def L(1))
    show "sz \<noteq> 0" using L(2) True by auto
    show "g + length bs \<le> length (h @ body) \<and> bindA (f (int (length bs), bs)) ?k = server_at fd h body (g + length bs)"
      if "bs \<noteq> []" "length bs \<le> unat sz" "bs = take (length bs) (drop g (h @ body))" for bs
    proof -
      have l: "g + length bs \<le> length h" using that(2) True L(2) by simp
      then have "bs = take (length bs) (drop g h)" using that(3) by simp
      then have m: "take g h @ bs = take (g + length bs) h" by (rule take_more [symmetric])
      have "bindA (f (int (length bs), bs)) ?k = server_at fd h body (g + length bs)"
      proof (cases "g + length bs = length h")
        case True
        then show ?thesis using that(1) l k by (simp add: L(3) m server_at_def)
      next
        case False
        then show ?thesis using that(1) l by (simp add: L(3) m server_at_def)
      qed
      with l show ?thesis by simp
    qed
  qed
next
  case False
  let ?g = "g - length h" and ?k = "\<lambda>(got, body'). if \<not> got then Return None else unpack_request fd (int (length body)) body'"
  have "?g < length body" "length body < 2 ^ 32" using assms False by auto
  then obtain sz f where L: "recv_loop fd (length body) (length body) ?g (take ?g body) = Read_call fd sz f" "unat sz = length body - ?g"
    "\<And>bs. bs \<noteq> [] \<Longrightarrow> length bs \<le> length body - ?g \<Longrightarrow>
       f (int (length bs), bs) = recv_loop fd (length body) (length body) (?g + length bs) (take ?g body @ bs)"
    using recv_loop_step [of ?g "length body" "take ?g body"] by auto
  show ?thesis
  proof (rule that)
    show "server_at fd h body g = Read_call fd sz (\<lambda>x. bindA (f x) ?k)"
      using False by (simp add: server_at_def server_tail_def L(1))
    show "sz \<noteq> 0" using L(2) \<open>?g < length body\<close> by auto
    show "g + length bs \<le> length (h @ body) \<and> bindA (f (int (length bs), bs)) ?k = server_at fd h body (g + length bs)"
      if "bs \<noteq> []" "length bs \<le> unat sz" "bs = take (length bs) (drop g (h @ body))" for bs
    proof -
      have "bs = take (length bs) (drop ?g body)" using that(3) False by simp
      then have "take ?g body @ bs = take (?g + length bs) body" by (rule take_more [symmetric])
      with that False assms(1) show ?thesis by (auto simp: L(2,3) server_at_def server_tail_def)
    qed
  qed
qed

lemma server_at_end:
  "server_at fd h body (length (h @ body)) = unpack_request fd (int (length body)) body"
  by (simp add: server_at_def server_tail_def)

section \<open>A reliable stream\<close>

text \<open>
  What the two programs need from the stream: \<open>held s\<close> are the bytes in it, \<open>fin s\<close> says that its
  writer has shut it down, and \<open>at_wr\<close>, \<open>at_rd\<close> are the places where calls wait. A write takes at least one byte
  or waits, the latter only when the stream is not empty. A read gives the oldest bytes, and waits only when
  there are none and more may come.
\<close>

locale byte_stream =
  fixes ok :: "'s \<Rightarrow> bool" and held :: "'s \<Rightarrow> byte list" and fin :: "'s \<Rightarrow> bool"
    and at_wr :: "'pc \<Rightarrow> bool" and at_rd :: "'pc \<Rightarrow> bool"
    and wr :: "'pc option \<Rightarrow> (nat \<Rightarrow> byte) \<Rightarrow> u32 \<Rightarrow> 's \<Rightarrow> ((int, 'pc) outcome \<times> 's) res"
    and rd :: "'pc option \<Rightarrow> u32 \<Rightarrow> 's \<Rightarrow> ((int \<times> byte list, 'pc) outcome \<times> 's) res"
    and shut :: "shutdown_mode \<Rightarrow> 's \<Rightarrow> (int \<times> 's) res"
    and others :: "'s \<Rightarrow> 's \<Rightarrow> bool"
  assumes wr_ok: "ok s \<Longrightarrow> \<not> fin s \<Longrightarrow> sz \<noteq> 0 \<Longrightarrow> pred_option at_wr r \<Longrightarrow>
      (\<exists>cv c t pc s'. wr r buf sz s = Inr (Wait cv c t pc, s') \<and> at_wr pc \<and> held s \<noteq> [] \<and>
         ok s' \<and> held s' = held s \<and> \<not> fin s') \<or>
      (\<exists>m s'. wr r buf sz s = Inr (Done (int m), s') \<and> 0 < m \<and> m \<le> unat sz \<and>
         ok s' \<and> held s' = held s @ map buf [0..<m] \<and> \<not> fin s')"
    and rd_none: "ok s \<Longrightarrow> sz \<noteq> 0 \<Longrightarrow> pred_option at_rd r \<Longrightarrow> held s = [] \<Longrightarrow> \<not> fin s \<Longrightarrow>
      \<exists>cv c t pc s'. rd r sz s = Inr (Wait cv c t pc, s') \<and> at_rd pc \<and> ok s' \<and> held s' = [] \<and> \<not> fin s'"
    and rd_some: "ok s \<Longrightarrow> sz \<noteq> 0 \<Longrightarrow> pred_option at_rd r \<Longrightarrow> held s \<noteq> [] \<Longrightarrow>
      \<exists>bs s'. rd r sz s = Inr (Done (int (length bs), bs), s') \<and> bs \<noteq> [] \<and> length bs \<le> unat sz \<and>
        held s = bs @ held s' \<and> ok s' \<and> fin s' = fin s"
    and shut_ok: "ok s \<Longrightarrow> \<not> fin s \<Longrightarrow>
      \<exists>n s'. shut SHUTDOWN_WRITE s = Inr (n, s') \<and> ok s' \<and> held s' = held s \<and> fin s'"
    and others_ok: "ok s \<Longrightarrow> others s s' \<Longrightarrow> ok s' \<and> held s' = held s \<and> fin s' = fin s"

text \<open>
  The programs at work: \<open>c\<close> of the bytes have been sent and \<open>g\<close> have been received; \<open>n\<close> calls have
  returned.
\<close>

definition talk_inv ::
  "('s \<Rightarrow> bool) \<Rightarrow> ('s \<Rightarrow> byte list) \<Rightarrow> ('s \<Rightarrow> bool) \<Rightarrow> ('pc \<Rightarrow> bool) \<Rightarrow> ('pc \<Rightarrow> bool) \<Rightarrow> int \<Rightarrow> int \<Rightarrow> byte list \<Rightarrow> byte list \<Rightarrow>
    nat \<Rightarrow> (unit act \<times> 'pc option) \<times> (byte list list option act \<times> 'pc option) \<times> 's \<Rightarrow> bool" where
  "talk_inv ok held fin at_wr at_rd cfd sfd h body n = (\<lambda>((C, r), (S, q), s).
     ok s \<and> pred_option at_wr r \<and> pred_option at_rd q \<and>
     (\<exists>c g. g \<le> c \<and> c \<le> length (h @ body) \<and> held s = drop g (take c (h @ body)) \<and> S = server_at sfd h body g \<and>
        n \<le> c + g + (if fin s then 1 else 0) \<and>
        (if fin s then c = length (h @ body) \<and> C = Return () else C = client_at cfd h body c)))"

text \<open>A header and a body that the server accepts.\<close>

definition request :: "byte list \<Rightarrow> byte list \<Rightarrow> bool" where
  "request h body \<longleftrightarrow> length h = 4 \<and> sint (bytes_int h) = int (length body) \<and> 0 < length body \<and> length body \<le> 2048"

lemma requestD:
  assumes "request h body"
  shows "length (h @ body) < 2 ^ 32" "sint (bytes_int h) = int (length body)" "0 < length body" "length body \<le> 2048"
  using assms by (simp_all add: request_def)

lemma unpack_no_read: "unpack_request fd n body \<noteq> Read_call fd' sz f"
  by (cases "argscount n body") (auto simp: unpack_request_def liftA_def split: sum.split prod.split)

context byte_stream
begin

abbreviation "J \<equiv> talk_inv ok held fin at_wr at_rd"

lemma J_I:
  assumes "ok s" "pred_option at_wr r" "pred_option at_rd q" "g \<le> c" "c \<le> length (h @ body)"
    "held s = drop g (take c (h @ body))" "n \<le> c + g + (if fin s then 1 else 0)"
    "if fin s then c = length (h @ body) \<and> C = Return () else C = client_at cfd h body c"
  shows "J cfd sfd h body n ((C, r), (server_at sfd h body g, q), s)"
  using assms unfolding talk_inv_def by blast

lemma J_E:
  assumes "J cfd sfd h body n ((C, r), (S, q), s)"
  obtains c g where "ok s" "pred_option at_wr r" "pred_option at_rd q" "g \<le> c" "c \<le> length (h @ body)"
    "held s = drop g (take c (h @ body))" "S = server_at sfd h body g" "n \<le> c + g + (if fin s then 1 else 0)"
    "if fin s then c = length (h @ body) \<and> C = Return () else C = client_at cfd h body c"
  using assms unfolding talk_inv_def by blast

lemma J_write:
  assumes J: "J cfd sfd h body n ((Write_call cfd mem sz f, r), Sq, s)" and R: "request h body"
  shows "(\<exists>cv c t pc s'. wr r mem sz s = Inr (Wait cv c t pc, s') \<and> held s \<noteq> [] \<and>
      J cfd sfd h body n ((Write_call cfd mem sz f, Some pc), Sq, s')) \<or>
    (\<exists>m s'. wr r mem sz s = Inr (Done (int m), s') \<and> J cfd sfd h body (Suc n) ((f (int m), None), Sq, s'))"
proof -
  obtain S q where Sq: "Sq = (S, q)" by (cases Sq)
  from J [unfolded Sq] obtain c g where I: "ok s" "pred_option at_wr r" "pred_option at_rd q" "g \<le> c" "c \<le> length (h @ body)"
    "held s = drop g (take c (h @ body))" "S = server_at sfd h body g" "n \<le> c + g + (if fin s then 1 else 0)"
    "if fin s then c = length (h @ body) \<and> Write_call cfd mem sz f = Return () else Write_call cfd mem sz f = client_at cfd h body c"
    by (rule J_E)
  then have nf: "\<not> fin s" and C: "client_at cfd h body c = Write_call cfd mem sz f" by (auto split: if_splits)
  have "c \<noteq> length (h @ body)" using C client_at_end [of cfd h body] by auto
  then have "c < length (h @ body)" using I(5) by simp
  then obtain mem' sz' f' where K: "client_at cfd h body c = Write_call cfd mem' sz' f'" "sz' \<noteq> 0"
    "\<And>m. 0 < m \<Longrightarrow> m \<le> unat sz' \<Longrightarrow> c + m \<le> length (h @ body) \<and> f' (int m) = client_at cfd h body (c + m)"
    "\<And>m. m \<le> unat sz' \<Longrightarrow> map mem' [0..<m] = take m (drop c (h @ body))"
    by (rule client_at_step [OF _ requestD(1) [OF R]]) blast
  have e: "mem' = mem" "sz' = sz" "f' = f" using C K(1) by simp_all
  from wr_ok [OF I(1) nf _ I(2), of sz mem] K(2) e(2)
  consider (w) cv ca t pc s' where "wr r mem sz s = Inr (Wait cv ca t pc, s')" "at_wr pc" "held s \<noteq> []" "ok s'"
      "held s' = held s" "\<not> fin s'"
    | (d) m s' where "wr r mem sz s = Inr (Done (int m), s')" "0 < m" "m \<le> unat sz" "ok s'"
      "held s' = held s @ map mem [0..<m]" "\<not> fin s'" by blast
  then show ?thesis
  proof cases
    case w
    have "J cfd sfd h body n ((Write_call cfd mem sz f, Some pc), (server_at sfd h body g, q), s')"
      by (rule J_I [OF w(4) _ I(3-5)]) (use w I(6,8) nf C in simp_all)
    with w show ?thesis by (auto simp: Sq I(7))
  next
    case d
    have m: "c + m \<le> length (h @ body)" "f (int m) = client_at cfd h body (c + m)"
      "map mem [0..<m] = take m (drop c (h @ body))" using K(3,4) d(2,3) e by auto
    have h: "held s' = drop g (take (c + m) (h @ body))"
      using I(4,5) unfolding d(5) I(6) m(3) take_add by simp
    have "J cfd sfd h body (Suc n) ((f (int m), None), (server_at sfd h body g, q), s')"
      by (rule J_I [OF d(4) _ I(3) _ m(1) h]) (use I(4,8) nf d m(2) in auto)
    with d show ?thesis by (auto simp: Sq I(7))
  qed
qed

lemma J_shut:
  assumes J: "J cfd sfd h body n ((ShutDown_call cfd how f, r), Sq, s)" and R: "request h body"
  shows "\<exists>m s'. shut how s = Inr (m, s') \<and> J cfd sfd h body (Suc n) ((f m, None), Sq, s')"
proof -
  obtain S q where Sq: "Sq = (S, q)" by (cases Sq)
  from J [unfolded Sq] obtain c g where I: "ok s" "pred_option at_wr r" "pred_option at_rd q" "g \<le> c" "c \<le> length (h @ body)"
    "held s = drop g (take c (h @ body))" "S = server_at sfd h body g" "n \<le> c + g + (if fin s then 1 else 0)"
    "if fin s then c = length (h @ body) \<and> ShutDown_call cfd how f = Return () else ShutDown_call cfd how f = client_at cfd h body c"
    by (rule J_E)
  then have nf: "\<not> fin s" and C: "client_at cfd h body c = ShutDown_call cfd how f" by (auto split: if_splits)
  have c: "c = length (h @ body)"
  proof (rule ccontr)
    assume "c \<noteq> length (h @ body)"
    then have "c < length (h @ body)" using I(5) by simp
    then show False using client_at_step [OF _ requestD(1) [OF R], of c cfd] C by (metis act.distinct(29))
  qed
  with C have e: "how = SHUTDOWN_WRITE" "f = (\<lambda>_. Return ())" using client_at_end [of cfd h body] by simp_all
  obtain m s' where s: "shut how s = Inr (m, s')" "ok s'" "held s' = held s" "fin s'" using shut_ok [OF I(1) nf] e by blast
  have "J cfd sfd h body (Suc n) ((f m, None), (server_at sfd h body g, q), s')"
    by (rule J_I [OF s(2) _ I(3-5)]) (use s I(6,8) nf e c in simp_all)
  with s(1) show ?thesis by (auto simp: Sq I(7))
qed

lemma J_read:
  assumes J: "J cfd sfd h body n (Cr, (Read_call sfd sz f, q), s)" and R: "request h body"
  shows "(\<exists>cv c t pc s'. rd q sz s = Inr (Wait cv c t pc, s') \<and> held s = [] \<and> \<not> fin s \<and>
      J cfd sfd h body n (Cr, (Read_call sfd sz f, Some pc), s')) \<or>
    (\<exists>x s'. rd q sz s = Inr (Done x, s') \<and> J cfd sfd h body (Suc n) (Cr, (f x, None), s'))"
proof -
  obtain C r where Cr: "Cr = (C, r)" by (cases Cr)
  from J [unfolded Cr] obtain c g where I: "ok s" "pred_option at_wr r" "pred_option at_rd q" "g \<le> c" "c \<le> length (h @ body)"
    "held s = drop g (take c (h @ body))" "Read_call sfd sz f = server_at sfd h body g" "n \<le> c + g + (if fin s then 1 else 0)"
    "if fin s then c = length (h @ body) \<and> C = Return () else C = client_at cfd h body c"
    by (rule J_E)
  have "g \<noteq> length (h @ body)"
  proof
    assume "g = length (h @ body)"
    then have "server_at sfd h body g = unpack_request sfd (int (length body)) body" by (simp only: server_at_end)
    then show False using unpack_no_read I(7) by metis
  qed
  then have g: "g < length (h @ body)" using I(4,5) by simp
  obtain sz' f' where K: "server_at sfd h body g = Read_call sfd sz' f'" "sz' \<noteq> 0"
    "\<And>bs. bs \<noteq> [] \<Longrightarrow> length bs \<le> unat sz' \<Longrightarrow> bs = take (length bs) (drop g (h @ body)) \<Longrightarrow>
       g + length bs \<le> length (h @ body) \<and> f' (int (length bs), bs) = server_at sfd h body (g + length bs)"
    using server_at_step [OF g requestD [OF R]] by blast
  have e: "sz' = sz" "f' = f" using I(7) K(1) by simp_all
  show ?thesis
  proof (cases "held s = []")
    case True
    then have "length (drop g (take c (h @ body))) = 0" using I(6) by simp
    then have "c = g" using I(4,5) by (simp only: length_drop length_take)
    then have nf: "\<not> fin s" using I(9) g by auto
    from rd_none [OF I(1) _ I(3) True nf] K(2) e(1) obtain cv ca t pc s' where
      w: "rd q sz s = Inr (Wait cv ca t pc, s')" "at_rd pc" "ok s'" "held s' = []" "\<not> fin s'" by blast
    have "J cfd sfd h body n ((C, r), (server_at sfd h body g, Some pc), s')"
      by (rule J_I [OF w(3) I(2) _ I(4,5)]) (use w I(6,8,9) nf True in simp_all)
    with w(1) True nf show ?thesis by (auto simp: Cr I(7))
  next
    case False
    from rd_some [OF I(1) _ I(3) this] K(2) e(1) obtain bs s' where
      d: "rd q sz s = Inr (Done (int (length bs), bs), s')" "bs \<noteq> []" "length bs \<le> unat sz"
        "held s = bs @ held s'" "ok s'" "fin s' = fin s" by blast
    have l: "length (held s) = c - g" using I(4,5) unfolding I(6) by (simp only: length_drop length_take min_absorb2)
    then have lb: "g + length bs \<le> c" using d(4) I(4) by simp
    have bl: "bs = take (length bs) (held s)" by (simp add: d(4))
    have "take (length bs) (held s) = take (length bs) (drop g (h @ body))"
      unfolding I(6) drop_take take_take using lb by (simp only: min_absorb1 le_diff_conv2 add.commute [of _ g] I(4))
    with bl have bs: "bs = take (length bs) (drop g (h @ body))" by (simp only:)
    have "held s' = drop (length bs) (held s)" by (simp add: d(4))
    then have h: "held s' = drop (g + length bs) (take c (h @ body))" by (simp only: I(6) drop_drop add.commute)
    have m: "f (int (length bs), bs) = server_at sfd h body (g + length bs)" using K(3) [OF d(2) _ bs] d(3) e by simp
    have "J cfd sfd h body (Suc n) ((C, r), (server_at sfd h body (g + length bs), None), s')"
    proof (rule J_I [OF d(5) I(2) _ lb I(5) h])
      have "0 < length bs" using d(2) by simp
      then show "Suc n \<le> c + (g + length bs) + (if fin s' then 1 else 0)" 
        unfolding d(6) using I(8) by linarith
      show "if fin s' then c = length (h @ body) \<and> C = Return () else C = client_at cfd h body c" using I(9) by (simp only: d(6))
    qed simp
    with d(1) show ?thesis unfolding Cr m [symmetric] by blast
  qed
qed

lemma J_step:
  assumes J: "J cfd sfd h body n x" and R: "request h body" and t: "talk cfd sfd wr rd shut others d x y"
  shows "J cfd sfd h body (n + d) y"
  using t J
proof cases
  case (writes r mem sz s m s' f S)
  then show ?thesis using J_write [OF J [unfolded writes] R] by auto
next
  case (write_waits r mem sz s cv ca t pc s' f S)
  then show ?thesis using J_write [OF J [unfolded write_waits] R] by auto
next
  case (write_fails r mem sz s e f S)
  then show ?thesis using J_write [OF J [unfolded write_fails] R] by auto
next
  case (shuts how s m s' f r S)
  then show ?thesis using J_shut [OF J [unfolded shuts] R] by auto
next
  case (shut_fails how s e f r S)
  then show ?thesis using J_shut [OF J [unfolded shut_fails] R] by auto
next
  case (reads r sz s v s' C g)
  then show ?thesis using J_read [OF J [unfolded reads] R] by auto
next
  case (read_waits r sz s cv ca t pc s' C g)
  then show ?thesis using J_read [OF J [unfolded read_waits] R] by auto
next
  case (read_fails r sz s e C g)
  then show ?thesis using J_read [OF J [unfolded read_fails] R] by auto
next
  case (elsewhere s s' C S)
  then show ?thesis using others_ok [of s s'] J by (cases C, cases S) (auto elim!: J_E intro!: J_I)
qed

lemma J_talks: "talks cfd sfd wr rd shut others n x y \<Longrightarrow> J cfd sfd h body 0 x \<Longrightarrow> request h body \<Longrightarrow> J cfd sfd h body n y"
  by (induction rule: talks.induct) (auto intro: J_step)

lemma J_bound: "J cfd sfd h body n x \<Longrightarrow> n \<le> 2 * length (h @ body) + 1"
  by (cases x, cases "fst x", cases "fst (snd x)") (auto elim!: J_E split: if_splits)

text \<open>The server has all bytes, or some call of the two can return.\<close>

lemma J_goes_on:
  assumes J: "J cfd sfd h body n ((C, r), (S, q), s)" and R: "request h body"
  shows "S = unpack_request sfd (int (length body)) body \<or> (\<exists>y. talk cfd sfd wr rd shut others 1 ((C, r), (S, q), s) y)"
proof -
  from J obtain c g where I: "ok s" "pred_option at_wr r" "pred_option at_rd q" "g \<le> c" "c \<le> length (h @ body)"
    "held s = drop g (take c (h @ body))" "S = server_at sfd h body g" "n \<le> c + g + (if fin s then 1 else 0)"
    "if fin s then c = length (h @ body) \<and> C = Return () else C = client_at cfd h body c"
    by (rule J_E)
  show ?thesis
  proof (cases "g = length (h @ body)")
    case True
    then show ?thesis using I(7) server_at_end [of sfd h body] by simp
  next
    case False
    then have g: "g < length (h @ body)" using I(4,5) by simp
    obtain sz f where K: "S = Read_call sfd sz f" using server_at_step [OF g requestD [OF R]] I(7) by metis
    from J_read [OF J [unfolded K] R] show ?thesis
    proof
      assume w: "\<exists>cv c t pc s'. rd q sz s = Inr (Wait cv c t pc, s') \<and> held s = [] \<and> \<not> fin s \<and>
        J cfd sfd h body n ((C, r), (Read_call sfd sz f, Some pc), s')"
      then have "length (drop g (take c (h @ body))) = 0" "\<not> fin s" using I(6) by auto
      then have "c = g" "\<not> fin s" using I(4,5) by (simp_all only: length_drop length_take not_False_eq_True)
      then have C: "C = client_at cfd h body c" "c < length (h @ body)" using I(9) g by auto
      obtain mem wsz k where "C = Write_call cfd mem wsz k" using client_at_step [OF C(2) requestD(1) [OF R]] C(1) by metis
      then obtain m s' where "wr r mem wsz s = Inr (Done (int m), s')" using J_write [OF J [unfolded \<open>C = Write_call cfd mem wsz k\<close>] R] w by auto
      then show ?thesis unfolding \<open>C = Write_call cfd mem wsz k\<close> by (blast intro: talk.writes)
    next
      assume "\<exists>x s'. rd q sz s = Inr (Done x, s') \<and> J cfd sfd h body (Suc n) ((C, r), (f x, None), s')"
      then show ?thesis unfolding K by (blast intro: talk.reads)
    qed
  qed
qed

end

section \<open>Connected sockets are such a stream\<close>

definition stream_ok :: "nat \<Rightarrow> nat \<Rightarrow> nat \<Rightarrow> kernel \<Rightarrow> bool" where
  "stream_ok a b ab k \<longleftrightarrow> cc_inv (cc k) \<and> a \<noteq> b \<and> (\<exists>sa sb p.
     scbs k a = Some sa \<and> stype sa = PEER \<and> peer sa \<noteq> None \<and>
     scbs k b = Some sb \<and> stype sb = PEER \<and> peer sb \<noteq> None \<and> receive sb = Some ab \<and>
     pipes k ab = Some p \<and> pipe_inv p \<and> \<not> reader_closed p \<and> (writer_closed p \<or> send sa = Some ab))"

definition stream_held :: "nat \<Rightarrow> kernel \<Rightarrow> byte list" where
  "stream_held ab k = (case pipes k ab of None \<Rightarrow> [] | Some p \<Rightarrow> contents p)"

definition stream_fin :: "nat \<Rightarrow> kernel \<Rightarrow> bool" where
  "stream_fin ab k = (case pipes k ab of None \<Rightarrow> False | Some p \<Rightarrow> writer_closed p)"

lemma stream_okE:
  assumes "stream_ok a b ab k"
  obtains sa sb p where "cc_inv (cc k)" "a \<noteq> b" "scbs k a = Some sa" "stype sa = PEER" "peer sa \<noteq> None"
    "scbs k b = Some sb" "stype sb = PEER" "peer sb \<noteq> None" "receive sb = Some ab"
    "pipes k ab = Some p" "pipe_inv p" "\<not> reader_closed p" "writer_closed p \<or> send sa = Some ab"
    "stream_held ab k = contents p" "stream_fin ab k = writer_closed p"
  using assms by (auto simp: stream_ok_def stream_held_def stream_fin_def)

lemma stream_ok_pipe:
  assumes "stream_ok a b ab k" "pipes k ab = Some p" "cc_inv s" "pipe_inv p'" "reader_closed p' = reader_closed p"
    "writer_closed p' = writer_closed p"
  shows "stream_ok a b ab (k\<lparr>cc := s, pipes := (pipes k)(ab \<mapsto> p')\<rparr>)"
  using assms by (auto simp: stream_ok_def)

lemma socket_wr_pipe:
  assumes "stream_ok a b ab k" "\<not> stream_fin ab k" "pred_option (\<lambda>p. p = ab) r"
  shows "socket_wr a r buf sz k =
     bindE (pipe_write_resume ab buf sz k) (\<lambda>(out, k1). Inr (map_wait (\<lambda>_. ab) id out, k1))"
  using assms(1)
proof (rule stream_okE)
  fix sa sb p
  assume K: "scbs k a = Some sa" "stype sa = PEER" "peer sa \<noteq> None" "pipes k ab = Some p" "\<not> reader_closed p"
    "writer_closed p \<or> send sa = Some ab" "stream_fin ab k = writer_closed p"
  have "pipe_write ab buf sz k = pipe_write_resume ab buf sz k" using K(4,5) by (simp add: pipe_write_def)
  then show ?thesis using assms(2,3) K
    by (cases r) (auto simp: socket_wr_def socket_write_def socket_write_pipe_def map_wait_def fun_eq_iff
        intro!: arg_cong [of _ _ "bindE _"] split: outcome.split)
qed

lemma socket_rd_pipe:
  assumes "stream_ok a b ab k" "pred_option (\<lambda>p. p = ab) r"
  shows "socket_rd b r sz k = bindE (pipe_read ab sz k) (\<lambda>(out, k1). Inr (map_wait (\<lambda>_. ab) id out, k1))"
  using assms(1)
proof (rule stream_okE)
  fix sa sb p
  assume "scbs k b = Some sb" "stype sb = PEER" "peer sb \<noteq> None" "receive sb = Some ab"
  then show ?thesis using assms(2)
    by (cases r) (auto simp: socket_rd_def socket_read_def socket_read_pipe_def map_wait_def fun_eq_iff
        intro!: arg_cong [of _ _ "bindE _"] split: outcome.split)
qed

lemma socket_wr_ok:
  assumes S: "stream_ok a b ab k" and nf: "\<not> stream_fin ab k" and sz: "sz \<noteq> 0" and r: "pred_option (\<lambda>p. p = ab) r"
  shows "(\<exists>cv c t pc k'. socket_wr a r buf sz k = Inr (Wait cv c t pc, k') \<and> pc = ab \<and> stream_held ab k \<noteq> [] \<and>
      stream_ok a b ab k' \<and> stream_held ab k' = stream_held ab k \<and> \<not> stream_fin ab k') \<or>
    (\<exists>m k'. socket_wr a r buf sz k = Inr (Done (int m), k') \<and> 0 < m \<and> m \<le> unat sz \<and>
      stream_ok a b ab k' \<and> stream_held ab k' = stream_held ab k @ map buf [0..<m] \<and> \<not> stream_fin ab k')"
  using S
proof (rule stream_okE)
  fix sa sb p
  assume K: "cc_inv (cc k)" "pipes k ab = Some p" "pipe_inv p" "\<not> reader_closed p" "stream_held ab k = contents p"
    "stream_fin ab k = writer_closed p"
  note wr = socket_wr_pipe [OF S nf r, of buf sz]
  show ?thesis
  proof (cases "length (contents p) = BUFF_SIZE")
    case True
    have "pipe_write ab buf sz k = Inr (Wait (Pipe_has_space ab) SCHED_PIPE NO_TIMEOUT (), k)"
      using pipe_write_effect [OF K(1-3) sz K(4), of buf] unfolding if_P [OF True] .
    then have "pipe_write_resume ab buf sz k = Inr (Wait (Pipe_has_space ab) SCHED_PIPE NO_TIMEOUT (), k)"
      using K(2,4) by (simp add: pipe_write_def)
    moreover have "contents p \<noteq> []" using True BUFF_SIZE_pos by (metis less_numeral_extra(3) list.size(3))
    ultimately show ?thesis using S nf by (simp add: wr K(5))
  next
    case False
    then have u: "used p < BUFF_SIZE" by (simp add: used_def)
    obtain s p' m where w: "pipe_write_resume ab buf sz k = Inr (Done (int m), k\<lparr>cc := s, pipes := (pipes k)(ab \<mapsto> p')\<rparr>)"
      "woken (Pipe_has_data ab) (waitset (cc k) (Pipe_has_data ab)) (cc k) s" "pipe_inv p'"
      "contents p' = contents p @ map buf [0..<m]" "m = span_of sz (BUFF_SIZE - used p)"
      "reader_closed p' = reader_closed p" "writer_closed p' = writer_closed p"
      using pipe_write_Done [OF K(2,3) u K(1), of buf sz] by blast
    have "0 < m" "m \<le> unat sz" using w(5) sz u by (simp_all add: span_of_def unat_gt_0)
    moreover have "stream_ok a b ab (k\<lparr>cc := s, pipes := (pipes k)(ab \<mapsto> p')\<rparr>)"
      by (rule stream_ok_pipe [OF S K(2) wokenD(1) [OF w(2)] w(3,6,7)])
    ultimately show ?thesis using nf by (intro disjI2) (simp add: wr w(1,4,7) stream_held_def stream_fin_def K(2))
  qed
qed

lemma socket_rd_ok:
  assumes S: "stream_ok a b ab k" and sz: "sz \<noteq> 0" and r: "pred_option (\<lambda>p. p = ab) r"
  shows "stream_held ab k = [] \<Longrightarrow> \<not> stream_fin ab k \<Longrightarrow> \<exists>cv c t pc k'. socket_rd b r sz k = Inr (Wait cv c t pc, k') \<and> pc = ab \<and>
      stream_ok a b ab k' \<and> stream_held ab k' = [] \<and> \<not> stream_fin ab k'"
    and "stream_held ab k \<noteq> [] \<Longrightarrow> \<exists>bs k'. socket_rd b r sz k = Inr (Done (int (length bs), bs), k') \<and> bs \<noteq> [] \<and> length bs \<le> unat sz \<and>
      stream_held ab k = bs @ stream_held ab k' \<and> stream_ok a b ab k' \<and> stream_fin ab k' = stream_fin ab k"
proof -
  from S obtain p where K: "cc_inv (cc k)" "pipes k ab = Some p" "pipe_inv p" "stream_held ab k = contents p"
    "stream_fin ab k = writer_closed p" by (rule stream_okE)
  note rd = socket_rd_pipe [OF S r, of sz]
  show "\<exists>cv c t pc k'. socket_rd b r sz k = Inr (Wait cv c t pc, k') \<and> pc = ab \<and>
      stream_ok a b ab k' \<and> stream_held ab k' = [] \<and> \<not> stream_fin ab k'" if "stream_held ab k = []" "\<not> stream_fin ab k"
    using pipe_read_effect [OF K(1-3) sz] that S by (simp add: K(4,5) rd)
  show "\<exists>bs k'. socket_rd b r sz k = Inr (Done (int (length bs), bs), k') \<and> bs \<noteq> [] \<and> length bs \<le> unat sz \<and>
      stream_held ab k = bs @ stream_held ab k' \<and> stream_ok a b ab k' \<and> stream_fin ab k' = stream_fin ab k"
    if ne: "stream_held ab k \<noteq> []"
  proof -
    have ne': "contents p \<noteq> []" using ne K(4) by simp
    obtain s p' bs where d: "pipe_read ab sz k = Inr (Done (int (length bs), bs), k\<lparr>cc := s, pipes := (pipes k)(ab \<mapsto> p')\<rparr>)"
      "woken (Pipe_has_space ab) (waitset (cc k) (Pipe_has_space ab)) (cc k) s" "pipe_inv p'"
      "contents p = bs @ contents p'" "length bs = span_of sz (used p)"
      "reader_closed p' = reader_closed p" "writer_closed p' = writer_closed p"
      using pipe_read_Done [OF K(2,3) ne' K(1), of sz] by blast
    have "0 < used p" using ne' length_contents [of p] by (cases "contents p") auto
    then have "0 < length bs" "length bs \<le> unat sz" using d(5) sz by (simp_all add: span_of_def unat_gt_0)
    moreover have "stream_ok a b ab (k\<lparr>cc := s, pipes := (pipes k)(ab \<mapsto> p')\<rparr>)"
      by (rule stream_ok_pipe [OF S K(2) wokenD(1) [OF d(2)] d(3,6,7)])
    ultimately show ?thesis
      by (intro exI [of _ bs] exI [of _ "k\<lparr>cc := s, pipes := (pipes k)(ab \<mapsto> p')\<rparr>"])
        (simp add: rd d(1,4,7) stream_held_def stream_fin_def K(2))
  qed
qed

lemma socket_shut_ok:
  assumes S: "stream_ok a b ab k" and nf: "\<not> stream_fin ab k"
  shows "\<exists>n k'. shutdown_socket a SHUTDOWN_WRITE k = Inr (n, k') \<and> stream_ok a b ab k' \<and>
     stream_held ab k' = stream_held ab k \<and> stream_fin ab k'"
  using S
proof (rule stream_okE)
  fix sa sb p
  assume K: "cc_inv (cc k)" "a \<noteq> b" "scbs k a = Some sa" "stype sa = PEER" "peer sa \<noteq> None"
    "scbs k b = Some sb" "stype sb = PEER" "peer sb \<noteq> None" "receive sb = Some ab" "pipes k ab = Some p" "pipe_inv p"
    "\<not> reader_closed p" "writer_closed p \<or> send sa = Some ab" "stream_held ab k = contents p" "stream_fin ab k = writer_closed p"
  have w: "\<not> writer_closed p" "send sa = Some ab" using nf K(13,15) by simp_all
  obtain s where s: "writer_close (Some ab) k = Inr (0, k\<lparr>cc := s, pipes := (pipes k)(ab \<mapsto> p\<lparr>writer_closed := True\<rparr>)\<rparr>)" "cc_inv s"
    using writer_close_ok [OF K(1,10) w(1)] by blast
  let ?k = "upd_scb a (\<lambda>s. s\<lparr>send := None\<rparr>) (k\<lparr>cc := s, pipes := (pipes k)(ab \<mapsto> p\<lparr>writer_closed := True\<rparr>)\<rparr>)"
  have "shutdown_socket a SHUTDOWN_WRITE k = Inr (0, ?k)"
    using K(3-5) s(1) w(2) by (simp add: shutdown_socket_def shutdown_write_def)
  moreover have "stream_ok a b ab ?k" using K s(2) by (simp add: stream_ok_def pipe_inv_def used_def)
  moreover have "stream_held ab ?k = stream_held ab k" by (simp add: stream_held_def K(10) contents_def used_def)
  moreover have "stream_fin ab ?k" by (simp add: stream_fin_def)
  ultimately show ?thesis by blast
qed

interpretation sockets: byte_stream "stream_ok a b ab" "stream_held ab" "stream_fin ab" "\<lambda>p. p = ab" "\<lambda>p. p = ab"
  "socket_wr a" "socket_rd b" "shutdown_socket a" "apart_from a b ab" for a b ab
proof unfold_locales
qed (use socket_wr_ok socket_rd_ok socket_shut_ok in \<open>auto simp: apart_from_def stream_ok_def stream_held_def stream_fin_def\<close>)

section \<open>The properties of requests\<close>

lemma bytes_int_int_bytes: "bytes_int (int_bytes w) = w"
proof (rule bit_word_eqI)
  fix n assume n: "n < LENGTH(32)"
  have k: "n div 8 < 4" using n by simp
  have "bit (bytes_int (int_bytes w)) n = bit (horner_sum uint (2 ^ LENGTH(8)) (int_bytes w)) n"
    using n by (simp add: bytes_int_def word_rcat_def bit_simps)
  also have "\<dots> = bit (int_bytes w ! (n div 8)) (n mod 8)"
    using k by (subst bit_horner_sum_uint_exp_iff) (simp add: int_bytes_def)
  also have "\<dots> = bit w n" using k n by (simp add: int_bytes_def bit_simps)
  finally show "bit (bytes_int (int_bytes w)) n = bit w n" .
qed

lemma length_int_bytes [simp]: "length (int_bytes w) = 4"
  by (simp add: int_bytes_def)

text \<open>What \<^verbatim>\<open>Execute\<close> is called with for a request.\<close>

definition request_argv :: "int \<Rightarrow> byte list list \<Rightarrow> byte list list" where
  "request_argv sock argv = process_name # (bytes (decimal (nat sock)) @ [0]) # map (\<lambda>b. cstring b @ [0]) argv"

lemma sint_of_length: "n < 2 ^ 31 \<Longrightarrow> sint (of_nat n :: u32) = int n"
  by (simp add: signed_of_nat signed_take_bit_int_eq_self_iff)

lemma client_request_start:
  assumes "terminated argv" "length (packed argv) < 2 ^ 31" "\<And>n. length (junk n) = n"
  shows "client_request fd junk argv = client_at fd (int_bytes (of_nat (length (packed argv)))) (packed argv) 0"
proof -
  let ?n = "length (packed argv)"
  have w: "(ucast (of_nat ?n :: u64) :: u32) = of_nat ?n" using assms(2) by (simp add: unsigned_of_nat take_bit_nat_eq_self)
  have p: "argvpack (junk ?n) (length argv) argv = Inr (packed argv, of_nat ?n)"
    using argvpack_eq [OF assms(1), of "junk ?n"] assms(2,3) by simp
  show ?thesis
    using argvlen_eq [OF assms(1)] p sint_of_length [OF assms(2)]
    by (simp add: client_request_def w Let_def send_message_def client_at_def client_tail_def sizeof_int_def)
qed

lemma server_start: "length h = 4 \<Longrightarrow> rsrv_request fd = server_at fd h body 0"
  by (simp add: rsrv_request_def server_at_def recv_message_def sizeof_int_def)

lemma unpack_packed:
  assumes "length (packed argv) < 2 ^ 31"
  shows "unpack_request fd (int (length (packed argv))) (packed argv) = Return (Some (request_argv fd argv))"
proof -
  have "length argv < 2 ^ 31" using packed_length [of argv] assms by simp
  then obtain offs where o: "argvunpack (length argv) (packed argv) = Inr (offs, length (packed argv))"
    "map (\<lambda>a. cstring (drop a (packed argv))) offs = map cstring argv"
    using argvunpack_packed [of argv "[]"] by auto
  have "map (\<lambda>a. cstring (drop a (packed argv)) @ [0]) offs = map (\<lambda>b. b @ [0]) (map (\<lambda>a. cstring (drop a (packed argv))) offs)"
    by simp
  also have "\<dots> = map (\<lambda>b. cstring b @ [0]) argv" unfolding o(2) by simp
  finally show ?thesis using o(1) argscount_packed [OF assms, of "[]"] by (simp add: unpack_request_def request_argv_def)
qed

text \<open>
  C6: a request of 1 to 2048 packed bytes reaches the server. The client and the server are at the two ends of a pair of
  connected sockets of the kernel, on which nothing has been sent yet. However the two programs, their waits
  and the rest of the system interleave, and in however many pieces the pipe takes and gives the bytes:
  no call fails, the client does not give up, and the server calls \<^verbatim>\<open>Execute\<close> with the strings of the client
  behind its own name and the number of the socket, or some call of the two programs can return, which
  happens a bounded number of times. A longer request fails the assertion of the server (\<open>long_request_aborts\<close> below).
\<close>

theorem request_delivered:
  assumes "stream_ok a b ab k" and "stream_held ab k = []" and "\<not> stream_fin ab k" and "terminated argv" and "argv \<noteq> []"
    and "length (packed argv) \<le> 2048" and "\<And>n. length (junk n) = n"
    and "talks cfd sfd (socket_wr a) (socket_rd b) (shutdown_socket a) (apart_from a b ab) n
       ((client_request cfd junk argv, None), (rsrv_request sfd, None), k) ((C, r), (S, q), k')"
  shows "n \<le> 2 * length (packed argv) + 9 \<and> (\<forall>e. C \<noteq> Fail e \<and> S \<noteq> Fail e) \<and> (\<forall>m. C \<noteq> Exits m) \<and>
     (\<forall>x. S = Return x \<longrightarrow> x = Some (request_argv sfd argv)) \<and>
     (S = Return (Some (request_argv sfd argv)) \<or>
      (\<exists>y. talk cfd sfd (socket_wr a) (socket_rd b) (shutdown_socket a) (apart_from a b ab) 1 ((C, r), (S, q), k') y))"
proof -
  let ?h = "int_bytes (of_nat (length (packed argv)))" and ?b = "packed argv"
  let ?J = "sockets.J a b ab cfd sfd ?h ?b"
  have l: "0 < length ?b" using assms(5) by (cases argv) simp_all
  have up: "unpack_request sfd (int (length ?b)) ?b = Return (Some (request_argv sfd argv))"
    by (rule unpack_packed) (use assms(6) in simp)
  have R: "request ?h ?b" using l assms(6) by (simp add: request_def bytes_int_int_bytes sint_of_length)
  have c: "client_request cfd junk argv = client_at cfd ?h ?b 0" using client_request_start [OF assms(4) _ assms(7)] assms(6) by simp
  have s: "rsrv_request sfd = server_at sfd ?h ?b 0" by (rule server_start) simp
  have "?J 0 ((client_request cfd junk argv, None), (rsrv_request sfd, None), k)"
    unfolding s by (rule sockets.J_I [OF assms(1)]) (use assms(2,3) c in simp_all)
  from sockets.J_talks [OF assms(8) this R] have J: "?J n ((C, r), (S, q), k')" .
  then obtain c g where I: "c \<le> length (?h @ ?b)" "g \<le> c" "S = server_at sfd ?h ?b g"
    "if stream_fin ab k' then c = length (?h @ ?b) \<and> C = Return () else C = client_at cfd ?h ?b c" by (rule sockets.J_E)
  have S: "S = Return (Some (request_argv sfd argv)) \<or> (\<exists>sz f. S = Read_call sfd sz f)"
  proof (cases "g = length (?h @ ?b)")
    case True
    then show ?thesis using I(3) server_at_end [of sfd ?h ?b] up by simp
  next
    case False
    then have "g < length (?h @ ?b)" using I(1,2) by simp
    then show ?thesis using server_at_step [OF _ requestD [OF R]] I(3) by metis
  qed
  have C: "C = Return () \<or> (\<exists>mem sz f. C = Write_call cfd mem sz f) \<or> (\<exists>how f. C = ShutDown_call cfd how f)"
  proof (cases "stream_fin ab k' \<or> c = length (?h @ ?b)")
    case True
    then show ?thesis using I(4) client_at_end [of cfd ?h ?b] by (auto split: if_splits)
  next
    case False
    then have "c < length (?h @ ?b)" using I(1) by simp
    then show ?thesis using client_at_step [OF _ requestD(1) [OF R]] I(4) False by metis
  qed
  have "n \<le> 2 * length ?b + 9" using sockets.J_bound [OF J] by simp
  moreover have "S = Return (Some (request_argv sfd argv)) \<or>
      (\<exists>y. talk cfd sfd (socket_wr a) (socket_rd b) (shutdown_socket a) (apart_from a b ab) 1 ((C, r), (S, q), k') y)"
    using sockets.J_goes_on [OF J R] up by simp
  moreover have "C \<noteq> Fail e \<and> S \<noteq> Fail e" "C \<noteq> Exits m" for e m using S C by auto
  moreover have "S = Return x \<longrightarrow> x = Some (request_argv sfd argv)" for x using S by auto
  ultimately show ?thesis by blast
qed

lemma example_stream: "stream_ok 10 11 20 socket_kernel" "stream_held 20 socket_kernel = []" "\<not> stream_fin 20 socket_kernel"
  using socket_kernel_joined socket_kernel_cc_inv
  by (auto simp: stream_ok_def stream_held_def stream_fin_def joined_def)

theorem request_delivered_witness:
  "\<exists>y. talk 3 4 (socket_wr 10) (socket_rd 11) (shutdown_socket 10) (apart_from 10 11 20) 1
     ((client_request 3 (\<lambda>n. replicate n 0) [[108, 115, 0]], None), (rsrv_request 4, None), socket_kernel) y"
proof -
  let ?argv = "[[108, 115, 0]] :: byte list list" and ?j = "\<lambda>n. replicate n 0 :: byte list"
  have a: "terminated ?argv" "?argv \<noteq> []" "length (packed ?argv) \<le> 2048" "length (?j n) = n" for n
    by (simp_all add: cstring_def)
  have "rsrv_request 4 = Return (Some (request_argv 4 ?argv)) \<or>
      (\<exists>y. talk 3 4 (socket_wr 10) (socket_rd 11) (shutdown_socket 10) (apart_from 10 11 20) 1
     ((client_request 3 ?j ?argv, None), (rsrv_request 4, None), socket_kernel) y)"
    using request_delivered [OF example_stream a talks.start] by blast
  moreover have "rsrv_request 4 \<noteq> Return x" for x
    by (simp add: rsrv_request_def recv_message_def sizeof_int_def recv_loop.simps)
  ultimately show ?thesis by blast
qed

section \<open>Whatever the client sends\<close>

text \<open>
  A program whose reads give any bytes, up to the size asked for, or fail. \<open>fed S n T\<close>: after \<open>n\<close>
  bytes, \<open>S\<close> has become \<open>T\<close>.
\<close>

inductive fed :: "'a act \<Rightarrow> nat \<Rightarrow> 'a act \<Rightarrow> bool" for S where
  unfed: "fed S 0 S"
| more_bytes: "fed S n (Read_call fd sz f) \<Longrightarrow> bs \<noteq> [] \<Longrightarrow> length bs \<le> unat sz \<Longrightarrow> fed S (n + length bs) (f (int (length bs), bs))"
| no_bytes: "fed S n (Read_call fd sz f) \<Longrightarrow> rc < 1 \<Longrightarrow> fed S n (f (rc, []))"

definition in_body :: "int \<Rightarrow> int \<Rightarrow> bool \<times> byte list \<Rightarrow> byte list list option act" where
  "in_body fd len = (\<lambda>(got, body). if \<not> got then Return None else unpack_request fd len body)"

definition in_header :: "int \<Rightarrow> bool \<times> byte list \<Rightarrow> byte list list option act" where
  "in_header fd = (\<lambda>(got, hdr). if \<not> got then Return None
     else let argl = sint (bytes_int hdr) in
       if \<not> (argl > 0 \<and> argl \<le> 2048) then Fail Assert_failed
       else bindA (recv_message fd (nat argl) (nat argl)) (in_body fd argl))"

text \<open>Where the server is after \<open>m\<close> bytes.\<close>

inductive serving :: "int \<Rightarrow> nat \<Rightarrow> byte list list option act \<Rightarrow> bool" for fd where
  header: "length buf = c \<Longrightarrow> c < 4 \<Longrightarrow> serving fd c (bindA (recv_loop fd 4 4 c buf) (in_header fd))"
| body: "length buf = c \<Longrightarrow> c < n \<Longrightarrow> n \<le> 2048 \<Longrightarrow> serving fd (4 + c) (bindA (recv_loop fd n n c buf) (in_body fd (int n)))"
| dropped: "m \<le> 2052 \<Longrightarrow> serving fd m (Return None)"
| aborted: "m \<le> 2052 \<Longrightarrow> serving fd m (Fail Assert_failed)"
| unpacked: "length buf = n \<Longrightarrow> n \<le> 2048 \<Longrightarrow> serving fd (4 + n) (unpack_request fd (int n) buf)"

lemma recv_read:
  assumes "bindA (recv_loop fd n n c buf) K = Read_call fd' sz f" "c < n" "n < 2 ^ 32" "length buf = c"
  shows "unat sz = n - c" "rc < 1 \<Longrightarrow> f (rc, []) = K (False, buf)"
    "bs \<noteq> [] \<Longrightarrow> length bs \<le> unat sz \<Longrightarrow> f (int (length bs), bs) = bindA (recv_loop fd n n (c + length bs) (buf @ bs)) K"
  using assms by (auto simp: recv_loop.simps [of fd n n c] unat_of_nat Suc_le_eq simp del: of_nat_diff)

lemma serving_header: "length buf = 4 \<Longrightarrow> serving fd 4 (in_header fd (True, buf))"
  using serving.body [of "[]" 0 "nat (sint (bytes_int buf))" fd]
  by (auto simp: in_header_def Let_def recv_message_def intro!: serving.aborted)

lemma serving_read:
  assumes "serving fd m (Read_call fd' sz f)"
  shows "rc < 1 \<Longrightarrow> serving fd m (f (rc, []))"
    and "bs \<noteq> [] \<Longrightarrow> length bs \<le> unat sz \<Longrightarrow> serving fd (m + length bs) (f (int (length bs), bs))"
proof -
  have "(rc < 1 \<longrightarrow> serving fd m (f (rc, []))) \<and> (bs \<noteq> [] \<longrightarrow> length bs \<le> unat sz \<longrightarrow> serving fd (m + length bs) (f (int (length bs), bs)))"
    using assms
  proof cases
    case (header buf)
    have n: "(4 :: nat) < 2 ^ 32" by simp
    note R = recv_read [OF header(1) [symmetric] header(3) n header(2)]
    have "serving fd (m + length bs) (bindA (recv_loop fd 4 4 (m + length bs) (buf @ bs)) (in_header fd))" if "length bs \<le> unat sz"
      using that header R(1) serving_header [of "buf @ bs" fd] serving.header [of "buf @ bs" "m + length bs" fd]
      by (cases "m + length bs = 4") auto
    then show ?thesis using R header(3) by (auto simp: in_header_def intro!: serving.dropped)
  next
    case (body buf c n)
    then have n: "n < 2 ^ 32" by simp
    note R = recv_read [OF body(2) [symmetric] body(4) n body(3)]
    have "serving fd (m + length bs) (bindA (recv_loop fd n n (c + length bs) (buf @ bs)) (in_body fd (int n)))" if "length bs \<le> unat sz"
      using that body R(1) serving.unpacked [of "buf @ bs" n fd] serving.body [of "buf @ bs" "c + length bs" n fd]
      by (cases "c + length bs = n") (auto simp: in_body_def add.assoc)
    then show ?thesis using R body(1,4,5) by (auto simp: in_body_def intro!: serving.dropped)
  next
    case (unpacked buf n)
    then show ?thesis using unpack_no_read by metis
  qed
  then show "rc < 1 \<Longrightarrow> serving fd m (f (rc, []))"
    and "bs \<noteq> [] \<Longrightarrow> length bs \<le> unat sz \<Longrightarrow> serving fd (m + length bs) (f (int (length bs), bs))" by simp_all
qed

lemma serving_fed: "fed S m T \<Longrightarrow> serving fd 0 S \<Longrightarrow> serving fd m T"
  by (induction rule: fed.induct) (auto intro: serving_read)

lemma serving_start: "serving fd 0 (rsrv_request fd)"
proof -
  have "rsrv_request fd = bindA (recv_loop fd 4 4 0 []) (in_header fd)"
    unfolding rsrv_request_def in_header_def in_body_def recv_message_def sizeof_int_def ..
  then show ?thesis by (simp add: serving.header)
qed

lemma skip_string_total:
  "0 \<in> set (drop a buf) \<Longrightarrow> \<exists>a'. skip_string buf a = Inr a' \<and>
     count_list (drop a buf) 0 = Suc (count_list (drop a' buf) 0)"
proof (induction "length buf - a" arbitrary: a)
  case 0
  then show ?case by simp
next
  case (Suc m)
  then have a: "a < length buf" by simp
  then have d: "drop a buf = buf ! a # drop (Suc a) buf" by (simp add: Cons_nth_drop_Suc)
  show ?case
  proof (cases "buf ! a = 0")
    case True
    then show ?thesis using a d by (subst skip_string.simps) auto
  next
    case False
    then have "0 \<in> set (drop (Suc a) buf)" using Suc.prems d by auto
    with Suc.hyps(1) [of "Suc a"] Suc.hyps(2) False d a show ?thesis by (subst skip_string.simps) auto
  qed
qed

lemma argvunpack_total:
  "m \<le> count_list (drop a buf) 0 \<Longrightarrow> j + m < 2 ^ 31 \<Longrightarrow>
     \<exists>offs a'. argvunpack_loop (j + m) buf (int j) a = Inr (offs, a') \<and> length offs = m"
proof (induction m arbitrary: j a)
  case 0
  show ?case by (simp add: argvunpack_loop.simps)
next
  case (Suc m)
  have "0 \<in> set (drop a buf)"
  proof (rule ccontr)
    assume "0 \<notin> set (drop a buf)"
    then have "count_list (drop a buf) 0 = 0" by (rule count_notin)
    with Suc.prems show False by simp
  qed
  then obtain a' where a': "skip_string buf a = Inr a'" "count_list (drop a buf) 0 = Suc (count_list (drop a' buf) 0)"
    using skip_string_total by blast
  then have "m \<le> count_list (drop a' buf) 0" "Suc j + m < 2 ^ 31" using Suc.prems by simp_all
  from Suc.IH [OF this] obtain offs b where
    "argvunpack_loop (j + Suc m) buf (int j + 1) a' = Inr (offs, b)" "length offs = m" by (auto simp: add.commute)
  then show ?case using a'(1) Suc.prems(2) by (subst argvunpack_loop.simps) simp
qed

lemma unpack_total:
  assumes "length buf = n" and "n < 2 ^ 31"
  shows "\<exists>argv. unpack_request fd (int n) buf = Return (Some argv) \<and> terminated argv \<and> 2 \<le> length argv \<and> length argv \<le> n + 2"
proof -
  have l: "count_list buf 0 \<le> n" using count_le_length [of buf 0] assms by simp
  have c: "argscount (int n) buf = Inr (count_list buf 0)" using assms argscount_eq [of n buf] by simp
  obtain offs a' where "argvunpack_loop (count_list buf 0) buf 0 0 = Inr (offs, a')" "length offs = count_list buf 0"
    using argvunpack_total [of "count_list buf 0" 0 buf 0] l assms(2) by auto
  then show ?thesis using c l by (auto simp: unpack_request_def argvunpack_def process_name_def)
qed

text \<open>
  C30: no request makes the server leave its buffers. Whatever the client sends, in whatever pieces, and
  wherever the connection breaks, the server takes at most 4 + 2048 bytes and stores all of them in its buffers, the variable for the
  length and the array of that length. It either gives the request up, or fails the assertion that the length is
  between 1 and 2048, or calls \<^verbatim>\<open>Execute\<close> with terminated strings, two of its own and at most as many as
  the request has bytes after the length.
\<close>

theorem request_robust:
  assumes "fed (rsrv_request fd) n S"
  shows "n \<le> 2052 \<and> S \<noteq> Exits m \<and> (\<forall>e. S = Fail e \<longrightarrow> e = Assert_failed) \<and>
     (\<forall>argv. S = Return (Some argv) \<longrightarrow> terminated argv \<and> 2 \<le> length argv \<and> length argv \<le> (n - 4) + 2)"
proof -
  have "serving fd n S" by (rule serving_fed [OF assms serving_start])
  then show ?thesis
  proof cases
    case (unpacked buf n)
    then show ?thesis using unpack_total [of buf n fd] by auto
  qed (simp_all add: recv_loop.simps)
qed

text \<open>A client that sends the length 3 and the bytes of the string \<^verbatim>\<open>ls\<close>.\<close>

theorem request_robust_witness:
  "\<exists>argv. fed (rsrv_request 4) 7 (Return (Some argv)) \<and> terminated argv \<and> length argv = 3"
proof -
  let ?h = "int_bytes 3" and ?b = "packed [[108, 115, 0]]"
  have b: "length ?b = 3" by (simp add: cstring_def)
  have h: "sint (bytes_int ?h) = 3" by (simp add: bytes_int_int_bytes)
  have ne: "?h \<noteq> []" using length_int_bytes [of 3] by (metis list.size(3) zero_neq_numeral)
  have s: "rsrv_request 4 = bindA (recv_loop 4 4 4 0 []) (in_header 4)"
    unfolding rsrv_request_def in_header_def in_body_def recv_message_def sizeof_int_def ..
  have B: "in_header 4 (True, ?h) = bindA (recv_loop 4 3 3 0 []) (in_body 4 3)"
    by (simp add: in_header_def h recv_message_def)
  have "fed (rsrv_request 4) 0 (bindA (recv_loop 4 4 4 0 []) (in_header 4))" unfolding s by (rule fed.unfed)
  then have "fed (rsrv_request 4) 0 (Read_call 4 4 (\<lambda>x. bindA (case x of (rc, bs) \<Rightarrow>
      if length ([] @ bs) > 4 then Fail Out_of_bounds
      else if rc < 1 then Return (0 = (4 :: nat), []) else recv_loop 4 4 4 (0 + nat rc) ([] @ bs)) (in_header 4)))"
    by (simp add: recv_loop.simps [of 4 4 4 0])
  from fed.more_bytes [OF this, of ?h] h have "fed (rsrv_request 4) 4 (in_header 4 (True, ?h))"
    using ne by simp
  then have "fed (rsrv_request 4) 4 (Read_call 4 3 (\<lambda>x. bindA (case x of (rc, bs) \<Rightarrow>
      if length ([] @ bs) > 3 then Fail Out_of_bounds
      else if rc < 1 then Return (0 = (3 :: nat), []) else recv_loop 4 3 3 (0 + nat rc) ([] @ bs)) (in_body 4 3)))"
    unfolding B by (simp add: recv_loop.simps [of 4 3 3 0])
  from fed.more_bytes [OF this, of ?b] have "fed (rsrv_request 4) 7 (in_body 4 3 (True, ?b))"
    using b by (cases ?b) (simp_all del: packed_simps)
  moreover have "in_body 4 3 (True, ?b) = Return (Some (request_argv 4 [[108, 115, 0]]))"
    using unpack_packed [of "[[108, 115, 0]]" 4] b by (simp add: in_body_def del: packed_simps)
  ultimately have f: "fed (rsrv_request 4) 7 (Return (Some (request_argv 4 [[108, 115, 0]])))" by simp
  have "terminated (request_argv 4 [[108, 115, 0]])" "length (request_argv 4 [[108, 115, 0]]) = 3"
    using request_robust [OF f, of 1] by (blast, simp add: request_argv_def)
  with f show ?thesis by blast
qed

text \<open>
  A long request stops the server. Over an empty connection a client with more than 2048 bytes of
  arguments sends their length with its first call, and the assertion fails in the first call of the server.
\<close>

theorem long_request_aborts:
  assumes "stream_ok a b ab k" and "stream_held ab k = []" and "\<not> stream_fin ab k" and "terminated argv"
    and "2048 < length (packed argv)" and "length (packed argv) < 2 ^ 31" and "\<And>n. length (junk n) = n"
  shows "\<exists>C k'. talks cfd sfd (socket_wr a) (socket_rd b) (shutdown_socket a) (apart_from a b ab) 2
     ((client_request cfd junk argv, None), (rsrv_request sfd, None), k) ((C, None), (Fail Assert_failed, None), k')"
proof -
  let ?h = "int_bytes (of_nat (length (packed argv)))" and ?b = "packed argv"
  let ?t = "talk cfd sfd (socket_wr a) (socket_rd b) (shutdown_socket a) (apart_from a b ab)"
  have c: "client_request cfd junk argv = client_at cfd ?h ?b 0" by (rule client_request_start [OF assms(4,6,7)])
  obtain mem sz f where L: "send_loop cfd ?h (length ?h) 0 = Write_call cfd mem sz f" "unat sz = length ?h - 0"
    "\<And>m. m \<le> length ?h - 0 \<Longrightarrow> map mem [0..<m] = take m (drop 0 ?h)" by (rule send_loop_step [of 0 ?h]) auto
  obtain g where g: "client_request cfd junk argv = Write_call cfd mem sz g" using L(1) by (simp add: c client_at_def)
  have sz: "sz \<noteq> 0" "unat sz = 4" "map mem [0..<4] = ?h" using L(2) L(3) [of 4] by auto
  from assms(1) obtain p where P: "cc_inv (cc k)" "pipes k ab = Some p" "pipe_inv p" "\<not> reader_closed p" "stream_held ab k = contents p"
    "stream_fin ab k = writer_closed p" by (rule stream_okE)
  then have u: "used p = 0" using assms(2) length_contents [of p] by simp
  obtain s p1 m where w: "pipe_write_resume ab mem sz k = Inr (Done (int m), k\<lparr>cc := s, pipes := (pipes k)(ab \<mapsto> p1)\<rparr>)"
    "woken (Pipe_has_data ab) (waitset (cc k) (Pipe_has_data ab)) (cc k) s" "pipe_inv p1"
    "contents p1 = contents p @ map mem [0..<m]" "m = span_of sz (BUFF_SIZE - used p)"
    "reader_closed p1 = reader_closed p" "writer_closed p1 = writer_closed p"
    using pipe_write_Done [of k ab p mem sz] P(1-3) u by auto
  have m: "m = 4" using w(5) sz u by (simp add: span_of_def BUFF_SIZE_def)
  let ?k1 = "k\<lparr>cc := s, pipes := (pipes k)(ab \<mapsto> p1)\<rparr>"
  have S1: "stream_ok a b ab ?k1" by (rule stream_ok_pipe [OF assms(1) P(2) wokenD(1) [OF w(2)] w(3,6,7)])
  have c1: "contents p1 = ?h" using w(4) m sz(3) P(5) assms(2) by simp
  have t1: "?t 1 ((client_request cfd junk argv, None), (rsrv_request sfd, None), k) ((g 4, None), (rsrv_request sfd, None), ?k1)"
    unfolding g by (rule talk.writes) (use socket_wr_pipe [OF assms(1,3), of None mem sz] w(1) m in simp)
  have s0: "rsrv_request sfd = bindA (recv_loop sfd 4 4 0 []) (in_header sfd)"
    unfolding rsrv_request_def in_header_def in_body_def recv_message_def sizeof_int_def ..
  obtain rsz f2 where F: "recv_loop sfd 4 4 0 [] = Read_call sfd rsz f2" "unat rsz = 4 - 0"
    "\<And>bs. bs \<noteq> [] \<Longrightarrow> length bs \<le> 4 - 0 \<Longrightarrow> f2 (int (length bs), bs) = recv_loop sfd 4 4 (0 + length bs) ([] @ bs)"
    by (rule recv_loop_step [of 0 4 "[]" sfd]) auto
  have r0: "rsrv_request sfd = Read_call sfd rsz (\<lambda>x. bindA (f2 x) (in_header sfd))" using s0 F(1) by simp
  have u1: "used p1 = 4" using c1 length_contents [of p1] by simp
  have ne: "contents p1 \<noteq> []" using c1 by (metis length_int_bytes list.size(3) zero_neq_numeral)
  have rsz: "rsz \<noteq> 0" using F(2) by auto
  obtain s2 p2 bs where d: "pipe_read ab rsz ?k1 = Inr (Done (int (length bs), bs), ?k1\<lparr>cc := s2, pipes := (pipes ?k1)(ab \<mapsto> p2)\<rparr>)"
    "contents p1 = bs @ contents p2" "length bs = span_of rsz (used p1)"
    using pipe_read_Done [of ?k1 ab p1 rsz] w(3) wokenD(1) [OF w(2)] ne by auto
  have lb: "length bs = 4" using d(3) u1 F(2) rsz by (simp add: span_of_def)
  have "bs @ contents p2 = ?h" using d(2) c1 by simp
  moreover from this have "length bs + length (contents p2) = 4" by (metis length_append length_int_bytes)
  ultimately have bs: "bs = ?h" using lb by (simp del: length_contents)
  have "in_header sfd (True, ?h) = Fail Assert_failed"
    using assms(5) sint_of_length [OF assms(6)] by (simp add: in_header_def bytes_int_int_bytes)
  then have e: "bindA (f2 (int (length bs), bs)) (in_header sfd) = Fail Assert_failed"
    using F(3) [of bs] lb ne by (auto simp: bs c1)
  have t2: "?t 1 ((g 4, None), (rsrv_request sfd, None), ?k1) ((g 4, None), (Fail Assert_failed, None), ?k1\<lparr>cc := s2, pipes := (pipes ?k1)(ab \<mapsto> p2)\<rparr>)"
    unfolding r0 e [symmetric] by (rule talk.reads) (use socket_rd_pipe [OF S1, of None rsz] d(1) in simp)
  from talks.go [OF talks.go [OF talks.start t1] t2] show ?thesis by (auto simp: numeral_2_eq_2)
qed

theorem long_request_aborts_witness:
  "\<exists>C k'. talks 3 4 (socket_wr 10) (socket_rd 11) (shutdown_socket 10) (apart_from 10 11 20) 2
     ((client_request 3 (\<lambda>n. replicate n 7) [replicate 3000 5 @ [0]], None), (rsrv_request 4, None), socket_kernel)
     ((C, None), (Fail Assert_failed, None), k')"
proof -
  have p: "length (packed [replicate 3000 5 @ [0]]) = 3001" by (simp add: cstring_def takeWhile_append)
  show ?thesis by (rule long_request_aborts [OF example_stream]) (simp_all add: p del: packed_simps)
qed

end
