(* ===== verification/Launch.thy ===== *)
theory Launch
  imports Pipeline Remote
begin

text \<open>
  The programs of \<^verbatim>\<open>src/tinyos_shell.c\<close> that change their standard streams before they start another program:
  \<^verbatim>\<open>boot_shell\<close>, which gives every shell a terminal, \<^verbatim>\<open>RunTerm\<close>, and \<^verbatim>\<open>rsrv_process\<close>, whose
  command talks to a remote client.
\<close>

section \<open>The programs\<close>

text \<open>\<^verbatim>\<open>boot_shell\<close> opens the terminal twice, and moves the descriptor when it is not the one wanted.\<close>

definition open_on :: "nat \<Rightarrow> nat \<Rightarrow> nat \<Rightarrow> kernel \<Rightarrow> kernel res" where
  "open_on c term fd k =
     bindE (sys_OpenTerminal c term k) (\<lambda>(f, k1).
     if f \<noteq> int fd then
       bindE (sys_Dup2 c f (int fd) k1) (\<lambda>(_, k2).
       bindE (sys_Close c f k2) (\<lambda>(_, k3). Inr k3))
     else Inr k1)"

fun shell_loop :: "exec_env \<Rightarrow> nat \<Rightarrow> nat \<Rightarrow> nat \<Rightarrow> kernel \<Rightarrow> (int list \<times> kernel) res" where
  "shell_loop e c 0 i k = Inr ([], k)"
| "shell_loop e c (Suc n) i k =
     bindE (open_on c i 0 k) (\<lambda>k1.
     bindE (open_on c i 1 k1) (\<lambda>k2.
     bindE (Execute e c (getprog_byname ''sh'') [''sh''] k2) (\<lambda>(q, k3).
     bindE (sys_Close c 0 k3) (\<lambda>(_, k4).
     bindE (shell_loop e c n (Suc i) k4) (\<lambda>(qs, k5). Inr (q # qs, k5))))))"

text \<open>The branch of \<^verbatim>\<open>boot_shell\<close> for a machine with terminals, up to its wait for the shells.\<close>

definition boot_shells :: "exec_env \<Rightarrow> nat \<Rightarrow> kernel \<Rightarrow> (int list \<times> kernel) res" where
  "boot_shells e c k = shell_loop e c (sys_GetTerminalDevices k) 0 k"

text \<open>\<^verbatim>\<open>checkargs\<close> leaves a program that has not enough arguments with the value \<open>-1\<close>.\<close>

definition RunTerm :: "exec_env \<Rightarrow> nat \<Rightarrow> string list \<Rightarrow> kernel \<Rightarrow> (int \<times> kernel) res" where
  "RunTerm e c argv k =
     (if length argv \<le> 2 then Inr (-1, k)
      else let term = atoi (argv ! 1); p = getprog_byname (argv ! 2) in
        if term < 0 \<or> term \<ge> int (sys_GetTerminalDevices k) then Inr (1, k)
        else if p < 0 then Inr (2, k)
        else bindE (open_on c (nat term) 0 k) (\<lambda>k1.
             bindE (sys_Dup2 c 0 1 k1) (\<lambda>(_, k2).
             Execute e c p (drop 2 argv) k2)))"

text \<open>
  \<^verbatim>\<open>rsrv_process\<close> up to its wait: \<open>Inl n\<close> is a return with the value \<open>n\<close>, and \<open>Inr q\<close> the process that it
  waits for.
\<close>

definition rsrv_process :: "exec_env \<Rightarrow> nat \<Rightarrow> string list \<Rightarrow> kernel \<Rightarrow> ((int + int) \<times> kernel) res" where
  "rsrv_process e c argv k =
     (if length argv \<le> 2 then Inr (Inl (-1), k)
      else let sock = atoi (argv ! 1) in
        bindE (assertE (sock \<noteq> 0 \<and> sock \<noteq> 1)) (\<lambda>_.
        bindE (sys_Dup2 c sock 0 k) (\<lambda>(_, k1).
        bindE (sys_Dup2 c sock 1 k1) (\<lambda>(_, k2).
        bindE (sys_Close c sock k2) (\<lambda>(_, k3).
        let p = getprog_byname (argv ! 2) in
        if p = -1 then Inr (Inl (-1), k3)
        else bindE (Execute e c p (drop 2 argv) k3) (\<lambda>(q, k4). Inr (Inr q, k4)))))))"

section \<open>Opening a terminal\<close>

definition has_port :: "kernel \<Rightarrow> nat \<Rightarrow> bool" where
  "has_port k t \<longleftrightarrow> t < fst (ports k) DEV_SERIAL \<and> t < snd (ports k)"

lemma open_terminal_step:
  assumes d: "desk held c p (Suc n) m k" and i: "find_fids 1 0 (fds k p) = [i]" and t: "has_port k t"
  shows "\<exists>b k'. sys_OpenTerminal c t k = Inr (int i, k') \<and> desk held c p n m k' \<and> calm k k' \<and> \<not> in_table k b \<and>
    fds k' = (fds k)(p := (fds k p)(i := Some b)) \<and> stream k' = (stream k)(b := (Serial_dcb t, Some Serial_fops))"
proof -
  note D = deskD [OF d]
  obtain fcbs k1 where R: "FCB_reserve c 1 k = Inr (Some ([i], fcbs), k1)" "files_only k k1" "files_inv held k1"
      "FCB_freelist k = fcbs @ FCB_freelist k1" "length fcbs = 1" "distinct fcbs"
      "\<And>q j. FIDT (PT k1 q) j = (if q = p \<and> j \<in> set [i] then map_of (zip [i] fcbs) j else FIDT (PT k q) j)"
    by (rule reserve_exact [OF d, of 1, unfolded i]) (simp_all add: that)
  then obtain b where b: "fcbs = [b]" by (auto simp: length_Suc_conv)
  define k2 where "k2 = upd_fcb b (\<lambda>y. y\<lparr>streamobj := Serial_dcb t, streamfunc := Some Serial_fops\<rparr>) k1"
  have ifd: "i < MAX_FILEID" "fds k p i = None" using find_fids_props(3) [OF i] by simp_all
  have op: "sys_OpenTerminal c t k = Inr (int i, k2)"
    using R(1) t files_only_sel [OF R(2)]
    by (simp add: sys_OpenTerminal_def open_stream_def device_open_def serial_open_def k2_def b has_port_def ports_def)
  have c2: "calm k k2" using calm_files_only [OF R(2)] by (simp add: calm_def k2_def same_tree_def)
  have v2: "fds k2 = (fds k)(p := (fds k p)(i := Some b))"
    using R(7) ifd(1) by (auto simp: fun_eq_iff fds_def k2_def b)
  have fl: "FCB_freelist k2 = FCB_freelist k1" "files_inv held k2" using R(3) by (simp_all add: k2_def upd_fcb_inv)
  have "desk held c p n m k2"
    by (rule desk_calm [OF d c2 fl(2)]) (use R(4,5) D(13) in \<open>simp_all add: v2 fl\<close>)
  moreover have "\<not> in_table k b" using free_not_in_table [OF D(3), of b] R(4) b by auto
  moreover have "stream k2 = (stream k)(b := (Serial_dcb t, Some Serial_fops))"
    using stream_files_only [OF R(2)] by (auto simp: fun_eq_iff stream_def k2_def)
  ultimately show ?thesis using op c2 v2 by blast
qed

lemma find_first:
  assumes "g i = None" "i < MAX_FILEID" "\<And>j. j < i \<Longrightarrow> g j \<noteq> None"
  shows "find_fids 1 0 g = [i]"
proof -
  have "find (\<lambda>i. g i = None) [0..<MAX_FILEID] = Some i"
    unfolding find_Some_iff by (rule exI [of _ i]) (use assms in simp)
  then show ?thesis by simp
qed

text \<open>
  The boot process between two rounds has no descriptor but the standard output that it shares with the
  last shell.
\<close>

definition idle_out :: "nat \<Rightarrow> kernel \<Rightarrow> bool" where
  "idle_out p k \<longleftrightarrow> fds k p = (\<lambda>_. None) \<or> (\<exists>b. fds k p = [1 \<mapsto> b] \<and> elsewhere p k b)"

lemma shell_round:
  assumes d: "desk held c p (Suc (Suc n)) (Suc m) k" and o: "idle_out p k" and t: "has_port k t"
    and junk: "\<And>l. length (junk_bytes e l) = l"
  shows "\<exists>q a b k'. shell_loop e c (Suc r) t k = bindE (shell_loop e c r (Suc t) k') (\<lambda>(qs, k'). Inr (int q # qs, k')) \<and>
    desk held c p n m k' \<and> idle_out p k' \<and> ports k' = ports k \<and> q \<noteq> p \<and> q < MAX_PROC \<and>
    pstate (PT k q) = FREE \<and> (\<forall>s. pstate (PT k' s) = FREE \<longrightarrow> pstate (PT k s) = FREE) \<and> pstate (PT k' q) \<noteq> FREE \<and>
    fds k' q = [0 \<mapsto> a, 1 \<mapsto> b] \<and> fds k' p = [1 \<mapsto> b] \<and> (\<forall>s. s \<noteq> p \<longrightarrow> s \<noteq> q \<longrightarrow> fds k' s = fds k s) \<and>
    stream k' a = (Serial_dcb t, Some Serial_fops) \<and> stream k' b = (Serial_dcb t, Some Serial_fops) \<and>
    (\<forall>y. in_table k y \<longrightarrow> stream k' y = stream k y)"
proof -
  note D = deskD [OF d]
  have p: "p < MAX_PROC" by (rule D(6))
  define g where "g = fds k p"
  have g: "g 0 = None" "\<And>i. 2 \<le> i \<Longrightarrow> g i = None" "\<And>b. g 1 = Some b \<Longrightarrow> elsewhere p k b"
    using o by (auto simp: idle_out_def g_def split: if_splits)
  have "find_fids 1 0 (fds k p) = [0]" by (rule find_first) (use g(1) in \<open>simp_all add: g_def MAX_FILEID_def\<close>)
  then obtain a k1 where 1: "sys_OpenTerminal c t k = Inr (int 0, k1)" "desk held c p (Suc n) (Suc m) k1" "calm k k1" "\<not> in_table k a"
    "fds k1 = (fds k)(p := (fds k p)(0 := Some a))" "stream k1 = (stream k)(a := (Serial_dcb t, Some Serial_fops))"
    using open_terminal_step [OF d _ t] by blast
  have o1: "open_on c t 0 k = Inr k1" using 1(1) by (simp add: open_on_def)
  have v1: "fds k1 p = g(0 := Some a)" by (simp add: 1(5) g_def)
  have t1: "has_port k1 t" using t calm_ports [OF 1(3)] by (simp add: has_port_def)
  obtain b k2 where 2: "open_on c t 1 k1 = Inr k2" "desk held c p n (Suc m) k2" "calm k1 k2" "\<not> in_table k1 b"
    "fds k2 p = [0 \<mapsto> a, 1 \<mapsto> b]" "\<And>s. s \<noteq> p \<Longrightarrow> fds k2 s = fds k s" "stream k2 = (stream k1)(b := (Serial_dcb t, Some Serial_fops))"
  proof (cases "g 1")
    case None
    have "find_fids 1 0 (fds k1 p) = [1]" by (rule find_first) (use None in \<open>simp_all add: v1 MAX_FILEID_def\<close>)
    then obtain b k2 where B: "sys_OpenTerminal c t k1 = Inr (int 1, k2)" "desk held c p n (Suc m) k2" "calm k1 k2" "\<not> in_table k1 b"
      "fds k2 = (fds k1)(p := (fds k1 p)(1 := Some b))" "stream k2 = (stream k1)(b := (Serial_dcb t, Some Serial_fops))"
      using open_terminal_step [OF 1(2) _ t1] by blast
    have "fds k2 p = [0 \<mapsto> a, 1 \<mapsto> b]"
      using g None by (auto simp: B(5) v1 fun_eq_iff)
    moreover have "open_on c t 1 k1 = Inr k2" using B(1) by (simp add: open_on_def)
    ultimately show ?thesis using that B(2-4,6) by (simp add: B(5) 1(5))
  next
    case (Some x)
    have "find_fids 1 0 (fds k1 p) = [2]"
      by (rule find_first) (use Some g(2) [of 2] in \<open>auto simp: v1 MAX_FILEID_def less_Suc_eq numeral_2_eq_2\<close>)
    then obtain b k2 where B: "sys_OpenTerminal c t k1 = Inr (int 2, k2)" "desk held c p n (Suc m) k2" "calm k1 k2" "\<not> in_table k1 b"
      "fds k2 = (fds k1)(p := (fds k1 p)(2 := Some b))" "stream k2 = (stream k1)(b := (Serial_dcb t, Some Serial_fops))"
      using open_terminal_step [OF 1(2) _ t1] by blast
    have v2: "fds k2 p 2 = Some b" "fds k2 p 1 = Some x" using Some by (simp_all add: B(5) v1)
    have "elsewhere p k2 x" using g(3) [OF Some] by (auto simp: elsewhere_def B(5) 1(5))
    then have "2 \<le> refs k2 x" by (rule elsewhere_refs [OF v2(2) _ p])
    with move_step [OF B(2) v2(1) zero_one_fid(2) _ v2(2)] obtain k3 k4 where
      M: "sys_Dup2 c (int 2) (int 1) k2 = Inr (0, k3)" "sys_Close c (int 2) k3 = Inr (0, k4)" "desk held c p n (Suc m) k4"
        "files_only k2 k4" "fds k4 = (fds k2)(p := (fds k2 p)(1 := Some b, 2 := None))" by auto
    have "open_on c t 1 k1 = Inr k4" using B(1) M(1,2) by (simp add: open_on_def)
    moreover have "fds k4 p = [0 \<mapsto> a, 1 \<mapsto> b]"
      using g(2) by (auto simp: M(5) B(5) v1 fun_eq_iff)
    moreover have "calm k1 k4" by (rule calm_trans [OF B(3) calm_files_only [OF M(4)]])
    ultimately show ?thesis
      using that M(3) B(4,6) stream_files_only [OF M(4)] by (simp add: M(5) B(5) 1(5))
  qed
  have ft: "fits [''sh'']" by (simp add: fits_def c_strings_def sizeof_ptr_def cstring_def bytes_def of_char_def)
  obtain q k3 where 3: "Execute e c (getprog_byname ''sh'') [''sh''] k2 = Inr (int q, k3)" "q \<noteq> p" "q < MAX_PROC"
    "pstate (PT k2 q) = FREE" "pstate (PT k3 q) = ALIVE" "\<And>r. r \<noteq> q \<Longrightarrow> pstate (PT k3 r) = pstate (PT k2 r)"
    "desk held c p n m k3" "fds k3 = (fds k2)(q := fds k2 p)" "stream k3 = stream k2" "ports k3 = ports k2"
    using Execute_step [OF 2(2) junk ft, of "getprog_byname ''sh''"] by blast
  have v3: "fds k3 p 0 = Some a" "fds k3 q 0 = Some a" using 3(2) by (simp_all add: 3(8) 2(5))
  have "2 \<le> refs k3 a" by (rule refs_two [OF v3]) (use 3(2,3) p in simp_all)
  from close_step [OF 3(7) v3(1) this] obtain k4 where 4: "sys_Close c (int 0) k3 = Inr (0, k4)" "desk held c p n m k4"
    "files_only k3 k4" "fds k4 = (fds k3)(p := (fds k3 p)(0 := None))" by blast
  have run: "shell_loop e c (Suc r) t k = bindE (shell_loop e c r (Suc t) k4) (\<lambda>(qs, k'). Inr (int q # qs, k'))"
    using o1 2(1) 3(1) 4(1) by simp
  have v4: "fds k4 q = [0 \<mapsto> a, 1 \<mapsto> b]" "fds k4 p = [1 \<mapsto> b]" using 3(2) by (auto simp: 4(4) 3(8) 2(5) fun_eq_iff)
  have "in_table k1 a" unfolding in_table_def by (intro exI [of _ p] conjI exI [of _ 0]) (simp_all add: v1 p)
  then have ab: "b \<noteq> a" using 2(4) by blast
  have st: "stream k4 = (stream k)(a := (Serial_dcb t, Some Serial_fops), b := (Serial_dcb t, Some Serial_fops))"
    using stream_files_only [OF 4(3)] by (simp add: 3(9) 2(7) 1(6))
  have old: "stream k4 y = stream k y" if "in_table k y" for y
  proof -
    from that obtain s j where s: "s < MAX_PROC" "fds k s j = Some y" by (auto simp: in_table_def)
    have "\<not> (s = p \<and> j = 0)" using s(2) g(1) by (auto simp: g_def intro!: gr0I)
    then have "fds k1 s j = Some y" using s(2) by (auto simp: 1(5))
    then have "in_table k1 y" using s(1) by (auto simp: in_table_def)
    then have "y \<noteq> b" using 2(4) by blast
    moreover have "y \<noteq> a" using that 1(4) by blast
    ultimately show ?thesis by (simp add: st)
  qed
  have cq: "pstate (PT k2 r) = pstate (PT k r)" for r using calm_trans [OF 1(3) 2(3)] by (simp add: calm_def same_tree_def)
  have p4: "pstate (PT k4 r) = pstate (PT k3 r)" for r using files_only_sel(18) [OF 4(3)] by simp
  have fr: "pstate (PT k r) = FREE" if "pstate (PT k4 r) = FREE" for r
    using that 3(5) 3(6) [of r] by (cases "r = q") (simp_all add: p4 cq)
  have "idle_out p k4"
    unfolding idle_out_def elsewhere_def using v4 3(2,3) by (intro disjI2 exI [of _ b] conjI exI [of _ q] exI [of _ 1]) simp_all
  moreover have "ports k4 = ports k"
    using calm_ports [OF calm_files_only [OF 4(3)]] 3(10) calm_ports [OF calm_trans [OF 1(3) 2(3)]] by simp
  moreover have "fds k4 s = fds k s" if "s \<noteq> p" "s \<noteq> q" for s using that by (simp add: 4(4) 3(8) 2(6))
  moreover have "stream k4 a = (Serial_dcb t, Some Serial_fops)" "stream k4 b = (Serial_dcb t, Some Serial_fops)" using ab by (simp_all add: st)
  moreover have "pstate (PT k q) = FREE" "pstate (PT k4 q) \<noteq> FREE" using 3(4,5) by (simp_all add: cq p4)
  ultimately show ?thesis using run 4(2) 3(2,3) v4 old fr by blast
qed

lemma shell_loop_wired:
  assumes "desk held c p (2 * n) n k" and "idle_out p k" and "\<forall>i < t + n. has_port k i"
    and junk: "\<And>l. length (junk_bytes e l) = l"
  shows "\<exists>qs k'. shell_loop e c n t k = Inr (map int qs, k') \<and> length qs = n \<and> distinct qs \<and>
    (\<forall>q \<in> set qs. q \<noteq> p \<and> q < MAX_PROC \<and> pstate (PT k q) = FREE) \<and>
    (\<forall>i < n. \<exists>a b. fds k' (qs ! i) = [0 \<mapsto> a, 1 \<mapsto> b] \<and>
       stream k' a = (Serial_dcb (t + i), Some Serial_fops) \<and> stream k' b = (Serial_dcb (t + i), Some Serial_fops)) \<and>
    (\<forall>s. s \<noteq> p \<longrightarrow> s \<notin> set qs \<longrightarrow> fds k' s = fds k s) \<and> idle_out p k' \<and>
    (\<forall>y. elsewhere p k y \<longrightarrow> stream k' y = stream k y)"
  using assms(1-3)
proof (induction n arbitrary: t k)
  case 0
  then show ?case by (intro exI [of _ "[]"] exI [of _ k]) simp
next
  case (Suc n)
  have d: "desk held c p (Suc (Suc (2 * n))) (Suc n) k" using Suc.prems(1) by simp
  obtain q a b k1 where R: "shell_loop e c (Suc n) t k = bindE (shell_loop e c n (Suc t) k1) (\<lambda>(qs, k'). Inr (int q # qs, k'))"
    "desk held c p (2 * n) n k1" "idle_out p k1" "ports k1 = ports k" "q \<noteq> p" "q < MAX_PROC" "pstate (PT k q) = FREE"
    "\<forall>s. pstate (PT k1 s) = FREE \<longrightarrow> pstate (PT k s) = FREE" "pstate (PT k1 q) \<noteq> FREE"
    "fds k1 q = [0 \<mapsto> a, 1 \<mapsto> b]" "\<forall>s. s \<noteq> p \<longrightarrow> s \<noteq> q \<longrightarrow> fds k1 s = fds k s"
    "stream k1 a = (Serial_dcb t, Some Serial_fops)" "stream k1 b = (Serial_dcb t, Some Serial_fops)"
    "\<forall>y. in_table k y \<longrightarrow> stream k1 y = stream k y"
    using shell_round [OF d Suc.prems(2) _ junk, of t n] Suc.prems(3) by auto
  have ports: "\<forall>i < Suc t + n. has_port k1 i" using Suc.prems(3) R(4) by (simp add: has_port_def)
  obtain qs k' where L: "shell_loop e c n (Suc t) k1 = Inr (map int qs, k')" "length qs = n" "distinct qs"
    "\<forall>q \<in> set qs. q \<noteq> p \<and> q < MAX_PROC \<and> pstate (PT k1 q) = FREE"
    "\<forall>i < n. \<exists>a b. fds k' (qs ! i) = [0 \<mapsto> a, 1 \<mapsto> b] \<and>
       stream k' a = (Serial_dcb (Suc t + i), Some Serial_fops) \<and> stream k' b = (Serial_dcb (Suc t + i), Some Serial_fops)"
    "\<forall>s. s \<noteq> p \<longrightarrow> s \<notin> set qs \<longrightarrow> fds k' s = fds k1 s" "idle_out p k'"
    "\<forall>y. elsewhere p k1 y \<longrightarrow> stream k' y = stream k1 y"
    using Suc.IH [OF R(2,3) ports] by (elim exE conjE) (rule that)
  have nq: "q \<notin> set qs" using L(4) R(9) by blast
  have keep: "stream k' y = stream k1 y" if "s < MAX_PROC" "s \<noteq> p" "fds k1 s j = Some y" for s j y
    using L(8) that unfolding elsewhere_def by blast
  have q': "fds k' q = [0 \<mapsto> a, 1 \<mapsto> b]" using L(6) nq R(5,10) by simp
  have "stream k' a = (Serial_dcb t, Some Serial_fops)" "stream k' b = (Serial_dcb t, Some Serial_fops)"
    using keep [OF R(6,5), of 0 a] keep [OF R(6,5), of 1 b] R(10,12,13) by simp_all
  then have at: "\<exists>a b. fds k' ((q # qs) ! i) = [0 \<mapsto> a, 1 \<mapsto> b] \<and> stream k' a = (Serial_dcb (t + i), Some Serial_fops) \<and>
      stream k' b = (Serial_dcb (t + i), Some Serial_fops)" if "i < Suc n" for i
    using that L(5) q' by (cases i) auto
  have old: "stream k' y = stream k y" if y: "in_table k y" "s < MAX_PROC" "s \<noteq> p" "fds k s j = Some y" for y s j
  proof -
    have "s \<noteq> q" using fds_dead [OF deskD(2) [OF d] y(2), of j] R(7) y(4) by auto
    then have "fds k1 s j = Some y" using R(11) y(3,4) by simp
    then show ?thesis using keep [OF y(2,3)] R(14) y(1) by simp
  qed
  show ?case
  proof (intro exI conjI)
    show "shell_loop e c (Suc n) t k = Inr (map int (q # qs), k')" using R(1) L(1) by simp
    show "length (q # qs) = Suc n" "distinct (q # qs)" using L(2,3) nq by simp_all
    show "\<forall>s \<in> set (q # qs). s \<noteq> p \<and> s < MAX_PROC \<and> pstate (PT k s) = FREE" using L(4) R(5-8) by simp
    show "\<forall>i < Suc n. \<exists>a b. fds k' ((q # qs) ! i) = [0 \<mapsto> a, 1 \<mapsto> b] \<and> stream k' a = (Serial_dcb (t + i), Some Serial_fops) \<and>
      stream k' b = (Serial_dcb (t + i), Some Serial_fops)" using at by blast
    show "\<forall>s. s \<noteq> p \<longrightarrow> s \<notin> set (q # qs) \<longrightarrow> fds k' s = fds k s" using L(6) R(11) by simp
    show "idle_out p k'" by (rule L(7))
    show "\<forall>y. elsewhere p k y \<longrightarrow> stream k' y = stream k y"
      using old unfolding elsewhere_def in_table_def by blast
  qed
qed

text \<open>
  Every shell gets its own terminal. With room in the tables, the boot process, which has no open
  descriptors, starts one shell for each terminal; the standard input and output of the shell are two streams of
  that terminal, and it has no other descriptor. Streams that other processes had open are as before.
\<close>

theorem shells_have_terminals:
  assumes "sys_GetTerminalDevices k = n" and "desk held c p (2 * n) n k" and "fds k p = (\<lambda>_. None)"
    and "n \<le> nterm (vm (sch (cc k)))" and "\<And>l. length (junk_bytes e l) = l"
  shows "\<exists>qs k'. boot_shells e c k = Inr (map int qs, k') \<and> length qs = n \<and> distinct qs \<and>
    (\<forall>q \<in> set qs. q < MAX_PROC \<and> pstate (PT k q) = FREE) \<and>
    (\<forall>i < n. \<exists>a b. fds k' (qs ! i) = [0 \<mapsto> a, 1 \<mapsto> b] \<and>
       stream k' a = (Serial_dcb i, Some Serial_fops) \<and> stream k' b = (Serial_dcb i, Some Serial_fops)) \<and>
    (\<forall>s f. s < MAX_PROC \<longrightarrow> s \<notin> set qs \<longrightarrow> s \<noteq> p \<longrightarrow> fds k' s = fds k s \<and> (\<forall>j. fds k s j = Some f \<longrightarrow> stream k' f = stream k f))"
proof -
  have o: "idle_out p k" using assms(3) by (simp add: idle_out_def)
  have "\<forall>i < 0 + n. has_port k i"
    using assms(1,4) by (simp add: has_port_def ports_def sys_GetTerminalDevices_def device_no_def)
  from shell_loop_wired [OF assms(2) o this assms(5)] obtain qs k' where
    W: "shell_loop e c n 0 k = Inr (map int qs, k')" "length qs = n" "distinct qs"
      "\<forall>q \<in> set qs. q \<noteq> p \<and> q < MAX_PROC \<and> pstate (PT k q) = FREE"
      "\<forall>i < n. \<exists>a b. fds k' (qs ! i) = [0 \<mapsto> a, 1 \<mapsto> b] \<and>
        stream k' a = (Serial_dcb (0 + i), Some Serial_fops) \<and> stream k' b = (Serial_dcb (0 + i), Some Serial_fops)"
      "\<forall>s. s \<noteq> p \<longrightarrow> s \<notin> set qs \<longrightarrow> fds k' s = fds k s"
      "\<forall>y. elsewhere p k y \<longrightarrow> stream k' y = stream k y" by (elim exE conjE) (rule that)
  have "boot_shells e c k = Inr (map int qs, k')" using W(1) assms(1) by (simp add: boot_shells_def)
  moreover have "stream k' f = stream k f" if "s < MAX_PROC" "s \<noteq> p" "fds k s j = Some f" for s j f
    using W(7) that unfolding elsewhere_def by blast
  moreover have "\<forall>i < n. \<exists>a b. fds k' (qs ! i) = [0 \<mapsto> a, 1 \<mapsto> b] \<and>
        stream k' a = (Serial_dcb i, Some Serial_fops) \<and> stream k' b = (Serial_dcb i, Some Serial_fops)" using W(5) by simp
  ultimately show ?thesis using W(2,3,4,6) by blast
qed

theorem shells_have_terminals_witness:
  "\<exists>q a b k'. boot_shells \<lparr>old_tcb = example_tcb NORMAL_THREAD INIT CTX_CLEAN 0 0, junk_bytes = (\<lambda>n. replicate n 0),
       prog_ptr = of_int, wrapper = 3\<rparr> 0 (shell_kernel 0) = Inr ([int q], k') \<and>
     fds k' q = [0 \<mapsto> a, 1 \<mapsto> b] \<and> stream k' b = (Serial_dcb 0, Some Serial_fops)"
proof -
  let ?e = "\<lparr>old_tcb = example_tcb NORMAL_THREAD INIT CTX_CLEAN 0 0, junk_bytes = (\<lambda>n. replicate n 0), prog_ptr = of_int, wrapper = 3\<rparr>"
  have d: "desk (\<lambda>_. 0) 0 2 (2 * 1) 1 (shell_kernel 0)" using shell_desk [of 0] by (simp add: desk_def)
  have f: "fds (shell_kernel 0) 2 = (\<lambda>_. None)" using shell_fds [of 0] by simp
  have v: "devnum (shell_kernel 0) DEV_SERIAL = 1" "nterm (vm (sch (cc (shell_kernel 0)))) = 1"
    by (simp_all add: shell_kernel_def Let_def procs_kernel_def files_kernel_def piped_kernel_def example_kernel_def example_sched_def upd_tcb_def example_vm_def)
  have j: "length (junk_bytes ?e n) = n" for n by simp
  from shells_have_terminals [OF _ d f _ j] v obtain qs k' where
    r: "boot_shells ?e 0 (shell_kernel 0) = Inr (map int qs, k')" "length qs = 1"
      "\<forall>i < 1. \<exists>a b. fds k' (qs ! i) = [0 \<mapsto> a, 1 \<mapsto> b] \<and>
       stream k' a = (Serial_dcb i, Some Serial_fops) \<and> stream k' b = (Serial_dcb i, Some Serial_fops)"
    by (auto simp: sys_GetTerminalDevices_def device_no_def)
  from r(2) obtain q where "qs = [q]" by (auto simp: length_Suc_conv)
  with r(1,3) show ?thesis by auto
qed

section \<open>The number of the socket\<close>

lemma atoi_digits_decimal: "atoi_digits (decimal n @ cs) v = atoi_digits cs (v * 10 ^ length (decimal n) + n)"
proof (induction n arbitrary: cs v rule: decimal.induct)
  case (1 n)
  show ?case
  proof (cases "n < 10")
    case True
    then show ?thesis by (simp add: decimal.simps [of n] of_char_of take_bit_nat_eq_self mult.commute)
  next
    case False
    have m: "n mod 10 \<le> 9" using pos_mod_bound [of 10 "int n"] by (simp add: less_Suc_eq_le [symmetric])
    show ?thesis using False m 1 [OF False]
      by (simp add: decimal.simps [of n] of_char_of take_bit_nat_eq_self mult.assoc mult.left_commute add.commute)
  qed
qed

lemma decimal_first: "decimal n \<noteq> [] \<and> (\<forall>c \<in> set (decimal n). of_char c \<ge> (48 :: nat) \<and> of_char c \<le> (57 :: nat))"
  by (induction n rule: decimal.induct) (subst (1 2) decimal.simps, auto simp: of_char_of take_bit_nat_eq_self)

lemma atoi_decimal: "n < 2 ^ 31 \<Longrightarrow> atoi (decimal n) = int n"
proof -
  assume n: "n < 2 ^ 31"
  obtain c cs where d: "decimal n = c # cs" using decimal_first [of n] by (cases "decimal n") auto
  then have c: "of_char c \<ge> (48 :: nat)" "of_char c \<le> (57 :: nat)" using decimal_first [of n] by simp_all
  then have "\<not> isspace c" by (auto simp: isspace_def Let_def)
  moreover have "c \<noteq> CHR ''-''" "c \<noteq> CHR ''+''" using c by auto
  ultimately have "atoi (decimal n) = sint (of_int (max (- (2 ^ 63)) (min (2 ^ 63 - 1) (int (atoi_digits (decimal n) 0)))) :: u32)"
    by (simp add: atoi_def d)
  then show ?thesis using atoi_digits_decimal [of n "[]" 0] n by (simp add: sint_of_length)
qed

section \<open>The process of a remote command\<close>

definition shared_streams :: "nat \<Rightarrow> kernel \<Rightarrow> nat \<Rightarrow> bool" where
  "shared_streams p k f \<longleftrightarrow> (\<forall>j < 2. \<forall>g. fds k p j = Some g \<longrightarrow> g = f \<or> elsewhere p k g)"

lemma remote_streams:
  assumes d: "desk held c p n m k" and f: "fds k p i = Some f" and i: "1 < i" and sh: "shared_streams p k f"
  shows "\<exists>k1 k2 k3. sys_Dup2 c (int i) 0 k = Inr (0, k1) \<and> sys_Dup2 c (int i) 1 k1 = Inr (0, k2) \<and>
    sys_Close c (int i) k2 = Inr (0, k3) \<and> desk held c p n m k3 \<and> files_only k k3 \<and>
    fds k3 = (fds k)(p := (fds k p)(0 := Some f, 1 := Some f, i := None))"
proof -
  have p: "p < MAX_PROC" by (rule deskD(6) [OF d])
  have two: "g = f \<or> 2 \<le> refs k g" if "fds k p j = Some g" "j < 2" for j g
    using sh elsewhere_refs [OF that(1) _ p] that unfolding shared_streams_def by blast
  obtain k1 where 1: "sys_Dup2 c (int i) (int 0) k = Inr (0, k1)" "desk held c p n m k1" "files_only k k1"
      "fds k1 = (fds k)(p := (fds k p)(0 := Some f))"
    using dup2_step [OF d f zero_one_fid(1)] two [of 0] by auto
  have f1: "fds k1 p i = Some f" using f i by (simp add: 1(4))
  have "g = f \<or> 2 \<le> refs k1 g" if "fds k1 p 1 = Some g" for g
  proof -
    have a: "fds k p 1 = Some g" using that by (simp add: 1(4))
    have "g = f \<or> elsewhere p k g" using sh a unfolding shared_streams_def by (meson one_less_numeral_iff semiring_norm(76))
    then have "g = f \<or> elsewhere p k1 g" by (auto simp: elsewhere_def 1(4))
    then show ?thesis using elsewhere_refs [OF that _ p] by blast
  qed
  then obtain k2 where 2: "sys_Dup2 c (int i) (int 1) k1 = Inr (0, k2)" "desk held c p n m k2" "files_only k1 k2"
      "fds k2 = (fds k1)(p := (fds k1 p)(1 := Some f))"
    using dup2_step [OF 1(2) f1 zero_one_fid(2)] by auto
  have a: "fds k2 p i = Some f" "fds k2 p 0 = Some f" using f1 i by (simp_all add: 2(4) 1(4))
  have "2 \<le> refs k2 f" by (rule refs_two [OF a _ p p]) (use i in simp)
  from close_step [OF 2(2) a(1) this] obtain k3 where 3: "sys_Close c (int i) k2 = Inr (0, k3)" "desk held c p n m k3"
      "files_only k2 k3" "fds k3 = (fds k2)(p := (fds k2 p)(i := None))" by blast
  have "fds k3 = (fds k)(p := (fds k p)(0 := Some f, 1 := Some f, i := None))" by (simp add: 3(4) 2(4) 1(4))
  with 1(1) 2(1) 3(1,2) files_only_trans [OF files_only_trans [OF 1(3) 2(3)] 3(3)] show ?thesis
    by (intro exI [of _ k1] exI [of _ k2] exI [of _ k3]) simp
qed

text \<open>The strings of a request, as the new process gets them from \<^verbatim>\<open>exec_wrapper\<close>.\<close>

definition chars :: "byte list \<Rightarrow> string" where
  "chars b = map (\<lambda>w. char_of (unat w)) (cstring b)"

lemma unat_of_char: "unat (of_char c :: byte) = of_char c"
proof -
  have "(of_char c :: byte) = of_nat (of_char c)" by (simp add: of_nat_of_char)
  then have "unat (of_char c :: byte) = of_char c mod 2 ^ 8" by (simp add: unat_of_nat)
  moreover have "of_char c < (256 :: nat)" using of_char_of [of "of_char c :: nat"] by (metis char_of_char mod_less_divisor zero_less_numeral)
  ultimately show ?thesis by simp
qed

lemma chars_bytes: "\<forall>c \<in> set s. of_char c \<noteq> (0 :: nat) \<Longrightarrow> chars (bytes s @ 0 # r) = s"
proof (induction s)
  case (Cons c s)
  have "(of_char c :: byte) \<noteq> 0" using Cons.prems unat_of_char [of c] by auto
  with Cons show ?case by (simp add: chars_def cstring_def bytes_def unat_of_char)
qed (simp add: chars_def cstring_def bytes_def)

lemma cstring_chars: "map cstring (c_strings (map chars argv)) = map cstring argv"
proof -
  have "(of_char (char_of (unat w)) :: byte) = w" for w :: byte
  proof -
    have "unat w < 256" using unsigned_less [of w, where ?'a = nat] by simp
    then have "of_char (char_of (unat w)) = unat w" by (simp add: of_char_of)
    moreover have "(of_char (char_of (unat w)) :: byte) = of_nat (of_char (char_of (unat w)))" by (rule of_nat_of_char [symmetric])
    ultimately show ?thesis by simp
  qed
  then have "bytes (chars b) = cstring b" for b by (simp add: chars_def bytes_def comp_def)
  moreover have "cstring (cstring b @ [0]) = cstring b" for b by (rule cstring_packed)
  ultimately show ?thesis by (simp add: c_strings_def)
qed

lemma request_strings:
  "map chars (request_argv (int i) argv) = ''rsrv_process'' # decimal i # map chars argv"
proof -
  have "chars process_name = ''rsrv_process''" unfolding process_name_def by (rule chars_bytes) (simp add: of_char_def)
  moreover have "chars (bytes (decimal i) @ [0]) = decimal i" using decimal_first [of i] by (intro chars_bytes) auto
  moreover have "chars (cstring b @ [0]) = chars b" for b by (simp add: chars_def)
  ultimately show ?thesis by (simp add: request_argv_def)
qed

text \<open>
  C20: the command of a remote client talks to the client. A process that \<^verbatim>\<open>rsrv_client\<close> has started with the
  strings of a request, where \<open>i\<close> is the descriptor of the connection, makes the connection its standard input
  and output and closes \<open>i\<close>. If the name in the request is the name of a program, it starts one new process with these
  descriptors, in which \<^verbatim>\<open>exec_wrapper\<close> calls that program with the strings of the client; if not, it returns \<open>-1\<close>.
\<close>

theorem remote_command:
  assumes "desk held c p n (Suc m) k" and "fds k p i = Some f" and "1 < i" and "shared_streams p k f"
    and "argv \<noteq> []" and "fits (map chars argv)" and "\<And>l. length (junk_bytes e l) = l"
  shows "\<exists>r k'. rsrv_process e c (map chars (request_argv (int i) argv)) k = Inr (r, k') \<and>
    fds k' p = (fds k p)(0 := Some f, 1 := Some f, i := None) \<and> stream k' = stream k \<and>
    (if getprog_byname (chars (hd argv)) = -1 then r = Inl (-1)
     else \<exists>q. r = Inr (int q) \<and> q < MAX_PROC \<and> pstate (PT k q) = FREE \<and> fds k' q = fds k' p \<and>
       (\<forall>s. s \<noteq> p \<longrightarrow> s \<noteq> q \<longrightarrow> fds k' s = fds k s) \<and>
       (\<exists>j < length COMMANDS. cmdname (COMMANDS ! j) = chars (hd argv) \<and> runs e q k' (int j) (map cstring argv)))"
proof -
  have "i < 2 ^ 31" using fds_bound [OF assms(2)] by (simp add: MAX_FILEID_def)
  then have a: "atoi (decimal i) = int i" by (rule atoi_decimal)
  obtain k1 k2 k3 where S: "sys_Dup2 c (int i) 0 k = Inr (0, k1)" "sys_Dup2 c (int i) 1 k1 = Inr (0, k2)"
    "sys_Close c (int i) k2 = Inr (0, k3)" "desk held c p n (Suc m) k3" "files_only k k3"
    "fds k3 = (fds k)(p := (fds k p)(0 := Some f, 1 := Some f, i := None))"
    using remote_streams [OF assms(1-4)] by blast
  obtain b bs where b: "argv = b # bs" using assms(5) by (cases argv) simp_all
  let ?p = "getprog_byname (chars b)"
  have st: "stream k3 = stream k" by (rule stream_files_only [OF S(5)])
  have run: "rsrv_process e c (map chars (request_argv (int i) argv)) k =
     (if ?p = -1 then Inr (Inl (-1), k3)
      else bindE (Execute e c ?p (map chars argv) k3) (\<lambda>(q, k4). Inr (Inr q, k4)))"
    using S(1-3) assms(3) a unfolding request_strings by (simp add: rsrv_process_def b Let_def)
  show ?thesis
  proof (cases "?p = -1")
    case True
    then show ?thesis using run st by (intro exI [of _ "Inl (-1)"] exI [of _ k3]) (simp add: S(6) b)
  next
    case False
    obtain q k4 where X: "Execute e c ?p (map chars argv) k3 = Inr (int q, k4)" "q \<noteq> p" "q < MAX_PROC" "pstate (PT k3 q) = FREE"
      "fds k4 = (fds k3)(q := fds k3 p)" "stream k4 = stream k3"
      using Execute_step [OF S(4) assms(7,6), of ?p] by blast
    have "pstate (PT k q) = FREE" using X(4) files_only_sel(18) [OF S(5)] by simp
    moreover obtain j where j: "j < length COMMANDS" "?p = int j" "cmdname (COMMANDS ! j) = chars (hd argv)"
      using getprog_byname_correct [of "chars b"] False b by auto
    moreover have "runs e q k4 (int j) (map cstring argv)"
      using Execute_runs [OF X(1) assms(7,6)] by (simp add: j(2) cstring_chars)
    ultimately show ?thesis using run X False st
      by (intro exI [of _ "Inr (int q)"] exI [of _ k4]) (auto simp: S(6) b)
  qed
qed

theorem remote_command_witness:
  "\<exists>q k'. rsrv_process \<lparr>old_tcb = example_tcb NORMAL_THREAD INIT CTX_CLEAN 0 0, junk_bytes = (\<lambda>n. replicate n 0),
       prog_ptr = of_int, wrapper = 3\<rparr> 0 (map chars (request_argv 2 [[108, 115, 0]])) (shell_kernel 3) = Inr (Inr (int q), k') \<and>
     fds k' q = [0 \<mapsto> 0, 1 \<mapsto> 0] \<and>
     (\<exists>j < length COMMANDS. cmdname (COMMANDS ! j) = ''ls'' \<and> runs \<lparr>old_tcb = example_tcb NORMAL_THREAD INIT CTX_CLEAN 0 0,
       junk_bytes = (\<lambda>n. replicate n 0), prog_ptr = of_int, wrapper = 3\<rparr> q k' (int j) [[108, 115]])"
proof -
  let ?e = "\<lparr>old_tcb = example_tcb NORMAL_THREAD INIT CTX_CLEAN 0 0, junk_bytes = (\<lambda>n. replicate n 0), prog_ptr = of_int, wrapper = 3\<rparr>"
  have d: "desk (\<lambda>_. 0) 0 2 6 (Suc 1) (shell_kernel 3)" using shell_desk [of 3] by (simp add: MAX_FILEID_def numeral_2_eq_2)
  have f: "fds (shell_kernel 3) 2 = (\<lambda>i. if i < 3 then Some 0 else None)" by (rule shell_fds) (simp add: MAX_FILEID_def)
  have c: "chars [108, 115, 0] = ''ls''" by (simp add: chars_def cstring_def char_of_def bit_Suc_0_iff)
  have ft: "fits (map chars [[108, 115, 0]])" by (simp add: c fits_def c_strings_def sizeof_ptr_def cstring_def bytes_def of_char_def)
  have g: "getprog_byname (chars (hd [[108, 115, 0]])) \<noteq> -1" by (simp add: c getprog_byname_def COMMANDS_def)
  have sh: "shared_streams 2 (shell_kernel 3) 0" by (simp add: shared_streams_def f)
  have j: "length (junk_bytes ?e n) = n" for n by simp
  have f2: "fds (shell_kernel 3) 2 2 = Some 0" "(1 :: nat) < 2" "[[108, 115, 0]] \<noteq> []" by (simp_all add: f)
  from remote_command [OF d f2(1,2) sh f2(3) ft j, unfolded if_not_P [OF g]] obtain q k' where
    "rsrv_process ?e 0 (map chars (request_argv (int 2) [[108, 115, 0]])) (shell_kernel 3) = Inr (Inr (int q), k')"
    "fds k' q = fds k' 2" "fds k' 2 = (fds (shell_kernel 3) 2)(0 := Some 0, 1 := Some 0, 2 := None)"
    "\<exists>j < length COMMANDS. cmdname (COMMANDS ! j) = chars (hd [[108, 115, 0]]) \<and> runs ?e q k' (int j) (map cstring [[108, 115, 0]])"
    by blast
  moreover have "(fds (shell_kernel 3) 2)(0 := Some 0, 1 := Some 0, 2 := None) = [0 \<mapsto> 0, 1 \<mapsto> 0]" by (auto simp: f fun_eq_iff)
  moreover have "map cstring [[108, 115, 0]] = [[108, 115]]" by (simp add: cstring_def)
  ultimately show ?thesis by (intro exI [of _ q] exI [of _ k']) (simp add: c)
qed

end
