(* ===== verification/Server.thy ===== *)
theory Server
  imports Prelude
begin

text \<open>
  The threads of \<^verbatim>\<open>RemoteServer\<close> in \<^verbatim>\<open>src/tinyos_shell.c\<close> and the variables that they share: the main thread at
  its console, the thread that accepts connections, and a thread for each connection. The mutex \<^verbatim>\<open>mx\<close>
  protects the counter of the connections' numbers. The number of active connections is decremented
  under the mutex and incremented without it.
\<close>

section \<open>The threads\<close>

text \<open>
  Where the listener is: in \<^verbatim>\<open>Accept\<close>, before and after the load of \<^verbatim>\<open>active_conn++\<close>, before \<^verbatim>\<open>total_conn++\<close>,
  before \<^verbatim>\<open>CreateThread\<close>, or back from its function.
\<close>

datatype listener_pc = Accepting | Loading | Storing u64 | Counting | Spawning | Returned

text \<open>Where a client thread is, with its number once it has one.\<close>

datatype client_pc =
    Unborn
  | Entering
  | Taking
  | Numbering u64
  | Releasing u64
  | Serving u64
  | Finishing u64
  | Dropping u64
  | Writing u64 u64
  | Signalling u64
  | Gone u64

text \<open>
  Where the main thread is: reading commands, in \<^verbatim>\<open>ThreadJoin\<close>, before \<^verbatim>\<open>Mutex_Lock\<close>, at the test of the loop, in
  \<^verbatim>\<open>Cond_Wait\<close>, after the loop, or back from \<^verbatim>\<open>RemoteServer\<close> because the console has ended.
\<close>

datatype main_pc = Console | Joining | Locking | Checking | Waiting | Quitted | Console_ended

datatype holder = Main | Client nat

record server =
  quit :: bool
  active_conn :: u64
  total_conn :: u64
  conn_id_counter :: u64
  mx :: "holder option"
  main :: main_pc
  listener :: listener_pc
  clients :: "nat \<Rightarrow> client_pc"
  spawned :: nat

definition server_start :: server where
  "server_start = \<lparr>quit = False, active_conn = 0, total_conn = 0, conn_id_counter = 0, mx = None, main = Console,
     listener = Accepting, clients = (\<lambda>_. Unborn), spawned = 0\<rparr>"

definition goto :: "nat \<Rightarrow> client_pc \<Rightarrow> server \<Rightarrow> server" where
  "goto i pc s = s\<lparr>clients := (clients s)(i := pc)\<rparr>"

text \<open>
  The steps. \<^verbatim>\<open>Accept\<close> fails once the socket has been closed; until then a failure is logged and the loop goes on.
  A statement on a shared variable is a load and a store. The log is left out.
\<close>

inductive server_step :: "server \<Rightarrow> server \<Rightarrow> bool" where
  accepted: "listener s = Accepting \<Longrightarrow> server_step s (s\<lparr>listener := Loading\<rparr>)"
| not_accepted: "listener s = Accepting \<Longrightarrow> quit s \<Longrightarrow> server_step s (s\<lparr>listener := Returned\<rparr>)"
| load: "listener s = Loading \<Longrightarrow> server_step s (s\<lparr>listener := Storing (active_conn s + 1)\<rparr>)"
| store: "listener s = Storing v \<Longrightarrow> server_step s (s\<lparr>active_conn := v, listener := Counting\<rparr>)"
| count: "listener s = Counting \<Longrightarrow> server_step s (s\<lparr>total_conn := total_conn s + 1, listener := Spawning\<rparr>)"
| spawns: "listener s = Spawning \<Longrightarrow>
     server_step s (goto (spawned s) Entering s\<lparr>spawned := Suc (spawned s), listener := Accepting\<rparr>)"
| lock: "clients s i = Entering \<Longrightarrow> mx s = None \<Longrightarrow> server_step s (goto i Taking s\<lparr>mx := Some (Client i)\<rparr>)"
| load_id: "clients s i = Taking \<Longrightarrow> server_step s (goto i (Numbering (conn_id_counter s + 1)) s)"
| store_id: "clients s i = Numbering v \<Longrightarrow> server_step s (goto i (Releasing v) s\<lparr>conn_id_counter := v\<rparr>)"
| unlock: "clients s i = Releasing v \<Longrightarrow> server_step s (goto i (Serving v) s\<lparr>mx := None\<rparr>)"
| finish: "clients s i = Serving v \<Longrightarrow> server_step s (goto i (Finishing v) s)"
| lock_again: "clients s i = Finishing v \<Longrightarrow> mx s = None \<Longrightarrow> server_step s (goto i (Dropping v) s\<lparr>mx := Some (Client i)\<rparr>)"
| load_active: "clients s i = Dropping v \<Longrightarrow> server_step s (goto i (Writing v (active_conn s - 1)) s)"
| store_active: "clients s i = Writing v w \<Longrightarrow> server_step s (goto i (Signalling v) s\<lparr>active_conn := w\<rparr>)"
| broadcast: "clients s i = Signalling v \<Longrightarrow>
     server_step s (goto i (Gone v) s\<lparr>mx := None, main := (if main s = Waiting then Locking else main s)\<rparr>)"
| quits: "main s = Console \<Longrightarrow> server_step s (s\<lparr>quit := True, main := Joining\<rparr>)"
| ends: "main s = Console \<Longrightarrow> server_step s (s\<lparr>main := Console_ended\<rparr>)"
| joined: "main s = Joining \<Longrightarrow> listener s = Returned \<Longrightarrow> server_step s (s\<lparr>main := Locking\<rparr>)"
| main_lock: "main s = Locking \<Longrightarrow> mx s = None \<Longrightarrow> server_step s (s\<lparr>mx := Some Main, main := Checking\<rparr>)"
| main_waits: "main s = Checking \<Longrightarrow> active_conn s > 0 \<Longrightarrow> server_step s (s\<lparr>mx := None, main := Waiting\<rparr>)"
| main_done: "main s = Checking \<Longrightarrow> \<not> active_conn s > 0 \<Longrightarrow> server_step s (s\<lparr>mx := None, main := Quitted\<rparr>)"

section \<open>The mutex\<close>

fun in_section :: "client_pc \<Rightarrow> bool" where
  "in_section Taking = True"
| "in_section (Numbering v) = True"
| "in_section (Releasing v) = True"
| "in_section (Dropping v) = True"
| "in_section (Writing v w) = True"
| "in_section (Signalling v) = True"
| "in_section _ = False"

definition mx_inv :: "server \<Rightarrow> bool" where
  "mx_inv s \<longleftrightarrow> (\<forall>i. in_section (clients s i) \<longleftrightarrow> mx s = Some (Client i)) \<and> (main s = Checking \<longleftrightarrow> mx s = Some Main) \<and>
     (\<forall>i \<ge> spawned s. clients s i = Unborn) \<and> (\<forall>i < spawned s. clients s i \<noteq> Unborn)"

lemma goto_sel [simp]:
  "quit (goto i pc s) = quit s" "active_conn (goto i pc s) = active_conn s" "total_conn (goto i pc s) = total_conn s"
  "conn_id_counter (goto i pc s) = conn_id_counter s" "mx (goto i pc s) = mx s" "main (goto i pc s) = main s"
  "listener (goto i pc s) = listener s" "clients (goto i pc s) = (clients s)(i := pc)" "spawned (goto i pc s) = spawned s"
  by (simp_all add: goto_def)

lemma mx_start: "mx_inv server_start"
  by (simp add: mx_inv_def server_start_def)

lemma mx_invD:
  assumes "mx_inv s"
  shows "in_section (clients s i) \<longleftrightarrow> mx s = Some (Client i)" "main s = Checking \<longleftrightarrow> mx s = Some Main"
    "clients s i = Unborn \<longleftrightarrow> spawned s \<le> i"
  using assms by (auto simp: mx_inv_def not_le [symmetric])

lemma mx_invI:
  assumes "\<And>i. in_section (clients s i) \<longleftrightarrow> mx s = Some (Client i)" "main s = Checking \<longleftrightarrow> mx s = Some Main"
    "\<And>i. clients s i = Unborn \<longleftrightarrow> spawned s \<le> i"
  shows "mx_inv s"
  using assms by (auto simp: mx_inv_def)

lemma mx_step: "server_step s s' \<Longrightarrow> mx_inv s \<Longrightarrow> mx_inv s'"
proof (rule mx_invI)
  assume st: "server_step s s'" and inv: "mx_inv s"
  note I = mx_invD [OF inv]
  show "in_section (clients s' j) \<longleftrightarrow> mx s' = Some (Client j)" for j
    using st
  proof cases
    case (lock i)
    then show ?thesis using I(1) [of i] I(1) [of j] I(2) by (auto split: if_splits)
  next
    case (load_id i)
    then show ?thesis using I(1) [of i] I(1) [of j] I(2) by (auto split: if_splits)
  next
    case (store_id i v)
    then show ?thesis using I(1) [of i] I(1) [of j] I(2) by (auto split: if_splits)
  next
    case (unlock i v)
    then show ?thesis using I(1) [of i] I(1) [of j] I(2) by (auto split: if_splits)
  next
    case (finish i v)
    then show ?thesis using I(1) [of i] I(1) [of j] I(2) by (auto split: if_splits)
  next
    case (lock_again i v)
    then show ?thesis using I(1) [of i] I(1) [of j] I(2) by (auto split: if_splits)
  next
    case (load_active i v)
    then show ?thesis using I(1) [of i] I(1) [of j] I(2) by (auto split: if_splits)
  next
    case (store_active i v w)
    then show ?thesis using I(1) [of i] I(1) [of j] I(2) by (auto split: if_splits)
  next
    case (broadcast i v)
    then show ?thesis using I(1) [of i] I(1) [of j] I(2) by (auto split: if_splits)
  next
    case spawns
    then show ?thesis using I(1) [of "spawned s"] I(3) [of "spawned s"] I(1) [of j] by auto
  qed (use I(1) [of j] I(2) in auto)
  show "main s' = Checking \<longleftrightarrow> mx s' = Some Main"
    using st
  proof cases
    case (lock i)
    then show ?thesis using I(1) [of i] I(2) by (auto split: if_splits)
  next
    case (load_id i)
    then show ?thesis using I(1) [of i] I(2) by (auto split: if_splits)
  next
    case (store_id i v)
    then show ?thesis using I(1) [of i] I(2) by (auto split: if_splits)
  next
    case (unlock i v)
    then show ?thesis using I(1) [of i] I(2) by (auto split: if_splits)
  next
    case (finish i v)
    then show ?thesis using I(1) [of i] I(2) by (auto split: if_splits)
  next
    case (lock_again i v)
    then show ?thesis using I(1) [of i] I(2) by (auto split: if_splits)
  next
    case (load_active i v)
    then show ?thesis using I(1) [of i] I(2) by (auto split: if_splits)
  next
    case (store_active i v w)
    then show ?thesis using I(1) [of i] I(2) by (auto split: if_splits)
  next
    case (broadcast i v)
    then show ?thesis using I(1) [of i] I(2) by (auto split: if_splits)
  qed (use I(2) in auto)
  show "clients s' j = Unborn \<longleftrightarrow> spawned s' \<le> j" for j
    using st
  proof cases
    case (lock i)
    then show ?thesis using I(3) [of i] I(3) [of j] by (auto split: if_splits)
  next
    case (load_id i)
    then show ?thesis using I(3) [of i] I(3) [of j] by (auto split: if_splits)
  next
    case (store_id i v)
    then show ?thesis using I(3) [of i] I(3) [of j] by (auto split: if_splits)
  next
    case (unlock i v)
    then show ?thesis using I(3) [of i] I(3) [of j] by (auto split: if_splits)
  next
    case (finish i v)
    then show ?thesis using I(3) [of i] I(3) [of j] by (auto split: if_splits)
  next
    case (lock_again i v)
    then show ?thesis using I(3) [of i] I(3) [of j] by (auto split: if_splits)
  next
    case (load_active i v)
    then show ?thesis using I(3) [of i] I(3) [of j] by (auto split: if_splits)
  next
    case (store_active i v w)
    then show ?thesis using I(3) [of i] I(3) [of j] by (auto split: if_splits)
  next
    case (broadcast i v)
    then show ?thesis using I(3) [of i] I(3) [of j] by (auto split: if_splits)
  qed (use I(3) [of j] in auto)
qed

section \<open>The numbers of the connections\<close>

fun id_of :: "client_pc \<Rightarrow> u64 option" where
  "id_of (Releasing v) = Some v"
| "id_of (Serving v) = Some v"
| "id_of (Finishing v) = Some v"
| "id_of (Dropping v) = Some v"
| "id_of (Writing v w) = Some v"
| "id_of (Signalling v) = Some v"
| "id_of (Gone v) = Some v"
| "id_of _ = None"

definition numbered :: "server \<Rightarrow> nat set" where
  "numbered s = {i. id_of (clients s i) \<noteq> None}"

definition ids_inv :: "server \<Rightarrow> bool" where
  "ids_inv s \<longleftrightarrow> unat (conn_id_counter s) = card (numbered s) \<and>
     (\<forall>i v. id_of (clients s i) = Some v \<longrightarrow> 1 \<le> unat v \<and> unat v \<le> card (numbered s)) \<and>
     (\<forall>i j v. id_of (clients s i) = Some v \<longrightarrow> id_of (clients s j) = Some v \<longrightarrow> i = j) \<and>
     (\<forall>i v. clients s i = Numbering v \<longrightarrow> v = conn_id_counter s + 1)"

lemma numbered_subset: "mx_inv s \<Longrightarrow> numbered s \<subseteq> {..<spawned s}"
proof
  fix i assume "mx_inv s" "i \<in> numbered s"
  then have "clients s i \<noteq> Unborn" by (auto simp: numbered_def)
  then show "i \<in> {..<spawned s}" using mx_invD(3) [OF \<open>mx_inv s\<close>, of i] by simp
qed

lemma ids_same:
  assumes "ids_inv s" "\<And>j. id_of (clients s' j) = id_of (clients s j)" "conn_id_counter s' = conn_id_counter s"
    "\<And>j v. clients s' j = Numbering v \<Longrightarrow> clients s j = Numbering v \<or> v = conn_id_counter s + 1"
  shows "ids_inv s'"
proof -
  have "numbered s' = numbered s" by (simp add: numbered_def assms(2))
  with assms show ?thesis unfolding ids_inv_def by metis
qed

lemma ids_store:
  assumes inv: "mx_inv s" "ids_inv s" and v: "clients s i = Numbering v" and bound: "spawned s < 2 ^ 64"
  shows "ids_inv (goto i (Releasing v) s\<lparr>conn_id_counter := v\<rparr>)" (is "ids_inv ?s")
proof -
  note I = inv(2) [unfolded ids_inv_def]
  have fin: "finite (numbered s)" using numbered_subset [OF inv(1)] finite_subset by blast
  have i: "i \<notin> numbered s" by (simp add: numbered_def v)
  have "clients s i \<noteq> Unborn" using v by simp
  then have "i < spawned s" using mx_invD(3) [OF inv(1), of i] by simp
  then have "insert i (numbered s) \<subseteq> {..<spawned s}" using numbered_subset [OF inv(1)] by simp
  then have "card (insert i (numbered s)) \<le> spawned s" using card_mono [of "{..<spawned s}"] by fastforce
  then have c: "Suc (card (numbered s)) \<le> spawned s" using fin i by simp
  have "v = conn_id_counter s + 1" using I v by blast
  then have uv: "unat v = Suc (card (numbered s))"
    using I c bound by (simp add: unat_word_ariths)
  have n: "numbered ?s = insert i (numbered s)" by (auto simp: numbered_def)
  then have card: "card (numbered ?s) = Suc (card (numbered s))" using fin i by simp
  have new: "w \<noteq> v" if "id_of (clients s j) = Some w" for j w using I that uv by fastforce
  have nolock: "clients s j \<noteq> Numbering w" if "j \<noteq> i" for j w
  proof
    assume "clients s j = Numbering w"
    then show False using mx_invD(1) [OF inv(1), of i] mx_invD(1) [OF inv(1), of j] v that by simp
  qed
  show ?thesis
    unfolding ids_inv_def card
  proof (intro conjI allI impI)
    show "unat (conn_id_counter ?s) = Suc (card (numbered s))" using uv by simp
    show "1 \<le> unat w" "unat w \<le> Suc (card (numbered s))" if "id_of (clients ?s j) = Some w" for j w
      using that I uv by (fastforce split: if_splits)+
    show "j = l" if "id_of (clients ?s j) = Some w" "id_of (clients ?s l) = Some w" for j l w
      using that I new by (auto split: if_splits)
    show "w = conn_id_counter ?s + 1" if "clients ?s j = Numbering w" for j w
      using that nolock [of j w] by (auto split: if_splits)
  qed
qed

lemma ids_step:
  assumes st: "server_step s s'" and inv: "mx_inv s" "ids_inv s" and bound: "spawned s < 2 ^ 64"
  shows "ids_inv s'"
  using st
proof cases
  case (store_id i v)
  then show ?thesis using ids_store [OF inv store_id(2) bound] by simp
qed (rule ids_same [OF inv(2)]; use mx_invD(3) [OF inv(1), of "spawned s"] in \<open>auto split: if_splits\<close>)+

lemma spawned_step: "server_step s s' \<Longrightarrow> spawned s \<le> spawned s'"
  by (cases rule: server_step.cases, assumption) auto

lemma server_inv: "server_step\<^sup>*\<^sup>* server_start s \<Longrightarrow> mx_inv s \<and> (spawned s < 2 ^ 64 \<longrightarrow> ids_inv s)"
proof (induction rule: rtranclp_induct)
  case base
  then show ?case by (simp add: mx_start ids_inv_def numbered_def) (simp add: server_start_def)
next
  case (step s s')
  then show ?case using mx_step [OF step(2)] ids_step [OF step(2)] spawned_step [OF step(2)] by auto
qed

text \<open>
  C27: the mutex of the server works. In every interleaving of the threads of the server, at most one of
  them is in a section that the mutex protects, and with fewer than \<open>2 ^ 64\<close> connections each of
  them that has a number has one of its own, from 1 to the value of the counter.
\<close>

theorem connections_numbered:
  assumes "server_step\<^sup>*\<^sup>* server_start s" and "spawned s < 2 ^ 64"
  shows "(in_section (clients s i) \<longrightarrow> in_section (clients s j) \<longrightarrow> i = j) \<and> (in_section (clients s i) \<longrightarrow> main s \<noteq> Checking) \<and>
     (id_of (clients s i) = Some v \<longrightarrow> id_of (clients s j) = Some v \<longrightarrow> i = j) \<and>
     (id_of (clients s i) = Some v \<longrightarrow> 1 \<le> unat v \<and> unat v \<le> unat (conn_id_counter s))"
proof -
  have inv: "mx_inv s" "ids_inv s" using server_inv [OF assms(1)] assms(2) by simp_all
  show ?thesis using mx_invD(1,2) [OF inv(1)] inv(2) by (auto simp: ids_inv_def)
qed

section \<open>The number of active connections\<close>

text \<open>The connections whose thread has not yet decremented the number.\<close>

fun counted :: "client_pc \<Rightarrow> bool" where
  "counted Unborn = False"
| "counted (Signalling v) = False"
| "counted (Gone v) = False"
| "counted _ = True"

definition in_progress :: "server \<Rightarrow> nat set" where
  "in_progress s = {i. counted (clients s i)}"

text \<open>Steps in which no thread of a client works on the number while the listener is between its load and its store.\<close>

definition orderly :: "server \<Rightarrow> server \<Rightarrow> bool" where
  "orderly s s' \<longleftrightarrow> server_step s s' \<and> (\<forall>v. listener s = Storing v \<longrightarrow> listener s' = Counting) \<and>
     (listener s = Loading \<longrightarrow> listener s' \<noteq> Loading \<longrightarrow> (\<forall>i v w. clients s i \<noteq> Writing v w))"

definition pending :: "server \<Rightarrow> nat" where
  "pending s = (if listener s = Counting \<or> listener s = Spawning then 1 else 0)"

definition active_inv :: "server \<Rightarrow> bool" where
  "active_inv s \<longleftrightarrow> active_conn s = of_nat (card (in_progress s) + pending s) \<and>
     (\<forall>v. listener s = Storing v \<longrightarrow> v = active_conn s + 1 \<and> (\<forall>i x w. clients s i \<noteq> Writing x w)) \<and>
     (\<forall>i v w. clients s i = Writing v w \<longrightarrow> w = active_conn s - 1) \<and>
     (main s \<in> {Locking, Checking, Waiting, Quitted} \<longrightarrow> listener s = Returned) \<and>
     (main s = Quitted \<longrightarrow> in_progress s = {})"

lemma finite_in_progress: "mx_inv s \<Longrightarrow> finite (in_progress s) \<and> card (in_progress s) \<le> spawned s"
proof -
  assume "mx_inv s"
  have "in_progress s \<subseteq> {..<spawned s}"
  proof
    fix i assume "i \<in> in_progress s"
    then have "clients s i \<noteq> Unborn" by (auto simp: in_progress_def)
    then show "i \<in> {..<spawned s}" using mx_invD(3) [OF \<open>mx_inv s\<close>, of i] by simp
  qed
  then show ?thesis using card_mono [of "{..<spawned s}" "in_progress s"] by (auto intro: finite_subset)
qed

lemma active_same:
  assumes "active_inv s" "\<And>j. counted (clients s' j) = counted (clients s j)" "active_conn s' = active_conn s" "pending s' = pending s"
    "\<And>v. listener s' = Storing v \<Longrightarrow> v = active_conn s + 1 \<and> (\<forall>i x w. clients s' i \<noteq> Writing x w)"
    "\<And>j v w. clients s' j = Writing v w \<Longrightarrow> w = active_conn s - 1"
    "main s' \<in> {Locking, Checking, Waiting, Quitted} \<Longrightarrow> listener s' = Returned" "main s' = Quitted \<Longrightarrow> in_progress s = {}"
  shows "active_inv s'"
proof -
  have "in_progress s' = in_progress s" by (simp add: in_progress_def assms(2))
  with assms show ?thesis unfolding active_inv_def by simp
qed

lemma active_step:
  assumes o: "orderly s s'" and mx: "mx_inv s" and inv: "active_inv s" and bound: "spawned s < 2 ^ 64"
  shows "active_inv s'"
proof -
  note I = inv [unfolded active_inv_def]
  note O = o [unfolded orderly_def]
  note F = finite_in_progress [OF mx]
  have st: "server_step s s'" using O by blast
  have ns: "listener s \<noteq> Storing v" if "listener s' = listener s" for v using O that by auto
  have same: "active_inv s'" if "\<And>j. counted (clients s' j) = counted (clients s j)" "active_conn s' = active_conn s"
    "listener s' = listener s" "\<And>j v w. clients s' j = Writing v w \<Longrightarrow> clients s j = Writing v w \<or> w = active_conn s - 1"
    "main s' = main s \<or> main s' \<noteq> Quitted \<and> (main s' \<in> {Locking, Checking, Waiting} \<longrightarrow> listener s = Returned)"
  proof (rule active_same [OF inv that(1,2)])
    show "pending s' = pending s" by (simp add: pending_def that(3))
    show "w = active_conn s - 1" if "clients s' j = Writing v w" for j v w using I \<open>\<And>w v j. clients s' j = Writing v w \<Longrightarrow> _\<close> that by blast
  qed (use that I ns [OF that(3)] in auto)
  show ?thesis
    using st
  proof cases
    case accepted
    then show ?thesis using I by (intro active_same [OF inv]) (auto simp: pending_def)
  next
    case not_accepted
    then show ?thesis using I by (intro active_same [OF inv]) (auto simp: pending_def)
  next
    case load
    then show ?thesis using I O by (intro active_same [OF inv]) (auto simp: pending_def)
  next
    case (store v)
    then show ?thesis using I by (auto simp: active_inv_def in_progress_def pending_def)
  next
    case count
    then show ?thesis using I by (intro active_same [OF inv]) (auto simp: pending_def)
  next
    case spawns
    have e: "\<not> counted (clients s (spawned s))" using mx_invD(3) [OF mx, of "spawned s"] by simp
    have n: "in_progress s' = insert (spawned s) (in_progress s)" by (auto simp: in_progress_def spawns)
    have "spawned s \<notin> in_progress s" using e by (simp add: in_progress_def)
    then have c: "card (in_progress s') = Suc (card (in_progress s))" unfolding n using F by simp
    have l: "listener s' = Accepting" "active_conn s' = active_conn s" "main s' = main s" "clients s' = (clients s)(spawned s := Entering)"
      using spawns by simp_all
    have "main s \<notin> {Locking, Checking, Waiting, Quitted}" "pending s = 1" "pending s' = 0" using I spawns(2) l by (auto simp: pending_def)
    then show ?thesis using I c l unfolding active_inv_def by (auto split: if_splits)
  next
    case (store_active i v w)
    have n: "in_progress s' = in_progress s - {i}" and i: "i \<in> in_progress s" using store_active by (auto simp: in_progress_def)
    have c: "card (in_progress s) = Suc (card (in_progress s'))" unfolding n by (rule card_Suc_Diff1 [symmetric]) (use F i in simp_all)
    have "w = active_conn s - 1" using I store_active by blast
    have l: "listener s' = listener s" "main s' = main s" "active_conn s' = w" "pending s' = pending s"
      using store_active by (simp_all add: pending_def)
    have a: "active_conn s' = of_nat (card (in_progress s') + pending s')"
      using I c \<open>w = active_conn s - 1\<close> by (simp add: l)
    have nw: "clients s' j \<noteq> Writing x y" for j x y
    proof
      assume "clients s' j = Writing x y"
      then have "clients s j = Writing x y" "j \<noteq> i" using store_active by (auto split: if_splits)
      then show False using mx_invD(1) [OF mx, of i] mx_invD(1) [OF mx, of j] store_active by simp
    qed
    have "main s \<noteq> Quitted" using I i by auto
    then show ?thesis using I a nw ns [OF l(1)] unfolding active_inv_def l(1,2) by blast
  next
    case main_done
    have "unat (active_conn s) = 0" using main_done by (simp add: word_gt_0)
    moreover have "listener s = Returned" using I main_done by simp
    then have "active_conn s = of_nat (card (in_progress s))" using I by (simp add: pending_def)
    moreover have "card (in_progress s) < 2 ^ 64" using F bound by simp
    ultimately have "in_progress s = {}" using F by (simp add: unat_of_nat)
    with main_done I show ?thesis by (intro active_same [OF inv]) (auto simp: pending_def)
  qed (rule same; use I in \<open>auto split: if_splits\<close>)+
qed

lemma orderly_inv: "orderly\<^sup>*\<^sup>* server_start s \<Longrightarrow> mx_inv s \<and> (spawned s < 2 ^ 64 \<longrightarrow> active_inv s)"
proof (induction rule: rtranclp_induct)
  case base
  then show ?case by (simp add: mx_start active_inv_def in_progress_def pending_def) (simp add: server_start_def)
next
  case (step s s')
  have st: "server_step s s'" using step(2) by (simp add: orderly_def)
  show ?case using step(3) mx_step [OF st] active_step [OF step(2)] spawned_step [OF st] by auto
qed

text \<open>
  C28: the server waits for its clients. As long as no client's thread works on the number of active connections
  while the listener increments it, the number is right, and when the main thread is past the loop that waits, no
  connection is left.
\<close>

theorem server_waits:
  assumes "orderly\<^sup>*\<^sup>* server_start s" and "spawned s < 2 ^ 64"
  shows "active_conn s = of_nat (card {i. counted (clients s i)} + (if listener s = Counting \<or> listener s = Spawning then 1 else 0)) \<and>
     (main s = Quitted \<longrightarrow> listener s = Returned \<and> (\<forall>i. \<not> counted (clients s i)))"
proof -
  have "active_inv s" using orderly_inv [OF assms(1)] assms(2) by simp
  then show ?thesis by (auto simp: active_inv_def in_progress_def pending_def)
qed

section \<open>Runs\<close>

text \<open>The step that a thread takes next, where the choice is whether \<^verbatim>\<open>Accept\<close> fails or the console has ended.\<close>

datatype move = Listener bool | Client_thread nat | Main_thread bool

fun listener_moves :: "bool \<Rightarrow> server \<Rightarrow> server option" where
  "listener_moves failed s =
     (case listener s of
        Accepting \<Rightarrow> if failed then (if quit s then Some (s\<lparr>listener := Returned\<rparr>) else None) else Some (s\<lparr>listener := Loading\<rparr>)
      | Loading \<Rightarrow> Some (s\<lparr>listener := Storing (active_conn s + 1)\<rparr>)
      | Storing v \<Rightarrow> Some (s\<lparr>active_conn := v, listener := Counting\<rparr>)
      | Counting \<Rightarrow> Some (s\<lparr>total_conn := total_conn s + 1, listener := Spawning\<rparr>)
      | Spawning \<Rightarrow> Some (goto (spawned s) Entering s\<lparr>spawned := Suc (spawned s), listener := Accepting\<rparr>)
      | Returned \<Rightarrow> None)"

fun client_moves :: "nat \<Rightarrow> server \<Rightarrow> server option" where
  "client_moves i s =
     (case clients s i of
        Entering \<Rightarrow> if mx s = None then Some (goto i Taking s\<lparr>mx := Some (Client i)\<rparr>) else None
      | Taking \<Rightarrow> Some (goto i (Numbering (conn_id_counter s + 1)) s)
      | Numbering v \<Rightarrow> Some (goto i (Releasing v) s\<lparr>conn_id_counter := v\<rparr>)
      | Releasing v \<Rightarrow> Some (goto i (Serving v) s\<lparr>mx := None\<rparr>)
      | Serving v \<Rightarrow> Some (goto i (Finishing v) s)
      | Finishing v \<Rightarrow> if mx s = None then Some (goto i (Dropping v) s\<lparr>mx := Some (Client i)\<rparr>) else None
      | Dropping v \<Rightarrow> Some (goto i (Writing v (active_conn s - 1)) s)
      | Writing v w \<Rightarrow> Some (goto i (Signalling v) s\<lparr>active_conn := w\<rparr>)
      | Signalling v \<Rightarrow> Some (goto i (Gone v) s\<lparr>mx := None, main := (if main s = Waiting then Locking else main s)\<rparr>)
      | _ \<Rightarrow> None)"

fun main_moves :: "bool \<Rightarrow> server \<Rightarrow> server option" where
  "main_moves ended s =
     (case main s of
        Console \<Rightarrow> Some (if ended then s\<lparr>main := Console_ended\<rparr> else s\<lparr>quit := True, main := Joining\<rparr>)
      | Joining \<Rightarrow> if listener s = Returned then Some (s\<lparr>main := Locking\<rparr>) else None
      | Locking \<Rightarrow> if mx s = None then Some (s\<lparr>mx := Some Main, main := Checking\<rparr>) else None
      | Checking \<Rightarrow> Some (s\<lparr>mx := None, main := (if active_conn s > 0 then Waiting else Quitted)\<rparr>)
      | _ \<Rightarrow> None)"

fun fire :: "move \<Rightarrow> server \<Rightarrow> server option" where
  "fire (Listener failed) s = listener_moves failed s"
| "fire (Client_thread i) s = client_moves i s"
| "fire (Main_thread ended) s = main_moves ended s"

fun fires :: "move list \<Rightarrow> server \<Rightarrow> server option" where
  "fires [] s = Some s"
| "fires (m # ms) s = Option.bind (fire m s) (fires ms)"

lemma client_fires: "clients s i = pc \<Longrightarrow> fire (Client_thread i) s = Some s' \<Longrightarrow> \<exists>m. fire m s = Some s'"
  and listener_fires: "listener s = lpc \<Longrightarrow> fire (Listener False) s = Some s' \<Longrightarrow> \<exists>m. fire m s = Some s'"
  and main_fires: "main s = mpc \<Longrightarrow> fire (Main_thread False) s = Some s' \<Longrightarrow> \<exists>m. fire m s = Some s'"
  by blast+

lemma server_step_fire: "server_step s s' \<longleftrightarrow> (\<exists>m. fire m s = Some s')"
proof
  assume "server_step s s'"
  then show "\<exists>m. fire m s = Some s'"
  proof cases
    case accepted
    then show ?thesis by (intro exI [of _ "Listener False"]) simp
  next
    case not_accepted
    then show ?thesis by (intro exI [of _ "Listener True"]) simp
  next
    case quits
    then show ?thesis by (intro exI [of _ "Main_thread False"]) simp
  next
    case ends
    then show ?thesis by (intro exI [of _ "Main_thread True"]) simp
  qed ((rule client_fires listener_fires main_fires, assumption, simp; fail)+)
next
  assume "\<exists>m. fire m s = Some s'"
  then obtain m where m: "fire m s = Some s'" by blast
  show "server_step s s'"
  proof (cases m)
    case (Listener f)
    with m show ?thesis by (auto intro: server_step.intros split: listener_pc.splits if_splits)
  next
    case (Client_thread i)
    with m show ?thesis using broadcast [of s i] by (auto intro: server_step.intros split: client_pc.splits if_splits)
  next
    case (Main_thread f)
    with m show ?thesis by (auto intro: server_step.intros split: main_pc.splits if_splits)
  qed
qed

lemma fires_steps: "fires ms s = Some s' \<Longrightarrow> server_step\<^sup>*\<^sup>* s s'"
proof (induction ms arbitrary: s)
  case Nil
  then show ?case by simp
next
  case (Cons m ms)
  then obtain t where "fire m s = Some t" "fires ms t = Some s'" by (auto simp: bind_eq_Some_conv)
  then show ?case using Cons.IH server_step_fire converse_rtranclp_into_rtranclp [of server_step s t s'] by blast
qed

definition connects :: "nat \<Rightarrow> move list" where
  "connects i = replicate 5 (Listener False) @ replicate 4 (Client_thread i)"

text \<open>The thread stores the number that it loaded before the second connection came, and the main thread does not wait for that one.\<close>

definition lost_increment :: "move list" where
  "lost_increment = connects 0 @ replicate 3 (Client_thread 0) @ replicate 5 (Listener False) @ replicate 2 (Client_thread 0) @
     replicate 4 (Client_thread 1) @ [Main_thread False, Listener True] @ replicate 3 (Main_thread False)"

text \<open>The listener stores the number that it loaded before the first connection ended, and the main thread waits for ever.\<close>

definition lost_decrement :: "move list" where
  "lost_decrement = connects 0 @ replicate 2 (Client_thread 0) @ replicate 2 (Listener False) @ replicate 3 (Client_thread 0) @
     replicate 3 (Listener False) @ replicate 9 (Client_thread 1) @ [Main_thread False, Listener True] @ replicate 3 (Main_thread False)"

text \<open>One connection comes and ends, and another comes.\<close>

definition one_after_the_other :: "move list" where
  "one_after_the_other = connects 0 @ replicate 5 (Client_thread 0) @ connects 1"

lemma lost_increment_run:
  "map_option (\<lambda>s. (main s, active_conn s, clients s 1)) (fires lost_increment server_start) = Some (Quitted, 0, Serving 2)"
  by code_simp

lemma lost_decrement_run:
  "map_option (\<lambda>s. (main s, listener s, map (clients s) [0, 1], spawned s, active_conn s)) (fires lost_decrement server_start) =
     Some (Waiting, Returned, [Gone 1, Gone 2], 2, 1)"
  by code_simp

lemma one_after_the_other_run:
  "map_option (\<lambda>s. (map (clients s) [0, 1], spawned s)) (fires one_after_the_other server_start) = Some ([Gone 1, Serving 2], 2)"
  by code_simp

lemma no_move:
  assumes "mx_inv s" "main s = Waiting" "listener s = Returned" "spawned s = 2" "clients s 0 = Gone 1" "clients s 1 = Gone 2"
  shows "\<not> server_step s s'"
proof
  assume "server_step s s'"
  then obtain m where m: "fire m s = Some s'" using server_step_fire by blast
  show False
  proof (cases m)
    case (Client_thread i)
    have "i = 0 \<or> i = 1 \<or> spawned s \<le> i" using assms(4) by linarith
    then have "clients s i \<in> {Gone 1, Gone 2, Unborn}" using assms(5,6) mx_invD(3) [OF assms(1), of i] by blast
    with m Client_thread show False by auto
  qed (use m assms in auto)
qed

text \<open>
  Without the mutex in the listener the number of active connections can be wrong, both ways. The server
  can be past its loop while the thread of a connection still serves, and it can wait when both its connections
  have ended and no thread has a step left.
\<close>

theorem active_count_lost:
  "(\<exists>s. server_step\<^sup>*\<^sup>* server_start s \<and> main s = Quitted \<and> clients s 1 = Serving 2) \<and>
   (\<exists>s. server_step\<^sup>*\<^sup>* server_start s \<and> main s = Waiting \<and> clients s 0 = Gone 1 \<and> clients s 1 = Gone 2 \<and> (\<forall>s'. \<not> server_step s s'))"
proof
  show "\<exists>s. server_step\<^sup>*\<^sup>* server_start s \<and> main s = Quitted \<and> clients s 1 = Serving 2"
    using lost_increment_run fires_steps by (fastforce simp: map_option_eq_Some)
  obtain s where s: "fires lost_decrement server_start = Some s" "main s = Waiting" "listener s = Returned" "spawned s = 2"
    "clients s 0 = Gone 1" "clients s 1 = Gone 2"
    using lost_decrement_run by (auto simp: map_option_eq_Some)
  have run: "server_step\<^sup>*\<^sup>* server_start s" by (rule fires_steps [OF s(1)])
  then have "mx_inv s" using server_inv by blast
  with s run no_move show "\<exists>s. server_step\<^sup>*\<^sup>* server_start s \<and> main s = Waiting \<and> clients s 0 = Gone 1 \<and> clients s 1 = Gone 2 \<and>
      (\<forall>s'. \<not> server_step s s')" by blast
qed

text \<open>Two connections, the second after the first has ended: their numbers are between 1 and the counter.\<close>

lemma connections_numbered_witness:
  "\<exists>s. server_step\<^sup>*\<^sup>* server_start s \<and> id_of (clients s 0) = Some 1 \<and> id_of (clients s 1) = Some 2 \<and>
     unat (2 :: u64) \<le> unat (conn_id_counter s)"
proof -
  obtain s where s: "fires one_after_the_other server_start = Some s" "spawned s = 2" "clients s 0 = Gone 1" "clients s 1 = Serving 2"
    using one_after_the_other_run by (auto simp: map_option_eq_Some)
  have run: "server_step\<^sup>*\<^sup>* server_start s" by (rule fires_steps [OF s(1)])
  from connections_numbered [OF run, of 1 0 2] s show ?thesis by (intro exI [of _ s]) (simp add: run)
qed

text \<open>Moves in which nobody is between the load and the store of the number while the listener has loaded it.\<close>

fun writing :: "client_pc \<Rightarrow> bool" where
  "writing (Writing v w) = True"
| "writing _ = False"

definition undisturbed :: "move \<Rightarrow> server \<Rightarrow> bool" where
  "undisturbed m s = (case listener s of
       Storing v \<Rightarrow> m = Listener False
     | Loading \<Rightarrow> (\<forall>i \<in> set [0..<spawned s]. \<not> writing (clients s i))
     | _ \<Rightarrow> True)"

fun fires_orderly :: "move list \<Rightarrow> server \<Rightarrow> server option" where
  "fires_orderly [] s = Some s"
| "fires_orderly (m # ms) s = (if undisturbed m s then Option.bind (fire m s) (fires_orderly ms) else None)"

lemma undisturbed_orderly: "undisturbed m s \<Longrightarrow> mx_inv s \<Longrightarrow> fire m s = Some s' \<Longrightarrow> orderly s s'"
proof -
  assume u: "undisturbed m s" and inv: "mx_inv s" and f: "fire m s = Some s'"
  have "listener s' = Counting" if "listener s = Storing v" for v using u f that by (auto simp: undisturbed_def)
  moreover have "clients s i \<noteq> Writing v w" if "listener s = Loading" for i v w
  proof
    assume "clients s i = Writing v w"
    moreover from this have "i < spawned s" using mx_invD(3) [OF inv, of i] by simp
    ultimately show False using u that by (force simp: undisturbed_def)
  qed
  ultimately show ?thesis using f server_step_fire by (auto simp: orderly_def)
qed

lemma fires_orderly_steps: "fires_orderly ms s = Some s' \<Longrightarrow> mx_inv s \<Longrightarrow> orderly\<^sup>*\<^sup>* s s'"
proof (induction ms arbitrary: s)
  case Nil
  then show ?case by simp
next
  case (Cons m ms)
  then obtain t where t: "undisturbed m s" "fire m s = Some t" "fires_orderly ms t = Some s'"
    by (auto simp: bind_eq_Some_conv split: if_splits)
  have o: "orderly s t" by (rule undisturbed_orderly [OF t(1) Cons.prems(2) t(2)])
  then have "mx_inv t" using mx_step Cons.prems(2) by (auto simp: orderly_def)
  from Cons.IH [OF t(3) this] o show ?case by (rule converse_rtranclp_into_rtranclp [rotated])
qed

lemma one_quit_run:
  "map_option (\<lambda>s. (main s, spawned s))
     (fires_orderly (connects 0 @ replicate 5 (Client_thread 0) @ [Main_thread False, Listener True] @ replicate 3 (Main_thread False)) server_start) =
     Some (Quitted, 1)"
  by code_simp

text \<open>One connection comes and ends, and the server quits.\<close>

lemma server_waits_witness:
  "\<exists>s. orderly\<^sup>*\<^sup>* server_start s \<and> spawned s = 1 \<and> main s = Quitted \<and> listener s = Returned \<and> (\<forall>i. \<not> counted (clients s i))"
proof -
  obtain s where s: "main s = Quitted" "spawned s = 1" and run: "orderly\<^sup>*\<^sup>* server_start s"
    using one_quit_run fires_orderly_steps [OF _ mx_start] by (fastforce simp: map_option_eq_Some)
  from server_waits [OF run] s show ?thesis by (intro exI [of _ s]) (simp add: run)
qed

end
