(* ===== verification/ServerLog.thy ===== *)
theory ServerLog
  imports RList
begin

text \<open>
  The log of the remote server of \<^verbatim>\<open>src/tinyos_shell.c\<close>: records that carry the node of a resource list before
  their text. Every operation locks the mutex of the server, so that one call is one step.
\<close>

section \<open>The operations\<close>

text \<open>
  The pointers of the nodes, their keys, the texts of the records that are allocated, and the counter. A node and its
  record have the same address.
\<close>

record server_log =
  ptrs :: "nat rheap"
  node_num :: "nat \<Rightarrow> u64"
  message :: "nat \<Rightarrow> string option"
  logcount :: u64

definition log_init :: "nat \<Rightarrow> server_log \<Rightarrow> server_log" where
  "log_init lg s = s\<lparr>ptrs := rlnode_new lg (ptrs s), logcount := 0\<rparr>"

text \<open>\<open>rcd\<close> is the buffer with the record and its text \<open>msg\<close>, as \<^verbatim>\<open>fclose\<close> leaves it.\<close>

definition log_message :: "nat \<Rightarrow> nat \<Rightarrow> string \<Rightarrow> server_log \<Rightarrow> server_log" where
  "log_message lg rcd msg s =
     (let s1 = s\<lparr>message := (message s)(rcd \<mapsto> msg)\<rparr>;
          s2 = s1\<lparr>ptrs := rlnode_new rcd (ptrs s1), logcount := logcount s1 + 1\<rparr>;
          s3 = s2\<lparr>node_num := (node_num s2)(rcd := logcount s2)\<rparr>
      in s3\<lparr>ptrs := rlist_push_back lg rcd (ptrs s3)\<rparr>)"

text \<open>What is printed, for each record its number and its text.\<close>

partial_function (option) log_print_loop :: "nat \<Rightarrow> nat \<Rightarrow> (u64 \<times> string) list \<Rightarrow> server_log \<Rightarrow> (u64 \<times> string) list res option" where
  "log_print_loop lg ptr out s =
     (if ptr \<noteq> lg then
        (case message s ptr of
           None \<Rightarrow> Some (Inl Use_after_free)
         | Some m \<Rightarrow> log_print_loop lg (nxt (ptrs s) ptr) (out @ [(node_num s ptr, m)]) s)
      else Some (Inr out))"

definition log_print :: "nat \<Rightarrow> server_log \<Rightarrow> (u64 \<times> string) list res option" where
  "log_print lg s = log_print_loop lg (nxt (ptrs s) lg) [] s"

text \<open>A record that has been freed is gone, and its pointers are whatever \<open>junk\<close> says.\<close>

definition free_record :: "(nat rcell \<Rightarrow> nat) \<Rightarrow> nat \<Rightarrow> server_log \<Rightarrow> server_log res" where
  "free_record junk rcd s =
     bindE (derefE (message s rcd)) (\<lambda>_.
     Inr (s\<lparr>message := (message s)(rcd := None),
            ptrs := (ptrs s)(NextOf rcd := junk (NextOf rcd), PrevOf rcd := junk (PrevOf rcd))\<rparr>))"

partial_function (option) log_free_loop :: "(nat rcell \<Rightarrow> nat) \<Rightarrow> nat \<Rightarrow> server_log \<Rightarrow> server_log res option" where
  "log_free_loop junk lst s =
     (if nxt (ptrs s) lst \<noteq> lst then
        (let (rcd, h) = rlist_pop_front lst (ptrs s)
         in case free_record junk rcd (s\<lparr>ptrs := h\<rparr>) of
              Inl e \<Rightarrow> Some (Inl e)
            | Inr s1 \<Rightarrow> log_free_loop junk lst s1)
      else Some (Inr s))"

text \<open>\<open>lst\<close> is the address of the local variable \<^verbatim>\<open>list\<close>.\<close>

definition log_truncate :: "(nat rcell \<Rightarrow> nat) \<Rightarrow> nat \<Rightarrow> nat \<Rightarrow> server_log \<Rightarrow> server_log res option" where
  "log_truncate junk lg lst s =
     (let s1 = s\<lparr>ptrs := rlnode_new lst (ptrs s)\<rparr>;
          s2 = s1\<lparr>ptrs := rlist_append lst lg (ptrs s1)\<rparr>
      in log_free_loop junk lst s2)"

section \<open>Lemmas\<close>

lemma rlnode_new_frame: "ring h a xs \<Longrightarrow> p \<notin> set (a # xs) \<Longrightarrow> ring (rlnode_new p h) a xs"
  by (rule ring_cong) (auto simp: rlnode_new_def Let_def)

text \<open>The records \<open>rs\<close> of the log, and what they say.\<close>

definition logged :: "nat \<Rightarrow> nat list \<Rightarrow> (u64 \<times> string) list \<Rightarrow> server_log \<Rightarrow> bool" where
  "logged lg rs out s \<longleftrightarrow> ring (ptrs s) lg rs \<and> list_all2 (\<lambda>r (n, m). node_num s r = n \<and> message s r = Some m) rs out"

lemma logged_init: "logged lg [] [] (log_init lg s)"
  by (simp add: logged_def log_init_def ring_new)

lemma logged_message:
  assumes "logged lg rs out s" and "r \<notin> set (lg # rs)"
  shows "logged lg (rs @ [r]) (out @ [(logcount s + 1, m)]) (log_message lg r m s)"
proof -
  have ring: "ring (ptrs s) lg rs" using assms(1) by (simp add: logged_def)
  have "ring (rlist_push_back lg r (rlnode_new r (ptrs s))) lg (rs @ [] @ [r])"
    by (rule ring_push_back [OF rlnode_new_frame [OF ring assms(2)] ring_new]) (use assms(2) in auto)
  moreover have "list_all2 (\<lambda>x (n, t). node_num (log_message lg r m s) x = n \<and> message (log_message lg r m s) x = Some t) rs out"
  proof (rule list.rel_mono_strong)
    show "list_all2 (\<lambda>r (n, m). node_num s r = n \<and> message s r = Some m) rs out" using assms(1) by (simp add: logged_def)
  qed (use assms(2) in \<open>auto simp: log_message_def Let_def\<close>)
  ultimately show ?thesis by (auto simp: logged_def log_message_def Let_def intro!: list_all2_appendI)
qed

text \<open>The numbers of the next \<open>n\<close> records after number \<open>c\<close>.\<close>

fun numbers :: "u64 \<Rightarrow> nat \<Rightarrow> u64 list" where
  "numbers c 0 = []"
| "numbers c (Suc n) = (c + 1) # numbers (c + 1) n"

lemma numbers_nth: "i < n \<Longrightarrow> numbers c n ! i = c + of_nat (Suc i)"
  by (induction n arbitrary: c i) (auto simp: nth_Cons algebra_simps split: nat.splits)

lemma length_numbers [simp]: "length (numbers c n) = n"
  by (induction n arbitrary: c) simp_all

lemma numbers_zero: "numbers 0 n = map (\<lambda>i. of_nat (Suc i)) [0..<n]"
  by (rule nth_equalityI) (simp_all add: numbers_nth)

definition log_all :: "nat \<Rightarrow> (nat \<times> string) list \<Rightarrow> server_log \<Rightarrow> server_log" where
  "log_all lg ms s = fold (\<lambda>(r, m). log_message lg r m) ms s"

lemma log_all_simps [simp]: "log_all lg [] s = s" "log_all lg ((r, m) # ms) s = log_all lg ms (log_message lg r m s)"
  by (simp_all add: log_all_def)

lemma logged_messages:
  assumes "distinct (map fst ms)" and "logged lg rs out s" and "set (map fst ms) \<inter> set (lg # rs) = {}"
  shows "logged lg (rs @ map fst ms) (out @ zip (numbers (logcount s) (length ms)) (map snd ms)) (log_all lg ms s) \<and>
     (\<forall>x. x \<notin> set (map fst ms) \<longrightarrow> message (log_all lg ms s) x = message s x)"
  using assms
proof (induction ms arbitrary: rs out s)
  case Nil
  then show ?case by simp
next
  case (Cons rm ms)
  obtain r m where rm: "rm = (r, m)" by (cases rm)
  have 1: "logged lg (rs @ [r]) (out @ [(logcount s + 1, m)]) (log_message lg r m s)"
    by (rule logged_message [OF Cons.prems(2)]) (use Cons.prems(3) rm in auto)
  have 2: "logcount (log_message lg r m s) = logcount s + 1" "x \<noteq> r \<Longrightarrow> message (log_message lg r m s) x = message s x" for x
    by (simp_all add: log_message_def Let_def)
  have "distinct (map fst ms)" "set (map fst ms) \<inter> set (lg # rs @ [r]) = {}" using Cons.prems(1,3) rm by auto
  from Cons.IH [OF this(1) 1 this(2)] 2 show ?case by (simp add: rm)
qed

text \<open>Printing follows the ring.\<close>

lemma log_print_seg:
  "seg (ptrs s) a rs lg \<Longrightarrow> lg \<notin> set rs \<Longrightarrow> list_all2 (\<lambda>r (n, m). node_num s r = n \<and> message s r = Some m) rs out \<Longrightarrow>
     log_print_loop lg (nxt (ptrs s) a) acc s = Some (Inr (acc @ out))"
proof (induction rs arbitrary: a acc out)
  case Nil
  then show ?case by (simp add: log_print_loop.simps)
next
  case (Cons r rs)
  obtain n m out' where o: "out = (n, m) # out'" "node_num s r = n" "message s r = Some m"
    "list_all2 (\<lambda>r (n, m). node_num s r = n \<and> message s r = Some m) rs out'"
    using Cons.prems(3) by (auto simp: list_all2_Cons1)
  have "log_print_loop lg (nxt (ptrs s) r) (acc @ [(n, m)]) s = Some (Inr ((acc @ [(n, m)]) @ out'))"
    by (rule Cons.IH) (use Cons.prems o in auto)
  with Cons.prems o show ?case by (subst log_print_loop.simps) auto
qed

lemma log_print_logged: "logged lg rs out s \<Longrightarrow> log_print lg s = Some (Inr out)"
  using log_print_seg [of s lg rs lg out "[]"] by (auto simp: log_print_def logged_def ring_def)

text \<open>Freeing takes the records from the front of the list, and leaves other rings alone.\<close>

lemma log_free_ring:
  "ring (ptrs s) lst rs \<Longrightarrow> ring (ptrs s) lg [] \<Longrightarrow> lg \<notin> set (lst # rs) \<Longrightarrow> \<forall>r \<in> set rs. message s r \<noteq> None \<Longrightarrow>
     \<exists>s'. log_free_loop junk lst s = Some (Inr s') \<and> ring (ptrs s') lg [] \<and>
       (\<forall>x. message s' x = (if x \<in> set rs then None else message s x))"
proof (induction rs arbitrary: s)
  case Nil
  then show ?case by (simp add: log_free_loop.simps ring_def)
next
  case (Cons r rs)
  obtain x h where pop: "rlist_pop_front lst (ptrs s) = (x, h)" by fastforce
  note P = ring_pop_front [OF Cons.prems(1) pop]
  have f: "ring h lg []" using rlist_pop_front_frame [OF Cons.prems(2,1)] Cons.prems(3) pop by auto
  have d: "r \<notin> set (lst # rs)" using ring_distinct [OF Cons.prems(1)] by auto
  obtain m where m: "message s r = Some m" using Cons.prems(4) by auto
  let ?s = "s\<lparr>message := (message s)(r := None), ptrs := h(NextOf r := junk (NextOf r), PrevOf r := junk (PrevOf r))\<rparr>"
  have st: "free_record junk r (s\<lparr>ptrs := h\<rparr>) = Inr ?s" by (simp add: free_record_def derefE_def m)
  have 1: "ring (ptrs ?s) lst rs" by (rule ring_cong [OF P(2)]) (use d in auto)
  have 2: "ring (ptrs ?s) lg []" by (rule ring_cong [OF f]) (use Cons.prems(3) in auto)
  have "\<forall>r \<in> set rs. message ?s r \<noteq> None" using Cons.prems(4) d by auto
  from Cons.IH [OF 1 2 _ this] Cons.prems(3) obtain s' where s': "log_free_loop junk lst ?s = Some (Inr s')" "ring (ptrs s') lg []"
    "\<forall>x. message s' x = (if x \<in> set rs then None else message ?s x)" by auto
  have "nxt (ptrs s) lst \<noteq> lst" using ring_nxt [OF Cons.prems(1)] ring_distinct [OF Cons.prems(1)] by auto
  then have "log_free_loop junk lst s = log_free_loop junk lst ?s"
    by (subst log_free_loop.simps) (simp add: pop P(1) st)
  with s' show ?case by auto
qed

section \<open>The log\<close>

text \<open>
  C29: the log neither loses nor leaks messages. After any number of messages, whose records are fresh, printing shows all of
  them in the order in which their threads got the mutex, numbered from 1. Truncating ends, frees every
  record once, uses none after that, and leaves the log empty and all other memory as it was.
\<close>

theorem log_kept:
  assumes "distinct (lg # lst # map fst ms)"
  shows "log_print lg (log_all lg ms (log_init lg s)) = Some (Inr (zip (map (\<lambda>i. of_nat (Suc i)) [0..<length ms]) (map snd ms))) \<and>
     (\<exists>s'. log_truncate junk lg lst (log_all lg ms (log_init lg s)) = Some (Inr s') \<and> log_print lg s' = Some (Inr []) \<and>
        (\<forall>x. message s' x = (if x \<in> set (map fst ms) then None else message s x)))"
proof -
  let ?s = "log_all lg ms (log_init lg s)"
  have "logged lg ([] @ map fst ms) ([] @ zip (numbers (logcount (log_init lg s)) (length ms)) (map snd ms)) ?s \<and>
     (\<forall>x. x \<notin> set (map fst ms) \<longrightarrow> message ?s x = message (log_init lg s) x)"
    by (rule logged_messages [OF _ logged_init]) (use assms in auto)
  then have L: "logged lg (map fst ms) (zip (map (\<lambda>i. of_nat (Suc i)) [0..<length ms]) (map snd ms)) ?s"
    "\<And>x. x \<notin> set (map fst ms) \<Longrightarrow> message ?s x = message s x"
    by (simp_all add: numbers_zero log_init_def)
  let ?h = "rlnode_new lst (ptrs ?s)"
  have r: "ring ?h lg (map fst ms)"
    by (rule rlnode_new_frame) (use L(1) assms in \<open>auto simp: logged_def\<close>)
  note A = ring_append [OF ring_new r]
  have dis: "set [lst] \<inter> set (lg # map fst ms) = {}" using assms by auto
  let ?t = "?s\<lparr>ptrs := rlist_append lst lg ?h\<rparr>"
  have 1: "ring (ptrs ?t) lst (map fst ms)" using A(1) dis by simp
  have 2: "ring (ptrs ?t) lg []" using A(2) dis by simp
  have "message ?t x \<noteq> None" if "x \<in> set (map fst ms)" for x
  proof -
    from that obtain i where i: "i < length ms" "map fst ms ! i = x" by (metis in_set_conv_nth length_map)
    have "message ?s (map fst ms ! i) = Some (snd (ms ! i))" using L(1) i(1) by (simp add: logged_def list_all2_conv_all_nth)
    with i show ?thesis by simp
  qed
  then obtain s' where s': "log_free_loop junk lst ?t = Some (Inr s')" "ring (ptrs s') lg []"
    "\<forall>x. message s' x = (if x \<in> set (map fst ms) then None else message ?t x)"
    using log_free_ring [OF 1 2, of junk] assms by auto
  have "log_truncate junk lg lst ?s = Some (Inr s')" using s'(1) by (simp add: log_truncate_def Let_def)
  moreover have "log_print lg s' = Some (Inr [])" by (rule log_print_logged) (use s'(2) in \<open>simp add: logged_def\<close>)
  moreover have "\<forall>x. message s' x = (if x \<in> set (map fst ms) then None else message s x)" using s'(3) L(2) by auto
  ultimately show ?thesis using log_print_logged [OF L(1)] by blast
qed

theorem log_kept_witness:
  "log_print 1 (log_all 1 [(5, ''a''), (3, ''b'')] (log_init 1 \<lparr>ptrs = (\<lambda>_. 0), node_num = (\<lambda>_. 0), message = Map.empty, logcount = 9\<rparr>)) =
     Some (Inr [(1, ''a''), (2, ''b'')])"
  using log_kept [of 1 2 "[(5, ''a''), (3, ''b'')]"] by (simp add: numeral_2_eq_2)

end
