(* ===== verification/ProcInfo.thy ===== *)
theory ProcInfo
  imports Pipeline
begin

text \<open>
  Who runs what: \<^verbatim>\<open>ParseProcInfo\<close> of \<^verbatim>\<open>src/tinyoslib.c\<close>, which finds the arguments of a process in what
  \<^verbatim>\<open>OpenInfo\<close> tells about it, and the column of names of \<^verbatim>\<open>sysinfo\<close> in \<^verbatim>\<open>src/tinyos_shell.c\<close>.
\<close>

section \<open>The arguments of a process\<close>

text \<open>
  The result is the value returned and the strings that \<^verbatim>\<open>argv\<close> points to; \<open>wrap\<close> is the task \<^verbatim>\<open>exec_wrapper\<close>, and \<open>argv\<close> is
  \<open>None\<close> for a null pointer or the \<^verbatim>\<open>argc\<close> given for the array. \<^verbatim>\<open>*prog\<close> is never set.
\<close>

definition ParseProcInfo :: "nat \<Rightarrow> procinfo \<Rightarrow> int option \<Rightarrow> (int \<times> byte list list) res" where
  "ParseProcInfo wrap pinfo argv =
     (if info_main_task pinfo \<noteq> Some wrap then Inr (-1, [])
      else if info_argl pinfo > int PROCINFO_MAX_ARGS_SIZE then Inr (-1, [])
      else
        (let argl = sint (of_int (info_argl pinfo - int sizeof_ptr) :: u32); args = drop sizeof_ptr (info_args pinfo)
         in bindE (argscount argl args) (\<lambda>N.
            case argv of
              None \<Rightarrow> Inr (sint (of_nat N :: u32), [])
            | Some argc \<Rightarrow>
                (let n = (if unat (of_int argc :: u64) > N then N else unat (of_int argc :: u64))
                 in bindE (argvunpack n args) (\<lambda>(offs, _).
                    Inr (sint (of_nat N :: u32), map (\<lambda>a. cstring (drop a args)) offs))))))"

text \<open>The name that \<^verbatim>\<open>sysinfo\<close> prints for a process.\<close>

definition sysinfo_name :: "nat \<Rightarrow> procinfo \<Rightarrow> byte list res" where
  "sysinfo_name wrap info =
     bindE (ParseProcInfo wrap info (Some 10)) (\<lambda>(argc, argv).
     if argc \<ge> 1 then Inr (hd argv)
     else if argc = -1 \<and> info_pid info = 1 then Inr (bytes ''init'')
     else Inr (bytes ''-''))"

section \<open>The table of processes\<close>

text \<open>What a cell of the table says of process \<open>i\<close>.\<close>

definition tells :: "kernel \<Rightarrow> nat \<Rightarrow> procinfo \<Rightarrow> bool" where
  "tells k i x \<longleftrightarrow> info_pid x = int i \<and> info_ppid x = (case parent (PT k i) of None \<Rightarrow> 0 | Some q \<Rightarrow> int q) \<and>
     (info_alive x \<longleftrightarrow> pstate (PT k i) = ALIVE) \<and> info_thread_count x = thread_count (PT k i)"

lemma info_of_pcb_tells: "info_of_pcb user i k = Inr x \<Longrightarrow> tells k i x"
  by (auto simp: info_of_pcb_def tells_def Let_def elim!: bindE_elim)

lemma info_loop_table:
  assumes "info_loop user is count acc k = Inr tab" and "length acc + length (filter (\<lambda>i. pstate (PT k i) \<noteq> FREE) is) \<le> count"
    and "count \<le> unat (process_count k)"
  shows "\<exists>ys. tab = acc @ ys \<and> list_all2 (\<lambda>i x. info_of_pcb user i k = Inr x) (filter (\<lambda>i. pstate (PT k i) \<noteq> FREE) is) ys"
  using assms
proof (induction "is" arbitrary: acc)
  case Nil
  then show ?case by simp
next
  case (Cons i "is")
  show ?case
  proof (cases "pstate (PT k i) = FREE")
    case True
    show ?thesis
    proof (cases "length acc = count")
      case True
      then have "filter (\<lambda>i. pstate (PT k i) \<noteq> FREE) (i # is) = []" using Cons.prems(2) by simp
      moreover have "tab = acc" using Cons.prems(1) True by simp
      ultimately show ?thesis by (metis append_Nil2 list_all2_Nil)
    next
      case False
      then have "info_loop user is count acc k = Inr tab" using Cons.prems \<open>pstate (PT k i) = FREE\<close> by simp
      with Cons.IH [OF this] Cons.prems(2,3) True show ?thesis by simp
    qed
  next
    case False
    then have "\<not> (length acc = count \<or> length acc > unat (process_count k))" using Cons.prems(2,3) by simp
    with False Cons.prems(1) obtain x where x: "info_of_pcb user i k = Inr x" "info_loop user is count (acc @ [x]) k = Inr tab"
      by (auto elim!: bindE_elim)
    from Cons.IH [OF x(2)] Cons.prems(2,3) False obtain ys where
      "tab = acc @ x # ys" "list_all2 (\<lambda>i x. info_of_pcb user i k = Inr x) (filter (\<lambda>i. pstate (PT k i) \<noteq> FREE) is) ys" by auto
    with False x(1) show ?thesis by (intro exI [of _ "x # ys"]) simp
  qed
qed

text \<open>
  C25: \<^verbatim>\<open>OpenInfo\<close> lists the processes. When it succeeds, the table of the stream has one cell for each block that is not
  free, in the order of the pids, and no other cells; a cell has the pid of its process, the pid of its parent,
  whether it is alive, and its number of threads. For a process without a parent, which the first two processes always are, the
  cell says that the parent is process 0; \<^verbatim>\<open>tinyos.h\<close> documents \<^verbatim>\<open>NOPROC\<close> there, and the code does not do what it says.
\<close>

theorem open_info_lists_processes:
  assumes "tree_inv k" and "files_inv held k" and "CURPROC c k = Inr p" "p < MAX_PROC"
    and "sys_OpenInfo user c k = Inr (fd, k')" "fd \<noteq> NOFILE"
  shows "\<exists>i f a tab. fd = int i \<and> FIDT (PT k' p) i = Some f \<and> streamobj (FT k' f) = Info_obj a \<and> streamfunc (FT k' f) = Some Info_ops \<and>
     infos k' a = Some \<lparr>info_table = tab, info_index = of_nat (length tab)\<rparr> \<and>
     list_all2 (\<lambda>q x. tells k q x \<and> info_of_pcb user q k = Inr x) (filter (\<lambda>q. pstate (PT k q) \<noteq> FREE) [0..<MAX_PROC]) tab"
proof -
  from assms(5,6) obtain i f a tab k3 where E: "fd = int i" "FIDT (PT k' p) i = Some f"
    "streamobj (FT k' f) = Info_obj a" "streamfunc (FT k' f) = Some Info_ops"
    "infos k' a = Some \<lparr>info_table = tab @ replicate (unat (process_count k) - length tab) blank,
                         info_index = of_nat (length tab)\<rparr>"
    "info_loop user [0..<MAX_PROC] (unat (process_count k)) [] k3 = Inr tab" "same_tree k k3"
    "process_count k3 = process_count k" "\<forall>i. info_of_pcb user i k3 = info_of_pcb user i k"
    by (rule sys_OpenInfo_effect [OF assms(2-4)]) (rule that; assumption)
  let ?is = "filter (\<lambda>q. pstate (PT k q) \<noteq> FREE) [0..<MAX_PROC]"
  have st: "pstate (PT k3 q) = pstate (PT k q)" for q using E(7) by (simp add: same_tree_def)
  have n: "length ?is = unat (process_count k)" using tree_invD(8) [OF assms(1)] by (simp add: live_filter)
  then have tab: "list_all2 (\<lambda>q x. info_of_pcb user q k = Inr x) ?is tab"
    using info_loop_table [OF E(6)] E(8,9) by (simp add: st)
  then have "length tab = unat (process_count k)" using n list_all2_lengthD by fastforce
  moreover have "list_all2 (\<lambda>q x. tells k q x \<and> info_of_pcb user q k = Inr x) ?is tab"
    by (rule list_all2_mono [OF tab]) (simp add: info_of_pcb_tells)
  ultimately show ?thesis using E(1-5) by (intro exI [of _ i] exI [of _ f] exI [of _ a] exI [of _ tab]) simp
qed

lemma filter_below: "m \<le> n \<Longrightarrow> filter (\<lambda>q. q < m) [0..<n] = [0..<m]"
  by (induction n) (auto simp: le_Suc_eq)

theorem open_info_lists_processes_witness:
  "\<exists>k' a x y z. infos k' a = Some \<lparr>info_table = [x, y, z], info_index = 3\<rparr> \<and> map info_pid [x, y, z] = [0, 1, 2] \<and>
     (\<exists>i. sys_OpenInfo (\<lambda>_. []) 0 (procs_kernel FREE) = Inr (int i, k'))"
proof -
  obtain i k' where o: "sys_OpenInfo (\<lambda>_. []) 0 (procs_kernel FREE) = Inr (int i, k')"
    using open_info_runs by blast
  have n: "int i \<noteq> NOFILE" "(2::nat) < MAX_PROC" by (simp_all add: NOFILE_def MAX_PROC_def)
  have "pstate (PT (procs_kernel FREE) q) \<noteq> FREE \<longleftrightarrow> q < 3" for q by (auto simp: procs_sel)
  moreover have "filter (\<lambda>q. q < 3) [0..<MAX_PROC] = [0..<3]" by (rule filter_below) (simp add: MAX_PROC_def)
  ultimately have f: "filter (\<lambda>q. pstate (PT (procs_kernel FREE) q) \<noteq> FREE) [0..<MAX_PROC] = [0, 1, 2]"
    by (simp add: numeral_3_eq_3 numeral_2_eq_2)
  from open_info_lists_processes [OF procs_inv procs_files procs_proc(2) n(2) o n(1)] obtain a tab where
    "infos k' a = Some \<lparr>info_table = tab, info_index = of_nat (length tab)\<rparr>"
    "list_all2 (\<lambda>q x. tells (procs_kernel FREE) q x \<and> info_of_pcb (\<lambda>_. []) q (procs_kernel FREE) = Inr x) [0, 1, 2] tab"
    unfolding f by blast
  then obtain x y z where t: "tab = [x, y, z]" "tells (procs_kernel FREE) 0 x" "tells (procs_kernel FREE) 1 y" "tells (procs_kernel FREE) 2 z"
    unfolding list_all2_Cons1 list_all2_Nil by blast
  then have "map info_pid [x, y, z] = [0, 1, 2]" by (simp add: tells_def)
  moreover have "infos k' a = Some \<lparr>info_table = [x, y, z], info_index = 3\<rparr>"
    using \<open>infos k' a = Some \<lparr>info_table = tab, info_index = of_nat (length tab)\<rparr>\<close> t(1) by simp
  ultimately show ?thesis using o
    by (intro exI [of _ k'] exI [of _ a] exI [of _ x] exI [of _ y] exI [of _ z] conjI exI [of _ i])
qed

section \<open>What Execute leaves for ParseProcInfo\<close>

text \<open>
  C26: the arguments of a process can be found. A process that \<^verbatim>\<open>Execute\<close> has started with arguments that fit the
  128 bytes of \<^verbatim>\<open>procinfo\<close> appears in the table with its own pid, \<^verbatim>\<open>ParseProcInfo\<close> gives the number of
  its arguments and as many of them as there is room for, and \<^verbatim>\<open>sysinfo\<close> shows the name of its program. If its arguments are
  longer, filling the cell runs past the 128 bytes.
\<close>

theorem arguments_recovered:
  assumes "Execute e c cmd argv k = Inr (int q, k')" and "argv \<noteq> []" and "\<And>l. length (junk_bytes e l) = l" and "fits argv"
  shows "if length (packed (c_strings argv)) + sizeof_ptr \<le> PROCINFO_MAX_ARGS_SIZE
     then \<exists>x. info_of_pcb user q k' = Inr x \<and> tells k' q x \<and>
       (\<forall>n < 2 ^ 31. ParseProcInfo (wrapper e) x (Some (int n)) = Inr (int (length argv), take n (map cstring (c_strings argv)))) \<and>
       sysinfo_name (wrapper e) x = Inr (cstring (hd (c_strings argv)))
     else info_of_pcb user q k' = Inl Out_of_bounds"
proof -
  let ?s = "c_strings argv"
  let ?l = "length (packed ?s) + sizeof_ptr"
  let ?b = "ptr_bytes (prog_ptr e cmd) @ packed ?s"
  have l: "?l < 2 ^ 31" using assms(4) by (simp add: fits_def)
  have ends: "terminated ?s" by (auto simp: c_strings_def)
  have "Execute_args (junk_bytes e) (prog_ptr e cmd) (length argv) ?s = Inr (of_nat ?l, ?b)"
    using Execute_args_eq [of ?s "junk_bytes e" "prog_ptr e cmd"] assms(3) l ends by (simp add: c_strings_def)
  with sint_ucast [OF l] have "sys_Exec (old_tcb e) c (Some (wrapper e)) (int ?l) (Some (\<lambda>i. ?b ! i)) k = Inr (int q, k')"
    using assms(1) by (simp add: Execute_def)
  from sys_Exec_args [OF this] obtain a t where t: "main_thread (PT k' q) = Some a" "ptcbs k' a = Some t" "main_task t = Some (wrapper e)" "argl t = int ?l"
    "args t = Owned (map (\<lambda>i. ?b ! i) [0..<nat (int ?l)])"
    by auto
  have n: "nat (int ?l) = length ?b" by (simp only: nat_int length_append length_ptr_bytes add.commute)
  have "map (\<lambda>i. ?b ! i) [0..<nat (int ?l)] = ?b" unfolding n by (rule map_nth)
  then have bs: "args t = Owned ?b" using t(5) by simp
  show ?thesis
  proof (cases "?l \<le> PROCINFO_MAX_ARGS_SIZE")
    case False
    then have "info_args_of user (args t) (argl t) = Inl Out_of_bounds" by (simp add: info_args_of_def t(4) del: of_nat_add)
    with t(1,2) False show ?thesis by (simp add: info_of_pcb_def Let_def)
  next
    case True
    let ?pad = "replicate (PROCINFO_MAX_ARGS_SIZE - ?l) (0 :: byte)"
    have "info_args_of user (args t) (argl t) = Inr (?b @ ?pad)"
      using True by (simp add: info_args_of_def t(4) bs nat_int del: of_nat_add)
    then obtain x where x: "info_of_pcb user q k' = Inr x" "info_main_task x = Some (wrapper e)" "info_argl x = int ?l"
      "info_args x = ?b @ ?pad"
      using t by (simp add: info_of_pcb_def Let_def)
    have d: "drop sizeof_ptr (info_args x) = packed ?s @ ?pad" by (simp add: x(4))
    have sm: "length (packed ?s) < 2 ^ 31" using l by simp
    have al: "sint (of_int (int ?l - int sizeof_ptr) :: u32) = int (length (packed ?s))" using sint_small [OF sm] by simp
    have len: "length ?s = length argv" by (simp add: c_strings_def)
    have "length ?s \<le> length (packed ?s)" by (rule packed_length)
    then have sl: "sint (of_nat (length argv) :: u32) = int (length argv)" using l len by (intro sint_small) simp
    have parse: "ParseProcInfo (wrapper e) x (Some (int n)) = Inr (int (length argv), take n (map cstring ?s))" if "n < 2 ^ 31" for n
    proof -
      let ?ws = "take n ?s"
      have un: "unat (of_int (int n) :: u64) = n" using that by (simp add: unat_of_nat)
      have "packed ?s @ ?pad = packed ?ws @ (packed (drop n ?s) @ ?pad)"
        using packed_simps(3) [of ?ws "drop n ?s"] by simp
      moreover have "length ?ws < 2 ^ 31" using packed_length [of ?s] sm by simp
      ultimately obtain offs where o: "argvunpack (length ?ws) (packed ?s @ ?pad) = Inr (offs, length (packed ?ws))"
        "map (\<lambda>a. cstring (drop a (packed ?s @ ?pad))) offs = map cstring ?ws"
        using argvunpack_packed [of ?ws "packed (drop n ?s) @ ?pad"] by metis
      have m: "(if n > length argv then length argv else n) = length ?ws" using len by simp
      have c: "\<not> Some (wrapper e) \<noteq> Some (wrapper e)" "\<not> int ?l > int PROCINFO_MAX_ARGS_SIZE" using True by simp_all
      have "argscount (int (length (packed ?s))) (packed ?s @ ?pad) = Inr (length argv)"
        using argscount_packed [OF sm, of ?pad] len by simp
      then show ?thesis
        unfolding ParseProcInfo_def x(2,3) Let_def d al un if_not_P [OF c(1)] if_not_P [OF c(2)] option.case
        using o by (simp add: m sl take_map)
    qed
    have ne: "?s \<noteq> []" "1 \<le> int (length argv)" using assms(2) by (simp_all add: c_strings_def Suc_leI)
    then have "sysinfo_name (wrapper e) x = Inr (cstring (hd ?s))"
      using parse [of 10] by (cases ?s) (simp_all add: sysinfo_name_def)
    with x(1) parse info_of_pcb_tells [OF x(1)] True show ?thesis by auto
  qed
qed

theorem arguments_recovered_witness:
  "\<exists>q k' x. Execute \<lparr>old_tcb = example_tcb NORMAL_THREAD INIT CTX_CLEAN 0 0, junk_bytes = (\<lambda>n. replicate n 0),
       prog_ptr = of_int, wrapper = 3\<rparr> 0 5 [''hanoi'', ''4''] (shell_kernel 0) = Inr (int q, k') \<and>
     info_of_pcb (\<lambda>_. []) q k' = Inr x \<and> ParseProcInfo 3 x (Some 10) = Inr (2, [bytes ''hanoi'', bytes ''4'']) \<and>
     sysinfo_name 3 x = Inr (bytes ''hanoi'')"
proof -
  let ?e = "\<lparr>old_tcb = example_tcb NORMAL_THREAD INIT CTX_CLEAN 0 0, junk_bytes = (\<lambda>n. replicate n 0), prog_ptr = of_int, wrapper = 3\<rparr>"
  let ?a = "[''hanoi'', ''4'']"
  have s: "c_strings ?a = [bytes ''hanoi'' @ [0], bytes ''4'' @ [0]]" "map cstring (c_strings ?a) = [bytes ''hanoi'', bytes ''4'']"
    by (simp_all add: c_strings_def cstring_def bytes_def of_char_def)
  have l: "length (packed (c_strings ?a)) = 8" by (simp add: c_strings_def cstring_def bytes_def of_char_def)
  have ft: "fits ?a" by (simp add: fits_def l sizeof_ptr_def)
  have j: "length (junk_bytes ?e n) = n" for n by simp
  have d: "desk (\<lambda>_. 0) 0 2 0 (Suc 0) (shell_kernel 0)" using shell_desk [of 0] by (simp add: desk_def)
  obtain q k' where x: "Execute ?e 0 5 ?a (shell_kernel 0) = Inr (int q, k')"
    using Execute_step [OF d j ft, of 5] by blast
  have small: "length (packed (c_strings ?a)) + sizeof_ptr \<le> PROCINFO_MAX_ARGS_SIZE" by (simp add: l sizeof_ptr_def PROCINFO_MAX_ARGS_SIZE_def)
  from arguments_recovered [OF x _ j ft, of "\<lambda>_. []", unfolded if_P [OF small]] obtain y where
    y: "info_of_pcb (\<lambda>_. []) q k' = Inr y" "sysinfo_name 3 y = Inr (cstring (hd (c_strings ?a)))"
      "\<forall>n < 2 ^ 31. ParseProcInfo 3 y (Some (int n)) = Inr (int (length ?a), take n (map cstring (c_strings ?a)))" by auto
  have "ParseProcInfo 3 y (Some 10) = Inr (2, [bytes ''hanoi'', bytes ''4''])"
    using spec [OF y(3), of 10] by (simp add: s(2))
  moreover have "cstring (hd (c_strings ?a)) = bytes ''hanoi''" using s(2) by (simp add: s(1))
  ultimately show ?thesis using x y(1,2) by metis
qed

end
