(* ===== verification/SymposiumRun.thy ===== *)
theory SymposiumRun
  imports Symposium
begin

text \<open>
  The programs of \<^verbatim>\<open>src/symposium.c\<close> that hold a symposium: they set the table, start the philosophers as threads or
  as processes, wait for all of them, and clear the table. The table is a local variable that all philosophers use.
\<close>

section \<open>The programs\<close>

text \<open>
  Before the creation of philosopher \<open>i\<close>, waiting with the philosophers \<open>R\<close> already awaited, or past
  \<^verbatim>\<open>SymposiumTable_destroy\<close>. The calls that create a thread or process succeed.
\<close>

datatype driver = Starting nat | Awaiting "nat set" | Destroyed

fun started :: "nat \<Rightarrow> driver \<Rightarrow> nat" where
  "started n (Starting i) = i"
| "started n _ = n"

text \<open>
  Which philosopher the next wait can be for. \<^verbatim>\<open>ThreadJoin\<close> names it: they are joined in order.
  \<^verbatim>\<open>WaitChild\<close> with \<^verbatim>\<open>NOPROC\<close> gives any child that has not been awaited.
\<close>

definition join_next :: "nat set \<Rightarrow> nat \<Rightarrow> bool" where
  "join_next R k \<longleftrightarrow> k = card R"

definition wait_any :: "nat set \<Rightarrow> nat \<Rightarrow> bool" where
  "wait_any R k \<longleftrightarrow> k \<notin> R"

text \<open>A wait returns when its thread or process has ended, that is when its philosopher has left.\<close>

inductive drive :: "(nat set \<Rightarrow> nat \<Rightarrow> bool) \<Rightarrow> nat \<Rightarrow> nat \<Rightarrow>
    driver \<times> (nat \<Rightarrow> phil_pc) \<times> SymposiumTable \<Rightarrow> driver \<times> (nat \<Rightarrow> phil_pc) \<times> SymposiumTable \<Rightarrow> bool"
  for awaits n b where
  starts: "i < n \<Longrightarrow> drive awaits n b (Starting i, pcs, S) (Starting (Suc i), pcs, S)"
| all_started: "drive awaits n b (Starting n, pcs, S) (Awaiting {}, pcs, S)"
| awaits: "card R < n \<Longrightarrow> k < n \<Longrightarrow> awaits R k \<Longrightarrow> pcs k = Left \<Longrightarrow>
     drive awaits n b (Awaiting R, pcs, S) (Awaiting (insert k R), pcs, S)"
| destroys: "card R = n \<Longrightarrow> drive awaits n b (Awaiting R, pcs, S) (Destroyed, pcs, S)"
| philosopher: "i < started n d \<Longrightarrow> pcs i \<noteq> Left \<Longrightarrow> \<not> hungry S i \<Longrightarrow>
     SymposiumTable_philosopher n b i (pcs i) S = Inr (pc, S') \<Longrightarrow> drive awaits n b (d, pcs, S) (d, pcs(i := pc), S')"

definition drive_start :: "driver \<times> (nat \<Rightarrow> phil_pc) \<times> SymposiumTable" where
  "drive_start = (Starting 0, sym_start)"

section \<open>What the waits have in common\<close>

text \<open>
  \<open>ok R\<close> holds of the sets that can have been awaited. A wait is for a philosopher not yet awaited, and as long as one is left
  there is one to wait for.
\<close>

locale waits =
  fixes awaits :: "nat set \<Rightarrow> nat \<Rightarrow> bool" and ok :: "nat set \<Rightarrow> bool"
  assumes ok_empty: "ok {}"
    and ok_insert: "finite R \<Longrightarrow> ok R \<Longrightarrow> awaits R k \<Longrightarrow> k \<notin> R \<and> ok (insert k R)"
    and next_wait: "ok R \<Longrightarrow> R \<subseteq> {..<n} \<Longrightarrow> card R < n \<Longrightarrow> \<exists>k < n. awaits R k"
begin

definition drive_inv :: "nat \<Rightarrow> nat \<Rightarrow> driver \<times> (nat \<Rightarrow> phil_pc) \<times> SymposiumTable \<Rightarrow> bool" where
  "drive_inv n b = (\<lambda>(d, pcs, S). (sym_step n b)\<^sup>*\<^sup>* sym_start (pcs, S) \<and> (\<forall>i < n. bites_ok b (pcs i)) \<and>
     (case d of Starting i \<Rightarrow> i \<le> n | Awaiting R \<Rightarrow> ok R \<and> R \<subseteq> {k. k < n \<and> pcs k = Left} \<and> card R \<le> n
      | Destroyed \<Rightarrow> \<forall>k < n. pcs k = Left))"

definition drive_rank :: "nat \<Rightarrow> nat \<Rightarrow> driver \<times> (nat \<Rightarrow> phil_pc) \<times> SymposiumTable \<Rightarrow> nat" where
  "drive_rank n b = (\<lambda>(d, pcs, S). total_rank n b pcs +
     (case d of Starting i \<Rightarrow> (n - i) + n + 2 | Awaiting R \<Rightarrow> (n - card R) + 1 | Destroyed \<Rightarrow> 0))"

lemma inv_start: "drive_inv n b drive_start"
  by (simp add: drive_inv_def drive_start_def sym_start_def bites_ok_def)

lemma awaited_all: "R \<subseteq> {k. k < n \<and> pcs k = Left} \<Longrightarrow> card R = n \<Longrightarrow> \<forall>k < n. pcs k = Left"
proof -
  assume R: "R \<subseteq> {k. k < n \<and> pcs k = Left}" and c: "card R = n"
  have "R = {..<n}" by (rule card_subset_eq) (use R c in auto)
  with R show ?thesis by auto
qed

lemma drive_inv_step:
  assumes "drive awaits n b s s'" and "drive_inv n b s"
  shows "drive_inv n b s' \<and> drive_rank n b s' < drive_rank n b s"
  using assms
proof cases
  case (awaits R k pcs S)
  then have R: "ok R" "R \<subseteq> {k. k < n \<and> pcs k = Left}" "finite R"
    using assms(2) by (auto simp: drive_inv_def intro: finite_subset [of _ "{..<n}"])
  have "k \<notin> R" "ok (insert k R)" using ok_insert [OF R(3,1) awaits(5)] by blast+
  moreover from this have "card (insert k R) = Suc (card R)" using R(3) by simp
  ultimately show ?thesis
    using assms(2) awaits R by (simp add: drive_inv_def drive_rank_def)
next
  case (destroys R pcs S)
  then show ?thesis using assms(2) awaited_all [of R n pcs] by (simp add: drive_inv_def drive_rank_def)
next
  case (philosopher i d pcs S pc S')
  have I: "(sym_step n b)\<^sup>*\<^sup>* sym_start (pcs, S)" "\<forall>i < n. bites_ok b (pcs i)" using assms(2) philosopher(1) by (simp_all add: drive_inv_def)
  have "started n d \<le> n" using assms(2) philosopher(1) by (cases d) (simp_all add: drive_inv_def)
  with philosopher(3) have i: "i < n" by simp
  have st: "sym_step n b (pcs, S) (pcs(i := pc), S')" by (rule sym_step.step) (fact i philosopher(4-6))+
  have si: "sym_inv n (pcs, S)" by (rule sym_steps_inv [OF I(1) sym_start_inv])
  have "(sym_step n b)\<^sup>*\<^sup>* sym_start (pcs(i := pc), S')" using I(1) st by (rule rtranclp.rtrancl_into_rtrancl)
  moreover have "total_rank n b (pcs(i := pc)) < total_rank n b pcs" "\<forall>j < n. bites_ok b ((pcs(i := pc)) j)"
    using sym_step_rank [OF st si] I(2) by simp_all
  moreover have "R \<subseteq> {k. k < n \<and> (pcs(i := pc)) k = Left}" if "R \<subseteq> {k. k < n \<and> pcs k = Left}" for R
    using that philosopher(4) by auto
  moreover have "\<not> (\<forall>k < n. pcs k = Left)" using i philosopher(4) by blast
  ultimately show ?thesis
    using assms(2) philosopher(1,2) by (simp add: drive_inv_def drive_rank_def del: fun_upd_apply split: driver.splits)
qed (use assms(2) in \<open>auto simp: drive_inv_def drive_rank_def ok_empty\<close>)

lemma drive_run:
  "(drive awaits n b ^^ m) drive_start s \<Longrightarrow> drive_inv n b s \<and> m + drive_rank n b s \<le> drive_rank n b drive_start"
proof (induction m arbitrary: s)
  case 0
  then show ?case by (simp add: inv_start)
next
  case (Suc m)
  then obtain t where t: "(drive awaits n b ^^ m) drive_start t" "drive awaits n b t s" by auto
  from drive_inv_step [OF t(2)] Suc.IH [OF t(1)] show ?case by force
qed

lemma drive_progress:
  assumes "drive_inv n b (d, pcs, S)" and "d \<noteq> Destroyed" and "n \<le> 2 ^ 30"
  shows "\<exists>s'. drive awaits n b (d, pcs, S) s'"
proof (cases d)
  case (Starting i)
  show ?thesis
  proof (cases "i < n")
    case True
    with Starting show ?thesis using drive.starts by blast
  next
    case False
    then have "i = n" using assms(1) Starting by (simp add: drive_inv_def)
    with Starting show ?thesis using drive.all_started by blast
  qed
next
  case (Awaiting R)
  have R: "ok R" "R \<subseteq> {..<n}" "card R \<le> n" using assms(1) Awaiting by (auto simp: drive_inv_def)
  show ?thesis
  proof (cases "card R = n")
    case True
    with Awaiting show ?thesis using drive.destroys by blast
  next
    case False
    with R obtain k where k: "k < n" "awaits R k" using next_wait [OF R(1,2)] by auto
    show ?thesis
    proof (cases "pcs k = Left")
      case True
      with k False R(3) Awaiting show ?thesis using drive.awaits [of R n k awaits pcs b S] by auto
    next
      case False
      have "sym_inv n (pcs, S)" using assms(1) sym_steps_inv [OF _ sym_start_inv] by (auto simp: drive_inv_def)
      from sym_progress [OF this k(1) False assms(3)] obtain s' where "sym_step n b (pcs, S) s'" by blast
      then show ?thesis
      proof cases
        case (step i pc S')
        with Awaiting show ?thesis using drive.philosopher [of i n d pcs S b pc S' awaits] by auto
      qed
    qed
  qed
qed (use assms(2) in simp)

lemma symposium_run:
  assumes "(drive awaits n b ^^ m) drive_start (d, pcs, S)"
  shows "m \<le> n * (3 * b + 2) + 2 * n + 2 \<and> (sym_step n b)\<^sup>*\<^sup>* sym_start (pcs, S) \<and>
    (d = Destroyed \<longrightarrow> (\<forall>i < n. pcs i = Left)) \<and> (d = Destroyed \<or> (\<exists>s'. drive awaits n b (d, pcs, S) s') \<or> 2 ^ 30 < n)"
proof -
  note R = drive_run [OF assms]
  have "drive_rank n b drive_start = n * (3 * b + 2) + 2 * n + 2"
    by (simp add: drive_rank_def drive_start_def sym_start_def total_rank_def rank_def)
  moreover have "d = Destroyed \<or> (\<exists>s'. drive awaits n b (d, pcs, S) s') \<or> 2 ^ 30 < n"
    using drive_progress R by (metis not_le_imp_less)
  ultimately show ?thesis using R by (auto simp: drive_inv_def)
qed

end

interpretation threads: waits join_next "\<lambda>R. R = {..<card R}"
proof unfold_locales
  show "({} :: nat set) = {..<card ({} :: nat set)}" by simp
  show "k \<notin> R \<and> insert k R = {..<card (insert k R)}" if "finite R" "R = {..<card R}" "join_next R k" for R k
  proof -
    have k: "k = card R" using that(3) by (simp add: join_next_def)
    then have "k \<notin> R" using that(2) by (metis lessThan_iff less_irrefl)
    moreover have "insert k R = {..<Suc k}" using that(2) k by (metis lessThan_Suc)
    ultimately show ?thesis using that(1) k by simp
  qed
  show "\<exists>k < n. join_next R k" if "card R < n" for R n using that by (auto simp: join_next_def)
qed

interpretation processes: waits wait_any "\<lambda>_. True"
proof unfold_locales
  show "\<exists>k < n. wait_any R k" if "R \<subseteq> {..<n}" "card R < n" for R n
  proof -
    have "R \<noteq> {..<n}" using that(2) by auto
    with that(1) show ?thesis by (auto simp: wait_any_def)
  qed
qed (auto simp: wait_any_def)

section \<open>The symposium\<close>

text \<open>
  C11: a symposium ends, and the table is cleared only when nobody uses it. With philosophers as threads or as
  processes, and however they and the program that started them interleave, there are boundedly many steps, there is always a
  next step until the table has been cleared (of at most \<open>2 ^ 30\<close> philosophers: with more of them the sum of two
  indices may overflow), and then every philosopher has left. At any time, the table and
  the philosophers are in a state that philosophers who had all been there from the start can reach.
\<close>

theorem symposium_held:
  assumes "(drive awaits n b ^^ m) drive_start (d, pcs, S)" and "awaits = join_next \<or> awaits = wait_any"
  shows "m \<le> n * (3 * b + 2) + 2 * n + 2 \<and> (sym_step n b)\<^sup>*\<^sup>* sym_start (pcs, S) \<and>
    (d = Destroyed \<longrightarrow> (\<forall>i < n. pcs i = Left)) \<and> (d = Destroyed \<or> (\<exists>s'. drive awaits n b (d, pcs, S) s') \<or> 2 ^ 30 < n)"
  using assms(2)
proof
  assume "awaits = join_next"
  with assms(1) show ?thesis using threads.symposium_run by blast
next
  assume "awaits = wait_any"
  with assms(1) show ?thesis using processes.symposium_run by blast
qed

text \<open>A philosopher with no bites comes and goes, and its table is cleared.\<close>

theorem symposium_held_witness:
  "\<exists>pcs S. (drive join_next 1 0 ^^ 6) drive_start (Destroyed, pcs, S) \<and> pcs 0 = Left \<and> (6 :: nat) \<le> 1 * (3 * 0 + 2) + 2 * 1 + 2"
proof -
  let ?S1 = "set_state 0 THINKING SymposiumTable_init" and ?p1 = "(\<lambda>_. Arriving)(0 := Thinking 0)"
  let ?S2 = "set_state 0 NOTHERE ?S1" and ?p2 = "?p1(0 := Left)"
  have "drive join_next 1 0 drive_start (Starting 1, \<lambda>_. Arriving, SymposiumTable_init)"
    using drive.starts [of 0 1] by (simp add: drive_start_def sym_start_def)
  moreover have "drive join_next 1 0 (Starting 1, \<lambda>_. Arriving, SymposiumTable_init) (Starting 1, ?p1, ?S1)"
    by (rule drive.philosopher) (simp_all add: SymposiumTable_init_def SymposiumTable_philosopher_def)
  moreover have "drive join_next 1 0 (Starting 1, ?p1, ?S1) (Awaiting {}, ?p1, ?S1)" by (rule drive.all_started)
  moreover have "drive join_next 1 0 (Awaiting {}, ?p1, ?S1) (Awaiting {}, ?p2, ?S2)"
    by (rule drive.philosopher) (simp_all add: SymposiumTable_init_def SymposiumTable_philosopher_def)
  moreover have "drive join_next 1 0 (Awaiting {}, ?p2, ?S2) (Awaiting {0}, ?p2, ?S2)"
    by (rule drive.awaits) (simp_all add: join_next_def)
  moreover have "drive join_next 1 0 (Awaiting {0}, ?p2, ?S2) (Destroyed, ?p2, ?S2)" by (rule drive.destroys) simp
  ultimately have run: "(drive join_next 1 0 ^^ Suc (Suc (Suc (Suc (Suc (Suc 0)))))) drive_start (Destroyed, ?p2, ?S2)"
    by (auto intro!: relcomppI)
  then have r6: "(drive join_next 1 0 ^^ 6) drive_start (Destroyed, ?p2, ?S2)" by (simp add: eval_nat_numeral)
  from symposium_held [OF r6] show ?thesis using r6 by (intro exI [of _ ?p2] exI [of _ ?S2] conjI) simp_all
qed

end
