(* ===== verification/PipeWait.thy ===== *)
theory PipeWait
  imports Pipe
begin

text \<open>
  Waiting on pipes: the calls of \<^verbatim>\<open>src/kernel_pipe.c\<close> together with \<^verbatim>\<open>kernel_wait\<close> of \<^verbatim>\<open>src/kernel_cc.c\<close>, which puts
  the caller on the ring of a condition. No wake-up is lost: a thread is on a ring only while what it waits for is not the case.
\<close>

section \<open>What the condition variables do to the rings\<close>

lemma cv_signal_loop_rings:
  "cv_signal_loop cv ws s = Inr s' \<Longrightarrow> waitset s cv = ws \<Longrightarrow>
     (\<exists>us. ws = us @ waitset s' cv \<and> (ws \<noteq> [] \<longrightarrow> us \<noteq> [])) \<and> (\<forall>x. x \<noteq> cv \<longrightarrow> waitset s' x = waitset s x)"
proof (induction ws arbitrary: s)
  case Nil
  then show ?case by simp
next
  case (Cons w ws)
  define s1 where "s1 = set_waiter w (\<lambda>r. r\<lparr>removed := True\<rparr>) (s\<lparr>waitset := (waitset s)(cv := ws)\<rparr>)"
  from Cons.prems(1) have "\<exists>r :: waiter. bindE (wakeup (wthread r) (sch s1)) (\<lambda>(woken, sc).
      if woken then Inr (set_waiter w (\<lambda>r. r\<lparr>signalled := True\<rparr>) (s1\<lparr>sch := sc\<rparr>)) else cv_signal_loop cv ws (s1\<lparr>sch := sc\<rparr>)) = Inr s'"
    unfolding cv_signal_loop.simps Let_def s1_def by (rule bindE_elim) (rule exI)
  then obtain woken sc where
    go: "(if woken then Inr (set_waiter w (\<lambda>r. r\<lparr>signalled := True\<rparr>) (s1\<lparr>sch := sc\<rparr>)) else cv_signal_loop cv ws (s1\<lparr>sch := sc\<rparr>)) = Inr s'"
    by (elim exE bindE_elim2)
  have s1: "waitset s1 cv = ws" "x \<noteq> cv \<Longrightarrow> waitset s1 x = waitset s x" for x by (simp_all add: s1_def set_waiter_def)
  show ?case
  proof (cases woken)
    case True
    then have "waitset s' = waitset s1" using go by (auto simp: set_waiter_def)
    then show ?thesis using s1 by (intro conjI exI [of _ "[w]"]) simp_all
  next
    case False
    then have "cv_signal_loop cv ws (s1\<lparr>sch := sc\<rparr>) = Inr s'" using go by simp
    note ih = Cons.IH [OF this]
    have ws: "waitset (s1\<lparr>sch := sc\<rparr>) x = waitset s1 x" for x by simp
    from ih s1(1) obtain us where us: "ws = us @ waitset s' cv" "\<forall>x. x \<noteq> cv \<longrightarrow> waitset s' x = waitset s1 x"
      unfolding ws by blast
    have "w # ws = (w # us) @ waitset s' cv" using arg_cong [OF us(1), of "(#) w"] by simp
    with us(2) s1(2) show ?thesis by (metis list.distinct(1))
  qed
qed

lemma cv_signal_rings:
  assumes "cv_signal cv s = Inr s'"
  shows "\<exists>us. waitset s cv = us @ waitset s' cv \<and> (waitset s cv \<noteq> [] \<longrightarrow> us \<noteq> [])" and "x \<noteq> cv \<Longrightarrow> waitset s' x = waitset s x"
  using cv_signal_loop_rings [of cv "waitset s cv" s s'] assms by (auto simp: cv_signal_def)

lemma broadcast_loop_rings:
  "broadcast_loop n cv s = Inr s' \<Longrightarrow> waitset s' cv = [] \<and> (\<forall>x. x \<noteq> cv \<longrightarrow> waitset s' x = waitset s x)"
proof (induction n arbitrary: s)
  case 0
  then show ?case by (auto simp: broadcast_loop.simps split: if_splits)
next
  case (Suc n)
  show ?case
  proof (cases "waitset s cv = []")
    case True
    with Suc.prems show ?thesis by (simp add: broadcast_loop.simps)
  next
    case False
    then obtain t where t: "cv_signal cv s = Inr t" "broadcast_loop n cv t = Inr s'"
      using Suc.prems by (subst (asm) broadcast_loop.simps) (auto elim!: bindE_elim)
    from Suc.IH [OF t(2)] cv_signal_rings(2) [OF t(1)] show ?thesis by simp
  qed
qed

lemma Cond_Broadcast_rings:
  "Cond_Broadcast cv s = Inr s' \<Longrightarrow> waitset s' x = (if x = cv then [] else waitset s x)"
  using broadcast_loop_rings [of "length (waitset s cv)" cv s s'] by (simp add: Cond_Broadcast_def)

lemma Cond_Signal_rings:
  "Cond_Signal cv s = Inr s' \<Longrightarrow> set (waitset s' x) \<subseteq> set (waitset s x)"
  using cv_signal_rings(1) [of cv s s'] cv_signal_rings(2) [of cv s s' x] by (cases "x = cv") (auto simp: Cond_Signal_def)

lemma cv_wait_enter_rings:
  "cv_wait_enter c w cv t s = Inr s' \<Longrightarrow> waitset s' x = (if x = cv then waitset s x @ [w] else waitset s x)"
  by (auto simp: cv_wait_enter_def Let_def elim!: bindE_elim)

lemma kernel_wait_rings:
  assumes "kernel_wait_enter c w cv t s = Inr s'" and "x \<noteq> Kernel_sem_cv"
  shows "waitset s' x = (if x = cv then waitset s x @ [w] else waitset s x)"
proof -
  obtain u where "kernel_unlock s = Inr u" "cv_wait_enter c w cv t u = Inr s'"
    using assms(1) by (auto simp: kernel_wait_enter_def elim!: bindE_elim)
  then show ?thesis
    using cv_wait_enter_rings [of c w cv t u s' x] cv_signal_rings(2) [of Kernel_sem_cv "s\<lparr>kernel_sem := kernel_sem s + 1\<rparr>" u x] assms(2)
    by (auto simp: kernel_unlock_def Cond_Signal_def)
qed

lemma cv_wait_resume_rings: "cv_wait_resume w cv s = Inr (b, s') \<Longrightarrow> set (waitset s' x) \<subseteq> set (waitset s x)"
  by (auto simp: cv_wait_resume_def remove_from_ring_def elim!: bindE_elim split: if_splits)

section \<open>Readers and writers that sleep\<close>

text \<open>
  Calls on one pipe, by any number of threads on any core \<open>c\<close>, where a call that waits enters the ring of its condition with a
  waiter \<open>w\<close>. A thread that comes back from a wait goes on with its call. Other code does not touch the
  pipe, and does not enter its rings.
\<close>

inductive wait_step :: "nat \<Rightarrow> kernel \<Rightarrow> kernel \<Rightarrow> bool" for a where
  reads: "pipe_read a sz k = Inr (Done x, k') \<Longrightarrow> wait_step a k k'"
| read_sleeps: "pipe_read a sz k = Inr (Wait cv cause t pc, k1) \<Longrightarrow> kernel_wait_enter c w cv t (cc k1) = Inr s \<Longrightarrow>
     wait_step a k (k1\<lparr>cc := s\<rparr>)"
| writes: "pipe_write a buf sz k = Inr (Done n, k') \<Longrightarrow> wait_step a k k'"
| write_sleeps: "pipe_write a buf sz k = Inr (Wait cv cause t pc, k1) \<Longrightarrow> kernel_wait_enter c w cv t (cc k1) = Inr s \<Longrightarrow>
     wait_step a k (k1\<lparr>cc := s\<rparr>)"
| goes_on: "pipe_write_resume a buf sz k = Inr (Done n, k') \<Longrightarrow> wait_step a k k'"
| sleeps_again: "pipe_write_resume a buf sz k = Inr (Wait cv cause t pc, k1) \<Longrightarrow> kernel_wait_enter c w cv t (cc k1) = Inr s \<Longrightarrow>
     wait_step a k (k1\<lparr>cc := s\<rparr>)"
| closes_writer: "writer_close (Some a) k = Inr (n, k') \<Longrightarrow> wait_step a k k'"
| closes_reader: "reader_close (Some a) k = Inr (n, k') \<Longrightarrow> wait_step a k k'"
| comes_back: "cv_wait_resume w cv (cc k) = Inr (b, s) \<Longrightarrow> wait_step a k (k\<lparr>cc := s\<rparr>)"
| other: "pipes k' a = pipes k a \<Longrightarrow>
     (\<forall>cv \<in> {Pipe_has_data a, Pipe_has_space a}. set (waitset (cc k') cv) \<subseteq> set (waitset (cc k) cv)) \<Longrightarrow> wait_step a k k'"

text \<open>The threads on the rings of the pipe wait for something that is not the case.\<close>

definition wait_inv :: "nat \<Rightarrow> kernel \<Rightarrow> bool" where
  "wait_inv a k \<longleftrightarrow>
     (case pipes k a of
        None \<Rightarrow> waitset (cc k) (Pipe_has_data a) = [] \<and> waitset (cc k) (Pipe_has_space a) = []
      | Some p \<Rightarrow> pipe_inv p \<and> \<not> reader_closed p \<and>
          (waitset (cc k) (Pipe_has_data a) \<noteq> [] \<longrightarrow> contents p = [] \<and> \<not> writer_closed p) \<and>
          (waitset (cc k) (Pipe_has_space a) \<noteq> [] \<longrightarrow> used p = BUFF_SIZE))"

lemma wait_inv_Some:
  "pipes k a = Some p \<Longrightarrow> wait_inv a k \<longleftrightarrow> pipe_inv p \<and> \<not> reader_closed p \<and>
     (waitset (cc k) (Pipe_has_data a) \<noteq> [] \<longrightarrow> contents p = [] \<and> \<not> writer_closed p) \<and>
     (waitset (cc k) (Pipe_has_space a) \<noteq> [] \<longrightarrow> used p = BUFF_SIZE)"
  by (simp add: wait_inv_def)

lemma wait_inv_sub:
  assumes "wait_inv a k" "pipes k' a = pipes k a"
    "\<And>cv. cv \<in> {Pipe_has_data a, Pipe_has_space a} \<Longrightarrow> set (waitset (cc k') cv) \<subseteq> set (waitset (cc k) cv)"
  shows "wait_inv a k'"
proof -
  have "waitset (cc k') cv \<noteq> [] \<Longrightarrow> waitset (cc k) cv \<noteq> []" if "cv \<in> {Pipe_has_data a, Pipe_has_space a}" for cv
    using assms(3) [OF that] by auto
  then show ?thesis using assms(1,2) unfolding wait_inv_def by (auto split: option.splits)
qed

lemma full_iff: "pipe_inv p \<Longrightarrow> read_p p = write_p p \<and> available_space p = 0 \<longleftrightarrow> used p = BUFF_SIZE"
proof -
  assume inv: "pipe_inv p"
  have "used p = BUFF_SIZE \<longleftrightarrow> unat (available_space p) = 0"
    using BUFF_SIZE_pos inv unfolding used_def pipe_inv_def by linarith
  then have "used p = BUFF_SIZE \<longleftrightarrow> available_space p = 0" by (simp add: unat_eq_zero)
  moreover have "read_p p = write_p p" if "used p = BUFF_SIZE"
    using inv that by (simp add: pipe_inv_def word_unat_eq_iff)
  ultimately show ?thesis by blast
qed

lemma empty_not_full: "contents p = [] \<Longrightarrow> used p \<noteq> BUFF_SIZE"
  using length_contents [of p] by (metis BUFF_SIZE_pos less_irrefl list.size(3))

text \<open>A read waits exactly on an empty pipe with a writer; otherwise it takes what there is, and wakes the writers.\<close>

lemma pipe_read_cases:
  assumes "pipe_read a sz k = Inr (out, k')" and "pipes k a = Some p" and "pipe_inv p"
  shows "(contents p = [] \<and> k' = k \<and> out = (if writer_closed p then Done (0, []) else Wait (Pipe_has_data a) SCHED_PIPE NO_TIMEOUT ())) \<or>
     (contents p \<noteq> [] \<and> (\<exists>x p'. out = Done x \<and> pipes k' a = Some p' \<and> pipe_inv p' \<and> reader_closed p' = reader_closed p \<and>
        writer_closed p' = writer_closed p) \<and>
        (\<forall>cv. waitset (cc k') cv = (if cv = Pipe_has_space a then [] else waitset (cc k) cv)))"
proof (cases "contents p = []")
  case True
  then show ?thesis using assms(1,2) empty_iff [OF assms(3)] by (auto simp: pipe_read_def split: if_splits)
next
  case False
  obtain rp n bs where loop: "pipe_read_loop (unat (of_nat BUFF_SIZE - available_space p)) sz p (read_p p) 0 = (rp, n, bs)"
    by (metis prod_cases3)
  note T = take_data [OF assms(3) loop]
  have ne: "\<not> (read_p p = write_p p \<and> available_space p = of_nat BUFF_SIZE)" using empty_iff [OF assms(3)] False by simp
  have "0 < used p" using False length_contents [of p] by (cases "contents p") auto
  then have n: "n \<noteq> 0" using T(3) span_of_pos [of "used p" sz] by auto
  let ?k = "upd_pipe a (\<lambda>p. p\<lparr>read_p := rp, available_space := available_space p + n\<rparr>) k"
  obtain s where s: "Cond_Broadcast (Pipe_has_space a) (cc k) = Inr s" "k' = ?k\<lparr>cc := s\<rparr>" "out = Done (int (unat n), bs)"
    using assms(1,2) ne loop n by (auto simp: pipe_read_def Let_def on_cc_def upd_pipe_def elim!: bindE_elim)
  have "pipes k' a = Some (p\<lparr>read_p := rp, available_space := available_space p + n\<rparr>)" using assms(2) by (simp add: s(2) upd_pipe_def)
  with T(1) s False Cond_Broadcast_rings [OF s(1)] show ?thesis by auto
qed

lemma pipe_write_resume_cases:
  assumes "pipe_write_resume a buf sz k = Inr (out, k')" and "pipes k a = Some p" and "pipe_inv p"
  shows "(used p = BUFF_SIZE \<and> k' = k \<and> out = Wait (Pipe_has_space a) SCHED_PIPE NO_TIMEOUT ()) \<or>
     (used p \<noteq> BUFF_SIZE \<and> (\<exists>n p'. out = Done n \<and> pipes k' a = Some p' \<and> pipe_inv p' \<and> reader_closed p' = reader_closed p) \<and>
        (\<forall>cv. waitset (cc k') cv = (if cv = Pipe_has_data a then [] else waitset (cc k) cv)))"
proof (cases "used p = BUFF_SIZE")
  case True
  then show ?thesis using assms(1,2) full_iff [OF assms(3)] by (auto simp: pipe_write_resume_def)
next
  case False
  obtain b wp n where loop: "pipe_write_loop (unat (available_space p)) sz buf 0 (buffer p) (write_p p) 0 = (b, wp, n)"
    by (metis prod_cases3)
  note T = put_data [OF assms(3) loop]
  have ne: "\<not> (read_p p = write_p p \<and> available_space p = 0)" using full_iff [OF assms(3)] False by simp
  have "0 < unat (available_space p)"
    using False assms(3) by (auto simp: used_def pipe_inv_def)
  then have "unat n \<noteq> 0" using T(3) span_of_pos [of "unat (available_space p)" sz] by linarith
  then have n: "0 < n" by (metis unat_0 word_gt_0)
  let ?p = "p\<lparr>buffer := b, write_p := wp, available_space := available_space p - n\<rparr>"
  obtain s where s: "Cond_Broadcast (Pipe_has_data a) (cc k) = Inr s" "cc k' = s" "out = Done (int (unat n))" "pipes k' a = Some ?p"
    using assms(1,2) ne loop n by (auto simp: pipe_write_resume_def Let_def on_cc_def upd_pipe_def elim!: bindE_elim)
  with T(1) False Cond_Broadcast_rings [OF s(1)] show ?thesis by auto
qed

lemma sleep_rings:
  "kernel_wait_enter c w cv t (cc k) = Inr s \<Longrightarrow> x \<in> {Pipe_has_data a, Pipe_has_space a} \<Longrightarrow>
     waitset s x = (if x = cv then waitset (cc k) x @ [w] else waitset (cc k) x)"
  by (rule kernel_wait_rings) auto

lemma wait_step_inv:
  assumes "wait_step a k k'" and inv: "wait_inv a k"
  shows "wait_inv a k'"
  using assms(1)
proof cases
  case (reads sz x)
  then obtain p where p: "pipes k a = Some p" by (auto simp: pipe_read_def derefE_def elim!: bindE_elim split: option.splits)
  note I = inv [unfolded wait_inv_Some [OF p]]
  from pipe_read_cases [OF reads p] I inv show ?thesis by (auto simp: wait_inv_Some)
next
  case (read_sleeps sz cv cause t pc k1 c w s)
  then obtain p where p: "pipes k a = Some p" by (auto simp: pipe_read_def derefE_def elim!: bindE_elim split: option.splits)
  note I = inv [unfolded wait_inv_Some [OF p]]
  from pipe_read_cases [OF read_sleeps(2) p] I have q: "contents p = []" "k1 = k" "cv = Pipe_has_data a" "\<not> writer_closed p"
    by (auto split: if_splits)
  then show ?thesis
    using sleep_rings [OF read_sleeps(3)] I p by (simp add: wait_inv_def read_sleeps(1) q)
next
  case (writes buf sz n)
  then obtain p where p: "pipes k a = Some p" by (auto simp: pipe_write_def derefE_def elim!: bindE_elim split: option.splits)
  note I = inv [unfolded wait_inv_Some [OF p]]
  have "pipe_write_resume a buf sz k = Inr (Done n, k')" using writes p I by (simp add: pipe_write_def)
  from pipe_write_resume_cases [OF this p] I show ?thesis by (auto simp: wait_inv_Some)
next
  case (write_sleeps buf sz cv cause t pc k1 c w s)
  then obtain p where p: "pipes k a = Some p" by (auto simp: pipe_write_def derefE_def elim!: bindE_elim split: option.splits)
  note I = inv [unfolded wait_inv_Some [OF p]]
  have "pipe_write_resume a buf sz k = Inr (Wait cv cause t pc, k1)" using write_sleeps p I by (simp add: pipe_write_def)
  from pipe_write_resume_cases [OF this p] I have q: "used p = BUFF_SIZE" "k1 = k" "cv = Pipe_has_space a" by auto
  then show ?thesis
    using sleep_rings [OF write_sleeps(3)] I p by (simp add: wait_inv_def write_sleeps(1) q)
next
  case (goes_on buf sz n)
  then obtain p where p: "pipes k a = Some p" by (auto simp: pipe_write_resume_def derefE_def elim!: bindE_elim split: option.splits)
  note I = inv [unfolded wait_inv_Some [OF p]]
  from pipe_write_resume_cases [OF goes_on p] I show ?thesis by (auto simp: wait_inv_Some)
next
  case (sleeps_again buf sz cv cause t pc k1 c w s)
  then obtain p where p: "pipes k a = Some p" by (auto simp: pipe_write_resume_def derefE_def elim!: bindE_elim split: option.splits)
  note I = inv [unfolded wait_inv_Some [OF p]]
  from pipe_write_resume_cases [OF sleeps_again(2) p] I have q: "used p = BUFF_SIZE" "k1 = k" "cv = Pipe_has_space a" by auto
  then show ?thesis
    using sleep_rings [OF sleeps_again(3)] I p by (simp add: wait_inv_def sleeps_again(1) q)
next
  case (closes_writer n)
  then obtain p where p: "pipes k a = Some p" by (auto simp: writer_close_def derefE_def elim!: bindE_elim split: option.splits)
  note I = inv [unfolded wait_inv_Some [OF p]]
  show ?thesis
  proof (cases "writer_closed p")
    case True
    then show ?thesis using closes_writer p inv by (simp add: writer_close_def)
  next
    case False
    then obtain s where s: "Cond_Broadcast (Pipe_has_data a) (cc k) = Inr s" "cc k' = s" "pipes k' a = Some (p\<lparr>writer_closed := True\<rparr>)"
      using closes_writer p by (auto simp: writer_close_def on_cc_def upd_pipe_def elim!: bindE_elim)
    have "pipe_inv (p\<lparr>writer_closed := True\<rparr>)" "used (p\<lparr>writer_closed := True\<rparr>) = used p" using I by (simp_all add: pipe_inv_def used_def)
    with I Cond_Broadcast_rings [OF s(1)] show ?thesis by (simp add: wait_inv_Some [OF s(3)] s(2))
  qed
next
  case (closes_reader n)
  then obtain p where p: "pipes k a = Some p" by (auto simp: reader_close_def derefE_def elim!: bindE_elim split: option.splits)
  note I = inv [unfolded wait_inv_Some [OF p]]
  obtain s m k2 where s: "Cond_Broadcast (Pipe_has_space a) (cc k) = Inr s"
    "writer_close (Some a) (upd_pipe a (\<lambda>p. p\<lparr>reader_closed := True\<rparr>) k\<lparr>cc := s\<rparr>) = Inr (m, k2)" "k' = free_pipe a k2"
    using closes_reader p I by (auto simp: reader_close_def on_cc_def upd_pipe_def elim!: bindE_elim)
  have "waitset (cc k2) (Pipe_has_data a) = [] \<and> waitset (cc k2) (Pipe_has_space a) = []"
  proof (cases "writer_closed p")
    case True
    then have "cc k2 = s" using s(2) p by (auto simp: writer_close_def upd_pipe_def)
    with True I Cond_Broadcast_rings [OF s(1)] show ?thesis by auto
  next
    case False
    then obtain u where "Cond_Broadcast (Pipe_has_data a) s = Inr u" "cc k2 = u"
      using s(2) p by (auto simp: writer_close_def on_cc_def upd_pipe_def elim!: bindE_elim)
    with Cond_Broadcast_rings [OF s(1)] show ?thesis using Cond_Broadcast_rings [of "Pipe_has_data a" s u] by simp
  qed
  then show ?thesis by (simp add: s(3) wait_inv_def free_pipe_def)
next
  case (comes_back w cv b s)
  show ?thesis by (rule wait_inv_sub [OF inv]) (use cv_wait_resume_rings [OF comes_back(2)] comes_back(1) in auto)
next
  case other
  show ?thesis by (rule wait_inv_sub [OF inv]) (use other in auto)
qed

text \<open>
  C23: no wake-up on a pipe is lost. In every interleaving of reads, writes, waits, wake-ups and closings, a thread on
  the ring of \<^verbatim>\<open>has_data\<close> waits for a pipe that is empty and has a writer, one on the ring of \<^verbatim>\<open>has_space\<close> for a
  pipe that is full and has a reader, and nobody waits for a pipe that has been freed. So readers and writers never sleep at
  the same time, no writer has to wait while readers sleep, and no reader while writers sleep.
\<close>

theorem no_lost_wakeup:
  assumes "(wait_step a)\<^sup>*\<^sup>* k0 k" and "pipes k0 a = Some p0" and "pipe_inv p0" and "\<not> reader_closed p0"
    and "waitset (cc k0) (Pipe_has_data a) = []" and "waitset (cc k0) (Pipe_has_space a) = []"
  shows "(waitset (cc k) (Pipe_has_data a) \<noteq> [] \<longrightarrow> (\<exists>p. pipes k a = Some p \<and> contents p = [] \<and> \<not> writer_closed p) \<and>
       waitset (cc k) (Pipe_has_space a) = [] \<and> (\<forall>buf sz cv cause t pc k'. pipe_write a buf sz k \<noteq> Inr (Wait cv cause t pc, k'))) \<and>
     (waitset (cc k) (Pipe_has_space a) \<noteq> [] \<longrightarrow> (\<exists>p. pipes k a = Some p \<and> length (contents p) = BUFF_SIZE \<and> \<not> reader_closed p) \<and>
       (\<forall>sz cv cause t pc k'. pipe_read a sz k \<noteq> Inr (Wait cv cause t pc, k')))"
proof -
  have "wait_inv a k0" using assms(2-6) by (simp add: wait_inv_def)
  with assms(1) have inv: "wait_inv a k" by (induction rule: rtranclp_induct) (auto intro: wait_step_inv)
  show ?thesis
  proof (cases "pipes k a")
    case None
    with inv show ?thesis by (simp add: wait_inv_def)
  next
    case (Some p)
    note I = inv [unfolded wait_inv_Some [OF Some]]
    have w: "pipe_write a buf sz k \<noteq> Inr (Wait cv cause t pc, k')" if "contents p = []" for buf sz cv cause t pc k'
      using pipe_write_resume_cases [OF _ Some, of buf sz "Wait cv cause t pc" k'] I Some empty_not_full [OF that] by (auto simp: pipe_write_def)
    have r: "pipe_read a sz k \<noteq> Inr (Wait cv cause t pc, k')" if "used p = BUFF_SIZE" for sz cv cause t pc k'
      using pipe_read_cases [OF _ Some, of sz "Wait cv cause t pc" k'] I that empty_not_full [of p] by auto
    show ?thesis using I Some w r empty_not_full [of p] by auto
  qed
qed

text \<open>A new pipe, and a reader that goes to sleep on it.\<close>

theorem no_lost_wakeup_witness:
  "\<exists>s p. wait_step 1 (snd (get_pipe piped_kernel)) (snd (get_pipe piped_kernel)\<lparr>cc := s\<rparr>) \<and> waitset s (Pipe_has_data 1) = [8] \<and>
     pipes (snd (get_pipe piped_kernel)) 1 = Some p \<and> contents p = [] \<and> \<not> writer_closed p"
proof -
  let ?k = "snd (get_pipe piped_kernel)"
  let ?p = "\<lparr>buffer = (\<lambda>_. 0), write_p = 0, read_p = 0, available_space = of_nat BUFF_SIZE,
     reader_closed = False, writer_closed = False\<rparr>"
  have p: "pipes ?k 1 = Some ?p" "cc ?k = example_cc"
    by (simp_all add: get_pipe_def malloc_def piped_kernel_def example_kernel_def)
  have i: "pipe_inv ?p" "\<not> reader_closed ?p" by (simp_all add: pipe_inv_def used_def)
  have r: "pipe_read 1 5 ?k = Inr (Wait (Pipe_has_data 1) SCHED_PIPE NO_TIMEOUT (), ?k)"
    using p(1) by (simp add: pipe_read_def derefE_def)
  obtain s where s: "kernel_wait_enter 0 8 (Pipe_has_data 1) NO_TIMEOUT (cc ?k) = Inr s"
    by (simp add: p(2) kernel_wait_enter_def kernel_unlock_def Cond_Signal_def cv_signal_def cv_wait_enter_def sleep_enter_def
      sched_register_timeout_def Let_def)
  have st: "wait_step 1 ?k (?k\<lparr>cc := s\<rparr>)" by (rule read_sleeps [OF r s])
  have w: "waitset s (Pipe_has_data 1) = [8]" using kernel_wait_rings [OF s] by (simp add: p(2))
  have "waitset (cc ?k) (Pipe_has_data 1) = []" "waitset (cc ?k) (Pipe_has_space 1) = []" by (simp_all add: p(2))
  from no_lost_wakeup [OF r_into_rtranclp [of "wait_step 1", OF st] p(1) i this] w st show ?thesis by auto
qed

end
