(* ===== verification/SocketWait.thy ===== *)
theory SocketWait
  imports Socket
begin

text \<open>
  What can happen to a thread that waits in \<^verbatim>\<open>sys_Accept\<close> of \<^verbatim>\<open>src/kernel_socket.c\<close>, where the wait is not in a
  loop: another thread may take the request that woke it, and the listener may be closed and freed.
\<close>

section \<open>What a call leaves of the listener\<close>

text \<open>\<open>listening l qs k\<close>: the block \<open>l\<close> is there, in use, with the requests \<open>qs\<close>.\<close>

definition listening :: "nat \<Rightarrow> nat list \<Rightarrow> kernel \<Rightarrow> bool" where
  "listening l qs k \<longleftrightarrow> (\<exists>s. scbs k l = Some s \<and> req_queue s = qs \<and> srefcount s \<noteq> 0)"

lemma listening_cong: "scbs k' = scbs k \<Longrightarrow> listening l qs k' = listening l qs k"
  by (simp add: listening_def)

lemma listening_upd:
  "listening l qs k \<Longrightarrow> (\<And>s. req_queue (g s) = req_queue s) \<Longrightarrow> (\<And>s. srefcount s \<noteq> 0 \<Longrightarrow> srefcount (g s) \<noteq> 0) \<Longrightarrow>
     listening l qs (upd_scb a g k)"
  by (auto simp: listening_def)

lemma sys_Socket_listening:
  assumes r: "sys_Socket c prt k = Inr (n, k')" and l: "listening l qs k" and a: "l < next_addr k"
  shows "listening l qs k'"
proof (cases "prt < 0 \<or> prt > int MAX_PORT")
  case True
  with r l show ?thesis by (auto simp: sys_Socket_def)
next
  case False
  with r obtain x k1 where x: "FCB_reserve c 1 k = Inr (x, k1)" by (auto simp: sys_Socket_def elim!: bindE_elim2)
  have s: "scbs k1 = scbs k" "next_addr k1 = next_addr k"
    using files_only_sel [OF files_only_reserve [OF x]] by simp_all
  show ?thesis
  proof (cases x)
    case None
    with r False x l s show ?thesis by (simp add: sys_Socket_def listening_def)
  next
    case (Some fs)
    obtain fids fcbs where fs: "fs = (fids, fcbs)" by (cases fs)
    from r False x Some fs have "scbs k' l = scbs k1 l"
      using s(2) a by (cases "malloc_ok k1 (next_addr k1)") (auto simp: sys_Socket_def malloc_def Let_def)
    with l s show ?thesis by (simp add: listening_def)
  qed
qed

lemma on_cc_listening: "on_cc f k = Inr k' \<Longrightarrow> listening l qs k' = listening l qs k"
  by (auto simp: on_cc_eq listening_def)

lemma get_pipe_scbs: "scbs (snd (get_pipe k)) = scbs k"
  by (simp add: get_pipe_def malloc_def)

lemma create_pipe_listening:
  assumes "create_pipe a k = Inr k'" "listening l qs k"
  shows "listening l qs k'"
proof -
  obtain r k1 where 1: "get_pipe k = (r, k1)" by (cases "get_pipe k")
  obtain s k2 where 2: "get_pipe k1 = (s, k2)" by (cases "get_pipe k1")
  have "scbs k2 = scbs k" using get_pipe_scbs [of k] get_pipe_scbs [of k1] 1 2 by simp
  with assms(2) have l: "listening l qs k2" by (simp add: listening_def)
  from assms(1) 1 2 obtain b where "k' = upd_scb b (\<lambda>t. t\<lparr>send := r, receive := s\<rparr>) (upd_scb a (\<lambda>t. t\<lparr>send := s, receive := r\<rparr>) k2)"
    by (auto simp: create_pipe_def Let_def elim!: bindE_elim)
  with l show ?thesis by (simp add: listening_upd)
qed

lemma accept_request_listening:
  assumes r: "accept_request c l k = Inr (n, k')" and l: "listening l (q # qs) k" and a: "l < next_addr k"
  shows "listening l qs k'"
proof -
  obtain ls where ls: "scbs k l = Some ls" "req_queue ls = q # qs" "srefcount ls \<noteq> 0" using l by (auto simp: listening_def)
  define k1 where "k1 = upd_scb l (\<lambda>s. s\<lparr>req_queue := qs\<rparr>) k"
  have 1: "listening l qs k1" "l < next_addr k1" using ls a by (simp_all add: listening_def k1_def)
  from r ls obtain cl k2 where 2: "sys_Socket c (int (port ls)) (upd_scb cl (\<lambda>s. s\<lparr>srefcount := 1\<rparr>) k1) = Inr (n, k2)"
    and rest: "(if n = NOFILE then bindE (on_cc (Cond_Signal (Connected_cv q)) k2) (\<lambda>k3. Inr (NOFILE, k3))
         else bindE (get_fcb c n k2) (\<lambda>f. bindE (nonnullE f) (\<lambda>f. bindE (as_scb (streamobj (FT k2 f))) (\<lambda>sv.
           bindE (create_pipe sv (upd_scb sv (\<lambda>s. s\<lparr>srefcount := 1, stype := PEER, peer := Some cl\<rparr>)
                      (upd_scb cl (\<lambda>s. s\<lparr>stype := PEER, peer := Some sv\<rparr>) k2))) (\<lambda>k4.
              bindE (on_cc (Cond_Signal (Connected_cv q)) (upd_conn q (\<lambda>r. r\<lparr>accepted := True\<rparr>) k4)) (\<lambda>k5.
              Inr (n, k5))))))) = Inr (n, k')"
    by (auto simp: accept_request_def Let_def k1_def elim!: bindE_elim bindE_elim2 split: if_splits)
  have l2: "listening l qs k2"
    by (rule sys_Socket_listening [OF 2 listening_upd [OF 1(1)]]) (use 1(2) in simp_all)
  show ?thesis
  proof (cases "n = NOFILE")
    case True
    with rest l2 show ?thesis by (auto elim!: bindE_elim simp: on_cc_listening)
  next
    case False
    with rest obtain sv k4 k5 where 4: "create_pipe sv (upd_scb sv (\<lambda>s. s\<lparr>srefcount := 1, stype := PEER, peer := Some cl\<rparr>)
        (upd_scb cl (\<lambda>s. s\<lparr>stype := PEER, peer := Some sv\<rparr>) k2)) = Inr k4"
        "on_cc (Cond_Signal (Connected_cv q)) (upd_conn q (\<lambda>r. r\<lparr>accepted := True\<rparr>) k4) = Inr k5" "k' = k5"
      by (auto elim!: bindE_elim)
    have "listening l qs k4" by (rule create_pipe_listening [OF 4(1)], intro listening_upd [OF listening_upd [OF l2]]) simp_all
    then have "listening l qs (upd_conn q (\<lambda>r. r\<lparr>accepted := True\<rparr>) k4)" by (simp add: listening_def)
    then show ?thesis using on_cc_listening [OF 4(2)] 4(3) by simp
  qed
qed

lemma sys_Connect_listening:
  assumes r: "sys_Connect c sock prt timeout k = Inr (Wait cv cause t q, k')" and p: "PortMap k (nat prt) = Some l"
    and l: "listening l qs k" and a: "l < next_addr k"
  shows "listening l (qs @ [q]) k' \<and> l < next_addr k'"
proof -
  obtain ls where ls: "scbs k l = Some ls" "req_queue ls = qs" "srefcount ls \<noteq> 0" using l by (auto simp: listening_def)
  from r p ls(1) obtain a' k4 where 4: "on_cc (Cond_Signal (Server_requests l)) (upd_scb l (\<lambda>s. s\<lparr>req_queue := req_queue s @ [next_addr k]\<rparr>)
        (snd (malloc k)\<lparr>conn_reqs := (conn_reqs k)(next_addr k \<mapsto> \<lparr>csocket = a', accepted = False\<rparr>)\<rparr>)) = Inr k4"
      "connect_loop (next_addr k) timeout k4 = Inr (Wait cv cause t q, k')"
    by (auto simp: sys_Connect_def malloc_def Let_def elim!: bindE_elim split: if_splits option.splits)
  from 4(2) have q: "q = next_addr k" "k' = k4" by (auto simp: connect_loop_def elim!: bindE_elim split: if_splits)
  have "listening l (qs @ [next_addr k]) (upd_scb l (\<lambda>s. s\<lparr>req_queue := req_queue s @ [next_addr k]\<rparr>)
        (snd (malloc k)\<lparr>conn_reqs := (conn_reqs k)(next_addr k \<mapsto> \<lparr>csocket = a', accepted = False\<rparr>)\<rparr>))"
    using ls by (simp add: listening_def malloc_def)
  moreover have "next_addr k4 = Suc (next_addr k)" using 4(1) by (auto simp: on_cc_eq malloc_def)
  ultimately show ?thesis using on_cc_listening [OF 4(1)] q a by simp
qed

lemma fresh_above_addr: "fresh_above k \<Longrightarrow> scbs k l = Some s \<Longrightarrow> l < next_addr k"
  by (metis fresh_above_def linorder_not_less option.distinct(1))

section \<open>The property\<close>

text \<open>
  C35: the single wait of \<^verbatim>\<open>sys_Accept\<close> is not safe. A thread waits for a request. When a request comes and another
  thread accepts it before the first one is back in the kernel, the first finds the queue empty and follows a null pointer.
  When the listener is closed, the waiting thread is woken but cannot enter the kernel before the block is
  freed, so that it always reads freed memory where it means to find that the listener is gone.
\<close>

theorem accept_waits_once:
  assumes "sys_Accept c lsock k = Inr (Wait cv cause t l, k)" and "fresh_above k" and "scbs k l = Some ls" and "srefcount ls = 1"
  shows "(\<forall>c1 sock prt tm cv1 cause1 t1 q k1 c2 lsock2 fid k2.
       sys_Connect c1 sock prt tm k = Inr (Wait cv1 cause1 t1 q, k1) \<and> PortMap k (nat prt) = Some l \<and>
       accept_listener c2 lsock2 k1 = Inr (Some l) \<and> sys_Accept c2 lsock2 k1 = Inr (Done fid, k2) \<longrightarrow>
       sys_Accept_resume c l k2 = Inl Null_deref) \<and>
     (\<forall>c2 n k2. socket_close c2 l k = Inr (n, k2) \<longrightarrow> n = 0 \<and> sys_Accept_resume c l k2 = Inl Use_after_free)"
proof (intro conjI allI impI)
  from assms(1,3) have "req_queue ls = []"
    by (auto simp: sys_Accept_def elim!: bindE_elim bindE_elim2 split: option.splits if_splits)
  with assms(3,4) have l: "listening l [] k" by (simp add: listening_def)
  have a: "l < next_addr k" by (rule fresh_above_addr [OF assms(2,3)])
  fix c1 sock prt tm cv1 cause1 t1 q k1 c2 lsock2 fid k2
  assume r: "sys_Connect c1 sock prt tm k = Inr (Wait cv1 cause1 t1 q, k1) \<and> PortMap k (nat prt) = Some l \<and>
       accept_listener c2 lsock2 k1 = Inr (Some l) \<and> sys_Accept c2 lsock2 k1 = Inr (Done fid, k2)"
  then have l1: "listening l [q] k1" "l < next_addr k1" using sys_Connect_listening [of c1 sock prt tm k _ _ _ q k1 l "[]"] l a by auto
  then obtain s1 where "scbs k1 l = Some s1" "req_queue s1 = [q]" by (auto simp: listening_def)
  with r have "accept_request c2 l k1 = Inr (fid, k2)" by (auto simp: sys_Accept_def elim!: bindE_elim2)
  then have "listening l [] k2" using accept_request_listening l1 by blast
  then show "sys_Accept_resume c l k2 = Inl Null_deref"
    by (auto simp: sys_Accept_resume_def accept_request_def listening_def)
next
  fix c2 n k2
  assume "socket_close c2 l k = Inr (n, k2)"
  with assms(3,4) have "n = 0 \<and> scbs k2 l = None"
    by (auto simp: socket_close_def free_scb_def elim!: bindE_elim)
  then show "n = 0" "sys_Accept_resume c l k2 = Inl Use_after_free" by (simp_all add: sys_Accept_resume_def)
qed

text \<open>A listener at 12 on port 5 without requests, behind descriptor 0.\<close>

definition quiet_kernel :: kernel where
  "quiet_kernel = listen_kernel\<lparr>scbs := [12 \<mapsto> (new_scb 5 0)\<lparr>srefcount := 1, stype := LISTENER\<rparr>], conn_reqs := (\<lambda>_. None)\<rparr>"

lemma quiet_kernel_sel [simp]:
  "cc quiet_kernel = cc socket_kernel" "PortMap quiet_kernel = [5 \<mapsto> 12]" "next_addr quiet_kernel = 30"
  "malloc_ok quiet_kernel = (\<lambda>_. True)" "scbs quiet_kernel = [12 \<mapsto> (new_scb 5 0)\<lparr>srefcount := 1, stype := LISTENER\<rparr>]"
  "PT quiet_kernel = PT files_kernel" "FCB_freelist quiet_kernel = FCB_freelist files_kernel" "pipes quiet_kernel = (\<lambda>_. None)"
  "FT quiet_kernel = (\<lambda>_. \<lparr>refcount = 1, streamobj = Scb_obj 12, streamfunc = Some Socket_ops\<rparr>)"
  by (simp_all add: quiet_kernel_def listen_kernel_def files_kernel_def piped_kernel_def example_kernel_def)

text \<open>The three calls: a thread waits, a client connects, and another thread accepts.\<close>

theorem accept_waits_once_witness:
  "\<exists>k k1 k2 k3 sock q fid. sys_Accept 0 0 k = Inr (Wait (Server_requests 12) SCHED_PIPE NO_TIMEOUT 12, k) \<and>
     sys_Connect 0 sock 5 100 k = Inr (Wait (Connected_cv q) SCHED_USER 100000 q, k1) \<and>
     sys_Accept 0 0 k1 = Inr (Done fid, k2) \<and> fid \<noteq> NOFILE \<and> sys_Accept_resume 0 12 k2 = Inl Null_deref \<and>
     socket_close 0 12 k = Inr (0, k3) \<and> sys_Accept_resume 0 12 k3 = Inl Use_after_free"
proof -
  let ?Q = quiet_kernel
  have cur: "CURPROC 0 ?Q = Inr 2"
    using files_kernel_proc CURPROC_cong [of ?Q files_kernel 0] by (simp add: files_kernel_def)
  have inv: "files_inv (\<lambda>_. 0) ?Q"
  proof -
    have "files_inv (\<lambda>_. 0) ?Q = files_inv (\<lambda>_. 0) files_kernel"
      by (rule files_upto_cong) (simp_all add: files_kernel_def)
    then show ?thesis using files_kernel_inv by simp
  qed
  have room: "has_room 2 ?Q"
    unfolding has_room_def
    by (intro conjI exI [of _ 1]) (simp_all add: files_kernel_def MAX_FILEID_def MAX_FILES_def MAX_PROC_def)
  have "2 < MAX_PROC" "0 \<le> MAX_PORT" "malloc_ok ?Q (next_addr ?Q)" by (simp_all add: MAX_PROC_def)
  note socket = sys_Socket_ok [OF inv cur this(1) room this(2,3)]
  obtain i f k where S: "sys_Socket 0 (int 0) ?Q = Inr (int i, k)" "files_inv (\<lambda>_. 0) k"
    "i < MAX_FILEID" "FIDT (PT ?Q 2) i = None" "scbs k = (scbs ?Q)(next_addr ?Q \<mapsto> new_scb 0 i)"
    "next_addr k = Suc (next_addr ?Q)" "malloc_ok k = malloc_ok ?Q" "pipes k = pipes ?Q" "conn_reqs k = conn_reqs ?Q"
    "cc k = cc ?Q" "PortMap k = PortMap ?Q" "env_yield k = env_yield ?Q"
    "\<forall>q j. FIDT (PT k q) j = (if q = 2 \<and> j = i then Some f else FIDT (PT ?Q q) j)"
    "streamobj (FT k f) = Scb_obj (next_addr ?Q)" "streamfunc (FT k f) = Some Socket_ops"
    "FCB_freelist ?Q = f # FCB_freelist k"
    "\<forall>g. g \<noteq> f \<longrightarrow> streamobj (FT k g) = streamobj (FT ?Q g) \<and> streamfunc (FT k g) = streamfunc (FT ?Q g)"
    by (rule socket) (rule that; assumption)
  have i0: "i \<noteq> 0" using S(4) by (auto simp: files_kernel_def split: if_splits)
  have "f \<in> set (FCB_freelist ?Q)" unfolding S(16) by (rule list.set_intros(1))
  then have f0: "f \<noteq> 0" by (simp add: files_kernel_def)
  have F0: "FIDT (PT k 2) 0 = Some 0" "FIDT (PT k 2) i = Some f" using S(13) i0 by (simp_all add: files_kernel_def)
  have l: "scbs k 12 = Some ((new_scb 5 0)\<lparr>srefcount := 1, stype := LISTENER\<rparr>)" using S(5) by simp
  have al: "accept_listener 0 0 j = Inr (Some 12)"
    if "cc j = cc k" "PT j = PT k" "FT j = FT k" "PortMap j = PortMap k" "scbs j 12 = Some ls" "stype ls = LISTENER" "port ls = 5" for j ls
    using that CURPROC_cong [of j ?Q 0] cur S(10,11,17) F0 f0
    by (simp add: accept_listener_def socket_of_fid_def get_fcb_def as_scb_def MAX_FILEID_def)
  have W: "sys_Accept 0 0 k = Inr (Wait (Server_requests 12) SCHED_PIPE NO_TIMEOUT 12, k)"
    using al [of k] l by (simp add: sys_Accept_def new_scb_def)
  have fr: "fresh_above k" using S(5,6,8) by (simp add: fresh_above_def)
  define q where "q = next_addr k"
  define k1 where "k1 = upd_scb 12 (\<lambda>s. s\<lparr>req_queue := req_queue s @ [q]\<rparr>)
    (k\<lparr>next_addr := Suc q, conn_reqs := (conn_reqs k)(q \<mapsto> \<lparr>csocket = 30, accepted = False\<rparr>)\<rparr>)"
  have quiet: "on_cc (Cond_Signal (Server_requests 12)) k1 = Inr k1"
    using S(10) by (simp add: on_cc_def Cond_Signal_def cv_signal_def k1_def)
  have "sys_Connect 0 (int i) 5 100 k = bindE (on_cc (Cond_Signal (Server_requests 12)) k1) (connect_loop q 100)"
    using S(3,5,7,10,11,14) F0 l CURPROC_cong [of k ?Q 0] cur
    by (simp add: sys_Connect_def get_fcb_def as_scb_def MAX_PORT_def malloc_def Let_def k1_def q_def new_scb_def)
  then have C: "sys_Connect 0 (int i) 5 100 k = Inr (Wait (Connected_cv q) SCHED_USER 100000 q, k1)"
    by (simp add: quiet connect_loop_def) (simp add: k1_def MILLISEC_def)
  have can: "can_accept 0 2 12 q 30 k1"
  proof -
    have "cc_inv (cc k1)" using socket_kernel_cc_inv S(10) by (simp add: k1_def)
    moreover have "CURPROC 0 k1 = Inr 2" using CURPROC_cong [of k1 ?Q 0] cur S(10) by (simp add: k1_def)
    moreover have "has_room 2 k1"
    proof -
      obtain j :: nat where "j < MAX_FILEID" "j \<noteq> 0" "j \<noteq> i" using that [of 1] that [of 2] by (cases "i = 1") (auto simp: MAX_FILEID_def)
      moreover have "FCB_freelist k \<noteq> []"
      proof
        assume "FCB_freelist k = []"
        with S(16) have "length [1..<MAX_FILES] = 1" by (simp add: files_kernel_def)
        then show False by (simp add: MAX_FILES_def MAX_PROC_def)
      qed
      ultimately show ?thesis using S(13) unfolding has_room_def by (auto simp: k1_def files_kernel_def intro!: exI [of _ j])
    qed
    moreover have "fresh_above k1" using S(5,6,8) by (simp add: fresh_above_def k1_def q_def)
    ultimately show ?thesis
      using S(5,7) l by (simp add: can_accept_def MAX_PROC_def k1_def MAX_PORT_def new_scb_def)
  qed
  have inv1: "files_inv (\<lambda>_. 0) k1" using S(2) files_upto_cong [of k1 k "{}" "\<lambda>_. 0"] by (simp add: k1_def)
  obtain a k2 where A: "accept_request 0 12 k1 = Inr (int a, k2)"
    by (rule accept_request_ok [OF inv1 can]) (rule that)
  have l1: "scbs k1 12 = Some ((new_scb 5 0)\<lparr>srefcount := 1, stype := LISTENER, req_queue := [q]\<rparr>)"
    using l by (simp add: k1_def new_scb_def)
  have al1: "accept_listener 0 0 k1 = Inr (Some 12)" using al [of k1] l1 by (simp add: k1_def new_scb_def)
  have A2: "sys_Accept 0 0 k1 = Inr (Done (int a), k2)" using al1 l1 A by (simp add: sys_Accept_def)
  have "cc_inv (cc (upd_scb 12 (\<lambda>s. s\<lparr>srefcount := 0\<rparr>) k))" using socket_kernel_cc_inv S(10) by simp
  from on_cc_broadcast [OF this, of "Server_requests 12"] obtain s where
    "on_cc (Cond_Broadcast (Server_requests 12)) (upd_scb 12 (\<lambda>s. s\<lparr>srefcount := 0\<rparr>) k) = Inr (upd_scb 12 (\<lambda>s. s\<lparr>srefcount := 0\<rparr>) k\<lparr>cc := s\<rparr>)" .
  then obtain k3 where X: "socket_close 0 12 k = Inr (0, k3)"
    using l that by (simp add: socket_close_def close_listener_def Let_def new_scb_def)
  have p: "PortMap k (nat 5) = Some 12" using S(11) by simp
  have "srefcount ((new_scb 5 0)\<lparr>srefcount := 1, stype := LISTENER\<rparr>) = 1" by simp
  note T = accept_waits_once [OF W fr l this]
  have "sys_Accept_resume 0 12 k2 = Inl Null_deref" using T C p al1 A2 by metis
  moreover have "sys_Accept_resume 0 12 k3 = Inl Use_after_free" using T X by blast
  moreover have "int a \<noteq> NOFILE" by (simp add: NOFILE_def)
  ultimately show ?thesis using W C A2 X by blast
qed

end
