(* ===== verification/ApiTests.thy ===== *)
theory ApiTests
  imports Programs Boot
begin

text \<open>
  The tests of the system calls in \<^verbatim>\<open>src/validate_api.c\<close> that one process runs, as programs over the kernel of the
  model: those of files and devices, of pipes and of sockets. A test is what the macros of \<^verbatim>\<open>src/unit_testing.h\<close> make of it.
\<close>

section \<open>Tests as programs\<close>

text \<open>
  A test runs with the kernel and the variable \<^verbatim>\<open>FLAG_FAILURE\<close>, which a failed \<^verbatim>\<open>ASSERT\<close> sets; it goes on after that. The
  lower-case \<^verbatim>\<open>assert\<close> aborts. Each statement has the rest of the test as its last argument.
\<close>

type_synonym test = "kernel \<Rightarrow> bool \<Rightarrow> (kernel \<times> bool) res"

definition call :: "(kernel \<Rightarrow> ('a \<times> kernel) res) \<Rightarrow> ('a \<Rightarrow> test) \<Rightarrow> test" where
  "call f t k ff = bindE (f k) (\<lambda>(x, k1). t x k1 ff)"

definition ASSERT :: "bool \<Rightarrow> test \<Rightarrow> test" where
  "ASSERT e t k ff = t k (ff \<or> \<not> e)"

definition assert_now :: "bool \<Rightarrow> test \<Rightarrow> test" where
  "assert_now e t k ff = bindE (assertE e) (\<lambda>_. t k ff)"

definition return_0 :: test where
  "return_0 k ff = Inr (k, ff)"

definition checks :: "(kernel \<Rightarrow> ('a \<times> kernel) res) \<Rightarrow> ('a \<Rightarrow> bool) \<Rightarrow> test \<Rightarrow> test" where
  "checks f P t = call f (\<lambda>x. ASSERT (P x) t)"

text \<open>A call that reads the state, and a call that must not wait: when it waits nobody is there to wake it.\<close>

definition query :: "(kernel \<Rightarrow> 'a res) \<Rightarrow> kernel \<Rightarrow> ('a \<times> kernel) res" where
  "query f k = bindE (f k) (\<lambda>x. Inr (x, k))"

definition returns :: "(kernel \<Rightarrow> (('a, 'p) outcome \<times> kernel) res) \<Rightarrow> kernel \<Rightarrow> ('a \<times> kernel) res" where
  "returns f k = bindE (f k) (\<lambda>(out, k1). case out of Done x \<Rightarrow> Inr (x, k1) | Wait _ _ _ _ \<Rightarrow> Inl No_return)"

text \<open>A loop of \<open>n\<close> rounds; \<open>s\<close> holds the variables that the body changes.\<close>

fun loop :: "nat \<Rightarrow> ('s \<Rightarrow> ('s \<Rightarrow> test) \<Rightarrow> test) \<Rightarrow> 's \<Rightarrow> ('s \<Rightarrow> test) \<Rightarrow> test" where
  "loop 0 body s t = t s"
| "loop (Suc n) body s t = body s (\<lambda>s'. loop n body s' t)"

text \<open>Buffers: what a read leaves in one, and \<^verbatim>\<open>strcmp\<close>, which needs two strings that end.\<close>

definition stored :: "byte list \<Rightarrow> rdata \<Rightarrow> byte list" where
  "stored buf d = (case d of Bytes bs \<Rightarrow> bs @ drop (length bs) buf | Info_record _ \<Rightarrow> buf)"

definition same_string :: "byte list \<Rightarrow> byte list \<Rightarrow> bool res" where
  "same_string a b = (if 0 \<in> set a \<and> 0 \<in> set b then Inr (takeWhile (\<lambda>x. x \<noteq> 0) a = takeWhile (\<lambda>x. x \<noteq> 0) b)
     else Inl Out_of_bounds)"

definition c_string :: "string \<Rightarrow> byte list" where
  "c_string s = bytes s @ [0]"

section \<open>Processes, files and devices\<close>

definition test_pid_of_init_is_one :: "nat \<Rightarrow> test" where
  "test_pid_of_init_is_one c = checks (query (sys_GetPid c)) (\<lambda>p. p = 1) return_0"

definition test_get_terminals :: test where
  "test_get_terminals =
     checks (query (\<lambda>k. Inr (nterm (vm (sch (cc k))), sys_GetTerminalDevices k))) (\<lambda>(m, n). m = n) return_0"

definition test_dup2_error_on_nonfile :: "nat \<Rightarrow> test" where
  "test_dup2_error_on_nonfile c =
     loop MAX_FILEID (\<lambda>fid t. checks (sys_Dup2 c fid (int MAX_FILEID - 1 - fid)) (\<lambda>r. r = -1) (t (fid + 1))) 0 (\<lambda>_. return_0)"

definition test_dup2_error_on_invalid_fid :: "nat \<Rightarrow> test" where
  "test_dup2_error_on_invalid_fid c =
     checks (sys_Dup2 c NOFILE 3) (\<lambda>r. r = -1) (
     checks (sys_Dup2 c (int MAX_FILEID) 3) (\<lambda>r. r = -1) (
     call (sys_OpenNull c) (\<lambda>fid.
     assert_now (fid \<noteq> NOFILE) (
     checks (sys_Dup2 c fid NOFILE) (\<lambda>r. r = -1) (
     checks (sys_Dup2 c fid (int MAX_FILEID)) (\<lambda>r. r = -1) return_0)))))"

text \<open>The number of terminals, which the loops ask for in each round, stays the same; the array has \<^verbatim>\<open>MAX_TERMINALS\<close> cells.\<close>

definition open_terminals :: "nat \<Rightarrow> (int list \<Rightarrow> test) \<Rightarrow> test" where
  "open_terminals c t =
     call (query (\<lambda>k. Inr (sys_GetTerminalDevices k))) (\<lambda>n.
     loop n (\<lambda>ts u. call (sys_OpenTerminal c (length ts)) (\<lambda>f.
       if length ts < MAX_TERMINALS then ASSERT (f \<noteq> NOFILE) (u (ts @ [f])) else (\<lambda>_ _. Inl Out_of_bounds))) [] t)"

definition test_open_terminals :: "nat \<Rightarrow> test" where
  "test_open_terminals c = open_terminals c (\<lambda>_. return_0)"

definition test_close_error_on_invalid_fid :: "nat \<Rightarrow> test" where
  "test_close_error_on_invalid_fid c =
     checks (sys_Close c NOFILE) (\<lambda>r. r = -1) (checks (sys_Close c (int MAX_FILEID)) (\<lambda>r. r = -1) return_0)"

definition test_close_success_on_valid_nonfile_fid :: "nat \<Rightarrow> test" where
  "test_close_success_on_valid_nonfile_fid c =
     loop MAX_FILEID (\<lambda>i t. checks (sys_Close c i) (\<lambda>r. r = 0) (t (i + 1))) 0 (\<lambda>_. return_0)"

definition test_close_terminals :: "nat \<Rightarrow> test" where
  "test_close_terminals c =
     open_terminals c (\<lambda>ts.
     call (query (\<lambda>k. Inr (sys_GetTerminalDevices k))) (\<lambda>n.
     loop n (\<lambda>i t. checks (sys_Close c (ts ! i)) (\<lambda>r. r = 0) (t (i + 1))) 0 (\<lambda>_. return_0)))"

definition test_read_error_on_bad_fid :: "(handler \<Rightarrow> core \<Rightarrow> core) \<Rightarrow> nat \<Rightarrow> test" where
  "test_read_error_on_bad_fid run c = checks (returns (sys_Read run c 0 10)) (\<lambda>(n, _). n = -1) return_0"

definition test_write_error_on_bad_fid :: "nat \<Rightarrow> (nat \<Rightarrow> byte) \<Rightarrow> test" where
  "test_write_error_on_bad_fid c buf = checks (returns (sys_Write c 0 buf 10)) (\<lambda>n. n = -1) return_0"

text \<open>\<open>nul\<close> stands for what a null pointer would point to; the null device does not look.\<close>

definition test_null_device :: "(handler \<Rightarrow> core \<Rightarrow> core) \<Rightarrow> nat \<Rightarrow> (nat \<Rightarrow> byte) \<Rightarrow> test" where
  "test_null_device run c nul =
     call (sys_OpenNull c) (\<lambda>fn.
     ASSERT (fn \<noteq> -1) (
     call (returns (sys_Read run c fn 10)) (\<lambda>(n, d).
     ASSERT (n = 10) (
     ASSERT (take 17 (stored (c_string ''zavarakatranemia'') d) = replicate 10 0 @ c_string ''anemia'') (
     checks (returns (sys_Write c fn nul 123456)) (\<lambda>n. n = 123456) (
     checks (sys_Close c fn) (\<lambda>r. r = 0) return_0))))))"

section \<open>Pipes\<close>

definition hello :: "byte list" where
  "hello = c_string ''Hello world''"

definition write_hello :: "nat \<Rightarrow> int \<Rightarrow> int \<Rightarrow> test \<Rightarrow> test" where
  "write_hello c fd n t = checks (returns (sys_Write c fd ((!) hello) 12)) (\<lambda>rc. rc = n) t"

definition read_hello :: "(handler \<Rightarrow> core \<Rightarrow> core) \<Rightarrow> nat \<Rightarrow> int \<Rightarrow> byte list \<Rightarrow> (byte list \<Rightarrow> test) \<Rightarrow> test" where
  "read_hello run c fd buf t =
     call (returns (sys_Read run c fd 12)) (\<lambda>(rc, d).
     ASSERT (rc = 12) (
     checks (query (\<lambda>_. same_string (stored buf d) hello)) (\<lambda>eq. eq) (t (stored buf d))))"

text \<open>The pipe of a test; when \<^verbatim>\<open>Pipe\<close> fails its descriptors have no value.\<close>

definition open_pipe :: "nat \<Rightarrow> (int \<Rightarrow> int \<Rightarrow> test) \<Rightarrow> test" where
  "open_pipe c t =
     call (sys_Pipe c) (\<lambda>x. ASSERT (x \<noteq> None) (case x of Some (r, w) \<Rightarrow> t r w | None \<Rightarrow> (\<lambda>_ _. Inl Uninitialized)))"

definition test_pipe_open :: "(handler \<Rightarrow> core \<Rightarrow> core) \<Rightarrow> nat \<Rightarrow> test" where
  "test_pipe_open run c =
     open_pipe c (\<lambda>r w.
     loop 3 (\<lambda>_ t. write_hello c w 12 (t ())) () (\<lambda>_.
     loop 3 (\<lambda>buf t. read_hello run c r buf t) (replicate 12 0) (\<lambda>_. return_0)))"

definition test_pipe_fails_on_exhausted_fid :: "nat \<Rightarrow> test" where
  "test_pipe_fails_on_exhausted_fid c =
     loop (MAX_FILEID div 2) (\<lambda>_ t. checks (sys_Pipe c) (\<lambda>x. x \<noteq> None) (t ())) () (\<lambda>_.
     loop (MAX_FILEID div 2) (\<lambda>_ t. checks (sys_Pipe c) (\<lambda>x. x = None) (t ())) () (\<lambda>_. return_0))"

definition test_pipe_close_reader :: "nat \<Rightarrow> test" where
  "test_pipe_close_reader c =
     open_pipe c (\<lambda>r w.
     loop 3 (\<lambda>_ t. write_hello c w 12 (t ())) () (\<lambda>_.
     call (sys_Close c r) (\<lambda>_.
     loop 3 (\<lambda>_ t. write_hello c w (-1) (t ())) () (\<lambda>_. return_0))))"

definition test_pipe_close_writer :: "(handler \<Rightarrow> core \<Rightarrow> core) \<Rightarrow> nat \<Rightarrow> test" where
  "test_pipe_close_writer run c =
     open_pipe c (\<lambda>r w.
     loop 3 (\<lambda>_ t. write_hello c w 12 (t ())) () (\<lambda>_.
     loop 3 (\<lambda>buf t. read_hello run c r buf t) (replicate 12 0) (\<lambda>buf.
     call (sys_Close c w) (\<lambda>_.
     loop 3 (\<lambda>_ t. checks (returns (sys_Read run c r 12)) (\<lambda>(rc, _). rc = 0) (t ())) () (\<lambda>_. return_0)))))"

section \<open>Sockets\<close>

definition NOPORT :: int where "NOPORT = 0"

definition test_socket_constructor_many_per_port :: "nat \<Rightarrow> test" where
  "test_socket_constructor_many_per_port c =
     loop MAX_FILEID (\<lambda>_ t. checks (sys_Socket c 100) (\<lambda>f. f \<noteq> NOFILE) (t ())) () (\<lambda>_. return_0)"

definition test_socket_constructor_out_of_fids :: "nat \<Rightarrow> test" where
  "test_socket_constructor_out_of_fids c =
     loop MAX_FILEID (\<lambda>_ t. checks (sys_Socket c 100) (\<lambda>f. f \<noteq> NOFILE) (t ())) () (\<lambda>_.
     loop MAX_FILEID (\<lambda>_ t. checks (sys_Socket c 100) (\<lambda>f. f = NOFILE) (t ())) () (\<lambda>_. return_0))"

definition test_socket_constructor_illegal_port :: "nat \<Rightarrow> test" where
  "test_socket_constructor_illegal_port c =
     checks (sys_Socket c NOPORT) (\<lambda>f. f \<noteq> NOFILE) (
     checks (sys_Socket c 1) (\<lambda>f. f \<noteq> NOFILE) (
     checks (sys_Socket c (int MAX_PORT)) (\<lambda>f. f \<noteq> NOFILE) (
     checks (sys_Socket c (NOPORT - 1)) (\<lambda>f. f = NOFILE) (
     checks (sys_Socket c (int MAX_PORT + 1)) (\<lambda>f. f = NOFILE) (
     checks (sys_Socket c (int MAX_PORT + 10)) (\<lambda>f. f = NOFILE) return_0)))))"

definition test_listen_success :: "nat \<Rightarrow> test" where
  "test_listen_success c = call (sys_Socket c 100) (\<lambda>f. checks (sys_Listen c f) (\<lambda>r. r = 0) return_0)"

definition test_listen_fails_on_bad_fid :: "nat \<Rightarrow> test" where
  "test_listen_fails_on_bad_fid c =
     checks (sys_Listen c 7) (\<lambda>r. r = -1) (
     call (sys_OpenNull c) (\<lambda>f. checks (sys_Listen c f) (\<lambda>r. r = -1) (
     checks (sys_Listen c NOFILE) (\<lambda>r. r = -1) (
     checks (sys_Listen c (int MAX_FILEID)) (\<lambda>r. r = -1) return_0))))"

definition test_listen_fails_on_NOPORT :: "nat \<Rightarrow> test" where
  "test_listen_fails_on_NOPORT c = call (sys_Socket c NOPORT) (\<lambda>f. checks (sys_Listen c f) (\<lambda>r. r = -1) return_0)"

definition test_listen_fails_on_occupied_port :: "nat \<Rightarrow> test" where
  "test_listen_fails_on_occupied_port c =
     call (sys_Socket c 100) (\<lambda>f.
     checks (sys_Listen c f) (\<lambda>r. r = 0) (
     call (sys_Socket c 100) (\<lambda>g. checks (sys_Listen c g) (\<lambda>r. r = -1) (
     call (sys_Close c f) (\<lambda>_.
     call (sys_Socket c 100) (\<lambda>h. checks (sys_Listen c h) (\<lambda>r. r = 0) return_0))))))"

definition test_accept_fails_on_bad_fid :: "nat \<Rightarrow> test" where
  "test_accept_fails_on_bad_fid c =
     checks (returns (sys_Accept c 7)) (\<lambda>r. r = -1) (
     call (sys_OpenNull c) (\<lambda>f. checks (returns (sys_Accept c f)) (\<lambda>r. r = -1) (
     checks (returns (sys_Accept c NOFILE)) (\<lambda>r. r = -1) (
     checks (returns (sys_Accept c (int MAX_FILEID))) (\<lambda>r. r = -1) return_0))))"

definition test_accept_fails_on_unbound_socket :: "nat \<Rightarrow> test" where
  "test_accept_fails_on_unbound_socket c =
     call (sys_Socket c 100) (\<lambda>f. checks (returns (sys_Accept c f)) (\<lambda>r. r = -1) return_0)"

text \<open>This test of \<^verbatim>\<open>Connect\<close> is a copy of the one of \<^verbatim>\<open>Accept\<close>.\<close>

definition test_connect_fails_on_bad_fid :: "nat \<Rightarrow> test" where
  "test_connect_fails_on_bad_fid c =
     checks (returns (sys_Accept c 7)) (\<lambda>r. r = -1) (
     call (sys_OpenNull c) (\<lambda>f. checks (returns (sys_Accept c f)) (\<lambda>r. r = -1) (
     checks (returns (sys_Accept c NOFILE)) (\<lambda>r. r = -1) (
     checks (returns (sys_Accept c (int MAX_FILEID))) (\<lambda>r. r = -1) return_0))))"

definition test_connect_fails_on_illegal_port :: "nat \<Rightarrow> test" where
  "test_connect_fails_on_illegal_port c =
     call (sys_Socket c 10) (\<lambda>cli.
     checks (returns (sys_Connect c cli NOPORT 100)) (\<lambda>r. r = -1) (
     checks (returns (sys_Connect c cli (int MAX_PORT + 1) 100)) (\<lambda>r. r = -1) return_0))"

definition test_connect_fails_on_non_listened_port :: "nat \<Rightarrow> test" where
  "test_connect_fails_on_non_listened_port c =
     call (sys_Socket c 10) (\<lambda>cli. checks (returns (sys_Connect c cli 100 100)) (\<lambda>r. r = -1) return_0)"

text \<open>A thread that waits gives up the core; a wait that nobody ends is ended by its timeout.\<close>

definition pause :: "test \<Rightarrow> test" where
  "pause t = call (\<lambda>k. Inr ((), yield_kernel k)) (\<lambda>_. t)"

definition lonely_Connect :: "nat \<Rightarrow> int \<Rightarrow> int \<Rightarrow> u64 \<Rightarrow> (int \<Rightarrow> test) \<Rightarrow> test" where
  "lonely_Connect c sock prt tm t =
     call (sys_Connect c sock prt tm) (\<lambda>out. case out of
       Done r \<Rightarrow> t r
     | Wait _ _ _ q \<Rightarrow> pause (call (returns (sys_Connect_resume q tm False)) t))"

definition test_connect_fails_on_timeout :: "nat \<Rightarrow> test" where
  "test_connect_fails_on_timeout c =
     call (sys_Socket c 100) (\<lambda>lsock.
     ASSERT (lsock \<noteq> NOFILE) (
     checks (sys_Listen c lsock) (\<lambda>r. r = 0) (
     call (sys_Socket c 10) (\<lambda>cli.
     lonely_Connect c cli 100 100 (\<lambda>r. ASSERT (r = -1) return_0)))))"

section \<open>Connected sockets\<close>

text \<open>
  \<^verbatim>\<open>connect_sockets\<close> accepts in one thread and connects in another, and joins both. \<open>th\<close> gives the cores of the two threads and
  whether the first one enters the kernel first. Whoever waits is woken by the other, and goes on where it waited.
\<close>

type_synonym threads = "nat \<times> nat \<times> bool"

definition Accept_end :: "nat \<Rightarrow> (int, nat) outcome \<Rightarrow> kernel \<Rightarrow> (int \<times> kernel) res" where
  "Accept_end c a k = (case a of Done r \<Rightarrow> Inr (r, k) | Wait _ _ _ l \<Rightarrow> sys_Accept_resume c l k)"

definition Connect_end :: "u64 \<Rightarrow> (int, nat) outcome \<Rightarrow> kernel \<Rightarrow> (int \<times> kernel) res" where
  "Connect_end tm b k = (case b of Done r \<Rightarrow> Inr (r, k) | Wait _ _ _ q \<Rightarrow> returns (sys_Connect_resume q tm True) k)"

definition accept_connect :: "threads \<Rightarrow> int \<Rightarrow> int \<Rightarrow> int \<Rightarrow> (int \<Rightarrow> int \<Rightarrow> test) \<Rightarrow> test" where
  "accept_connect = (\<lambda>(ca, cb, accept_first) sock1 lsock prt t.
     if accept_first then
       call (sys_Accept ca lsock) (\<lambda>a. pause (
       call (sys_Connect cb sock1 prt 1000) (\<lambda>b. pause (
       call (Accept_end ca a) (\<lambda>sock2. pause (
       call (Connect_end 1000 b) (t sock2)))))))
     else
       call (sys_Connect cb sock1 prt 1000) (\<lambda>b. pause (
       call (returns (sys_Accept ca lsock)) (\<lambda>sock2. pause (
       call (Connect_end 1000 b) (t sock2))))))"

definition connect_sockets :: "threads \<Rightarrow> int \<Rightarrow> int \<Rightarrow> int \<Rightarrow> (int \<Rightarrow> test) \<Rightarrow> test" where
  "connect_sockets th sock1 lsock prt t =
     accept_connect th sock1 lsock prt (\<lambda>sock2 r. ASSERT (sock2 \<noteq> NOFILE) (ASSERT (r = 0) (t sock2)))"

definition check_transfer :: "(handler \<Rightarrow> core \<Rightarrow> core) \<Rightarrow> nat \<Rightarrow> int \<Rightarrow> int \<Rightarrow> test \<Rightarrow> test" where
  "check_transfer run c src dst t = write_hello c src 12 (read_hello run c dst (replicate 12 0) (\<lambda>_. t))"

definition test_listen_fails_on_initialized_socket :: "nat \<Rightarrow> threads \<Rightarrow> test" where
  "test_listen_fails_on_initialized_socket c th =
     call (sys_Socket c 100) (\<lambda>lsock.
     checks (sys_Listen c lsock) (\<lambda>r. r = 0) (
     checks (sys_Listen c lsock) (\<lambda>r. r = -1) (
     call (sys_Socket c 200) (\<lambda>sock0.
     connect_sockets th sock0 lsock 100 (\<lambda>sock1.
     checks (sys_Listen c sock0) (\<lambda>r. r = -1) (
     checks (sys_Listen c sock1) (\<lambda>r. r = -1) return_0))))))"

definition test_accept_succeds :: "nat \<Rightarrow> threads \<Rightarrow> test" where
  "test_accept_succeds c th =
     call (sys_Socket c 100) (\<lambda>lsock.
     checks (sys_Listen c lsock) (\<lambda>r. r = 0) (
     call (sys_Socket c NOPORT) (\<lambda>cli. connect_sockets th cli lsock 100 (\<lambda>_. return_0))))"

definition test_accept_fails_on_connected_socket :: "nat \<Rightarrow> threads \<Rightarrow> test" where
  "test_accept_fails_on_connected_socket c th =
     call (sys_Socket c 100) (\<lambda>lsock.
     checks (sys_Listen c lsock) (\<lambda>r. r = 0) (
     call (sys_Socket c NOPORT) (\<lambda>cli.
     connect_sockets th cli lsock 100 (\<lambda>srv.
     checks (returns (sys_Accept c srv)) (\<lambda>r. r = -1) return_0))))"

definition test_accept_reusable :: "nat \<Rightarrow> threads \<Rightarrow> test" where
  "test_accept_reusable c th =
     call (sys_Socket c 100) (\<lambda>lsock.
     ASSERT (lsock \<noteq> NOFILE) (
     checks (sys_Listen c lsock) (\<lambda>r. r = 0) (
     let n = MAX_FILEID div 2 - 1 in
     loop n (\<lambda>(cli, srv) t. call (sys_Socket c NOPORT) (\<lambda>f.
       connect_sockets th f lsock 100 (\<lambda>g. t (cli @ [f], srv @ [g])))) ([], []) (\<lambda>(cli, srv).
     loop n (\<lambda>i t. loop n (\<lambda>j u. ASSERT (cli ! i \<noteq> srv ! j) (
       if i = j then u (j + 1)
       else ASSERT (srv ! i \<noteq> srv ! j) (ASSERT (cli ! i \<noteq> cli ! j) (u (j + 1))))) 0 (\<lambda>_. t (i + 1))) 0 (\<lambda>_. return_0)))))"

definition test_accept_fails_on_exhausted_fid :: "nat \<Rightarrow> threads \<Rightarrow> test" where
  "test_accept_fails_on_exhausted_fid c th =
     call (sys_Socket c 100) (\<lambda>lsock.
     ASSERT (lsock \<noteq> NOFILE) (
     checks (sys_Listen c lsock) (\<lambda>r. r = 0) (
     (if odd MAX_FILEID then call (sys_OpenNull c) else (\<lambda>t. t NOFILE)) (\<lambda>_.
     loop ((MAX_FILEID - 1) div 2) (\<lambda>_ t. call (sys_Socket c NOPORT) (\<lambda>cli.
       ASSERT (cli \<noteq> NOFILE) (connect_sockets th cli lsock 100 (\<lambda>_. t ())))) () (\<lambda>_.
     call (sys_Socket c NOPORT) (\<lambda>cli.
     ASSERT (cli \<noteq> NOFILE) (
     accept_connect th cli lsock 100 (\<lambda>f r. ASSERT (f = NOFILE) (ASSERT (r = -1) return_0)))))))))"

definition test_accept_unblocks_on_close :: "nat \<Rightarrow> nat \<Rightarrow> bool \<Rightarrow> test" where
  "test_accept_unblocks_on_close c ca accept_first =
     call (sys_Socket c 100) (\<lambda>lsock.
     ASSERT (lsock \<noteq> NOFILE) (
     checks (sys_Listen c lsock) (\<lambda>r. r = 0) (
     if accept_first then
       call (sys_Accept ca lsock) (\<lambda>a. pause (
       call (sys_Close c lsock) (\<lambda>_. pause (
       checks (Accept_end ca a) (\<lambda>f. f = NOFILE) return_0))))
     else
       call (sys_Close c lsock) (\<lambda>_. pause (
       checks (returns (sys_Accept ca lsock)) (\<lambda>f. f = NOFILE) return_0)))))"

definition test_connect_fails_on_bad_socket :: "nat \<Rightarrow> threads \<Rightarrow> test" where
  "test_connect_fails_on_bad_socket c th =
     call (sys_Socket c 100) (\<lambda>lsock.
     ASSERT (lsock \<noteq> NOFILE) (
     checks (sys_Listen c lsock) (\<lambda>r. r = 0) (
     checks (returns (sys_Connect c lsock 100 1000)) (\<lambda>r. r = -1) (
     call (sys_Socket c NOPORT) (\<lambda>cli.
     ASSERT (cli \<noteq> NOFILE) (
     connect_sockets th cli lsock 100 (\<lambda>srv.
     checks (returns (sys_Connect c cli 100 1000)) (\<lambda>r. r = -1) (
     checks (returns (sys_Connect c srv 100 1000)) (\<lambda>r. r = -1) return_0))))))))"

text \<open>Some tests move the listener to descriptor 0 if it is another, and then use the old descriptor.\<close>

definition move_to_0 :: "nat \<Rightarrow> int \<Rightarrow> test \<Rightarrow> test" where
  "move_to_0 c f t = (if f \<noteq> 0 then call (sys_Dup2 c f 0) (\<lambda>_. call (sys_Close c f) (\<lambda>_. t)) else t)"

definition test_socket_small_transfer :: "(handler \<Rightarrow> core \<Rightarrow> core) \<Rightarrow> nat \<Rightarrow> threads \<Rightarrow> test" where
  "test_socket_small_transfer run c th =
     call (sys_Socket c 100) (\<lambda>lsock.
     ASSERT (lsock \<noteq> NOFILE) (
     move_to_0 c lsock (
     call (sys_Socket c NOPORT) (\<lambda>sock0.
     ASSERT (sock0 \<noteq> NOFILE) (
     checks (sys_Listen c lsock) (\<lambda>r. r = 0) (
     connect_sockets th sock0 lsock 100 (\<lambda>sock1.
     loop 32768 (\<lambda>_ t. check_transfer run c sock0 sock1 (check_transfer run c sock1 sock0 (t ()))) () (\<lambda>_. return_0))))))))"

definition shutdown_test :: "(handler \<Rightarrow> core \<Rightarrow> core) \<Rightarrow> nat \<Rightarrow> threads \<Rightarrow> (int \<Rightarrow> int \<Rightarrow> test) \<Rightarrow> test" where
  "shutdown_test run c th t =
     call (sys_Socket c 100) (\<lambda>lsock.
     ASSERT (lsock \<noteq> NOFILE) (
     move_to_0 c lsock (
     checks (sys_Listen c lsock) (\<lambda>r. r = 0) (
     call (sys_Socket c NOPORT) (\<lambda>cli.
     ASSERT (cli \<noteq> NOFILE) (
     connect_sockets th cli lsock 100 (\<lambda>srv.
     loop 2000 (\<lambda>_ t. check_transfer run c cli srv (check_transfer run c srv cli (t ()))) () (\<lambda>_. t cli srv))))))))"

definition test_shutdown_read :: "(handler \<Rightarrow> core \<Rightarrow> core) \<Rightarrow> nat \<Rightarrow> threads \<Rightarrow> test" where
  "test_shutdown_read run c th =
     shutdown_test run c th (\<lambda>cli srv.
     write_hello c srv 12 (
     call (sys_ShutDown c cli SHUTDOWN_READ) (\<lambda>_.
     checks (returns (sys_Read run c cli 12)) (\<lambda>(rc, _). rc = 0) (
     write_hello c srv (-1) (
     loop 2000 (\<lambda>_ t. write_hello c srv (-1) (check_transfer run c cli srv (t ()))) () (\<lambda>_. return_0))))))"

definition test_shutdown_write :: "(handler \<Rightarrow> core \<Rightarrow> core) \<Rightarrow> nat \<Rightarrow> threads \<Rightarrow> byte list \<Rightarrow> test" where
  "test_shutdown_write run c th junk =
     shutdown_test run c th (\<lambda>cli srv.
     write_hello c srv 12 (write_hello c srv 12 (write_hello c srv 12 (
     call (sys_ShutDown c srv SHUTDOWN_WRITE) (\<lambda>_.
     write_hello c srv (-1) (
     loop 3 (\<lambda>buf t. read_hello run c cli buf t) junk (\<lambda>_.
     loop 2000 (\<lambda>_ t. checks (returns (sys_Read run c cli 12)) (\<lambda>(rc, _). rc = 0) (check_transfer run c cli srv (t ()))) ()
       (\<lambda>_. return_0))))))))"

end
