(* ===== verification/TestBench.thy ===== *)
theory TestBench
  imports ApiTests Launch
begin

text \<open>
  How the tests of \<open>ApiTests\<close> run: rules for their statements, and what the system calls do in a process that alone holds its
  descriptors, on a kernel in any consistent state.
\<close>

section \<open>Running a test\<close>

text \<open>What a test comes to, when nothing has failed so far.\<close>

definition holds :: "((kernel \<times> bool) res \<Rightarrow> bool) \<Rightarrow> test \<Rightarrow> kernel \<Rightarrow> bool" where
  "holds Q t k \<longleftrightarrow> Q (t k False)"

abbreviation passes :: "test \<Rightarrow> kernel \<Rightarrow> bool" where
  "passes \<equiv> holds (\<lambda>r. \<exists>k'. r = Inr (k', False))"

abbreviation faults :: "fault \<Rightarrow> test \<Rightarrow> kernel \<Rightarrow> bool" where
  "faults e \<equiv> holds (\<lambda>r. r = Inl e)"

lemma passes_return_0 [simp]: "passes return_0 k"
  by (simp add: holds_def return_0_def)

lemma holds_call: "f k = Inr (x, k') \<Longrightarrow> holds Q (call f t) k = holds Q (t x) k'"
  by (simp add: holds_def call_def)

lemma faults_call: "f k = Inl e \<Longrightarrow> faults e (call f t) k"
  by (simp add: holds_def call_def)

lemma holds_ASSERT: "e \<Longrightarrow> holds Q (ASSERT e t) k = holds Q t k"
  by (simp add: holds_def ASSERT_def)

lemma holds_assert_now: "e \<Longrightarrow> holds Q (assert_now e t) k = holds Q t k"
  by (simp add: holds_def assert_now_def)

lemma holds_checks: "f k = Inr (x, k') \<Longrightarrow> P x \<Longrightarrow> holds Q (checks f P t) k = holds Q t k'"
  by (simp add: checks_def holds_call holds_ASSERT)

lemma holds_query: "f k = Inr x \<Longrightarrow> P x \<Longrightarrow> holds Q (checks (query f) P t) k = holds Q t k"
  by (simp add: holds_checks query_def)

lemma holds_pause [simp]: "holds Q (pause t) k = holds Q t (yield_kernel k)"
  by (simp add: pause_def holds_call)

lemma holds_loop_from:
  assumes step: "\<And>i s k t. i < n \<Longrightarrow> I i s k \<Longrightarrow> (\<And>s' k'. I (Suc i) s' k' \<Longrightarrow> holds Q (t s') k') \<Longrightarrow> holds Q (body s t) k"
    and last: "\<And>s k. I n s k \<Longrightarrow> holds Q (t s) k"
  shows "m \<le> n \<Longrightarrow> I (n - m) s k \<Longrightarrow> holds Q (loop m body s t) k"
proof (induction m arbitrary: s k)
  case 0
  then show ?case using last by simp
next
  case (Suc m)
  have "Suc (n - Suc m) = n - m" using Suc.prems(1) by simp
  then have "holds Q (loop m body s' t) k'" if "I (Suc (n - Suc m)) s' k'" for s' k'
    using Suc.IH Suc.prems(1) that by simp
  then show ?case using step [of "n - Suc m" s k] Suc.prems by simp
qed

lemma holds_loop:
  assumes "I 0 s k"
    and "\<And>i s k t. i < n \<Longrightarrow> I i s k \<Longrightarrow> (\<And>s' k'. I (Suc i) s' k' \<Longrightarrow> holds Q (t s') k') \<Longrightarrow> holds Q (body s t) k"
    and "\<And>s k. I n s k \<Longrightarrow> holds Q (t s) k"
  shows "holds Q (loop n body s t) k"
  using holds_loop_from [of n I Q body t n s k] assms by simp

section \<open>The process that runs the test\<close>

text \<open>
  Process \<open>p\<close>, which runs on the cores \<open>C\<close>, has the streams \<open>T\<close>, each behind a descriptor of its own. Memory
  and blocks do not run out, and what other threads do when it yields leaves concurrency control consistent.
\<close>

type_synonym streams = "nat \<Rightarrow> (streamobj \<times> file_ops) option"

definition sole :: "kernel \<Rightarrow> nat \<Rightarrow> nat \<Rightarrow> nat \<Rightarrow> bool" where
  "sole k p i f \<longleftrightarrow> (\<forall>s \<in> fid_slots. fid_at k s = Some f \<longleftrightarrow> s = (p, i))"

definition slot :: "kernel \<Rightarrow> nat \<Rightarrow> nat \<Rightarrow> (streamobj \<times> file_ops) option \<Rightarrow> bool" where
  "slot k p i x \<longleftrightarrow> (case x of None \<Rightarrow> fds k p i = None
     | Some (obj, ops) \<Rightarrow> \<exists>f. fds k p i = Some f \<and> sole k p i f \<and> stream k f = (obj, Some ops))"

definition runs :: "nat set \<Rightarrow> nat \<Rightarrow> cc \<Rightarrow> kernel \<Rightarrow> bool" where
  "runs C p s k \<longleftrightarrow> cc_inv s \<and> (\<forall>c \<in> C. CURPROC c (k\<lparr>cc := s\<rparr>) = Inr p)"

definition settled :: "nat set \<Rightarrow> nat \<Rightarrow> kernel \<Rightarrow> bool" where
  "settled C p k \<longleftrightarrow> runs C p (cc k) k \<and> (\<forall>s. runs C p s k \<longrightarrow> runs C p (env_yield k s) k) \<and>
     (\<forall>a. malloc_ok k a) \<and> 0 < devnum k DEV_NULL \<and> fresh_above k"

definition bench :: "nat set \<Rightarrow> nat \<Rightarrow> streams \<Rightarrow> kernel \<Rightarrow> bool" where
  "bench C p T k \<longleftrightarrow> files_inv (\<lambda>_. 0) k \<and> p < MAX_PROC \<and> settled C p k \<and> (\<forall>i. slot k p i (T i)) \<and>
     card {i. i < MAX_FILEID \<and> T i = None} \<le> length (FCB_freelist k)"

lemma runs_cong: "runs C p s k' = runs C p s k"
  by (simp add: runs_def CURPROC_def CURTHREAD_def tcb_of_def)

lemma settled_cong:
  assumes "settled C p k" "runs C p (cc k') k" "env_yield k' = env_yield k" "malloc_ok k' = malloc_ok k" "devnum k' = devnum k" "fresh_above k'"
  shows "settled C p k'"
  using assms runs_cong [of C p _ k' k] by (simp add: settled_def)

lemma settledD:
  assumes "settled C p k"
  shows "c \<in> C \<Longrightarrow> CURPROC c k = Inr p" "cc_inv (cc k)" "runs C p (cc k) k" "malloc_ok k a" "0 < devnum k DEV_NULL" "fresh_above k"
  using assms by (auto simp: settled_def runs_def)

lemma benchD:
  assumes "bench C p T k"
  shows "files_inv (\<lambda>_. 0) k" "p < MAX_PROC" "settled C p k" "slot k p i (T i)" "c \<in> C \<Longrightarrow> CURPROC c k = Inr p" "cc_inv (cc k)"
    "malloc_ok k a" "card {i. i < MAX_FILEID \<and> T i = None} \<le> length (FCB_freelist k)"
  using assms settledD [of C p k] by (auto simp: bench_def)

lemma bench_none: "bench C p T k \<Longrightarrow> T i = None \<Longrightarrow> fds k p i = None"
  using benchD(4) [of C p T k i] by (simp add: slot_def)

lemma bench_some:
  assumes "bench C p T k" "T i = Some (obj, ops)"
  obtains f where "fds k p i = Some f" "sole k p i f" "streamobj (FT k f) = obj" "streamfunc (FT k f) = Some ops" "i < MAX_FILEID"
  using benchD(4) [OF assms(1), of i] assms(2) fds_bound by (auto simp: slot_def stream_def)

lemma sole_refs: "sole k p i f \<Longrightarrow> p < MAX_PROC \<Longrightarrow> i < MAX_FILEID \<Longrightarrow> refs k f = 1"
proof -
  assume a: "sole k p i f" "p < MAX_PROC" "i < MAX_FILEID"
  then have "{s \<in> fid_slots. fid_at k s = Some f} = {(p, i)}" by (auto simp: sole_def fid_slots_def)
  then show "refs k f = 1" by (simp add: refs_def)
qed

lemma bench_refcount:
  assumes "bench C p T k" "fds k p i = Some f" "sole k p i f"
  shows "refcount (FT k f) = 1"
proof -
  note B = benchD [OF assms(1)]
  have i: "(p, i) \<in> fid_slots" "fid_at k (p, i) = Some f" "i < MAX_FILEID"
    using assms(2) fds_bound [OF assms(2)] B(2) by (auto simp: fid_slots_def fid_at_fds)
  have "unat (refcount (FT k f)) = 1"
    using files_uptoD(5) [OF B(1) slot_block(1,2) [OF B(1) i(1,2)]] sole_refs [OF assms(3) B(2) i(3)] by simp
  then show ?thesis by (simp add: word_unat_eq_iff)
qed

section \<open>Opening and closing\<close>

text \<open>The descriptors that a process with the streams \<open>T\<close> gets next.\<close>

definition next_fids :: "nat \<Rightarrow> streams \<Rightarrow> nat list" where
  "next_fids n T = find_fids n 0 (\<lambda>i. map_option (\<lambda>_. 0) (T i))"

lemma bench_fid:
  assumes "bench C p T k" "i < MAX_FILEID"
  shows "(FIDT (PT k p) i = None) = (T i = None)"
  using benchD(4) [OF assms(1), of i] assms(2) by (auto simp: slot_def fds_def split: option.splits prod.splits)

lemma next_fids_eq:
  assumes "bench C p T k"
  shows "find_fids n 0 (FIDT (PT k p)) = next_fids n T"
  unfolding next_fids_def
proof (rule find_fids_cong)
  show "(FIDT (PT k p) i = None) = (map_option (\<lambda>_. 0) (T i) = None)" if "i < MAX_FILEID" for i
    using bench_fid [OF assms that] by simp
qed

lemma free_slots: "bench C p T k \<Longrightarrow> {i. i < MAX_FILEID \<and> FIDT (PT k p) i = None} = {i. i < MAX_FILEID \<and> T i = None}"
  using bench_fid by blast

text \<open>Reserving descriptors, and what is left to do to have the streams \<open>S\<close> behind them.\<close>

definition fills :: "nat set \<Rightarrow> nat \<Rightarrow> streams \<Rightarrow> nat list \<Rightarrow> nat list \<Rightarrow> kernel \<Rightarrow> bool" where
  "fills C p T fids fcbs k1 \<longleftrightarrow> (\<forall>k2 S. FCB_freelist k2 = FCB_freelist k1 \<and> PT k2 = PT k1 \<and> (\<forall>f. refcount (FT k2 f) = refcount (FT k1 f)) \<and>
     (\<forall>f. stream k2 f = (if f \<in> set fcbs then (fst (S f), Some (snd (S f))) else stream k1 f)) \<and> settled C p k2 \<longrightarrow>
     bench C p (\<lambda>i. if i \<in> set fids then map_option S (map_of (zip fids fcbs) i) else T i) k2)"

lemma fillsD:
  assumes "fills C p T fids fcbs k1" and "FCB_freelist k2 = FCB_freelist k1" and "PT k2 = PT k1"
    and "\<And>f. refcount (FT k2 f) = refcount (FT k1 f)" and "\<And>f. stream k2 f = (if f \<in> set fcbs then (fst (S f), Some (snd (S f))) else stream k1 f)"
    and "settled C p k2"
  shows "bench C p (\<lambda>i. if i \<in> set fids then map_option S (map_of (zip fids fcbs) i) else T i) k2"
  using assms unfolding fills_def by blast

lemma reserve_ok:
  assumes b: "bench C p T k" and c: "c \<in> C" and l: "length (next_fids n T) = n"
  obtains fcbs k1 where "FCB_reserve c n k = Inr (Some (next_fids n T, fcbs), k1)" "files_only k k1" "length fcbs = n" "distinct fcbs"
    "fills C p T (next_fids n T) fcbs k1"
proof -
  note B = benchD [OF b]
  let ?fids = "next_fids n T"
  note F = find_fids_props [of n 0 "FIDT (PT k p)", OF next_fids_eq [OF b]]
  obtain r k1 where R: "FCB_reserve c n k = Inr (r, k1)" "files_inv (\<lambda>_. 0) k1"
      "r = None \<longleftrightarrow> card {i. i < MAX_FILEID \<and> FIDT (PT k p) i = None} < n \<or> length (FCB_freelist k) < n"
      "case r of
        None \<Rightarrow> (\<forall>q. FIDT (PT k1 q) = FIDT (PT k q)) \<and> set (FCB_freelist k1) = set (FCB_freelist k)
      | Some (fids, fcbs) \<Rightarrow>
          length fids = n \<and> length fcbs = n \<and> distinct fids \<and> distinct fcbs \<and>
          (\<forall>i \<in> set fids. i < MAX_FILEID \<and> FIDT (PT k p) i = None) \<and>
          FCB_freelist k = fcbs @ FCB_freelist k1 \<and>
          (\<forall>q j. FIDT (PT k1 q) j =
             (if q = p \<and> j \<in> set fids then map_of (zip fids fcbs) j else FIDT (PT k q) j))"
    using FCB_reserve_props [OF B(1) B(5) [OF c] B(2), of n] by blast
  have "card (set ?fids) \<le> card {i. i < MAX_FILEID \<and> FIDT (PT k p) i = None}"
    by (rule card_mono) (use F(3) in auto)
  then have many: "n \<le> card {i. i < MAX_FILEID \<and> FIDT (PT k p) i = None}" using distinct_card [OF F(2)] l by simp
  then have "r \<noteq> None" using R(3) B(8) by (simp add: free_slots [OF b])
  then obtain fids fcbs where r: "r = Some (fids, fcbs)" by auto
  have fids: "fids = ?fids"
    using R(1) B(5) [OF c] by (auto simp: r FCB_reserve_def Let_def next_fids_eq [OF b] split: if_splits prod.splits)
  have Q: "length fcbs = n" "distinct fcbs" "distinct ?fids" "FCB_freelist k = fcbs @ FCB_freelist k1"
      "\<And>i. i \<in> set ?fids \<Longrightarrow> i < MAX_FILEID \<and> FIDT (PT k p) i = None"
      "\<And>q j. FIDT (PT k1 q) j = (if q = p \<and> j \<in> set ?fids then map_of (zip ?fids fcbs) j else FIDT (PT k q) j)"
    using R(4) by (simp_all add: r fids)
  note o = files_only_reserve [OF R(1)]
  show ?thesis
  proof (rule that)
    show "FCB_reserve c n k = Inr (Some (?fids, fcbs), k1)" using R(1) r fids by simp
    show "files_only k k1" by (rule o)
    show "length fcbs = n" "distinct fcbs" by (rule Q)+
    show "fills C p T ?fids fcbs k1"
      unfolding fills_def
    proof (intro allI impI)
      fix k2 :: kernel and S
      assume a: "FCB_freelist k2 = FCB_freelist k1 \<and> PT k2 = PT k1 \<and> (\<forall>f. refcount (FT k2 f) = refcount (FT k1 f)) \<and>
       (\<forall>f. stream k2 f = (if f \<in> set fcbs then (fst (S f), Some (snd (S f))) else stream k1 f)) \<and> settled C p k2"
      then have k2: "FCB_freelist k2 = FCB_freelist k1" "PT k2 = PT k1" "\<And>f. refcount (FT k2 f) = refcount (FT k1 f)"
        "\<And>f. f \<notin> set fcbs \<Longrightarrow> stream k2 f = stream k1 f" "\<And>f. f \<in> set fcbs \<Longrightarrow> stream k2 f = (fst (S f), Some (snd (S f)))"
        "settled C p k2" by simp_all
      let ?T = "\<lambda>i. if i \<in> set ?fids then map_option S (map_of (zip ?fids fcbs) i) else T i"
      have inv2: "files_inv (\<lambda>_. 0) k2" using R(2) files_upto_cong [of k2 k1 "{}" "\<lambda>_. 0"] k2(1-3) by simp
      have f2: "fds k2 q j = (if q = p \<and> j \<in> set ?fids then map_of (zip ?fids fcbs) j else fds k q j)" for q j
        using Q(5,6) by (simp add: fds_def k2(2))
      have a2: "fid_at k2 s = (if fst s = p \<and> snd s \<in> set ?fids then map_of (zip ?fids fcbs) (snd s) else fid_at k s)" for s
        by (cases s) (simp add: fid_at_def k2(2) Q(6))
      have old: "fid_at k s \<noteq> Some f" if "f \<in> set fcbs" "s \<in> fid_slots" for s f
        using slot_block(2) [OF B(1), of "fst s" "snd s" f] that Q(4) by auto
      have sl: "slot k2 p i (?T i)" for i
      proof (cases "i \<in> set ?fids")
        case True
        then obtain m where m: "m < n" "i = ?fids ! m" using l by (metis in_set_conv_nth)
        have nf: "fcbs ! m \<in> set fcbs" using m(1) Q(1) by simp
        have mo: "map_of (zip ?fids fcbs) j = Some (fcbs ! m) \<longleftrightarrow> j = i" if "j \<in> set ?fids" for j
        proof -
          obtain m' where m': "m' < n" "j = ?fids ! m'" using \<open>j \<in> set ?fids\<close> l by (metis in_set_conv_nth)
          have "map_of (zip ?fids fcbs) j = Some (fcbs ! m')"
            unfolding m'(2) by (rule map_of_zip_nth) (use l Q(1,3) m'(1) in simp_all)
          moreover have "fcbs ! m' = fcbs ! m \<longleftrightarrow> m' = m" using Q(1,2) m(1) m'(1) by (simp add: nth_eq_iff_index_eq)
          moreover have "j = i \<longleftrightarrow> m' = m" using Q(3) l m m' by (simp add: nth_eq_iff_index_eq)
          ultimately show ?thesis by simp
        qed
        have "sole k2 p i (fcbs ! m)"
          unfolding sole_def
        proof
          fix s assume s: "s \<in> fid_slots"
          show "fid_at k2 s = Some (fcbs ! m) \<longleftrightarrow> s = (p, i)"
            using mo [of "snd s"] old [OF nf s] True by (cases s) (auto simp: a2)
        qed
        then show ?thesis using True mo [OF True] f2 k2(5) [OF nf] by (simp add: slot_def split: prod.split)
      next
        case False
        have "fds k2 p i = fds k p i" using False by (simp add: f2)
        moreover have "sole k2 p i f \<and> stream k2 f = stream k f" if "sole k p i f" "fds k p i = Some f" for f
        proof -
          have s: "(p, i) \<in> fid_slots" "fid_at k (p, i) = Some f"
            using that(2) fds_bound B(2) by (auto simp: fid_slots_def fid_at_fds)
          have nf: "f \<notin> set fcbs" using old s by blast
          have nz: "map_of (zip ?fids fcbs) j \<noteq> Some f" for j using nf by (meson map_of_SomeD set_zip_rightD)
          have "sole k2 p i f"
            unfolding sole_def using that(1) False nz by (auto simp: sole_def a2)
          then show ?thesis using k2(4) [OF nf] stream_files_only [OF o] by simp
        qed
        ultimately show ?thesis using B(4) [of i] False by (auto simp: slot_def split: option.splits prod.splits)
      qed
      have "{i. i < MAX_FILEID \<and> T i = None} = set ?fids \<union> {i. i < MAX_FILEID \<and> ?T i = None}"
      proof -
        have "?T i \<noteq> None" if "i \<in> set ?fids" for i
          using that l Q(1) by (auto simp: map_of_zip_is_None)
        moreover have "T i = None \<and> i < MAX_FILEID" if "i \<in> set ?fids" for i
          using Q(5) [OF that] free_slots [OF b] by auto
        ultimately show ?thesis by auto
      qed
      moreover have "set ?fids \<inter> {i. i < MAX_FILEID \<and> ?T i = None} = {}"
        using l Q(1) by (auto simp: map_of_zip_is_None)
      ultimately have "card {i. i < MAX_FILEID \<and> T i = None} = n + card {i. i < MAX_FILEID \<and> ?T i = None}"
        using card_Un_disjoint [of "set ?fids" "{i. i < MAX_FILEID \<and> ?T i = None}"] distinct_card [OF Q(3)] l by simp
      then have "card {i. i < MAX_FILEID \<and> ?T i = None} \<le> length (FCB_freelist k2)"
        using B(8) Q(1,4) k2(1) by simp
      then show "bench C p ?T k2" using inv2 B(2) k2(6) sl by (simp add: bench_def)
    qed
  qed
qed

lemma reserve_none:
  assumes b: "bench C p T k" and c: "c \<in> C" and l: "length (next_fids n T) < n"
  shows "FCB_reserve c n k = Inr (None, k)"
  using benchD(5) [OF b c] l by (simp add: FCB_reserve_def Let_def next_fids_eq [OF b])

text \<open>What the calls on descriptors leave as it is.\<close>

definition rest :: "kernel \<Rightarrow> cc \<times> (nat \<Rightarrow> pipecb option) \<times> (nat \<Rightarrow> scb option) \<times> (nat \<Rightarrow> conn_req option) \<times> (nat \<Rightarrow> nat option) \<times>
    (device_type \<Rightarrow> nat) \<times> nat" where
  "rest k = (cc k, pipes k, scbs k, conn_reqs k, PortMap k, devnum k, next_addr k)"

lemma rest_files_only: "files_only k k' \<Longrightarrow> rest k' = rest k"
  by (simp add: rest_def files_only_sel)

lemma settled_files_only: "files_only k k' \<Longrightarrow> settled C p k \<Longrightarrow> settled C p k'"
  using settledD [of C p k] by (intro settled_cong [of C p k k']) (simp_all add: files_only_sel fresh_above_def)

lemma stream_upd: "stream (upd_fcb f (\<lambda>b. b\<lparr>streamobj := obj, streamfunc := Some ops\<rparr>) k) g = (if g = f then (obj, Some ops) else stream k g)"
  by (simp add: stream_def)

lemma one_slot: "(\<lambda>j. if j \<in> set [i] then map_option S (map_of (zip [i] [f]) j) else T j) = T(i \<mapsto> S f)"
  by auto

lemma open_stream_ok:
  assumes b: "bench C p T k" and c: "c \<in> C" and i: "next_fids 1 T = [i]"
    and d: "\<And>k1. files_only k k1 \<Longrightarrow> device_open major minor k1 = Inr (Some (obj, ops))"
  shows "\<exists>k'. open_stream c major minor k = Inr (int i, k') \<and> bench C p (T(i \<mapsto> (obj, ops))) k' \<and> rest k' = rest k"
proof -
  have l: "length (next_fids 1 T) = 1" using i by simp
  obtain fcbs k1 where R: "FCB_reserve c 1 k = Inr (Some ([i], fcbs), k1)" "files_only k k1" "length fcbs = 1" "distinct fcbs"
    "fills C p T [i] fcbs k1"
    by (rule reserve_ok [OF b c l, unfolded i]) (rule that; assumption)
  obtain f where f: "fcbs = [f]" using R(3) by (auto simp: length_Suc_conv)
  let ?k = "upd_fcb f (\<lambda>b. b\<lparr>streamobj := obj, streamfunc := Some ops\<rparr>) k1"
  have e: "open_stream c major minor k = Inr (int i, ?k)" using R(1) d [OF R(2)] f by (simp add: open_stream_def)
  have "settled C p k1" by (rule settled_files_only [OF R(2) benchD(3) [OF b]])
  then have "settled C p ?k" using settledD(3,6) [of C p k1] by (intro settled_cong [of C p k1 ?k]) (simp_all add: fresh_above_def)
  then have "bench C p (\<lambda>j. if j \<in> set [i] then map_option (\<lambda>_. (obj, ops)) (map_of (zip [i] fcbs) j) else T j) ?k"
    by (intro fillsD [OF R(5)]) (simp_all add: f stream_upd)
  then have "bench C p (T(i \<mapsto> (obj, ops))) ?k" unfolding f one_slot .
  moreover have "rest ?k = rest k" using rest_files_only [OF R(2)] by (simp add: rest_def)
  ultimately show ?thesis using e by blast
qed

lemma open_null_ok:
  assumes "bench C p T k" and "c \<in> C" and "next_fids 1 T = [i]"
  shows "\<exists>k'. sys_OpenNull c k = Inr (int i, k') \<and> bench C p (T(i \<mapsto> (Null_object, Nulldev_fops))) k' \<and> rest k' = rest k"
  unfolding sys_OpenNull_def
  by (rule open_stream_ok [OF assms])
    (use settledD(5) [OF benchD(3) [OF assms(1)]] in \<open>simp add: device_open_def nulldev_open_def files_only_sel\<close>)

lemma open_terminal_ok:
  assumes "bench C p T k" and "c \<in> C" and "next_fids 1 T = [i]" and "t < devnum k DEV_SERIAL" "t < nterm (vm (sch (cc k)))"
  shows "\<exists>k'. sys_OpenTerminal c t k = Inr (int i, k') \<and> bench C p (T(i \<mapsto> (Serial_dcb t, Serial_fops))) k' \<and> rest k' = rest k"
  unfolding sys_OpenTerminal_def
  by (rule open_stream_ok [OF assms(1-3)])
    (use assms(4,5) in \<open>simp add: device_open_def serial_open_def files_only_sel\<close>)

text \<open>A new object at the next address.\<close>

lemma settled_next:
  assumes "settled C p k" "cc k' = cc k" "env_yield k' = env_yield k" "malloc_ok k' = malloc_ok k" "devnum k' = devnum k"
    "next_addr k' = Suc (next_addr k)" "\<And>a. a \<noteq> next_addr k \<Longrightarrow> scbs k' a = scbs k a \<and> pipes k' a = pipes k a"
  shows "settled C p k'"
proof (rule settled_cong [OF assms(1)])
  show "runs C p (cc k') k" using settledD(3) [OF assms(1)] assms(2) by simp
  show "fresh_above k'" using settledD(6) [OF assms(1)] assms(6,7) by (simp add: fresh_above_def)
qed (simp_all add: assms)

lemma socket_ok:
  assumes b: "bench C p T k" and c: "c \<in> C" and i: "next_fids 1 T = [i]" and prt: "0 \<le> prt" "prt \<le> int MAX_PORT"
  shows "\<exists>k'. sys_Socket c prt k = Inr (int i, k') \<and> bench C p (T(i \<mapsto> (Scb_obj (next_addr k), Socket_ops))) k' \<and>
     rest k' = (cc k, pipes k, (scbs k)(next_addr k \<mapsto> new_scb (nat prt) i), conn_reqs k, PortMap k, devnum k, Suc (next_addr k))"
proof -
  have l: "length (next_fids 1 T) = 1" using i by simp
  obtain fcbs k1 where R: "FCB_reserve c 1 k = Inr (Some ([i], fcbs), k1)" "files_only k k1" "length fcbs = 1" "distinct fcbs"
    "fills C p T [i] fcbs k1"
    by (rule reserve_ok [OF b c l, unfolded i]) (rule that; assumption)
  obtain f where f: "fcbs = [f]" using R(3) by (auto simp: length_Suc_conv)
  define a where "a = next_addr k"
  have s1: "settled C p k1" by (rule settled_files_only [OF R(2) benchD(3) [OF b]])
  note S = files_only_sel [OF R(2)]
  let ?k2 = "k1\<lparr>next_addr := Suc a, scbs := (scbs k1)(a \<mapsto> new_scb (nat prt) i)\<rparr>"
  let ?k = "upd_fcb f (\<lambda>b. b\<lparr>streamobj := Scb_obj a, streamfunc := Some Socket_ops\<rparr>) ?k2"
  have e: "sys_Socket c prt k = Inr (int i, ?k)"
    using R(1) f prt settledD(4) [OF s1] by (simp add: sys_Socket_def malloc_def Let_def S a_def new_scb_def)
  have "settled C p ?k" by (rule settled_next [OF s1]) (simp_all add: S a_def)
  then have "bench C p (\<lambda>j. if j \<in> set [i] then map_option (\<lambda>_. (Scb_obj a, Socket_ops)) (map_of (zip [i] fcbs) j) else T j) ?k"
    by (intro fillsD [OF R(5)]) (simp_all add: f stream_upd, simp add: stream_def)
  then have "bench C p (T(i \<mapsto> (Scb_obj a, Socket_ops))) ?k" unfolding f one_slot .
  moreover have "rest ?k = (cc k, pipes k, (scbs k)(next_addr k \<mapsto> new_scb (nat prt) i), conn_reqs k, PortMap k, devnum k, Suc (next_addr k))"
    by (simp add: rest_def S a_def)
  ultimately show ?thesis using e unfolding a_def by blast
qed

lemma pipe_ok:
  assumes b: "bench C p T k" and c: "c \<in> C" and ij: "next_fids 2 T = [i, j]"
  shows "\<exists>k'. sys_Pipe c k = Inr (Some (int i, int j), k') \<and> i \<noteq> j \<and>
     bench C p (T(i \<mapsto> (Pipe_obj (next_addr k), Reader_ops), j \<mapsto> (Pipe_obj (next_addr k), Writer_ops))) k' \<and>
     rest k' = (cc k, (pipes k)(next_addr k \<mapsto> empty_pipe), scbs k, conn_reqs k, PortMap k, devnum k, Suc (next_addr k))"
proof -
  have l: "length (next_fids 2 T) = 2" using ij by simp
  obtain fcbs k1 where R: "FCB_reserve c 2 k = Inr (Some ([i, j], fcbs), k1)" "files_only k k1" "length fcbs = 2" "distinct fcbs"
    "fills C p T [i, j] fcbs k1"
    by (rule reserve_ok [OF b c l, unfolded ij]) (rule that; assumption)
  obtain r w where f: "fcbs = [r, w]" using R(3) by (auto simp: length_Suc_conv numeral_2_eq_2)
  have rw: "r \<noteq> w" using R(4) f by simp
  have ne: "i \<noteq> j" using find_fids_props(2) [of 2 0 _ "[i, j]"] ij by (force simp: next_fids_def)
  define a where "a = next_addr k"
  have s1: "settled C p k1" by (rule settled_files_only [OF R(2) benchD(3) [OF b]])
  note S = files_only_sel [OF R(2)]
  let ?k2 = "k1\<lparr>next_addr := Suc a, pipes := (pipes k1)(a \<mapsto> empty_pipe)\<rparr>"
  let ?k = "upd_fcb w (\<lambda>b. b\<lparr>streamobj := Pipe_obj a, streamfunc := Some Writer_ops\<rparr>)
     (upd_fcb r (\<lambda>b. b\<lparr>streamobj := Pipe_obj a, streamfunc := Some Reader_ops\<rparr>) ?k2)"
  have "get_pipe k1 = (Some a, ?k2)" using settledD(4) [OF s1] by (simp add: get_pipe_ok S a_def)
  then have e: "sys_Pipe c k = Inr (Some (int i, int j), ?k)" using R(1) f by (simp add: sys_Pipe_def Let_def)
  have s: "settled C p ?k" by (rule settled_next [OF s1]) (simp_all add: S a_def)
  let ?S = "\<lambda>g. (Pipe_obj a, if g = r then Reader_ops else Writer_ops)"
  have "bench C p (\<lambda>l. if l \<in> set [i, j] then map_option ?S (map_of (zip [i, j] fcbs) l) else T l) ?k"
    using s rw by (intro fillsD [OF R(5)]) (auto simp: f stream_upd, auto simp: stream_def)
  moreover have "(\<lambda>l. if l \<in> set [i, j] then map_option ?S (map_of (zip [i, j] fcbs) l) else T l) =
      T(i \<mapsto> (Pipe_obj a, Reader_ops), j \<mapsto> (Pipe_obj a, Writer_ops))"
    using ne rw by (auto simp: f fun_eq_iff)
  ultimately have "bench C p (T(i \<mapsto> (Pipe_obj a, Reader_ops), j \<mapsto> (Pipe_obj a, Writer_ops))) ?k" by simp
  moreover have "rest ?k = (cc k, (pipes k)(next_addr k \<mapsto> empty_pipe), scbs k, conn_reqs k, PortMap k, devnum k, Suc (next_addr k))"
    by (simp add: rest_def S a_def)
  ultimately show ?thesis using e ne unfolding a_def by blast
qed

definition closing :: "nat \<Rightarrow> nat \<Rightarrow> nat \<Rightarrow> kernel \<Rightarrow> kernel" where
  "closing p i f k = upd_fcb f (\<lambda>b. b\<lparr>refcount := refcount b - 1\<rparr>) (set_fid p i None k)"

lemma files_only_closing: "files_only k (closing p i f k)"
  unfolding closing_def by (rule files_only_trans [OF files_only_set_fid files_only_refcount])

lemma close_eq:
  assumes b: "bench C p T k" and c: "c \<in> C" and t: "T i = Some (obj, ops)" and f: "fds k p i = Some f"
  shows "sys_Close c (int i) k = bindE (stream_close c ops obj (closing p i f k)) (\<lambda>(n, k2). Inr (n, release_FCB f k2))"
proof -
  obtain g where g: "fds k p i = Some g" "sole k p i g" "streamobj (FT k g) = obj" "streamfunc (FT k g) = Some ops" "i < MAX_FILEID"
    by (rule bench_some [OF b t])
  with f have gf: "g = f" by simp
  have "get_fcb c (int i) k = Inr (Some f)" using benchD(5) [OF b c] f g(5) by (simp add: get_fcb_def fds_def)
  moreover have "refcount (FT k f) = 1" using bench_refcount [OF b f] g(2) gf by simp
  ultimately show ?thesis
    using benchD(5) [OF b c] g(3,4,5) gf
    by (simp add: sys_Close_def Let_def FCB_decref_def closing_def nonnullE_def)
qed

lemma close_bench:
  assumes b: "bench C p T k" and c: "c \<in> C" and t: "T i = Some (obj, ops)" and f: "fds k p i = Some f"
    and r: "stream_close c ops obj (closing p i f k) = Inr (n, k2)" and st: "stream k2 = stream k"
    and fl: "FCB_freelist k2 = FCB_freelist k" and pt: "PT k2 = PT (closing p i f k)" and s: "settled C p k2"
  shows "bench C p (T(i := None)) (release_FCB f k2)"
proof -
  note B = benchD [OF b]
  let ?k = "release_FCB f k2"
  have i: "i < MAX_FILEID" using f by (rule fds_bound)
  have g: "sole k p i f" using bench_some [OF b t] f by (metis option.inject)
  have e: "sys_Close c (int i) k = Inr (n, ?k)" using close_eq [OF b c t f] r by simp
  have pt2: "fds ?k q j = (if q = p \<and> j = i then None else fds k q j)" for q j
    by (simp add: fds_def release_FCB_def pt closing_def)
  have at: "fid_at ?k x = (if x = (p, i) then None else fid_at k x)" for x
    by (cases x) (auto simp: fid_at_def release_FCB_def pt closing_def)
  have sl: "slot ?k p j ((T(i := None)) j)" for j
  proof (cases "j = i")
    case True
    then show ?thesis by (simp add: slot_def pt2)
  next
    case False
    have "sole ?k p j h" if "sole k p j h" "fds k p j = Some h" for h
    proof -
      have "fid_at k (p, i) \<noteq> Some h" using that(1) False i B(2) by (auto simp: sole_def fid_slots_def)
      then show ?thesis using that(1) False by (auto simp: sole_def at)
    qed
    moreover have "stream ?k = stream k" unfolding st [symmetric] by (rule ext) (simp add: stream_def release_FCB_def)
    ultimately show ?thesis using B(4) [of j] False by (auto simp: slot_def pt2 split: option.splits prod.splits)
  qed
  have "{j. j < MAX_FILEID \<and> (T(i := None)) j = None} = insert i {j. j < MAX_FILEID \<and> T j = None}" using i by auto
  then have "card {j. j < MAX_FILEID \<and> (T(i := None)) j = None} \<le> Suc (card {j. j < MAX_FILEID \<and> T j = None})"
    by (simp add: card_insert_le_m1 card_insert_if)
  moreover have "length (FCB_freelist ?k) = Suc (length (FCB_freelist k))" by (simp add: release_FCB_def fl)
  moreover have "settled C p ?k" by (rule settled_files_only [OF files_only_release s])
  ultimately show ?thesis
    using sys_Close_inv(1) [OF B(1) B(5) [OF c] B(2) e] B(2,8) sl by (simp add: bench_def)
qed

text \<open>The null and the serial devices do nothing when they are closed.\<close>

lemma close_device_ok:
  assumes b: "bench C p T k" and c: "c \<in> C" and t: "T i = Some (obj, ops)" and d: "ops = Nulldev_fops \<or> ops = Serial_fops"
  shows "\<exists>k'. sys_Close c (int i) k = Inr (0, k') \<and> bench C p (T(i := None)) k' \<and> rest k' = rest k"
proof -
  obtain f where f: "fds k p i = Some f" by (rule bench_some [OF b t])
  let ?k1 = "closing p i f k"
  have r: "stream_close c ops obj ?k1 = Inr (0, ?k1)" using d by (auto simp: stream_close_def nulldev_close_def serial_close_def)
  have "bench C p (T(i := None)) (release_FCB f ?k1)"
    by (rule close_bench [OF b c t f r])
      (use stream_files_only [OF files_only_closing] settled_files_only [OF files_only_closing benchD(3) [OF b]] in \<open>simp_all add: closing_def\<close>)
  moreover have "rest (release_FCB f ?k1) = rest k"
    by (rule rest_files_only [OF files_only_trans [OF files_only_closing files_only_release]])
  ultimately show ?thesis using close_eq [OF b c t f] r by simp
qed

section \<open>Reading and writing\<close>

lemma runs_woken:
  assumes "runs C p (cc k) k" "woken cv ws (cc k) s"
  shows "runs C p s k"
proof -
  have "CURPROC c (k\<lparr>cc := s\<rparr>) = Inr p" if "CURPROC c k = Inr p" for c
    using that assms(2)
    by (auto simp: CURPROC_def CURTHREAD_def tcb_of_def woken_def derefE_def nonnullE_def split: option.splits)
  then show ?thesis using assms wokenD(1) [OF assms(2)] by (simp add: runs_def)
qed

lemma bench_cong:
  assumes b: "bench C p T k" and s: "settled C p k'" and f: "FCB_freelist k' = FCB_freelist k" "FT k' = FT k" "PT k' = PT k"
  shows "bench C p T k'"
proof -
  note B = benchD [OF b]
  have "files_inv (\<lambda>_. 0) k'" using B(1) files_upto_cong [of k' k "{}" "\<lambda>_. 0"] f by simp
  moreover have "fds k' = fds k" "fid_at k' = fid_at k" "stream k' = stream k"
    using f by (simp_all add: fun_eq_iff fds_def fid_at_def stream_def)
  then have "slot k' p i (T i) = slot k p i (T i)" for i by (simp add: slot_def sole_def split: option.split)
  then have "slot k' p i (T i)" for i using B(4) [of i] by simp
  ultimately show ?thesis using B(2,8) s f(1) by (simp add: bench_def)
qed

lemma bench_cc_pipe:
  assumes b: "bench C p T k" and s: "runs C p s k" and a: "pipes k a \<noteq> None"
  shows "bench C p T (k\<lparr>cc := s, pipes := (pipes k)(a \<mapsto> q)\<rparr>)"
proof -
  note S = benchD(3) [OF b]
  have "settled C p (k\<lparr>cc := s, pipes := (pipes k)(a \<mapsto> q)\<rparr>)"
    by (rule settled_cong [OF S]) (use s a settledD(6) [OF S] in \<open>auto simp: fresh_above_def\<close>)
  then show ?thesis by (rule bench_cong [OF b]) simp_all
qed

text \<open>The descriptor's count goes up and down again.\<close>

lemma bracket:
  assumes b: "bench C p T k" and f: "fds k p i = Some f" and g: "sole k p i f"
  shows "drop_ref c f (Done x, (FCB_incref f k)\<lparr>cc := s, pipes := P\<rparr>) = Inr (Done x, k\<lparr>cc := s, pipes := P\<rparr>)"
proof -
  have one: "refcount (FT k f) = 1" by (rule bench_refcount [OF b f g])
  have "upd_fcb f (\<lambda>b. b\<lparr>refcount := refcount b - 1\<rparr>) ((FCB_incref f k)\<lparr>cc := s, pipes := P\<rparr>) = k\<lparr>cc := s, pipes := P\<rparr>"
    by (simp add: upd_fcb_def FCB_incref_def)
  then have "FCB_decref c f ((FCB_incref f k)\<lparr>cc := s, pipes := P\<rparr>) = Inr (0, k\<lparr>cc := s, pipes := P\<rparr>)"
    unfolding FCB_decref_def by (simp only: Let_def) (simp add: one)
  then show ?thesis by (simp add: drop_ref_def)
qed

lemma bracket_same:
  assumes "bench C p T k" and "fds k p i = Some f" and "sole k p i f"
  shows "drop_ref c f (Done x, FCB_incref f k) = Inr (Done x, k)"
proof -
  have "FCB_incref f k = (FCB_incref f k)\<lparr>cc := cc k, pipes := pipes k\<rparr>" by (simp add: FCB_incref_def upd_fcb_def)
  then show ?thesis using bracket [OF assms, where s = "cc k" and P = "pipes k"] by simp
qed

lemma bench_get:
  assumes b: "bench C p T k" and c: "c \<in> C" and t: "T i = Some (obj, ops)"
  obtains f where "get_fcb c (int i) k = Inr (Some f)" "fds k p i = Some f" "sole k p i f" "streamobj (FT k f) = obj"
    "streamfunc (FT k f) = Some ops" "i < MAX_FILEID"
proof -
  obtain f where f: "fds k p i = Some f" "sole k p i f" "streamobj (FT k f) = obj" "streamfunc (FT k f) = Some ops" "i < MAX_FILEID"
    by (rule bench_some [OF b t])
  moreover have "get_fcb c (int i) k = Inr (Some f)" using benchD(5) [OF b c] f(1,5) by (simp add: get_fcb_def fds_def)
  ultimately show ?thesis using that by blast
qed

lemma bench_get_none:
  assumes "bench C p T k" and "c \<in> C" and "T i = None" and "i < MAX_FILEID"
  shows "get_fcb c (int i) k = Inr None"
  using assms benchD(5) [OF assms(1,2)] bench_none [OF assms(1,3)] by (simp add: get_fcb_def fds_def)

text \<open>The pipe that a stream writes to or reads from, and what is in it.\<close>

definition writes_to :: "kernel \<Rightarrow> streamobj \<times> file_ops \<Rightarrow> nat \<Rightarrow> bool" where
  "writes_to k x a \<longleftrightarrow> x = (Pipe_obj a, Writer_ops) \<or>
     (\<exists>b s. x = (Scb_obj b, Socket_ops) \<and> scbs k b = Some s \<and> stype s = PEER \<and> peer s \<noteq> None \<and> send s = Some a)"

definition reads_from :: "kernel \<Rightarrow> streamobj \<times> file_ops \<Rightarrow> nat \<Rightarrow> bool" where
  "reads_from k x a \<longleftrightarrow> x = (Pipe_obj a, Reader_ops) \<or>
     (\<exists>b s. x = (Scb_obj b, Socket_ops) \<and> scbs k b = Some s \<and> stype s = PEER \<and> peer s \<noteq> None \<and> receive s = Some a)"

definition chan :: "kernel \<Rightarrow> nat \<Rightarrow> byte list \<Rightarrow> bool \<Rightarrow> bool \<Rightarrow> bool" where
  "chan k a bs rc wc \<longleftrightarrow> (\<exists>q. pipes k a = Some q \<and> pipe_inv q \<and> contents q = bs \<and> reader_closed q = rc \<and> writer_closed q = wc)"

lemma write_ok:
  assumes b: "bench C p T k" and c: "c \<in> C" and t: "T i = Some x" "writes_to k x a"
    and q: "chan k a bs False False" and n: "unat sz = n" "0 < n" "length bs + n \<le> BUFF_SIZE"
  shows "\<exists>s q. sys_Write c (int i) buf sz k = Inr (Done (int n), k\<lparr>cc := s, pipes := (pipes k)(a \<mapsto> q)\<rparr>) \<and>
    bench C p T (k\<lparr>cc := s, pipes := (pipes k)(a \<mapsto> q)\<rparr>) \<and>
    chan (k\<lparr>cc := s, pipes := (pipes k)(a \<mapsto> q)\<rparr>) a (bs @ map buf [0..<n]) False False"
proof -
  obtain obj ops where x: "x = (obj, ops)" by (cases x)
  obtain f where f: "get_fcb c (int i) k = Inr (Some f)" "fds k p i = Some f" "sole k p i f" "streamobj (FT k f) = obj"
    "streamfunc (FT k f) = Some ops" "i < MAX_FILEID"
    by (rule bench_get [OF b c t(1) [unfolded x]])
  obtain q0 where q0: "pipes k a = Some q0" "pipe_inv q0" "contents q0 = bs" "\<not> reader_closed q0" "\<not> writer_closed q0"
    using q by (auto simp: chan_def)
  let ?k = "FCB_incref f k"
  have u: "used q0 = length bs" using q0(3) length_contents [of q0] by simp
  then have "used q0 < BUFF_SIZE" using n(2,3) by linarith
  moreover have "pipes ?k a = Some q0" "cc_inv (cc ?k)" using q0(1) benchD(6) [OF b] by (simp_all add: FCB_incref_def)
  ultimately obtain s q' m where w: "pipe_write_resume a buf sz ?k = Inr (Done (int m), ?k\<lparr>cc := s, pipes := (pipes ?k)(a \<mapsto> q')\<rparr>)"
     "woken (Pipe_has_data a) (waitset (cc ?k) (Pipe_has_data a)) (cc ?k) s" "pipe_inv q'"
     "contents q' = contents q0 @ map buf [0..<m]" "m = span_of sz (BUFF_SIZE - used q0)"
     "reader_closed q' = reader_closed q0" "writer_closed q' = writer_closed q0"
    using pipe_write_Done [of ?k a q0 buf sz] q0(2) by blast
  have m: "m = n" using w(5) n u by (auto simp: span_of_def)
  have pw: "pipe_write a buf sz ?k = Inr (Done (int n), ?k\<lparr>cc := s, pipes := (pipes k)(a \<mapsto> q')\<rparr>)"
    using w(1) q0 m by (simp add: pipe_write_def FCB_incref_def)
  have "stream_write ops obj buf sz ?k = Inr (Done (int n), ?k\<lparr>cc := s, pipes := (pipes k)(a \<mapsto> q')\<rparr>)" "has_write ops"
    using t(2) pw
    by (auto simp: x writes_to_def stream_write_def pipe_of_def as_scb_def socket_write_def socket_write_pipe_def FCB_incref_def has_write_def)
  then have "sys_Write c (int i) buf sz k = Inr (Done (int n), k\<lparr>cc := s, pipes := (pipes k)(a \<mapsto> q')\<rparr>)"
    using f(1,4,5) bracket [OF b f(2,3)] by (simp add: sys_Write_def Let_def)
  moreover have "runs C p s k"
    by (rule runs_woken [OF settledD(3) [OF benchD(3) [OF b]]]) (use w(2) in \<open>simp add: FCB_incref_def\<close>)
  ultimately show ?thesis
    using bench_cc_pipe [OF b, of s a q'] q0 w(3,4,6,7) m by (intro exI [of _ s] exI [of _ q']) (simp add: chan_def)
qed

lemma read_ok:
  assumes b: "bench C p T k" and c: "c \<in> C" and t: "T i = Some x" "reads_from k x a"
    and q: "chan k a (ds @ bs) rc wc" and n: "unat sz = length ds" "ds \<noteq> []"
  shows "\<exists>s q. sys_Read run c (int i) sz k = Inr (Done (int (length ds), Bytes ds), k\<lparr>cc := s, pipes := (pipes k)(a \<mapsto> q)\<rparr>) \<and>
    bench C p T (k\<lparr>cc := s, pipes := (pipes k)(a \<mapsto> q)\<rparr>) \<and>
    chan (k\<lparr>cc := s, pipes := (pipes k)(a \<mapsto> q)\<rparr>) a bs rc wc"
proof -
  obtain obj ops where x: "x = (obj, ops)" by (cases x)
  obtain f where f: "get_fcb c (int i) k = Inr (Some f)" "fds k p i = Some f" "sole k p i f" "streamobj (FT k f) = obj"
    "streamfunc (FT k f) = Some ops" "i < MAX_FILEID"
    by (rule bench_get [OF b c t(1) [unfolded x]])
  obtain q0 where q0: "pipes k a = Some q0" "pipe_inv q0" "contents q0 = ds @ bs" "reader_closed q0 = rc" "writer_closed q0 = wc"
    using q by (auto simp: chan_def)
  let ?k = "FCB_incref f k"
  have ne: "contents q0 \<noteq> []" using q0(3) n(2) by simp
  have "pipes ?k a = Some q0" "cc_inv (cc ?k)" using q0(1) benchD(6) [OF b] by (simp_all add: FCB_incref_def)
  then obtain s q' ds' where r: "pipe_read a sz ?k = Inr (Done (int (length ds'), ds'), ?k\<lparr>cc := s, pipes := (pipes ?k)(a \<mapsto> q')\<rparr>)"
     "woken (Pipe_has_space a) (waitset (cc ?k) (Pipe_has_space a)) (cc ?k) s" "pipe_inv q'"
     "contents q0 = ds' @ contents q'" "length ds' = span_of sz (used q0)"
     "reader_closed q' = reader_closed q0" "writer_closed q' = writer_closed q0"
    using pipe_read_Done [of ?k a q0 sz] q0(2) ne by blast
  have "used q0 = length ds + length bs" using q0(3) length_contents [of q0] by simp
  then have "length ds' = length ds" using r(5) n by (auto simp: span_of_def)
  then have ds: "ds' = ds" "contents q' = bs" using r(4) q0(3) by simp_all
  have pr: "pipe_read a sz ?k = Inr (Done (int (length ds), ds), ?k\<lparr>cc := s, pipes := (pipes k)(a \<mapsto> q')\<rparr>)"
    using r(1) ds by (simp add: FCB_incref_def)
  have "stream_read run c ops obj sz ?k = Inr (Done (int (length ds), Bytes ds), ?k\<lparr>cc := s, pipes := (pipes k)(a \<mapsto> q')\<rparr>)" "has_read ops"
    using t(2) pr
    by (auto simp: x reads_from_def stream_read_def pipe_of_def as_scb_def socket_read_def socket_read_pipe_def FCB_incref_def
        bytes_read_def has_read_def)
  then have "sys_Read run c (int i) sz k = Inr (Done (int (length ds), Bytes ds), k\<lparr>cc := s, pipes := (pipes k)(a \<mapsto> q')\<rparr>)"
    using f(1,4,5) bracket [OF b f(2,3)] by (simp add: sys_Read_def Let_def)
  moreover have "runs C p s k"
    by (rule runs_woken [OF settledD(3) [OF benchD(3) [OF b]]]) (use r(2) in \<open>simp add: FCB_incref_def\<close>)
  ultimately show ?thesis
    using bench_cc_pipe [OF b, of s a q'] q0 r(3,6,7) ds by (intro exI [of _ s] exI [of _ q']) (simp add: chan_def)
qed

lemma read_end:
  assumes b: "bench C p T k" and c: "c \<in> C" and t: "T i = Some x" "reads_from k x a" and q: "chan k a [] rc True"
  shows "sys_Read run c (int i) sz k = Inr (Done (0, Bytes []), k)"
proof -
  obtain obj ops where x: "x = (obj, ops)" by (cases x)
  obtain f where f: "get_fcb c (int i) k = Inr (Some f)" "fds k p i = Some f" "sole k p i f" "streamobj (FT k f) = obj"
    "streamfunc (FT k f) = Some ops" "i < MAX_FILEID"
    by (rule bench_get [OF b c t(1) [unfolded x]])
  obtain q0 where q0: "pipes k a = Some q0" "pipe_inv q0" "contents q0 = []" "writer_closed q0"
    using q by (auto simp: chan_def)
  let ?k = "FCB_incref f k"
  have "pipe_read a sz ?k = Inr (Done (0, []), ?k)"
    using q0 empty_iff [OF q0(2)] by (simp add: pipe_read_def FCB_incref_def)
  then have "stream_read run c ops obj sz ?k = Inr (Done (0, Bytes []), ?k)" "has_read ops"
    using t(2)
    by (auto simp: x reads_from_def stream_read_def pipe_of_def as_scb_def socket_read_def socket_read_pipe_def FCB_incref_def
        bytes_read_def has_read_def)
  then show ?thesis using f(1,4,5) bracket_same [OF b f(2,3)] by (simp add: sys_Read_def Let_def)
qed

text \<open>The null device.\<close>

lemma null_rw:
  assumes b: "bench C p T k" and c: "c \<in> C" and t: "T i = Some (Null_object, Nulldev_fops)"
  shows "sys_Read run c (int i) sz k = Inr (Done (sint sz, Bytes (replicate (unat sz) 0)), k)"
    and "sys_Write c (int i) buf sz k = Inr (Done (sint sz), k)"
proof -
  obtain f where f: "get_fcb c (int i) k = Inr (Some f)" "fds k p i = Some f" "sole k p i f" "streamobj (FT k f) = Null_object"
    "streamfunc (FT k f) = Some Nulldev_fops" "i < MAX_FILEID"
    by (rule bench_get [OF b c t])
  note d = bracket_same [OF b f(2,3)]
  show "sys_Write c (int i) buf sz k = Inr (Done (sint sz), k)"
    using f d by (simp add: sys_Write_def Let_def has_write_def stream_write_def nulldev_write_def)
  show "sys_Read run c (int i) sz k = Inr (Done (sint sz, Bytes (replicate (unat sz) 0)), k)"
    using f d by (simp add: sys_Read_def Let_def has_read_def stream_read_def nulldev_read_def bytes_read_def)
qed

text \<open>Closing the two ends of a pipe.\<close>

lemma broadcast_runs:
  assumes "runs C p (cc k) k"
  obtains s where "on_cc (Cond_Broadcast cv) k = Inr (k\<lparr>cc := s\<rparr>)" "runs C p s k"
proof -
  have "cc_inv (cc k)" using assms by (simp add: runs_def)
  from on_cc_broadcast [OF this, of cv] obtain s where
    "on_cc (Cond_Broadcast cv) k = Inr (k\<lparr>cc := s\<rparr>)" "woken cv (waitset (cc k) cv) (cc k) s" .
  with runs_woken [OF assms] that show ?thesis by blast
qed

lemma writer_close_runs:
  assumes r: "runs C p (cc k) k" and q: "pipes k a = Some q"
  obtains s where "writer_close (Some a) k = Inr (0, k\<lparr>cc := s, pipes := (pipes k)(a \<mapsto> q\<lparr>writer_closed := True\<rparr>)\<rparr>)" "runs C p s k"
proof (cases "writer_closed q")
  case True
  then have "writer_close (Some a) k = Inr (0, k)" "q\<lparr>writer_closed := True\<rparr> = q" using q by (simp_all add: writer_close_def)
  moreover have "(pipes k)(a \<mapsto> q) = pipes k" using q by (simp add: fun_upd_idem)
  ultimately show ?thesis using that [of "cc k"] r by simp
next
  case False
  let ?k1 = "upd_pipe a (\<lambda>p. p\<lparr>writer_closed := True\<rparr>) k"
  have "runs C p (cc ?k1) ?k1" using r by (simp add: runs_cong [of C p "cc k" ?k1 k])
  then obtain s where s: "on_cc (Cond_Broadcast (Pipe_has_data a)) ?k1 = Inr (?k1\<lparr>cc := s\<rparr>)" "runs C p s ?k1"
    by (rule broadcast_runs)
  have "?k1\<lparr>cc := s\<rparr> = k\<lparr>cc := s, pipes := (pipes k)(a \<mapsto> q\<lparr>writer_closed := True\<rparr>)\<rparr>" using q by (simp add: upd_pipe_def)
  with s q False that [of s] runs_cong [of C p s ?k1 k] show ?thesis by (simp add: writer_close_def)
qed

lemma reader_close_runs:
  assumes r: "runs C p (cc k) k" and q: "pipes k a = Some q" "\<not> reader_closed q"
  obtains s where "reader_close (Some a) k = Inr (0, k\<lparr>cc := s, pipes := (pipes k)(a := None)\<rparr>)" "runs C p s k"
proof -
  let ?k1 = "upd_pipe a (\<lambda>p. p\<lparr>reader_closed := True\<rparr>) k"
  have "runs C p (cc ?k1) ?k1" using r by (simp add: runs_cong [of C p "cc k" ?k1 k])
  then obtain s1 where s1: "on_cc (Cond_Broadcast (Pipe_has_space a)) ?k1 = Inr (?k1\<lparr>cc := s1\<rparr>)" "runs C p s1 ?k1"
    by (rule broadcast_runs)
  let ?k2 = "?k1\<lparr>cc := s1\<rparr>"
  have "runs C p (cc ?k2) ?k2" using s1(2) by (simp add: runs_cong [of C p s1 ?k2 ?k1])
  moreover have "pipes ?k2 a = Some (q\<lparr>reader_closed := True\<rparr>)" using q(1) by simp
  ultimately obtain s2 where s2: "writer_close (Some a) ?k2 =
      Inr (0, ?k2\<lparr>cc := s2, pipes := (pipes ?k2)(a \<mapsto> q\<lparr>reader_closed := True, writer_closed := True\<rparr>)\<rparr>)" "runs C p s2 ?k2"
    by (rule writer_close_runs) (simp add: that)
  have "free_pipe a (?k2\<lparr>cc := s2, pipes := (pipes ?k2)(a \<mapsto> q\<lparr>reader_closed := True, writer_closed := True\<rparr>)\<rparr>) =
      k\<lparr>cc := s2, pipes := (pipes k)(a := None)\<rparr>"
    by (simp add: free_pipe_def upd_pipe_def)
  moreover have "runs C p s2 k" using s2(2) by (simp add: runs_cong [of C p s2 ?k2 k])
  ultimately show ?thesis using that [of s2] q s1(1) s2(1) by (simp add: reader_close_def)
qed

text \<open>A table whose first \<open>n\<close> descriptors are in use.\<close>

definition prefix_used :: "nat \<Rightarrow> streams \<Rightarrow> bool" where
  "prefix_used n T \<longleftrightarrow> (\<forall>i. T i = None \<longleftrightarrow> n \<le> i)"

lemma prefix_used_next: "prefix_used n T \<Longrightarrow> n < MAX_FILEID \<Longrightarrow> next_fids 1 T = [n]"
  unfolding next_fids_def by (rule find_first) (simp_all add: prefix_used_def)

lemma prefix_used_full: "prefix_used n T \<Longrightarrow> MAX_FILEID \<le> n \<Longrightarrow> 0 < m \<Longrightarrow> next_fids m T = []"
  using find_fids_props(3) [of m 0 "\<lambda>i. map_option (\<lambda>_. 0) (T i)"]
  by (cases "next_fids m T") (auto simp: next_fids_def prefix_used_def)

lemma prefix_used_next_two:
  assumes "prefix_used n T" "Suc n < MAX_FILEID"
  shows "next_fids 2 T = [n, Suc n]"
proof -
  let ?g = "\<lambda>i. map_option (\<lambda>_. 0) (T i)"
  have "find (\<lambda>i. ?g i = None) [0..<MAX_FILEID] = Some n"
    unfolding find_Some_iff by (rule exI [of _ n]) (use assms in \<open>simp add: prefix_used_def\<close>)
  moreover have "find (\<lambda>i. ?g i = None) [Suc n..<MAX_FILEID] = Some (Suc n)"
    unfolding find_Some_iff by (rule exI [of _ 0]) (use assms in \<open>simp add: prefix_used_def\<close>)
  ultimately show ?thesis unfolding next_fids_def numeral_2_eq_2 find_fids.simps by simp
qed

lemma prefix_used_add:
  assumes "prefix_used n T"
  shows "prefix_used (Suc n) (T(n \<mapsto> x))"
proof -
  have "(T(n \<mapsto> x)) i = None \<longleftrightarrow> Suc n \<le> i" for i
    using assms unfolding prefix_used_def by (cases "i = n") (simp, simp add: Suc_le_eq order_less_le)
  then show ?thesis by (simp add: prefix_used_def)
qed

lemma prefix_used_empty [simp]: "prefix_used 0 Map.empty"
  by (simp add: prefix_used_def)

lemma close_pipe_ok:
  assumes b: "bench C p T k" and c: "c \<in> C" and t: "T i = Some (Pipe_obj a, ops)" and q: "pipes k a = Some q"
    and o: "ops = Writer_ops \<and> q' = Some (q\<lparr>writer_closed := True\<rparr>) \<or> ops = Reader_ops \<and> \<not> reader_closed q \<and> q' = None"
  shows "\<exists>s k'. sys_Close c (int i) k = Inr (0, k') \<and> bench C p (T(i := None)) k' \<and>
     rest k' = (s, (pipes k)(a := q'), scbs k, conn_reqs k, PortMap k, devnum k, next_addr k)"
proof -
  obtain f where f: "fds k p i = Some f" by (rule bench_some [OF b t])
  let ?k1 = "closing p i f k"
  note S = files_only_sel [OF files_only_closing [of k p i f]]
  have s1: "settled C p ?k1" by (rule settled_files_only [OF files_only_closing benchD(3) [OF b]])
  have q1: "pipes ?k1 a = Some q" using q by (simp add: S)
  obtain s where s: "stream_close c ops (Pipe_obj a) ?k1 = Inr (0, ?k1\<lparr>cc := s, pipes := (pipes k)(a := q')\<rparr>)" "runs C p s ?k1"
  proof (cases "ops = Writer_ops")
    case True
    obtain s where "writer_close (Some a) ?k1 = Inr (0, ?k1\<lparr>cc := s, pipes := (pipes ?k1)(a \<mapsto> q\<lparr>writer_closed := True\<rparr>)\<rparr>)" "runs C p s ?k1"
      by (rule writer_close_runs [OF settledD(3) [OF s1] q1])
    with that [of s] True o show ?thesis by (auto simp: stream_close_def pipe_or_null_def pipe_of_def S)
  next
    case False
    with o have r: "ops = Reader_ops" "\<not> reader_closed q" "q' = None" by auto
    obtain s where "reader_close (Some a) ?k1 = Inr (0, ?k1\<lparr>cc := s, pipes := (pipes ?k1)(a := None)\<rparr>)" "runs C p s ?k1"
      by (rule reader_close_runs [OF settledD(3) [OF s1] q1 r(2)])
    with that [of s] r show ?thesis by (auto simp: stream_close_def pipe_or_null_def pipe_of_def S)
  qed
  let ?k2 = "?k1\<lparr>cc := s, pipes := (pipes k)(a := q')\<rparr>"
  have "settled C p ?k2"
    by (rule settled_cong [OF s1]) (use s(2) settledD(6) [OF s1] q in \<open>auto simp: fresh_above_def S\<close>)
  then have "bench C p (T(i := None)) (release_FCB f ?k2)"
    by (intro close_bench [OF b c t f s(1)]) (simp_all add: stream_def fun_eq_iff S closing_def)
  moreover have "rest (release_FCB f ?k2) = (s, (pipes k)(a := q'), scbs k, conn_reqs k, PortMap k, devnum k, next_addr k)"
    using rest_files_only [OF files_only_release [of ?k2 f]] by (simp add: rest_def S)
  ultimately show ?thesis using close_eq [OF b c t f] s(1) by auto
qed

end
