(* ===== verification/SocketBench.thy ===== *)
theory SocketBench
  imports TestBench
begin

text \<open>
  What the calls on sockets do in the process of a test: listening, connecting, accepting, shutting down and closing, each in any
  state that satisfies \<open>bench\<close>.
\<close>

section \<open>Descriptors of sockets\<close>

lemma no_fid:
  assumes "bench C p T k" "c \<in> C" "fd < 0 \<or> int MAX_FILEID \<le> fd \<or> T (nat fd) = None"
  shows "get_fcb c fd k = Inr None"
proof (cases "fd < 0 \<or> int MAX_FILEID \<le> fd")
  case False
  then show ?thesis using bench_get_none [OF assms(1,2), of "nat fd"] assms(3) by auto
qed (auto simp: get_fcb_def)

lemma no_socket: "get_fcb c fd k = Inr None \<Longrightarrow> socket_of_fid c fd k = Inr None"
  by (simp add: socket_of_fid_def)

lemma other_socket: "bench C p T k \<Longrightarrow> c \<in> C \<Longrightarrow> T i = Some (obj, ops) \<Longrightarrow> ops \<noteq> Socket_ops \<Longrightarrow> socket_of_fid c (int i) k = Inr None"
  by (erule (2) bench_get) (simp add: socket_of_fid_def)

lemma socket_at: "bench C p T k \<Longrightarrow> c \<in> C \<Longrightarrow> T i = Some (Scb_obj x, Socket_ops) \<Longrightarrow> socket_of_fid c (int i) k = Inr (Some x)"
  by (erule (2) bench_get) (simp add: socket_of_fid_def as_scb_def)

lemma fid_at_most: "bench C p T k \<Longrightarrow> T i = Some y \<Longrightarrow> i < MAX_FILEID"
  by (cases y) (auto elim: bench_some)

section \<open>Changes that leave the descriptors alone\<close>

lemma runs_clear:
  assumes "runs C p s k"
  shows "runs C p (s\<lparr>waitset := (waitset s)(cv := [])\<rparr>) k"
proof -
  have i: "cc_inv s" using assms by (simp add: runs_def)
  have "cc_inv (s\<lparr>waitset := (waitset s)(cv := [])\<rparr>)"
    by (rule cc_invI) (use i in \<open>auto simp: cc_inv_def split: if_splits\<close>)
  then show ?thesis using assms by (simp add: runs_def CURPROC_def CURTHREAD_def tcb_of_def)
qed

lemma runs_signal:
  assumes "runs C p (cc k) k"
  obtains s where "on_cc (Cond_Signal cv) k = Inr (k\<lparr>cc := s\<rparr>)" "runs C p s k"
proof -
  have "cc_inv (cc k)" using assms by (simp add: runs_def)
  from on_cc_signal [OF this, of cv] obtain s where
    "on_cc (Cond_Signal cv) k = Inr (k\<lparr>cc := s\<rparr>)" "woken cv (signal_span (cc k) (waitset (cc k) cv)) (cc k) s" .
  with runs_woken [OF assms] that show ?thesis by blast
qed

lemma bench_upto:
  assumes b: "bench C p T k" and r: "runs C p (cc k') k" and f: "FCB_freelist k' = FCB_freelist k" "FT k' = FT k" "PT k' = PT k"
    and e: "env_yield k' = env_yield k" "malloc_ok k' = malloc_ok k" "devnum k' = devnum k" and a: "fresh_above k'"
  shows "bench C p T k'"
  by (rule bench_cong [OF b settled_cong [OF benchD(3) [OF b] r e a] f])

lemma fresh_aboveD: "fresh_above k \<Longrightarrow> next_addr k \<le> a \<Longrightarrow> scbs k a = None \<and> pipes k a = None"
  by (simp add: fresh_above_def)

lemma bench_yield:
  assumes b: "bench C p T k"
  shows "bench C p T (yield_kernel k)" "rest (yield_kernel k) = (cc (yield_kernel k), snd (rest k))"
proof -
  have "runs C p (env_yield k (cc k)) k" using benchD(3) [OF b] by (simp add: settled_def)
  then show "bench C p T (yield_kernel k)"
    using settledD(6) [OF benchD(3) [OF b]]
    by (intro bench_upto [OF b]) (simp_all add: yield_kernel_def fresh_above_def)
qed (simp add: rest_def yield_kernel_def)

section \<open>Listening\<close>

lemma listen_ok:
  assumes b: "bench C p T k" and c: "c \<in> C" and t: "T i = Some (Scb_obj x, Socket_ops)" and s: "scbs k x = Some s"
    and l: "port s \<noteq> 0" "PortMap k (port s) = None" "srefcount s = 0"
  shows "\<exists>s' k'. sys_Listen c (int i) k = Inr (0, k') \<and> bench C p T k' \<and>
    rest k' = (s', pipes k, (scbs k)(x \<mapsto> s\<lparr>req_queue := [], srefcount := 1, stype := LISTENER\<rparr>), conn_reqs k,
      (PortMap k)(port s \<mapsto> x), devnum k, next_addr k)"
proof -
  let ?k1 = "upd_scb x (\<lambda>s. s\<lparr>req_queue := [], srefcount := srefcount s + 1, stype := LISTENER\<rparr>) (cond_init (Server_requests x) k)"
  let ?k = "?k1\<lparr>PortMap := (PortMap ?k1)(port s \<mapsto> x)\<rparr>"
  have "sys_Listen c (int i) k = Inr (0, ?k)"
    using socket_at [OF b c t] fid_at_most [OF b t] s l by (simp add: sys_Listen_def)
  moreover have "bench C p T ?k"
  proof (rule bench_upto [OF b])
    show "runs C p (cc ?k) k" using runs_clear [OF settledD(3) [OF benchD(3) [OF b]], of "Server_requests x"] by (simp add: cond_init_def)
    show "fresh_above ?k" using settledD(6) [OF benchD(3) [OF b]] s by (auto simp: fresh_above_def cond_init_def)
  qed (simp_all add: cond_init_def)
  moreover have "rest ?k = (cc ?k, pipes k, (scbs k)(x \<mapsto> s\<lparr>req_queue := [], srefcount := 1, stype := LISTENER\<rparr>), conn_reqs k,
      (PortMap k)(port s \<mapsto> x), devnum k, next_addr k)"
    using s l(3) by (simp add: rest_def cond_init_def)
  ultimately show ?thesis by blast
qed

lemma listen_fails:
  assumes "socket_of_fid c fd k = Inr a" and "case a of None \<Rightarrow> True | Some x \<Rightarrow> \<exists>s. scbs k x = Some s \<and>
     (port s = 0 \<or> PortMap k (port s) \<noteq> None \<or> srefcount s \<noteq> 0)"
  shows "sys_Listen c fd k = Inr (-1, k)"
  using assms by (auto simp: sys_Listen_def split: option.splits)

section \<open>Closing a listener\<close>

lemma close_listener_ok:
  assumes b: "bench C p T k" and c: "c \<in> C" and t: "T i = Some (Scb_obj x, Socket_ops)" and s: "scbs k x = Some s"
    and l: "stype s = LISTENER" "srefcount s = 1" "PortMap k (port s) = Some x"
  shows "\<exists>s' k'. sys_Close c (int i) k = Inr (0, k') \<and> bench C p (T(i := None)) k' \<and>
    rest k' = (s', pipes k, (scbs k)(x := None), conn_reqs k, (PortMap k)(port s := None), devnum k, next_addr k)"
proof -
  obtain f where f: "fds k p i = Some f" by (rule bench_some [OF b t])
  let ?k1 = "closing p i f k"
  note S = files_only_sel [OF files_only_closing [of k p i f]]
  have s1: "settled C p ?k1" by (rule settled_files_only [OF files_only_closing benchD(3) [OF b]])
  let ?k2 = "upd_scb x (\<lambda>s. s\<lparr>srefcount := 0\<rparr>) ?k1"
  have "runs C p (cc ?k2) ?k2" using settledD(3) [OF s1] by (simp add: runs_cong [of C p _ ?k2 ?k1])
  then obtain s1 where b1: "on_cc (Cond_Broadcast (Server_requests x)) ?k2 = Inr (?k2\<lparr>cc := s1\<rparr>)" "runs C p s1 ?k2"
    by (rule broadcast_runs)
  define s2 where "s2 = env_yield k s1"
  let ?k3 = "free_scb x ((?k2\<lparr>cc := s2\<rparr>)\<lparr>PortMap := (PortMap k)(port s := None)\<rparr>)"
  have r1: "runs C p s1 ?k1" using b1(2) by (simp add: runs_cong [of C p _ ?k2 ?k1])
  then have r2: "runs C p s2 ?k1" using s1 by (simp add: settled_def s2_def S)
  have e: "stream_close c Socket_ops (Scb_obj x) ?k1 = Inr (0, ?k3)"
    using s l b1(1) by (simp add: stream_close_def as_scb_def socket_close_def close_listener_def Let_def S s2_def)
  have "settled C p ?k3"
    by (rule settled_cong [OF s1]) (use r2 settledD(6) [OF s1] s in \<open>auto simp: fresh_above_def S free_scb_def\<close>)
  then have "bench C p (T(i := None)) (release_FCB f ?k3)"
    by (intro close_bench [OF b c t f e]) (simp_all add: stream_def fun_eq_iff S closing_def free_scb_def)
  moreover have "rest (release_FCB f ?k3) = (s2, pipes k, (scbs k)(x := None), conn_reqs k, (PortMap k)(port s := None), devnum k, next_addr k)"
    using rest_files_only [OF files_only_release [of ?k3 f]] s by (simp add: rest_def S free_scb_def)
  ultimately show ?thesis using close_eq [OF b c t f] e by auto
qed

section \<open>Connecting and accepting\<close>

lemma connect_ok:
  assumes b: "bench C p T k" and c: "c \<in> C" and t: "T i = Some (Scb_obj y, Socket_ops)" and y: "scbs k y = Some sy" "stype sy = UNBOUND"
    and l: "PortMap k (nat prt) = Some x" "scbs k x = Some sx" "stype sx = LISTENER" and prt: "0 \<le> prt" "prt \<le> int MAX_PORT"
  defines "q \<equiv> next_addr k"
  shows "\<exists>s' k'. sys_Connect c (int i) prt tm k = Inr (Wait (Connected_cv q) SCHED_USER (MILLISEC tm) q, k') \<and> bench C p T k' \<and>
    rest k' = (s', pipes k, (scbs k)(x \<mapsto> sx\<lparr>req_queue := req_queue sx @ [q]\<rparr>), (conn_reqs k)(q \<mapsto> \<lparr>csocket = y, accepted = False\<rparr>),
      PortMap k, devnum k, Suc q)"
proof -
  let ?k1 = "upd_scb x (\<lambda>s. s\<lparr>req_queue := req_queue s @ [q]\<rparr>)
    (k\<lparr>next_addr := Suc q, conn_reqs := (conn_reqs k)(q \<mapsto> \<lparr>csocket = y, accepted = False\<rparr>)\<rparr>)"
  have "runs C p (cc ?k1) ?k1" using settledD(3) [OF benchD(3) [OF b]] by (simp add: runs_cong [of C p _ ?k1 k])
  then obtain s where s: "on_cc (Cond_Signal (Server_requests x)) ?k1 = Inr (?k1\<lparr>cc := s\<rparr>)" "runs C p s ?k1"
    by (rule runs_signal)
  obtain f where f: "get_fcb c (int i) k = Inr (Some f)" "streamobj (FT k f) = Scb_obj y"
    by (rule bench_get [OF b c t])
  have "sys_Connect c (int i) prt tm k = bindE (on_cc (Cond_Signal (Server_requests x)) ?k1) (connect_loop q tm)"
    using f y l prt fid_at_most [OF b t] benchD(7) [OF b] by (simp add: sys_Connect_def as_scb_def malloc_def Let_def q_def)
  then have "sys_Connect c (int i) prt tm k = Inr (Wait (Connected_cv q) SCHED_USER (MILLISEC tm) q, ?k1\<lparr>cc := s\<rparr>)"
    by (simp add: s(1) connect_loop_def)
  moreover have "bench C p T (?k1\<lparr>cc := s\<rparr>)"
  proof (rule bench_upto [OF b])
    show "runs C p (cc (?k1\<lparr>cc := s\<rparr>)) k" using s(2) by (simp add: runs_cong [of C p _ ?k1 k])
    show "fresh_above (?k1\<lparr>cc := s\<rparr>)" using settledD(6) [OF benchD(3) [OF b]] l(2) by (auto simp: fresh_above_def q_def)
  qed simp_all
  moreover have "rest (?k1\<lparr>cc := s\<rparr>) = (s, pipes k, (scbs k)(x \<mapsto> sx\<lparr>req_queue := req_queue sx @ [q]\<rparr>),
      (conn_reqs k)(q \<mapsto> \<lparr>csocket = y, accepted = False\<rparr>), PortMap k, devnum k, Suc q)"
    using l(2) by (simp add: rest_def)
  ultimately show ?thesis by blast
qed

text \<open>The sockets after an accept.\<close>

definition peered :: "scb \<Rightarrow> nat \<Rightarrow> nat \<Rightarrow> nat \<Rightarrow> scb" where
  "peered s w snd_p rcv_p = s\<lparr>srefcount := 1, stype := PEER, peer := Some w, send := Some snd_p, receive := Some rcv_p\<rparr>"

lemma accept_ok:
  assumes b: "bench C p T k" and c: "c \<in> C" and i: "next_fids 1 T = [i]"
    and l: "scbs k x = Some sx" "req_queue sx = q # qs" "port sx \<le> MAX_PORT"
    and r: "conn_reqs k q = Some r" "csocket r = y" "scbs k y = Some sy" "y \<noteq> x"
  defines "v \<equiv> next_addr k"
  shows "\<exists>s' k'. accept_request c x k = Inr (int i, k') \<and> bench C p (T(i \<mapsto> (Scb_obj v, Socket_ops))) k' \<and>
    rest k' = (s', (pipes k)(v + 1 \<mapsto> empty_pipe, v + 2 \<mapsto> empty_pipe),
      (scbs k)(x \<mapsto> sx\<lparr>req_queue := qs\<rparr>, v \<mapsto> peered (new_scb (port sx) i) y (v + 2) (v + 1), y \<mapsto> peered sy v (v + 1) (v + 2)),
      (conn_reqs k)(q \<mapsto> r\<lparr>accepted := True\<rparr>), PortMap k, devnum k, v + 3)"
proof -
  let ?k1 = "upd_scb y (\<lambda>s. s\<lparr>srefcount := 1\<rparr>) (upd_scb x (\<lambda>s. s\<lparr>req_queue := qs\<rparr>) k)"
  have fr: "fresh_above k" by (rule settledD(6) [OF benchD(3) [OF b]])
  have xy: "x \<noteq> v" "y \<noteq> v" using fresh_aboveD [OF fr, of v] l(1) r(3) by (auto simp: v_def)
  have b1: "bench C p T ?k1"
    by (rule bench_upto [OF b]) (use settledD(3) [OF benchD(3) [OF b]] fr l(1) r(3) in \<open>auto simp: fresh_above_def\<close>)
  have "0 \<le> int (port sx)" "int (port sx) \<le> int MAX_PORT" using l(3) by simp_all
  from socket_ok [OF b1 c i this] obtain k2 where k2: "sys_Socket c (int (port sx)) ?k1 = Inr (int i, k2)"
    "bench C p (T(i \<mapsto> (Scb_obj v, Socket_ops))) k2"
    "rest k2 = (cc ?k1, pipes ?k1, (scbs ?k1)(v \<mapsto> new_scb (port sx) i), conn_reqs ?k1, PortMap ?k1, devnum ?k1, Suc v)"
    by (auto simp: v_def)
  let ?T = "T(i \<mapsto> (Scb_obj v, Socket_ops))"
  have R2: "cc k2 = cc k" "pipes k2 = pipes k" "scbs k2 = (scbs ?k1)(v \<mapsto> new_scb (port sx) i)" "conn_reqs k2 = conn_reqs k"
    "PortMap k2 = PortMap k" "devnum k2 = devnum k" "next_addr k2 = Suc v"
    using k2(3) by (simp_all add: rest_def)
  have "?T i = Some (Scb_obj v, Socket_ops)" by simp
  then obtain f where f: "get_fcb c (int i) k2 = Inr (Some f)" "streamobj (FT k2 f) = Scb_obj v"
    by (rule bench_get [OF k2(2) c])
  let ?k3 = "upd_scb v (\<lambda>s. s\<lparr>srefcount := 1, stype := PEER, peer := Some y\<rparr>) (upd_scb y (\<lambda>s. s\<lparr>stype := PEER, peer := Some v\<rparr>) k2)"
  let ?sv = "(new_scb (port sx) i)\<lparr>srefcount := 1, stype := PEER, peer := Some y\<rparr>"
  let ?sy = "sy\<lparr>srefcount := 1, stype := PEER, peer := Some v\<rparr>"
  have s3: "scbs ?k3 v = Some ?sv" "scbs ?k3 y = Some ?sy" using xy r(3,4) by (simp_all add: R2)
  have "malloc_ok k2 a" for a using benchD(7) [OF k2(2)] .
  then have k4: "create_pipe v ?k3 = Inr (?k3\<lparr>next_addr := Suc v + 2,
     pipes := (pipes k)(Suc v \<mapsto> empty_pipe, Suc (Suc v) \<mapsto> empty_pipe),
     scbs := (scbs ?k3)(v \<mapsto> ?sv\<lparr>send := Some (Suc (Suc v)), receive := Some (Suc v)\<rparr>,
                      y \<mapsto> ?sy\<lparr>send := Some (Suc v), receive := Some (Suc (Suc v))\<rparr>)\<rparr>)"
    using create_pipe_ok [of ?k3 v ?sv y ?sy] s3 xy(2) by (simp add: R2)
  let ?k4 = "upd_conn q (\<lambda>r. r\<lparr>accepted := True\<rparr>) (?k3\<lparr>next_addr := Suc v + 2,
     pipes := (pipes k)(Suc v \<mapsto> empty_pipe, Suc (Suc v) \<mapsto> empty_pipe),
     scbs := (scbs ?k3)(v \<mapsto> ?sv\<lparr>send := Some (Suc (Suc v)), receive := Some (Suc v)\<rparr>,
                      y \<mapsto> ?sy\<lparr>send := Some (Suc v), receive := Some (Suc (Suc v))\<rparr>)\<rparr>)"
  have "runs C p (cc ?k4) ?k4" using settledD(3) [OF benchD(3) [OF k2(2)]] runs_cong [of C p "cc k2" ?k4 k2] by simp
  then obtain s where s: "on_cc (Cond_Signal (Connected_cv q)) ?k4 = Inr (?k4\<lparr>cc := s\<rparr>)" "runs C p s ?k4"
    by (rule runs_signal)
  let ?k = "?k4\<lparr>cc := s\<rparr>"
  have ni: "int i \<noteq> NOFILE" by (simp add: NOFILE_def)
  have "accept_request c x k = Inr (int i, ?k)"
    using l r k2(1) f ni k4 s(1) by (simp add: accept_request_def Let_def as_scb_def)
  moreover have "bench C p ?T ?k"
  proof (rule bench_upto [OF k2(2)])
    show "runs C p (cc ?k) k2" using s(2) runs_cong [of C p s ?k4 k2] by simp
    show "fresh_above ?k"
      using fresh_aboveD [OF settledD(6) [OF benchD(3) [OF k2(2)]]] xy fr r(3)
      by (auto simp: fresh_above_def R2 v_def not_le [symmetric])
  qed simp_all
  moreover have "rest ?k = (s, (pipes k)(v + 1 \<mapsto> empty_pipe, v + 2 \<mapsto> empty_pipe),
      (scbs k)(x \<mapsto> sx\<lparr>req_queue := qs\<rparr>, v \<mapsto> peered (new_scb (port sx) i) y (v + 2) (v + 1), y \<mapsto> peered sy v (v + 1) (v + 2)),
      (conn_reqs k)(q \<mapsto> r\<lparr>accepted := True\<rparr>), PortMap k, devnum k, v + 3)"
    using l(1) r(1,3) xy r(4) by (auto simp: rest_def R2 fun_eq_iff peered_def)
  ultimately show ?thesis by blast
qed

lemma accept_full:
  assumes b: "bench C p T k" and c: "c \<in> C" and i: "next_fids 1 T = []"
    and l: "scbs k x = Some sx" "req_queue sx = q # qs" "port sx \<le> MAX_PORT"
    and r: "conn_reqs k q = Some r" "csocket r = y" "scbs k y = Some sy" "y \<noteq> x"
  shows "\<exists>k'. accept_request c x k = Inr (NOFILE, k') \<and> bench C p T k' \<and> conn_reqs k' = conn_reqs k"
proof -
  let ?k1 = "upd_scb y (\<lambda>s. s\<lparr>srefcount := 1\<rparr>) (upd_scb x (\<lambda>s. s\<lparr>req_queue := qs\<rparr>) k)"
  have b1: "bench C p T ?k1"
    by (rule bench_upto [OF b])
      (use settledD(3,6) [OF benchD(3) [OF b]] l(1) r(3) in \<open>auto simp: fresh_above_def\<close>)
  have "FCB_reserve c 1 ?k1 = Inr (None, ?k1)" by (rule reserve_none [OF b1 c]) (unfold i, simp)
  then have so: "sys_Socket c (int (port sx)) ?k1 = Inr (NOFILE, ?k1)" using l(3) by (simp add: sys_Socket_def)
  have "runs C p (cc ?k1) ?k1" by (rule settledD(3) [OF benchD(3) [OF b1]])
  then obtain s where s: "on_cc (Cond_Signal (Connected_cv q)) ?k1 = Inr (?k1\<lparr>cc := s\<rparr>)" "runs C p s ?k1"
    by (rule runs_signal)
  have "accept_request c x k = Inr (NOFILE, ?k1\<lparr>cc := s\<rparr>)"
    using l r so s(1) by (simp add: accept_request_def Let_def)
  moreover have "bench C p T (?k1\<lparr>cc := s\<rparr>)"
    by (rule bench_upto [OF b1]) (use s(2) settledD(6) [OF benchD(3) [OF b1]] in \<open>auto simp: fresh_above_def\<close>)
  ultimately show ?thesis by auto
qed

lemma accept_listener_none:
  assumes "socket_of_fid c fd k = Inr a" and "case a of None \<Rightarrow> True | Some x \<Rightarrow> \<exists>s. scbs k x = Some s \<and> stype s \<noteq> LISTENER"
  shows "returns (sys_Accept c fd) k = Inr (-1, k)"
  using assms by (auto simp: returns_def sys_Accept_def accept_listener_def NOFILE_def split: option.splits)

section \<open>Shutting down\<close>

lemma shutdown_read_ok:
  assumes b: "bench C p T k" and c: "c \<in> C" and t: "T i = Some (Scb_obj x, Socket_ops)"
    and x: "scbs k x = Some sx" "stype sx = PEER" "peer sx = Some y" "receive sx = Some a"
    and y: "scbs k y = Some sy" "x \<noteq> y" and q: "pipes k a = Some q" "\<not> reader_closed q"
  shows "\<exists>s k'. sys_ShutDown c (int i) SHUTDOWN_READ k = Inr (0, k') \<and> bench C p T k' \<and>
    rest k' = (s, (pipes k)(a := None), (scbs k)(x \<mapsto> sx\<lparr>receive := None\<rparr>, y \<mapsto> sy\<lparr>send := None\<rparr>), conn_reqs k, PortMap k, devnum k, next_addr k)"
proof -
  obtain s where s: "reader_close (Some a) k = Inr (0, k\<lparr>cc := s, pipes := (pipes k)(a := None)\<rparr>)" "runs C p s k"
    by (rule reader_close_runs [OF settledD(3) [OF benchD(3) [OF b]] q])
  let ?k = "upd_scb y (\<lambda>s. s\<lparr>send := None\<rparr>) (upd_scb x (\<lambda>s. s\<lparr>receive := None\<rparr>) (k\<lparr>cc := s, pipes := (pipes k)(a := None)\<rparr>))"
  have "sys_ShutDown c (int i) SHUTDOWN_READ k = Inr (0, ?k)"
    using socket_at [OF b c t] fid_at_most [OF b t] x y s(1) by (simp add: sys_ShutDown_def shutdown_socket_def shutdown_read_def)
  moreover have "bench C p T ?k"
    by (rule bench_upto [OF b]) (use s(2) x(1) y(1) settledD(6) [OF benchD(3) [OF b]] in \<open>auto simp: fresh_above_def\<close>)
  moreover have "rest ?k = (s, (pipes k)(a := None), (scbs k)(x \<mapsto> sx\<lparr>receive := None\<rparr>, y \<mapsto> sy\<lparr>send := None\<rparr>), conn_reqs k,
      PortMap k, devnum k, next_addr k)"
    using x(1) y by (simp add: rest_def)
  ultimately show ?thesis by blast
qed

lemma shutdown_write_ok:
  assumes b: "bench C p T k" and c: "c \<in> C" and t: "T i = Some (Scb_obj x, Socket_ops)"
    and x: "scbs k x = Some sx" "stype sx = PEER" "peer sx \<noteq> None" "send sx = Some a" and q: "pipes k a = Some q"
  shows "\<exists>s k'. sys_ShutDown c (int i) SHUTDOWN_WRITE k = Inr (0, k') \<and> bench C p T k' \<and>
    rest k' = (s, (pipes k)(a \<mapsto> q\<lparr>writer_closed := True\<rparr>), (scbs k)(x \<mapsto> sx\<lparr>send := None\<rparr>), conn_reqs k, PortMap k, devnum k, next_addr k)"
proof -
  obtain s where s: "writer_close (Some a) k = Inr (0, k\<lparr>cc := s, pipes := (pipes k)(a \<mapsto> q\<lparr>writer_closed := True\<rparr>)\<rparr>)" "runs C p s k"
    by (rule writer_close_runs [OF settledD(3) [OF benchD(3) [OF b]] q])
  let ?k = "upd_scb x (\<lambda>s. s\<lparr>send := None\<rparr>) (k\<lparr>cc := s, pipes := (pipes k)(a \<mapsto> q\<lparr>writer_closed := True\<rparr>)\<rparr>)"
  have "sys_ShutDown c (int i) SHUTDOWN_WRITE k = Inr (0, ?k)"
    using socket_at [OF b c t] fid_at_most [OF b t] x s(1) by (simp add: sys_ShutDown_def shutdown_socket_def shutdown_write_def)
  moreover have "bench C p T ?k"
    by (rule bench_upto [OF b]) (use s(2) x(1) q settledD(6) [OF benchD(3) [OF b]] in \<open>auto simp: fresh_above_def\<close>)
  moreover have "rest ?k = (s, (pipes k)(a \<mapsto> q\<lparr>writer_closed := True\<rparr>), (scbs k)(x \<mapsto> sx\<lparr>send := None\<rparr>), conn_reqs k,
      PortMap k, devnum k, next_addr k)"
    using x(1) by (simp add: rest_def)
  ultimately show ?thesis by blast
qed

end
