(* ===== verification/ApiTestsRun.thy ===== *)
theory ApiTestsRun
  imports SocketBench
begin

text \<open>
  The tests of \<open>ApiTests\<close> in every process that has no descriptors, on a kernel in any consistent state: which pass, whatever the
  state and the order of the threads, and which use freed memory.
\<close>

section \<open>Files and devices\<close>

lemma fid_0: "0 < MAX_FILEID"
  by (simp add: MAX_FILEID_def)

lemma pid_of_init: "c \<in> C \<Longrightarrow> bench C 1 T k \<Longrightarrow> pstate (PT k 1) \<noteq> FREE \<Longrightarrow> passes (test_pid_of_init_is_one c) k"
  unfolding test_pid_of_init_is_one_def
  by (subst holds_query [where x = 1]) (simp_all add: sys_GetPid_def get_pid_def benchD(5))

definition terminals_ok :: "kernel \<Rightarrow> bool" where
  "terminals_ok k \<longleftrightarrow> devnum k DEV_SERIAL = nterm (vm (sch (cc k))) \<and> nterm (vm (sch (cc k))) \<le> MAX_TERMINALS"

lemma get_terminals: "terminals_ok k \<Longrightarrow> passes test_get_terminals k"
  unfolding test_get_terminals_def
  by (subst holds_query) (auto simp: terminals_ok_def sys_GetTerminalDevices_def device_no_def)

lemma dup2_error_on_nonfile:
  assumes b: "bench C p Map.empty k" and c: "c \<in> C"
  shows "passes (test_dup2_error_on_nonfile c) k"
  unfolding test_dup2_error_on_nonfile_def
proof (rule holds_loop [where I = "\<lambda>i s k'. s = int i \<and> k' = k"])
  fix i s k' and t :: "int \<Rightarrow> test"
  assume i: "i < MAX_FILEID" and s: "s = int i \<and> k' = k" and t: "\<And>s' k'. s' = int (Suc i) \<and> k' = k \<Longrightarrow> passes (t s') k'"
  have "sys_Dup2 c s (int MAX_FILEID - 1 - s) k' = Inr (-1, k)"
    using i s no_fid [OF b c] by (simp add: sys_Dup2_def)
  moreover have "passes (t (int i + 1)) k" using t [of "int i + 1" k] by simp
  ultimately show "passes (checks (sys_Dup2 c s (int MAX_FILEID - 1 - s)) (\<lambda>r. r = -1) (t (s + 1))) k'"
    using s by (simp add: holds_checks)
qed simp_all

lemma dup2_error_on_invalid_fid:
  assumes b: "bench C p Map.empty k" and c: "c \<in> C"
  shows "passes (test_dup2_error_on_invalid_fid c) k"
proof -
  obtain k' where "sys_OpenNull c k = Inr (int 0, k')"
    using open_null_ok [OF b c prefix_used_next [OF prefix_used_empty fid_0]] by auto
  then show ?thesis
    by (simp add: test_dup2_error_on_invalid_fid_def holds_checks holds_call holds_assert_now sys_Dup2_def MAX_FILEID_def NOFILE_def)
qed

lemma open_terminals_ok:
  assumes b: "bench C p Map.empty k" and c: "c \<in> C" and t: "terminals_ok k"
    and go: "\<And>ts T k'. bench C p T k' \<Longrightarrow> rest k' = rest k \<Longrightarrow> length ts = nterm (vm (sch (cc k))) \<Longrightarrow>
      (\<And>i. i < length ts \<Longrightarrow> ts ! i = int i \<and> (\<exists>x. T i = Some (x, Serial_fops))) \<Longrightarrow> passes (u ts) k'"
  shows "passes (open_terminals c u) k"
proof -
  let ?n = "nterm (vm (sch (cc k)))"
  have n: "devnum k DEV_SERIAL = ?n" "?n \<le> MAX_TERMINALS" using t by (simp_all add: terminals_ok_def)
  have "passes (loop ?n (\<lambda>ts u. call (sys_OpenTerminal c (length ts)) (\<lambda>f.
       if length ts < MAX_TERMINALS then ASSERT (f \<noteq> NOFILE) (u (ts @ [f])) else (\<lambda>_ _. Inl Out_of_bounds))) [] u) k"
  proof (rule holds_loop [where I = "\<lambda>i ts k'. rest k' = rest k \<and> ts = map int [0..<i] \<and> (\<exists>T. bench C p T k' \<and> prefix_used i T \<and>
        (\<forall>j < i. \<exists>x. T j = Some (x, Serial_fops)))"])
    show "rest k = rest k \<and> [] = map int [0..<0] \<and> (\<exists>T. bench C p T k \<and> prefix_used 0 T \<and> (\<forall>j < 0. \<exists>x. T j = Some (x, Serial_fops)))"
      using b by (auto intro!: exI [of _ Map.empty])
  next
    fix i ts k' and v :: "int list \<Rightarrow> test"
    assume i: "i < ?n" and I: "rest k' = rest k \<and> ts = map int [0..<i] \<and> (\<exists>T. bench C p T k' \<and> prefix_used i T \<and>
        (\<forall>j < i. \<exists>x. T j = Some (x, Serial_fops)))"
      and v: "\<And>s' k'. rest k' = rest k \<and> s' = map int [0..<Suc i] \<and> (\<exists>T. bench C p T k' \<and> prefix_used (Suc i) T \<and>
        (\<forall>j < Suc i. \<exists>x. T j = Some (x, Serial_fops))) \<Longrightarrow> passes (v s') k'"
    from I obtain T where T: "bench C p T k'" "prefix_used i T" "\<forall>j < i. \<exists>x. T j = Some (x, Serial_fops)" by blast
    have "i < devnum k' DEV_SERIAL" "i < nterm (vm (sch (cc k')))" using I i n by (simp_all add: rest_def)
    moreover have "i < MAX_FILEID" using i n(2) by (simp add: MAX_TERMINALS_def MAX_FILEID_def)
    ultimately obtain k2 where k2: "sys_OpenTerminal c i k' = Inr (int i, k2)" "bench C p (T(i \<mapsto> (Serial_dcb i, Serial_fops))) k2"
        "rest k2 = rest k'"
      using open_terminal_ok [OF T(1) c prefix_used_next [OF T(2)]] by blast
    have "passes (v (map int [0..<Suc i])) k2"
      by (rule v) (use k2 I T prefix_used_add [OF T(2)] in \<open>auto simp: less_Suc_eq intro!: exI [of _ "T(i \<mapsto> (Serial_dcb i, Serial_fops))"]\<close>)
    then show "passes (call (sys_OpenTerminal c (length ts)) (\<lambda>f.
       if length ts < MAX_TERMINALS then ASSERT (f \<noteq> NOFILE) (v (ts @ [f])) else (\<lambda>_ _. Inl Out_of_bounds))) k'"
      using I k2(1) i n(2) by (simp add: holds_call holds_ASSERT NOFILE_def)
  next
    fix ts k'
    assume I: "rest k' = rest k \<and> ts = map int [0..<?n] \<and> (\<exists>T. bench C p T k' \<and> prefix_used ?n T \<and> (\<forall>j < ?n. \<exists>x. T j = Some (x, Serial_fops)))"
    then obtain T where T: "bench C p T k'" "\<forall>j < ?n. \<exists>x. T j = Some (x, Serial_fops)" by blast
    show "passes (u ts) k'" by (rule go [OF T(1)]) (use I T(2) in simp_all)
  qed
  then show ?thesis
    unfolding open_terminals_def by (subst holds_call) (simp_all add: query_def sys_GetTerminalDevices_def device_no_def n(1))
qed

lemma open_terminals:
  assumes "bench C p Map.empty k" and "c \<in> C" and "terminals_ok k"
  shows "passes (test_open_terminals c) k"
  unfolding test_open_terminals_def by (rule open_terminals_ok [OF assms]) simp

lemma close_terminals:
  assumes b: "bench C p Map.empty k" and c: "c \<in> C" and t: "terminals_ok k"
  shows "passes (test_close_terminals c) k"
  unfolding test_close_terminals_def
proof (rule open_terminals_ok [OF b c t])
  fix ts T k'
  assume k': "bench C p T k'" "rest k' = rest k" "length ts = nterm (vm (sch (cc k)))"
    and ts: "\<And>i. i < length ts \<Longrightarrow> ts ! i = int i \<and> (\<exists>x. T i = Some (x, Serial_fops))"
  let ?n = "length ts"
  have "passes (loop ?n (\<lambda>i t. checks (sys_Close c (ts ! i)) (\<lambda>r. r = 0) (t (i + 1))) 0 (\<lambda>_. return_0)) k'"
  proof (rule holds_loop [where I = "\<lambda>i s k'. s = i \<and> (\<exists>T. bench C p T k' \<and> (\<forall>j. i \<le> j \<and> j < ?n \<longrightarrow> (\<exists>x. T j = Some (x, Serial_fops))))"])
    show "0 = 0 \<and> (\<exists>T. bench C p T k' \<and> (\<forall>j. 0 \<le> j \<and> j < ?n \<longrightarrow> (\<exists>x. T j = Some (x, Serial_fops))))"
      using k'(1) ts by auto
  next
    fix i s k2 and v :: "nat \<Rightarrow> test"
    assume i: "i < ?n" and I: "s = i \<and> (\<exists>T. bench C p T k2 \<and> (\<forall>j. i \<le> j \<and> j < ?n \<longrightarrow> (\<exists>x. T j = Some (x, Serial_fops))))"
      and v: "\<And>s' k'. s' = Suc i \<and> (\<exists>T. bench C p T k' \<and> (\<forall>j. Suc i \<le> j \<and> j < ?n \<longrightarrow> (\<exists>x. T j = Some (x, Serial_fops)))) \<Longrightarrow> passes (v s') k'"
    then obtain T' x where T': "bench C p T' k2" "\<forall>j. i \<le> j \<and> j < ?n \<longrightarrow> (\<exists>x. T' j = Some (x, Serial_fops))" "T' i = Some (x, Serial_fops)"
      by blast
    obtain k3 where k3: "sys_Close c (int i) k2 = Inr (0, k3)" "bench C p (T'(i := None)) k3"
      using close_device_ok [OF T'(1) c T'(3)] by blast
    have "passes (v (Suc i)) k3" by (rule v) (use k3(2) T'(2) in \<open>auto intro!: exI [of _ "T'(i := None)"]\<close>)
    then show "passes (checks (sys_Close c (ts ! s)) (\<lambda>r. r = 0) (v (s + 1))) k2"
      using I ts [OF i] k3(1) by (simp add: holds_checks)
  qed simp
  moreover have "sys_GetTerminalDevices k' = ?n"
    using k'(2,3) t by (simp add: rest_def terminals_ok_def sys_GetTerminalDevices_def device_no_def)
  ultimately show "passes (call (query (\<lambda>k. Inr (sys_GetTerminalDevices k))) (\<lambda>n.
     loop n (\<lambda>i t. checks (sys_Close c (ts ! i)) (\<lambda>r. r = 0) (t (i + 1))) 0 (\<lambda>_. return_0))) k'"
    by (subst holds_call) (simp_all add: query_def)
qed

lemma close_error_on_invalid_fid:
  "passes (test_close_error_on_invalid_fid c) k"
  by (simp add: test_close_error_on_invalid_fid_def holds_checks sys_Close_def get_fcb_def NOFILE_def)

lemma close_success_on_valid_nonfile_fid:
  assumes b: "bench C p Map.empty k" and c: "c \<in> C"
  shows "passes (test_close_success_on_valid_nonfile_fid c) k"
  unfolding test_close_success_on_valid_nonfile_fid_def
proof (rule holds_loop [where I = "\<lambda>i s k'. s = int i \<and> k' = k"])
  fix i s k' and t :: "int \<Rightarrow> test"
  assume i: "i < MAX_FILEID" and s: "s = int i \<and> k' = k" and t: "\<And>s' k'. s' = int (Suc i) \<and> k' = k \<Longrightarrow> passes (t s') k'"
  have "sys_Close c s k' = Inr (0, k)" using i s no_fid [OF b c] by (simp add: sys_Close_def)
  moreover have "passes (t (int i + 1)) k" using t [of "int i + 1" k] by simp
  ultimately show "passes (checks (sys_Close c s) (\<lambda>r. r = 0) (t (s + 1))) k'" using s by (simp add: holds_checks)
qed simp_all

lemma read_write_errors:
  assumes "bench C p Map.empty k" and "c \<in> C"
  shows "passes (test_read_error_on_bad_fid run c) k" and "passes (test_write_error_on_bad_fid c buf) k"
  using no_fid [OF assms, of 0]
  by (simp_all add: test_read_error_on_bad_fid_def test_write_error_on_bad_fid_def holds_checks returns_def sys_Read_def sys_Write_def)

lemma null_device:
  assumes b: "bench C p Map.empty k" and c: "c \<in> C"
  shows "passes (test_null_device run c nul) k"
proof -
  obtain k1 where k1: "sys_OpenNull c k = Inr (int 0, k1)" "bench C p [0 \<mapsto> (Null_object, Nulldev_fops)] k1"
    using open_null_ok [OF b c prefix_used_next [OF prefix_used_empty fid_0]] by auto
  obtain k2 where k2: "sys_Close c (int 0) k1 = Inr (0, k2)"
    using close_device_ok [OF k1(2) c, of 0] by auto
  have "returns (sys_Read run c 0 10) k1 = Inr ((10, Bytes (replicate 10 0)), k1)"
    "returns (sys_Write c 0 nul 123456) k1 = Inr (123456, k1)"
    using null_rw [OF k1(2) c, of 0] by (simp_all add: returns_def)
  moreover have "take 17 (stored (c_string ''zavarakatranemia'') (Bytes (replicate 10 0))) = replicate 10 0 @ c_string ''anemia''"
    by (simp add: stored_def c_string_def bytes_def)
  ultimately show ?thesis
    using k1(1) k2 by (simp add: test_null_device_def holds_call holds_ASSERT holds_checks)
qed

section \<open>Pipes\<close>

lemma length_hello [simp]: "length hello = 12"
  by (simp add: hello_def c_string_def bytes_def)

lemma hello_bytes: "map ((!) hello) [0..<12] = hello"
  using map_nth [of hello] by simp

lemma hello_string [simp]: "same_string hello hello = Inr True"
  by (simp add: same_string_def hello_def c_string_def)

lemma write_hello_ok:
  assumes "bench C p T k" and "c \<in> C" and "T i = Some x" "writes_to k x a" and "chan k a bs False False" and "length bs + 12 \<le> BUFF_SIZE"
    and "\<And>s q. bench C p T (k\<lparr>cc := s, pipes := (pipes k)(a \<mapsto> q)\<rparr>) \<Longrightarrow>
      chan (k\<lparr>cc := s, pipes := (pipes k)(a \<mapsto> q)\<rparr>) a (bs @ hello) False False \<Longrightarrow> holds Q t (k\<lparr>cc := s, pipes := (pipes k)(a \<mapsto> q)\<rparr>)"
  shows "holds Q (write_hello c (int i) 12 t) k"
proof -
  obtain s q where w: "sys_Write c (int i) ((!) hello) 12 k = Inr (Done (int 12), k\<lparr>cc := s, pipes := (pipes k)(a \<mapsto> q)\<rparr>)"
    "bench C p T (k\<lparr>cc := s, pipes := (pipes k)(a \<mapsto> q)\<rparr>)"
    "chan (k\<lparr>cc := s, pipes := (pipes k)(a \<mapsto> q)\<rparr>) a (bs @ hello) False False"
    using write_ok [OF assms(1-5), of 12 12 "(!) hello"] assms(6) hello_bytes by auto
  then have "returns (sys_Write c (int i) ((!) hello) 12) k = Inr (12, k\<lparr>cc := s, pipes := (pipes k)(a \<mapsto> q)\<rparr>)"
    by (simp add: returns_def)
  then show ?thesis using assms(7) [OF w(2,3)] by (simp add: write_hello_def holds_checks)
qed

lemma read_hello_ok:
  assumes "bench C p T k" and "c \<in> C" and "T i = Some x" "reads_from k x a" and "chan k a (hello @ bs) rc wc" and buf: "length buf = 12"
    and "\<And>s q. bench C p T (k\<lparr>cc := s, pipes := (pipes k)(a \<mapsto> q)\<rparr>) \<Longrightarrow>
      chan (k\<lparr>cc := s, pipes := (pipes k)(a \<mapsto> q)\<rparr>) a bs rc wc \<Longrightarrow> holds Q (t hello) (k\<lparr>cc := s, pipes := (pipes k)(a \<mapsto> q)\<rparr>)"
  shows "holds Q (read_hello run c (int i) buf t) k"
proof -
  have "hello \<noteq> []" by (simp add: hello_def c_string_def)
  then have n: "unat (12 :: u32) = length hello" "hello \<noteq> []" by simp_all
  obtain s q where r: "sys_Read run c (int i) 12 k = Inr (Done (int (length hello), Bytes hello), k\<lparr>cc := s, pipes := (pipes k)(a \<mapsto> q)\<rparr>)"
    "bench C p T (k\<lparr>cc := s, pipes := (pipes k)(a \<mapsto> q)\<rparr>)" "chan (k\<lparr>cc := s, pipes := (pipes k)(a \<mapsto> q)\<rparr>) a bs rc wc"
    using read_ok [OF assms(1-5) n] by blast
  then have "returns (sys_Read run c (int i) 12) k = Inr ((12, Bytes hello), k\<lparr>cc := s, pipes := (pipes k)(a \<mapsto> q)\<rparr>)"
    by (simp add: returns_def)
  then show ?thesis
    using assms(7) [OF r(2,3)] buf by (simp add: read_hello_def holds_call holds_ASSERT holds_query stored_def)
qed

lemma chan_empty: "pipes k a = Some empty_pipe \<Longrightarrow> chan k a [] False False"
  by (simp add: chan_def)

lemma ends_of_pipes [simp]:
  "writes_to (k\<lparr>cc := s, pipes := P\<rparr>) x a = writes_to k x a" "reads_from (k\<lparr>cc := s, pipes := P\<rparr>) x a = reads_from k x a"
  by (simp_all add: writes_to_def reads_from_def)

lemma replicate_split: "i < n \<Longrightarrow> concat (replicate (n - i) xs) = xs @ concat (replicate (n - Suc i) xs)"
  by (simp add: Suc_diff_Suc [symmetric] del: diff_Suc_Suc)

lemma read_hellos:
  assumes b: "bench C p T k" and c: "c \<in> C" and i: "T i = Some x" "reads_from k x a" and q: "chan k a (concat (replicate n hello)) rc wc"
    and buf: "length buf = 12"
    and go: "\<And>buf k'. bench C p T k' \<Longrightarrow> scbs k' = scbs k \<Longrightarrow> chan k' a [] rc wc \<Longrightarrow> (\<And>d. d \<noteq> a \<Longrightarrow> pipes k' d = pipes k d) \<Longrightarrow>
      holds Q (u buf) k'"
  shows "holds Q (loop n (\<lambda>buf t. read_hello run c (int i) buf t) buf u) k"
proof (rule holds_loop [where I = "\<lambda>m buf k'. length buf = 12 \<and> bench C p T k' \<and> scbs k' = scbs k \<and>
      chan k' a (concat (replicate (n - m) hello)) rc wc \<and> (\<forall>d. d \<noteq> a \<longrightarrow> pipes k' d = pipes k d)"])
  fix m and buf :: "byte list" and k' and t :: "byte list \<Rightarrow> test"
  assume m: "m < n" and I: "length buf = 12 \<and> bench C p T k' \<and> scbs k' = scbs k \<and>
      chan k' a (concat (replicate (n - m) hello)) rc wc \<and> (\<forall>d. d \<noteq> a \<longrightarrow> pipes k' d = pipes k d)"
    and t: "\<And>buf k'. length buf = 12 \<and> bench C p T k' \<and> scbs k' = scbs k \<and>
      chan k' a (concat (replicate (n - Suc m) hello)) rc wc \<and> (\<forall>d. d \<noteq> a \<longrightarrow> pipes k' d = pipes k d) \<Longrightarrow> holds Q (t buf) k'"
  have r: "reads_from k' x a" using I i(2) by (simp add: reads_from_def)
  show "holds Q (read_hello run c (int i) buf t) k'"
    by (rule read_hello_ok [where T = T and x = x and a = a, OF _ c i(1) r]) (use I in \<open>auto intro!: t simp: replicate_split [OF m]\<close>)
next
  fix buf :: "byte list" and k' assume "length buf = 12 \<and> bench C p T k' \<and> scbs k' = scbs k \<and>
      chan k' a (concat (replicate (n - n) hello)) rc wc \<and> (\<forall>d. d \<noteq> a \<longrightarrow> pipes k' d = pipes k d)"
  then show "holds Q (u buf) k'" using go by simp
qed (use b q buf in simp)

text \<open>A pipe on the first two descriptors.\<close>

abbreviation pipe_streams :: "nat \<Rightarrow> streams" where
  "pipe_streams a \<equiv> [0 \<mapsto> (Pipe_obj a, Reader_ops), 1 \<mapsto> (Pipe_obj a, Writer_ops)]"

lemma open_pipe_ok:
  assumes "bench C p Map.empty k" and "c \<in> C"
    and "\<And>a k'. bench C p (pipe_streams a) k' \<Longrightarrow> chan k' a [] False False \<Longrightarrow> holds Q (t 0 1) k'"
  shows "holds Q (open_pipe c t) k"
proof -
  have "Suc 0 < MAX_FILEID" by (simp add: MAX_FILEID_def)
  from pipe_ok [OF assms(1,2) prefix_used_next_two [OF prefix_used_empty this]] obtain k' where k':
    "sys_Pipe c k = Inr (Some (int 0, int 1), k')" "bench C p (pipe_streams (next_addr k)) k'"
    "rest k' = (cc k, (pipes k)(next_addr k \<mapsto> empty_pipe), scbs k, conn_reqs k, PortMap k, devnum k, Suc (next_addr k))"
    by auto
  have "chan k' (next_addr k) [] False False" using k'(3) by (intro chan_empty) (simp add: rest_def)
  from assms(3) [OF k'(2) this] k'(1) show ?thesis by (simp add: open_pipe_def holds_call holds_ASSERT)
qed

lemma pipe_writes [simp]: "writes_to k (Pipe_obj a, Writer_ops) a" "reads_from k (Pipe_obj a, Reader_ops) a"
  by (simp_all add: writes_to_def reads_from_def)

lemma replicate_snoc: "concat (replicate i xs) @ xs = concat (replicate (Suc i) xs)"
  by (induction i) simp_all

lemma write_loop:
  assumes "bench C p (pipe_streams a) k" and "c \<in> C" and "chan k a [] False False"
    and "\<And>k'. bench C p (pipe_streams a) k' \<Longrightarrow> chan k' a (concat (replicate 3 hello)) False False \<Longrightarrow> holds Q (t ()) k'"
  shows "holds Q (loop 3 (\<lambda>_ t. write_hello c 1 12 (t ())) () t) k"
proof (rule holds_loop [where I = "\<lambda>i _ k'. bench C p (pipe_streams a) k' \<and> chan k' a (concat (replicate i hello)) False False"])
  fix i s k' and u :: "unit \<Rightarrow> test"
  assume i: "i < 3" and I: "bench C p (pipe_streams a) k' \<and> chan k' a (concat (replicate i hello)) False False"
    and u: "\<And>s' k'. bench C p (pipe_streams a) k' \<and> chan k' a (concat (replicate (Suc i) hello)) False False \<Longrightarrow> holds Q (u s') k'"
  have "length (concat (replicate i hello)) + 12 \<le> BUFF_SIZE"
    using i by (simp add: length_concat sum_list_replicate BUFF_SIZE_def)
  then have "holds Q (write_hello c (int 1) 12 (u ())) k'"
    using I by (intro write_hello_ok [where T = "pipe_streams a" and a = a and x = "(Pipe_obj a, Writer_ops)", OF _ assms(2)])
      (auto simp: replicate_snoc intro!: u)
  then show "holds Q (write_hello c 1 12 (u ())) k'" by simp
qed (use assms in auto)

lemma read_loop:
  assumes "bench C p (pipe_streams a) k" and "c \<in> C" and "chan k a (concat (replicate 3 hello)) False False" and "length buf = 12"
    and "\<And>buf k'. bench C p (pipe_streams a) k' \<Longrightarrow> chan k' a [] False False \<Longrightarrow> holds Q (t buf) k'"
  shows "holds Q (loop 3 (\<lambda>buf t. read_hello run c 0 buf t) buf t) k"
proof -
  have "holds Q (loop 3 (\<lambda>buf t. read_hello run c (int 0) buf t) buf t) k"
    by (rule read_hellos [OF assms(1,2) _ pipe_writes(2) assms(3,4)]) (simp_all add: assms(5))
  then show ?thesis by simp
qed

lemma pipe_open:
  assumes b: "bench C p Map.empty k" and c: "c \<in> C"
  shows "passes (test_pipe_open run c) k"
  unfolding test_pipe_open_def
  by (rule open_pipe_ok [OF b c], rule write_loop [OF _ c], assumption+, rule read_loop [OF _ c], assumption+) simp_all

lemma pipe_close_writer:
  assumes b: "bench C p Map.empty k" and c: "c \<in> C"
  shows "passes (test_pipe_close_writer run c) k"
  unfolding test_pipe_close_writer_def
proof (rule open_pipe_ok [OF b c], rule write_loop [OF _ c], assumption+, rule read_loop [OF _ c], assumption+)
  fix a k' and buf :: "byte list"
  assume b: "bench C p (pipe_streams a) k'" and q: "chan k' a [] False False"
  obtain q0 where q0: "pipes k' a = Some q0" "pipe_inv q0" "contents q0 = []" using q by (auto simp: chan_def)
  have "(pipe_streams a) 1 = Some (Pipe_obj a, Writer_ops)" by simp
  from close_pipe_ok [OF b c this q0(1)] obtain s k2 where k2: "sys_Close c (int 1) k' = Inr (0, k2)"
      "bench C p ((pipe_streams a)(1 := None)) k2"
      "rest k2 = (s, (pipes k')(a \<mapsto> q0\<lparr>writer_closed := True\<rparr>), scbs k', conn_reqs k', PortMap k', devnum k', next_addr k')"
    by blast
  have ch: "chan k2 a [] (reader_closed q0) True"
    using k2(3) q0 by (simp add: rest_def chan_def pipe_inv_def used_def contents_def)
  have "sys_Read run c (int 0) 12 k2 = Inr (Done (0, Bytes []), k2)"
    by (rule read_end [OF k2(2) c _ pipe_writes(2) ch]) simp
  then have "returns (sys_Read run c 0 12) k2 = Inr ((0, Bytes []), k2)" by (simp add: returns_def)
  then have "passes (loop 3 (\<lambda>_ t. checks (returns (sys_Read run c 0 12)) (\<lambda>(rc, _). rc = 0) (t ())) () (\<lambda>_. return_0)) k2"
    by (intro holds_loop [where I = "\<lambda>_ _ k'. k' = k2"]) (simp_all add: holds_checks)
  then show "passes (call (sys_Close c 1) (\<lambda>_. loop 3 (\<lambda>_ t. checks (returns (sys_Read run c 0 12)) (\<lambda>(rc, _). rc = 0) (t ())) ()
      (\<lambda>_. return_0))) k'"
    using k2(1) by (simp add: holds_call)
qed simp

text \<open>Closing the reader frees the pipe, and the next write uses it.\<close>

lemma pipe_close_reader:
  assumes b: "bench C p Map.empty k" and c: "c \<in> C"
  shows "faults Use_after_free (test_pipe_close_reader c) k"
  unfolding test_pipe_close_reader_def
proof (rule open_pipe_ok [OF b c], rule write_loop [OF _ c], assumption+)
  fix a k'
  assume b: "bench C p (pipe_streams a) k'" and q: "chan k' a (concat (replicate 3 hello)) False False"
  obtain q0 where q0: "pipes k' a = Some q0" "\<not> reader_closed q0" using q by (auto simp: chan_def)
  have "(pipe_streams a) 0 = Some (Pipe_obj a, Reader_ops)" by simp
  from close_pipe_ok [OF b c this q0(1)] q0(2) obtain s k2 where k2: "sys_Close c (int 0) k' = Inr (0, k2)"
      "bench C p ((pipe_streams a)(0 := None)) k2"
      "rest k2 = (s, (pipes k')(a := None), scbs k', conn_reqs k', PortMap k', devnum k', next_addr k')"
    by blast
  have "((pipe_streams a)(0 := None)) 1 = Some (Pipe_obj a, Writer_ops)" by simp
  then obtain f where "get_fcb c (int 1) k2 = Inr (Some f)" "streamobj (FT k2 f) = Pipe_obj a" "streamfunc (FT k2 f) = Some Writer_ops"
    by (rule bench_get [OF k2(2) c])
  moreover have "pipes k2 a = None" using k2(3) by (simp add: rest_def)
  ultimately have "returns (sys_Write c 1 ((!) hello) 12) k2 = Inl Use_after_free"
    by (simp add: returns_def sys_Write_def Let_def has_write_def stream_write_def pipe_of_def pipe_write_def FCB_incref_def)
  then have "faults Use_after_free (loop 3 (\<lambda>_ t. write_hello c 1 (-1) (t ())) () (\<lambda>_. return_0)) k2"
    by (simp add: numeral_3_eq_3 write_hello_def checks_def faults_call)
  then show "faults Use_after_free (call (sys_Close c 0) (\<lambda>_. loop 3 (\<lambda>_ t. write_hello c 1 (-1) (t ())) () (\<lambda>_. return_0))) k'"
    using k2(1) by (simp add: holds_call)
qed

lemma pipe_fails_on_exhausted_fid:
  assumes b: "bench C p Map.empty k" and c: "c \<in> C"
  shows "passes (test_pipe_fails_on_exhausted_fid c) k"
  unfolding test_pipe_fails_on_exhausted_fid_def
proof (rule holds_loop [where I = "\<lambda>i _ k'. \<exists>T. bench C p T k' \<and> prefix_used (2 * i) T"])
  show "\<exists>T. bench C p T k \<and> prefix_used (2 * 0) T" using b prefix_used_empty by auto
next
  fix i s k' and t :: "unit \<Rightarrow> test"
  assume i: "i < MAX_FILEID div 2" and I: "\<exists>T. bench C p T k' \<and> prefix_used (2 * i) T"
    and t: "\<And>s' k'. \<exists>T. bench C p T k' \<and> prefix_used (2 * Suc i) T \<Longrightarrow> passes (t s') k'"
  obtain T where T: "bench C p T k'" "prefix_used (2 * i) T" using I by blast
  have "Suc (2 * i) < MAX_FILEID" using i by (simp add: MAX_FILEID_def)
  from pipe_ok [OF T(1) c prefix_used_next_two [OF T(2) this]] obtain k2 x y where k2:
    "sys_Pipe c k' = Inr (Some (int (2 * i), int (Suc (2 * i))), k2)" "bench C p (T(2 * i \<mapsto> x, Suc (2 * i) \<mapsto> y)) k2" by blast
  have "prefix_used (2 * Suc i) (T(2 * i \<mapsto> x, Suc (2 * i) \<mapsto> y))"
    using prefix_used_add [OF prefix_used_add [OF T(2)]] by simp
  then have "passes (t ()) k2" using k2(2) by (intro t) blast
  then show "passes (checks (sys_Pipe c) (\<lambda>x. x \<noteq> None) (t ())) k'" using k2(1) by (simp add: holds_checks)
next
  fix s k' assume "\<exists>T. bench C p T k' \<and> prefix_used (2 * (MAX_FILEID div 2)) T"
  then obtain T where T: "bench C p T k'" "prefix_used (2 * (MAX_FILEID div 2)) T" by blast
  have "next_fids 2 T = []" by (rule prefix_used_full [OF T(2)]) (simp_all add: MAX_FILEID_def)
  then have "sys_Pipe c k' = Inr (None, k')" using reserve_none [OF T(1) c, of 2] by (simp add: sys_Pipe_def)
  then show "passes (loop (MAX_FILEID div 2) (\<lambda>_ t. checks (sys_Pipe c) (\<lambda>x. x = None) (t ())) () (\<lambda>_. return_0)) k'"
    by (intro holds_loop [where I = "\<lambda>_ _ j. j = k'"]) (simp_all add: holds_checks)
qed

section \<open>Sockets\<close>

lemma first_two: "next_fids 1 Map.empty = [0]" "next_fids 1 [0 \<mapsto> x] = [1]"
proof -
  show "next_fids 1 Map.empty = [0]" by (rule prefix_used_next [OF prefix_used_empty fid_0])
  have "prefix_used 1 [0 \<mapsto> x]" using prefix_used_add [OF prefix_used_empty] by simp
  then show "next_fids 1 [0 \<mapsto> x] = [1]" by (rule prefix_used_next) (simp add: MAX_FILEID_def)
qed

lemma max_port [simp]: "MAX_PORT = 1023"
  by (simp add: MAX_PORT_def)

lemma sockets_loop:
  assumes b: "bench C p Map.empty k" and c: "c \<in> C"
    and go: "\<And>T k'. bench C p T k' \<Longrightarrow> prefix_used MAX_FILEID T \<Longrightarrow> passes (t ()) k'"
  shows "passes (loop MAX_FILEID (\<lambda>_ t. checks (sys_Socket c 100) (\<lambda>f. f \<noteq> NOFILE) (t ())) () t) k"
proof (rule holds_loop [where I = "\<lambda>i _ k'. \<exists>T. bench C p T k' \<and> prefix_used i T"])
  show "\<exists>T. bench C p T k \<and> prefix_used 0 T" using b by (intro exI [of _ Map.empty]) simp
next
  fix i s k' and u :: "unit \<Rightarrow> test"
  assume i: "i < MAX_FILEID" and I: "\<exists>T. bench C p T k' \<and> prefix_used i T"
    and u: "\<And>s' k'. \<exists>T. bench C p T k' \<and> prefix_used (Suc i) T \<Longrightarrow> passes (u s') k'"
  obtain T where T: "bench C p T k'" "prefix_used i T" using I by blast
  obtain k2 x where k2: "sys_Socket c 100 k' = Inr (int i, k2)" "bench C p (T(i \<mapsto> x)) k2"
    using socket_ok [OF T(1) c prefix_used_next [OF T(2) i], of 100] by auto
  have "passes (u ()) k2" using k2(2) prefix_used_add [OF T(2)] by (intro u) blast
  then show "passes (checks (sys_Socket c 100) (\<lambda>f. f \<noteq> NOFILE) (u ())) k'" using k2(1) by (simp add: holds_checks NOFILE_def)
next
  fix s k' assume "\<exists>T. bench C p T k' \<and> prefix_used MAX_FILEID T"
  then show "passes (t s) k'" using go by auto
qed

lemma socket_constructor_many_per_port:
  assumes "bench C p Map.empty k" and "c \<in> C"
  shows "passes (test_socket_constructor_many_per_port c) k"
  unfolding test_socket_constructor_many_per_port_def by (rule sockets_loop [OF assms]) simp

lemma socket_constructor_out_of_fids:
  assumes b: "bench C p Map.empty k" and c: "c \<in> C"
  shows "passes (test_socket_constructor_out_of_fids c) k"
  unfolding test_socket_constructor_out_of_fids_def
proof (rule sockets_loop [OF b c])
  fix T k' assume T: "bench C p T k'" "prefix_used MAX_FILEID T"
  have "next_fids 1 T = []" by (rule prefix_used_full [OF T(2)]) simp_all
  then have "sys_Socket c 100 k' = Inr (NOFILE, k')" using reserve_none [OF T(1) c, of 1] by (simp add: sys_Socket_def)
  then show "passes (loop MAX_FILEID (\<lambda>_ t. checks (sys_Socket c 100) (\<lambda>f. f = NOFILE) (t ())) () (\<lambda>_. return_0)) k'"
    by (intro holds_loop [where I = "\<lambda>_ _ j. j = k'"]) (simp_all add: holds_checks)
qed

lemma socket_constructor_illegal_port:
  assumes b: "bench C p Map.empty k" and c: "c \<in> C"
  shows "passes (test_socket_constructor_illegal_port c) k"
proof -
  note add = prefix_used_add [OF prefix_used_empty] prefix_used_add [OF prefix_used_add [OF prefix_used_empty]]
  have n: "Suc 0 < MAX_FILEID" "Suc (Suc 0) < MAX_FILEID" by (simp_all add: MAX_FILEID_def)
  obtain k1 x where 1: "sys_Socket c 0 k = Inr (0, k1)" "bench C p [0 \<mapsto> x] k1"
    using socket_ok [OF b c prefix_used_next [OF prefix_used_empty fid_0], of 0] by auto
  obtain k2 y where 2: "sys_Socket c 1 k1 = Inr (1, k2)" "bench C p [0 \<mapsto> x, Suc 0 \<mapsto> y] k2"
    using socket_ok [OF 1(2) c prefix_used_next [OF add(1) n(1)], of 1] by auto
  obtain k3 where 3: "sys_Socket c 1023 k2 = Inr (2, k3)"
    using socket_ok [OF 2(2) c prefix_used_next [OF add(2) n(2)], of 1023] by auto
  show ?thesis
    using 1 2 3 by (simp add: test_socket_constructor_illegal_port_def NOPORT_def NOFILE_def holds_checks sys_Socket_def)
qed

text \<open>A socket at descriptor 0.\<close>

lemma first_socket:
  assumes "bench C p Map.empty k" and "c \<in> C" and "0 \<le> prt" "prt \<le> int MAX_PORT"
  obtains k1 x where "sys_Socket c prt k = Inr (0, k1)" "bench C p [0 \<mapsto> (Scb_obj x, Socket_ops)] k1" "scbs k1 x = Some (new_scb (nat prt) 0)"
    "PortMap k1 = PortMap k" "x < next_addr k1"
  using socket_ok [OF assms(1,2) first_two(1) assms(3,4)] by (auto simp: rest_def)

lemma first_null:
  assumes "bench C p Map.empty k" and "c \<in> C"
  obtains k1 where "sys_OpenNull c k = Inr (0, k1)" "bench C p [0 \<mapsto> (Null_object, Nulldev_fops)] k1"
  using open_null_ok [OF assms first_two(1)] by auto

lemma new_scb_sel [simp]: "port (new_scb n i) = n" "stype (new_scb n i) = UNBOUND" "srefcount (new_scb n i) = 0"
    "req_queue (new_scb n i) = []"
  by (simp_all add: new_scb_def)

lemma listen_tests:
  assumes b: "bench C p Map.empty k" and c: "c \<in> C" and free: "PortMap k = Map.empty"
  shows "passes (test_listen_success c) k" and "passes (test_listen_fails_on_NOPORT c) k"
proof -
  obtain k1 x where 1: "sys_Socket c 100 k = Inr (0, k1)" "bench C p [0 \<mapsto> (Scb_obj x, Socket_ops)] k1" "scbs k1 x = Some (new_scb 100 0)"
    "PortMap k1 = PortMap k" by (rule first_socket [OF b c, of 100]) (simp_all add: that)
  obtain k2 where "sys_Listen c (int 0) k1 = Inr (0, k2)"
    using listen_ok [OF 1(2) c _ 1(3), of 0] 1(4) free by auto
  then show "passes (test_listen_success c) k" using 1(1) by (simp add: test_listen_success_def holds_call holds_checks)
  obtain k1 x where 1: "sys_Socket c 0 k = Inr (0, k1)" "bench C p [0 \<mapsto> (Scb_obj x, Socket_ops)] k1" "scbs k1 x = Some (new_scb 0 0)"
    by (rule first_socket [OF b c, of 0]) (simp_all add: that)
  have "socket_of_fid c (int 0) k1 = Inr (Some x)" by (rule socket_at [OF 1(2) c]) simp
  then have "sys_Listen c 0 k1 = Inr (-1, k1)" using 1(3) by (intro listen_fails [where a = "Some x"]) simp_all
  then show "passes (test_listen_fails_on_NOPORT c) k"
    using 1(1) by (simp add: test_listen_fails_on_NOPORT_def NOPORT_def holds_call holds_checks)
qed

lemma bad_fid_tests:
  assumes b: "bench C p Map.empty k" and c: "c \<in> C"
  shows "passes (test_listen_fails_on_bad_fid c) k" and "passes (test_accept_fails_on_bad_fid c) k" and "passes (test_connect_fails_on_bad_fid c) k"
proof -
  obtain k1 where 1: "sys_OpenNull c k = Inr (0, k1)" "bench C p [0 \<mapsto> (Null_object, Nulldev_fops)] k1"
    by (rule first_null [OF b c])
  have s: "socket_of_fid c 7 k = Inr None" "socket_of_fid c 0 k1 = Inr None" "socket_of_fid c NOFILE k1 = Inr None"
      "socket_of_fid c (int MAX_FILEID) k1 = Inr None"
    using other_socket [OF 1(2) c, of 0] no_socket [OF no_fid [OF b c]] no_socket [OF no_fid [OF 1(2) c]] by (simp_all add: NOFILE_def)
  have l: "sys_Listen c 7 k = Inr (-1, k)" "sys_Listen c 0 k1 = Inr (-1, k1)" "sys_Listen c NOFILE k1 = Inr (-1, k1)"
      "sys_Listen c (int MAX_FILEID) k1 = Inr (-1, k1)"
    using s by (simp_all add: listen_fails)
  have a: "returns (sys_Accept c 7) k = Inr (-1, k)" "returns (sys_Accept c 0) k1 = Inr (-1, k1)" "returns (sys_Accept c NOFILE) k1 = Inr (-1, k1)"
      "returns (sys_Accept c (int MAX_FILEID)) k1 = Inr (-1, k1)"
    using s by (simp_all add: accept_listener_none)
  show "passes (test_listen_fails_on_bad_fid c) k" using 1(1) l by (simp add: test_listen_fails_on_bad_fid_def holds_call holds_checks)
  show "passes (test_accept_fails_on_bad_fid c) k" using 1(1) a by (simp add: test_accept_fails_on_bad_fid_def holds_call holds_checks)
  show "passes (test_connect_fails_on_bad_fid c) k" using 1(1) a by (simp add: test_connect_fails_on_bad_fid_def holds_call holds_checks)
qed

lemma listen_fails_on_occupied_port:
  assumes b: "bench C p Map.empty k" and c: "c \<in> C" and free: "PortMap k = Map.empty"
  shows "passes (test_listen_fails_on_occupied_port c) k"
proof -
  obtain k1 x where 1: "sys_Socket c 100 k = Inr (0, k1)" "bench C p [0 \<mapsto> (Scb_obj x, Socket_ops)] k1" "scbs k1 x = Some (new_scb 100 0)"
    "PortMap k1 = PortMap k" "x < next_addr k1" by (rule first_socket [OF b c, of 100]) (simp_all add: that)
  let ?l = "(new_scb 100 0)\<lparr>req_queue := [], srefcount := 1, stype := LISTENER\<rparr>"
  obtain s k2 where 2: "sys_Listen c (int 0) k1 = Inr (0, k2)" "bench C p [0 \<mapsto> (Scb_obj x, Socket_ops)] k2"
      "rest k2 = (s, pipes k1, (scbs k1)(x \<mapsto> ?l), conn_reqs k1, (PortMap k1)(100 \<mapsto> x), devnum k1, next_addr k1)"
    using listen_ok [OF 1(2) c _ 1(3), of 0] 1(4) free by auto
  have "next_fids 1 [0 \<mapsto> (Scb_obj x, Socket_ops)] = [1]" by (rule first_two)
  then obtain y k3 where 3: "sys_Socket c 100 k2 = Inr (1, k3)" "bench C p [0 \<mapsto> (Scb_obj x, Socket_ops), 1 \<mapsto> (Scb_obj y, Socket_ops)] k3"
      "rest k3 = (cc k2, pipes k2, (scbs k2)(y \<mapsto> new_scb 100 1), conn_reqs k2, PortMap k2, devnum k2, Suc y)" "y = next_addr k2"
    using socket_ok [OF 2(2) c, of 1 100] by auto
  have xy: "x \<noteq> y" using 1(5) 2(3) 3(4) by (simp add: rest_def)
  have so: "socket_of_fid c (int 1) k3 = Inr (Some y)" by (rule socket_at [OF 3(2) c]) simp
  have sy: "scbs k3 y = Some (new_scb 100 1)" "PortMap k3 100 = Some x" "scbs k3 x = Some ?l"
    using 2(3) 3(3) xy by (simp_all add: rest_def)
  have l3: "sys_Listen c 1 k3 = Inr (-1, k3)" using so sy(1,2) by (intro listen_fails [where a = "Some y"]) simp_all
  let ?T = "[0 \<mapsto> (Scb_obj x, Socket_ops), 1 \<mapsto> (Scb_obj y, Socket_ops)](0 := None)"
  have "\<exists>s4 k4. sys_Close c (int 0) k3 = Inr (0, k4) \<and> bench C p ?T k4 \<and>
      rest k4 = (s4, pipes k3, (scbs k3)(x := None), conn_reqs k3, (PortMap k3)(100 := None), devnum k3, next_addr k3)"
    using close_listener_ok [OF 3(2) c _ sy(3), of 0] sy(2) by simp
  then obtain s4 k4 where 4: "sys_Close c (int 0) k3 = Inr (0, k4)" "bench C p ?T k4"
      "rest k4 = (s4, pipes k3, (scbs k3)(x := None), conn_reqs k3, (PortMap k3)(100 := None), devnum k3, next_addr k3)"
    by blast
  have "next_fids 1 ?T = [0]" unfolding next_fids_def by (rule find_first) (simp_all add: MAX_FILEID_def)
  then obtain z k5 where 5: "sys_Socket c 100 k4 = Inr (0, k5)" "bench C p (?T(0 \<mapsto> (Scb_obj z, Socket_ops))) k5"
      "rest k5 = (cc k4, pipes k4, (scbs k4)(z \<mapsto> new_scb 100 0), conn_reqs k4, PortMap k4, devnum k4, Suc z)"
    using socket_ok [OF 4(2) c, of 0 100] by auto
  have "scbs k5 z = Some (new_scb 100 0)" "PortMap k5 100 = None" using 4(3) 5(3) by (simp_all add: rest_def)
  then obtain k6 where "sys_Listen c (int 0) k5 = Inr (0, k6)" using listen_ok [OF 5(2) c, of 0 z] by auto
  with 1(1) 2(1) 3(1) l3 4(1) 5(1) show ?thesis
    by (simp add: test_listen_fails_on_occupied_port_def holds_call holds_checks)
qed

lemma unbound_tests:
  assumes b: "bench C p Map.empty k" and c: "c \<in> C" and free: "PortMap k = Map.empty"
  shows "passes (test_accept_fails_on_unbound_socket c) k" and "passes (test_connect_fails_on_illegal_port c) k"
    and "passes (test_connect_fails_on_non_listened_port c) k"
proof -
  obtain k1 x where 1: "sys_Socket c 100 k = Inr (0, k1)" "bench C p [0 \<mapsto> (Scb_obj x, Socket_ops)] k1" "scbs k1 x = Some (new_scb 100 0)"
    by (rule first_socket [OF b c, of 100]) (simp_all add: that)
  have "socket_of_fid c (int 0) k1 = Inr (Some x)" by (rule socket_at [OF 1(2) c]) simp
  then have "returns (sys_Accept c 0) k1 = Inr (-1, k1)" using 1(3) by (intro accept_listener_none [where a = "Some x"]) simp_all
  then show "passes (test_accept_fails_on_unbound_socket c) k"
    using 1(1) by (simp add: test_accept_fails_on_unbound_socket_def holds_call holds_checks)
  obtain k1 where 1: "sys_Socket c 10 k = Inr (0, k1)" "PortMap k1 = PortMap k"
    by (rule first_socket [OF b c, of 10]) (simp_all add: that)
  have "returns (sys_Connect c 0 prt tm) k1 = Inr (-1, k1)" for prt tm
    using 1(2) free by (simp add: returns_def sys_Connect_def)
  then show "passes (test_connect_fails_on_illegal_port c) k" "passes (test_connect_fails_on_non_listened_port c) k"
    using 1(1) by (simp_all add: test_connect_fails_on_illegal_port_def test_connect_fails_on_non_listened_port_def holds_call holds_checks)
qed

text \<open>A listener at descriptor 0 and a second socket at descriptor 1.\<close>

definition listener_at :: "nat \<Rightarrow> nat \<Rightarrow> scb \<Rightarrow> kernel \<Rightarrow> bool" where
  "listener_at x prt s k \<longleftrightarrow> scbs k x = Some s \<and> stype s = LISTENER \<and> port s = prt \<and> srefcount s = 1 \<and> PortMap k prt = Some x"

lemma listening_first:
  assumes b: "bench C p Map.empty k" and c: "c \<in> C" and free: "PortMap k = Map.empty"
  obtains k1 k2 x s where "sys_Socket c 100 k = Inr (0, k1)" "sys_Listen c 0 k1 = Inr (0, k2)" "bench C p [0 \<mapsto> (Scb_obj x, Socket_ops)] k2"
    "listener_at x 100 s k2" "req_queue s = []" "x < next_addr k2" "PortMap k2 = [100 \<mapsto> x]"
proof -
  obtain k1 x where 1: "sys_Socket c 100 k = Inr (0, k1)" "bench C p [0 \<mapsto> (Scb_obj x, Socket_ops)] k1" "scbs k1 x = Some (new_scb 100 0)"
    "PortMap k1 = PortMap k" "x < next_addr k1" by (rule first_socket [OF b c, of 100]) (simp_all add: that)
  let ?l = "(new_scb 100 0)\<lparr>req_queue := [], srefcount := 1, stype := LISTENER\<rparr>"
  obtain s k2 where 2: "sys_Listen c (int 0) k1 = Inr (0, k2)" "bench C p [0 \<mapsto> (Scb_obj x, Socket_ops)] k2"
      "rest k2 = (s, pipes k1, (scbs k1)(x \<mapsto> ?l), conn_reqs k1, (PortMap k1)(100 \<mapsto> x), devnum k1, next_addr k1)"
    using listen_ok [OF 1(2) c _ 1(3), of 0] 1(4) free by auto
  have "listener_at x 100 ?l k2" "x < next_addr k2" "PortMap k2 = [100 \<mapsto> x]"
    using 2(3) 1(4,5) free by (simp_all add: listener_at_def rest_def)
  with that 1(1) 2(1,2) show ?thesis by simp
qed

lemma connect_fails_on_timeout:
  assumes b: "bench C p Map.empty k" and c: "c \<in> C" and free: "PortMap k = Map.empty"
  shows "passes (test_connect_fails_on_timeout c) k"
proof -
  obtain k1 k2 x s where l: "sys_Socket c 100 k = Inr (0, k1)" "sys_Listen c 0 k1 = Inr (0, k2)" "bench C p [0 \<mapsto> (Scb_obj x, Socket_ops)] k2"
    "listener_at x 100 s k2" "req_queue s = []" "x < next_addr k2"
    using listening_first [OF b c free] by metis
  obtain y k3 where 3: "sys_Socket c 10 k2 = Inr (1, k3)" "bench C p [0 \<mapsto> (Scb_obj x, Socket_ops), 1 \<mapsto> (Scb_obj y, Socket_ops)] k3"
      "rest k3 = (cc k2, pipes k2, (scbs k2)(y \<mapsto> new_scb 10 1), conn_reqs k2, PortMap k2, devnum k2, Suc y)" "y = next_addr k2"
    using socket_ok [OF l(3) c first_two(2), of 10] by auto
  have k3: "scbs k3 y = Some (new_scb 10 1)" "scbs k3 x = Some s" "stype s = LISTENER" "PortMap k3 (nat 100) = Some x"
    using l(4,6) 3(3,4) by (auto simp: rest_def listener_at_def)
  have "[0 \<mapsto> (Scb_obj x, Socket_ops), 1 \<mapsto> (Scb_obj y, Socket_ops)] 1 = Some (Scb_obj y, Socket_ops)" by simp
  from connect_ok [OF 3(2) c this k3(1) _ k3(4,2,3), of 100] obtain s4 k4 where 4:
    "sys_Connect c (int 1) 100 100 k3 = Inr (Wait (Connected_cv (next_addr k3)) SCHED_USER (MILLISEC 100) (next_addr k3), k4)"
    "rest k4 = (s4, pipes k3, (scbs k3)(x \<mapsto> s\<lparr>req_queue := req_queue s @ [next_addr k3]\<rparr>),
      (conn_reqs k3)(next_addr k3 \<mapsto> \<lparr>csocket = y, accepted = False\<rparr>), PortMap k3, devnum k3, Suc (next_addr k3))"
    by auto
  have "conn_reqs (yield_kernel k4) (next_addr k3) = Some \<lparr>csocket = y, accepted = False\<rparr>"
    using 4(2) by (simp add: rest_def yield_kernel_def)
  then have "returns (sys_Connect_resume (next_addr k3) 100 False) (yield_kernel k4) = Inr (-1, yield_kernel k4)"
    by (simp add: returns_def sys_Connect_resume_def)
  with l(1,2) 3(1) 4(1) show ?thesis
    by (simp add: test_connect_fails_on_timeout_def lonely_Connect_def holds_call holds_checks holds_ASSERT NOFILE_def)
qed

end
