(* ===== verification/SocketTestsRun.thy ===== *)
theory SocketTestsRun
  imports ApiTestsRun
begin

text \<open>
  The tests of \<open>ApiTests\<close> in which two threads of the process connect sockets, run in any state that satisfies \<open>bench\<close> and
  in either order of the threads, and what all the tests come to.
\<close>

section \<open>Connecting two sockets\<close>

text \<open>The state after socket \<open>y\<close> has been accepted behind descriptor \<open>i\<close>.\<close>

abbreviation server_side :: "kernel \<Rightarrow> nat" where
  "server_side k \<equiv> Suc (next_addr k)"

definition met :: "nat \<Rightarrow> scb \<Rightarrow> nat \<Rightarrow> nat \<Rightarrow> kernel \<Rightarrow> kernel \<Rightarrow> bool" where
  "met y sy i prt k k' \<longleftrightarrow> (let v = server_side k in \<exists>s C. rest k' = (s, (pipes k)(v + 1 \<mapsto> empty_pipe, v + 2 \<mapsto> empty_pipe),
     (scbs k)(v \<mapsto> peered (new_scb prt i) y (v + 2) (v + 1), y \<mapsto> peered sy v (v + 1) (v + 2)), C, PortMap k, devnum k, v + 3))"

lemma met_sel:
  assumes "met y sy i prt k k'"
  shows "pipes k' = (pipes k)(server_side k + 1 \<mapsto> empty_pipe, server_side k + 2 \<mapsto> empty_pipe)"
    "scbs k' = (scbs k)(server_side k \<mapsto> peered (new_scb prt i) y (server_side k + 2) (server_side k + 1),
       y \<mapsto> peered sy (server_side k) (server_side k + 1) (server_side k + 2))"
    "PortMap k' = PortMap k" "devnum k' = devnum k" "next_addr k' = server_side k + 3"
  using assms by (auto simp: met_def rest_def Let_def)

text \<open>A listener whose queue is empty, and a socket to connect to it.\<close>

definition attended :: "nat \<Rightarrow> nat \<Rightarrow> scb \<Rightarrow> kernel \<Rightarrow> bool" where
  "attended x y sy k \<longleftrightarrow> (\<exists>sx. listener_at x 100 sx k \<and> req_queue sx = []) \<and> scbs k y = Some sy \<and> stype sy = UNBOUND \<and> y \<noteq> x"

lemma connect_then_accept:
  assumes b: "bench C p T k" and c: "ca \<in> C" "cb \<in> C" and t: "T l = Some (Scb_obj x, Socket_ops)" "T j = Some (Scb_obj y, Socket_ops)"
    and r: "attended x y sy k" and i: "next_fids 1 T = [i]"
  defines "q \<equiv> next_addr k"
  obtains k2 k4 sx where "sys_Connect cb (int j) 100 1000 k = Inr (Wait (Connected_cv q) SCHED_USER (MILLISEC 1000) q, k2)"
    "accept_request ca x (yield_kernel k2) = Inr (int i, k4)" "socket_of_fid ca (int l) (yield_kernel k2) = Inr (Some x)"
    "listener_at x 100 sx (yield_kernel k2)" "req_queue sx \<noteq> []"
    "returns (sys_Connect_resume q 1000 True) (yield_kernel k4) = Inr (0, yield_kernel k4)"
    "bench C p (T(i \<mapsto> (Scb_obj (server_side k), Socket_ops))) (yield_kernel k4)" "met y sy i 100 k (yield_kernel k4)"
proof -
  obtain sx where x: "listener_at x 100 sx k" "req_queue sx = []" and y: "scbs k y = Some sy" "stype sy = UNBOUND" "y \<noteq> x"
    using r by (auto simp: attended_def)
  note L = x(1) [unfolded listener_at_def]
  have l: "PortMap k (nat 100) = Some x" "scbs k x = Some sx" "stype sx = LISTENER" "port sx = 100" "srefcount sx = 1" using L by simp_all
  from connect_ok [OF b c(2) t(2) y(1,2) l(1-3), of 1000] obtain s2 k2 where k2:
    "sys_Connect cb (int j) 100 1000 k = Inr (Wait (Connected_cv q) SCHED_USER (MILLISEC 1000) q, k2)" "bench C p T k2"
    "rest k2 = (s2, pipes k, (scbs k)(x \<mapsto> sx\<lparr>req_queue := [q]\<rparr>), (conn_reqs k)(q \<mapsto> \<lparr>csocket = y, accepted = False\<rparr>),
      PortMap k, devnum k, Suc q)"
    by (auto simp: x(2) q_def)
  let ?k3 = "yield_kernel k2"
  have R: "rest ?k3 = (cc ?k3, pipes k, (scbs k)(x \<mapsto> sx\<lparr>req_queue := [q]\<rparr>), (conn_reqs k)(q \<mapsto> \<lparr>csocket = y, accepted = False\<rparr>),
      PortMap k, devnum k, Suc q)"
    using bench_yield(2) [OF k2(2)] k2(3) by simp
  have R3: "scbs ?k3 x = Some (sx\<lparr>req_queue := [q]\<rparr>)" "scbs ?k3 y = Some sy" "conn_reqs ?k3 q = Some \<lparr>csocket = y, accepted = False\<rparr>"
     "PortMap ?k3 = PortMap k" "pipes ?k3 = pipes k" "next_addr ?k3 = Suc q" "devnum ?k3 = devnum k"
     "scbs ?k3 = (scbs k)(x \<mapsto> sx\<lparr>req_queue := [q]\<rparr>)"
    using R y by (simp_all add: rest_def)
  have b3: "bench C p T ?k3" by (rule bench_yield(1) [OF k2(2)])
  from accept_ok [OF b3 c(1) i R3(1), of q "[]" "\<lparr>csocket = y, accepted = False\<rparr>" y sy] R3(2,3) y(3) l(4)
  obtain s4 k4 where k4: "accept_request ca x ?k3 = Inr (int i, k4)" "bench C p (T(i \<mapsto> (Scb_obj (Suc q), Socket_ops))) k4"
    "rest k4 = (s4, (pipes k)(Suc q + 1 \<mapsto> empty_pipe, Suc q + 2 \<mapsto> empty_pipe),
      (scbs ?k3)(x \<mapsto> sx\<lparr>req_queue := []\<rparr>, Suc q \<mapsto> peered (new_scb 100 i) y (Suc q + 2) (Suc q + 1), y \<mapsto> peered sy (Suc q) (Suc q + 1) (Suc q + 2)),
      (conn_reqs ?k3)(q \<mapsto> \<lparr>csocket = y, accepted = True\<rparr>), PortMap k, devnum k, Suc q + 3)"
    by (auto simp: R3(4-7))
  have yr: "rest (yield_kernel k4) = (cc (yield_kernel k4), snd (rest k4))" by (rule bench_yield(2) [OF k4(2)])
  have "sx\<lparr>req_queue := []\<rparr> = sx" using x(2) by simp
  then have "(scbs ?k3)(x \<mapsto> sx\<lparr>req_queue := []\<rparr>) = scbs k" using l(2) by (simp add: R3(8) fun_upd_idem)
  then have m: "met y sy i 100 k (yield_kernel k4)" using yr k4(3) by (simp add: met_def Let_def q_def)
  have a: "conn_reqs (yield_kernel k4) q = Some \<lparr>csocket = y, accepted = True\<rparr>" using yr k4(3) by (simp add: rest_def)
  show ?thesis
  proof (rule that)
    show "listener_at x 100 (sx\<lparr>req_queue := [q]\<rparr>) ?k3" using L R3(1,4) by (simp add: listener_at_def)
    show "returns (sys_Connect_resume q 1000 True) (yield_kernel k4) = Inr (0, yield_kernel k4)"
      by (simp add: returns_def sys_Connect_resume_def connect_loop_def a)
    show "bench C p (T(i \<mapsto> (Scb_obj (server_side k), Socket_ops))) (yield_kernel k4)" using bench_yield(1) [OF k4(2)] by (simp add: q_def)
    show "socket_of_fid ca (int l) ?k3 = Inr (Some x)" by (rule socket_at [OF b3 c(1) t(1)])
  qed (use k2(1) k4(1) m in simp_all)
qed

lemma accept_connect_ok:
  assumes b: "bench C p T k" and c: "ca \<in> C" "cb \<in> C" and t: "T l = Some (Scb_obj x, Socket_ops)" "T j = Some (Scb_obj y, Socket_ops)"
    and r: "attended x y sy k" and i: "next_fids 1 T = [i]"
    and go: "\<And>k'. bench C p (T(i \<mapsto> (Scb_obj (server_side k), Socket_ops))) k' \<Longrightarrow> met y sy i 100 k k' \<Longrightarrow> holds Q (t (int i) 0) k'"
  shows "holds Q (accept_connect (ca, cb, accept_first) (int j) (int l) 100 t) k"
proof (cases accept_first)
  case False
  obtain k2 k4 sx where A: "sys_Connect cb (int j) 100 1000 k = Inr (Wait (Connected_cv (next_addr k)) SCHED_USER (MILLISEC 1000) (next_addr k), k2)"
    "accept_request ca x (yield_kernel k2) = Inr (int i, k4)" "socket_of_fid ca (int l) (yield_kernel k2) = Inr (Some x)"
    "listener_at x 100 sx (yield_kernel k2)" "req_queue sx \<noteq> []"
    "returns (sys_Connect_resume (next_addr k) 1000 True) (yield_kernel k4) = Inr (0, yield_kernel k4)"
    "bench C p (T(i \<mapsto> (Scb_obj (server_side k), Socket_ops))) (yield_kernel k4)" "met y sy i 100 k (yield_kernel k4)"
    by (rule connect_then_accept [OF b c t r i]) (rule that; assumption)
  have "returns (sys_Accept ca (int l)) (yield_kernel k2) = Inr (int i, k4)"
    using A(2-5) fid_at_most [OF b t(1)] by (simp add: returns_def sys_Accept_def accept_listener_def listener_at_def)
  with False A(1,6) go [OF A(7,8)] show ?thesis by (simp add: accept_connect_def holds_call Connect_end_def)
next
  case True
  have b1: "bench C p T (yield_kernel k)" by (rule bench_yield(1) [OF b])
  have R: "rest (yield_kernel k) = (cc (yield_kernel k), snd (rest k))" by (rule bench_yield(2) [OF b])
  then have Y: "next_addr (yield_kernel k) = next_addr k" "scbs (yield_kernel k) = scbs k" "PortMap (yield_kernel k) = PortMap k"
     "pipes (yield_kernel k) = pipes k" "devnum (yield_kernel k) = devnum k"
    by (simp_all add: rest_def)
  have r1: "attended x y sy (yield_kernel k)" using r by (simp add: attended_def listener_at_def Y)
  obtain k2 k4 sx where A: "sys_Connect cb (int j) 100 1000 (yield_kernel k) =
      Inr (Wait (Connected_cv (next_addr k)) SCHED_USER (MILLISEC 1000) (next_addr k), k2)"
    "accept_request ca x (yield_kernel k2) = Inr (int i, k4)" "socket_of_fid ca (int l) (yield_kernel k2) = Inr (Some x)"
    "listener_at x 100 sx (yield_kernel k2)" "req_queue sx \<noteq> []"
    "returns (sys_Connect_resume (next_addr k) 1000 True) (yield_kernel k4) = Inr (0, yield_kernel k4)"
    "bench C p (T(i \<mapsto> (Scb_obj (server_side k), Socket_ops))) (yield_kernel k4)" "met y sy i 100 (yield_kernel k) (yield_kernel k4)"
    by (rule connect_then_accept [OF b1 c t r1 i, unfolded Y(1)]) (rule that; assumption)
  have m: "met y sy i 100 k (yield_kernel k4)" using A(8) by (simp add: met_def Y)
  have "sys_Accept ca (int l) k = Inr (Wait (Server_requests x) SCHED_PIPE NO_TIMEOUT x, k)"
    using socket_at [OF b c(1) t(1)] r fid_at_most [OF b t(1)] by (auto simp: sys_Accept_def accept_listener_def attended_def listener_at_def)
  moreover have "Accept_end ca (Wait (Server_requests x) SCHED_PIPE NO_TIMEOUT x) (yield_kernel k2) = Inr (int i, k4)"
    using A(2,4) by (simp add: Accept_end_def sys_Accept_resume_def listener_at_def)
  ultimately show ?thesis
    using True A(1,6) go [OF A(7) m] by (simp add: accept_connect_def holds_call Connect_end_def)
qed

text \<open>No descriptor is left for the accepted socket.\<close>

lemma accept_connect_full:
  assumes b: "bench C p T k" and c: "ca \<in> C" "cb \<in> C" and t: "T l = Some (Scb_obj x, Socket_ops)" "T j = Some (Scb_obj y, Socket_ops)"
    and r: "attended x y sy k" and i: "next_fids 1 T = []" and go: "\<And>k'. holds Q (t NOFILE (-1)) k'"
  shows "holds Q (accept_connect (ca, cb, accept_first) (int j) (int l) 100 t) k"
proof -
  define k0 where "k0 = (if accept_first then yield_kernel k else k)"
  have b0: "bench C p T k0" using bench_yield(1) [OF b] b by (simp add: k0_def)
  have "scbs k0 = scbs k" "PortMap k0 = PortMap k"
    using bench_yield(2) [OF b] by (simp_all add: k0_def rest_def)
  then have r0: "attended x y sy k0" using r by (simp add: attended_def listener_at_def)
  obtain sx where x: "listener_at x 100 sx k0" "req_queue sx = []" and y: "scbs k0 y = Some sy" "stype sy = UNBOUND" "y \<noteq> x"
    using r0 by (auto simp: attended_def)
  define q where "q = next_addr k0"
  have l: "PortMap k0 (nat 100) = Some x" "scbs k0 x = Some sx" "stype sx = LISTENER" "port sx = 100" "srefcount sx = 1"
    using x(1) by (simp_all add: listener_at_def)
  from connect_ok [OF b0 c(2) t(2) y(1,2) l(1-3), of 1000] obtain s2 k2 where k2:
    "sys_Connect cb (int j) 100 1000 k0 = Inr (Wait (Connected_cv q) SCHED_USER (MILLISEC 1000) q, k2)" "bench C p T k2"
    "rest k2 = (s2, pipes k0, (scbs k0)(x \<mapsto> sx\<lparr>req_queue := [q]\<rparr>), (conn_reqs k0)(q \<mapsto> \<lparr>csocket = y, accepted = False\<rparr>),
      PortMap k0, devnum k0, Suc q)"
    by (auto simp: x(2) q_def)
  let ?k3 = "yield_kernel k2"
  have b3: "bench C p T ?k3" by (rule bench_yield(1) [OF k2(2)])
  have R3: "scbs ?k3 x = Some (sx\<lparr>req_queue := [q]\<rparr>)" "scbs ?k3 y = Some sy" "conn_reqs ?k3 q = Some \<lparr>csocket = y, accepted = False\<rparr>"
     "PortMap ?k3 = PortMap k0"
    using bench_yield(2) [OF k2(2)] k2(3) y by (simp_all add: rest_def)
  from accept_full [OF b3 c(1) i R3(1), of q "[]" "\<lparr>csocket = y, accepted = False\<rparr>" y sy] R3(2,3) y(3) l(4)
  obtain k4 where k4: "accept_request ca x ?k3 = Inr (NOFILE, k4)" "bench C p T k4" "conn_reqs k4 = conn_reqs ?k3"
    by auto
  have "conn_reqs (yield_kernel k4) q = Some \<lparr>csocket = y, accepted = False\<rparr>"
    using bench_yield(2) [OF k4(2)] k4(3) R3(3) by (simp add: rest_def)
  then have e: "returns (sys_Connect_resume q 1000 True) (yield_kernel k4) = Inr (-1, yield_kernel k4)"
    by (simp add: returns_def sys_Connect_resume_def)
  have so: "socket_of_fid ca (int l) ?k3 = Inr (Some x)" by (rule socket_at [OF b3 c(1) t(1)])
  have "returns (sys_Accept ca (int l)) ?k3 = Inr (NOFILE, k4)" "Accept_end ca (Wait (Server_requests x) SCHED_PIPE NO_TIMEOUT x) ?k3 = Inr (NOFILE, k4)"
    using k4(1) so fid_at_most [OF b t(1)] R3(1,4) l
    by (simp_all add: returns_def sys_Accept_def accept_listener_def Accept_end_def sys_Accept_resume_def)
  moreover have "sys_Accept ca (int l) k = Inr (Wait (Server_requests x) SCHED_PIPE NO_TIMEOUT x, k)"
    using socket_at [OF b c(1) t(1)] r fid_at_most [OF b t(1)] by (auto simp: sys_Accept_def accept_listener_def attended_def listener_at_def)
  ultimately show ?thesis
    using k2(1) e go by (cases accept_first) (simp_all add: k0_def accept_connect_def holds_call Connect_end_def)
qed

lemma connect_sockets_ok:
  assumes "bench C p T k" and "ca \<in> C" "cb \<in> C" and "T l = Some (Scb_obj x, Socket_ops)" "T j = Some (Scb_obj y, Socket_ops)"
    and "attended x y sy k" and "next_fids 1 T = [i]"
    and "\<And>k'. bench C p (T(i \<mapsto> (Scb_obj (server_side k), Socket_ops))) k' \<Longrightarrow> met y sy i 100 k k' \<Longrightarrow> holds Q (t (int i)) k'"
  shows "holds Q (connect_sockets (ca, cb, accept_first) (int j) (int l) 100 t) k"
  unfolding connect_sockets_def
  by (rule accept_connect_ok [OF assms(1-7)]) (simp add: holds_ASSERT NOFILE_def assms(8))

section \<open>The setting of the tests\<close>

text \<open>A listener on port 100 at descriptor 0, and a socket at descriptor 1.\<close>

abbreviation sockets2 :: "nat \<Rightarrow> nat \<Rightarrow> streams" where
  "sockets2 x y \<equiv> [0 \<mapsto> (Scb_obj x, Socket_ops), 1 \<mapsto> (Scb_obj y, Socket_ops)]"

abbreviation sockets3 :: "nat \<Rightarrow> nat \<Rightarrow> nat \<Rightarrow> streams" where
  "sockets3 x y v \<equiv> (sockets2 x y)(2 \<mapsto> (Scb_obj v, Socket_ops))"

lemma prefix_used_sockets2: "prefix_used 2 (sockets2 x y)"
  using prefix_used_add [OF prefix_used_add [OF prefix_used_empty], where x = "(Scb_obj y, Socket_ops)"] by (simp add: numeral_2_eq_2)

lemma third: "next_fids 1 (sockets2 x y) = [2]"
  by (rule prefix_used_next [OF prefix_used_sockets2]) (simp add: MAX_FILEID_def)

lemma served:
  assumes b: "bench C p Map.empty k" and c: "c \<in> C" and free: "PortMap k = Map.empty" and prt: "0 \<le> prt" "prt \<le> int MAX_PORT"
  obtains k1 k2 k3 x y where "sys_Socket c 100 k = Inr (0, k1)" "sys_Listen c 0 k1 = Inr (0, k2)" "sys_Socket c prt k2 = Inr (1, k3)"
    "bench C p [0 \<mapsto> (Scb_obj x, Socket_ops)] k2" "listener_at x 100 (the (scbs k2 x)) k2"
    "bench C p (sockets2 x y) k3" "attended x y (new_scb (nat prt) 1) k3" "PortMap k3 = [100 \<mapsto> x]" "next_addr k3 = Suc y" "x < y"
proof -
  obtain k1 k2 x s where l: "sys_Socket c 100 k = Inr (0, k1)" "sys_Listen c 0 k1 = Inr (0, k2)" "bench C p [0 \<mapsto> (Scb_obj x, Socket_ops)] k2"
    "listener_at x 100 s k2" "req_queue s = []" "x < next_addr k2" "PortMap k2 = [100 \<mapsto> x]"
    by (rule listening_first [OF b c free]) (rule that; assumption)
  obtain y k3 where 3: "sys_Socket c prt k2 = Inr (1, k3)" "bench C p (sockets2 x y) k3"
      "rest k3 = (cc k2, pipes k2, (scbs k2)(y \<mapsto> new_scb (nat prt) 1), conn_reqs k2, PortMap k2, devnum k2, Suc y)" "y = next_addr k2"
    using socket_ok [OF l(3) c first_two(2) prt] by auto
  have "attended x y (new_scb (nat prt) 1) k3" "listener_at x 100 (the (scbs k2 x)) k2"
    using l(4,5,6) 3(3,4) by (auto simp: attended_def rest_def listener_at_def)
  moreover have "PortMap k3 = [100 \<mapsto> x]" "next_addr k3 = Suc y" using l(7) 3(3) by (simp_all add: rest_def)
  ultimately show ?thesis using that l(1,2,3,6) 3(1,2,4) by blast
qed

text \<open>The setting up to the accepted socket, at descriptor 2.\<close>

lemma served_connected:
  assumes b: "bench C p (sockets2 x y) k" and c: "ca \<in> C" "cb \<in> C" and r: "attended x y sy k"
    and go: "\<And>k'. bench C p (sockets3 x y (server_side k)) k' \<Longrightarrow> met y sy 2 100 k k' \<Longrightarrow> holds Q (t 2) k'"
  shows "holds Q (connect_sockets (ca, cb, accept_first) 1 0 100 t) k"
  using connect_sockets_ok [OF b c _ _ r third, of 0 1 Q t accept_first] go by simp

lemma accept_succeds:
  assumes b: "bench C p Map.empty k" and c: "c \<in> C" "ca \<in> C" "cb \<in> C" and free: "PortMap k = Map.empty"
  shows "passes (test_accept_succeds c (ca, cb, af)) k"
proof -
  have "(0::int) \<le> 0" "(0::int) \<le> int MAX_PORT" by simp_all
  from served [OF b c(1) free this] obtain k1 k2 k3 x y where S:
    "sys_Socket c 100 k = Inr (0, k1)" "sys_Listen c 0 k1 = Inr (0, k2)" "sys_Socket c 0 k2 = Inr (1, k3)"
    "bench C p (sockets2 x y) k3" "attended x y (new_scb (nat 0) 1) k3" by metis
  have "passes (connect_sockets (ca, cb, af) 1 0 100 (\<lambda>_. return_0)) k3" by (rule served_connected [OF S(4) c(2,3) S(5)]) simp
  with S(1-3) show ?thesis by (simp add: test_accept_succeds_def NOPORT_def holds_call holds_checks)
qed

section \<open>Calls on connected sockets\<close>

lemma connect_bound:
  assumes b: "bench C p T k" and c: "c \<in> C" and t: "T i = Some (Scb_obj y, Socket_ops)" "scbs k y = Some s" "stype s \<noteq> UNBOUND"
    and l: "PortMap k 100 = Some x" "scbs k x = Some sx" "stype sx = LISTENER"
  shows "returns (sys_Connect c (int i) 100 tm) k = Inr (-1, k)"
proof -
  obtain f where "get_fcb c (int i) k = Inr (Some f)" "streamobj (FT k f) = Scb_obj y"
    by (rule bench_get [OF b c t(1)])
  then show ?thesis using t l fid_at_most [OF b t(1)] by (simp add: returns_def sys_Connect_def as_scb_def)
qed

lemma peered_sel [simp]: "stype (peered s w a d) = PEER" "port (peered s w a d) = port s" "srefcount (peered s w a d) = 1"
    "peer (peered s w a d) = Some w" "send (peered s w a d) = Some a" "receive (peered s w a d) = Some d"
  by (simp_all add: peered_def)

lemma met_scbs:
  assumes "met y sy i prt k k'" "y < next_addr k"
  shows "scbs k' y = Some (peered sy (server_side k) (server_side k + 1) (server_side k + 2))"
    "scbs k' (server_side k) = Some (peered (new_scb prt i) y (server_side k + 2) (server_side k + 1))"
    "x \<noteq> y \<Longrightarrow> x < next_addr k \<Longrightarrow> scbs k' x = scbs k x"
  using assms by (simp_all add: met_sel(2))

lemma sockets_at [simp]: "sockets3 x y v 0 = Some (Scb_obj x, Socket_ops)" "sockets3 x y v (Suc 0) = Some (Scb_obj y, Socket_ops)"
    "sockets3 x y v 2 = Some (Scb_obj v, Socket_ops)"
  by simp_all

lemma accept_fails_on_connected_socket:
  assumes b: "bench C p Map.empty k" and c: "c \<in> C" "ca \<in> C" "cb \<in> C" and free: "PortMap k = Map.empty"
  shows "passes (test_accept_fails_on_connected_socket c (ca, cb, af)) k"
proof -
  have "(0::int) \<le> 0" "(0::int) \<le> int MAX_PORT" by simp_all
  from served [OF b c(1) free this] obtain k1 k2 k3 x y where S:
    "sys_Socket c 100 k = Inr (0, k1)" "sys_Listen c 0 k1 = Inr (0, k2)" "sys_Socket c 0 k2 = Inr (1, k3)"
    "bench C p (sockets2 x y) k3" "attended x y (new_scb (nat 0) 1) k3" "next_addr k3 = Suc y" by metis
  have "passes (connect_sockets (ca, cb, af) 1 0 100 (\<lambda>srv. checks (returns (sys_Accept c srv)) (\<lambda>r. r = -1) return_0)) k3"
  proof (rule served_connected [OF S(4) c(2,3) S(5)])
    fix k' assume k': "bench C p (sockets3 x y (server_side k3)) k'" "met y (new_scb (nat 0) 1) 2 100 k3 k'"
    have "socket_of_fid c (int 2) k' = Inr (Some (server_side k3))" by (rule socket_at [OF k'(1) c(1)]) simp
    then have "returns (sys_Accept c 2) k' = Inr (-1, k')"
      by (intro accept_listener_none [where a = "Some (server_side k3)"]) (simp_all add: met_scbs [OF k'(2), unfolded S(6), OF lessI] S(6))
    then show "passes (checks (returns (sys_Accept c 2)) (\<lambda>r. r = -1) return_0) k'" by (simp add: holds_checks)
  qed
  with S(1-3) show ?thesis by (simp add: test_accept_fails_on_connected_socket_def NOPORT_def holds_call holds_checks)
qed

lemma listen_fails_on_initialized_socket:
  assumes b: "bench C p Map.empty k" and c: "c \<in> C" "ca \<in> C" "cb \<in> C" and free: "PortMap k = Map.empty"
  shows "passes (test_listen_fails_on_initialized_socket c (ca, cb, af)) k"
proof -
  have "(0::int) \<le> 200" "(200::int) \<le> int MAX_PORT" by simp_all
  from served [OF b c(1) free this] obtain k1 k2 k3 x y where S:
    "sys_Socket c 100 k = Inr (0, k1)" "sys_Listen c 0 k1 = Inr (0, k2)" "sys_Socket c 200 k2 = Inr (1, k3)"
    "bench C p [0 \<mapsto> (Scb_obj x, Socket_ops)] k2" "listener_at x 100 (the (scbs k2 x)) k2"
    "bench C p (sockets2 x y) k3" "attended x y (new_scb (nat 200) 1) k3" "PortMap k3 = [100 \<mapsto> x]" "next_addr k3 = Suc y"
    by metis
  have "socket_of_fid c (int 0) k2 = Inr (Some x)" by (rule socket_at [OF S(4) c(1)]) simp
  then have l2: "sys_Listen c 0 k2 = Inr (-1, k2)"
    using S(5) by (intro listen_fails [where a = "Some x"]) (auto simp: listener_at_def)
  have "passes (connect_sockets (ca, cb, af) 1 0 100 (\<lambda>sock1.
      checks (sys_Listen c 1) (\<lambda>r. r = -1) (checks (sys_Listen c sock1) (\<lambda>r. r = -1) return_0))) k3"
  proof (rule served_connected [OF S(6) c(2,3) S(7)])
    fix k' assume k': "bench C p (sockets3 x y (server_side k3)) k'" "met y (new_scb (nat 200) 1) 2 100 k3 k'"
    note M = met_scbs [OF k'(2), unfolded S(9), OF lessI] met_sel(3) [OF k'(2)]
    have "socket_of_fid c (int 1) k' = Inr (Some y)" "socket_of_fid c (int 2) k' = Inr (Some (server_side k3))"
      by (rule socket_at [OF k'(1) c(1)], simp)+
    then have "sys_Listen c 1 k' = Inr (-1, k')" "sys_Listen c 2 k' = Inr (-1, k')"
      using listen_fails [of c 1 k' "Some y"] listen_fails [of c 2 k' "Some (server_side k3)"] M S(8,9) by simp_all
    then show "passes (checks (sys_Listen c 1) (\<lambda>r. r = -1) (checks (sys_Listen c 2) (\<lambda>r. r = -1) return_0)) k'"
      by (simp add: holds_checks)
  qed
  with S(1-3) l2 show ?thesis by (simp add: test_listen_fails_on_initialized_socket_def holds_call holds_checks)
qed

lemma connect_fails_on_bad_socket:
  assumes b: "bench C p Map.empty k" and c: "c \<in> C" "ca \<in> C" "cb \<in> C" and free: "PortMap k = Map.empty"
  shows "passes (test_connect_fails_on_bad_socket c (ca, cb, af)) k"
proof -
  have "(0::int) \<le> 0" "(0::int) \<le> int MAX_PORT" by simp_all
  from served [OF b c(1) free this] obtain k1 k2 k3 x y where S:
    "sys_Socket c 100 k = Inr (0, k1)" "sys_Listen c 0 k1 = Inr (0, k2)" "sys_Socket c 0 k2 = Inr (1, k3)"
    "bench C p [0 \<mapsto> (Scb_obj x, Socket_ops)] k2" "listener_at x 100 (the (scbs k2 x)) k2"
    "bench C p (sockets2 x y) k3" "attended x y (new_scb (nat 0) 1) k3" "PortMap k3 = [100 \<mapsto> x]" "next_addr k3 = Suc y" "x < y"
    by metis
  have "returns (sys_Connect c (int 0) 100 1000) k2 = Inr (-1, k2)"
    by (rule connect_bound [OF S(4) c(1)]) (use S(5) in \<open>auto simp: listener_at_def\<close>)
  then have l2: "returns (sys_Connect c 0 100 1000) k2 = Inr (-1, k2)" by simp
  obtain sx where sx: "scbs k3 x = Some sx" "stype sx = LISTENER" using S(7) by (auto simp: attended_def listener_at_def)
  have "passes (connect_sockets (ca, cb, af) 1 0 100 (\<lambda>srv. checks (returns (sys_Connect c 1 100 1000)) (\<lambda>r. r = -1)
      (checks (returns (sys_Connect c srv 100 1000)) (\<lambda>r. r = -1) return_0))) k3"
  proof (rule served_connected [OF S(6) c(2,3) S(7)])
    fix k' assume k': "bench C p (sockets3 x y (server_side k3)) k'" "met y (new_scb (nat 0) 1) 2 100 k3 k'"
    note M = met_scbs [OF k'(2), unfolded S(9), OF lessI] met_sel(3) [OF k'(2)]
    have l: "PortMap k' 100 = Some x" "scbs k' x = Some sx" using M(3) [of x] M(4) S(8-10) sx(1) by simp_all
    have "returns (sys_Connect c (int 1) 100 1000) k' = Inr (-1, k')"
      by (rule connect_bound [OF k'(1) c(1) _ M(1) _ l sx(2)]) simp_all
    moreover have "returns (sys_Connect c (int 2) 100 1000) k' = Inr (-1, k')"
      by (rule connect_bound [OF k'(1) c(1) _ M(2) _ l sx(2)]) (simp_all add: S(9))
    ultimately show "passes (checks (returns (sys_Connect c 1 100 1000)) (\<lambda>r. r = -1)
        (checks (returns (sys_Connect c 2 100 1000)) (\<lambda>r. r = -1) return_0)) k'"
      by (simp add: holds_checks)
  qed
  with S(1-3) l2 show ?thesis
    by (simp add: test_connect_fails_on_bad_socket_def NOPORT_def NOFILE_def holds_call holds_checks holds_ASSERT)
qed

section \<open>Many connections\<close>

text \<open>After \<open>i\<close> connections: descriptor 0 listens, and the next \<open>2 * i\<close> descriptors are in use.\<close>

definition pairs :: "nat set \<Rightarrow> nat \<Rightarrow> nat \<Rightarrow> nat \<Rightarrow> kernel \<Rightarrow> bool" where
  "pairs C p x i k \<longleftrightarrow> (\<exists>T. bench C p T k \<and> prefix_used (2 * i + 1) T \<and> T 0 = Some (Scb_obj x, Socket_ops)) \<and>
     (\<exists>s. listener_at x 100 s k \<and> req_queue s = []) \<and> x < next_addr k"

lemma next_socket:
  assumes P: "pairs C p x i k" and c: "c \<in> C" and i: "2 * i + 1 < MAX_FILEID"
  obtains k1 T y where "sys_Socket c NOPORT k = Inr (int (2 * i + 1), k1)" "bench C p T k1" "prefix_used (2 * i + 2) T"
    "T 0 = Some (Scb_obj x, Socket_ops)" "T (2 * i + 1) = Some (Scb_obj y, Socket_ops)" "attended x y (new_scb 0 (2 * i + 1)) k1"
    "y < next_addr k1" "x < y"
proof -
  obtain T s where T: "bench C p T k" "prefix_used (2 * i + 1) T" "T 0 = Some (Scb_obj x, Socket_ops)"
    and s: "listener_at x 100 s k" "req_queue s = []" and x: "x < next_addr k"
    using P by (auto simp: pairs_def)
  define y where "y = next_addr k"
  have "(0::int) \<le> NOPORT" "NOPORT \<le> int MAX_PORT" by (simp_all add: NOPORT_def)
  from socket_ok [OF T(1) c prefix_used_next [OF T(2) i] this] obtain k1 where k1: "sys_Socket c NOPORT k = Inr (int (2 * i + 1), k1)"
    "bench C p (T(2 * i + 1 \<mapsto> (Scb_obj y, Socket_ops))) k1"
    "rest k1 = (cc k, pipes k, (scbs k)(y \<mapsto> new_scb 0 (2 * i + 1)), conn_reqs k, PortMap k, devnum k, Suc y)"
    by (auto simp: y_def NOPORT_def)
  show ?thesis
  proof (rule that [OF k1(1,2)])
    show "prefix_used (2 * i + 2) (T(2 * i + 1 \<mapsto> (Scb_obj y, Socket_ops)))" using prefix_used_add [OF T(2)] by simp
    show "attended x y (new_scb 0 (2 * i + 1)) k1" using s x k1(3) by (auto simp: attended_def listener_at_def rest_def y_def)
  qed (use T(3) x k1(3) in \<open>simp_all add: rest_def y_def\<close>)
qed

lemma next_pair:
  assumes P: "pairs C p x i k" and c: "c \<in> C" "ca \<in> C" "cb \<in> C" and i: "2 * i + 2 < MAX_FILEID"
  obtains k1 where "sys_Socket c NOPORT k = Inr (int (2 * i + 1), k1)"
    "\<forall>Q t. (\<forall>k'. pairs C p x (Suc i) k' \<longrightarrow> holds Q (t (int (2 * i + 2))) k') \<longrightarrow>
       holds Q (connect_sockets (ca, cb, af) (int (2 * i + 1)) 0 100 t) k1"
proof -
  have "2 * i + 1 < MAX_FILEID" using i by simp
  then obtain k1 T y where S: "sys_Socket c NOPORT k = Inr (int (2 * i + 1), k1)" "bench C p T k1" "prefix_used (2 * i + 2) T"
    "T 0 = Some (Scb_obj x, Socket_ops)" "T (2 * i + 1) = Some (Scb_obj y, Socket_ops)" "attended x y (new_scb 0 (2 * i + 1)) k1"
    "y < next_addr k1" "x < y"
    by (rule next_socket [OF P c(1)]) (rule that; assumption)
  show ?thesis
  proof (rule that [OF S(1)], intro allI impI)
    fix Q and t :: "int \<Rightarrow> test"
    assume go: "\<forall>k'. pairs C p x (Suc i) k' \<longrightarrow> holds Q (t (int (2 * i + 2))) k'"
    have "holds Q (connect_sockets (ca, cb, af) (int (2 * i + 1)) (int 0) 100 t) k1"
    proof (rule connect_sockets_ok [OF S(2) c(2,3) S(4,5,6) prefix_used_next [OF S(3) i]])
      fix k' assume k': "bench C p (T(2 * i + 2 \<mapsto> (Scb_obj (server_side k1), Socket_ops))) k'"
        "met y (new_scb 0 (2 * i + 1)) (2 * i + 2) 100 k1 k'"
      have "scbs k' x = scbs k1 x" "PortMap k' = PortMap k1" "x < next_addr k'"
        using met_scbs(3) [OF k'(2) S(7), of x] met_sel(3,5) [OF k'(2)] S(7,8) by simp_all
      then have "(\<exists>s. listener_at x 100 s k' \<and> req_queue s = []) \<and> x < next_addr k'"
        using S(6) by (simp add: attended_def listener_at_def)
      then have "pairs C p x (Suc i) k'"
        using k'(1) prefix_used_add [OF S(3), of "(Scb_obj (server_side k1), Socket_ops)"] S(4)
        unfolding pairs_def by (intro conjI exI [of _ "T(2 * i + 2 \<mapsto> (Scb_obj (server_side k1), Socket_ops))"]) simp_all
      then show "holds Q (t (int (2 * i + 2))) k'" using go by simp
    qed
    then show "holds Q (connect_sockets (ca, cb, af) (int (2 * i + 1)) 0 100 t) k1" by simp
  qed
qed

lemma listening_pairs:
  assumes b: "bench C p Map.empty k" and c: "c \<in> C" and free: "PortMap k = Map.empty"
  obtains k1 k2 x where "sys_Socket c 100 k = Inr (0, k1)" "sys_Listen c 0 k1 = Inr (0, k2)" "pairs C p x 0 k2"
proof -
  obtain k1 k2 x s where l: "sys_Socket c 100 k = Inr (0, k1)" "sys_Listen c 0 k1 = Inr (0, k2)" "bench C p [0 \<mapsto> (Scb_obj x, Socket_ops)] k2"
    "listener_at x 100 s k2" "req_queue s = []" "x < next_addr k2" "PortMap k2 = [100 \<mapsto> x]"
    by (rule listening_first [OF b c free]) (rule that; assumption)
  have "prefix_used (2 * 0 + 1) [0 \<mapsto> (Scb_obj x, Socket_ops)]" using prefix_used_add [OF prefix_used_empty] by simp
  then have "pairs C p x 0 k2" using l(3-6) unfolding pairs_def by auto
  with that l(1,2) show ?thesis by blast
qed

lemma accept_fails_on_exhausted_fid:
  assumes b: "bench C p Map.empty k" and c: "c \<in> C" "ca \<in> C" "cb \<in> C" and free: "PortMap k = Map.empty"
  shows "passes (test_accept_fails_on_exhausted_fid c (ca, cb, af)) k"
proof -
  obtain k1 k2 x where l: "sys_Socket c 100 k = Inr (0, k1)" "sys_Listen c 0 k1 = Inr (0, k2)" "pairs C p x 0 k2"
    by (rule listening_pairs [OF b c(1) free])
  have "passes (loop ((MAX_FILEID - 1) div 2) (\<lambda>_ t. call (sys_Socket c NOPORT) (\<lambda>cli.
       ASSERT (cli \<noteq> NOFILE) (connect_sockets (ca, cb, af) cli 0 100 (\<lambda>_. t ())))) () (\<lambda>_.
     call (sys_Socket c NOPORT) (\<lambda>cli.
     ASSERT (cli \<noteq> NOFILE) (
     accept_connect (ca, cb, af) cli 0 100 (\<lambda>f r. ASSERT (f = NOFILE) (ASSERT (r = -1) return_0)))))) k2"
  proof (rule holds_loop [where I = "\<lambda>i _. pairs C p x i"])
    fix i s k' and t :: "unit \<Rightarrow> test"
    assume i: "i < (MAX_FILEID - 1) div 2" and P: "pairs C p x i k'" and t: "\<And>s k'. pairs C p x (Suc i) k' \<Longrightarrow> passes (t s) k'"
    have "2 * i + 2 < MAX_FILEID" using i by (simp add: MAX_FILEID_def)
    then obtain k3 where k3: "sys_Socket c NOPORT k' = Inr (int (2 * i + 1), k3)"
      "\<forall>Q t. (\<forall>k'. pairs C p x (Suc i) k' \<longrightarrow> holds Q (t (int (2 * i + 2))) k') \<longrightarrow>
         holds Q (connect_sockets (ca, cb, af) (int (2 * i + 1)) 0 100 t) k3"
      by (rule next_pair [where af = af, OF P c]) (rule that; assumption)
    have "passes (connect_sockets (ca, cb, af) (int (2 * i + 1)) 0 100 (\<lambda>_. t ())) k3" by (rule k3(2) [rule_format]) (rule t)
    then show "passes (call (sys_Socket c NOPORT) (\<lambda>cli. ASSERT (cli \<noteq> NOFILE) (connect_sockets (ca, cb, af) cli 0 100 (\<lambda>_. t ())))) k'"
      by (simp add: holds_call [where f = "sys_Socket c NOPORT", OF k3(1)] holds_ASSERT NOFILE_def)
  next
    fix s k' assume P: "pairs C p x ((MAX_FILEID - 1) div 2) k'"
    then have P: "pairs C p x 7 k'" and n: "2 * 7 + 1 < MAX_FILEID" by (simp_all add: MAX_FILEID_def)
    obtain k3 T y where S: "sys_Socket c NOPORT k' = Inr (int 15, k3)" "bench C p T k3" "prefix_used 16 T"
      "T 0 = Some (Scb_obj x, Socket_ops)" "T 15 = Some (Scb_obj y, Socket_ops)" "attended x y (new_scb 0 15) k3"
      by (rule next_socket [OF P c(1) n]) (simp add: that)
    have "next_fids 1 T = []" by (rule prefix_used_full [OF S(3)]) (simp_all add: MAX_FILEID_def)
    then have "passes (accept_connect (ca, cb, af) (int 15) (int 0) 100 (\<lambda>f r. ASSERT (f = NOFILE) (ASSERT (r = -1) return_0))) k3"
      by (rule accept_connect_full [OF S(2) c(2,3) S(4,5,6)]) (simp add: holds_ASSERT)
    with S(1) show "passes (call (sys_Socket c NOPORT) (\<lambda>cli. ASSERT (cli \<noteq> NOFILE) (
       accept_connect (ca, cb, af) cli 0 100 (\<lambda>f r. ASSERT (f = NOFILE) (ASSERT (r = -1) return_0))))) k'"
      by (simp add: holds_call holds_ASSERT NOFILE_def)
  qed (rule l(3))
  with l(1,2) show ?thesis
    by (simp add: test_accept_fails_on_exhausted_fid_def holds_call holds_checks holds_ASSERT NOFILE_def MAX_FILEID_def)
qed

text \<open>The descriptors of the two sides are all different.\<close>

lemma differ:
  assumes cli: "\<And>i. i < n \<Longrightarrow> cli ! i = int (2 * i + 1)" and srv: "\<And>i. i < n \<Longrightarrow> srv ! i = int (2 * i + 2)"
  shows "passes (loop n (\<lambda>i t. loop n (\<lambda>j u. ASSERT (cli ! i \<noteq> srv ! j) (
       if i = j then u (j + 1)
       else ASSERT (srv ! i \<noteq> srv ! j) (ASSERT (cli ! i \<noteq> cli ! j) (u (j + 1))))) 0 (\<lambda>_. t (i + 1))) 0 (\<lambda>_. return_0)) k"
proof (rule holds_loop [where I = "\<lambda>m i _. i = m"])
  fix m i k and t :: "nat \<Rightarrow> test" assume m: "m < n" "i = m" and t: "\<And>s k. s = Suc m \<Longrightarrow> passes (t s) k"
  show "passes (loop n (\<lambda>j u. ASSERT (cli ! i \<noteq> srv ! j) (if i = j then u (j + 1)
       else ASSERT (srv ! i \<noteq> srv ! j) (ASSERT (cli ! i \<noteq> cli ! j) (u (j + 1))))) 0 (\<lambda>_. t (i + 1))) k"
  proof (rule holds_loop [where I = "\<lambda>m' j _. j = m'"])
    fix m' j k and u :: "nat \<Rightarrow> test" assume j: "m' < n" "j = m'" and u: "\<And>s k. s = Suc m' \<Longrightarrow> passes (u s) k"
    have "cli ! i = int (2 * i + 1)" "cli ! j = int (2 * j + 1)" "srv ! i = int (2 * i + 2)" "srv ! j = int (2 * j + 2)"
      using m j cli srv by simp_all
    moreover have "int (2 * i + 1) \<noteq> int (2 * j + 2)" by presburger
    moreover have "passes (u (j + 1)) k" using u [of "j + 1" k] j(2) by simp
    ultimately show "passes (ASSERT (cli ! i \<noteq> srv ! j) (if i = j then u (j + 1)
       else ASSERT (srv ! i \<noteq> srv ! j) (ASSERT (cli ! i \<noteq> cli ! j) (u (j + 1))))) k"
      by (cases "i = j") (simp_all add: holds_ASSERT del: of_nat_add of_nat_mult)
  qed (use m t in simp_all)
qed simp_all

lemma accept_reusable:
  assumes b: "bench C p Map.empty k" and c: "c \<in> C" "ca \<in> C" "cb \<in> C" and free: "PortMap k = Map.empty"
  shows "passes (test_accept_reusable c (ca, cb, af)) k"
proof -
  obtain k1 k2 x where l: "sys_Socket c 100 k = Inr (0, k1)" "sys_Listen c 0 k1 = Inr (0, k2)" "pairs C p x 0 k2"
    by (rule listening_pairs [OF b c(1) free])
  let ?n = "MAX_FILEID div 2 - 1"
  let ?I = "\<lambda>m s k. pairs C p x m k \<and> fst s = map (\<lambda>i. int (2 * i + 1)) [0..<m] \<and> snd s = map (\<lambda>i. int (2 * i + 2)) [0..<m]"
  have "passes (loop ?n (\<lambda>(cli, srv) t. call (sys_Socket c NOPORT) (\<lambda>f.
       connect_sockets (ca, cb, af) f 0 100 (\<lambda>g. t (cli @ [f], srv @ [g])))) ([], []) (\<lambda>(cli, srv).
     loop ?n (\<lambda>i t. loop ?n (\<lambda>j u. ASSERT (cli ! i \<noteq> srv ! j) (
       if i = j then u (j + 1)
       else ASSERT (srv ! i \<noteq> srv ! j) (ASSERT (cli ! i \<noteq> cli ! j) (u (j + 1))))) 0 (\<lambda>_. t (i + 1))) 0 (\<lambda>_. return_0))) k2"
  proof (rule holds_loop [where I = ?I])
    fix i s k' and t :: "int list \<times> int list \<Rightarrow> test"
    assume i: "i < ?n" and I: "?I i s k'" and t: "\<And>s k. ?I (Suc i) s k \<Longrightarrow> passes (t s) k"
    have "2 * i + 2 < MAX_FILEID" using i by (simp add: MAX_FILEID_def)
    then obtain k3 where k3: "sys_Socket c NOPORT k' = Inr (int (2 * i + 1), k3)"
      "\<forall>Q t. (\<forall>k'. pairs C p x (Suc i) k' \<longrightarrow> holds Q (t (int (2 * i + 2))) k') \<longrightarrow>
         holds Q (connect_sockets (ca, cb, af) (int (2 * i + 1)) 0 100 t) k3"
      by (rule next_pair [where af = af, OF conjunct1 [OF I] c]) (rule that; assumption)
    have "passes (connect_sockets (ca, cb, af) (int (2 * i + 1)) 0 100 (\<lambda>g. t (fst s @ [int (2 * i + 1)], snd s @ [g]))) k3"
      by (rule k3(2) [rule_format], rule t) (use I in simp)
    then show "passes ((\<lambda>(cli, srv) t. call (sys_Socket c NOPORT) (\<lambda>f.
       connect_sockets (ca, cb, af) f 0 100 (\<lambda>g. t (cli @ [f], srv @ [g])))) s t) k'"
      by (simp add: holds_call [where f = "sys_Socket c NOPORT", OF k3(1)] case_prod_beta)
  next
    fix s k' assume I: "?I ?n s k'"
    show "passes ((\<lambda>(cli, srv). loop ?n (\<lambda>i t. loop ?n (\<lambda>j u. ASSERT (cli ! i \<noteq> srv ! j) (
       if i = j then u (j + 1)
       else ASSERT (srv ! i \<noteq> srv ! j) (ASSERT (cli ! i \<noteq> cli ! j) (u (j + 1))))) 0 (\<lambda>_. t (i + 1))) 0 (\<lambda>_. return_0)) s) k'"
      unfolding case_prod_beta by (rule differ) (use I in simp_all)
  qed (use l(3) in simp_all)
  with l(1,2) show ?thesis
    by (simp add: test_accept_reusable_def holds_call holds_checks holds_ASSERT NOFILE_def Let_def)
qed

section \<open>Data over a connection\<close>

lemma check_transfer_ok:
  assumes b: "bench C p T k" and c: "c \<in> C" and i: "T i = Some x" "writes_to k x a" and j: "T j = Some y" "reads_from k y a"
    and e: "chan k a [] False False"
    and go: "\<And>k'. bench C p T k' \<Longrightarrow> scbs k' = scbs k \<Longrightarrow> chan k' a [] False False \<Longrightarrow> (\<And>d. d \<noteq> a \<Longrightarrow> pipes k' d = pipes k d) \<Longrightarrow> holds Q t k'"
  shows "holds Q (check_transfer run c (int i) (int j) t) k"
  unfolding check_transfer_def
proof (rule write_hello_ok [OF b c i e])
  fix s q let ?k = "k\<lparr>cc := s, pipes := (pipes k)(a \<mapsto> q)\<rparr>"
  assume k1: "bench C p T ?k" "chan ?k a ([] @ hello) False False"
  show "holds Q (read_hello run c (int j) (replicate 12 0) (\<lambda>_. t)) ?k"
  proof (rule read_hello_ok [OF k1(1) c j(1)])
    show "reads_from ?k y a" using j(2) by simp
    show "chan ?k a (hello @ []) False False" using k1(2) by simp
    fix s' q' let ?k' = "?k\<lparr>cc := s', pipes := (pipes ?k)(a \<mapsto> q')\<rparr>"
    assume k2: "bench C p T ?k'" "chan ?k' a [] False False"
    show "holds Q t ?k'" by (rule go [OF k2(1) _ k2(2)]) simp_all
  qed simp
qed (simp add: BUFF_SIZE_def)

text \<open>Sockets \<open>y\<close> and \<open>v\<close>, at descriptors 1 and 2, are the ends of the pipes \<open>a\<close> and \<open>d\<close>, which are empty.\<close>

definition sends :: "kernel \<Rightarrow> nat \<Rightarrow> nat \<Rightarrow> nat option \<Rightarrow> nat option \<Rightarrow> bool" where
  "sends k y v a d \<longleftrightarrow> (\<exists>s. scbs k y = Some s \<and> stype s = PEER \<and> peer s = Some v \<and> send s = a \<and> receive s = d)"

definition ends :: "nat set \<Rightarrow> nat \<Rightarrow> nat \<Rightarrow> nat \<Rightarrow> nat \<Rightarrow> nat \<Rightarrow> nat \<Rightarrow> kernel \<Rightarrow> bool" where
  "ends C p x y v a d k \<longleftrightarrow> bench C p (sockets3 x y v) k \<and> y \<noteq> v \<and> a \<noteq> d \<and> sends k y v (Some a) (Some d) \<and> sends k v y (Some d) (Some a) \<and>
     chan k a [] False False \<and> chan k d [] False False"

lemma endsD:
  assumes "ends C p x y v a d k"
  shows "bench C p (sockets3 x y v) k" "y \<noteq> v" "a \<noteq> d" "sends k y v (Some a) (Some d)" "sends k v y (Some d) (Some a)"
    "chan k a [] False False" "chan k d [] False False"
  using assms by (simp_all add: ends_def)

lemma sends_ends: "sends k y v (Some a) d \<Longrightarrow> writes_to k (Scb_obj y, Socket_ops) a" "sends k y v a' (Some d') \<Longrightarrow> reads_from k (Scb_obj y, Socket_ops) d'"
  by (auto simp: sends_def writes_to_def reads_from_def)

lemma sends_cong: "scbs k' = scbs k \<Longrightarrow> sends k' = sends k"
  by (simp add: sends_def fun_eq_iff)

lemma chan_cong: "pipes k' a = pipes k a \<Longrightarrow> chan k' a = chan k a"
  by (simp add: chan_def fun_eq_iff)

lemma met_ends:
  assumes m: "met y sy 2 prt k k'" and y: "y < next_addr k" and b: "bench C p (sockets3 x y (server_side k)) k'"
  shows "ends C p x y (server_side k) (server_side k + 1) (server_side k + 2) k'"
  using b met_scbs(1,2) [OF m y] met_sel(1) [OF m] y by (auto simp: ends_def sends_def intro!: chan_empty)

lemma transfer_to_server:
  assumes e: "ends C p x y v a d k" and c: "c \<in> C" and go: "\<And>k'. ends C p x y v a d k' \<Longrightarrow> holds Q t k'"
  shows "holds Q (check_transfer run c 1 2 t) k"
proof -
  note E = endsD [OF e]
  have "holds Q (check_transfer run c (int 1) (int 2) t) k"
  proof (rule check_transfer_ok [OF E(1) c _ sends_ends(1) [OF E(4)] _ sends_ends(2) [OF E(5)] E(6)])
    fix k' assume "bench C p (sockets3 x y v) k'" "scbs k' = scbs k" "chan k' a [] False False" "\<And>d. d \<noteq> a \<Longrightarrow> pipes k' d = pipes k d"
    then show "holds Q t k'" using E by (intro go) (simp add: ends_def sends_cong [of k' k] chan_cong [of k' d k])
  qed simp_all
  then show ?thesis by simp
qed

lemma transfer_to_client:
  assumes e: "ends C p x y v a d k" and c: "c \<in> C" and go: "\<And>k'. ends C p x y v a d k' \<Longrightarrow> holds Q t k'"
  shows "holds Q (check_transfer run c 2 1 t) k"
proof -
  note E = endsD [OF e]
  have "holds Q (check_transfer run c (int 2) (int 1) t) k"
  proof (rule check_transfer_ok [OF E(1) c _ sends_ends(1) [OF E(5)] _ sends_ends(2) [OF E(4)] E(7)])
    fix k' assume "bench C p (sockets3 x y v) k'" "scbs k' = scbs k" "chan k' d [] False False" "\<And>a. a \<noteq> d \<Longrightarrow> pipes k' a = pipes k a"
    then show "holds Q t k'" using E by (intro go) (simp add: ends_def sends_cong [of k' k] chan_cong [of k' a k])
  qed simp_all
  then show ?thesis by simp
qed

lemma both_ways:
  assumes "ends C p x y v a d k" and "c \<in> C" and "\<And>k'. ends C p x y v a d k' \<Longrightarrow> holds Q (t ()) k'"
  shows "holds Q (loop n (\<lambda>_ t. check_transfer run c 1 2 (check_transfer run c 2 1 (t ()))) () t) k"
  by (rule holds_loop [where I = "\<lambda>_ _. ends C p x y v a d"])
    (use assms in \<open>auto intro: transfer_to_server transfer_to_client\<close>)

lemma socket_small_transfer:
  assumes b: "bench C p Map.empty k" and c: "c \<in> C" "ca \<in> C" "cb \<in> C" and free: "PortMap k = Map.empty"
  shows "passes (test_socket_small_transfer run c (ca, cb, af)) k"
proof -
  obtain k1 x where 1: "sys_Socket c 100 k = Inr (0, k1)" "bench C p [0 \<mapsto> (Scb_obj x, Socket_ops)] k1" "scbs k1 x = Some (new_scb 100 0)"
    "PortMap k1 = PortMap k" "x < next_addr k1" by (rule first_socket [OF b c(1), of 100]) (simp_all add: that)
  obtain y k2 where 2: "sys_Socket c 0 k1 = Inr (1, k2)" "bench C p (sockets2 x y) k2"
      "rest k2 = (cc k1, pipes k1, (scbs k1)(y \<mapsto> new_scb 0 1), conn_reqs k1, PortMap k1, devnum k1, Suc y)" "y = next_addr k1"
    using socket_ok [OF 1(2) c(1) first_two(2), of 0] by auto
  have K2: "scbs k2 x = Some (new_scb 100 0)" "PortMap k2 = Map.empty" "scbs k2 y = Some (new_scb 0 1)" "next_addr k2 = Suc y" "x < y"
    using 1(3-5) 2(3,4) free by (simp_all add: rest_def)
  let ?l = "(new_scb 100 0)\<lparr>req_queue := [], srefcount := 1, stype := LISTENER\<rparr>"
  obtain s k3 where 3: "sys_Listen c (int 0) k2 = Inr (0, k3)" "bench C p (sockets2 x y) k3"
      "rest k3 = (s, pipes k2, (scbs k2)(x \<mapsto> ?l), conn_reqs k2, (PortMap k2)(100 \<mapsto> x), devnum k2, next_addr k2)"
    using listen_ok [OF 2(2) c(1) _ K2(1), of 0] K2(2) by auto
  have K3: "attended x y (new_scb 0 1) k3" "y < next_addr k3"
    using 3(3) K2 by (simp_all add: attended_def listener_at_def rest_def)
  have "passes (connect_sockets (ca, cb, af) 1 0 100 (\<lambda>sock1.
     loop 32768 (\<lambda>_ t. check_transfer run c 1 sock1 (check_transfer run c sock1 1 (t ()))) () (\<lambda>_. return_0))) k3"
    by (rule served_connected [OF 3(2) c(2,3) K3(1)], rule both_ways [OF met_ends [OF _ K3(2)] c(1)]) simp_all
  with 1(1) 2(1) 3(1) show ?thesis
    by (simp add: test_socket_small_transfer_def NOPORT_def NOFILE_def move_to_0_def holds_call holds_checks holds_ASSERT)
qed

lemma shutdown_test_ok:
  assumes b: "bench C p Map.empty k" and c: "c \<in> C" "ca \<in> C" "cb \<in> C" and free: "PortMap k = Map.empty"
    and go: "\<And>x y v a d k'. ends C p x y v a d k' \<Longrightarrow> passes (t 1 2) k'"
  shows "passes (shutdown_test run c (ca, cb, af) t) k"
proof -
  have "(0::int) \<le> 0" "(0::int) \<le> int MAX_PORT" by simp_all
  from served [OF b c(1) free this] obtain k1 k2 k3 x y where S:
    "sys_Socket c 100 k = Inr (0, k1)" "sys_Listen c 0 k1 = Inr (0, k2)" "sys_Socket c 0 k2 = Inr (1, k3)"
    "bench C p (sockets2 x y) k3" "attended x y (new_scb (nat 0) 1) k3" "next_addr k3 = Suc y" by metis
  have y: "y < next_addr k3" using S(6) by simp
  have "passes (connect_sockets (ca, cb, af) 1 0 100 (\<lambda>srv.
     loop 2000 (\<lambda>_ t. check_transfer run c 1 srv (check_transfer run c srv 1 (t ()))) () (\<lambda>_. t 1 srv))) k3"
    by (rule served_connected [OF S(4) c(2,3) S(5)], rule both_ways [OF met_ends [OF _ y] c(1)]) (assumption+, rule go)
  with S(1-3) show ?thesis
    by (simp add: shutdown_test_def NOPORT_def NOFILE_def move_to_0_def holds_call holds_checks holds_ASSERT)
qed

text \<open>A socket that no longer reads or writes.\<close>

lemma read_shut:
  assumes b: "bench C p T k" and c: "c \<in> C" and t: "T i = Some (Scb_obj y, Socket_ops)" "sends k y v a None"
  shows "returns (sys_Read run c (int i) sz) k = Inr ((0, Bytes []), k)"
proof -
  obtain f where f: "get_fcb c (int i) k = Inr (Some f)" "fds k p i = Some f" "sole k p i f" "streamobj (FT k f) = Scb_obj y"
    "streamfunc (FT k f) = Some Socket_ops" "i < MAX_FILEID"
    by (rule bench_get [OF b c t(1)])
  have "stream_read run c Socket_ops (Scb_obj y) sz (FCB_incref f k) = Inr (Done (0, Bytes []), FCB_incref f k)"
    using t(2) by (auto simp: sends_def stream_read_def as_scb_def socket_read_def socket_read_pipe_def FCB_incref_def bytes_read_def)
  then show ?thesis using f(1,4,5) by (simp add: returns_def sys_Read_def Let_def has_read_def bracket_same [OF b f(2,3)])
qed

lemma write_shut:
  assumes b: "bench C p T k" and c: "c \<in> C" and t: "T i = Some (Scb_obj y, Socket_ops)" "sends k y v None d"
  shows "returns (sys_Write c (int i) buf sz) k = Inr (-1, k)"
proof -
  obtain f where f: "get_fcb c (int i) k = Inr (Some f)" "fds k p i = Some f" "sole k p i f" "streamobj (FT k f) = Scb_obj y"
    "streamfunc (FT k f) = Some Socket_ops" "i < MAX_FILEID"
    by (rule bench_get [OF b c t(1)])
  have "stream_write Socket_ops (Scb_obj y) buf sz (FCB_incref f k) = Inr (Done (-1), FCB_incref f k)"
    using t(2) by (auto simp: sends_def stream_write_def as_scb_def socket_write_def socket_write_pipe_def FCB_incref_def)
  then show ?thesis using f(1,4,5) by (simp add: returns_def sys_Write_def Let_def has_write_def bracket_same [OF b f(2,3)])
qed

lemma shutdown_read_passes:
  assumes b: "bench C p Map.empty k" and c: "c \<in> C" "ca \<in> C" "cb \<in> C" and free: "PortMap k = Map.empty"
  shows "passes (test_shutdown_read run c (ca, cb, af)) k"
  unfolding test_shutdown_read_def
proof (rule shutdown_test_ok [OF assms])
  fix x y v a d k' assume e: "ends C p x y v a d k'"
  note E = endsD [OF e]
  let ?loop = "loop 2000 (\<lambda>_ t. write_hello c 2 (-1) (check_transfer run c 1 2 (t ()))) () (\<lambda>_. return_0)"
  let ?t = "call (sys_ShutDown c 1 SHUTDOWN_READ) (\<lambda>_. checks (returns (sys_Read run c 1 12)) (\<lambda>(rc, _). rc = 0)
     (write_hello c 2 (-1) ?loop))"
  have "passes (write_hello c (int 2) 12 ?t) k'"
  proof (rule write_hello_ok [OF E(1) c(1) _ sends_ends(1) [OF E(5)] E(7)])
    fix s q let ?k = "k'\<lparr>cc := s, pipes := (pipes k')(d \<mapsto> q)\<rparr>"
    assume b1: "bench C p (sockets3 x y v) ?k" and q: "chan ?k d ([] @ hello) False False"
    obtain sy sv where sy: "scbs ?k y = Some sy" "stype sy = PEER" "peer sy = Some v" "send sy = Some a" "receive sy = Some d"
      and sv: "scbs ?k v = Some sv" "stype sv = PEER" "peer sv = Some y" "send sv = Some d" "receive sv = Some a"
      using E(4,5) by (auto simp: sends_def)
    obtain q1 where q1: "pipes ?k d = Some q1" "\<not> reader_closed q1" using q by (auto simp: chan_def)
    have "sockets3 x y v 1 = Some (Scb_obj y, Socket_ops)" by simp
    from shutdown_read_ok [OF b1 c(1) this sy(1,2,3,5) sv(1) E(2) q1] obtain s2 k2 where k2:
      "sys_ShutDown c (int 1) SHUTDOWN_READ ?k = Inr (0, k2)" "bench C p (sockets3 x y v) k2"
      "rest k2 = (s2, (pipes ?k)(d := None), (scbs ?k)(y \<mapsto> sy\<lparr>receive := None\<rparr>, v \<mapsto> sv\<lparr>send := None\<rparr>), conn_reqs ?k,
        PortMap ?k, devnum ?k, next_addr ?k)"
      by blast
    have S: "sends k2 y v (Some a) None" "sends k2 v y None (Some a)"
      using k2(3) sy sv E(2) by (auto simp: sends_def rest_def)
    have "chan k2 a [] False False" using E(3,6) k2(3) by (auto simp: chan_def rest_def)
    then have "passes ?loop k2"
    proof (intro holds_loop [where I = "\<lambda>_ _ j. bench C p (sockets3 x y v) j \<and> sends j = sends k2 \<and> chan j a [] False False"])
      fix i u j and t :: "unit \<Rightarrow> test"
      assume J: "bench C p (sockets3 x y v) j \<and> sends j = sends k2 \<and> chan j a [] False False"
        and t: "\<And>u j. bench C p (sockets3 x y v) j \<and> sends j = sends k2 \<and> chan j a [] False False \<Longrightarrow> passes (t u) j"
      then have s: "sends j y v (Some a) None" "sends j v y None (Some a)" using S by simp_all
      have w: "returns (sys_Write c (int 2) ((!) hello) 12) j = Inr (-1, j)"
        by (rule write_shut [OF conjunct1 [OF J] c(1) _ s(2)]) simp
      have "passes (check_transfer run c (int 1) (int 2) (t ())) j"
        by (rule check_transfer_ok [OF conjunct1 [OF J] c(1) _ sends_ends(1) [OF s(1)] _ sends_ends(2) [OF s(2)]])
          (use J in \<open>auto intro!: t dest: sends_cong\<close>)
      then show "passes (write_hello c 2 (-1) (check_transfer run c 1 2 (t ()))) j" using w by (simp add: write_hello_def holds_checks)
    qed (use k2(2) in simp_all)
    moreover have "returns (sys_Read run c (int 1) 12) k2 = Inr ((0, Bytes []), k2)" "returns (sys_Write c (int 2) ((!) hello) 12) k2 = Inr (-1, k2)"
      using read_shut [OF k2(2) c(1) _ S(1), of 1] write_shut [OF k2(2) c(1) _ S(2), of 2] by simp_all
    ultimately show "passes ?t ?k" using k2(1) by (simp add: holds_call holds_checks write_hello_def)
  qed (simp_all add: BUFF_SIZE_def)
  then show "passes (write_hello c 2 12 ?t) k'" by simp
qed

lemma shutdown_write_passes:
  assumes b: "bench C p Map.empty k" and c: "c \<in> C" "ca \<in> C" "cb \<in> C" and free: "PortMap k = Map.empty" and junk: "length junk = 12"
  shows "passes (test_shutdown_write run c (ca, cb, af) junk) k"
  unfolding test_shutdown_write_def
proof (rule shutdown_test_ok [OF b c free])
  fix x y v a d k' assume e: "ends C p x y v a d k'"
  note E = endsD [OF e]
  let ?loop = "loop 2000 (\<lambda>_ t. checks (returns (sys_Read run c 1 12)) (\<lambda>(rc, _). rc = 0) (check_transfer run c 1 2 (t ()))) ()
       (\<lambda>_. return_0)"
  let ?t = "call (sys_ShutDown c 2 SHUTDOWN_WRITE) (\<lambda>_. write_hello c 2 (-1)
     (loop 3 (\<lambda>buf t. read_hello run c 1 buf t) junk (\<lambda>_. ?loop)))"
  have after: "passes ?t k" if b1: "bench C p (sockets3 x y v) k" and q: "chan k d (concat (replicate 3 hello)) False False"
    and k: "scbs k = scbs k'" "pipes k a = pipes k' a" for k
  proof -
    obtain sv where sv: "scbs k v = Some sv" "stype sv = PEER" "peer sv = Some y" "send sv = Some d" "receive sv = Some a"
      using E(5) k(1) by (auto simp: sends_def)
    obtain q1 where q1: "pipes k d = Some q1" using q by (auto simp: chan_def)
    have "sockets3 x y v 2 = Some (Scb_obj v, Socket_ops)" "peer sv \<noteq> None" using sv(3) by simp_all
    from shutdown_write_ok [OF b1 c(1) this(1) sv(1,2) this(2) sv(4) q1] obtain s2 k2 where k2:
      "sys_ShutDown c (int 2) SHUTDOWN_WRITE k = Inr (0, k2)" "bench C p (sockets3 x y v) k2"
      "rest k2 = (s2, (pipes k)(d \<mapsto> q1\<lparr>writer_closed := True\<rparr>), (scbs k)(v \<mapsto> sv\<lparr>send := None\<rparr>), conn_reqs k, PortMap k, devnum k, next_addr k)"
      by blast
    have S: "sends k2 y v (Some a) (Some d)" "sends k2 v y None (Some a)"
      using k2(3) sv E(2,4) k(1) by (auto simp: sends_def rest_def)
    have Q: "chan k2 a [] False False" "chan k2 d (concat (replicate 3 hello)) False True"
      using E(3,6) k2(3) k(2) q q1 by (auto simp: chan_def rest_def pipe_inv_def used_def contents_def)
    have "passes (loop 3 (\<lambda>buf t. read_hello run c (int 1) buf t) junk (\<lambda>_. ?loop)) k2"
    proof (rule read_hellos [OF k2(2) c(1) _ sends_ends(2) [OF S(1)] Q(2) junk])
      fix buf k3 assume k3: "bench C p (sockets3 x y v) k3" "scbs k3 = scbs k2" "chan k3 d [] False True" "\<And>e. e \<noteq> d \<Longrightarrow> pipes k3 e = pipes k2 e"
      let ?J = "\<lambda>j. bench C p (sockets3 x y v) j \<and> scbs j = scbs k2 \<and> chan j a [] False False \<and> chan j d [] False True"
      show "passes ?loop k3"
      proof (rule holds_loop [where I = "\<lambda>_ _. ?J"])
        fix i u j and t :: "unit \<Rightarrow> test" assume J: "?J j" and t: "\<And>u j. ?J j \<Longrightarrow> passes (t u) j"
        then have s: "sends j y v (Some a) (Some d)" "sends j v y None (Some a)" using S sends_cong [of j k2] by simp_all
        have "sys_Read run c (int 1) 12 j = Inr (Done (0, Bytes []), j)"
          by (rule read_end [OF conjunct1 [OF J] c(1) _ sends_ends(2) [OF s(1)]]) (use J in auto)
        then have r: "returns (sys_Read run c 1 12) j = Inr ((0, Bytes []), j)" by (simp add: returns_def)
        have "passes (check_transfer run c (int 1) (int 2) (t ())) j"
        proof (rule check_transfer_ok [OF conjunct1 [OF J] c(1) _ sends_ends(1) [OF s(1)] _ sends_ends(2) [OF s(2)]])
          fix j' assume "bench C p (sockets3 x y v) j'" "scbs j' = scbs j" "chan j' a [] False False" "\<And>e. e \<noteq> a \<Longrightarrow> pipes j' e = pipes j e"
          then show "passes (t ()) j'" using J E(3) by (intro t) (simp add: chan_cong [of j' d j])
        qed (use J in simp_all)
        then show "passes (checks (returns (sys_Read run c 1 12)) (\<lambda>(rc, _). rc = 0) (check_transfer run c 1 2 (t ()))) j"
          using r by (simp add: holds_checks)
      qed (use k3 Q(1) E(3) chan_cong [of k3 a k2] in simp_all)
    qed simp_all
    moreover have "returns (sys_Write c (int 2) ((!) hello) 12) k2 = Inr (-1, k2)"
      by (rule write_shut [OF k2(2) c(1) _ S(2)]) simp
    ultimately show ?thesis using k2(1) by (simp add: holds_call holds_checks write_hello_def)
  qed
  have w: "passes (write_hello c 2 12 t) k" if "bench C p (sockets3 x y v) k" "scbs k = scbs k'" "pipes k a = pipes k' a"
     "chan k d (concat (replicate m hello)) False False" "m < 3"
     "\<And>j. bench C p (sockets3 x y v) j \<Longrightarrow> scbs j = scbs k' \<Longrightarrow> pipes j a = pipes k' a \<Longrightarrow>
        chan j d (concat (replicate (Suc m) hello)) False False \<Longrightarrow> passes t j" for m t k
  proof -
    have s: "sends k v y (Some d) (Some a)" using E(5) sends_cong [OF that(2)] by simp
    have "passes (write_hello c (int 2) 12 t) k"
      by (rule write_hello_ok [OF that(1) c(1) _ sends_ends(1) [OF s] that(4)])
        (use that(2,3,5) E(3) in \<open>auto intro!: that(6) simp: length_concat sum_list_replicate BUFF_SIZE_def replicate_snoc\<close>)
    then show ?thesis by simp
  qed
  have q0: "chan k' d (concat (replicate 0 hello)) False False" using E(7) by simp
  show "passes (write_hello c 2 12 (write_hello c 2 12 (write_hello c 2 12 ?t))) k'"
    by (rule w [OF E(1) refl refl q0], simp, rule w, assumption+, simp, rule w, assumption+, simp,
        rule after) (simp_all add: numeral_3_eq_3)
qed

section \<open>A listener that closes\<close>

lemma accept_unblocks_on_close:
  assumes b: "bench C p Map.empty k" and c: "c \<in> C" "ca \<in> C" and free: "PortMap k = Map.empty"
  shows "passes (test_accept_unblocks_on_close c ca False) k" and "faults Use_after_free (test_accept_unblocks_on_close c ca True) k"
proof -
  obtain k1 k2 x s where l: "sys_Socket c 100 k = Inr (0, k1)" "sys_Listen c 0 k1 = Inr (0, k2)" "bench C p [0 \<mapsto> (Scb_obj x, Socket_ops)] k2"
    "listener_at x 100 s k2" "req_queue s = []" "x < next_addr k2" "PortMap k2 = [100 \<mapsto> x]"
    by (rule listening_first [OF b c(1) free]) (rule that; assumption)
  have closed: "\<exists>k'. sys_Close c 0 j = Inr (0, k') \<and> bench C p Map.empty k' \<and> scbs k' x = None"
    if "bench C p [0 \<mapsto> (Scb_obj x, Socket_ops)] j" "listener_at x 100 s j" for j
  proof -
    have "\<exists>s' k'. sys_Close c (int 0) j = Inr (0, k') \<and> bench C p ([0 \<mapsto> (Scb_obj x, Socket_ops)](0 := None)) k' \<and>
      rest k' = (s', pipes j, (scbs j)(x := None), conn_reqs j, (PortMap j)(port s := None), devnum j, next_addr j)"
      by (rule close_listener_ok [OF that(1) c(1)]) (use that(2) in \<open>simp_all add: listener_at_def\<close>)
    then show ?thesis by (auto simp: rest_def)
  qed
  from closed [OF l(3,4)] obtain k3 where 3: "sys_Close c 0 k2 = Inr (0, k3)" "bench C p Map.empty k3" by blast
  have "get_fcb ca 0 (yield_kernel k3) = Inr None" by (rule no_fid [OF bench_yield(1) [OF 3(2)] c(2)]) simp
  then have "returns (sys_Accept ca 0) (yield_kernel k3) = Inr (NOFILE, yield_kernel k3)"
    by (simp add: returns_def sys_Accept_def accept_listener_def no_socket)
  with l(1,2) 3(1) show "passes (test_accept_unblocks_on_close c ca False) k"
    by (simp add: test_accept_unblocks_on_close_def holds_call holds_checks holds_ASSERT NOFILE_def)
  have w: "sys_Accept ca 0 k2 = Inr (Wait (Server_requests x) SCHED_PIPE NO_TIMEOUT x, k2)"
    using socket_at [OF l(3) c(2), of 0 x] l(4,5) by (simp add: sys_Accept_def accept_listener_def listener_at_def MAX_FILEID_def)
  have "listener_at x 100 s (yield_kernel k2)" using l(4) bench_yield(2) [OF l(3)] by (simp add: listener_at_def rest_def)
  from closed [OF bench_yield(1) [OF l(3)] this] obtain k4 where 4: "sys_Close c 0 (yield_kernel k2) = Inr (0, k4)" "bench C p Map.empty k4"
    "scbs k4 x = None" by blast
  have "scbs (yield_kernel k4) x = None" using 4(3) bench_yield(2) [OF 4(2)] by (simp add: rest_def)
  then have "Accept_end ca (Wait (Server_requests x) SCHED_PIPE NO_TIMEOUT x) (yield_kernel k4) = Inl Use_after_free"
    by (simp add: Accept_end_def sys_Accept_resume_def)
  with l(1,2) w 4(1) show "faults Use_after_free (test_accept_unblocks_on_close c ca True) k"
    by (simp add: test_accept_unblocks_on_close_def holds_call holds_checks holds_ASSERT NOFILE_def faults_call checks_def)
qed

end
