(* ===== verification/Harness.thy ===== *)
theory Harness
  imports Programs Bios
begin

text \<open>
  The library that runs the tests, \<^verbatim>\<open>src/unit_testing.c\<close>: indented messages, the tree of tests, running a test in a
  process of its own, the suites, and the arguments of the program. What a test function does is a parameter; the terminal
  proxies, which are threads of the host, are not modelled.
\<close>

section \<open>Messages\<close>

record messages =
  INDENT_STACK :: "nat list"
  INDENT_POS :: nat
  CURRENT_POS :: nat
  EMIT_INDENT :: bool

definition INDENT_STACK_MAX :: nat where "INDENT_STACK_MAX = 128"
definition INDENT_STEP :: nat where "INDENT_STEP = 8"

definition INDENT :: "messages \<Rightarrow> messages res" where
  "INDENT m =
     bindE (assertE (length (INDENT_STACK m) < INDENT_STACK_MAX)) (\<lambda>_.
     Inr (m\<lparr>INDENT_STACK := INDENT_POS m # INDENT_STACK m, INDENT_POS := INDENT_POS m + INDENT_STEP\<rparr>))"

definition UNINDENT :: "messages \<Rightarrow> messages res" where
  "UNINDENT m = (case INDENT_STACK m of [] \<Rightarrow> Inl Assert_failed | p # ps \<Rightarrow> Inr (m\<lparr>INDENT_STACK := ps, INDENT_POS := p\<rparr>))"

definition TAB :: "messages \<Rightarrow> messages res" where
  "TAB m =
     bindE (assertE (length (INDENT_STACK m) < INDENT_STACK_MAX)) (\<lambda>_.
     Inr (m\<lparr>INDENT_STACK := INDENT_POS m # INDENT_STACK m, INDENT_POS := INDENT_POS m + CURRENT_POS m\<rparr>))"

definition MSG_START :: messages where
  "MSG_START = \<lparr>INDENT_STACK = [], INDENT_POS = 0, CURRENT_POS = 0, EMIT_INDENT = True\<rparr>"

text \<open>\<^verbatim>\<open>MSG\<close> on the formatted text: what it writes, and the positions afterwards.\<close>

fun MSG :: "string \<Rightarrow> messages \<Rightarrow> string \<times> messages" where
  "MSG [] m = ([], m)"
| "MSG (ch # cs) m =
     (let pre = (if EMIT_INDENT m then replicate (INDENT_POS m) CHR '' '' else []);
          m1 = (if ch = CHR 0x0A then m\<lparr>EMIT_INDENT := True, CURRENT_POS := 0\<rparr>
                else m\<lparr>EMIT_INDENT := False, CURRENT_POS := CURRENT_POS m + 1\<rparr>);
          (out, m2) = MSG cs m1
      in (pre @ [ch] @ out, m2))"

text \<open>\<^verbatim>\<open>COLOR\<close> when the output is no terminal.\<close>

definition COLOR :: "string \<Rightarrow> string" where
  "COLOR msg = take 255 msg"

section \<open>Tests\<close>

text \<open>
  How a test function ends and after how many seconds, if it ends: with \<^verbatim>\<open>FLAG_FAILURE\<close> as it is then, by \<^verbatim>\<open>exit\<close>, by a signal, or
  in undefined behaviour.
\<close>

datatype ending = Ends bool | Exit_with nat | Killed_by nat | Undefined fault

type_synonym run = "ending \<times> nat option"

datatype Test = Test (tname: string) (description: string) (timeout: nat) (minimum_terminals: nat) (minimum_cores: nat) (func: test_func)
and test_func = NO_FUNC | BARE_FUNC run | BOOT_FUNC "nat \<Rightarrow> nat \<Rightarrow> run" | SUITE_FUNC "Test list"

definition DEFAULT_TIMEOUT :: nat where "DEFAULT_TIMEOUT = 10"

text \<open>The macros that declare a test, without and with the optional parameters.\<close>

definition BARE_TEST :: "string \<Rightarrow> string \<Rightarrow> run \<Rightarrow> Test" where
  "BARE_TEST nm descr f = Test nm descr DEFAULT_TIMEOUT 0 1 (BARE_FUNC f)"

definition BOOT_TEST :: "string \<Rightarrow> string \<Rightarrow> (nat \<Rightarrow> nat \<Rightarrow> run) \<Rightarrow> Test" where
  "BOOT_TEST nm descr f = Test nm descr DEFAULT_TIMEOUT 0 1 (BOOT_FUNC f)"

definition TEST_SUITE :: "string \<Rightarrow> string \<Rightarrow> Test list \<Rightarrow> Test" where
  "TEST_SUITE nm descr ts = Test nm descr DEFAULT_TIMEOUT 0 1 (SUITE_FUNC ts)"

section \<open>Running a test\<close>

text \<open>
  The status of a child. A child that still runs after its timeout dies of \<^verbatim>\<open>SIGTERM\<close>; \<^verbatim>\<open>alarm(0)\<close> sets no alarm.
\<close>

datatype status = Exited nat | Signaled nat

definition SIGABRT :: nat where "SIGABRT = 6"
definition SIGTERM :: nat where "SIGTERM = 15"

definition child_status :: "ending \<Rightarrow> status res" where
  "child_status e = (case e of
     Ends failure \<Rightarrow> Inr (if failure then Signaled SIGABRT else Exited 129)
   | Exit_with n \<Rightarrow> Inr (Exited (n mod 256))
   | Killed_by sg \<Rightarrow> Inr (Signaled sg)
   | Undefined f \<Rightarrow> Inl f)"

definition execute_fork :: "run \<Rightarrow> nat \<Rightarrow> status res" where
  "execute_fork procfunc tm = (case procfunc of
     (e, Some d) \<Rightarrow> if tm = 0 \<or> d \<le> tm then child_status e else Inr (Signaled SIGTERM)
   | (e, None) \<Rightarrow> if tm = 0 then Inl No_return else Inr (Signaled SIGTERM))"

text \<open>Without a fork the timeout is ignored, and whatever ends the process ends the whole program.\<close>

definition execute_nofork :: "run \<Rightarrow> nat \<Rightarrow> status res" where
  "execute_nofork procfunc tm = (case procfunc of
     (Ends failure, Some d) \<Rightarrow> if failure then Inl Assert_failed else Inr (Exited 129)
   | (Undefined f, Some d) \<Rightarrow> Inl f
   | _ \<Rightarrow> Inl No_return)"

definition execute :: "bool \<Rightarrow> run \<Rightarrow> nat \<Rightarrow> status res" where
  "execute fork procfunc tm = (if fork then execute_fork procfunc tm else execute_nofork procfunc tm)"

definition execute_boot :: "bool \<Rightarrow> nat \<Rightarrow> nat \<Rightarrow> (nat \<Rightarrow> nat \<Rightarrow> run) \<Rightarrow> nat \<Rightarrow> status res" where
  "execute_boot fork nc nt bootfunc tm = execute fork (bootfunc nc nt) tm"

definition run_boot_test :: "bool \<Rightarrow> Test \<Rightarrow> nat \<Rightarrow> nat \<Rightarrow> bool res" where
  "run_boot_test fork test nc nt =
     (let skipped = \<not> (nc \<ge> minimum_cores test \<and> nt \<ge> minimum_terminals test) in
      case func test of
        BOOT_FUNC f \<Rightarrow>
          if \<not> skipped then bindE (execute_boot fork nc nt f (timeout test)) (\<lambda>st. Inr (st = Exited 129)) else Inr True
      | _ \<Rightarrow> Inl Assert_failed)"

section \<open>The arguments of the program\<close>

definition MAX_TESTS :: nat where "MAX_TESTS = 1024"

record program_arguments =
  show_tests :: bool
  verbose :: nat
  use_color :: bool
  fork :: bool
  ncore_list :: nat
  core_list :: "int list"
  nterm_list :: nat
  term_list :: "int list"
  tests :: "Test list"

definition ARGS :: program_arguments where
  "ARGS = \<lparr>show_tests = False, verbose = 0, use_color = True, fork = True,
     ncore_list = 1, core_list = 1 # replicate (MAX_CORES - 1) 0,
     nterm_list = 1, term_list = 0 # replicate MAX_TERMINALS 0, tests = []\<rparr>"

text \<open>A boot test runs on every pair of a number of cores and a number of terminals; all of them run.\<close>

fun run_boots :: "bool \<Rightarrow> Test \<Rightarrow> (int \<times> int) list \<Rightarrow> bool \<Rightarrow> bool res" where
  "run_boots fk test [] r = Inr r"
| "run_boots fk test ((nc, nt) # ps) r =
     bindE (run_boot_test fk test (nat nc) (nat nt)) (\<lambda>r'. run_boots fk test ps (r \<and> r'))"

definition configurations :: "program_arguments \<Rightarrow> (int \<times> int) list" where
  "configurations a = List.product (take (ncore_list a) (core_list a)) (take (nterm_list a) (term_list a))"

text \<open>
  What is printed is left out, but for the indentation, which fails when it is too deep. \<open>d\<close> is the length of the stack of
  indents; each \<^verbatim>\<open>INDENT\<close> and \<^verbatim>\<open>TAB\<close> is undone before the function returns. \<open>indent_at\<close> is either of the two.
\<close>

definition indent_at :: "nat \<Rightarrow> nat res" where
  "indent_at d = bindE (assertE (d < INDENT_STACK_MAX)) (\<lambda>_. Inr (d + 1))"

text \<open>The end of \<^verbatim>\<open>run_test\<close>: the description of a test that failed.\<close>

definition report :: "program_arguments \<Rightarrow> nat \<Rightarrow> bool \<Rightarrow> bool res" where
  "report a d r =
     (if \<not> r \<and> verbose a > 0 then bindE (indent_at d) (\<lambda>d1. bindE (indent_at d1) (\<lambda>_. Inr r)) else Inr r)"

text \<open>\<open>run_suite\<close> is the loop of the function, after its \<^verbatim>\<open>INDENT\<close>.\<close>

fun run_test_at :: "program_arguments \<Rightarrow> nat \<Rightarrow> Test \<Rightarrow> bool res" and
    run_suite :: "program_arguments \<Rightarrow> nat \<Rightarrow> Test list \<Rightarrow> nat \<Rightarrow> nat \<Rightarrow> bool res" where
  "run_test_at a d (Test nm ds tm mt mc (BOOT_FUNC f)) =
     bindE (run_boots (fork a) (Test nm ds tm mt mc (BOOT_FUNC f)) (configurations a) True) (report a d)"
| "run_test_at a d (Test nm ds tm mt mc (BARE_FUNC f)) = bindE (execute (fork a) f tm) (\<lambda>st. report a d (st = Exited 129))"
| "run_test_at a d (Test nm ds tm mt mc (SUITE_FUNC ts)) =
     bindE (indent_at d) (\<lambda>d1. bindE (run_suite a d1 ts 0 0) (report a d))"
| "run_test_at a d (Test nm ds tm mt mc NO_FUNC) = Inr True"
| "run_suite a d [] number_of_tests successful = Inr (number_of_tests = successful)"
| "run_suite a d (t # ts) number_of_tests successful =
     bindE (run_test_at a d t) (\<lambda>testres. run_suite a d ts (number_of_tests + 1) (if testres then successful + 1 else successful))"

text \<open>The program starts without indents.\<close>

definition run_test :: "program_arguments \<Rightarrow> Test \<Rightarrow> bool res" where
  "run_test a t = run_test_at a 0 t"

section \<open>Finding a test\<close>

fun find_test :: "string \<Rightarrow> Test \<Rightarrow> Test option" and find_in :: "string \<Rightarrow> Test list \<Rightarrow> Test option" where
  "find_test nm (Test n ds tm mt mc f) =
     (if nm = n then Some (Test n ds tm mt mc f)
      else case f of SUITE_FUNC ts \<Rightarrow> find_in nm ts | _ \<Rightarrow> None)"
| "find_in nm [] = None"
| "find_in nm (t # ts) = (case find_test nm t of Some u \<Rightarrow> Some u | None \<Rightarrow> find_in nm ts)"

definition MAX_TESTS_AVAILABLE :: nat where "MAX_TESTS_AVAILABLE = 64"

definition register_test :: "Test \<Rightarrow> Test list \<Rightarrow> int \<times> Test list" where
  "register_test test available = (if length available < MAX_TESTS_AVAILABLE then (0, available @ [test]) else (-1, available))"

definition all_tests_available :: "Test list \<Rightarrow> Test" where
  "all_tests_available available = TEST_SUITE ''all_tests_available'' ''Used by find_test()'' available"

section \<open>Lists of numbers\<close>

text \<open>\<^verbatim>\<open>strtok\<close>: the parts between commas that are not empty.\<close>

fun tokens :: "char \<Rightarrow> string \<Rightarrow> string \<Rightarrow> string list" where
  "tokens d cur [] = (if cur = [] then [] else [cur])"
| "tokens d cur (c # cs) =
     (if c = d then (if cur = [] then tokens d [] cs else cur # tokens d [] cs) else tokens d (cur @ [c]) cs)"

text \<open>\<^verbatim>\<open>strtol\<close> in base 10, with what it leaves; without a digit it leaves the whole string.\<close>

definition isdigit :: "char \<Rightarrow> bool" where
  "isdigit c \<longleftrightarrow> (let n = of_char c :: nat in 48 \<le> n \<and> n \<le> 57)"

definition strtol :: "string \<Rightarrow> int \<times> string" where
  "strtol s =
     (let s1 = dropWhile isspace s;
          neg = (s1 \<noteq> [] \<and> hd s1 = CHR ''-'');
          ds = (if s1 \<noteq> [] \<and> (hd s1 = CHR ''-'' \<or> hd s1 = CHR ''+'') then tl s1 else s1);
          v = int (atoi_digits ds 0)
      in if ds = [] \<or> \<not> isdigit (hd ds) then (0, s)
         else (max (- (2 ^ 63)) (min (2 ^ 63 - 1) (if neg then - v else v)), dropWhile isdigit ds))"

text \<open>
  \<^verbatim>\<open>parse_int_list\<close>. \<open>nlist\<close> is the array of the caller, which is compared with each new value in the place of the values stored
  so far, \<open>args\<close> the part of the temporary array that has been filled. The result is \<^verbatim>\<open>*nlen\<close>, if it has been set, and the array.
\<close>

fun store_ints :: "string list \<Rightarrow> int list \<Rightarrow> int \<Rightarrow> int \<Rightarrow> int list \<Rightarrow> int list option res" where
  "store_ints [] nlist from to args = Inr (Some args)"
| "store_ints (token # ts) nlist from to args =
     (let (v, endptr) = strtol token; num = sint (of_int v :: u32) in
      if endptr = token \<or> endptr \<noteq> [] then Inr None
      else if num < from \<or> num > to then Inr None
      else if num \<in> set (take (length args) nlist) then store_ints ts nlist from to args
      else if length args > length nlist \<or> int (length args) \<ge> to - from + 1 then Inl Out_of_bounds
      else store_ints ts nlist from to (args @ [num]))"

definition parse_int_list :: "string \<Rightarrow> int list \<Rightarrow> int \<Rightarrow> int \<Rightarrow> (bool \<times> nat option \<times> int list) res" where
  "parse_int_list arg nlist from to =
     bindE (store_ints (tokens CHR '','' [] arg) nlist from to []) (\<lambda>r. case r of
       None \<Rightarrow> Inr (False, None, nlist)
     | Some args \<Rightarrow>
         if length args > length nlist then Inl Out_of_bounds
         else Inr (length args > 0, Some (length args), sort args @ drop (length args) nlist))"

section \<open>The options\<close>

datatype arg_key = Key_l | Key_v | Key_n | Key_f | Key_c string | Key_t string | ARGP_KEY_ARG string | ARGP_KEY_NO_ARGS | Key_other

text \<open>\<open>Usage\<close> is \<^verbatim>\<open>argp_error\<close>, which ends the program; \<open>Unknown\<close> is \<^verbatim>\<open>ARGP_ERR_UNKNOWN\<close>.\<close>

datatype parsed = Usage | Unknown | Parsed program_arguments

definition parse_options :: "Test list \<Rightarrow> Test \<Rightarrow> arg_key \<Rightarrow> program_arguments \<Rightarrow> parsed res" where
  "parse_options available default_test key a = (case key of
     Key_l \<Rightarrow> Inr (Parsed (a\<lparr>show_tests := True\<rparr>))
   | Key_v \<Rightarrow> Inr (Parsed (a\<lparr>verbose := verbose a + 1\<rparr>))
   | Key_n \<Rightarrow> Inr (Parsed (a\<lparr>use_color := False\<rparr>))
   | Key_f \<Rightarrow> Inr (Parsed (a\<lparr>fork := False\<rparr>))
   | Key_c arg \<Rightarrow> bindE (parse_int_list arg (core_list a) 1 (int MAX_CORES)) (\<lambda>(ok, n, l).
       Inr (if ok then Parsed (a\<lparr>ncore_list := the n, core_list := l\<rparr>) else Usage))
   | Key_t arg \<Rightarrow> bindE (parse_int_list arg (term_list a) 0 (int MAX_TERMINALS)) (\<lambda>(ok, n, l).
       Inr (if ok then Parsed (a\<lparr>nterm_list := the n, term_list := l\<rparr>) else Usage))
   | ARGP_KEY_ARG arg \<Rightarrow>
       Inr (if length (tests a) \<ge> MAX_TESTS then Usage
            else case find_test arg (all_tests_available available) of
              Some test \<Rightarrow> Parsed (a\<lparr>tests := tests a @ [test]\<rparr>)
            | None \<Rightarrow> Usage)
   | ARGP_KEY_NO_ARGS \<Rightarrow>
       if length (tests a) \<ge> MAX_TESTS then Inl Out_of_bounds else Inr (Parsed (a\<lparr>tests := tests a @ [default_test]\<rparr>))
   | Key_other \<Rightarrow> Inr Unknown)"

text \<open>\<^verbatim>\<open>argp_parse\<close> calls \<^verbatim>\<open>parse_options\<close> for each key of the command line; it goes on after a key of its own that is not known.\<close>

fun argp_parse :: "Test list \<Rightarrow> Test \<Rightarrow> arg_key list \<Rightarrow> program_arguments \<Rightarrow> program_arguments option res" where
  "argp_parse available dt [] a = Inr (Some a)"
| "argp_parse available dt (key # keys) a =
     bindE (parse_options available dt key a) (\<lambda>r. case r of
       Usage \<Rightarrow> Inr None
     | Unknown \<Rightarrow> argp_parse available dt keys a
     | Parsed a1 \<Rightarrow> argp_parse available dt keys a1)"

text \<open>\<^verbatim>\<open>show_test\<close> and \<^verbatim>\<open>show_suite\<close>: what they print.\<close>

definition pad_right :: "nat \<Rightarrow> string \<Rightarrow> string" where
  "pad_right w s = s @ replicate (w - length s) CHR '' ''"

definition print :: "string \<Rightarrow> (string \<times> messages) \<Rightarrow> (string \<times> messages)" where
  "print s = (\<lambda>(out, m). let (o1, m1) = MSG s m in (out @ o1, m1))"

definition indented :: "(messages \<Rightarrow> messages res) \<Rightarrow> string \<times> messages \<Rightarrow> (string \<times> messages) res" where
  "indented f = (\<lambda>(out, m). bindE (f m) (\<lambda>m1. Inr (out, m1)))"

abbreviation line_end :: string where
  "line_end \<equiv> [CHR 0x0A]"

definition details :: "nat \<Rightarrow> string \<Rightarrow> nat \<Rightarrow> nat \<Rightarrow> nat \<Rightarrow> string \<times> messages \<Rightarrow> string \<times> messages" where
  "details vb ds tm mt mc w =
     (let w3 = print (ds @ line_end) w in
      if vb > 1 then print (''.minimum cores = '' @ decimal mc @ line_end @ ''.minimum terminals = '' @ decimal mt @ line_end)
                      (print (''.timeout = '' @ decimal tm @ '' sec'' @ line_end) w3)
      else w3)"

fun show_test :: "nat \<Rightarrow> Test \<Rightarrow> string \<times> messages \<Rightarrow> (string \<times> messages) res" and
    show_all :: "nat \<Rightarrow> Test list \<Rightarrow> string \<times> messages \<Rightarrow> (string \<times> messages) res" where
  "show_test vb (Test nm ds tm mt mc (SUITE_FUNC ts)) w =
     (let w1 = print (pad_right 40 (COLOR nm) @ line_end) w in
      bindE (indented INDENT w1) (\<lambda>w2.
      bindE (show_all vb ts (if vb \<noteq> 0 then print (ds @ line_end) w2 else w2)) (\<lambda>w3.
      indented UNINDENT w3)))"
| "show_test vb (Test nm ds tm mt mc f) w =
     (let w1 = print (pad_right 40 (COLOR nm) @ line_end) w in
      if vb > 0 then
        bindE (indented INDENT w1) (\<lambda>w2. bindE (Inr (details vb ds tm mt mc w2)) (indented UNINDENT))
      else Inr w1)"
| "show_all vb [] w = Inr w"
| "show_all vb (t # ts) w = bindE (show_test vb t w) (show_all vb ts)"

text \<open>
  \<^verbatim>\<open>run_program\<close> returns 0 whatever the tests come to; their results and the list of tests are only printed. They are the
  second part of the result; \<open>None\<close> is the end of the program in \<^verbatim>\<open>argp_error\<close>.
\<close>

fun run_tests :: "program_arguments \<Rightarrow> Test list \<Rightarrow> bool list res" where
  "run_tests a [] = Inr []"
| "run_tests a (t # ts) = bindE (run_test a t) (\<lambda>r. bindE (run_tests a ts) (\<lambda>rs. Inr (r # rs)))"

definition run_program :: "Test list \<Rightarrow> Test \<Rightarrow> arg_key list \<Rightarrow> (int \<times> (string + bool list)) option res" where
  "run_program available default_test keys =
     bindE (argp_parse available default_test keys ARGS) (\<lambda>r. case r of
       None \<Rightarrow> Inr None
     | Some a \<Rightarrow>
         if show_tests a then
           bindE (show_test (verbose a) (all_tests_available available) ([], MSG_START)) (\<lambda>(out, _). Inr (Some (0, Inl out)))
         else bindE (run_tests a (tests a)) (\<lambda>rs. Inr (Some (0, Inr rs))))"

end
