(* ===== verification/HarnessSpec.thy ===== *)
theory HarnessSpec
  imports Harness Launch
begin

text \<open>
  What the library of \<open>Harness\<close> comes to: which tests a suite runs and when it succeeds, how a test is found by its name, what
  the lists of numbers of the command line are read as, and that listing the tests leaves the indentation as it was.
\<close>

section \<open>Suites\<close>

text \<open>The runs of a test with their timeouts, over all configurations that do not skip it.\<close>

definition boot_runs :: "program_arguments \<Rightarrow> Test \<Rightarrow> (nat \<Rightarrow> nat \<Rightarrow> run) \<Rightarrow> (run \<times> nat) list" where
  "boot_runs a t f = map (\<lambda>(nc, nt). (f (nat nc) (nat nt), timeout t))
     (filter (\<lambda>(nc, nt). minimum_cores t \<le> nat nc \<and> minimum_terminals t \<le> nat nt) (configurations a))"

fun all_runs :: "program_arguments \<Rightarrow> Test \<Rightarrow> (run \<times> nat) list" and suite_runs :: "program_arguments \<Rightarrow> Test list \<Rightarrow> (run \<times> nat) list" where
  "all_runs a (Test nm ds tm mt mc (BOOT_FUNC f)) = boot_runs a (Test nm ds tm mt mc (BOOT_FUNC f)) f"
| "all_runs a (Test nm ds tm mt mc (BARE_FUNC f)) = [(f, tm)]"
| "all_runs a (Test nm ds tm mt mc (SUITE_FUNC ts)) = suite_runs a ts"
| "all_runs a (Test nm ds tm mt mc NO_FUNC) = []"
| "suite_runs a [] = []"
| "suite_runs a (t # ts) = all_runs a t @ suite_runs a ts"

text \<open>A run that ends in time without a failure; \<^verbatim>\<open>exit(129)\<close> in the child counts as well.\<close>

definition succeeds :: "bool \<Rightarrow> run \<times> nat \<Rightarrow> bool" where
  "succeeds fk = (\<lambda>((e, d), tm). case d of
     None \<Rightarrow> False
   | Some s \<Rightarrow> (fk \<longrightarrow> tm = 0 \<or> s \<le> tm) \<and> (e = Ends False \<or> (fk \<and> (\<exists>n. e = Exit_with n \<and> n mod 256 = 129))))"

definition returns_status :: "bool \<Rightarrow> run \<times> nat \<Rightarrow> bool" where
  "returns_status fk = (\<lambda>(r, tm). case execute fk r tm of Inl _ \<Rightarrow> False | Inr _ \<Rightarrow> True)"

lemma execute_succeeds: "execute fk r tm = Inr st \<Longrightarrow> st = Exited 129 \<longleftrightarrow> succeeds fk (r, tm)"
  by (cases r) (auto simp: execute_def execute_fork_def execute_nofork_def child_status_def succeeds_def
      split: if_splits option.splits ending.splits)

lemma returned: "returns_status fk (r, tm) \<Longrightarrow> bindE (execute fk r tm) (\<lambda>st. f (st = Exited 129)) = f (succeeds fk (r, tm))"
  using execute_succeeds [of fk r tm] by (auto simp: returns_status_def split: sum.splits)

lemma run_boots_eq:
  assumes "func t = BOOT_FUNC f"
    and "list_all (returns_status fk) (map (\<lambda>(nc, nt). (f (nat nc) (nat nt), timeout t))
     (filter (\<lambda>(nc, nt). minimum_cores t \<le> nat nc \<and> minimum_terminals t \<le> nat nt) ps))"
  shows "run_boots fk t ps r = Inr (r \<and> list_all (succeeds fk) (map (\<lambda>(nc, nt). (f (nat nc) (nat nt), timeout t))
     (filter (\<lambda>(nc, nt). minimum_cores t \<le> nat nc \<and> minimum_terminals t \<le> nat nt) ps)))"
  using assms(2)
proof (induction ps arbitrary: r)
  case (Cons p ps)
  obtain nc nt where p: "p = (nc, nt)" by (cases p)
  show ?case
  proof (cases "minimum_cores t \<le> nat nc \<and> minimum_terminals t \<le> nat nt")
    case True
    then have "run_boot_test fk t (nat nc) (nat nt) = Inr (succeeds fk (f (nat nc) (nat nt), timeout t))"
      using Cons.prems returned [where f = Inr] by (simp add: p run_boot_test_def assms(1) Let_def execute_boot_def)
    then show ?thesis using Cons True by (simp add: p)
  next
    case False
    then have "run_boot_test fk t (nat nc) (nat nt) = Inr True" by (auto simp: run_boot_test_def assms(1) Let_def)
    then show ?thesis using Cons False by (auto simp: p)
  qed
qed simp

text \<open>
  The indentation fits its stack: when a suite at depth \<open>d\<close> begins, and when a test that failed is described in two steps.
\<close>

definition report_fits :: "program_arguments \<Rightarrow> nat \<Rightarrow> bool \<Rightarrow> bool" where
  "report_fits a d r \<longleftrightarrow> r \<or> verbose a = 0 \<or> d + 1 < INDENT_STACK_MAX"

fun indents_fit :: "program_arguments \<Rightarrow> nat \<Rightarrow> Test \<Rightarrow> bool" and all_fit :: "program_arguments \<Rightarrow> nat \<Rightarrow> Test list \<Rightarrow> bool" where
  "indents_fit a d (Test nm ds tm mt mc (BOOT_FUNC f)) =
     report_fits a d (list_all (succeeds (fork a)) (all_runs a (Test nm ds tm mt mc (BOOT_FUNC f))))"
| "indents_fit a d (Test nm ds tm mt mc (BARE_FUNC f)) = report_fits a d (succeeds (fork a) (f, tm))"
| "indents_fit a d (Test nm ds tm mt mc (SUITE_FUNC ts)) =
     (d < INDENT_STACK_MAX \<and> all_fit a (d + 1) ts \<and> report_fits a d (list_all (succeeds (fork a)) (suite_runs a ts)))"
| "indents_fit a d (Test nm ds tm mt mc NO_FUNC) = True"
| "all_fit a d [] = True"
| "all_fit a d (t # ts) = (indents_fit a d t \<and> all_fit a d ts)"

lemma report_eq: "report a d r = (if report_fits a d r then Inr r else Inl Assert_failed)"
  by (auto simp: report_def report_fits_def indent_at_def assertE_def)

text \<open>The counters of a suite are equal at the end if they are at the start and every test succeeds.\<close>

lemma run_test_eq:
  "list_all (returns_status (fork a)) (all_runs a t) \<Longrightarrow>
     run_test_at a d t = (if indents_fit a d t then Inr (list_all (succeeds (fork a)) (all_runs a t)) else Inl Assert_failed)"
  "list_all (returns_status (fork a)) (suite_runs a ts) \<Longrightarrow> s \<le> n \<Longrightarrow>
     run_suite a d ts n s = (if all_fit a d ts then Inr (n = s \<and> list_all (succeeds (fork a)) (suite_runs a ts)) else Inl Assert_failed)"
proof (induction a d t and a d ts n s rule: run_test_at_run_suite.induct)
  case (1 a d nm ds tm mt mc f)
  then show ?case using run_boots_eq [of "Test nm ds tm mt mc (BOOT_FUNC f)" f "fork a" "configurations a" True]
    by (simp add: boot_runs_def report_eq)
next
  case (2 a d nm ds tm mt mc f)
  then have "run_test_at a d (Test nm ds tm mt mc (BARE_FUNC f)) = report a d (succeeds (fork a) (f, tm))" by (simp add: returned)
  then show ?case by (simp add: report_eq)
next
  case (3 a d nm ds tm mt mc ts)
  show ?case
  proof (cases "d < INDENT_STACK_MAX")
    case True
    then show ?thesis using 3 by (simp add: indent_at_def report_eq)
  qed (simp add: indent_at_def)
next
  case (6 a d t ts n s)
  have t: "run_test_at a d t = (if indents_fit a d t then Inr (list_all (succeeds (fork a)) (all_runs a t)) else Inl Assert_failed)"
    by (rule 6(1)) (use 6(3) in simp)
  have "run_suite a d ts (n + 1) (if r then s + 1 else s) = (if all_fit a d ts
      then Inr (n + 1 = (if r then s + 1 else s) \<and> list_all (succeeds (fork a)) (suite_runs a ts)) else Inl Assert_failed)" for r
    using 6(2) [of r] 6(3,4) by simp
  with t show ?case using 6(4) by auto
qed auto

text \<open>
  Suites nested less deep than the stack is long fit: it takes one indent for each of them, and two more for the
  description of a failed test.
\<close>

fun nesting :: "Test \<Rightarrow> nat" and nestings :: "Test list \<Rightarrow> nat" where
  "nesting (Test nm ds tm mt mc f) = (case f of SUITE_FUNC ts \<Rightarrow> Suc (nestings ts) | _ \<Rightarrow> 0)"
| "nestings [] = 0"
| "nestings (t # ts) = max (nesting t) (nestings ts)"

lemma nesting_fits:
  "d + nesting t + 1 < INDENT_STACK_MAX \<Longrightarrow> indents_fit a d t"
  "d + nestings ts + 1 < INDENT_STACK_MAX \<Longrightarrow> all_fit a d ts"
  by (induction a d t and a d ts rule: indents_fit_all_fit.induct) (auto simp: report_fits_def)

text \<open>
  C24: A test succeeds exactly when each of its runs ends in time without a failed \<^verbatim>\<open>ASSERT\<close>: for a suite all the runs of all tests
  in it, for a boot test one run for each configuration of the command line that has enough cores and terminals for it. It is
  enough that the runs give a status at all. Only when suites are nested so deep that the stack of indents overflows does the
  program end in a failed assertion; fewer than 127 levels always fit.
\<close>

theorem suite_succeeds:
  assumes "list_all (returns_status (fork a)) (all_runs a t)"
  shows "run_test a t =
      (if indents_fit a 0 t then Inr (list_all (succeeds (fork a)) (all_runs a t)) else Inl Assert_failed) \<and>
    (nesting t < 127 \<longrightarrow> indents_fit a 0 t)"
  using run_test_eq(1) [OF assms, of 0] nesting_fits(1) [of 0 t a] by (simp add: run_test_def INDENT_STACK_MAX_def)

lemma suite_succeeds_witness:
  "run_test (ARGS\<lparr>nterm_list := 2, term_list := [0, 2]\<rparr>)
     (TEST_SUITE ''all'' ''d''
        [BARE_TEST ''a'' ''d'' (Ends False, Some 3), TEST_SUITE ''boots'' ''d'' [BOOT_TEST ''b'' ''d'' (\<lambda>nc nt. (Ends (nt > nc), Some 1))]]) = Inr False"
  (is "run_test ?a ?t = _")
proof -
  have r: "list_all (returns_status (fork ?a)) (all_runs ?a ?t)" "\<not> list_all (succeeds (fork ?a)) (all_runs ?a ?t)" "nesting ?t < 127"
    by (simp_all add: TEST_SUITE_def BARE_TEST_def BOOT_TEST_def boot_runs_def configurations_def ARGS_def
      returns_status_def execute_def execute_fork_def child_status_def succeeds_def DEFAULT_TIMEOUT_def MAX_CORES_def)
  with suite_succeeds [OF r(1)] show ?thesis by simp
qed

section \<open>Finding a test\<close>

fun subtests :: "Test \<Rightarrow> Test list" and subtests_of :: "Test list \<Rightarrow> Test list" where
  "subtests (Test n ds tm mt mc f) = Test n ds tm mt mc f # (case f of SUITE_FUNC ts \<Rightarrow> subtests_of ts | _ \<Rightarrow> [])"
| "subtests_of [] = []"
| "subtests_of (t # ts) = subtests t @ subtests_of ts"

lemma find_append: "List.find P (xs @ ys) = (case List.find P xs of Some x \<Rightarrow> Some x | None \<Rightarrow> List.find P ys)"
  by (induction xs) simp_all

lemma find_test_eq: "find_test nm t = List.find (\<lambda>u. tname u = nm) (subtests t)"
    "find_in nm ts = List.find (\<lambda>u. tname u = nm) (subtests_of ts)"
  by (induction nm t and nm ts rule: find_test_find_in.induct)
    (auto simp: find_append split: test_func.splits option.splits)

section \<open>Lists of numbers\<close>

fun commas :: "string list \<Rightarrow> string" where
  "commas [] = []"
| "commas [w] = w"
| "commas (w # ws) = w @ CHR '','' # commas ws"

lemma tokens_word: "d \<notin> set w \<Longrightarrow> tokens d cur (w @ cs) = tokens d (cur @ w) cs"
  by (induction w arbitrary: cur) auto

lemma tokens_commas: "(\<forall>w \<in> set ws. w \<noteq> [] \<and> CHR '','' \<notin> set w) \<Longrightarrow> tokens CHR '','' [] (commas ws) = ws"
proof (induction ws rule: commas.induct)
  case (2 w)
  then show ?case using tokens_word [of "CHR '',''" w "[]" "[]"] by simp
next
  case (3 w v ws)
  then show ?case using tokens_word [of "CHR '',''" w "[]" "CHR '','' # commas (v # ws)"] by simp
qed simp

lemma decimal_word: "decimal n \<noteq> []" "CHR '','' \<notin> set (decimal n)"
  using decimal_first [of n] by auto

lemma strtol_decimal: "n < 2 ^ 31 \<Longrightarrow> strtol (decimal n) = (int n, [])"
proof -
  assume n: "n < 2 ^ 31"
  obtain c cs where d: "decimal n = c # cs" using decimal_first [of n] by (cases "decimal n") auto
  then have c: "of_char c \<ge> (48 :: nat)" "of_char c \<le> (57 :: nat)" using decimal_first [of n] by simp_all
  then have "\<not> isspace c" "isdigit c" by (auto simp: isspace_def isdigit_def Let_def)
  moreover have "c \<noteq> CHR ''-''" "c \<noteq> CHR ''+''" using c by auto
  moreover have "dropWhile isdigit (decimal n) = []" using decimal_first [of n] by (auto simp: isdigit_def Let_def)
  ultimately show ?thesis using atoi_digits_decimal [of n "[]" 0] n by (simp add: strtol_def d)
qed

lemma store_number:
  assumes "n < 2 ^ 31" "from \<le> int n" "int n \<le> to" "length kept \<le> length nlist" "int n \<notin> set (take (length kept) nlist)"
  shows "store_ints (decimal n # ts) nlist from to kept =
     (if int (length kept) \<ge> to - from + 1 then Inl Out_of_bounds else store_ints ts nlist from to (kept @ [int n]))"
proof -
  have "sint (of_int (int n) :: u32) = int n" using assms(1) by (simp add: sint_of_length)
  then show ?thesis using assms decimal_word [of n] by (simp add: strtol_decimal)
qed

lemma store_numbers:
  assumes "\<forall>n \<in> set ns. n < 2 ^ 31 \<and> from \<le> int n \<and> int n \<le> to" and "length kept + length ns \<le> length nlist"
    and "int (length kept + length ns) \<le> to - from + 1" and "\<And>i. i < length ns \<Longrightarrow> int (ns ! i) \<notin> set (take (length kept + i) nlist)"
  shows "store_ints (map decimal ns @ ts) nlist from to kept = store_ints ts nlist from to (kept @ map int ns)"
  using assms
proof (induction ns arbitrary: kept)
  case (Cons n ns)
  have "int (ns ! i) \<notin> set (take (length (kept @ [int n]) + i) nlist)" if "i < length ns" for i
    using Cons.prems(4) [of "Suc i"] that by simp
  then have "store_ints (map decimal ns @ ts) nlist from to (kept @ [int n]) = store_ints ts nlist from to ((kept @ [int n]) @ map int ns)"
    using Cons.prems by (intro Cons.IH) simp_all
  moreover have "int n \<notin> set (take (length kept) nlist)" using Cons.prems(4) [of 0] by simp
  ultimately show ?case using Cons.prems store_number [of n "from" to kept nlist] by simp
qed simp

lemma length_distinct_range:
  assumes "distinct ns" "\<forall>n \<in> set ns. from \<le> int n \<and> int n \<le> to" "ns \<noteq> []"
  shows "int (length ns) \<le> to - from + 1"
proof -
  have "card (int ` set ns) \<le> card {from..to}" by (rule card_mono) (use assms(2) in auto)
  moreover have "card (int ` set ns) = length ns" using distinct_card [OF assms(1)] by (simp add: card_image)
  moreover obtain n where "n \<in> set ns" using assms(3) by (cases ns) auto
  then have "from \<le> to" using assms(2) by fastforce
  ultimately show ?thesis by simp
qed

text \<open>
  \<^verbatim>\<open>parse_int_list\<close> reads a list of distinct numbers in the range, as they are printed, and stores them in increasing order
  in front of what the array has behind them, provided that no number is in the part of the array that lies before its own place.
\<close>

lemma parse_distinct:
  assumes "ns \<noteq> []" and "distinct ns" and "\<forall>n \<in> set ns. n < 2 ^ 31 \<and> from \<le> int n \<and> int n \<le> to" and "length ns \<le> length nlist"
    and "\<And>i. i < length ns \<Longrightarrow> int (ns ! i) \<notin> set (take i nlist)"
  shows "parse_int_list (commas (map decimal ns)) nlist from to =
     Inr (True, Some (length ns), sorted_list_of_set (int ` set ns) @ drop (length ns) nlist)"
proof -
  have t: "tokens CHR '','' [] (commas (map decimal ns)) = map decimal ns"
    by (rule tokens_commas) (use decimal_word in auto)
  have "store_ints (map decimal ns @ []) nlist from to [] = store_ints [] nlist from to ([] @ map int ns)"
    by (rule store_numbers) (use assms length_distinct_range [OF assms(2) _ assms(1)] in simp_all)
  moreover have "sort (map int ns) = sorted_list_of_set (int ` set ns)"
    using assms(2) sorted_list_of_set_sort_remdups [of "map int ns"] by (simp add: distinct_map distinct_remdups_id)
  ultimately show ?thesis using assms(1,4) t by (simp add: parse_int_list_def)
qed

lemma parse_distinct_witness:
  "parse_int_list (commas (map decimal [1, 4, 2])) (core_list ARGS) 1 (int MAX_CORES) = Inr (True, Some 3, [1, 2, 4] @ drop 3 (core_list ARGS))"
proof -
  have "int ([1, 4, 2] ! i) \<notin> set (take i (core_list ARGS))" if "i < length [1, 4, 2 :: nat]" for i
    using that by (auto simp: ARGS_def less_Suc_eq MAX_CORES_def numeral_eq_Suc)
  from parse_distinct [of "[1, 4, 2]" 1 "int MAX_CORES" "core_list ARGS", OF _ _ _ _ this]
  show ?thesis by (simp add: MAX_CORES_def ARGS_def)
qed

text \<open>
  C37: As it compares with the array of the caller and not with the values read so far, \<^verbatim>\<open>parse_int_list\<close> loses a 1 that follows
  another number in a list of cores, and a number that is repeated more than 31 times is stored each time, beyond the end of the
  temporary array.
\<close>

theorem parse_repeated:
  assumes "2 \<le> v" "v \<le> 32"
  shows "parse_int_list (commas [decimal v, decimal 1]) (core_list ARGS) 1 (int MAX_CORES) =
      Inr (True, Some 1, int v # drop 1 (core_list ARGS)) \<and>
    parse_int_list (commas (replicate 33 (decimal v))) (core_list ARGS) 1 (int MAX_CORES) = Inl Out_of_bounds"
proof
  have L: "core_list ARGS = 1 # replicate 31 0" "length (core_list ARGS) = 32" by (simp_all add: ARGS_def MAX_CORES_def)
  have nl: "int v \<notin> set (take i (core_list ARGS))" for i using assms(1) L(1) in_set_takeD [of "int v" i "core_list ARGS"] by auto
  have m: "int MAX_CORES = 32" by (simp add: MAX_CORES_def)
  have "tokens CHR '','' [] (commas [decimal v, decimal 1]) = [decimal v, decimal 1]" by (rule tokens_commas) (use decimal_word in auto)
  moreover have "store_ints ([decimal v] @ [decimal 1]) (core_list ARGS) 1 32 [] = store_ints [decimal 1] (core_list ARGS) 1 32 [int v]"
    using store_numbers [of "[v]" 1 32 "[]" "core_list ARGS" "[decimal 1]"] nl assms L(2) by simp
  moreover have "store_ints [decimal 1] (core_list ARGS) 1 32 [int v] = Inr (Some [int v])"
    using decimal_word [of 1] by (simp add: strtol_decimal L(1) del: decimal.simps One_nat_def)
  ultimately show "parse_int_list (commas [decimal v, decimal 1]) (core_list ARGS) 1 (int MAX_CORES) =
      Inr (True, Some 1, int v # drop 1 (core_list ARGS))"
    by (simp add: parse_int_list_def m L(2))
  have "tokens CHR '','' [] (commas (replicate 33 (decimal v))) = replicate 33 (decimal v)"
    by (rule tokens_commas) (use decimal_word in auto)
  moreover have "replicate 33 (decimal v) = map decimal (replicate 32 v) @ [decimal v]"
    by (simp add: map_replicate replicate_append_same flip: replicate_Suc)
  moreover have "store_ints (map decimal (replicate 32 v) @ [decimal v]) (core_list ARGS) 1 32 [] =
      store_ints [decimal v] (core_list ARGS) 1 32 (map int (replicate 32 v))"
    using store_numbers [of "replicate 32 v" 1 32 "[]" "core_list ARGS" "[decimal v]"] nl assms L(2) by simp
  moreover have "store_ints [decimal v] (core_list ARGS) 1 32 (map int (replicate 32 v)) = Inl Out_of_bounds"
    by (subst store_number) (use nl [of 32] assms L(2) in simp_all)
  ultimately show "parse_int_list (commas (replicate 33 (decimal v))) (core_list ARGS) 1 (int MAX_CORES) = Inl Out_of_bounds"
    by (simp add: parse_int_list_def m)
qed

lemma parse_repeated_witness:
  "parse_int_list (commas [decimal 4, decimal 1]) (core_list ARGS) 1 (int MAX_CORES) = Inr (True, Some 1, 4 # drop 1 (core_list ARGS))"
  using parse_repeated [of 4] by simp

section \<open>Listing the tests\<close>

text \<open>How deep the listing of a test indents.\<close>

fun depth :: "Test \<Rightarrow> nat" and depth_of :: "Test list \<Rightarrow> nat" where
  "depth (Test n ds tm mt mc f) = Suc (case f of SUITE_FUNC ts \<Rightarrow> depth_of ts | _ \<Rightarrow> 0)"
| "depth_of [] = 0"
| "depth_of (t # ts) = max (depth t) (depth_of ts)"

definition same_indent :: "string \<times> messages \<Rightarrow> string \<times> messages \<Rightarrow> bool" where
  "same_indent w w' \<longleftrightarrow> INDENT_STACK (snd w') = INDENT_STACK (snd w) \<and> INDENT_POS (snd w') = INDENT_POS (snd w) \<and> (\<exists>x. fst w' = fst w @ x)"

lemma same_indent_refl [simp]: "same_indent w w"
  by (simp add: same_indent_def)

lemma same_indent_trans: "same_indent w1 w2 \<Longrightarrow> same_indent w2 w3 \<Longrightarrow> same_indent w1 w3"
  by (auto simp: same_indent_def)

lemma MSG_indent: "INDENT_STACK (snd (MSG s m)) = INDENT_STACK m \<and> INDENT_POS (snd (MSG s m)) = INDENT_POS m"
  by (induction s m rule: MSG.induct) (simp_all add: Let_def case_prod_beta)

lemma print_indent [simp]: "same_indent w (print s w)"
  by (simp add: same_indent_def print_def MSG_indent case_prod_beta)

text \<open>What is printed one step deeper.\<close>

lemma deeper:
  assumes "length (INDENT_STACK (snd w)) < INDENT_STACK_MAX"
    and "\<And>w2. length (INDENT_STACK (snd w2)) = Suc (length (INDENT_STACK (snd w))) \<Longrightarrow> \<exists>w3. f w2 = Inr w3 \<and> same_indent w2 w3"
  shows "\<exists>w'. bindE (indented INDENT w) (\<lambda>w2. bindE (f w2) (indented UNINDENT)) = Inr w' \<and> same_indent w w'"
proof -
  obtain o1 m where w: "w = (o1, m)" by (cases w)
  let ?w2 = "(o1, m\<lparr>INDENT_STACK := INDENT_POS m # INDENT_STACK m, INDENT_POS := INDENT_POS m + INDENT_STEP\<rparr>)"
  have i: "indented INDENT w = Inr ?w2" using assms(1) by (simp add: w indented_def INDENT_def)
  obtain out3 m3 where 3: "f ?w2 = Inr (out3, m3)" "same_indent ?w2 (out3, m3)" using assms(2) [of ?w2] by (auto simp: w)
  then have "indented UNINDENT (out3, m3) = Inr (out3, m3\<lparr>INDENT_STACK := INDENT_STACK m, INDENT_POS := INDENT_POS m\<rparr>)"
    by (simp add: indented_def UNINDENT_def same_indent_def)
  with i 3 show ?thesis by (simp add: w same_indent_def)
qed

lemma details_indent: "same_indent w (details vb ds tm mt mc w)"
proof -
  have "same_indent w (print z (print y (print x w)))" for x y z
    by (rule same_indent_trans [OF print_indent same_indent_trans [OF print_indent print_indent]])
  then show ?thesis unfolding details_def Let_def by simp
qed

lemma show_leaf:
  fixes w1 :: "string \<times> messages"
  assumes "same_indent w w1" and "length (INDENT_STACK (snd w)) < INDENT_STACK_MAX"
  shows "\<exists>w'. (if vb > 0 then bindE (indented INDENT w1) (\<lambda>w2. bindE (Inr (details vb ds tm mt mc w2)) (indented UNINDENT)) else Inr w1) =
    Inr w' \<and> same_indent w w'"
proof -
  have "\<exists>w'. bindE (indented INDENT w1) (\<lambda>w2. bindE (Inr (details vb ds tm mt mc w2)) (indented UNINDENT)) = Inr w' \<and> same_indent w1 w'"
    by (rule deeper) (use assms details_indent in \<open>simp_all add: same_indent_def\<close>)
  then obtain w' where w': "bindE (indented INDENT w1) (\<lambda>w2. bindE (Inr (details vb ds tm mt mc w2)) (indented UNINDENT)) = Inr w'" "same_indent w1 w'"
    by blast
  show ?thesis
  proof (cases "vb > 0")
    case True
    then show ?thesis using w' same_indent_trans [OF assms(1) w'(2)] by simp
  next
    case False
    then have "(if vb > 0 then bindE (indented INDENT w1) (\<lambda>w2. bindE (Inr (details vb ds tm mt mc w2)) (indented UNINDENT)) else Inr w1) = Inr w1"
      by simp
    with assms(1) show ?thesis by blast
  qed
qed

lemma show_test_ok:
  "length (INDENT_STACK (snd w)) + depth t \<le> INDENT_STACK_MAX \<Longrightarrow> \<exists>w'. show_test vb t w = Inr w' \<and> same_indent w w'"
  "length (INDENT_STACK (snd w)) + depth_of ts \<le> INDENT_STACK_MAX \<Longrightarrow> \<exists>w'. show_all vb ts w = Inr w' \<and> same_indent w w'"
proof (induction vb t w and vb ts w rule: show_test_show_all.induct)
  case (1 vb nm ds tm mt mc ts w)
  let ?w1 = "print (pad_right 40 (COLOR nm) @ line_end) w"
  have w1: "INDENT_STACK (snd ?w1) = INDENT_STACK (snd w)" using print_indent [of w] by (simp add: same_indent_def)
  have "\<exists>w'. bindE (indented INDENT ?w1) (\<lambda>w2. bindE (show_all vb ts (if vb \<noteq> 0 then print (ds @ line_end) w2 else w2)) (indented UNINDENT)) = Inr w' \<and>
     same_indent ?w1 w'"
  proof (rule deeper)
    fix w2 :: "string \<times> messages" assume l: "length (INDENT_STACK (snd w2)) = Suc (length (INDENT_STACK (snd ?w1)))"
    let ?w = "if vb \<noteq> 0 then print (ds @ line_end) w2 else w2"
    have s: "same_indent w2 ?w" by simp
    then have "length (INDENT_STACK (snd ?w)) + depth_of ts \<le> INDENT_STACK_MAX" using 1(2) l w1 by (simp add: same_indent_def)
    with 1(1) [of ?w1 w2] obtain w3 where "show_all vb ts ?w = Inr w3" "same_indent ?w w3" by auto
    with same_indent_trans [OF s] show "\<exists>w3. show_all vb ts ?w = Inr w3 \<and> same_indent w2 w3" by blast
  qed (use 1(2) w1 in simp)
  then show ?case using same_indent_trans [OF print_indent] by (fastforce simp: Let_def)
next
  case (4 vb t ts w)
  have "length (INDENT_STACK (snd w)) + depth t \<le> INDENT_STACK_MAX" using 4(3) by simp
  from 4(1) [OF this] obtain w2 where w2: "show_test vb t w = Inr w2" "same_indent w w2" by blast
  then have "length (INDENT_STACK (snd w2)) + depth_of ts \<le> INDENT_STACK_MAX" using 4(3) by (simp add: same_indent_def)
  from 4(2) [OF this] obtain w3 where w3: "show_all vb ts w2 = Inr w3" "same_indent w2 w3" by blast
  have "show_all vb (t # ts) w = Inr w3" using w2(1) w3(1) by simp
  with same_indent_trans [OF w2(2) w3(2)] show ?case by blast
qed (simp_all only: show_test.simps Let_def, use show_leaf [OF print_indent] in simp_all)

end
