(* ===== verification/ApiSuite.thy ===== *)
theory ApiSuite
  imports SocketTestsRun HarnessSpec
begin

text \<open>
  The tests of \<open>ApiTests\<close> run by the library of \<open>Harness\<close>: what a suite of them comes to on every machine on which the kernel has
  come up. The tests that start processes, measure time or need a user at a terminal are not among them.
\<close>

section \<open>The suites\<close>

text \<open>The function of a boot test on the kernel that a machine with so many cores and terminals has booted; it takes \<open>s\<close> seconds.\<close>

definition boot_run :: "test \<Rightarrow> (nat \<Rightarrow> nat \<Rightarrow> kernel) \<Rightarrow> nat \<Rightarrow> nat \<Rightarrow> nat \<Rightarrow> run" where
  "boot_run t booted s nc nt = (case t (booted nc nt) False of Inl e \<Rightarrow> (Undefined e, Some s) | Inr (_, ff) \<Rightarrow> (Ends ff, Some s))"

text \<open>A test with its name and its timeout. \<open>secs\<close> says how long the test of a name takes.\<close>

type_synonym timed_test = "string \<times> nat \<times> test"

definition boot_test :: "(nat \<Rightarrow> nat \<Rightarrow> kernel) \<Rightarrow> (string \<Rightarrow> nat) \<Rightarrow> timed_test \<Rightarrow> Test" where
  "boot_test booted secs = (\<lambda>(nm, tm, t). Test nm ''description'' tm 0 1 (BOOT_FUNC (boot_run t booted (secs nm))))"







section \<open>Running them\<close>

text \<open>
  A kernel that is ready for a test: process 1 runs on the cores \<open>C\<close> and has no stream, no port is in use, and the serial devices
  are the terminals of the machine.
\<close>

definition test_ready :: "nat set \<Rightarrow> kernel \<Rightarrow> bool" where
  "test_ready C k \<longleftrightarrow> bench C 1 Map.empty k \<and> pstate (PT k 1) \<noteq> FREE \<and> PortMap k = Map.empty \<and> terminals_ok k"


lemma passes_boot_run: "passes t (booted nc nt) \<Longrightarrow> boot_run t booted s nc nt = (Ends False, Some s)"
  by (auto simp: holds_def boot_run_def)

lemma faults_boot_run: "faults e t (booted nc nt) \<Longrightarrow> boot_run t booted s nc nt = (Undefined e, Some s)"
  by (auto simp: holds_def boot_run_def)

lemmas boot_run_defs = run_boot_test_def Let_def boot_test_def execute_boot_def execute_def execute_fork_def execute_nofork_def child_status_def











lemma test_readyD:
  assumes "test_ready C k"
  shows "bench C 1 Map.empty k" "pstate (PT k 1) \<noteq> FREE" "PortMap k = Map.empty" "terminals_ok k"
  using assms by (simp_all add: test_ready_def)





text \<open>
  C36: \<^verbatim>\<open>test_pipe_close_reader\<close>, and \<^verbatim>\<open>test_accept_unblocks_on_close\<close> when the thread waits in \<^verbatim>\<open>Accept\<close> before the listener is
  closed, use a block that the kernel has freed: the pipe in the writes after the reader has closed it, and the listener in the
  \<^verbatim>\<open>Accept\<close> that is woken. Nothing follows from the code for their outcome. If \<^verbatim>\<open>Accept\<close> comes after the close, the test succeeds.
\<close>

theorem tests_use_freed_blocks:
  assumes "test_ready C (booted nc nt)" and "s \<le> DEFAULT_TIMEOUT" and "c \<in> C" "ca \<in> C" and "1 \<le> nc"
  shows "run_boot_test fk (BOOT_TEST nm ds (boot_run (test_pipe_close_reader c) booted s)) nc nt = Inl Use_after_free \<and>
    run_boot_test fk (BOOT_TEST nm ds (boot_run (test_accept_unblocks_on_close c ca True) booted s)) nc nt = Inl Use_after_free \<and>
    run_boot_test fk (BOOT_TEST nm ds (boot_run (test_accept_unblocks_on_close c ca False) booted s)) nc nt = Inr True"
proof -
  note R = test_readyD [OF assms(1)]
  have f: "run_boot_test fk (BOOT_TEST nm ds (boot_run t booted s)) nc nt = Inl Use_after_free" if "faults Use_after_free t (booted nc nt)" for t
    using faults_boot_run [of Use_after_free t booted nc nt s, OF that] assms(2,5) by (simp add: BOOT_TEST_def boot_run_defs)
  have p: "run_boot_test fk (BOOT_TEST nm ds (boot_run t booted s)) nc nt = Inr True" if "passes t (booted nc nt)" for t
    using passes_boot_run [of t booted nc nt s, OF that] assms(2) by (simp add: BOOT_TEST_def boot_run_defs)
  show ?thesis
    using f [OF pipe_close_reader [OF R(1) assms(3)]] f [OF accept_unblocks_on_close(2) [OF R(1) assms(3,4) R(3)]]
      p [OF accept_unblocks_on_close(1) [OF R(1) assms(3,4) R(3)]] by simp
qed

section \<open>An example\<close>

text \<open>A kernel on which process 1 runs on core 0.\<close>

definition test_kernel :: kernel where
  "test_kernel = initialize_files (example_kernel\<lparr>PT := (\<lambda>p. if p = 1 then example_pcb\<lparr>pstate := ALIVE\<rparr> else example_pcb),
     devnum := (\<lambda>_. Suc 0)(DEV_SERIAL := nterm (vm example_sched)),
     cc := example_cc\<lparr>sch := upd_tcb (Thr 4) (\<lambda>t. t\<lparr>owner_pcb := Some 1\<rparr>) example_sched\<rparr>\<rparr>)"

lemma test_kernel_ready: "test_ready {0} test_kernel"
proof -
  have inv: "files_inv (\<lambda>_. 0) test_kernel"
    unfolding test_kernel_def by (rule initialize_files_inv) (simp add: example_pcb_def)
  have cp: "CURPROC 0 test_kernel = Inr 1"
    by (simp add: CURPROC_def tcb_of_def CURTHREAD_def test_kernel_def initialize_files_def)
  have cc: "cc_inv (cc test_kernel)" using example_cc_owner_inv [of 1] by (simp add: test_kernel_def initialize_files_def)
  have "runs {0} 1 (cc test_kernel) test_kernel" using cp cc by (simp add: runs_def)
  then have st: "settled {0} 1 test_kernel"
    by (simp add: settled_def) (simp add: test_kernel_def initialize_files_def example_kernel_def fresh_above_def)
  have none: "fds test_kernel 1 i = None" for i
    by (simp add: fds_def test_kernel_def initialize_files_def example_pcb_def)
  have "card {i. i < MAX_FILEID} \<le> length (FCB_freelist test_kernel)"
    by (simp add: test_kernel_def initialize_files_def MAX_FILEID_def MAX_FILES_def MAX_PROC_def)
  then have "bench {0} 1 Map.empty test_kernel"
    using inv st none by (simp add: bench_def slot_def MAX_PROC_def)
  then show ?thesis
    by (simp add: test_ready_def terminals_ok_def)
      (simp add: test_kernel_def initialize_files_def example_kernel_def example_sched_def example_vm_def upd_tcb_def Bios.MAX_TERMINALS_def)
qed





lemma tests_use_freed_blocks_witness:
  "run_boot_test True (BOOT_TEST ''t'' ''d'' (boot_run (test_pipe_close_reader 0) (\<lambda>_ _. test_kernel) 1)) 1 0 = Inl Use_after_free"
  using tests_use_freed_blocks [of "{0}" "\<lambda>_ _. test_kernel" 1 0 1 0 0 True "''t''" "''d''"] test_kernel_ready
  by (simp add: DEFAULT_TIMEOUT_def)

end
