(* ===== verification/ExcBlocks.thy ===== *)
theory ExcBlocks
  imports Exceptions
begin

text \<open>
  Functions with \<^verbatim>\<open>TRY_WITH\<close> blocks, run on the exception library. The library jumps: \<^verbatim>\<open>raise_exception\<close> abandons whatever runs,
  and the loop of \<^verbatim>\<open>exception_unwind\<close> decides after which \<^verbatim>\<open>TRY\<close> the program goes on. The second section gives the
  blocks the meaning that a language with exceptions gives them, by recursion on the program and with neither jumps nor a stack of
  frames, and the third shows that the two agree.
\<close>

section \<open>Blocks on the exception library\<close>

type_synonym 's handler = "int \<Rightarrow> 's \<Rightarrow> 's \<times> bool"

text \<open>
  Code without exceptions is an update of the state; it sees whether the context is \<^verbatim>\<open>NULL\<close>. A call is the list of the statements
  of the function.
\<close>

datatype 's stmt =
    Act "bool \<Rightarrow> 's \<Rightarrow> 's"
  | Raise
  | Finally "'s handler"
  | On_error "'s handler"
  | Cond "'s \<Rightarrow> bool" "'s stmt list" "'s stmt list"
  | Try_with "'s stmt list"

definition run_handler :: "('s handler, 's) exec" where
  "run_handler h = h"

text \<open>
  \<open>run_stmt\<close> gives the state, the context and whether control is after the statement. If not, a jump has ended a block around it:
  control is after the \<^verbatim>\<open>TRY\<close> block whose frame lay just above the frames that are left. So a jump out of the body of a block, or out of its
  finalizers, goes on after this block if the frames left are those of its start, and leaves the enclosing block too if they are fewer.
\<close>

fun run_stmt :: "'s stmt \<Rightarrow> 's handler exc_context \<Rightarrow> 's \<Rightarrow> (bool \<times> 's handler exc_context \<times> 's) res"
  and run_stmts :: "'s stmt list \<Rightarrow> 's handler exc_context \<Rightarrow> 's \<Rightarrow> (bool \<times> 's handler exc_context \<times> 's) res" where
  "run_stmt (Act g) ctx s = Inr (True, ctx, g (ctx \<noteq> []) s)"
| "run_stmt Raise ctx s = bindE (raise_exception run_handler ctx s) (\<lambda>r. case r of
     None \<Rightarrow> Inr (True, ctx, s)
   | Some (s1, ctx1) \<Rightarrow> Inr (False, ctx1, s1))"
| "run_stmt (Finally h) ctx s = bindE (finally_block h ctx) (\<lambda>ctx1. Inr (True, ctx1, s))"
| "run_stmt (On_error h) ctx s = bindE (on_error_block h ctx) (\<lambda>ctx1. Inr (True, ctx1, s))"
| "run_stmt (Cond b p q) ctx s = run_stmts (if b s then p else q) ctx s"
| "run_stmt (Try_with body) ctx s =
     bindE (run_stmts body (exc_push_frame ctx) s) (\<lambda>(through, ctx1, s1).
     bindE (if through then exc_exit_try run_handler ctx1 s1 else Inr (s1, ctx1)) (\<lambda>(s2, ctx2).
     Inr (length ctx2 = length ctx, ctx2, s2)))"
| "run_stmts [] ctx s = Inr (True, ctx, s)"
| "run_stmts (p # ps) ctx s =
     bindE (run_stmt p ctx s) (\<lambda>(through, ctx1, s1).
     if through then run_stmts ps ctx1 s1 else Inr (False, ctx1, s1))"

section \<open>Structured exceptions\<close>

text \<open>
  The state of the handlers of a block: the error code, and whether a catcher has dealt with the error. A handler that raises makes a new
  error; the handlers after it run nevertheless.
\<close>

fun catching :: "'s handler list \<Rightarrow> 's \<times> int \<times> bool \<Rightarrow> 's \<times> int \<times> bool" where
  "catching [] r = r"
| "catching (h # hs) (s, e, captured) =
     (case h e s of (s1, raised) \<Rightarrow> catching hs (if raised then (s1, 1, False) else (s1, e, True)))"

fun finishing :: "'s handler list \<Rightarrow> 's \<times> int \<times> bool \<Rightarrow> 's \<times> int \<times> bool" where
  "finishing [] r = r"
| "finishing (h # hs) (s, e, captured) =
     (case h e s of (s1, raised) \<Rightarrow> finishing hs (if raised then (s1, 1, False) else (s1, e, captured)))"

definition leave :: "'s handler list \<Rightarrow> 's handler list \<Rightarrow> int \<Rightarrow> bool \<Rightarrow> 's \<Rightarrow> bool \<times> 's" where
  "leave cs fs e captured s =
     (case finishing fs (catching cs (s, e, captured)) of (s1, e1, captured1) \<Rightarrow> (e1 \<noteq> 0 \<and> \<not> captured1, s1))"

text \<open>
  The meaning of a statement inside a block: whether it raises, the state, and the handlers of the block. The meaning \<open>attempt\<close> of a whole block is
  the state after it and whether an error leaves it.
\<close>

fun obey :: "'s stmt \<Rightarrow> 's \<times> 's handler list \<times> 's handler list \<Rightarrow> bool \<times> 's \<times> 's handler list \<times> 's handler list"
  and obeys :: "'s stmt list \<Rightarrow> 's \<times> 's handler list \<times> 's handler list \<Rightarrow> bool \<times> 's \<times> 's handler list \<times> 's handler list" where
  "obey (Act g) (s, cs, fs) = (False, g True s, cs, fs)"
| "obey Raise (s, cs, fs) = (True, s, cs, fs)"
| "obey (Finally h) (s, cs, fs) = (False, s, cs, h # fs)"
| "obey (On_error h) (s, cs, fs) = (False, s, h # cs, fs)"
| "obey (Cond b p q) (s, cs, fs) = obeys (if b s then p else q) (s, cs, fs)"
| "obey (Try_with body) (s, cs, fs) =
     (case obeys body (s, [], []) of (raised, s1, cs1, fs1) \<Rightarrow>
      case (if raised then leave cs1 fs1 1 False s1 else leave [] fs1 0 False s1) of (escapes, s2) \<Rightarrow>
      (escapes, s2, cs, fs))"
| "obeys [] x = (False, x)"
| "obeys (p # ps) x = (case obey p x of (raised, y) \<Rightarrow> if raised then (True, y) else obeys ps y)"

definition attempt :: "'s stmt list \<Rightarrow> 's \<Rightarrow> bool \<times> 's" where
  "attempt body s = (case obey (Try_with body) (s, [], []) of (escapes, s1, _) \<Rightarrow> (escapes, s1))"

section \<open>The two agree\<close>

abbreviation frame :: "'h list \<Rightarrow> 'h list \<Rightarrow> 'h exc_frame" where
  "frame cs fs \<equiv> \<lparr>catchers = cs, finalizers = fs\<rparr>"

text \<open>An error in a context runs the handlers of the top frame, and may leave it for the next.\<close>

definition throw :: "'s handler exc_context \<Rightarrow> 's \<Rightarrow> 's \<times> 's handler exc_context" where
  "throw ctx s = (case ctx of [] \<Rightarrow> (s, []) | f # fs \<Rightarrow> unwind run_handler f fs 1 False s)"

lemma unwind_end:
  assumes "catchers f = []" "finalizers f = []"
  shows "unwind run_handler f fs e captured s = (if e \<noteq> 0 \<and> \<not> captured then throw fs s else (s, fs))"
  by (subst unwind.simps) (simp add: assms throw_def split: list.split)

lemma unwind_leave:
  "unwind run_handler f fs e captured s =
     (case leave (catchers f) (finalizers f) e captured s of (escapes, s1) \<Rightarrow>
        if escapes then throw fs s1 else (s1, fs))"
proof (induction "length (catchers f) + length (finalizers f)" arbitrary: f e captured s)
  case 0
  then show ?case
    by (simp add: leave_def unwind_end)
next
  case (Suc n)
  show ?case
  proof (cases "catchers f")
    case (Cons c cs)
    with Suc(2) have IH: "unwind run_handler (f\<lparr>catchers := cs\<rparr>) fs e captured s =
       (case leave cs (finalizers f) e captured s of (escapes, s1) \<Rightarrow>
          if escapes then throw fs s1 else (s1, fs))" for e captured s
      by (subst Suc(1)) simp_all
    obtain s1 raised where h: "c e s = (s1, raised)" by fastforce
    show ?thesis
      by (subst unwind.simps) (simp add: Cons h IH leave_def run_handler_def [of c])
  next
    case Nil
    with Suc(2) obtain c cs where fin: "finalizers f = c # cs" by (cases "finalizers f") auto
    with Suc(2) Nil have IH: "unwind run_handler (f\<lparr>finalizers := cs\<rparr>) fs e captured s =
       (case leave [] cs e captured s of (escapes, s1) \<Rightarrow>
          if escapes then throw fs s1 else (s1, fs))" for e captured s
      by (subst Suc(1)) simp_all
    obtain s1 raised where h: "c e s = (s1, raised)" by fastforce
    show ?thesis
      by (subst unwind.simps) (simp add: Nil fin h IH leave_def run_handler_def [of c])
  qed
qed

lemma throw_depth: "length (snd (throw ctx s)) \<le> length ctx - 1"
proof (induction ctx arbitrary: s)
  case (Cons f fs)
  obtain escapes s1 where l: "leave (catchers f) (finalizers f) 1 False s = (escapes, s1)" by fastforce
  show ?case
    using Cons [of s1] by (cases escapes) (simp_all add: throw_def [of "f # fs"] unwind_leave l)
qed (simp add: throw_def)

text \<open>What a statement that means \<open>r\<close> does in a context with top frame above \<open>fs\<close>.\<close>

definition ends :: "'s handler exc_context \<Rightarrow> bool \<times> 's \<times> 's handler list \<times> 's handler list \<Rightarrow>
    bool \<times> 's handler exc_context \<times> 's" where
  "ends fs r = (case r of (raised, s, cs, fn) \<Rightarrow>
     if raised then (case throw (frame cs fn # fs) s of (s1, ctx1) \<Rightarrow> (False, ctx1, s1))
     else (True, frame cs fn # fs, s))"

lemma run_obey:
  "run_stmt p (frame (fst (snd x)) (snd (snd x)) # fs) (fst x) = Inr (ends fs (obey p x))"
  "run_stmts ps (frame (fst (snd x)) (snd (snd x)) # fs) (fst x) = Inr (ends fs (obeys ps x))"
proof (induction p x and ps x arbitrary: fs and fs rule: obey_obeys.induct)
  case (6 body s cs fn)
  obtain raised s1 cs1 fn1 where r: "obeys body (s, [], []) = (raised, s1, cs1, fn1)" by (metis surj_pair)
  have IH: "run_stmts body (frame [] [] # frame cs fn # fs) s = Inr (ends (frame cs fn # fs) (raised, s1, cs1, fn1))"
    using 6 [of "frame cs fn # fs"] r by simp
  obtain escapes s2 where l: "(if raised then leave cs1 fn1 1 False s1 else leave [] fn1 0 False s1) = (escapes, s2)"
    by fastforce
  obtain s3 ctx3 where t: "throw (frame cs fn # fs) s2 = (s3, ctx3)" by fastforce
  have "length ctx3 < length (frame cs fn # fs)"
    using throw_depth [of "frame cs fn # fs" s2] t by simp
  then show ?case
    using l t by (cases raised; cases escapes)
      (simp_all add: IH exc_push_frame_def ends_def throw_def [of "frame cs1 fn1 # _"] unwind_leave
        exc_exit_try_def exception_unwind_def r)
qed (auto simp: ends_def raise_exception_def exc_try_def exception_unwind_def throw_def finally_block_def
       on_error_block_def split: prod.split)

text \<open>
  An error that leaves a block while there are frames below it runs their handlers, one frame after the other, until some catcher has dealt
  with it. Without a frame left it is dropped.
\<close>

fun propagate :: "'s handler exc_context \<Rightarrow> 's \<Rightarrow> 's \<times> 's handler exc_context" where
  "propagate [] s = (s, [])"
| "propagate (f # fs) s = (case leave (catchers f) (finalizers f) 1 False s of (escapes, s1) \<Rightarrow>
     if escapes then propagate fs s1 else (s1, fs))"

lemma throw_propagate: "throw ctx s = propagate ctx s"
  by (induction ctx arbitrary: s) (simp_all add: throw_def unwind_leave split: list.split prod.split)

lemma obey_try: "obey (Try_with body) (s, cs, fs) = (case attempt body s of (escapes, s1) \<Rightarrow> (escapes, s1, cs, fs))"
  by (simp add: attempt_def split: prod.split)

lemma run_try:
  "run_stmt (Try_with body) ctx s =
     Inr (case attempt body s of (escapes, s1) \<Rightarrow>
        if escapes \<and> ctx \<noteq> [] then (case propagate ctx s1 of (s2, ctx2) \<Rightarrow> (False, ctx2, s2))
        else (True, ctx, s1))"
proof (cases ctx)
  case (Cons f fs)
  obtain cs fn where f: "f = frame cs fn" by (cases f) simp
  obtain escapes s1 where a: "attempt body s = (escapes, s1)" by fastforce
  have "run_stmt (Try_with body) (frame cs fn # fs) s = Inr (ends fs (obey (Try_with body) (s, cs, fn)))"
    using run_obey(1) [of "Try_with body" "(s, cs, fn)" fs] by simp
  then show ?thesis
    by (cases escapes) (simp_all add: Cons f obey_try a ends_def throw_propagate del: run_stmt.simps obey.simps)
next
  case Nil
  obtain raised s1 cs1 fn1 where r: "obeys body (s, [], []) = (raised, s1, cs1, fn1)" by (metis surj_pair)
  have IH: "run_stmts body [frame [] []] s = Inr (ends [] (raised, s1, cs1, fn1))"
    using run_obey(2) [of body "(s, [], [])" "[]"] r by simp
  obtain escapes s2 where l: "(if raised then leave cs1 fn1 1 False s1 else leave [] fn1 0 False s1) = (escapes, s2)"
    by fastforce
  then show ?thesis
    by (cases raised; cases escapes)
      (simp_all add: Nil IH exc_push_frame_def ends_def throw_propagate attempt_def unwind_leave
        exc_exit_try_def exception_unwind_def r)
qed

section \<open>Functions that start without a context\<close>

text \<open>A handler may be set up inside a block only, since it names the frame of the block.\<close>

fun scoped :: "'s stmt \<Rightarrow> bool" where
  "scoped (Finally h) = False"
| "scoped (On_error h) = False"
| "scoped (Cond b p q) = ((\<forall>x \<in> set p. scoped x) \<and> (\<forall>x \<in> set q. scoped x))"
| "scoped _ = True"

fun alone :: "'s stmt \<Rightarrow> 's \<Rightarrow> 's"
  and alones :: "'s stmt list \<Rightarrow> 's \<Rightarrow> 's" where
  "alone (Act g) s = g False s"
| "alone (Cond b p q) s = alones (if b s then p else q) s"
| "alone (Try_with body) s = snd (attempt body s)"
| "alone _ s = s"
| "alones [] s = s"
| "alones (p # ps) s = alones ps (alone p s)"

lemma run_alone:
  "scoped p \<Longrightarrow> run_stmt p [] s = Inr (True, [], alone p s)"
  "\<forall>x \<in> set ps. scoped x \<Longrightarrow> run_stmts ps [] s = Inr (True, [], alones ps s)"
proof (induction p s and ps s rule: alone_alones.induct)
  case (3 body s)
  then show ?case by (simp add: run_try del: run_stmt.simps split: prod.split)
qed (simp_all add: raise_exception_def)

section \<open>Properties of the blocks\<close>

text \<open>
  C32: the blocks of \<^verbatim>\<open>setjmp\<close> and \<^verbatim>\<open>longjmp\<close> are structured exceptions. Whatever a block holds, blocks and calls that raise, handlers
  that raise, and in whatever context it starts, the library ends it with the state that \<open>attempt\<close> gives it by recursion on its text. If no error leaves the block,
  control is after it and the frames of the context are untouched; otherwise the error goes through the frames around it until one catches it, and is
  dropped where there is none.
\<close>

theorem blocks_are_structured:
  "run_stmt (Try_with body) ctx s =
     Inr (case attempt body s of (escapes, s1) \<Rightarrow>
        if escapes \<and> ctx \<noteq> [] then (case propagate ctx s1 of (s2, ctx2) \<Rightarrow> (False, ctx2, s2))
        else (True, ctx, s1))"
  by (rule run_try)

end
