(* ===== verification/UtilTests.thy ===== *)
theory UtilTests
  imports RList Argv ExcBlocks
begin

text \<open>
  The tests of \<^verbatim>\<open>src/test_util.c\<close> for the library of \<^verbatim>\<open>src/util.h\<close>: the resource lists, the argument vectors and the exceptions. They
  run on memory of any content, and the last section shows which of them pass. \<open>failed\<close> is the variable \<^verbatim>\<open>FLAG_FAILURE\<close>: an assertion that
  fails sets it, and the test goes on.
\<close>

section \<open>Tests of lists\<close>

text \<open>
  Nodes are addresses, and the next element of an array of nodes is the next address. The key of a node holds a number or a pointer, which is
  a number too; \<^verbatim>\<open>NULL\<close> is 0. \<open>fresh\<close> is the node that \<^verbatim>\<open>malloc\<close> gives next. A test is \<open>None\<close> if one of its loops does not end.
\<close>

record nodes =
  links :: "nat rheap"
  num :: "nat \<Rightarrow> int"
  fresh :: nat
  failed :: bool

type_synonym list_test = "nodes \<Rightarrow> nodes option"

definition expect_that :: "(nodes \<Rightarrow> bool option) \<Rightarrow> list_test" where
  "expect_that f s = map_option (\<lambda>b. s\<lparr>failed := failed s \<or> \<not> b\<rparr>) (f s)"

definition expect_now :: "(nodes \<Rightarrow> bool) \<Rightarrow> list_test" where
  "expect_now f = expect_that (\<lambda>s. Some (f s))"

definition change :: "(nat rheap \<Rightarrow> nat rheap) \<Rightarrow> list_test" where
  "change f s = Some (s\<lparr>links := f (links s)\<rparr>)"

definition change_all :: "(nodes \<Rightarrow> nat rheap option) \<Rightarrow> list_test" where
  "change_all f s = map_option (\<lambda>h. s\<lparr>links := h\<rparr>) (f s)"

definition set_num :: "nat \<Rightarrow> int \<Rightarrow> list_test" where
  "set_num p v s = Some (s\<lparr>num := (num s)(p := v)\<rparr>)"

definition init_node :: "nat \<Rightarrow> int \<Rightarrow> list_test" where
  "init_node p ptr s = (let (h, k) = rlnode_init p ptr (num s) (links s) in Some (s\<lparr>links := h, num := k\<rparr>))"

fun steps :: "list_test list \<Rightarrow> list_test" where
  "steps [] s = Some s"
| "steps (f # fs) s = Option.bind (f s) (steps fs)"

definition for_each :: "'a list \<Rightarrow> ('a \<Rightarrow> list_test) \<Rightarrow> list_test" where
  "for_each xs body = steps (map body xs)"

abbreviation has_len :: "nat \<Rightarrow> nat \<Rightarrow> list_test" where
  "has_len l n \<equiv> expect_that (\<lambda>s. map_option (\<lambda>x. x = of_nat n) (rlist_len l (links s)))"

abbreviation is_empty :: "nat \<Rightarrow> list_test" where
  "is_empty l \<equiv> expect_now (\<lambda>s. is_rlist_empty l (links s))"

abbreviation is_nonempty :: "nat \<Rightarrow> list_test" where
  "is_nonempty l \<equiv> expect_now (\<lambda>s. \<not> is_rlist_empty l (links s))"

text \<open>A string is the list of its characters; a \<^verbatim>\<open>char\<close> is a signed byte.\<close>

definition char_num :: "char \<Rightarrow> int" where
  "char_num d = (let n = of_char d in if n < 128 then n else n - 256)"

definition push_char :: "nat \<Rightarrow> char \<Rightarrow> list_test" where
  "push_char l d s = (let node = fresh s in
     steps [change (rlnode_new node), set_num node (char_num d), change (rlist_push_back l node)] (s\<lparr>fresh := Suc node\<rparr>))"

definition make_list :: "nat \<Rightarrow> string \<Rightarrow> list_test" where
  "make_list l data = steps [init_node l 0, for_each data (push_char l), has_len l (length data)]"

definition Data :: "string list" where
  "Data = [[], ''H'', ''Ha'', ''a'', ''asdas'']"

definition test_list_init :: "nat \<Rightarrow> nat \<Rightarrow> nat \<Rightarrow> nat \<Rightarrow> list_test" where
  "test_list_init L n1 n2 R = steps
     [init_node L 0,
      expect_now (\<lambda>s. num s L = 0),
      expect_now (\<lambda>s. prv (links s) L = nxt (links s) L),
      expect_now (\<lambda>s. prv (links s) L = L),
      init_node n1 (int L),
      change (rlnode_new n2), set_num n2 5,
      expect_now (\<lambda>s. num s n2 = 5),
      change (\<lambda>h. h(PrevOf R := R, NextOf R := R)), set_num R 0,
      is_empty R, is_empty L, is_empty n1, is_empty n2,
      change (rl_splice n1 n2),
      is_nonempty n1, is_nonempty n2,
      expect_now (\<lambda>s. nxt (links s) n1 = n2),
      expect_now (\<lambda>s. nxt (links s) n2 = n1),
      expect_now (\<lambda>s. prv (links s) n1 = n2),
      expect_now (\<lambda>s. prv (links s) n2 = n1),
      has_len n1 1,
      change (rl_splice n1 n2),
      is_empty n1, is_empty n2, has_len n1 0]"

text \<open>The length of the list is read into the \<^verbatim>\<open>int\<close> \<^verbatim>\<open>l\<close>; it is compared with a \<^verbatim>\<open>size_t\<close> again.\<close>

definition remove_one :: "nat \<Rightarrow> nat \<Rightarrow> list_test" where
  "remove_one l p s = Option.bind (rlist_len l (links s)) (\<lambda>len.
     steps [change (\<lambda>h. snd (rlist_remove p h)),
            expect_that (\<lambda>s. map_option (\<lambda>x. x = len - 1) (rlist_len l (links s)))] s)"

definition test_list_len :: "nat \<Rightarrow> nat \<Rightarrow> list_test" where
  "test_list_len L n = steps
     [change (rlnode_new L),
      for_each [0..<10] (\<lambda>i. steps
        [has_len L i, change (rlnode_new (n + i)), set_num (n + i) (int i), change (rlist_push_back L (n + i)), has_len L (i + 1)]),
      has_len L 10,
      for_each [0, 2, 4, 6, 8] (\<lambda>i. remove_one L (n + i)),
      for_each [1, 3, 5, 7, 9] (\<lambda>i. remove_one L (n + i)),
      for_each Data (\<lambda>data. steps [make_list L data, has_len L (length data)])]"

text \<open>The loop that empties the list; it also leaves the pointer \<^verbatim>\<open>I\<close>, which is not read after it.\<close>

partial_function (option) drain_queue :: "nat \<Rightarrow> nat \<Rightarrow> nodes \<Rightarrow> nodes option" where
  "drain_queue L p s =
     (if is_rlist_empty L (links s) then Some s
      else drain_queue L (Suc p) (case rlist_pop_back L (links s) of (q, h) \<Rightarrow> s\<lparr>links := h, failed := failed s \<or> p \<noteq> q\<rparr>))"

fun back_along :: "nat \<Rightarrow> nat list \<Rightarrow> nodes \<Rightarrow> nodes" where
  "back_along I [] s = s"
| "back_along I (p # ps) s = back_along (prv (links s) I) ps (s\<lparr>failed := failed s \<or> I \<noteq> p\<rparr>)"

definition pop_empty :: "nat \<Rightarrow> list_test" where
  "pop_empty L s = (case rlist_pop_back L (links s) of (I, h) \<Rightarrow> Some (s\<lparr>links := h, failed := failed s \<or> I \<noteq> L\<rparr>))"

definition test_list_queue :: "nat \<Rightarrow> nat \<Rightarrow> list_test" where
  "test_list_queue L n = steps
     [change (rlnode_new L),
      for_each [0..<10] (\<lambda>i. steps [change (rlnode_new (n + i)), change (rlist_push_front L (n + i))]),
      (\<lambda>s. Some (back_along (prv (links s) L) (map (\<lambda>i. n + i) [0..<10]) s)),
      drain_queue L n,
      is_empty L,
      pop_empty L,
      is_empty L]"

definition build_list :: "nat \<Rightarrow> nat \<Rightarrow> nat \<Rightarrow> int \<Rightarrow> int \<Rightarrow> list_test" where
  "build_list L p q key esize =
     for_each [0..<q - p] (\<lambda>i. steps [init_node (p + i) (key + int i * esize), change (rlist_push_back L (p + i))])"

text \<open>The array of \<^verbatim>\<open>short int\<close>s at address \<open>a\<close>.\<close>

definition shorts :: "int list" where
  "shorts = [4, 2, 5, 7, 8, 3, 2, 9, 3]"

definition short_at :: "int \<Rightarrow> int \<Rightarrow> int" where
  "short_at a p = shorts ! nat ((p - a) div 2)"

definition gt5 :: "int \<Rightarrow> nodes \<Rightarrow> nat \<Rightarrow> bool" where
  "gt5 a s p \<longleftrightarrow> 5 \<le> short_at a (num s p)"

partial_function (option) keys_in_order :: "nat \<Rightarrow> int \<Rightarrow> nat \<Rightarrow> nodes \<Rightarrow> nodes option" where
  "keys_in_order L key p s =
     (if p \<noteq> L then keys_in_order L (key + 2) (nxt (links s) p) (s\<lparr>failed := failed s \<or> num s p \<noteq> key\<rparr>)
      else Some s)"

definition test_list_select :: "nat \<Rightarrow> nat \<Rightarrow> nat \<Rightarrow> int \<Rightarrow> list_test" where
  "test_list_select L Q nds a = steps
     [change (rlnode_new L),
      has_len L 0,
      build_list L nds (nds + 9) a 2,
      has_len L 9,
      (\<lambda>s. keys_in_order L a (nxt (links s) L) s),
      change (rlnode_new Q),
      change_all (\<lambda>s. rlist_select L Q (gt5 a s) (links s)),
      has_len Q 4,
      has_len L 5]"

definition test_list_equal :: "nat \<Rightarrow> nat \<Rightarrow> list_test" where
  "test_list_equal L1 L2 =
     for_each [0..<5] (\<lambda>i. for_each [0..<5] (\<lambda>j. steps
       [make_list L1 (Data ! i), make_list L2 (Data ! j),
        expect_that (\<lambda>s. map_option (\<lambda>b. b \<longleftrightarrow> i = j) (rlist_equal L1 L2 (num s) (links s)))]))"

definition test_list_prepend :: "nat \<Rightarrow> nat \<Rightarrow> nat \<Rightarrow> nat \<Rightarrow> nat \<Rightarrow> int \<Rightarrow> list_test" where
  "test_list_prepend Ld Ls Le La nds a = steps
     [init_node Ld 0, init_node Ls 0, init_node Le 0, init_node La 0,
      build_list Ld nds (nds + 5) a 2,
      build_list Ls (nds + 5) (nds + 9) (a + 2 * 5) 2,
      build_list La (nds + 9) (nds + 18) a 2,
      change (rlist_prepend Ls Le), is_empty Le,
      change (rlist_prepend Le Ls), is_empty Ls,
      change (rlist_prepend Le Ld), is_empty Ld,
      has_len Le 9,
      expect_that (\<lambda>s. rlist_equal Le La (num s) (links s))]"

definition test_list_append :: "nat \<Rightarrow> nat \<Rightarrow> nat \<Rightarrow> list_test" where
  "test_list_append L1 L2 L3 = steps
     [make_list L1 ''Hello '', make_list L2 ''world'', init_node L3 0,
      change (rlist_append L3 L1),
      change (rlist_append L3 L2),
      make_list L1 ''Hello world'',
      expect_that (\<lambda>s. rlist_equal L3 L1 (num s) (links s))]"

section \<open>Tests of argument vectors\<close>

text \<open>
  The result of \<^verbatim>\<open>argvlen\<close> is converted to \<^verbatim>\<open>int\<close>, and so is that of \<^verbatim>\<open>argvpack\<close>. The automatic array \<^verbatim>\<open>args\<close> starts out indeterminate (\<open>junk\<close>). The result is
  the variable \<^verbatim>\<open>FLAG_FAILURE\<close>.
\<close>

definition test_argv :: "(nat \<Rightarrow> byte list) \<Rightarrow> nat \<Rightarrow> byte list list \<Rightarrow> bool \<Rightarrow> bool res" where
  "test_argv junk argc argv flag =
     bindE (argvlen argc argv) (\<lambda>n.
     let l = sint (ucast n :: 32 word) in
     if l < 0 then Inl Out_of_bounds
     else bindE (argvpack (junk (nat l)) argc argv) (\<lambda>(args, packs).
     let argl = sint (ucast packs :: 32 word) in
     bindE (argscount argl args) (\<lambda>count.
     bindE (argvunpack argc args) (\<lambda>(uargv, _).
     Inr (flag \<or> argl \<noteq> l \<or> count \<noteq> argc \<or>
          (\<exists>i \<in> set [0..<argc]. cstring (argv ! i) \<noteq> cstring (drop (uargv ! i) args)))))))"

definition c_string :: "string \<Rightarrow> byte list" where
  "c_string s = map of_char s @ [0]"

definition test_vector :: "(nat \<Rightarrow> byte list) \<Rightarrow> string list \<Rightarrow> nat \<Rightarrow> bool \<Rightarrow> bool res" where
  "test_vector junk strings len flag =
     (let Aargv = map c_string strings; argc = length strings
      in bindE (argvlen argc Aargv) (\<lambda>l. test_argv junk argc Aargv (flag \<or> l \<noteq> of_nat len)))"

definition test_pack_unpack :: "(nat \<Rightarrow> byte list) \<Rightarrow> bool \<Rightarrow> bool res" where
  "test_pack_unpack junk flag =
     bindE (test_vector junk [''Hello'', ''Goodbye''] 14 flag) (\<lambda>flag.
     bindE (test_vector junk [] 0 flag) (\<lambda>flag.
     bindE (test_vector junk [''Goodbye''] 8 flag) (\<lambda>flag.
     bindE (test_vector junk [[], []] 2 flag) (\<lambda>flag.
     test_vector junk [[]] 1 flag))))"

section \<open>Tests of exceptions\<close>

text \<open>
  The variables of the tests. A call of a function is the list of its statements; the body of a handler is given as what it does, a block inside
  it as its meaning.
\<close>

record counts =
  count :: int
  sum1 :: int
  sum2 :: int
  flag_failure :: bool

abbreviation check :: "(counts \<Rightarrow> bool) \<Rightarrow> counts stmt" where
  "check b \<equiv> Act (\<lambda>_ s. s\<lparr>flag_failure := flag_failure s \<or> \<not> b s\<rparr>)"

abbreviation set_count :: "int \<Rightarrow> counts stmt" where
  "set_count n \<equiv> Act (\<lambda>_ s. s\<lparr>count := n\<rparr>)"

text \<open>A handler that makes assertions about the error code and the state, before and after it increments the counter.\<close>

definition counting :: "(int \<Rightarrow> counts \<Rightarrow> bool) \<Rightarrow> (counts \<Rightarrow> bool) \<Rightarrow> counts handler" where
  "counting before after e s =
     (let s1 = s\<lparr>count := count s + 1\<rparr> in (s1\<lparr>flag_failure := flag_failure s \<or> \<not> before e s \<or> \<not> after s1\<rparr>, False))"

abbreviation counts_up :: "counts handler" where
  "counts_up \<equiv> counting (\<lambda>_ _. True) (\<lambda>_. True)"

definition must_not_run :: "counts handler" where
  "must_not_run e s = (s\<lparr>flag_failure := True\<rparr>, False)"

definition nested_finally :: "counts handler" where
  "nested_finally e s = (case attempt [Finally counts_up] s of (escapes, s1) \<Rightarrow>
     if escapes then (s1, True) else (s1\<lparr>count := count s1 + 1\<rparr>, False))"

definition test_exc_empty_body :: "counts stmt list" where
  "test_exc_empty_body =
     [set_count 0,
      Try_with [],
      Try_with [Finally (counting (\<lambda>e s. e = 0 \<and> count s = 0) (\<lambda>_. True)), On_error must_not_run],
      check (\<lambda>s. count s = 1),
      set_count 0,
      Try_with [Finally (counting (\<lambda>_ _. True) (\<lambda>s. count s = 2)), Finally (counting (\<lambda>_ _. True) (\<lambda>s. count s = 1))],
      check (\<lambda>s. count s = 2),
      set_count 10,
      Try_with [Finally nested_finally, check (\<lambda>s. count s = 10)],
      check (\<lambda>s. count s = 12)]"

definition test_exc_catcher_match :: "counts stmt list" where
  "test_exc_catcher_match =
     [set_count 0,
      Try_with [On_error counts_up, On_error counts_up, Raise],
      check (\<lambda>s. count s = 2),
      set_count 0,
      Try_with [Raise, On_error must_not_run, On_error must_not_run],
      check (\<lambda>s. count s = 0),
      set_count 0,
      Try_with [On_error counts_up, Raise, On_error must_not_run],
      check (\<lambda>s. count s = 1)]"

definition foo2 :: "counts stmt list" where
  "foo2 = [Raise]"

definition foo :: "counts stmt list" where
  "foo = [Try_with (Finally counts_up # foo2 @ [check (\<lambda>_. False)])]"

text \<open>\<^verbatim>\<open>__bar\<close> ends by returning its counter.\<close>

definition bar :: "counts stmt list" where
  "bar = [set_count 0,
      Act (\<lambda>context s. s\<lparr>flag_failure := flag_failure s \<or> \<not> context\<rparr>),
      Try_with (On_error (counting (\<lambda>_ s. count s = 1) (\<lambda>_. True)) # foo),
      check (\<lambda>s. count s = 2)]"

definition test_exc_unwind :: "counts stmt list" where
  "test_exc_unwind =
     [Try_with (On_error must_not_run # bar @ [check (\<lambda>s. count s = 2)]),
      Act (\<lambda>context s. s\<lparr>flag_failure := flag_failure s \<or> context\<rparr>)]"

text \<open>The loops run \<open>n\<close> times, with \<open>n = 10000000\<close> in the tests. The clock and the report are left out.\<close>

definition compute_func :: "int \<Rightarrow> counts stmt list" where
  "compute_func m = [Raise]"

definition compute_func2 :: "int \<Rightarrow> int" where
  "compute_func2 m = m * 3"

definition throwing_body :: "int \<Rightarrow> counts stmt" where
  "throwing_body i = Try_with ([Finally (\<lambda>e s. (s\<lparr>sum1 := sum1 s + i\<rparr>, False)), Act (\<lambda>_ s. s\<lparr>sum2 := sum2 s + i\<rparr>)] @ compute_func i)"

definition quiet_body :: "int \<Rightarrow> counts stmt" where
  "quiet_body i = Try_with [Act (\<lambda>_ s. s\<lparr>sum2 := sum2 s + 3 * i\<rparr>), Act (\<lambda>_ s. s\<lparr>sum1 := sum1 s + compute_func2 i\<rparr>)]"

definition test_exc_inloop :: "nat \<Rightarrow> counts stmt list" where
  "test_exc_inloop n = Act (\<lambda>_ s. s\<lparr>sum1 := 0, sum2 := 0\<rparr>) # map throwing_body [1..int n] @
     [check (\<lambda>s. sum2 s = int n * (int n + 1) div 2)]"

definition test_exc_inloop2 :: "nat \<Rightarrow> counts stmt list" where
  "test_exc_inloop2 n = Act (\<lambda>_ s. s\<lparr>sum1 := 0, sum2 := 0\<rparr>) # map quiet_body [1..int n] @
     [check (\<lambda>s. sum1 s = sum2 s), check (\<lambda>s. sum1 s = 3 * int n * (int n + 1) div 2)]"

section \<open>The lists pass\<close>

lemmas list_test_defs = expect_that_def expect_now_def change_def change_all_def set_num_def init_node_def for_each_def
  push_char_def make_list_def

lemmas list_defs = rlnode_init_def rlnode_new_def is_rlist_empty_def rl_splice_def rlnode_swap_def rlist_remove_def
  rlist_push_front_def rlist_push_back_def rlist_pop_back_def rlist_append_def rlist_prepend_def Let_def
  rlist_len_def rlist_len_loop.simps rlist_equal_def rlist_equal_loop.simps rlist_select_def rlist_select_loop.simps

lemma list_init_passes: "map_option failed (test_list_init 1 2 3 4 s) = Some (failed s)"
  by (simp add: test_list_init_def list_test_defs list_defs)

lemma list_queue_passes: "map_option failed (test_list_queue 1 10 s) = Some (failed s)"
  by (simp add: test_list_queue_def pop_empty_def drain_queue.simps list_test_defs list_defs upt_conv_Cons)

lemma list_select_passes: "map_option failed (test_list_select 1 2 10 1000 s) = Some (failed s)"
  by (simp add: test_list_select_def build_list_def list_test_defs list_defs upt_conv_Cons keys_in_order.simps
      gt5_def short_at_def shorts_def)

lemma list_prepend_passes: "map_option failed (test_list_prepend 1 2 3 4 10 1000 s) = Some (failed s)"
  by (simp add: test_list_prepend_def build_list_def list_test_defs list_defs upt_conv_Cons)

text \<open>A list made from a string holds new nodes; the lists beside it stay as they are.\<close>

definition apart :: "nodes \<Rightarrow> nat \<Rightarrow> nat list \<Rightarrow> nat \<Rightarrow> nat list \<Rightarrow> bool" where
  "apart s l xs c zs \<longleftrightarrow> ring (links s) c zs \<and> set (l # xs) \<inter> set (c # zs) = {} \<and> (\<forall>x \<in> set (c # zs). x < fresh s)"

definition grown :: "nat \<Rightarrow> nat list \<Rightarrow> string \<Rightarrow> nodes \<Rightarrow> nodes \<Rightarrow> bool" where
  "grown l xs data s s' \<longleftrightarrow>
     (let new = [fresh s..<fresh s + length data]
      in ring (links s') l (xs @ new) \<and> map (num s') new = map char_num data \<and> fresh s' = fresh s + length data \<and>
         failed s' = failed s \<and> (\<forall>x < fresh s. x \<noteq> l \<longrightarrow> num s' x = num s x) \<and>
         (\<forall>c zs. apart s l xs c zs \<longrightarrow> ring (links s') c zs))"

lemma ring_new_frame: "ring h c zs \<Longrightarrow> p \<notin> set (c # zs) \<Longrightarrow> ring (rlnode_new p h) c zs"
  by (rule ring_cong) (auto simp: rlnode_new_def)

lemma push_char_grows:
  assumes "ring (links s) l xs" and "\<forall>x \<in> set (l # xs). x < fresh s"
  shows "\<exists>s'. push_char l d s = Some s' \<and> grown l xs [d] s s'"
proof -
  let ?n = "fresh s" and ?h = "rlnode_new (fresh s) (links s)"
  have r: "ring ?h l xs" "ring ?h ?n []"
    using assms ring_new_frame [of "links s" l xs ?n] by (auto simp: ring_new)
  have d: "set (l # xs) \<inter> set [?n] = {}" using assms(2) by auto
  have "ring (rlist_push_back l ?n ?h) c zs" if "apart s l xs c zs" for c zs
    using that d by (intro rlist_push_back_frame [OF _ r] ring_new_frame) (auto simp: apart_def)
  with ring_push_back [OF r d] show ?thesis
    by (simp add: push_char_def Let_def change_def set_num_def grown_def)
qed

lemma push_chars_grow:
  "ring (links s) l xs \<Longrightarrow> \<forall>x \<in> set (l # xs). x < fresh s \<Longrightarrow>
     \<exists>s'. for_each data (push_char l) s = Some s' \<and> grown l xs data s s'"
proof (induction data arbitrary: s xs)
  case Nil
  then show ?case by (simp add: for_each_def grown_def apart_def)
next
  case (Cons d data)
  from push_char_grows [OF Cons.prems, of d] obtain s1 where
    s1: "push_char l d s = Some s1" "grown l xs [d] s s1" by blast
  have "\<exists>s'. for_each data (push_char l) s1 = Some s' \<and> grown l (xs @ [fresh s]) data s1 s'"
    using s1(2) Cons.prems(2) by (intro Cons.IH) (auto simp: grown_def less_Suc_eq)
  then obtain s' where s': "for_each data (push_char l) s1 = Some s'" "grown l (xs @ [fresh s]) data s1 s'" by blast
  have "apart s1 l (xs @ [fresh s]) c zs" if "apart s l xs c zs" for c zs
    using that s1(2) by (fastforce simp: apart_def grown_def)
  moreover have "[fresh s..<fresh s + length (d # data)] = fresh s # [Suc (fresh s)..<Suc (fresh s) + length data]"
    by (simp add: upt_conv_Cons del: upt_Suc)
  moreover have "num s1 (fresh s) = char_num d" using s1(2) by (simp add: grown_def)
  ultimately have "grown l xs (d # data) s s'"
    using s1(2) s'(2) Cons.prems(2) unfolding grown_def Let_def by (auto simp del: upt_Suc)
  with s1(1) s'(1) show ?case by (simp add: for_each_def)
qed

lemma make_list_grows:
  assumes "l < fresh s" and "length data < 2 ^ 32"
  shows "\<exists>s'. make_list l data s = Some s' \<and> grown l [] data s s'"
proof -
  let ?s = "s\<lparr>links := rlnode_new l (links s), num := (num s)(l := 0)\<rparr>"
  from push_chars_grow [of ?s l "[]" data] assms(1) obtain s' where
    s': "for_each data (push_char l) ?s = Some s'" "grown l [] data ?s s'" by (auto simp: ring_new)
  have "apart ?s l [] c zs" if "apart s l [] c zs" for c zs
    using that by (auto simp: apart_def intro: ring_new_frame)
  with s'(2) have g: "grown l [] data s s'" by (auto simp: grown_def Let_def)
  have "ucast (of_nat (length data) :: u32) = (of_nat (length data) :: u64)"
    using assms(2) by (simp add: unsigned_of_nat take_bit_nat_eq_self)
  with g have "rlist_len l (links s') = Some (of_nat (length data))"
    using ring_len [of "links s'" l "[fresh s..<fresh s + length data]"] by (simp add: grown_def Let_def)
  with s'(1) g show ?thesis
    by (auto simp: make_list_def init_node_def rlnode_init_def expect_that_def)
qed

lemma for_each_keeps:
  assumes "\<And>x s. x \<in> set xs \<Longrightarrow> P s \<Longrightarrow> \<exists>s'. f x s = Some s' \<and> P s'" and "P s"
  shows "\<exists>s'. for_each xs f s = Some s' \<and> P s'"
  using assms
proof (induction xs arbitrary: s)
  case (Cons x xs)
  from Cons.prems(1) [of x, OF _ Cons.prems(2)] obtain s1 where "f x s = Some s1" "P s1" by auto
  with Cons.IH [of s1] Cons.prems(1) show ?case by (auto simp: for_each_def)
qed (simp add: for_each_def)

lemma steps_append: "steps (fs @ gs) s = Option.bind (steps fs s) (steps gs)"
  by (induction fs arbitrary: s) (simp_all split: Option.bind_split)

lemma char_num_eq: "char_num c = char_num d \<longleftrightarrow> c = d"
proof -
  have "0 \<le> (of_char x :: int) \<and> (of_char x :: int) < 256" for x
    using of_char_mod_256 [of x, where 'a = int] by (metis pos_mod_bound pos_mod_sign zero_less_numeral)
  from this [of c] this [of d] show ?thesis by (auto simp: char_num_def Let_def)
qed

lemma char_num_inj: "map char_num xs = map char_num ys \<longleftrightarrow> xs = ys"
  by (rule inj_map_eq_map) (simp add: inj_on_def char_num_eq)

lemma grown_apart:
  "grown l xs data s s' \<Longrightarrow> apart s l xs c zs \<Longrightarrow> ring (links s') c zs \<and> map (num s') zs = map (num s) zs"
  by (fastforce simp: grown_def apart_def Let_def)

lemma grown_list:
  assumes "grown l [] data s s'" and "l < fresh s"
  shows "ring (links s') l [fresh s..<fresh s + length data]"
    and "map (num s') [fresh s..<fresh s + length data] = map char_num data"
    and "fresh s' = fresh s + length data" and "failed s' = failed s"
    and "c \<noteq> l \<Longrightarrow> c < fresh s \<Longrightarrow> apart s' c [] l [fresh s..<fresh s + length data]"
  using assms by (auto simp: grown_def apart_def Let_def)

lemma list_equal_passes:
  assumes "10 < fresh s"
  shows "map_option failed (test_list_equal 1 2 s) = Some (failed s)"
proof -
  let ?P = "\<lambda>t. failed t = failed s \<and> 10 < fresh t"
  let ?body = "\<lambda>i j. steps [make_list 1 (Data ! i), make_list 2 (Data ! j),
     expect_that (\<lambda>s. map_option (\<lambda>b. b \<longleftrightarrow> i = j) (rlist_equal 1 2 (num s) (links s)))]"
  have pair: "\<exists>s'. ?body i j t = Some s' \<and> ?P s'" if i: "i \<in> set [0..<5]" and j: "j \<in> set [0..<5]" and P: "?P t" for i j t
  proof -
    have short: "length (Data ! k) < 2 ^ 32" if "k \<in> set [0..<5]" for k
      using that by (auto simp: Data_def nth_Cons' upt_conv_Cons)
    obtain s1 where s1: "make_list 1 (Data ! i) t = Some s1" "grown 1 [] (Data ! i) t s1"
      using make_list_grows [of 1 t "Data ! i"] short [OF i] P by auto
    obtain s2 where s2: "make_list 2 (Data ! j) s1 = Some s2" "grown 2 [] (Data ! j) s1 s2"
      using make_list_grows [of 2 s1 "Data ! j"] short [OF j] P s1(2) by (auto simp: grown_def Let_def)
    have f: "1 < fresh t" using P by simp
    note l1 = grown_list [OF s1(2) f]
    have "2 < fresh s1" using P l1(3) by simp
    note l2 = grown_list [OF s2(2) this]
    have a: "ring (links s2) 1 [fresh t..<fresh t + length (Data ! i)]"
      "map (num s2) [fresh t..<fresh t + length (Data ! i)] = map char_num (Data ! i)"
      using grown_apart [OF s2(2) l1(5)] l1(2,3) P by simp_all
    have "rlist_equal 1 2 (num s2) (links s2) = Some (Data ! i = Data ! j)"
      unfolding ring_equal [OF a(1) l2(1)] a(2) l2(2) char_num_inj by (rule refl)
    moreover have "(Data ! i = Data ! j) = (i = j)"
      using i j by (auto simp: Data_def nth_Cons' upt_conv_Cons)
    ultimately show ?thesis
      using s1 s2 P by (auto simp: expect_that_def grown_def Let_def)
  qed
  have "\<exists>s'. test_list_equal 1 2 s = Some s' \<and> ?P s'"
    unfolding test_list_equal_def by (intro for_each_keeps pair) (use assms in auto)
  then show ?thesis by auto
qed

lemma data_short: "data \<in> set Data \<Longrightarrow> length data < 2 ^ 32"
  by (auto simp: Data_def)

lemma rlist_append_frame:
  assumes "ring h c zs" "ring h d xs" "ring h l ys"
    and "set (c # zs) \<inter> set (d # xs) = {}" "set (c # zs) \<inter> set (l # ys) = {}" "set (d # xs) \<inter> set (l # ys) = {}"
  shows "ring (rlist_append d l h) c zs"
  unfolding rlist_append_def
  by (rule rlist_remove_frame [OF rlist_push_back_frame [OF assms(1-5)] ring_push_back [OF assms(2,3,6)]])
     (use assms(4,5) in auto)

lemma append_joins_strings:
  assumes "10 < fresh s" and short: "length (h @ w) < 2 ^ 32"
  shows "map_option failed (steps
     [make_list 1 h, make_list 2 w, init_node 3 0, change (rlist_append 3 1), change (rlist_append 3 2), make_list 1 (h @ w),
      expect_that (\<lambda>s. rlist_equal 3 1 (num s) (links s))] s) = Some (failed s)"
proof -
  have f: "1 < fresh s" using assms by simp
  obtain s1 where s1: "make_list 1 h s = Some s1" "grown 1 [] h s s1"
    using make_list_grows [OF f, of h] short by auto
  note l1 = grown_list [OF s1(2) f]
  have f1: "2 < fresh s1" using l1(3) assms by simp
  obtain s2 where s2: "make_list 2 w s1 = Some s2" "grown 2 [] w s1 s2"
    using make_list_grows [OF f1, of w] short by auto
  note l2 = grown_list [OF s2(2) f1]
  define xs ys where "xs = [fresh s..<fresh s + length h]" and "ys = [fresh s1..<fresh s1 + length w]"
  have r2: "ring (links s2) 1 xs" "map (num s2) xs = map char_num h" "ring (links s2) 2 ys" "map (num s2) ys = map char_num w"
    using grown_apart [OF s2(2) l1(5)] l1(2) l2(1,2) assms by (simp_all add: xs_def ys_def)
  let ?h3 = "rlnode_new 3 (links s2)"
  have nodes: "\<forall>x \<in> set xs \<union> set ys. 10 < x" "set xs \<inter> set ys = {}"
    using assms l1(3) l2(3) by (auto simp: xs_def ys_def)
  then have "k \<notin> set xs \<union> set ys" if "k \<le> 10" for k using that by (meson not_less)
  from this [of 1] this [of 2] this [of 3] have "1 \<notin> set xs \<union> set ys" "2 \<notin> set xs \<union> set ys" "3 \<notin> set xs \<union> set ys"
    by simp_all
  note nodes = this nodes(2)
  have r3: "ring ?h3 1 xs" "ring ?h3 2 ys" "ring ?h3 3 []"
    using r2(1,3) nodes by (auto intro!: ring_new_frame ring_new)
  let ?h4 = "rlist_append 3 1 ?h3"
  have r4: "ring ?h4 3 xs" "ring ?h4 1 []" "ring ?h4 2 ys"
    using ring_append [OF r3(3,1)] rlist_append_frame [OF r3(2,3,1)] nodes by auto
  let ?h5 = "rlist_append 3 2 ?h4"
  have r5: "ring ?h5 3 (xs @ ys)"
    using ring_append [OF r4(1,3)] nodes by auto
  define s3 where "s3 = s2\<lparr>num := (num s2)(3 := 0), links := ?h5\<rparr>"
  have f3: "1 < fresh s3" using assms l1(3) l2(3) by (simp add: s3_def)
  obtain s4 where s4: "make_list 1 (h @ w) s3 = Some s4" "grown 1 [] (h @ w) s3 s4"
    using make_list_grows [OF f3, of "h @ w"] short by auto
  note l4 = grown_list [OF s4(2) f3]
  have m: "map (num s3) (xs @ ys) = map char_num (h @ w)"
    using r2(2,4) nodes by (simp add: s3_def xs_def ys_def)
  have ap: "apart s3 1 [] 3 (xs @ ys)"
    using r5 nodes assms l1(3) l2(3) by (auto simp: apart_def s3_def xs_def ys_def)
  have r6: "ring (links s4) 3 (xs @ ys)" "map (num s4) (xs @ ys) = map char_num (h @ w)"
    using grown_apart [OF s4(2) ap] m by (simp_all only:)
  have "rlist_equal 3 1 (num s4) (links s4) = Some True"
    unfolding ring_equal [OF r6(1) l4(1)] r6(2) l4(2) by simp
  with s1(1) s2(1) s4 l1(4) l2(4) l4(4) show ?thesis
    by (simp add: init_node_def rlnode_init_def change_def expect_that_def s3_def)
qed

lemma list_append_passes: "10 < fresh s \<Longrightarrow> map_option failed (test_list_append 1 2 3 s) = Some (failed s)"
  using append_joins_strings [of s "''Hello ''" "''world''"] by (simp add: test_list_append_def)

lemma list_len_passes:
  assumes "100 < fresh s"
  shows "map_option failed (test_list_len 1 10 s) = Some (failed s)"
proof -
  let ?P = "\<lambda>t. failed t = failed s \<and> 10 < fresh t"
  let ?body = "\<lambda>data. steps [make_list 1 data, has_len 1 (length data)]"
  have step: "\<exists>s'. ?body data t = Some s' \<and> ?P s'" if d: "data \<in> set Data" and P: "?P t" for data t
  proof -
    have f: "1 < fresh t" using P by simp
    obtain s1 where s1: "make_list 1 data t = Some s1" "grown 1 [] data t s1"
      using make_list_grows [OF f data_short [OF d]] by auto
    note l1 = grown_list [OF s1(2) f]
    have "rlist_len 1 (links s1) = Some (of_nat (length data))"
      using ring_len [OF l1(1)] data_short [OF d] by (simp add: unsigned_of_nat take_bit_nat_eq_self)
    with s1(1) l1(3,4) P show ?thesis by (auto simp: expect_that_def)
  qed
  let ?first = "[change (rlnode_new 1),
      for_each [0..<10] (\<lambda>i. steps
        [has_len 1 i, change (rlnode_new (10 + i)), set_num (10 + i) (int i), change (rlist_push_back 1 (10 + i)), has_len 1 (i + 1)]),
      has_len 1 10,
      for_each [0, 2, 4, 6, 8] (\<lambda>i. remove_one 1 (10 + i)),
      for_each [1, 3, 5, 7, 9] (\<lambda>i. remove_one 1 (10 + i))]"
  have all: "test_list_len 1 10 s = Option.bind (steps ?first s) (steps [for_each Data ?body])"
    by (simp only: test_list_len_def steps_append [symmetric] append.simps)
  obtain s1 where s1: "steps ?first s = Some s1" "failed s1 = failed s" "fresh s1 = fresh s"
    by (simp add: remove_one_def list_test_defs list_defs upt_conv_Cons)
  have "\<exists>s'. for_each Data ?body s1 = Some s' \<and> ?P s'"
    by (intro for_each_keeps step) (use s1 assms in auto)
  with s1(1) show ?thesis unfolding all by auto
qed

section \<open>The argument vectors pass\<close>

lemma test_argv_passes:
  assumes "terminated argv" and "length (packed argv) < 2 ^ 31" and "\<And>n. length (junk n) = n"
  shows "test_argv junk (length argv) argv flag = Inr flag"
proof -
  let ?n = "length (packed argv)" and ?buf = "packed argv"
  have l: "sint (ucast (of_nat ?n :: u64) :: 32 word) = int ?n"
    using assms(2) by (simp add: unsigned_of_nat take_bit_nat_eq_self signed_of_nat signed_take_bit_int_eq_self)
  have "length argv < 2 ^ 31" using packed_length [of argv] assms(2) by simp
  then obtain offs where u: "argvunpack (length argv) (packed argv) = Inr (offs, ?n)"
    "map (\<lambda>a. cstring (drop a (packed argv))) offs = map cstring argv"
    using argvunpack_packed [of argv "[]"] by auto
  have "cstring (argv ! i) = cstring (drop (offs ! i) (packed argv))" if "i < length argv" for i
    using u(2) that by (metis length_map nth_map)
  moreover have "argvpack (junk ?n) (length argv) argv = Inr (packed argv, of_nat ?n)"
    using argvpack_eq [OF assms(1), of "junk ?n"] assms(2,3) by simp
  ultimately show ?thesis
    using argscount_packed [OF assms(2), of "[]"] u(1) l by (simp add: test_argv_def argvlen_eq [OF assms(1)])
qed

lemma test_vector_passes:
  assumes "length (packed (map c_string strings)) = len" and "len < 2 ^ 31" and "\<And>n. length (junk n) = n"
  shows "test_vector junk strings len flag = Inr flag"
proof -
  have t: "terminated (map c_string strings)" by (auto simp: c_string_def)
  show ?thesis
    using test_argv_passes [OF t, of junk flag] argvlen_eq [OF t] assms by (simp add: test_vector_def Let_def)
qed

lemma pack_unpack_passes: "(\<And>n. length (junk n) = n) \<Longrightarrow> test_pack_unpack junk flag = Inr flag"
  by (simp add: test_pack_unpack_def test_vector_passes c_string_def cstring_def)

section \<open>The exceptions pass\<close>

lemmas exc_test_defs = attempt_def leave_def counting_def must_not_run_def Let_def

lemma exc_empty_body_passes: "flag_failure (alones test_exc_empty_body s) = flag_failure s"
  by (simp add: test_exc_empty_body_def nested_finally_def exc_test_defs)

lemma exc_catcher_match_passes: "flag_failure (alones test_exc_catcher_match s) = flag_failure s"
  by (simp add: test_exc_catcher_match_def exc_test_defs)

lemma exc_unwind_passes: "flag_failure (alones test_exc_unwind s) = flag_failure s"
  by (simp add: test_exc_unwind_def bar_def foo_def foo2_def exc_test_defs)

lemma alones_append: "alones (ps @ qs) s = alones qs (alones ps s)"
  by (induction ps arbitrary: s) simp_all

lemma throwing_alone: "alone (throwing_body i) s = s\<lparr>sum1 := sum1 s + i, sum2 := sum2 s + i\<rparr>"
  by (simp add: throwing_body_def compute_func_def attempt_def leave_def)

lemma quiet_alone: "alone (quiet_body i) s = s\<lparr>sum1 := sum1 s + 3 * i, sum2 := sum2 s + 3 * i\<rparr>"
  by (simp add: quiet_body_def compute_func2_def attempt_def leave_def)

lemma throwing_loop: "alones (map throwing_body is) s = s\<lparr>sum1 := sum1 s + sum_list is, sum2 := sum2 s + sum_list is\<rparr>"
  by (induction "is" arbitrary: s) (simp_all add: throwing_alone)

lemma quiet_loop: "alones (map quiet_body is) s = s\<lparr>sum1 := sum1 s + 3 * sum_list is, sum2 := sum2 s + 3 * sum_list is\<rparr>"
  by (induction "is" arbitrary: s) (simp_all add: quiet_alone)

lemma gauss: "sum_list [1..int n] * 2 = int n * (int n + 1)"
proof (induction n)
  case (Suc n)
  have "[1..int (Suc n)] = [1..int n] @ [int n + 1]" using upto_rec2 [of 1 "int n + 1"] by (simp add: add.commute)
  with Suc show ?case by (simp add: algebra_simps)
qed simp

lemma gauss_div: "int n * (int n + 1) div 2 = sum_list [1..int n]" "3 * int n * (int n + 1) div 2 = 3 * sum_list [1..int n]"
proof -
  have "3 * int n * (int n + 1) = (3 * sum_list [1..int n]) * 2" using gauss [of n] by (simp add: algebra_simps)
  then show "3 * int n * (int n + 1) div 2 = 3 * sum_list [1..int n]" by simp
qed (simp flip: gauss)

lemma exc_inloop_passes:
  "flag_failure (alones (test_exc_inloop n) s) = flag_failure s"
  "sum1 (alones (test_exc_inloop n) s) = int n * (int n + 1) div 2"
  by (simp_all add: test_exc_inloop_def alones_append throwing_loop gauss_div)

lemma exc_inloop2_passes: "flag_failure (alones (test_exc_inloop2 n) s) = flag_failure s"
  by (simp add: test_exc_inloop2_def alones_append quiet_loop gauss_div)

text \<open>
  The test of the list as a queue empties it with \<^verbatim>\<open>rlist_pop_back\<close>, which takes away all nodes at once: the loop ends after the first of its ten
  rounds, and the test passes.
\<close>

lemma one_pop_drains:
  assumes "ring (links s) L (xs @ [x])" and "\<not> failed s"
  shows "\<exists>s'. drain_queue L x s = Some s' \<and> \<not> failed s' \<and> ring (links s') L []"
proof -
  obtain n h where p: "rlist_pop_back L (links s) = (n, h)" by fastforce
  note r = ring_pop_back [OF assms(1) p]
  have e: "\<not> is_rlist_empty L (links s)" "is_rlist_empty L h"
    using ring_is_empty [OF assms(1)] ring_is_empty [OF r(2)] by simp_all
  show ?thesis
    using r(1,2) e assms(2) by (subst drain_queue.simps) (simp add: p drain_queue.simps)
qed

section \<open>All of them\<close>

text \<open>Every test, from a state in which no assertion has failed and with the stack at addresses below those of \<^verbatim>\<open>malloc\<close>.\<close>

definition list_tests :: "list_test list" where
  "list_tests = [test_list_init 1 2 3 4, test_list_len 1 10, test_list_queue 1 10, test_list_select 1 2 10 1000,
     test_list_equal 1 2, test_list_prepend 1 2 3 4 10 1000, test_list_append 1 2 3]"

definition exception_tests :: "counts stmt list list" where
  "exception_tests = [test_exc_empty_body, test_exc_catcher_match, test_exc_unwind,
     test_exc_inloop 10000000, test_exc_inloop2 10000000]"

lemma exception_tests_scoped: "\<forall>t \<in> set exception_tests. \<forall>p \<in> set t. scoped p"
  by (auto simp: exception_tests_def test_exc_empty_body_def test_exc_catcher_match_def test_exc_unwind_def
      test_exc_inloop_def test_exc_inloop2_def throwing_body_def quiet_body_def)

lemma util_tests_pass:
  assumes "100 < fresh s" and "\<not> failed s" and "\<And>n. length (junk n) = n" and "\<not> flag_failure c"
  shows "(\<forall>t \<in> set list_tests. map_option failed (t s) = Some False) \<and>
     test_pack_unpack junk False = Inr False \<and>
     (\<forall>t \<in> set exception_tests. \<exists>c'. run_stmts t [] c = Inr (True, [], c') \<and> \<not> flag_failure c')"
proof (intro conjI)
  show "\<forall>t \<in> set list_tests. map_option failed (t s) = Some False"
    using assms(1,2) list_init_passes [of s] list_len_passes [of s] list_queue_passes [of s] list_select_passes [of s]
      list_equal_passes [of s] list_prepend_passes [of s] list_append_passes [of s]
    unfolding list_tests_def by (simp only: list.set ball_simps)
  show "test_pack_unpack junk False = Inr False"
    by (rule pack_unpack_passes) (rule assms(3))
  have "\<forall>t \<in> set exception_tests. flag_failure (alones t c) = flag_failure c"
    unfolding exception_tests_def
    by (simp only: list.set ball_simps exc_empty_body_passes exc_catcher_match_passes exc_unwind_passes
        exc_inloop_passes exc_inloop2_passes simp_thms)
  then have "\<not> flag_failure (alones t c)" if "t \<in> set exception_tests" for t
    using that assms(4) by simp
  moreover have "run_stmts t [] c = Inr (True, [], alones t c)" if "t \<in> set exception_tests" for t
    by (rule run_alone(2)) (rule bspec [OF exception_tests_scoped that])
  ultimately show "\<forall>t \<in> set exception_tests. \<exists>c'. run_stmts t [] c = Inr (True, [], c') \<and> \<not> flag_failure c'"
    by (intro ballI exI conjI)
qed

end
