(* ===== verification/Spec2Isabelle.thy ===== *)
theory Spec2Isabelle
  imports Prelude RList Argv Exceptions Bios Sched Cc KState Pipe Files Dev Socket Streams Refcount Proc ProcTree ProcSpec Threads Syscalls Boot Symposium Programs Shell Pipeline
    Remote Launch Server ServerLog ProcInfo SymposiumRun PipeWait SocketWait ApiTests TestBench SocketBench ApiTestsRun SocketTestsRun
    Harness HarnessSpec ApiSuite ExcBlocks UtilTests
begin

text \<open>
  A verification development for TinyOS-3, a small operating system in C that runs on a virtual machine
  made of POSIX threads.

  \<^bold>\<open>The program.\<close> \<^verbatim>\<open>bios.c\<close> is the machine: cores, interrupts, timers and serial devices. On it
  \<^verbatim>\<open>kernel_sched.c\<close> switches threads, and \<^verbatim>\<open>kernel_cc.c\<close> gives spin mutexes, condition variables, and the one
  lock under which every system call runs. The system calls act on three tables: processes
  (\<^verbatim>\<open>kernel_proc.c\<close>), threads of processes (\<^verbatim>\<open>kernel_threads.c\<close>) and file control blocks
  (\<^verbatim>\<open>kernel_streams.c\<close>), whose streams are devices (\<^verbatim>\<open>kernel_dev.c\<close>), pipes (\<^verbatim>\<open>kernel_pipe.c\<close>),
  sockets (\<^verbatim>\<open>kernel_socket.c\<close>) or lists of processes. \<^verbatim>\<open>util.h\<close> holds the intrusive lists, the packing
  of arguments and the exceptions; \<^verbatim>\<open>tinyoslib.c\<close>, \<^verbatim>\<open>tinyos_shell.c\<close> and \<^verbatim>\<open>symposium.c\<close> are programs
  and their library.

  \<^bold>\<open>The model.\<close> An operation is a function that returns \<open>Inr\<close> of its result and the new state, or \<open>Inl\<close> of a
  fault: a failed assertion, a null or dangling pointer, an access outside an array, an \<^verbatim>\<open>int\<close> that overflows, a
  division by zero (theory \<open>Prelude\<close>). The state of the kernel is the record \<open>kernel\<close> of \<open>KState\<close>, which contains the record \<open>cc\<close> of
  concurrency control, which contains the record \<open>sched\<close> of the scheduler. A pointer is an address in a
  partial map, or an index when it points into a table; \<^verbatim>\<open>malloc\<close> never gives an address
  twice, so that a use of freed memory is a fault. The intrusive lists are modelled at the level of pointers in
  \<open>RList\<close>, and are lists of addresses elsewhere. A system call that waits returns \<open>Wait\<close> with its
  place, and a function whose name ends in \<open>_resume\<close> continues it; between the two other calls run. What other
  code does is an input of the model: results of the serial devices, failures of \<^verbatim>\<open>malloc\<close>, the
  choices of the environment while a thread has yielded.

  \<^item> \<open>RList\<close>: the lists of \<^verbatim>\<open>util.h\<close>; each operation refines one on lists of addresses.
  \<^item> \<open>Argv\<close>: \<^verbatim>\<open>argvlen\<close>, \<^verbatim>\<open>argvpack\<close>, \<^verbatim>\<open>argscount\<close>, \<^verbatim>\<open>argvunpack\<close> of \<^verbatim>\<open>util.h\<close>, and \<^verbatim>\<open>Execute\<close> and
    \<^verbatim>\<open>exec_wrapper\<close> of \<^verbatim>\<open>tinyoslib.c\<close>; packing and unpacking are inverse, as long as no counter overflows.
  \<^item> \<open>Exceptions\<close>, \<open>ExcBlocks\<close>: the frames and handlers of \<^verbatim>\<open>util.h\<close> and \<^verbatim>\<open>util.c\<close>; each handler runs once. Functions with
    \<^verbatim>\<open>TRY_WITH\<close> blocks on top of them, and their agreement with exceptions defined by recursion on the program.
  \<^item> \<open>Bios\<close>: cores, halting, interrupts, timers, serial devices and one round of the interrupt
    controller of \<^verbatim>\<open>bios.c\<close>.
  \<^item> \<open>Sched\<close>: \<^verbatim>\<open>kernel_sched.c\<close>; the invariant \<open>sched_inv\<close> of the queues, the timeouts and the phases of
    threads is kept by the context switch, wake-up and sleep.
  \<^item> \<open>Cc\<close>: \<^verbatim>\<open>kernel_cc.c\<close>; mutual exclusion of the mutexes and of the kernel lock in every
    interleaving, and who is woken by a signal or a broadcast.
  \<^item> \<open>KState\<close>, \<open>Files\<close>, \<open>Streams\<close>, \<open>Refcount\<close>: the kernel state, the file table and descriptors, the calls that
    go through them, and the proof that reference counts stay exact in every call.
  \<^item> \<open>Pipe\<close>, \<open>PipeWait\<close>, \<open>Dev\<close>, \<open>Socket\<close>, \<open>SocketWait\<close>: the ring buffer of a pipe and the threads that sleep on it, the null and
    serial devices, and sockets with their listeners, requests and connections.
  \<^item> \<open>Proc\<close>, \<open>ProcTree\<close>, \<open>ProcSpec\<close>: processes, and the wrapper of \<^verbatim>\<open>kernel_sys.c\<close> around a call; the step relation \<open>proc_step\<close> with all
    interleavings of the calls, labelled with what happens; the shape of the process table, its free list and its tree in the interleavings
    without the steps that break it (\<open>regular\<close>): a wait that resumes after another thread has reaped the child, which
    \<open>double_wait_gives_pcb_twice\<close> is about, and an exit after that of the initial process; and what \<^verbatim>\<open>Exec\<close>, \<^verbatim>\<open>WaitChild\<close>, \<^verbatim>\<open>Exit\<close> and \<^verbatim>\<open>OpenInfo\<close> do.
  \<^item> \<open>Threads\<close>: \<^verbatim>\<open>kernel_threads.c\<close>; joining, detaching and leaving threads.
  \<^item> \<open>Syscalls\<close>, \<open>Boot\<close>: the step relation \<open>sys_step\<close> of all system calls, labelled in the same way, its invariant \<open>system_ok\<close> in
    the regular interleavings, and the state after boot, where the invariant holds.
  \<^item> \<open>Symposium\<close>, \<open>SymposiumRun\<close>: the dining philosophers; neighbours never eat together, and a symposium that the
    programs of \<^verbatim>\<open>symposium.c\<close> hold with threads or processes ends.
  \<^item> \<open>Programs\<close>, \<open>Shell\<close>, \<open>Pipeline\<close>: programs of the shell, how it understands a line, and how it connects
    the processes of a line with pipes.
  \<^item> \<open>ProcInfo\<close>: what \<^verbatim>\<open>OpenInfo\<close> tells about the processes, and how \<^verbatim>\<open>ParseProcInfo\<close> of \<^verbatim>\<open>tinyoslib.c\<close> finds
    their arguments.
  \<^item> \<open>Remote\<close>, \<open>Launch\<close>, \<open>Server\<close>, \<open>ServerLog\<close>: the messages of the remote client and server as programs that make system calls,
    with the sizes of the buffers they read into, over the sockets of the kernel or another stream of bytes with the same laws; the programs that set up the standard streams of another (\<^verbatim>\<open>boot_shell\<close>,
    \<^verbatim>\<open>runterm\<close>, \<^verbatim>\<open>rsrv_process\<close>) and the program that such a process then runs; the threads of the server in every interleaving of their loads
    and stores; and its log, a list at the level of pointers.

  \<^item> \<open>Harness\<close>, \<open>HarnessSpec\<close>: the test library \<^verbatim>\<open>unit_testing.c\<close>: which tests a suite runs, when it succeeds
    and how deep suites can be nested, and its command line.
  \<^item> \<open>ApiTests\<close>: the tests of \<^verbatim>\<open>validate_api.c\<close> that one process runs, as programs that make system calls. \<open>TestBench\<close> and
    \<open>SocketBench\<close> say what each call does in such a process, in any consistent state; with them \<open>ApiTestsRun\<close> and \<open>SocketTestsRun\<close>
    run the tests, and \<open>ApiSuite\<close> puts them into suites with their timeouts and says which suites succeed and which use freed memory.
  \<^item> \<open>UtilTests\<close>: the tests of \<^verbatim>\<open>test_util.c\<close> for lists, argument vectors and exceptions, which pass on memory of any content.

  \<^bold>\<open>Interfaces.\<close> A locale states what a component relies on, and is interpreted on the model where the component that
  provides it is defined.

  \<^bold>\<open>Bounds and fuel.\<close> Sizes are those of the code (65536 processes and files, 16 descriptors, a buffer of 16384
  bytes, 1023 ports); unsigned counters and indices of the code that can wrap are words of their width, and the signed
  counters and sums of \<open>Argv\<close> and \<open>Symposium\<close> give the fault \<open>Int_overflow\<close>, as the overflow of an \<^verbatim>\<open>int\<close> is undefined in C. The
  loops that follow pointers are partial functions, so that a list that is not well formed gives no
  result. The other loops recurse on what bounds them in the code, such as the bytes in a pipe. Three loops
  take a number of rounds and give the fault \<open>No_return\<close> after them: the loop of \<^verbatim>\<open>Exit\<close> of the
  initial process has as many as there are processes, since each round reaps one; a write to a serial device has
  as many as its caller says, and so has the loop of \<^verbatim>\<open>ThreadExit\<close>, about which \<open>main_exit_spins\<close> shows that
  no number is enough when a thread is detached.

  \<^bold>\<open>Not modelled.\<close> The POSIX threads, signals, barriers and file descriptors under \<^verbatim>\<open>bios.c\<close>; the machine contexts and stacks of
  threads; what \<^verbatim>\<open>printf\<close> prints, apart from programs whose output is their point; the pseudo console of
  \<^verbatim>\<open>console.c\<close>, which passes the standard streams of the host to \<^verbatim>\<open>boot_shell\<close> when there are no terminals; the programs
  \<^verbatim>\<open>terminal.c\<close> and \<^verbatim>\<open>mtask.c\<close> that run beside the kernel on the host; the terminal proxies of the test library, which are threads of the
  host; the tests that start processes, measure time or need a user at the terminal.
\<close>

end
